(* ===== verification/Prelude.thy ===== *)
theory Prelude
  imports Main "HOL-Library.Word"
begin

unbundle bit_operations_syntax

text \<open>
  Shared vocabulary of the development: the machine integers of the C code, the status
  type every fallible function returns (include/common/hal_status.h), little- and
  big-endian packing, the control outcome of code that may reset the board, and the
  generic lemmas the component theories use.

  Conventions. A pointer/length pair \<open>(const uint8_t *p, len)\<close> that may be NULL is a
  \<open>u8 list option\<close>: \<open>None\<close> is the NULL pointer and \<open>Some ds\<close> the \<open>len\<close> bytes at \<open>p\<close>.
  File-scope variables and device registers are fields of a state record; a component
  that calls another extends its record, so the callee's operations (defined on the
  record scheme) apply to the caller's state as they stand.
\<close>

section \<open>Machine integers\<close>

type_synonym u8 = "8 word"
type_synonym u16 = "16 word"
type_synonym u32 = "32 word"
type_synonym u64 = "64 word"

named_theorems hal_defs \<open>definitional equations of operations, unfolded by component proofs\<close>
named_theorems frame_simps \<open>fields an operation leaves alone\<close>

section \<open>Status codes (include/common/hal_status.h)\<close>

datatype hal_status =
    HAL_OK
  | HAL_ERR
  | HAL_ERR_INVALID_ARG
  | HAL_ERR_TIMEOUT
  | HAL_ERR_BUSY
  | HAL_ERR_NOT_INITIALIZED
  | HAL_ERR_NOT_SUPPORTED
  | HAL_ERR_IO
  | HAL_ERR_NO_MEM

text \<open>The C enumeration's values.\<close>

primrec status_code :: "hal_status \<Rightarrow> nat" where
  "status_code HAL_OK = 0"
| "status_code HAL_ERR = 1"
| "status_code HAL_ERR_INVALID_ARG = 2"
| "status_code HAL_ERR_TIMEOUT = 3"
| "status_code HAL_ERR_BUSY = 4"
| "status_code HAL_ERR_NOT_INITIALIZED = 5"
| "status_code HAL_ERR_NOT_SUPPORTED = 6"
| "status_code HAL_ERR_IO = 7"
| "status_code HAL_ERR_NO_MEM = 8"

lemma status_code_inj: "status_code a = status_code b \<Longrightarrow> a = b"
  by (cases a; cases b; simp)

instantiation hal_status :: linorder
begin

definition less_eq_hal_status :: "hal_status \<Rightarrow> hal_status \<Rightarrow> bool" where
  "less_eq_hal_status a b \<longleftrightarrow> status_code a \<le> status_code b"

definition less_hal_status :: "hal_status \<Rightarrow> hal_status \<Rightarrow> bool" where
  "less_hal_status a b \<longleftrightarrow> status_code a < status_code b"

instance
  by standard
    (auto simp: less_eq_hal_status_def less_hal_status_def intro: status_code_inj)

end

text \<open>\<open>HAL_OK_OR_RETURN(e); rest\<close>: run \<open>e\<close>, return its status unless it is \<open>HAL_OK\<close>.\<close>

definition ok_or_return ::
    "hal_status \<times> 's \<Rightarrow> ('s \<Rightarrow> hal_status \<times> 's) \<Rightarrow> hal_status \<times> 's" where
  "ok_or_return r k = (case r of (st, s) \<Rightarrow> if st \<noteq> HAL_OK then (st, s) else k s)"

lemma ok_or_return_ok [simp]: "ok_or_return (HAL_OK, s) k = k s"
  by (simp add: ok_or_return_def)

lemma ok_or_return_err [simp]: "st \<noteq> HAL_OK \<Longrightarrow> ok_or_return (st, s) k = (st, s)"
  by (simp add: ok_or_return_def)

lemma ok_or_return_eq_ok:
  "ok_or_return r k = (HAL_OK, t) \<longleftrightarrow> (\<exists>s. r = (HAL_OK, s) \<and> k s = (HAL_OK, t))"
  by (cases r) (auto simp: ok_or_return_def)

section \<open>Code that may reset the board\<close>

text \<open>
  A call either returns a value with the new state, or the board resets and nothing after
  the call runs; the state then is what the reset finds.
\<close>

datatype ('a, 's) ctl = Returned 'a 's | BoardReset 's

primrec ctl_bind :: "('a, 's) ctl \<Rightarrow> ('a \<Rightarrow> 's \<Rightarrow> ('b, 's) ctl) \<Rightarrow> ('b, 's) ctl" where
  "ctl_bind (Returned a s) k = k a s"
| "ctl_bind (BoardReset s) k = BoardReset s"

primrec ctl_state :: "('a, 's) ctl \<Rightarrow> 's" where
  "ctl_state (Returned a s) = s"
| "ctl_state (BoardReset s) = s"

primrec is_reset :: "('a, 's) ctl \<Rightarrow> bool" where
  "is_reset (Returned a s) = False"
| "is_reset (BoardReset s) = True"

lemma ctl_bind_assoc: "ctl_bind (ctl_bind m f) g = ctl_bind m (\<lambda>a s. ctl_bind (f a s) g)"
  by (cases m) simp_all

lemma ctl_bind_cong: "(\<And>a s. f a s = g a s) \<Longrightarrow> ctl_bind m f = ctl_bind m g"
  by (cases m) simp_all

section \<open>Byte packing\<close>

definition le16 :: "u8 \<Rightarrow> u8 \<Rightarrow> u16" where
  "le16 b0 b1 = ucast b0 OR push_bit 8 (ucast b1)"

definition le32 :: "u8 \<Rightarrow> u8 \<Rightarrow> u8 \<Rightarrow> u8 \<Rightarrow> u32" where
  "le32 b0 b1 b2 b3 =
     ucast b0 OR push_bit 8 (ucast b1) OR push_bit 16 (ucast b2) OR push_bit 24 (ucast b3)"

definition be32 :: "u8 \<Rightarrow> u8 \<Rightarrow> u8 \<Rightarrow> u8 \<Rightarrow> u32" where
  "be32 b0 b1 b2 b3 =
     push_bit 24 (ucast b0) OR push_bit 16 (ucast b1) OR push_bit 8 (ucast b2) OR ucast b3"

text \<open>\<open>(v >> 8 * i) & 0xFF\<close> as a byte.\<close>

definition byte_of :: "nat \<Rightarrow> 'a::len word \<Rightarrow> u8" where
  "byte_of i v = ucast (drop_bit (8 * i) v)"

definition le16_bytes :: "u16 \<Rightarrow> u8 list" where
  "le16_bytes v = [byte_of 0 v, byte_of 1 v]"

definition le32_bytes :: "u32 \<Rightarrow> u8 list" where
  "le32_bytes v = [byte_of 0 v, byte_of 1 v, byte_of 2 v, byte_of 3 v]"

lemma bit_byte_of: "bit (byte_of i v) n \<longleftrightarrow> n < 8 \<and> bit v (8 * i + n)"
  by (auto simp: byte_of_def bit_simps)

lemma le16_bytes_inverse: "le16 (byte_of 0 v) (byte_of 1 v) = v"
  by (rule bit_word_eqI) (auto simp: le16_def bit_simps bit_byte_of)

lemma le32_bytes_inverse:
  "le32 (byte_of 0 v) (byte_of 1 v) (byte_of 2 v) (byte_of 3 v) = v"
proof (rule bit_word_eqI)
  fix n assume "n < LENGTH(32)"
  then consider "n < 8" | "8 \<le> n" "n < 16" | "16 \<le> n" "n < 24" | "24 \<le> n" "n < 32" by fastforce
  then show "bit (le32 (byte_of 0 v) (byte_of 1 v) (byte_of 2 v) (byte_of 3 v)) n = bit v n"
    by cases (auto simp: le32_def bit_simps bit_byte_of)
qed

lemma byte_of_le32:
  "byte_of 0 (le32 a b c d) = a" "byte_of 1 (le32 a b c d) = b"
  "byte_of 2 (le32 a b c d) = c" "byte_of 3 (le32 a b c d) = d"
  by (rule bit_word_eqI; auto simp: bit_byte_of le32_def bit_simps dest: bit_imp_le_length)+

lemmas byte_of_le32_simps [simp] = byte_of_le32 byte_of_le32(2) [unfolded One_nat_def]

lemma byte_of_le16: "byte_of 0 (le16 a b) = a" "byte_of 1 (le16 a b) = b"
  by (rule bit_word_eqI; auto simp: bit_byte_of le16_def bit_simps dest: bit_imp_le_length)+

section \<open>Arithmetic\<close>

lemma and_mask_small:
  fixes x :: "'a::len word"
  assumes "unat x < 2 ^ n"
  shows "x AND mask n = x"
proof -
  have "unat (take_bit n x) = unat x"
    using assms by (simp add: unsigned_take_bit_eq take_bit_nat_eq_self)
  then show ?thesis by (simp add: take_bit_eq_mask word_unat_eq_iff)
qed

lemma and_127: "unat (w AND 127) = unat w mod 128" for w :: "'a::len word"
proof -
  have "w AND 127 = take_bit 7 w" by (simp add: take_bit_eq_mask mask_eq_exp_minus_1)
  then have "unat (w AND 127) = take_bit 7 (unat w)" by (simp only: unsigned_take_bit_eq)
  then show ?thesis by (simp add: take_bit_eq_mod)
qed

lemma u8_bound: "unat (x :: u8) < 256"
  by (rule order_less_le_trans [OF unsigned_less]) simp

lemma u16_bound: "unat (x :: u16) < 65536"
  by (rule order_less_le_trans [OF unsigned_less]) simp

lemma u32_bound: "unat (x :: u32) < 4294967296"
  by (rule order_less_le_trans [OF unsigned_less]) simp

lemma unat_ucast_u8 [simp]: "unat (ucast (x :: u8) :: u32) = unat x"
  using u8_bound [of x] by (simp add: unsigned_ucast_eq take_bit_nat_eq_self)

lemma unat_ucast_u8_16 [simp]: "unat (ucast (x :: u8) :: u16) = unat x"
  using u8_bound [of x] by (simp add: unsigned_ucast_eq take_bit_nat_eq_self)

lemma unat_ucast_u16 [simp]: "unat (ucast (x :: u16) :: u32) = unat x"
  using u16_bound [of x] by (simp add: unsigned_ucast_eq take_bit_nat_eq_self)

lemma ceil_div_ge: "0 < d \<Longrightarrow> n \<le> (n + d - 1) div d * (d :: nat)"
proof -
  assume "0 < d"
  then have "(n + d - 1) mod d < d" by simp
  moreover have "(n + d - 1) div d * d + (n + d - 1) mod d = n + d - 1" by simp
  ultimately show ?thesis by linarith
qed

lemma ceil_div_gt: "0 < d \<Longrightarrow> k < (n + d - 1) div d \<Longrightarrow> k * d < (n :: nat)"
proof -
  assume d: "0 < d" and "k < (n + d - 1) div d"
  then have "Suc k * d \<le> (n + d - 1) div d * d" by (intro mult_right_mono) auto
  also have "\<dots> \<le> n + d - 1" by simp
  finally show ?thesis using d by simp
qed

section \<open>Buffers\<close>

text \<open>The bytes a pointer/length pair denotes; a NULL pointer denotes none.\<close>

primrec buf_bytes :: "u8 list option \<Rightarrow> u8 list" where
  "buf_bytes None = []"
| "buf_bytes (Some ds) = ds"

end
