(* ===== verification/Crc.thy ===== *)
theory Crc
  imports Prelude
begin

text \<open>
  CRC-32/MPEG-2. The bit-serial reference is the loader's own routine (boot/common/updater.c);
  src/common/hal_crc.c has the table-driven software backend and the public dispatch;
  src/vendor/stm32/crc/crc.c drives the STM32 CRC unit and finishes partial words in software.
  The register CRC_DR of that unit is a field of the driver's state: a write shifts the word
  into the register through the same polynomial (RM0368, CRC calculation unit), which is the
  only thing assumed of the hardware.

  The locale \<open>crc_backend\<close> is the contract include/common/hal_crc.h promises of an ops table;
  both backends interpret it.
\<close>

section \<open>The bit-serial reference (boot/common/updater.c)\<close>

definition crc_bit :: "u32 \<Rightarrow> u32" where
  "crc_bit crc =
     (if crc AND 0x80000000 \<noteq> 0 then push_bit 1 crc XOR 0x04C11DB7 else push_bit 1 crc)"

definition crc_bits8 :: "u32 \<Rightarrow> u32" where
  "crc_bits8 crc = (crc_bit ^^ 8) crc"

definition crc_byte :: "u32 \<Rightarrow> u8 \<Rightarrow> u32" where
  "crc_byte crc b = crc_bits8 (crc XOR push_bit 24 (ucast b))"

definition crc32_mpeg2 :: "u32 \<Rightarrow> u8 list \<Rightarrow> u32" where
  "crc32_mpeg2 crc ds = foldl crc_byte crc ds"

section \<open>The software backend (src/common/hal_crc.c)\<close>

definition crc32_mpeg2_table :: "u32 list" where
  "crc32_mpeg2_table = [
   0x00000000, 0x04C11DB7, 0x09823B6E, 0x0D4326D9, 0x130476DC, 0x17C56B6B,
   0x1A864DB2, 0x1E475005, 0x2608EDB8, 0x22C9F00F, 0x2F8AD6D6, 0x2B4BCB61,
   0x350C9B64, 0x31CD86D3, 0x3C8EA00A, 0x384FBDBD, 0x4C11DB70, 0x48D0C6C7,
   0x4593E01E, 0x4152FDA9, 0x5F15ADAC, 0x5BD4B01B, 0x569796C2, 0x52568B75,
   0x6A1936C8, 0x6ED82B7F, 0x639B0DA6, 0x675A1011, 0x791D4014, 0x7DDC5DA3,
   0x709F7B7A, 0x745E66CD, 0x9823B6E0, 0x9CE2AB57, 0x91A18D8E, 0x95609039,
   0x8B27C03C, 0x8FE6DD8B, 0x82A5FB52, 0x8664E6E5, 0xBE2B5B58, 0xBAEA46EF,
   0xB7A96036, 0xB3687D81, 0xAD2F2D84, 0xA9EE3033, 0xA4AD16EA, 0xA06C0B5D,
   0xD4326D90, 0xD0F37027, 0xDDB056FE, 0xD9714B49, 0xC7361B4C, 0xC3F706FB,
   0xCEB42022, 0xCA753D95, 0xF23A8028, 0xF6FB9D9F, 0xFBB8BB46, 0xFF79A6F1,
   0xE13EF6F4, 0xE5FFEB43, 0xE8BCCD9A, 0xEC7DD02D, 0x34867077, 0x30476DC0,
   0x3D044B19, 0x39C556AE, 0x278206AB, 0x23431B1C, 0x2E003DC5, 0x2AC12072,
   0x128E9DCF, 0x164F8078, 0x1B0CA6A1, 0x1FCDBB16, 0x018AEB13, 0x054BF6A4,
   0x0808D07D, 0x0CC9CDCA, 0x7897AB07, 0x7C56B6B0, 0x71159069, 0x75D48DDE,
   0x6B93DDDB, 0x6F52C06C, 0x6211E6B5, 0x66D0FB02, 0x5E9F46BF, 0x5A5E5B08,
   0x571D7DD1, 0x53DC6066, 0x4D9B3063, 0x495A2DD4, 0x44190B0D, 0x40D816BA,
   0xACA5C697, 0xA864DB20, 0xA527FDF9, 0xA1E6E04E, 0xBFA1B04B, 0xBB60ADFC,
   0xB6238B25, 0xB2E29692, 0x8AAD2B2F, 0x8E6C3698, 0x832F1041, 0x87EE0DF6,
   0x99A95DF3, 0x9D684044, 0x902B669D, 0x94EA7B2A, 0xE0B41DE7, 0xE4750050,
   0xE9362689, 0xEDF73B3E, 0xF3B06B3B, 0xF771768C, 0xFA325055, 0xFEF34DE2,
   0xC6BCF05F, 0xC27DEDE8, 0xCF3ECB31, 0xCBFFD686, 0xD5B88683, 0xD1799B34,
   0xDC3ABDED, 0xD8FBA05A, 0x690CE0EE, 0x6DCDFD59, 0x608EDB80, 0x644FC637,
   0x7A089632, 0x7EC98B85, 0x738AAD5C, 0x774BB0EB, 0x4F040D56, 0x4BC510E1,
   0x46863638, 0x42472B8F, 0x5C007B8A, 0x58C1663D, 0x558240E4, 0x51435D53,
   0x251D3B9E, 0x21DC2629, 0x2C9F00F0, 0x285E1D47, 0x36194D42, 0x32D850F5,
   0x3F9B762C, 0x3B5A6B9B, 0x0315D626, 0x07D4CB91, 0x0A97ED48, 0x0E56F0FF,
   0x1011A0FA, 0x14D0BD4D, 0x19939B94, 0x1D528623, 0xF12F560E, 0xF5EE4BB9,
   0xF8AD6D60, 0xFC6C70D7, 0xE22B20D2, 0xE6EA3D65, 0xEBA91BBC, 0xEF68060B,
   0xD727BBB6, 0xD3E6A601, 0xDEA580D8, 0xDA649D6F, 0xC423CD6A, 0xC0E2D0DD,
   0xCDA1F604, 0xC960EBB3, 0xBD3E8D7E, 0xB9FF90C9, 0xB4BCB610, 0xB07DABA7,
   0xAE3AFBA2, 0xAAFBE615, 0xA7B8C0CC, 0xA379DD7B, 0x9B3660C6, 0x9FF77D71,
   0x92B45BA8, 0x9675461F, 0x8832161A, 0x8CF30BAD, 0x81B02D74, 0x857130C3,
   0x5D8A9099, 0x594B8D2E, 0x5408ABF7, 0x50C9B640, 0x4E8EE645, 0x4A4FFBF2,
   0x470CDD2B, 0x43CDC09C, 0x7B827D21, 0x7F436096, 0x7200464F, 0x76C15BF8,
   0x68860BFD, 0x6C47164A, 0x61043093, 0x65C52D24, 0x119B4BE9, 0x155A565E,
   0x18197087, 0x1CD86D30, 0x029F3D35, 0x065E2082, 0x0B1D065B, 0x0FDC1BEC,
   0x3793A651, 0x3352BBE6, 0x3E119D3F, 0x3AD08088, 0x2497D08D, 0x2056CD3A,
   0x2D15EBE3, 0x29D4F654, 0xC5A92679, 0xC1683BCE, 0xCC2B1D17, 0xC8EA00A0,
   0xD6AD50A5, 0xD26C4D12, 0xDF2F6BCB, 0xDBEE767C, 0xE3A1CBC1, 0xE760D676,
   0xEA23F0AF, 0xEEE2ED18, 0xF0A5BD1D, 0xF464A0AA, 0xF9278673, 0xFDE69BC4,
   0x89B8FD09, 0x8D79E0BE, 0x803AC667, 0x84FBDBD0, 0x9ABC8BD5, 0x9E7D9662,
   0x933EB0BB, 0x97FFAD0C, 0xAFB010B1, 0xAB710D06, 0xA6322BDF, 0xA2F33668,
   0xBCB4666D, 0xB8757BDA, 0xB5365D03, 0xB1F740B4]"

datatype hal_crc_polynomial = HAL_CRC_POLY_CRC32

record hal_crc_config =
  polynomial :: hal_crc_polynomial
  init_value :: u32

record crc_sw =
  s_sw_init :: u32
  s_sw_current :: u32

text \<open>The statics' initial values.\<close>

definition crc_sw_boot :: crc_sw where
  "crc_sw_boot = \<lparr>s_sw_init = 0xFFFFFFFF, s_sw_current = 0xFFFFFFFF\<rparr>"

definition crc_table_byte :: "u32 \<Rightarrow> u8 \<Rightarrow> u32" where
  "crc_table_byte crc b =
     (let table_index = (ucast (drop_bit 24 crc XOR ucast b) :: u8)
      in push_bit 8 crc XOR crc32_mpeg2_table ! unat table_index)"

definition hal_crc_sw_step :: "u32 \<Rightarrow> u8 list option \<Rightarrow> u32" where
  "hal_crc_sw_step crc data =
     (case data of None \<Rightarrow> crc | Some ds \<Rightarrow> foldl crc_table_byte crc ds)"

definition hal_crc_sw_init :: "hal_crc_config \<Rightarrow> crc_sw \<Rightarrow> hal_status \<times> crc_sw" where
  "hal_crc_sw_init cfg s =
     (HAL_OK, s\<lparr>s_sw_init := init_value cfg, s_sw_current := init_value cfg\<rparr>)"

definition hal_crc_sw_reset :: "crc_sw \<Rightarrow> hal_status \<times> crc_sw" where
  "hal_crc_sw_reset s = (HAL_OK, s\<lparr>s_sw_current := s_sw_init s\<rparr>)"

definition hal_crc_sw_accumulate :: "u8 list option \<Rightarrow> crc_sw \<Rightarrow> u32 \<times> crc_sw" where
  "hal_crc_sw_accumulate data s =
     (if data = None \<or> data = Some [] then (s_sw_current s, s)
      else let c = hal_crc_sw_step (s_sw_current s) data
           in (c, s\<lparr>s_sw_current := c\<rparr>))"

definition hal_crc_sw_compute :: "u8 list option \<Rightarrow> crc_sw \<Rightarrow> u32 \<times> crc_sw" where
  "hal_crc_sw_compute data s = hal_crc_sw_accumulate data (snd (hal_crc_sw_reset s))"

section \<open>The STM32 hardware backend (src/vendor/stm32/crc/crc.c)\<close>

record crc_stm32 =
  CRC_DR :: u32
  crc_ahb1enr :: u32
  s_crc_init_value :: u32
  s_current :: u32
  s_hw_in_step :: bool

text \<open>The peripheral: one 32-bit write runs 32 shift steps over the register.\<close>

definition crc_unit :: "u32 \<Rightarrow> u32 \<Rightarrow> u32" where
  "crc_unit dr w = (crc_bit ^^ 32) (dr XOR w)"

definition CRC_DR_write :: "u32 \<Rightarrow> crc_stm32 \<Rightarrow> crc_stm32" where
  "CRC_DR_write w s = s\<lparr>CRC_DR := crc_unit (CRC_DR s) w\<rparr>"

definition CRC_CR_reset :: "crc_stm32 \<Rightarrow> crc_stm32" where
  "CRC_CR_reset s = s\<lparr>CRC_DR := 0xFFFFFFFF\<rparr>"

definition crc_stm32_boot :: crc_stm32 where
  "crc_stm32_boot =
     \<lparr>CRC_DR = 0xFFFFFFFF, crc_ahb1enr = 0, s_crc_init_value = 0xFFFFFFFF,
      s_current = 0xFFFFFFFF, s_hw_in_step = True\<rparr>"

definition stm32_crc_reset :: "crc_stm32 \<Rightarrow> hal_status \<times> crc_stm32" where
  "stm32_crc_reset s =
     (HAL_OK, (CRC_CR_reset s)\<lparr>s_current := 0xFFFFFFFF, s_hw_in_step := True\<rparr>)"

text \<open>\<open>RCC_AHB1ENR_CRCEN\<close> is bit 12.\<close>

definition stm32_crc_init :: "hal_crc_config \<Rightarrow> crc_stm32 \<Rightarrow> hal_status \<times> crc_stm32" where
  "stm32_crc_init cfg s =
     (let s1 = s\<lparr>s_crc_init_value := init_value cfg\<rparr>;
          s2 = s1\<lparr>crc_ahb1enr := crc_ahb1enr s1 OR push_bit 12 1\<rparr>
      in (HAL_OK, snd (stm32_crc_reset s2)))"

text \<open>The word loop: whole words go to the unit; what is left over is returned.\<close>

fun stm32_crc_words :: "u8 list \<Rightarrow> crc_stm32 \<Rightarrow> u8 list \<times> crc_stm32" where
  "stm32_crc_words (a # b # c # d # ds) s =
     stm32_crc_words ds (CRC_DR_write (be32 a b c d) s)"
| "stm32_crc_words ds s = (ds, s)"

definition stm32_crc_accumulate :: "u8 list option \<Rightarrow> crc_stm32 \<Rightarrow> u32 \<times> crc_stm32" where
  "stm32_crc_accumulate data s =
     (case data of
        None \<Rightarrow> (s_current s, s)
      | Some [] \<Rightarrow> (s_current s, s)
      | Some ds \<Rightarrow>
          let (tail, s1) =
                (if s_hw_in_step s
                 then (let (r, s') = stm32_crc_words ds s in (r, s'\<lparr>s_current := CRC_DR s'\<rparr>))
                 else (ds, s));
              s2 = (if tail \<noteq> []
                    then s1\<lparr>s_current := hal_crc_sw_step (s_current s1) (Some tail),
                            s_hw_in_step := False\<rparr>
                    else s1)
          in (s_current s2, s2))"

definition stm32_crc_compute :: "u8 list option \<Rightarrow> crc_stm32 \<Rightarrow> u32 \<times> crc_stm32" where
  "stm32_crc_compute data s = stm32_crc_accumulate data (snd (stm32_crc_reset s))"

section \<open>The public layer: ops table and dispatch (src/common/hal_crc.c)\<close>

record 's hal_crc_ops =
  op_init :: "hal_crc_config \<Rightarrow> 's \<Rightarrow> hal_status \<times> 's"
  op_compute :: "u8 list option \<Rightarrow> 's \<Rightarrow> u32 \<times> 's"
  op_accumulate :: "u8 list option \<Rightarrow> 's \<Rightarrow> u32 \<times> 's"
  op_reset :: "'s \<Rightarrow> hal_status \<times> 's"

definition sw_crc_ops :: "crc_sw hal_crc_ops" where
  "sw_crc_ops = \<lparr>op_init = hal_crc_sw_init, op_compute = hal_crc_sw_compute,
     op_accumulate = hal_crc_sw_accumulate, op_reset = hal_crc_sw_reset\<rparr>"

definition stm32_crc_ops :: "crc_stm32 hal_crc_ops" where
  "stm32_crc_ops = \<lparr>op_init = stm32_crc_init, op_compute = stm32_crc_compute,
     op_accumulate = stm32_crc_accumulate, op_reset = stm32_crc_reset\<rparr>"

definition hal_crc_init ::
    "'s hal_crc_ops \<Rightarrow> hal_crc_config option \<Rightarrow> 's \<Rightarrow> hal_status \<times> 's" where
  "hal_crc_init ops cfg s =
     (case cfg of None \<Rightarrow> (HAL_ERR_INVALID_ARG, s) | Some c \<Rightarrow> op_init ops c s)"

definition hal_crc_compute :: "'s hal_crc_ops \<Rightarrow> u8 list option \<Rightarrow> 's \<Rightarrow> u32 \<times> 's" where
  "hal_crc_compute ops data s = op_compute ops data s"

definition hal_crc_accumulate :: "'s hal_crc_ops \<Rightarrow> u8 list option \<Rightarrow> 's \<Rightarrow> u32 \<times> 's" where
  "hal_crc_accumulate ops data s = op_accumulate ops data s"

definition hal_crc_reset :: "'s hal_crc_ops \<Rightarrow> 's \<Rightarrow> hal_status \<times> 's" where
  "hal_crc_reset ops s = op_reset ops s"

section \<open>Linearity and injectivity of the shift step\<close>

lemma crc_bit_alt: "crc_bit x = push_bit 1 x XOR (if bit x 31 then 0x04C11DB7 else 0)"
proof -
  have "x AND 0x80000000 \<noteq> 0 \<longleftrightarrow> bit x 31"
    by (simp add: bit_iff_and_push_bit_not_eq_0)
  then show ?thesis by (simp add: crc_bit_def)
qed

lemma crc_bit_xor: "crc_bit (x XOR y) = crc_bit x XOR crc_bit y"
  by (rule bit_word_eqI) (auto simp: crc_bit_alt bit_simps simp del: push_bit_Suc)

lemma crc_bit_pow_xor: "(crc_bit ^^ n) (x XOR y) = (crc_bit ^^ n) x XOR (crc_bit ^^ n) y"
  by (induction n) (simp_all add: crc_bit_xor)

lemma crc_bit_zero: "crc_bit x = 0 \<Longrightarrow> x = 0"
proof -
  assume z: "crc_bit x = 0"
  have b0: "bit (crc_bit x) 0 = bit x 31"
    by (simp add: crc_bit_alt bit_xor_iff bit_push_bit_iff del: push_bit_Suc)
  with z have t: "\<not> bit x 31" by simp
  with z have p: "push_bit 1 x = 0" by (simp add: crc_bit_alt del: push_bit_Suc)
  show "x = 0"
  proof (rule bit_word_eqI)
    fix n assume n: "n < LENGTH(32)"
    show "bit x n = bit 0 n"
    proof (cases "n = 31")
      case True then show ?thesis using t by simp
    next
      case False
      with n have "bit (push_bit 1 x) (Suc n) = bit x n"
        by (simp add: bit_push_bit_iff del: push_bit_Suc)
      with p show ?thesis by simp
    qed
  qed
qed

lemma crc_bit_inj: "crc_bit x = crc_bit y \<Longrightarrow> x = y"
proof -
  assume "crc_bit x = crc_bit y"
  then have "crc_bit (x XOR y) = 0" by (simp add: crc_bit_xor)
  then have z: "x XOR y = 0" by (rule crc_bit_zero)
  have "x = (x XOR y) XOR y" by (simp add: xor.assoc)
  with z show "x = y" by simp
qed

lemma crc_bit_pow_inj: "(crc_bit ^^ n) x = (crc_bit ^^ n) y \<Longrightarrow> x = y"
  by (induction n) (auto dest: crc_bit_inj)

text \<open>While no set bit reaches the top, the steps are a plain shift.\<close>

lemma crc_bit_pow_shift:
  assumes "n \<le> 32" and "\<And>k. k < 32 \<Longrightarrow> 32 - n \<le> k \<Longrightarrow> \<not> bit x k"
  shows "(crc_bit ^^ n) x = push_bit n x"
  using assms
proof (induction n)
  case 0
  then show ?case by simp
next
  case (Suc n)
  then have e: "(crc_bit ^^ n) x = push_bit n x" by simp
  have t: "\<not> bit (push_bit n x) 31" using Suc.prems by (auto simp: bit_push_bit_iff)
  have "(crc_bit ^^ Suc n) x = crc_bit (push_bit n x)" using e by simp
  also have "\<dots> = push_bit 1 (push_bit n x)" using t by (simp add: crc_bit_alt del: push_bit_Suc)
  also have "\<dots> = push_bit (Suc n) x" by (simp add: push_bit_push_bit del: push_bit_Suc)
  finally show ?case .
qed

section \<open>The table is the bit-serial step, tabulated\<close>

lemma crc_bits8_unroll:
  "crc_bits8 x = crc_bit (crc_bit (crc_bit (crc_bit (crc_bit (crc_bit (crc_bit (crc_bit x)))))))"
  by (simp add: crc_bits8_def numeral_eq_Suc)

text \<open>What the generator of the table tabulates.\<close>

definition crc_table_entry :: "nat \<Rightarrow> u32" where
  "crc_table_entry i = crc_bits8 (push_bit 24 (word_of_nat i))"

lemma upt_256:
  "[0..<256::nat] = [
    0, 1, 2, 3, 4, 5, 6, 7, 8, 9, 10, 11, 12, 13, 14, 15, 16, 17, 18, 19, 20, 21, 22,
    23, 24, 25, 26, 27, 28, 29, 30, 31, 32, 33, 34, 35, 36, 37, 38, 39, 40, 41, 42, 43,
    44, 45, 46, 47, 48, 49, 50, 51, 52, 53, 54, 55, 56, 57, 58, 59, 60, 61, 62, 63, 64,
    65, 66, 67, 68, 69, 70, 71, 72, 73, 74, 75, 76, 77, 78, 79, 80, 81, 82, 83, 84, 85,
    86, 87, 88, 89, 90, 91, 92, 93, 94, 95, 96, 97, 98, 99, 100, 101, 102, 103, 104,
    105, 106, 107, 108, 109, 110, 111, 112, 113, 114, 115, 116, 117, 118, 119, 120, 121,
    122, 123, 124, 125, 126, 127, 128, 129, 130, 131, 132, 133, 134, 135, 136, 137, 138,
    139, 140, 141, 142, 143, 144, 145, 146, 147, 148, 149, 150, 151, 152, 153, 154, 155,
    156, 157, 158, 159, 160, 161, 162, 163, 164, 165, 166, 167, 168, 169, 170, 171, 172,
    173, 174, 175, 176, 177, 178, 179, 180, 181, 182, 183, 184, 185, 186, 187, 188, 189,
    190, 191, 192, 193, 194, 195, 196, 197, 198, 199, 200, 201, 202, 203, 204, 205, 206,
    207, 208, 209, 210, 211, 212, 213, 214, 215, 216, 217, 218, 219, 220, 221, 222, 223,
    224, 225, 226, 227, 228, 229, 230, 231, 232, 233, 234, 235, 236, 237, 238, 239, 240,
    241, 242, 243, 244, 245, 246, 247, 248, 249, 250, 251, 252, 253, 254, 255]"
  by code_simp

lemma crc_table_eq: "crc32_mpeg2_table = map crc_table_entry [0..<256]"
  unfolding upt_256 crc32_mpeg2_table_def
  by (simp add: crc_table_entry_def crc_bits8_unroll crc_bit_alt)

lemma crc_table_nth: "crc32_mpeg2_table ! unat (i :: u8) = crc_bits8 (push_bit 24 (ucast i))"
proof -
  have "unat i < 256" using unsigned_less [of i] by simp
  then have "crc32_mpeg2_table ! unat i = crc_table_entry (unat i)"
    by (simp add: crc_table_eq nth_map )
  moreover have "(word_of_nat (unat i) :: u32) = ucast i" by (simp add: unsigned_def)
  ultimately show ?thesis by (simp add: crc_table_entry_def)
qed

lemma crc_bits8_low: "crc_bits8 (x AND 0x00FFFFFF) = push_bit 8 x"
proof -
  have m: "(0x00FFFFFF :: u32) = mask 24" by (simp add: mask_eq_exp_minus_1)
  have "crc_bits8 (x AND mask 24) = push_bit 8 (x AND mask 24)"
    unfolding crc_bits8_def by (rule crc_bit_pow_shift) (auto simp: bit_simps)
  also have "\<dots> = push_bit 8 x"
    by (rule bit_word_eqI) (auto simp: bit_simps)
  finally show ?thesis unfolding m .
qed

lemma crc_split_top:
  "(crc :: u32) XOR push_bit 24 (ucast (b :: u8))
     = push_bit 24 (ucast (ucast (drop_bit 24 crc XOR ucast b) :: u8)) XOR (crc AND 0x00FFFFFF)"
proof -
  have m: "(0x00FFFFFF :: u32) = mask 24" by (simp add: mask_eq_exp_minus_1)
  show ?thesis unfolding m
    by (rule bit_word_eqI) (auto simp: bit_simps)
qed

lemma crc_table_byte_eq: "crc_table_byte crc b = crc_byte crc b"
proof -
  let ?i = "ucast (drop_bit 24 crc XOR ucast b) :: u8"
  have "crc_byte crc b = crc_bits8 (push_bit 24 (ucast ?i) XOR (crc AND 0x00FFFFFF))"
    by (simp only: crc_byte_def crc_split_top)
  also have "\<dots> = crc_bits8 (push_bit 24 (ucast ?i)) XOR crc_bits8 (crc AND 0x00FFFFFF)"
    by (simp add: crc_bits8_def crc_bit_pow_xor)
  also have "\<dots> = crc32_mpeg2_table ! unat ?i XOR push_bit 8 crc"
    by (simp only: crc_table_nth crc_bits8_low)
  finally show ?thesis by (simp add: crc_table_byte_def xor.commute)
qed

section \<open>Byte and word steps\<close>

lemma crc32_mpeg2_append: "crc32_mpeg2 c (xs @ ys) = crc32_mpeg2 (crc32_mpeg2 c xs) ys"
  by (simp add: crc32_mpeg2_def)

lemma crc32_mpeg2_nil [simp]: "crc32_mpeg2 c [] = c"
  by (simp add: crc32_mpeg2_def)

lemma hal_crc_sw_step_eq: "hal_crc_sw_step crc (Some ds) = crc32_mpeg2 crc ds"
  by (simp add: hal_crc_sw_step_def crc32_mpeg2_def crc_table_byte_eq [abs_def])

lemma be32_xor:
  "be32 a b c d = push_bit 24 (ucast a) XOR push_bit 16 (ucast b) XOR push_bit 8 (ucast c) XOR ucast d"
  by (rule bit_word_eqI)
    (auto simp: be32_def bit_simps dest: bit_imp_le_length)

lemma crc_unit_bytes: "crc_unit dr (be32 a b c d) = crc32_mpeg2 dr [a, b, c, d]"
proof -
  let ?s = "\<lambda>n (x :: u8). push_bit n (ucast x) :: u32"
  have p: "(crc_bit ^^ 32) x = (crc_bit ^^ 8) ((crc_bit ^^ 8) ((crc_bit ^^ 8) ((crc_bit ^^ 8) x)))" for x
    by (simp add: funpow_add [symmetric, THEN fun_cong, unfolded o_def])
  have 1: "(crc_bit ^^ 8) (?s 16 b) = ?s 24 b"
    and 2: "(crc_bit ^^ 8) (?s 8 c) = ?s 16 c" "(crc_bit ^^ 8) (?s 16 c) = ?s 24 c"
    and 3: "(crc_bit ^^ 8) (ucast d) = ?s 8 d" "(crc_bit ^^ 8) (?s 8 d) = ?s 16 d"
      "(crc_bit ^^ 8) (?s 16 d) = ?s 24 d"
    by (subst crc_bit_pow_shift; auto simp: bit_simps push_bit_push_bit dest!: bit_imp_le_length)+
  show ?thesis
    unfolding crc_unit_def p be32_xor crc32_mpeg2_def crc_byte_def crc_bits8_def
    by (simp add: crc_bit_pow_xor 1 2 3 xor.assoc [symmetric])
qed

lemma crc_unit_inj: "crc_unit dr w = crc_unit dr w' \<Longrightarrow> w = w'"
proof -
  assume "crc_unit dr w = crc_unit dr w'"
  then have e: "dr XOR w = dr XOR w'" unfolding crc_unit_def by (rule crc_bit_pow_inj)
  have "w = dr XOR (dr XOR w)" by (simp add: xor.assoc [symmetric])
  also have "\<dots> = w'" by (simp add: e xor.assoc [symmetric])
  finally show "w = w'" .
qed

lemma be32_inj: "be32 a b c d = be32 a' b' c' d' \<Longrightarrow> [a, b, c, d] = [a', b', c', d']"
proof -
  have r: "be32 a b c d = le32 d c b a" for a b c d
    by (simp add: be32_def le32_def or.assoc or.commute or.left_commute)
  assume "be32 a b c d = be32 a' b' c' d'"
  then have "byte_of i (le32 d c b a) = byte_of i (le32 d' c' b' a')" for i
    by (simp add: r)
  from this [of 0] this [of 1] this [of 2] this [of 3] show ?thesis
    by (simp add: byte_of_le32)
qed

lemma crc_byte_inj: "crc_byte c b = crc_byte c' b \<Longrightarrow> c = c'"
proof -
  assume "crc_byte c b = crc_byte c' b"
  then have e: "c XOR push_bit 24 (ucast b) = c' XOR push_bit 24 (ucast b)"
    unfolding crc_byte_def crc_bits8_def by (rule crc_bit_pow_inj)
  have "c = (c XOR push_bit 24 (ucast b)) XOR push_bit 24 (ucast b)" by (simp add: xor.assoc)
  also have "\<dots> = c'" by (simp add: e xor.assoc)
  finally show "c = c'" .
qed

lemma crc32_mpeg2_inj_start: "crc32_mpeg2 c ds = crc32_mpeg2 c' ds \<Longrightarrow> c = c'"
  unfolding crc32_mpeg2_def by (induction ds arbitrary: c c') (auto dest: crc_byte_inj)

lemma crc32_mpeg2_inj_word:
  assumes "length xs = 4" "length ys = 4" "crc32_mpeg2 c xs = crc32_mpeg2 c ys"
  shows "xs = ys"
proof -
  obtain a1 a2 a3 a4 where x: "xs = [a1, a2, a3, a4]"
    using assms(1) by (auto simp: length_Suc_conv numeral_eq_Suc)
  obtain b1 b2 b3 b4 where y: "ys = [b1, b2, b3, b4]"
    using assms(2) by (auto simp: length_Suc_conv numeral_eq_Suc)
  have "crc_unit c (be32 a1 a2 a3 a4) = crc_unit c (be32 b1 b2 b3 b4)"
    using assms(3) unfolding crc_unit_bytes x y .
  then show ?thesis unfolding x y by (intro be32_inj) (rule crc_unit_inj)
qed

section \<open>The backend contract\<close>

text \<open>
  What include/common/hal_crc.h promises of any ops table: a running value that bytes are
  folded into exactly as the reference does, whatever the chunking, and a compute that is
  a reset followed by an accumulate.
\<close>

locale crc_backend =
  fixes ops :: "'s hal_crc_ops"
    and running :: "'s \<Rightarrow> u32"
    and started :: "'s \<Rightarrow> u32"
    and wf :: "'s \<Rightarrow> bool"
  assumes accumulate_value:
      "wf s \<Longrightarrow> fst (op_accumulate ops d s) = crc32_mpeg2 (running s) (buf_bytes d)"
    and accumulate_running:
      "wf s \<Longrightarrow> running (snd (op_accumulate ops d s)) = crc32_mpeg2 (running s) (buf_bytes d)"
    and accumulate_wf: "wf s \<Longrightarrow> wf (snd (op_accumulate ops d s))"
    and reset_running: "running (snd (op_reset ops s)) = started s"
    and reset_wf: "wf (snd (op_reset ops s))"
    and compute_def: "op_compute ops d s = op_accumulate ops d (snd (op_reset ops s))"
begin

definition feed :: "u8 list option list \<Rightarrow> 's \<Rightarrow> 's" where
  "feed chunks s = fold (\<lambda>d s. snd (hal_crc_accumulate ops d s)) chunks s"

lemma feed_wf: "wf s \<Longrightarrow> wf (feed chunks s)"
  by (induction chunks arbitrary: s)
    (simp_all add: feed_def hal_crc_accumulate_def accumulate_wf)

lemma feed_running:
  "wf s \<Longrightarrow> running (feed chunks s) = crc32_mpeg2 (running s) (concat (map buf_bytes chunks))"
proof (induction chunks arbitrary: s)
  case Nil
  then show ?case by (simp add: feed_def)
next
  case (Cons d chunks)
  then have "running (feed chunks (snd (op_accumulate ops d s)))
      = crc32_mpeg2 (crc32_mpeg2 (running s) (buf_bytes d)) (concat (map buf_bytes chunks))"
    by (simp add: accumulate_wf accumulate_running)
  then show ?case by (simp add: feed_def hal_crc_accumulate_def crc32_mpeg2_append)
qed

lemma compute_value: "fst (hal_crc_compute ops d s) = crc32_mpeg2 (started s) (buf_bytes d)"
  by (simp add: hal_crc_compute_def compute_def accumulate_value reset_wf reset_running)

lemma chunked_is_compute:
  "fst (hal_crc_accumulate ops d (feed chunks (snd (hal_crc_reset ops s))))
     = fst (hal_crc_compute ops (Some (concat (map buf_bytes chunks) @ buf_bytes d)) s)"
  by (simp add: hal_crc_accumulate_def hal_crc_reset_def accumulate_value feed_wf feed_running
      reset_wf reset_running compute_value crc32_mpeg2_append)

end

interpretation sw_crc: crc_backend sw_crc_ops s_sw_current s_sw_init "\<lambda>_. True"
  by unfold_locales
    (auto simp: sw_crc_ops_def hal_crc_sw_accumulate_def hal_crc_sw_reset_def
      hal_crc_sw_compute_def Let_def hal_crc_sw_step_eq)

text \<open>The unit agrees with the running value for as long as it has seen whole words only.\<close>

definition crc_stm32_wf :: "crc_stm32 \<Rightarrow> bool" where
  "crc_stm32_wf s \<longleftrightarrow> (s_hw_in_step s \<longrightarrow> CRC_DR s = s_current s)"

lemma stm32_crc_words_spec:
  "stm32_crc_words ds s = (r, s') \<Longrightarrow>
     crc32_mpeg2 (CRC_DR s') r = crc32_mpeg2 (CRC_DR s) ds \<and>
     s' = s\<lparr>CRC_DR := CRC_DR s'\<rparr> \<and> length r < 4"
proof (induction ds s rule: stm32_crc_words.induct)
  case (1 a b c d ds s)
  then have "stm32_crc_words ds (CRC_DR_write (be32 a b c d) s) = (r, s')" by simp
  from "1.IH" [OF this] show ?case
    using crc32_mpeg2_append [of "CRC_DR s" "[a, b, c, d]" ds]
    by (auto simp: CRC_DR_write_def crc_unit_bytes)
qed auto

lemma stm32_crc_accumulate_spec:
  assumes "crc_stm32_wf s"
  shows "fst (stm32_crc_accumulate d s) = crc32_mpeg2 (s_current s) (buf_bytes d) \<and>
    s_current (snd (stm32_crc_accumulate d s)) = crc32_mpeg2 (s_current s) (buf_bytes d) \<and>
    crc_stm32_wf (snd (stm32_crc_accumulate d s))"
proof (cases d)
  case None
  then show ?thesis using assms by (simp add: stm32_crc_accumulate_def)
next
  case (Some ds)
  obtain r s' where w: "stm32_crc_words ds s = (r, s')" by fastforce
  note spec = stm32_crc_words_spec [OF w]
  show ?thesis
  proof (cases ds)
    case Nil
    then show ?thesis using assms Some by (simp add: stm32_crc_accumulate_def)
  next
    case (Cons x xs)
    then show ?thesis using assms Some w spec
      by (auto simp: stm32_crc_accumulate_def Let_def crc_stm32_wf_def hal_crc_sw_step_eq)
  qed
qed

lemma stm32_crc_reset_spec:
  "s_current (snd (stm32_crc_reset s)) = 0xFFFFFFFF" "crc_stm32_wf (snd (stm32_crc_reset s))"
  by (simp_all add: stm32_crc_reset_def CRC_CR_reset_def crc_stm32_wf_def)

interpretation stm32_crc: crc_backend stm32_crc_ops s_current "\<lambda>_. 0xFFFFFFFF" crc_stm32_wf
  by unfold_locales
    (simp_all add: stm32_crc_ops_def stm32_crc_accumulate_spec stm32_crc_reset_spec
      stm32_crc_compute_def)

section \<open>Properties\<close>

text \<open>The table-driven step of src/common/hal_crc.c computes, on every start value and
  every buffer, exactly the bit-serial CRC-32/MPEG-2 the loader's frame protocol uses: all 256
  table entries are right and the byte loop combines them right.\<close>

theorem crc_table_step_is_bit_serial: "hal_crc_sw_step crc (Some ds) = crc32_mpeg2 crc ds"
  by (rule hal_crc_sw_step_eq)

text \<open>A CRC accumulated over any split of a message into chunks (empty and NULL chunks
  included) after a reset is the CRC computed over the whole message in one call, on the
  software backend and on the STM32 unit with its software tail, whatever the chunk lengths.\<close>

theorem crc_chunking_irrelevant:
  "fst (hal_crc_accumulate sw_crc_ops d (sw_crc.feed chunks (snd (hal_crc_reset sw_crc_ops s))))
     = fst (hal_crc_compute sw_crc_ops (Some (concat (map buf_bytes chunks) @ buf_bytes d)) s) \<and>
   fst (hal_crc_accumulate stm32_crc_ops d (stm32_crc.feed chunks (snd (hal_crc_reset stm32_crc_ops t))))
     = fst (hal_crc_compute stm32_crc_ops (Some (concat (map buf_bytes chunks) @ buf_bytes d)) t)"
  by (intro conjI sw_crc.chunked_is_compute stm32_crc.chunked_is_compute)

text \<open>C29. The STM32 backend computes what the software backend computes when that one is
  configured with the initial value 0xFFFFFFFF, for every buffer length; the initial value asked
  of the STM32 backend itself has no effect.\<close>

theorem crc_hardware_matches_software:
  "fst (hal_crc_compute stm32_crc_ops d (snd (hal_crc_init stm32_crc_ops (Some cfg) t)))
     = fst (hal_crc_compute sw_crc_ops d
         (snd (hal_crc_init sw_crc_ops (Some (cfg\<lparr>init_value := 0xFFFFFFFF\<rparr>)) s)))"
  unfolding stm32_crc.compute_value sw_crc.compute_value
  by (simp add: hal_crc_init_def sw_crc_ops_def hal_crc_sw_init_def)

text \<open>The configured initial value is ignored by the hardware backend (finding).\<close>

theorem crc_init_value_ignored:
  "fst (hal_crc_compute stm32_crc_ops (Some []) (snd (hal_crc_init stm32_crc_ops
       (Some \<lparr>polynomial = HAL_CRC_POLY_CRC32, init_value = 0\<rparr>) crc_stm32_boot))) = 0xFFFFFFFF \<and>
   fst (hal_crc_compute sw_crc_ops (Some []) (snd (hal_crc_init sw_crc_ops
       (Some \<lparr>polynomial = HAL_CRC_POLY_CRC32, init_value = 0\<rparr>) crc_sw_boot))) = 0"
  unfolding stm32_crc.compute_value sw_crc.compute_value
  by (simp add: hal_crc_init_def sw_crc_ops_def hal_crc_sw_init_def)

lemma crc32_mpeg2_burst:
  assumes "length xs = length ys" "length xs \<le> 4" "xs \<noteq> ys"
  shows "crc32_mpeg2 c (pre @ xs @ post) \<noteq> crc32_mpeg2 c (pre @ ys @ post)"
proof
  assume "crc32_mpeg2 c (pre @ xs @ post) = crc32_mpeg2 c (pre @ ys @ post)"
  then have e: "crc32_mpeg2 (crc32_mpeg2 c pre) xs = crc32_mpeg2 (crc32_mpeg2 c pre) ys"
    by (auto simp: crc32_mpeg2_append dest: crc32_mpeg2_inj_start)
  let ?z = "replicate (4 - length xs) 0"
  have "xs @ ?z = ys @ ?z"
    by (rule crc32_mpeg2_inj_word [where c = "crc32_mpeg2 c pre"])
      (use assms e in \<open>simp_all add: crc32_mpeg2_append\<close>)
  with assms(3) show False by simp
qed

text \<open>Two messages of the same length that differ only inside a window of at most four
  consecutive bytes never have the same CRC: a burst of up to 32 bits in a frame is always
  detected.\<close>

theorem crc_detects_bursts:
  assumes "length xs = length ys" "length xs \<le> 4" "xs \<noteq> ys"
  shows "crc32_mpeg2 c (pre @ xs @ post) \<noteq> crc32_mpeg2 c (pre @ ys @ post)"
  using assms by (rule crc32_mpeg2_burst)

theorem crc_detects_bursts_witness:
  "crc32_mpeg2 0xFFFFFFFF ([0x49] @ [1, 2] @ [7]) \<noteq> crc32_mpeg2 0xFFFFFFFF ([0x49] @ [1, 3] @ [7])"
  by (rule crc_detects_bursts) simp_all

end
