(* ===== verification/Watchdog.thy ===== *)
theory Watchdog
  imports Prelude
begin

text \<open>
  The STM32 watchdogs: src/vendor/stm32/watchdog/watchdog.c behind the validating layers
  src/common/hal_watchdog.c and src/common/hal_wwdg.c. The record holds the driver's statics
  and the IWDG/WWDG registers. The register behaviour assumed is the one
  include/family/wdg_reg.h documents: PR and RLR take a write only after UNLOCK, RELOAD and
  START re-lock them, and the SR update bits stay set for some reads (\<open>iwdg_sr_reads\<close>) after
  a write has crossed into the LSI domain.

  The boot chain's other components extend this record, so \<open>hal_watchdog_kick\<close> applies to
  their states unchanged.
\<close>

section \<open>State\<close>

record wdg =
  IWDG_PR :: u32
  IWDG_RLR :: u32
  iwdg_unlocked :: bool
  iwdg_armed :: bool
  iwdg_reloads :: nat
  iwdg_sr_reads :: nat
  iwdg_timeout_ms :: u32
  iwdg_running :: u8

text \<open>\<open>IWDG_KEY_RELOAD\<close>, \<open>IWDG_KEY_UNLOCK\<close>, \<open>IWDG_KEY_START\<close> written to KR.\<close>

definition IWDG_KR_reload :: "('m) wdg_scheme \<Rightarrow> 'm wdg_scheme" where
  "IWDG_KR_reload s = s\<lparr>iwdg_reloads := iwdg_reloads s + 1, iwdg_unlocked := False\<rparr>"

definition IWDG_KR_unlock :: "'m wdg_scheme \<Rightarrow> 'm wdg_scheme" where
  "IWDG_KR_unlock s = s\<lparr>iwdg_unlocked := True\<rparr>"

definition IWDG_KR_start :: "'m wdg_scheme \<Rightarrow> 'm wdg_scheme" where
  "IWDG_KR_start s = s\<lparr>iwdg_armed := True, iwdg_unlocked := False\<rparr>"

definition IWDG_PR_write :: "u32 \<Rightarrow> 'm wdg_scheme \<Rightarrow> 'm wdg_scheme" where
  "IWDG_PR_write v s = (if iwdg_unlocked s then s\<lparr>IWDG_PR := v AND 0x07\<rparr> else s)"

definition IWDG_RLR_write :: "u32 \<Rightarrow> 'm wdg_scheme \<Rightarrow> 'm wdg_scheme" where
  "IWDG_RLR_write v s = (if iwdg_unlocked s then s\<lparr>IWDG_RLR := v AND 0x0FFF\<rparr> else s)"

section \<open>The independent watchdog\<close>

definition IWDG_LSI_HZ :: u32 where "IWDG_LSI_HZ = 32000"
definition IWDG_RLR_MASK :: u32 where "IWDG_RLR_MASK = 0x0FFF"
definition IWDG_PR_MAX :: u32 where "IWDG_PR_MAX = 6"
definition IWDG_UPDATE_SPINS :: nat where "IWDG_UPDATE_SPINS = 2000000"

lemmas iwdg_consts [simp] =
  IWDG_LSI_HZ_def IWDG_RLR_MASK_def IWDG_PR_MAX_def IWDG_UPDATE_SPINS_def

definition stm32_watchdog_max_timeout_ms :: u32 where
  "stm32_watchdog_max_timeout_ms =
     ((IWDG_RLR_MASK + 1) * push_bit (unat IWDG_PR_MAX) 4 * 1000) div IWDG_LSI_HZ"

text \<open>The prescaler loop: \<open>while (ceil(ticks / div) > 4096 && pr < 6) { pr++; div <<= 1; }\<close>.\<close>

function iwdg_scale :: "u32 \<Rightarrow> u32 \<Rightarrow> u32 \<Rightarrow> u32 \<times> u32" where
  "iwdg_scale ticks pr dv =
     (if (ticks + dv - 1) div dv > IWDG_RLR_MASK + 1 \<and> pr < IWDG_PR_MAX
      then iwdg_scale ticks (pr + 1) (push_bit 1 dv)
      else (pr, dv))"
  by pat_completeness auto
termination
proof (relation "measure (\<lambda>(ticks, pr, dv). 6 - unat pr)", simp)
  fix ticks pr dv :: u32
  assume "IWDG_RLR_MASK + 1 < (ticks + dv - 1) div dv \<and> pr < IWDG_PR_MAX"
  then have "unat pr < 6" by (simp add: word_less_nat_alt)
  moreover from this have "unat (pr + 1) = unat pr + 1" by (simp add: unat_word_ariths)
  ultimately show "((ticks, pr + 1, push_bit 1 dv), ticks, pr, dv)
      \<in> measure (\<lambda>(ticks, pr, dv). 6 - unat pr)"
    by simp
qed

declare iwdg_scale.simps [simp del]

text \<open>
  \<open>uint32_t spins = ...; while (SR & (PVU | RVU)) { if (--spins == 0) return TIMEOUT; }\<close>;
  true when the bits cleared in time.
\<close>

function iwdg_wait_update :: "nat \<Rightarrow> 'm wdg_scheme \<Rightarrow> bool \<times> 'm wdg_scheme" where
  "iwdg_wait_update spins s =
     (if iwdg_sr_reads s = 0 then (True, s)
      else let s' = s\<lparr>iwdg_sr_reads := iwdg_sr_reads s - 1\<rparr>
           in if spins \<le> 1 then (False, s') else iwdg_wait_update (spins - 1) s')"
  by pat_completeness auto
termination
  by (relation "measure fst") auto

declare iwdg_wait_update.simps [simp del]

definition stm32_watchdog_start :: "u32 \<Rightarrow> 'm wdg_scheme \<Rightarrow> hal_status \<times> 'm wdg_scheme" where
  "stm32_watchdog_start timeout_ms s =
     (if timeout_ms = 0 \<or> timeout_ms > stm32_watchdog_max_timeout_ms
      then (HAL_ERR_INVALID_ARG, s)
      else
        let ticks = (timeout_ms * IWDG_LSI_HZ + 999) div 1000;
            (pr, dv) = iwdg_scale ticks 0 4;
            reload0 = (ticks + dv - 1) div dv;
            reload = (if reload0 = 0 then 1 else reload0)
        in if reload > IWDG_RLR_MASK + 1 then (HAL_ERR_INVALID_ARG, s)
           else
             let s1 = IWDG_RLR_write (reload - 1)
                        (IWDG_PR_write pr (IWDG_KR_unlock (IWDG_KR_start s)));
                 (cleared, s2) = iwdg_wait_update IWDG_UPDATE_SPINS s1
             in if \<not> cleared then (HAL_ERR_TIMEOUT, s2)
                else (HAL_OK, (IWDG_KR_reload s2)
                       \<lparr>iwdg_timeout_ms := (reload * dv * 1000) div IWDG_LSI_HZ,
                        iwdg_running := 1\<rparr>))"

definition stm32_watchdog_kick :: "'m wdg_scheme \<Rightarrow> hal_status \<times> 'm wdg_scheme" where
  "stm32_watchdog_kick s =
     (if iwdg_running s = 0 then (HAL_ERR_NOT_INITIALIZED, s) else (HAL_OK, IWDG_KR_reload s))"

definition stm32_watchdog_get_timeout_ms :: "'m wdg_scheme \<Rightarrow> u32" where
  "stm32_watchdog_get_timeout_ms s = iwdg_timeout_ms s"

definition stm32_watchdog_is_running :: "'m wdg_scheme \<Rightarrow> bool" where
  "stm32_watchdog_is_running s \<longleftrightarrow> iwdg_running s \<noteq> 0"

text \<open>The public layer (src/common/hal_watchdog.c).\<close>

definition hal_watchdog_start :: "u32 \<Rightarrow> 'm wdg_scheme \<Rightarrow> hal_status \<times> 'm wdg_scheme" where
  "hal_watchdog_start timeout_ms s =
     (if timeout_ms = 0 then (HAL_ERR_INVALID_ARG, s) else stm32_watchdog_start timeout_ms s)"

definition hal_watchdog_kick :: "'m wdg_scheme \<Rightarrow> hal_status \<times> 'm wdg_scheme" where
  "hal_watchdog_kick s = stm32_watchdog_kick s"

section \<open>The window watchdog\<close>

record wwdg =
  WWDG_CR :: u32
  WWDG_CFR :: u32
  wwdg_apb1enr :: u32
  wwdg_reload :: u8
  wwdg_window :: u8
  wwdg_running :: u8

text \<open>
  The timebase loop over \<open>tb\<close> = 0..3. The result is the last \<open>(tb, tick_hz, counts)\<close> the loop
  computed, with \<open>tb\<close> = 4 when it ran out; \<open>None\<close> is the \<open>tick_hz == 0\<close> return.
\<close>

fun wwdg_scale :: "u32 \<Rightarrow> u32 \<Rightarrow> nat \<Rightarrow> nat \<Rightarrow> u32 \<Rightarrow> u32 \<Rightarrow> (nat \<times> u32 \<times> u32) option" where
  "wwdg_scale pclk1 timeout_ms 0 tb tick_hz counts = Some (tb, tick_hz, counts)"
| "wwdg_scale pclk1 timeout_ms (Suc left) tb tick_hz counts =
     (let hz = pclk1 div push_bit tb 4096
      in if hz = 0 then None
         else let c = (timeout_ms * hz + 999) div 1000
              in if c \<le> 64 then Some (tb, hz, c)
                 else wwdg_scale pclk1 timeout_ms left (Suc tb) hz c)"

definition stm32_wwdg_start :: "u32 \<Rightarrow> u32 \<Rightarrow> u32 \<Rightarrow> wwdg \<Rightarrow> hal_status \<times> wwdg" where
  "stm32_wwdg_start pclk1 timeout_ms window_ms s =
     (if pclk1 = 0 then (HAL_ERR_NOT_INITIALIZED, s)
      else case wwdg_scale pclk1 timeout_ms 4 0 0 0 of
             None \<Rightarrow> (HAL_ERR_INVALID_ARG, s)
           | Some (tb, tick_hz, counts) \<Rightarrow>
               if counts = 0 \<or> counts > 64 then (HAL_ERR_INVALID_ARG, s)
               else let t = (0x40 - 1) + counts;
                        wcounts = (window_ms * tick_hz) div 1000
                    in if wcounts \<ge> counts then (HAL_ERR_INVALID_ARG, s)
                       else let w = t - wcounts
                            in (HAL_OK,
                                s\<lparr>wwdg_apb1enr := wwdg_apb1enr s OR push_bit 11 1,
                                  WWDG_CFR := push_bit 7 (word_of_nat tb) OR (w AND 0x7F),
                                  WWDG_CR := push_bit 7 1 OR (t AND 0x7F),
                                  wwdg_reload := ucast t, wwdg_window := ucast w,
                                  wwdg_running := 1\<rparr>))"

text \<open>WDGA (bit 7 of CR) is set-only: a write never clears it.\<close>

definition stm32_wwdg_kick :: "wwdg \<Rightarrow> hal_status \<times> wwdg" where
  "stm32_wwdg_kick s =
     (if wwdg_running s = 0 then (HAL_ERR_NOT_INITIALIZED, s)
      else (HAL_OK, s\<lparr>WWDG_CR := (WWDG_CR s AND push_bit 7 1) OR ucast (wwdg_reload s)\<rparr>))"

definition stm32_wwdg_window_open :: "wwdg \<Rightarrow> bool" where
  "stm32_wwdg_window_open s \<longleftrightarrow>
     wwdg_running s \<noteq> 0 \<and> WWDG_CR s AND 0x7F \<le> ucast (wwdg_window s)"

definition hal_wwdg_start :: "u32 \<Rightarrow> u32 \<Rightarrow> u32 \<Rightarrow> wwdg \<Rightarrow> hal_status \<times> wwdg" where
  "hal_wwdg_start pclk1 timeout_ms window_ms s =
     (if timeout_ms = 0 \<or> window_ms \<ge> timeout_ms then (HAL_ERR_INVALID_ARG, s)
      else stm32_wwdg_start pclk1 timeout_ms window_ms s)"

definition hal_wwdg_kick :: "wwdg \<Rightarrow> hal_status \<times> wwdg" where
  "hal_wwdg_kick s = stm32_wwdg_kick s"

definition stm32_wwdg_is_running :: "wwdg \<Rightarrow> bool" where
  "stm32_wwdg_is_running s \<longleftrightarrow> wwdg_running s \<noteq> 0"

section \<open>What a kick leaves alone\<close>

lemma hal_watchdog_kick_frame [simp]:
  "iwdg_running (snd (hal_watchdog_kick s)) = iwdg_running s"
  "iwdg_armed (snd (hal_watchdog_kick s)) = iwdg_armed s"
  "IWDG_PR (snd (hal_watchdog_kick s)) = IWDG_PR s"
  "IWDG_RLR (snd (hal_watchdog_kick s)) = IWDG_RLR s"
  "iwdg_timeout_ms (snd (hal_watchdog_kick s)) = iwdg_timeout_ms s"
  "wdg.more (snd (hal_watchdog_kick s)) = wdg.more s"
  by (simp_all add: hal_watchdog_kick_def stm32_watchdog_kick_def IWDG_KR_reload_def)

section \<open>Prescaler selection\<close>

lemma max_timeout: "stm32_watchdog_max_timeout_ms = 32768"
  by (simp add: stm32_watchdog_max_timeout_ms_def)

lemma ceil_div_word:
  fixes ticks dv :: u32
  assumes "0 < unat dv" "unat dv \<le> 256" "unat ticks \<le> 1048576"
  shows "unat ((ticks + dv - 1) div dv) = (unat ticks + unat dv - 1) div unat dv"
proof -
  have "unat (ticks + dv) = unat ticks + unat dv" using assms by (simp add: unat_word_ariths)
  moreover from this have "unat (ticks + dv - 1) = unat ticks + unat dv - 1"
    using assms by (subst unat_minus_one) (auto simp: unat_eq_0 [symmetric])
  ultimately show ?thesis by (simp add: unat_div)
qed

lemma iwdg_scale_spec:
  assumes "iwdg_scale ticks pr dv = (pr', dv')"
    and "unat ticks \<le> 1048576" "unat pr \<le> 6" "unat dv = 4 * 2 ^ unat pr"
  shows "unat pr' \<le> 6 \<and> unat dv' = 4 * 2 ^ unat pr' \<and>
    (unat ticks + unat dv' - 1) div unat dv' \<le> 4096 \<and>
    (pr' = pr \<or> 4096 < (unat ticks + unat dv' div 2 - 1) div (unat dv' div 2))"
  using assms
proof (induction ticks pr dv rule: iwdg_scale.induct)
  case (1 ticks pr dv)
  have pw: "(2::nat) ^ unat pr \<le> 2 ^ 6" using "1.prems"(3) by (intro power_increasing) auto
  then have b: "0 < unat dv" "unat dv \<le> 256" using "1.prems"(4) by auto
  note cd = ceil_div_word [OF b "1.prems"(2)]
  show ?case
  proof (cases "(ticks + dv - 1) div dv > IWDG_RLR_MASK + 1 \<and> pr < IWDG_PR_MAX")
    case True
    then have pr5: "unat pr < 6" and big: "4096 < (unat ticks + unat dv - 1) div unat dv"
      using cd by (auto simp: word_less_nat_alt)
    have npr: "unat (pr + 1) = Suc (unat pr)" using pr5 by (simp add: unat_word_ariths)
    have "(2::nat) ^ unat pr \<le> 2 ^ 5" using pr5 by (intro power_increasing) auto
    then have ndv: "unat (push_bit 1 dv) = 4 * 2 ^ unat (pr + 1)"
      using "1.prems"(4) pr5 by (simp add: npr unat_word_ariths)
    have rec: "iwdg_scale ticks (pr + 1) (push_bit 1 dv) = (pr', dv')"
      using "1.prems"(1) True by (subst (asm) iwdg_scale.simps) simp
    have ih: "unat pr' \<le> 6 \<and> unat dv' = 4 * 2 ^ unat pr' \<and>
        (unat ticks + unat dv' - 1) div unat dv' \<le> 4096 \<and>
        (pr' = pr + 1 \<or> 4096 < (unat ticks + unat dv' div 2 - 1) div (unat dv' div 2))"
      by (rule "1.IH" [OF True rec "1.prems"(2)]) (use pr5 npr ndv in auto)
    show ?thesis
    proof (cases "pr' = pr + 1")
      case True
      then have d: "unat dv' div 2 = unat dv" using ih npr "1.prems"(4) by simp
      have "4096 < (unat ticks + unat dv' div 2 - 1) div (unat dv' div 2)"
        using big by (simp only: d)
      with ih show ?thesis by blast
    next
      case False
      with ih show ?thesis by blast
    qed
  next
    case False
    then have r: "pr' = pr" "dv' = dv"
      using "1.prems"(1) unfolding iwdg_scale.simps [of ticks pr dv] if_not_P [OF False] by auto
    have "(unat ticks + unat dv - 1) div unat dv \<le> 4096"
    proof (cases "pr < IWDG_PR_MAX")
      case True
      then show ?thesis using False cd by (auto simp: word_less_nat_alt word_le_nat_alt not_less)
    next
      case f: False
      then have "unat pr = 6" using "1.prems"(3) by (simp add: word_less_nat_alt)
      then have "unat dv = 256" using "1.prems"(4) by simp
      then show ?thesis using "1.prems"(2) by simp
    qed
    with r "1.prems" show ?thesis by auto
  qed
qed

lemma iwdg_wait_update_ok:
  "iwdg_sr_reads s < spins \<Longrightarrow> iwdg_wait_update spins s = (True, s\<lparr>iwdg_sr_reads := 0\<rparr>)"
proof (induction spins s rule: iwdg_wait_update.induct)
  case (1 spins s)
  show ?case
  proof (cases "iwdg_sr_reads s = 0")
    case True
    then show ?thesis by (simp add: iwdg_wait_update.simps)
  next
    case False
    with 1 have "iwdg_wait_update (spins - 1) (s\<lparr>iwdg_sr_reads := iwdg_sr_reads s - 1\<rparr>)
        = (True, s\<lparr>iwdg_sr_reads := 0\<rparr>)" by auto
    with False "1.prems" show ?thesis by (subst iwdg_wait_update.simps) (auto simp: Let_def)
  qed
qed

lemma iwdg_wait_update_stuck:
  "0 < spins \<Longrightarrow> spins \<le> iwdg_sr_reads s \<Longrightarrow> \<not> fst (iwdg_wait_update spins s)"
proof (induction spins s rule: iwdg_wait_update.induct)
  case (1 spins s)
  then show ?case by (subst iwdg_wait_update.simps) (auto simp: Let_def)
qed

lemma iwdg_ticks:
  assumes "t \<le> (32768 :: u32)"
  shows "unat ((t * IWDG_LSI_HZ + 999) div 1000) = 32 * unat t"
proof -
  have "unat t \<le> 32768" using assms by (simp add: word_le_nat_alt)
  then have "unat (t * IWDG_LSI_HZ + 999) = 32000 * unat t + 999" by (simp add: unat_word_ariths)
  then show ?thesis by (simp add: unat_div)
qed

text \<open>What a request within range programs, before the wait for the LSI domain.\<close>

lemma stm32_watchdog_start_form:
  fixes s :: "'a wdg_scheme"
  assumes "0 < t" "t \<le> 32768"
  obtains pr dv reload where
    "stm32_watchdog_start t s =
       (let s1 = IWDG_RLR_write (reload - 1)
                   (IWDG_PR_write pr (IWDG_KR_unlock (IWDG_KR_start s)));
            (cleared, s2) = iwdg_wait_update IWDG_UPDATE_SPINS s1
        in if \<not> cleared then (HAL_ERR_TIMEOUT, s2)
           else (HAL_OK, (IWDG_KR_reload s2)
                  \<lparr>iwdg_timeout_ms := (reload * dv * 1000) div IWDG_LSI_HZ, iwdg_running := 1\<rparr>))"
    "unat pr \<le> 6" "unat dv = 4 * 2 ^ unat pr"
    "unat reload = (32 * unat t + unat dv - 1) div unat dv" "1 \<le> unat reload" "unat reload \<le> 4096"
    "pr = 0 \<or> 4096 < (32 * unat t + unat dv div 2 - 1) div (unat dv div 2)"
proof -
  let ?ticks = "(t * IWDG_LSI_HZ + 999) div 1000"
  have tk: "unat ?ticks = 32 * unat t" using assms(2) by (rule iwdg_ticks)
  have t0: "0 < unat t" "unat t \<le> 32768"
    using assms by (simp_all add: word_le_nat_alt word_less_nat_alt)
  obtain pr dv where sc: "iwdg_scale ?ticks 0 4 = (pr, dv)" by fastforce
  have sp: "unat pr \<le> 6" "unat dv = 4 * 2 ^ unat pr"
      "(32 * unat t + unat dv - 1) div unat dv \<le> 4096"
      "pr = 0 \<or> 4096 < (32 * unat t + unat dv div 2 - 1) div (unat dv div 2)"
    using iwdg_scale_spec [OF sc] tk t0 by auto
  have "(2::nat) ^ unat pr \<le> 2 ^ 6" using sp(1) by (intro power_increasing) auto
  then have b: "0 < unat dv" "unat dv \<le> 256" using sp(2) by auto
  let ?reload = "(?ticks + dv - 1) div dv"
  have rl: "unat ?reload = (32 * unat t + unat dv - 1) div unat dv"
    using ceil_div_word [OF b] tk t0 by simp
  have pos: "1 \<le> unat ?reload"
    unfolding rl using b t0 by (simp add: Suc_le_eq div_greater_zero_iff)
  then have nz: "?reload \<noteq> 0" by auto
  have le: "\<not> ?reload > IWDG_RLR_MASK + 1" using rl sp(3) by (simp add: word_less_nat_alt)
  have ok: "\<not> (t = 0 \<or> t > stm32_watchdog_max_timeout_ms)" using assms by (auto simp: max_timeout)
  show thesis
    by (rule that [of ?reload pr dv])
      (unfold stm32_watchdog_start_def if_not_P [OF ok] Let_def sc prod.case if_not_P [OF nz]
        if_not_P [OF le], use sp rl pos in auto)
qed

lemma iwdg_wait_update_running:
  "iwdg_running (snd (iwdg_wait_update spins s)) = iwdg_running s"
proof (induction spins s rule: iwdg_wait_update.induct)
  case (1 spins s)
  then show ?case by (subst iwdg_wait_update.simps) (auto simp: Let_def)
qed

lemmas iwdg_write_defs =
  IWDG_RLR_write_def IWDG_PR_write_def IWDG_KR_unlock_def IWDG_KR_start_def IWDG_KR_reload_def

lemma stm32_watchdog_start_stuck:
  assumes "0 < t" "t \<le> 32768" "IWDG_UPDATE_SPINS \<le> iwdg_sr_reads s"
  shows "fst (stm32_watchdog_start t s) = HAL_ERR_TIMEOUT \<and>
    iwdg_running (snd (stm32_watchdog_start t s)) = iwdg_running s"
proof -
  obtain pr dv reload where r: "stm32_watchdog_start t s =
       (let s1 = IWDG_RLR_write (reload - 1)
                   (IWDG_PR_write pr (IWDG_KR_unlock (IWDG_KR_start s)));
            (cleared, s2) = iwdg_wait_update IWDG_UPDATE_SPINS s1
        in if \<not> cleared then (HAL_ERR_TIMEOUT, s2)
           else (HAL_OK, (IWDG_KR_reload s2)
                  \<lparr>iwdg_timeout_ms := (reload * dv * 1000) div IWDG_LSI_HZ, iwdg_running := 1\<rparr>))"
    by (rule stm32_watchdog_start_form [OF assms(1,2), where s = s])
  let ?s1 = "IWDG_RLR_write (reload - 1) (IWDG_PR_write pr (IWDG_KR_unlock (IWDG_KR_start s)))"
  have f: "iwdg_sr_reads ?s1 = iwdg_sr_reads s" "iwdg_running ?s1 = iwdg_running s"
    by (simp_all add: iwdg_write_defs)
  then have "\<not> fst (iwdg_wait_update IWDG_UPDATE_SPINS ?s1)"
    using assms(3) by (intro iwdg_wait_update_stuck) simp_all
  then show ?thesis
    using iwdg_wait_update_running [of IWDG_UPDATE_SPINS ?s1] f
    unfolding r by (auto simp: Let_def split: prod.splits)
qed

lemma stm32_watchdog_start_ok:
  assumes "0 < t" "t \<le> 32768" "iwdg_sr_reads s < IWDG_UPDATE_SPINS"
  obtains pr dv reload where
    "stm32_watchdog_start t s =
       (HAL_OK, (IWDG_KR_reload ((IWDG_RLR_write (reload - 1)
          (IWDG_PR_write pr (IWDG_KR_unlock (IWDG_KR_start s))))\<lparr>iwdg_sr_reads := 0\<rparr>))
            \<lparr>iwdg_timeout_ms := (reload * dv * 1000) div IWDG_LSI_HZ, iwdg_running := 1\<rparr>)"
    "unat pr \<le> 6" "unat dv = 4 * 2 ^ unat pr"
    "unat reload = (32 * unat t + unat dv - 1) div unat dv" "1 \<le> unat reload" "unat reload \<le> 4096"
    "pr = 0 \<or> 4096 < (32 * unat t + unat dv div 2 - 1) div (unat dv div 2)"
proof (rule stm32_watchdog_start_form [OF assms(1,2), where s = s])
  fix pr dv reload
  let ?s1 = "IWDG_RLR_write (reload - 1) (IWDG_PR_write pr (IWDG_KR_unlock (IWDG_KR_start s)))"
  assume form: "stm32_watchdog_start t s =
       (let s1 = ?s1; (cleared, s2) = iwdg_wait_update IWDG_UPDATE_SPINS s1
        in if \<not> cleared then (HAL_ERR_TIMEOUT, s2)
           else (HAL_OK, (IWDG_KR_reload s2)
                  \<lparr>iwdg_timeout_ms := (reload * dv * 1000) div IWDG_LSI_HZ, iwdg_running := 1\<rparr>))"
    and facts: "unat pr \<le> 6" "unat dv = 4 * 2 ^ unat pr"
    "unat reload = (32 * unat t + unat dv - 1) div unat dv" "1 \<le> unat reload" "unat reload \<le> 4096"
    "pr = 0 \<or> 4096 < (32 * unat t + unat dv div 2 - 1) div (unat dv div 2)"
  have "iwdg_sr_reads ?s1 = iwdg_sr_reads s" by (simp add: iwdg_write_defs)
  then have w: "iwdg_wait_update IWDG_UPDATE_SPINS ?s1 = (True, ?s1\<lparr>iwdg_sr_reads := 0\<rparr>)"
    using assms(3) by (intro iwdg_wait_update_ok) simp
  show thesis by (rule that [OF _ facts]) (simp only: form w Let_def prod.case not_True_eq_False if_False)
qed

section \<open>Properties\<close>

text \<open>C30. Starting the independent watchdog with any timeout from 1 ms to the advertised
  maximum of 32768 ms succeeds (the LSI domain answering), arms it with a legal prescaler and
  reload whose period in LSI cycles is never shorter than asked for, reports that period, and uses
  the finest prescaler that can hold it.\<close>

theorem watchdog_never_bites_early:
  assumes "0 < t" "t \<le> stm32_watchdog_max_timeout_ms" "iwdg_sr_reads s < IWDG_UPDATE_SPINS"
  shows "\<exists>s'. hal_watchdog_start t s = (HAL_OK, s') \<and> iwdg_armed s' \<and> iwdg_running s' = 1 \<and>
    unat (IWDG_PR s') \<le> 6 \<and> unat (IWDG_RLR s') \<le> 4095 \<and>
    32 * unat t \<le> (unat (IWDG_RLR s') + 1) * (4 * 2 ^ unat (IWDG_PR s')) \<and>
    t \<le> stm32_watchdog_get_timeout_ms s' \<and>
    (IWDG_PR s' = 0 \<or> 4096 * (2 * 2 ^ unat (IWDG_PR s')) < 32 * unat t)"
proof -
  obtain pr dv reload where r:
    "stm32_watchdog_start t s =
       (HAL_OK, (IWDG_KR_reload ((IWDG_RLR_write (reload - 1)
          (IWDG_PR_write pr (IWDG_KR_unlock (IWDG_KR_start s))))\<lparr>iwdg_sr_reads := 0\<rparr>))
            \<lparr>iwdg_timeout_ms := (reload * dv * 1000) div IWDG_LSI_HZ, iwdg_running := 1\<rparr>)"
    "unat pr \<le> 6" "unat dv = 4 * 2 ^ unat pr"
    "unat reload = (32 * unat t + unat dv - 1) div unat dv" "1 \<le> unat reload" "unat reload \<le> 4096"
    "pr = 0 \<or> 4096 < (32 * unat t + unat dv div 2 - 1) div (unat dv div 2)"
    using stm32_watchdog_start_ok [OF assms(1) assms(2)[unfolded max_timeout] assms(3)] by blast
  let ?s' = "snd (stm32_watchdog_start t s)"
  have rm: "unat (reload - 1) = unat reload - 1"
    using r(5) by (subst unat_minus_one) auto
  have fields: "IWDG_PR ?s' = pr AND 0x07" "IWDG_RLR ?s' = (reload - 1) AND 0x0FFF"
    "iwdg_timeout_ms ?s' = (reload * dv * 1000) div 32000" "iwdg_armed ?s'" "iwdg_running ?s' = 1"
    by (simp_all add: r(1) IWDG_KR_reload_def IWDG_RLR_write_def IWDG_PR_write_def
        IWDG_KR_unlock_def IWDG_KR_start_def)
  have "pr AND mask 3 = pr" "(reload - 1) AND mask 12 = reload - 1"
    using r(2,6) rm by (simp_all add: and_mask_small)
  then have regs: "IWDG_PR ?s' = pr" "IWDG_RLR ?s' = reload - 1"
    unfolding fields by (simp_all add: mask_eq_exp_minus_1)
  have "(2::nat) ^ unat pr \<le> 2 ^ 6" using r(2) by (intro power_increasing) auto
  then have dv: "0 < unat dv" "unat dv \<le> 256" using r(3) by auto
  have period: "32 * unat t \<le> unat reload * unat dv"
    unfolding r(4) using dv by (intro ceil_div_ge) simp
  have "unat reload * unat dv \<le> 4096 * 256" using r(6) dv by (intro mult_mono) auto
  then have small: "unat reload * unat dv * 1000 < 4294967296" by linarith
  have "unat (reload * dv * 1000) = (unat reload * unat dv * 1000) mod 4294967296"
    by (simp add: unat_word_ariths mod_simps)
  also have "\<dots> = unat reload * unat dv * 1000" using small by (rule mod_less)
  finally have "unat ((reload * dv * 1000) div 32000) = unat reload * unat dv * 1000 div 32000"
    by (simp add: unat_div)
  moreover have "32 * unat t * 1000 div 32000 \<le> unat reload * unat dv * 1000 div 32000"
    using period by (intro div_le_mono mult_right_mono) simp_all
  ultimately have ms: "unat t \<le> unat (iwdg_timeout_ms ?s')"
    unfolding fields by simp
  have fine: "pr = 0 \<or> 4096 * (2 * 2 ^ unat pr) < 32 * unat t"
  proof (cases "pr = 0")
    case False
    then have "4096 * (unat dv div 2) < 32 * unat t"
      using r(7) dv r(3) by (intro ceil_div_gt) auto
    then show ?thesis using r(3) by simp
  qed simp
  have start: "hal_watchdog_start t s = (HAL_OK, ?s')"
    using assms(1) r(1) by (auto simp: hal_watchdog_start_def)
  show ?thesis
    using start fields(4,5) regs rm r(2,5,6) period ms fine r(3)
    by (intro exI [of _ ?s'])
      (simp add: word_le_nat_alt stm32_watchdog_get_timeout_ms_def)
qed

definition wdg_cold :: wdg where
  "wdg_cold = \<lparr>IWDG_PR = 0, IWDG_RLR = 0xFFF, iwdg_unlocked = False, iwdg_armed = False,
     iwdg_reloads = 0, iwdg_sr_reads = 5, iwdg_timeout_ms = 0, iwdg_running = 0\<rparr>"

theorem watchdog_never_bites_early_witness:
  "\<exists>s'. hal_watchdog_start 8000 wdg_cold = (HAL_OK, s') \<and> iwdg_armed s' \<and> iwdg_running s' = 1 \<and>
    unat (IWDG_PR s') \<le> 6 \<and> unat (IWDG_RLR s') \<le> 4095 \<and>
    32 * unat (8000 :: u32) \<le> (unat (IWDG_RLR s') + 1) * (4 * 2 ^ unat (IWDG_PR s')) \<and>
    8000 \<le> stm32_watchdog_get_timeout_ms s' \<and>
    (IWDG_PR s' = 0 \<or> 4096 * (2 * 2 ^ unat (IWDG_PR s')) < 32 * unat (8000 :: u32))"
  by (rule watchdog_never_bites_early) (simp_all add: max_timeout wdg_cold_def)

text \<open>A watchdog whose update bits never clear in time reports a timeout and leaves the
  running flag as it was, so a driver that never started keeps refusing kicks; zero and over-long
  requests change nothing.\<close>

theorem watchdog_start_failures:
  "(if t = 0 \<or> t > stm32_watchdog_max_timeout_ms
    then hal_watchdog_start t s = (HAL_ERR_INVALID_ARG, s)
    else if IWDG_UPDATE_SPINS \<le> iwdg_sr_reads s
    then fst (hal_watchdog_start t s) = HAL_ERR_TIMEOUT \<and>
         iwdg_running (snd (hal_watchdog_start t s)) = iwdg_running s
    else fst (hal_watchdog_start t s) = HAL_OK)"
proof -
  consider "t = 0 \<or> t > stm32_watchdog_max_timeout_ms"
    | "0 < t" "t \<le> 32768" "IWDG_UPDATE_SPINS \<le> iwdg_sr_reads s"
    | "0 < t" "t \<le> 32768" "iwdg_sr_reads s < IWDG_UPDATE_SPINS"
    by (metis max_timeout not_le word_greater_zero_iff)
  then show ?thesis
  proof cases
    case 1
    then show ?thesis by (auto simp: hal_watchdog_start_def stm32_watchdog_start_def)
  next
    case 2
    have "fst (stm32_watchdog_start t s) = HAL_ERR_TIMEOUT \<and>
         iwdg_running (snd (stm32_watchdog_start t s)) = iwdg_running s"
      by (rule stm32_watchdog_start_stuck) (use 2 in auto)
    then show ?thesis using 2 by (auto simp: hal_watchdog_start_def max_timeout)
  next
    case 3
    have "fst (stm32_watchdog_start t s) = HAL_OK"
      by (rule stm32_watchdog_start_ok [OF 3]) simp
    then show ?thesis using 3 by (auto simp: hal_watchdog_start_def max_timeout)
  qed
qed

lemma wwdg_scale_step:
  "0 < left \<Longrightarrow> wwdg_scale pclk1 timeout_ms left tb hz0 c0 =
     (let hz = pclk1 div push_bit tb 4096
      in if hz = 0 then None
         else let c = (timeout_ms * hz + 999) div 1000
              in if c \<le> 64 then Some (tb, hz, c)
                 else wwdg_scale pclk1 timeout_ms (left - 1) (Suc tb) hz c)"
  by (cases left) (simp_all only: wwdg_scale.simps diff_Suc_1 less_irrefl)

text \<open>The window watchdog's range check is made on a product that wraps at 32 bits: a request of
  418.899 s on a 42 MHz bus is accepted and armed as 5 ticks of 4096 cycles, under half a
  millisecond (finding).\<close>

theorem wwdg_timeout_product_wraps:
  "fst (hal_wwdg_start 42000000 418899 0 s) = HAL_OK \<and>
   WWDG_CR (snd (hal_wwdg_start 42000000 418899 0 s)) AND 0x7F = 0x3F + 5"
  by (simp add: hal_wwdg_start_def stm32_wwdg_start_def wwdg_scale_step)

end
