(* ===== verification/Flash.thy ===== *)
theory Flash
  imports Watchdog
begin

text \<open>
  The STM32F4 flash controller and the low-level half of src/vendor/stm32/flash/flash.c: the
  busy-wait that feeds the watchdog, lock/unlock, the accelerator flush, sector erase, half-word
  programming, and the raw partition access a loader writes images with.

  The controller itself is hardware. It is modelled by what the driver and its register header
  rely on: CR is writable only after the two keys, STRT with SER erases the sector SNB names, a
  store with PG set clears bits and never sets them, and BSY stays set for \<open>fl_dur k\<close> status reads
  after the \<open>k\<close>-th operation. Nothing bounds \<open>fl_dur\<close>: a wedged controller is one of the states.
\<close>

section \<open>State\<close>

record flash = wdg +
  fl_mem :: "u32 \<Rightarrow> u8"
  FLASH_ACR :: u32
  FLASH_CR :: u32
  fl_key1 :: bool
  fl_busy :: nat
  fl_ops :: nat
  fl_dur :: "nat \<Rightarrow> nat"

definition FLASH_KEY1 :: u32 where "FLASH_KEY1 = 0x45670123"
definition FLASH_KEY2 :: u32 where "FLASH_KEY2 = 0xCDEF89AB"

text \<open>Bit positions of CR.\<close>

definition FLASH_CR_PG :: u32 where "FLASH_CR_PG = push_bit 0 1"
definition FLASH_CR_SER :: u32 where "FLASH_CR_SER = push_bit 1 1"
definition FLASH_CR_SNB_Pos :: nat where "FLASH_CR_SNB_Pos = 3"
definition FLASH_CR_SNB_Msk :: u32 where "FLASH_CR_SNB_Msk = push_bit FLASH_CR_SNB_Pos 0xF"
definition FLASH_CR_PSIZE_Pos :: nat where "FLASH_CR_PSIZE_Pos = 8"
definition FLASH_CR_PSIZE_Msk :: u32 where "FLASH_CR_PSIZE_Msk = push_bit FLASH_CR_PSIZE_Pos 0x3"
definition FLASH_CR_STRT :: u32 where "FLASH_CR_STRT = push_bit 16 1"
definition FLASH_CR_LOCK :: u32 where "FLASH_CR_LOCK = push_bit 31 1"

definition FLASH_ACR_ICEN :: u32 where "FLASH_ACR_ICEN = push_bit 9 1"
definition FLASH_ACR_DCEN :: u32 where "FLASH_ACR_DCEN = push_bit 10 1"
definition FLASH_ACR_ICRST :: u32 where "FLASH_ACR_ICRST = push_bit 11 1"
definition FLASH_ACR_DCRST :: u32 where "FLASH_ACR_DCRST = push_bit 12 1"

lemmas flash_cr_bits =
  FLASH_CR_PG_def FLASH_CR_SER_def FLASH_CR_SNB_Pos_def FLASH_CR_SNB_Msk_def
  FLASH_CR_PSIZE_Pos_def FLASH_CR_PSIZE_Msk_def FLASH_CR_STRT_def FLASH_CR_LOCK_def

section \<open>Sector geometry (the F4 512K map)\<close>

definition sector_base :: "u8 \<Rightarrow> u32" where
  "sector_base sector =
     [0x08000000, 0x08004000, 0x08008000, 0x0800C000,
      0x08010000, 0x08020000, 0x08040000, 0x08060000] ! unat (sector AND 7)"

definition sector_size :: "u8 \<Rightarrow> u32" where
  "sector_size sector =
     [0x4000, 0x4000, 0x4000, 0x4000, 0x10000, 0x20000, 0x20000, 0x20000] ! unat (sector AND 7)"

definition in_sector :: "u8 \<Rightarrow> u32 \<Rightarrow> bool" where
  "in_sector n a \<longleftrightarrow> sector_base n \<le> a \<and> a < sector_base n + sector_size n"

section \<open>The controller\<close>

definition FLASH_KEYR_write :: "u32 \<Rightarrow> 'm flash_scheme \<Rightarrow> 'm flash_scheme" where
  "FLASH_KEYR_write k s =
     (if k = FLASH_KEY1 then s\<lparr>fl_key1 := True\<rparr>
      else if k = FLASH_KEY2 \<and> fl_key1 s
      then s\<lparr>fl_key1 := False, FLASH_CR := FLASH_CR s AND NOT FLASH_CR_LOCK\<rparr>
      else s)"

definition erased_sector :: "u8 \<Rightarrow> (u32 \<Rightarrow> u8) \<Rightarrow> u32 \<Rightarrow> u8" where
  "erased_sector n m = (\<lambda>a. if in_sector n a then 0xFF else m a)"

definition FLASH_CR_SNB :: "u32 \<Rightarrow> u8" where
  "FLASH_CR_SNB v = ucast (drop_bit FLASH_CR_SNB_Pos v AND 0xF)"

definition FLASH_CR_write :: "u32 \<Rightarrow> 'm flash_scheme \<Rightarrow> 'm flash_scheme" where
  "FLASH_CR_write v s =
     (if bit (FLASH_CR s) 31 then s
      else let s1 = s\<lparr>FLASH_CR := v AND NOT FLASH_CR_STRT\<rparr>
           in if bit v 16 \<and> bit v 1 \<and> FLASH_CR_SNB v < 8
              then s1\<lparr>fl_mem := erased_sector (FLASH_CR_SNB v) (fl_mem s),
                      fl_busy := fl_dur s (fl_ops s), fl_ops := Suc (fl_ops s)\<rparr>
              else s1)"

text \<open>A half-word store to flash memory, low byte first.\<close>

definition prog16 :: "u32 \<Rightarrow> u16 \<Rightarrow> (u32 \<Rightarrow> u8) \<Rightarrow> u32 \<Rightarrow> u8" where
  "prog16 addr hw m = m(addr := m addr AND byte_of 0 hw,
                        addr + 1 := m (addr + 1) AND byte_of 1 hw)"

definition flash_store16 :: "u32 \<Rightarrow> u16 \<Rightarrow> 'm flash_scheme \<Rightarrow> 'm flash_scheme" where
  "flash_store16 addr hw s =
     (if \<not> bit (FLASH_CR s) 31 \<and> bit (FLASH_CR s) 0
      then s\<lparr>fl_mem := prog16 addr hw (fl_mem s),
             fl_busy := fl_dur s (fl_ops s), fl_ops := Suc (fl_ops s)\<rparr>
      else s)"

definition flash_read_half_word :: "u32 \<Rightarrow> 'm flash_scheme \<Rightarrow> u16" where
  "flash_read_half_word addr s = le16 (fl_mem s addr) (fl_mem s (addr + 1))"

section \<open>Driver primitives\<close>

definition FLASH_BSY_SPINS :: nat where "FLASH_BSY_SPINS = 40000000"

text \<open>
  \<open>while (SR & BSY) { if (--spins == 0) return TIMEOUT; if ((spins & 0xFFFF) == 0) kick; }\<close>.
  Each test of BSY is one status read.
\<close>

function flash_wait_loop :: "nat \<Rightarrow> 'm flash_scheme \<Rightarrow> hal_status \<times> 'm flash_scheme" where
  "flash_wait_loop spins s =
     (if fl_busy s = 0 then (HAL_OK, s)
      else let s1 = s\<lparr>fl_busy := fl_busy s - 1\<rparr>
           in if spins \<le> 1 then (HAL_ERR_TIMEOUT, s1)
              else flash_wait_loop (spins - 1)
                     (if (spins - 1) mod 65536 = 0 then snd (hal_watchdog_kick s1) else s1))"
  by pat_completeness auto
termination
  by (relation "measure fst") auto

declare flash_wait_loop.simps [simp del]

definition flash_wait :: "'m flash_scheme \<Rightarrow> hal_status \<times> 'm flash_scheme" where
  "flash_wait s = flash_wait_loop FLASH_BSY_SPINS s"

definition flash_unlock :: "'m flash_scheme \<Rightarrow> 'm flash_scheme" where
  "flash_unlock s =
     (if bit (FLASH_CR s) 31 then FLASH_KEYR_write FLASH_KEY2 (FLASH_KEYR_write FLASH_KEY1 s) else s)"

text \<open>\<open>FLASH_CR op= ...\<close>: read, modify, write.\<close>

definition FLASH_CR_update :: "(u32 \<Rightarrow> u32) \<Rightarrow> 'm flash_scheme \<Rightarrow> 'm flash_scheme" where
  "FLASH_CR_update f s = FLASH_CR_write (f (FLASH_CR s)) s"

definition flash_lock :: "'m flash_scheme \<Rightarrow> 'm flash_scheme" where
  "flash_lock s = FLASH_CR_update (\<lambda>v. v OR FLASH_CR_LOCK) s"

definition flash_cache_flush :: "'m flash_scheme \<Rightarrow> 'm flash_scheme" where
  "flash_cache_flush s =
     (let enables = FLASH_ACR_ICEN OR FLASH_ACR_DCEN;
          resets = FLASH_ACR_ICRST OR FLASH_ACR_DCRST;
          keep = FLASH_ACR s AND NOT (enables OR resets);
          on = FLASH_ACR s AND enables;
          s1 = s\<lparr>FLASH_ACR := keep\<rparr>;
          s2 = s1\<lparr>FLASH_ACR := keep OR resets\<rparr>;
          s3 = s2\<lparr>FLASH_ACR := keep\<rparr>
      in s3\<lparr>FLASH_ACR := keep OR on\<rparr>)"

definition flash_erase_sector :: "u8 \<Rightarrow> 'm flash_scheme \<Rightarrow> 'm flash_scheme" where
  "flash_erase_sector sector s =
     (let s1 = snd (flash_wait (flash_unlock s));
          s2 = FLASH_CR_update (\<lambda>v. v AND NOT FLASH_CR_SNB_Msk) s1;
          s3 = FLASH_CR_update
                 (\<lambda>v. v OR (FLASH_CR_SER OR push_bit FLASH_CR_SNB_Pos (ucast (sector AND 0xF)))) s2;
          s4 = FLASH_CR_update (\<lambda>v. v OR FLASH_CR_STRT) s3;
          s5 = snd (flash_wait s4);
          s6 = FLASH_CR_update (\<lambda>v. v AND NOT FLASH_CR_SER) s5
      in flash_cache_flush (flash_lock s6))"

definition flash_program_half_word :: "u32 \<Rightarrow> u16 \<Rightarrow> 'm flash_scheme \<Rightarrow> 'm flash_scheme" where
  "flash_program_half_word addr data s =
     (let s1 = snd (flash_wait (flash_unlock s));
          s2 = FLASH_CR_update (\<lambda>v. v AND NOT FLASH_CR_PSIZE_Msk) s1;
          s3 = FLASH_CR_update (\<lambda>v. v OR push_bit FLASH_CR_PSIZE_Pos 0x1) s2;
          s4 = FLASH_CR_update (\<lambda>v. v OR FLASH_CR_PG) s3;
          s5 = flash_store16 addr data s4;
          s6 = snd (flash_wait s5);
          s7 = FLASH_CR_update (\<lambda>v. v AND NOT FLASH_CR_PG) s6
      in flash_lock s7)"

section \<open>Raw partition access\<close>

text \<open>Which sectors the key/value store owns is a build-time choice (flash_reg.h, Kconfig).\<close>

record kv_build =
  PRIMARY_FLASH_SECTOR :: u8
  SECONDARY_FLASH_SECTOR :: u8

definition raw_sector_allowed :: "kv_build \<Rightarrow> u8 \<Rightarrow> bool" where
  "raw_sector_allowed cfg sector =
     (if sector > 7 then False
      else if sector \<le> 1 then False
      else if sector = PRIMARY_FLASH_SECTOR cfg \<or> sector = SECONDARY_FLASH_SECTOR cfg then False
      else True)"

text \<open>The loop over sectors 0..7 with its early \<open>return false\<close>.\<close>

fun raw_overlaps_ok :: "kv_build \<Rightarrow> u32 \<Rightarrow> u32 \<Rightarrow> u8 list \<Rightarrow> bool" where
  "raw_overlaps_ok cfg addr end [] = True"
| "raw_overlaps_ok cfg addr end (s # ss) =
     (let b = sector_base s;
          e = b + sector_size s;
          overlaps = (addr < e \<and> end > b)
      in if overlaps \<and> \<not> raw_sector_allowed cfg s then False
         else raw_overlaps_ok cfg addr end ss)"

definition raw_range_allowed :: "kv_build \<Rightarrow> u32 \<Rightarrow> u32 \<Rightarrow> bool" where
  "raw_range_allowed cfg addr len =
     (if len = 0 then False
      else let end = addr + len
           in if end < addr then False
              else if \<not> raw_overlaps_ok cfg addr end [0, 1, 2, 3, 4, 5, 6, 7] then False
              else addr \<ge> sector_base 0 \<and> end \<le> sector_base 7 + sector_size 7)"

definition hal_flash_raw_erase_sector ::
    "kv_build \<Rightarrow> u8 \<Rightarrow> 'm flash_scheme \<Rightarrow> hal_status \<times> 'm flash_scheme" where
  "hal_flash_raw_erase_sector cfg sector s =
     (if \<not> raw_sector_allowed cfg sector then (HAL_ERR_INVALID_ARG, s)
      else
        let (st, s1) = flash_wait (flash_unlock s)
        in if st \<noteq> HAL_OK then (st, flash_lock s1)
           else
             let s2 = FLASH_CR_update (\<lambda>v. v AND NOT FLASH_CR_SNB_Msk) s1;
                 s3 = FLASH_CR_update
                   (\<lambda>v. v OR (push_bit FLASH_CR_SNB_Pos (ucast sector) AND FLASH_CR_SNB_Msk)) s2;
                 s4 = FLASH_CR_update (\<lambda>v. v OR FLASH_CR_SER) s3;
                 s5 = FLASH_CR_update (\<lambda>v. v OR FLASH_CR_STRT) s4;
                 (st, s6) = flash_wait s5;
                 s7 = FLASH_CR_update (\<lambda>v. v AND NOT FLASH_CR_SER) s6
             in (st, flash_cache_flush (flash_lock s7)))"

text \<open>One turn of the program loop, the half-word at \<open>addr + off\<close> being \<open>b0, b1\<close>.\<close>

definition raw_program_step ::
    "u32 \<Rightarrow> u8 \<Rightarrow> u8 \<Rightarrow> 'm flash_scheme \<Rightarrow> hal_status \<times> 'm flash_scheme" where
  "raw_program_step a b0 b1 s =
     (let hw = le16 b0 b1;
          s1 = FLASH_CR_update (\<lambda>v. v AND NOT FLASH_CR_PSIZE_Msk) s;
          s2 = FLASH_CR_update (\<lambda>v. v OR push_bit FLASH_CR_PSIZE_Pos 0x1) s1;
          s3 = FLASH_CR_update (\<lambda>v. v OR FLASH_CR_PG) s2;
          s4 = flash_store16 a hw s3;
          (st, s5) = flash_wait s4;
          s6 = FLASH_CR_update (\<lambda>v. v AND NOT FLASH_CR_PG) s5
      in if st = HAL_OK \<and> flash_read_half_word a s6 \<noteq> hw then (HAL_ERR_IO, s6) else (st, s6))"

fun raw_program_loop ::
    "hal_status \<Rightarrow> u32 \<Rightarrow> u8 list \<Rightarrow> 'm flash_scheme \<Rightarrow> hal_status \<times> 'm flash_scheme" where
  "raw_program_loop st a (b0 # b1 # ds) s =
     (if st = HAL_OK
      then let (st', s') = raw_program_step a b0 b1 s in raw_program_loop st' (a + 2) ds s'
      else (st, s))"
| "raw_program_loop st a ds s = (st, s)"

text \<open>\<open>data\<close> is the \<open>len\<close> bytes at the caller's pointer, \<open>None\<close> for NULL.\<close>

definition hal_flash_raw_program ::
    "kv_build \<Rightarrow> u32 \<Rightarrow> u8 list option \<Rightarrow> 'm flash_scheme \<Rightarrow> hal_status \<times> 'm flash_scheme" where
  "hal_flash_raw_program cfg addr data s =
     (case data of
        None \<Rightarrow> (HAL_ERR_INVALID_ARG, s)
      | Some ds \<Rightarrow>
          let len = word_of_nat (length ds)
          in if addr AND 1 \<noteq> 0 \<or> len AND 1 \<noteq> 0 then (HAL_ERR_INVALID_ARG, s)
             else if \<not> raw_range_allowed cfg addr len then (HAL_ERR_INVALID_ARG, s)
             else let (st, s1) = flash_wait (flash_unlock s);
                      (st, s2) = raw_program_loop st addr ds s1
                  in (st, flash_lock s2))"

section \<open>What each primitive does to the state\<close>

text \<open>A wait changes the busy counter and, through its kicks, two watchdog fields.\<close>

lemma hal_watchdog_kick_form:
  "\<exists>r u. snd (hal_watchdog_kick s) = s\<lparr>iwdg_reloads := r, iwdg_unlocked := u\<rparr>"
proof (cases "iwdg_running s = 0")
  case True
  then show ?thesis
    by (intro exI [of _ "iwdg_reloads s"] exI [of _ "iwdg_unlocked s"])
      (simp add: hal_watchdog_kick_def stm32_watchdog_kick_def)
next
  case False
  then show ?thesis
    by (intro exI [of _ "iwdg_reloads s + 1"] exI [of _ False])
      (simp add: hal_watchdog_kick_def stm32_watchdog_kick_def IWDG_KR_reload_def)
qed

lemma kick_busy [simp]:
  "fl_busy (snd (hal_watchdog_kick s)) = fl_busy s"
  by (simp add: hal_watchdog_kick_def stm32_watchdog_kick_def IWDG_KR_reload_def)

lemma flash_wait_loop_form:
  "\<exists>b r u. snd (flash_wait_loop spins s) =
     s\<lparr>fl_busy := b, iwdg_reloads := r, iwdg_unlocked := u\<rparr>"
proof (induction spins s rule: flash_wait_loop.induct)
  case (1 spins s)
  let ?s1 = "s\<lparr>fl_busy := fl_busy s - 1\<rparr>"
  let ?s2 = "if (spins - 1) mod 65536 = 0 then snd (hal_watchdog_kick ?s1) else ?s1"
  consider "fl_busy s = 0" | "fl_busy s \<noteq> 0" "spins \<le> 1" | "fl_busy s \<noteq> 0" "\<not> spins \<le> 1" by blast
  then show ?case
  proof cases
    case 1
    then show ?thesis
      by (intro exI [of _ "fl_busy s"] exI [of _ "iwdg_reloads s"] exI [of _ "iwdg_unlocked s"])
        (subst flash_wait_loop.simps, simp)
  next
    case 2
    then show ?thesis
      by (intro exI [of _ "fl_busy s - 1"] exI [of _ "iwdg_reloads s"]
          exI [of _ "iwdg_unlocked s"])
        (subst flash_wait_loop.simps, simp add: Let_def)
  next
    case 3
    then obtain b r u where "snd (flash_wait_loop (spins - 1) ?s2) =
        ?s2\<lparr>fl_busy := b, iwdg_reloads := r, iwdg_unlocked := u\<rparr>"
      using "1.IH" [OF 3(1) refl 3(2)] by auto
    moreover obtain r' u' where "snd (hal_watchdog_kick ?s1) =
        ?s1\<lparr>iwdg_reloads := r', iwdg_unlocked := u'\<rparr>"
      using hal_watchdog_kick_form by blast
    ultimately have "\<exists>r u. snd (flash_wait_loop (spins - 1) ?s2) =
        s\<lparr>fl_busy := b, iwdg_reloads := r, iwdg_unlocked := u\<rparr>"
      by (cases "(spins - 1) mod 65536 = 0")
        (simp_all, (intro exI [of _ r] exI [of _ u], simp)+)
    moreover have "flash_wait_loop spins s = flash_wait_loop (spins - 1) ?s2"
      using 3 by (subst flash_wait_loop.simps) (simp add: Let_def)
    ultimately show ?thesis by metis
  qed
qed

lemma flash_wait_loop_fst:
  "0 < spins \<Longrightarrow>
   fst (flash_wait_loop spins s) = (if fl_busy s < spins then HAL_OK else HAL_ERR_TIMEOUT)"
proof (induction spins s rule: flash_wait_loop.induct)
  case (1 spins s)
  then show ?case by (subst flash_wait_loop.simps) (auto simp: Let_def)
qed

lemma flash_wait_loop_busy:
  "fl_busy s < spins \<Longrightarrow> fl_busy (snd (flash_wait_loop spins s)) = 0"
proof (induction spins s rule: flash_wait_loop.induct)
  case (1 spins s)
  then show ?case by (subst flash_wait_loop.simps) (auto simp: Let_def)
qed

lemma flash_wait_cases:
  obtains b r u where
    "flash_wait s = (if fl_busy s < FLASH_BSY_SPINS then HAL_OK else HAL_ERR_TIMEOUT,
       s\<lparr>fl_busy := b, iwdg_reloads := r, iwdg_unlocked := u\<rparr>)"
    "fl_busy s < FLASH_BSY_SPINS \<Longrightarrow> b = 0"
proof -
  obtain b r u where f: "snd (flash_wait s) =
      s\<lparr>fl_busy := b, iwdg_reloads := r, iwdg_unlocked := u\<rparr>"
    unfolding flash_wait_def using flash_wait_loop_form by blast
  have p: "0 < FLASH_BSY_SPINS" by (simp add: FLASH_BSY_SPINS_def)
  show thesis
    by (rule that [where b = b and r = r and u = u])
      (use f flash_wait_loop_fst [OF p, of s] flash_wait_loop_busy [of s FLASH_BSY_SPINS] in
        \<open>auto simp: flash_wait_def prod_eq_iff\<close>)
qed

lemma flash_wait_frame [simp]:
  "fl_mem (snd (flash_wait s)) = fl_mem s"
  "FLASH_CR (snd (flash_wait s)) = FLASH_CR s"
  "FLASH_ACR (snd (flash_wait s)) = FLASH_ACR s"
  "fl_dur (snd (flash_wait s)) = fl_dur s"
  "fl_key1 (snd (flash_wait s)) = fl_key1 s"
  "flash.more (snd (flash_wait s)) = flash.more s"
  "iwdg_running (snd (flash_wait s)) = iwdg_running s"
  "iwdg_armed (snd (flash_wait s)) = iwdg_armed s"
  by (rule flash_wait_cases [of s]; simp)+

lemma flash_wait_fst:
  "fst (flash_wait s) = (if fl_busy s < FLASH_BSY_SPINS then HAL_OK else HAL_ERR_TIMEOUT)"
  by (rule flash_wait_cases [of s]) simp

lemma flash_wait_busy:
  "fl_busy s < FLASH_BSY_SPINS \<Longrightarrow> fl_busy (snd (flash_wait s)) = 0"
  by (rule flash_wait_cases [of s]) simp

text \<open>Every 65536 polls of a long operation feed the watchdog once.\<close>

lemma flash_wait_loop_kicks:
  "fl_busy s < spins \<Longrightarrow> iwdg_running s \<noteq> 0 \<Longrightarrow>
   iwdg_reloads (snd (flash_wait_loop spins s)) + (spins - 1 - fl_busy s) div 65536 =
     iwdg_reloads s + (spins - 1) div 65536"
proof (induction spins s rule: flash_wait_loop.induct)
  case (1 spins s)
  let ?s1 = "s\<lparr>fl_busy := fl_busy s - 1\<rparr>"
  obtain s2 where s2: "s2 = (if (spins - 1) mod 65536 = 0 then snd (hal_watchdog_kick ?s1) else ?s1)"
    by blast
  show ?case
  proof (cases "fl_busy s = 0")
    case True
    then show ?thesis by (subst flash_wait_loop.simps) simp
  next
    case False
    then have sp: "\<not> spins \<le> 1" using "1.prems" by simp
    have k: "iwdg_reloads s2 = iwdg_reloads s + (if (spins - 1) mod 65536 = 0 then 1 else 0)"
      using "1.prems" by (simp add: s2 hal_watchdog_kick_def stm32_watchdog_kick_def IWDG_KR_reload_def)
    have b: "fl_busy s2 = fl_busy s - 1" "iwdg_running s2 = iwdg_running s" by (auto simp: s2)
    have "iwdg_reloads (snd (flash_wait_loop (spins - 1) s2)) +
        (spins - 1 - 1 - fl_busy s2) div 65536 = iwdg_reloads s2 + (spins - 1 - 1) div 65536"
      using "1.IH" [OF False refl sp] "1.prems" False b by (auto simp: s2)
    moreover have "spins - 1 - 1 - fl_busy s2 = spins - 1 - fl_busy s"
      using False b by simp
    moreover have "(spins - 1) div 65536 =
        (spins - 1 - 1) div 65536 + (if (spins - 1) mod 65536 = 0 then 1 else 0)"
    proof -
      obtain n where "spins - 1 = Suc n" using sp by (metis Suc_diff_Suc One_nat_def not_le)
      then show ?thesis by (simp only: div_Suc diff_Suc_1) simp
    qed
    moreover have "flash_wait_loop spins s = flash_wait_loop (spins - 1) s2"
      using False sp by (subst flash_wait_loop.simps) (simp add: Let_def s2)
    ultimately show ?thesis using k by simp
  qed
qed

lemma flash_unlock_frame [simp]:
  "fl_mem (flash_unlock s) = fl_mem s" "fl_busy (flash_unlock s) = fl_busy s"
  "fl_dur (flash_unlock s) = fl_dur s" "fl_ops (flash_unlock s) = fl_ops s"
  "flash.more (flash_unlock s) = flash.more s" "FLASH_ACR (flash_unlock s) = FLASH_ACR s"
  "iwdg_running (flash_unlock s) = iwdg_running s" "iwdg_armed (flash_unlock s) = iwdg_armed s"
  by (simp_all add: flash_unlock_def FLASH_KEYR_write_def)

text \<open>The bits of CR, read one at a time.\<close>

lemma flash_bits [simp]:
  "bit FLASH_CR_LOCK n \<longleftrightarrow> n = 31" "bit FLASH_CR_STRT n \<longleftrightarrow> n = 16"
  "bit FLASH_CR_SER n \<longleftrightarrow> n = 1" "bit FLASH_CR_PG n \<longleftrightarrow> n = 0"
  "bit FLASH_CR_SNB_Msk n \<longleftrightarrow> 3 \<le> n \<and> n < 7"
  "bit FLASH_CR_PSIZE_Msk n \<longleftrightarrow> 8 \<le> n \<and> n < 10"
  "bit (push_bit FLASH_CR_PSIZE_Pos (1 :: u32)) n \<longleftrightarrow> n = 8"
proof -
  have f: "(15 :: u32) = mask 4" "(3 :: u32) = mask 2" by (simp_all add: mask_eq_exp_minus_1)
  show "bit FLASH_CR_LOCK n \<longleftrightarrow> n = 31" "bit FLASH_CR_STRT n \<longleftrightarrow> n = 16"
    "bit FLASH_CR_SER n \<longleftrightarrow> n = 1" "bit FLASH_CR_PG n \<longleftrightarrow> n = 0"
    "bit (push_bit FLASH_CR_PSIZE_Pos (1 :: u32)) n \<longleftrightarrow> n = 8"
    unfolding flash_cr_bits bit_push_bit_iff by (auto simp: bit_1_iff)
  show "bit FLASH_CR_SNB_Msk n \<longleftrightarrow> 3 \<le> n \<and> n < 7"
    "bit FLASH_CR_PSIZE_Msk n \<longleftrightarrow> 8 \<le> n \<and> n < 10"
    unfolding flash_cr_bits f bit_push_bit_iff by (auto simp: bit_mask_iff)
qed

lemma flash_bit_psize [simp]: "bit ((2 :: u32) ^ FLASH_CR_PSIZE_Pos) n \<longleftrightarrow> n = 8"
  unfolding bit_exp_iff FLASH_CR_PSIZE_Pos_def by auto

lemma FLASH_CR_unlock: "FLASH_CR (flash_unlock s) = FLASH_CR s AND NOT FLASH_CR_LOCK"
proof (cases "bit (FLASH_CR s) 31")
  case True
  then show ?thesis
    by (simp add: flash_unlock_def FLASH_KEYR_write_def FLASH_KEY1_def FLASH_KEY2_def)
next
  case False
  then have "FLASH_CR s AND NOT FLASH_CR_LOCK = FLASH_CR s"
    by (intro bit_word_eqI) (auto simp: bit_simps)
  with False show ?thesis by (simp add: flash_unlock_def)
qed

lemma FLASH_CR_update_CR:
  "FLASH_CR (FLASH_CR_update f s) =
     (if bit (FLASH_CR s) 31 then FLASH_CR s else f (FLASH_CR s) AND NOT FLASH_CR_STRT)"
  by (simp add: FLASH_CR_update_def FLASH_CR_write_def Let_def)

lemma FLASH_CR_update_frame [simp]:
  "fl_dur (FLASH_CR_update f s) = fl_dur s" "FLASH_ACR (FLASH_CR_update f s) = FLASH_ACR s"
  "flash.more (FLASH_CR_update f s) = flash.more s"
  "iwdg_running (FLASH_CR_update f s) = iwdg_running s"
  "iwdg_armed (FLASH_CR_update f s) = iwdg_armed s"
  by (simp_all add: FLASH_CR_update_def FLASH_CR_write_def Let_def)

lemma FLASH_CR_update_idle:
  "\<not> (bit (f (FLASH_CR s)) 16 \<and> bit (f (FLASH_CR s)) 1) \<Longrightarrow>
     fl_mem (FLASH_CR_update f s) = fl_mem s \<and> fl_busy (FLASH_CR_update f s) = fl_busy s \<and>
     fl_ops (FLASH_CR_update f s) = fl_ops s"
  by (auto simp: FLASH_CR_update_def FLASH_CR_write_def Let_def)

section \<open>Operations on a calm controller\<close>

text \<open>
  \<open>flash_calm\<close>: no operation pending, no stale command bit in CR, and every operation finishes
  within the polling cap. \<open>flash_settled s m s'\<close>: \<open>s'\<close> is calm again, its memory is \<open>m\<close>, and
  nothing but the controller and the watchdog's reload count changed since \<open>s\<close>.
\<close>

definition flash_calm :: "'m flash_scheme \<Rightarrow> bool" where
  "flash_calm s \<longleftrightarrow> fl_busy s = 0 \<and> \<not> bit (FLASH_CR s) 0 \<and> \<not> bit (FLASH_CR s) 1 \<and>
     \<not> bit (FLASH_CR s) 16 \<and> (\<forall>k. fl_dur s k < FLASH_BSY_SPINS)"

definition flash_settled :: "'m flash_scheme \<Rightarrow> (u32 \<Rightarrow> u8) \<Rightarrow> 'm flash_scheme \<Rightarrow> bool" where
  "flash_settled s m s' \<longleftrightarrow> fl_mem s' = m \<and> flash_calm s' \<and> fl_dur s' = fl_dur s \<and>
     flash.more s' = flash.more s \<and> iwdg_running s' = iwdg_running s \<and> iwdg_armed s' = iwdg_armed s"

lemma flash_settled_refl: "flash_calm s \<Longrightarrow> flash_settled s (fl_mem s) s"
  by (simp add: flash_settled_def)

lemma flash_settled_calm: "flash_settled s m s' \<Longrightarrow> flash_calm s'"
  by (simp add: flash_settled_def)

lemma flash_settled_mem: "flash_settled s m s' \<Longrightarrow> fl_mem s' = m"
  by (simp add: flash_settled_def)

lemma flash_settled_more: "flash_settled s m s' \<Longrightarrow> flash.more s' = flash.more s"
  by (simp add: flash_settled_def)

lemma flash_settled_trans:
  "flash_settled s m s1 \<Longrightarrow> flash_settled s1 m' s2 \<Longrightarrow> flash_settled s m' s2"
  by (auto simp: flash_settled_def)

lemma flash_wait_calm: "flash_calm s \<Longrightarrow> flash_calm (snd (flash_wait (flash_unlock s)))"
  by (auto simp: flash_calm_def FLASH_CR_unlock bit_simps flash_wait_busy FLASH_BSY_SPINS_def)

lemma flash_cache_flush_frame [simp]:
  "fl_mem (flash_cache_flush s) = fl_mem s" "FLASH_CR (flash_cache_flush s) = FLASH_CR s"
  "fl_busy (flash_cache_flush s) = fl_busy s" "fl_dur (flash_cache_flush s) = fl_dur s"
  "flash.more (flash_cache_flush s) = flash.more s"
  "iwdg_running (flash_cache_flush s) = iwdg_running s"
  "iwdg_armed (flash_cache_flush s) = iwdg_armed s"
  by (simp_all add: flash_cache_flush_def Let_def)

lemma flash_store16_frame [simp]:
  "FLASH_CR (flash_store16 a hw s) = FLASH_CR s" "fl_dur (flash_store16 a hw s) = fl_dur s"
  "FLASH_ACR (flash_store16 a hw s) = FLASH_ACR s"
  "flash.more (flash_store16 a hw s) = flash.more s"
  "iwdg_running (flash_store16 a hw s) = iwdg_running s"
  "iwdg_armed (flash_store16 a hw s) = iwdg_armed s"
  by (simp_all add: flash_store16_def)

lemma FLASH_CR_update_plain:
  assumes "\<not> bit (FLASH_CR s) 31" "\<not> bit (f (FLASH_CR s)) 16"
  shows "FLASH_CR (FLASH_CR_update f s) = f (FLASH_CR s)"
    "fl_mem (FLASH_CR_update f s) = fl_mem s" "fl_busy (FLASH_CR_update f s) = fl_busy s"
    "fl_ops (FLASH_CR_update f s) = fl_ops s"
proof -
  have "f (FLASH_CR s) AND NOT FLASH_CR_STRT = f (FLASH_CR s)"
    using assms(2) by (intro bit_word_eqI) (auto simp: bit_simps)
  then show "FLASH_CR (FLASH_CR_update f s) = f (FLASH_CR s)"
    using assms(1) by (simp add: FLASH_CR_update_CR)
  show "fl_mem (FLASH_CR_update f s) = fl_mem s" "fl_busy (FLASH_CR_update f s) = fl_busy s"
    "fl_ops (FLASH_CR_update f s) = fl_ops s"
    using FLASH_CR_update_idle assms(2) by blast+
qed

text \<open>The program sequence common to the key/value store and the raw loop, PSIZE to PG clear.\<close>

lemma flash_program_core:
  fixes a :: u32 and hw :: u16
  assumes "flash_calm s" "\<not> bit (FLASH_CR s) 31"
  defines "s4 \<equiv> flash_store16 a hw (FLASH_CR_update (\<lambda>v. v OR FLASH_CR_PG)
      (FLASH_CR_update (\<lambda>v. v OR push_bit FLASH_CR_PSIZE_Pos 1)
        (FLASH_CR_update (\<lambda>v. v AND NOT FLASH_CR_PSIZE_Msk) s)))"
  defines "s6 \<equiv> FLASH_CR_update (\<lambda>v. v AND NOT FLASH_CR_PG) (snd (flash_wait s4))"
  shows "fst (flash_wait s4) = HAL_OK" "flash_settled s (prog16 a hw (fl_mem s)) s6"
    "\<not> bit (FLASH_CR s6) 31"
proof -
  have c: "\<not> bit (FLASH_CR s) 16" "\<not> bit (FLASH_CR s) 1" "fl_busy s = 0"
    "\<And>k. fl_dur s k < FLASH_BSY_SPINS"
    using assms(1) by (simp_all add: flash_calm_def)
  obtain s1 where s1: "s1 = FLASH_CR_update (\<lambda>v. v AND NOT FLASH_CR_PSIZE_Msk) s" by blast
  obtain s2 where s2: "s2 = FLASH_CR_update (\<lambda>v. v OR push_bit FLASH_CR_PSIZE_Pos 1) s1" by blast
  obtain s3 where s3: "s3 = FLASH_CR_update (\<lambda>v. v OR FLASH_CR_PG) s2" by blast
  have f1: "FLASH_CR s1 = FLASH_CR s AND NOT FLASH_CR_PSIZE_Msk" "fl_mem s1 = fl_mem s"
    unfolding s1 by (rule FLASH_CR_update_plain; use assms(2) c in \<open>simp add: bit_and_iff\<close>)+
  have f2: "FLASH_CR s2 = FLASH_CR s1 OR push_bit FLASH_CR_PSIZE_Pos 1" "fl_mem s2 = fl_mem s"
    unfolding s2 f1(2) [symmetric]
    by (rule FLASH_CR_update_plain; use assms(2) c f1 in \<open>simp add: bit_and_iff bit_or_iff\<close>)+
  have f3: "FLASH_CR s3 = FLASH_CR s2 OR FLASH_CR_PG" "fl_mem s3 = fl_mem s"
    unfolding s3 f2(2) [symmetric]
    by (rule FLASH_CR_update_plain;
        use assms(2) c f1 f2 in \<open>simp add: bit_and_iff bit_or_iff\<close>)+
  have CR3: "\<not> bit (FLASH_CR s3) 31" "\<not> bit (FLASH_CR s3) 16" "\<not> bit (FLASH_CR s3) 1"
      "bit (FLASH_CR s3) 0"
    using assms(2) c by (simp_all add: f3 f2 f1 bit_and_iff bit_or_iff)
  have d3: "fl_dur s3 = fl_dur s" by (simp add: s1 s2 s3)
  have s4: "s4 = flash_store16 a hw s3" by (simp add: s4_def s1 s2 s3)
  have f4: "fl_mem s4 = prog16 a hw (fl_mem s)" "fl_busy s4 < FLASH_BSY_SPINS"
      "FLASH_CR s4 = FLASH_CR s3"
    using CR3 f3(2) c d3 by (simp_all add: s4 flash_store16_def)
  then show "fst (flash_wait s4) = HAL_OK" by (simp add: flash_wait_fst)
  obtain s5 where s5: "s5 = snd (flash_wait s4)" by blast
  have f5: "fl_mem s5 = fl_mem s4" "fl_busy s5 = 0" "FLASH_CR s5 = FLASH_CR s3"
    using f4 by (simp_all add: s5 flash_wait_busy)
  have s6: "s6 = FLASH_CR_update (\<lambda>v. v AND NOT FLASH_CR_PG) s5" by (simp add: s6_def s5)
  have f6: "FLASH_CR s6 = FLASH_CR s3 AND NOT FLASH_CR_PG" "fl_mem s6 = fl_mem s5" "fl_busy s6 = fl_busy s5"
    unfolding s6 f5(3) [symmetric]
    by (rule FLASH_CR_update_plain; use CR3 f5 in \<open>simp add: bit_and_iff\<close>)+
  have env: "fl_dur s6 = fl_dur s" "flash.more s6 = flash.more s"
    "iwdg_running s6 = iwdg_running s" "iwdg_armed s6 = iwdg_armed s"
    by (simp_all add: s6 s5 s4 s3 s2 s1)
  show "flash_settled s (prog16 a hw (fl_mem s)) s6"
    using f4 f5 f6 env CR3 c by (simp add: flash_settled_def flash_calm_def bit_and_iff bit_not_iff)
  show "\<not> bit (FLASH_CR s6) 31" using f6 CR3 by (simp add: bit_and_iff)
qed

lemma flash_lock_settled:
  assumes "flash_settled s m s'" shows "flash_settled s m (flash_lock s')"
proof -
  have c: "\<not> bit (FLASH_CR s') 16" "\<not> bit (FLASH_CR s') 1"
    using assms by (simp_all add: flash_settled_def flash_calm_def)
  show ?thesis
    using assms c FLASH_CR_update_idle [of "\<lambda>v. v OR FLASH_CR_LOCK" s']
    by (auto simp: flash_settled_def flash_calm_def flash_lock_def FLASH_CR_update_CR bit_simps)
qed

lemma flash_unlock_settled:
  assumes "flash_calm s"
  shows "fst (flash_wait (flash_unlock s)) = HAL_OK"
    "flash_settled s (fl_mem s) (snd (flash_wait (flash_unlock s)))"
    "\<not> bit (FLASH_CR (snd (flash_wait (flash_unlock s)))) 31"
  using flash_wait_calm [OF assms] assms
  by (auto simp: flash_settled_def flash_wait_fst FLASH_CR_unlock bit_simps flash_calm_def
      FLASH_BSY_SPINS_def)

lemma flash_program_half_word_settled:
  assumes "flash_calm s"
  shows "flash_settled s (prog16 a hw (fl_mem s)) (flash_program_half_word a hw s)"
proof -
  let ?s1 = "snd (flash_wait (flash_unlock s))"
  note u = flash_unlock_settled [OF assms]
  note c = flash_program_core [OF flash_settled_calm [OF u(2)] u(3), where a = a and hw = hw]
  show ?thesis
    unfolding flash_program_half_word_def Let_def
    by (rule flash_lock_settled [OF flash_settled_trans [OF u(2)]])
      (use c(2) flash_settled_mem [OF u(2)] in simp)
qed

lemma bit_FLASH_CR_SNB: "bit (FLASH_CR_SNB v) n \<longleftrightarrow> n < 4 \<and> bit v (3 + n)"
proof -
  have "(0xF :: u32) = mask 4" by (simp add: mask_eq_exp_minus_1)
  then have "bit (FLASH_CR_SNB v) n \<longleftrightarrow> bit (ucast (drop_bit 3 v AND mask 4) :: u8) n"
    by (simp only: FLASH_CR_SNB_def FLASH_CR_SNB_Pos_def)
  also have "\<dots> \<longleftrightarrow> n < 4 \<and> bit v (3 + n)" by (auto simp: bit_simps)
  finally show ?thesis .
qed

lemma flash_strt_core:
  fixes s :: "'m flash_scheme"
  assumes "fl_busy s = 0" "\<And>k. fl_dur s k < FLASH_BSY_SPINS"
    and CR: "\<not> bit (FLASH_CR s) 31" "\<not> bit (FLASH_CR s) 16" "bit (FLASH_CR s) 1" "\<not> bit (FLASH_CR s) 0"
    and n: "FLASH_CR_SNB (FLASH_CR s) = n" "n < 8"
  defines "s4 \<equiv> FLASH_CR_update (\<lambda>v. v OR FLASH_CR_STRT) s"
  defines "s6 \<equiv> FLASH_CR_update (\<lambda>v. v AND NOT FLASH_CR_SER) (snd (flash_wait s4))"
  shows "fst (flash_wait s4) = HAL_OK" "flash_settled s (erased_sector n (fl_mem s)) s6"
proof -
  have snb: "FLASH_CR_SNB (FLASH_CR s OR FLASH_CR_STRT) = n"
    unfolding n(1) [symmetric]
    by (rule bit_word_eqI) (auto simp: bit_FLASH_CR_SNB bit_or_iff)
  have f4: "fl_mem s4 = erased_sector n (fl_mem s)" "fl_busy s4 < FLASH_BSY_SPINS"
      "FLASH_CR s4 = (FLASH_CR s OR FLASH_CR_STRT) AND NOT FLASH_CR_STRT"
    using assms(2) CR n(2) snb
    by (simp_all add: s4_def FLASH_CR_update_def FLASH_CR_write_def Let_def bit_or_iff)
  then show "fst (flash_wait s4) = HAL_OK" by (simp add: flash_wait_fst)
  obtain s5 where s5: "s5 = snd (flash_wait s4)" by blast
  have f5: "fl_mem s5 = fl_mem s4" "fl_busy s5 = 0" "FLASH_CR s5 = FLASH_CR s4"
    using f4(2) by (simp_all add: s5 flash_wait_busy)
  have CR5: "\<not> bit (FLASH_CR s5) 31" "\<not> bit (FLASH_CR s5) 16" "\<not> bit (FLASH_CR s5) 0"
    using CR by (simp_all add: f5(3) f4(3) bit_simps)
  have s6: "s6 = FLASH_CR_update (\<lambda>v. v AND NOT FLASH_CR_SER) s5" by (simp add: s6_def s5)
  have f6: "FLASH_CR s6 = FLASH_CR s5 AND NOT FLASH_CR_SER" "fl_mem s6 = fl_mem s5"
      "fl_busy s6 = fl_busy s5"
    unfolding s6 by (rule FLASH_CR_update_plain; use CR5 in \<open>simp add: bit_and_iff\<close>)+
  have env: "fl_dur s6 = fl_dur s" "flash.more s6 = flash.more s"
    "iwdg_running s6 = iwdg_running s" "iwdg_armed s6 = iwdg_armed s"
    by (simp_all add: s6 s5 s4_def)
  show "flash_settled s (erased_sector n (fl_mem s)) s6"
    using f4(1) f5 f6 env CR5 assms(2)
    by (simp add: flash_settled_def flash_calm_def bit_and_iff bit_not_iff)
qed

lemma flash_cache_flush_settled:
  "flash_settled s m s' \<Longrightarrow> flash_settled s m (flash_cache_flush s')"
  by (auto simp: flash_settled_def flash_calm_def)

lemma bit_sector_field:
  assumes "(n :: u8) < 8"
  shows "\<And>k. bit n k \<Longrightarrow> k < 3" and "n AND 0xF = n" and
    "\<And>k. bit (push_bit FLASH_CR_SNB_Pos (ucast n) :: u32) k \<longleftrightarrow> 3 \<le> k \<and> bit n (k - 3)"
proof -
  have "unat n < 2 ^ 3" "unat n < 2 ^ 4" using assms by (simp_all add: word_less_nat_alt)
  then have m: "n AND mask 3 = n" "n AND mask 4 = n" by (simp_all only: and_mask_small)
  then show nb: "\<And>k. bit n k \<Longrightarrow> k < 3" by (metis bit_and_iff bit_mask_iff)
  show "n AND 0xF = n" using m(2) by (simp add: mask_eq_exp_minus_1)
  show "bit (push_bit FLASH_CR_SNB_Pos (ucast n) :: u32) k \<longleftrightarrow> 3 \<le> k \<and> bit n (k - 3)" for k
    using nb [of "k - 3"] by (auto simp: FLASH_CR_SNB_Pos_def bit_push_bit_iff bit_ucast_iff)
qed

lemma flash_erase_sector_settled:
  fixes s :: "'m flash_scheme"
  assumes "flash_calm s" "n < 8"
  shows "flash_settled s (erased_sector n (fl_mem s)) (flash_erase_sector n s)"
proof -
  obtain s1 where s1: "s1 = snd (flash_wait (flash_unlock s))" by blast
  note u = flash_unlock_settled [OF assms(1), folded s1]
  have c: "\<not> bit (FLASH_CR s1) 31" "\<not> bit (FLASH_CR s1) 16" "\<not> bit (FLASH_CR s1) 1"
      "\<not> bit (FLASH_CR s1) 0" "fl_busy s1 = 0" "\<And>k. fl_dur s1 k < FLASH_BSY_SPINS"
    using flash_settled_calm [OF u(2)] u(3) by (simp_all add: flash_calm_def)
  note nb = bit_sector_field [OF assms(2)]
  obtain s2 where s2: "s2 = FLASH_CR_update (\<lambda>v. v AND NOT FLASH_CR_SNB_Msk) s1" by blast
  obtain s3 where s3: "s3 = FLASH_CR_update
      (\<lambda>v. v OR (FLASH_CR_SER OR push_bit FLASH_CR_SNB_Pos (ucast (n AND 0xF)))) s2" by blast
  have f2: "FLASH_CR s2 = FLASH_CR s1 AND NOT FLASH_CR_SNB_Msk" "fl_mem s2 = fl_mem s1"
      "fl_busy s2 = fl_busy s1"
    unfolding s2 by (rule FLASH_CR_update_plain; use c in \<open>simp add: bit_and_iff\<close>)+
  have f3: "FLASH_CR s3 = FLASH_CR s2 OR (FLASH_CR_SER OR push_bit FLASH_CR_SNB_Pos (ucast n))"
      "fl_mem s3 = fl_mem s2" "fl_busy s3 = fl_busy s2"
    unfolding s3 nb(2) by (rule FLASH_CR_update_plain;
        use c f2 nb(1) [of 13] in \<open>auto simp: bit_and_iff bit_or_iff nb(3)\<close>)+
  have snb: "FLASH_CR_SNB (FLASH_CR s3) = n"
    by (rule bit_word_eqI)
      (auto simp: bit_FLASH_CR_SNB f3 f2 bit_and_iff bit_or_iff bit_not_iff nb(3) dest: nb(1))
  have core: "flash_settled s3 (erased_sector n (fl_mem s3))
      (FLASH_CR_update (\<lambda>v. v AND NOT FLASH_CR_SER)
        (snd (flash_wait (FLASH_CR_update (\<lambda>v. v OR FLASH_CR_STRT) s3))))"
    by (rule flash_strt_core)
      (use c f2 f3 snb assms(2) nb(1) [of 28] nb(1) [of 13] in
        \<open>auto simp: s3 s2 bit_and_iff bit_or_iff nb(3)\<close>)
  have step: "flash_settled s1 m s'" if "flash_settled s3 m s'" for m s'
    using that by (simp add: flash_settled_def s3 s2)
  show ?thesis
    unfolding flash_erase_sector_def Let_def s1 [symmetric] s2 [symmetric] s3 [symmetric]
    by (rule flash_cache_flush_settled [OF flash_lock_settled
          [OF flash_settled_trans [OF u(2)]]])
      (use step [OF core] f3 f2 u(2) in \<open>simp add: flash_settled_mem [OF u(2)]\<close>)
qed

section \<open>Byte memory\<close>

text \<open>The \<open>n\<close> bytes at \<open>a\<close>, and programming a byte string: each byte is ANDed into its cell.\<close>

definition mem_range :: "(u32 \<Rightarrow> u8) \<Rightarrow> u32 \<Rightarrow> nat \<Rightarrow> u8 list" where
  "mem_range m a n = map (\<lambda>i. m (a + word_of_nat i)) [0..<n]"

fun prog_bytes :: "u32 \<Rightarrow> u8 list \<Rightarrow> (u32 \<Rightarrow> u8) \<Rightarrow> u32 \<Rightarrow> u8" where
  "prog_bytes a [] m = m"
| "prog_bytes a (b # bs) m = prog_bytes (a + 1) bs (m(a := m a AND b))"

lemma mem_range_length [simp]: "length (mem_range m a n) = n"
  by (simp add: mem_range_def)

lemma mem_range_nth [simp]: "i < n \<Longrightarrow> mem_range m a n ! i = m (a + word_of_nat i)"
  by (simp add: mem_range_def)

lemma mem_range_0 [simp]: "mem_range m a 0 = []"
  by (simp add: mem_range_def)

lemma mem_range_add: "mem_range m a (n + k) = mem_range m a n @ mem_range m (a + word_of_nat n) k"
  by (rule nth_equalityI) (auto simp: nth_append algebra_simps of_nat_diff)

lemma mem_range_Suc: "mem_range m a (Suc n) = m a # mem_range m (a + 1) n"
  using mem_range_add [of m a 1 n] by (simp add: mem_range_def)

lemma mem_range_eq_iff:
  "mem_range m a n = mem_range m' a n \<longleftrightarrow> (\<forall>i<n. m (a + word_of_nat i) = m' (a + word_of_nat i))"
  by (auto simp: list_eq_iff_nth_eq)

lemma u32_minus_Suc:
  assumes "(x :: u32) \<noteq> a" shows "unat (x - a) = Suc (unat (x - (a + 1)))"
proof -
  have "x - a \<noteq> 0" using assms by simp
  then have "unat (x - a - 1) = unat (x - a) - 1" "unat (x - a) \<noteq> 0"
    by (simp_all add: unat_minus_one unat_eq_0)
  then show ?thesis by (simp add: diff_diff_eq [symmetric])
qed

lemma prog_bytes_at:
  "length bs < 2 ^ 32 \<Longrightarrow> prog_bytes a bs m x =
     (if unat (x - a) < length bs then m x AND bs ! unat (x - a) else m x)"
proof (induction bs arbitrary: a m)
  case (Cons b bs)
  show ?case
  proof (cases "x = a")
    case True
    have "unat (x - (a + 1)) = 2 ^ 32 - 1" using True by (simp add: unsigned_minus_1_eq_mask mask_eq_exp_minus_1)
    then show ?thesis using Cons True by simp
  next
    case False
    show ?thesis using Cons u32_minus_Suc [OF False] False by simp
  qed
qed simp

lemma prog_bytes_append:
  "prog_bytes a (xs @ ys) m = prog_bytes (a + word_of_nat (length xs)) ys (prog_bytes a xs m)"
  by (induction xs arbitrary: a m) (simp_all add: algebra_simps)

lemma prog16_bytes: "prog16 a (le16 b0 b1) m = prog_bytes a [b0, b1] m"
proof -
  have "a + 1 \<noteq> a" by simp
  then show ?thesis by (simp add: prog16_def byte_of_le16 byte_of_le16(2) [unfolded One_nat_def])
qed

lemma unat_off: "i < 2 ^ 32 \<Longrightarrow> unat (a + word_of_nat i - a :: u32) = i"
  by (simp add: unat_of_nat)

lemma prog_bytes_range:
  assumes "length bs < 2 ^ 32" "i < length bs"
  shows "prog_bytes a bs m (a + word_of_nat i) = m (a + word_of_nat i) AND bs ! i"
proof -
  have "unat (a + word_of_nat i - a) = i" using assms by (intro unat_off) simp
  then show ?thesis using assms by (simp add: prog_bytes_at)
qed

text \<open>Programming erased cells writes the bytes as they are.\<close>

lemma and_FF [simp]: "(0xFF :: u8) AND b = b"
proof -
  have "unat b < 2 ^ 8" using unsigned_less [of b] by simp
  then have "b AND mask 8 = b" by (rule and_mask_small)
  then show ?thesis by (simp add: mask_eq_exp_minus_1 and.commute)
qed

lemma prog_bytes_erased:
  assumes "length bs < 2 ^ 32" "\<And>i. i < length bs \<Longrightarrow> m (a + word_of_nat i) = 0xFF"
  shows "mem_range (prog_bytes a bs m) a (length bs) = bs"
  using assms by (auto intro!: nth_equalityI simp: prog_bytes_range)

section \<open>Raw programming on a calm controller\<close>

text \<open>Programming \<open>ds\<close> at \<open>a\<close> only ever clears bits that are still set there.\<close>

definition flash_fits :: "(u32 \<Rightarrow> u8) \<Rightarrow> u32 \<Rightarrow> u8 list \<Rightarrow> bool" where
  "flash_fits m a ds \<longleftrightarrow> (\<forall>i<length ds. m (a + word_of_nat i) AND ds ! i = ds ! i)"

lemma flash_fits_Nil [simp]: "flash_fits m a []"
  by (simp add: flash_fits_def)

lemma flash_fits_Cons:
  "flash_fits m a (d # ds) \<longleftrightarrow> m a AND d = d \<and> flash_fits m (a + 1) ds"
  by (simp add: flash_fits_def All_less_Suc2 algebra_simps)

lemma flash_fits_cong:
  "(\<And>i. i < length ds \<Longrightarrow> m (a + word_of_nat i) = m' (a + word_of_nat i)) \<Longrightarrow>
   flash_fits m a ds = flash_fits m' a ds"
  by (simp add: flash_fits_def)

lemma flash_fits_erased:
  "(\<And>i. i < length ds \<Longrightarrow> m (a + word_of_nat i) = 0xFF) \<Longrightarrow> flash_fits m a ds"
  by (simp add: flash_fits_def)

lemma flash_fits_readback:
  "length ds < 2 ^ 32 \<Longrightarrow> flash_fits m a ds \<Longrightarrow> mem_range (prog_bytes a ds m) a (length ds) = ds"
  by (auto intro!: nth_equalityI simp: prog_bytes_range flash_fits_def)

lemma le16_eq_iff: "le16 a b = le16 c d \<longleftrightarrow> a = c \<and> b = d"
  using byte_of_le16 [of a b] byte_of_le16 [of c d] by auto

lemma raw_program_step_calm:
  assumes "flash_calm s" "\<not> bit (FLASH_CR s) 31"
  shows "flash_settled s (prog_bytes a [b0, b1] (fl_mem s)) (snd (raw_program_step a b0 b1 s))"
    "\<not> bit (FLASH_CR (snd (raw_program_step a b0 b1 s))) 31"
    "fst (raw_program_step a b0 b1 s) =
       (if flash_fits (fl_mem s) a [b0, b1] then HAL_OK else HAL_ERR_IO)"
proof -
  note c = flash_program_core [OF assms, where a = a and hw = "le16 b0 b1"]
  let ?s4 = "flash_store16 a (le16 b0 b1) (FLASH_CR_update (\<lambda>v. v OR FLASH_CR_PG)
      (FLASH_CR_update (\<lambda>v. v OR push_bit FLASH_CR_PSIZE_Pos 1)
        (FLASH_CR_update (\<lambda>v. v AND NOT FLASH_CR_PSIZE_Msk) s)))"
  let ?s6 = "FLASH_CR_update (\<lambda>v. v AND NOT FLASH_CR_PG) (snd (flash_wait ?s4))"
  have step: "raw_program_step a b0 b1 s =
      (if flash_read_half_word a ?s6 \<noteq> le16 b0 b1 then (HAL_ERR_IO, ?s6) else (HAL_OK, ?s6))"
    using c(1) by (cases "flash_wait ?s4") (simp add: raw_program_step_def Let_def)
  show "flash_settled s (prog_bytes a [b0, b1] (fl_mem s)) (snd (raw_program_step a b0 b1 s))"
    using c(2) unfolding step prog16_bytes by simp
  show "\<not> bit (FLASH_CR (snd (raw_program_step a b0 b1 s))) 31"
    using c(3) unfolding step by simp
  have "fl_mem ?s6 = prog16 a (le16 b0 b1) (fl_mem s)" using c(2) by (rule flash_settled_mem)
  moreover have "a + 1 \<noteq> a" by simp
  ultimately show "fst (raw_program_step a b0 b1 s) =
       (if flash_fits (fl_mem s) a [b0, b1] then HAL_OK else HAL_ERR_IO)"
    unfolding step flash_read_half_word_def
    by (simp add: prog16_bytes le16_eq_iff flash_fits_Cons)
qed

lemma raw_program_loop_stop [simp]: "st \<noteq> HAL_OK \<Longrightarrow> raw_program_loop st a ds s = (st, s)"
  by (cases "(st, a, ds, s)" rule: raw_program_loop.cases) auto

lemma raw_program_loop_calm:
  assumes "flash_calm s" "\<not> bit (FLASH_CR s) 31" "even (length ds)" "length ds < 2 ^ 32"
  shows "fst (raw_program_loop HAL_OK a ds s) =
      (if flash_fits (fl_mem s) a ds then HAL_OK else HAL_ERR_IO) \<and>
    (\<exists>k\<le>length ds. (flash_fits (fl_mem s) a ds \<longrightarrow> k = length ds) \<and>
       flash_settled s (prog_bytes a (take k ds) (fl_mem s)) (snd (raw_program_loop HAL_OK a ds s)))"
  using assms
proof (induction HAL_OK a ds s rule: raw_program_loop.induct)
  case (1 a b0 b1 ds s)
  obtain st' s' where step: "raw_program_step a b0 b1 s = (st', s')" by fastforce
  note c = raw_program_step_calm [OF "1.prems"(1,2), where a = a and ?b0.0 = b0 and ?b1.0 = b1,
      unfolded step fst_conv snd_conv]
  have loop: "raw_program_loop HAL_OK a (b0 # b1 # ds) s = raw_program_loop st' (a + 2) ds s'"
    using step by simp
  have far: "fl_mem s' (a + 2 + word_of_nat i) = fl_mem s (a + 2 + word_of_nat i)"
    if "i < length ds" for i
  proof -
    have "a + 2 + word_of_nat i - a = (word_of_nat (i + 2) :: u32)" by simp
    then have "unat (a + 2 + word_of_nat i - a) = i + 2"
      using that "1.prems"(4) by (simp only: unat_of_nat) simp
    then show ?thesis by (simp add: flash_settled_mem [OF c(1)] prog_bytes_at del: prog_bytes.simps)
  qed
  have fits: "flash_fits (fl_mem s) a (b0 # b1 # ds) \<longleftrightarrow>
      flash_fits (fl_mem s) a [b0, b1] \<and> flash_fits (fl_mem s') (a + 2) ds"
    using flash_fits_cong [of ds "fl_mem s'" "a + 2" "fl_mem s"] far
    by (simp add: flash_fits_Cons algebra_simps)
  show ?case
  proof (cases "flash_fits (fl_mem s) a [b0, b1]")
    case True
    then have st': "HAL_OK = st'" using c(3) by simp
    have ih: "fst (raw_program_loop HAL_OK (a + 2) ds s') =
      (if flash_fits (fl_mem s') (a + 2) ds then HAL_OK else HAL_ERR_IO) \<and>
      (\<exists>k\<le>length ds. (flash_fits (fl_mem s') (a + 2) ds \<longrightarrow> k = length ds) \<and>
       flash_settled s' (prog_bytes (a + 2) (take k ds) (fl_mem s'))
         (snd (raw_program_loop HAL_OK (a + 2) ds s')))"
      using "1.hyps" [OF refl refl, of s'] step st' flash_settled_calm [OF c(1)] c(2) "1.prems"
      by simp
    then obtain k where k: "k \<le> length ds" "flash_fits (fl_mem s') (a + 2) ds \<longrightarrow> k = length ds"
      "flash_settled s' (prog_bytes (a + 2) (take k ds) (fl_mem s'))
         (snd (raw_program_loop HAL_OK (a + 2) ds s'))" by blast
    have "prog_bytes (a + 2) (take k ds) (fl_mem s') =
        prog_bytes a (take (Suc (Suc k)) (b0 # b1 # ds)) (fl_mem s)"
      by (simp add: flash_settled_mem [OF c(1)] algebra_simps)
    then have "flash_settled s (prog_bytes a (take (Suc (Suc k)) (b0 # b1 # ds)) (fl_mem s))
         (snd (raw_program_loop HAL_OK (a + 2) ds s'))"
      using flash_settled_trans [OF c(1) k(3)] by simp
    then show ?thesis
      unfolding loop st' [symmetric] fits using ih k True
      by (intro conjI exI [of _ "Suc (Suc k)"]) auto
  next
    case False
    then have st': "st' = HAL_ERR_IO" using c(3) by simp
    show ?thesis
      unfolding loop st' fits using False c(1) by (intro conjI exI [of _ 2]) auto
  qed
qed (auto intro: flash_settled_refl)

section \<open>Ownership of sectors\<close>

lemma u8_below_8:
  assumes "(n :: u8) < 8"
  shows "n = 0 \<or> n = 1 \<or> n = 2 \<or> n = 3 \<or> n = 4 \<or> n = 5 \<or> n = 6 \<or> n = 7"
proof -
  have "unat n < 8" using assms by (simp add: word_less_nat_alt)
  then have "unat n = 0 \<or> unat n = 1 \<or> unat n = 2 \<or> unat n = 3 \<or> unat n = 4 \<or> unat n = 5 \<or>
    unat n = 6 \<or> unat n = 7" by linarith
  then show ?thesis by (simp add: word_unat_eq_iff)
qed

lemma sector_bounds [simp]:
  "unat (sector_base 0) = 0x08000000" "unat (sector_base 0 + sector_size 0) = 0x08004000"
  "unat (sector_base 1) = 0x08004000" "unat (sector_base 1 + sector_size 1) = 0x08008000"
  "unat (sector_base 2) = 0x08008000" "unat (sector_base 2 + sector_size 2) = 0x0800C000"
  "unat (sector_base 3) = 0x0800C000" "unat (sector_base 3 + sector_size 3) = 0x08010000"
  "unat (sector_base 4) = 0x08010000" "unat (sector_base 4 + sector_size 4) = 0x08020000"
  "unat (sector_base 5) = 0x08020000" "unat (sector_base 5 + sector_size 5) = 0x08040000"
  "unat (sector_base 6) = 0x08040000" "unat (sector_base 6 + sector_size 6) = 0x08060000"
  "unat (sector_base 7) = 0x08060000" "unat (sector_base 7 + sector_size 7) = 0x08080000"
  by (simp_all add: sector_base_def sector_size_def)

lemma in_sector_nat:
  "in_sector n a \<longleftrightarrow> unat (sector_base n) \<le> unat a \<and> unat a < unat (sector_base n + sector_size n)"
  by (simp add: in_sector_def word_le_nat_alt word_less_nat_alt)

lemma in_sector_disjoint:
  assumes "in_sector n a" "in_sector k a" "n < 8" "k < 8"
  shows "n = k"
  using u8_below_8 [OF assms(3)] u8_below_8 [OF assms(4)] assms(1,2)
  by (elim disjE) (simp_all add: in_sector_nat)

lemma in_some_sector:
  assumes "0x08000000 \<le> unat a" "unat a < 0x08080000"
  shows "\<exists>n<8. in_sector n a"
proof -
  consider "unat a < 0x08004000" | "0x08004000 \<le> unat a" "unat a < 0x08008000"
    | "0x08008000 \<le> unat a" "unat a < 0x0800C000" | "0x0800C000 \<le> unat a" "unat a < 0x08010000"
    | "0x08010000 \<le> unat a" "unat a < 0x08020000" | "0x08020000 \<le> unat a" "unat a < 0x08040000"
    | "0x08040000 \<le> unat a" "unat a < 0x08060000" | "0x08060000 \<le> unat a"
    by linarith
  then show ?thesis
  proof cases
    case 1 then show ?thesis using assms by (intro exI [of _ 0]) (simp add: in_sector_nat)
  next
    case 2 then show ?thesis by (intro exI [of _ 1]) (simp add: in_sector_nat)
  next
    case 3 then show ?thesis by (intro exI [of _ 2]) (simp add: in_sector_nat)
  next
    case 4 then show ?thesis by (intro exI [of _ 3]) (simp add: in_sector_nat)
  next
    case 5 then show ?thesis by (intro exI [of _ 4]) (simp add: in_sector_nat)
  next
    case 6 then show ?thesis by (intro exI [of _ 5]) (simp add: in_sector_nat)
  next
    case 7 then show ?thesis by (intro exI [of _ 6]) (simp add: in_sector_nat)
  next
    case 8 then show ?thesis using assms by (intro exI [of _ 7]) (simp add: in_sector_nat)
  qed
qed

lemma in_sector_range:
  assumes "in_sector n a" "n < 8"
  shows "0x08000000 \<le> unat a" "unat a < 0x08080000"
  using u8_below_8 [OF assms(2)] assms(1) by (elim disjE; simp add: in_sector_nat)+

lemma raw_overlaps_ok_iff:
  "raw_overlaps_ok cfg addr end ss \<longleftrightarrow>
     (\<forall>n\<in>set ss. addr < sector_base n + sector_size n \<and> end > sector_base n \<longrightarrow>
        raw_sector_allowed cfg n)"
  by (induction ss) (auto simp: Let_def)

lemma all_sectors: "(\<forall>n\<in>set [0, 1, 2, 3, 4, 5, 6, 7 :: u8]. P n) \<longleftrightarrow> (\<forall>n<8. P n)"
proof -
  have "(n :: u8) < 8" if "n \<in> set [0, 1, 2, 3, 4, 5, 6, 7]" for n using that by auto
  moreover have "n \<in> set [0, 1, 2, 3, 4, 5, 6, 7]" if "(n :: u8) < 8" for n
    using u8_below_8 [OF that] by simp
  ultimately show ?thesis by blast
qed

lemma unat_add_off:
  "unat (a :: u32) + i < 2 ^ 32 \<Longrightarrow> unat (a + word_of_nat i) = unat a + i"
  by (simp add: unat_word_ariths unat_of_nat mod_simps)

lemma raw_range_allowed_nat:
  "raw_range_allowed cfg addr len \<longleftrightarrow>
     0 < unat len \<and> 0x08000000 \<le> unat addr \<and> unat addr + unat len \<le> 0x08080000 \<and>
     (\<forall>n<8. unat addr < unat (sector_base n + sector_size n) \<and>
        unat (sector_base n) < unat addr + unat len \<longrightarrow> raw_sector_allowed cfg n)"
proof (cases "unat addr + unat len < 2 ^ 32")
  case True
  then have e: "unat (addr + len) = unat addr + unat len" by (simp add: unat_word_ariths)
  have "len = 0 \<longleftrightarrow> \<not> 0 < unat len" by (simp add: unat_eq_0)
  then show ?thesis
    unfolding raw_range_allowed_def Let_def raw_overlaps_ok_iff all_sectors
    by (auto simp: word_less_nat_alt word_le_nat_alt e)
next
  case False
  then have w: "(unat addr + unat len) mod 2 ^ 32 = unat addr + unat len - 2 ^ 32"
    using u32_bound [of addr] u32_bound [of len] by (subst le_mod_geq) auto
  have "unat (addr + len) = (unat addr + unat len) mod 2 ^ 32"
    by (simp add: unat_word_ariths(1))
  then have "unat (addr + len) + 2 ^ 32 = unat addr + unat len" using w False by linarith
  then have "addr + len < addr"
    using u32_bound [of len] by (simp add: word_less_nat_alt)
  then show ?thesis using False by (simp add: raw_range_allowed_def)
qed

section \<open>Raw access from any controller state\<close>

text \<open>
  Nothing is assumed here about how long operations take or about the lock: only that no stale
  start bit is set. The memory after a raw access differs from the memory before it at most in the
  sector named, or at the half-words addressed.
\<close>

lemma FLASH_CR_update_no_strt:
  assumes "\<not> bit (f (FLASH_CR s)) 16"
  shows "fl_mem (FLASH_CR_update f s) = fl_mem s"
    "\<not> bit (FLASH_CR s) 16 \<Longrightarrow> \<not> bit (FLASH_CR (FLASH_CR_update f s)) 16"
  using assms by (auto simp: FLASH_CR_update_def FLASH_CR_write_def Let_def bit_simps)

lemma raw_program_step_mem:
  assumes "\<not> bit (FLASH_CR s) 16"
  shows "\<not> bit (FLASH_CR (snd (raw_program_step a b0 b1 s))) 16"
    "fl_mem (snd (raw_program_step a b0 b1 s)) \<in> {fl_mem s, prog16 a (le16 b0 b1) (fl_mem s)}"
proof -
  obtain s1 where s1: "s1 = FLASH_CR_update (\<lambda>v. v AND NOT FLASH_CR_PSIZE_Msk) s" by blast
  obtain s2 where s2: "s2 = FLASH_CR_update (\<lambda>v. v OR push_bit FLASH_CR_PSIZE_Pos 1) s1" by blast
  obtain s3 where s3: "s3 = FLASH_CR_update (\<lambda>v. v OR FLASH_CR_PG) s2" by blast
  obtain s4 where s4: "s4 = flash_store16 a (le16 b0 b1) s3" by blast
  obtain s5 where s5: "s5 = snd (flash_wait s4)" by blast
  obtain s6 where s6: "s6 = FLASH_CR_update (\<lambda>v. v AND NOT FLASH_CR_PG) s5" by blast
  have b1: "\<not> bit (FLASH_CR s1) 16" "fl_mem s1 = fl_mem s"
    unfolding s1 by (rule FLASH_CR_update_no_strt; use assms in \<open>simp add: bit_simps\<close>)+
  have b2: "\<not> bit (FLASH_CR s2) 16" "fl_mem s2 = fl_mem s1"
    unfolding s2 by (rule FLASH_CR_update_no_strt; use b1 in \<open>simp add: bit_or_iff\<close>)+
  have b3: "\<not> bit (FLASH_CR s3) 16" "fl_mem s3 = fl_mem s2"
    unfolding s3 by (rule FLASH_CR_update_no_strt; use b2 in \<open>simp add: bit_or_iff\<close>)+
  have b5: "\<not> bit (FLASH_CR s5) 16" using b3 by (simp add: s5 s4)
  have b6: "\<not> bit (FLASH_CR s6) 16" "fl_mem s6 = fl_mem s5"
    unfolding s6 by (rule FLASH_CR_update_no_strt; use b5 in \<open>simp add: bit_and_iff\<close>)+
  have "fl_mem s4 = fl_mem s \<or> fl_mem s4 = prog16 a (le16 b0 b1) (fl_mem s)"
    by (simp add: s4 flash_store16_def b1 b2 b3)
  then have m: "fl_mem s6 \<in> {fl_mem s, prog16 a (le16 b0 b1) (fl_mem s)}"
    by (simp add: b6(2) s5)
  have "snd (raw_program_step a b0 b1 s) = s6"
    by (cases "flash_wait s4")
      (simp add: raw_program_step_def Let_def s6 s5 s4 s3 s2 s1)
  with m b6(1) show "\<not> bit (FLASH_CR (snd (raw_program_step a b0 b1 s))) 16"
    "fl_mem (snd (raw_program_step a b0 b1 s)) \<in> {fl_mem s, prog16 a (le16 b0 b1) (fl_mem s)}"
    by simp_all
qed

lemma raw_program_loop_mem:
  assumes "\<not> bit (FLASH_CR s) 16" "length ds < 2 ^ 32" "length ds \<le> unat (x - a)"
  shows "fl_mem (snd (raw_program_loop st a ds s)) x = fl_mem s x \<and>
    \<not> bit (FLASH_CR (snd (raw_program_loop st a ds s))) 16"
  using assms
proof (induction st a ds s rule: raw_program_loop.induct)
  case (1 st a b0 b1 ds s)
  obtain st' s' where step: "raw_program_step a b0 b1 s = (st', s')" by fastforce
  show ?case
  proof (cases "st = HAL_OK")
    case True
    have far: "unat (x - a) \<ge> 2" using "1.prems" by simp
    have "x - a - 2 = x - (a + 2)" by simp
    moreover have "unat (x - a - 2) = unat (x - a) - 2"
      using far by (simp add: unat_sub word_le_nat_alt)
    ultimately have d: "unat (x - (a + 2)) = unat (x - a) - 2" by (simp only:)
    have "prog16 a (le16 b0 b1) (fl_mem s) x = fl_mem s x"
      using far by (simp add: prog16_bytes prog_bytes_at del: prog_bytes.simps)
    then have "fl_mem s' x = fl_mem s x" "\<not> bit (FLASH_CR s') 16"
      using raw_program_step_mem [OF "1.prems"(1), of a b0 b1] unfolding step by auto
    then show ?thesis
      using "1.IH" [OF True refl, of st' s'] "1.prems" d True step by auto
  qed (use 1 in simp)
qed simp_all

lemma raw_erase_mem:
  assumes "\<not> bit (FLASH_CR s) 16" "n < 8"
  shows "fl_mem (snd (hal_flash_raw_erase_sector cfg n s)) \<in> {fl_mem s, erased_sector n (fl_mem s)}"
proof -
  obtain st s1 where s1: "flash_wait (flash_unlock s) = (st, s1)" by fastforce
  have "s1 = snd (flash_wait (flash_unlock s))" using s1 by simp
  then have c1: "\<not> bit (FLASH_CR s1) 31" "\<not> bit (FLASH_CR s1) 16" "fl_mem s1 = fl_mem s"
    using assms(1) by (simp_all add: FLASH_CR_unlock bit_simps)
  note nb = bit_sector_field [OF assms(2)]
  have fld: "push_bit FLASH_CR_SNB_Pos (ucast n) AND FLASH_CR_SNB_Msk =
      (push_bit FLASH_CR_SNB_Pos (ucast n) :: u32)"
    by (rule bit_word_eqI) (auto simp: bit_and_iff nb(3) dest: nb(1))
  obtain s2 where s2: "s2 = FLASH_CR_update (\<lambda>v. v AND NOT FLASH_CR_SNB_Msk) s1" by blast
  obtain s3 where s3: "s3 = FLASH_CR_update
      (\<lambda>v. v OR (push_bit FLASH_CR_SNB_Pos (ucast n) AND FLASH_CR_SNB_Msk)) s2" by blast
  obtain s4 where s4: "s4 = FLASH_CR_update (\<lambda>v. v OR FLASH_CR_SER) s3" by blast
  obtain s5 where s5: "s5 = FLASH_CR_update (\<lambda>v. v OR FLASH_CR_STRT) s4" by blast
  have f2: "FLASH_CR s2 = FLASH_CR s1 AND NOT FLASH_CR_SNB_Msk" "fl_mem s2 = fl_mem s1"
    unfolding s2 by (rule FLASH_CR_update_plain; use c1 in \<open>simp add: bit_and_iff\<close>)+
  have f3: "FLASH_CR s3 = FLASH_CR s2 OR push_bit FLASH_CR_SNB_Pos (ucast n)" "fl_mem s3 = fl_mem s2"
    unfolding s3 fld by (rule FLASH_CR_update_plain;
        use c1 f2 nb(1) [of 13] in \<open>auto simp: bit_and_iff bit_or_iff nb(3)\<close>)+
  have f4: "FLASH_CR s4 = FLASH_CR s3 OR FLASH_CR_SER" "fl_mem s4 = fl_mem s3"
    unfolding s4 by (rule FLASH_CR_update_plain;
        use c1 f2 f3 nb(1) [of 13] nb(1) [of 28] in \<open>auto simp: bit_and_iff bit_or_iff nb(3)\<close>)+
  have snb: "FLASH_CR_SNB (FLASH_CR s4 OR FLASH_CR_STRT) = n"
    by (rule bit_word_eqI)
      (auto simp: bit_FLASH_CR_SNB f4 f3 f2 bit_and_iff bit_or_iff bit_not_iff nb(3) dest: nb(1))
  have c4: "\<not> bit (FLASH_CR s4) 31" "\<not> bit (FLASH_CR s4) 16"
    using c1 nb(1) [of 13] nb(1) [of 28]
    by (auto simp: f4 f3 f2 bit_and_iff bit_or_iff bit_not_iff nb(3))
  have f5: "fl_mem s5 = fl_mem s4 \<or> fl_mem s5 = erased_sector n (fl_mem s4)"
    using snb by (simp add: s5 FLASH_CR_update_def FLASH_CR_write_def Let_def)
  have c5: "\<not> bit (FLASH_CR s5) 16"
    using c4 by (simp add: s5 FLASH_CR_update_CR bit_simps)
  obtain st' s6 where s6: "flash_wait s5 = (st', s6)" by fastforce
  have "s6 = snd (flash_wait s5)" using s6 by simp
  then have f6: "fl_mem s6 = fl_mem s5" "\<not> bit (FLASH_CR s6) 16" using c5 by simp_all
  obtain s7 where s7: "s7 = FLASH_CR_update (\<lambda>v. v AND NOT FLASH_CR_SER) s6" by blast
  have f7: "fl_mem s7 = fl_mem s6" "\<not> bit (FLASH_CR s7) 16"
    unfolding s7 by (rule FLASH_CR_update_no_strt; use f6 in \<open>simp add: bit_and_iff\<close>)+
  have lk: "fl_mem (flash_lock t) = fl_mem t" if "\<not> bit (FLASH_CR t) 16" for t :: "'a flash_scheme"
    unfolding flash_lock_def by (rule FLASH_CR_update_no_strt) (use that in \<open>simp add: bit_or_iff\<close>)
  have "fl_mem (snd (hal_flash_raw_erase_sector cfg n s)) \<in> {fl_mem s, fl_mem s7}"
    using lk [OF f7(2)] lk [OF c1(2)] c1(3)
    by (simp add: hal_flash_raw_erase_sector_def s1 Let_def s2 [symmetric] s3 [symmetric]
        s4 [symmetric] s5 [symmetric] s6 s7 [symmetric])
  then show ?thesis using f7(1) f6(1) f5 f4(2) f3(2) f2(2) c1(3) by auto
qed

lemma u32_offset:
  assumes "unat (x - a :: u32) < n" "unat a + n \<le> 4294967296"
  shows "unat x = unat a + unat (x - a)"
proof -
  have "unat (a + word_of_nat (unat (x - a))) = unat a + unat (x - a)"
    using assms by (intro unat_add_off) simp
  then show ?thesis by simp
qed

lemma raw_program_mem_outside:
  assumes "\<not> bit (FLASH_CR s) 16" "length (buf_bytes data) < 2 ^ 32"
    and out: "length (buf_bytes data) \<le> unat (x - addr)"
  shows "fl_mem (snd (hal_flash_raw_program cfg addr data s)) x = fl_mem s x"
proof (cases data)
  case (Some ds)
  obtain st s1 where s1: "flash_wait (flash_unlock s) = (st, s1)" by fastforce
  have "s1 = snd (flash_wait (flash_unlock s))" using s1 by simp
  then have c1: "\<not> bit (FLASH_CR s1) 16" "fl_mem s1 = fl_mem s"
    using assms(1) by (simp_all add: FLASH_CR_unlock bit_simps)
  obtain st2 s2 where s2: "raw_program_loop st addr ds s1 = (st2, s2)" by fastforce
  have c2: "fl_mem s2 x = fl_mem s x" "\<not> bit (FLASH_CR s2) 16"
    using raw_program_loop_mem [OF c1(1), of ds x addr st] assms(2) out Some c1(2)
    unfolding s2 by simp_all
  have "fl_mem (flash_lock s2) = fl_mem s2"
    unfolding flash_lock_def by (rule FLASH_CR_update_no_strt) (use c2 in \<open>simp add: bit_or_iff\<close>)
  then show ?thesis
    using c2(1) by (simp add: hal_flash_raw_program_def Some Let_def s1 s2)
qed (simp add: hal_flash_raw_program_def)

lemma raw_range_in_flash:
  assumes "raw_range_allowed cfg addr len"
  shows "unat addr + unat len \<le> 0x08080000"
  using assms by (simp add: raw_range_allowed_nat)

section \<open>Raw operations in any state\<close>

lemma FLASH_CR_update_strt:
  "\<not> bit (FLASH_CR s) 16 \<Longrightarrow> \<not> bit (FLASH_CR (FLASH_CR_update f s)) 16"
  by (simp add: FLASH_CR_update_CR bit_simps)

lemma raw_erase_any:
  "flash.more (snd (hal_flash_raw_erase_sector cfg n s)) = flash.more s"
  "\<not> bit (FLASH_CR s) 16 \<Longrightarrow> \<not> bit (FLASH_CR (snd (hal_flash_raw_erase_sector cfg n s))) 16"
  by (auto simp: hal_flash_raw_erase_sector_def Let_def case_prod_beta flash_lock_def FLASH_CR_unlock
      bit_and_iff FLASH_CR_update_strt)

lemma raw_program_step_any:
  "flash.more (snd (raw_program_step a b0 b1 s)) = flash.more s"
  by (simp add: raw_program_step_def Let_def case_prod_beta)

lemma raw_program_loop_any:
  "flash.more (snd (raw_program_loop st a ds s)) = flash.more s"
  "\<not> bit (FLASH_CR s) 16 \<Longrightarrow> \<not> bit (FLASH_CR (snd (raw_program_loop st a ds s))) 16"
  by (induction st a ds s rule: raw_program_loop.induct)
    (auto simp: case_prod_beta Let_def raw_program_step_any raw_program_step_mem(1))

lemma raw_program_any:
  "flash.more (snd (hal_flash_raw_program cfg addr data s)) = flash.more s"
  "\<not> bit (FLASH_CR s) 16 \<Longrightarrow> \<not> bit (FLASH_CR (snd (hal_flash_raw_program cfg addr data s))) 16"
  by (auto simp: hal_flash_raw_program_def Let_def case_prod_beta flash_lock_def FLASH_CR_unlock
      bit_and_iff FLASH_CR_update_strt raw_program_loop_any split: option.split)

section \<open>Raw erase on a calm controller\<close>

lemma raw_erase_settled:
  fixes s :: "'m flash_scheme"
  assumes "flash_calm s" "raw_sector_allowed cfg n"
  shows "fst (hal_flash_raw_erase_sector cfg n s) = HAL_OK"
    "flash_settled s (erased_sector n (fl_mem s)) (snd (hal_flash_raw_erase_sector cfg n s))"
proof -
  have n: "n < 8"
    using assms(2) by (auto simp: raw_sector_allowed_def word_less_nat_alt word_le_nat_alt split: if_splits)
  obtain s1 where s1: "flash_wait (flash_unlock s) = (HAL_OK, s1)" "flash_settled s (fl_mem s) s1"
    "\<not> bit (FLASH_CR s1) 31"
    using flash_unlock_settled [OF assms(1)] by (cases "flash_wait (flash_unlock s)") auto
  have c: "\<not> bit (FLASH_CR s1) 31" "\<not> bit (FLASH_CR s1) 16" "\<not> bit (FLASH_CR s1) 1"
      "\<not> bit (FLASH_CR s1) 0" "fl_busy s1 = 0" "\<And>k. fl_dur s1 k < FLASH_BSY_SPINS"
    using flash_settled_calm [OF s1(2)] s1(3) by (simp_all add: flash_calm_def)
  note nb = bit_sector_field [OF n]
  have fld: "push_bit FLASH_CR_SNB_Pos (ucast n) AND FLASH_CR_SNB_Msk =
      (push_bit FLASH_CR_SNB_Pos (ucast n) :: u32)"
    by (rule bit_word_eqI) (auto simp: bit_and_iff nb(3) dest: nb(1))
  obtain s2 where s2: "s2 = FLASH_CR_update (\<lambda>v. v AND NOT FLASH_CR_SNB_Msk) s1" by blast
  obtain s3 where s3: "s3 = FLASH_CR_update
      (\<lambda>v. v OR (push_bit FLASH_CR_SNB_Pos (ucast n) AND FLASH_CR_SNB_Msk)) s2" by blast
  obtain s4 where s4: "s4 = FLASH_CR_update (\<lambda>v. v OR FLASH_CR_SER) s3" by blast
  have f2: "FLASH_CR s2 = FLASH_CR s1 AND NOT FLASH_CR_SNB_Msk" "fl_mem s2 = fl_mem s1"
      "fl_busy s2 = fl_busy s1"
    unfolding s2 by (rule FLASH_CR_update_plain; use c in \<open>simp add: bit_and_iff\<close>)+
  have f3: "FLASH_CR s3 = FLASH_CR s2 OR push_bit FLASH_CR_SNB_Pos (ucast n)"
      "fl_mem s3 = fl_mem s2" "fl_busy s3 = fl_busy s2"
    unfolding s3 fld by (rule FLASH_CR_update_plain;
        use c f2 nb(1) [of 13] in \<open>auto simp: bit_and_iff bit_or_iff nb(3)\<close>)+
  have f4: "FLASH_CR s4 = FLASH_CR s3 OR FLASH_CR_SER" "fl_mem s4 = fl_mem s3" "fl_busy s4 = fl_busy s3"
    unfolding s4 by (rule FLASH_CR_update_plain;
        use c f2 f3 nb(1) [of 13] nb(1) [of 28] in \<open>auto simp: bit_and_iff bit_or_iff nb(3)\<close>)+
  have snb: "FLASH_CR_SNB (FLASH_CR s4) = n"
    by (rule bit_word_eqI)
      (auto simp: bit_FLASH_CR_SNB f4 f3 f2 bit_and_iff bit_or_iff bit_not_iff nb(3) dest: nb(1))
  have env: "fl_dur s4 = fl_dur s1" "flash.more s4 = flash.more s1" "iwdg_running s4 = iwdg_running s1"
    "iwdg_armed s4 = iwdg_armed s1" by (simp_all add: s4 s3 s2)
  let ?s5 = "FLASH_CR_update (\<lambda>v. v OR FLASH_CR_STRT) s4"
  have core: "fst (flash_wait ?s5) = HAL_OK" "flash_settled s4 (erased_sector n (fl_mem s4))
      (FLASH_CR_update (\<lambda>v. v AND NOT FLASH_CR_SER) (snd (flash_wait ?s5)))"
    by (rule flash_strt_core;
      use c f2 f3 f4 snb n env(1) nb(1) [of 28] nb(1) [of 13] in
        \<open>auto simp: bit_and_iff bit_or_iff nb(3)\<close>)+
  obtain s6 where s6: "flash_wait ?s5 = (HAL_OK, s6)" using core(1) by (cases "flash_wait ?s5") auto
  have run: "hal_flash_raw_erase_sector cfg n s =
      (HAL_OK, flash_cache_flush (flash_lock (FLASH_CR_update (\<lambda>v. v AND NOT FLASH_CR_SER) s6)))"
    using assms(2)
    by (simp add: hal_flash_raw_erase_sector_def s1(1) Let_def s2 [symmetric] s3 [symmetric]
        s4 [symmetric] s6)
  show "fst (hal_flash_raw_erase_sector cfg n s) = HAL_OK" by (simp add: run)
  have "flash_settled s1 (erased_sector n (fl_mem s1)) (FLASH_CR_update (\<lambda>v. v AND NOT FLASH_CR_SER) s6)"
    using core(2) env f4(2) f3(2) f2(2) by (simp add: flash_settled_def s6)
  then show "flash_settled s (erased_sector n (fl_mem s)) (snd (hal_flash_raw_erase_sector cfg n s))"
    unfolding run snd_conv
    using flash_cache_flush_settled [OF flash_lock_settled [OF flash_settled_trans [OF s1(2)]]]
    by (simp add: flash_settled_mem [OF s1(2)])
qed

lemma raw_program_settled:
  assumes "flash_calm s" "addr AND 1 = 0" "even (length ds)" "length ds < 2 ^ 32"
    and "raw_range_allowed cfg addr (word_of_nat (length ds))" "flash_fits (fl_mem s) addr ds"
  shows "fst (hal_flash_raw_program cfg addr (Some ds) s) = HAL_OK"
    "flash_settled s (prog_bytes addr ds (fl_mem s)) (snd (hal_flash_raw_program cfg addr (Some ds) s))"
proof -
  obtain s1 where s1: "flash_wait (flash_unlock s) = (HAL_OK, s1)" "flash_settled s (fl_mem s) s1"
    "\<not> bit (FLASH_CR s1) 31"
    using flash_unlock_settled [OF assms(1)] by (cases "flash_wait (flash_unlock s)") auto
  obtain st2 s2 where s2: "raw_program_loop HAL_OK addr ds s1 = (st2, s2)" by fastforce
  note l = raw_program_loop_calm [OF flash_settled_calm [OF s1(2)] s1(3) assms(3,4), of addr,
      unfolded s2 flash_settled_mem [OF s1(2)] fst_conv snd_conv]
  have ev: "word_of_nat (length ds) AND 1 = (0 :: u32)"
    using assms(3) by (auto elim!: evenE simp: and_one_eq even_iff_mod_2_eq_zero [symmetric])
  have run: "hal_flash_raw_program cfg addr (Some ds) s = (st2, flash_lock s2)"
    using assms(2,5) ev by (simp add: hal_flash_raw_program_def Let_def s1(1) s2)
  have st: "st2 = HAL_OK" "flash_settled s1 (prog_bytes addr ds (fl_mem s)) s2"
    using l assms(6) by auto
  show "fst (hal_flash_raw_program cfg addr (Some ds) s) = HAL_OK" by (simp add: run st)
  show "flash_settled s (prog_bytes addr ds (fl_mem s)) (snd (hal_flash_raw_program cfg addr (Some ds) s))"
    unfolding run snd_conv by (rule flash_lock_settled [OF flash_settled_trans [OF s1(2) st(2)]])
qed

text \<open>The range check, byte by byte.\<close>

lemma raw_range_owned_iff:
  "raw_range_allowed cfg addr len \<longleftrightarrow>
     0 < unat len \<and>
     (\<forall>i<unat len. \<exists>n<8. in_sector n (addr + word_of_nat i) \<and> raw_sector_allowed cfg n)"
proof (intro iffI conjI allI impI)
  assume r: "raw_range_allowed cfg addr len"
  note rn = r [unfolded raw_range_allowed_nat]
  show "0 < unat len" using rn by simp
  fix i assume i: "i < unat len"
  have x: "unat (addr + word_of_nat i) = unat addr + i"
    using rn i by (intro unat_add_off) simp
  obtain n where n: "n < 8" "in_sector n (addr + word_of_nat i)"
    using in_some_sector [of "addr + word_of_nat i"] rn i x by auto
  moreover have "raw_sector_allowed cfg n"
    using rn n i x by (auto simp: in_sector_nat)
  ultimately show "\<exists>n<8. in_sector n (addr + word_of_nat i) \<and> raw_sector_allowed cfg n" by blast
next
  assume a: "0 < unat len \<and>
    (\<forall>i<unat len. \<exists>n<8. in_sector n (addr + word_of_nat i) \<and> raw_sector_allowed cfg n)"
  then have own: "\<exists>n<8. in_sector n (addr + word_of_nat i) \<and> raw_sector_allowed cfg n"
    if "i < unat len" for i using that by blast
  have lo: "0x08000000 \<le> unat addr" "unat addr < 0x08080000"
    using own [of 0] a in_sector_range by auto
  have hi: "unat addr + unat len \<le> 0x08080000"
  proof (rule ccontr)
    assume "\<not> ?thesis"
    then have i: "0x08080000 - unat addr < unat len" using lo by linarith
    have "unat (addr + word_of_nat (0x08080000 - unat addr)) = 0x08080000"
      using lo by (subst unat_add_off) simp_all
    then show False using own [OF i] in_sector_range(2) by fastforce
  qed
  have "raw_sector_allowed cfg n"
    if n: "n < 8" "unat addr < unat (sector_base n + sector_size n)"
      "unat (sector_base n) < unat addr + unat len" for n
  proof -
    let ?i = "unat (sector_base n) - unat addr"
    have i: "?i < unat len" using n a by linarith
    have x: "unat (addr + word_of_nat ?i) = unat addr + ?i"
      using hi i by (intro unat_add_off) simp
    have ne: "unat (sector_base n) < unat (sector_base n + sector_size n)"
      using u8_below_8 [OF n(1)] by (elim disjE) simp_all
    have "in_sector n (addr + word_of_nat ?i)"
      using n(2) x ne by (auto simp: in_sector_nat)
    moreover obtain k where "k < 8" "in_sector k (addr + word_of_nat ?i)" "raw_sector_allowed cfg k"
      using own [OF i] by blast
    ultimately show ?thesis using in_sector_disjoint n(1) by blast
  qed
  then show "raw_range_allowed cfg addr len"
    using a lo hi by (simp add: raw_range_allowed_nat)
qed

section \<open>Properties\<close>

text \<open>The range check accepts exactly the non-empty ranges every byte of which lies in a sector
  the caller may touch: no wrap-around, no run off the end of the part, no range straddling stage-1
  or the key/value store.\<close>

theorem raw_range_exactly_owned:
  "raw_range_allowed cfg addr len \<longleftrightarrow>
     0 < unat len \<and>
     (\<forall>i<unat len. \<exists>n<8. in_sector n (addr + word_of_nat i) \<and> raw_sector_allowed cfg n)"
  by (rule raw_range_owned_iff)

definition boot_kv :: kv_build where
  "boot_kv = \<lparr>PRIMARY_FLASH_SECTOR = 2, SECONDARY_FLASH_SECTOR = 3\<rparr>"

theorem raw_range_exactly_owned_witness:
  "\<exists>n<8. in_sector n (0x08020000 + word_of_nat 3) \<and> raw_sector_allowed boot_kv n"
proof -
  have "raw_range_allowed boot_kv 0x08020000 4"
    by (simp add: raw_range_allowed_def Let_def raw_sector_allowed_def boot_kv_def
        sector_base_def sector_size_def word_le_nat_alt)
  then show ?thesis 
    using raw_range_exactly_owned [where cfg = boot_kv and addr = "0x08020000" and len = 4]
    by (auto dest!: spec [of _ "3"])
qed

text \<open>C18. Whatever the controller does and whatever it is asked for, a raw erase or program leaves
  every byte of stage-1 (sectors 0 and 1) and of the key/value store's sectors as it was.\<close>

theorem raw_access_protects:
  assumes "\<not> bit (FLASH_CR s) 16" "length (buf_bytes data) < 2 ^ 32"
    and "p \<in> {0, 1, PRIMARY_FLASH_SECTOR cfg, SECONDARY_FLASH_SECTOR cfg}" "p < 8" "in_sector p a"
  shows "fl_mem (snd (hal_flash_raw_erase_sector cfg n s)) a = fl_mem s a \<and>
    fl_mem (snd (hal_flash_raw_program cfg addr data s)) a = fl_mem s a"
proof -
  have p: "\<not> raw_sector_allowed cfg p" using assms(3) by (auto simp: raw_sector_allowed_def)
  have "fl_mem (snd (hal_flash_raw_erase_sector cfg n s)) a = fl_mem s a"
  proof (cases "raw_sector_allowed cfg n")
    case True
    then have n: "n < 8" by (auto simp: raw_sector_allowed_def word_less_nat_alt split: if_splits)
    have "\<not> in_sector n a" using in_sector_disjoint [OF _ assms(5) n assms(4)] True p by auto
    then show ?thesis
      using raw_erase_mem [OF assms(1) n, of cfg] by (auto simp: erased_sector_def)
  qed (simp add: hal_flash_raw_erase_sector_def)
  moreover have "fl_mem (snd (hal_flash_raw_program cfg addr data s)) a = fl_mem s a"
  proof (cases "length (buf_bytes data) \<le> unat (a - addr)")
    case True
    then show ?thesis by (rule raw_program_mem_outside [OF assms(1,2)])
  next
    case False
    have len: "unat (word_of_nat (length (buf_bytes data)) :: u32) = length (buf_bytes data)"
      using assms(2) by (simp add: unat_of_nat)
    have "\<not> raw_range_allowed cfg addr (word_of_nat (length (buf_bytes data)))"
    proof
      assume r: "raw_range_allowed cfg addr (word_of_nat (length (buf_bytes data)))"
      have "unat a = unat addr + unat (a - addr)"
        using False raw_range_in_flash [OF r] len
        by (intro u32_offset [where n = "length (buf_bytes data)"]) simp_all
      then show False
        using r False p assms(4,5) len by (auto simp: raw_range_allowed_nat in_sector_nat)
    qed
    then show ?thesis by (cases data) (auto simp: hal_flash_raw_program_def Let_def)
  qed
  ultimately show ?thesis by blast
qed

text \<open>A controller as reset leaves it: locked, idle, every cell erased, operations of 100 polls.\<close>

definition flash_fresh :: flash where
  "flash_fresh = \<lparr>IWDG_PR = 0, IWDG_RLR = 0xFFF, iwdg_unlocked = False, iwdg_armed = False,
     iwdg_reloads = 0, iwdg_sr_reads = 0, iwdg_timeout_ms = 0, iwdg_running = 0,
     fl_mem = (\<lambda>_. 0xFF), FLASH_ACR = 0x700, FLASH_CR = 0x80000000, fl_key1 = False,
     fl_busy = 0, fl_ops = 0, fl_dur = (\<lambda>_. 100)\<rparr>"

lemma flash_fresh_CR: "bit (0x80000000 :: u32) n \<longleftrightarrow> n = 31"
  using flash_bits(1) [of n] by (simp add: FLASH_CR_LOCK_def)

lemma flash_fresh_calm: "flash_calm flash_fresh"
  by (simp add: flash_calm_def flash_fresh_def flash_fresh_CR FLASH_BSY_SPINS_def)

theorem raw_access_protects_witness:
  "fl_mem (snd (hal_flash_raw_erase_sector boot_kv 5 flash_fresh)) 0x08004001 =
     fl_mem flash_fresh 0x08004001 \<and>
   fl_mem (snd (hal_flash_raw_program boot_kv 0x08020000 (Some [1, 2]) flash_fresh)) 0x08004001 =
     fl_mem flash_fresh 0x08004001"
  by (rule raw_access_protects [where p = 1])
    (simp_all add: flash_fresh_def flash_fresh_CR in_sector_nat)

text \<open>On a controller that is not wedged, programming an allowed, half-word-aligned range
  reports success exactly when no bit has to go from zero to one; the range then reads back as the
  data, and never does any other byte change.\<close>

theorem raw_program_exact:
  assumes "flash_calm s" "addr AND 1 = 0" "even (length ds)" "length ds < 2 ^ 32"
    and "raw_range_allowed cfg addr (word_of_nat (length ds))"
  shows "fst (hal_flash_raw_program cfg addr (Some ds) s) =
      (if flash_fits (fl_mem s) addr ds then HAL_OK else HAL_ERR_IO) \<and>
    (flash_fits (fl_mem s) addr ds \<longrightarrow>
       mem_range (fl_mem (snd (hal_flash_raw_program cfg addr (Some ds) s))) addr (length ds) = ds) \<and>
    (\<forall>x. length ds \<le> unat (x - addr) \<longrightarrow>
       fl_mem (snd (hal_flash_raw_program cfg addr (Some ds) s)) x = fl_mem s x)"
proof -
  obtain s1 where s1: "flash_wait (flash_unlock s) = (HAL_OK, s1)" "flash_settled s (fl_mem s) s1"
    "\<not> bit (FLASH_CR s1) 31"
    using flash_unlock_settled [OF assms(1)] by (cases "flash_wait (flash_unlock s)") auto
  obtain st2 s2 where s2: "raw_program_loop HAL_OK addr ds s1 = (st2, s2)" by fastforce
  note l = raw_program_loop_calm [OF flash_settled_calm [OF s1(2)] s1(3) assms(3,4), of addr,
      unfolded s2 flash_settled_mem [OF s1(2)] fst_conv snd_conv]
  have ev: "word_of_nat (length ds) AND 1 = (0 :: u32)"
    using assms(3) by (auto elim!: evenE simp: and_one_eq even_iff_mod_2_eq_zero [symmetric])
  have run: "hal_flash_raw_program cfg addr (Some ds) s = (st2, flash_lock s2)"
    using assms(2,5) ev by (simp add: hal_flash_raw_program_def Let_def s1(1) s2)
  from l obtain k where st2: "st2 = (if flash_fits (fl_mem s) addr ds then HAL_OK else HAL_ERR_IO)"
    and k: "flash_fits (fl_mem s) addr ds \<longrightarrow> k = length ds"
      "flash_settled s1 (prog_bytes addr (take k ds) (fl_mem s)) s2" by blast
  have m: "fl_mem (flash_lock s2) = prog_bytes addr (take k ds) (fl_mem s)"
    by (rule flash_settled_mem [OF flash_lock_settled [OF k(2)]])
  have "flash_fits (fl_mem s) addr ds \<Longrightarrow>
      mem_range (fl_mem (flash_lock s2)) addr (length ds) = ds"
    using k(1) flash_fits_readback [OF assms(4)] by (simp add: m)
  moreover have "fl_mem (flash_lock s2) x = fl_mem s x" if "length ds \<le> unat (x - addr)" for x
    using that assms(4) by (simp add: m prog_bytes_at)
  ultimately show ?thesis unfolding run using st2 by auto
qed

theorem raw_program_exact_witness:
  "fst (hal_flash_raw_program boot_kv 0x08020000 (Some [0xCA, 0xFE]) flash_fresh) = HAL_OK"
proof -
  have r: "raw_range_allowed boot_kv 0x08020000 (word_of_nat (length [0xCA :: u8, 0xFE]))"
    by (simp add: raw_range_allowed_def Let_def raw_sector_allowed_def boot_kv_def
        sector_base_def sector_size_def word_le_nat_alt)
  have "flash_fits (fl_mem flash_fresh) 0x08020000 [0xCA, 0xFE]"
    by (rule flash_fits_erased) (simp add: flash_fresh_def)
  then show ?thesis
    using raw_program_exact [OF flash_fresh_calm _ _ _ r] by simp
qed

text \<open>Waiting for the controller always returns: success when BSY clears within forty million
  polls, a timeout otherwise; and while it succeeds it feeds a running watchdog once per 65536
  polls, so an erase far longer than the watchdog's period does not reset the board.\<close>

theorem flash_wait_bounded_and_feeding:
  "fst (flash_wait s) = (if fl_busy s < FLASH_BSY_SPINS then HAL_OK else HAL_ERR_TIMEOUT) \<and>
   (fl_busy s < FLASH_BSY_SPINS \<and> iwdg_running s \<noteq> 0 \<longrightarrow>
      iwdg_reloads s + fl_busy s div 65536 \<le> iwdg_reloads (snd (flash_wait s)))"
proof -
  have "iwdg_reloads s + fl_busy s div 65536 \<le> iwdg_reloads (snd (flash_wait s))"
    if b: "fl_busy s < FLASH_BSY_SPINS" "iwdg_running s \<noteq> 0"
  proof -
    have "iwdg_reloads (snd (flash_wait s)) + (FLASH_BSY_SPINS - 1 - fl_busy s) div 65536 =
        iwdg_reloads s + (FLASH_BSY_SPINS - 1) div 65536"
      unfolding flash_wait_def by (rule flash_wait_loop_kicks [OF b])
    moreover have "(FLASH_BSY_SPINS - 1 - fl_busy s) div 65536 + fl_busy s div 65536 \<le>
        (FLASH_BSY_SPINS - 1 - fl_busy s + fl_busy s) div 65536"
      by (subst div_add1_eq) simp
    ultimately show ?thesis using b(1) by simp
  qed
  then show ?thesis using flash_wait_fst by blast
qed

theorem flash_wait_bounded_and_feeding_witness:
  "fst (flash_wait (flash_fresh\<lparr>iwdg_running := 1, fl_busy := 200000\<rparr>)) = HAL_OK \<and>
   3 \<le> iwdg_reloads (snd (flash_wait (flash_fresh\<lparr>iwdg_running := 1, fl_busy := 200000\<rparr>)))"
  using flash_wait_bounded_and_feeding [of "flash_fresh\<lparr>iwdg_running := 1, fl_busy := 200000\<rparr>"]
  by (simp add: FLASH_BSY_SPINS_def flash_fresh_def)

end
