(* ===== verification/Flash_KV.thy ===== *)
theory Flash_KV
  imports Flash
begin

text \<open>
  The key/value store of src/vendor/stm32/flash/flash.c behind src/common/hal_flash.c: a log of
  records in a primary sector, superseded records marked deleted in place, compaction through a
  secondary sector. The abstract view is a list of records, and from it a map from keys to values;
  the lemmas show that each operation on the flash implements the map operation.

  A loop that need not end (the compaction loops advance by an 8-bit total that can be zero) is a
  \<open>partial_function (option)\<close>: \<open>None\<close> is a call that never returns.
\<close>

section \<open>Layout (include/family/flash_reg.h, include/common/hal_flash.h)\<close>

definition FLASH_MAGIC_NUMBER :: u8 where "FLASH_MAGIC_NUMBER = 0x1A"
definition FLASH_VALID :: u8 where "FLASH_VALID = 0x01"
definition FLASH_DELETED :: u8 where "FLASH_DELETED = 0x00"

lemmas kv_consts = FLASH_MAGIC_NUMBER_def FLASH_VALID_def FLASH_DELETED_def

record hal_flash_record =
  rec_magic :: u8
  rec_key :: u8
  rec_size :: u8
  rec_status :: u8
  rec_reserved :: u8
  rec_crc :: u8

text \<open>A record pointer cast onto flash memory, and the record's six bytes in memory order.\<close>

definition rec_at :: "(u32 \<Rightarrow> u8) \<Rightarrow> u32 \<Rightarrow> hal_flash_record" where
  "rec_at m ptr =
     \<lparr>rec_magic = m ptr, rec_key = m (ptr + 1), rec_size = m (ptr + 2), rec_status = m (ptr + 3),
      rec_reserved = m (ptr + 4), rec_crc = m (ptr + 5)\<rparr>"

definition rec_bytes :: "hal_flash_record \<Rightarrow> u8 list" where
  "rec_bytes r =
     [rec_magic r, rec_key r, rec_size r, rec_status r, rec_reserved r, rec_crc r]"

definition SECTOR_ADDR :: "u8 \<Rightarrow> u32" where
  "SECTOR_ADDR n =
     (if n = 0 then 0x08000000 else if n = 1 then 0x08004000 else if n = 2 then 0x08008000
      else if n = 3 then 0x0800C000 else if n = 4 then 0x08010000 else if n = 5 then 0x08020000
      else if n = 6 then 0x08040000 else 0x08060000)"

definition SECTOR_BYTES :: "u8 \<Rightarrow> u32" where
  "SECTOR_BYTES n =
     (if n = 0 then 0x4000 else if n = 1 then 0x4000 else if n = 2 then 0x4000
      else if n = 3 then 0x4000 else if n = 4 then 0x10000 else 0x20000)"

definition FLASH_PRIMARY_STORAGE_START :: "kv_build \<Rightarrow> u32" where
  "FLASH_PRIMARY_STORAGE_START cfg = SECTOR_ADDR (PRIMARY_FLASH_SECTOR cfg)"

definition FLASH_PRIMARY_STORAGE_END :: "kv_build \<Rightarrow> u32" where
  "FLASH_PRIMARY_STORAGE_END cfg =
     FLASH_PRIMARY_STORAGE_START cfg + SECTOR_BYTES (PRIMARY_FLASH_SECTOR cfg)"

definition FLASH_SECONDARY_STORAGE_START :: "kv_build \<Rightarrow> u32" where
  "FLASH_SECONDARY_STORAGE_START cfg = SECTOR_ADDR (SECONDARY_FLASH_SECTOR cfg)"

definition FLASH_SECONDARY_STORAGE_END :: "kv_build \<Rightarrow> u32" where
  "FLASH_SECONDARY_STORAGE_END cfg =
     FLASH_SECONDARY_STORAGE_START cfg + SECTOR_BYTES (SECONDARY_FLASH_SECTOR cfg)"

lemma storage_end_bound: "SECTOR_ADDR n + SECTOR_BYTES n \<le> 0x08080000"
  by (simp add: SECTOR_ADDR_def SECTOR_BYTES_def)

lemma kv_step_grows:
  assumes "ptr < SECTOR_ADDR n + SECTOR_BYTES n"
  shows "unat ptr < 0x08080000" "unat (ptr + ucast (sz :: u8) + 6) = unat ptr + unat sz + 6"
proof -
  show p: "unat ptr < 0x08080000"
    using order_less_le_trans [OF assms storage_end_bound] by (simp add: word_less_nat_alt)
  show "unat (ptr + ucast sz + 6) = unat ptr + unat sz + 6"
    using p u8_bound [of sz] by (simp add: unat_word_ariths)
qed

section \<open>The driver\<close>

definition flash_calculate_crc :: "u8 list \<Rightarrow> u8" where
  "flash_calculate_crc value =
     (case value of [] \<Rightarrow> 0 | v # vs \<Rightarrow> foldl (\<lambda>crc b. crc XOR b) v vs)"

text \<open>\<open>while (magic(ptr) == MAGIC && ptr < END) ptr += size + 6\<close>.\<close>

function kv_scan_free :: "kv_build \<Rightarrow> (u32 \<Rightarrow> u8) \<Rightarrow> u32 \<Rightarrow> u32" where
  "kv_scan_free cfg m ptr =
     (if rec_magic (rec_at m ptr) = FLASH_MAGIC_NUMBER \<and> ptr < FLASH_PRIMARY_STORAGE_END cfg
      then kv_scan_free cfg m (ptr + ucast (rec_size (rec_at m ptr)) + 6)
      else ptr)"
  by pat_completeness auto
termination
  by (relation "measure (\<lambda>(cfg, m, ptr). 0x08080000 - unat ptr)", simp)
    (use kv_step_grows in \<open>fastforce simp: FLASH_PRIMARY_STORAGE_END_def
      FLASH_PRIMARY_STORAGE_START_def\<close>)

declare kv_scan_free.simps [simp del]

definition flash_find_next_free :: "kv_build \<Rightarrow> 'm flash_scheme \<Rightarrow> u32 option" where
  "flash_find_next_free cfg s =
     (let ptr = kv_scan_free cfg (fl_mem s) (FLASH_PRIMARY_STORAGE_START cfg)
      in if ptr \<ge> FLASH_PRIMARY_STORAGE_END cfg then None else Some ptr)"

function kv_scan_key :: "kv_build \<Rightarrow> (u32 \<Rightarrow> u8) \<Rightarrow> u8 \<Rightarrow> u32 \<Rightarrow> u32 option" where
  "kv_scan_key cfg m key ptr =
     (if ptr < FLASH_PRIMARY_STORAGE_END cfg \<and> rec_magic (rec_at m ptr) = FLASH_MAGIC_NUMBER
      then if rec_key (rec_at m ptr) = key \<and> rec_status (rec_at m ptr) = FLASH_VALID
           then Some ptr
           else kv_scan_key cfg m key (ptr + ucast (rec_size (rec_at m ptr)) + 6)
      else None)"
  by pat_completeness auto
termination
  by (relation "measure (\<lambda>(cfg, m, key, ptr). 0x08080000 - unat ptr)", simp)
    (use kv_step_grows in \<open>fastforce simp: FLASH_PRIMARY_STORAGE_END_def
      FLASH_PRIMARY_STORAGE_START_def\<close>)

declare kv_scan_key.simps [simp del]

definition flash_find_first_valid_entry :: "kv_build \<Rightarrow> u8 \<Rightarrow> 'm flash_scheme \<Rightarrow> u32 option" where
  "flash_find_first_valid_entry cfg key s =
     kv_scan_key cfg (fl_mem s) key (FLASH_PRIMARY_STORAGE_START cfg)"

text \<open>
  The write loop. The source is read byte by byte as the loop runs, because compaction hands it a
  pointer into flash; \<open>ram_src\<close> is a buffer in RAM. \<open>padded_size\<close> is an \<open>uint8_t\<close>.
\<close>

definition ram_src :: "u8 list \<Rightarrow> 'm flash_scheme \<Rightarrow> nat \<Rightarrow> u8" where
  "ram_src data s i = data ! i"

definition flash_src :: "u32 \<Rightarrow> 'm flash_scheme \<Rightarrow> nat \<Rightarrow> u8" where
  "flash_src ptr s i = fl_mem s (ptr + word_of_nat i)"

function flash_write_loop ::
    "('m flash_scheme \<Rightarrow> nat \<Rightarrow> u8) \<Rightarrow> u8 \<Rightarrow> u8 \<Rightarrow> nat \<Rightarrow> u32 \<Rightarrow> 'm flash_scheme \<Rightarrow> 'm flash_scheme" where
  "flash_write_loop src sz padded i addr s =
     (if i < unat padded
      then let half_word = (if i + 1 < unat sz then le16 (src s i) (src s (i + 1))
                            else le16 (src s i) 0xFF)
           in flash_write_loop src sz padded (i + 2) (addr + 2)
                (flash_program_half_word addr half_word s)
      else s)"
  by pat_completeness auto
termination
  by (relation "measure (\<lambda>(src, sz, padded, i, addr, s). unat padded - i)") auto

declare flash_write_loop.simps [simp del]

definition flash_write_data ::
    "u32 \<Rightarrow> ('m flash_scheme \<Rightarrow> nat \<Rightarrow> u8) \<Rightarrow> u8 \<Rightarrow> 'm flash_scheme \<Rightarrow> hal_status \<times> 'm flash_scheme" where
  "flash_write_data addr data sz s =
     (if sz = 0 then (HAL_ERR_IO, s)
      else let padded_size = (if sz mod 2 = 0 then sz else sz + 1)
           in (HAL_OK, flash_write_loop data sz padded_size 0 addr s))"

text \<open>\<open>sizeof(hal_flash_record_t) + rec->size\<close> stored in an \<open>uint8_t\<close>.\<close>

definition rec_total_size :: "hal_flash_record \<Rightarrow> u8" where
  "rec_total_size r = 6 + rec_size r"

partial_function (option) flash_shift_p2s ::
    "kv_build \<Rightarrow> u32 \<Rightarrow> u32 \<Rightarrow> 'm flash_scheme \<Rightarrow> (hal_status \<times> 'm flash_scheme) option" where
  "flash_shift_p2s cfg pp ps s =
     (let r = rec_at (fl_mem s) pp; total_size = rec_total_size r
      in if rec_magic r = FLASH_MAGIC_NUMBER \<and> pp < FLASH_PRIMARY_STORAGE_END cfg
         then if rec_status r \<noteq> FLASH_VALID
              then flash_shift_p2s cfg (pp + ucast total_size) ps s
              else let (status, s') = flash_write_data ps (flash_src pp) total_size s
                   in if status \<noteq> HAL_OK then Some (status, s')
                      else flash_shift_p2s cfg (pp + ucast total_size) (ps + ucast total_size) s'
         else Some (HAL_OK, s))"

partial_function (option) flash_shift_s2p ::
    "kv_build \<Rightarrow> u32 \<Rightarrow> u32 \<Rightarrow> 'm flash_scheme \<Rightarrow> (hal_status \<times> 'm flash_scheme) option" where
  "flash_shift_s2p cfg pp ps s =
     (let r = rec_at (fl_mem s) ps; total_size = rec_total_size r
      in if rec_magic r = FLASH_MAGIC_NUMBER \<and> ps < FLASH_SECONDARY_STORAGE_END cfg
         then let (status, s') = flash_write_data pp (flash_src ps) total_size s
              in if status \<noteq> HAL_OK then Some (status, s')
                 else flash_shift_s2p cfg (pp + ucast total_size) (ps + ucast total_size) s'
         else Some (HAL_OK, s))"

definition flash_compact_storage ::
    "kv_build \<Rightarrow> 'm flash_scheme \<Rightarrow> (hal_status \<times> 'm flash_scheme) option" where
  "flash_compact_storage cfg s =
     (case flash_shift_p2s cfg (FLASH_PRIMARY_STORAGE_START cfg) (FLASH_SECONDARY_STORAGE_START cfg) s of
        None \<Rightarrow> None
      | Some (status, s1) \<Rightarrow>
          if status \<noteq> HAL_OK then Some (status, s1)
          else let s2 = flash_erase_sector (PRIMARY_FLASH_SECTOR cfg) s1
               in case flash_shift_s2p cfg (FLASH_PRIMARY_STORAGE_START cfg)
                         (FLASH_SECONDARY_STORAGE_START cfg) s2 of
                    None \<Rightarrow> None
                  | Some (status, s3) \<Rightarrow>
                      if status \<noteq> HAL_OK then Some (status, s3)
                      else Some (HAL_OK, flash_erase_sector (SECONDARY_FLASH_SECTOR cfg) s3))"

text \<open>
  The record written by a save has its \<open>reserved\<close> byte uninitialised in C; \<open>junk\<close> is what the
  stack held.
\<close>

definition flash_save_at ::
    "kv_build \<Rightarrow> u8 \<Rightarrow> u8 \<Rightarrow> u8 list \<Rightarrow> u32 \<Rightarrow> 'm flash_scheme \<Rightarrow> hal_status \<times> 'm flash_scheme" where
  "flash_save_at cfg junk key value ptr s =
     (let (status, s1) =
        (case flash_find_first_valid_entry cfg key s of
           None \<Rightarrow> (HAL_OK, s)
         | Some last_rec \<Rightarrow>
             flash_write_data last_rec
               (ram_src (rec_bytes ((rec_at (fl_mem s) last_rec)\<lparr>rec_status := FLASH_DELETED\<rparr>))) 6 s)
      in if status \<noteq> HAL_OK then (status, s1)
         else
           let sz = word_of_nat (length value);
               r = \<lparr>rec_magic = FLASH_MAGIC_NUMBER, rec_key = key, rec_size = sz,
                    rec_status = FLASH_VALID, rec_reserved = junk,
                    rec_crc = flash_calculate_crc value\<rparr>;
               (status, s2) = flash_write_data ptr (ram_src (rec_bytes r)) 6 s1
           in if status \<noteq> HAL_OK then (status, s2)
              else flash_write_data (ptr + 6) (ram_src value) sz s2)"

definition stm32_flash_save ::
    "kv_build \<Rightarrow> u8 \<Rightarrow> u8 \<Rightarrow> u8 list \<Rightarrow> 'm flash_scheme \<Rightarrow> (hal_status \<times> 'm flash_scheme) option" where
  "stm32_flash_save cfg junk key value s =
     (case flash_find_next_free cfg s of
        Some ptr \<Rightarrow> Some (flash_save_at cfg junk key value ptr s)
      | None \<Rightarrow>
          (case flash_compact_storage cfg s of
             None \<Rightarrow> None
           | Some (status, s1) \<Rightarrow>
               if status \<noteq> HAL_OK then Some (status, s1)
               else (case flash_find_next_free cfg s1 of
                       None \<Rightarrow> Some (HAL_ERR_IO, s1)
                     | Some ptr \<Rightarrow> Some (flash_save_at cfg junk key value ptr s1))))"

text \<open>The status, and the bytes copied to the caller's buffer (\<open>*size\<close> is their number).\<close>

definition stm32_flash_read :: "kv_build \<Rightarrow> u8 \<Rightarrow> 'm flash_scheme \<Rightarrow> hal_status \<times> u8 list" where
  "stm32_flash_read cfg key s =
     (case flash_find_first_valid_entry cfg key s of
        None \<Rightarrow> (HAL_ERR, [])
      | Some last_rec \<Rightarrow>
          let r = rec_at (fl_mem s) last_rec;
              value = mem_range (fl_mem s) (last_rec + 6) (unat (rec_size r))
          in if rec_crc r \<noteq> flash_calculate_crc value then (HAL_ERR, value) else (HAL_OK, value))"

definition stm32_flash_delete :: "kv_build \<Rightarrow> u8 \<Rightarrow> 'm flash_scheme \<Rightarrow> hal_status \<times> 'm flash_scheme" where
  "stm32_flash_delete cfg key s =
     (case flash_find_first_valid_entry cfg key s of
        None \<Rightarrow> (HAL_ERR, s)
      | Some r \<Rightarrow>
          flash_write_data r
            (ram_src (rec_bytes ((rec_at (fl_mem s) r)\<lparr>rec_status := FLASH_DELETED\<rparr>))) 6 s)"

definition stm32_flash_erase :: "kv_build \<Rightarrow> 'm flash_scheme \<Rightarrow> hal_status \<times> 'm flash_scheme" where
  "stm32_flash_erase cfg s =
     (HAL_OK, flash_erase_sector (SECONDARY_FLASH_SECTOR cfg)
                (flash_erase_sector (PRIMARY_FLASH_SECTOR cfg) s))"

definition stm32_flash_needs_compaction :: "kv_build \<Rightarrow> 'm flash_scheme \<Rightarrow> bool" where
  "stm32_flash_needs_compaction cfg s \<longleftrightarrow> flash_find_next_free cfg s = None"

section \<open>The public layer (src/common/hal_flash.c)\<close>

definition hal_flash_save ::
    "kv_build \<Rightarrow> u8 \<Rightarrow> u8 \<Rightarrow> u8 list option \<Rightarrow> 'm flash_scheme \<Rightarrow> (hal_status \<times> 'm flash_scheme) option" where
  "hal_flash_save cfg junk key value s =
     (case value of
        None \<Rightarrow> Some (HAL_ERR_INVALID_ARG, s)
      | Some v \<Rightarrow> if v = [] then Some (HAL_ERR_INVALID_ARG, s)
                  else stm32_flash_save cfg junk key v s)"

text \<open>\<open>has_value\<close>, \<open>has_size\<close>: whether the caller's two out-pointers are non-NULL.\<close>

definition hal_flash_read ::
    "kv_build \<Rightarrow> u8 \<Rightarrow> bool \<Rightarrow> bool \<Rightarrow> 'm flash_scheme \<Rightarrow> hal_status \<times> u8 list" where
  "hal_flash_read cfg key has_value has_size s =
     (if \<not> has_value \<or> \<not> has_size then (HAL_ERR_INVALID_ARG, [])
      else stm32_flash_read cfg key s)"

definition hal_flash_delete :: "kv_build \<Rightarrow> u8 \<Rightarrow> 'm flash_scheme \<Rightarrow> hal_status \<times> 'm flash_scheme" where
  "hal_flash_delete cfg key s = stm32_flash_delete cfg key s"

definition hal_flash_erase :: "kv_build \<Rightarrow> 'm flash_scheme \<Rightarrow> hal_status \<times> 'm flash_scheme" where
  "hal_flash_erase cfg s = stm32_flash_erase cfg s"

definition hal_flash_needs_compaction :: "kv_build \<Rightarrow> 'm flash_scheme \<Rightarrow> bool" where
  "hal_flash_needs_compaction cfg s = stm32_flash_needs_compaction cfg s"

section \<open>Sectors as byte lists\<close>

text \<open>Programming \<open>bs\<close> at offset \<open>k\<close> of a region whose contents are \<open>R\<close>.\<close>

definition and_at :: "nat \<Rightarrow> u8 list \<Rightarrow> u8 list \<Rightarrow> u8 list" where
  "and_at k bs R = take k R @ map2 (AND) (take (length bs) (drop k R)) bs @ drop (k + length bs) R"

lemma and_at_length [simp]: "k + length bs \<le> length R \<Longrightarrow> length (and_at k bs R) = length R"
  by (simp add: and_at_def)

lemma and_at_nth:
  "k + length bs \<le> length R \<Longrightarrow> i < length R \<Longrightarrow>
   and_at k bs R ! i = (if k \<le> i \<and> i < k + length bs then R ! i AND bs ! (i - k) else R ! i)"
  by (auto simp: and_at_def nth_append min_def)

lemma and_at_split:
  "length B = length bs \<Longrightarrow> and_at (length A) bs (A @ B @ C) = A @ map2 (AND) B bs @ C"
  by (simp add: and_at_def)

lemma map2_and_FF: "map2 (AND) (replicate (length bs) (0xFF :: u8)) bs = bs"
  by (induction bs) simp_all

lemma region_prog:
  assumes "k + length bs \<le> n" "unat a + n < 4294967296"
  shows "mem_range (prog_bytes (a + word_of_nat k) bs m) a n = and_at k bs (mem_range m a n)"
proof (rule nth_equalityI)
  fix i assume "i < length (mem_range (prog_bytes (a + word_of_nat k) bs m) a n)"
  then have i: "i < n" by simp
  let ?A = "a + word_of_nat k" and ?x = "a + word_of_nat i"
  have A: "unat ?A = unat a + k" and x: "unat ?x = unat a + i"
    using assms i by (auto intro!: unat_add_off)
  have off: "unat (?x - ?A) < length bs \<longleftrightarrow> k \<le> i \<and> i < k + length bs"
    and off': "k \<le> i \<Longrightarrow> unat (?x - ?A) = i - k"
  proof -
    show e: "unat (?x - ?A) = i - k" if "k \<le> i"
    proof -
      have "?x - ?A = word_of_nat (i - k)" using that by simp
      then show ?thesis using i assms by (simp only: unat_of_nat) simp
    qed
    show "unat (?x - ?A) < length bs \<longleftrightarrow> k \<le> i \<and> i < k + length bs"
    proof
      assume l: "unat (?x - ?A) < length bs"
      then have "unat ?x = unat ?A + unat (?x - ?A)"
        using assms A by (intro u32_offset [OF l]) linarith
      then have "k \<le> i" using A x by linarith
      with l e show "k \<le> i \<and> i < k + length bs" by simp
    qed (use e in auto)
  qed
  have len: "length bs < 2 ^ 32" using assms by simp
  show "mem_range (prog_bytes ?A bs m) a n ! i = and_at k bs (mem_range m a n) ! i"
    unfolding mem_range_nth [OF i] prog_bytes_at [OF len]
    using assms(1) i off off' by (simp add: and_at_nth)
qed (use assms in simp)

lemma region_prog_other:
  assumes "unat a + n < 4294967296" "unat x + length bs < 4294967296"
    and "unat x + length bs \<le> unat a \<or> unat a + n \<le> unat x"
  shows "mem_range (prog_bytes x bs m) a n = mem_range m a n"
proof -
  have "\<not> unat (a + word_of_nat i - x) < length bs" if i: "i < n" for i
  proof
    assume "unat (a + word_of_nat i - x) < length bs"
    then have "unat (a + word_of_nat i) = unat x + unat (a + word_of_nat i - x)"
      using assms(2) by (intro u32_offset [where n = "length bs"]) linarith+
    moreover have "unat (a + word_of_nat i) = unat a + i"
      using assms(1) i by (intro unat_add_off) simp
    ultimately show False using assms(3) i \<open>unat (a + word_of_nat i - x) < length bs\<close> by linarith
  qed
  then show ?thesis using assms(2) by (simp add: mem_range_eq_iff prog_bytes_at)
qed

section \<open>The write loop\<close>

lemma flash_write_loop_settled:
  fixes s0 :: "'m flash_scheme"
  assumes "flash_calm s0" "even (length data)" "unat sz = length data"
    and src: "\<And>s' k i. k \<le> length data \<Longrightarrow> fl_mem s' = prog_bytes addr (take k data) (fl_mem s0) \<Longrightarrow>
      i < length data \<Longrightarrow> src s' i = data ! i"
    and "even i" "i \<le> length data"
    and "flash_settled s0 (prog_bytes addr (take i data) (fl_mem s0)) s"
  shows "flash_settled s0 (prog_bytes addr data (fl_mem s0))
     (flash_write_loop src sz sz i (addr + word_of_nat i) s)"
  using assms(5-7)
proof (induction "length data - i" arbitrary: i s rule: less_induct)
  case less
  show ?case
  proof (cases "i < length data")
    case False
    then show ?thesis using less.prems assms(3) by (subst flash_write_loop.simps) simp
  next
    case True
    with less.prems(1) assms(2) have i1: "i + 1 < length data"
      by (metis Suc_eq_plus1 Suc_lessI even_Suc)
    have rd: "src s i = data ! i" "src s (i + 1) = data ! (i + 1)"
      using src [of i s] True i1 flash_settled_mem [OF less.prems(3)] by simp_all
    let ?s' = "flash_program_half_word (addr + word_of_nat i) (le16 (data ! i) (data ! (i + 1))) s"
    have "flash_settled s (prog16 (addr + word_of_nat i) (le16 (data ! i) (data ! (i + 1)))
        (fl_mem s)) ?s'"
      by (rule flash_program_half_word_settled [OF flash_settled_calm [OF less.prems(3)]])
    moreover have "take (i + 2) data = take i data @ [data ! i, data ! (i + 1)]"
      using i1 by (simp add: take_Suc_conv_app_nth)
    then have "prog16 (addr + word_of_nat i) (le16 (data ! i) (data ! (i + 1))) (fl_mem s) =
        prog_bytes addr (take (i + 2) data) (fl_mem s0)"
      using True by (simp add: prog16_bytes prog_bytes_append flash_settled_mem [OF less.prems(3)]
          min_def del: prog_bytes.simps)
    ultimately have step: "flash_settled s0 (prog_bytes addr (take (i + 2) data) (fl_mem s0)) ?s'"
      using flash_settled_trans [OF less.prems(3)] by simp
    have "flash_settled s0 (prog_bytes addr data (fl_mem s0))
       (flash_write_loop src sz sz (i + 2) (addr + word_of_nat (i + 2)) ?s')"
      by (rule less.hyps) (use True i1 less.prems(1) step in simp_all)
    moreover have "flash_write_loop src sz sz i (addr + word_of_nat i) s =
        flash_write_loop src sz sz (i + 2) (addr + word_of_nat i + 2) ?s'"
      using True i1 rd assms(3) by (subst flash_write_loop.simps) (simp add: Let_def)
    ultimately show ?thesis by (simp add: algebra_simps)
  qed
qed

lemma u8_mod_2: "(sz :: u8) mod 2 = 0 \<longleftrightarrow> even (unat sz)"
  by (simp add: word_unat_eq_iff unat_mod even_iff_mod_2_eq_zero)

lemma flash_write_data_settled:
  fixes s :: "'m flash_scheme"
  assumes "flash_calm s" "even (length data)" "unat sz = length data" "data \<noteq> []"
    and "\<And>s' k i. k \<le> length data \<Longrightarrow> fl_mem s' = prog_bytes addr (take k data) (fl_mem s) \<Longrightarrow>
      i < length data \<Longrightarrow> src s' i = data ! i"
  obtains s' where "flash_write_data addr src sz s = (HAL_OK, s')"
    "flash_settled s (prog_bytes addr data (fl_mem s)) s'"
proof (rule that [OF _ flash_write_loop_settled [OF assms(1-3,5), where i = 0 and s = s]])
  have "sz \<noteq> 0" "sz mod 2 = 0" using assms by (auto simp: u8_mod_2)
  then show "flash_write_data addr src sz s =
      (HAL_OK, flash_write_loop src sz sz 0 (addr + word_of_nat 0) s)"
    by (simp add: flash_write_data_def)
qed (use assms(1) in \<open>simp_all add: flash_settled_refl\<close>)

lemma flash_write_ram:
  fixes s :: "'m flash_scheme"
  assumes "flash_calm s" "even (length data)" "unat sz = length data" "data \<noteq> []"
  obtains s' where "flash_write_data addr (ram_src data) sz s = (HAL_OK, s')"
    "flash_settled s (prog_bytes addr data (fl_mem s)) s'"
  by (rule flash_write_data_settled [OF assms, where addr = addr and src = "ram_src data"])
    (simp_all add: ram_src_def that)

section \<open>The abstract log\<close>

text \<open>An entry is a record header with its value; the log is the entries in flash order.\<close>

type_synonym kv_entry = "hal_flash_record \<times> u8 list"

definition entry_ok :: "kv_entry \<Rightarrow> bool" where
  "entry_ok e \<longleftrightarrow> rec_magic (fst e) = FLASH_MAGIC_NUMBER \<and> unat (rec_size (fst e)) = length (snd e) \<and>
     snd e \<noteq> [] \<and> even (length (snd e)) \<and> length (snd e) \<le> 248 \<and>
     rec_status (fst e) \<in> {FLASH_VALID, FLASH_DELETED} \<and>
     rec_crc (fst e) = flash_calculate_crc (snd e)"

definition entry_bytes :: "kv_entry \<Rightarrow> u8 list" where
  "entry_bytes e = rec_bytes (fst e) @ snd e"

definition log_bytes :: "kv_entry list \<Rightarrow> u8 list" where
  "log_bytes l = concat (map entry_bytes l)"

definition live :: "kv_entry \<Rightarrow> bool" where
  "live e \<longleftrightarrow> rec_status (fst e) = FLASH_VALID"

text \<open>The map a log stands for.\<close>

fun kv_map :: "kv_entry list \<Rightarrow> u8 \<Rightarrow> u8 list option" where
  "kv_map [] k = None"
| "kv_map (e # l) k = (if rec_key (fst e) = k \<and> live e then Some (snd e) else kv_map l k)"

text \<open>\<open>sector_holds m a n l\<close>: the \<open>n\<close> bytes at \<open>a\<close> are the log \<open>l\<close> followed by erased flash.\<close>

definition sector_holds :: "(u32 \<Rightarrow> u8) \<Rightarrow> u32 \<Rightarrow> nat \<Rightarrow> kv_entry list \<Rightarrow> bool" where
  "sector_holds m a n l \<longleftrightarrow> length (log_bytes l) \<le> n \<and> list_all entry_ok l \<and>
     mem_range m a n = log_bytes l @ replicate (n - length (log_bytes l)) 0xFF"

lemma length_rec_bytes [simp]: "length (rec_bytes r) = 6"
  by (simp add: rec_bytes_def)

lemma length_entry_bytes [simp]: "length (entry_bytes e) = 6 + length (snd e)"
  by (simp add: entry_bytes_def)

lemma log_bytes_simps [simp]:
  "log_bytes [] = []" "log_bytes (e # l) = entry_bytes e @ log_bytes l"
  "log_bytes (l @ l') = log_bytes l @ log_bytes l'"
  by (simp_all add: log_bytes_def)

lemma rec_at_bytes:
  assumes "mem_range m a n = rec_bytes r @ rest"
  shows "rec_at m a = r"
proof -
  have "n = 6 + length rest" using arg_cong [OF assms, of length] by simp
  then have i: "m (a + word_of_nat i) = rec_bytes r ! i" if "i < 6" for i
    using arg_cong [OF assms, of "\<lambda>xs. xs ! i"] that by (simp add: nth_append)
  show ?thesis
    using i [of 0] i [of 1] i [of 2] i [of 3] i [of 4] i [of 5]
    by (simp add: rec_at_def rec_bytes_def)
qed

lemma mem_range_split:
  assumes "mem_range m a n = xs @ ys"
  shows "mem_range m a (length xs) = xs" "mem_range m (a + word_of_nat (length xs)) (n - length xs) = ys"
proof -
  have "n = length xs + length ys" using arg_cong [OF assms, of length] by simp
  then have "mem_range m a (length xs) @ mem_range m (a + word_of_nat (length xs)) (n - length xs) =
      xs @ ys"
    using assms mem_range_add [of m a "length xs" "n - length xs"] by simp
  then show "mem_range m a (length xs) = xs"
    "mem_range m (a + word_of_nat (length xs)) (n - length xs) = ys"
    by (simp_all add: append_eq_append_conv)
qed

section \<open>The scans read the log\<close>

lemma sector_holds_Nil: "sector_holds m a n [] \<Longrightarrow> 0 < n \<Longrightarrow> m a = 0xFF"
proof -
  assume h: "sector_holds m a n []" and n: "0 < n"
  have "mem_range m a n ! 0 = 0xFF" using h n by (simp add: sector_holds_def del: mem_range_nth)
  with n show ?thesis by simp
qed

lemma sector_holds_Cons:
  assumes "sector_holds m a n (e # l)"
  shows "entry_ok e" "rec_at m a = fst e" "mem_range m (a + 6) (length (snd e)) = snd e"
    "6 + length (snd e) \<le> n"
    "sector_holds m (a + word_of_nat (6 + length (snd e))) (n - (6 + length (snd e))) l"
proof -
  have h: "mem_range m a n = rec_bytes (fst e) @ snd e @ log_bytes l @
      replicate (n - length (log_bytes (e # l))) 0xFF"
    "length (log_bytes (e # l)) \<le> n" "entry_ok e" "list_all entry_ok l"
    using assms by (simp_all add: sector_holds_def entry_bytes_def)
  show "entry_ok e" by fact
  show "rec_at m a = fst e" using h(1) by (rule rec_at_bytes)
  show "6 + length (snd e) \<le> n" using h(2) by simp
  have r2: "mem_range m (a + word_of_nat 6) (n - 6) = snd e @ log_bytes l @
      replicate (n - length (log_bytes (e # l))) 0xFF"
    using mem_range_split(2) [OF h(1)] by simp
  show "mem_range m (a + 6) (length (snd e)) = snd e"
    using mem_range_split(1) [OF r2] by simp
  have "mem_range m (a + word_of_nat (6 + length (snd e))) (n - (6 + length (snd e))) =
      log_bytes l @ replicate (n - length (log_bytes (e # l))) 0xFF"
    using mem_range_split(2) [OF r2] by (simp add: algebra_simps)
  then show "sector_holds m (a + word_of_nat (6 + length (snd e))) (n - (6 + length (snd e))) l"
    using h by (simp add: sector_holds_def)
qed

lemma entry_step:
  assumes "entry_ok e"
  shows "a + ucast (rec_size (fst e)) + 6 = (a :: u32) + word_of_nat (6 + length (snd e))"
proof -
  have "ucast (rec_size (fst e)) = (word_of_nat (length (snd e)) :: u32)"
    using assms by (simp add: word_unat_eq_iff unat_of_nat entry_ok_def)
  then show ?thesis by simp
qed

lemma kv_end_bound: "unat (FLASH_PRIMARY_STORAGE_END cfg) \<le> 0x08080000"
  using storage_end_bound [of "PRIMARY_FLASH_SECTOR cfg"]
  by (simp add: FLASH_PRIMARY_STORAGE_END_def FLASH_PRIMARY_STORAGE_START_def word_le_nat_alt)

lemma kv_scan_free_log:
  assumes "sector_holds m a n l" "unat a + n = unat (FLASH_PRIMARY_STORAGE_END cfg)"
  shows "kv_scan_free cfg m a = a + word_of_nat (length (log_bytes l))"
  using assms
proof (induction l arbitrary: a n)
  case Nil
  have "\<not> (m a = FLASH_MAGIC_NUMBER \<and> a < FLASH_PRIMARY_STORAGE_END cfg)"
  proof (cases "n = 0")
    case False
    then have "m a = 0xFF" using sector_holds_Nil [OF Nil(1)] by simp
    then show ?thesis by (simp add: FLASH_MAGIC_NUMBER_def)
  qed (use Nil in \<open>simp add: word_less_nat_alt\<close>)
  then show ?case by (subst kv_scan_free.simps) (auto simp: rec_at_def)
next
  case (Cons e l)
  note h = sector_holds_Cons [OF Cons.prems(1)]
  let ?k = "6 + length (snd e)"
  have a': "unat (a + word_of_nat ?k) = unat a + ?k"
    using Cons.prems(2) h(4) kv_end_bound [of cfg] by (intro unat_add_off) simp
  have ih: "kv_scan_free cfg m (a + word_of_nat ?k) =
      a + word_of_nat ?k + word_of_nat (length (log_bytes l))"
    by (rule Cons.IH [OF h(5)]) (use Cons.prems(2) h(4) a' in simp)
  have "rec_magic (rec_at m a) = FLASH_MAGIC_NUMBER \<and> a < FLASH_PRIMARY_STORAGE_END cfg"
    using h(1,2,4) Cons.prems(2) by (simp add: entry_ok_def word_less_nat_alt)
  then have "kv_scan_free cfg m a = kv_scan_free cfg m (a + ucast (rec_size (fst e)) + 6)"
    by (subst kv_scan_free.simps) (simp add: h(2))
  then show ?case
    unfolding entry_step [OF h(1)] ih by (simp add: algebra_simps)
qed

lemma kv_scan_key_log:
  assumes "sector_holds m a n l" "unat a + n = unat (FLASH_PRIMARY_STORAGE_END cfg)"
  shows "if \<exists>e\<in>set l. rec_key (fst e) = key \<and> live e
    then \<exists>l1 e l2. l = l1 @ e # l2 \<and> rec_key (fst e) = key \<and> live e \<and>
      (\<forall>e'\<in>set l1. \<not> (rec_key (fst e') = key \<and> live e')) \<and>
      kv_scan_key cfg m key a = Some (a + word_of_nat (length (log_bytes l1)))
    else kv_scan_key cfg m key a = None"
  using assms
proof (induction l arbitrary: a n)
  case Nil
  have "\<not> (a < FLASH_PRIMARY_STORAGE_END cfg \<and> m a = FLASH_MAGIC_NUMBER)"
  proof (cases "n = 0")
    case False
    then have "m a = 0xFF" using sector_holds_Nil [OF Nil(1)] by simp
    then show ?thesis by (simp add: FLASH_MAGIC_NUMBER_def)
  qed (use Nil in \<open>simp add: word_less_nat_alt\<close>)
  then show ?case by (subst kv_scan_key.simps) (auto simp: rec_at_def)
next
  case (Cons e l)
  note h = sector_holds_Cons [OF Cons.prems(1)]
  let ?k = "6 + length (snd e)"
  have a': "unat (a + word_of_nat ?k) = unat a + ?k"
    using Cons.prems(2) h(4) kv_end_bound [of cfg] by (intro unat_add_off) simp
  have on: "a < FLASH_PRIMARY_STORAGE_END cfg \<and> rec_magic (rec_at m a) = FLASH_MAGIC_NUMBER"
    using h(1,2,4) Cons.prems(2) by (simp add: entry_ok_def word_less_nat_alt)
  have scan: "kv_scan_key cfg m key a = (if rec_key (fst e) = key \<and> live e then Some a
      else kv_scan_key cfg m key (a + word_of_nat ?k))"
    using on by (subst kv_scan_key.simps) (simp only: h(2) live_def entry_step [OF h(1)] simp_thms if_True)
  show ?case
  proof (cases "rec_key (fst e) = key \<and> live e")
    case True
    then show ?thesis
      using scan by simp (intro exI [of _ "[]"] exI [of _ "fst e"] exI [of _ "snd e"], simp)
  next
    case False
    have ih: "if \<exists>e\<in>set l. rec_key (fst e) = key \<and> live e
      then \<exists>l1 e l2. l = l1 @ e # l2 \<and> rec_key (fst e) = key \<and> live e \<and>
        (\<forall>e'\<in>set l1. \<not> (rec_key (fst e') = key \<and> live e')) \<and>
        kv_scan_key cfg m key (a + word_of_nat ?k) =
          Some (a + word_of_nat ?k + word_of_nat (length (log_bytes l1)))
      else kv_scan_key cfg m key (a + word_of_nat ?k) = None"
      by (rule Cons.IH [OF h(5)]) (use Cons.prems(2) h(4) a' in simp)
    show ?thesis
    proof (cases "\<exists>e\<in>set l. rec_key (fst e) = key \<and> live e")
      case True
      then obtain l1 e1 l2 where s: "l = l1 @ e1 # l2" "rec_key (fst e1) = key" "live e1"
        "\<forall>e'\<in>set l1. \<not> (rec_key (fst e') = key \<and> live e')"
        "kv_scan_key cfg m key (a + word_of_nat ?k) =
          Some (a + word_of_nat ?k + word_of_nat (length (log_bytes l1)))"
        using ih by auto
      have "kv_scan_key cfg m key a = Some (a + word_of_nat (length (log_bytes (e # l1))))"
        unfolding scan if_not_P [OF False] s(5) by (simp add: algebra_simps)
      then have "\<exists>l1' e' l2'. e # l = l1' @ e' # l2' \<and> rec_key (fst e') = key \<and> live e' \<and>
          (\<forall>e''\<in>set l1'. \<not> (rec_key (fst e'') = key \<and> live e'')) \<and>
          kv_scan_key cfg m key a = Some (a + word_of_nat (length (log_bytes l1')))"
        using False s(1-4)
        by (intro exI [of _ "e # l1"] exI [of _ e1] exI [of _ l2] conjI) (simp_all del: log_bytes_simps)
      then show ?thesis using True by (subst if_P) auto
    next
      case f: False
      have "kv_scan_key cfg m key (a + word_of_nat ?k) = None" using ih by (simp only: f if_False)
      then have "kv_scan_key cfg m key a = None" using scan by (simp only: if_not_P [OF False])
      then show ?thesis using f False by (subst if_not_P) auto
    qed
  qed
qed

text \<open>The map, seen through such a split of the log.\<close>

lemma kv_map_None: "kv_map l k = None \<longleftrightarrow> (\<forall>e\<in>set l. \<not> (rec_key (fst e) = k \<and> live e))"
  by (induction l) auto

lemma kv_map_append:
  "kv_map (l @ l') k = (case kv_map l k of None \<Rightarrow> kv_map l' k | Some v \<Rightarrow> Some v)"
  by (induction l) auto

section \<open>The store's invariant\<close>

definition kv_cfg_ok :: "kv_build \<Rightarrow> bool" where
  "kv_cfg_ok cfg \<longleftrightarrow> PRIMARY_FLASH_SECTOR cfg < 8 \<and> SECONDARY_FLASH_SECTOR cfg < 8 \<and>
     PRIMARY_FLASH_SECTOR cfg \<noteq> SECONDARY_FLASH_SECTOR cfg"

definition kv_cap :: "u8 \<Rightarrow> nat" where
  "kv_cap n = unat (SECTOR_BYTES n)"

text \<open>At most one live record per key.\<close>

definition live_distinct :: "kv_entry list \<Rightarrow> bool" where
  "live_distinct l \<longleftrightarrow> distinct (map (\<lambda>e. rec_key (fst e)) (List.filter live l))"

definition kv_inv :: "kv_build \<Rightarrow> (u32 \<Rightarrow> u8) \<Rightarrow> kv_entry list \<Rightarrow> bool" where
  "kv_inv cfg m l \<longleftrightarrow>
     sector_holds m (FLASH_PRIMARY_STORAGE_START cfg) (kv_cap (PRIMARY_FLASH_SECTOR cfg)) l \<and>
     sector_holds m (FLASH_SECONDARY_STORAGE_START cfg) (kv_cap (SECONDARY_FLASH_SECTOR cfg)) [] \<and>
     live_distinct l"

lemma kv_geometry:
  assumes "n < 8"
  shows "SECTOR_ADDR n = sector_base n" "SECTOR_BYTES n = sector_size n"
    "unat (SECTOR_ADDR n) + kv_cap n = unat (SECTOR_ADDR n + SECTOR_BYTES n)"
    "unat (SECTOR_ADDR n) + kv_cap n \<le> 0x08080000"
    "0x4000 \<le> kv_cap n"
  using u8_below_8 [OF assms]
  by (elim disjE; simp add: SECTOR_ADDR_def SECTOR_BYTES_def sector_base_def sector_size_def kv_cap_def)+

lemma kv_sectors_apart:
  assumes "kv_cfg_ok cfg"
  shows "unat (FLASH_PRIMARY_STORAGE_START cfg) + kv_cap (PRIMARY_FLASH_SECTOR cfg) \<le>
      unat (FLASH_SECONDARY_STORAGE_START cfg) \<or>
    unat (FLASH_SECONDARY_STORAGE_START cfg) + kv_cap (SECONDARY_FLASH_SECTOR cfg) \<le>
      unat (FLASH_PRIMARY_STORAGE_START cfg)"
proof -
  have n: "PRIMARY_FLASH_SECTOR cfg < 8" "SECONDARY_FLASH_SECTOR cfg < 8"
    "PRIMARY_FLASH_SECTOR cfg \<noteq> SECONDARY_FLASH_SECTOR cfg"
    using assms by (simp_all add: kv_cfg_ok_def)
  show ?thesis
    using u8_below_8 [OF n(1)] u8_below_8 [OF n(2)] n(3)
    by (elim disjE) (simp_all add: FLASH_PRIMARY_STORAGE_START_def
        FLASH_SECONDARY_STORAGE_START_def SECTOR_ADDR_def SECTOR_BYTES_def kv_cap_def)
qed

lemma kv_bounds:
  assumes "kv_cfg_ok cfg"
  shows "unat (FLASH_PRIMARY_STORAGE_START cfg) + kv_cap (PRIMARY_FLASH_SECTOR cfg) \<le> 0x08080000"
    "unat (FLASH_SECONDARY_STORAGE_START cfg) + kv_cap (SECONDARY_FLASH_SECTOR cfg) \<le> 0x08080000"
    "unat (FLASH_PRIMARY_STORAGE_START cfg) + kv_cap (PRIMARY_FLASH_SECTOR cfg) =
       unat (FLASH_PRIMARY_STORAGE_END cfg)"
    "unat (FLASH_SECONDARY_STORAGE_START cfg) + kv_cap (SECONDARY_FLASH_SECTOR cfg) =
       unat (FLASH_SECONDARY_STORAGE_END cfg)"
  using assms kv_geometry
  by (auto simp: kv_cfg_ok_def FLASH_PRIMARY_STORAGE_START_def FLASH_SECONDARY_STORAGE_START_def
      FLASH_PRIMARY_STORAGE_END_def FLASH_SECONDARY_STORAGE_END_def)

section \<open>Rewriting a sector's log\<close>

lemma sector_region_prog:
  assumes "mem_range m a n = A @ B @ C" "length B = length bs" "unat a + n < 4294967296"
  shows "mem_range (prog_bytes (a + word_of_nat (length A)) bs m) a n = A @ map2 (AND) B bs @ C"
proof -
  have n: "n = length A + length B + length C" using arg_cong [OF assms(1), of length] by simp
  have "mem_range (prog_bytes (a + word_of_nat (length A)) bs m) a n =
      and_at (length A) bs (A @ B @ C)"
    using region_prog [of "length A" bs n a m] n assms by simp
  then show ?thesis by (simp only: and_at_split [OF assms(2)])
qed

lemma sector_holds_append:
  assumes "sector_holds m a n l" "list_all entry_ok l'" "unat a + n < 4294967296"
    and "length (log_bytes (l @ l')) \<le> n"
  shows "sector_holds (prog_bytes (a + word_of_nat (length (log_bytes l))) (log_bytes l') m) a n (l @ l')"
proof -
  let ?k = "length (log_bytes l')" and ?r = "n - length (log_bytes l)"
  have "?r = ?k + (?r - ?k)" using assms(4) by simp
  then have "replicate ?r (0xFF :: u8) = replicate ?k 0xFF @ replicate (?r - ?k) 0xFF"
    by (metis replicate_add)
  then have "mem_range m a n = log_bytes l @ replicate ?k 0xFF @ replicate (?r - ?k) 0xFF"
    using assms(1) by (simp add: sector_holds_def)
  then have "mem_range (prog_bytes (a + word_of_nat (length (log_bytes l))) (log_bytes l') m) a n =
      log_bytes l @ map2 (AND) (replicate ?k 0xFF) (log_bytes l') @ replicate (?r - ?k) 0xFF"
    using assms(3) by (intro sector_region_prog) simp_all
  then show ?thesis
    using assms by (simp add: sector_holds_def map2_and_FF)
qed

definition mark_deleted :: "kv_entry \<Rightarrow> kv_entry" where
  "mark_deleted e = ((fst e)\<lparr>rec_status := FLASH_DELETED\<rparr>, snd e)"

lemma mark_deleted_simps [simp]:
  "snd (mark_deleted e) = snd e" "rec_key (fst (mark_deleted e)) = rec_key (fst e)"
  "\<not> live (mark_deleted e)" "entry_ok e \<Longrightarrow> entry_ok (mark_deleted e)"
  by (auto simp: mark_deleted_def live_def entry_ok_def kv_consts)

lemma map2_and_mark:
  "live e \<Longrightarrow> map2 (AND) (rec_bytes (fst e)) (rec_bytes (fst (mark_deleted e))) =
     rec_bytes (fst (mark_deleted e))"
  by (simp add: rec_bytes_def mark_deleted_def live_def kv_consts)

lemma sector_holds_mark:
  assumes "sector_holds m a n (l1 @ e # l2)" "live e" "unat a + n < 4294967296"
  shows "sector_holds (prog_bytes (a + word_of_nat (length (log_bytes l1)))
      (rec_bytes (fst (mark_deleted e))) m) a n (l1 @ mark_deleted e # l2)"
proof -
  have "mem_range m a n = log_bytes l1 @ rec_bytes (fst e) @ (snd e @ log_bytes l2 @
      replicate (n - length (log_bytes (l1 @ e # l2))) 0xFF)"
    using assms(1) by (simp add: sector_holds_def entry_bytes_def)
  then have "mem_range (prog_bytes (a + word_of_nat (length (log_bytes l1)))
        (rec_bytes (fst (mark_deleted e))) m) a n =
      log_bytes l1 @ rec_bytes (fst (mark_deleted e)) @ (snd e @ log_bytes l2 @
      replicate (n - length (log_bytes (l1 @ e # l2))) 0xFF)"
    using sector_region_prog [OF _ _ assms(3), of m "log_bytes l1" "rec_bytes (fst e)" _
        "rec_bytes (fst (mark_deleted e))"] map2_and_mark [OF assms(2)] by simp
  then show ?thesis
    using assms(1) by (simp add: sector_holds_def entry_bytes_def)
qed

lemma sector_holds_other:
  assumes "sector_holds m a n l" "unat a + n < 4294967296" "unat x + length bs < 4294967296"
    and "unat x + length bs \<le> unat a \<or> unat a + n \<le> unat x"
  shows "sector_holds (prog_bytes x bs m) a n l"
  using assms(1) region_prog_other [OF assms(2-4), of m] by (simp add: sector_holds_def)

lemma live_distinct_mark: "live_distinct (l1 @ e # l2) \<Longrightarrow> live_distinct (l1 @ mark_deleted e # l2)"
  by (cases "live e") (auto simp: live_distinct_def)

lemma kv_map_mark:
  assumes "live_distinct (l1 @ e # l2)" "live e" "rec_key (fst e) = k"
  shows "kv_map (l1 @ mark_deleted e # l2) = (kv_map (l1 @ e # l2))(k := None)"
proof
  fix k'
  have "rec_key (fst e) \<notin> (\<lambda>x. rec_key (fst x)) ` {x \<in> set (l1 @ l2). live x}"
    using assms by (auto simp: live_distinct_def)
  then have k: "\<forall>e'\<in>set (l1 @ l2). \<not> (rec_key (fst e') = k \<and> live e')"
    using assms(3) by blast
  then have "kv_map (l1 @ l2) k = None" by (simp only: kv_map_None)
  then show "kv_map (l1 @ mark_deleted e # l2) k' = ((kv_map (l1 @ e # l2))(k := None)) k'"
    using assms(2,3) by (auto simp: kv_map_append split: option.splits)
qed

section \<open>Each operation implements the map operation\<close>

text \<open>What a store operation may change: the log it holds, and no byte outside its two sectors.\<close>

definition kv_result :: "kv_build \<Rightarrow> 'm flash_scheme \<Rightarrow> kv_entry list \<Rightarrow> 'm flash_scheme \<Rightarrow> bool" where
  "kv_result cfg s l' s' \<longleftrightarrow> flash_settled s (fl_mem s') s' \<and> kv_inv cfg (fl_mem s') l' \<and>
     (\<forall>x. \<not> in_sector (PRIMARY_FLASH_SECTOR cfg) x \<and> \<not> in_sector (SECONDARY_FLASH_SECTOR cfg) x \<longrightarrow>
        fl_mem s' x = fl_mem s x)"

lemma kv_result_refl: "flash_calm s \<Longrightarrow> kv_inv cfg (fl_mem s) l \<Longrightarrow> kv_result cfg s l s"
  by (simp add: kv_result_def flash_settled_refl)

lemma kv_result_trans:
  "kv_result cfg s l1 s1 \<Longrightarrow> kv_result cfg s1 l2 s2 \<Longrightarrow> kv_result cfg s l2 s2"
  by (auto simp: kv_result_def intro: flash_settled_trans)

lemma kv_result_calm: "kv_result cfg s l s' \<Longrightarrow> flash_calm s'"
  by (auto simp: kv_result_def intro: flash_settled_calm)

lemma kv_result_inv: "kv_result cfg s l s' \<Longrightarrow> kv_inv cfg (fl_mem s') l"
  by (simp add: kv_result_def)

lemma in_primary:
  assumes "kv_cfg_ok cfg"
    and "unat (FLASH_PRIMARY_STORAGE_START cfg) \<le> unat x"
      "unat x < unat (FLASH_PRIMARY_STORAGE_START cfg) + kv_cap (PRIMARY_FLASH_SECTOR cfg)"
  shows "in_sector (PRIMARY_FLASH_SECTOR cfg) x"
  using assms kv_geometry(1-3) [of "PRIMARY_FLASH_SECTOR cfg"]
  by (simp add: kv_cfg_ok_def in_sector_nat FLASH_PRIMARY_STORAGE_START_def)

text \<open>A write that stays inside the primary sector and turns its log into \<open>l'\<close>.\<close>

lemma kv_result_prog:
  assumes cfg: "kv_cfg_ok cfg" and inv: "kv_inv cfg (fl_mem s) l"
    and set: "flash_settled s (prog_bytes (FLASH_PRIMARY_STORAGE_START cfg + word_of_nat k) bs (fl_mem s)) s'"
    and k: "k + length bs \<le> kv_cap (PRIMARY_FLASH_SECTOR cfg)"
    and new: "sector_holds (fl_mem s') (FLASH_PRIMARY_STORAGE_START cfg)
      (kv_cap (PRIMARY_FLASH_SECTOR cfg)) l'" "live_distinct l'"
  shows "kv_result cfg s l' s'"
proof -
  note b = kv_bounds [OF cfg]
  note m = flash_settled_mem [OF set]
  let ?x = "FLASH_PRIMARY_STORAGE_START cfg + word_of_nat k"
  have x: "unat ?x = unat (FLASH_PRIMARY_STORAGE_START cfg) + k"
    using b(1) k by (intro unat_add_off) simp
  have "sector_holds (fl_mem s') (FLASH_SECONDARY_STORAGE_START cfg)
      (kv_cap (SECONDARY_FLASH_SECTOR cfg)) []"
    unfolding m
  proof (rule sector_holds_other)
    show "sector_holds (fl_mem s) (FLASH_SECONDARY_STORAGE_START cfg)
      (kv_cap (SECONDARY_FLASH_SECTOR cfg)) []" using inv by (simp add: kv_inv_def)
  qed (use b k x kv_sectors_apart [OF cfg] in linarith)+
  moreover have "fl_mem s' y = fl_mem s y"
    if y: "\<not> in_sector (PRIMARY_FLASH_SECTOR cfg) y" for y
  proof -
    have "\<not> unat (y - ?x) < length bs"
    proof
      assume l: "unat (y - ?x) < length bs"
      then have "unat y = unat ?x + unat (y - ?x)" using b(1) k x by (intro u32_offset [OF l]) linarith
      then show False using in_primary [OF cfg, of y] y l x k by linarith
    qed
    then show ?thesis using k b(1) by (simp add: m prog_bytes_at)
  qed
  ultimately show ?thesis using set new m by (simp add: kv_result_def kv_inv_def)
qed

lemma kv_find_cases:
  assumes "kv_cfg_ok cfg" "kv_inv cfg (fl_mem s) l"
  obtains (missing) "kv_map l key = None" "flash_find_first_valid_entry cfg key s = None"
  | (found) l1 e l2 where "l = l1 @ e # l2" "rec_key (fst e) = key" "live e"
      "kv_map l key = Some (snd e)" "flash_find_first_valid_entry cfg key s =
        Some (FLASH_PRIMARY_STORAGE_START cfg + word_of_nat (length (log_bytes l1)))"
proof -
  have h: "sector_holds (fl_mem s) (FLASH_PRIMARY_STORAGE_START cfg)
      (kv_cap (PRIMARY_FLASH_SECTOR cfg)) l" using assms(2) by (simp add: kv_inv_def)
  note sc = kv_scan_key_log [OF h kv_bounds(3) [OF assms(1)], of key]
  show thesis
  proof (cases "\<exists>e\<in>set l. rec_key (fst e) = key \<and> live e")
    case True
    with sc obtain l1 e l2 where c: "l = l1 @ e # l2" "rec_key (fst e) = key" "live e"
      "\<forall>e'\<in>set l1. \<not> (rec_key (fst e') = key \<and> live e')"
      "kv_scan_key cfg (fl_mem s) key (FLASH_PRIMARY_STORAGE_START cfg) =
        Some (FLASH_PRIMARY_STORAGE_START cfg + word_of_nat (length (log_bytes l1)))"
      by (simp only: if_P) blast
    have "kv_map l1 key = None" using c(4) by (simp only: kv_map_None)
    then have "kv_map l key = Some (snd e)" using c(1-3) by (simp add: kv_map_append)
    then show ?thesis using found c by (simp add: flash_find_first_valid_entry_def)
  next
    case False
    then have "kv_map l key = None" unfolding kv_map_None by blast
    moreover have "flash_find_first_valid_entry cfg key s = None"
      using sc by (simp only: False if_False flash_find_first_valid_entry_def)
    ultimately show ?thesis by (rule missing)
  qed
qed

text \<open>Rewriting the header of the live record of a key as deleted.\<close>

lemma kv_delete_found:
  fixes s :: "'m flash_scheme"
  assumes "kv_cfg_ok cfg" "flash_calm s" "kv_inv cfg (fl_mem s) l"
    and l: "l = l1 @ e # l2" "rec_key (fst e) = key" "live e"
  defines "ptr \<equiv> FLASH_PRIMARY_STORAGE_START cfg + word_of_nat (length (log_bytes l1))"
  obtains s' where "flash_write_data ptr
      (ram_src (rec_bytes ((rec_at (fl_mem s) ptr)\<lparr>rec_status := FLASH_DELETED\<rparr>))) 6 s = (HAL_OK, s')"
    "kv_result cfg s (l1 @ mark_deleted e # l2) s'"
    "kv_map (l1 @ mark_deleted e # l2) = (kv_map l)(key := None)"
    "length (log_bytes (l1 @ mark_deleted e # l2)) = length (log_bytes l)"
proof -
  let ?a = "FLASH_PRIMARY_STORAGE_START cfg" and ?n = "kv_cap (PRIMARY_FLASH_SECTOR cfg)"
  note b = kv_bounds [OF assms(1)]
  have h: "sector_holds (fl_mem s) ?a ?n (l1 @ e # l2)" and d: "live_distinct (l1 @ e # l2)"
    using assms(3) l(1) by (simp_all add: kv_inv_def)
  have len: "length (log_bytes l1) + 6 + length (snd e) \<le> ?n" using h by (simp add: sector_holds_def)
  have "mem_range (fl_mem s) ?a ?n = log_bytes l1 @ rec_bytes (fst e) @ snd e @ log_bytes l2 @
      replicate (?n - length (log_bytes (l1 @ e # l2))) 0xFF"
    using h by (simp add: sector_holds_def entry_bytes_def)
  from rec_at_bytes [OF mem_range_split(2) [OF this]]
  have r: "rec_at (fl_mem s) ptr = fst e" by (simp add: ptr_def)
  obtain s' where w: "flash_write_data ptr (ram_src (rec_bytes (fst (mark_deleted e)))) 6 s = (HAL_OK, s')"
    "flash_settled s (prog_bytes ptr (rec_bytes (fst (mark_deleted e))) (fl_mem s)) s'"
    by (rule flash_write_ram [OF assms(2), of "rec_bytes (fst (mark_deleted e))" 6 ptr])
      (simp_all add: rec_bytes_def)
  have "sector_holds (fl_mem s') ?a ?n (l1 @ mark_deleted e # l2)"
    unfolding flash_settled_mem [OF w(2)] ptr_def
    by (rule sector_holds_mark [OF h l(3)]) (use b in linarith)
  then have res: "kv_result cfg s (l1 @ mark_deleted e # l2) s'"
    by (intro kv_result_prog [OF assms(1,3) w(2)[unfolded ptr_def]] live_distinct_mark [OF d])
      (use len in simp_all)
  show thesis
    by (rule that [OF _ res])
      (use w(1) r kv_map_mark [OF d l(3,2)] l(1) in \<open>simp_all add: mark_deleted_def\<close>)
qed

lemma live_distinct_snoc:
  assumes "live_distinct l" "kv_map l (rec_key (fst e)) = None"
  shows "live_distinct (l @ [e])"
proof -
  have "\<forall>e'\<in>set l. \<not> (rec_key (fst e') = rec_key (fst e) \<and> live e')"
    using assms(2) by (simp only: kv_map_None)
  then have "rec_key (fst e) \<notin> (\<lambda>x. rec_key (fst x)) ` {x \<in> set l. live x}" by auto
  then show ?thesis using assms(1) by (auto simp: live_distinct_def)
qed

lemma kv_map_snoc:
  assumes "kv_map l (rec_key (fst e)) = None" "live e"
  shows "kv_map (l @ [e]) = (kv_map l)(rec_key (fst e) \<mapsto> snd e)"
  using assms by (auto simp: fun_eq_iff kv_map_append split: option.splits)

text \<open>The record a save writes.\<close>

definition new_entry :: "u8 \<Rightarrow> u8 \<Rightarrow> u8 list \<Rightarrow> kv_entry" where
  "new_entry junk key value =
     (\<lparr>rec_magic = FLASH_MAGIC_NUMBER, rec_key = key, rec_size = word_of_nat (length value),
       rec_status = FLASH_VALID, rec_reserved = junk, rec_crc = flash_calculate_crc value\<rparr>, value)"

lemma new_entry_simps [simp]:
  "snd (new_entry junk key value) = value" "rec_key (fst (new_entry junk key value)) = key"
  "live (new_entry junk key value)"
  by (simp_all add: new_entry_def live_def)

lemma new_entry_ok:
  "value \<noteq> [] \<Longrightarrow> even (length value) \<Longrightarrow> length value \<le> 248 \<Longrightarrow> entry_ok (new_entry junk key value)"
  by (simp add: new_entry_def entry_ok_def unat_of_nat)

lemma kv_save_at:
  fixes s :: "'m flash_scheme"
  assumes cfg: "kv_cfg_ok cfg" and "flash_calm s" "kv_inv cfg (fl_mem s) l"
    and v: "value \<noteq> []" "even (length value)" "length value \<le> 248"
    and room: "length (log_bytes l) + 6 + length value \<le> kv_cap (PRIMARY_FLASH_SECTOR cfg)"
  obtains s' l' where "flash_save_at cfg junk key value
      (FLASH_PRIMARY_STORAGE_START cfg + word_of_nat (length (log_bytes l))) s = (HAL_OK, s')"
    "kv_result cfg s l' s'" "kv_map l' = (kv_map l)(key \<mapsto> value)"
    "length (log_bytes l') = length (log_bytes l) + 6 + length value"
proof -
  let ?a = "FLASH_PRIMARY_STORAGE_START cfg" and ?n = "kv_cap (PRIMARY_FLASH_SECTOR cfg)"
  let ?ptr = "?a + word_of_nat (length (log_bytes l))" and ?e = "new_entry junk key value"
  let ?r = "fst ?e"
  obtain s1 l1 where sup:
    "(case flash_find_first_valid_entry cfg key s of None \<Rightarrow> (HAL_OK, s)
      | Some last_rec \<Rightarrow> flash_write_data last_rec
          (ram_src (rec_bytes ((rec_at (fl_mem s) last_rec)\<lparr>rec_status := FLASH_DELETED\<rparr>))) 6 s) =
      (HAL_OK, s1)"
    "kv_result cfg s l1 s1" "kv_map l1 = (kv_map l)(key := None)"
    "length (log_bytes l1) = length (log_bytes l)"
  proof (cases rule: kv_find_cases [OF cfg assms(3), of key])
    case 1
    then show ?thesis
      using that [of s l] kv_result_refl [OF assms(2,3)] by (simp add: fun_upd_idem)
  next
    case (2 l1 e l2)
    show ?thesis
      by (rule kv_delete_found [OF cfg assms(2,3) 2(1,2,3)]) (use that 2(5) in simp)
  qed
  have calm: "flash_calm s1" using sup(2) by (rule kv_result_calm)
  have inv: "kv_inv cfg (fl_mem s1) l1" using sup(2) by (rule kv_result_inv)
  obtain s2 where w2: "flash_write_data ?ptr (ram_src (rec_bytes ?r)) 6 s1 = (HAL_OK, s2)"
    "flash_settled s1 (prog_bytes ?ptr (rec_bytes ?r) (fl_mem s1)) s2"
    by (rule flash_write_ram [OF calm, of "rec_bytes ?r" 6 ?ptr]) (simp_all add: rec_bytes_def)
  obtain s3 where w3: "flash_write_data (?ptr + 6) (ram_src value) (word_of_nat (length value)) s2 =
      (HAL_OK, s3)" "flash_settled s2 (prog_bytes (?ptr + 6) value (fl_mem s2)) s3"
    by (rule flash_write_ram [OF flash_settled_calm [OF w2(2)], of "value" "word_of_nat (length value)"
          "?ptr + 6"]) (use v in \<open>simp_all add: unat_of_nat\<close>)
  have "prog_bytes (?ptr + 6) value (fl_mem s2) = prog_bytes ?ptr (entry_bytes ?e) (fl_mem s1)"
    by (simp add: flash_settled_mem [OF w2(2)] entry_bytes_def prog_bytes_append)
  then have set: "flash_settled s1 (prog_bytes (?a + word_of_nat (length (log_bytes l1)))
      (entry_bytes ?e) (fl_mem s1)) s3"
    using flash_settled_trans [OF w2(2) w3(2)] sup(4) by simp
  have "sector_holds (prog_bytes (?a + word_of_nat (length (log_bytes l1))) (log_bytes [?e])
      (fl_mem s1)) ?a ?n (l1 @ [?e])"
    by (rule sector_holds_append)
      (use inv v room sup(4) kv_bounds(1) [OF cfg] new_entry_ok in \<open>auto simp: kv_inv_def\<close>)
  then have "sector_holds (fl_mem s3) ?a ?n (l1 @ [?e])"
    by (simp add: flash_settled_mem [OF set])
  moreover have "live_distinct (l1 @ [?e])"
    by (rule live_distinct_snoc) (use inv sup(3) in \<open>simp_all add: kv_inv_def\<close>)
  ultimately have res: "kv_result cfg s1 (l1 @ [?e]) s3"
    by (intro kv_result_prog [OF cfg inv set]) (use room sup(4) in simp_all)
  have map: "kv_map (l1 @ [?e]) = (kv_map l)(key \<mapsto> value)"
    using kv_map_snoc [of l1 ?e] sup(3) by simp
  show thesis
  proof (rule that [OF _ kv_result_trans [OF sup(2) res] map])
    show "flash_save_at cfg junk key value ?ptr s = (HAL_OK, s3)"
      unfolding flash_save_at_def sup(1)
      using w2(1) w3(1) by (simp add: Let_def new_entry_def)
  qed (use sup(4) in simp)
qed

lemma kv_next_free:
  assumes "kv_cfg_ok cfg" "kv_inv cfg (fl_mem s) l"
  shows "flash_find_next_free cfg s =
    (if length (log_bytes l) = kv_cap (PRIMARY_FLASH_SECTOR cfg) then None
     else Some (FLASH_PRIMARY_STORAGE_START cfg + word_of_nat (length (log_bytes l))))"
proof -
  let ?k = "length (log_bytes l)"
  have h: "sector_holds (fl_mem s) (FLASH_PRIMARY_STORAGE_START cfg)
      (kv_cap (PRIMARY_FLASH_SECTOR cfg)) l" using assms(2) by (simp add: kv_inv_def)
  then have k: "?k \<le> kv_cap (PRIMARY_FLASH_SECTOR cfg)" by (simp add: sector_holds_def)
  note b = kv_bounds [OF assms(1)]
  have "unat (FLASH_PRIMARY_STORAGE_START cfg + word_of_nat ?k) =
      unat (FLASH_PRIMARY_STORAGE_START cfg) + ?k"
    using b(1) k by (intro unat_add_off) simp
  then show ?thesis
    using k b(3) kv_scan_free_log [OF h b(3)]
    by (auto simp: flash_find_next_free_def Let_def word_le_nat_alt)
qed

section \<open>Compaction\<close>

lemma rec_total_size_ok:
  assumes "entry_ok e"
  shows "unat (rec_total_size (fst e)) = length (entry_bytes e)"
    "ucast (rec_total_size (fst e)) = (word_of_nat (length (entry_bytes e)) :: u32)"
proof -
  show t: "unat (rec_total_size (fst e)) = length (entry_bytes e)"
    using assms by (simp add: rec_total_size_def entry_ok_def unat_word_ariths)
  have "length (entry_bytes e) < 4294967296" using assms by (simp add: entry_ok_def)
  with t show "ucast (rec_total_size (fst e)) = (word_of_nat (length (entry_bytes e)) :: u32)"
    by (simp add: word_unat_eq_iff unat_of_nat del: length_entry_bytes)
qed

lemma prog_bytes_outside:
  assumes "unat a + length bs < 4294967296" "unat x < unat a \<or> unat a + length bs \<le> unat x"
  shows "prog_bytes a bs m x = m x"
proof -
  have "\<not> unat (x - a) < length bs"
  proof
    assume l: "unat (x - a) < length bs"
    then have "unat x = unat a + unat (x - a)" using assms(1) by (intro u32_offset [OF l]) linarith
    then show False using assms(2) l by linarith
  qed
  then show ?thesis using assms(1) by (simp add: prog_bytes_at)
qed

text \<open>Copying one entry between two sectors that do not overlap.\<close>

lemma flash_copy_entry:
  fixes s :: "'m flash_scheme"
  assumes "flash_calm s" and e: "entry_ok e" "mem_range (fl_mem s) from (length (entry_bytes e)) = entry_bytes e"
    and b: "unat from + length (entry_bytes e) < 4294967296" "unat to + length (entry_bytes e) < 4294967296"
    and ap: "unat from + length (entry_bytes e) \<le> unat to \<or> unat to + length (entry_bytes e) \<le> unat from"
  obtains s' where "flash_write_data to (flash_src from) (rec_total_size (fst e)) s = (HAL_OK, s')"
    "flash_settled s (prog_bytes to (entry_bytes e) (fl_mem s)) s'"
proof (rule flash_write_data_settled [OF assms(1), of "entry_bytes e" "rec_total_size (fst e)" to
      "flash_src from"])
  fix s' k i
  assume k: "k \<le> length (entry_bytes e)" "fl_mem s' = prog_bytes to (take k (entry_bytes e)) (fl_mem s)"
    and i: "i < length (entry_bytes e)"
  have "unat (from + word_of_nat i) = unat from + i" using b i by (intro unat_add_off) simp
  then have "fl_mem s' (from + word_of_nat i) = fl_mem s (from + word_of_nat i)"
    unfolding k(2) using k(1) b ap i by (intro prog_bytes_outside) auto
  then show "flash_src from s' i = entry_bytes e ! i"
    using arg_cong [OF e(2), of "\<lambda>xs. xs ! i"] i by (simp add: flash_src_def)
next
  show "even (length (entry_bytes e))" using e(1) by (simp add: entry_ok_def)
  show "unat (rec_total_size (fst e)) = length (entry_bytes e)" by (rule rec_total_size_ok(1) [OF e(1)])
qed (use that in \<open>auto simp: entry_bytes_def rec_bytes_def\<close>)

lemma sector_holds_cong:
  assumes "sector_holds m a n l" "\<And>i. i < n \<Longrightarrow> m' (a + word_of_nat i) = m (a + word_of_nat i)"
  shows "sector_holds m' a n l"
  using assms mem_range_eq_iff [of m' a n m] by (simp add: sector_holds_def)

lemma sector_holds_prefix:
  assumes "sector_holds m a n (e # l)"
  shows "mem_range m a (length (entry_bytes e)) = entry_bytes e"
  using assms mem_range_split(1) [of m a n "entry_bytes e"] by (simp add: sector_holds_def)

lemma flash_shift_p2s_log:
  fixes s :: "'m flash_scheme"
  assumes cfg: "kv_cfg_ok cfg"
  shows "\<lbrakk>flash_calm s; sector_holds (fl_mem s) pp n l;
     unat (FLASH_PRIMARY_STORAGE_START cfg) \<le> unat pp;
     unat pp + n = unat (FLASH_PRIMARY_STORAGE_END cfg);
     sector_holds (fl_mem s) (FLASH_SECONDARY_STORAGE_START cfg) (kv_cap (SECONDARY_FLASH_SECTOR cfg)) l0;
     ps = FLASH_SECONDARY_STORAGE_START cfg + word_of_nat (length (log_bytes l0));
     length (log_bytes (l0 @ List.filter live l)) \<le> kv_cap (SECONDARY_FLASH_SECTOR cfg)\<rbrakk> \<Longrightarrow>
   \<exists>s'. flash_shift_p2s cfg pp ps s = Some (HAL_OK, s') \<and> flash_settled s (fl_mem s') s' \<and>
     sector_holds (fl_mem s') (FLASH_SECONDARY_STORAGE_START cfg) (kv_cap (SECONDARY_FLASH_SECTOR cfg))
       (l0 @ List.filter live l) \<and>
     (\<forall>x. unat x < unat (FLASH_SECONDARY_STORAGE_START cfg) \<or>
        unat (FLASH_SECONDARY_STORAGE_END cfg) \<le> unat x \<longrightarrow> fl_mem s' x = fl_mem s x)"
proof (induction l arbitrary: pp n ps l0 s)
  case Nil
  have "\<not> (fl_mem s pp = FLASH_MAGIC_NUMBER \<and> pp < FLASH_PRIMARY_STORAGE_END cfg)"
  proof (cases "n = 0")
    case False
    then have "fl_mem s pp = 0xFF" using sector_holds_Nil [OF Nil.prems(2)] by simp
    then show ?thesis by (simp add: FLASH_MAGIC_NUMBER_def)
  qed (use Nil.prems in \<open>simp add: word_less_nat_alt\<close>)
  then have "flash_shift_p2s cfg pp ps s = Some (HAL_OK, s)"
    by (subst flash_shift_p2s.simps) (auto simp: rec_at_def Let_def)
  then show ?case using Nil.prems by (auto intro: flash_settled_refl)
next
  case (Cons e l)
  let ?S = "FLASH_SECONDARY_STORAGE_START cfg" and ?N = "kv_cap (SECONDARY_FLASH_SECTOR cfg)"
  let ?k = "length (entry_bytes e)"
  note h = sector_holds_Cons [OF Cons.prems(2)] and b = kv_bounds [OF cfg]
  note tot = rec_total_size_ok [OF h(1)]
  have on: "rec_magic (rec_at (fl_mem s) pp) = FLASH_MAGIC_NUMBER \<and> pp < FLASH_PRIMARY_STORAGE_END cfg"
    using h(1,2,4) Cons.prems(4) by (simp add: entry_ok_def word_less_nat_alt)
  have pp': "unat (pp + word_of_nat ?k) = unat pp + ?k"
    using Cons.prems(4) h(4) b by (intro unat_add_off) simp
  have rest: "sector_holds (fl_mem s) (pp + word_of_nat ?k) (n - ?k) l" using h(5) by simp
  show ?case
  proof (cases "live e")
    case False
    then have "flash_shift_p2s cfg pp ps s = flash_shift_p2s cfg (pp + word_of_nat ?k) ps s"
      using on by (subst flash_shift_p2s.simps) (simp add: Let_def h(2) tot(2) live_def del: length_entry_bytes)
    moreover have "\<exists>s'. flash_shift_p2s cfg (pp + word_of_nat ?k) ps s = Some (HAL_OK, s') \<and>
        flash_settled s (fl_mem s') s' \<and> sector_holds (fl_mem s') ?S ?N (l0 @ List.filter live l) \<and>
        (\<forall>x. unat x < unat ?S \<or> unat (FLASH_SECONDARY_STORAGE_END cfg) \<le> unat x \<longrightarrow>
          fl_mem s' x = fl_mem s x)"
      by (rule Cons.IH [OF Cons.prems(1) rest _ _ Cons.prems(5,6)])
        (use False Cons.prems(3,4,7) pp' h(4) in simp_all)
    ultimately show ?thesis using False by simp
  next
    case True
    have ps: "unat ps = unat ?S + length (log_bytes l0)"
      using Cons.prems(6,7) b by (simp only:) (intro unat_add_off, simp)
    have fits: "length (log_bytes l0) + ?k + length (log_bytes (List.filter live l)) \<le> ?N"
      using Cons.prems(7) True by simp
    have kn: "?k \<le> n" using h(4) by simp
    obtain s1 where w: "flash_write_data ps (flash_src pp) (rec_total_size (fst e)) s = (HAL_OK, s1)"
      "flash_settled s (prog_bytes ps (entry_bytes e) (fl_mem s)) s1"
    proof (rule flash_copy_entry [OF Cons.prems(1) h(1) sector_holds_prefix [OF Cons.prems(2)], of ps])
      show "unat pp + ?k \<le> unat ps \<or> unat ps + ?k \<le> unat pp"
        using kv_sectors_apart [OF cfg] b ps Cons.prems(3,4) fits kn by linarith
    qed (use b ps Cons.prems(4) fits kn in linarith)+
    note m1 = flash_settled_mem [OF w(2)]
    have out: "fl_mem s1 x = fl_mem s x"
      if "unat x < unat ?S \<or> unat (FLASH_SECONDARY_STORAGE_END cfg) \<le> unat x" for x
      unfolding m1 using that b ps fits by (intro prog_bytes_outside) linarith+
    have rest1: "sector_holds (fl_mem s1) (pp + word_of_nat ?k) (n - ?k) l"
    proof (rule sector_holds_cong [OF rest], rule out)
      fix i assume i: "i < n - ?k"
      have "unat (pp + word_of_nat ?k + word_of_nat i) = unat pp + ?k + i"
        using pp' Cons.prems(4) i b by (subst unat_add_off) simp_all
      then show "unat (pp + word_of_nat ?k + word_of_nat i) < unat ?S \<or>
          unat (FLASH_SECONDARY_STORAGE_END cfg) \<le> unat (pp + word_of_nat ?k + word_of_nat i)"
        using kv_sectors_apart [OF cfg] b Cons.prems(3,4) i by linarith
    qed
    have sec1: "sector_holds (fl_mem s1) ?S ?N (l0 @ [e])"
      unfolding m1 Cons.prems(6)
      using sector_holds_append [OF Cons.prems(5), of "[e]"] h(1) fits b(2) by simp
    have "\<exists>s'. flash_shift_p2s cfg (pp + word_of_nat ?k) (ps + word_of_nat ?k) s1 = Some (HAL_OK, s') \<and>
        flash_settled s1 (fl_mem s') s' \<and> sector_holds (fl_mem s') ?S ?N ((l0 @ [e]) @ List.filter live l) \<and>
        (\<forall>x. unat x < unat ?S \<or> unat (FLASH_SECONDARY_STORAGE_END cfg) \<le> unat x \<longrightarrow>
          fl_mem s' x = fl_mem s1 x)"
      by (rule Cons.IH [OF flash_settled_calm [OF w(2)] rest1 _ _ sec1])
        (use Cons.prems(3,4,6) pp' kn fits in simp_all)
    moreover have "flash_shift_p2s cfg pp ps s =
        flash_shift_p2s cfg (pp + word_of_nat ?k) (ps + word_of_nat ?k) s1"
      using on True w(1)
      by (subst flash_shift_p2s.simps) (simp add: Let_def h(2) tot(2) live_def del: length_entry_bytes)
    ultimately show ?thesis
      using True flash_settled_trans [OF w(2)] out by auto
  qed
qed

lemma flash_shift_s2p_log:
  fixes s :: "'m flash_scheme"
  assumes cfg: "kv_cfg_ok cfg"
  shows "\<lbrakk>flash_calm s; sector_holds (fl_mem s) ps n l;
     unat (FLASH_SECONDARY_STORAGE_START cfg) \<le> unat ps;
     unat ps + n = unat (FLASH_SECONDARY_STORAGE_END cfg);
     sector_holds (fl_mem s) (FLASH_PRIMARY_STORAGE_START cfg) (kv_cap (PRIMARY_FLASH_SECTOR cfg)) l0;
     pp = FLASH_PRIMARY_STORAGE_START cfg + word_of_nat (length (log_bytes l0));
     length (log_bytes (l0 @ l)) \<le> kv_cap (PRIMARY_FLASH_SECTOR cfg)\<rbrakk> \<Longrightarrow>
   \<exists>s'. flash_shift_s2p cfg pp ps s = Some (HAL_OK, s') \<and> flash_settled s (fl_mem s') s' \<and>
     sector_holds (fl_mem s') (FLASH_PRIMARY_STORAGE_START cfg) (kv_cap (PRIMARY_FLASH_SECTOR cfg))
       (l0 @ l) \<and>
     (\<forall>x. unat x < unat (FLASH_PRIMARY_STORAGE_START cfg) \<or>
        unat (FLASH_PRIMARY_STORAGE_END cfg) \<le> unat x \<longrightarrow> fl_mem s' x = fl_mem s x)"
proof (induction l arbitrary: ps n pp l0 s)
  case Nil
  have "\<not> (fl_mem s ps = FLASH_MAGIC_NUMBER \<and> ps < FLASH_SECONDARY_STORAGE_END cfg)"
  proof (cases "n = 0")
    case False
    then have "fl_mem s ps = 0xFF" using sector_holds_Nil [OF Nil.prems(2)] by simp
    then show ?thesis by (simp add: FLASH_MAGIC_NUMBER_def)
  qed (use Nil.prems in \<open>simp add: word_less_nat_alt\<close>)
  then have "flash_shift_s2p cfg pp ps s = Some (HAL_OK, s)"
    by (subst flash_shift_s2p.simps) (auto simp: rec_at_def Let_def)
  then show ?case using Nil.prems by (auto intro: flash_settled_refl)
next
  case (Cons e l)
  let ?P = "FLASH_PRIMARY_STORAGE_START cfg" and ?N = "kv_cap (PRIMARY_FLASH_SECTOR cfg)"
  let ?k = "length (entry_bytes e)"
  note h = sector_holds_Cons [OF Cons.prems(2)] and b = kv_bounds [OF cfg]
  note tot = rec_total_size_ok [OF h(1)]
  have on: "rec_magic (rec_at (fl_mem s) ps) = FLASH_MAGIC_NUMBER \<and> ps < FLASH_SECONDARY_STORAGE_END cfg"
    using h(1,2,4) Cons.prems(4) by (simp add: entry_ok_def word_less_nat_alt)
  have ps': "unat (ps + word_of_nat ?k) = unat ps + ?k"
    using Cons.prems(4) h(4) b by (intro unat_add_off) simp
  have rest: "sector_holds (fl_mem s) (ps + word_of_nat ?k) (n - ?k) l" using h(5) by simp
  have fits: "length (log_bytes l0) + ?k + length (log_bytes l) \<le> ?N"
    using Cons.prems(7) by simp
  have pp: "unat pp = unat ?P + length (log_bytes l0)"
    using Cons.prems(6) fits b by (simp only:) (intro unat_add_off, simp)
  have kn: "?k \<le> n" using h(4) by simp
  obtain s1 where w: "flash_write_data pp (flash_src ps) (rec_total_size (fst e)) s = (HAL_OK, s1)"
    "flash_settled s (prog_bytes pp (entry_bytes e) (fl_mem s)) s1"
  proof (rule flash_copy_entry [OF Cons.prems(1) h(1) sector_holds_prefix [OF Cons.prems(2)], of pp])
    show "unat ps + ?k \<le> unat pp \<or> unat pp + ?k \<le> unat ps"
      using kv_sectors_apart [OF cfg] b pp Cons.prems(3,4) fits kn by linarith
  qed (use b pp Cons.prems(4) fits kn in linarith)+
  note m1 = flash_settled_mem [OF w(2)]
  have out: "fl_mem s1 x = fl_mem s x"
    if "unat x < unat ?P \<or> unat (FLASH_PRIMARY_STORAGE_END cfg) \<le> unat x" for x
    unfolding m1 using that b pp fits by (intro prog_bytes_outside) linarith+
  have rest1: "sector_holds (fl_mem s1) (ps + word_of_nat ?k) (n - ?k) l"
  proof (rule sector_holds_cong [OF rest], rule out)
    fix i assume i: "i < n - ?k"
    have "unat (ps + word_of_nat ?k + word_of_nat i) = unat ps + ?k + i"
      using ps' Cons.prems(4) i b by (subst unat_add_off) simp_all
    then show "unat (ps + word_of_nat ?k + word_of_nat i) < unat ?P \<or>
        unat (FLASH_PRIMARY_STORAGE_END cfg) \<le> unat (ps + word_of_nat ?k + word_of_nat i)"
      using kv_sectors_apart [OF cfg] b Cons.prems(3,4) i by linarith
  qed
  have pri1: "sector_holds (fl_mem s1) ?P ?N (l0 @ [e])"
    unfolding m1 Cons.prems(6)
    using sector_holds_append [OF Cons.prems(5), of "[e]"] h(1) fits b(1) by simp
  have "\<exists>s'. flash_shift_s2p cfg (pp + word_of_nat ?k) (ps + word_of_nat ?k) s1 = Some (HAL_OK, s') \<and>
      flash_settled s1 (fl_mem s') s' \<and> sector_holds (fl_mem s') ?P ?N ((l0 @ [e]) @ l) \<and>
      (\<forall>x. unat x < unat ?P \<or> unat (FLASH_PRIMARY_STORAGE_END cfg) \<le> unat x \<longrightarrow>
        fl_mem s' x = fl_mem s1 x)"
    by (rule Cons.IH [OF flash_settled_calm [OF w(2)] rest1 _ _ pri1])
      (use Cons.prems(3,4,6) ps' kn fits in simp_all)
  moreover have "flash_shift_s2p cfg pp ps s =
      flash_shift_s2p cfg (pp + word_of_nat ?k) (ps + word_of_nat ?k) s1"
    using on w(1)
    by (subst flash_shift_s2p.simps) (simp add: Let_def h(2) tot(2) del: length_entry_bytes)
  ultimately show ?case
    using flash_settled_trans [OF w(2)] out by auto
qed

lemma sector_holds_erased:
  assumes "n < 8"
  shows "sector_holds (erased_sector n m) (SECTOR_ADDR n) (kv_cap n) []"
proof -
  note g = kv_geometry [OF assms]
  have "in_sector n (SECTOR_ADDR n + word_of_nat i)" if "i < kv_cap n" for i
  proof -
    have "unat (SECTOR_ADDR n + word_of_nat i) = unat (SECTOR_ADDR n) + i"
      using g(4) that by (intro unat_add_off) simp
    then show ?thesis using g(1-3) that by (simp add: in_sector_nat)
  qed
  then have "mem_range (erased_sector n m) (SECTOR_ADDR n) (kv_cap n) = replicate (kv_cap n) 0xFF"
    by (intro nth_equalityI) (simp_all add: erased_sector_def)
  then show ?thesis by (simp add: sector_holds_def)
qed

lemma sector_holds_erase_other:
  assumes "sector_holds m (SECTOR_ADDR k) (kv_cap k) l" "n < 8" "k < 8" "n \<noteq> k"
  shows "sector_holds (erased_sector n m) (SECTOR_ADDR k) (kv_cap k) l"
proof (rule sector_holds_cong [OF assms(1)])
  fix i assume i: "i < kv_cap k"
  note g = kv_geometry [OF assms(3)]
  have "unat (SECTOR_ADDR k + word_of_nat i) = unat (SECTOR_ADDR k) + i"
    using g(4) i by (intro unat_add_off) simp
  then have "in_sector k (SECTOR_ADDR k + word_of_nat i)" using g(1-3) i by (simp add: in_sector_nat)
  then have "\<not> in_sector n (SECTOR_ADDR k + word_of_nat i)" using in_sector_disjoint assms(2-4) by blast
  then show "erased_sector n m (SECTOR_ADDR k + word_of_nat i) = m (SECTOR_ADDR k + word_of_nat i)"
    by (simp add: erased_sector_def)
qed

lemma kv_map_live:
  "kv_map (List.filter live l) = kv_map l" "live_distinct (List.filter live l) = live_distinct l"
  by (induction l) (auto simp: fun_eq_iff live_distinct_def)

lemma flash_compact_log:
  fixes s :: "'m flash_scheme"
  assumes cfg: "kv_cfg_ok cfg" and "flash_calm s" "kv_inv cfg (fl_mem s) l"
    and room: "length (log_bytes (List.filter live l)) \<le> kv_cap (SECONDARY_FLASH_SECTOR cfg)"
  obtains s' where "flash_compact_storage cfg s = Some (HAL_OK, s')"
    "kv_result cfg s (List.filter live l) s'"
proof -
  let ?p = "PRIMARY_FLASH_SECTOR cfg" and ?s = "SECONDARY_FLASH_SECTOR cfg" and ?l = "List.filter live l"
  let ?P = "FLASH_PRIMARY_STORAGE_START cfg" and ?S = "FLASH_SECONDARY_STORAGE_START cfg"
  note b = kv_bounds [OF cfg]
  have ps: "?p < 8" "?s < 8" "?p \<noteq> ?s" using cfg by (simp_all add: kv_cfg_ok_def)
  have inv: "sector_holds (fl_mem s) ?P (kv_cap ?p) l" "sector_holds (fl_mem s) ?S (kv_cap ?s) []"
    "live_distinct l" using assms(3) by (simp_all add: kv_inv_def)
  obtain s1 where s1: "flash_shift_p2s cfg ?P ?S s = Some (HAL_OK, s1)" "flash_settled s (fl_mem s1) s1"
    "sector_holds (fl_mem s1) ?S (kv_cap ?s) ?l"
    "\<And>x. unat x < unat ?S \<or> unat (FLASH_SECONDARY_STORAGE_END cfg) \<le> unat x \<Longrightarrow> fl_mem s1 x = fl_mem s x"
    using flash_shift_p2s_log [OF cfg assms(2) inv(1) order_refl b(3) inv(2), of ?S] room by auto
  obtain s2 where s2: "s2 = flash_erase_sector ?p s1" by blast
  have set2: "flash_settled s1 (erased_sector ?p (fl_mem s1)) s2"
    unfolding s2 by (rule flash_erase_sector_settled [OF flash_settled_calm [OF s1(2)] ps(1)])
  note m2 = flash_settled_mem [OF set2]
  have h2: "sector_holds (fl_mem s2) ?P (kv_cap ?p) []" "sector_holds (fl_mem s2) ?S (kv_cap ?s) ?l"
    unfolding m2 FLASH_PRIMARY_STORAGE_START_def FLASH_SECONDARY_STORAGE_START_def
    using sector_holds_erased [OF ps(1)] sector_holds_erase_other [OF _ ps] s1(3)
    by (simp_all add: FLASH_SECONDARY_STORAGE_START_def)
  have len: "length (log_bytes ?l) \<le> length (log_bytes l)"
    by (induction l) auto
  also have "\<dots> \<le> kv_cap ?p" using inv(1) by (simp add: sector_holds_def)
  finally have room': "length (log_bytes ([] @ ?l)) \<le> kv_cap ?p" by simp
  obtain s3 where s3: "flash_shift_s2p cfg ?P ?S s2 = Some (HAL_OK, s3)" "flash_settled s2 (fl_mem s3) s3"
    "sector_holds (fl_mem s3) ?P (kv_cap ?p) ?l"
    "\<And>x. unat x < unat ?P \<or> unat (FLASH_PRIMARY_STORAGE_END cfg) \<le> unat x \<Longrightarrow> fl_mem s3 x = fl_mem s2 x"
    using flash_shift_s2p_log [OF cfg flash_settled_calm [OF set2] h2(2) order_refl b(4) h2(1), of ?P]
      room' by auto
  obtain s4 where s4: "s4 = flash_erase_sector ?s s3" by blast
  have set4: "flash_settled s3 (erased_sector ?s (fl_mem s3)) s4"
    unfolding s4 by (rule flash_erase_sector_settled [OF flash_settled_calm [OF s3(2)] ps(2)])
  note m4 = flash_settled_mem [OF set4]
  have h4: "sector_holds (fl_mem s4) ?S (kv_cap ?s) []" "sector_holds (fl_mem s4) ?P (kv_cap ?p) ?l"
    unfolding m4 FLASH_PRIMARY_STORAGE_START_def FLASH_SECONDARY_STORAGE_START_def
    using sector_holds_erased [OF ps(2)] sector_holds_erase_other [OF _ ps(2,1)] s3(3) ps(3)
    by (simp_all add: FLASH_PRIMARY_STORAGE_START_def)
  have "flash_settled s (erased_sector ?s (fl_mem s3)) s4"
    by (rule flash_settled_trans [OF s1(2) flash_settled_trans [OF set2
          flash_settled_trans [OF s3(2) set4]]])
  then have set: "flash_settled s (fl_mem s4) s4" using m4 by simp
  have frame: "fl_mem s4 x = fl_mem s x" if x: "\<not> in_sector ?p x" "\<not> in_sector ?s x" for x
  proof -
    have "unat x < unat ?P \<or> unat (FLASH_PRIMARY_STORAGE_END cfg) \<le> unat x"
      "unat x < unat ?S \<or> unat (FLASH_SECONDARY_STORAGE_END cfg) \<le> unat x"
      using x kv_geometry(1,2) [OF ps(1)] kv_geometry(1,2) [OF ps(2)]
      by (auto simp: in_sector_nat FLASH_PRIMARY_STORAGE_START_def FLASH_PRIMARY_STORAGE_END_def
          FLASH_SECONDARY_STORAGE_START_def FLASH_SECONDARY_STORAGE_END_def)
    then show ?thesis using s1(4) s3(4) x by (simp add: m4 m2 erased_sector_def)
  qed
  have inv': "kv_inv cfg (fl_mem s4) ?l" using h4 inv(3) by (simp add: kv_inv_def kv_map_live)
  show thesis
    by (rule that [of s4])
      (use set inv' frame s1(1) s3(1) in
        \<open>simp_all add: flash_compact_storage_def s2 [symmetric] s4 [symmetric] kv_result_def\<close>)
qed

section \<open>The public operations on the log\<close>

lemma hal_flash_save_room:
  fixes s :: "'m flash_scheme"
  assumes "kv_cfg_ok cfg" "flash_calm s" "kv_inv cfg (fl_mem s) l"
    and "value \<noteq> []" "even (length value)" "length value \<le> 248"
    and "length (log_bytes l) + 6 + length value \<le> kv_cap (PRIMARY_FLASH_SECTOR cfg)"
  obtains s' l' where "hal_flash_save cfg junk key (Some value) s = Some (HAL_OK, s')"
    "kv_result cfg s l' s'" "kv_map l' = (kv_map l)(key \<mapsto> value)"
    "length (log_bytes l') = length (log_bytes l) + 6 + length value"
proof (rule kv_save_at [OF assms, of junk key])
  fix s' l'
  assume r: "flash_save_at cfg junk key value
      (FLASH_PRIMARY_STORAGE_START cfg + word_of_nat (length (log_bytes l))) s = (HAL_OK, s')"
    "kv_result cfg s l' s'" "kv_map l' = (kv_map l)(key \<mapsto> value)"
    "length (log_bytes l') = length (log_bytes l) + 6 + length value"
  have "flash_find_next_free cfg s =
      Some (FLASH_PRIMARY_STORAGE_START cfg + word_of_nat (length (log_bytes l)))"
    using kv_next_free [OF assms(1,3)] assms(7) by simp
  then show thesis
    using that [OF _ r(2-4)] r(1) assms(4) by (simp add: hal_flash_save_def stm32_flash_save_def)
qed

lemma hal_flash_read_log:
  fixes s :: "'m flash_scheme"
  assumes "kv_cfg_ok cfg" "kv_inv cfg (fl_mem s) l"
  shows "hal_flash_read cfg key True True s =
    (case kv_map l key of None \<Rightarrow> (HAL_ERR, []) | Some v \<Rightarrow> (HAL_OK, v))"
proof (cases rule: kv_find_cases [OF assms, of key])
  case 1
  then show ?thesis by (simp add: hal_flash_read_def stm32_flash_read_def)
next
  case (2 l1 e l2)
  let ?a = "FLASH_PRIMARY_STORAGE_START cfg" and ?n = "kv_cap (PRIMARY_FLASH_SECTOR cfg)"
  let ?ptr = "?a + word_of_nat (length (log_bytes l1))"
  have h: "sector_holds (fl_mem s) ?a ?n (l1 @ e # l2)"
    using assms(2) 2(1) by (simp add: kv_inv_def)
  then have ok: "entry_ok e" by (simp add: sector_holds_def)
  have "mem_range (fl_mem s) ?a ?n = log_bytes l1 @ rec_bytes (fst e) @ snd e @ log_bytes l2 @
      replicate (?n - length (log_bytes (l1 @ e # l2))) 0xFF"
    using h by (simp add: sector_holds_def entry_bytes_def)
  note m1 = mem_range_split(2) [OF this]
  have r: "rec_at (fl_mem s) ?ptr = fst e" by (rule rec_at_bytes [OF m1])
  have "mem_range (fl_mem s) (?ptr + 6) (length (snd e)) = snd e"
    using mem_range_split(1) [OF mem_range_split(2) [OF m1]] by simp
  then show ?thesis
    using 2(4,5) r ok by (simp add: hal_flash_read_def stm32_flash_read_def Let_def entry_ok_def)
qed

lemma hal_flash_delete_log:
  fixes s :: "'m flash_scheme"
  assumes "kv_cfg_ok cfg" "flash_calm s" "kv_inv cfg (fl_mem s) l" "kv_map l key \<noteq> None"
  obtains s' l' where "hal_flash_delete cfg key s = (HAL_OK, s')"
    "kv_result cfg s l' s'" "kv_map l' = (kv_map l)(key := None)"
    "length (log_bytes l') = length (log_bytes l)"
proof (cases rule: kv_find_cases [OF assms(1,3), of key])
  case (2 l1 e l2)
  show thesis
    by (rule kv_delete_found [OF assms(1-3) 2(1-3)])
      (use that 2(5) in \<open>simp add: hal_flash_delete_def stm32_flash_delete_def\<close>)
qed (use assms(4) in simp)

lemma hal_flash_save_full:
  fixes s :: "'m flash_scheme"
  assumes "kv_cfg_ok cfg" "flash_calm s" "kv_inv cfg (fl_mem s) l"
    and "value \<noteq> []" "even (length value)" "length value \<le> 248"
    and full: "length (log_bytes l) = kv_cap (PRIMARY_FLASH_SECTOR cfg)"
    and room: "length (log_bytes (List.filter live l)) \<le> kv_cap (SECONDARY_FLASH_SECTOR cfg)"
      "length (log_bytes (List.filter live l)) + 6 + length value \<le> kv_cap (PRIMARY_FLASH_SECTOR cfg)"
  obtains s' l' where "hal_flash_save cfg junk key (Some value) s = Some (HAL_OK, s')"
    "kv_result cfg s l' s'" "kv_map l' = (kv_map l)(key \<mapsto> value)"
    "length (log_bytes l') = length (log_bytes (List.filter live l)) + 6 + length value"
proof (rule flash_compact_log [OF assms(1-3) room(1)])
  fix s1
  assume c: "flash_compact_storage cfg s = Some (HAL_OK, s1)"
    "kv_result cfg s (List.filter live l) s1"
  note inv = kv_result_inv [OF c(2)]
  show thesis
  proof (rule kv_save_at [OF assms(1) kv_result_calm [OF c(2)] inv assms(4-6) room(2), of junk key])
    fix s' l'
    assume r: "flash_save_at cfg junk key value (FLASH_PRIMARY_STORAGE_START cfg +
        word_of_nat (length (log_bytes (List.filter live l)))) s1 = (HAL_OK, s')"
      "kv_result cfg s1 l' s'" "kv_map l' = (kv_map (List.filter live l))(key \<mapsto> value)"
      "length (log_bytes l') = length (log_bytes (List.filter live l)) + 6 + length value"
    have "flash_find_next_free cfg s = None" using kv_next_free [OF assms(1,3)] full by simp
    moreover have "flash_find_next_free cfg s1 = Some (FLASH_PRIMARY_STORAGE_START cfg +
        word_of_nat (length (log_bytes (List.filter live l))))"
      using kv_next_free [OF assms(1) inv] room(2) by simp
    ultimately have "hal_flash_save cfg junk key (Some value) s = Some (HAL_OK, s')"
      using c(1) r(1) assms(4) by (simp add: hal_flash_save_def stm32_flash_save_def)
    then show thesis
      using that kv_result_trans [OF c(2) r(2)] r(3,4) by (simp add: kv_map_live)
  qed
qed

section \<open>The store as an interface\<close>

text \<open>
  What a client of the store relies on: a saved value is what a read of its key returns until the
  key is saved again or deleted, other keys are untouched, and a save fits while there is room.
\<close>

locale kv_store =
  fixes ok :: "'s \<Rightarrow> bool"
    and room :: "'s \<Rightarrow> nat"
    and save :: "u8 \<Rightarrow> u8 list \<Rightarrow> 's \<Rightarrow> (hal_status \<times> 's) option"
    and read :: "u8 \<Rightarrow> 's \<Rightarrow> hal_status \<times> u8 list"
    and del :: "u8 \<Rightarrow> 's \<Rightarrow> hal_status \<times> 's"
  assumes save_law: "\<lbrakk>ok s; v \<noteq> []; even (length v); length v \<le> 248; 6 + length v \<le> room s\<rbrakk> \<Longrightarrow>
      \<exists>s'. save k v s = Some (HAL_OK, s') \<and> ok s' \<and> room s' = room s - (6 + length v) \<and>
        read k s' = (HAL_OK, v) \<and> (\<forall>k'. k' \<noteq> k \<longrightarrow> read k' s' = read k' s)"
    and del_law: "\<lbrakk>ok s; fst (read k s) = HAL_OK\<rbrakk> \<Longrightarrow>
      \<exists>s'. del k s = (HAL_OK, s') \<and> ok s' \<and> room s' = room s \<and>
        fst (read k s') = HAL_ERR \<and> (\<forall>k'. k' \<noteq> k \<longrightarrow> read k' s' = read k' s)"
begin

text \<open>A sequence of saves, stopping at the first that does not return \<open>HAL_OK\<close>.\<close>

fun saves :: "(u8 \<times> u8 list) list \<Rightarrow> 's \<Rightarrow> 's option" where
  "saves [] s = Some s"
| "saves ((k, v) # kvs) s =
     (case save k v s of Some (st, s') \<Rightarrow> if st = HAL_OK then saves kvs s' else None | None \<Rightarrow> None)"

lemma saves_last_write_wins:
  assumes "ok s" "list_all (\<lambda>(k, v). v \<noteq> [] \<and> even (length v) \<and> length v \<le> 248) kvs"
    and "sum_list (map (\<lambda>(k, v). 6 + length v) kvs) \<le> room s"
  shows "\<exists>s'. saves kvs s = Some s' \<and> ok s' \<and>
    (\<forall>k. read k s' = (case map_of (rev kvs) k of None \<Rightarrow> read k s | Some v \<Rightarrow> (HAL_OK, v)))"
  using assms
proof (induction kvs arbitrary: s)
  case (Cons kv kvs)
  obtain k v where kv: "kv = (k, v)" by (cases kv)
  obtain s1 where s1: "save k v s = Some (HAL_OK, s1)" "ok s1" "room s1 = room s - (6 + length v)"
    "read k s1 = (HAL_OK, v)" "\<And>k'. k' \<noteq> k \<Longrightarrow> read k' s1 = read k' s"
    using save_law [of s v k] Cons.prems by (auto simp: kv)
  have "sum_list (map (\<lambda>(k, v). 6 + length v) kvs) \<le> room s1"
    unfolding s1(3) using Cons.prems(3) by (intro le_diff_conv2 [THEN iffD2]) (simp_all add: kv)
  then obtain s' where s': "saves kvs s1 = Some s'" "ok s'"
    "\<And>k. read k s' = (case map_of (rev kvs) k of None \<Rightarrow> read k s1 | Some v \<Rightarrow> (HAL_OK, v))"
    using Cons.IH [OF s1(2)] Cons.prems(2) by (auto simp: kv)
  have "read k' s' = (case map_of (rev (kv # kvs)) k' of None \<Rightarrow> read k' s | Some v \<Rightarrow> (HAL_OK, v))"
    for k'
    using s'(3) [of k'] s1(4,5) by (cases "k' = k") (auto simp: kv map_add_def split: option.splits)
  then show ?case using s1(1) s'(1,2) by (intro exI [of _ s']) (simp add: kv)
qed simp

end

definition kv_ok :: "kv_build \<Rightarrow> 'm flash_scheme \<Rightarrow> bool" where
  "kv_ok cfg s \<longleftrightarrow> kv_cfg_ok cfg \<and> flash_calm s \<and> (\<exists>l. kv_inv cfg (fl_mem s) l)"

definition kv_room :: "kv_build \<Rightarrow> 'm flash_scheme \<Rightarrow> nat" where
  "kv_room cfg s = unat (FLASH_PRIMARY_STORAGE_END cfg) -
     unat (kv_scan_free cfg (fl_mem s) (FLASH_PRIMARY_STORAGE_START cfg))"

lemma kv_room_log:
  assumes "kv_cfg_ok cfg" "kv_inv cfg (fl_mem s) l"
  shows "kv_room cfg s = kv_cap (PRIMARY_FLASH_SECTOR cfg) - length (log_bytes l)"
proof -
  note b = kv_bounds [OF assms(1)]
  have h: "sector_holds (fl_mem s) (FLASH_PRIMARY_STORAGE_START cfg)
      (kv_cap (PRIMARY_FLASH_SECTOR cfg)) l" using assms(2) by (simp add: kv_inv_def)
  then have "length (log_bytes l) \<le> kv_cap (PRIMARY_FLASH_SECTOR cfg)" by (simp add: sector_holds_def)
  moreover from this have "unat (FLASH_PRIMARY_STORAGE_START cfg + word_of_nat (length (log_bytes l))) =
      unat (FLASH_PRIMARY_STORAGE_START cfg) + length (log_bytes l)"
    using b(1) by (intro unat_add_off) simp
  ultimately show ?thesis
    using b(3) by (simp add: kv_room_def kv_scan_free_log [OF h b(3)])
qed

interpretation kv: kv_store "kv_ok cfg" "kv_room cfg" "\<lambda>k v. hal_flash_save cfg junk k (Some v)"
  "\<lambda>k. hal_flash_read cfg k True True" "hal_flash_delete cfg" for cfg junk
proof
  fix s :: "'a flash_scheme" and v :: "u8 list" and k :: u8
  assume "kv_ok cfg s" and v: "v \<noteq> []" "even (length v)" "length v \<le> 248"
    and room: "6 + length v \<le> kv_room cfg s"
  then obtain l where cfg: "kv_cfg_ok cfg" "flash_calm s" "kv_inv cfg (fl_mem s) l"
    by (auto simp: kv_ok_def)
  note rd = kv_room_log [OF cfg(1,3)]
  have "length (log_bytes l) + 6 + length v \<le> kv_cap (PRIMARY_FLASH_SECTOR cfg)"
    using room rd v by simp
  from hal_flash_save_room [OF cfg v this, of junk k] obtain s' l' where
    r: "hal_flash_save cfg junk k (Some v) s = Some (HAL_OK, s')" "kv_result cfg s l' s'"
      "kv_map l' = (kv_map l)(k \<mapsto> v)" "length (log_bytes l') = length (log_bytes l) + 6 + length v" .
  note inv = kv_result_inv [OF r(2)]
  show "\<exists>s'. hal_flash_save cfg junk k (Some v) s = Some (HAL_OK, s') \<and> kv_ok cfg s' \<and>
      kv_room cfg s' = kv_room cfg s - (6 + length v) \<and>
      hal_flash_read cfg k True True s' = (HAL_OK, v) \<and>
      (\<forall>k'. k' \<noteq> k \<longrightarrow> hal_flash_read cfg k' True True s' = hal_flash_read cfg k' True True s)"
    by (intro exI [of _ s'] conjI)
      (use r inv cfg kv_result_calm [OF r(2)] in
        \<open>auto simp: kv_ok_def rd kv_room_log [OF cfg(1) inv] hal_flash_read_log [OF cfg(1) inv]
          hal_flash_read_log [OF cfg(1,3)]\<close>)
next
  fix s :: "'a flash_scheme" and k :: u8
  assume "kv_ok cfg s" and present: "fst (hal_flash_read cfg k True True s) = HAL_OK"
  then obtain l where cfg: "kv_cfg_ok cfg" "flash_calm s" "kv_inv cfg (fl_mem s) l"
    by (auto simp: kv_ok_def)
  have "kv_map l k \<noteq> None"
    using present by (auto simp: hal_flash_read_log [OF cfg(1,3)] split: option.splits)
  from hal_flash_delete_log [OF cfg this] obtain s' l' where
    r: "hal_flash_delete cfg k s = (HAL_OK, s')" "kv_result cfg s l' s'"
      "kv_map l' = (kv_map l)(k := None)" "length (log_bytes l') = length (log_bytes l)" .
  note inv = kv_result_inv [OF r(2)]
  show "\<exists>s'. hal_flash_delete cfg k s = (HAL_OK, s') \<and> kv_ok cfg s' \<and>
      kv_room cfg s' = kv_room cfg s \<and> fst (hal_flash_read cfg k True True s') = HAL_ERR \<and>
      (\<forall>k'. k' \<noteq> k \<longrightarrow> hal_flash_read cfg k' True True s' = hal_flash_read cfg k' True True s)"
    by (intro exI [of _ s'] conjI)
      (use r inv cfg kv_result_calm [OF r(2)] in
        \<open>auto simp: kv_ok_def kv_room_log [OF cfg(1,3)] kv_room_log [OF cfg(1) inv]
          hal_flash_read_log [OF cfg(1) inv] hal_flash_read_log [OF cfg(1,3)]\<close>)
qed

section \<open>Properties\<close>

text \<open>A freshly erased part, with the bootloader's choice of sectors, is an empty store.\<close>

lemma boot_kv_ok: "kv_cfg_ok boot_kv"
  by (simp add: kv_cfg_ok_def boot_kv_def)

lemma flash_fresh_kv: "kv_inv boot_kv (fl_mem flash_fresh) []"
proof -
  have "mem_range (fl_mem flash_fresh) a n = replicate n 0xFF" for a n
    by (rule nth_equalityI) (simp_all add: flash_fresh_def)
  then show ?thesis by (simp add: kv_inv_def sector_holds_def live_distinct_def)
qed

lemma boot_kv_cap: "kv_cap (PRIMARY_FLASH_SECTOR boot_kv) = 0x4000"
  "kv_cap (SECONDARY_FLASH_SECTOR boot_kv) = 0x4000"
  by (simp_all add: boot_kv_def kv_cap_def SECTOR_BYTES_def)




text \<open>The witness's flash: a 16K sector filled by 1024 superseded records of ten bytes.\<close>

definition kv_full_log :: "kv_entry list" where
  "kv_full_log = replicate 1024 (mark_deleted (new_entry 0 7 [1, 2, 3, 4, 5, 6, 7, 8, 9, 10]))"

definition kv_full :: flash where
  "kv_full = flash_fresh\<lparr>fl_mem := prog_bytes 0x08008000 (log_bytes kv_full_log) (\<lambda>_. 0xFF)\<rparr>"

lemma kv_full_log_length: "length (log_bytes kv_full_log) = 0x4000"
proof -
  have "length (log_bytes (replicate n (mark_deleted (new_entry 0 7 v)))) = n * (6 + length v)" for n v
    by (induction n) simp_all
  then show ?thesis by (simp add: kv_full_log_def)
qed

lemma kv_full_inv: "kv_inv boot_kv (fl_mem kv_full) kv_full_log"
proof -
  have ok: "list_all entry_ok kv_full_log"
    using new_entry_ok [of "[1, 2, 3, 4, 5, 6, 7, 8, 9, 10]" 0 7]
    by (auto simp: kv_full_log_def list_all_iff)
  have start: "FLASH_PRIMARY_STORAGE_START boot_kv = 0x08008000"
    "FLASH_SECONDARY_STORAGE_START boot_kv = 0x0800C000"
    by (simp_all add: boot_kv_def FLASH_PRIMARY_STORAGE_START_def FLASH_SECONDARY_STORAGE_START_def
        SECTOR_ADDR_def)
  have e: "sector_holds (\<lambda>_. 0xFF) a n []" for a n
  proof -
    have "mem_range (\<lambda>_. 0xFF) a n = replicate n 0xFF" by (rule nth_equalityI) simp_all
    then show ?thesis by (simp add: sector_holds_def)
  qed
  have "sector_holds (fl_mem kv_full) 0x08008000 0x4000 kv_full_log"
    using sector_holds_append [OF e ok, of "0x08008000" "0x4000"] kv_full_log_length
    by (simp add: kv_full_def)
  moreover have "sector_holds (fl_mem kv_full) 0x0800C000 0x4000 []"
    unfolding kv_full_def
    using sector_holds_other [OF e, of "0x0800C000" "0x4000" "0x08008000" "log_bytes kv_full_log"]
      kv_full_log_length by simp
  moreover have "live_distinct kv_full_log"
    by (simp add: live_distinct_def kv_full_log_def)
  ultimately show ?thesis by (simp add: kv_inv_def start boot_kv_cap)
qed

lemma kv_full_calm: "flash_calm kv_full"
  using flash_fresh_calm by (simp add: flash_calm_def kv_full_def)


text \<open>Reading a key returns exactly the value the store's map holds for it, its bytes and its
  length, and an error with an empty value when the map has none; a NULL out-pointer is refused
  before flash is looked at.\<close>

theorem kv_read_returns_map:
  assumes "kv_cfg_ok cfg" "kv_inv cfg (fl_mem s) l"
  shows "hal_flash_read cfg key p q s =
    (if p \<and> q then (case kv_map l key of None \<Rightarrow> (HAL_ERR, []) | Some v \<Rightarrow> (HAL_OK, v))
     else (HAL_ERR_INVALID_ARG, []))"
  using hal_flash_read_log [OF assms, of key] by (auto simp: hal_flash_read_def)

theorem kv_read_returns_map_witness:
  "hal_flash_read boot_kv 7 True True kv_full = (HAL_ERR, [])"
proof -
  have "kv_map kv_full_log 7 = None"
    unfolding kv_map_None by (simp add: kv_full_log_def)
  then show ?thesis
    using kv_read_returns_map [OF boot_kv_ok kv_full_inv, of 7 True True] by simp
qed

text \<open>Deleting a key removes it from the map and leaves every other key's value; deleting a key
  that is not there reports it and changes nothing; erasing the store empties the map.\<close>

theorem kv_delete_and_erase:
  assumes "kv_cfg_ok cfg" "flash_calm s" "kv_inv cfg (fl_mem s) l"
  shows "(if kv_map l key = None then hal_flash_delete cfg key s = (HAL_ERR, s)
     else \<exists>s' l'. hal_flash_delete cfg key s = (HAL_OK, s') \<and> flash_calm s' \<and>
       kv_inv cfg (fl_mem s') l' \<and> kv_map l' = (kv_map l)(key := None)) \<and>
    (\<exists>s'. hal_flash_erase cfg s = (HAL_OK, s') \<and> flash_calm s' \<and> kv_inv cfg (fl_mem s') [])"
proof
  show "if kv_map l key = None then hal_flash_delete cfg key s = (HAL_ERR, s)
     else \<exists>s' l'. hal_flash_delete cfg key s = (HAL_OK, s') \<and> flash_calm s' \<and>
       kv_inv cfg (fl_mem s') l' \<and> kv_map l' = (kv_map l)(key := None)"
  proof (cases "kv_map l key = None")
    case True
    have "flash_find_first_valid_entry cfg key s = None"
      by (rule kv_find_cases [OF assms(1,3), of key]) (use True in simp_all)
    with True show ?thesis by (simp add: hal_flash_delete_def stm32_flash_delete_def)
  next
    case False
    from hal_flash_delete_log [OF assms False] obtain s' l' where
      r: "hal_flash_delete cfg key s = (HAL_OK, s')" "kv_result cfg s l' s'"
        "kv_map l' = (kv_map l)(key := None)" .
    then show ?thesis using False kv_result_calm [OF r(2)] kv_result_inv [OF r(2)] by auto
  qed
  have ps: "PRIMARY_FLASH_SECTOR cfg < 8" "SECONDARY_FLASH_SECTOR cfg < 8"
    "SECONDARY_FLASH_SECTOR cfg \<noteq> PRIMARY_FLASH_SECTOR cfg" using assms(1) by (auto simp: kv_cfg_ok_def)
  note e1 = flash_erase_sector_settled [OF assms(2) ps(1)]
  note e2 = flash_erase_sector_settled [OF flash_settled_calm [OF e1] ps(2)]
  let ?s' = "flash_erase_sector (SECONDARY_FLASH_SECTOR cfg)
      (flash_erase_sector (PRIMARY_FLASH_SECTOR cfg) s)"
  have "kv_inv cfg (fl_mem ?s') []"
    unfolding kv_inv_def flash_settled_mem [OF e2] flash_settled_mem [OF e1]
      FLASH_PRIMARY_STORAGE_START_def FLASH_SECONDARY_STORAGE_START_def
    using sector_holds_erased ps sector_holds_erase_other [OF _ ps(2,1,3)]
    by (simp add: live_distinct_def)
  then show "\<exists>s'. hal_flash_erase cfg s = (HAL_OK, s') \<and> flash_calm s' \<and> kv_inv cfg (fl_mem s') []"
    using flash_settled_calm [OF e2] by (simp add: hal_flash_erase_def stm32_flash_erase_def)
qed

theorem kv_delete_and_erase_witness:
  "hal_flash_delete boot_kv 7 kv_full = (HAL_ERR, kv_full)"
proof -
  have "kv_map kv_full_log 7 = None"
    unfolding kv_map_None by (simp add: kv_full_log_def)
  then show ?thesis
    using kv_delete_and_erase [OF boot_kv_ok kv_full_calm kv_full_inv, of 7] by simp
qed


lemma flash_fresh_kv_ok: "kv_ok boot_kv flash_fresh"
  using boot_kv_ok flash_fresh_calm flash_fresh_kv by (auto simp: kv_ok_def)


text \<open>A 255-byte value is never written: its padded size wraps to zero, and the write reports
  success (finding).\<close>

theorem kv_write_255_is_lost: "flash_write_data addr src 255 s = (HAL_OK, s)"
  by (simp add: flash_write_data_def flash_write_loop.simps)

text \<open>A deleted record of 250 bytes hangs the compaction: its 8-bit total wraps to zero and the scan
  never leaves it (finding).\<close>

theorem kv_compaction_can_hang:
  assumes "rec_magic (rec_at (fl_mem s) pp) = FLASH_MAGIC_NUMBER" "pp < FLASH_PRIMARY_STORAGE_END cfg"
    and "rec_status (rec_at (fl_mem s) pp) \<noteq> FLASH_VALID" "rec_size (rec_at (fl_mem s) pp) = 250"
  shows "flash_shift_p2s cfg pp ps s = None"
proof -
  have t: "rec_total_size (rec_at (fl_mem s) pp) = 0" using assms(4) by (simp add: rec_total_size_def)
  have "\<not> (cfg = cfg \<and> pp = pp \<and> s = s)" if r: "flash_shift_p2s cfg pp ps s = Some r" for r
    by (rule flash_shift_p2s.raw_induct
        [where P = "\<lambda>c p q s' r. \<not> (c = cfg \<and> p = pp \<and> s' = s)", OF _ r])
      (use assms t in \<open>fastforce simp: Let_def\<close>)
  then show ?thesis by (cases "flash_shift_p2s cfg pp ps s") auto
qed

end
