(* ===== verification/Boot_Block.thy ===== *)
theory Boot_Block
  imports Flash "HOL-Library.Sublist"
begin

text \<open>
  The boot block and the console watcher of src/common/hal_boot.c: what one boot leaves in
  .noinit RAM for the next, the matcher that spots the eight-byte sequence in a console stream,
  and the policy on entering a loader. The state extends the flash and watchdog state, since the
  loaders that use the block use those too.

  A reset ends a call: \<open>hal_system_reset\<close> (src/vendor/stm32/reset/reset.c) writes AIRCR and spins,
  so nothing after it runs (\<open>BoardReset\<close>).
\<close>

section \<open>State\<close>

record boot = flash +
  sboot_magic :: u32
  sboot_request :: u32
  sboot_attempts :: u32
  sboot_check :: u32
  s_pos :: u8
  s_entry_disabled :: bool
  s_prepare :: "u32 option"

definition HAL_BOOT_MAGIC :: u32 where "HAL_BOOT_MAGIC = 0xB007C0DE"
definition HAL_BOOT_REQ_NONE :: u32 where "HAL_BOOT_REQ_NONE = 0"
definition HAL_BOOT_REQ_LOADER :: u32 where "HAL_BOOT_REQ_LOADER = 0x10ADED00"
definition HAL_BOOT_REQ_STAGE1 :: u32 where "HAL_BOOT_REQ_STAGE1 = 0x10ADED01"
definition HAL_BOOT_MAX_ATTEMPTS :: u32 where "HAL_BOOT_MAX_ATTEMPTS = 3"

lemmas boot_consts = HAL_BOOT_MAGIC_def HAL_BOOT_REQ_NONE_def HAL_BOOT_REQ_LOADER_def
  HAL_BOOT_REQ_STAGE1_def HAL_BOOT_MAX_ATTEMPTS_def

definition hal_boot_seq :: "u8 list" where
  "hal_boot_seq = [0xB0, 0x07, 0xC0, 0xDE, 0xA5, 0x3C, 0x69, 0x96]"

section \<open>The block\<close>

definition block_check :: "u32 \<Rightarrow> u32 \<Rightarrow> u32 \<Rightarrow> u32" where
  "block_check magic request attempts = magic XOR request XOR attempts XOR 0xA5A5A5A5"

text \<open>The four stores of \<open>block_seal\<close>, in program order; a power cut leaves a prefix of them.\<close>

definition block_seal_writes :: "u32 \<Rightarrow> u32 \<Rightarrow> ('m boot_scheme \<Rightarrow> 'm boot_scheme) list" where
  "block_seal_writes request attempts =
     [\<lambda>s. s\<lparr>sboot_magic := HAL_BOOT_MAGIC\<rparr>,
      \<lambda>s. s\<lparr>sboot_request := request\<rparr>,
      \<lambda>s. s\<lparr>sboot_attempts := attempts\<rparr>,
      \<lambda>s. s\<lparr>sboot_check := block_check HAL_BOOT_MAGIC request attempts\<rparr>]"

definition block_seal :: "u32 \<Rightarrow> u32 \<Rightarrow> 'm boot_scheme \<Rightarrow> 'm boot_scheme" where
  "block_seal request attempts s = fold (\<lambda>w s. w s) (block_seal_writes request attempts) s"

definition hal_boot_block_valid :: "'m boot_scheme \<Rightarrow> bool" where
  "hal_boot_block_valid s \<longleftrightarrow> sboot_magic s = HAL_BOOT_MAGIC \<and>
     sboot_check s = block_check (sboot_magic s) (sboot_request s) (sboot_attempts s)"

definition hal_boot_block_init :: "'m boot_scheme \<Rightarrow> hal_status \<times> 'm boot_scheme" where
  "hal_boot_block_init s =
     (HAL_OK, if \<not> hal_boot_block_valid s then block_seal HAL_BOOT_REQ_NONE 0 s else s)"

definition hal_boot_get_request :: "'m boot_scheme \<Rightarrow> u32" where
  "hal_boot_get_request s = (if hal_boot_block_valid s then sboot_request s else HAL_BOOT_REQ_NONE)"

definition hal_boot_clear_request :: "'m boot_scheme \<Rightarrow> hal_status \<times> 'm boot_scheme" where
  "hal_boot_clear_request s =
     (if \<not> hal_boot_block_valid s then (HAL_ERR_NOT_INITIALIZED, s)
      else (HAL_OK, block_seal HAL_BOOT_REQ_NONE (sboot_attempts s) s))"

definition hal_boot_get_attempts :: "'m boot_scheme \<Rightarrow> u32" where
  "hal_boot_get_attempts s = (if hal_boot_block_valid s then sboot_attempts s else 0)"

definition hal_boot_account_attempt :: "'m boot_scheme \<Rightarrow> hal_status \<times> 'm boot_scheme" where
  "hal_boot_account_attempt s =
     (if \<not> hal_boot_block_valid s then (HAL_ERR_NOT_INITIALIZED, s)
      else let a = sboot_attempts s;
               a = (if a < 0xFFFFFFFF then a + 1 else a)
           in (HAL_OK, block_seal (sboot_request s) a s))"

definition hal_boot_mark_healthy :: "'m boot_scheme \<Rightarrow> hal_status \<times> 'm boot_scheme" where
  "hal_boot_mark_healthy s =
     (if \<not> hal_boot_block_valid s then (HAL_ERR_NOT_INITIALIZED, s)
      else (HAL_OK, block_seal (sboot_request s) 0 s))"

section \<open>Entry policy\<close>

definition hal_boot_entry_disable :: "'m boot_scheme \<Rightarrow> 'm boot_scheme" where
  "hal_boot_entry_disable s = s\<lparr>s_entry_disabled := True\<rparr>"

definition hal_boot_entry_enable :: "'m boot_scheme \<Rightarrow> 'm boot_scheme" where
  "hal_boot_entry_enable s = s\<lparr>s_entry_disabled := False\<rparr>"

definition hal_boot_entry_is_disabled :: "'m boot_scheme \<Rightarrow> bool" where
  "hal_boot_entry_is_disabled s \<longleftrightarrow> s_entry_disabled s"

definition hal_boot_set_prepare :: "u32 option \<Rightarrow> 'm boot_scheme \<Rightarrow> 'm boot_scheme" where
  "hal_boot_set_prepare cb s = s\<lparr>s_prepare := cb\<rparr>"

definition hal_system_reset :: "'s \<Rightarrow> (hal_status, 's) ctl" where
  "hal_system_reset s = BoardReset s"

text \<open>\<open>call f\<close> is the application's callback at address \<open>f\<close>, a parameter of the model.\<close>

definition hal_boot_request_target ::
    "(u32 \<Rightarrow> 'm boot_scheme \<Rightarrow> 'm boot_scheme) \<Rightarrow> u32 \<Rightarrow> 'm boot_scheme \<Rightarrow>
     (hal_status, 'm boot_scheme) ctl" where
  "hal_boot_request_target call request s =
     (if s_entry_disabled s then Returned HAL_ERR_BUSY s
      else if request \<noteq> HAL_BOOT_REQ_LOADER \<and> request \<noteq> HAL_BOOT_REQ_STAGE1
      then Returned HAL_ERR_INVALID_ARG s
      else let s1 = block_seal request (hal_boot_get_attempts s) s;
               s2 = (case s_prepare s1 of None \<Rightarrow> s1 | Some f \<Rightarrow> call f s1)
           in ctl_bind (hal_system_reset s2) (\<lambda>_ s. Returned HAL_ERR s))"

definition hal_boot_request ::
    "(u32 \<Rightarrow> 'm boot_scheme \<Rightarrow> 'm boot_scheme) \<Rightarrow> 'm boot_scheme \<Rightarrow>
     (hal_status, 'm boot_scheme) ctl" where
  "hal_boot_request call s = hal_boot_request_target call HAL_BOOT_REQ_LOADER s"

section \<open>The watcher\<close>

definition hal_boot_match_reset :: "'m boot_scheme \<Rightarrow> 'm boot_scheme" where
  "hal_boot_match_reset s = s\<lparr>s_pos := 0\<rparr>"

definition hal_boot_match_byte ::
    "(u32 \<Rightarrow> 'm boot_scheme \<Rightarrow> 'm boot_scheme) \<Rightarrow> u8 \<Rightarrow> 'm boot_scheme \<Rightarrow>
     (unit, 'm boot_scheme) ctl" where
  "hal_boot_match_byte call b s =
     (let pos = s_pos s
      in if b = hal_boot_seq ! unat pos
         then let pos = pos + 1
              in if pos = 8
                 then ctl_bind (hal_boot_request call (s\<lparr>s_pos := 0\<rparr>)) (\<lambda>_ s. Returned () s)
                 else Returned () (s\<lparr>s_pos := pos\<rparr>)
         else Returned () (s\<lparr>s_pos := (if b = hal_boot_seq ! 0 then 1 else 0)\<rparr>))"

fun boot_feed_bytes ::
    "(u32 \<Rightarrow> 'm boot_scheme \<Rightarrow> 'm boot_scheme) \<Rightarrow> u8 list \<Rightarrow> 'm boot_scheme \<Rightarrow>
     (unit, 'm boot_scheme) ctl" where
  "boot_feed_bytes call [] s = Returned () s"
| "boot_feed_bytes call (b # bs) s =
     ctl_bind (hal_boot_match_byte call b s) (\<lambda>_ s. boot_feed_bytes call bs s)"

definition hal_boot_feed ::
    "(u32 \<Rightarrow> 'm boot_scheme \<Rightarrow> 'm boot_scheme) \<Rightarrow> u8 list option \<Rightarrow> 'm boot_scheme \<Rightarrow>
     (unit, 'm boot_scheme) ctl" where
  "hal_boot_feed call data s =
     (case data of None \<Rightarrow> Returned () s | Some ds \<Rightarrow> boot_feed_bytes call ds s)"

section \<open>Sealing\<close>

lemma block_seal_eq:
  "block_seal request attempts s = s\<lparr>sboot_magic := HAL_BOOT_MAGIC, sboot_request := request,
     sboot_attempts := attempts, sboot_check := block_check HAL_BOOT_MAGIC request attempts\<rparr>"
  by (simp add: block_seal_def block_seal_writes_def)

lemma block_seal_valid [simp]:
  "hal_boot_block_valid (block_seal request attempts s)"
  "sboot_request (block_seal request attempts s) = request"
  "sboot_attempts (block_seal request attempts s) = attempts"
  by (simp_all add: block_seal_eq hal_boot_block_valid_def)

lemma block_check_inj:
  "block_check m r a = block_check m r' a \<longleftrightarrow> r = r'"
  "block_check m r a = block_check m r a' \<longleftrightarrow> a = a'"
proof -
  have x: "(p XOR q) = (p XOR q') \<longleftrightarrow> q = q'" for p q q' :: u32
    by (metis xor.assoc xor_self_eq xor.left_neutral)
  have y: "(q XOR p) = (q' XOR p) \<longleftrightarrow> q = q'" for p q q' :: u32
    using x [of p q q'] by (simp add: xor.commute)
  show "block_check m r a = block_check m r' a \<longleftrightarrow> r = r'"
    "block_check m r a = block_check m r a' \<longleftrightarrow> a = a'"
    by (simp_all add: block_check_def x y)
qed

section \<open>Matching a sequence of distinct bytes\<close>

text \<open>
  The single-byte resync, for any sequence whose bytes are distinct: the position is always the
  length of the longest proper prefix of the sequence that the input ends with, so no occurrence
  is missed and none is invented.
\<close>

locale distinct_seq =
  fixes sq :: "'b list"
  assumes distinct_sq: "distinct sq"
    and long_sq: "2 \<le> length sq"
begin

definition advance :: "nat \<Rightarrow> 'b \<Rightarrow> nat \<times> bool" where
  "advance pos b =
     (if b = sq ! pos then (if pos + 1 = length sq then (0, True) else (pos + 1, False))
      else (if b = sq ! 0 then 1 else 0, False))"

definition tracks :: "'b list \<Rightarrow> nat \<Rightarrow> bool" where
  "tracks bs pos \<longleftrightarrow> pos < length sq \<and> suffix (take pos sq) bs \<and>
     (\<forall>k. pos < k \<and> k < length sq \<longrightarrow> \<not> suffix (take k sq) bs)"

lemma suffix_take_snoc:
  assumes "0 < k" "k \<le> length sq"
  shows "suffix (take k sq) (bs @ [b]) \<longleftrightarrow> sq ! (k - 1) = b \<and> suffix (take (k - 1) sq) bs"
proof -
  have "take k sq = take (k - 1) sq @ [sq ! (k - 1)]"
    using assms take_Suc_conv_app_nth [of "k - 1" sq] by simp
  then show ?thesis by (simp only: snoc_suffix_snoc)
qed

lemma nth_sq_eq: "i < length sq \<Longrightarrow> j < length sq \<Longrightarrow> sq ! i = sq ! j \<longleftrightarrow> i = j"
  using distinct_sq by (simp add: nth_eq_iff_index_eq)

lemma tracks_Nil: "tracks [] 0"
proof -
  have "\<not> suffix (take k sq) []" if "0 < k" for k
    using that long_sq by (cases sq) (auto simp: suffix_def)
  then show ?thesis using long_sq by (auto simp: tracks_def)
qed

text \<open>Two different non-empty prefixes cannot both end the same input.\<close>

lemma suffix_take_unique:
  assumes "suffix (take i sq) bs" "suffix (take j sq) bs" "0 < i" "0 < j" "i \<le> length sq" "j \<le> length sq"
  shows "i = j"
proof -
  have "bs \<noteq> []" using assms(1,3) long_sq by (cases sq) (auto simp: suffix_def)
  then obtain cs c where "bs = cs @ [c]" by (metis rev_exhaust)
  then have "sq ! (i - 1) = c" "sq ! (j - 1) = c"
    using assms suffix_take_snoc by auto
  moreover have "i - 1 < length sq" "j - 1 < length sq" using assms by auto
  ultimately have "i - 1 = j - 1" using nth_sq_eq by metis
  with assms(3,4) show ?thesis by simp
qed

lemma tracks_step:
  assumes t: "tracks bs pos"
  shows "tracks (bs @ [b]) (fst (advance pos b)) \<and>
    (snd (advance pos b) \<longleftrightarrow> suffix sq (bs @ [b]))"
proof -
  have pos: "pos < length sq" "suffix (take pos sq) bs"
    "\<And>k. pos < k \<Longrightarrow> k < length sq \<Longrightarrow> \<not> suffix (take k sq) bs"
    using t by (auto simp: tracks_def)
  have full: "suffix sq (bs @ [b]) \<longleftrightarrow> sq ! (length sq - 1) = b \<and> suffix (take (length sq - 1) sq) bs"
  proof -
    have "0 < length sq" using long_sq by linarith
    from suffix_take_snoc [OF this order_refl, of bs b] show ?thesis
      by (simp only: take_all [OF order_refl])
  qed
  have last: "suffix (take (length sq - 1) sq) bs \<longleftrightarrow> pos = length sq - 1"
    using pos long_sq by (metis One_nat_def Suc_pred diff_less lessI less_Suc_eq linorder_neqE_nat
        not_less_eq zero_less_one less_le_trans zero_less_numeral pos_add_strict)
  have fired: "snd (advance pos b) \<longleftrightarrow> suffix sq (bs @ [b])"
    using full last pos(1) by (auto simp: advance_def)
  have only: "k = 1 \<or> k = pos + 1 \<and> b = sq ! pos"
    if k: "0 < k" "k < length sq" "suffix (take k sq) (bs @ [b])" for k
  proof (cases "k = 1")
    case False
    have s: "sq ! (k - 1) = b" "suffix (take (k - 1) sq) bs" using k suffix_take_snoc by auto
    have "k - 1 \<le> pos" using pos(3) [of "k - 1"] s(2) k by force
    moreover have "0 < pos" using calculation False k(1) by simp
    ultimately have "k - 1 = pos" using suffix_take_unique [OF s(2) pos(2)] False k pos(1) by simp
    then show ?thesis using s(1) k(1) by auto
  qed simp
  have one: "suffix (take 1 sq) (bs @ [b]) \<longleftrightarrow> sq ! 0 = b"
    using suffix_take_snoc [of 1] long_sq by simp
  have p1: "suffix (take (pos + 1) sq) (bs @ [b]) \<longleftrightarrow> sq ! pos = b"
    using suffix_take_snoc [of "pos + 1"] pos by simp
  have "tracks (bs @ [b]) (fst (advance pos b))"
  proof (cases "b = sq ! pos")
    case True
    note m = this
    show ?thesis
    proof (cases "pos + 1 = length sq")
      case True
      have "\<not> suffix (take k sq) (bs @ [b])" if k: "0 < k" "k < length sq" for k
      proof
        assume s: "suffix (take k sq) (bs @ [b])"
        have "sq ! (k - 1) = sq ! pos" using s m k suffix_take_snoc by simp
        then have "k - 1 = pos" using nth_sq_eq k pos(1) by simp
        then show False using True k by simp
      qed
      then show ?thesis using m True long_sq by (auto simp: advance_def tracks_def)
    next
      case False
      have "\<not> suffix (take k sq) (bs @ [b])" if k: "pos + 1 < k" "k < length sq" for k
        using only [of k] k by auto
      then show ?thesis using m False p1 pos(1) by (auto simp: advance_def tracks_def)
    qed
  next
    case False
    have more: "\<not> suffix (take k sq) (bs @ [b])" if k: "1 < k" "k < length sq" for k
      using only [of k] k False by auto
    show ?thesis
    proof (cases "b = sq ! 0")
      case True
      then have a: "advance pos b = (1, False)" using False by (simp add: advance_def)
      have "1 < length sq" using long_sq by linarith
      moreover have "suffix (take 1 sq) (bs @ [b])" using one True by metis
      ultimately show ?thesis
        unfolding tracks_def a fst_conv using more by metis
    next
      case f: False
      then have a: "advance pos b = (0, False)" using False by (simp add: advance_def)
      have "\<not> suffix (take k sq) (bs @ [b])" if k: "0 < k" "k < length sq" for k
        using more [of k] one f k by (cases "k = 1") auto
      then show ?thesis unfolding tracks_def a fst_conv using long_sq by auto
    qed
  qed
  with fired show ?thesis by blast
qed

end

interpretation boot_sq: distinct_seq hal_boot_seq
  by unfold_locales (simp_all add: hal_boot_seq_def)

section \<open>The watcher follows the matcher\<close>

lemma length_boot_seq [simp]: "length hal_boot_seq = 8"
  by (simp add: hal_boot_seq_def)

text \<open>The reset a completed sequence causes, and the state it finds.\<close>

definition boot_entry_state ::
    "(u32 \<Rightarrow> 'm boot_scheme \<Rightarrow> 'm boot_scheme) \<Rightarrow> u32 \<Rightarrow> 'm boot_scheme \<Rightarrow> 'm boot_scheme" where
  "boot_entry_state call request s =
     (let s1 = block_seal request (hal_boot_get_attempts s) s
      in case s_prepare s of None \<Rightarrow> s1 | Some f \<Rightarrow> call f s1)"

lemma request_target_cases:
  "hal_boot_request_target call request s =
     (if s_entry_disabled s then Returned HAL_ERR_BUSY s
      else if request \<notin> {HAL_BOOT_REQ_LOADER, HAL_BOOT_REQ_STAGE1} then Returned HAL_ERR_INVALID_ARG s
      else BoardReset (boot_entry_state call request s))"
  by (auto simp: hal_boot_request_target_def boot_entry_state_def hal_system_reset_def Let_def
      block_seal_eq)

lemma match_byte_advance:
  fixes b :: u8
  assumes "unat (s_pos s) < 8"
  defines "r \<equiv> boot_sq.advance (unat (s_pos s)) b"
  shows "hal_boot_match_byte call b s =
    (if snd r \<and> \<not> s_entry_disabled s
     then BoardReset (boot_entry_state call HAL_BOOT_REQ_LOADER (s\<lparr>s_pos := 0\<rparr>))
     else Returned () (s\<lparr>s_pos := word_of_nat (fst r)\<rparr>))"
proof -
  have inc: "s_pos s + 1 = word_of_nat (unat (s_pos s) + 1)" by simp
  have top: "s_pos s + 1 = 8 \<longleftrightarrow> unat (s_pos s) + 1 = 8"
  proof -
    have "unat (s_pos s + 1) = unat (s_pos s) + 1" using assms(1) by (simp add: unat_word_ariths)
    then show ?thesis by (simp add: word_unat_eq_iff)
  qed
  show ?thesis
    unfolding r_def boot_sq.advance_def hal_boot_match_byte_def Let_def top
    by (auto simp: hal_boot_request_def request_target_cases)
qed

lemma match_byte_tracks:
  assumes "boot_sq.tracks h (unat (s_pos s))"
  shows "if suffix hal_boot_seq (h @ [b]) \<and> \<not> s_entry_disabled s
    then hal_boot_match_byte call b s =
      BoardReset (boot_entry_state call HAL_BOOT_REQ_LOADER (s\<lparr>s_pos := 0\<rparr>))
    else \<exists>p. hal_boot_match_byte call b s = Returned () (s\<lparr>s_pos := p\<rparr>) \<and>
      boot_sq.tracks (h @ [b]) (unat p)"
proof -
  have pos: "unat (s_pos s) < 8" using assms by (simp add: boot_sq.tracks_def)
  obtain p fired where adv: "boot_sq.advance (unat (s_pos s)) b = (p, fired)" by fastforce
  have st: "boot_sq.tracks (h @ [b]) p" "fired \<longleftrightarrow> suffix hal_boot_seq (h @ [b])"
    using boot_sq.tracks_step [OF assms, of b] adv by simp_all
  then have "unat (word_of_nat p :: u8) = p" by (simp add: boot_sq.tracks_def unat_of_nat)
  then have t: "boot_sq.tracks (h @ [b]) (unat (word_of_nat p :: u8))" using st(1) by simp
  have m: "hal_boot_match_byte call b s = (if fired \<and> \<not> s_entry_disabled s
     then BoardReset (boot_entry_state call HAL_BOOT_REQ_LOADER (s\<lparr>s_pos := 0\<rparr>))
     else Returned () (s\<lparr>s_pos := word_of_nat p\<rparr>))"
    using match_byte_advance [OF pos, of call b] by (simp add: adv)
  show ?thesis
  proof (cases "suffix hal_boot_seq (h @ [b]) \<and> \<not> s_entry_disabled s")
    case True
    then show ?thesis using m st(2) by simp
  next
    case False
    then have "hal_boot_match_byte call b s = Returned () (s\<lparr>s_pos := word_of_nat p\<rparr>)"
      using m st(2) by simp
    then show ?thesis using False t by (subst if_not_P) blast+
  qed
qed

lemma feed_tracks:
  assumes "boot_sq.tracks h (unat (s_pos s))"
  shows "if \<not> s_entry_disabled s \<and> (\<exists>n. 0 < n \<and> n \<le> length bs \<and> suffix hal_boot_seq (h @ take n bs))
    then \<exists>p. boot_feed_bytes call bs s =
      BoardReset (boot_entry_state call HAL_BOOT_REQ_LOADER (s\<lparr>s_pos := p\<rparr>))
    else \<exists>p. boot_feed_bytes call bs s = Returned () (s\<lparr>s_pos := p\<rparr>) \<and>
      boot_sq.tracks (h @ bs) (unat p)"
  using assms
proof (induction bs arbitrary: h s)
  case Nil
  then show ?case by (auto intro!: exI [of _ "s_pos s"])
next
  case (Cons b bs)
  have split: "(\<exists>n. 0 < n \<and> n \<le> length (b # bs) \<and> suffix hal_boot_seq (h @ take n (b # bs))) \<longleftrightarrow>
      suffix hal_boot_seq (h @ [b]) \<or>
      (\<exists>n. 0 < n \<and> n \<le> length bs \<and> suffix hal_boot_seq ((h @ [b]) @ take n bs))" (is "?l \<longleftrightarrow> ?r")
  proof
    assume ?l
    then obtain n where n: "0 < n" "n \<le> length (b # bs)" "suffix hal_boot_seq (h @ take n (b # bs))"
      by blast
    then obtain k where k: "n = Suc k" by (cases n) auto
    show ?r
    proof (cases k)
      case 0
      then show ?thesis using n k by simp
    next
      case (Suc j)
      then have "0 < k \<and> k \<le> length bs \<and> suffix hal_boot_seq ((h @ [b]) @ take k bs)" using n k by simp
      then show ?thesis by blast
    qed
  next
    assume ?r
    then show ?l
    proof
      assume "suffix hal_boot_seq (h @ [b])"
      then show ?l by (intro exI [of _ 1]) simp
    next
      assume "\<exists>n. 0 < n \<and> n \<le> length bs \<and> suffix hal_boot_seq ((h @ [b]) @ take n bs)"
      then obtain n where "0 < n" "n \<le> length bs" "suffix hal_boot_seq ((h @ [b]) @ take n bs)" by blast
      then show ?l by (intro exI [of _ "Suc n"]) simp
    qed
  qed
  show ?case
  proof (cases "suffix hal_boot_seq (h @ [b]) \<and> \<not> s_entry_disabled s")
    case True
    then have "hal_boot_match_byte call b s =
        BoardReset (boot_entry_state call HAL_BOOT_REQ_LOADER (s\<lparr>s_pos := 0\<rparr>))"
      using match_byte_tracks [OF Cons.prems, of b call] by simp
    moreover have "\<not> s_entry_disabled s \<and>
        (\<exists>n. 0 < n \<and> n \<le> length (b # bs) \<and> suffix hal_boot_seq (h @ take n (b # bs)))"
      using split True by blast
    ultimately show ?thesis by (subst if_P) auto
  next
    case False
    then obtain p where p: "hal_boot_match_byte call b s = Returned () (s\<lparr>s_pos := p\<rparr>)"
      "boot_sq.tracks (h @ [b]) (unat p)"
      using match_byte_tracks [OF Cons.prems, of b call, unfolded if_not_P [OF False]] by blast
    have rest: "boot_feed_bytes call (b # bs) s = boot_feed_bytes call bs (s\<lparr>s_pos := p\<rparr>)"
      using p(1) by simp
    have "boot_sq.tracks (h @ [b]) (unat (s_pos (s\<lparr>s_pos := p\<rparr>)))" using p(2) by simp
    note ih = Cons.IH [OF this]
    show ?thesis
    proof (cases "\<not> s_entry_disabled s \<and>
        (\<exists>n. 0 < n \<and> n \<le> length bs \<and> suffix hal_boot_seq ((h @ [b]) @ take n bs))")
      case True
      then have "\<exists>q. boot_feed_bytes call bs (s\<lparr>s_pos := p\<rparr>) =
          BoardReset (boot_entry_state call HAL_BOOT_REQ_LOADER (s\<lparr>s_pos := q\<rparr>))"
        using ih by auto
      then show ?thesis using True split rest by (subst if_P) auto
    next
      case f: False
      have "\<exists>q. boot_feed_bytes call bs (s\<lparr>s_pos := p\<rparr>) =
            Returned () (s\<lparr>s_pos := p\<rparr>\<lparr>s_pos := q\<rparr>) \<and>
          boot_sq.tracks ((h @ [b]) @ bs) (unat q)"
        using ih by (subst (asm) if_not_P) (use f in auto)
      then have "\<exists>q. boot_feed_bytes call bs (s\<lparr>s_pos := p\<rparr>) = Returned () (s\<lparr>s_pos := q\<rparr>) \<and>
          boot_sq.tracks (h @ b # bs) (unat q)" by simp
      then show ?thesis using f False split rest by (subst if_not_P) auto
    qed
  qed
qed

section \<open>Fragments\<close>

text \<open>Buffers as the console delivers them: chunks of any length, some of them NULL.\<close>

fun boot_feed_all ::
    "(u32 \<Rightarrow> 'm boot_scheme \<Rightarrow> 'm boot_scheme) \<Rightarrow> u8 list option list \<Rightarrow> 'm boot_scheme \<Rightarrow>
     (unit, 'm boot_scheme) ctl" where
  "boot_feed_all call [] s = Returned () s"
| "boot_feed_all call (f # fs) s = ctl_bind (hal_boot_feed call f s) (\<lambda>_ s. boot_feed_all call fs s)"

lemma boot_feed_bytes_append:
  "boot_feed_bytes call (xs @ ys) s =
     ctl_bind (boot_feed_bytes call xs s) (\<lambda>_ s. boot_feed_bytes call ys s)"
  by (induction xs arbitrary: s) (auto simp: ctl_bind_assoc intro!: ctl_bind_cong)

lemma boot_feed_all_bytes:
  "boot_feed_all call fs s = boot_feed_bytes call (concat (map buf_bytes fs)) s"
proof (induction fs arbitrary: s)
  case (Cons f fs)
  then show ?case
    by (cases f) (auto simp: hal_boot_feed_def boot_feed_bytes_append intro!: ctl_bind_cong)
qed simp

lemma prefix_suffix_sublist:
  assumes "xs \<noteq> []"
  shows "(\<exists>n. 0 < n \<and> n \<le> length bs \<and> suffix xs (take n bs)) \<longleftrightarrow> sublist xs bs"
proof
  assume "\<exists>n. 0 < n \<and> n \<le> length bs \<and> suffix xs (take n bs)"
  then obtain n where n: "suffix xs (take n bs)" by blast
  then obtain ps where "take n bs = ps @ xs" by (auto simp: suffix_def)
  then have "bs = ps @ xs @ drop n bs" by (metis append.assoc append_take_drop_id)
  then show "sublist xs bs" by (auto simp: sublist_def)
next
  assume "sublist xs bs"
  then obtain ps ss where bs: "bs = ps @ xs @ ss" by (auto simp: sublist_def)
  show "\<exists>n. 0 < n \<and> n \<le> length bs \<and> suffix xs (take n bs)"
    by (rule exI [of _ "length ps + length xs"]) (use assms bs in \<open>auto simp: suffix_def\<close>)
qed

section \<open>Properties\<close>

definition boot_fresh :: boot where
  "boot_fresh = \<lparr>IWDG_PR = 0, IWDG_RLR = 0xFFF, iwdg_unlocked = False, iwdg_armed = False,
     iwdg_reloads = 0, iwdg_sr_reads = 0, iwdg_timeout_ms = 0, iwdg_running = 0,
     fl_mem = (\<lambda>_. 0xFF), FLASH_ACR = 0x700, FLASH_CR = 0x80000000, fl_key1 = False,
     fl_busy = 0, fl_ops = 0, fl_dur = (\<lambda>_. 100),
     sboot_magic = 0x12345678, sboot_request = 0xDEADBEEF, sboot_attempts = 0x55AA55AA,
     sboot_check = 0x0F0F0F0F, s_pos = 0, s_entry_disabled = False, s_prepare = None\<rparr>"

text \<open>C1. From a matcher at rest with entry allowed, any stream of bytes, however it is cut into
  buffers, resets the board exactly when the eight-byte sequence occurs in it; the reset finds a
  valid block that asks for the loader, never for stage-1, with the attempt count carried across.\<close>

theorem console_resets_iff_sequence:
  assumes "s_pos s = 0" "\<not> s_entry_disabled s" "s_prepare s = None"
  shows "is_reset (boot_feed_all call fs s) = sublist hal_boot_seq (concat (map buf_bytes fs)) \<and>
    (if is_reset (boot_feed_all call fs s)
     then hal_boot_get_request (ctl_state (boot_feed_all call fs s)) = HAL_BOOT_REQ_LOADER \<and>
       hal_boot_get_attempts (ctl_state (boot_feed_all call fs s)) = hal_boot_get_attempts s
     else hal_boot_get_request (ctl_state (boot_feed_all call fs s)) = hal_boot_get_request s)"
proof -
  let ?bs = "concat (map buf_bytes fs)"
  have "boot_sq.tracks [] (unat (s_pos s))" using assms(1) boot_sq.tracks_Nil by simp
  note ft = feed_tracks [OF this, of ?bs call, unfolded append_Nil]
  have ne: "hal_boot_seq \<noteq> []" by (simp add: hal_boot_seq_def)
  note sub = prefix_suffix_sublist [OF ne, of ?bs]
  have frame: "hal_boot_get_request (s\<lparr>s_pos := p\<rparr>) = hal_boot_get_request s"
    "hal_boot_get_attempts (s\<lparr>s_pos := p\<rparr>) = hal_boot_get_attempts s" for p
    by (simp_all add: hal_boot_get_request_def hal_boot_get_attempts_def hal_boot_block_valid_def)
  show ?thesis
  proof (cases "sublist hal_boot_seq ?bs")
    case True
    then obtain p where p: "boot_feed_bytes call ?bs s =
        BoardReset (boot_entry_state call HAL_BOOT_REQ_LOADER (s\<lparr>s_pos := p\<rparr>))"
      using ft sub assms(2) by (subst (asm) if_P) auto
    have st: "boot_entry_state call HAL_BOOT_REQ_LOADER (s\<lparr>s_pos := p\<rparr>) =
        block_seal HAL_BOOT_REQ_LOADER (hal_boot_get_attempts s) (s\<lparr>s_pos := p\<rparr>)"
      using assms(3) by (simp add: boot_entry_state_def Let_def frame)
    show ?thesis
      using True by (simp add: boot_feed_all_bytes p st hal_boot_get_request_def
          hal_boot_get_attempts_def [of "block_seal _ _ _"])
  next
    case False
    then obtain p where "boot_feed_bytes call ?bs s = Returned () (s\<lparr>s_pos := p\<rparr>)"
      using ft sub by (subst (asm) if_not_P) auto
    then show ?thesis using False by (simp add: boot_feed_all_bytes frame)
  qed
qed

theorem console_resets_iff_sequence_witness:
  "is_reset (boot_feed_all (\<lambda>_ s. s)
     [Some [0x41, 0xB0, 0x07, 0xB0], Some [0x07, 0xC0], None, Some [0xDE, 0xA5, 0x3C], Some [0x69, 0x96]]
     boot_fresh)"
proof -
  have "sublist hal_boot_seq (concat (map buf_bytes
      [Some [0x41, 0xB0, 0x07, 0xB0], Some [0x07, 0xC0], None, Some [0xDE, 0xA5, 0x3C], Some [0x69, 0x96]]))"
    unfolding sublist_def
    by (rule exI [of _ "[0x41, 0xB0, 0x07]"], rule exI [of _ "[]"]) (simp add: hal_boot_seq_def)
  then show ?thesis
    using console_resets_iff_sequence [of boot_fresh "\<lambda>_ s. s"
        "[Some [0x41, 0xB0, 0x07, 0xB0], Some [0x07, 0xC0], None, Some [0xDE, 0xA5, 0x3C], Some [0x69, 0x96]]"]
    by (simp add: boot_fresh_def)
qed

text \<open>While entry is disabled no stream resets the board or touches the block, yet the matcher
  keeps its place: re-enabling entry mid-sequence lets the rest of the sequence through.\<close>

theorem entry_disabled_keeps_matching:
  assumes "s_entry_disabled s" "s_pos s = 0"
  shows "\<exists>p. boot_feed_all call fs s = Returned () (s\<lparr>s_pos := p\<rparr>) \<and>
    (\<forall>k. 0 < k \<and> k < 8 \<and> suffix (take k hal_boot_seq) (concat (map buf_bytes fs)) \<longrightarrow> unat p = k)"
proof -
  let ?bs = "concat (map buf_bytes fs)"
  have "boot_sq.tracks [] (unat (s_pos s))" using assms(2) boot_sq.tracks_Nil by simp
  from feed_tracks [OF this, of ?bs call, unfolded append_Nil] obtain p where
    p: "boot_feed_bytes call ?bs s = Returned () (s\<lparr>s_pos := p\<rparr>)" "boot_sq.tracks ?bs (unat p)"
    using assms(1) by (subst (asm) if_not_P) auto
  have "unat p = k" if k: "0 < k" "k < 8" "suffix (take k hal_boot_seq) ?bs" for k
  proof -
    have t: "unat p < 8" "suffix (take (unat p) hal_boot_seq) ?bs" "\<not> unat p < k"
      using p(2) k by (auto simp: boot_sq.tracks_def)
    then show ?thesis
      using boot_sq.suffix_take_unique [OF t(2) k(3)] k by simp
  qed
  then show ?thesis using p(1) by (auto simp: boot_feed_all_bytes)
qed

theorem entry_disabled_keeps_matching_witness:
  "\<exists>p. boot_feed_all (\<lambda>_ s. s) [Some [0xB0, 0x07, 0xC0]] (hal_boot_entry_disable boot_fresh) =
      Returned () ((hal_boot_entry_disable boot_fresh)\<lparr>s_pos := p\<rparr>) \<and> unat p = 3"
proof -
  have s: "suffix (take 3 hal_boot_seq) [0xB0, 0x07, 0xC0]" by (simp add: hal_boot_seq_def)
  have "s_entry_disabled (hal_boot_entry_disable boot_fresh)" "s_pos (hal_boot_entry_disable boot_fresh) = 0"
    by (simp_all add: hal_boot_entry_disable_def boot_fresh_def)
  from entry_disabled_keeps_matching [OF this, of "\<lambda>_ s. s" "[Some [0xB0, 0x07, 0xC0]]"] obtain p where
    p: "boot_feed_all (\<lambda>_ s. s) [Some [0xB0, 0x07, 0xC0]] (hal_boot_entry_disable boot_fresh) =
      Returned () ((hal_boot_entry_disable boot_fresh)\<lparr>s_pos := p\<rparr>)"
    "\<forall>k. 0 < k \<and> k < 8 \<and> suffix (take k hal_boot_seq)
       (concat (map buf_bytes [Some [0xB0, 0x07, 0xC0]])) \<longrightarrow> unat p = k" by blast
  have "unat p = 3" using p(2) s by (auto dest!: spec [of _ 3])
  then show ?thesis using p(1) by blast
qed

text \<open>The block's operations, on a valid block: the request is read back until it is cleared,
  clearing it keeps the strikes, an attempt adds one strike and stops at the top instead of wrapping
  to a clean count, being healthy clears the strikes and keeps the request; each leaves the block
  valid. On an invalid block they report it and write nothing, and only the cold-boot seed makes it
  valid.\<close>

theorem boot_block_operations:
  "(if hal_boot_block_valid s then
     (let r = hal_boot_get_request s; a = hal_boot_get_attempts s;
          view = (\<lambda>t. (hal_boot_block_valid t, hal_boot_get_request t, hal_boot_get_attempts t))
      in hal_boot_block_init s = (HAL_OK, s) \<and>
         apsnd view (hal_boot_clear_request s) = (HAL_OK, True, HAL_BOOT_REQ_NONE, a) \<and>
         apsnd view (hal_boot_account_attempt s) =
           (HAL_OK, True, r, word_of_nat (min (unat a + 1) 0xFFFFFFFF)) \<and>
         apsnd view (hal_boot_mark_healthy s) = (HAL_OK, True, r, 0))
   else hal_boot_get_request s = HAL_BOOT_REQ_NONE \<and> hal_boot_get_attempts s = 0 \<and>
     hal_boot_clear_request s = (HAL_ERR_NOT_INITIALIZED, s) \<and>
     hal_boot_account_attempt s = (HAL_ERR_NOT_INITIALIZED, s) \<and>
     hal_boot_mark_healthy s = (HAL_ERR_NOT_INITIALIZED, s) \<and>
     hal_boot_block_valid (snd (hal_boot_block_init s)) \<and>
     hal_boot_get_request (snd (hal_boot_block_init s)) = HAL_BOOT_REQ_NONE \<and>
     hal_boot_get_attempts (snd (hal_boot_block_init s)) = 0)"
proof (cases "hal_boot_block_valid s")
  case True
  have sat: "word_of_nat (min (unat a + 1) 0xFFFFFFFF) = (if a < 0xFFFFFFFF then a + 1 else a)"
    for a :: u32
  proof (cases "a < 0xFFFFFFFF")
    case True
    then have "unat a < 0xFFFFFFFF" by (simp add: word_less_nat_alt)
    then show ?thesis using True by (simp add: min_def)
  next
    case False
    then have "unat a = 0xFFFFFFFF" using u32_bound [of a] by (simp add: word_less_nat_alt)
    then have "a = 0xFFFFFFFF" by (simp add: word_unat_eq_iff)
    then show ?thesis by simp
  qed
  show ?thesis
    using True unfolding sat
    by (simp add: hal_boot_block_init_def hal_boot_clear_request_def hal_boot_account_attempt_def
        hal_boot_mark_healthy_def hal_boot_get_request_def hal_boot_get_attempts_def Let_def)
next
  case False
  then show ?thesis
    by (simp add: hal_boot_block_init_def hal_boot_clear_request_def hal_boot_account_attempt_def
        hal_boot_mark_healthy_def hal_boot_get_request_def hal_boot_get_attempts_def Let_def)
qed



text \<open>The seal of a block that was not valid is not covered: garbage whose check word happens to fit
  the magic about to be written becomes valid after the first store, with whatever request it held,
  here the privileged one (finding).\<close>

theorem boot_block_cut_can_validate_garbage:
  "\<exists>s :: boot. \<not> hal_boot_block_valid s \<and>
     hal_boot_get_request (fold (\<lambda>w s. w s) (take 1 (block_seal_writes HAL_BOOT_REQ_NONE 0)) s) =
       HAL_BOOT_REQ_STAGE1"
proof -
  let ?s = "boot_fresh\<lparr>sboot_magic := 0, sboot_request := HAL_BOOT_REQ_STAGE1, sboot_attempts := 0,
    sboot_check := block_check HAL_BOOT_MAGIC HAL_BOOT_REQ_STAGE1 0\<rparr>"
  have "\<not> hal_boot_block_valid ?s" by (simp add: hal_boot_block_valid_def HAL_BOOT_MAGIC_def)
  moreover have "hal_boot_get_request
      (fold (\<lambda>w s. w s) (take 1 (block_seal_writes HAL_BOOT_REQ_NONE 0)) ?s) = HAL_BOOT_REQ_STAGE1"
    by (simp add: block_seal_writes_def hal_boot_get_request_def hal_boot_block_valid_def)
  ultimately show ?thesis by blast
qed

text \<open>A loader request either resets the board, with a valid block holding that request and
  the strikes unchanged, or is refused without a write: busy while entry is disabled, an invalid
  argument for anything but the two loader requests.\<close>

theorem request_target_outcomes:
  "(if s_entry_disabled s then hal_boot_request_target call request s = Returned HAL_ERR_BUSY s
    else if request = HAL_BOOT_REQ_LOADER \<or> request = HAL_BOOT_REQ_STAGE1
    then \<exists>t. hal_boot_request_target call request s =
        BoardReset (case s_prepare s of None \<Rightarrow> t | Some f \<Rightarrow> call f t) \<and>
      hal_boot_get_request t = request \<and> hal_boot_get_attempts t = hal_boot_get_attempts s \<and>
      fl_mem t = fl_mem s
    else hal_boot_request_target call request s = Returned HAL_ERR_INVALID_ARG s)"
proof -
  let ?t = "block_seal request (hal_boot_get_attempts s) s"
  have "boot_entry_state call request s = (case s_prepare s of None \<Rightarrow> ?t | Some f \<Rightarrow> call f ?t)"
    by (simp add: boot_entry_state_def Let_def)
  moreover have "hal_boot_get_request ?t = request" "hal_boot_get_attempts ?t = hal_boot_get_attempts s"
    by (simp_all add: hal_boot_get_request_def hal_boot_get_attempts_def [of ?t])
  moreover have "fl_mem ?t = fl_mem s" by (simp add: block_seal_eq)
  ultimately show ?thesis unfolding request_target_cases by auto
qed

end
