(* ===== verification/Fips_Roots.thy ===== *)
theory Fips_Roots
  imports Prelude Complex_Main
begin

text \<open>
  What FIPS 180-4 says without a table: bytes and words most significant first, and the constants of
  SHA-256 and SHA-512 as the leading bits of the fractional parts of roots of the first primes. The
  tables of the code are compared with these in Sha256 and Sha512.
\<close>

section \<open>Numbers and bytes\<close>

definition be_number :: "u8 list \<Rightarrow> nat" where
  "be_number bs = foldl (\<lambda>n b. 256 * n + unat b) 0 bs"

definition be_digits :: "nat \<Rightarrow> nat \<Rightarrow> u8 list" where
  "be_digits n v = map (\<lambda>i. word_of_nat (v div 256 ^ (n - 1 - i))) [0..<n]"

lemma be_digits_length [simp]: "length (be_digits n v) = n"
  by (simp add: be_digits_def)

section \<open>Roots of primes\<close>

text \<open>Eratosthenes below \<open>m\<close>: strike out multiples up to the square root. The eightieth prime is 409.\<close>

fun sieve :: "nat \<Rightarrow> nat list \<Rightarrow> nat list" where
  "sieve m [] = []"
| "sieve m (p # ns) =
     (if m \<le> p * p then p # ns else p # sieve m (filter (\<lambda>n. n mod p \<noteq> 0) ns))"

definition first_primes :: "nat list" where
  "first_primes = sieve 410 [2..<410]"

text \<open>The leading bits, as many as the word has, of the fractional part of the \<open>k\<close>-th root of \<open>p\<close>.\<close>

definition root_bits :: "nat \<Rightarrow> nat \<Rightarrow> 'a::len word" where
  "root_bits k p = word_of_int \<lfloor>2 ^ LENGTH('a) * frac (root k (real p))\<rfloor>"

lemma root_bits_eq:
  assumes k: "0 < k" and lo: "r ^ k \<le> p * 2 ^ (k * LENGTH('a))" and hi: "p * 2 ^ (k * LENGTH('a)) < (r + 1) ^ k"
  shows "(root_bits k p :: 'a::len word) = word_of_nat r"
proof -
  let ?w = "LENGTH('a)" and ?x = "root k (real p)"
  have s: "root k (real (p * 2 ^ (k * ?w))) = ?x * 2 ^ ?w"
    using k by (simp add: real_root_mult power_mult real_root_power_cancel mult.commute [of k])
  have a: "real r \<le> ?x * 2 ^ ?w"
  proof -
    have "real (r ^ k) \<le> real (p * 2 ^ (k * ?w))" using lo by (simp only: of_nat_le_iff)
    then have "root k (real r ^ k) \<le> root k (real (p * 2 ^ (k * ?w)))"
      using k by (simp only: of_nat_power real_root_le_iff)
    then show ?thesis using k by (simp only: s real_root_power_cancel of_nat_0_le_iff)
  qed
  have b: "?x * 2 ^ ?w < real (r + 1)"
  proof -
    have "real (p * 2 ^ (k * ?w)) < real ((r + 1) ^ k)" using hi by (simp only: of_nat_less_iff)
    then have "root k (real (p * 2 ^ (k * ?w))) < root k (real (r + 1) ^ k)"
      using k by (simp only: of_nat_power real_root_less_iff)
    then show ?thesis using k by (simp only: s real_root_power_cancel of_nat_0_le_iff)
  qed
  have f: "\<lfloor>?x * 2 ^ ?w\<rfloor> = int r" using a b by (intro floor_unique) auto
  have "2 ^ ?w * frac ?x = ?x * 2 ^ ?w - of_int (\<lfloor>?x\<rfloor> * 2 ^ ?w)" by (simp add: frac_def algebra_simps)
  then have "\<lfloor>2 ^ ?w * frac ?x\<rfloor> = int r - \<lfloor>?x\<rfloor> * 2 ^ ?w"
    by (simp only: floor_diff_of_int f)
  then show ?thesis by (simp add: root_bits_def)
qed

lemma first_primes_eq:
  "first_primes =
     [2, 3, 5, 7, 11, 13, 17, 19, 23, 29, 31, 37, 41, 43, 47, 53, 59, 61, 67, 71, 73, 79, 83, 89, 97, 101,
      103, 107, 109, 113, 127, 131, 137, 139, 149, 151, 157, 163, 167, 173, 179, 181, 191, 193, 197, 199,
      211, 223, 227, 229, 233, 239, 241, 251, 257, 263, 269, 271, 277, 281, 283, 293, 307, 311, 313, 317,
      331, 337, 347, 349, 353, 359, 367, 373, 379, 383, 389, 397, 401, 409]"
  by (simp add: first_primes_def)

lemma first_primes_length [simp]: "length first_primes = 80"
  by (simp add: first_primes_eq)

section \<open>Checking a table\<close>

text \<open>\<open>c\<close> is right for \<open>p\<close> if, put after the integer part \<open>i\<close>, it is the root rounded down.\<close>

fun root_table :: "nat \<Rightarrow> nat list \<Rightarrow> nat list \<Rightarrow> 'a::len word list \<Rightarrow> bool" where
  "root_table k (i # is) (p # ps) (c # cs) =
     (let r = i * 2 ^ LENGTH('a) + unat c; n = p * 2 ^ (k * LENGTH('a))
      in r ^ k \<le> n \<and> n < (r + 1) ^ k \<and> root_table k is ps cs)"
| "root_table k is ps cs = (is = [] \<and> ps = [] \<and> cs = [])"

lemma root_table_sound: "root_table k is ps cs \<Longrightarrow> 0 < k \<Longrightarrow> map (root_bits k) ps = cs"
proof (induction k "is" ps cs rule: root_table.induct)
  case (1 k i "is" p ps c cs)
  obtain r where r: "r = i * 2 ^ LENGTH('a) + unat c" by blast
  have "(word_of_nat r :: 'a word) = c"
    by (simp only: word_unat_eq_iff) (simp add: r unsigned_of_nat take_bit_eq_mod)
  moreover have "root_bits k p = (word_of_nat r :: 'a word)"
    using 1(2,3) by (intro root_bits_eq) (simp_all only: root_table.simps Let_def r)
  ultimately show ?case using 1 by (simp only: root_table.simps Let_def list.map)
qed (simp_all only: root_table.simps list.map)

end
