(* ===== verification/Sha256.thy ===== *)
theory Sha256
  imports Fips_Roots
begin

text \<open>
  The image digest: src/utils/crypto/sha256/sha256.c and src/utils/crypto/boot_hash.c, with the
  FIPS 180-4 definition of SHA-256 (message schedule, padding, block chaining) they are shown to
  compute for every message and every way of feeding it.
\<close>

section \<open>Macros\<close>

definition ROTRIGHT :: "u32 \<Rightarrow> nat \<Rightarrow> u32" where
  "ROTRIGHT a b = drop_bit b a OR push_bit (32 - b) a"

definition CH :: "u32 \<Rightarrow> u32 \<Rightarrow> u32 \<Rightarrow> u32" where
  "CH x y z = (x AND y) XOR (NOT x AND z)"

definition MAJ :: "u32 \<Rightarrow> u32 \<Rightarrow> u32 \<Rightarrow> u32" where
  "MAJ x y z = (x AND y) XOR (x AND z) XOR (y AND z)"

definition EP0 :: "u32 \<Rightarrow> u32" where
  "EP0 x = ROTRIGHT x 2 XOR ROTRIGHT x 13 XOR ROTRIGHT x 22"

definition EP1 :: "u32 \<Rightarrow> u32" where
  "EP1 x = ROTRIGHT x 6 XOR ROTRIGHT x 11 XOR ROTRIGHT x 25"

definition SIG0 :: "u32 \<Rightarrow> u32" where
  "SIG0 x = ROTRIGHT x 7 XOR ROTRIGHT x 18 XOR drop_bit 3 x"

definition SIG1 :: "u32 \<Rightarrow> u32" where
  "SIG1 x = ROTRIGHT x 17 XOR ROTRIGHT x 19 XOR drop_bit 10 x"

text \<open>The round constants, a row of the source's table at a time.\<close>

definition sha_k_row0 :: "u32 list" where
  "sha_k_row0 =
     [0x428a2f98, 0x71374491, 0xb5c0fbcf, 0xe9b5dba5,
      0x3956c25b, 0x59f111f1, 0x923f82a4, 0xab1c5ed5]"

definition sha_k_row1 :: "u32 list" where
  "sha_k_row1 =
     [0xd807aa98, 0x12835b01, 0x243185be, 0x550c7dc3,
      0x72be5d74, 0x80deb1fe, 0x9bdc06a7, 0xc19bf174]"

definition sha_k_row2 :: "u32 list" where
  "sha_k_row2 =
     [0xe49b69c1, 0xefbe4786, 0x0fc19dc6, 0x240ca1cc,
      0x2de92c6f, 0x4a7484aa, 0x5cb0a9dc, 0x76f988da]"

definition sha_k_row3 :: "u32 list" where
  "sha_k_row3 =
     [0x983e5152, 0xa831c66d, 0xb00327c8, 0xbf597fc7,
      0xc6e00bf3, 0xd5a79147, 0x06ca6351, 0x14292967]"

definition sha_k_row4 :: "u32 list" where
  "sha_k_row4 =
     [0x27b70a85, 0x2e1b2138, 0x4d2c6dfc, 0x53380d13,
      0x650a7354, 0x766a0abb, 0x81c2c92e, 0x92722c85]"

definition sha_k_row5 :: "u32 list" where
  "sha_k_row5 =
     [0xa2bfe8a1, 0xa81a664b, 0xc24b8b70, 0xc76c51a3,
      0xd192e819, 0xd6990624, 0xf40e3585, 0x106aa070]"

definition sha_k_row6 :: "u32 list" where
  "sha_k_row6 =
     [0x19a4c116, 0x1e376c08, 0x2748774c, 0x34b0bcb5,
      0x391c0cb3, 0x4ed8aa4a, 0x5b9cca4f, 0x682e6ff3]"

definition sha_k_row7 :: "u32 list" where
  "sha_k_row7 =
     [0x748f82ee, 0x78a5636f, 0x84c87814, 0x8cc70208,
      0x90befffa, 0xa4506ceb, 0xbef9a3f7, 0xc67178f2]"

definition sha_k :: "u32 list" where
  "sha_k = sha_k_row0 @ sha_k_row1 @ sha_k_row2 @ sha_k_row3 @ sha_k_row4 @ sha_k_row5 @ sha_k_row6 @
     sha_k_row7"

section \<open>The context and its operations\<close>

record sha256_ctx =
  sha_data :: "u8 list"
  sha_datalen :: u32
  sha_bitlen :: u64
  sha_state :: "u32 list"

text \<open>\<open>m[i]\<close> for \<open>i < 16\<close>, then the schedule loop extending \<open>m\<close> one word at a time up to 64.\<close>

definition sha_schedule_init :: "u8 list \<Rightarrow> u32 list" where
  "sha_schedule_init data =
     map (\<lambda>i. be32 (data ! (4 * i)) (data ! (4 * i + 1)) (data ! (4 * i + 2)) (data ! (4 * i + 3)))
       [0..<16]"

definition sha_schedule_step :: "u32 list \<Rightarrow> nat \<Rightarrow> u32 list" where
  "sha_schedule_step m i =
     m @ [SIG1 (m ! (i - 2)) + m ! (i - 7) + SIG0 (m ! (i - 15)) + m ! (i - 16)]"

type_synonym sha_regs = "u32 \<times> u32 \<times> u32 \<times> u32 \<times> u32 \<times> u32 \<times> u32 \<times> u32"

definition sha_round :: "u32 list \<Rightarrow> sha_regs \<Rightarrow> nat \<Rightarrow> sha_regs" where
  "sha_round m r i =
     (case r of (a, b, c, d, e, f, g, h) \<Rightarrow>
        let t1 = h + EP1 e + CH e f g + sha_k ! i + m ! i;
            t2 = EP0 a + MAJ a b c
        in (t1 + t2, a, b, c, d + t1, e, f, g))"

definition sha_add :: "u32 list \<Rightarrow> sha_regs \<Rightarrow> u32 list" where
  "sha_add st r =
     (case r of (a, b, c, d, e, f, g, h) \<Rightarrow>
        [st ! 0 + a, st ! 1 + b, st ! 2 + c, st ! 3 + d, st ! 4 + e, st ! 5 + f, st ! 6 + g, st ! 7 + h])"

definition sha_regs_of :: "u32 list \<Rightarrow> sha_regs" where
  "sha_regs_of st = (st ! 0, st ! 1, st ! 2, st ! 3, st ! 4, st ! 5, st ! 6, st ! 7)"

definition sha256_transform :: "u8 list \<Rightarrow> sha256_ctx \<Rightarrow> sha256_ctx" where
  "sha256_transform data ctx =
     (let m = foldl sha_schedule_step (sha_schedule_init data) [16..<64]
      in ctx\<lparr>sha_state := sha_add (sha_state ctx)
           (foldl (sha_round m) (sha_regs_of (sha_state ctx)) [0..<64])\<rparr>)"

text \<open>\<open>junk\<close> is what the stack holds in the part of the context \<open>sha256_init\<close> leaves alone.\<close>

definition sha_IV :: "u32 list" where
  "sha_IV = [0x6a09e667, 0xbb67ae85, 0x3c6ef372, 0xa54ff53a, 0x510e527f, 0x9b05688c, 0x1f83d9ab,
     0x5be0cd19]"

definition sha256_init :: "u8 list \<Rightarrow> sha256_ctx" where
  "sha256_init junk = \<lparr>sha_data = junk, sha_datalen = 0, sha_bitlen = 0, sha_state = sha_IV\<rparr>"

definition sha256_update_byte :: "sha256_ctx \<Rightarrow> u8 \<Rightarrow> sha256_ctx" where
  "sha256_update_byte ctx b =
     (let ctx = ctx\<lparr>sha_data := (sha_data ctx)[unat (sha_datalen ctx) := b],
                     sha_datalen := sha_datalen ctx + 1\<rparr>
      in if sha_datalen ctx = 64
         then let ctx = sha256_transform (sha_data ctx) ctx
              in ctx\<lparr>sha_bitlen := sha_bitlen ctx + 512, sha_datalen := 0\<rparr>
         else ctx)"

definition sha256_update :: "sha256_ctx \<Rightarrow> u8 list \<Rightarrow> sha256_ctx" where
  "sha256_update ctx data = foldl sha256_update_byte ctx data"

text \<open>\<open>data[i++] = 0x80; while (i < n) data[i++] = 0;\<close> from \<open>i = datalen\<close>.\<close>

definition sha_pad_to :: "nat \<Rightarrow> nat \<Rightarrow> u8 list \<Rightarrow> u8 list" where
  "sha_pad_to n i d = foldl (\<lambda>d j. d[j := 0]) (d[i := 0x80]) [i + 1..<n]"

definition sha256_final :: "sha256_ctx \<Rightarrow> u8 list" where
  "sha256_final ctx0 =
     (let i = unat (sha_datalen ctx0);
          ctx1 = (if sha_datalen ctx0 < 56 then ctx0\<lparr>sha_data := sha_pad_to 56 i (sha_data ctx0)\<rparr>
                  else let d = sha_pad_to 64 i (sha_data ctx0);
                           c = sha256_transform d (ctx0\<lparr>sha_data := d\<rparr>)
                       in c\<lparr>sha_data := replicate 56 0 @ drop 56 d\<rparr>);
          ctx2 = ctx1\<lparr>sha_bitlen := sha_bitlen ctx1 + ucast (sha_datalen ctx1 * 8)\<rparr>;
          bl = sha_bitlen ctx2;
          ctx3 = ctx2\<lparr>sha_data := (sha_data ctx2)
            [63 := byte_of 0 bl, 62 := byte_of 1 bl, 61 := byte_of 2 bl, 60 := byte_of 3 bl,
             59 := byte_of 4 bl, 58 := byte_of 5 bl, 57 := byte_of 6 bl, 56 := byte_of 7 bl]\<rparr>;
          ctx4 = sha256_transform (sha_data ctx3) ctx3
      in concat (map (\<lambda>w. [byte_of 3 w, byte_of 2 w, byte_of 1 w, byte_of 0 w]) (sha_state ctx4)))"

section \<open>boot_hash.c\<close>

text \<open>
  A buffer is a pointer (\<open>None\<close> for NULL) and a length; \<open>out_null\<close> says the output pointer is
  NULL. The result is the status and the bytes written to \<open>out\<close>.
\<close>

definition hal_boot_hash ::
    "u8 list \<Rightarrow> bool \<Rightarrow> u8 list option \<Rightarrow> nat \<Rightarrow> hal_status \<times> u8 list" where
  "hal_boot_hash junk out_null data len =
     (if out_null \<or> (data = None \<and> len \<noteq> 0) then (HAL_ERR_INVALID_ARG, [])
      else (HAL_OK, sha256_final (sha256_update (sha256_init junk) (take len (buf_bytes data)))))"

definition hal_boot_hash_split ::
    "u8 list \<Rightarrow> bool \<Rightarrow> u8 list option \<Rightarrow> nat \<Rightarrow> u8 list option \<Rightarrow> nat \<Rightarrow> hal_status \<times> u8 list" where
  "hal_boot_hash_split junk out_null a a_len b b_len =
     (if out_null \<or> (a = None \<and> a_len \<noteq> 0) \<or> (b = None \<and> b_len \<noteq> 0) then (HAL_ERR_INVALID_ARG, [])
      else
        let ctx0 = sha256_init junk;
            ctx1 = (if a_len \<noteq> 0 then sha256_update ctx0 (take a_len (buf_bytes a)) else ctx0);
            ctx2 = (if b_len \<noteq> 0 then sha256_update ctx1 (take b_len (buf_bytes b)) else ctx1)
        in (HAL_OK, sha256_final ctx2))"

section \<open>SHA-256 as FIPS 180-4 defines it\<close>

text \<open>
  Stated from the standard and sharing nothing with the code: numbers most significant byte first, the
  rotations of \<open>word_rotr\<close>, the constants from the roots of the primes (theory Fips_Roots).
\<close>

definition Sigma0_256 :: "u32 \<Rightarrow> u32" where
  "Sigma0_256 x = word_rotr 2 x XOR word_rotr 13 x XOR word_rotr 22 x"

definition Sigma1_256 :: "u32 \<Rightarrow> u32" where
  "Sigma1_256 x = word_rotr 6 x XOR word_rotr 11 x XOR word_rotr 25 x"

definition sigma0_256 :: "u32 \<Rightarrow> u32" where
  "sigma0_256 x = word_rotr 7 x XOR word_rotr 18 x XOR drop_bit 3 x"

definition sigma1_256 :: "u32 \<Rightarrow> u32" where
  "sigma1_256 x = word_rotr 17 x XOR word_rotr 19 x XOR drop_bit 10 x"

definition fips_Ch :: "u32 \<Rightarrow> u32 \<Rightarrow> u32 \<Rightarrow> u32" where
  "fips_Ch x y z = (x AND y) XOR (NOT x AND z)"

definition fips_Maj :: "u32 \<Rightarrow> u32 \<Rightarrow> u32 \<Rightarrow> u32" where
  "fips_Maj x y z = (x AND y) XOR (x AND z) XOR (y AND z)"

text \<open>Cube roots of the first 64 primes, square roots of the first 8.\<close>

definition fips_K :: "nat \<Rightarrow> u32" where
  "fips_K t = root_bits 3 (first_primes ! t)"

definition fips_IV :: "u32 list" where
  "fips_IV = map (root_bits 2) (take 8 first_primes)"

fun fips_W :: "u8 list \<Rightarrow> nat \<Rightarrow> u32" where
  "fips_W M t =
     (if t < 16 then word_of_nat (be_number (take 4 (drop (4 * t) M)))
      else sigma1_256 (fips_W M (t - 2)) + fips_W M (t - 7) + sigma0_256 (fips_W M (t - 15)) +
        fips_W M (t - 16))"

declare fips_W.simps [simp del]

text \<open>The working variables \<open>a\<close> to \<open>h\<close> are a list of eight words.\<close>

definition fips_round :: "u8 list \<Rightarrow> u32 list \<Rightarrow> nat \<Rightarrow> u32 list" where
  "fips_round M v t =
     (let T1 = v ! 7 + Sigma1_256 (v ! 4) + fips_Ch (v ! 4) (v ! 5) (v ! 6) + fips_K t + fips_W M t;
          T2 = Sigma0_256 (v ! 0) + fips_Maj (v ! 0) (v ! 1) (v ! 2)
      in [T1 + T2, v ! 0, v ! 1, v ! 2, v ! 3 + T1, v ! 4, v ! 5, v ! 6])"

text \<open>One block: 64 rounds from the chaining value, added to it.\<close>

definition fips_compress :: "u32 list \<Rightarrow> u8 list \<Rightarrow> u32 list" where
  "fips_compress H M = map2 (+) H (foldl (fips_round M) H [0..<64])"

function fips_blocks :: "u32 list \<Rightarrow> u8 list \<Rightarrow> u32 list" where
  "fips_blocks H bs =
     (if length bs < 64 then H else fips_blocks (fips_compress H (take 64 bs)) (drop 64 bs))"
  by pat_completeness auto
termination
  by (relation "measure (\<lambda>(H, bs). length bs)") auto

declare fips_blocks.simps [simp del]

text \<open>A one bit, the fewest zeros that leave 8 bytes of a block, the length in bits.\<close>

definition fips_pad :: "u8 list \<Rightarrow> u8 list" where
  "fips_pad msg = msg @ 0x80 # replicate ((119 - length msg mod 64) mod 64) 0 @
     be_digits 8 (8 * length msg)"

definition fips_sha256 :: "u8 list \<Rightarrow> u8 list" where
  "fips_sha256 msg = concat (map (\<lambda>w. be_digits 4 (unat w)) (fips_blocks fips_IV (fips_pad msg)))"

section \<open>The code's words, tables and bytes are those of the standard\<close>

lemma ROTRIGHT_rotr: "0 < n \<Longrightarrow> n < 32 \<Longrightarrow> ROTRIGHT x n = word_rotr n x"
proof (rule bit_word_eqI)
  fix k assume n: "0 < n" "n < 32" and k: "k < LENGTH(32)"
  show "bit (ROTRIGHT x n) k = bit (word_rotr n x) k"
  proof (cases "k + n < 32")
    case True
    then show ?thesis using n k by (auto simp: ROTRIGHT_def bit_simps add.commute [of n k])
  next
    case False
    then have "(k + n) mod 32 = k - (32 - n)" using n k by (simp add: mod_if)
    then show ?thesis using n k False bit_imp_le_length [of x "n + k"]
      by (auto simp: ROTRIGHT_def bit_simps add.commute)
  qed
qed

lemmas sha_macros_fips =
  EP0_def EP1_def SIG0_def SIG1_def CH_def MAJ_def ROTRIGHT_rotr
  Sigma0_256_def Sigma1_256_def sigma0_256_def sigma1_256_def fips_Ch_def fips_Maj_def

lemma SIG_fips: "SIG0 x = sigma0_256 x" "SIG1 x = sigma1_256 x"
  by (simp_all add: sha_macros_fips)

lemma sha_IV_fips: "sha_IV = fips_IV"
  unfolding fips_IV_def
  by (rule root_table_sound [of _ "[1, 1, 2, 2, 3, 3, 4, 4]", symmetric])
     (simp_all add: first_primes_eq sha_IV_def)

lemmas sha_k_rows =
  sha_k_def sha_k_row0_def sha_k_row1_def sha_k_row2_def sha_k_row3_def sha_k_row4_def sha_k_row5_def
  sha_k_row6_def sha_k_row7_def

lemma sha_k_table: "map (root_bits 3) (take 64 first_primes) = sha_k"
  by (rule root_table_sound [of _ "[1, 1, 1, 1, 2, 2, 2, 2, 2, 3, 3, 3, 3, 3, 3, 3, 3, 3, 4, 4, 4, 4, 4, 4, 4, 4, 4, 4, 4, 4, 5, 5, 5,
        5, 5, 5, 5, 5, 5, 5, 5, 5, 5, 5, 5, 5, 5, 6, 6, 6, 6, 6, 6, 6, 6, 6, 6, 6, 6, 6, 6, 6, 6, 6]"])
     (simp_all add: first_primes_eq sha_k_rows)

lemma sha_k_fips: "t < 64 \<Longrightarrow> sha_k ! t = fips_K t"
  by (simp add: fips_K_def flip: sha_k_table)

lemma shift_or_plus32: "push_bit 8 r OR ucast b = 256 * r + ucast (b :: u8)" for r :: u32
proof -
  have "push_bit 8 r AND (ucast b :: u32) = 0"
    by (rule bit_word_eqI) (auto simp: bit_simps dest: bit_imp_le_length)
  then have "push_bit 8 r OR ucast b = push_bit 8 r + ucast b" by (simp add: disjunctive_add_eq_or)
  then show ?thesis by (simp add: push_bit_eq_mult mult.commute)
qed

lemma be32_number: "4 \<le> length bs \<Longrightarrow> be32 (bs ! 0) (bs ! 1) (bs ! 2) (bs ! 3) = word_of_nat (be_number (take 4 bs))"
proof -
  assume "4 \<le> length bs"
  then have t: "take 4 bs = [bs ! 0, bs ! 1, bs ! 2, bs ! 3]"
    by (intro nth_equalityI) (auto simp: nth_Cons less_Suc_eq numeral_eq_Suc split: nat.split)
  have "be32 a b c d = word_of_nat (be_number [a, b, c, d])" for a b c d
  proof -
    have "be32 a b c d = push_bit 8 (push_bit 8 (push_bit 8 (ucast a) OR ucast b) OR ucast c) OR ucast d"
      by (simp add: be32_def push_bit_or or.assoc)
    then show ?thesis by (simp add: shift_or_plus32 be_number_def)
  qed
  then show ?thesis by (simp only: t)
qed

lemma byte_of_digit: "byte_of i w = (word_of_nat (unat w div 256 ^ i) :: u8)" for w :: "'a::len word"
proof -
  have "unat w div 256 ^ i = drop_bit (8 * i) (unat w)" by (simp add: drop_bit_eq_div power_mult)
  then show ?thesis by (intro bit_word_eqI) (simp add: bit_byte_of bit_simps)
qed

lemma word_digits: "[byte_of 3 w, byte_of 2 w, byte_of 1 w, byte_of 0 w] = be_digits 4 (unat (w :: u32))"
  by (simp add: be_digits_def byte_of_digit upt_rec)

text \<open>The eight length bytes.\<close>

definition be64_bytes :: "u64 \<Rightarrow> u8 list" where
  "be64_bytes v = [byte_of 7 v, byte_of 6 v, byte_of 5 v, byte_of 4 v, byte_of 3 v, byte_of 2 v,
     byte_of 1 v, byte_of 0 v]"

lemma be64_digits: "be64_bytes (word_of_nat n) = be_digits 8 n"
proof -
  have "byte_of i (word_of_nat n :: u64) = word_of_nat (n div 256 ^ i)" if "i < 8" for i
  proof -
    have "n div 256 ^ i = drop_bit (8 * i) n" by (simp add: drop_bit_eq_div power_mult)
    then show ?thesis using that by (intro bit_word_eqI) (simp add: bit_byte_of bit_simps)
  qed
  then show ?thesis by (simp add: be64_bytes_def be_digits_def upt_rec)
qed

section \<open>The schedule\<close>

lemma schedule_prefix:
  assumes "n \<le> 48" and d: "64 \<le> length data"
  shows "foldl sha_schedule_step (sha_schedule_init data) [16..<16 + n] = map (fips_W data) [0..<16 + n]"
  using assms(1)
proof (induction n)
  case 0
  have "be32 (data ! (4 * i)) (data ! (4 * i + 1)) (data ! (4 * i + 2)) (data ! (4 * i + 3)) = fips_W data i"
    if "i < 16" for i
    using be32_number [of "drop (4 * i) data"] that d by (simp add: fips_W.simps)
  then show ?case by (simp add: sha_schedule_init_def)
next
  case (Suc n)
  let ?m = "map (fips_W data) [0..<16 + n]"
  have "foldl sha_schedule_step (sha_schedule_init data) ([16..<16 + n] @ [16 + n]) =
      sha_schedule_step ?m (16 + n)"
    using Suc by simp
  also have "\<dots> = ?m @ [fips_W data (16 + n)]"
  proof -
    have "fips_W data (n + 16) = SIG1 (?m ! (n + 16 - 2)) + ?m ! (n + 16 - 7) + SIG0 (?m ! (n + 16 - 15)) +
        ?m ! (n + 16 - 16)"
      by (subst fips_W.simps) (simp add: SIG_fips)
    then show ?thesis by (simp only: sha_schedule_step_def add.commute [of 16 n])
  qed
  finally have "foldl sha_schedule_step (sha_schedule_init data) ([16..<16 + n] @ [16 + n]) =
      map (fips_W data) ([0..<16 + n] @ [16 + n])"
    by simp
  then show ?case by (simp only: add_Suc_right upt_Suc le_add1 le0 if_True)
qed

text \<open>The eight variables of the code's loop, in the order of the standard's list.\<close>

definition sha_regs_list :: "sha_regs \<Rightarrow> u32 list" where
  "sha_regs_list r = (case r of (a, b, c, d, e, f, g, h) \<Rightarrow> [a, b, c, d, e, f, g, h])"

lemma sha_round_fips:
  assumes "i < 64" "m ! i = fips_W M i"
  shows "sha_regs_list (sha_round m r i) = fips_round M (sha_regs_list r) i"
  using assms
  by (simp add: sha_regs_list_def sha_round_def fips_round_def sha_macros_fips sha_k_fips Let_def
        split: prod.split)

lemma sha_rounds_fips:
  assumes "\<And>i. i < 64 \<Longrightarrow> m ! i = fips_W M i" "n \<le> 64"
  shows "sha_regs_list (foldl (sha_round m) r [0..<n]) = foldl (fips_round M) (sha_regs_list r) [0..<n]"
  using assms(2)
proof (induction n)
  case (Suc n)
  then show ?case by (simp add: sha_round_fips assms(1))
qed simp

lemma list_of_eight: "length xs = 8 \<Longrightarrow> xs = [xs ! 0, xs ! 1, xs ! 2, xs ! 3, xs ! 4, xs ! 5, xs ! 6, xs ! 7]"
  by (intro nth_equalityI) (auto simp: nth_Cons less_Suc_eq numeral_eq_Suc split: nat.split)

lemma sha_add_fips: "length H = 8 \<Longrightarrow> sha_add H r = map2 (+) H (sha_regs_list r)"
  by (subst (2) list_of_eight) (auto simp: sha_add_def sha_regs_list_def split: prod.split)

lemma sha256_transform_eq:
  assumes "length (sha_state ctx) = 8" "64 \<le> length data"
  shows "sha256_transform data ctx = ctx\<lparr>sha_state := fips_compress (sha_state ctx) data\<rparr>"
proof -
  have "foldl sha_schedule_step (sha_schedule_init data) [16..<64] = map (fips_W data) [0..<64]"
    using schedule_prefix [of 48 data] assms by (simp only: order_refl True_implies_equals arith_simps)
  moreover have "sha_regs_list (sha_regs_of (sha_state ctx)) = sha_state ctx"
    using list_of_eight [OF assms(1)] by (simp add: sha_regs_list_def sha_regs_of_def)
  ultimately show ?thesis
    using sha_rounds_fips [of "map (fips_W data) [0..<64]" data 64 "sha_regs_of (sha_state ctx)"]
    by (simp add: sha256_transform_def fips_compress_def Let_def sha_add_fips assms(1) del: upt_rec_numeral)
qed

lemma fips_W_take:
  assumes "64 \<le> length bs"
  shows "fips_W (take 64 bs) t = fips_W bs t"
proof (induction t rule: less_induct)
  case (less t)
  then show ?case using assms by (subst (1 2) fips_W.simps) (simp add: drop_take min_def)
qed

lemma fips_compress_take: "64 \<le> length bs \<Longrightarrow> fips_compress H (take 64 bs) = fips_compress H bs"
  by (simp add: fips_compress_def fips_round_def [abs_def] fips_W_take del: upt_rec_numeral)

text \<open>A chaining value has eight words.\<close>

lemma fips_round_length: "length (fips_round M v t) = 8"
  by (simp add: fips_round_def Let_def)

lemma fips_compress_length: "length H = 8 \<Longrightarrow> length (fips_compress H M) = 8"
proof -
  have "length (foldl (fips_round M) H ts) = 8" if "length H = 8" for ts
    using that by (induction ts rule: rev_induct) (simp_all add: fips_round_length)
  then show "length H = 8 \<Longrightarrow> length (fips_compress H M) = 8" by (simp add: fips_compress_def)
qed

lemma fips_blocks_length: "length H = 8 \<Longrightarrow> length (fips_blocks H bs) = 8"
proof (induction H bs rule: fips_blocks.induct)
  case (1 H bs)
  then show ?case by (subst fips_blocks.simps) (simp add: fips_compress_length)
qed

lemma fips_IV_length [simp]: "length fips_IV = 8"
  by (simp add: fips_IV_def)

section \<open>Blocks\<close>

lemma fips_blocks_append:
  "length a mod 64 = 0 \<Longrightarrow> fips_blocks H (a @ b) = fips_blocks (fips_blocks H a) b"
proof (induction "length a" arbitrary: H a rule: less_induct)
  case less
  show ?case
  proof (cases "length a < 64")
    case True
    then have "a = []" using less.prems by simp
    then show ?thesis by (simp add: fips_blocks.simps [of _ "[]"])
  next
    case False
    then have "fips_blocks (fips_compress H (take 64 a)) (drop 64 a @ b) =
        fips_blocks (fips_blocks (fips_compress H (take 64 a)) (drop 64 a)) b"
      using less.prems by (intro less.hyps) (auto simp: le_mod_geq)
    then show ?thesis
      using False by (simp add: fips_blocks.simps [of H "a @ b"] fips_blocks.simps [of H a])
  qed
qed

lemma fips_blocks_one: "length b = 64 \<Longrightarrow> fips_blocks H b = fips_compress H b"
  by (simp add: fips_blocks.simps)

lemma fips_blocks_two:
  "length a = 64 \<Longrightarrow> length b = 64 \<Longrightarrow> fips_blocks H (a @ b) = fips_compress (fips_compress H a) b"
  by (simp add: fips_blocks_append fips_blocks_one)

section \<open>The context while a message is absorbed\<close>

text \<open>
  What \<open>ctx\<close> holds once \<open>msg\<close> has been fed: the chaining value of its full blocks, the bytes
  after them at the front of the buffer, their number, and the bits of the full blocks.
\<close>

definition sha_absorbed :: "sha256_ctx \<Rightarrow> u8 list \<Rightarrow> bool" where
  "sha_absorbed ctx msg \<longleftrightarrow>
     length (sha_data ctx) = 64 \<and> sha_datalen ctx = word_of_nat (length msg mod 64) \<and>
     take (length msg mod 64) (sha_data ctx) = drop (64 * (length msg div 64)) msg \<and>
     sha_bitlen ctx = word_of_nat (512 * (length msg div 64)) \<and>
     sha_state ctx = fips_blocks fips_IV (take (64 * (length msg div 64)) msg)"

lemma sha_absorbed_init: "length junk = 64 \<Longrightarrow> sha_absorbed (sha256_init junk) []"
  by (simp add: sha_absorbed_def sha256_init_def fips_blocks.simps sha_IV_fips)

lemma unat_mod64: "unat (word_of_nat (n mod 64) :: u32) = n mod 64"
proof -
  have "n mod 64 < 64" by simp
  then have "n mod 64 < 2 ^ LENGTH(32)" by (rule less_trans) simp
  then show ?thesis by (simp add: unsigned_of_nat take_bit_nat_eq_self)
qed

lemma sha_absorbed_byte:
  assumes a: "sha_absorbed ctx msg"
  shows "sha_absorbed (sha256_update_byte ctx b) (msg @ [b])"
proof -
  let ?r = "length msg mod 64" and ?q = "length msg div 64"
  obtain d where d: "d = (sha_data ctx)[?r := b]" by blast
  have len: "length (sha_data ctx) = 64" "length d = 64" using a by (auto simp: sha_absorbed_def d)
  have dl: "unat (sha_datalen ctx) = ?r"
    using a by (simp only: sha_absorbed_def unat_mod64)
  have r: "?r < 64" by simp
  have st: "length (sha_state ctx) = 8"
    using a by (simp add: sha_absorbed_def fips_blocks_length)
  have tk: "take (Suc ?r) d = drop (64 * ?q) (msg @ [b])"
    using a r len by (simp add: sha_absorbed_def d take_Suc_conv_app_nth)
  show ?thesis
  proof (cases "?r = 63")
    case True
    then have dv: "Suc (length msg) div 64 = Suc ?q" "Suc (length msg) mod 64 = 0"
      and lm: "length msg = 64 * ?q + 63"
      by (simp_all add: div_Suc mod_Suc) (metis True mult_div_mod_eq)
    have s: "sha_datalen ctx + 1 = 64"
      using a True by (simp add: sha_absorbed_def)
    have blk: "d = drop (64 * ?q) (msg @ [b])" using tk True len by simp
    have "take (64 * ?q) (msg @ [b]) = take (64 * ?q) msg" by simp
    then have "msg @ [b] = take (64 * ?q) msg @ d"
      using append_take_drop_id [of "64 * ?q" "msg @ [b]"] by (metis blk)
    then have "fips_blocks fips_IV (msg @ [b]) = fips_compress (sha_state ctx) d"
      using a lm len by (simp add: fips_blocks_append fips_blocks_one sha_absorbed_def)
    moreover have "sha256_update_byte ctx b = ctx\<lparr>sha_data := d, sha_datalen := 0,
        sha_bitlen := sha_bitlen ctx + 512, sha_state := fips_compress (sha_state ctx) d\<rparr>"
      using s True by (simp add: sha256_update_byte_def sha256_transform_eq st len Let_def dl d)
    ultimately show ?thesis
      using a len lm dv by (simp add: sha_absorbed_def)
  next
    case False
    then have dv: "Suc (length msg) div 64 = ?q" "Suc (length msg) mod 64 = Suc ?r"
      by (simp_all add: div_Suc mod_Suc)
    have u: "unat (sha_datalen ctx + 1) = Suc ?r" using dl r by (simp add: unat_word_ariths)
    then have s: "sha_datalen ctx + 1 \<noteq> 64" using False r by auto
    have e: "sha_datalen ctx + 1 = word_of_nat (Suc ?r)" 
      using a by (simp add: sha_absorbed_def add.commute)
    have "sha256_update_byte ctx b = ctx\<lparr>sha_data := d, sha_datalen := word_of_nat (Suc ?r)\<rparr>"
      using s by (simp add: sha256_update_byte_def Let_def dl d e del: of_nat_Suc)
    then show ?thesis
      using a len tk dv by (simp add: sha_absorbed_def)
  qed
qed

lemma sha_absorbed_update:
  "sha_absorbed ctx msg \<Longrightarrow> sha_absorbed (sha256_update ctx bs) (msg @ bs)"
proof (induction bs arbitrary: ctx msg)
  case (Cons b bs)
  show ?case
    using Cons.IH [OF sha_absorbed_byte [OF Cons.prems]] by (simp add: sha256_update_def)
qed (simp add: sha256_update_def)

section \<open>Padding\<close>

lemma zero_fill:
  assumes "i \<le> n" "n \<le> length d"
  shows "foldl (\<lambda>d j. d[j := 0]) d [i..<n] = take i d @ replicate (n - i) 0 @ drop n d"
  using assms
proof (induction "n - i" arbitrary: i d)
  case 0
  then show ?case by simp
next
  case (Suc k)
  then have "i < n" by simp
  then have "foldl (\<lambda>d j. d[j := 0]) d [i..<n] = foldl (\<lambda>d j. d[j := 0]) (d[i := 0]) [Suc i..<n]"
    by (simp add: upt_conv_Cons)
  also have "\<dots> = take (Suc i) (d[i := 0]) @ replicate (n - Suc i) 0 @ drop n (d[i := 0])"
    using Suc by (intro Suc.hyps) auto
  also have "\<dots> = take i d @ replicate (n - i) 0 @ drop n d"
    using \<open>i < n\<close> Suc.prems
    by (simp add: take_Suc_conv_app_nth Suc_diff_Suc [OF \<open>i < n\<close>, symmetric])
  finally show ?case .
qed

lemma sha_pad_to_eq:
  assumes "i < n" "n \<le> length d"
  shows "sha_pad_to n i d = take i d @ 0x80 # replicate (n - Suc i) 0 @ drop n d"
  using assms by (simp add: sha_pad_to_def zero_fill take_Suc_conv_app_nth)

lemma sha_length_bytes:
  assumes "length d = 64"
  shows "d[63 := byte_of 0 bl, 62 := byte_of 1 bl, 61 := byte_of 2 bl, 60 := byte_of 3 bl,
           59 := byte_of 4 bl, 58 := byte_of 5 bl, 57 := byte_of 6 bl, 56 := byte_of 7 bl]
         = take 56 d @ be64_bytes bl"
proof -
  have "length d = Suc (Suc (Suc (Suc (Suc (Suc (Suc (Suc 56)))))))" using assms by simp
  then have "length (drop 56 d) = Suc (Suc (Suc (Suc (Suc (Suc (Suc (Suc 0)))))))" by simp
  then obtain a b c e f g h i where "drop 56 d = [a, b, c, e, f, g, h, i]"
    unfolding length_Suc_conv length_0_conv by blast
  then have d: "d = take 56 d @ [a, b, c, e, f, g, h, i]" by (metis append_take_drop_id)
  have "length (take 56 d) = 56" using assms by simp
  then show ?thesis by (subst (1) d) (simp add: list_update_append be64_bytes_def)
qed

lemma sha_bits:
  "word_of_nat (512 * (n div 64)) + ucast (word_of_nat (n mod 64) * 8 :: u32)
     = (word_of_nat (8 * n) :: u64)"
proof -
  have "n mod 64 < 64" by simp
  then have "n mod 64 * 8 < 2 ^ LENGTH(32)" by (simp add: less_trans [of _ 512])
  then have "ucast (word_of_nat (n mod 64 * 8) :: u32) = (word_of_nat (n mod 64 * 8) :: u64)"
    by (simp only: word_unat_eq_iff unsigned_ucast_eq unsigned_of_nat take_bit_nat_eq_self)
  then have "word_of_nat (512 * (n div 64)) + ucast (word_of_nat (n mod 64) * 8 :: u32) =
      (word_of_nat (512 * (n div 64) + n mod 64 * 8) :: u64)"
    by simp
  also have "512 * (n div 64) + n mod 64 * 8 = 8 * n"
    using mult_div_mod_eq [of 64 n] by linarith
  finally show ?thesis .
qed

text \<open>The padding, by the space left in the last block.\<close>

lemma fips_pad_short:
  "length msg mod 64 < 56 \<Longrightarrow> fips_pad msg =
     msg @ 0x80 # replicate (55 - length msg mod 64) 0 @ be_digits 8 (8 * length msg)"
proof -
  assume "length msg mod 64 < 56"
  then have "119 - length msg mod 64 = (55 - length msg mod 64) + 64" by linarith
  then have "(119 - length msg mod 64) mod 64 = (55 - length msg mod 64) mod 64"
    by (simp only: mod_add_self2)
  also have "\<dots> = 55 - length msg mod 64" by (rule mod_less) simp
  finally have "(119 - length msg mod 64) mod 64 = 55 - length msg mod 64" .
  then show ?thesis by (simp add: fips_pad_def)
qed

lemma fips_pad_long:
  "56 \<le> length msg mod 64 \<Longrightarrow> fips_pad msg =
     msg @ 0x80 # replicate (119 - length msg mod 64) 0 @ be_digits 8 (8 * length msg)"
  by (simp add: fips_pad_def)

section \<open>The final block\<close>

lemma sha256_final_state:
  assumes a: "sha_absorbed ctx msg"
  shows "sha256_final ctx =
    concat (map (\<lambda>w. be_digits 4 (unat w)) (fips_blocks fips_IV (fips_pad msg)))"
proof -
  let ?r = "length msg mod 64" and ?q = "length msg div 64"
  let ?bl = "word_of_nat (8 * length msg) :: u64"
  obtain d where d: "d = sha_data ctx" by blast
  obtain H where H: "H = sha_state ctx" by blast
  have len: "length d = 64" and tk: "take ?r d = drop (64 * ?q) msg"
    and dl: "unat (sha_datalen ctx) = ?r" and st: "H = fips_blocks fips_IV (take (64 * ?q) msg)"
    using a unat_mod64 [of "length msg"] by (auto simp: sha_absorbed_def d H)
  have bl: "sha_bitlen ctx + ucast (sha_datalen ctx * 8) = ?bl"
    using a sha_bits [of "length msg"] by (simp add: sha_absorbed_def)
  have lt: "sha_datalen ctx < 56 \<longleftrightarrow> ?r < 56" by (simp add: word_less_nat_alt dl)
  have r: "?r < 64" by simp
  have q: "length (take (64 * ?q) msg) mod 64 = 0" by simp
  have H8: "length H = 8" by (simp add: st fips_blocks_length)
  have b8: "be64_bytes (8 * word_of_nat (length msg)) = be_digits 8 (8 * length msg)"
    using be64_digits [of "8 * length msg"] by simp
  have msg: "msg @ zs = take (64 * ?q) msg @ take ?r d @ zs" for zs
    by (metis append.assoc append_take_drop_id tk)
  show ?thesis
  proof (cases "?r < 56")
    case True
    then have "fips_blocks fips_IV (fips_pad msg) =
        fips_compress H (take ?r d @ 0x80 # replicate (55 - ?r) 0 @ be_digits 8 (8 * length msg))"
      using len by (simp add: fips_pad_short msg fips_blocks_append [OF q] st fips_blocks_one)
    moreover have "take 56 (sha_pad_to 56 ?r d) = take ?r d @ 0x80 # replicate (55 - ?r) 0"
    proof -
      have "length (take ?r d @ 0x80 # replicate (55 - ?r) 0) = 56" using True len by simp
      moreover have "sha_pad_to 56 ?r d = (take ?r d @ 0x80 # replicate (55 - ?r) 0) @ drop 56 d"
        using True len by (simp add: sha_pad_to_eq)
      ultimately show ?thesis by (metis append_eq_conv_conj)
    qed
    moreover have "length (sha_pad_to 56 ?r d) = 64"
      using True len by (simp add: sha_pad_to_eq)
    ultimately show ?thesis
      using True
      by (simp add: sha256_final_def Let_def lt dl bl sha256_transform_eq H8 len fips_compress_length
        sha_length_bytes [unfolded One_nat_def] b8 word_digits [unfolded One_nat_def] flip: d H)
  next
    case False
    let ?e = "take ?r d @ 0x80 # replicate (63 - ?r) 0"
    have rep: "replicate (119 - ?r) 0 = replicate (63 - ?r) (0 :: u8) @ replicate 56 0"
      using r by (simp flip: replicate_add)
    have "fips_blocks fips_IV (fips_pad msg) =
        fips_compress (fips_compress H ?e) (replicate 56 0 @ be_digits 8 (8 * length msg))"
      using False len fips_blocks_two [of ?e "replicate 56 0 @ be_digits 8 (8 * length msg)" H]
      by (simp add: fips_pad_long msg fips_blocks_append [OF q] st rep)
    moreover have "sha_pad_to 64 ?r d = ?e"
      using r len by (simp add: sha_pad_to_eq)
    moreover have "length ?e = 64" using len r by simp
    ultimately show ?thesis
      using False
      by (simp add: sha256_final_def Let_def lt dl bl sha256_transform_eq H8 len fips_compress_length
        sha_length_bytes [unfolded One_nat_def] b8 word_digits [unfolded One_nat_def] flip: d H)
  qed
qed

lemma sha256_correct:
  "length junk = 64 \<Longrightarrow> sha256_final (sha256_update (sha256_init junk) msg) = fips_sha256 msg"
  using sha256_final_state [OF sha_absorbed_update [OF sha_absorbed_init, of junk msg]]
  by (simp add: fips_sha256_def)

lemma sha256_update_append:
  "sha256_update (sha256_update ctx a) b = sha256_update ctx (a @ b)"
  by (simp add: sha256_update_def)

text \<open>The \<open>if (len)\<close> guards skip only empty parts.\<close>

lemma sha256_update_nil: "sha256_update ctx [] = ctx"
  by (simp add: sha256_update_def)

lemma hal_boot_hash_ok:
  "length junk = 64 \<Longrightarrow> hal_boot_hash junk False (Some a) (length a) = (HAL_OK, fips_sha256 a)"
  by (simp add: hal_boot_hash_def sha256_correct)

lemma hal_boot_hash_split_ok:
  "length junk = 64 \<Longrightarrow>
   hal_boot_hash_split junk False (Some a) (length a) (Some b) (length b) = (HAL_OK, fips_sha256 (a @ b))"
  using sha256_correct [of junk a] sha256_correct [of junk b] sha256_correct [of junk "[]"]
  by (auto simp: hal_boot_hash_split_def sha256_update_append sha256_correct Let_def sha256_update_nil)

section \<open>Properties\<close>

text \<open>C14. The streaming SHA-256 of sha256.c computes the FIPS 180-4 digest: for every message
  (of any length, the bit count being taken modulo 2^64 as both do) and whatever the stack
  holds in the buffer before \<open>sha256_init\<close>, \<open>hal_boot_hash\<close> returns \<open>HAL_OK\<close> and the digest
  FIPS 180-4 defines by padding the whole message and chaining its blocks.\<close>

theorem sha256_matches_fips:
  assumes "length junk = 64"
  shows "hal_boot_hash junk False (Some msg) (length msg) = (HAL_OK, fips_sha256 msg)"
  using assms by (rule hal_boot_hash_ok)

theorem sha256_matches_fips_witness:
  "hal_boot_hash (replicate 64 0xAA) False (Some [0x61, 0x62, 0x63]) (length [0x61, 0x62, 0x63 :: u8]) =
     (HAL_OK, fips_sha256 [0x61, 0x62, 0x63])"
  using sha256_matches_fips [of "replicate 64 0xAA" "[0x61, 0x62, 0x63]"]
  by (simp only: length_replicate)

text \<open>Hashing a message in two parts is hashing it whole, however it is split and even
  when a part is empty: the digest an image header is signed over can be computed from the
  header prefix and the body where they lie. Both entry points refuse exactly a NULL output
  and a NULL part with a length.\<close>

theorem hash_split_is_hash_of_concatenation:
  assumes "length junk = 64"
  shows "hal_boot_hash_split junk False (Some a) (length a) (Some b) (length b) =
           hal_boot_hash junk False (Some (a @ b)) (length (a @ b)) \<and>
         (fst (hal_boot_hash junk o0 p n) = HAL_ERR_INVALID_ARG \<longleftrightarrow> o0 \<or> (p = None \<and> n \<noteq> 0)) \<and>
         (fst (hal_boot_hash_split junk o1 p n p' n') = HAL_ERR_INVALID_ARG \<longleftrightarrow>
           o1 \<or> (p = None \<and> n \<noteq> 0) \<or> (p' = None \<and> n' \<noteq> 0))"
proof (intro conjI)
  show "hal_boot_hash_split junk False (Some a) (length a) (Some b) (length b) =
      hal_boot_hash junk False (Some (a @ b)) (length (a @ b))"
    by (simp only: hal_boot_hash_split_ok [OF assms] hal_boot_hash_ok [OF assms])
qed (simp_all add: hal_boot_hash_def hal_boot_hash_split_def Let_def)

theorem hash_split_is_hash_of_concatenation_witness:
  "hal_boot_hash_split (replicate 64 0) False (Some [1, 2]) (length [1, 2 :: u8]) (Some [3])
       (length [3 :: u8]) =
     hal_boot_hash (replicate 64 0) False (Some ([1, 2] @ [3])) (length ([1, 2] @ [3 :: u8]))"
  using hash_split_is_hash_of_concatenation [of "replicate 64 0" "[1, 2]" "[3]"]
  by (simp only: length_replicate)

end
