(* ===== verification/Boot_Image.thy ===== *)
theory Boot_Image
  imports Flash Sha256
begin

text \<open>
  Signed images: the flash map (include/common/hal_bootmap.h), the default Ed25519 backend's
  entry point (src/utils/crypto/backend_monocypher.c) and the verifier both stages share
  (boot/common/verify_image.c). The vendored signature check itself, the public key a build
  carries and what the verifier's stack holds are fields of the record \<open>image_trust\<close>, an
  argument of everything that verifies.
\<close>

section \<open>The flash map\<close>

definition HAL_BOOTMAP_STAGE1_BASE :: u32 where "HAL_BOOTMAP_STAGE1_BASE = 0x08000000"
definition HAL_BOOTMAP_STAGE1_SIZE :: u32 where "HAL_BOOTMAP_STAGE1_SIZE = 0x00008000"
definition HAL_BOOTMAP_KV_BASE :: u32 where "HAL_BOOTMAP_KV_BASE = 0x08008000"
definition HAL_BOOTMAP_KV_SIZE :: u32 where "HAL_BOOTMAP_KV_SIZE = 0x00008000"
definition HAL_BOOTMAP_STAGE2_BASE :: u32 where "HAL_BOOTMAP_STAGE2_BASE = 0x08010000"
definition HAL_BOOTMAP_STAGE2_SIZE :: u32 where "HAL_BOOTMAP_STAGE2_SIZE = 0x00010000"
definition HAL_BOOTMAP_APP_BASE :: u32 where "HAL_BOOTMAP_APP_BASE = 0x08020000"
definition HAL_BOOTMAP_APP_SIZE :: u32 where "HAL_BOOTMAP_APP_SIZE = 0x00060000"
definition HAL_BOOTMAP_HEADER_SIZE :: u32 where "HAL_BOOTMAP_HEADER_SIZE = 512"

definition HAL_BOOTMAP_STAGE2_PAYLOAD :: u32 where
  "HAL_BOOTMAP_STAGE2_PAYLOAD = HAL_BOOTMAP_STAGE2_BASE + HAL_BOOTMAP_HEADER_SIZE"

definition HAL_BOOTMAP_APP_PAYLOAD :: u32 where
  "HAL_BOOTMAP_APP_PAYLOAD = HAL_BOOTMAP_APP_BASE + HAL_BOOTMAP_HEADER_SIZE"

definition HAL_BOOTMAP_STAGE2_USABLE :: u32 where
  "HAL_BOOTMAP_STAGE2_USABLE = HAL_BOOTMAP_STAGE2_SIZE - HAL_BOOTMAP_HEADER_SIZE"

definition HAL_BOOTMAP_APP_USABLE :: u32 where
  "HAL_BOOTMAP_APP_USABLE = HAL_BOOTMAP_APP_SIZE - HAL_BOOTMAP_HEADER_SIZE"

definition HAL_BOOTMAP_IMAGE_MAGIC :: u32 where "HAL_BOOTMAP_IMAGE_MAGIC = 0x4D49484E"
definition HAL_BOOTMAP_SIGNED_PREFIX :: nat where "HAL_BOOTMAP_SIGNED_PREFIX = 12"

lemmas bootmap_defs =
  HAL_BOOTMAP_STAGE1_BASE_def HAL_BOOTMAP_STAGE1_SIZE_def HAL_BOOTMAP_KV_BASE_def
  HAL_BOOTMAP_KV_SIZE_def HAL_BOOTMAP_STAGE2_BASE_def HAL_BOOTMAP_STAGE2_SIZE_def
  HAL_BOOTMAP_APP_BASE_def HAL_BOOTMAP_APP_SIZE_def HAL_BOOTMAP_HEADER_SIZE_def
  HAL_BOOTMAP_STAGE2_PAYLOAD_def HAL_BOOTMAP_APP_PAYLOAD_def HAL_BOOTMAP_STAGE2_USABLE_def
  HAL_BOOTMAP_APP_USABLE_def

text \<open>The addresses of a partition.\<close>

definition in_partition :: "u32 \<Rightarrow> u32 \<Rightarrow> u32 \<Rightarrow> bool" where
  "in_partition base psize a \<longleftrightarrow> unat base \<le> unat a \<and> unat a < unat base + unat psize"

section \<open>The image header\<close>

text \<open>\<open>hal_boot_image_header_t\<close> as it sits in memory, field by field at its offset.\<close>

definition mem_u32 :: "(u32 \<Rightarrow> u8) \<Rightarrow> u32 \<Rightarrow> u32" where
  "mem_u32 m a = le32 (m a) (m (a + 1)) (m (a + 2)) (m (a + 3))"

record hal_boot_image_header =
  ih_magic :: u32
  ih_version :: u32
  ih_length :: u32
  ih_digest :: "u8 list"
  ih_sig :: "u8 list"

definition image_header_at :: "(u32 \<Rightarrow> u8) \<Rightarrow> u32 \<Rightarrow> hal_boot_image_header" where
  "image_header_at m base =
     \<lparr>ih_magic = mem_u32 m base, ih_version = mem_u32 m (base + 4), ih_length = mem_u32 m (base + 8),
      ih_digest = mem_range m (base + 0x0C) 32, ih_sig = mem_range m (base + 0x2C) 64\<rparr>"

section \<open>The verifier\<close>

record image_trust =
  ed25519_check :: "u8 list \<Rightarrow> u8 list \<Rightarrow> u8 list \<Rightarrow> bool"
  boot_pubkey :: "u8 list"
  verify_stack :: "u8 list"

definition hal_boot_ed25519_verify ::
    "image_trust \<Rightarrow> u8 list option \<Rightarrow> u8 list option \<Rightarrow> u8 list option \<Rightarrow> nat \<Rightarrow> hal_status" where
  "hal_boot_ed25519_verify tr sig pk msg len =
     (if sig = None \<or> pk = None \<or> (msg = None \<and> len \<noteq> 0) then HAL_ERR_INVALID_ARG
      else if ed25519_check tr (buf_bytes sig) (buf_bytes pk) (take len (buf_bytes msg)) then HAL_OK
      else HAL_ERR)"

definition boot_image_is_good :: "image_trust \<Rightarrow> (u32 \<Rightarrow> u8) \<Rightarrow> u32 \<Rightarrow> u32 \<Rightarrow> bool" where
  "boot_image_is_good tr m base max_body =
     (let h = image_header_at m base in
      if ih_magic h \<noteq> HAL_BOOTMAP_IMAGE_MAGIC then False
      else if ih_length h = 0 \<or> ih_length h > max_body then False
      else
        case hal_boot_hash_split (verify_stack tr) False
               (Some (mem_range m base HAL_BOOTMAP_SIGNED_PREFIX)) HAL_BOOTMAP_SIGNED_PREFIX
               (Some (mem_range m (base + HAL_BOOTMAP_HEADER_SIZE) (unat (ih_length h))))
               (unat (ih_length h))
        of (st, digest) \<Rightarrow>
          if st \<noteq> HAL_OK then False
          else if digest \<noteq> ih_digest h then False
          else hal_boot_ed25519_verify tr (Some (ih_sig h)) (Some (boot_pubkey tr)) (Some digest)
                 (length digest) = HAL_OK)"

text \<open>What a good image is: the specification the header's format states.\<close>

definition image_signed :: "image_trust \<Rightarrow> (u32 \<Rightarrow> u8) \<Rightarrow> u32 \<Rightarrow> u32 \<Rightarrow> bool" where
  "image_signed tr m base max_body \<longleftrightarrow>
     (let len = mem_u32 m (base + 8);
          digest = fips_sha256 (mem_range m base 12 @ mem_range m (base + 512) (unat len)) in
      mem_u32 m base = 0x4D49484E \<and> 0 < unat len \<and> unat len \<le> unat max_body \<and>
      mem_range m (base + 12) 32 = digest \<and>
      ed25519_check tr (mem_range m (base + 44) 64) (boot_pubkey tr) digest)"

lemma boot_image_is_good_eq:
  assumes "length (verify_stack tr) = 64"
  shows "boot_image_is_good tr m base max_body = image_signed tr m base max_body"
proof -
  have h: "hal_boot_hash_split (verify_stack tr) False (Some (mem_range m base 12)) 12
      (Some (mem_range m a n)) n = (HAL_OK, fips_sha256 (mem_range m base 12 @ mem_range m a n))" for a n
    using hal_boot_hash_split_ok [OF assms, of "mem_range m base 12" "mem_range m a n"] by simp
  show ?thesis
    by (auto simp: boot_image_is_good_def image_signed_def image_header_at_def Let_def h
        HAL_BOOTMAP_SIGNED_PREFIX_def HAL_BOOTMAP_HEADER_SIZE_def HAL_BOOTMAP_IMAGE_MAGIC_def
        hal_boot_ed25519_verify_def word_le_nat_alt word_less_nat_alt unat_gt_0)
qed

text \<open>Two memories that agree on the first \<open>n\<close> bytes of a partition.\<close>

definition mem_agree :: "(u32 \<Rightarrow> u8) \<Rightarrow> (u32 \<Rightarrow> u8) \<Rightarrow> u32 \<Rightarrow> nat \<Rightarrow> bool" where
  "mem_agree m m' base n \<longleftrightarrow> (\<forall>x. unat (x - base) < n \<longrightarrow> m x = m' x)"

lemma mem_agree_at:
  assumes "mem_agree m m' base n" "i < n" "n \<le> 4294967296"
  shows "m (base + word_of_nat i) = m' (base + word_of_nat i)"
proof -
  have "unat (word_of_nat i :: u32) = i"
    using assms by (simp add: unsigned_of_nat take_bit_nat_eq_self)
  then show ?thesis using assms by (simp add: mem_agree_def)
qed

lemma mem_agree_range:
  assumes "mem_agree m m' base n" "k + len \<le> n" "n \<le> 4294967296" 
  shows "mem_range m (base + word_of_nat k) len = mem_range m' (base + word_of_nat k) len"
  unfolding mem_range_eq_iff
proof (intro allI impI)
  fix i assume "i < len"
  then have "m (base + word_of_nat (k + i)) = m' (base + word_of_nat (k + i))"
    using assms by (intro mem_agree_at) auto
  then show "m (base + word_of_nat k + word_of_nat i) = m' (base + word_of_nat k + word_of_nat i)"
    by (simp add: add.assoc)
qed

lemma mem_u32_range: "mem_u32 m a = (let r = mem_range m a 4 in le32 (r ! 0) (r ! 1) (r ! 2) (r ! 3))"
  by (simp add: mem_u32_def)

lemma mem_agree_u32:
  assumes "mem_agree m m' base n" "k + 4 \<le> n" "n \<le> 4294967296"
  shows "mem_u32 m (base + word_of_nat k) = mem_u32 m' (base + word_of_nat k)"
  using mem_agree_range [OF assms] by (simp only: mem_u32_range)

lemma image_signed_agree:
  assumes a: "mem_agree m m' base n" and "512 + unat max_body \<le> n" "n \<le> 4294967296"
  shows "image_signed tr m base max_body = image_signed tr m' base max_body"
proof -
  have w: "mem_u32 m base = mem_u32 m' base" "mem_u32 m (base + 8) = mem_u32 m' (base + 8)"
    using assms mem_agree_u32 [OF a, of 0] mem_agree_u32 [OF a, of 8] by simp_all
  have r: "mem_range m base 12 = mem_range m' base 12" "mem_range m (base + 12) 32 = mem_range m' (base + 12) 32"
    "mem_range m (base + 44) 64 = mem_range m' (base + 44) 64"
    using assms mem_agree_range [OF a, of 0] mem_agree_range [OF a, of 12] mem_agree_range [OF a, of 44]
    by simp_all
  have b: "mem_range m (base + 512) k = mem_range m' (base + 512) k" if "k \<le> unat max_body" for k
    using assms that mem_agree_range [OF a, of 512] by simp
  show ?thesis
    unfolding image_signed_def Let_def w r
    by (metis b)
qed

section \<open>Images as the format lays them out\<close>

text \<open>The bytes at \<open>base\<close> replaced by \<open>bs\<close>.\<close>

definition place_bytes :: "u32 \<Rightarrow> u8 list \<Rightarrow> (u32 \<Rightarrow> u8) \<Rightarrow> u32 \<Rightarrow> u8" where
  "place_bytes base bs m x = (if unat (x - base) < length bs then bs ! unat (x - base) else m x)"

definition image_prefix :: "u32 \<Rightarrow> u8 list \<Rightarrow> u8 list" where
  "image_prefix version body =
     le32_bytes 0x4D49484E @ le32_bytes version @ le32_bytes (word_of_nat (length body))"

definition image_bytes :: "u32 \<Rightarrow> u8 list \<Rightarrow> u8 list \<Rightarrow> u8 list" where
  "image_bytes version body sig =
     image_prefix version body @ fips_sha256 (image_prefix version body @ body) @ sig @
     replicate 404 0 @ body"

lemma fips_sha256_length [simp]: "length (fips_sha256 msg) = 32"
  by (simp add: fips_sha256_def length_concat comp_def sum_list_triv fips_blocks_length)

lemma image_prefix_length [simp]: "length (image_prefix version body) = 12"
  by (simp add: image_prefix_def le32_bytes_def)

lemma place_bytes_range:
  assumes "k + n \<le> length bs" "length bs \<le> 4294967296"
  shows "mem_range (place_bytes base bs m) (base + word_of_nat k) n = take n (drop k bs)"
proof (rule nth_equalityI)
  fix i assume "i < length (mem_range (place_bytes base bs m) (base + word_of_nat k) n)"
  then have "i < n" by simp
  then have "unat (word_of_nat k + word_of_nat i :: u32) = k + i"
    using assms by (simp add: unsigned_of_nat take_bit_nat_eq_self flip: of_nat_add)
  then show "mem_range (place_bytes base bs m) (base + word_of_nat k) n ! i = take n (drop k bs) ! i"
    using \<open>i < n\<close> assms by (simp add: place_bytes_def add.assoc)
qed (use assms in simp)

lemma image_bytes_at:
  fixes base version :: u32 and m :: "u32 \<Rightarrow> u8"
  assumes "length sig = 64" "length body \<le> 4294966784"
  defines "m' \<equiv> place_bytes base (image_bytes version body sig) m"
  shows "mem_u32 m' base = 0x4D49484E" "mem_u32 m' (base + 4) = version"
    "mem_u32 m' (base + 8) = word_of_nat (length body)"
    "mem_range m' base 12 = image_prefix version body"
    "mem_range m' (base + 12) 32 = fips_sha256 (image_prefix version body @ body)"
    "mem_range m' (base + 44) 64 = sig" "mem_range m' (base + 512) (length body) = body"
proof -
  note pl = place_bytes_range [where bs = "image_bytes version body sig" and base = base and m = m, folded m'_def]
  have len: "length (image_bytes version body sig) = 512 + length body"
    using assms by (simp add: image_bytes_def)
  show "mem_u32 m' base = 0x4D49484E" "mem_u32 m' (base + 4) = version"
    "mem_u32 m' (base + 8) = word_of_nat (length body)"
    using pl [of 0 4] pl [of 4 4] pl [of 8 4] assms len
    by (simp_all add: mem_u32_range image_bytes_def image_prefix_def le32_bytes_def
        le32_bytes_inverse [unfolded One_nat_def])
  show "mem_range m' base 12 = image_prefix version body"
    "mem_range m' (base + 12) 32 = fips_sha256 (image_prefix version body @ body)"
    "mem_range m' (base + 44) 64 = sig" "mem_range m' (base + 512) (length body) = body"
    using pl [of 0 12] pl [of 12 32] pl [of 44 64] pl [of 512 "length body"] assms len
    by (simp_all add: image_bytes_def)
qed

lemma image_bytes_signed:
  assumes "length sig = 64" "length body \<le> 4294966784"
  shows "image_signed tr (place_bytes base (image_bytes version body sig) m) base max_body \<longleftrightarrow>
    body \<noteq> [] \<and> length body \<le> unat max_body \<and>
    ed25519_check tr sig (boot_pubkey tr) (fips_sha256 (image_prefix version body @ body))"
proof -
  have "unat (word_of_nat (length body) :: u32) = length body"
    using assms by (simp add: unsigned_of_nat take_bit_nat_eq_self)
  then show ?thesis
    using image_bytes_at [OF assms, of base version m] by (simp add: image_signed_def Let_def)
qed

text \<open>A trust record whose check accepts every signature, and one that accepts none.\<close>

definition trust_all :: image_trust where
  "trust_all = \<lparr>ed25519_check = \<lambda>s k d. True, boot_pubkey = replicate 32 0, verify_stack = replicate 64 0\<rparr>"

section \<open>Properties\<close>

text \<open>C8. The verifier accepts exactly the images the header format calls signed: the magic is
  right, the length is positive and within the partition, the stored digest is the FIPS 180-4
  SHA-256 of the 12-byte prefix followed by the body, and the signature over that digest checks
  under the build's key. Whatever its stack held makes no difference.\<close>

theorem image_verdict:
  assumes "length (verify_stack tr) = 64"
  shows "boot_image_is_good tr m base max_body \<longleftrightarrow>
     (let len = mem_u32 m (base + 8);
          digest = fips_sha256 (mem_range m base 12 @ mem_range m (base + 512) (unat len)) in
      mem_u32 m base = 0x4D49484E \<and> 0 < unat len \<and> unat len \<le> unat max_body \<and>
      mem_range m (base + 12) 32 = digest \<and>
      ed25519_check tr (mem_range m (base + 44) 64) (boot_pubkey tr) digest)"
  using boot_image_is_good_eq [OF assms] by (simp only: image_signed_def)

theorem image_verdict_witness:
  "\<not> boot_image_is_good trust_all (\<lambda>_. 0xFF) HAL_BOOTMAP_APP_BASE HAL_BOOTMAP_APP_USABLE"
  using image_verdict [of trust_all "\<lambda>_. 0xFF" HAL_BOOTMAP_APP_BASE HAL_BOOTMAP_APP_USABLE]
  by (simp add: trust_all_def Let_def mem_u32_def le32_def)

text \<open>The verifier never looks past the partition it was given: its verdict is a function
  of the header and of the \<open>max_body\<close> bytes after it, so whatever length an attacker writes in
  the header, no byte beyond \<open>base + 512 + max_body\<close> influences it. Here for both partitions of
  the flash map, each with the \<open>max_body\<close> the stages pass.\<close>

theorem image_verdict_is_local:
  assumes "length (verify_stack tr) = 64"
    and "(base, psize, max_body) \<in>
      {(HAL_BOOTMAP_STAGE2_BASE, HAL_BOOTMAP_STAGE2_SIZE, HAL_BOOTMAP_STAGE2_USABLE),
       (HAL_BOOTMAP_APP_BASE, HAL_BOOTMAP_APP_SIZE, HAL_BOOTMAP_APP_USABLE)}"
    and "\<And>x. in_partition base psize x \<Longrightarrow> m x = m' x"
  shows "boot_image_is_good tr m base max_body = boot_image_is_good tr m' base max_body"
proof -
  have b: "512 + unat max_body \<le> unat psize" "unat base + unat psize \<le> 4294967296"
    using assms(2) by (auto simp: bootmap_defs)
  have "mem_agree m m' base (unat psize)"
    unfolding mem_agree_def
  proof (intro allI impI)
    fix x assume x: "unat (x - base) < unat psize"
    then have "unat x = unat base + unat (x - base)" using b by (intro u32_offset) auto
    then show "m x = m' x" using x by (intro assms(3)) (simp add: in_partition_def)
  qed
  then show ?thesis
    using b by (simp add: boot_image_is_good_eq [OF assms(1)] image_signed_agree [of m m' base "unat psize"])
qed

theorem image_verdict_is_local_witness:
  "boot_image_is_good trust_all (\<lambda>_. 0xFF) HAL_BOOTMAP_STAGE2_BASE HAL_BOOTMAP_STAGE2_USABLE =
   boot_image_is_good trust_all ((\<lambda>_. 0xFF)(0x08020000 := 7)) HAL_BOOTMAP_STAGE2_BASE HAL_BOOTMAP_STAGE2_USABLE"
  by (rule image_verdict_is_local [of trust_all _ HAL_BOOTMAP_STAGE2_SIZE])
    (auto simp: trust_all_def in_partition_def bootmap_defs)

text \<open>The signing format and the verifier agree: an image assembled as the format says
  (prefix, digest, signature, padding, body) and stored at a partition's base is accepted
  exactly when it has a body, the body fits and the signature over its digest checks.\<close>

theorem signed_image_verifies:
  assumes "length (verify_stack tr) = 64" "length sig = 64" "length body \<le> 4294966784"
  shows "boot_image_is_good tr (place_bytes base (image_bytes version body sig) m) base max_body \<longleftrightarrow>
    body \<noteq> [] \<and> length body \<le> unat max_body \<and>
    ed25519_check tr sig (boot_pubkey tr) (fips_sha256 (image_prefix version body @ body))"
  by (simp only: boot_image_is_good_eq [OF assms(1)] image_bytes_signed [OF assms(2,3)])

theorem signed_image_verifies_witness:
  "boot_image_is_good trust_all
     (place_bytes HAL_BOOTMAP_APP_BASE (image_bytes 7 [0xDE, 0xAD] (replicate 64 1)) (\<lambda>_. 0xFF))
     HAL_BOOTMAP_APP_BASE HAL_BOOTMAP_APP_USABLE"
  using signed_image_verifies [of trust_all "replicate 64 1" "[0xDE, 0xAD]" HAL_BOOTMAP_APP_BASE 7
      "\<lambda>_. 0xFF" HAL_BOOTMAP_APP_USABLE]
  by (simp add: trust_all_def bootmap_defs)

lemma ball_less_8: "(\<exists>n<8 :: u8. P n) \<longleftrightarrow> P 0 \<or> P 1 \<or> P 2 \<or> P 3 \<or> P 4 \<or> P 5 \<or> P 6 \<or> P 7"
  using all_sectors [of "\<lambda>n. \<not> P n"] by auto

text \<open>The flash map and the flash driver agree on where the partitions are: an address is
  in stage-1's partition exactly when it is in sectors 0-1, in the store's when in sectors 2-3,
  in stage-2's when in sector 4, in the application's when in sectors 5-7, and the four
  partitions cover the part.\<close>

theorem bootmap_matches_sectors:
  "(in_partition HAL_BOOTMAP_STAGE1_BASE HAL_BOOTMAP_STAGE1_SIZE a \<longleftrightarrow> in_sector 0 a \<or> in_sector 1 a) \<and>
   (in_partition HAL_BOOTMAP_KV_BASE HAL_BOOTMAP_KV_SIZE a \<longleftrightarrow> in_sector 2 a \<or> in_sector 3 a) \<and>
   (in_partition HAL_BOOTMAP_STAGE2_BASE HAL_BOOTMAP_STAGE2_SIZE a \<longleftrightarrow> in_sector 4 a) \<and>
   (in_partition HAL_BOOTMAP_APP_BASE HAL_BOOTMAP_APP_SIZE a \<longleftrightarrow>
      in_sector 5 a \<or> in_sector 6 a \<or> in_sector 7 a) \<and>
   (0x08000000 \<le> unat a \<and> unat a < 0x08080000 \<longleftrightarrow> (\<exists>n<8. in_sector n a))"
  unfolding ball_less_8 in_partition_def in_sector_def sector_base_def sector_size_def bootmap_defs
  by (simp add: word_le_nat_alt word_less_nat_alt) linarith

end
