(* ===== verification/Updater.thy ===== *)
theory Updater
  imports Boot_Block Boot_Image Crc
begin

text \<open>
  The frame server both loaders run (boot/common/updater.c, updater.h): the frame parser with its
  resynchronisation, the command handlers, and one turn of the serve loop. The transport is what
  its \<open>get\<close> returns call after call (\<open>None\<close>: nothing arrived in time; silence once the list is
  used up) and the bytes \<open>put\<close> has sent. A turn either continues with a new state, ends in a
  reset, or (\<open>None\<close>) never ends, which only the target's \<open>floor_set\<close> can cause.
\<close>

section \<open>State and constants\<close>

record updater = boot +
  up_in :: "u8 option list"
  up_out :: "u8 list"
  up_erased :: bool

definition RECOVERY_SYNC0 :: u8 where "RECOVERY_SYNC0 = 0x4E"
definition RECOVERY_SYNC1 :: u8 where "RECOVERY_SYNC1 = 0x48"

definition RECOVERY_CMD_INFO :: u8 where "RECOVERY_CMD_INFO = 0x49"
definition RECOVERY_CMD_ERASE :: u8 where "RECOVERY_CMD_ERASE = 0x45"
definition RECOVERY_CMD_WRITE :: u8 where "RECOVERY_CMD_WRITE = 0x57"
definition RECOVERY_CMD_VERIFY :: u8 where "RECOVERY_CMD_VERIFY = 0x56"
definition RECOVERY_CMD_RUN :: u8 where "RECOVERY_CMD_RUN = 0x52"
definition RECOVERY_CMD_FLOOR :: u8 where "RECOVERY_CMD_FLOOR = 0x46"

definition RECOVERY_ACK :: u8 where "RECOVERY_ACK = 0x4B"
definition RECOVERY_NAK :: u8 where "RECOVERY_NAK = 0x4E"

definition RECOVERY_ERR_NONE :: u8 where "RECOVERY_ERR_NONE = 0x00"
definition RECOVERY_ERR_CRC :: u8 where "RECOVERY_ERR_CRC = 0x01"
definition RECOVERY_ERR_CMD :: u8 where "RECOVERY_ERR_CMD = 0x02"
definition RECOVERY_ERR_LEN :: u8 where "RECOVERY_ERR_LEN = 0x03"
definition RECOVERY_ERR_RANGE :: u8 where "RECOVERY_ERR_RANGE = 0x04"
definition RECOVERY_ERR_FLASH :: u8 where "RECOVERY_ERR_FLASH = 0x05"
definition RECOVERY_ERR_VERIFY :: u8 where "RECOVERY_ERR_VERIFY = 0x06"
definition RECOVERY_ERR_NOT_ERASED :: u8 where "RECOVERY_ERR_NOT_ERASED = 0x07"
definition RECOVERY_ERR_ROLLBACK :: u8 where "RECOVERY_ERR_ROLLBACK = 0x08"
definition RECOVERY_ERR_STORE :: u8 where "RECOVERY_ERR_STORE = 0x09"

definition RECOVERY_VERSION :: u8 where "RECOVERY_VERSION = 1"
definition RECOVERY_MAX_PAYLOAD :: u16 where "RECOVERY_MAX_PAYLOAD = 260"

lemmas recovery_consts =
  RECOVERY_SYNC0_def RECOVERY_SYNC1_def RECOVERY_CMD_INFO_def RECOVERY_CMD_ERASE_def
  RECOVERY_CMD_WRITE_def RECOVERY_CMD_VERIFY_def RECOVERY_CMD_RUN_def RECOVERY_CMD_FLOOR_def
  RECOVERY_ACK_def RECOVERY_NAK_def RECOVERY_ERR_NONE_def RECOVERY_ERR_CRC_def
  RECOVERY_ERR_CMD_def RECOVERY_ERR_LEN_def RECOVERY_ERR_RANGE_def RECOVERY_ERR_FLASH_def
  RECOVERY_ERR_VERIFY_def RECOVERY_ERR_NOT_ERASED_def RECOVERY_ERR_ROLLBACK_def
  RECOVERY_ERR_STORE_def RECOVERY_VERSION_def RECOVERY_MAX_PAYLOAD_def

text \<open>\<open>updater_target_t\<close>; the function pointers that may be NULL are options.\<close>

record 's updater_target =
  tg_base :: u32
  tg_size :: u32
  tg_max_body :: u32
  tg_sectors :: "u8 list"
  tg_verify :: "(u32 \<Rightarrow> u8) \<Rightarrow> u32 \<Rightarrow> u32 \<Rightarrow> bool"
  tg_floor_ok :: "(u32 \<Rightarrow> 's \<Rightarrow> bool) option"
  tg_floor_set :: "(u32 \<Rightarrow> 's \<Rightarrow> (bool \<times> 's) option) option"

section \<open>The transport\<close>

definition t_get :: "'m updater_scheme \<Rightarrow> u8 option \<times> 'm updater_scheme" where
  "t_get s = (case up_in s of [] \<Rightarrow> (None, s) | x # r \<Rightarrow> (x, s\<lparr>up_in := r\<rparr>))"

definition t_put :: "u8 \<Rightarrow> 'm updater_scheme \<Rightarrow> 'm updater_scheme" where
  "t_put b s = s\<lparr>up_out := up_out s @ [b]\<rparr>"

text \<open>\<open>if (!get(...)) return false;\<close> and then the rest.\<close>

definition or_false :: "'a option \<times> 's \<Rightarrow> ('a \<Rightarrow> 's \<Rightarrow> 'b option \<times> 's) \<Rightarrow> 'b option \<times> 's" where
  "or_false r k = (case r of (None, s) \<Rightarrow> (None, s) | (Some x, s) \<Rightarrow> k x s)"

section \<open>Frames\<close>

lemma up_in_kick [simp]: "up_in (snd (hal_watchdog_kick s)) = up_in s"
  by (simp add: hal_watchdog_kick_def stm32_watchdog_kick_def IWDG_KR_reload_def)

lemma t_get_shorter: "t_get s = (Some b, s') \<Longrightarrow> length (up_in s') < length (up_in s)"
  by (auto simp: t_get_def split: list.splits)

text \<open>The resynchronisation loop.\<close>

function read_sync :: "'m updater_scheme \<Rightarrow> unit option \<times> 'm updater_scheme" where
  "read_sync s =
     (case t_get (snd (hal_watchdog_kick s)) of
        (None, s1) \<Rightarrow> (None, s1)
      | (Some b, s1) \<Rightarrow>
          if b \<noteq> RECOVERY_SYNC0 then read_sync s1
          else (case t_get s1 of
                  (None, s2) \<Rightarrow> (None, s2)
                | (Some b, s2) \<Rightarrow> if b = RECOVERY_SYNC1 then (Some (), s2) else read_sync s2))"
  by pat_completeness auto
termination
  by (relation "measure (\<lambda>s. length (up_in s))")
    (auto dest!: t_get_shorter [OF sym] simp: up_in_kick dest: less_trans)

declare read_sync.simps [simp del]

fun read_bytes :: "nat \<Rightarrow> 'm updater_scheme \<Rightarrow> u8 list option \<times> 'm updater_scheme" where
  "read_bytes 0 s = (Some [], s)"
| "read_bytes (Suc n) s =
     or_false (t_get s) (\<lambda>b s. or_false (read_bytes n s) (\<lambda>bs s. (Some (b # bs), s)))"

definition read_frame :: "'m updater_scheme \<Rightarrow> (u8 \<times> u8 list) option \<times> 'm updater_scheme" where
  "read_frame s =
     or_false (read_sync s) (\<lambda>_ s.
     or_false (t_get s) (\<lambda>cmd s.
     or_false (t_get s) (\<lambda>lo s.
     or_false (t_get s) (\<lambda>hi s.
       let n = le16 lo hi in
       if n > RECOVERY_MAX_PAYLOAD then (None, s)
       else
         or_false (read_bytes (unat n) s) (\<lambda>payload s.
         or_false (read_bytes 4 s) (\<lambda>crc s.
           let calc = crc32_mpeg2 (crc32_mpeg2 0xFFFFFFFF [cmd, lo, hi]) payload;
               want = le32 (crc ! 0) (crc ! 1) (crc ! 2) (crc ! 3)
           in (if calc = want then Some (cmd, payload) else None, s)))))))"

definition reply :: "u8 \<Rightarrow> u8 \<Rightarrow> 'm updater_scheme \<Rightarrow> 'm updater_scheme" where
  "reply status code s = t_put code (t_put status s)"

section \<open>The commands\<close>

definition do_write ::
    "kv_build \<Rightarrow> 's updater_target \<Rightarrow> u8 list \<Rightarrow> 'm updater_scheme \<Rightarrow> u8 \<times> 'm updater_scheme" where
  "do_write cfg tgt payload s =
     (if length payload < 5 \<or> length payload > unat RECOVERY_MAX_PAYLOAD then (RECOVERY_ERR_LEN, s)
      else if \<not> up_erased s then (RECOVERY_ERR_NOT_ERASED, s)
      else
        let off = le32 (payload ! 0) (payload ! 1) (payload ! 2) (payload ! 3);
            n = word_of_nat (length payload - 4) :: u32
        in if off > tg_size tgt \<or> n > tg_size tgt - off then (RECOVERY_ERR_RANGE, s)
           else
             let (st, s1) = hal_flash_raw_program cfg (tg_base tgt + off) (Some (drop 4 payload)) s
             in if st \<noteq> HAL_OK then (RECOVERY_ERR_FLASH, s1) else (RECOVERY_ERR_NONE, s1))"

text \<open>The sector loop of ERASE, up to its \<open>break\<close>.\<close>

fun erase_sectors :: "kv_build \<Rightarrow> u8 list \<Rightarrow> 'm updater_scheme \<Rightarrow> u8 \<times> 'm updater_scheme" where
  "erase_sectors cfg [] s = (RECOVERY_ERR_NONE, s)"
| "erase_sectors cfg (n # ns) s =
     (let (st, s1) = hal_flash_raw_erase_sector cfg n (snd (hal_watchdog_kick s))
      in if st \<noteq> HAL_OK then (RECOVERY_ERR_FLASH, s1) else erase_sectors cfg ns s1)"

definition do_erase ::
    "kv_build \<Rightarrow> 's updater_target \<Rightarrow> 'm updater_scheme \<Rightarrow> 'm updater_scheme" where
  "do_erase cfg tgt s =
     (let (err, s1) = erase_sectors cfg (tg_sectors tgt) s;
          s2 = s1\<lparr>up_erased := (err = RECOVERY_ERR_NONE)\<rparr>
      in reply (if up_erased s2 then RECOVERY_ACK else RECOVERY_NAK) err s2)"

definition do_verify :: "'m updater_scheme updater_target \<Rightarrow> 'm updater_scheme \<Rightarrow> 'm updater_scheme" where
  "do_verify tgt s =
     (if \<not> tg_verify tgt (fl_mem s) (tg_base tgt) (tg_max_body tgt)
      then reply RECOVERY_NAK RECOVERY_ERR_VERIFY s
      else if (case tg_floor_ok tgt of None \<Rightarrow> False
               | Some ok \<Rightarrow> \<not> ok (ih_version (image_header_at (fl_mem s) (tg_base tgt))) s)
      then reply RECOVERY_NAK RECOVERY_ERR_ROLLBACK s
      else reply RECOVERY_ACK RECOVERY_ERR_NONE s)"

definition do_floor ::
    "'m updater_scheme updater_target \<Rightarrow> u8 list \<Rightarrow> 'm updater_scheme \<Rightarrow> 'm updater_scheme option" where
  "do_floor tgt payload s =
     (case tg_floor_set tgt of
        None \<Rightarrow> Some (reply RECOVERY_NAK RECOVERY_ERR_CMD s)
      | Some floor_set \<Rightarrow>
          if length payload \<noteq> 4 then Some (reply RECOVERY_NAK RECOVERY_ERR_LEN s)
          else (case floor_set (le32 (payload ! 0) (payload ! 1) (payload ! 2) (payload ! 3)) s of
                  None \<Rightarrow> None
                | Some (ok, s1) \<Rightarrow>
                    Some (if ok then reply RECOVERY_ACK RECOVERY_ERR_NONE s1
                          else reply RECOVERY_NAK RECOVERY_ERR_STORE s1)))"

definition do_run ::
    "'m updater_scheme updater_target \<Rightarrow> 'm updater_scheme \<Rightarrow> (unit, 'm updater_scheme) ctl" where
  "do_run tgt s =
     (if \<not> tg_verify tgt (fl_mem s) (tg_base tgt) (tg_max_body tgt)
      then Returned () (reply RECOVERY_NAK RECOVERY_ERR_VERIFY s)
      else
        let s1 = snd (hal_boot_mark_healthy s);
            s2 = reply RECOVERY_ACK RECOVERY_ERR_NONE s1
        in ctl_bind (hal_system_reset s2) (\<lambda>_ s. Returned () s))"

definition updater_command ::
    "kv_build \<Rightarrow> 'm updater_scheme updater_target \<Rightarrow> u8 \<Rightarrow> u8 list \<Rightarrow> 'm updater_scheme \<Rightarrow>
     (unit, 'm updater_scheme) ctl option" where
  "updater_command cfg tgt cmd payload s =
     (if cmd = RECOVERY_CMD_INFO then Some (Returned () (reply RECOVERY_ACK RECOVERY_VERSION s))
      else if cmd = RECOVERY_CMD_ERASE then Some (Returned () (do_erase cfg tgt s))
      else if cmd = RECOVERY_CMD_WRITE then
        let (err, s1) = do_write cfg tgt payload s
        in Some (Returned () (reply (if err = RECOVERY_ERR_NONE then RECOVERY_ACK else RECOVERY_NAK) err s1))
      else if cmd = RECOVERY_CMD_VERIFY then Some (Returned () (do_verify tgt s))
      else if cmd = RECOVERY_CMD_FLOOR then map_option (Returned ()) (do_floor tgt payload s)
      else if cmd = RECOVERY_CMD_RUN then Some (do_run tgt s)
      else Some (Returned () (reply RECOVERY_NAK RECOVERY_ERR_CMD s)))"

section \<open>The serve loop\<close>

definition updater_turn ::
    "kv_build \<Rightarrow> 'm updater_scheme updater_target \<Rightarrow> 'm updater_scheme \<Rightarrow>
     (unit, 'm updater_scheme) ctl option" where
  "updater_turn cfg tgt s =
     (case read_frame (snd (hal_watchdog_kick s)) of
        (None, s1) \<Rightarrow> Some (Returned () (reply RECOVERY_NAK RECOVERY_ERR_CRC s1))
      | (Some (cmd, payload), s1) \<Rightarrow> updater_command cfg tgt cmd payload s1)"

text \<open>\<open>n\<close> turns of the endless loop of \<open>updater_serve\<close>, or fewer if one resets the board.\<close>

fun updater_turns ::
    "kv_build \<Rightarrow> 'm updater_scheme updater_target \<Rightarrow> nat \<Rightarrow> 'm updater_scheme \<Rightarrow>
     (unit, 'm updater_scheme) ctl option" where
  "updater_turns cfg tgt 0 s = Some (Returned () s)"
| "updater_turns cfg tgt (Suc n) s =
     (case updater_turn cfg tgt s of
        None \<Rightarrow> None
      | Some (BoardReset s1) \<Rightarrow> Some (BoardReset s1)
      | Some (Returned _ s1) \<Rightarrow> updater_turns cfg tgt n s1)"

definition updater_serve ::
    "kv_build \<Rightarrow> 'm updater_scheme updater_target \<Rightarrow> nat \<Rightarrow> 'm updater_scheme \<Rightarrow>
     (unit, 'm updater_scheme) ctl option" where
  "updater_serve cfg tgt n s = updater_turns cfg tgt n (s\<lparr>up_erased := False\<rparr>)"

section \<open>What the parser does to the state\<close>

text \<open>The parser moves the input on and feeds the watchdog, nothing else.\<close>

definition quiet :: "'m updater_scheme \<Rightarrow> 'm updater_scheme \<Rightarrow> bool" where
  "quiet s s' \<longleftrightarrow> (\<exists>i r u. s' = s\<lparr>up_in := i, iwdg_reloads := r, iwdg_unlocked := u\<rparr>)"

lemma quiet_refl [intro]: "quiet s s"
  unfolding quiet_def by (rule exI [of _ "up_in s"], rule exI [of _ "iwdg_reloads s"],
      rule exI [of _ "iwdg_unlocked s"]) simp

lemma quiet_trans [trans]: "quiet s t \<Longrightarrow> quiet t v \<Longrightarrow> quiet s v"
proof -
  assume "quiet s t" "quiet t v"
  then obtain i r u i' r' u' where t: "t = s\<lparr>up_in := i, iwdg_reloads := r, iwdg_unlocked := u\<rparr>"
    and "v = t\<lparr>up_in := i', iwdg_reloads := r', iwdg_unlocked := u'\<rparr>"
    unfolding quiet_def by blast
  then have "v = s\<lparr>up_in := i', iwdg_reloads := r', iwdg_unlocked := u'\<rparr>" by simp
  then show ?thesis unfolding quiet_def by blast
qed

lemma quiet_in [intro]: "quiet s (s\<lparr>up_in := i\<rparr>)"
  unfolding quiet_def by (rule exI [of _ i], rule exI [of _ "iwdg_reloads s"],
      rule exI [of _ "iwdg_unlocked s"]) simp

lemma quiet_kick [intro]: "quiet s (snd (hal_watchdog_kick s))"
  using hal_watchdog_kick_form [of s] unfolding quiet_def
  by (elim exE) (rule exI [of _ "up_in s"], simp, blast)

lemma quiet_get: "quiet s (snd (t_get s))"
  by (auto simp: t_get_def split: list.split)

lemma quiet_fields:
  assumes "quiet s s'"
  shows "fl_mem s' = fl_mem s" "flash_calm s' = flash_calm s" "FLASH_CR s' = FLASH_CR s"
    "up_out s' = up_out s" "up_erased s' = up_erased s" "updater.more s' = updater.more s"
    "hal_boot_block_valid s' = hal_boot_block_valid s" "sboot_request s' = sboot_request s"
    "sboot_attempts s' = sboot_attempts s" "iwdg_running s' = iwdg_running s"
  using assms by (auto simp: quiet_def flash_calm_def hal_boot_block_valid_def)

lemma read_bytes_app:
  "up_in s = map Some bs @ r \<Longrightarrow> read_bytes (length bs) s = (Some bs, s\<lparr>up_in := r\<rparr>)"
proof (induction bs arbitrary: s)
  case (Cons b bs)
  then show ?case by (simp add: t_get_def or_false_def)
qed simp

lemma read_bytes_eq:
  "read_bytes n s = (r, s') \<Longrightarrow> s' = s\<lparr>up_in := up_in s'\<rparr> \<and>
     (\<forall>bs. r = Some bs \<longrightarrow> length bs = n \<and> up_in s = map Some bs @ up_in s')"
proof (induction n arbitrary: s r s')
  case (Suc n)
  show ?case
  proof (cases "up_in s")
    case Nil
    then show ?thesis using Suc.prems by (auto simp: t_get_def or_false_def)
  next
    case (Cons x xs)
    show ?thesis
    proof (cases x)
      case None
      then show ?thesis using Suc.prems Cons by (auto simp: t_get_def or_false_def)
    next
      case (Some b)
      obtain q t where q: "read_bytes n (s\<lparr>up_in := xs\<rparr>) = (q, t)" by fastforce
      note ih = Suc.IH [OF q]
      have "r = map_option ((#) b) q" "s' = t"
        using Suc.prems Cons Some q by (auto simp: t_get_def or_false_def split: option.splits)
      moreover have "t = s\<lparr>up_in := up_in t\<rparr>" using ih by simp
      ultimately show ?thesis using ih Cons Some by auto
    qed
  qed
qed auto

lemma read_sync_finds:
  assumes "up_in s = map Some noise @ Some RECOVERY_SYNC0 # Some RECOVERY_SYNC1 # r"
    and "RECOVERY_SYNC0 \<notin> set noise"
  shows "\<exists>s'. read_sync s = (Some (), s') \<and> quiet s s' \<and> up_in s' = r"
  using assms
proof (induction noise arbitrary: s)
  case Nil
  let ?k = "snd (hal_watchdog_kick s)"
  have "read_sync s = (Some (), ?k\<lparr>up_in := r\<rparr>)"
    using Nil by (subst read_sync.simps) (simp add: t_get_def)
  moreover have "quiet s (?k\<lparr>up_in := r\<rparr>)" by (rule quiet_trans [OF quiet_kick quiet_in])
  ultimately show ?case by auto
next
  case (Cons b noise)
  let ?k = "snd (hal_watchdog_kick s)"
  let ?t = "?k\<lparr>up_in := map Some noise @ Some RECOVERY_SYNC0 # Some RECOVERY_SYNC1 # r\<rparr>"
  have "read_sync s = read_sync ?t"
    using Cons.prems by (subst read_sync.simps) (auto simp: t_get_def)
  moreover obtain s' where r: "read_sync ?t = (Some (), s')" "quiet ?t s'" "up_in s' = r"
    using Cons.IH [of ?t] Cons.prems by auto
  moreover have "quiet s ?t" by (rule quiet_trans [OF quiet_kick quiet_in])
  ultimately show ?case using quiet_trans by (intro exI [of _ s'] conjI) (simp_all only:)
qed

lemma read_sync_eq:
  "read_sync s = (q, s') \<Longrightarrow> quiet s s' \<and>
     (q \<noteq> None \<longrightarrow> (\<exists>pre. up_in s = map Some (pre @ [RECOVERY_SYNC0, RECOVERY_SYNC1]) @ up_in s'))"
proof (induction s arbitrary: q s' rule: read_sync.induct)
  case (1 s)
  let ?k = "snd (hal_watchdog_kick s)"
  note unf = "1.prems" [unfolded read_sync.simps [of s]]
  show ?case
  proof (cases "up_in s")
    case Nil
    then show ?thesis using unf by (auto simp: t_get_def)
  next
    case (Cons x xs)
    have k: "quiet s (?k\<lparr>up_in := ys\<rparr>)" for ys by (rule quiet_trans [OF quiet_kick quiet_in])
    have g: "t_get ?k = (x, ?k\<lparr>up_in := xs\<rparr>)" using Cons by (simp add: t_get_def)
    show ?thesis
    proof (cases x)
      case None
      then show ?thesis using unf g k by auto
    next
      case (Some b)
      show ?thesis
      proof (cases "b = RECOVERY_SYNC0")
        case False
        then have "read_sync (?k\<lparr>up_in := xs\<rparr>) = (q, s')" using unf g Some by simp
        from "1.IH"(1) [OF g [symmetric] Some False this]
        have ih: "quiet (?k\<lparr>up_in := xs\<rparr>) s'"
          "q \<noteq> None \<Longrightarrow> \<exists>pre. xs = map Some (pre @ [RECOVERY_SYNC0, RECOVERY_SYNC1]) @ up_in s'"
          by auto
        have "\<exists>pre. up_in s = map Some (pre @ [RECOVERY_SYNC0, RECOVERY_SYNC1]) @ up_in s'"
          if "q \<noteq> None"
        proof -
          from ih(2) [OF that] obtain pre where
            "xs = map Some (pre @ [RECOVERY_SYNC0, RECOVERY_SYNC1]) @ up_in s'" by blast
          then show ?thesis using \<open>up_in s = x # xs\<close> Some by (intro exI [of _ "b # pre"]) simp
        qed
        then show ?thesis using quiet_trans [OF k ih(1)] by blast
      next
        case True
        show ?thesis
        proof (cases xs)
          case Nil
          then show ?thesis using unf g Some True k by (auto simp: t_get_def)
        next
          case (Cons y ys)
          have g2: "t_get (?k\<lparr>up_in := xs\<rparr>) = (y, ?k\<lparr>up_in := ys\<rparr>)" using Cons by (simp add: t_get_def)
          show ?thesis
          proof (cases y)
            case None
            then show ?thesis using unf g g2 Some True k by auto
          next
            case (Some c)
            show ?thesis
            proof (cases "c = RECOVERY_SYNC1")
              case c: True
              then have "s' = ?k\<lparr>up_in := ys\<rparr>"
                using unf g g2 \<open>x = Some b\<close> True Some by simp
              then show ?thesis
                using \<open>up_in s = x # xs\<close> Cons \<open>x = Some b\<close> True Some c k
                by (auto intro: exI [of _ "[]"])
            next
              case c: False
              then have "read_sync (?k\<lparr>up_in := ys\<rparr>) = (q, s')"
                using unf g g2 \<open>x = Some b\<close> True Some by simp
              from "1.IH"(2) [OF g [symmetric] \<open>x = Some b\<close> _ g2 [symmetric] Some c this]
              have ih: "quiet (?k\<lparr>up_in := ys\<rparr>) s'"
                "q \<noteq> None \<Longrightarrow> \<exists>pre. ys = map Some (pre @ [RECOVERY_SYNC0, RECOVERY_SYNC1]) @ up_in s'"
                using True by auto
              have "\<exists>pre. up_in s = map Some (pre @ [RECOVERY_SYNC0, RECOVERY_SYNC1]) @ up_in s'"
                if "q \<noteq> None"
              proof -
                from ih(2) [OF that] obtain pre where
                  "ys = map Some (pre @ [RECOVERY_SYNC0, RECOVERY_SYNC1]) @ up_in s'" by blast
                then show ?thesis using \<open>up_in s = x # xs\<close> Cons \<open>x = Some b\<close> Some
                  by (intro exI [of _ "b # c # pre"]) simp
              qed
              then show ?thesis using quiet_trans [OF k ih(1)] by blast
            qed
          qed
        qed
      qed
    qed
  qed
qed

section \<open>Frames as byte strings\<close>

text \<open>The frame format of updater.h, as the host sends it.\<close>

definition frame_body :: "u8 \<Rightarrow> u8 list \<Rightarrow> u8 list" where
  "frame_body cmd payload = cmd # le16_bytes (word_of_nat (length payload)) @ payload"

definition frame_bytes :: "u8 \<Rightarrow> u8 list \<Rightarrow> u8 list" where
  "frame_bytes cmd payload = RECOVERY_SYNC0 # RECOVERY_SYNC1 # frame_body cmd payload @
     le32_bytes (crc32_mpeg2 0xFFFFFFFF (frame_body cmd payload))"

lemma le32_bytes_le32: "le32_bytes (le32 a b c d) = [a, b, c, d]"
  by (simp add: le32_bytes_def)

lemma le16_bytes_le16: "le16_bytes (le16 a b) = [a, b]"
  using byte_of_le16 by (simp add: le16_bytes_def)

lemma le32_of_bytes: "bs = le32_bytes w \<Longrightarrow> le32 (bs ! 0) (bs ! 1) (bs ! 2) (bs ! 3) = w"
  using le32_bytes_inverse by (simp add: le32_bytes_def)

lemma frame_length_word:
  "length payload \<le> 260 \<Longrightarrow> unat (word_of_nat (length payload) :: u16) = length payload"
  by (simp add: unsigned_of_nat take_bit_nat_eq_self)

lemma frame_crc_split:
  assumes "[lo, hi] = le16_bytes (word_of_nat (length payload))"
  shows "crc32_mpeg2 (crc32_mpeg2 c [cmd, lo, hi]) payload = crc32_mpeg2 c (frame_body cmd payload)"
  by (simp add: frame_body_def flip: assms crc32_mpeg2_append)

lemma or_false_Some: "or_false (Some x, s) k = k x s"
  by (simp add: or_false_def)

lemma t_get_Cons: "up_in s = x # r \<Longrightarrow> t_get s = (x, s\<lparr>up_in := r\<rparr>)"
  by (simp add: t_get_def)

text \<open>
  A frame after noise without a sync byte, carrying the checksum \<open>w\<close>: it is read whole, nothing
  after it is, and it is accepted when \<open>w\<close> is the CRC of its body.
\<close>

lemma read_frame_bytes:
  assumes i: "up_in s = map Some (noise @ RECOVERY_SYNC0 # RECOVERY_SYNC1 # frame_body cmd payload @
      le32_bytes w) @ r"
    and n: "RECOVERY_SYNC0 \<notin> set noise" "length payload \<le> 260"
  shows "\<exists>s'. read_frame s =
      (if crc32_mpeg2 0xFFFFFFFF (frame_body cmd payload) = w then Some (cmd, payload) else None, s') \<and>
    quiet s s' \<and> up_in s' = r"
proof -
  let ?c = "crc32_mpeg2 0xFFFFFFFF (frame_body cmd payload)"
  obtain lo hi where lh: "le16_bytes (word_of_nat (length payload)) = [lo, hi]"
    by (simp add: le16_bytes_def)
  have nn: "le16 lo hi = word_of_nat (length payload)"
    using lh le16_bytes_inverse [of "word_of_nat (length payload)"] by (simp add: le16_bytes_def)
  have fit: "\<not> word_of_nat (length payload) > RECOVERY_MAX_PAYLOAD"
    using n(2) by (simp add: word_less_nat_alt frame_length_word RECOVERY_MAX_PAYLOAD_def)
  obtain s1 where s1: "read_sync s = (Some (), s1)" "quiet s s1"
    "up_in s1 = map Some (frame_body cmd payload @ le32_bytes w) @ r"
    using read_sync_finds [of s noise "map Some (frame_body cmd payload @ le32_bytes w) @ r"] i n
    by auto
  let ?s2 = "s1\<lparr>up_in := map Some (payload @ le32_bytes w) @ r\<rparr>"
  have pl: "read_bytes (length payload) ?s2 = (Some payload, s1\<lparr>up_in := map Some (le32_bytes w) @ r\<rparr>)"
    using read_bytes_app [of ?s2 payload "map Some (le32_bytes w) @ r"] by simp
  have "length (le32_bytes w) = 4" by (simp add: le32_bytes_def)
  then have cr: "read_bytes 4 (s1\<lparr>up_in := map Some (le32_bytes w) @ r\<rparr>) = (Some (le32_bytes w), s1\<lparr>up_in := r\<rparr>)"
    using read_bytes_app [of "s1\<lparr>up_in := map Some (le32_bytes w) @ r\<rparr>" "le32_bytes w" r] by simp
  have "read_frame s = (if ?c = w then Some (cmd, payload) else None, s1\<lparr>up_in := r\<rparr>)"
    unfolding read_frame_def s1(1) or_false_Some
    using s1(3) fit pl cr le32_of_bytes [OF refl, of w] frame_crc_split [OF lh [symmetric]]
    by (simp add: frame_body_def lh t_get_Cons or_false_Some nn frame_length_word [OF n(2)] Let_def)
  then show ?thesis using quiet_trans [OF s1(2) quiet_in] by auto
qed

lemma read_frame_decodes:
  assumes "up_in s = map Some (noise @ frame_bytes cmd payload) @ r"
    and "RECOVERY_SYNC0 \<notin> set noise" "length payload \<le> 260"
  shows "\<exists>s'. read_frame s = (Some (cmd, payload), s') \<and> quiet s s' \<and> up_in s' = r"
  using read_frame_bytes [OF assms(1) [unfolded frame_bytes_def] assms(2,3)] by simp

lemma or_false_cases:
  assumes "or_false m k = (r, s')"
  obtains (stop) "m = (None, s')" "r = None" | (go) x s1 where "m = (Some x, s1)" "k x s1 = (r, s')"
  using assms by (cases m; cases "fst m") (auto simp: or_false_def)

lemma t_get_eq:
  assumes "t_get s = (x, s')"
  shows "quiet s s'" "x = Some b \<Longrightarrow> up_in s = Some b # up_in s'"
  using assms quiet_get [of s] by (auto simp: t_get_def split: list.splits)

lemma read_bytes_quiet: "read_bytes n s = (r, s') \<Longrightarrow> quiet s s'"
  using read_bytes_eq by (metis quiet_in)

lemma read_frame_eq:
  assumes "read_frame s = (r, s')"
  shows "quiet s s' \<and> (\<forall>cmd payload. r = Some (cmd, payload) \<longrightarrow> length payload \<le> 260 \<and>
     (\<exists>pre. up_in s = map Some (pre @ frame_bytes cmd payload) @ up_in s'))"
  using assms unfolding read_frame_def
proof (cases rule: or_false_cases)
  case stop
  then show ?thesis using read_sync_eq by blast
next
  case (go u s1)
  note s1 = read_sync_eq [OF go(1)]
  from go(2) show ?thesis
  proof (cases rule: or_false_cases)
    case stop
    then show ?thesis using s1 t_get_eq(1) by (auto intro: quiet_trans)
  next
    case (go cmd s2)
    note s2 = t_get_eq [OF go(1)]
    from go(2) show ?thesis
    proof (cases rule: or_false_cases)
      case stop
      then show ?thesis using s1 s2 t_get_eq(1) by (meson quiet_trans option.distinct(1))
    next
      case (go lo s3)
      note s3 = t_get_eq [OF go(1)]
      from go(2) show ?thesis
      proof (cases rule: or_false_cases)
        case stop
        then show ?thesis using s1 s2 s3 t_get_eq(1) by (meson quiet_trans option.distinct(1))
      next
        case (go hi s4)
        note s4 = t_get_eq [OF go(1)]
        have q4: "quiet s s4" using s1 s2(1) s3(1) s4(1) by (meson quiet_trans)
        have i4: "\<exists>pre. up_in s = map Some (pre @ [RECOVERY_SYNC0, RECOVERY_SYNC1, cmd, lo, hi]) @ up_in s4"
        proof -
          obtain pre where "up_in s = map Some (pre @ [RECOVERY_SYNC0, RECOVERY_SYNC1]) @ up_in s1"
            using s1 by auto
          then show ?thesis using s2(2) s3(2) s4(2) by (intro exI [of _ pre]) simp
        qed
        show ?thesis
        proof (cases "le16 lo hi > RECOVERY_MAX_PAYLOAD")
          case True
          then show ?thesis using go(2) q4 by (simp add: Let_def)
        next
          case False
          have "or_false (read_bytes (unat (le16 lo hi)) s4) (\<lambda>payload s. or_false (read_bytes 4 s)
             (\<lambda>crc s. (if crc32_mpeg2 (crc32_mpeg2 0xFFFFFFFF [cmd, lo, hi]) payload =
                 le32 (crc ! 0) (crc ! 1) (crc ! 2) (crc ! 3) then Some (cmd, payload) else None, s))) = (r, s')"
            using go(2) False by (simp add: Let_def)
          then show ?thesis
          proof (cases rule: or_false_cases)
            case stop
            then show ?thesis using q4 read_bytes_quiet quiet_trans by blast
          next
            case (go payload s5)
            note s5 = read_bytes_eq [OF go(1)] read_bytes_quiet [OF go(1)]
            from go(2) show ?thesis
            proof (cases rule: or_false_cases)
              case stop
              then show ?thesis using q4 s5(2) read_bytes_quiet quiet_trans by blast
            next
              case (go crc s6)
              note s6 = read_bytes_eq [OF go(1)] read_bytes_quiet [OF go(1)]
              have q: "quiet s s6" using q4 s5(2) s6(2) by (meson quiet_trans)
              have i: "up_in s4 = map Some (payload @ crc) @ up_in s6" "length crc = 4"
                "length payload = unat (le16 lo hi)" using s5(1) s6(1) by simp_all
              have lh: "[lo, hi] = le16_bytes (word_of_nat (length payload))"
                by (simp add: i(3) le16_bytes_le16)
              have "length payload \<le> 260"
                using False by (simp add: i(3) word_less_nat_alt RECOVERY_MAX_PAYLOAD_def)
              moreover have "crc = le32_bytes (le32 (crc ! 0) (crc ! 1) (crc ! 2) (crc ! 3))"
                using i(2) by (auto simp: le32_bytes_le32 length_Suc_conv eval_nat_numeral)
              ultimately show ?thesis
                using go(2) q i(1) i4 lh frame_crc_split [OF lh, of "0xFFFFFFFF" cmd]
                by (auto simp: frame_bytes_def frame_body_def split: if_splits)
            qed
          qed
        qed
      qed
    qed
  qed
qed

section \<open>Properties\<close>

text \<open>A server at rest: boot's cold state with nothing received and nothing sent.\<close>

definition updater_fresh :: "u8 option list \<Rightarrow> updater" where
  "updater_fresh i = boot.extend boot_fresh \<lparr>up_in = i, up_out = [], up_erased = False\<rparr>"

lemma updater_fresh_fields [simp]:
  "up_in (updater_fresh i) = i" "up_out (updater_fresh i) = []" "up_erased (updater_fresh i) = False"
  "fl_mem (updater_fresh i) = (\<lambda>_. 0xFF)" "flash_calm (updater_fresh i)" "\<not> bit (FLASH_CR (updater_fresh i)) 16"
proof -
  have c: "FLASH_CR (updater_fresh i) = push_bit 31 1"
    by (simp add: updater_fresh_def boot.defs boot_fresh_def)
  show "up_in (updater_fresh i) = i" "up_out (updater_fresh i) = []" "up_erased (updater_fresh i) = False"
    "fl_mem (updater_fresh i) = (\<lambda>_. 0xFF)"
    by (simp_all add: updater_fresh_def boot.defs boot_fresh_def)
  show "\<not> bit (FLASH_CR (updater_fresh i)) 16" by (simp add: c bit_push_bit_iff del: push_bit_of_1)
  have "fl_busy (updater_fresh i) = 0" "fl_dur (updater_fresh i) k = 100" for k
    by (simp_all add: updater_fresh_def boot.defs boot_fresh_def)
  then show "flash_calm (updater_fresh i)"
    by (simp add: flash_calm_def c bit_push_bit_iff FLASH_BSY_SPINS_def del: push_bit_of_1)
qed

text \<open>C19. The frame parser is exact. A frame of at most 260 payload bytes, after any noise free
  of the first sync byte, is read back as the command and payload the host sent, and the parser
  stops right after it; conversely whatever the parser accepts came in as precisely that frame,
  checksum included, directly before the input it left. In both cases flash, replies and boot
  block are untouched.\<close>

theorem frame_parser_exact:
  "(\<forall>noise cmd payload r. up_in s = map Some (noise @ frame_bytes cmd payload) @ r \<and>
      RECOVERY_SYNC0 \<notin> set noise \<and> length payload \<le> 260 \<longrightarrow>
      (\<exists>s'. read_frame s = (Some (cmd, payload), s') \<and> up_in s' = r)) \<and>
   (\<forall>cmd payload s'. read_frame s = (Some (cmd, payload), s') \<longrightarrow> length payload \<le> 260 \<and>
      (\<exists>pre. up_in s = map Some (pre @ frame_bytes cmd payload) @ up_in s')) \<and>
   (fl_mem (snd (read_frame s)) = fl_mem s \<and> up_out (snd (read_frame s)) = up_out s \<and>
    up_erased (snd (read_frame s)) = up_erased s \<and>
    sboot_attempts (snd (read_frame s)) = sboot_attempts s)"
proof (intro conjI)
  have "quiet s (snd (read_frame s))" using read_frame_eq [of s] by (cases "read_frame s") auto
  from quiet_fields [OF this] show "fl_mem (snd (read_frame s)) = fl_mem s"
    "up_out (snd (read_frame s)) = up_out s" "up_erased (snd (read_frame s)) = up_erased s"
    "sboot_attempts (snd (read_frame s)) = sboot_attempts s" by simp_all
qed (use read_frame_decodes [of s] read_frame_eq [of s] in blast)+

theorem frame_parser_exact_witness:
  "\<exists>s'. read_frame (updater_fresh (map Some ([0x00, 0x48] @ frame_bytes 0x49 []) @ [None, Some 0x41])) =
     (Some (0x49, []), s') \<and> up_in s' = [None, Some 0x41]"
  by (rule conjunct1 [OF frame_parser_exact, rule_format, OF conjI [OF updater_fresh_fields(1)]])
    (simp add: RECOVERY_SYNC0_def)

text \<open>A burst error in a frame's payload costs a retry and nothing else: when at most four
  consecutive payload bytes arrive changed, the frame is consumed whole and refused, so the turn
  answers NAK with the CRC code and leaves flash, erase state and boot block as they were.\<close>

theorem damaged_frame_is_refused:
  assumes "up_in s = map Some (RECOVERY_SYNC0 # RECOVERY_SYNC1 # frame_body cmd (p @ ys @ q) @
      le32_bytes (crc32_mpeg2 0xFFFFFFFF (frame_body cmd (p @ xs @ q)))) @ r"
    and "length xs = length ys" "length xs \<le> 4" "xs \<noteq> ys" "length (p @ xs @ q) \<le> 260"
  shows "\<exists>s'. updater_turn cfg tgt s = Some (Returned () s') \<and> up_in s' = r \<and>
    up_out s' = up_out s @ [RECOVERY_NAK, RECOVERY_ERR_CRC] \<and> fl_mem s' = fl_mem s \<and>
    up_erased s' = up_erased s \<and> sboot_attempts s' = sboot_attempts s"
proof -
  let ?k = "snd (hal_watchdog_kick s)"
  let ?pre = "cmd # le16_bytes (word_of_nat (length (p @ ys @ q))) @ p"
  have "crc32_mpeg2 0xFFFFFFFF (frame_body cmd (p @ ys @ q)) \<noteq>
      crc32_mpeg2 0xFFFFFFFF (frame_body cmd (p @ xs @ q))"
    using crc32_mpeg2_burst [of ys xs "0xFFFFFFFF" ?pre q] assms(2-4) by (simp add: frame_body_def)
  then obtain s1 where s1: "read_frame ?k = (None, s1)" "quiet ?k s1" "up_in s1 = r"
    using read_frame_bytes [of ?k "[]" cmd "p @ ys @ q"
        "crc32_mpeg2 0xFFFFFFFF (frame_body cmd (p @ xs @ q))" r] assms(1,2,5) by auto
  have "quiet s s1" using quiet_trans [OF quiet_kick s1(2)] .
  from quiet_fields [OF this] show ?thesis
    using s1 by (simp add: updater_turn_def reply_def t_put_def)
qed

theorem damaged_frame_is_refused_witness:
  "\<forall>tgt. \<exists>s'. updater_turn boot_kv tgt
      (updater_fresh (map Some (RECOVERY_SYNC0 # RECOVERY_SYNC1 # frame_body 0x57 ([0, 0] @ [9] @ [0, 7]) @
        le32_bytes (crc32_mpeg2 0xFFFFFFFF (frame_body 0x57 ([0, 0] @ [8] @ [0, 7])))) @ [])) =
      Some (Returned () s') \<and> up_out s' = [RECOVERY_NAK, RECOVERY_ERR_CRC]"
  using damaged_frame_is_refused [of "updater_fresh (map Some (RECOVERY_SYNC0 # RECOVERY_SYNC1 #
      frame_body 0x57 ([0, 0] @ [9] @ [0, 7]) @ le32_bytes (crc32_mpeg2 0xFFFFFFFF
        (frame_body 0x57 ([0, 0] @ [8] @ [0, 7])))) @ [])" "0x57" "[0, 0]" "[9]" "[0, 7]" "[8]" "[]" boot_kv]
  by auto

lemma crc_pow8: "(crc_bit ^^ 8) c =
    crc_bit (crc_bit (crc_bit (crc_bit (crc_bit (crc_bit (crc_bit (crc_bit c)))))))"
  by (simp add: eval_nat_numeral)

lemma read_sync_starved:
  "Some RECOVERY_SYNC0 \<notin> set (up_in s) \<Longrightarrow> \<exists>s'. read_sync s = (None, s')"
proof (induction s rule: read_sync.induct)
  case (1 s)
  let ?k = "snd (hal_watchdog_kick s)"
  show ?case
  proof (cases "up_in s")
    case Nil
    then show ?thesis by (subst read_sync.simps) (simp add: t_get_def)
  next
    case (Cons x xs)
    then have g: "t_get ?k = (x, ?k\<lparr>up_in := xs\<rparr>)" by (simp add: t_get_def)
    show ?thesis
    proof (cases x)
      case None
      then show ?thesis using g by (subst read_sync.simps) simp
    next
      case (Some b)
      then have b: "b \<noteq> RECOVERY_SYNC0" using 1 Cons by auto
      have "\<exists>s'. read_sync (?k\<lparr>up_in := xs\<rparr>) = (None, s')"
        using "1.IH"(1) [OF g [symmetric] Some b] 1 Cons by simp
      then show ?thesis using g Some b by (subst read_sync.simps) simp
    qed
  qed
qed

text \<open>The resynchronisation takes the byte after a first sync byte without asking whether it is a
  first sync byte itself: a frame right after a stray \<open>N\<close> is lost.\<close>

theorem resync_loses_frame:
  "\<exists>s'. read_frame (updater_fresh (map Some (RECOVERY_SYNC0 # frame_bytes RECOVERY_CMD_INFO []))) =
     (None, s')"
proof -
  have crc: "crc32_mpeg2 0xFFFFFFFF [0x49, 0, 0] = 0xCE52947F"
    by (simp add: crc32_mpeg2_def crc_byte_def crc_bits8_def crc_bit_def crc_pow8)
  let ?s = "updater_fresh (map Some (RECOVERY_SYNC0 # frame_bytes RECOVERY_CMD_INFO []))"
  let ?k = "snd (hal_watchdog_kick ?s)"
  let ?t = "?k\<lparr>up_in := map Some (RECOVERY_SYNC1 # RECOVERY_CMD_INFO # 0 # 0 # le32_bytes 0xCE52947F)\<rparr>"
  have fb: "frame_bytes RECOVERY_CMD_INFO [] =
      RECOVERY_SYNC0 # RECOVERY_SYNC1 # RECOVERY_CMD_INFO # 0 # 0 # le32_bytes 0xCE52947F"
    using crc by (simp add: frame_bytes_def frame_body_def le16_bytes_def byte_of_def RECOVERY_CMD_INFO_def)
  have "read_sync ?s = read_sync ?t"
    by (subst read_sync.simps) (simp add: t_get_def fb RECOVERY_SYNC0_def RECOVERY_SYNC1_def)
  moreover have "Some RECOVERY_SYNC0 \<notin> set (up_in ?t)"
    by (simp add: recovery_consts le32_bytes_def byte_of_def)
  ultimately obtain s' where "read_sync ?s = (None, s')" using read_sync_starved [of ?t] by auto
  then show ?thesis by (simp add: read_frame_def or_false_def)
qed

end
