(* ===== verification/Updater_Session.thy ===== *)
theory Updater_Session
  imports Updater
begin

text \<open>
  What a frame server may do to the device: the contract of the partition a loader serves as a
  locale, the effect of every command inside it, and the properties of a whole update session
  (containment, erase before write, verified before reset, and installation of an image sent in
  chunks).
\<close>

section \<open>Frames of the state\<close>

lemma unat_u32: "n < 4294967296 \<Longrightarrow> unat (word_of_nat n :: u32) = n"
  by (simp add: unsigned_of_nat take_bit_nat_eq_self)

lemma updater_more:
  fixes s s' :: "'m updater_scheme"
  assumes "flash.more s' = flash.more s"
  shows "up_in s' = up_in s" "up_out s' = up_out s" "up_erased s' = up_erased s"
    "sboot_magic s' = sboot_magic s" "sboot_request s' = sboot_request s"
    "sboot_attempts s' = sboot_attempts s" "sboot_check s' = sboot_check s"
    "hal_boot_block_valid s' = hal_boot_block_valid s"
  using assms by (cases s; cases s'; simp add: hal_boot_block_valid_def)+

lemma reply_fields [simp]:
  "fl_mem (reply a b s) = fl_mem s" "FLASH_CR (reply a b s) = FLASH_CR s"
  "flash_calm (reply a b s) = flash_calm s" "up_in (reply a b s) = up_in s"
  "up_out (reply a b s) = up_out s @ [a, b]" "up_erased (reply a b s) = up_erased s"
  "hal_boot_block_valid (reply a b s) = hal_boot_block_valid s"
  "sboot_request (reply a b s) = sboot_request s" "sboot_attempts (reply a b s) = sboot_attempts s"
  by (simp_all add: reply_def t_put_def flash_calm_def hal_boot_block_valid_def)

lemma up_erased_update [simp]:
  "flash_calm (s\<lparr>up_erased := b\<rparr>) = flash_calm s"
  "hal_boot_block_valid (s\<lparr>up_erased := b\<rparr>) = hal_boot_block_valid s"
  by (simp_all add: flash_calm_def hal_boot_block_valid_def)

lemma mark_healthy_fields [simp]:
  "fl_mem (snd (hal_boot_mark_healthy s)) = fl_mem s"
  "FLASH_CR (snd (hal_boot_mark_healthy s)) = FLASH_CR s"
  "up_out (snd (hal_boot_mark_healthy s)) = up_out s"
  "hal_boot_block_valid (snd (hal_boot_mark_healthy s)) = hal_boot_block_valid s"
  by (simp_all add: hal_boot_mark_healthy_def block_seal_eq)
    (simp add: hal_boot_block_valid_def)

lemma mark_healthy_valid [simp]:
  "hal_boot_block_valid s \<Longrightarrow> sboot_request (snd (hal_boot_mark_healthy s)) = sboot_request s"
  "hal_boot_block_valid s \<Longrightarrow> sboot_attempts (snd (hal_boot_mark_healthy s)) = 0"
  by (simp_all add: hal_boot_mark_healthy_def)

text \<open>Memory outside a set of addresses, and no erase left armed.\<close>

definition confined :: "(u32 \<Rightarrow> bool) \<Rightarrow> 'm flash_scheme \<Rightarrow> 'm flash_scheme \<Rightarrow> bool" where
  "confined P s s' \<longleftrightarrow> (\<not> bit (FLASH_CR s) 16 \<longrightarrow>
     \<not> bit (FLASH_CR s') 16 \<and> (\<forall>a. \<not> P a \<longrightarrow> fl_mem s' a = fl_mem s a))"

lemma confined_refl [intro]: "confined P s s"
  by (simp add: confined_def)

lemma confined_trans [trans]: "confined P s t \<Longrightarrow> confined P t v \<Longrightarrow> confined P s v"
  by (auto simp: confined_def)

lemma confined_same: "fl_mem s' = fl_mem s \<Longrightarrow> FLASH_CR s' = FLASH_CR s \<Longrightarrow> confined P s s'"
  by (simp add: confined_def)

lemma quiet_confined: "quiet s s' \<Longrightarrow> confined P s s'"
  by (simp add: confined_same quiet_fields)

section \<open>What a host sends\<close>

text \<open>The WRITE frames for chunks that follow each other from offset \<open>k\<close>, and a whole session.\<close>

fun write_frames :: "nat \<Rightarrow> u8 list list \<Rightarrow> u8 list list" where
  "write_frames k [] = []"
| "write_frames k (c # cs) =
     frame_bytes RECOVERY_CMD_WRITE (le32_bytes (word_of_nat k) @ c) # write_frames (k + length c) cs"

definition session_bytes :: "u8 list list \<Rightarrow> u8 list" where
  "session_bytes cs = frame_bytes RECOVERY_CMD_ERASE [] @ concat (write_frames 0 cs) @
     frame_bytes RECOVERY_CMD_RUN []"

section \<open>The contract of a partition\<close>

text \<open>
  What the server relies on: the target's sectors are the caller's to erase, they are exactly the
  partition, and the partition lies in the part at an even address.
\<close>

locale partition_target =
  fixes cfg :: kv_build and tgt :: "'m updater_scheme updater_target"
  assumes owned: "n \<in> set (tg_sectors tgt) \<Longrightarrow> raw_sector_allowed cfg n"
    and tiles: "in_partition (tg_base tgt) (tg_size tgt) a \<longleftrightarrow> (\<exists>n\<in>set (tg_sectors tgt). in_sector n a)"
    and room: "0x08000000 \<le> unat (tg_base tgt)" "unat (tg_base tgt) + unat (tg_size tgt) \<le> 0x08080000"
    and aligned: "tg_base tgt AND 1 = 0"
begin

definition mine :: "u32 \<Rightarrow> bool" where
  "mine a \<longleftrightarrow> in_partition (tg_base tgt) (tg_size tgt) a"

lemma sector_lt_8: "raw_sector_allowed cfg n \<Longrightarrow> n < 8"
  by (auto simp: raw_sector_allowed_def word_less_nat_alt word_le_nat_alt split: if_splits)

lemma erase_confined:
  assumes "set ns \<subseteq> set (tg_sectors tgt)"
  shows "confined mine s (snd (erase_sectors cfg ns s))"
  using assms
proof (induction ns arbitrary: s)
  case (Cons n ns)
  let ?k = "snd (hal_watchdog_kick s)"
  obtain st s1 where s1: "hal_flash_raw_erase_sector cfg n ?k = (st, s1)" by fastforce
  have n: "raw_sector_allowed cfg n" using Cons.prems owned by simp
  have "confined mine ?k s1"
    using raw_erase_mem [of ?k n cfg] raw_erase_any(2) [of ?k cfg n] sector_lt_8 [OF n] Cons.prems tiles
    by (auto simp: confined_def s1 erased_sector_def mine_def)
  then have s1c: "confined mine s s1"
    using quiet_confined [OF quiet_kick] by (rule confined_trans [rotated])
  show ?case
  proof (cases "st = HAL_OK")
    case True
    then have "erase_sectors cfg (n # ns) s = erase_sectors cfg ns s1" by (simp add: s1)
    then show ?thesis using s1c Cons by (auto intro: confined_trans)
  next
    case False
    then show ?thesis using s1c by (simp add: s1)
  qed
qed auto

lemma write_range:
  assumes "unat off + n \<le> unat (tg_size tgt)" "i < n"
  shows "unat (tg_base tgt + off + word_of_nat i) = unat (tg_base tgt) + unat off + i"
    "mine (tg_base tgt + off + word_of_nat i)"
proof -
  have "unat (tg_base tgt + off) = unat (tg_base tgt) + unat off"
    using assms room unat_add_off [of "tg_base tgt" "unat off"] by simp
  then show u: "unat (tg_base tgt + off + word_of_nat i) = unat (tg_base tgt) + unat off + i"
    using assms room unat_add_off [of "tg_base tgt + off" i] by simp
  then show "mine (tg_base tgt + off + word_of_nat i)"
    using assms by (simp add: mine_def in_partition_def)
qed

lemma write_confined: "confined mine s (snd (do_write cfg tgt payload s))"
proof (cases "5 \<le> length payload \<and> length payload \<le> 260 \<and> up_erased s")
  case True
  obtain off where off: "off = le32 (payload ! 0) (payload ! 1) (payload ! 2) (payload ! 3)" by blast
  let ?ds = "drop 4 payload" and ?a = "tg_base tgt + off"
  have T: "5 \<le> length payload" "length payload \<le> 260" "up_erased s" using True by simp_all
  have len: "unat (word_of_nat (length payload - 4) :: u32) = length payload - 4"
    using T(2) by (intro unat_u32) linarith
  show ?thesis
  proof (cases "off > tg_size tgt \<or> word_of_nat (length payload - 4) > tg_size tgt - off")
    case False
    then have "unat off \<le> unat (tg_size tgt)" and fit: "unat off + length ?ds \<le> unat (tg_size tgt)"
      using len by (auto simp: word_less_nat_alt not_less unat_sub_if' split: if_splits)
    obtain st s1 where s1: "hal_flash_raw_program cfg ?a (Some ?ds) s = (st, s1)" by fastforce
    have "fl_mem s1 x = fl_mem s x" if "\<not> bit (FLASH_CR s) 16" "\<not> mine x" for x
    proof -
      have "length ?ds \<le> unat (x - ?a)"
      proof (rule ccontr)
        assume "\<not> ?thesis"
        then have "mine (?a + word_of_nat (unat (x - ?a)))" using fit by (intro write_range) auto
        then show False using that(2) by simp
      qed
      then show ?thesis
        using raw_program_mem_outside [OF that(1), of "Some ?ds" x ?a cfg] T(2) by (simp add: s1)
    qed
    then have "confined mine s s1"
      using raw_program_any(2) [of s cfg ?a "Some ?ds"] by (auto simp: confined_def s1)
    moreover have "snd (do_write cfg tgt payload s) = s1"
      using True False by (simp add: do_write_def RECOVERY_MAX_PAYLOAD_def Let_def s1
          off [symmetric, unfolded One_nat_def])
    ultimately show ?thesis by simp
  next
    case True
    then have "snd (do_write cfg tgt payload s) = s"
      by (simp add: do_write_def Let_def off [symmetric, unfolded One_nat_def] del: of_nat_diff)
    then show ?thesis by auto
  qed
next
  case False
  then have "snd (do_write cfg tgt payload s) = s"
    by (auto simp: do_write_def RECOVERY_MAX_PAYLOAD_def)
  then show ?thesis by auto
qed

lemma erase_calm:
  assumes "flash_calm s" "set ns \<subseteq> set (tg_sectors tgt)"
  shows "\<exists>s'. erase_sectors cfg ns s = (RECOVERY_ERR_NONE, s') \<and>
    flash_settled s (\<lambda>a. if \<exists>n\<in>set ns. in_sector n a then 0xFF else fl_mem s a) s'"
  using assms
proof (induction ns arbitrary: s)
  case Nil
  then show ?case by (simp add: flash_settled_refl)
next
  case (Cons n ns)
  let ?k = "snd (hal_watchdog_kick s)"
  have k: "flash_calm ?k" "fl_mem ?k = fl_mem s" "flash_settled s (fl_mem s) ?k"
  proof -
    have q: "quiet s ?k" ..
    show "flash_calm ?k" "fl_mem ?k = fl_mem s" using quiet_fields [OF q] Cons.prems by simp_all
    then show "flash_settled s (fl_mem s) ?k"
      using hal_watchdog_kick_form [of s] by (auto simp: flash_settled_def)
  qed
  note e = raw_erase_settled [OF k(1) owned, of n]
  obtain s1 where s1: "hal_flash_raw_erase_sector cfg n ?k = (HAL_OK, s1)"
    "flash_settled ?k (erased_sector n (fl_mem s)) s1"
    using e Cons.prems k(2) by (cases "hal_flash_raw_erase_sector cfg n ?k") auto
  obtain s2 where s2: "erase_sectors cfg ns s1 = (RECOVERY_ERR_NONE, s2)"
    "flash_settled s1 (\<lambda>a. if \<exists>n\<in>set ns. in_sector n a then 0xFF else erased_sector n (fl_mem s) a) s2"
    using Cons.IH [OF flash_settled_calm [OF s1(2)], unfolded flash_settled_mem [OF s1(2)]] Cons.prems
    by auto
  have "flash_settled s (\<lambda>a. if \<exists>n\<in>set ns. in_sector n a then 0xFF else erased_sector n (fl_mem s) a) s2"
    using flash_settled_trans [OF k(3) flash_settled_trans [OF s1(2) s2(2)]] .
  moreover have "(\<lambda>a. if \<exists>n\<in>set ns. in_sector n a then 0xFF else erased_sector n (fl_mem s) a) =
      (\<lambda>a. if \<exists>n\<in>set (n # ns). in_sector n a then 0xFF else fl_mem s a)"
    by (auto simp: erased_sector_def fun_eq_iff)
  ultimately show ?case using s1(1) s2(1) by simp
qed

lemma in_partition_sector: "mine a \<Longrightarrow> \<exists>n<8. in_sector n a \<and> raw_sector_allowed cfg n"
  using tiles owned sector_lt_8 unfolding mine_def by blast

lemma range_allowed:
  assumes "unat off + n \<le> unat (tg_size tgt)" "0 < n" "n < 4294967296"
  shows "raw_range_allowed cfg (tg_base tgt + off) (word_of_nat n)"
  unfolding raw_range_owned_iff unat_u32 [OF assms(3)]
  using assms write_range(2) [OF assms(1)] in_partition_sector by blast

text \<open>A write the protocol allows, of bytes that fit the flash: it is programmed, and acknowledged.\<close>

lemma write_calm:
  assumes "flash_calm s" "up_erased s" "length payload = 4 + n" "0 < n" "n \<le> 256" "even n"
    and off: "off = le32 (payload ! 0) (payload ! 1) (payload ! 2) (payload ! 3)" "off AND 1 = 0"
    and fit: "unat off + n \<le> unat (tg_size tgt)"
      "flash_fits (fl_mem s) (tg_base tgt + off) (drop 4 payload)"
  shows "\<exists>s'. do_write cfg tgt payload s = (RECOVERY_ERR_NONE, s') \<and>
    flash_settled s (prog_bytes (tg_base tgt + off) (drop 4 payload) (fl_mem s)) s'"
proof -
  let ?ds = "drop 4 payload" and ?a = "tg_base tgt + off"
  have len: "length ?ds = n" using assms(3) by simp
  have ev: "?a AND 1 = 0"
    using aligned off(2) by (simp add: and_one_eq) (simp add: even_iff_mod_2_eq_zero [symmetric])
  have rg: "raw_range_allowed cfg ?a (word_of_nat (length ?ds))"
    unfolding len using fit(1) assms(4,5) by (intro range_allowed) auto
  note p = raw_program_settled [OF assms(1) ev _ _ rg fit(2)]
  have in_range: "\<not> off > tg_size tgt" "\<not> word_of_nat (length payload - 4) > tg_size tgt - off"
    using fit(1) assms(3,5) unat_u32 [of n]
    by (auto simp: word_less_nat_alt not_less unat_sub_if')
  obtain s1 where s1: "hal_flash_raw_program cfg ?a (Some ?ds) s = (HAL_OK, s1)"
    "flash_settled s (prog_bytes ?a ?ds (fl_mem s)) s1"
    using p len assms(5,6) by (cases "hal_flash_raw_program cfg ?a (Some ?ds) s") auto
  have "do_write cfg tgt payload s = (RECOVERY_ERR_NONE, s1)"
    using assms(2-5) in_range s1(1)
    by (simp add: do_write_def RECOVERY_MAX_PAYLOAD_def Let_def off(1) [symmetric, unfolded One_nat_def])
  then show ?thesis using s1(2) by blast
qed

lemma quiet_settled: "quiet s s1 \<Longrightarrow> flash_calm s \<Longrightarrow> flash_settled s1 m s' \<Longrightarrow>
    fl_mem s' = m \<and> flash_calm s' \<and> flash.more s' = flash.more s1"
  by (simp add: flash_settled_def)

text \<open>The state a session has reached: what is in the flash, what is left to read, what was said.\<close>

definition session ::
    "(u32 \<Rightarrow> u8) \<Rightarrow> u8 option list \<Rightarrow> u8 list \<Rightarrow> bool \<Rightarrow> 'm updater_scheme \<Rightarrow> 'm updater_scheme \<Rightarrow> bool" where
  "session m i out er s0 s \<longleftrightarrow> flash_calm s \<and> fl_mem s = m \<and> up_in s = i \<and> up_out s = out \<and>
     up_erased s = er \<and> hal_boot_block_valid s = hal_boot_block_valid s0 \<and>
     sboot_request s = sboot_request s0 \<and> sboot_attempts s = sboot_attempts s0"

lemma turn_frame:
  assumes "session m (map Some (frame_bytes cmd payload) @ r) out er s0 s" "length payload \<le> 260"
  shows "\<exists>s1. session m r out er s0 s1 \<and>
    updater_turn cfg tgt s = updater_command cfg tgt cmd payload s1"
proof -
  let ?k = "snd (hal_watchdog_kick s)"
  have "up_in ?k = map Some ([] @ frame_bytes cmd payload) @ r"
    using assms(1) by (simp add: session_def)
  from read_frame_decodes [OF this _ assms(2)] obtain s1 where
    s1: "read_frame ?k = (Some (cmd, payload), s1)" "quiet ?k s1" "up_in s1 = r" by auto
  have "quiet s s1" using quiet_trans [OF quiet_kick s1(2)] .
  then have "session m r out er s0 s1"
    using assms(1) s1(3) by (simp add: session_def quiet_fields)
  moreover have "updater_turn cfg tgt s = updater_command cfg tgt cmd payload s1"
    by (simp add: updater_turn_def s1(1))
  ultimately show ?thesis by blast
qed

lemma session_settled:
  assumes "session m i out er s0 s" "flash_settled s m' s'"
  shows "session m' i out er s0 s'"
  using assms updater_more [OF flash_settled_more [OF assms(2)]]
  by (simp add: session_def flash_settled_def)

lemma session_reply: "session m i out er s0 s \<Longrightarrow> session m i (out @ [a, b]) er s0 (reply a b s)"
  by (simp add: session_def)

lemma erase_turn:
  assumes "session m (map Some (frame_bytes RECOVERY_CMD_ERASE []) @ r) out er s0 s"
  shows "\<exists>s'. updater_turn cfg tgt s = Some (Returned () s') \<and>
    session (\<lambda>a. if mine a then 0xFF else m a) r (out @ [RECOVERY_ACK, RECOVERY_ERR_NONE]) True s0 s'"
proof -
  obtain s1 where s1: "session m r out er s0 s1"
    "updater_turn cfg tgt s = updater_command cfg tgt RECOVERY_CMD_ERASE [] s1"
    using turn_frame [OF assms] by auto
  have c: "flash_calm s1" "fl_mem s1 = m" using s1(1) by (simp_all add: session_def)
  obtain s2 where s2: "erase_sectors cfg (tg_sectors tgt) s1 = (RECOVERY_ERR_NONE, s2)"
    "flash_settled s1 (\<lambda>a. if \<exists>n\<in>set (tg_sectors tgt). in_sector n a then 0xFF else m a) s2"
    using erase_calm [OF c(1) order_refl, unfolded c(2)] by blast
  have "session (\<lambda>a. if mine a then 0xFF else m a) r out er s0 s2"
    using session_settled [OF s1(1) s2(2)] tiles by (simp add: mine_def)
  then have "session (\<lambda>a. if mine a then 0xFF else m a) r out True s0 (s2\<lparr>up_erased := True\<rparr>)"
    by (simp add: session_def)
  from session_reply [OF this] show ?thesis
    using s1(2) s2(1)
    by (simp add: updater_command_def recovery_consts do_erase_def Let_def)
qed

lemma write_turn:
  assumes "session (prog_bytes (tg_base tgt) dn m) (map Some (frame_bytes RECOVERY_CMD_WRITE
      (le32_bytes (word_of_nat (length dn)) @ c)) @ r) out True s0 s"
    and c: "c \<noteq> []" "length c \<le> 256" "even (length c)" "even (length dn)"
    and fit: "length dn + length c \<le> unat (tg_size tgt)"
    and blank: "\<And>a. mine a \<Longrightarrow> m a = 0xFF"
  shows "\<exists>s'. updater_turn cfg tgt s = Some (Returned () s') \<and>
    session (prog_bytes (tg_base tgt) (dn @ c) m) r (out @ [RECOVERY_ACK, RECOVERY_ERR_NONE]) True s0 s'"
proof -
  let ?p = "le32_bytes (word_of_nat (length dn)) @ c" and ?off = "word_of_nat (length dn) :: u32"
  have lp: "length ?p = 4 + length c" by (simp add: le32_bytes_def)
  have dp: "drop 4 ?p = c" by (simp add: le32_bytes_def)
  have sz: "unat (tg_size tgt) < 4294967296" by (rule u32_bound)
  have uoff: "unat ?off = length dn" using fit sz by (intro unat_u32) simp
  have off: "?off = le32 (?p ! 0) (?p ! 1) (?p ! 2) (?p ! 3)"
    using le32_of_bytes [OF refl, of ?off] by (simp add: le32_bytes_def)
  have even: "?off AND 1 = 0"
    using c(4) by (auto elim!: evenE simp: and_one_eq even_iff_mod_2_eq_zero [symmetric])
  obtain s1 where s1: "session (prog_bytes (tg_base tgt) dn m) r out True s0 s1"
    "updater_turn cfg tgt s = updater_command cfg tgt RECOVERY_CMD_WRITE ?p s1"
    using turn_frame [OF assms(1)] c(2) lp by auto
  have st: "flash_calm s1" "up_erased s1" "fl_mem s1 = prog_bytes (tg_base tgt) dn m"
    using s1(1) by (simp_all add: session_def)
  have ff: "flash_fits (fl_mem s1) (tg_base tgt + ?off) (drop 4 ?p)"
  proof (rule flash_fits_erased)
    fix i assume "i < length (drop 4 ?p)"
    then have i: "i < length c" by (simp only: dp)
    let ?x = "tg_base tgt + ?off + word_of_nat i"
    have "mine ?x" using fit i by (intro write_range(2) [of _ "length c"]) (simp_all add: uoff)
    moreover have "unat (?x - tg_base tgt) = length dn + i"
      using fit sz i by (simp add: unat_u32 flip: of_nat_add)
    ultimately show "fl_mem s1 ?x = 0xFF"
      using blank fit sz by (simp add: st(3) prog_bytes_at)
  qed
  have len: "0 < length c" using c(1) by simp
  obtain s2 where s2: "do_write cfg tgt ?p s1 = (RECOVERY_ERR_NONE, s2)"
    "flash_settled s1 (prog_bytes (tg_base tgt + ?off) c (prog_bytes (tg_base tgt) dn m)) s2"
    using write_calm [OF st(1,2) lp len c(2,3) off even _ ff] fit unfolding dp st(3) uoff by blast
  have "session (prog_bytes (tg_base tgt) (dn @ c) m) r out True s0 s2"
    using session_settled [OF s1(1) s2(2)] by (simp add: prog_bytes_append)
  from session_reply [OF this] show ?thesis
    using s1(2) s2(1) by (simp add: updater_command_def recovery_consts Let_def)
qed

lemma run_turn:
  assumes "session m (map Some (frame_bytes RECOVERY_CMD_RUN []) @ r) out er s0 s"
  shows "if tg_verify tgt m (tg_base tgt) (tg_max_body tgt)
    then \<exists>s'. updater_turn cfg tgt s = Some (BoardReset s') \<and> fl_mem s' = m \<and>
      up_out s' = out @ [RECOVERY_ACK, RECOVERY_ERR_NONE] \<and>
      (hal_boot_block_valid s0 \<longrightarrow> hal_boot_block_valid s' \<and> sboot_attempts s' = 0 \<and>
         sboot_request s' = sboot_request s0)
    else \<exists>s'. updater_turn cfg tgt s = Some (Returned () s') \<and>
      session m r (out @ [RECOVERY_NAK, RECOVERY_ERR_VERIFY]) er s0 s'"
proof -
  obtain s1 where s1: "session m r out er s0 s1"
    "updater_turn cfg tgt s = updater_command cfg tgt RECOVERY_CMD_RUN [] s1"
    using turn_frame [OF assms] by auto
  have m: "fl_mem s1 = m" using s1(1) by (simp add: session_def)
  have run: "updater_turn cfg tgt s = Some (do_run tgt s1)"
    using s1(2) by (simp add: updater_command_def recovery_consts)
  show ?thesis
    using s1(1) session_reply [OF s1(1)]
    by (auto simp: run do_run_def Let_def m hal_system_reset_def session_def)
qed

lemma command_confined:
  assumes "updater_command cfg tgt cmd payload s = Some r"
    and "cmd \<noteq> RECOVERY_CMD_FLOOR \<or> tg_floor_set tgt = None"
  shows "confined mine s (ctl_state r)"
proof -
  obtain err s1 where w: "do_write cfg tgt payload s = (err, s1)" by fastforce
  have c1: "confined mine s (reply a b s1)" for a b
    using write_confined [of s payload] by (simp add: w confined_def)
  have c2: "confined mine s (do_erase cfg tgt s)"
    using erase_confined [OF order_refl, of s]
    by (simp add: do_erase_def confined_def Let_def case_prod_beta)
  have c3: "confined mine s (do_verify tgt s)" "confined mine s (ctl_state (do_run tgt s))"
    by (simp_all add: do_verify_def do_run_def hal_system_reset_def Let_def confined_def)
  have "tg_floor_set tgt = None \<Longrightarrow> do_floor tgt payload s = Some (reply RECOVERY_NAK RECOVERY_ERR_CMD s)"
    by (simp add: do_floor_def)
  then show ?thesis
    using assms c1 c2 c3 unfolding updater_command_def w Let_def prod.case
    by (auto simp: confined_same split: if_splits)
qed

lemma turn_confined:
  assumes "updater_turn cfg tgt s = Some r" "tg_floor_set tgt = None"
  shows "confined mine s (ctl_state r)"
proof -
  let ?k = "snd (hal_watchdog_kick s)"
  obtain f s1 where f: "read_frame ?k = (f, s1)" by fastforce
  then have q: "confined mine s s1"
    using read_frame_eq [OF f] quiet_confined quiet_trans [OF quiet_kick] by blast
  show ?thesis
  proof (cases f)
    case None
    then show ?thesis using assms(1) f q by (auto simp: updater_turn_def confined_def)
  next
    case (Some cp)
    then obtain cmd payload where "updater_command cfg tgt cmd payload s1 = Some r"
      using assms(1) f by (cases cp) (simp add: updater_turn_def)
    then show ?thesis using q command_confined assms(2) confined_trans by blast
  qed
qed

lemma turns_confined:
  assumes "updater_turns cfg tgt n s = Some r" "tg_floor_set tgt = None"
  shows "confined mine s (ctl_state r)"
  using assms(1)
proof (induction n arbitrary: s)
  case (Suc n)
  obtain r1 where r1: "updater_turn cfg tgt s = Some r1"
    using Suc.prems by (auto split: option.splits)
  note c = turn_confined [OF r1 assms(2)]
  show ?case
  proof (cases r1)
    case (Returned u s1)
    then show ?thesis using Suc r1 c by (auto intro: confined_trans)
  next
    case (BoardReset s1)
    then show ?thesis using Suc.prems r1 c by auto
  qed
qed auto

lemma writes_turns:
  assumes "session (prog_bytes (tg_base tgt) dn m) (map Some (concat (write_frames (length dn) cs)) @ r)
      out True s0 s"
    and "\<And>c. c \<in> set cs \<Longrightarrow> c \<noteq> [] \<and> length c \<le> 256 \<and> even (length c)" "even (length dn)"
    and "length dn + length (concat cs) \<le> unat (tg_size tgt)"
    and "\<And>a. mine a \<Longrightarrow> m a = 0xFF"
  shows "\<exists>s'. updater_turns cfg tgt (length cs + k) s = updater_turns cfg tgt k s' \<and>
    session (prog_bytes (tg_base tgt) (dn @ concat cs) m) r
      (out @ concat (replicate (length cs) [RECOVERY_ACK, RECOVERY_ERR_NONE])) True s0 s'"
  using assms(1-4)
proof (induction cs arbitrary: dn out s)
  case Nil
  then show ?case by auto
next
  case (Cons c cs)
  obtain s1 where s1: "updater_turn cfg tgt s = Some (Returned () s1)"
    "session (prog_bytes (tg_base tgt) (dn @ c) m) (map Some (concat (write_frames (length (dn @ c)) cs)) @ r)
      (out @ [RECOVERY_ACK, RECOVERY_ERR_NONE]) True s0 s1"
    using write_turn [of dn m c "map Some (concat (write_frames (length (dn @ c)) cs)) @ r" out s0 s]
      Cons.prems assms(5) by auto
  obtain s' where s': "updater_turns cfg tgt (length cs + k) s1 = updater_turns cfg tgt k s'"
    "session (prog_bytes (tg_base tgt) ((dn @ c) @ concat cs) m) r
      ((out @ [RECOVERY_ACK, RECOVERY_ERR_NONE]) @
        concat (replicate (length cs) [RECOVERY_ACK, RECOVERY_ERR_NONE])) True s0 s'"
    using Cons.IH [OF s1(2)] Cons.prems by auto
  then show ?case using s1(1) by (intro exI [of _ s']) simp
qed

text \<open>
  A whole session: erase, the image in consecutive chunks, run. The board resets, the image is in
  the partition over erased flash, nothing else moved, every frame was acknowledged and the
  strikes are cleared, provided the target's verifier accepts what was installed.
\<close>

lemma session_installs:
  assumes c: "flash_calm s" "up_in s = map Some (session_bytes cs)" "up_out s = []"
    and cs: "\<And>c. c \<in> set cs \<Longrightarrow> c \<noteq> [] \<and> length c \<le> 256 \<and> even (length c)"
      "length (concat cs) \<le> unat (tg_size tgt)"
  defines "m' \<equiv> place_bytes (tg_base tgt) (concat cs) (\<lambda>a. if mine a then 0xFF else fl_mem s a)"
  assumes v: "tg_verify tgt m' (tg_base tgt) (tg_max_body tgt)"
  shows "\<exists>s'. updater_serve cfg tgt (length cs + 2) s = Some (BoardReset s') \<and> fl_mem s' = m' \<and>
    up_out s' = concat (replicate (length cs + 2) [RECOVERY_ACK, RECOVERY_ERR_NONE]) \<and>
    (hal_boot_block_valid s \<longrightarrow> hal_boot_block_valid s' \<and> sboot_attempts s' = 0 \<and>
       sboot_request s' = sboot_request s)"
proof -
  let ?s = "s\<lparr>up_erased := False\<rparr>" and ?ok = "[RECOVERY_ACK, RECOVERY_ERR_NONE]"
  let ?m0 = "\<lambda>a. if mine a then 0xFF else fl_mem s a"
  let ?w = "concat (write_frames 0 cs)" and ?r = "frame_bytes RECOVERY_CMD_RUN []"
  have "session (fl_mem s) (map Some (frame_bytes RECOVERY_CMD_ERASE []) @ map Some (?w @ ?r)) [] False s ?s"
    using c by (simp add: session_def session_bytes_def)
  from erase_turn [OF this] obtain s1 where
    s1: "updater_turn cfg tgt ?s = Some (Returned () s1)"
      "session ?m0 (map Some (?w @ ?r)) ?ok True s s1" by auto
  obtain s2 where s2: "updater_turns cfg tgt (length cs + 1) s1 = updater_turns cfg tgt 1 s2"
    "session (prog_bytes (tg_base tgt) (concat cs) ?m0) (map Some ?r)
      (?ok @ concat (replicate (length cs) ?ok)) True s s2"
    using writes_turns [of "[]" ?m0 cs "map Some ?r" ?ok s s1 1] s1(2) cs by auto
  have sz: "length (concat cs) < 2 ^ 32" using cs(2) u32_bound [of "tg_size tgt"] by simp
  have m': "prog_bytes (tg_base tgt) (concat cs) ?m0 = m'"
  proof
    fix x
    show "prog_bytes (tg_base tgt) (concat cs) ?m0 x = m' x"
    proof (cases "unat (x - tg_base tgt) < length (concat cs)")
      case True
      then have "mine x" using write_range(2) [of 0 "length (concat cs)" "unat (x - tg_base tgt)"] cs(2) by simp
      then show ?thesis using True sz by (simp add: m'_def prog_bytes_at place_bytes_def)
    next
      case False
      then show ?thesis using sz by (simp add: m'_def prog_bytes_at place_bytes_def)
    qed
  qed
  obtain s3 where "updater_turn cfg tgt s2 = Some (BoardReset s3)" "fl_mem s3 = m'"
    "up_out s3 = (?ok @ concat (replicate (length cs) ?ok)) @ ?ok"
    "hal_boot_block_valid s \<longrightarrow> hal_boot_block_valid s3 \<and> sboot_attempts s3 = 0 \<and>
       sboot_request s3 = sboot_request s"
    using run_turn [of m' "[]" _ True s s2] s2(2) v unfolding m' by (simp only: append_Nil2 if_True) blast
  moreover have "concat (replicate (length cs + 2) ?ok) = (?ok @ concat (replicate (length cs) ?ok)) @ ?ok"
    by (induction cs) simp_all
  ultimately show ?thesis
    using s1(1) s2(1) by (intro exI [of _ s3]) (simp add: updater_serve_def)
qed

end

end
