(* ===== verification/Boot_Link.thy ===== *)
theory Boot_Link
  imports Watchdog
begin

text \<open>
  The loaders' side of a transport (boot/stage1/main.c; boot/stage2/main.c holds the same code
  under other names): the 64-byte ring the USB CDC callback fills and \<open>cdc_get\<close> empties, the two
  bounded reads, and the decimal printer. The environment of a polling loop is the list of what
  each of its turns finds: the bytes that came in since the last one and the millisecond clock.
\<close>

section \<open>The receive ring\<close>

record cdc_link = wdg +
  cdc_rx_buf :: "u8 list"
  cdc_rx_head :: u16
  cdc_rx_tail :: u16

fun cdc_rx :: "u8 list \<Rightarrow> 'm cdc_link_scheme \<Rightarrow> 'm cdc_link_scheme" where
  "cdc_rx [] s = s"
| "cdc_rx (d # ds) s =
     (let nxt = (cdc_rx_head s + 1) mod 64
      in if nxt = cdc_rx_tail s then s
         else cdc_rx ds (s\<lparr>cdc_rx_buf := (cdc_rx_buf s)[unat (cdc_rx_head s) := d], cdc_rx_head := nxt\<rparr>))"

text \<open>The body of the \<open>if (tail != head)\<close> in \<open>cdc_get\<close>.\<close>

definition cdc_pop :: "'m cdc_link_scheme \<Rightarrow> (u8 \<times> 'm cdc_link_scheme) option" where
  "cdc_pop s =
     (if cdc_rx_tail s \<noteq> cdc_rx_head s
      then Some (cdc_rx_buf s ! unat (cdc_rx_tail s), s\<lparr>cdc_rx_tail := (cdc_rx_tail s + 1) mod 64\<rparr>)
      else None)"

text \<open>
  The loop of \<open>cdc_get\<close>: \<open>t0\<close> is the clock at entry, each turn finds \<open>(ds, now)\<close>. \<open>None\<close>: still
  waiting when the list ends.
\<close>

fun cdc_get_loop ::
    "u32 \<Rightarrow> (u8 list \<times> u32) list \<Rightarrow> 'm cdc_link_scheme \<Rightarrow> (u8 option \<times> 'm cdc_link_scheme) option" where
  "cdc_get_loop t0 [] s = None"
| "cdc_get_loop t0 ((ds, now) # ps) s =
     (let s1 = cdc_rx ds s
      in if now - t0 < 2000
         then let s2 = snd (hal_watchdog_kick s1)
              in (case cdc_pop s2 of
                    Some (b, s3) \<Rightarrow> Some (Some b, s3)
                  | None \<Rightarrow> cdc_get_loop t0 ps s2)
         else Some (None, s1))"

fun cdc_get ::
    "(u8 list \<times> u32) list \<Rightarrow> 'm cdc_link_scheme \<Rightarrow> (u8 option \<times> 'm cdc_link_scheme) option" where
  "cdc_get [] s = None"
| "cdc_get ((ds, t0) # ps) s = cdc_get_loop t0 ps (cdc_rx ds s)"

text \<open>\<open>uart_get\<close>: a turn finds a received character or none.\<close>

fun uart_get_loop ::
    "u32 \<Rightarrow> (u8 option \<times> u32) list \<Rightarrow> 'm wdg_scheme \<Rightarrow> (u8 option \<times> 'm wdg_scheme) option" where
  "uart_get_loop t0 [] s = None"
| "uart_get_loop t0 ((rx, now) # ps) s =
     (if now - t0 < 2000
      then let s1 = snd (hal_watchdog_kick s)
           in (case rx of Some b \<Rightarrow> Some (Some b, s1) | None \<Rightarrow> uart_get_loop t0 ps s1)
      else Some (None, s))"

definition uart_get ::
    "u32 \<Rightarrow> (u8 option \<times> u32) list \<Rightarrow> 'm wdg_scheme \<Rightarrow> (u8 option \<times> 'm wdg_scheme) option" where
  "uart_get now0 ps s = uart_get_loop now0 ps s"

section \<open>Stage-2's copies\<close>

definition stage2_cdc_rx :: "u8 list \<Rightarrow> 'm cdc_link_scheme \<Rightarrow> 'm cdc_link_scheme" where
  "stage2_cdc_rx = cdc_rx"

definition stage2_cdc_get ::
    "(u8 list \<times> u32) list \<Rightarrow> 'm cdc_link_scheme \<Rightarrow> (u8 option \<times> 'm cdc_link_scheme) option" where
  "stage2_cdc_get = cdc_get"

definition stage2_uart_get ::
    "u32 \<Rightarrow> (u8 option \<times> u32) list \<Rightarrow> 'm wdg_scheme \<Rightarrow> (u8 option \<times> 'm wdg_scheme) option" where
  "stage2_uart_get = uart_get"

section \<open>Printing a number\<close>

text \<open>The digit loop, least significant first, and the reversing copy: \<open>b[n++] = '0' + v % 10\<close>.\<close>

function say_digits :: "u32 \<Rightarrow> u8 list" where
  "say_digits v = (if v = 0 then [] else (0x30 + ucast (v mod 10)) # say_digits (v div 10))"
  by pat_completeness auto
termination
proof (relation "measure unat")
  fix v :: u32 assume "v \<noteq> 0"
  then have "0 < unat v" by (simp add: unat_gt_0)
  then show "(v div 10, v) \<in> measure unat" by (simp add: unat_div)
qed simp

declare say_digits.simps [simp del]

definition say_u32 :: "u32 \<Rightarrow> u8 list" where
  "say_u32 v = rev ((if v = 0 then [0x30] else []) @ say_digits v)"

definition stage2_say_u32 :: "u32 \<Rightarrow> u8 list" where
  "stage2_say_u32 = say_u32"

section \<open>The ring as a queue\<close>

text \<open>
  The contract between the callback and the reader: bytes are accepted in order up to a capacity,
  the excess is dropped, and come out in order.
\<close>

datatype link_op = Arrive "u8 list" | Take

locale byte_queue =
  fixes wf :: "'q \<Rightarrow> bool" and pending :: "'q \<Rightarrow> u8 list" and cap :: nat
    and push :: "u8 list \<Rightarrow> 'q \<Rightarrow> 'q" and pop :: "'q \<Rightarrow> (u8 \<times> 'q) option"
  assumes push_law: "wf q \<Longrightarrow> wf (push ds q) \<and>
      pending (push ds q) = pending q @ take (cap - length (pending q)) ds"
    and pop_law: "wf q \<Longrightarrow> (case pop q of None \<Rightarrow> pending q = []
      | Some (b, q') \<Rightarrow> wf q' \<and> pending q = b # pending q')"
begin

text \<open>A run of arrivals and reads: the bytes read, and the queue left.\<close>

fun link_run :: "link_op list \<Rightarrow> 'q \<Rightarrow> u8 list \<times> 'q" where
  "link_run [] q = ([], q)"
| "link_run (Arrive ds # ops) q = link_run ops (push ds q)"
| "link_run (Take # ops) q =
     (case pop q of None \<Rightarrow> link_run ops q
      | Some (b, q') \<Rightarrow> (let (bs, q'') = link_run ops q' in (b # bs, q'')))"

text \<open>Whether no arrival ever exceeds the room left, by the number of unread bytes.\<close>

fun roomy :: "nat \<Rightarrow> link_op list \<Rightarrow> bool" where
  "roomy n [] = True"
| "roomy n (Arrive ds # ops) = (n + length ds \<le> cap \<and> roomy (n + length ds) ops)"
| "roomy n (Take # ops) = roomy (n - 1) ops"

fun arrivals :: "link_op list \<Rightarrow> u8 list" where
  "arrivals [] = []"
| "arrivals (Arrive ds # ops) = ds @ arrivals ops"
| "arrivals (Take # ops) = arrivals ops"

lemma link_run_lossless:
  assumes "wf q" "roomy (length (pending q)) ops"
  shows "case link_run ops q of (bs, q') \<Rightarrow> wf q' \<and> bs @ pending q' = pending q @ arrivals ops"
  using assms
proof (induction ops q rule: link_run.induct)
  case (2 ds ops q)
  have "length ds \<le> cap - length (pending q)" using 2(3) by (simp add: le_diff_conv2)
  then have "take (cap - length (pending q)) ds = ds" by simp
  then have p: "wf (push ds q)" "pending (push ds q) = pending q @ ds"
    using push_law [OF 2(2), of ds] by simp_all
  then show ?case using 2(1) 2(3) by (simp add: case_prod_beta)
next
  case (3 ops q)
  show ?case
  proof (cases "pop q")
    case None
    then show ?thesis using 3 pop_law [of q] by (auto simp: case_prod_beta)
  next
    case (Some bq)
    obtain b q' where bq: "bq = (b, q')" by (cases bq)
    then have q': "wf q'" "pending q = b # pending q'" using 3(3) pop_law [of q] Some by auto
    then have "roomy (length (pending q')) ops" using 3(4) by simp
    then show ?thesis using 3(2) [OF Some] bq q' Some by (simp add: case_prod_beta)
  qed
qed simp

end

definition ring_wf :: "'m cdc_link_scheme \<Rightarrow> bool" where
  "ring_wf s \<longleftrightarrow> length (cdc_rx_buf s) = 64 \<and> unat (cdc_rx_head s) < 64 \<and> unat (cdc_rx_tail s) < 64"

definition ring_count :: "'m cdc_link_scheme \<Rightarrow> nat" where
  "ring_count s = (unat (cdc_rx_head s) + 64 - unat (cdc_rx_tail s)) mod 64"

definition ring_pending :: "'m cdc_link_scheme \<Rightarrow> u8 list" where
  "ring_pending s =
     map (\<lambda>i. cdc_rx_buf s ! ((unat (cdc_rx_tail s) + i) mod 64)) [0..<ring_count s]"

lemma ring_pending_length [simp]: "length (ring_pending s) = ring_count s"
  by (simp add: ring_pending_def)

lemma ring_next: "unat (i :: u16) < 64 \<Longrightarrow> unat ((i + 1) mod 64) = (unat i + 1) mod 64"
  by (simp add: unat_mod unat_word_ariths)

text \<open>Arithmetic of indices below 64.\<close>

lemma ring_dist:
  assumes "h < 64" "t < (64 :: nat)"
  shows "(h + 64 - t) mod 64 = (if t \<le> h then h - t else h + 64 - t)"
proof (cases "t \<le> h")
  case True
  then have "(h + 64 - t) mod 64 = ((h - t) + 64) mod 64" by simp
  also have "\<dots> = h - t" using assms by (simp only: mod_add_self2) simp
  finally show ?thesis using True by simp
qed (use assms in simp)

lemma ring_succ: "h < 64 \<Longrightarrow> (h + 1) mod 64 = (if h = 63 then 0 else h + 1 :: nat)"
  by simp

lemma ring_step: "x < 128 \<Longrightarrow> x mod 64 = (if x < 64 then x else x - 64 :: nat)"
  by (simp add: mod_if)

lemma ring_arith:
  fixes h t :: nat
  assumes "h < 64" "t < 64"
  shows "(t + (h + 64 - t) mod 64) mod 64 = h"
    and "i < (h + 64 - t) mod 64 \<Longrightarrow> (t + i) mod 64 \<noteq> h"
    and "(h + 64 - t) mod 64 \<noteq> 63 \<Longrightarrow> ((h + 1) mod 64 + 64 - t) mod 64 = Suc ((h + 64 - t) mod 64)"
    and "(h + 64 - t) mod 64 \<noteq> 0 \<Longrightarrow> (h + 64 - t) mod 64 = Suc ((h + 64 - (t + 1) mod 64) mod 64)"
    and "(h + 1) mod 64 = t \<longleftrightarrow> (h + 64 - t) mod 64 = 63"
    and "t = h \<longleftrightarrow> (h + 64 - t) mod 64 = 0"
proof -
  let ?c = "(h + 64 - t) mod 64"
  have c: "?c = (if t \<le> h then h - t else h + 64 - t)" by (rule ring_dist [OF assms])
  have lt: "?c < 64" by simp
  show "(t + ?c) mod 64 = h" using assms unfolding c by (cases "t \<le> h") simp_all
  show "(t + i) mod 64 \<noteq> h" if "i < ?c"
    using that assms lt ring_step [of "t + i"] unfolding c by (auto split: if_splits)
  have s: "(h + 1) mod 64 < 64" "(t + 1) mod 64 < 64" by simp_all
  show "((h + 1) mod 64 + 64 - t) mod 64 = Suc ?c" if "?c \<noteq> 63"
    using that assms unfolding ring_dist [OF s(1) assms(2)] unfolding c ring_succ [OF assms(1)]
    by (cases "h = 63"; cases "t \<le> h"; cases "t = h + 1") auto
  show "?c = Suc ((h + 64 - (t + 1) mod 64) mod 64)" if "?c \<noteq> 0"
    using that assms unfolding ring_dist [OF assms(1) s(2)] unfolding c ring_succ [OF assms(2)]
    by (cases "t = 63"; cases "t \<le> h") auto
  show "(h + 1) mod 64 = t \<longleftrightarrow> ?c = 63"
    using assms unfolding c ring_succ [OF assms(1)] by (cases "h = 63"; cases "t \<le> h") auto
  show "t = h \<longleftrightarrow> ?c = 0" using assms unfolding c by auto
qed

lemma ring_count_lt: "ring_count s < 64"
  by (simp add: ring_count_def)

lemma ring_full_iff:
  assumes "ring_wf s"
  shows "(cdc_rx_head s + 1) mod 64 = cdc_rx_tail s \<longleftrightarrow> ring_count s = 63"
proof -
  let ?h = "unat (cdc_rx_head s)" and ?t = "unat (cdc_rx_tail s)"
  have b: "?h < 64" "?t < 64" using assms by (simp_all add: ring_wf_def)
  have "(cdc_rx_head s + 1) mod 64 = cdc_rx_tail s \<longleftrightarrow> (?h + 1) mod 64 = ?t"
    by (simp add: word_unat_eq_iff ring_next [OF b(1)])
  also have "\<dots> \<longleftrightarrow> (?h + 64 - ?t) mod 64 = 63" by (rule ring_arith(5) [OF b])
  finally show ?thesis by (simp add: ring_count_def)
qed

lemma ring_empty_iff:
  assumes "ring_wf s"
  shows "cdc_rx_tail s = cdc_rx_head s \<longleftrightarrow> ring_count s = 0"
proof -
  let ?h = "unat (cdc_rx_head s)" and ?t = "unat (cdc_rx_tail s)"
  have b: "?h < 64" "?t < 64" using assms by (simp_all add: ring_wf_def)
  have "?t = ?h \<longleftrightarrow> (?h + 64 - ?t) mod 64 = 0" by (rule ring_arith(6) [OF b])
  then show ?thesis by (simp add: word_unat_eq_iff ring_count_def)
qed

lemma ring_push_one:
  fixes d :: u8
  assumes wf: "ring_wf s" and n: "ring_count s \<noteq> 63"
  defines "s' \<equiv> s\<lparr>cdc_rx_buf := (cdc_rx_buf s)[unat (cdc_rx_head s) := d],
      cdc_rx_head := (cdc_rx_head s + 1) mod 64\<rparr>"
  shows "ring_wf s'" "ring_pending s' = ring_pending s @ [d]"
proof -
  let ?h = "unat (cdc_rx_head s)" and ?t = "unat (cdc_rx_tail s)" and ?c = "ring_count s"
  have b: "?h < 64" "?t < 64" "length (cdc_rx_buf s) = 64" using wf by (simp_all add: ring_wf_def)
  have h': "unat (cdc_rx_head s') = (?h + 1) mod 64" by (simp add: s'_def ring_next [OF b(1)])
  show "ring_wf s'" using b h' by (simp add: ring_wf_def) (simp add: s'_def)
  have c: "?c = (?h + 64 - ?t) mod 64" by (simp add: ring_count_def)
  have c': "ring_count s' = Suc ?c"
    using ring_arith(3) [OF b(1,2)] n unfolding ring_count_def h' by (simp add: s'_def)
  have "(?t + ?c) mod 64 = ?h" unfolding c by (rule ring_arith(1) [OF b(1,2)])
  moreover have "\<forall>i<?c. ?h \<noteq> (?t + i) mod 64"
  proof (intro allI impI)
    fix i assume "i < ?c"
    then have "(?t + i) mod 64 \<noteq> ?h" unfolding c by (rule ring_arith(2) [OF b(1,2)])
    then show "?h \<noteq> (?t + i) mod 64" by (rule not_sym)
  qed
  moreover have "cdc_rx_buf s' = (cdc_rx_buf s)[?h := d]" "cdc_rx_tail s' = cdc_rx_tail s"
    by (simp_all add: s'_def)
  ultimately show "ring_pending s' = ring_pending s @ [d]"
    using b by (simp add: ring_pending_def c' nth_list_update)
qed

lemma cdc_rx_law:
  assumes "ring_wf s"
  shows "ring_wf (cdc_rx ds s) \<and>
    ring_pending (cdc_rx ds s) = ring_pending s @ take (63 - length (ring_pending s)) ds"
  using assms
proof (induction ds s rule: cdc_rx.induct)
  case (2 d ds s)
  show ?case
  proof (cases "ring_count s = 63")
    case True
    then have "cdc_rx (d # ds) s = s" using ring_full_iff [OF 2(2)] by (simp add: Let_def)
    then show ?thesis using 2(2) True by simp
  next
    case False
    note one = ring_push_one [OF 2(2) False, of d]
    let ?s' = "s\<lparr>cdc_rx_buf := (cdc_rx_buf s)[unat (cdc_rx_head s) := d],
        cdc_rx_head := (cdc_rx_head s + 1) mod 64\<rparr>"
    have nf: "(cdc_rx_head s + 1) mod 64 \<noteq> cdc_rx_tail s"
      using ring_full_iff [OF 2(2)] False by simp
    then have run: "cdc_rx (d # ds) s = cdc_rx ds ?s'" by (simp add: Let_def)
    have c: "ring_count ?s' = Suc (ring_count s)"
      using arg_cong [OF one(2), of length] by simp
    have "63 - ring_count s = Suc (62 - ring_count s)"
      using False ring_count_lt [of s] by simp
    then show ?thesis
      using 2(1) [OF refl nf one(1)] one(2) c unfolding run by simp
  qed
qed simp

lemma cdc_pop_law:
  assumes wf: "ring_wf s"
  shows "case cdc_pop s of None \<Rightarrow> ring_pending s = []
    | Some (b, s') \<Rightarrow> ring_wf s' \<and> ring_pending s = b # ring_pending s'"
proof (cases "ring_count s = 0")
  case True
  then show ?thesis using ring_empty_iff [OF wf] by (simp add: cdc_pop_def ring_pending_def)
next
  case False
  let ?h = "unat (cdc_rx_head s)" and ?t = "unat (cdc_rx_tail s)" and ?c = "ring_count s"
  let ?s' = "s\<lparr>cdc_rx_tail := (cdc_rx_tail s + 1) mod 64\<rparr>"
  have b: "?h < 64" "?t < 64" "length (cdc_rx_buf s) = 64" using wf by (simp_all add: ring_wf_def)
  have t': "unat (cdc_rx_tail ?s') = (?t + 1) mod 64" by (simp add: ring_next [OF b(2)])
  have wf': "ring_wf ?s'" using b t' by (simp add: ring_wf_def)
  have c: "?c = (?h + 64 - ?t) mod 64" by (simp add: ring_count_def)
  have c': "?c = Suc (ring_count ?s')"
    using ring_arith(4) [OF b(1,2)] False unfolding ring_count_def t' by simp
  have "ring_pending s = cdc_rx_buf s ! ?t # ring_pending ?s'"
  proof (rule nth_equalityI)
    fix i assume i: "i < length (ring_pending s)"
    show "ring_pending s ! i = (cdc_rx_buf s ! ?t # ring_pending ?s') ! i"
    proof (cases i)
      case 0
      then show ?thesis using i b by (simp add: ring_pending_def)
    next
      case (Suc j)
      have "(?t + Suc j) mod 64 = ((?t + 1) mod 64 + j) mod 64" by (simp add: mod_simps)
      then show ?thesis using i Suc c' t' by (simp add: ring_pending_def del: upt_Suc)
    qed
  qed (use c' in simp)
  moreover have "cdc_pop s = Some (cdc_rx_buf s ! ?t, ?s')"
    using False ring_empty_iff [OF wf] by (simp add: cdc_pop_def)
  ultimately show ?thesis using wf' by simp
qed

interpretation cdc: byte_queue ring_wf ring_pending 63 cdc_rx cdc_pop
  by unfold_locales (use cdc_rx_law cdc_pop_law in auto)

section \<open>The bounded reads\<close>

lemma ring_kick [simp]:
  "ring_wf (snd (hal_watchdog_kick s)) = ring_wf s"
  "ring_pending (snd (hal_watchdog_kick s)) = ring_pending s"
  by (simp_all add: ring_wf_def ring_pending_def ring_count_def hal_watchdog_kick_def
      stm32_watchdog_kick_def IWDG_KR_reload_def)

text \<open>
  A read that ends: with the first byte queued or received, at a turn inside the window; or
  without, at a turn past the window, nothing having been queued or received before it.
\<close>

lemma cdc_get_loop_outcome:
  assumes "ring_wf s" "cdc_get_loop t0 ps s = Some (r, s')"
  shows "ring_wf s' \<and> (\<exists>k<length ps. (case r of
       Some b \<Rightarrow> snd (ps ! k) - t0 < 2000 \<and>
         (\<exists>rest. ring_pending s @ concat (map fst (take (Suc k) ps)) = b # rest)
     | None \<Rightarrow> \<not> snd (ps ! k) - t0 < 2000 \<and>
         (0 < k \<longrightarrow> ring_pending s @ concat (map fst (take k ps)) = [])))"
  using assms
proof (induction t0 ps s rule: cdc_get_loop.induct)
  case (2 t0 ds now ps s)
  let ?s1 = "cdc_rx ds s" and ?s2 = "snd (hal_watchdog_kick (cdc_rx ds s))"
  note p = cdc_rx_law [OF 2(2), of ds]
  have wf2: "ring_wf ?s2" using p by simp
  have turn: "ring_pending ?s2 = x # xs \<Longrightarrow> \<exists>rest. ring_pending s @ ds = x # rest" for x xs
    using p by (cases "ring_pending s"; cases ds) auto
  show ?case
  proof (cases "now - t0 < 2000")
    case False
    then have "r = None" "s' = ?s1" using 2(3) by (simp_all add: Let_def)
    then show ?thesis using p False by (intro conjI exI [of _ 0]) auto
  next
    case in_time: True
    show ?thesis
    proof (cases "cdc_pop ?s2")
      case None
      have "ring_pending ?s2 = []" using cdc_pop_law [OF wf2] None by simp
      then have e: "ring_pending s = []" using p by simp
      then have "ring_count s = 0" using ring_pending_length [of s] by simp
      then have e: "ring_pending s = []" "ds = []"
        using p e \<open>ring_pending ?s2 = []\<close> by simp_all
      have "cdc_get_loop t0 ps ?s2 = Some (r, s')" using 2(3) in_time None by (simp add: Let_def)
      from 2(1) [OF refl in_time refl None wf2 this] obtain k where
        k: "ring_wf s'" "k < length ps" and r: "(case r of
           Some b \<Rightarrow> snd (ps ! k) - t0 < 2000 \<and>
             (\<exists>rest. ring_pending ?s2 @ concat (map fst (take (Suc k) ps)) = b # rest)
         | None \<Rightarrow> \<not> snd (ps ! k) - t0 < 2000 \<and>
             (0 < k \<longrightarrow> ring_pending ?s2 @ concat (map fst (take k ps)) = []))"
        by blast
      then show ?thesis using e \<open>ring_pending ?s2 = []\<close>
        by (intro conjI exI [of _ "Suc k"]) (auto split: option.splits)
    next
      case (Some bs)
      obtain b s3 where bs: "bs = (b, s3)" by (cases bs)
      have r: "r = Some b" "s' = s3" using 2(3) in_time Some bs by (simp_all add: Let_def)
      have "ring_wf s3" "ring_pending ?s2 = b # ring_pending s3"
        using cdc_pop_law [OF wf2] Some bs by simp_all
      then show ?thesis using turn r in_time by (intro conjI exI [of _ 0]) auto
    qed
  qed
qed simp

text \<open>A read ends once the clock is seen past the window.\<close>

lemma cdc_get_loop_ends:
  "\<exists>(ds, now)\<in>set ps. \<not> now - t0 < 2000 \<Longrightarrow> cdc_get_loop t0 ps s \<noteq> None"
proof (induction t0 ps s rule: cdc_get_loop.induct)
  case (2 t0 ds now ps s)
  then show ?case by (auto simp: Let_def split: option.split)
qed simp

section \<open>Decimal\<close>

definition dec_value :: "u8 list \<Rightarrow> nat" where
  "dec_value ds = foldl (\<lambda>a d. 10 * a + (unat d - 0x30)) 0 ds"

lemma digit_of: "unat (0x30 + ucast (v mod 10 :: u32) :: u8) = 0x30 + unat v mod 10"
proof -
  have "unat (v mod 10) < 10" by (simp add: unat_mod)
  then show ?thesis
    by (simp add: unat_word_ariths unsigned_ucast_eq take_bit_nat_eq_self unat_mod)
qed

lemma say_digits_value:
  "foldr (\<lambda>d a. 10 * a + (unat d - 0x30)) (say_digits v) 0 = unat v"
proof (induction v rule: say_digits.induct)
  case (1 v)
  show ?case
  proof (cases "v = 0")
    case False
    then have "foldr (\<lambda>d a. 10 * a + (unat d - 0x30)) (say_digits v) 0 =
        10 * unat (v div 10) + unat v mod 10"
      using 1 by (subst say_digits.simps) (simp add: digit_of)
    also have "\<dots> = unat v" by (simp add: unat_div)
    finally show ?thesis .
  qed (simp add: say_digits.simps)
qed

lemma say_digits_shape:
  "(\<forall>d\<in>set (say_digits v). 0x30 \<le> unat d \<and> unat d \<le> 0x39) \<and>
   (v \<noteq> 0 \<longrightarrow> say_digits v \<noteq> [] \<and> unat (last (say_digits v)) \<noteq> 0x30) \<and>
   (\<forall>n. unat v < 10 ^ n \<longrightarrow> length (say_digits v) \<le> n)"
proof (induction v rule: say_digits.induct)
  case (1 v)
  show ?case
  proof (cases "v = 0")
    case False
    have q: "unat (v div 10) = unat v div 10" by (simp add: unat_div)
    have m: "unat v mod 10 < 10" by simp
    have sd: "say_digits v = (0x30 + ucast (v mod 10)) # say_digits (v div 10)"
      using False by (subst say_digits.simps) simp
    have "unat (last (say_digits v)) \<noteq> 0x30"
    proof (cases "v div 10 = 0")
      case True
      then have "unat v div 10 = 0" using q by simp
      then have "unat v mod 10 \<noteq> 0" using False by (simp add: unat_eq_0)
      then show ?thesis using True by (simp add: sd digit_of say_digits.simps [of 0])
    next
      case nz: False
      then show ?thesis using 1 [OF False] by (simp add: sd)
    qed
    moreover have "length (say_digits v) \<le> n" if "unat v < 10 ^ n" for n
    proof (cases n)
      case 0
      then show ?thesis using that False by (simp add: unat_eq_0)
    next
      case (Suc k)
      then have "unat (v div 10) < 10 ^ k" using that q by simp
      then show ?thesis using 1 [OF False] Suc by (simp add: sd)
    qed
    moreover have "\<forall>d\<in>set (say_digits v). 0x30 \<le> unat d \<and> unat d \<le> 0x39"
      using 1 [OF False] m by (auto simp: sd digit_of)
    ultimately show ?thesis using sd by simp
  qed (simp add: say_digits.simps)
qed

section \<open>Properties\<close>

definition link_fresh :: cdc_link where
  "link_fresh = wdg.extend wdg_cold \<lparr>cdc_rx_buf = replicate 64 0, cdc_rx_head = 0, cdc_rx_tail = 0\<rparr>"

lemma link_fresh_wf [simp]: "ring_wf link_fresh" "ring_pending link_fresh = []"
  by (simp_all add: link_fresh_def wdg.defs wdg_cold_def ring_wf_def ring_pending_def ring_count_def)

text \<open>C31. The CDC ring is a first-in first-out queue of 63 bytes: however packets from the
  interrupt and reads interleave, as long as no packet finds less room than it needs, the bytes
  read followed by the bytes still unread are the bytes received, in order. A packet that finds
  too little room keeps its longest prefix that fits, and never overwrites an unread byte.\<close>

theorem cdc_ring_is_a_queue:
  assumes "ring_wf s"
  shows "(cdc.roomy (length (ring_pending s)) ops \<longrightarrow>
      (case cdc.link_run ops s of (bs, s') \<Rightarrow> bs @ ring_pending s' = ring_pending s @ cdc.arrivals ops)) \<and>
    ring_pending (cdc_rx ds s) = ring_pending s @ take (63 - length (ring_pending s)) ds"
  using cdc.link_run_lossless [OF assms, of ops] cdc.push_law [OF assms, of ds]
  by (auto simp: case_prod_beta)

theorem cdc_ring_is_a_queue_witness:
  "case cdc.link_run [Arrive [1, 2], Take, Arrive [3]] link_fresh of
     (bs, s') \<Rightarrow> bs @ ring_pending s' = [1, 2, 3]"
  using cdc_ring_is_a_queue [OF link_fresh_wf(1), of "[Arrive [1, 2], Take, Arrive [3]]" "[]"] by simp

text \<open>The bounded read of the CDC transport returns the oldest byte available at the first
  turn, inside two seconds of entry on the wrapping millisecond clock, at which there is one; it
  reports a timeout only at a turn past the two seconds, when no earlier turn found a byte; and
  once the clock is seen past the window it does end.\<close>

theorem cdc_get_first_byte_or_timeout:
  assumes "ring_wf s"
  shows "((\<exists>(ds, now)\<in>set ps. \<not> now - t0 < 2000) \<longrightarrow> cdc_get_loop t0 ps s \<noteq> None) \<and>
    (case cdc_get_loop t0 ps s of None \<Rightarrow> True | Some (r, s') \<Rightarrow> ring_wf s' \<and>
      (\<exists>k<length ps. (case r of
         Some b \<Rightarrow> snd (ps ! k) - t0 < 2000 \<and>
           (\<exists>rest. ring_pending s @ concat (map fst (take (Suc k) ps)) = b # rest)
       | None \<Rightarrow> \<not> snd (ps ! k) - t0 < 2000 \<and>
           (0 < k \<longrightarrow> ring_pending s @ concat (map fst (take k ps)) = []))))"
proof (intro conjI impI)
  show "case cdc_get_loop t0 ps s of None \<Rightarrow> True | Some (r, s') \<Rightarrow> ring_wf s' \<and>
      (\<exists>k<length ps. (case r of
         Some b \<Rightarrow> snd (ps ! k) - t0 < 2000 \<and>
           (\<exists>rest. ring_pending s @ concat (map fst (take (Suc k) ps)) = b # rest)
       | None \<Rightarrow> \<not> snd (ps ! k) - t0 < 2000 \<and>
           (0 < k \<longrightarrow> ring_pending s @ concat (map fst (take k ps)) = [])))"
    using cdc_get_loop_outcome [OF assms] by (auto split: option.split)
qed (rule cdc_get_loop_ends)

theorem cdc_get_first_byte_or_timeout_witness:
  "cdc_get_loop 0xFFFFFFFE [([], 0xFFFFFFFF), ([], 5), ([], 3000)] link_fresh \<noteq> None"
  using cdc_get_first_byte_or_timeout [OF link_fresh_wf(1),
      of "[([], 0xFFFFFFFF), ([], 5), ([], 3000)]" "0xFFFFFFFE"]
  by simp

text \<open>\<open>say_u32\<close> prints the number: its bytes are decimal digits, at most ten (so the eleven-
  and twelve-byte buffers hold them and the terminator), without a leading zero except for zero
  itself, and reading them back gives the value.\<close>

theorem say_u32_prints_decimal:
  "dec_value (say_u32 v) = unat v \<and> list_all (\<lambda>d. 0x30 \<le> unat d \<and> unat d \<le> 0x39) (say_u32 v) \<and>
   say_u32 v \<noteq> [] \<and> length (say_u32 v) \<le> 10 \<and> (hd (say_u32 v) = 0x30 \<longleftrightarrow> v = 0)"
proof (cases "v = 0")
  case True
  then show ?thesis by (simp add: say_u32_def say_digits.simps dec_value_def)
next
  case False
  then have s: "say_u32 v = rev (say_digits v)" by (simp add: say_u32_def)
  note sh = say_digits_shape [of v]
  have "unat v < 10 ^ 10" using u32_bound [of v] by simp
  then have "length (say_digits v) \<le> 10" using sh by blast
  moreover have "dec_value (say_u32 v) = unat v"
    using say_digits_value [of v] by (simp add: s dec_value_def foldr_conv_foldl [symmetric] foldl_conv_foldr)
  moreover have "hd (say_u32 v) \<noteq> 0x30" using sh False by (auto simp: s hd_rev)
  ultimately show ?thesis using sh False by (auto simp: s list_all_iff)
qed

end
