(* ===== verification/Boot_Stages.thy ===== *)
theory Boot_Stages
  imports Updater_Session Boot_Link Flash_KV
begin

text \<open>
  The two loaders, boot/stage1/main.c and boot/stage2/main.c: what they serve, what they decide
  and in which order, the rollback floor, and the hand-over. A run of a stage ends in a jump to an
  image or in its loader, waiting for a host with the update server's state; a stage-2 run may also
  not end (\<open>None\<close>), when saving the floor does not. Bring-up of clock, time base and UART precedes
  the first line modelled and touches none of this state.
\<close>

section \<open>State\<close>

record stage = updater +
  st_said :: "string list"
  st_polls :: nat
  st_delay_ms :: nat
  SCB_VTOR :: u32

text \<open>
  A build and its surroundings: whether the CDC driver is built in, and what the n-th question
  whether the host has enumerated the device is answered.
\<close>

record boot_env =
  DRV_USB_CDC :: bool
  cdc_enumerated :: "nat \<Rightarrow> bool"

definition STAGE1_WATCHDOG_MS :: u32 where "STAGE1_WATCHDOG_MS = 8000"
definition STAGE1_CDC_WINDOW_MS :: nat where "STAGE1_CDC_WINDOW_MS = 750"
definition STAGE2_WATCHDOG_MS :: u32 where "STAGE2_WATCHDOG_MS = 8000"
definition STAGE2_CDC_WINDOW_MS :: nat where "STAGE2_CDC_WINDOW_MS = 750"
definition KV_KEY_ROLLBACK_FLOOR :: u8 where "KV_KEY_ROLLBACK_FLOOR = 0x21"

datatype 's boot_end = Jump u32 u32 's | Loader 's

primrec end_state :: "'s boot_end \<Rightarrow> 's" where
  "end_state (Jump sp pc s) = s"
| "end_state (Loader s) = s"

section \<open>Console output\<close>

definition crlf :: string where "crlf = [CHR 0x0D, CHR 0x0A]"

definition say :: "string \<Rightarrow> 'm stage_scheme \<Rightarrow> 'm stage_scheme" where
  "say t s = s\<lparr>st_said := st_said s @ [t]\<rparr>"

definition say_number :: "u32 \<Rightarrow> 'm stage_scheme \<Rightarrow> 'm stage_scheme" where
  "say_number v s = say (map (\<lambda>b. char_of (unat b)) (say_u32 v)) s"

section \<open>Hand-over\<close>

definition jump_to :: "u32 \<Rightarrow> 'm stage_scheme \<Rightarrow> 'm stage_scheme boot_end" where
  "jump_to payload_base s =
     Jump (mem_u32 (fl_mem s) payload_base) (mem_u32 (fl_mem s) (payload_base + 4))
       (s\<lparr>SCB_VTOR := payload_base\<rparr>)"

text \<open>Stage-2's copy of the function is the same text.\<close>

definition stage2_jump_to :: "u32 \<Rightarrow> 'm stage_scheme \<Rightarrow> 'm stage_scheme boot_end" where
  "stage2_jump_to = jump_to"

section \<open>The CDC watch window\<close>

text \<open>\<open>while (!enumerated() && waited < window) { delay 10; waited += 10; kick; }\<close>\<close>

function cdc_wait :: "boot_env \<Rightarrow> nat \<Rightarrow> nat \<Rightarrow> 'm stage_scheme \<Rightarrow> 'm stage_scheme" where
  "cdc_wait env window waited s =
     (let e = cdc_enumerated env (st_polls s);
          s1 = s\<lparr>st_polls := Suc (st_polls s)\<rparr>
      in if \<not> e \<and> waited < window
         then cdc_wait env window (waited + 10)
                (snd (hal_watchdog_kick (s1\<lparr>st_delay_ms := st_delay_ms s + 10\<rparr>)))
         else s1)"
  by pat_completeness auto
termination
  by (relation "measure (\<lambda>(env, window, waited, s). window - waited)") auto

declare cdc_wait.simps [simp del]

definition cdc_bring_up :: "boot_env \<Rightarrow> nat \<Rightarrow> string \<Rightarrow> 'm stage_scheme \<Rightarrow> 'm stage_scheme" where
  "cdc_bring_up env window tag s =
     (if DRV_USB_CDC env
      then let s1 = cdc_wait env window 0 s;
               cdc = cdc_enumerated env (st_polls s1);
               s2 = s1\<lparr>st_polls := Suc (st_polls s1)\<rparr>
           in say (if cdc then tag @ '': cdc up'' @ crlf else tag @ '': cdc absent'' @ crlf) s2
      else s)"

section \<open>Stage-1\<close>

definition stage1_target :: "image_trust \<Rightarrow> 'm stage_scheme updater_target" where
  "stage1_target tr =
     \<lparr>tg_base = HAL_BOOTMAP_STAGE2_BASE, tg_size = HAL_BOOTMAP_STAGE2_SIZE,
      tg_max_body = HAL_BOOTMAP_STAGE2_USABLE, tg_sectors = [4], tg_verify = boot_image_is_good tr,
      tg_floor_ok = None, tg_floor_set = None\<rparr>"

definition stage1_recovery :: "boot_env \<Rightarrow> string \<Rightarrow> 'm stage_scheme \<Rightarrow> 'm stage_scheme boot_end" where
  "stage1_recovery env why s =
     (let s1 = say (crlf @ ''stage1: recovery ('') s;
          s2 = say why s1;
          s3 = say ('')'' @ crlf) s2;
          s4 = cdc_bring_up env STAGE1_CDC_WINDOW_MS ''stage1'' s3;
          s5 = say (''stage1: waiting for an image'' @ crlf) s4
      in Loader (snd (hal_watchdog_kick s5)))"

definition stage1_main ::
    "image_trust \<Rightarrow> boot_env \<Rightarrow> 'm stage_scheme \<Rightarrow> 'm stage_scheme boot_end" where
  "stage1_main tr env s0 =
     (let s1 = say (crlf @ ''stage1'' @ crlf) s0;
          s2 = snd (hal_boot_block_init s1);
          s3 = snd (hal_watchdog_start STAGE1_WATCHDOG_MS s2);
          s4 = snd (hal_watchdog_kick s3)
      in if hal_boot_get_request s4 = HAL_BOOT_REQ_STAGE1
         then stage1_recovery env ''requested'' (snd (hal_boot_clear_request s4))
         else
           let s5 = say crlf (say_number (hal_boot_get_attempts s4) (say ''stage1: attempts='' s4))
           in if hal_boot_get_attempts s5 \<ge> HAL_BOOT_MAX_ATTEMPTS then stage1_recovery env ''crashloop'' s5
              else if \<not> boot_image_is_good tr (fl_mem s5) HAL_BOOTMAP_STAGE2_BASE HAL_BOOTMAP_STAGE2_USABLE
              then stage1_recovery env ''stage-2 did not verify'' s5
              else
                let s6 = snd (hal_boot_account_attempt s5);
                    s7 = say (''stage1: ok, jumping'' @ crlf) s6
                in jump_to HAL_BOOTMAP_STAGE2_PAYLOAD s7)"

section \<open>The rollback floor\<close>

definition floor_get :: "kv_build \<Rightarrow> 'm flash_scheme \<Rightarrow> u32" where
  "floor_get cfg s =
     (case hal_flash_read cfg KV_KEY_ROLLBACK_FLOOR True True s of
        (st, buf) \<Rightarrow>
          if st \<noteq> HAL_OK \<or> length buf \<noteq> 4 then 0
          else le32 (buf ! 0) (buf ! 1) (buf ! 2) (buf ! 3))"

definition floor_ok :: "kv_build \<Rightarrow> u32 \<Rightarrow> 'm flash_scheme \<Rightarrow> bool" where
  "floor_ok cfg version s \<longleftrightarrow> version \<ge> floor_get cfg s"

definition floor_set ::
    "kv_build \<Rightarrow> u8 \<Rightarrow> u32 \<Rightarrow> 'm flash_scheme \<Rightarrow> (bool \<times> 'm flash_scheme) option" where
  "floor_set cfg junk version s =
     map_option (\<lambda>(st, s'). (st = HAL_OK, s'))
       (hal_flash_save cfg junk KV_KEY_ROLLBACK_FLOOR (Some (le32_bytes version)) s)"

section \<open>Stage-2\<close>

definition app_target :: "kv_build \<Rightarrow> u8 \<Rightarrow> image_trust \<Rightarrow> 'm stage_scheme updater_target" where
  "app_target cfg junk tr =
     \<lparr>tg_base = HAL_BOOTMAP_APP_BASE, tg_size = HAL_BOOTMAP_APP_SIZE,
      tg_max_body = HAL_BOOTMAP_APP_USABLE, tg_sectors = [5, 6, 7], tg_verify = boot_image_is_good tr,
      tg_floor_ok = Some (floor_ok cfg), tg_floor_set = Some (floor_set cfg junk)\<rparr>"

definition update_mode :: "boot_env \<Rightarrow> string \<Rightarrow> 'm stage_scheme \<Rightarrow> 'm stage_scheme boot_end" where
  "update_mode env why s =
     (let s1 = say (crlf @ ''stage2: update mode ('') s;
          s2 = say why s1;
          s3 = say ('')'' @ crlf) s2;
          s4 = cdc_bring_up env STAGE2_CDC_WINDOW_MS ''stage2'' s3;
          s5 = say (''stage2: waiting for an app image'' @ crlf) s4
      in Loader (snd (hal_watchdog_kick s5)))"

definition stage2_main ::
    "kv_build \<Rightarrow> u8 \<Rightarrow> image_trust \<Rightarrow> boot_env \<Rightarrow> 'm stage_scheme \<Rightarrow> 'm stage_scheme boot_end option" where
  "stage2_main cfg junk tr env s0 =
     (let s1 = snd (hal_watchdog_kick (snd (hal_watchdog_start STAGE2_WATCHDOG_MS s0)));
          s2 = say (crlf @ ''stage2'' @ crlf) s1;
          s3 = snd (hal_boot_block_init s2)
      in if hal_boot_get_request s3 = HAL_BOOT_REQ_LOADER
         then Some (update_mode env ''requested'' (snd (hal_boot_clear_request s3)))
         else if \<not> boot_image_is_good tr (fl_mem s3) HAL_BOOTMAP_APP_BASE HAL_BOOTMAP_APP_USABLE
         then Some (update_mode env ''app did not verify'' s3)
         else
           let version = ih_version (image_header_at (fl_mem s3) HAL_BOOTMAP_APP_BASE);
               s4 = say crlf (say_number (floor_get cfg s3) (say '' floor=''
                      (say_number version (say ''stage2: app version='' s3))))
           in if \<not> floor_ok cfg version s4
              then Some (update_mode env ''app is older than the rollback floor'' s4)
              else
                let run = (\<lambda>s. Some (stage2_jump_to HAL_BOOTMAP_APP_PAYLOAD
                      (say (''stage2: ok, jumping to the app'' @ crlf) s)))
                in if version > floor_get cfg s4
                   then (case floor_set cfg junk version s4 of
                           None \<Rightarrow> None
                         | Some (True, s5) \<Rightarrow> run (say (''stage2: floor raised'' @ crlf) s5)
                         | Some (False, s5) \<Rightarrow> run (say (''stage2: floor write refused'' @ crlf) s5))
                   else run s4)"

section \<open>What the stages leave alone\<close>

text \<open>The state without the watchdog, the console and the wait: flash, boot block, protocol, VTOR.\<close>

definition st_core :: "'m stage_scheme \<Rightarrow> 'm stage_scheme" where
  "st_core s = s\<lparr>IWDG_PR := 0, IWDG_RLR := 0, iwdg_unlocked := False, iwdg_armed := False,
     iwdg_reloads := 0, iwdg_sr_reads := 0, iwdg_timeout_ms := 0, iwdg_running := 0,
     st_said := [], st_polls := 0, st_delay_ms := 0\<rparr>"

lemma st_core_more: "wdg.more s' = wdg.more s \<Longrightarrow> st_core s' = st_core s"
  by (cases s; cases s') (simp add: st_core_def)

lemma st_core_upd [simp]:
  "st_core (s\<lparr>st_said := x\<rparr>) = st_core s"
  "st_core (s\<lparr>st_polls := p\<rparr>) = st_core s"
  "st_core (s\<lparr>st_delay_ms := d\<rparr>) = st_core s"
  by (cases s; simp add: st_core_def)+

lemma st_core_D:
  assumes "st_core s' = st_core s"
  shows "fl_mem s' = fl_mem s" "SCB_VTOR s' = SCB_VTOR s" "flash_calm s' = flash_calm s"
    "sboot_magic s' = sboot_magic s" "sboot_request s' = sboot_request s"
    "sboot_attempts s' = sboot_attempts s" "sboot_check s' = sboot_check s"
    "hal_boot_block_valid s' = hal_boot_block_valid s"
proof -
  have *: "fl_mem (st_core s') = fl_mem (st_core s)" "SCB_VTOR (st_core s') = SCB_VTOR (st_core s)"
    "fl_busy (st_core s') = fl_busy (st_core s)" "FLASH_CR (st_core s') = FLASH_CR (st_core s)"
    "fl_dur (st_core s') = fl_dur (st_core s)" "sboot_magic (st_core s') = sboot_magic (st_core s)"
    "sboot_request (st_core s') = sboot_request (st_core s)"
    "sboot_attempts (st_core s') = sboot_attempts (st_core s)"
    "sboot_check (st_core s') = sboot_check (st_core s)" by (simp_all only: assms)
  then show "fl_mem s' = fl_mem s" "SCB_VTOR s' = SCB_VTOR s" "flash_calm s' = flash_calm s"
    "sboot_magic s' = sboot_magic s" "sboot_request s' = sboot_request s"
    "sboot_attempts s' = sboot_attempts s" "sboot_check s' = sboot_check s"
    "hal_boot_block_valid s' = hal_boot_block_valid s"
    by (simp_all add: st_core_def flash_calm_def hal_boot_block_valid_def)
qed

lemma iwdg_wait_update_more: "wdg.more (snd (iwdg_wait_update n s)) = wdg.more s"
proof (induction n s rule: iwdg_wait_update.induct)
  case (1 n s)
  then show ?case by (subst iwdg_wait_update.simps) (auto simp: Let_def)
qed

lemma hal_watchdog_start_more: "wdg.more (snd (hal_watchdog_start t s)) = wdg.more s"
proof -
  have w: "iwdg_wait_update n s1 = (c, s2) \<Longrightarrow> wdg.more s2 = wdg.more s1" for n c and s1 s2 :: "'a wdg_scheme"
    using iwdg_wait_update_more [of n s1] by simp
  have "wdg.more (snd (stm32_watchdog_start t s)) = wdg.more s"
    by (auto simp: stm32_watchdog_start_def Let_def iwdg_write_defs split: prod.split dest!: w)
  then show ?thesis by (simp add: hal_watchdog_start_def)
qed

lemma st_core_ops [simp]:
  "st_core (say t s) = st_core s"
  "st_core (say_number v s) = st_core s"
  "st_core (snd (hal_watchdog_kick s)) = st_core s"
  "st_core (snd (hal_watchdog_start ms s)) = st_core s"
  by (auto simp: say_def say_number_def hal_watchdog_start_more intro: st_core_more)

lemma cdc_wait_core [simp]: "st_core (cdc_wait env window waited s) = st_core s"
proof (induction env window waited s rule: cdc_wait.induct)
  case (1 env window waited s)
  then show ?case by (subst cdc_wait.simps) (auto simp: Let_def)
qed

lemma cdc_bring_up_core [simp]: "st_core (cdc_bring_up env window tag s) = st_core s"
  by (simp add: cdc_bring_up_def Let_def)

lemma loaders_core [simp]:
  "\<exists>s'. stage1_recovery env why s = Loader s' \<and> st_core s' = st_core s"
  "\<exists>s'. update_mode env why s = Loader s' \<and> st_core s' = st_core s"
  by (simp_all add: stage1_recovery_def update_mode_def Let_def)

text \<open>The boot block after bring-up: the one found if it was sealed, a fresh one otherwise.\<close>

definition block_found :: "'m boot_scheme \<Rightarrow> u32 \<times> u32" where
  "block_found s = (if hal_boot_block_valid s then (sboot_request s, sboot_attempts s)
     else (HAL_BOOT_REQ_NONE, 0))"

lemma block_init_found:
  "hal_boot_block_valid (snd (hal_boot_block_init s))"
  "sboot_request (snd (hal_boot_block_init s)) = fst (block_found s)"
  "sboot_attempts (snd (hal_boot_block_init s)) = snd (block_found s)"
  "fl_mem (snd (hal_boot_block_init s)) = fl_mem s"
  "flash_calm (snd (hal_boot_block_init s)) = flash_calm s"
  by (simp_all add: hal_boot_block_init_def block_found_def block_seal_eq flash_calm_def
      hal_boot_block_valid_def)

lemma get_valid:
  "hal_boot_block_valid s \<Longrightarrow> hal_boot_get_request s = sboot_request s"
  "hal_boot_block_valid s \<Longrightarrow> hal_boot_get_attempts s = sboot_attempts s"
  by (simp_all add: hal_boot_get_request_def hal_boot_get_attempts_def)

lemma clear_valid:
  "hal_boot_block_valid s \<Longrightarrow>
    snd (hal_boot_clear_request s) = block_seal HAL_BOOT_REQ_NONE (sboot_attempts s) s"
  by (simp add: hal_boot_clear_request_def)

lemma block_seal_frame [simp]:
  "fl_mem (block_seal r a s) = fl_mem s" "flash_calm (block_seal r a s) = flash_calm s"
  by (simp_all add: block_seal_eq flash_calm_def)

section \<open>Stage-1\<close>

text \<open>
  Everything a run of stage-1 comes to. It hands over exactly when nobody asked for recovery, fewer
  than three strikes are counted and stage-2 verifies; the strike is in the block before the jump.
\<close>

definition stage1_hands_over :: "image_trust \<Rightarrow> 'm boot_scheme \<Rightarrow> bool" where
  "stage1_hands_over tr s \<longleftrightarrow> fst (block_found s) \<noteq> HAL_BOOT_REQ_STAGE1 \<and> snd (block_found s) < 3 \<and>
     boot_image_is_good tr (fl_mem s) HAL_BOOTMAP_STAGE2_BASE HAL_BOOTMAP_STAGE2_USABLE"

text \<open>The block and the flash as bring-up leaves them, carried through console and watchdog.\<close>

definition found_in :: "'m boot_scheme \<Rightarrow> 'm boot_scheme \<Rightarrow> bool" where
  "found_in s0 s \<longleftrightarrow> hal_boot_block_valid s \<and> sboot_request s = fst (block_found s0) \<and>
     sboot_attempts s = snd (block_found s0) \<and> fl_mem s = fl_mem s0 \<and> flash_calm s = flash_calm s0"

lemma found_in_init: "found_in s0 (snd (hal_boot_block_init s0))"
  by (simp add: found_in_def block_init_found)

lemma found_in_core:
  assumes "st_core s' = st_core s"
  shows "found_in s0 s \<Longrightarrow> found_in s0 s'" "found_in s s1 \<Longrightarrow> found_in s' s1"
  using st_core_D [OF assms] by (simp_all add: found_in_def block_found_def)

lemma found_in_gets:
  assumes "found_in s0 s"
  shows "hal_boot_get_request s = fst (block_found s0)" "hal_boot_get_attempts s = snd (block_found s0)"
    "fl_mem s = fl_mem s0" "flash_calm s = flash_calm s0"
  using assms by (simp_all add: found_in_def get_valid)

lemma stage1_main_steps:
  fixes s0 :: "'m stage_scheme"
  obtains s4 s5 where "found_in s0 s4" "found_in s0 s5"
    "stage1_main tr env s0 =
      (if fst (block_found s0) = HAL_BOOT_REQ_STAGE1
       then stage1_recovery env ''requested'' (snd (hal_boot_clear_request s4))
       else if snd (block_found s0) \<ge> HAL_BOOT_MAX_ATTEMPTS then stage1_recovery env ''crashloop'' s5
       else if \<not> boot_image_is_good tr (fl_mem s0) HAL_BOOTMAP_STAGE2_BASE HAL_BOOTMAP_STAGE2_USABLE
       then stage1_recovery env ''stage-2 did not verify'' s5
       else jump_to HAL_BOOTMAP_STAGE2_PAYLOAD
         (say (''stage1: ok, jumping'' @ crlf) (snd (hal_boot_account_attempt s5))))"
proof -
  define s1 where "s1 = say (crlf @ ''stage1'' @ crlf) s0"
  define s4 where "s4 = snd (hal_watchdog_kick (snd (hal_watchdog_start STAGE1_WATCHDOG_MS
    (snd (hal_boot_block_init s1)))))"
  define s5 where "s5 = say crlf (say_number (hal_boot_get_attempts s4) (say ''stage1: attempts='' s4))"
  have f: "found_in s0 s4"
    by (rule found_in_core(1) [OF _ found_in_core(2) [OF _ found_in_init [of s1]]])
      (simp_all add: s1_def s4_def)
  have f5: "found_in s0 s5" by (rule found_in_core(1) [OF _ f]) (simp add: s5_def)
  show thesis
  proof (rule that [OF f f5])
    show "stage1_main tr env s0 =
      (if fst (block_found s0) = HAL_BOOT_REQ_STAGE1
       then stage1_recovery env ''requested'' (snd (hal_boot_clear_request s4))
       else if snd (block_found s0) \<ge> HAL_BOOT_MAX_ATTEMPTS then stage1_recovery env ''crashloop'' s5
       else if \<not> boot_image_is_good tr (fl_mem s0) HAL_BOOTMAP_STAGE2_BASE HAL_BOOTMAP_STAGE2_USABLE
       then stage1_recovery env ''stage-2 did not verify'' s5
       else jump_to HAL_BOOTMAP_STAGE2_PAYLOAD
         (say (''stage1: ok, jumping'' @ crlf) (snd (hal_boot_account_attempt s5))))"
      unfolding stage1_main_def Let_def s1_def [symmetric] s4_def [symmetric] s5_def [symmetric]
      by (simp only: found_in_gets [OF f] found_in_gets [OF f5])
  qed
qed

lemma block_found_sealed: "hal_boot_block_valid s \<Longrightarrow> block_found s = (sboot_request s, sboot_attempts s)"
  by (simp add: block_found_def)

lemma jump_to_core:
  assumes "st_core s = st_core s1" "hal_boot_block_valid s1"
  shows "\<exists>s'. jump_to a s = Jump (mem_u32 (fl_mem s1) a) (mem_u32 (fl_mem s1) (a + 4)) s' \<and>
    SCB_VTOR s' = a \<and> fl_mem s' = fl_mem s1 \<and> flash_calm s' = flash_calm s1 \<and>
    hal_boot_block_valid s' \<and> block_found s' = block_found s1"
  using st_core_D [OF assms(1)] assms(2)
  by (simp add: jump_to_def block_found_def hal_boot_block_valid_def flash_calm_def)

lemma stage1_jumps:
  fixes s0 :: "'m stage_scheme"
  assumes h: "stage1_hands_over tr s0"
  shows "\<exists>s'. stage1_main tr env s0 = Jump (mem_u32 (fl_mem s0) HAL_BOOTMAP_STAGE2_PAYLOAD)
      (mem_u32 (fl_mem s0) (HAL_BOOTMAP_STAGE2_PAYLOAD + 4)) s' \<and>
    SCB_VTOR s' = HAL_BOOTMAP_STAGE2_PAYLOAD \<and> fl_mem s' = fl_mem s0 \<and>
    flash_calm s' = flash_calm s0 \<and> hal_boot_block_valid s' \<and>
    block_found s' = (fst (block_found s0), snd (block_found s0) + 1)"
proof -
  obtain s4 s5 where f: "found_in s0 s5" and m: "stage1_main tr env s0 =
      (if fst (block_found s0) = HAL_BOOT_REQ_STAGE1
       then stage1_recovery env ''requested'' (snd (hal_boot_clear_request s4))
       else if snd (block_found s0) \<ge> HAL_BOOT_MAX_ATTEMPTS then stage1_recovery env ''crashloop'' s5
       else if \<not> boot_image_is_good tr (fl_mem s0) HAL_BOOTMAP_STAGE2_BASE HAL_BOOTMAP_STAGE2_USABLE
       then stage1_recovery env ''stage-2 did not verify'' s5
       else jump_to HAL_BOOTMAP_STAGE2_PAYLOAD
         (say (''stage1: ok, jumping'' @ crlf) (snd (hal_boot_account_attempt s5))))"
    by (rule stage1_main_steps)
  define s6 where "s6 = block_seal (fst (block_found s0)) (snd (block_found s0) + 1) s5"
  have lt: "snd (block_found s0) < 0xFFFFFFFF" "\<not> snd (block_found s0) \<ge> HAL_BOOT_MAX_ATTEMPTS"
    using h by (simp_all add: stage1_hands_over_def word_less_nat_alt word_le_nat_alt HAL_BOOT_MAX_ATTEMPTS_def)
  then have a: "snd (hal_boot_account_attempt s5) = s6"
    using f by (simp add: hal_boot_account_attempt_def found_in_def s6_def)
  have s6: "hal_boot_block_valid s6" "block_found s6 = (fst (block_found s0), snd (block_found s0) + 1)"
    "fl_mem s6 = fl_mem s0" "flash_calm s6 = flash_calm s0"
    using f by (simp_all add: s6_def found_in_def block_found_sealed)
  have "stage1_main tr env s0 = jump_to HAL_BOOTMAP_STAGE2_PAYLOAD (say (''stage1: ok, jumping'' @ crlf) s6)"
    using h lt(2) unfolding m stage1_hands_over_def by (simp add: a)
  then show ?thesis
    using jump_to_core [of "say (''stage1: ok, jumping'' @ crlf) s6" s6 HAL_BOOTMAP_STAGE2_PAYLOAD] s6
    by simp
qed

lemma stage1_recovers:
  fixes s0 :: "'m stage_scheme"
  assumes h: "\<not> stage1_hands_over tr s0"
  shows "\<exists>s'. stage1_main tr env s0 = Loader s' \<and> fl_mem s' = fl_mem s0 \<and> flash_calm s' = flash_calm s0 \<and>
    hal_boot_block_valid s' \<and>
    block_found s' = (if fst (block_found s0) = HAL_BOOT_REQ_STAGE1 then HAL_BOOT_REQ_NONE
      else fst (block_found s0), snd (block_found s0))"
proof -
  obtain s4 s5 where f: "found_in s0 s4" "found_in s0 s5" and m: "stage1_main tr env s0 =
      (if fst (block_found s0) = HAL_BOOT_REQ_STAGE1
       then stage1_recovery env ''requested'' (snd (hal_boot_clear_request s4))
       else if snd (block_found s0) \<ge> HAL_BOOT_MAX_ATTEMPTS then stage1_recovery env ''crashloop'' s5
       else if \<not> boot_image_is_good tr (fl_mem s0) HAL_BOOTMAP_STAGE2_BASE HAL_BOOTMAP_STAGE2_USABLE
       then stage1_recovery env ''stage-2 did not verify'' s5
       else jump_to HAL_BOOTMAP_STAGE2_PAYLOAD
         (say (''stage1: ok, jumping'' @ crlf) (snd (hal_boot_account_attempt s5))))"
    by (rule stage1_main_steps)
  show ?thesis
  proof (cases "fst (block_found s0) = HAL_BOOT_REQ_STAGE1")
    case True
    obtain s' where s': "stage1_recovery env ''requested'' (snd (hal_boot_clear_request s4)) = Loader s'"
      "st_core s' = st_core (snd (hal_boot_clear_request s4))" using loaders_core(1) by blast
    show ?thesis
      using True m s'(1) st_core_D [OF s'(2)] f(1)
      by (simp add: clear_valid found_in_def block_found_sealed)
  next
    case False
    obtain why where r: "stage1_main tr env s0 = stage1_recovery env why s5"
      using h False m by (auto simp: stage1_hands_over_def HAL_BOOT_MAX_ATTEMPTS_def split: if_splits)
    obtain s' where s': "stage1_recovery env why s5 = Loader s'" "st_core s' = st_core s5"
      using loaders_core(1) by blast
    show ?thesis
      using False r s'(1) st_core_D [OF s'(2)] f(2) by (simp add: found_in_def block_found_sealed)
  qed
qed

text \<open>
  A board whose image never calls itself healthy: each boot ends in the jump, what runs leaves a
  sealed block with the strikes as they are (it may leave a request, and anything in flash), and the
  board comes up again.
\<close>

inductive crash_boots :: "image_trust \<Rightarrow> 'm stage_scheme \<Rightarrow> nat \<Rightarrow> 'm stage_scheme \<Rightarrow> bool"
  for tr :: image_trust and s0 :: "'m stage_scheme" where
  cold: "crash_boots tr s0 0 s0"
| again: "\<lbrakk>crash_boots tr s0 n s; stage1_main tr env s = Jump sp pc s1;
     hal_boot_block_valid s2; sboot_attempts s2 = sboot_attempts s1\<rbrakk> \<Longrightarrow> crash_boots tr s0 (Suc n) s2"

inductive_cases crash_boots_SucE: "crash_boots tr s0 (Suc n) s2"

lemma stage1_jump_strike:
  assumes "stage1_main tr env s = Jump sp pc s1"
  shows "snd (block_found s) < 3 \<and> hal_boot_block_valid s1 \<and> sboot_attempts s1 = snd (block_found s) + 1"
proof -
  have h: "stage1_hands_over tr s"
  proof (rule ccontr)
    assume "\<not> stage1_hands_over tr s"
    from stage1_recovers [OF this, of env] show False using assms by auto
  qed
  then show ?thesis
    using stage1_jumps [OF h, of env] assms by (auto simp: block_found_sealed stage1_hands_over_def)
qed

lemma crash_boots_count:
  "crash_boots tr s0 n s \<Longrightarrow> unat (snd (block_found s)) = unat (snd (block_found s0)) + n \<and>
     (n = 0 \<or> unat (snd (block_found s)) \<le> 3)"
proof (induction rule: crash_boots.induct)
  case (again n s env sp pc s1 s2)
  have j: "snd (block_found s) < 3" "sboot_attempts s1 = snd (block_found s) + 1"
    using stage1_jump_strike [OF again.hyps(2)] by simp_all
  then have "unat (snd (block_found s) + 1) = Suc (unat (snd (block_found s)))"
    by (simp add: unat_word_ariths word_less_nat_alt)
  then show ?case using again j by (simp add: block_found_sealed word_less_nat_alt)
qed simp

section \<open>The targets\<close>

lemma boot_kv_sectors: "raw_sector_allowed boot_kv 4" "raw_sector_allowed boot_kv 5"
  "raw_sector_allowed boot_kv 6" "raw_sector_allowed boot_kv 7"
  by (simp_all add: raw_sector_allowed_def boot_kv_def word_le_nat_alt)

lemma partition_tiles:
  "in_partition HAL_BOOTMAP_STAGE2_BASE HAL_BOOTMAP_STAGE2_SIZE a \<longleftrightarrow> in_sector 4 a"
  "in_partition HAL_BOOTMAP_APP_BASE HAL_BOOTMAP_APP_SIZE a \<longleftrightarrow>
     in_sector 5 a \<or> in_sector 6 a \<or> in_sector 7 a"
  "in_partition HAL_BOOTMAP_KV_BASE HAL_BOOTMAP_KV_SIZE a \<longleftrightarrow> in_sector 2 a \<or> in_sector 3 a"
  using bootmap_matches_sectors [of a] by blast+

interpretation st1: partition_target boot_kv "stage1_target tr :: 'm stage_scheme updater_target" for tr
proof
  fix n a
  show "n \<in> set (tg_sectors (stage1_target tr :: 'm stage_scheme updater_target)) \<Longrightarrow>
      raw_sector_allowed boot_kv n"
    by (simp add: stage1_target_def boot_kv_sectors)
  show "in_partition (tg_base (stage1_target tr :: 'm stage_scheme updater_target))
      (tg_size (stage1_target tr :: 'm stage_scheme updater_target)) a \<longleftrightarrow>
      (\<exists>n\<in>set (tg_sectors (stage1_target tr :: 'm stage_scheme updater_target)). in_sector n a)"
    by (simp add: stage1_target_def partition_tiles)
qed (simp_all add: stage1_target_def bootmap_defs)

interpretation app: partition_target boot_kv "app_target boot_kv junk tr :: 'm stage_scheme updater_target"
  for junk tr
proof
  fix n a
  show "n \<in> set (tg_sectors (app_target boot_kv junk tr :: 'm stage_scheme updater_target)) \<Longrightarrow>
      raw_sector_allowed boot_kv n"
    by (auto simp: app_target_def boot_kv_sectors)
  show "in_partition (tg_base (app_target boot_kv junk tr :: 'm stage_scheme updater_target))
      (tg_size (app_target boot_kv junk tr :: 'm stage_scheme updater_target)) a \<longleftrightarrow>
      (\<exists>n\<in>set (tg_sectors (app_target boot_kv junk tr :: 'm stage_scheme updater_target)). in_sector n a)"
    by (simp add: app_target_def partition_tiles)
qed (simp_all add: app_target_def bootmap_defs)

section \<open>The store under the floor\<close>

lemma boot_kv_starts:
  "FLASH_PRIMARY_STORAGE_START boot_kv = 0x08008000" "FLASH_SECONDARY_STORAGE_START boot_kv = 0x0800C000"
  by (simp_all add: boot_kv_def FLASH_PRIMARY_STORAGE_START_def FLASH_SECONDARY_STORAGE_START_def SECTOR_ADDR_def)

definition store_kept :: "(u32 \<Rightarrow> u8) \<Rightarrow> (u32 \<Rightarrow> u8) \<Rightarrow> bool" where
  "store_kept m m' \<longleftrightarrow> (\<forall>a. in_sector 2 a \<or> in_sector 3 a \<longrightarrow> m' a = m a)"

lemma store_kept_range:
  assumes "store_kept m m'" "n \<le> 0x4000"
  shows "mem_range m' 0x08008000 n = mem_range m 0x08008000 n"
    "mem_range m' 0x0800C000 n = mem_range m 0x0800C000 n"
proof -
  have "in_sector 2 (0x08008000 + word_of_nat i)" "in_sector 3 (0x0800C000 + word_of_nat i)" if "i < n" for i
  proof -
    have "unat (word_of_nat i :: u32) = i" using that assms(2) by (intro unat_u32) simp
    then show "in_sector 2 (0x08008000 + word_of_nat i)" "in_sector 3 (0x0800C000 + word_of_nat i)"
      using that assms(2) by (simp_all add: in_sector_nat sector_base_def sector_size_def unat_word_ariths)
  qed
  then show "mem_range m' 0x08008000 n = mem_range m 0x08008000 n"
    "mem_range m' 0x0800C000 n = mem_range m 0x0800C000 n"
    using assms(1) by (auto simp: mem_range_eq_iff store_kept_def)
qed

lemma kv_inv_kept: "store_kept m m' \<Longrightarrow> kv_inv boot_kv m' l \<longleftrightarrow> kv_inv boot_kv m l"
  using store_kept_range [of m m' "0x4000"]
  by (simp add: kv_inv_def sector_holds_def boot_kv_starts boot_kv_cap)

lemma floor_get_log:
  assumes "kv_cfg_ok cfg" "kv_inv cfg (fl_mem s) l"
  shows "floor_get cfg s = (case kv_map l KV_KEY_ROLLBACK_FLOOR of None \<Rightarrow> 0
    | Some v \<Rightarrow> if length v = 4 then le32 (v ! 0) (v ! 1) (v ! 2) (v ! 3) else 0)"
  using hal_flash_read_log [OF assms, of KV_KEY_ROLLBACK_FLOOR]
  by (simp add: floor_get_def split: option.split)

lemma kv_kept:
  fixes s s' :: "'m flash_scheme"
  assumes "kv_ok boot_kv s" "store_kept (fl_mem s) (fl_mem s')" "flash_calm s'"
  shows "kv_ok boot_kv s'" "kv_room boot_kv s' = kv_room boot_kv s" "floor_get boot_kv s' = floor_get boot_kv s"
proof -
  obtain l where l: "kv_inv boot_kv (fl_mem s) l" using assms(1) by (auto simp: kv_ok_def)
  then have l': "kv_inv boot_kv (fl_mem s') l" using kv_inv_kept [OF assms(2)] by simp
  show "kv_ok boot_kv s'" using l' assms(3) by (auto simp: kv_ok_def boot_kv_ok)
  show "kv_room boot_kv s' = kv_room boot_kv s" "floor_get boot_kv s' = floor_get boot_kv s"
    by (simp_all add: kv_room_log [OF boot_kv_ok l] kv_room_log [OF boot_kv_ok l']
        floor_get_log [OF boot_kv_ok l] floor_get_log [OF boot_kv_ok l'])
qed

lemma floor_set_raises:
  fixes s :: "'m flash_scheme"
  assumes "kv_ok boot_kv s" "10 \<le> kv_room boot_kv s"
  obtains s' where "floor_set boot_kv junk v s = Some (True, s')" "kv_ok boot_kv s'"
    "kv_room boot_kv s' = kv_room boot_kv s - 10" "floor_get boot_kv s' = v"
    "\<And>x. \<not> in_sector 2 x \<Longrightarrow> \<not> in_sector 3 x \<Longrightarrow> fl_mem s' x = fl_mem s x"
    "flash.more s' = flash.more s"
proof -
  obtain l where c: "flash_calm s" "kv_inv boot_kv (fl_mem s) l" using assms(1) by (auto simp: kv_ok_def)
  let ?v = "le32_bytes v"
  have v: "?v \<noteq> []" "even (length ?v)" "length ?v \<le> 248" by (simp_all add: le32_bytes_def)
  have r: "length (log_bytes l) + 6 + length ?v \<le> kv_cap (PRIMARY_FLASH_SECTOR boot_kv)"
    using assms(2) kv_room_log [OF boot_kv_ok c(2)] by (simp add: le32_bytes_def)
  from hal_flash_save_room [OF boot_kv_ok c v r, of junk KV_KEY_ROLLBACK_FLOOR] obtain s' l' where
    s: "hal_flash_save boot_kv junk KV_KEY_ROLLBACK_FLOOR (Some ?v) s = Some (HAL_OK, s')"
      "kv_result boot_kv s l' s'" "kv_map l' = (kv_map l)(KV_KEY_ROLLBACK_FLOOR \<mapsto> ?v)"
      "length (log_bytes l') = length (log_bytes l) + 6 + length ?v" .
  note inv = kv_result_inv [OF s(2)]
  show thesis
  proof (rule that)
    show "floor_set boot_kv junk v s = Some (True, s')" by (simp add: floor_set_def s(1))
    show "kv_ok boot_kv s'" using inv kv_result_calm [OF s(2)] by (auto simp: kv_ok_def boot_kv_ok)
    show "kv_room boot_kv s' = kv_room boot_kv s - 10"
      using s(4) by (simp add: kv_room_log [OF boot_kv_ok c(2)] kv_room_log [OF boot_kv_ok inv] le32_bytes_def)
    show "floor_get boot_kv s' = v"
      using s(3) le32_bytes_inverse [of v]
      by (simp add: floor_get_log [OF boot_kv_ok inv] le32_bytes_def numeral_2_eq_2 numeral_3_eq_3)
    show "\<not> in_sector 2 x \<Longrightarrow> \<not> in_sector 3 x \<Longrightarrow> fl_mem s' x = fl_mem s x" for x
      using s(2) by (simp add: kv_result_def boot_kv_def)
    show "flash.more s' = flash.more s" using s(2) by (simp add: kv_result_def flash_settled_def)
  qed
qed

section \<open>Stage-2\<close>

lemma floor_get_mem:
  assumes "fl_mem s' = fl_mem s"
  shows "floor_get cfg s' = floor_get cfg s" "floor_ok cfg v s' \<longleftrightarrow> floor_ok cfg v s"
  using assms by (simp_all add: floor_ok_def floor_get_def hal_flash_read_def stm32_flash_read_def
      flash_find_first_valid_entry_def split: option.split)

definition app_version :: "'m flash_scheme \<Rightarrow> u32" where
  "app_version s = ih_version (image_header_at (fl_mem s) HAL_BOOTMAP_APP_BASE)"

definition stage2_hands_over :: "kv_build \<Rightarrow> image_trust \<Rightarrow> 'm boot_scheme \<Rightarrow> bool" where
  "stage2_hands_over cfg tr s \<longleftrightarrow> fst (block_found s) \<noteq> HAL_BOOT_REQ_LOADER \<and>
     boot_image_is_good tr (fl_mem s) HAL_BOOTMAP_APP_BASE HAL_BOOTMAP_APP_USABLE \<and>
     floor_get cfg s \<le> app_version s"

definition stage2_handover :: "'m stage_scheme \<Rightarrow> 'm stage_scheme boot_end" where
  "stage2_handover s =
     stage2_jump_to HAL_BOOTMAP_APP_PAYLOAD (say (''stage2: ok, jumping to the app'' @ crlf) s)"

lemma stage2_main_steps:
  fixes s0 :: "'m stage_scheme"
  obtains s3 s4 where "found_in s0 s3" "found_in s0 s4"
    "stage2_main cfg junk tr env s0 =
      (if fst (block_found s0) = HAL_BOOT_REQ_LOADER
       then Some (update_mode env ''requested'' (snd (hal_boot_clear_request s3)))
       else if \<not> boot_image_is_good tr (fl_mem s0) HAL_BOOTMAP_APP_BASE HAL_BOOTMAP_APP_USABLE
       then Some (update_mode env ''app did not verify'' s3)
       else if \<not> floor_ok cfg (app_version s0) s0
       then Some (update_mode env ''app is older than the rollback floor'' s4)
       else if app_version s0 > floor_get cfg s0
       then (case floor_set cfg junk (app_version s0) s4 of None \<Rightarrow> None
          | Some (True, s5) \<Rightarrow> Some (stage2_handover (say (''stage2: floor raised'' @ crlf) s5))
          | Some (False, s5) \<Rightarrow> Some (stage2_handover (say (''stage2: floor write refused'' @ crlf) s5)))
       else Some (stage2_handover s4))"
proof -
  define s2 where "s2 = say (crlf @ ''stage2'' @ crlf)
    (snd (hal_watchdog_kick (snd (hal_watchdog_start STAGE2_WATCHDOG_MS s0))))"
  define s3 where "s3 = snd (hal_boot_block_init s2)"
  define s4 where "s4 = say crlf (say_number (floor_get cfg s3) (say '' floor=''
    (say_number (app_version s3) (say ''stage2: app version='' s3))))"
  have f: "found_in s0 s3"
    by (rule found_in_core(2) [of s0 s2]) (simp_all add: s2_def s3_def found_in_init)
  have f4: "found_in s0 s4" by (rule found_in_core(1) [OF _ f]) (simp add: s4_def)
  note g = found_in_gets [OF f] and g4 = found_in_gets [OF f4]
  have e: "app_version s3 = app_version s0" "floor_get cfg s3 = floor_get cfg s0"
    "floor_get cfg s4 = floor_get cfg s0" "floor_ok cfg v s4 = floor_ok cfg v s0" for v
    using g(3) g4(3) floor_get_mem [of s3 s0] floor_get_mem [of s4 s0] by (simp_all add: app_version_def)
  show thesis
    by (rule that [OF f f4], unfold stage2_main_def Let_def, fold app_version_def s2_def,
        fold s3_def, fold s4_def stage2_handover_def) (simp only: g e)
qed

lemma stage2_handover_core:
  assumes "st_core s = st_core s1" "hal_boot_block_valid s1"
  shows "\<exists>s'. stage2_handover s = Jump (mem_u32 (fl_mem s1) HAL_BOOTMAP_APP_PAYLOAD)
      (mem_u32 (fl_mem s1) (HAL_BOOTMAP_APP_PAYLOAD + 4)) s' \<and>
    SCB_VTOR s' = HAL_BOOTMAP_APP_PAYLOAD \<and> fl_mem s' = fl_mem s1 \<and> flash_calm s' = flash_calm s1 \<and>
    hal_boot_block_valid s' \<and> block_found s' = block_found s1"
  using assms by (simp only: stage2_handover_def stage2_jump_to_def) (rule jump_to_core, simp_all)

lemma app_not_store:
  assumes "in_partition HAL_BOOTMAP_APP_BASE HAL_BOOTMAP_APP_SIZE x"
  shows "\<not> in_sector 2 x" "\<not> in_sector 3 x"
  using assms unfolding partition_tiles
  by (auto dest: in_sector_disjoint simp: word_less_nat_alt)

lemma stage2_updates:
  fixes s0 :: "'m stage_scheme"
  assumes h: "\<not> stage2_hands_over cfg tr s0"
  shows "\<exists>s'. stage2_main cfg junk tr env s0 = Some (Loader s') \<and> fl_mem s' = fl_mem s0 \<and>
    flash_calm s' = flash_calm s0 \<and> hal_boot_block_valid s' \<and>
    block_found s' = (if fst (block_found s0) = HAL_BOOT_REQ_LOADER then HAL_BOOT_REQ_NONE
      else fst (block_found s0), snd (block_found s0))"
proof -
  obtain s3 s4 where f: "found_in s0 s3" "found_in s0 s4" and m: "stage2_main cfg junk tr env s0 =
      (if fst (block_found s0) = HAL_BOOT_REQ_LOADER
       then Some (update_mode env ''requested'' (snd (hal_boot_clear_request s3)))
       else if \<not> boot_image_is_good tr (fl_mem s0) HAL_BOOTMAP_APP_BASE HAL_BOOTMAP_APP_USABLE
       then Some (update_mode env ''app did not verify'' s3)
       else if \<not> floor_ok cfg (app_version s0) s0
       then Some (update_mode env ''app is older than the rollback floor'' s4)
       else if app_version s0 > floor_get cfg s0
       then (case floor_set cfg junk (app_version s0) s4 of None \<Rightarrow> None
          | Some (True, s5) \<Rightarrow> Some (stage2_handover (say (''stage2: floor raised'' @ crlf) s5))
          | Some (False, s5) \<Rightarrow> Some (stage2_handover (say (''stage2: floor write refused'' @ crlf) s5)))
       else Some (stage2_handover s4))"
    by (rule stage2_main_steps)
  show ?thesis
  proof (cases "fst (block_found s0) = HAL_BOOT_REQ_LOADER")
    case True
    obtain s' where s': "update_mode env ''requested'' (snd (hal_boot_clear_request s3)) = Loader s'"
      "st_core s' = st_core (snd (hal_boot_clear_request s3))" using loaders_core(2) by blast
    show ?thesis
      using True m s'(1) st_core_D [OF s'(2)] f(1)
      by (simp add: clear_valid found_in_def block_found_sealed)
  next
    case False
    have "\<exists>why s1. stage2_main cfg junk tr env s0 = Some (update_mode env why s1) \<and> found_in s0 s1"
    proof (cases "boot_image_is_good tr (fl_mem s0) HAL_BOOTMAP_APP_BASE HAL_BOOTMAP_APP_USABLE")
      case True
      then have "\<not> floor_ok cfg (app_version s0) s0"
        using h False by (simp add: stage2_hands_over_def floor_ok_def)
      then show ?thesis using False True m f(2) by auto
    next
      case bad: False
      then show ?thesis using False m f(1) by auto
    qed
    then obtain why s1 where r: "stage2_main cfg junk tr env s0 = Some (update_mode env why s1)"
      and s1: "found_in s0 s1" by blast
    obtain s' where s': "update_mode env why s1 = Loader s'" "st_core s' = st_core s1"
      using loaders_core(2) by blast
    show ?thesis
      using False r s'(1) st_core_D [OF s'(2)] s1 by (simp add: found_in_def block_found_sealed)
  qed
qed

lemma stage2_boots:
  fixes s0 :: "'m stage_scheme"
  assumes h: "stage2_hands_over boot_kv tr s0"
    and kv: "kv_ok boot_kv s0" "10 \<le> kv_room boot_kv s0"
  shows "\<exists>s'. stage2_main boot_kv junk tr env s0 = Some (Jump (mem_u32 (fl_mem s') HAL_BOOTMAP_APP_PAYLOAD)
      (mem_u32 (fl_mem s') (HAL_BOOTMAP_APP_PAYLOAD + 4)) s') \<and>
    SCB_VTOR s' = HAL_BOOTMAP_APP_PAYLOAD \<and> hal_boot_block_valid s' \<and> block_found s' = block_found s0 \<and>
    (\<forall>x. \<not> in_sector 2 x \<and> \<not> in_sector 3 x \<longrightarrow> fl_mem s' x = fl_mem s0 x) \<and>
    kv_ok boot_kv s' \<and> kv_room boot_kv s0 \<le> kv_room boot_kv s' + 10 \<and>
    floor_get boot_kv s' = app_version s0"
proof -
  obtain s3 s4 where f: "found_in s0 s4" and m: "stage2_main boot_kv junk tr env s0 =
      (if fst (block_found s0) = HAL_BOOT_REQ_LOADER
       then Some (update_mode env ''requested'' (snd (hal_boot_clear_request s3)))
       else if \<not> boot_image_is_good tr (fl_mem s0) HAL_BOOTMAP_APP_BASE HAL_BOOTMAP_APP_USABLE
       then Some (update_mode env ''app did not verify'' s3)
       else if \<not> floor_ok boot_kv (app_version s0) s0
       then Some (update_mode env ''app is older than the rollback floor'' s4)
       else if app_version s0 > floor_get boot_kv s0
       then (case floor_set boot_kv junk (app_version s0) s4 of None \<Rightarrow> None
          | Some (True, s5) \<Rightarrow> Some (stage2_handover (say (''stage2: floor raised'' @ crlf) s5))
          | Some (False, s5) \<Rightarrow> Some (stage2_handover (say (''stage2: floor write refused'' @ crlf) s5)))
       else Some (stage2_handover s4))"
    by (rule stage2_main_steps)
  have sk: "store_kept (fl_mem s0) (fl_mem s4)" "flash_calm s4"
    using f kv(1) by (simp_all add: store_kept_def found_in_def kv_ok_def)
  note k4 = kv_kept [OF kv(1) sk]
  obtain s5 where s5: "stage2_main boot_kv junk tr env s0 = Some (stage2_handover s5)"
    "hal_boot_block_valid s5" "block_found s5 = block_found s0" "kv_ok boot_kv s5"
    "kv_room boot_kv s0 \<le> kv_room boot_kv s5 + 10" "floor_get boot_kv s5 = app_version s0"
    "\<And>x. \<not> in_sector 2 x \<Longrightarrow> \<not> in_sector 3 x \<Longrightarrow> fl_mem s5 x = fl_mem s0 x"
  proof (cases "floor_get boot_kv s0 < app_version s0")
    case False
    then have "floor_get boot_kv s4 = app_version s0" using h k4(3) by (simp add: stage2_hands_over_def)
    moreover have "stage2_main boot_kv junk tr env s0 = Some (stage2_handover s4)"
      using h False m by (simp add: stage2_hands_over_def floor_ok_def)
    ultimately show thesis
      using that [of s4] f k4 by (simp add: found_in_def block_found_sealed)
  next
    case True
    obtain s5 where s5: "floor_set boot_kv junk (app_version s0) s4 = Some (True, s5)" "kv_ok boot_kv s5"
      "kv_room boot_kv s5 = kv_room boot_kv s4 - 10" "floor_get boot_kv s5 = app_version s0"
      "\<And>x. \<not> in_sector 2 x \<Longrightarrow> \<not> in_sector 3 x \<Longrightarrow> fl_mem s5 x = fl_mem s4 x"
      "flash.more s5 = flash.more s4"
      by (rule floor_set_raises [OF k4(1), of junk "app_version s0"]) (use kv(2) k4(2) in auto)
    let ?s6 = "say (''stage2: floor raised'' @ crlf) s5"
    have c: "st_core ?s6 = st_core s5" by simp
    have k6: "kv_ok boot_kv ?s6" "kv_room boot_kv ?s6 = kv_room boot_kv s5"
        "floor_get boot_kv ?s6 = floor_get boot_kv s5"
      using kv_kept [OF s5(2), of ?s6] st_core_D [OF c] s5(2) by (simp_all add: store_kept_def kv_ok_def)
    have b: "hal_boot_block_valid ?s6" "block_found ?s6 = block_found s0"
      using st_core_D [OF c] updater_more [OF s5(6)] f by (simp_all add: found_in_def block_found_sealed)
    have "stage2_main boot_kv junk tr env s0 = Some (stage2_handover ?s6)"
      using h True m s5(1) by (simp add: stage2_hands_over_def floor_ok_def)
    then show thesis
      using that [of ?s6] b k6 s5 k4 kv(2) f st_core_D(1) [OF c] by (simp add: found_in_def)
  qed
  obtain s' where s': "stage2_handover s5 = Jump (mem_u32 (fl_mem s5) HAL_BOOTMAP_APP_PAYLOAD)
      (mem_u32 (fl_mem s5) (HAL_BOOTMAP_APP_PAYLOAD + 4)) s'" "SCB_VTOR s' = HAL_BOOTMAP_APP_PAYLOAD"
    "fl_mem s' = fl_mem s5" "flash_calm s' = flash_calm s5" "hal_boot_block_valid s'"
    "block_found s' = block_found s5"
    using stage2_handover_core [OF refl s5(2)] by blast
  have "flash_calm s'" using s'(4) s5(4) by (simp add: kv_ok_def)
  then have "kv_ok boot_kv s'" "kv_room boot_kv s' = kv_room boot_kv s5"
      "floor_get boot_kv s' = floor_get boot_kv s5"
    using kv_kept [OF s5(4), of s'] s'(3) by (simp_all add: store_kept_def)
  then show ?thesis
    using s5 s' by (intro exI [of _ s']) simp
qed

section \<open>A board's history\<close>

text \<open>
  The versions a board has run. Between boots anything may happen to RAM and to flash, except to the
  store's two sectors: updates, the application's own writes, power cuts that spare the store.
\<close>

inductive app_history :: "image_trust \<Rightarrow> 'm stage_scheme \<Rightarrow> u32 list \<Rightarrow> 'm stage_scheme \<Rightarrow> bool"
  for tr :: image_trust and s0 :: "'m stage_scheme" where
  new: "app_history tr s0 [] s0"
| boot: "\<lbrakk>app_history tr s0 vs s; stage2_main boot_kv junk tr env s = Some (Jump sp pc s')\<rbrakk> \<Longrightarrow>
     app_history tr s0 (vs @ [app_version s]) s'"
| between: "\<lbrakk>app_history tr s0 vs s; store_kept (fl_mem s) (fl_mem s'); flash_calm s'\<rbrakk> \<Longrightarrow>
     app_history tr s0 vs s'"

inductive_cases app_history_NilE: "app_history tr s0 [] s"

lemma stage2_jump_hands_over:
  "stage2_main cfg junk tr env s = Some (Jump sp pc s') \<Longrightarrow> stage2_hands_over cfg tr s"
  using stage2_updates [of cfg tr s junk env] by (cases "stage2_hands_over cfg tr s") auto

lemma app_history_inv:
  assumes "app_history tr s0 vs s" "kv_ok boot_kv s0" "10 * length vs \<le> kv_room boot_kv s0"
  shows "sorted vs \<and> kv_ok boot_kv s \<and> kv_room boot_kv s0 \<le> kv_room boot_kv s + 10 * length vs \<and>
    floor_get boot_kv s0 \<le> floor_get boot_kv s \<and>
    (\<forall>v\<in>set vs. floor_get boot_kv s0 \<le> v \<and> v \<le> floor_get boot_kv s)"
  using assms
proof (induction rule: app_history.induct)
  case (boot vs s junk env sp pc s')
  have ih: "sorted vs" "kv_ok boot_kv s" "kv_room boot_kv s0 \<le> kv_room boot_kv s + 10 * length vs"
    "floor_get boot_kv s0 \<le> floor_get boot_kv s"
    "\<And>v. v \<in> set vs \<Longrightarrow> floor_get boot_kv s0 \<le> v \<and> v \<le> floor_get boot_kv s"
    using boot.IH boot.prems by auto
  have h: "stage2_hands_over boot_kv tr s" using boot.hyps(2) by (rule stage2_jump_hands_over)
  have s': "kv_ok boot_kv s'" "kv_room boot_kv s \<le> kv_room boot_kv s' + 10"
      "floor_get boot_kv s' = app_version s"
    using stage2_boots [OF h ih(2), of junk env] ih(3) boot.prems boot.hyps(2) by auto
  have "floor_get boot_kv s \<le> app_version s" using h by (simp add: stage2_hands_over_def)
  then show ?case
    using ih s' by (auto simp: sorted_append intro: order_trans)
next
  case (between vs s s')
  then show ?case using kv_kept [of s s'] by auto
qed auto

section \<open>A board for examples\<close>

text \<open>Cold RAM, the flash given, a host that sends the bytes given; and an image of two bytes.\<close>

definition stage_fresh :: "(u32 \<Rightarrow> u8) \<Rightarrow> u8 option list \<Rightarrow> stage" where
  "stage_fresh m i = updater.extend ((updater_fresh i)\<lparr>fl_mem := m\<rparr>)
     \<lparr>st_said = [], st_polls = 0, st_delay_ms = 0, SCB_VTOR = 0x08000000\<rparr>"

definition small_image :: "u32 \<Rightarrow> u8 list" where
  "small_image version = image_bytes version [0xDE, 0xAD] (replicate 64 1)"

definition flash_with :: "u32 \<Rightarrow> u32 \<Rightarrow> (u32 \<Rightarrow> u8) \<Rightarrow> u32 \<Rightarrow> u8" where
  "flash_with base version m = place_bytes base (small_image version) m"

lemma stage_fresh_fields [simp]:
  "fl_mem (stage_fresh m i) = m" "flash_calm (stage_fresh m i)" "up_in (stage_fresh m i) = i"
  "up_out (stage_fresh m i) = []" "\<not> bit (FLASH_CR (stage_fresh m i)) 16"
  "block_found (stage_fresh m i) = (HAL_BOOT_REQ_NONE, 0)"
proof -
  show "fl_mem (stage_fresh m i) = m" "up_in (stage_fresh m i) = i" "up_out (stage_fresh m i) = []"
    by (simp_all add: stage_fresh_def updater.defs)
  have e: "FLASH_CR (stage_fresh m i) = FLASH_CR (updater_fresh i)"
    "fl_busy (stage_fresh m i) = fl_busy (updater_fresh i)" "fl_dur (stage_fresh m i) = fl_dur (updater_fresh i)"
    by (simp_all add: stage_fresh_def updater.defs)
  show "\<not> bit (FLASH_CR (stage_fresh m i)) 16" unfolding e by simp
  show "flash_calm (stage_fresh m i)"
    using updater_fresh_fields(5) [of i] unfolding flash_calm_def e .
  have "sboot_magic (stage_fresh m i) = 0x12345678"
    by (simp add: stage_fresh_def updater.defs updater_fresh_def boot.defs boot_fresh_def)
  then show "block_found (stage_fresh m i) = (HAL_BOOT_REQ_NONE, 0)"
    by (simp add: block_found_def hal_boot_block_valid_def boot_consts)
qed

lemma small_image_good:
  "boot_image_is_good trust_all (flash_with HAL_BOOTMAP_APP_BASE v m) HAL_BOOTMAP_APP_BASE HAL_BOOTMAP_APP_USABLE"
  "boot_image_is_good trust_all (flash_with HAL_BOOTMAP_STAGE2_BASE v m) HAL_BOOTMAP_STAGE2_BASE
     HAL_BOOTMAP_STAGE2_USABLE"
  using image_bytes_signed [of "replicate 64 1" "[0xDE, 0xAD]"]
  by (simp_all add: flash_with_def small_image_def boot_image_is_good_eq trust_all_def bootmap_defs)

lemma length_small_image: "length (small_image v) = 514"
  by (simp add: small_image_def image_bytes_def)

lemma flash_with_version:
  "ih_version (image_header_at (flash_with HAL_BOOTMAP_APP_BASE v m) HAL_BOOTMAP_APP_BASE) = v"
  using image_bytes_at(2) [of "replicate 64 1" "[0xDE, 0xAD]" HAL_BOOTMAP_APP_BASE v m]
  by (simp add: flash_with_def small_image_def image_header_at_def)

lemma flash_with_store: "store_kept m (flash_with HAL_BOOTMAP_APP_BASE v m)"
  unfolding store_kept_def
proof (intro allI impI)
  fix a assume a: "in_sector 2 a \<or> in_sector 3 a"
  have "\<not> unat (a - HAL_BOOTMAP_APP_BASE) < 514"
  proof
    assume lt: "unat (a - HAL_BOOTMAP_APP_BASE) < 514"
    have "unat a = unat HAL_BOOTMAP_APP_BASE + unat (a - HAL_BOOTMAP_APP_BASE)"
      by (rule u32_offset [OF lt]) (simp add: bootmap_defs)
    then show False
      using a lt by (auto simp: in_sector_nat sector_base_def sector_size_def bootmap_defs)
  qed
  then show "flash_with HAL_BOOTMAP_APP_BASE v m a = m a"
    by (simp add: flash_with_def place_bytes_def length_small_image)
qed

lemma stage_fresh_kv:
  assumes "store_kept (\<lambda>_. 0xFF) m"
  shows "kv_ok boot_kv (stage_fresh m i)" "kv_room boot_kv (stage_fresh m i) = 0x4000"
    "floor_get boot_kv (stage_fresh m i) = 0"
proof -
  have e: "kv_inv boot_kv (\<lambda>_. 0xFF) []" using flash_fresh_kv by (simp add: flash_fresh_def)
  then have l: "kv_inv boot_kv (fl_mem (stage_fresh m i)) []" using kv_inv_kept [OF assms] by simp
  show "kv_ok boot_kv (stage_fresh m i)" using l by (auto simp: kv_ok_def boot_kv_ok)
  show "kv_room boot_kv (stage_fresh m i) = 0x4000" "floor_get boot_kv (stage_fresh m i) = 0"
    by (simp_all add: kv_room_log [OF boot_kv_ok l] floor_get_log [OF boot_kv_ok l] boot_kv_cap)
qed

section \<open>Properties\<close>



lemma crash_boots_step:
  assumes "crash_boots tr s0 n s" "stage1_hands_over tr s" "snd (block_found s) = word_of_nat k" "k < 2"
  shows "\<exists>s'. crash_boots tr s0 (Suc n) s' \<and> stage1_hands_over tr s' \<and>
    snd (block_found s') = word_of_nat (Suc k)"
proof -
  obtain env :: boot_env where True by simp
  obtain s' where s': "stage1_main tr env s = Jump (mem_u32 (fl_mem s) HAL_BOOTMAP_STAGE2_PAYLOAD)
      (mem_u32 (fl_mem s) (HAL_BOOTMAP_STAGE2_PAYLOAD + 4)) s'" "fl_mem s' = fl_mem s"
    "hal_boot_block_valid s'" "block_found s' = (fst (block_found s), snd (block_found s) + 1)"
    using stage1_jumps [OF assms(2), of env] by blast
  have "crash_boots tr s0 (Suc n) s'" by (rule crash_boots.again [OF assms(1) s'(1,3) refl])
  moreover have "snd (block_found s') = word_of_nat (Suc k)" using s'(4) assms(3) by simp
  moreover have "snd (block_found s') < 3"
    unfolding calculation(2) using assms(4) less_2_cases [of k] by (auto simp: word_less_nat_alt)
  ultimately show ?thesis using s' assms(2) by (auto simp: stage1_hands_over_def)
qed


text \<open>C4. What stage-2 decides, over a store with room for one more record. It jumps to the
  application's entry when nobody asked for the loader, the application verifies and its version is
  not below the floor; by then the floor is that version, and nothing outside the store's sectors
  has changed, so what runs is what was verified. Otherwise it serves updates, flash untouched.\<close>

theorem stage2_boot_decision:
  assumes "kv_ok boot_kv s" "10 \<le> kv_room boot_kv s"
  shows "if fst (block_found s) \<noteq> HAL_BOOT_REQ_LOADER \<and>
      boot_image_is_good tr (fl_mem s) HAL_BOOTMAP_APP_BASE HAL_BOOTMAP_APP_USABLE \<and>
      floor_get boot_kv s \<le> app_version s
   then \<exists>s'. stage2_main boot_kv junk tr env s = Some (Jump (mem_u32 (fl_mem s') HAL_BOOTMAP_APP_PAYLOAD)
        (mem_u32 (fl_mem s') (HAL_BOOTMAP_APP_PAYLOAD + 4)) s') \<and>
      SCB_VTOR s' = HAL_BOOTMAP_APP_PAYLOAD \<and> hal_boot_block_valid s' \<and> block_found s' = block_found s \<and>
      (\<forall>x. \<not> in_sector 2 x \<and> \<not> in_sector 3 x \<longrightarrow> fl_mem s' x = fl_mem s x) \<and>
      kv_ok boot_kv s' \<and> kv_room boot_kv s \<le> kv_room boot_kv s' + 10 \<and>
      floor_get boot_kv s' = app_version s
   else \<exists>s'. stage2_main boot_kv junk tr env s = Some (Loader s') \<and> fl_mem s' = fl_mem s \<and>
      flash_calm s' = flash_calm s \<and> hal_boot_block_valid s' \<and>
      block_found s' = (if fst (block_found s) = HAL_BOOT_REQ_LOADER then HAL_BOOT_REQ_NONE
        else fst (block_found s), snd (block_found s))"
proof (cases "stage2_hands_over boot_kv tr s")
  case True
  note j = stage2_boots [OF True assms, of junk env]
  show ?thesis
    unfolding if_P [OF True [unfolded stage2_hands_over_def]] by (rule j)
next
  case False
  note j = stage2_updates [OF False, of junk env]
  show ?thesis
    unfolding if_not_P [OF False [unfolded stage2_hands_over_def]] by (rule j)
qed

theorem stage2_boot_decision_witness:
  "\<exists>s'. stage2_main boot_kv 0 trust_all \<lparr>DRV_USB_CDC = False, cdc_enumerated = (\<lambda>_. False)\<rparr>
       (stage_fresh (flash_with HAL_BOOTMAP_APP_BASE 7 (\<lambda>_. 0xFF)) []) =
     Some (Jump (mem_u32 (fl_mem s') HAL_BOOTMAP_APP_PAYLOAD) (mem_u32 (fl_mem s') (HAL_BOOTMAP_APP_PAYLOAD + 4)) s') \<and>
     floor_get boot_kv s' = 7"
proof -
  let ?s = "stage_fresh (flash_with HAL_BOOTMAP_APP_BASE 7 (\<lambda>_. 0xFF)) []"
  note kv = stage_fresh_kv [OF flash_with_store [of "\<lambda>_. 0xFF" 7], of "[]"]
  have v: "app_version ?s = 7" by (simp add: app_version_def flash_with_version)
  have h: "fst (block_found ?s) \<noteq> HAL_BOOT_REQ_LOADER \<and>
      boot_image_is_good trust_all (fl_mem ?s) HAL_BOOTMAP_APP_BASE HAL_BOOTMAP_APP_USABLE \<and>
      floor_get boot_kv ?s \<le> app_version ?s"
    using small_image_good(1) kv by (simp add: boot_consts v)
  from stage2_boot_decision [OF kv(1), of trust_all 0 "\<lparr>DRV_USB_CDC = False, cdc_enumerated = (\<lambda>_. False)\<rparr>",
      unfolded if_P [OF h], unfolded v] kv(2)
  show ?thesis by auto
qed


lemma app_history_next:
  assumes "app_history trust_all s0 vs s" "kv_ok boot_kv s" "10 \<le> kv_room boot_kv s"
    and "fst (block_found s) = HAL_BOOT_REQ_NONE" "floor_get boot_kv s \<le> v"
  shows "\<exists>s'. app_history trust_all s0 (vs @ [v]) s' \<and> kv_ok boot_kv s' \<and>
    kv_room boot_kv s \<le> kv_room boot_kv s' + 10 \<and> fst (block_found s') = HAL_BOOT_REQ_NONE \<and>
    floor_get boot_kv s' = v"
proof -
  define s1 where "s1 = s\<lparr>fl_mem := flash_with HAL_BOOTMAP_APP_BASE v (fl_mem s)\<rparr>"
  have c: "flash_calm s1" "store_kept (fl_mem s) (fl_mem s1)" "block_found s1 = block_found s"
    using assms(2) flash_with_store
    by (simp_all add: s1_def kv_ok_def flash_calm_def block_found_def hal_boot_block_valid_def)
  note k = kv_kept [OF assms(2) c(2,1)]
  have v: "app_version s1 = v" by (simp add: app_version_def s1_def flash_with_version)
  have h: "stage2_hands_over boot_kv trust_all s1"
    using small_image_good(1) assms(4,5) k(3) v c(3) by (simp add: stage2_hands_over_def s1_def boot_consts)
  obtain env :: boot_env and junk :: u8 where True by simp
  obtain s' sp pc where s': "stage2_main boot_kv junk trust_all env s1 = Some (Jump sp pc s')"
    "block_found s' = block_found s1" "kv_ok boot_kv s'" "kv_room boot_kv s1 \<le> kv_room boot_kv s' + 10"
    "floor_get boot_kv s' = v"
    using stage2_boots [OF h k(1), of junk env] assms(3) k(2) v by auto
  have "app_history trust_all s0 (vs @ [app_version s1]) s'"
    by (rule app_history.boot [OF app_history.between [OF assms(1) c(2,1)] s'(1)])
  then show ?thesis using s' c(3) k(2) v assms(4) by auto
qed


text \<open>C6. Recovery repairs a board. A host that erases, sends a signed stage-2 in chunks and runs it
  gets a reset, every byte outside the partition is as it was, the body is at the entry address,
  and the next stage-1 run jumps to it, strikes cleared.\<close>

theorem stage1_repairs_board:
  fixes s :: "'m stage_scheme"
  assumes "flash_calm s" "up_in s = map Some (session_bytes cs)" "up_out s = []"
    and "hal_boot_block_valid s" "sboot_request s \<noteq> HAL_BOOT_REQ_STAGE1"
    and cs: "\<And>c. c \<in> set cs \<Longrightarrow> c \<noteq> [] \<and> length c \<le> 256 \<and> even (length c)"
      "concat cs = image_bytes version body sig"
    and im: "length (verify_stack tr) = 64" "length sig = 64" "body \<noteq> []"
      "length body \<le> unat HAL_BOOTMAP_STAGE2_USABLE"
      "ed25519_check tr sig (boot_pubkey tr) (fips_sha256 (image_prefix version body @ body))"
  shows "\<exists>s'. updater_serve boot_kv (stage1_target tr) (length cs + 2) s = Some (BoardReset s') \<and>
    (\<forall>a. \<not> in_partition HAL_BOOTMAP_STAGE2_BASE HAL_BOOTMAP_STAGE2_SIZE a \<longrightarrow> fl_mem s' a = fl_mem s a) \<and>
    mem_range (fl_mem s') HAL_BOOTMAP_STAGE2_PAYLOAD (length body) = body \<and>
    (\<exists>s''. stage1_main tr env s' = Jump (mem_u32 (fl_mem s') HAL_BOOTMAP_STAGE2_PAYLOAD)
       (mem_u32 (fl_mem s') (HAL_BOOTMAP_STAGE2_PAYLOAD + 4)) s'' \<and> sboot_attempts s'' = 1)"
proof -
  let ?part = "in_partition HAL_BOOTMAP_STAGE2_BASE HAL_BOOTMAP_STAGE2_SIZE"
  define m' where "m' = place_bytes HAL_BOOTMAP_STAGE2_BASE (concat cs) (\<lambda>a. if ?part a then 0xFF else fl_mem s a)"
  have body: "length body \<le> 4294966784" "512 + length body \<le> unat HAL_BOOTMAP_STAGE2_SIZE"
    using im(4) by (simp_all add: bootmap_defs)
  have len: "length (concat cs) = 512 + length body" using im(2) by (simp add: cs(2) image_bytes_def)
  have good: "boot_image_is_good tr m' HAL_BOOTMAP_STAGE2_BASE HAL_BOOTMAP_STAGE2_USABLE"
    unfolding m'_def cs(2) boot_image_is_good_eq [OF im(1)] image_bytes_signed [OF im(2) body(1)]
    using im by simp
  have tgt: "tg_base (stage1_target tr :: 'm stage_scheme updater_target) = HAL_BOOTMAP_STAGE2_BASE"
    "tg_size (stage1_target tr :: 'm stage_scheme updater_target) = HAL_BOOTMAP_STAGE2_SIZE"
    "tg_max_body (stage1_target tr :: 'm stage_scheme updater_target) = HAL_BOOTMAP_STAGE2_USABLE"
    "tg_verify (stage1_target tr :: 'm stage_scheme updater_target) = boot_image_is_good tr"
    by (simp_all add: stage1_target_def)
  obtain s' where s': "updater_serve boot_kv (stage1_target tr) (length cs + 2) s = Some (BoardReset s')"
    "fl_mem s' = m'" "hal_boot_block_valid s'" "sboot_attempts s' = 0" "sboot_request s' = sboot_request s"
    using st1.session_installs [OF assms(1-3) cs(1), of tr, unfolded st1.mine_def tgt] body(2) good assms(4)
    by (auto simp: len m'_def)
  have out: "fl_mem s' a = fl_mem s a" if "\<not> ?part a" for a
  proof -
    have "\<not> unat (a - HAL_BOOTMAP_STAGE2_BASE) < length (concat cs)"
    proof
      assume lt: "unat (a - HAL_BOOTMAP_STAGE2_BASE) < length (concat cs)"
      have "unat a = unat HAL_BOOTMAP_STAGE2_BASE + unat (a - HAL_BOOTMAP_STAGE2_BASE)"
        by (rule u32_offset [OF lt]) (use len body(2) in \<open>simp add: bootmap_defs\<close>)
      then show False using that lt len body(2) by (simp add: in_partition_def)
    qed
    then show ?thesis using that by (simp add: s'(2) m'_def place_bytes_def)
  qed
  have "mem_range m' (HAL_BOOTMAP_STAGE2_BASE + 512) (length body) = body"
    unfolding m'_def cs(2) by (rule image_bytes_at(7) [OF im(2) body(1)])
  then have pay: "mem_range (fl_mem s') HAL_BOOTMAP_STAGE2_PAYLOAD (length body) = body"
    by (simp add: s'(2) bootmap_defs)
  have "stage1_hands_over tr s'"
    using good s' assms(5) by (simp add: stage1_hands_over_def block_found_sealed)
  from stage1_jumps [OF this, of env] s' out pay show ?thesis
    by (auto simp: block_found_sealed)
qed

definition small_chunks :: "u32 \<Rightarrow> u8 list list" where
  "small_chunks v = [take 256 (small_image v), take 256 (drop 256 (small_image v)), drop 512 (small_image v)]"

lemma small_chunks_ok:
  "c \<in> set (small_chunks v) \<Longrightarrow> c \<noteq> [] \<and> length c \<le> 256 \<and> even (length c)"
  "concat (small_chunks v) = small_image v"
proof -
  have "take 256 (drop 256 (small_image v)) @ drop 512 (small_image v) = drop 256 (small_image v)"
    using append_take_drop_id [of 256 "drop 256 (small_image v)"] by simp
  then show "concat (small_chunks v) = small_image v" by (simp add: small_chunks_def)
  have "length x = 256 \<or> length x = 2 \<Longrightarrow> x \<noteq> [] \<and> length x \<le> 256 \<and> even (length x)" for x :: "u8 list"
    by auto
  moreover assume "c \<in> set (small_chunks v)"
  then have "length c = 256 \<or> length c = 2"
    by (auto simp: small_chunks_def length_small_image)
  ultimately show "c \<noteq> [] \<and> length c \<le> 256 \<and> even (length c)" by blast
qed

theorem stage1_repairs_board_witness:
  "\<exists>s' sp pc s''. updater_serve boot_kv (stage1_target trust_all) 5
       (block_seal HAL_BOOT_REQ_NONE 3 (stage_fresh (\<lambda>_. 0) (map Some (session_bytes (small_chunks 3))))) =
     Some (BoardReset s') \<and> fl_mem s' HAL_BOOTMAP_STAGE2_PAYLOAD = 0xDE \<and>
     stage1_main trust_all \<lparr>DRV_USB_CDC = False, cdc_enumerated = (\<lambda>_. False)\<rparr> s' = Jump sp pc s''"
proof -
  let ?s = "block_seal HAL_BOOT_REQ_NONE 3 (stage_fresh (\<lambda>_. 0) (map Some (session_bytes (small_chunks 3))))"
  have u: "up_in (block_seal r a x) = up_in x" "up_out (block_seal r a x) = up_out x" for r a and x :: stage
    by (simp_all add: block_seal_eq)
  obtain s' s'' where "updater_serve boot_kv (stage1_target trust_all) (length (small_chunks 3) + 2) ?s =
      Some (BoardReset s')"
    and m: "mem_range (fl_mem s') HAL_BOOTMAP_STAGE2_PAYLOAD (length [0xDE, 0xAD]) = [0xDE, 0xAD]"
    and j: "stage1_main trust_all \<lparr>DRV_USB_CDC = False, cdc_enumerated = (\<lambda>_. False)\<rparr> s' =
      Jump (mem_u32 (fl_mem s') HAL_BOOTMAP_STAGE2_PAYLOAD)
       (mem_u32 (fl_mem s') (HAL_BOOTMAP_STAGE2_PAYLOAD + 4)) s''"
    using stage1_repairs_board [of ?s "small_chunks 3" 3 "[0xDE, 0xAD]" "replicate 64 1" trust_all
        "\<lparr>DRV_USB_CDC = False, cdc_enumerated = (\<lambda>_. False)\<rparr>"]
      small_chunks_ok by (auto simp: u small_image_def trust_all_def boot_consts bootmap_defs)
  moreover have "length (small_chunks 3) + 2 = 5" by (simp add: small_chunks_def)
  moreover have "fl_mem s' HAL_BOOTMAP_STAGE2_PAYLOAD = 0xDE"
    using m by (simp add: mem_range_Suc)
  ultimately show ?thesis by auto
qed

text \<open>C7. Stage-1's server writes stage-2's partition and nothing else. Whatever a host sends, for
  however many turns and whatever the flash controller does, no byte of stage-1, of the store or of
  the application changes.\<close>

theorem stage1_server_confined:
  fixes s :: "'m stage_scheme"
  assumes "updater_serve boot_kv (stage1_target tr) n s = Some r" "\<not> bit (FLASH_CR s) 16"
    and "\<not> in_partition HAL_BOOTMAP_STAGE2_BASE HAL_BOOTMAP_STAGE2_SIZE a"
  shows "fl_mem (ctl_state r) a = fl_mem s a"
proof -
  have "confined (in_partition HAL_BOOTMAP_STAGE2_BASE HAL_BOOTMAP_STAGE2_SIZE) (s\<lparr>up_erased := False\<rparr>) (ctl_state r)"
    using st1.turns_confined [of tr n "s\<lparr>up_erased := False\<rparr>" r] assms(1)
    unfolding st1.mine_def by (simp add: updater_serve_def stage1_target_def)
  then show ?thesis using assms(2,3) by (simp add: confined_def)
qed

theorem stage1_server_confined_witness:
  "\<exists>r. updater_serve boot_kv (stage1_target trust_all) 1
       (stage_fresh (\<lambda>_. 0) (map Some (frame_bytes RECOVERY_CMD_ERASE []))) = Some r \<and>
     fl_mem (ctl_state r) 0x08000000 = 0"
proof -
  let ?s = "stage_fresh (\<lambda>_. 0) (map Some (frame_bytes RECOVERY_CMD_ERASE []))"
  have "st1.session (\<lambda>_. 0) (map Some (frame_bytes RECOVERY_CMD_ERASE []) @ []) [] False ?s (?s\<lparr>up_erased := False\<rparr>)"
    by (simp add: st1.session_def)
  from st1.erase_turn [OF this, of trust_all] obtain s1 where
    "updater_turn boot_kv (stage1_target trust_all) (?s\<lparr>up_erased := False\<rparr>) = Some (Returned () s1)" by auto
  then have r: "updater_serve boot_kv (stage1_target trust_all) 1 ?s = Some (Returned () s1)"
    by (simp add: updater_serve_def)
  then show ?thesis
    using stage1_server_confined [OF r, of "0x08000000"]
    by (simp add: in_partition_def bootmap_defs)
qed

lemma cdc_wait_bound:
  assumes "\<And>i. i < k \<Longrightarrow> \<not> cdc_enumerated env (st_polls s + i)"
    and "cdc_enumerated env (st_polls s + k) \<or> window \<le> waited + 10 * k"
    and "k = 0 \<or> waited + 10 * (k - 1) < window"
  shows "st_delay_ms (cdc_wait env window waited s) = st_delay_ms s + 10 * k"
  using assms
proof (induction k arbitrary: waited s)
  case 0
  then show ?case by (subst cdc_wait.simps) (auto simp: Let_def)
next
  case (Suc k)
  define s' where "s' = snd (hal_watchdog_kick (s\<lparr>st_polls := Suc (st_polls s), st_delay_ms := st_delay_ms s + 10\<rparr>))"
  have f: "st_polls s' = Suc (st_polls s)" "st_delay_ms s' = st_delay_ms s + 10"
    using hal_watchdog_kick_form [of "s\<lparr>st_polls := Suc (st_polls s), st_delay_ms := st_delay_ms s + 10\<rparr>"]
    by (auto simp: s'_def)
  have "\<not> cdc_enumerated env (st_polls s)" "waited < window"
    using Suc.prems(1) [of 0] Suc.prems(3) by auto
  then have "cdc_wait env window waited s = cdc_wait env window (waited + 10) s'"
    by (subst cdc_wait.simps) (simp add: Let_def s'_def)
  moreover have "st_delay_ms (cdc_wait env window (waited + 10) s') = st_delay_ms s' + 10 * k"
  proof (rule Suc.IH)
    show "\<not> cdc_enumerated env (st_polls s' + i)" if "i < k" for i
      using Suc.prems(1) [of "Suc i"] that f by simp
    show "cdc_enumerated env (st_polls s' + k) \<or> window \<le> waited + 10 + 10 * k"
      using Suc.prems(2) f by (simp add: add.assoc)
    show "k = 0 \<or> waited + 10 + 10 * (k - 1) < window"
      using Suc.prems(3) by (cases k) auto
  qed
  ultimately show ?case using f by simp
qed

text \<open>The wait for a USB host is bounded: whether or not one ever enumerates, at most 75 delays
  of 10 ms pass before either loader serves frames, and none after the first yes.\<close>

theorem cdc_window_bounded:
  "st_delay_ms (cdc_bring_up env STAGE1_CDC_WINDOW_MS tag s) = st_delay_ms s + 10 *
     (if DRV_USB_CDC env then length (takeWhile (\<lambda>i. \<not> cdc_enumerated env (st_polls s + i)) [0..<75]) else 0) \<and>
   cdc_bring_up env STAGE2_CDC_WINDOW_MS tag s = cdc_bring_up env STAGE1_CDC_WINDOW_MS tag s"
proof -
  let ?w = "takeWhile (\<lambda>i. \<not> cdc_enumerated env (st_polls s + i)) [0..<75]"
  have le: "length ?w \<le> 75" using length_takeWhile_le [of _ "[0..<75]"] by simp
  have "st_delay_ms (cdc_wait env 750 0 s) = st_delay_ms s + 10 * length ?w"
  proof (rule cdc_wait_bound)
    fix i assume i: "i < length ?w"
    then have "[0..<75] ! i = i" using le by (intro nth_upt [of 0, simplified]) simp
    then show "\<not> cdc_enumerated env (st_polls s + i)"
      using nth_mem [OF i] takeWhile_nth [OF i] by (auto dest: set_takeWhileD)
  next
    show "cdc_enumerated env (st_polls s + length ?w) \<or> 750 \<le> 0 + 10 * length ?w"
    proof (cases "length ?w < 75")
      case True
      then have "cdc_enumerated env (st_polls s + [0..<75] ! length ?w)"
        using nth_length_takeWhile [of "\<lambda>i. \<not> cdc_enumerated env (st_polls s + i)" "[0..<75]"] by simp
      then show ?thesis using True nth_upt [of 0 "length ?w" 75] by simp
    qed simp
    show "length ?w = 0 \<or> 0 + 10 * (length ?w - 1) < 750" using le by linarith
  qed
  then show ?thesis
    by (simp add: cdc_bring_up_def Let_def say_def STAGE1_CDC_WINDOW_MS_def STAGE2_CDC_WINDOW_MS_def
        del: upt_Suc)
qed

text \<open>A host in update mode can set the floor to any value, also to one below the floor in force:
  the FLOOR command stores what it is sent and acknowledges it, the application untouched.\<close>

theorem floor_command_stores_any_version:
  fixes s :: "'m stage_scheme"
  assumes "kv_ok boot_kv s" "10 \<le> kv_room boot_kv s"
  shows "\<exists>s'. updater_command boot_kv (app_target boot_kv junk tr) RECOVERY_CMD_FLOOR (le32_bytes v) s =
      Some (Returned () s') \<and> floor_get boot_kv s' = v \<and>
    up_out s' = up_out s @ [RECOVERY_ACK, RECOVERY_ERR_NONE] \<and>
    (\<forall>x. in_partition HAL_BOOTMAP_APP_BASE HAL_BOOTMAP_APP_SIZE x \<longrightarrow> fl_mem s' x = fl_mem s x)"
proof -
  obtain s1 where s1: "floor_set boot_kv junk v s = Some (True, s1)" "floor_get boot_kv s1 = v"
    "\<And>x. \<not> in_sector 2 x \<Longrightarrow> \<not> in_sector 3 x \<Longrightarrow> fl_mem s1 x = fl_mem s x"
    "flash.more s1 = flash.more s"
    using floor_set_raises [OF assms, of junk v] by metis
  have l: "length (le32_bytes v) = 4" by (simp add: le32_bytes_def)
  have "do_floor (app_target boot_kv junk tr) (le32_bytes v) s =
      Some (reply RECOVERY_ACK RECOVERY_ERR_NONE s1)"
    unfolding do_floor_def le32_of_bytes [OF refl] using s1(1) l by (simp add: app_target_def)
  then have c: "updater_command boot_kv (app_target boot_kv junk tr) RECOVERY_CMD_FLOOR (le32_bytes v) s =
      Some (Returned () (reply RECOVERY_ACK RECOVERY_ERR_NONE s1))"
    by (simp add: updater_command_def RECOVERY_CMD_FLOOR_def RECOVERY_CMD_INFO_def
        RECOVERY_CMD_ERASE_def RECOVERY_CMD_WRITE_def RECOVERY_CMD_VERIFY_def)
  have "floor_get boot_kv (reply RECOVERY_ACK RECOVERY_ERR_NONE s1) = v"
    using floor_get_mem(1) [of "reply RECOVERY_ACK RECOVERY_ERR_NONE s1" s1 boot_kv] s1(2) by simp
  then show ?thesis
    using c s1(3) updater_more(2) [OF s1(4)] app_not_store by auto
qed

theorem floor_command_stores_any_version_witness:
  "\<exists>s'. updater_command boot_kv (app_target boot_kv 0 trust_all) RECOVERY_CMD_FLOOR (le32_bytes 3)
      (stage_fresh (\<lambda>_. 0xFF) []) = Some (Returned () s') \<and> floor_get boot_kv s' = 3"
proof -
  note kv = stage_fresh_kv [of "\<lambda>_. 0xFF" "[]", unfolded store_kept_def, simplified]
  show ?thesis using floor_command_stores_any_version [OF kv(1), of 0 trust_all 3] kv(2) by auto
qed

end
