(* ===== verification/Clock.thy ===== *)
theory Clock
  imports Prelude
begin

text \<open>
  The STM32F4 clock driver, src/vendor/stm32/clock/clock.c, and the layer over it,
  src/common/hal_clock.c: oscillators and PLL with bounded waits, flash wait states, bus
  prescalers, the switch of SYSCLK, the readers, and the PLL solver.

  The hardware is a function \<open>hw\<close> applied before every status poll; it may move the ready flags
  and SWS, nothing else (\<open>hw_frame\<close>). Writes to RCC_CR follow the reference manual: a clock that
  drives SYSCLK cannot be turned off, and HSEBYP holds while HSEON is set.
\<close>

section \<open>Registers\<close>

record rcc =
  RCC_CR :: u32
  RCC_PLLCFGR :: u32
  RCC_CFGR :: u32
  clk_acr :: u32

record clock_board =
  BOARD_HSI_FREQ_HZ :: u32
  BOARD_HSE_FREQ_HZ :: u32
  BOARD_HSE_BYPASS :: bool

definition RCC_CR_HSION :: u32 where "RCC_CR_HSION = push_bit 0 1"
definition RCC_CR_HSIRDY :: u32 where "RCC_CR_HSIRDY = push_bit 1 1"
definition RCC_CR_HSEON :: u32 where "RCC_CR_HSEON = push_bit 16 1"
definition RCC_CR_HSERDY :: u32 where "RCC_CR_HSERDY = push_bit 17 1"
definition RCC_CR_HSEBYP :: u32 where "RCC_CR_HSEBYP = push_bit 18 1"
definition RCC_CR_PLLON :: u32 where "RCC_CR_PLLON = push_bit 24 1"
definition RCC_CR_PLLRDY :: u32 where "RCC_CR_PLLRDY = push_bit 25 1"

lemmas rcc_cr_defs = RCC_CR_HSION_def RCC_CR_HSIRDY_def RCC_CR_HSEON_def RCC_CR_HSERDY_def
  RCC_CR_HSEBYP_def RCC_CR_PLLON_def RCC_CR_PLLRDY_def

definition RCC_CFGR_SW_BIT :: nat where "RCC_CFGR_SW_BIT = 0"
definition RCC_CFGR_SWS_BIT :: nat where "RCC_CFGR_SWS_BIT = 2"
definition RCC_CFGR_HPRE_BIT :: nat where "RCC_CFGR_HPRE_BIT = 4"
definition RCC_CFGR_PPRE1_BIT :: nat where "RCC_CFGR_PPRE1_BIT = 10"
definition RCC_CFGR_PPRE2_BIT :: nat where "RCC_CFGR_PPRE2_BIT = 13"
definition RCC_CFGR_HPRE_MASK :: u32 where "RCC_CFGR_HPRE_MASK = push_bit RCC_CFGR_HPRE_BIT 0xF"
definition RCC_CFGR_PPRE1_MASK :: u32 where "RCC_CFGR_PPRE1_MASK = push_bit RCC_CFGR_PPRE1_BIT 0x7"
definition RCC_CFGR_PPRE2_MASK :: u32 where "RCC_CFGR_PPRE2_MASK = push_bit RCC_CFGR_PPRE2_BIT 0x7"

definition RCC_PLLCFGR_SRC_BIT :: nat where "RCC_PLLCFGR_SRC_BIT = 22"
definition RCC_PLLCFGR_PLLM_BIT :: nat where "RCC_PLLCFGR_PLLM_BIT = 0"
definition RCC_PLLCFGR_PLLN_BIT :: nat where "RCC_PLLCFGR_PLLN_BIT = 6"
definition RCC_PLLCFGR_PLLP_BIT :: nat where "RCC_PLLCFGR_PLLP_BIT = 16"
definition RCC_PLLCFGR_PLLQ_BIT :: nat where "RCC_PLLCFGR_PLLQ_BIT = 24"
definition RCC_PLLCFGR_SRC :: u32 where "RCC_PLLCFGR_SRC = push_bit RCC_PLLCFGR_SRC_BIT 1"

definition RCC_PLLCFGR_PLLM :: "u8 \<Rightarrow> u32" where
  "RCC_PLLCFGR_PLLM m = push_bit RCC_PLLCFGR_PLLM_BIT (ucast m AND 0x3F)"

definition RCC_PLLCFGR_PLLN :: "u16 \<Rightarrow> u32" where
  "RCC_PLLCFGR_PLLN n = push_bit RCC_PLLCFGR_PLLN_BIT (ucast n AND 0x1FF)"

definition RCC_PLLCFGR_PLLP :: "u8 \<Rightarrow> u32" where
  "RCC_PLLCFGR_PLLP p = push_bit RCC_PLLCFGR_PLLP_BIT (drop_bit 1 (ucast p) - 1)"

definition RCC_PLLCFGR_PLLQ :: "u8 \<Rightarrow> u32" where
  "RCC_PLLCFGR_PLLQ q = push_bit RCC_PLLCFGR_PLLQ_BIT (ucast q AND 0x0F)"

lemmas rcc_cfgr_defs = RCC_CFGR_SW_BIT_def RCC_CFGR_SWS_BIT_def RCC_CFGR_HPRE_BIT_def
  RCC_CFGR_PPRE1_BIT_def RCC_CFGR_PPRE2_BIT_def RCC_CFGR_HPRE_MASK_def RCC_CFGR_PPRE1_MASK_def
  RCC_CFGR_PPRE2_MASK_def

lemmas rcc_pllcfgr_defs = RCC_PLLCFGR_SRC_BIT_def RCC_PLLCFGR_PLLM_BIT_def RCC_PLLCFGR_PLLN_BIT_def
  RCC_PLLCFGR_PLLP_BIT_def RCC_PLLCFGR_PLLQ_BIT_def RCC_PLLCFGR_SRC_def RCC_PLLCFGR_PLLM_def
  RCC_PLLCFGR_PLLN_def RCC_PLLCFGR_PLLP_def RCC_PLLCFGR_PLLQ_def

text \<open>An enable bit of what drives SYSCLK cannot be cleared; HSEBYP is locked while HSEON is set.\<close>

definition cr_held :: "'m rcc_scheme \<Rightarrow> u32" where
  "cr_held s =
     (let sws = drop_bit RCC_CFGR_SWS_BIT (RCC_CFGR s) AND 0x3 in
      if sws = 0 then RCC_CR_HSION
      else if sws = 1 then RCC_CR_HSEON
      else if sws = 2
      then RCC_CR_PLLON OR (if RCC_PLLCFGR s AND RCC_PLLCFGR_SRC \<noteq> 0 then RCC_CR_HSEON else RCC_CR_HSION)
      else 0)"

definition RCC_CR_write :: "u32 \<Rightarrow> 'm rcc_scheme \<Rightarrow> 'm rcc_scheme" where
  "RCC_CR_write v s =
     (let byp = (if RCC_CR s AND RCC_CR_HSEON \<noteq> 0 then RCC_CR_HSEBYP else 0) in
      s\<lparr>RCC_CR := (v AND NOT byp) OR (RCC_CR s AND (byp OR cr_held s))\<rparr>)"

section \<open>Bounded waits\<close>

definition CLOCK_READY_TIMEOUT :: nat where "CLOCK_READY_TIMEOUT = 1000000"

function wait_or_timeout :: "('s \<Rightarrow> 's) \<Rightarrow> ('s \<Rightarrow> bool) \<Rightarrow> nat \<Rightarrow> 's \<Rightarrow> hal_status \<times> 's" where
  "wait_or_timeout hw cond to s =
     (let s1 = hw s in
      if cond s1 then (if to - 1 = 0 then (HAL_ERR_TIMEOUT, s1) else wait_or_timeout hw cond (to - 1) s1)
      else (HAL_OK, s1))"
  by pat_completeness auto
termination
  by (relation "measure (\<lambda>(hw, cond, to, s). to)") auto

declare wait_or_timeout.simps [simp del]

definition WAIT_OR_TIMEOUT :: "('s \<Rightarrow> 's) \<Rightarrow> ('s \<Rightarrow> bool) \<Rightarrow> 's \<Rightarrow> hal_status \<times> 's" where
  "WAIT_OR_TIMEOUT hw cond s = wait_or_timeout hw cond CLOCK_READY_TIMEOUT s"

definition toggle_hse_clock ::
    "clock_board \<Rightarrow> ('m rcc_scheme \<Rightarrow> 'm rcc_scheme) \<Rightarrow> bool \<Rightarrow> 'm rcc_scheme \<Rightarrow> hal_status \<times> 'm rcc_scheme" where
  "toggle_hse_clock b hw state s =
     (if state then
        ok_or_return
          (if BOARD_HSE_BYPASS b \<and> RCC_CR s AND RCC_CR_HSEBYP = 0
           then let s1 = RCC_CR_write (RCC_CR s AND NOT RCC_CR_HSEON) s in
                ok_or_return (WAIT_OR_TIMEOUT hw (\<lambda>s. RCC_CR s AND RCC_CR_HSERDY \<noteq> 0) s1)
                  (\<lambda>s. (HAL_OK, RCC_CR_write (RCC_CR s OR RCC_CR_HSEBYP) s))
           else (HAL_OK, s))
          (\<lambda>s. let s1 = RCC_CR_write (RCC_CR s OR RCC_CR_HSEON) s in
               WAIT_OR_TIMEOUT hw (\<lambda>s. (RCC_CR s AND RCC_CR_HSERDY \<noteq> 0) \<noteq> state) s1)
      else let s1 = RCC_CR_write (RCC_CR s AND NOT RCC_CR_HSEON) s in
           WAIT_OR_TIMEOUT hw (\<lambda>s. (RCC_CR s AND RCC_CR_HSERDY \<noteq> 0) \<noteq> state) s1)"

definition toggle_hsi_clock ::
    "('m rcc_scheme \<Rightarrow> 'm rcc_scheme) \<Rightarrow> bool \<Rightarrow> 'm rcc_scheme \<Rightarrow> hal_status \<times> 'm rcc_scheme" where
  "toggle_hsi_clock hw state s =
     (let s1 = RCC_CR_write (if state then RCC_CR s OR RCC_CR_HSION else RCC_CR s AND NOT RCC_CR_HSION) s in
      WAIT_OR_TIMEOUT hw (\<lambda>s. (RCC_CR s AND RCC_CR_HSIRDY \<noteq> 0) \<noteq> state) s1)"

definition toggle_pll_clock ::
    "('m rcc_scheme \<Rightarrow> 'm rcc_scheme) \<Rightarrow> bool \<Rightarrow> 'm rcc_scheme \<Rightarrow> hal_status \<times> 'm rcc_scheme" where
  "toggle_pll_clock hw state s =
     (let s1 = RCC_CR_write (if state then RCC_CR s OR RCC_CR_PLLON else RCC_CR s AND NOT RCC_CR_PLLON) s in
      WAIT_OR_TIMEOUT hw (\<lambda>s. (RCC_CR s AND RCC_CR_PLLRDY \<noteq> 0) \<noteq> state) s1)"

section \<open>Configurations\<close>

datatype hal_clock_source = HAL_CLOCK_SOURCE_HSI | HAL_CLOCK_SOURCE_HSE | HAL_CLOCK_SOURCE_PLL

record hal_pll_config =
  input_src :: hal_clock_source
  pll_m :: u8
  pll_n :: u16
  pll_p :: u8
  pll_q :: u8

record hal_clock_config =
  clk_source :: hal_clock_source
  hpre_div :: u16
  ppre1_div :: u16
  ppre2_div :: u16
  clk_pll :: hal_pll_config

definition source_hz :: "clock_board \<Rightarrow> hal_clock_source \<Rightarrow> u32" where
  "source_hz b src = (if src = HAL_CLOCK_SOURCE_HSE then BOARD_HSE_FREQ_HZ b else BOARD_HSI_FREQ_HZ b)"

definition target_sysclk_hz :: "clock_board \<Rightarrow> hal_clock_config \<Rightarrow> u32" where
  "target_sysclk_hz b cfg =
     (if clk_source cfg = HAL_CLOCK_SOURCE_HSE then BOARD_HSE_FREQ_HZ b
      else if clk_source cfg \<noteq> HAL_CLOCK_SOURCE_PLL then BOARD_HSI_FREQ_HZ b
      else if pll_m (clk_pll cfg) = 0 \<or> pll_p (clk_pll cfg) = 0 then 0
      else (source_hz b (input_src (clk_pll cfg)) div ucast (pll_m (clk_pll cfg)))
             * ucast (pll_n (clk_pll cfg)) div ucast (pll_p (clk_pll cfg)))"

definition flash_ws_for :: "u32 \<Rightarrow> u32" where
  "flash_ws_for hclk = (let ws = (if hclk = 0 then 0 else (hclk - 1) div 30000000) in if ws > 7 then 7 else ws)"

definition acr_write :: "u32 \<Rightarrow> 'm rcc_scheme \<Rightarrow> 'm rcc_scheme" where
  "acr_write v s = s\<lparr>clk_acr := v\<rparr>"

definition ACR_PRFTEN :: u32 where "ACR_PRFTEN = push_bit 8 1"
definition ACR_ICEN :: u32 where "ACR_ICEN = push_bit 9 1"
definition ACR_DCEN :: u32 where "ACR_DCEN = push_bit 10 1"
definition ACR_ICRST :: u32 where "ACR_ICRST = push_bit 11 1"
definition ACR_DCRST :: u32 where "ACR_DCRST = push_bit 12 1"

definition flash_acr_values :: "u32 \<Rightarrow> u32 list" where
  "flash_acr_values hclk =
     (let ws = flash_ws_for hclk in
      [ws, ws OR ACR_ICRST OR ACR_DCRST, ws, ws OR ACR_PRFTEN OR ACR_ICEN OR ACR_DCEN])"

definition flash_set_acr :: "u32 \<Rightarrow> 'm rcc_scheme \<Rightarrow> 'm rcc_scheme" where
  "flash_set_acr hclk s = fold acr_write (flash_acr_values hclk) s"

definition hpre_encode :: "u16 \<Rightarrow> u32 option" where
  "hpre_encode d =
     (if d = 1 then Some 0x0 else if d = 2 then Some 0x8 else if d = 4 then Some 0x9
      else if d = 8 then Some 0xA else if d = 16 then Some 0xB else if d = 64 then Some 0xC
      else if d = 128 then Some 0xD else if d = 256 then Some 0xE else if d = 512 then Some 0xF
      else None)"

definition ppre_encode :: "u16 \<Rightarrow> u32 option" where
  "ppre_encode d =
     (if d = 1 then Some 0x0 else if d = 2 then Some 0x4 else if d = 4 then Some 0x5
      else if d = 8 then Some 0x6 else if d = 16 then Some 0x7 else None)"

function min_div_loop :: "u16 \<Rightarrow> u32 \<Rightarrow> u32 \<Rightarrow> u16" where
  "min_div_loop d hclk limit_hz =
     (if d < 16 \<and> hclk div ucast d > limit_hz then min_div_loop (d * 2) hclk limit_hz else d)"
  by pat_completeness auto
termination
proof (relation "measure (\<lambda>(d, hclk, limit). 32 - unat d)", simp)
  fix d :: u16 and hclk limit :: u32
  assume "d < 16 \<and> limit < hclk div ucast d"
  moreover from this have "d \<noteq> 0" by (cases "d = 0") (simp_all add: word_div_def)
  ultimately have "unat (d * 2) = 2 * unat d" "0 < unat d" "unat d < 16"
    by (auto simp: word_less_nat_alt unat_word_ariths unat_gt_0)
  then show "((d * 2, hclk, limit), (d, hclk, limit)) \<in> measure (\<lambda>(d, hclk, limit). 32 - unat d)" by simp
qed

declare min_div_loop.simps [simp del]

definition min_div_for :: "u32 \<Rightarrow> u32 \<Rightarrow> u16" where
  "min_div_for hclk limit_hz = min_div_loop 1 hclk limit_hz"

section \<open>Bringing a clock up\<close>

text \<open>The source, and the PLL with its dividers.\<close>

definition pll_start ::
    "clock_board \<Rightarrow> ('m rcc_scheme \<Rightarrow> 'm rcc_scheme) \<Rightarrow> hal_pll_config \<Rightarrow> 'm rcc_scheme \<Rightarrow>
     hal_status \<times> 'm rcc_scheme" where
  "pll_start b hw pll s =
     ok_or_return
       (if input_src pll = HAL_CLOCK_SOURCE_HSE then toggle_hse_clock b hw True s
        else if input_src pll = HAL_CLOCK_SOURCE_HSI then toggle_hsi_clock hw True s
        else (HAL_OK, s))
       (\<lambda>s. ok_or_return (toggle_pll_clock hw False s)
       (\<lambda>s. let s1 = s\<lparr>RCC_PLLCFGR := 0\<rparr>;
                s2 = s1\<lparr>RCC_PLLCFGR := (if input_src pll = HAL_CLOCK_SOURCE_HSI
                       then RCC_PLLCFGR s1 AND NOT RCC_PLLCFGR_SRC
                       else RCC_PLLCFGR s1 OR RCC_PLLCFGR_SRC)\<rparr>;
                s3 = s2\<lparr>RCC_PLLCFGR := RCC_PLLCFGR s2 OR (RCC_PLLCFGR_PLLM (pll_m pll) OR
                       RCC_PLLCFGR_PLLN (pll_n pll) OR RCC_PLLCFGR_PLLP (pll_p pll) OR
                       RCC_PLLCFGR_PLLQ (pll_q pll))\<rparr>
            in toggle_pll_clock hw True s3))"

definition clock_start ::
    "clock_board \<Rightarrow> ('m rcc_scheme \<Rightarrow> 'm rcc_scheme) \<Rightarrow> hal_clock_config \<Rightarrow> 'm rcc_scheme \<Rightarrow>
     hal_status \<times> 'm rcc_scheme" where
  "clock_start b hw cfg s =
     (case clk_source cfg of
        HAL_CLOCK_SOURCE_HSE \<Rightarrow> toggle_hse_clock b hw True s
      | HAL_CLOCK_SOURCE_HSI \<Rightarrow> toggle_hsi_clock hw True s
      | HAL_CLOCK_SOURCE_PLL \<Rightarrow> pll_start b hw (clk_pll cfg) s)"

text \<open>The divider fields for a SYSCLK: (HPRE, PPRE1, PPRE2), or a divider no field can hold.\<close>

definition bus_prescalers :: "u32 \<Rightarrow> hal_clock_config \<Rightarrow> (u32 \<times> u32 \<times> u32) option" where
  "bus_prescalers sysclk_hz cfg =
     (let hpre_d = (if hpre_div cfg \<noteq> 0 then hpre_div cfg else 1) in
      case hpre_encode hpre_d of None \<Rightarrow> None
      | Some hpre \<Rightarrow>
          let hclk = sysclk_hz div ucast hpre_d;
              ppre1_d = (if ppre1_div cfg \<noteq> 0 then ppre1_div cfg else 2);
              ppre2_d = (if ppre2_div cfg \<noteq> 0 then ppre2_div cfg else 2);
              ppre1_min = min_div_for hclk 42000000;
              ppre2_min = min_div_for hclk 84000000;
              ppre1_d = (if ppre1_d < ppre1_min then ppre1_min else ppre1_d);
              ppre2_d = (if ppre2_d < ppre2_min then ppre2_min else ppre2_d)
          in case ppre_encode ppre1_d of None \<Rightarrow> None
             | Some ppre1 \<Rightarrow> (case ppre_encode ppre2_d of None \<Rightarrow> None
                | Some ppre2 \<Rightarrow> Some (hpre, ppre1, ppre2)))"

definition set_prescalers :: "u32 \<times> u32 \<times> u32 \<Rightarrow> 'm rcc_scheme \<Rightarrow> 'm rcc_scheme" where
  "set_prescalers p s =
     (case p of (hpre, ppre1, ppre2) \<Rightarrow>
        let s1 = s\<lparr>RCC_CFGR := RCC_CFGR s AND
                   NOT (RCC_CFGR_HPRE_MASK OR RCC_CFGR_PPRE1_MASK OR RCC_CFGR_PPRE2_MASK)\<rparr>
        in s1\<lparr>RCC_CFGR := RCC_CFGR s1 OR (push_bit RCC_CFGR_HPRE_BIT hpre OR
             push_bit RCC_CFGR_PPRE1_BIT ppre1 OR push_bit RCC_CFGR_PPRE2_BIT ppre2)\<rparr>)"

definition source_code :: "hal_clock_source \<Rightarrow> u32" where
  "source_code src = (case src of HAL_CLOCK_SOURCE_HSI \<Rightarrow> 0 | HAL_CLOCK_SOURCE_HSE \<Rightarrow> 1 | HAL_CLOCK_SOURCE_PLL \<Rightarrow> 2)"

definition clock_switch ::
    "('m rcc_scheme \<Rightarrow> 'm rcc_scheme) \<Rightarrow> hal_clock_source \<Rightarrow> 'm rcc_scheme \<Rightarrow> hal_status \<times> 'm rcc_scheme" where
  "clock_switch hw src s =
     (let s1 = s\<lparr>RCC_CFGR := RCC_CFGR s AND NOT (push_bit RCC_CFGR_SW_BIT 0x3)\<rparr>;
          s2 = (if src = HAL_CLOCK_SOURCE_HSI then s1
                else s1\<lparr>RCC_CFGR := RCC_CFGR s1 OR push_bit RCC_CFGR_SW_BIT (source_code src)\<rparr>)
      in WAIT_OR_TIMEOUT hw (\<lambda>s. drop_bit RCC_CFGR_SWS_BIT (RCC_CFGR s) AND 0x3 \<noteq> source_code src) s2)"

definition stm32_clock_init ::
    "clock_board \<Rightarrow> ('m rcc_scheme \<Rightarrow> 'm rcc_scheme) \<Rightarrow> hal_clock_config \<Rightarrow> 'm rcc_scheme \<Rightarrow>
     hal_status \<times> 'm rcc_scheme" where
  "stm32_clock_init b hw cfg s =
     (if clk_source cfg = HAL_CLOCK_SOURCE_PLL \<and>
         (pll_m (clk_pll cfg) = 0 \<or> pll_n (clk_pll cfg) = 0 \<or> pll_p (clk_pll cfg) = 0)
      then (HAL_ERR_INVALID_ARG, s)
      else ok_or_return (clock_start b hw cfg s)
        (\<lambda>s. let s1 = (if clk_source cfg = HAL_CLOCK_SOURCE_PLL
                       then flash_set_acr (target_sysclk_hz b cfg) s else s);
                 sysclk_hz = target_sysclk_hz b cfg
             in if sysclk_hz = 0 then (HAL_ERR_INVALID_ARG, s1)
                else (case bus_prescalers sysclk_hz cfg of
                        None \<Rightarrow> (HAL_ERR_INVALID_ARG, s1)
                      | Some p \<Rightarrow>
                          ok_or_return (clock_switch hw (clk_source cfg) (set_prescalers p s1))
                            (\<lambda>s. (HAL_OK, if clk_source cfg \<noteq> HAL_CLOCK_SOURCE_PLL
                                  then flash_set_acr (target_sysclk_hz b cfg) s else s)))))"

section \<open>Reading the tree back\<close>

definition stm32_clock_get_sysclk :: "clock_board \<Rightarrow> 'm rcc_scheme \<Rightarrow> u32" where
  "stm32_clock_get_sysclk b s =
     (let sws = drop_bit RCC_CFGR_SWS_BIT (RCC_CFGR s) AND 0x3 in
      if sws = 0 then BOARD_HSI_FREQ_HZ b
      else if sws = 1 then BOARD_HSE_FREQ_HZ b
      else if sws = 2 then
        let m = drop_bit RCC_PLLCFGR_PLLM_BIT (RCC_PLLCFGR s) AND 0x3F;
            n = drop_bit RCC_PLLCFGR_PLLN_BIT (RCC_PLLCFGR s) AND 0x1FF;
            p = ((drop_bit RCC_PLLCFGR_PLLP_BIT (RCC_PLLCFGR s) AND 0x3) + 1) * 2;
            src = drop_bit RCC_PLLCFGR_SRC_BIT (RCC_PLLCFGR s) AND 0x1;
            vco_in = (if src \<noteq> 0 then BOARD_HSE_FREQ_HZ b else BOARD_HSI_FREQ_HZ b)
        in (vco_in div m) * n div p
      else 0)"

definition decode_prescaler :: "u32 \<Rightarrow> u32" where
  "decode_prescaler v =
     (if v = 0x0 then 1 else if v = 0x8 then 2 else if v = 0x9 then 4 else if v = 0xA then 8
      else if v = 0xB then 16 else if v = 0xC then 64 else if v = 0xD then 128
      else if v = 0xE then 256 else if v = 0xF then 512 else 1)"

definition decode_apb_prescaler :: "u32 \<Rightarrow> u32" where
  "decode_apb_prescaler v =
     (if v = 0x0 then 1 else if v = 0x4 then 2 else if v = 0x5 then 4 else if v = 0x6 then 8
      else if v = 0x7 then 16 else 1)"

definition stm32_clock_get_ahbclk :: "clock_board \<Rightarrow> 'm rcc_scheme \<Rightarrow> u32" where
  "stm32_clock_get_ahbclk b s =
     stm32_clock_get_sysclk b s div decode_prescaler (drop_bit RCC_CFGR_HPRE_BIT (RCC_CFGR s) AND 0xF)"

definition stm32_clock_get_apb1clk :: "clock_board \<Rightarrow> 'm rcc_scheme \<Rightarrow> u32" where
  "stm32_clock_get_apb1clk b s =
     stm32_clock_get_sysclk b s div decode_apb_prescaler (drop_bit RCC_CFGR_PPRE1_BIT (RCC_CFGR s) AND 0x7)"

definition stm32_clock_get_apb2clk :: "clock_board \<Rightarrow> 'm rcc_scheme \<Rightarrow> u32" where
  "stm32_clock_get_apb2clk b s =
     stm32_clock_get_sysclk b s div decode_apb_prescaler (drop_bit RCC_CFGR_PPRE2_BIT (RCC_CFGR s) AND 0x7)"

definition stm32_clock_get_bus_count :: u8 where
  "stm32_clock_get_bus_count = 3"

definition stm32_clock_get_bus_clock :: "clock_board \<Rightarrow> u8 \<Rightarrow> 'm rcc_scheme \<Rightarrow> u32" where
  "stm32_clock_get_bus_clock b bus s =
     (if bus = 0 then stm32_clock_get_ahbclk b s
      else if bus = 1 then stm32_clock_get_apb1clk b s
      else if bus = 2 then stm32_clock_get_apb2clk b s
      else 0)"

definition hal_clock_get_bus_clock :: "clock_board \<Rightarrow> u8 \<Rightarrow> 'm rcc_scheme \<Rightarrow> u32" where
  "hal_clock_get_bus_clock b bus s =
     (if bus \<ge> stm32_clock_get_bus_count then 0 else stm32_clock_get_bus_clock b bus s)"

section \<open>The PLL solver\<close>

definition PLL_VCO_IN_HZ :: u32 where "PLL_VCO_IN_HZ = 1000000"
definition PLL_VCO_MIN_HZ :: u32 where "PLL_VCO_MIN_HZ = 192000000"
definition PLL_VCO_MAX_HZ :: u32 where "PLL_VCO_MAX_HZ = 432000000"
definition PLL_SYSCLK_MAX_HZ :: u32 where "PLL_SYSCLK_MAX_HZ = 84000000"

lemmas pll_consts = PLL_VCO_IN_HZ_def PLL_VCO_MIN_HZ_def PLL_VCO_MAX_HZ_def PLL_SYSCLK_MAX_HZ_def

definition pll_nearest_q :: "u64 \<Rightarrow> u8" where
  "pll_nearest_q vco = (let q = ucast (vco div 48000000) :: u32 in ucast (if q \<ge> 2 \<and> q \<le> 15 then q else 7))"

text \<open>One pass of the loop body: the dividers for this PLLP, or \<open>continue\<close>.\<close>

definition solve_pll_at :: "u32 \<Rightarrow> u32 \<Rightarrow> u32 \<Rightarrow> (u16 \<times> u8) option" where
  "solve_pll_at vco_min target_hz p =
     (let vco = ucast target_hz * ucast p :: u64 in
      if vco < ucast vco_min \<or> vco > ucast PLL_VCO_MAX_HZ then None
      else let n = ucast (vco div ucast PLL_VCO_IN_HZ) :: u32 in
        if n < 50 \<or> n > 432 then None
        else if ucast n * ucast PLL_VCO_IN_HZ \<noteq> vco then None
        else Some (ucast n, pll_nearest_q vco))"

function solve_pll_loop :: "u32 \<Rightarrow> u32 \<Rightarrow> u32 \<Rightarrow> (u8 \<times> u16 \<times> u8) option" where
  "solve_pll_loop vco_min target_hz p =
     (if p \<le> 8 then
        (case solve_pll_at vco_min target_hz p of
           Some (n, q) \<Rightarrow> Some (ucast p, n, q)
         | None \<Rightarrow> solve_pll_loop vco_min target_hz (p + 2))
      else None)"
  by pat_completeness auto
termination
proof (relation "measure (\<lambda>(v, t, p). 16 - unat p)", simp)
  fix v t p :: u32
  assume "p \<le> 8"
  then have "unat (p + 2) = unat p + 2" "unat p \<le> 8"
    by (auto simp: word_le_nat_alt unat_word_ariths)
  then show "((v, t, p + 2), (v, t, p)) \<in> measure (\<lambda>(v, t, p). 16 - unat p)" by simp
qed

declare solve_pll_loop.simps [simp del]

text \<open>The two families' solvers differ in the VCO floor and the SYSCLK ceiling only.\<close>

definition solve_pll_within ::
    "u32 \<Rightarrow> u32 \<Rightarrow> clock_board \<Rightarrow> hal_clock_source \<Rightarrow> u32 \<Rightarrow> hal_pll_config option" where
  "solve_pll_within vco_min sysclk_max b src target_hz =
     (if target_hz = 0 \<or> target_hz > sysclk_max then None
      else let inp = source_hz b src in
        if inp mod PLL_VCO_IN_HZ \<noteq> 0 then None
        else let m = inp div PLL_VCO_IN_HZ in
          if m < 2 \<or> m > 63 then None
          else (case solve_pll_loop vco_min target_hz 2 of
                  None \<Rightarrow> None
                | Some (p, n, q) \<Rightarrow>
                    Some \<lparr>input_src = src, pll_m = ucast m, pll_n = n, pll_p = p, pll_q = q\<rparr>))"

definition solve_pll :: "clock_board \<Rightarrow> hal_clock_source \<Rightarrow> u32 \<Rightarrow> hal_pll_config option" where
  "solve_pll = solve_pll_within PLL_VCO_MIN_HZ PLL_SYSCLK_MAX_HZ"

section \<open>The public layer\<close>

definition hal_clock_init ::
    "clock_board \<Rightarrow> ('m rcc_scheme \<Rightarrow> 'm rcc_scheme) \<Rightarrow> hal_clock_config option \<Rightarrow> 'm rcc_scheme \<Rightarrow>
     hal_status \<times> 'm rcc_scheme" where
  "hal_clock_init b hw cfg s =
     (case cfg of None \<Rightarrow> (HAL_ERR_INVALID_ARG, s) | Some cfg \<Rightarrow> stm32_clock_init b hw cfg s)"

definition hal_clock_get_sysclk :: "clock_board \<Rightarrow> 'm rcc_scheme \<Rightarrow> u32" where
  "hal_clock_get_sysclk b s = stm32_clock_get_sysclk b s"

definition hal_clock_init_hz ::
    "clock_board \<Rightarrow> ('m rcc_scheme \<Rightarrow> 'm rcc_scheme) \<Rightarrow> hal_clock_source \<Rightarrow> u32 \<Rightarrow> 'm rcc_scheme \<Rightarrow>
     hal_status \<times> 'm rcc_scheme" where
  "hal_clock_init_hz b hw pll_input target_hz s =
     (case solve_pll b pll_input target_hz of
        None \<Rightarrow> (HAL_ERR_INVALID_ARG, s)
      | Some pll \<Rightarrow> hal_clock_init b hw (Some \<lparr>clk_source = HAL_CLOCK_SOURCE_PLL, hpre_div = 0,
          ppre1_div = 0, ppre2_div = 0, clk_pll = pll\<rparr>) s)"

section \<open>Waiting\<close>

lemma wait_or_timeout_inv:
  assumes "wait_or_timeout hw cond to s = (st, t)" "\<And>s. P s \<Longrightarrow> P (hw s)" "P s"
  shows "P t \<and> (st = HAL_OK \<and> \<not> cond t \<or> st = HAL_ERR_TIMEOUT \<and> cond t)"
  using assms(1,3)
proof (induction to arbitrary: s rule: less_induct)
  case (less to)
  show ?case
  proof (cases "cond (hw s) \<and> to - 1 \<noteq> 0")
    case True
    then have "wait_or_timeout hw cond (to - 1) (hw s) = (st, t)"
      using less.prems(1) by (simp add: wait_or_timeout.simps [of hw cond to s] Let_def)
    then show ?thesis using less.IH [of "to - 1" "hw s"] True assms(2) less.prems(2) by simp
  next
    case False
    then show ?thesis
      using less.prems assms(2)
      by (auto simp: wait_or_timeout.simps [of hw cond to s] Let_def split: if_splits)
  qed
qed

lemma wait_or_timeout_ok:
  assumes "0 < n" "n \<le> to" "\<not> cond ((hw ^^ n) s)"
  shows "fst (wait_or_timeout hw cond to s) = HAL_OK"
  using assms
proof (induction n arbitrary: to s)
  case (Suc n)
  show ?case
  proof (cases "cond (hw s)")
    case True
    then have "n \<noteq> 0" using Suc.prems(3) by (cases n) auto
    then have "fst (wait_or_timeout hw cond (to - 1) (hw s)) = HAL_OK"
      using Suc.IH [of "to - 1" "hw s"] Suc.prems by (simp add: funpow_swap1)
    then show ?thesis
      using True Suc.prems(2) \<open>n \<noteq> 0\<close> by (subst wait_or_timeout.simps) (simp add: Let_def)
  next
    case False
    then show ?thesis by (subst wait_or_timeout.simps) (simp add: Let_def)
  qed
qed simp

lemma WAIT_inv:
  assumes "WAIT_OR_TIMEOUT hw cond s = (st, t)" "\<And>s. P s \<Longrightarrow> P (hw s)" "P s"
  shows "P t" "st = HAL_OK \<and> \<not> cond t \<or> st = HAL_ERR_TIMEOUT \<and> cond t"
  using wait_or_timeout_inv [OF assms(1) [unfolded WAIT_OR_TIMEOUT_def], of P] assms(2,3) by blast+

lemma WAIT_ok:
  "0 < n \<Longrightarrow> n \<le> CLOCK_READY_TIMEOUT \<Longrightarrow> \<not> cond ((hw ^^ n) s) \<Longrightarrow> fst (WAIT_OR_TIMEOUT hw cond s) = HAL_OK"
  by (simp add: WAIT_OR_TIMEOUT_def wait_or_timeout_ok)

section \<open>What the hardware may do\<close>

text \<open>Field views, and the law: a poll moves ready flags, and SWS only to where SW points.\<close>

definition cfgr_sw :: "'m rcc_scheme \<Rightarrow> u32" where "cfgr_sw s = RCC_CFGR s AND 0x3"
definition cfgr_sws :: "'m rcc_scheme \<Rightarrow> u32" where "cfgr_sws s = drop_bit 2 (RCC_CFGR s) AND 0x3"
definition cr_flag :: "u32 \<Rightarrow> 'm rcc_scheme \<Rightarrow> bool" where "cr_flag k s \<longleftrightarrow> RCC_CR s AND k \<noteq> 0"

definition cr_status :: u32 where "cr_status = RCC_CR_HSIRDY OR RCC_CR_HSERDY OR RCC_CR_PLLRDY"

definition same_ctl :: "'m rcc_scheme \<Rightarrow> 'm rcc_scheme \<Rightarrow> bool" where
  "same_ctl s t \<longleftrightarrow> RCC_CR t AND NOT cr_status = RCC_CR s AND NOT cr_status \<and>
     RCC_CFGR t AND NOT 0xC = RCC_CFGR s AND NOT 0xC \<and>
     RCC_PLLCFGR t = RCC_PLLCFGR s \<and> clk_acr t = clk_acr s"

definition hw_frame :: "('m rcc_scheme \<Rightarrow> 'm rcc_scheme) \<Rightarrow> bool" where
  "hw_frame hw \<longleftrightarrow> (\<forall>s. same_ctl s (hw s) \<and> (cfgr_sws (hw s) = cfgr_sws s \<or> cfgr_sws (hw s) = cfgr_sw s))"

text \<open>Oscillators and PLL that answer: each flag follows its enable bit, SWS follows SW once the
  source it names is ready, within the polls the driver allows.\<close>

definition answers_within :: "('s \<Rightarrow> 's) \<Rightarrow> ('s \<Rightarrow> bool) \<Rightarrow> 's \<Rightarrow> bool" where
  "answers_within hw P s \<longleftrightarrow> (\<exists>n. 0 < n \<and> n \<le> CLOCK_READY_TIMEOUT \<and> P ((hw ^^ n) s))"

definition hw_answers :: "('m rcc_scheme \<Rightarrow> 'm rcc_scheme) \<Rightarrow> bool" where
  "hw_answers hw \<longleftrightarrow> (\<forall>s.
     answers_within hw (\<lambda>t. cr_flag RCC_CR_HSERDY t = cr_flag RCC_CR_HSEON s) s \<and>
     answers_within hw (\<lambda>t. cr_flag RCC_CR_HSIRDY t = cr_flag RCC_CR_HSION s) s \<and>
     answers_within hw (\<lambda>t. cr_flag RCC_CR_PLLRDY t = cr_flag RCC_CR_PLLON s) s \<and>
     (cfgr_sw s = 2 \<and> \<not> cr_flag RCC_CR_PLLRDY s \<or> answers_within hw (\<lambda>t. cfgr_sws t = cfgr_sw s) s))"

lemma masked_eq:
  fixes x x' k m :: "'a::len word"
  assumes "x' AND NOT k = x AND NOT k" "NOT k AND m = m"
  shows "x' AND m = x AND m"
  by (metis assms and.assoc)

lemma same_ctl_refl [intro]: "same_ctl s s"
  by (simp add: same_ctl_def)

lemma same_ctl_trans: "same_ctl s t \<Longrightarrow> same_ctl t u \<Longrightarrow> same_ctl s u"
  by (simp add: same_ctl_def)

lemma same_ctl_fields:
  assumes "same_ctl s t"
  shows "cfgr_sw t = cfgr_sw s" "RCC_PLLCFGR t = RCC_PLLCFGR s" "clk_acr t = clk_acr s"
    "cr_flag RCC_CR_HSEON t = cr_flag RCC_CR_HSEON s" "cr_flag RCC_CR_HSION t = cr_flag RCC_CR_HSION s"
    "cr_flag RCC_CR_PLLON t = cr_flag RCC_CR_PLLON s" "RCC_CFGR t AND NOT 0xF = RCC_CFGR s AND NOT 0xF"
  using assms masked_eq [of "RCC_CFGR t" "0xC" "RCC_CFGR s"] masked_eq [of "RCC_CR t" cr_status "RCC_CR s"]
  by (simp_all add: same_ctl_def cfgr_sw_def cr_flag_def cr_status_def rcc_cr_defs)

section \<open>Toggling oscillators from the reset source\<close>

lemma cr_flag_bit: "cr_flag (push_bit k 1) s \<longleftrightarrow> bit (RCC_CR s) k"
  by (simp add: cr_flag_def bit_iff_and_push_bit_not_eq_0)

definition on_hsi :: "'m rcc_scheme \<Rightarrow> bool" where
  "on_hsi s \<longleftrightarrow> cfgr_sw s = 0 \<and> cfgr_sws s = 0"

text \<open>Everything but RCC_CR and the status bits.\<close>

definition rest_kept :: "'m rcc_scheme \<Rightarrow> 'm rcc_scheme \<Rightarrow> bool" where
  "rest_kept s t \<longleftrightarrow> RCC_CFGR t AND NOT 0xC = RCC_CFGR s AND NOT 0xC \<and>
     RCC_PLLCFGR t = RCC_PLLCFGR s \<and> clk_acr t = clk_acr s"

lemma rest_kept_refl [intro]: "rest_kept s s"
  by (simp add: rest_kept_def)

lemma rest_kept_trans: "rest_kept s t \<Longrightarrow> rest_kept t u \<Longrightarrow> rest_kept s u"
  by (simp add: rest_kept_def)

lemma rest_kept_sw: "rest_kept s t \<Longrightarrow> cfgr_sw t = cfgr_sw s"
  using masked_eq [of "RCC_CFGR t" "0xC" "RCC_CFGR s" "0x3"] by (simp add: rest_kept_def cfgr_sw_def)

lemma cr_write_kept [simp]: "rest_kept s (RCC_CR_write v s)" "cfgr_sws (RCC_CR_write v s) = cfgr_sws s"
  "on_hsi (RCC_CR_write v s) = on_hsi s"
  by (simp_all add: rest_kept_def RCC_CR_write_def Let_def cfgr_sws_def cfgr_sw_def on_hsi_def)

lemma hw_frame_step:
  assumes "hw_frame hw"
  shows "rest_kept s (hw s)" "same_ctl s (hw s)" "on_hsi s \<Longrightarrow> on_hsi (hw s)"
proof -
  have f: "same_ctl s (hw s)" "cfgr_sws (hw s) = cfgr_sws s \<or> cfgr_sws (hw s) = cfgr_sw s"
    using assms by (auto simp: hw_frame_def)
  then show "same_ctl s (hw s)" "rest_kept s (hw s)" by (simp_all add: rest_kept_def same_ctl_def)
  show "on_hsi s \<Longrightarrow> on_hsi (hw s)" using f same_ctl_fields(1) [OF f(1)] by (auto simp: on_hsi_def)
qed

lemma cr_write_on:
  "cr_flag RCC_CR_HSEON (RCC_CR_write (RCC_CR s OR RCC_CR_HSEON) s)"
  "cr_flag RCC_CR_HSION (RCC_CR_write (RCC_CR s OR RCC_CR_HSION) s)"
  "cr_flag RCC_CR_PLLON (RCC_CR_write (RCC_CR s OR RCC_CR_PLLON) s)"
  by (auto simp: rcc_cr_defs cr_flag_bit RCC_CR_write_def Let_def bit_simps simp del: push_bit_of_1 push_bit_0_id)

lemma cr_held_hsi: "on_hsi s \<Longrightarrow> \<not> bit (cr_held s) 16 \<and> \<not> bit (cr_held s) 24"
  by (simp add: on_hsi_def cfgr_sws_def cr_held_def Let_def rcc_cfgr_defs rcc_cr_defs bit_simps
      del: push_bit_of_1 push_bit_0_id)

lemma cr_write_off:
  assumes "on_hsi s"
  shows "\<not> cr_flag RCC_CR_HSEON (RCC_CR_write (RCC_CR s AND NOT RCC_CR_HSEON) s)"
    "\<not> cr_flag RCC_CR_PLLON (RCC_CR_write (RCC_CR s AND NOT RCC_CR_PLLON) s)"
  using cr_held_hsi [OF assms]
  by (simp_all add: rcc_cr_defs cr_flag_bit RCC_CR_write_def Let_def bit_simps del: push_bit_of_1)

lemma hw_answersD:
  assumes "hw_answers hw"
  shows "cr_flag RCC_CR_HSEON s = w \<Longrightarrow> answers_within hw (\<lambda>t. cr_flag RCC_CR_HSERDY t = w) s"
    "cr_flag RCC_CR_HSION s = w \<Longrightarrow> answers_within hw (\<lambda>t. cr_flag RCC_CR_HSIRDY t = w) s"
    "cr_flag RCC_CR_PLLON s = w \<Longrightarrow> answers_within hw (\<lambda>t. cr_flag RCC_CR_PLLRDY t = w) s"
    "cr_flag RCC_CR_PLLRDY s \<Longrightarrow> answers_within hw (\<lambda>t. cfgr_sws t = cfgr_sw s) s"
  using assms unfolding hw_answers_def by blast+

text \<open>A wait for a flag that the hardware answers: it ends well and leaves the rest alone.\<close>

lemma wait_flag:
  assumes hw: "hw_frame hw" and ans: "answers_within hw (\<lambda>t. cr_flag F t = want) s1" and on: "on_hsi s1"
  obtains t where "WAIT_OR_TIMEOUT hw (\<lambda>s. (RCC_CR s AND F \<noteq> 0) \<noteq> want) s1 = (HAL_OK, t)"
    "on_hsi t" "rest_kept s1 t" "cr_flag F t = want" "same_ctl s1 t"
proof -
  let ?c = "\<lambda>s. (RCC_CR s AND F \<noteq> 0) \<noteq> want"
  obtain st t where r: "WAIT_OR_TIMEOUT hw ?c s1 = (st, t)" by (cases "WAIT_OR_TIMEOUT hw ?c s1") 
  obtain n where n: "0 < n" "n \<le> CLOCK_READY_TIMEOUT" "cr_flag F ((hw ^^ n) s1) = want"
    using ans by (auto simp: answers_within_def)
  have "fst (WAIT_OR_TIMEOUT hw ?c s1) = HAL_OK"
    by (rule WAIT_ok [OF n(1,2)]) (use n(3) in \<open>simp add: cr_flag_def\<close>)
  then have st: "st = HAL_OK" unfolding r by simp
  note i = WAIT_inv [OF r, of "\<lambda>t. on_hsi t \<and> rest_kept s1 t \<and> same_ctl s1 t"]
  have k: "on_hsi t \<and> rest_kept s1 t \<and> same_ctl s1 t"
    using i(1) hw_frame_step [OF hw] on rest_kept_trans same_ctl_trans by blast
  have "\<not> ?c t" using WAIT_inv(2) [OF r, of "\<lambda>_. True"] st by blast
  then have "cr_flag F t = want" by (simp add: cr_flag_def)
  then show thesis using that r st k by blast
qed

lemma toggle_pll_ok:
  assumes "hw_frame hw" "hw_answers hw" "on_hsi s"
  obtains t where "toggle_pll_clock hw state s = (HAL_OK, t)" "on_hsi t" "rest_kept s t"
    "cr_flag RCC_CR_PLLRDY t = state" "cr_flag RCC_CR_PLLON t = state"
proof -
  let ?s1 = "RCC_CR_write (if state then RCC_CR s OR RCC_CR_PLLON else RCC_CR s AND NOT RCC_CR_PLLON) s"
  have p: "cr_flag RCC_CR_PLLON ?s1 = state"
    using cr_write_on(3) cr_write_off(2) [OF assms(3)] by (cases state) simp_all
  from hw_answersD(3) [OF assms(2) this] obtain t where
    "WAIT_OR_TIMEOUT hw (\<lambda>s. (RCC_CR s AND RCC_CR_PLLRDY \<noteq> 0) \<noteq> state) ?s1 = (HAL_OK, t)"
    "on_hsi t" "rest_kept ?s1 t" "cr_flag RCC_CR_PLLRDY t = state" "same_ctl ?s1 t"
    by (rule wait_flag [OF assms(1)]) (use assms(3) in auto)
  moreover from this have "cr_flag RCC_CR_PLLON t = state" using same_ctl_fields(6) p by blast
  ultimately show thesis
    by (intro that [of t]) (auto simp: toggle_pll_clock_def Let_def intro: rest_kept_trans [OF cr_write_kept(1)])
qed

lemma toggle_hsi_ok:
  assumes "hw_frame hw" "hw_answers hw" "on_hsi s"
  obtains t where "toggle_hsi_clock hw True s = (HAL_OK, t)" "on_hsi t" "rest_kept s t"
proof -
  let ?s1 = "RCC_CR_write (RCC_CR s OR RCC_CR_HSION) s"
  from hw_answersD(2) [OF assms(2), of ?s1 True] obtain t where
    "WAIT_OR_TIMEOUT hw (\<lambda>s. (RCC_CR s AND RCC_CR_HSIRDY \<noteq> 0) \<noteq> True) ?s1 = (HAL_OK, t)"
    "on_hsi t" "rest_kept ?s1 t"
    by (rule wait_flag [OF assms(1)]) (use assms(3) cr_write_on(2) in auto)
  then show thesis
    by (intro that [of t]) (auto simp: toggle_hsi_clock_def Let_def intro: rest_kept_trans [OF cr_write_kept(1)])
qed

lemma hse_on_ok:
  assumes "hw_frame hw" "hw_answers hw" "on_hsi s"
  obtains t where "WAIT_OR_TIMEOUT hw (\<lambda>s. (RCC_CR s AND RCC_CR_HSERDY \<noteq> 0) \<noteq> True)
      (RCC_CR_write (RCC_CR s OR RCC_CR_HSEON) s) = (HAL_OK, t)" "on_hsi t" "rest_kept s t"
proof -
  let ?s1 = "RCC_CR_write (RCC_CR s OR RCC_CR_HSEON) s"
  from hw_answersD(1) [OF assms(2), of ?s1 True] obtain t where
    "WAIT_OR_TIMEOUT hw (\<lambda>s. (RCC_CR s AND RCC_CR_HSERDY \<noteq> 0) \<noteq> True) ?s1 = (HAL_OK, t)"
    "on_hsi t" "rest_kept ?s1 t"
    by (rule wait_flag [OF assms(1)]) (use assms(3) cr_write_on(1) in auto)
  then show thesis by (intro that [of t]) (auto intro: rest_kept_trans [OF cr_write_kept(1)])
qed

lemma toggle_hse_ok:
  assumes "hw_frame hw" "hw_answers hw" "on_hsi s"
  obtains t where "toggle_hse_clock b hw True s = (HAL_OK, t)" "on_hsi t" "rest_kept s t"
proof (cases "BOARD_HSE_BYPASS b \<and> RCC_CR s AND RCC_CR_HSEBYP = 0")
  case True
  let ?s1 = "RCC_CR_write (RCC_CR s AND NOT RCC_CR_HSEON) s"
  from hw_answersD(1) [OF assms(2), of ?s1 False] obtain t where
    t: "WAIT_OR_TIMEOUT hw (\<lambda>s. (RCC_CR s AND RCC_CR_HSERDY \<noteq> 0) \<noteq> False) ?s1 = (HAL_OK, t)"
      "on_hsi t" "rest_kept ?s1 t"
    by (rule wait_flag [OF assms(1)]) (use assms(3) cr_write_off(1) in auto)
  let ?s2 = "RCC_CR_write (RCC_CR t OR RCC_CR_HSEBYP) t"
  have k: "on_hsi ?s2" "rest_kept s ?s2"
    using t rest_kept_trans [OF rest_kept_trans [OF cr_write_kept(1) t(3)] cr_write_kept(1)] by auto
  obtain u where u: "WAIT_OR_TIMEOUT hw (\<lambda>s. (RCC_CR s AND RCC_CR_HSERDY \<noteq> 0) \<noteq> True)
      (RCC_CR_write (RCC_CR ?s2 OR RCC_CR_HSEON) ?s2) = (HAL_OK, u)" "on_hsi u" "rest_kept ?s2 u"
    by (rule hse_on_ok [OF assms(1,2) k(1)])
  show thesis
    by (rule that [OF _ u(2) rest_kept_trans [OF k(2) u(3)]])
      (use True t(1) u(1) in \<open>simp add: toggle_hse_clock_def Let_def\<close>)
next
  case False
  obtain u where u: "WAIT_OR_TIMEOUT hw (\<lambda>s. (RCC_CR s AND RCC_CR_HSERDY \<noteq> 0) \<noteq> True)
      (RCC_CR_write (RCC_CR s OR RCC_CR_HSEON) s) = (HAL_OK, u)" "on_hsi u" "rest_kept s u"
    by (rule hse_on_ok [OF assms])
  show thesis
    by (rule that [OF _ u(2,3)]) (use False u(1) in \<open>auto simp: toggle_hse_clock_def Let_def\<close>)
qed

section \<open>The PLL, the prescalers and the switch\<close>

definition pll_value :: "hal_pll_config \<Rightarrow> u32" where
  "pll_value pll = (if input_src pll = HAL_CLOCK_SOURCE_HSI then 0 else RCC_PLLCFGR_SRC) OR
     (RCC_PLLCFGR_PLLM (pll_m pll) OR RCC_PLLCFGR_PLLN (pll_n pll) OR
      RCC_PLLCFGR_PLLP (pll_p pll) OR RCC_PLLCFGR_PLLQ (pll_q pll))"

lemma pll_start_ok:
  assumes hw: "hw_frame hw" "hw_answers hw" and on: "on_hsi s"
  obtains t where "pll_start b hw pll s = (HAL_OK, t)" "on_hsi t" "clk_acr t = clk_acr s"
    "RCC_CFGR t AND NOT 0xC = RCC_CFGR s AND NOT 0xC"
    "RCC_PLLCFGR t = pll_value pll" "cr_flag RCC_CR_PLLRDY t" "cr_flag RCC_CR_PLLON t"
proof -
  obtain s1 where s1: "(if input_src pll = HAL_CLOCK_SOURCE_HSE then toggle_hse_clock b hw True s
        else if input_src pll = HAL_CLOCK_SOURCE_HSI then toggle_hsi_clock hw True s
        else (HAL_OK, s)) = (HAL_OK, s1)" "on_hsi s1" "rest_kept s s1"
  proof (cases "input_src pll")
    case HAL_CLOCK_SOURCE_HSE
    then show thesis by - (rule toggle_hse_ok [OF hw on, of b], rule that, simp_all)
  next
    case HAL_CLOCK_SOURCE_HSI
    then show thesis by - (rule toggle_hsi_ok [OF hw on], rule that, simp_all)
  next
    case HAL_CLOCK_SOURCE_PLL
    then show thesis by (intro that [of s]) (use on in auto)
  qed
  obtain s2 where s2: "toggle_pll_clock hw False s1 = (HAL_OK, s2)" "on_hsi s2" "rest_kept s1 s2"
    by (rule toggle_pll_ok [OF hw s1(2)])
  let ?s3 = "s2\<lparr>RCC_PLLCFGR := pll_value pll\<rparr>"
  have on3: "on_hsi ?s3" using s2(2) by (simp add: on_hsi_def cfgr_sw_def cfgr_sws_def)
  obtain t where t: "toggle_pll_clock hw True ?s3 = (HAL_OK, t)" "on_hsi t" "rest_kept ?s3 t"
    "cr_flag RCC_CR_PLLRDY t = True" "cr_flag RCC_CR_PLLON t = True"
    by (rule toggle_pll_ok [OF hw on3])
  show thesis
    by (rule that [of t])
      (use s1 s2 t in \<open>auto simp: pll_start_def Let_def pll_value_def rest_kept_def\<close>)
qed

lemma or_mask_field:
  fixes x :: "'a::len word"
  shows "drop_bit n x AND m = drop_bit n (x AND push_bit n m)"
  by (rule bit_word_eqI) (auto simp: bit_simps dest: bit_imp_le_length)

lemma pll_value_fields:
  assumes "pll_m pll \<le> 63" "pll_n pll \<le> 432" "pll_p pll \<in> {2, 4, 6, 8}"
  shows "drop_bit RCC_PLLCFGR_PLLM_BIT (pll_value pll) AND 0x3F = ucast (pll_m pll)"
    "drop_bit RCC_PLLCFGR_PLLN_BIT (pll_value pll) AND 0x1FF = ucast (pll_n pll)"
    "((drop_bit RCC_PLLCFGR_PLLP_BIT (pll_value pll) AND 0x3) + 1) * 2 = ucast (pll_p pll)"
    "drop_bit RCC_PLLCFGR_SRC_BIT (pll_value pll) AND 0x1 \<noteq> 0 \<longleftrightarrow> input_src pll \<noteq> HAL_CLOCK_SOURCE_HSI"
proof -
  let ?hi = "if input_src pll = HAL_CLOCK_SOURCE_HSI then 0 else (push_bit 22 1 :: u32)"
  have "\<exists>k :: u32. k \<in> {0, 1, 2, 3} \<and> drop_bit 1 (ucast (pll_p pll)) - 1 = k \<and> (k + 1) * 2 = ucast (pll_p pll)"
  proof -
    have "drop_bit 1 (2 :: u32) = 1" "drop_bit 1 (4 :: u32) = 2" "drop_bit 1 (6 :: u32) = 3"
        "drop_bit 1 (8 :: u32) = 4" by (simp_all add: drop_bit_eq_div)
    moreover have "(ucast (pll_p pll) :: u32) \<in> {2, 4, 6, 8}" using assms(3) by auto
    ultimately show ?thesis
      by (intro exI [of _ "drop_bit 1 (ucast (pll_p pll)) - 1"]) auto
  qed
  then obtain k :: u32 where k: "k \<in> {0, 1, 2, 3}" "drop_bit 1 (ucast (pll_p pll)) - 1 = k"
    "(k + 1) * 2 = ucast (pll_p pll)" by blast
  have km: "k AND mask 2 = k" using k(1) by (intro and_mask_small) auto
  have kb: "i < 2" if "bit k i" for i
  proof -
    have "bit (k AND mask 2) i" using that by (simp only: km)
    then show ?thesis by (simp add: bit_and_iff bit_mask_iff)
  qed
  have v: "pll_value pll = ?hi OR (ucast (pll_m pll) AND 0x3F OR push_bit 6 (ucast (pll_n pll) AND 0x1FF) OR
      push_bit 16 k OR push_bit 24 (ucast (pll_q pll) AND 0xF))"
    using k(2) by (simp add: pll_value_def rcc_pllcfgr_defs)
  have masks: "(0x3F :: u32) = mask 6" "(0x1FF :: u32) = mask 9" "(0xF :: u32) = mask 4" "(3 :: u32) = mask 2"
    by (simp_all add: mask_eq_exp_minus_1)
  have m: "(ucast (pll_m pll) :: u32) AND mask 6 = ucast (pll_m pll)"
    using assms(1) by (intro and_mask_small) (simp add: word_le_nat_alt unat_ucast_u8)
  have n: "(ucast (pll_n pll) :: u32) AND mask 9 = ucast (pll_n pll)"
    using assms(2) by (intro and_mask_small) (simp add: word_le_nat_alt unat_ucast_u16)
  have "drop_bit 0 (pll_value pll) AND mask 6 = (ucast (pll_m pll) :: u32) AND mask 6"
    unfolding v masks by (rule bit_word_eqI) (auto simp: bit_simps dest: kb simp del: push_bit_of_1)
  then show "drop_bit RCC_PLLCFGR_PLLM_BIT (pll_value pll) AND 0x3F = ucast (pll_m pll)"
    unfolding m masks by (simp add: rcc_pllcfgr_defs)
  have "drop_bit 6 (pll_value pll) AND mask 9 = (ucast (pll_n pll) :: u32) AND mask 9"
    unfolding v masks by (rule bit_word_eqI) (auto simp: bit_simps dest: kb simp del: push_bit_of_1)
  then show "drop_bit RCC_PLLCFGR_PLLN_BIT (pll_value pll) AND 0x1FF = ucast (pll_n pll)"
    unfolding n masks by (simp add: rcc_pllcfgr_defs)
  have "drop_bit 16 (pll_value pll) AND mask 2 = k"
    unfolding v masks by (rule bit_word_eqI) (auto simp: bit_simps dest: kb simp del: push_bit_of_1)
  then show "((drop_bit RCC_PLLCFGR_PLLP_BIT (pll_value pll) AND 0x3) + 1) * 2 = ucast (pll_p pll)"
    unfolding masks using k(3) by (simp add: rcc_pllcfgr_defs)
  have "bit (drop_bit 22 (pll_value pll) AND 1) 0 \<longleftrightarrow> input_src pll \<noteq> HAL_CLOCK_SOURCE_HSI"
    unfolding v masks by (auto simp: bit_simps dest: kb simp del: push_bit_of_1)
  then show "drop_bit RCC_PLLCFGR_SRC_BIT (pll_value pll) AND 0x1 \<noteq> 0 \<longleftrightarrow> input_src pll \<noteq> HAL_CLOCK_SOURCE_HSI"
    by (simp add: rcc_pllcfgr_defs and_one_eq bit_0 flip: odd_iff_mod_2_eq_one)
qed

lemma set_prescalers_fields:
  assumes "h < 16" "p1 < 8" "p2 < 8"
  shows "drop_bit RCC_CFGR_HPRE_BIT (RCC_CFGR (set_prescalers (h, p1, p2) s)) AND 0xF = h"
    "drop_bit RCC_CFGR_PPRE1_BIT (RCC_CFGR (set_prescalers (h, p1, p2) s)) AND 0x7 = p1"
    "drop_bit RCC_CFGR_PPRE2_BIT (RCC_CFGR (set_prescalers (h, p1, p2) s)) AND 0x7 = p2"
    "cfgr_sw (set_prescalers (h, p1, p2) s) = cfgr_sw s" "cfgr_sws (set_prescalers (h, p1, p2) s) = cfgr_sws s"
proof -
  have masks: "(0xF :: u32) = mask 4" "(0x7 :: u32) = mask 3" "(0x3 :: u32) = mask 2"
    by (simp_all add: mask_eq_exp_minus_1)
  have e: "h AND mask 4 = h" "p1 AND mask 3 = p1" "p2 AND mask 3 = p2"
    using assms by (auto intro!: and_mask_small simp: word_less_nat_alt)
  have c: "RCC_CFGR (set_prescalers (h, p1, p2) s) =
      (RCC_CFGR s AND NOT (push_bit 4 (mask 4) OR push_bit 10 (mask 3) OR push_bit 13 (mask 3))) OR
      (push_bit 4 (h AND mask 4) OR push_bit 10 (p1 AND mask 3) OR push_bit 13 (p2 AND mask 3))"
    unfolding e by (simp add: set_prescalers_def Let_def rcc_cfgr_defs mask_eq_exp_minus_1)
  have "drop_bit 4 (RCC_CFGR (set_prescalers (h, p1, p2) s)) AND mask 4 = h AND mask 4"
    "drop_bit 10 (RCC_CFGR (set_prescalers (h, p1, p2) s)) AND mask 3 = p1 AND mask 3"
    "drop_bit 13 (RCC_CFGR (set_prescalers (h, p1, p2) s)) AND mask 3 = p2 AND mask 3"
    unfolding c by (rule bit_word_eqI, auto simp: bit_simps)+
  then show "drop_bit RCC_CFGR_HPRE_BIT (RCC_CFGR (set_prescalers (h, p1, p2) s)) AND 0xF = h"
    "drop_bit RCC_CFGR_PPRE1_BIT (RCC_CFGR (set_prescalers (h, p1, p2) s)) AND 0x7 = p1"
    "drop_bit RCC_CFGR_PPRE2_BIT (RCC_CFGR (set_prescalers (h, p1, p2) s)) AND 0x7 = p2"
    unfolding e masks by (simp_all add: rcc_cfgr_defs)
  have low: "bit (RCC_CFGR (set_prescalers (h, p1, p2) s)) i = bit (RCC_CFGR s) i" if "i < 4" for i
    unfolding c using that by (auto simp: bit_simps)
  show "cfgr_sw (set_prescalers (h, p1, p2) s) = cfgr_sw s"
    unfolding cfgr_sw_def masks by (rule bit_word_eqI) (auto simp: bit_and_iff bit_mask_iff low)
  show "cfgr_sws (set_prescalers (h, p1, p2) s) = cfgr_sws s"
    unfolding cfgr_sws_def masks
    by (rule bit_word_eqI) (auto simp: bit_and_iff bit_mask_iff bit_drop_bit_eq low)
qed

lemma set_prescalers_frame [simp]:
  "RCC_CR (set_prescalers p s) = RCC_CR s" "RCC_PLLCFGR (set_prescalers p s) = RCC_PLLCFGR s"
  "clk_acr (set_prescalers p s) = clk_acr s"
  by (simp_all add: set_prescalers_def Let_def split: prod.split)

lemma flash_set_acr_frame [simp]:
  "RCC_CR (flash_set_acr h s) = RCC_CR s" "RCC_PLLCFGR (flash_set_acr h s) = RCC_PLLCFGR s"
  "RCC_CFGR (flash_set_acr h s) = RCC_CFGR s"
  "clk_acr (flash_set_acr h s) = flash_ws_for h OR ACR_PRFTEN OR ACR_ICEN OR ACR_DCEN"
  by (simp_all add: flash_set_acr_def flash_acr_values_def acr_write_def Let_def)

lemma cfgr_field_kept:
  assumes "RCC_CFGR t AND NOT 0xF = RCC_CFGR s AND NOT 0xF" "4 \<le> n"
  shows "drop_bit n (RCC_CFGR t) AND m = drop_bit n (RCC_CFGR s) AND m"
proof (rule bit_word_eqI)
  fix i
  have b: "bit (RCC_CFGR t AND NOT 0xF) (n + i) = bit (RCC_CFGR s AND NOT 0xF) (n + i)" using assms(1) by simp
  have "\<not> bit (0xF :: u32) (n + i)"
    using assms(2) bit_mask_iff [where 'a = "32 word" and m = 4 and n = "n + i"] by (simp add: mask_eq_exp_minus_1)
  then show "bit (drop_bit n (RCC_CFGR t) AND m) i = bit (drop_bit n (RCC_CFGR s) AND m) i"
    using b by (auto simp: bit_simps dest: bit_imp_le_length)
qed

lemma clock_switch_pll_ok:
  assumes hw: "hw_frame hw" "hw_answers hw" and s: "cr_flag RCC_CR_PLLRDY s"
  obtains t where "clock_switch hw HAL_CLOCK_SOURCE_PLL s = (HAL_OK, t)" "cfgr_sws t = 2" "cfgr_sw t = 2"
    "RCC_PLLCFGR t = RCC_PLLCFGR s" "clk_acr t = clk_acr s"
    "RCC_CFGR t AND NOT 0xF = RCC_CFGR s AND NOT 0xF"
proof -
  let ?s2 = "s\<lparr>RCC_CFGR := RCC_CFGR s AND NOT 0x3 OR 2\<rparr>"
  let ?c = "\<lambda>s. cfgr_sws s \<noteq> 2"
  have "(x AND NOT 3 OR 2) AND 3 = 2" "(x AND NOT 3 OR 2) AND NOT 0xF = x AND NOT 0xF" for x :: u32
    by (simp_all add: bit.conj_disj_distrib2 and.assoc)
  then have sw: "cfgr_sw ?s2 = 2" and hi: "RCC_CFGR ?s2 AND NOT 0xF = RCC_CFGR s AND NOT 0xF"
    by (simp_all add: cfgr_sw_def)
  have cl: "clock_switch hw HAL_CLOCK_SOURCE_PLL s = WAIT_OR_TIMEOUT hw ?c ?s2"
    by (simp add: clock_switch_def Let_def rcc_cfgr_defs source_code_def cfgr_sws_def)
  obtain st t where r: "WAIT_OR_TIMEOUT hw ?c ?s2 = (st, t)" by (cases "WAIT_OR_TIMEOUT hw ?c ?s2")
  have "cr_flag RCC_CR_PLLRDY ?s2" using s by (simp add: cr_flag_def)
  then obtain n where n: "0 < n" "n \<le> CLOCK_READY_TIMEOUT" "cfgr_sws ((hw ^^ n) ?s2) = cfgr_sw ?s2"
    using hw_answersD(4) [OF hw(2)] by (auto simp: answers_within_def)
  have "fst (WAIT_OR_TIMEOUT hw ?c ?s2) = HAL_OK"
    by (rule WAIT_ok [OF n(1,2)]) (use n(3) sw in simp)
  then have st: "st = HAL_OK" unfolding r by simp
  note i = WAIT_inv [OF r, of "\<lambda>t. same_ctl ?s2 t"]
  have k: "same_ctl ?s2 t" using i(1) hw_frame_step(2) [OF hw(1)] same_ctl_trans by blast
  have "cfgr_sws t = 2" using i(2) hw_frame_step(2) [OF hw(1)] same_ctl_trans st by blast
  then show thesis
    using that [of t] cl r st same_ctl_fields [OF k] sw hi by simp
qed

section \<open>The solver is exact\<close>

lemma unat_ucast_32_64: "unat (ucast (x :: u32) :: u64) = unat x"
  using u32_bound [of x] by (simp add: unsigned_ucast_eq take_bit_nat_eq_self)

lemma unat_ucast_32_16: "unat (x :: u32) \<le> 65535 \<Longrightarrow> unat (ucast x :: u16) = unat x"
  by (simp add: unsigned_ucast_eq take_bit_nat_eq_self)

lemma vco_nat: "unat (ucast (t :: u32) * ucast (p :: u32) :: u64) = unat t * unat p"
proof -
  have "unat t * unat p < 2 ^ 32 * 2 ^ 32"
    using u32_bound [of t] u32_bound [of p] by (intro mult_strict_mono) auto
  then show ?thesis by (simp add: unat_word_ariths unat_ucast_32_64)
qed

lemma pll_nearest_q_range: "2 \<le> unat (pll_nearest_q vco) \<and> unat (pll_nearest_q vco) \<le> 15"
proof -
  have "2 \<le> unat (ucast q :: u8) \<and> unat (ucast q :: u8) \<le> 15" if "2 \<le> q" "q \<le> 15" for q :: u32
    using that by (simp add: word_le_nat_alt unsigned_ucast_eq take_bit_nat_eq_self)
  then show ?thesis by (simp add: pll_nearest_q_def Let_def)
qed

lemma solve_pll_at_Some:
  assumes "solve_pll_at vmin t p = Some (n, q)"
  shows "unat n * 1000000 = unat t * unat p \<and> unat vmin \<le> unat n * 1000000 \<and> 50 \<le> unat n \<and>
    unat n \<le> 432 \<and> 2 \<le> unat q \<and> unat q \<le> 15"
proof -
  let ?v = "ucast t * ucast p :: u64" and ?k = "unat t * unat p"
  let ?n = "ucast (?v div ucast PLL_VCO_IN_HZ) :: u32"
  have g: "\<not> (?v < ucast vmin \<or> ?v > ucast PLL_VCO_MAX_HZ)" "\<not> (?n < 50 \<or> ?n > 432)"
      "ucast ?n * ucast PLL_VCO_IN_HZ = ?v" "n = ucast ?n" "q = pll_nearest_q ?v"
    using assms by (auto simp: solve_pll_at_def Let_def split: if_splits)
  have r: "unat vmin \<le> ?k"
    using g(1) by (simp add: word_less_nat_alt vco_nat unat_ucast_32_64)
  have n: "50 \<le> unat ?n" "unat ?n \<le> 432" using g(2) by (simp_all add: word_less_nat_alt)
  have "unat (ucast ?n * ucast PLL_VCO_IN_HZ :: u64) = unat ?n * 1000000"
    unfolding vco_nat by (simp add: pll_consts)
  then have e: "unat ?n * 1000000 = ?k" using g(3) vco_nat [of t p] by simp
  have "unat n = unat ?n" unfolding g(4) by (rule unat_ucast_32_16) (use n in simp)
  then show ?thesis using e r n pll_nearest_q_range g(5) by auto
qed

lemma solve_pll_at_None:
  assumes "solve_pll_at vmin t p = None" "unat vmin \<le> k * 1000000" "50 \<le> k" "k \<le> 432"
  shows "k * 1000000 \<noteq> unat t * unat p"
proof
  assume e: "k * 1000000 = unat t * unat p"
  let ?v = "ucast t * ucast p :: u64"
  let ?n = "ucast (?v div ucast PLL_VCO_IN_HZ) :: u32"
  have v: "unat ?v = k * 1000000" by (simp only: vco_nat e)
  have "unat (?v div ucast PLL_VCO_IN_HZ) = k"
    unfolding unat_div v by (simp add: pll_consts)
  then have n: "unat ?n = k" using assms(4) by (simp add: unsigned_ucast_eq take_bit_nat_eq_self)
  have "unat (ucast ?n * ucast PLL_VCO_IN_HZ :: u64) = k * 1000000"
    unfolding vco_nat n by (simp add: pll_consts)
  then have "ucast ?n * ucast PLL_VCO_IN_HZ = ?v" using v word_unat_eq_iff by metis
  moreover have "\<not> (?v < ucast vmin \<or> ?v > ucast PLL_VCO_MAX_HZ)"
    using assms(2,4) v by (simp add: word_less_nat_alt pll_consts unat_ucast_32_64)
  moreover have "\<not> (?n < 50 \<or> ?n > 432)" using assms(3,4) n by (simp add: word_less_nat_alt)
  ultimately show False using assms(1) by (simp add: solve_pll_at_def Let_def)
qed

lemma solve_pll_loop_unroll:
  "solve_pll_loop v t 2 = (case solve_pll_at v t 2 of Some (n, q) \<Rightarrow> Some (2, n, q)
     | None \<Rightarrow> (case solve_pll_at v t 4 of Some (n, q) \<Rightarrow> Some (4, n, q)
     | None \<Rightarrow> (case solve_pll_at v t 6 of Some (n, q) \<Rightarrow> Some (6, n, q)
     | None \<Rightarrow> (case solve_pll_at v t 8 of Some (n, q) \<Rightarrow> Some (8, n, q) | None \<Rightarrow> None))))"
  by (simp add: solve_pll_loop.simps [of v t 2] solve_pll_loop.simps [of v t 4] solve_pll_loop.simps [of v t 6]
      solve_pll_loop.simps [of v t 8] solve_pll_loop.simps [of v t 10] word_le_nat_alt
      split: option.split prod.split)

lemma solve_pll_loop_Some:
  assumes "solve_pll_loop v t 2 = Some (p, n, q)"
  shows "p \<in> {2, 4, 6, 8} \<and> unat n * 1000000 = unat t * unat p \<and> unat v \<le> unat n * 1000000 \<and>
    50 \<le> unat n \<and> unat n \<le> 432 \<and> 2 \<le> unat q \<and> unat q \<le> 15"
  using assms unfolding solve_pll_loop_unroll
  by (auto dest: solve_pll_at_Some split: option.splits)

lemma solve_pll_loop_None:
  assumes "solve_pll_loop v t 2 = None" "unat v \<le> k * 1000000" "50 \<le> k" "k \<le> 432"
    and "p \<in> {2, 4, 6, 8 :: nat}"
  shows "k * 1000000 \<noteq> unat t * p"
proof -
  have "solve_pll_at v t 2 = None" "solve_pll_at v t 4 = None" "solve_pll_at v t 6 = None" "solve_pll_at v t 8 = None"
    using assms(1) unfolding solve_pll_loop_unroll by (auto split: option.splits)
  from this [THEN solve_pll_at_None, OF assms(2,3,4)] show ?thesis using assms(5) by auto
qed

text \<open>Dividers the manual allows, for a VCO floor and a SYSCLK ceiling.\<close>

definition pll_legal :: "u32 \<Rightarrow> clock_board \<Rightarrow> hal_clock_source \<Rightarrow> u32 \<Rightarrow> nat \<Rightarrow> nat \<Rightarrow> nat \<Rightarrow> bool" where
  "pll_legal vmin b src t m n p \<longleftrightarrow> unat (source_hz b src) = 1000000 * m \<and> 2 \<le> m \<and> m \<le> 63 \<and>
     p \<in> {2, 4, 6, 8} \<and> unat vmin \<le> n * 1000000 \<and> 50 \<le> n \<and> n \<le> 432 \<and> n * 1000000 = unat t * p"

lemma solve_pll_within_Some:
  assumes "solve_pll_within vmin smax b src t = Some pll"
  shows "input_src pll = src \<and> pll_legal vmin b src t (unat (pll_m pll)) (unat (pll_n pll)) (unat (pll_p pll)) \<and>
    2 \<le> unat (pll_q pll) \<and> unat (pll_q pll) \<le> 15 \<and> 0 < unat t \<and> unat t \<le> unat smax"
proof -
  let ?m = "source_hz b src div PLL_VCO_IN_HZ"
  obtain p n q where g: "\<not> (t = 0 \<or> t > smax)" "source_hz b src mod PLL_VCO_IN_HZ = 0"
      "\<not> (?m < 2 \<or> ?m > 63)" "solve_pll_loop vmin t 2 = Some (p, n, q)"
    and pll: "pll = \<lparr>input_src = src, pll_m = ucast ?m, pll_n = n, pll_p = p, pll_q = q\<rparr>"
    using assms by (auto simp: solve_pll_within_def Let_def split: if_splits option.splits)
  have m: "unat ?m = unat (source_hz b src) div 1000000" "2 \<le> unat ?m" "unat ?m \<le> 63"
    using g(3) by (simp_all add: unat_div word_less_nat_alt pll_consts)
  have "unat (source_hz b src mod PLL_VCO_IN_HZ) = 0" using g(2) by simp
  then have "unat (source_hz b src) mod 1000000 = 0" by (simp add: unat_mod pll_consts)
  then have "unat (source_hz b src) = 1000000 * unat ?m" unfolding m(1) by auto
  moreover have "unat (ucast ?m :: u8) = unat ?m"
    using m(3) by (simp add: unsigned_ucast_eq take_bit_nat_eq_self)
  moreover have "0 < unat t" "unat t \<le> unat smax"
    using g(1) by (auto simp: word_less_nat_alt unat_gt_0)
  ultimately show ?thesis using solve_pll_loop_Some [OF g(4)] m pll by (auto simp: pll_legal_def)
qed

lemma solve_pll_within_None:
  assumes "solve_pll_within vmin smax b src t = None" "0 < unat t" "unat t \<le> unat smax"
  shows "\<not> pll_legal vmin b src t m k p"
proof
  assume l: "pll_legal vmin b src t m k p"
  let ?m = "source_hz b src div PLL_VCO_IN_HZ"
  have m: "unat ?m = m" using l by (simp add: unat_div pll_consts pll_legal_def)
  have "unat (source_hz b src mod PLL_VCO_IN_HZ) = 0" using l by (simp add: unat_mod pll_consts pll_legal_def)
  then have z: "source_hz b src mod PLL_VCO_IN_HZ = 0" using unat_eq_0 by blast
  have "\<not> (t = 0 \<or> t > smax)" using assms(2,3) by (auto simp: word_less_nat_alt)
  moreover have "\<not> (?m < 2 \<or> ?m > 63)" using m l by (simp add: word_less_nat_alt pll_legal_def)
  ultimately have "solve_pll_loop vmin t 2 = None"
    using assms(1) z by (simp add: solve_pll_within_def Let_def split: option.splits prod.splits)
  from solve_pll_loop_None [OF this, of k p] show False using l by (simp add: pll_legal_def)
qed

lemma solve_pll_Some:
  assumes "solve_pll b src t = Some pll"
  shows "input_src pll = src \<and> unat (source_hz b src) = 1000000 * unat (pll_m pll) \<and>
    2 \<le> unat (pll_m pll) \<and> unat (pll_m pll) \<le> 63 \<and> pll_p pll \<in> {2, 4, 6, 8} \<and>
    unat (pll_n pll) * 1000000 = unat t * unat (pll_p pll) \<and>
    192 \<le> unat (pll_n pll) \<and> unat (pll_n pll) \<le> 432 \<and> 0 < unat t \<and> unat t \<le> 84000000"
proof -
  have l: "input_src pll = src" "pll_legal PLL_VCO_MIN_HZ b src t (unat (pll_m pll)) (unat (pll_n pll)) (unat (pll_p pll))"
    "0 < unat t" "unat t \<le> 84000000"
    using solve_pll_within_Some [OF assms [unfolded solve_pll_def]] by (simp_all add: pll_consts)
  have "pll_p pll \<in> {2, 4, 6, 8}"
    using l(2) by (auto simp: pll_legal_def word_unat_eq_iff)
  then show ?thesis using l by (auto simp: pll_legal_def pll_consts)
qed

section \<open>From a target frequency to a running clock\<close>

lemma min_div_for_one: "hclk \<le> limit \<Longrightarrow> min_div_for hclk limit = 1"
  by (auto simp: min_div_for_def min_div_loop.simps [of 1])

lemma min_div_for_two:
  assumes "limit < hclk" "hclk div 2 \<le> limit"
  shows "min_div_for hclk limit = 2"
  using assms by (auto simp: min_div_for_def min_div_loop.simps [of 1] min_div_loop.simps [of 2])

definition clock_cfg_hz :: "hal_pll_config \<Rightarrow> hal_clock_config" where
  "clock_cfg_hz pll = \<lparr>clk_source = HAL_CLOCK_SOURCE_PLL, hpre_div = 0, ppre1_div = 0, ppre2_div = 0,
     clk_pll = pll\<rparr>"

lemma default_prescalers:
  assumes "unat t \<le> 84000000"
  shows "bus_prescalers t (clock_cfg_hz pll) = Some (0, 4, 4)"
proof -
  have "min_div_for t 42000000 = 1 \<or> min_div_for t 42000000 = 2"
  proof (cases "t \<le> 42000000")
    case False
    have "t div 2 \<le> 42000000" using assms by (simp add: word_le_nat_alt unat_div)
    with False show ?thesis using min_div_for_two [of 42000000 t] by (simp add: not_le)
  qed (simp add: min_div_for_one)
  moreover have "min_div_for t 84000000 = 1"
    using assms by (intro min_div_for_one) (simp add: word_le_nat_alt)
  ultimately show ?thesis
    by (auto simp: bus_prescalers_def clock_cfg_hz_def Let_def hpre_encode_def ppre_encode_def
        word_less_nat_alt)
qed

lemma pll_freq:
  assumes "unat inp = 1000000 * unat (m :: u8)" "2 \<le> unat m" "unat m \<le> 63"
    and "unat (n :: u16) * 1000000 = unat t * unat (p :: u8)" "unat n \<le> 432" "0 < unat p"
  shows "(inp div ucast m) * ucast n div ucast p = (t :: u32)"
proof -
  have "unat (inp div ucast m) = 1000000" using assms(1,2) by (simp add: unat_div)
  then have "unat ((inp div ucast m) * ucast n) = 1000000 * unat n"
    using assms(5) by (simp add: unat_word_ariths)
  then have "unat ((inp div ucast m) * ucast n div ucast p) = unat t"
    using assms(4,6) by (simp add: unat_div mult.commute [of 1000000])
  then show ?thesis by (simp add: word_unat_eq_iff)
qed

lemma flash_ws_enough: "unat t \<le> 240000000 \<Longrightarrow> unat t \<le> 30000000 * (unat (flash_ws_for t) + 1)"
proof (cases "t = 0")
  case False
  assume le: "unat t \<le> 240000000"
  have "unat (t - 1) = unat t - 1" "0 < unat t" using False by (simp_all add: unat_minus_one unat_gt_0)
  then have w: "unat ((t - 1) div 30000000) = (unat t - 1) div 30000000" by (simp add: unat_div)
  have "(unat t - 1) div 30000000 \<le> 7" using le by linarith
  then have "unat (flash_ws_for t) = (unat t - 1) div 30000000"
    using False w by (simp add: flash_ws_for_def Let_def word_less_nat_alt)
  then show ?thesis using \<open>0 < unat t\<close> by simp
qed simp

lemma init_hz_delivers:
  assumes hw: "hw_frame hw" "hw_answers hw" and on: "on_hsi s"
    and src: "src \<noteq> HAL_CLOCK_SOURCE_PLL" and sol: "solve_pll b src t = Some pll"
  obtains s' where "hal_clock_init_hz b hw src t s = (HAL_OK, s')" "stm32_clock_get_sysclk b s' = t"
    "drop_bit RCC_CFGR_HPRE_BIT (RCC_CFGR s') AND 0xF = 0"
    "drop_bit RCC_CFGR_PPRE1_BIT (RCC_CFGR s') AND 0x7 = 4"
    "drop_bit RCC_CFGR_PPRE2_BIT (RCC_CFGR s') AND 0x7 = 4"
    "clk_acr s' = flash_ws_for t OR ACR_PRFTEN OR ACR_ICEN OR ACR_DCEN" "cfgr_sw s' = 2"
proof -
  note p = solve_pll_Some [OF sol]
  let ?cfg = "clock_cfg_hz pll"
  have pz: "pll_m pll \<noteq> 0" "pll_n pll \<noteq> 0" "pll_p pll \<noteq> 0" "0 < unat (pll_p pll)"
    using p by (auto simp: unat_gt_0)
  have freq: "(source_hz b src div ucast (pll_m pll)) * ucast (pll_n pll) div ucast (pll_p pll) = t"
    using p pz by (intro pll_freq) auto
  have tgt: "target_sysclk_hz b ?cfg = t"
    using pz freq p by (simp add: target_sysclk_hz_def clock_cfg_hz_def)
  have t0: "t \<noteq> 0" using p by auto
  obtain s1 where s1: "pll_start b hw pll s = (HAL_OK, s1)" "on_hsi s1" "RCC_PLLCFGR s1 = pll_value pll"
    "cr_flag RCC_CR_PLLRDY s1"
    by (rule pll_start_ok [OF hw on])
  define s2 where "s2 = set_prescalers (0, 4, 4) (flash_set_acr t s1)"
  have rdy: "cr_flag RCC_CR_PLLRDY s2" using s1(4) by (simp add: s2_def cr_flag_def)
  obtain s' where s': "clock_switch hw HAL_CLOCK_SOURCE_PLL s2 = (HAL_OK, s')" "cfgr_sws s' = 2" "cfgr_sw s' = 2"
    "RCC_PLLCFGR s' = RCC_PLLCFGR s2" "clk_acr s' = clk_acr s2" "RCC_CFGR s' AND NOT 0xF = RCC_CFGR s2 AND NOT 0xF"
    by (rule clock_switch_pll_ok [OF hw rdy])
  have run: "hal_clock_init_hz b hw src t s = (HAL_OK, s')"
    using sol pz s1(1) tgt t0 default_prescalers [of t pll] p s'(1)
    by (simp add: hal_clock_init_hz_def hal_clock_init_def stm32_clock_init_def clock_start_def
        s2_def clock_cfg_hz_def [symmetric] Let_def) (simp add: clock_cfg_hz_def)
  have val: "RCC_PLLCFGR s' = pll_value pll" using s'(4) s1(3) by (simp add: s2_def)
  have "pll_m pll \<le> 63" "pll_n pll \<le> 432" using p by (simp_all add: word_le_nat_alt)
  note f = pll_value_fields [OF this, folded val]
  have vco: "(if drop_bit RCC_PLLCFGR_SRC_BIT (RCC_PLLCFGR s') AND 0x1 \<noteq> 0 then BOARD_HSE_FREQ_HZ b
      else BOARD_HSI_FREQ_HZ b) = source_hz b src"
    using f(4) p src by (cases src) (simp_all add: source_hz_def)
  have sysclk: "stm32_clock_get_sysclk b s' = t"
    using s'(2) p vco f(1-3) freq
    by (simp add: stm32_clock_get_sysclk_def Let_def cfgr_sws_def rcc_cfgr_defs)
  have field: "drop_bit n (RCC_CFGR s') AND m = drop_bit n (RCC_CFGR s2) AND m" if "4 \<le> n" for n m
    using cfgr_field_kept [OF s'(6) that] .
  have bits: "4 \<le> RCC_CFGR_HPRE_BIT" "4 \<le> RCC_CFGR_PPRE1_BIT" "4 \<le> RCC_CFGR_PPRE2_BIT"
    by (simp_all add: rcc_cfgr_defs)
  show thesis
    by (rule that [OF run sysclk _ _ _ _ s'(3)])
      (use s'(5) bits in \<open>simp_all add: field s2_def set_prescalers_fields\<close>)
qed

section \<open>Failing clocks\<close>

lemma wait_keeps:
  assumes "hw_frame hw" "WAIT_OR_TIMEOUT hw c s = (st, t)"
  shows "rest_kept s t" "st = HAL_OK \<or> st = HAL_ERR_TIMEOUT"
  using WAIT_inv [OF assms(2), of "\<lambda>t. rest_kept s t"] hw_frame_step(1) [OF assms(1)] rest_kept_trans
  by blast+

lemma toggles_keep:
  assumes "hw_frame hw"
  shows "toggle_pll_clock hw b s = (st, t) \<Longrightarrow> rest_kept s t \<and> (st = HAL_OK \<or> st = HAL_ERR_TIMEOUT)"
    "toggle_hsi_clock hw b s = (st, t) \<Longrightarrow> rest_kept s t \<and> (st = HAL_OK \<or> st = HAL_ERR_TIMEOUT)"
    "toggle_hse_clock bd hw b s = (st, t) \<Longrightarrow> rest_kept s t \<and> (st = HAL_OK \<or> st = HAL_ERR_TIMEOUT)"
proof -
  have w: "rest_kept s t \<and> (st = HAL_OK \<or> st = HAL_ERR_TIMEOUT)"
    if "rest_kept s u" "WAIT_OR_TIMEOUT hw c (RCC_CR_write v u) = (st, t)" for u v c st t
    using wait_keeps [OF assms that(2)] rest_kept_trans [OF that(1) rest_kept_trans [OF cr_write_kept(1)]] by blast
  show "toggle_pll_clock hw b s = (st, t) \<Longrightarrow> rest_kept s t \<and> (st = HAL_OK \<or> st = HAL_ERR_TIMEOUT)"
    "toggle_hsi_clock hw b s = (st, t) \<Longrightarrow> rest_kept s t \<and> (st = HAL_OK \<or> st = HAL_ERR_TIMEOUT)"
    using w [OF rest_kept_refl] by (auto simp: toggle_pll_clock_def toggle_hsi_clock_def Let_def)
  assume r: "toggle_hse_clock bd hw b s = (st, t)"
  show "rest_kept s t \<and> (st = HAL_OK \<or> st = HAL_ERR_TIMEOUT)"
  proof (cases "b \<and> BOARD_HSE_BYPASS bd \<and> RCC_CR s AND RCC_CR_HSEBYP = 0")
    case True
    obtain st1 t1 where w1: "WAIT_OR_TIMEOUT hw (\<lambda>s. RCC_CR s AND RCC_CR_HSERDY \<noteq> 0)
        (RCC_CR_write (RCC_CR s AND NOT RCC_CR_HSEON) s) = (st1, t1)" by fastforce
    note k = w [OF rest_kept_refl w1]
    show ?thesis
    proof (cases "st1 = HAL_OK")
      case ok: True
      have "rest_kept s (RCC_CR_write (RCC_CR t1 OR RCC_CR_HSEBYP) t1)"
        using k cr_write_kept(1) rest_kept_trans by blast
      from w [OF this] show ?thesis using r True w1 ok by (auto simp: toggle_hse_clock_def Let_def)
    next
      case False
      then show ?thesis using r True w1 k by (auto simp: toggle_hse_clock_def Let_def)
    qed
  next
    case False
    then show ?thesis using r by (cases b) (auto simp: toggle_hse_clock_def Let_def dest: w [OF rest_kept_refl])
  qed
qed

lemma dead_pll:
  assumes "hw_frame hw" "\<And>s. \<not> cr_flag RCC_CR_PLLRDY (hw s)"
  shows "\<exists>t. pll_start b hw pll s = (HAL_ERR_TIMEOUT, t) \<and> clk_acr t = clk_acr s \<and>
    RCC_CFGR t AND NOT 0xC = RCC_CFGR s AND NOT 0xC"
proof -
  let ?src = "if input_src pll = HAL_CLOCK_SOURCE_HSE then toggle_hse_clock b hw True s
        else if input_src pll = HAL_CLOCK_SOURCE_HSI then toggle_hsi_clock hw True s else (HAL_OK, s)"
  obtain st1 s1 where s1: "?src = (st1, s1)" by (cases ?src)
  then have k1: "rest_kept s s1" "st1 = HAL_OK \<or> st1 = HAL_ERR_TIMEOUT"
    using toggles_keep [OF assms(1)] by (auto split: if_splits)
  obtain st2 s2 where s2: "toggle_pll_clock hw False s1 = (st2, s2)" by fastforce
  note k2 = toggles_keep(1) [OF assms(1) s2]
  let ?s3 = "s2\<lparr>RCC_PLLCFGR := pll_value pll\<rparr>"
  obtain st3 s3 where s3: "toggle_pll_clock hw True ?s3 = (st3, s3)" by fastforce
  note k3 = toggles_keep(1) [OF assms(1) s3]
  have dead: "st3 = HAL_ERR_TIMEOUT"
  proof -
    let ?c = "\<lambda>s. (RCC_CR s AND RCC_CR_PLLRDY \<noteq> 0) \<noteq> True"
    have w: "WAIT_OR_TIMEOUT hw ?c (RCC_CR_write (RCC_CR ?s3 OR RCC_CR_PLLON) ?s3) = (st3, s3)"
      using s3 by (simp add: toggle_pll_clock_def Let_def)
    obtain u where "s3 = hw u"
    proof -
      have "\<exists>u. snd (wait_or_timeout hw c n v) = hw u" for c n v
      proof (induction n arbitrary: v rule: less_induct)
        case (less n)
        then show ?case
          by (cases "c (hw v) \<and> n - 1 \<noteq> 0") (subst wait_or_timeout.simps, auto simp: Let_def)+
      qed
      then show thesis using that w unfolding WAIT_OR_TIMEOUT_def by (metis snd_conv)
    qed
    then have "?c s3" using assms(2) [of u] by (simp add: cr_flag_def)
    then show ?thesis using WAIT_inv(2) [OF w, of "\<lambda>_. True"] by blast
  qed
  have start: "pll_start b hw pll s = (if st1 \<noteq> HAL_OK then (st1, s1) else if st2 \<noteq> HAL_OK then (st2, s2)
      else (st3, s3))"
    using s1 s2 s3 unfolding pll_start_def
    by (cases "input_src pll = HAL_CLOCK_SOURCE_HSI")
      (simp_all add: ok_or_return_def Let_def pll_value_def)
  show ?thesis
    using k1 k2 k3 dead unfolding start by (auto simp: rest_kept_def)
qed

text \<open>A clock already running from the PLL: whatever is toggled, the PLL stays on, locked and selected.\<close>

definition on_pll :: "'m rcc_scheme \<Rightarrow> bool" where
  "on_pll s \<longleftrightarrow> cfgr_sw s = 2 \<and> cfgr_sws s = 2 \<and> cr_flag RCC_CR_PLLON s \<and> cr_flag RCC_CR_PLLRDY s"

lemma on_pll_write:
  assumes "on_pll s"
  shows "on_pll (RCC_CR_write (RCC_CR s OR k) s)" "on_pll (RCC_CR_write (RCC_CR s AND NOT RCC_CR_HSEON) s)"
    "on_pll (RCC_CR_write (RCC_CR s AND NOT RCC_CR_PLLON) s)"
proof -
  have "bit (cr_held s) 24"
    using assms by (simp add: on_pll_def cfgr_sws_def cr_held_def Let_def rcc_cfgr_defs rcc_cr_defs bit_simps
        del: push_bit_of_1)
  then show "on_pll (RCC_CR_write (RCC_CR s OR k) s)"
    "on_pll (RCC_CR_write (RCC_CR s AND NOT RCC_CR_HSEON) s)"
    "on_pll (RCC_CR_write (RCC_CR s AND NOT RCC_CR_PLLON) s)"
    using assms
    by (auto simp: on_pll_def rcc_cr_defs cr_flag_bit RCC_CR_write_def Let_def bit_simps cfgr_sw_def cfgr_sws_def
        simp del: push_bit_of_1)
qed

lemma on_pll_hw:
  assumes "hw_frame hw" "\<And>s. on_pll s \<Longrightarrow> cr_flag RCC_CR_PLLRDY (hw s)" "on_pll s"
  shows "on_pll (hw s)"
proof -
  have "same_ctl s (hw s)" "cfgr_sws (hw s) = cfgr_sws s \<or> cfgr_sws (hw s) = cfgr_sw s"
    using assms(1) by (auto simp: hw_frame_def)
  then show ?thesis using assms(2,3) same_ctl_fields [of s "hw s"] by (auto simp: on_pll_def)
qed

lemma on_pll_wait:
  assumes "hw_frame hw" "\<And>s. on_pll s \<Longrightarrow> cr_flag RCC_CR_PLLRDY (hw s)" "on_pll s"
    and "WAIT_OR_TIMEOUT hw c s = (st, t)"
  shows "on_pll t"
  using WAIT_inv(1) [OF assms(4), of on_pll] on_pll_hw [OF assms(1,2)] assms(3) by blast

lemma reinit_refused:
  assumes "hw_frame hw" "\<And>s. on_pll s \<Longrightarrow> cr_flag RCC_CR_PLLRDY (hw s)" "on_pll s"
  shows "\<exists>t. pll_start b hw pll s = (HAL_ERR_TIMEOUT, t) \<and> rest_kept s t \<and> on_pll t"
proof -
  have keep: "on_pll t" if "on_pll s" "WAIT_OR_TIMEOUT hw c s = (st, t)" for s c st t
    using on_pll_wait [OF assms(1,2) that] .
  let ?src = "if input_src pll = HAL_CLOCK_SOURCE_HSE then toggle_hse_clock b hw True s
        else if input_src pll = HAL_CLOCK_SOURCE_HSI then toggle_hsi_clock hw True s else (HAL_OK, s)"
  obtain st1 s1 where s1: "?src = (st1, s1)" by (cases ?src)
  then have k1: "rest_kept s s1" "st1 = HAL_OK \<or> st1 = HAL_ERR_TIMEOUT"
    using toggles_keep [OF assms(1)] by (auto split: if_splits)
  have h: "on_pll (snd (WAIT_OR_TIMEOUT hw c (RCC_CR_write (RCC_CR u OR k) u)))" if "on_pll u" for c u k
    using keep [OF on_pll_write(1) [OF that]] by (metis prod.collapse)
  have "on_pll (snd (toggle_hsi_clock hw True s))"
    using h [OF assms(3)] by (simp add: toggle_hsi_clock_def Let_def)
  moreover have "on_pll (snd (toggle_hse_clock b hw True s))"
  proof -
    obtain st t where w: "WAIT_OR_TIMEOUT hw (\<lambda>s. RCC_CR s AND RCC_CR_HSERDY \<noteq> 0)
        (RCC_CR_write (RCC_CR s AND NOT RCC_CR_HSEON) s) = (st, t)" by fastforce
    have t: "on_pll t" by (rule keep [OF on_pll_write(2) [OF assms(3)] w])
    show ?thesis
      using t h [OF on_pll_write(1) [OF t]] h [OF assms(3)] w
      by (cases "st = HAL_OK") (auto simp: toggle_hse_clock_def Let_def)
  qed
  ultimately have p1: "on_pll s1" using s1 assms(3) by (auto split: if_splits)
  let ?c = "\<lambda>s. (RCC_CR s AND RCC_CR_PLLRDY \<noteq> 0) \<noteq> False"
  let ?w = "RCC_CR_write (RCC_CR s1 AND NOT RCC_CR_PLLON) s1"
  obtain st2 s2 where s2: "WAIT_OR_TIMEOUT hw ?c ?w = (st2, s2)" by (cases "WAIT_OR_TIMEOUT hw ?c ?w")
  have p2: "on_pll s2" by (rule keep [OF on_pll_write(3) [OF p1] s2])
  then have "?c s2" by (simp add: on_pll_def cr_flag_def)
  then have st2: "st2 = HAL_ERR_TIMEOUT" using WAIT_inv(2) [OF s2, of "\<lambda>_. True"] by blast
  have off: "toggle_pll_clock hw False s1 = (HAL_ERR_TIMEOUT, s2)"
    using s2 st2 by (simp add: toggle_pll_clock_def Let_def)
  have "pll_start b hw pll s = (if st1 \<noteq> HAL_OK then (st1, s1) else (HAL_ERR_TIMEOUT, s2))"
    using s1 off unfolding pll_start_def by (simp add: ok_or_return_def)
  then show ?thesis
    using k1 p1 p2 toggles_keep(1) [OF assms(1) off] rest_kept_trans [OF k1(1)] by auto
qed

section \<open>Prescalers\<close>

lemma encode_decode:
  "hpre_encode d = Some h \<Longrightarrow> decode_prescaler h = ucast d \<and> h < 16 \<and> d \<noteq> 0"
  "ppre_encode d = Some p \<Longrightarrow> decode_apb_prescaler p = ucast d \<and> p < 8 \<and> d \<noteq> 0"
  by (auto simp: hpre_encode_def ppre_encode_def decode_prescaler_def decode_apb_prescaler_def split: if_splits)

lemma min_div_loop_spec:
  assumes "d \<in> {1, 2, 4, 8, 16}"
  shows "min_div_loop d hclk limit \<in> {1, 2, 4, 8, 16} \<and>
    (hclk div ucast (min_div_loop d hclk limit) \<le> limit \<or> min_div_loop d hclk limit = 16)"
  using assms
proof (induction d hclk limit rule: min_div_loop.induct)
  case (1 d hclk limit)
  show ?case
  proof (cases "d < 16 \<and> hclk div ucast d > limit")
    case True
    then have "d * 2 \<in> {1, 2, 4, 8, 16}" using 1(2) by (auto simp: word_less_nat_alt)
    then show ?thesis using 1(1) [OF True] True by (simp add: min_div_loop.simps [of d])
  next
    case False
    then have "min_div_loop d hclk limit = d" by (subst min_div_loop.simps) auto
    then show ?thesis using 1(2) False by (auto simp: word_less_nat_alt word_le_nat_alt)
  qed
qed

lemma div_mono_word:
  fixes a b c :: u32
  assumes "b \<le> c" "b \<noteq> 0"
  shows "a div c \<le> a div b"
  using assms by (simp add: word_le_nat_alt unat_div div_le_mono2 unat_gt_0)

lemma ceiling_kept:
  fixes req :: u16 and hclk limit :: u32
  assumes "ppre_encode (if req < min_div_for hclk limit then min_div_for hclk limit else req) = Some p"
  shows "hclk div decode_apb_prescaler p \<le> limit \<or> p = 7"
proof -
  let ?m = "min_div_for hclk limit"
  let ?d = "if req < ?m then ?m else req"
  have e: "decode_apb_prescaler p = ucast ?d" using encode_decode(2) [OF assms] by simp
  have m: "?m \<in> {1, 2, 4, 8, 16}" "hclk div ucast ?m \<le> limit \<or> ?m = 16"
    using min_div_loop_spec [of 1 hclk limit] by (auto simp: min_div_for_def)
  have le: "?m \<le> ?d" by auto
  have "(ucast ?m :: u32) \<le> ucast ?d" using le by (simp add: word_le_nat_alt unat_ucast_u16)
  moreover have "(ucast ?m :: u32) \<noteq> 0" using m(1) by auto
  ultimately have dl: "hclk div ucast ?d \<le> hclk div ucast ?m" by (rule div_mono_word)
  show ?thesis
  proof (cases "?m = 16")
    case True
    have "?d \<in> {1, 2, 4, 8, 16}" using assms by (auto simp: ppre_encode_def split: if_splits)
    then have "?d = 16" using le True by (auto simp: word_le_nat_alt split: if_splits)
    then show ?thesis using assms by (simp add: ppre_encode_def)
  next
    case False
    then have "hclk div ucast ?d \<le> limit" using m(2) dl by (blast intro: order_trans)
    then show ?thesis unfolding e by blast
  qed
qed

text \<open>The dividers that get programmed, and when one of them cannot be.\<close>

lemma bus_prescalers_eq:
  fixes sysclk :: u32 and cfg :: hal_clock_config
  defines "hd0 \<equiv> if hpre_div cfg \<noteq> 0 then hpre_div cfg else 1"
    and "d1 \<equiv> if ppre1_div cfg \<noteq> 0 then ppre1_div cfg else 2"
    and "d2 \<equiv> if ppre2_div cfg \<noteq> 0 then ppre2_div cfg else 2"
  defines "m1 \<equiv> min_div_for (sysclk div ucast hd0) 42000000" and "m2 \<equiv> min_div_for (sysclk div ucast hd0) 84000000"
  shows "bus_prescalers sysclk cfg = (case hpre_encode hd0 of None \<Rightarrow> None | Some h \<Rightarrow>
      (case ppre_encode (if d1 < m1 then m1 else d1) of None \<Rightarrow> None | Some p1 \<Rightarrow>
        (case ppre_encode (if d2 < m2 then m2 else d2) of None \<Rightarrow> None | Some p2 \<Rightarrow> Some (h, p1, p2))))"
  unfolding bus_prescalers_def Let_def assms by (rule refl)

lemma clamped_encodes:
  assumes "ppre_encode (if d < min_div_for c l then min_div_for c l else d) = None"
  shows "d \<notin> {1, 2, 4, 8, 16}"
proof
  assume "d \<in> {1, 2, 4, 8, 16}"
  moreover have "min_div_for c l \<in> {1, 2, 4, 8, 16}"
    using min_div_loop_spec [of 1 c l] by (auto simp: min_div_for_def)
  ultimately show False using assms by (auto simp: ppre_encode_def)
qed

lemma clamped_decodes:
  assumes "ppre_encode (if d < min_div_for c l then min_div_for c l else d) = Some p"
  shows "ucast d \<le> decode_apb_prescaler p" "c div decode_apb_prescaler p \<le> l \<or> p = 7"
proof -
  have "(ucast d :: u32) \<le> ucast (if d < m then m else d)" for d m :: u16
    by (simp add: word_le_nat_alt word_less_nat_alt unat_ucast_u16)
  then show "ucast d \<le> decode_apb_prescaler p" using encode_decode(2) [OF assms] by (simp only:)
  show "c div decode_apb_prescaler p \<le> l \<or> p = 7" by (rule ceiling_kept [OF assms])
qed

lemma ucast_req: "(if d \<noteq> 0 then d else 2) \<notin> {1, 2, 4, 8, 16 :: u16} \<Longrightarrow> d \<notin> {0, 1, 2, 4, 8, 16}"
  by (auto split: if_splits)

section \<open>Properties\<close>

text \<open>C33. The PLL solver is exact and complete. What it returns divides the input to exactly 1 MHz,
  keeps every divider and the VCO (192 to 432 MHz) in the ranges of the manual and hits the target
  to the hertz; it refuses only when no such dividers exist.\<close>

theorem pll_solver_exact:
  "case solve_pll b src t of
     Some pll \<Rightarrow> input_src pll = src \<and> 2 \<le> unat (pll_q pll) \<and> unat (pll_q pll) \<le> 15 \<and>
       pll_legal PLL_VCO_MIN_HZ b src t (unat (pll_m pll)) (unat (pll_n pll)) (unat (pll_p pll))
   | None \<Rightarrow> \<not> (0 < unat t \<and> unat t \<le> 84000000 \<and> (\<exists>m n p. pll_legal PLL_VCO_MIN_HZ b src t m n p))"
  using solve_pll_within_None [of PLL_VCO_MIN_HZ PLL_SYSCLK_MAX_HZ b src t]
    solve_pll_within_Some [of PLL_VCO_MIN_HZ PLL_SYSCLK_MAX_HZ b src t]
  unfolding solve_pll_def
  by (cases "solve_pll_within PLL_VCO_MIN_HZ PLL_SYSCLK_MAX_HZ b src t") (auto simp: PLL_SYSCLK_MAX_HZ_def)

text \<open>C32. From the reset clock, with oscillators and a PLL that answer, a target the solver accepts
  is delivered: the call succeeds, the driver then reads that frequency back, AHB runs at it, both
  APB buses at half, and the flash has a wait state for every started 30 MHz.\<close>

theorem clock_init_hz_delivers:
  assumes "hw_frame hw" "hw_answers hw" "cfgr_sw s = 0" "cfgr_sws s = 0"
    and "src \<noteq> HAL_CLOCK_SOURCE_PLL" "solve_pll b src t = Some pll"
  shows "\<exists>s'. hal_clock_init_hz b hw src t s = (HAL_OK, s') \<and> hal_clock_get_sysclk b s' = t \<and>
    hal_clock_get_bus_clock b 0 s' = t \<and> hal_clock_get_bus_clock b 1 s' = t div 2 \<and>
    hal_clock_get_bus_clock b 2 s' = t div 2 \<and>
    clk_acr s' = flash_ws_for t OR ACR_PRFTEN OR ACR_ICEN OR ACR_DCEN \<and>
    unat t \<le> 30000000 * (unat (flash_ws_for t) + 1)"
proof -
  have on: "on_hsi s" using assms(3,4) by (simp add: on_hsi_def)
  obtain s' where s': "hal_clock_init_hz b hw src t s = (HAL_OK, s')" "stm32_clock_get_sysclk b s' = t"
    "drop_bit RCC_CFGR_HPRE_BIT (RCC_CFGR s') AND 0xF = 0"
    "drop_bit RCC_CFGR_PPRE1_BIT (RCC_CFGR s') AND 0x7 = 4"
    "drop_bit RCC_CFGR_PPRE2_BIT (RCC_CFGR s') AND 0x7 = 4"
    "clk_acr s' = flash_ws_for t OR ACR_PRFTEN OR ACR_ICEN OR ACR_DCEN"
    by (rule init_hz_delivers [OF assms(1,2) on assms(5,6)])
  have "unat t \<le> 30000000 * (unat (flash_ws_for t) + 1)"
    using solve_pll_Some [OF assms(6)] by (intro flash_ws_enough) simp
  then show ?thesis
    using s' by (intro exI [of _ s'])
      (simp add: hal_clock_get_sysclk_def hal_clock_get_bus_clock_def stm32_clock_get_bus_count_def
        stm32_clock_get_bus_clock_def stm32_clock_get_ahbclk_def stm32_clock_get_apb1clk_def
        stm32_clock_get_apb2clk_def decode_prescaler_def decode_apb_prescaler_def word_le_nat_alt)
qed

text \<open>Hardware that answers at the first poll, and the state after reset.\<close>

definition hw_prompt :: "'m rcc_scheme \<Rightarrow> 'm rcc_scheme" where
  "hw_prompt s = s\<lparr>RCC_CR := (RCC_CR s AND NOT cr_status) OR
       (if cr_flag RCC_CR_HSION s then RCC_CR_HSIRDY else 0) OR
       (if cr_flag RCC_CR_HSEON s then RCC_CR_HSERDY else 0) OR
       (if cr_flag RCC_CR_PLLON s then RCC_CR_PLLRDY else 0),
     RCC_CFGR := (RCC_CFGR s AND NOT 0xC) OR push_bit 2 (RCC_CFGR s AND 3)\<rparr>"

definition rcc_reset :: rcc where
  "rcc_reset = \<lparr>RCC_CR = 0x83, RCC_PLLCFGR = 0x24003010, RCC_CFGR = 0, clk_acr = 0\<rparr>"

definition clock_board_8mhz :: clock_board where
  "clock_board_8mhz = \<lparr>BOARD_HSI_FREQ_HZ = 16000000, BOARD_HSE_FREQ_HZ = 8000000, BOARD_HSE_BYPASS = True\<rparr>"

lemma bit_push_1: "bit (push_bit k 1 :: u32) n \<longleftrightarrow> n = k \<and> k < 32"
  by (auto simp: bit_push_bit_iff bit_1_iff simp del: push_bit_of_1)

lemma cr_bits:
  "bit RCC_CR_HSIRDY n \<longleftrightarrow> n = 1" "bit RCC_CR_HSERDY n \<longleftrightarrow> n = 17" "bit RCC_CR_PLLRDY n \<longleftrightarrow> n = 25"
  unfolding rcc_cr_defs bit_push_1 by auto

lemma cr_flags:
  "cr_flag RCC_CR_HSION s \<longleftrightarrow> bit (RCC_CR s) 0" "cr_flag RCC_CR_HSIRDY s \<longleftrightarrow> bit (RCC_CR s) 1"
  "cr_flag RCC_CR_HSEON s \<longleftrightarrow> bit (RCC_CR s) 16" "cr_flag RCC_CR_HSERDY s \<longleftrightarrow> bit (RCC_CR s) 17"
  "cr_flag RCC_CR_PLLON s \<longleftrightarrow> bit (RCC_CR s) 24" "cr_flag RCC_CR_PLLRDY s \<longleftrightarrow> bit (RCC_CR s) 25"
  unfolding rcc_cr_defs cr_flag_bit by rule+

lemma hw_prompt_CR:
  "bit (RCC_CR (hw_prompt s)) n \<longleftrightarrow> (if n = 1 then bit (RCC_CR s) 0 else if n = 17 then bit (RCC_CR s) 16
     else if n = 25 then bit (RCC_CR s) 24 else bit (RCC_CR s) n)"
  by (auto simp: hw_prompt_def cr_status_def cr_flags bit_or_iff bit_and_iff bit_not_iff_eq cr_bits
      dest: bit_imp_le_length)

lemma hw_prompt_CFGR:
  "bit (RCC_CFGR (hw_prompt s)) n \<longleftrightarrow> (if n = 2 then bit (RCC_CFGR s) 0 else if n = 3 then bit (RCC_CFGR s) 1
     else bit (RCC_CFGR s) n)"
proof -
  have m: "(3 :: u32) = mask 2" "(0xC :: u32) = push_bit 2 (mask 2)" by (simp_all add: mask_eq_exp_minus_1)
  have "RCC_CFGR (hw_prompt s) = (RCC_CFGR s AND NOT (push_bit 2 (mask 2))) OR push_bit 2 (RCC_CFGR s AND mask 2)"
    by (simp add: hw_prompt_def m)
  then have "bit (RCC_CFGR (hw_prompt s)) n \<longleftrightarrow> bit (RCC_CFGR s) n \<and> \<not> (2 \<le> n \<and> n - 2 < 2 \<and> n < 32) \<or>
      2 \<le> n \<and> n < 32 \<and> bit (RCC_CFGR s) (n - 2) \<and> n - 2 < 2"
    by (simp only: bit_or_iff bit_and_iff bit_not_iff_eq bit_push_bit_iff bit_mask_iff)
      (auto dest: bit_imp_le_length)
  moreover have "2 \<le> n \<and> n - 2 < 2 \<longleftrightarrow> n = 2 \<or> n = 3" by auto
  ultimately show ?thesis by auto
qed

lemma hw_prompt_flags:
  "cr_flag RCC_CR_HSIRDY (hw_prompt s) = cr_flag RCC_CR_HSION s"
  "cr_flag RCC_CR_HSERDY (hw_prompt s) = cr_flag RCC_CR_HSEON s"
  "cr_flag RCC_CR_PLLRDY (hw_prompt s) = cr_flag RCC_CR_PLLON s"
  "cfgr_sws (hw_prompt s) = cfgr_sw s"
proof -
  show "cr_flag RCC_CR_HSIRDY (hw_prompt s) = cr_flag RCC_CR_HSION s"
    "cr_flag RCC_CR_HSERDY (hw_prompt s) = cr_flag RCC_CR_HSEON s"
    "cr_flag RCC_CR_PLLRDY (hw_prompt s) = cr_flag RCC_CR_PLLON s"
    by (simp_all add: cr_flags hw_prompt_CR)
  have m: "(3 :: u32) = mask 2" by (simp add: mask_eq_exp_minus_1)
  show "cfgr_sws (hw_prompt s) = cfgr_sw s"
    unfolding cfgr_sws_def cfgr_sw_def m
    by (rule bit_word_eqI) (auto simp: bit_and_iff bit_drop_bit_eq bit_mask_iff hw_prompt_CFGR less_2_cases_iff)
qed

lemma hw_prompt_same_ctl: "same_ctl s (hw_prompt s)"
proof -
  have m: "(0xC :: u32) = push_bit 2 (mask 2)" by (simp add: mask_eq_exp_minus_1)
  have "RCC_CFGR (hw_prompt s) AND NOT 0xC = RCC_CFGR s AND NOT 0xC"
    unfolding m by (rule bit_word_eqI) (auto simp: bit_and_iff bit_not_iff_eq bit_push_bit_iff bit_mask_iff hw_prompt_CFGR)
  moreover have "RCC_CR (hw_prompt s) AND NOT cr_status = RCC_CR s AND NOT cr_status"
    unfolding cr_status_def
    by (rule bit_word_eqI) (auto simp: bit_and_iff bit_or_iff bit_not_iff_eq cr_bits hw_prompt_CR)
  moreover have "RCC_PLLCFGR (hw_prompt s) = RCC_PLLCFGR s" "clk_acr (hw_prompt s) = clk_acr s"
    by (simp_all add: hw_prompt_def)
  ultimately show ?thesis by (simp add: same_ctl_def)
qed

lemma answers_at_once: "P (hw s) \<Longrightarrow> answers_within hw P s"
  unfolding answers_within_def by (rule exI [of _ "1 :: nat"]) (simp add: CLOCK_READY_TIMEOUT_def)

lemma hw_prompt_ok: "hw_frame hw_prompt" "hw_answers hw_prompt"
proof -
  show "hw_frame hw_prompt" by (simp add: hw_frame_def hw_prompt_flags hw_prompt_same_ctl)
  show "hw_answers hw_prompt" by (simp add: hw_answers_def hw_prompt_flags answers_at_once)
qed

lemma solve_84mhz: "solve_pll clock_board_8mhz HAL_CLOCK_SOURCE_HSE 84000000 =
    Some \<lparr>input_src = HAL_CLOCK_SOURCE_HSE, pll_m = 8, pll_n = 336, pll_p = 4, pll_q = 7\<rparr>"
  by (simp add: solve_pll_def solve_pll_within_def Let_def source_hz_def clock_board_8mhz_def pll_consts solve_pll_loop_unroll
      solve_pll_at_def pll_nearest_q_def)

theorem clock_init_hz_delivers_witness:
  "\<exists>s'. hal_clock_init_hz clock_board_8mhz hw_prompt HAL_CLOCK_SOURCE_HSE 84000000 rcc_reset = (HAL_OK, s') \<and>
     hal_clock_get_sysclk clock_board_8mhz s' = 84000000 \<and>
     hal_clock_get_bus_clock clock_board_8mhz 1 s' = 42000000"
  using clock_init_hz_delivers [OF hw_prompt_ok _ _ _ solve_84mhz, of rcc_reset]
  by (auto simp: rcc_reset_def cfgr_sw_def cfgr_sws_def)

text \<open>A PLL that never locks costs a bounded wait and nothing else: whatever the configuration
  and the state it is asked from, the call times out before it touches the prescalers, the switch or
  the flash wait states.\<close>

theorem dead_pll_leaves_clock_alone:
  assumes "hw_frame hw" "\<And>s. RCC_CR (hw s) AND RCC_CR_PLLRDY = 0"
    and "clk_source cfg = HAL_CLOCK_SOURCE_PLL"
    and "pll_m (clk_pll cfg) \<noteq> 0" "pll_n (clk_pll cfg) \<noteq> 0" "pll_p (clk_pll cfg) \<noteq> 0"
  shows "\<exists>s'. hal_clock_init b hw (Some cfg) s = (HAL_ERR_TIMEOUT, s') \<and> clk_acr s' = clk_acr s \<and>
    RCC_CFGR s' AND NOT 0xC = RCC_CFGR s AND NOT 0xC"
proof -
  have "\<not> cr_flag RCC_CR_PLLRDY (hw s)" for s using assms(2) by (simp add: cr_flag_def)
  from dead_pll [OF assms(1) this, of b "clk_pll cfg" s] obtain t where
    "pll_start b hw (clk_pll cfg) s = (HAL_ERR_TIMEOUT, t)" "clk_acr t = clk_acr s"
    "RCC_CFGR t AND NOT 0xC = RCC_CFGR s AND NOT 0xC" by blast
  then show ?thesis
    using assms(3-6) by (simp add: hal_clock_init_def stm32_clock_init_def clock_start_def)
qed

definition hw_no_pll :: "rcc \<Rightarrow> rcc" where
  "hw_no_pll s = (hw_prompt s)\<lparr>RCC_CR := RCC_CR (hw_prompt s) AND NOT RCC_CR_PLLRDY\<rparr>"

lemma hw_no_pll_ok: "hw_frame hw_no_pll" "RCC_CR (hw_no_pll s) AND RCC_CR_PLLRDY = 0"
proof -
  have c: "NOT RCC_CR_PLLRDY AND NOT cr_status = NOT cr_status"
    by (rule bit_word_eqI) (auto simp: cr_status_def bit_and_iff bit_or_iff bit_not_iff_eq)
  have "same_ctl s (hw_no_pll s)" for s
    using hw_prompt_same_ctl [of s] by (simp add: hw_no_pll_def same_ctl_def and.assoc c)
  moreover have "cfgr_sws (hw_no_pll s) = cfgr_sw s" for s
    using hw_prompt_flags(4) [of s] by (simp add: hw_no_pll_def cfgr_sws_def)
  ultimately show "hw_frame hw_no_pll" by (simp add: hw_frame_def)
  show "RCC_CR (hw_no_pll s) AND RCC_CR_PLLRDY = 0"
    by (simp add: hw_no_pll_def and.assoc)
qed

theorem dead_pll_leaves_clock_alone_witness:
  "\<exists>s'. hal_clock_init clock_board_8mhz hw_no_pll (Some (clock_cfg_hz
       \<lparr>input_src = HAL_CLOCK_SOURCE_HSE, pll_m = 8, pll_n = 336, pll_p = 4, pll_q = 7\<rparr>)) rcc_reset =
     (HAL_ERR_TIMEOUT, s') \<and> clk_acr s' = 0"
  using dead_pll_leaves_clock_alone [OF hw_no_pll_ok, of "clock_cfg_hz
       \<lparr>input_src = HAL_CLOCK_SOURCE_HSE, pll_m = 8, pll_n = 336, pll_p = 4, pll_q = 7\<rparr>" clock_board_8mhz rcc_reset]
  by (auto simp: clock_cfg_hz_def rcc_reset_def)

text \<open>A second initialisation is refused. While the PLL drives SYSCLK it cannot be switched off,
  so a new PLL configuration always times out, and the clock keeps the frequency it had. That is what
  stage-2 and the application get when they initialise the clock stage-1 already set.\<close>

theorem clock_reinit_times_out:
  assumes "hw_frame hw" "\<And>s. on_pll s \<Longrightarrow> cr_flag RCC_CR_PLLRDY (hw s)" "on_pll s"
    and "solve_pll b src t = Some pll"
  shows "\<exists>s'. hal_clock_init_hz b hw src t s = (HAL_ERR_TIMEOUT, s') \<and>
    hal_clock_get_sysclk b s' = hal_clock_get_sysclk b s"
proof -
  obtain s' where s': "pll_start b hw pll s = (HAL_ERR_TIMEOUT, s')" "rest_kept s s'" "on_pll s'"
    using reinit_refused [OF assms(1-3)] by blast
  have pz: "pll_m pll \<noteq> 0" "pll_n pll \<noteq> 0" "pll_p pll \<noteq> 0"
    using solve_pll_Some [OF assms(4)] by auto
  have "drop_bit 2 (RCC_CFGR s') AND 3 = 2" "drop_bit 2 (RCC_CFGR s) AND 3 = 2"
    using s'(3) assms(3) by (simp_all add: on_pll_def cfgr_sws_def)
  then have "stm32_clock_get_sysclk b s' = stm32_clock_get_sysclk b s"
    using s'(2) by (simp add: stm32_clock_get_sysclk_def Let_def rcc_cfgr_defs rest_kept_def)
  then show ?thesis
    using s'(1) pz assms(4)
    by (simp add: hal_clock_init_hz_def hal_clock_init_def stm32_clock_init_def clock_start_def
        hal_clock_get_sysclk_def)
qed

definition rcc_running :: rcc where
  "rcc_running = \<lparr>RCC_CR = 0x03070083, RCC_PLLCFGR = 0x07415408, RCC_CFGR = 0x0000900A, clk_acr = 0x702\<rparr>"

theorem clock_reinit_times_out_witness:
  "\<exists>s'. hal_clock_init_hz clock_board_8mhz hw_prompt HAL_CLOCK_SOURCE_HSE 84000000 rcc_running =
     (HAL_ERR_TIMEOUT, s') \<and> hal_clock_get_sysclk clock_board_8mhz s' = 84000000"
proof -
  have "on_pll rcc_running"
    by (simp add: on_pll_def cfgr_sw_def cfgr_sws_def cr_flag_def rcc_cr_defs rcc_running_def)
  moreover have "on_pll s \<Longrightarrow> cr_flag RCC_CR_PLLRDY (hw_prompt s)" for s :: rcc
    by (simp add: on_pll_def hw_prompt_flags)
  moreover have "hal_clock_get_sysclk clock_board_8mhz rcc_running = 84000000"
    by (simp add: hal_clock_get_sysclk_def stm32_clock_get_sysclk_def Let_def rcc_running_def
        clock_board_8mhz_def rcc_cfgr_defs rcc_pllcfgr_defs)
  ultimately show ?thesis
    using clock_reinit_times_out [OF hw_prompt_ok(1) _ _ solve_84mhz, of rcc_running] by simp
qed

text \<open>No configuration can overclock a bus. Whatever dividers are asked for, those programmed are
  legal, decode to what was meant, never divide less than asked for, and keep APB1 at or under 42 MHz
  and APB2 at or under 84 MHz, unless the field is already at its largest divider.\<close>

theorem bus_ceilings:
  "case bus_prescalers sysclk cfg of
     Some (h, p1, p2) \<Rightarrow>
       decode_prescaler h = ucast (if hpre_div cfg \<noteq> 0 then hpre_div cfg else 1) \<and>
       ucast (if ppre1_div cfg \<noteq> 0 then ppre1_div cfg else 2) \<le> decode_apb_prescaler p1 \<and>
       ucast (if ppre2_div cfg \<noteq> 0 then ppre2_div cfg else 2) \<le> decode_apb_prescaler p2 \<and>
       (sysclk div decode_prescaler h div decode_apb_prescaler p1 \<le> 42000000 \<or> p1 = 7) \<and>
       (sysclk div decode_prescaler h div decode_apb_prescaler p2 \<le> 84000000 \<or> p2 = 7)
   | None \<Rightarrow> hpre_div cfg \<notin> {0, 1, 2, 4, 8, 16, 64, 128, 256, 512} \<or>
       ppre1_div cfg \<notin> {0, 1, 2, 4, 8, 16} \<or> ppre2_div cfg \<notin> {0, 1, 2, 4, 8, 16}"
proof (cases "hpre_encode (if hpre_div cfg \<noteq> 0 then hpre_div cfg else 1)")
  case None
  then have "hpre_div cfg \<notin> {0, 1, 2, 4, 8, 16, 64, 128, 256, 512}"
    by (auto simp: hpre_encode_def split: if_splits)
  then show ?thesis unfolding bus_prescalers_eq None by simp
next
  case (Some h)
  let ?hd = "if hpre_div cfg \<noteq> 0 then hpre_div cfg else 1"
  let ?c = "sysclk div ucast ?hd"
  let ?e = "\<lambda>d l. ppre_encode (if d < min_div_for ?c l then min_div_for ?c l else d)"
  let ?d1 = "if ppre1_div cfg \<noteq> 0 then ppre1_div cfg else 2" and ?d2 = "if ppre2_div cfg \<noteq> 0 then ppre2_div cfg else 2"
  have h: "decode_prescaler h = ucast ?hd" using encode_decode(1) [OF Some] by simp
  consider "?e ?d1 42000000 = None" | p1 where "?e ?d1 42000000 = Some p1" "?e ?d2 84000000 = None"
    | p1 p2 where "?e ?d1 42000000 = Some p1" "?e ?d2 84000000 = Some p2"
    by (meson not_Some_eq)
  then show ?thesis
  proof cases
    case 1
    from ucast_req [OF clamped_encodes [OF 1]] show ?thesis unfolding bus_prescalers_eq Some option.case 1 by blast
  next
    case 2
    from ucast_req [OF clamped_encodes [OF 2(2)]] show ?thesis unfolding bus_prescalers_eq Some option.case 2 by blast
  next
    case 3
    note k = clamped_decodes [OF 3(1)] clamped_decodes [OF 3(2)]
    show ?thesis unfolding bus_prescalers_eq Some 3 option.case prod.case h using k by blast
  qed
qed

text \<open>The APB readers divide SYSCLK, not AHB: with AHB at half speed they report twice the truth.\<close>

lemma apb_readers_ignore_ahb_divider:
  "hal_clock_get_bus_clock clock_board_8mhz 0 (rcc_reset\<lparr>RCC_CFGR := 0x80\<rparr>) = 8000000"
  "hal_clock_get_bus_clock clock_board_8mhz 1 (rcc_reset\<lparr>RCC_CFGR := 0x80\<rparr>) = 16000000"
  by (simp_all add: hal_clock_get_bus_clock_def stm32_clock_get_bus_count_def stm32_clock_get_bus_clock_def
      stm32_clock_get_ahbclk_def stm32_clock_get_apb1clk_def stm32_clock_get_sysclk_def Let_def
      clock_board_8mhz_def rcc_cfgr_defs decode_prescaler_def decode_apb_prescaler_def word_le_nat_alt)

end
