(* ===== verification/Clock_F7.thy ===== *)
theory Clock_F7
  imports Clock
begin

text \<open>
  The STM32F7 clock driver, src/vendor/stm32/clock/clock_f7.c. The register layout, the toggles,
  the encoders and the readers are the F4's, token for token, and are the F4's definitions here;
  its own are the voltage scale and over-drive sequence, the choice of the APB dividers and the
  ranges of the solver. The power controller's registers extend the RCC record; the hardware
  may move its two ready flags as well.
\<close>

section \<open>Registers\<close>

record rcc_f7 = rcc +
  RCC_APB1ENR :: u32
  PWR_CR1 :: u32
  PWR_CSR1 :: u32

definition PWR_CR1_VOS_Msk :: u32 where "PWR_CR1_VOS_Msk = push_bit 14 0x3"
definition PWR_CR1_VOS_SCALE1 :: u32 where "PWR_CR1_VOS_SCALE1 = push_bit 14 0x3"
definition PWR_CR1_ODEN :: u32 where "PWR_CR1_ODEN = push_bit 16 1"
definition PWR_CR1_ODSWEN :: u32 where "PWR_CR1_ODSWEN = push_bit 17 1"
definition PWR_CSR1_ODRDY :: u32 where "PWR_CSR1_ODRDY = push_bit 16 1"
definition PWR_CSR1_ODSWRDY :: u32 where "PWR_CSR1_ODSWRDY = push_bit 17 1"
definition RCC_APB1ENR_PWREN :: u32 where "RCC_APB1ENR_PWREN = push_bit 28 1"
definition FLASH_ACR_LATENCY_Msk :: u32 where "FLASH_ACR_LATENCY_Msk = 0xF"
definition F7_ACR_PRFTEN :: u32 where "F7_ACR_PRFTEN = push_bit 8 1"
definition F7_ACR_ARTEN :: u32 where "F7_ACR_ARTEN = push_bit 9 1"

lemmas pwr_defs = PWR_CR1_VOS_Msk_def PWR_CR1_VOS_SCALE1_def PWR_CR1_ODEN_def PWR_CR1_ODSWEN_def
  PWR_CSR1_ODRDY_def PWR_CSR1_ODSWRDY_def RCC_APB1ENR_PWREN_def

section \<open>The parts shared with the F4\<close>

definition f7_toggle_hse_clock ::
    "clock_board \<Rightarrow> ('m rcc_scheme \<Rightarrow> 'm rcc_scheme) \<Rightarrow> bool \<Rightarrow> 'm rcc_scheme \<Rightarrow> hal_status \<times> 'm rcc_scheme" where
  "f7_toggle_hse_clock b hw state s = toggle_hse_clock b hw state s"

definition f7_toggle_hsi_clock ::
    "('m rcc_scheme \<Rightarrow> 'm rcc_scheme) \<Rightarrow> bool \<Rightarrow> 'm rcc_scheme \<Rightarrow> hal_status \<times> 'm rcc_scheme" where
  "f7_toggle_hsi_clock hw state s = toggle_hsi_clock hw state s"

definition f7_toggle_pll_clock ::
    "('m rcc_scheme \<Rightarrow> 'm rcc_scheme) \<Rightarrow> bool \<Rightarrow> 'm rcc_scheme \<Rightarrow> hal_status \<times> 'm rcc_scheme" where
  "f7_toggle_pll_clock hw state s = toggle_pll_clock hw state s"

definition f7_ppre_encode :: "u16 \<Rightarrow> u32 option" where
  "f7_ppre_encode d = ppre_encode d"

definition f7_flash_ws_for :: "u32 \<Rightarrow> u32" where
  "f7_flash_ws_for hclk = flash_ws_for hclk"

definition f7_clock_switch ::
    "('m rcc_scheme \<Rightarrow> 'm rcc_scheme) \<Rightarrow> hal_clock_source \<Rightarrow> 'm rcc_scheme \<Rightarrow> hal_status \<times> 'm rcc_scheme" where
  "f7_clock_switch hw src s = clock_switch hw src s"

text \<open>The reader checks its divisors; a zero divisor reads as 0 Hz either way.\<close>

definition f7_clock_get_sysclk :: "clock_board \<Rightarrow> 'm rcc_scheme \<Rightarrow> u32" where
  "f7_clock_get_sysclk b s =
     (let sws = drop_bit RCC_CFGR_SWS_BIT (RCC_CFGR s) AND 0x3 in
      if sws = 0 then BOARD_HSI_FREQ_HZ b
      else if sws = 1 then BOARD_HSE_FREQ_HZ b
      else if sws = 2 then
        let m = drop_bit RCC_PLLCFGR_PLLM_BIT (RCC_PLLCFGR s) AND 0x3F;
            n = drop_bit RCC_PLLCFGR_PLLN_BIT (RCC_PLLCFGR s) AND 0x1FF;
            p = ((drop_bit RCC_PLLCFGR_PLLP_BIT (RCC_PLLCFGR s) AND 0x3) + 1) * 2;
            src = drop_bit RCC_PLLCFGR_SRC_BIT (RCC_PLLCFGR s) AND 0x1;
            vco_in = (if src \<noteq> 0 then BOARD_HSE_FREQ_HZ b else BOARD_HSI_FREQ_HZ b)
        in if m = 0 \<or> p = 0 then 0 else (vco_in div m) * n div p
      else 0)"

definition f7_decode_prescaler :: "u32 \<Rightarrow> u32" where
  "f7_decode_prescaler v =
     (if v = 0x8 then 2 else if v = 0x9 then 4 else if v = 0xA then 8
      else if v = 0xB then 16 else if v = 0xC then 64 else if v = 0xD then 128
      else if v = 0xE then 256 else if v = 0xF then 512 else 1)"

definition f7_decode_apb_prescaler :: "u32 \<Rightarrow> u32" where
  "f7_decode_apb_prescaler v =
     (if v = 0x4 then 2 else if v = 0x5 then 4 else if v = 0x6 then 8 else if v = 0x7 then 16 else 1)"

definition f7_clock_get_ahbclk :: "clock_board \<Rightarrow> 'm rcc_scheme \<Rightarrow> u32" where
  "f7_clock_get_ahbclk b s =
     f7_clock_get_sysclk b s div f7_decode_prescaler (drop_bit RCC_CFGR_HPRE_BIT (RCC_CFGR s) AND 0xF)"

definition f7_clock_get_apb1clk :: "clock_board \<Rightarrow> 'm rcc_scheme \<Rightarrow> u32" where
  "f7_clock_get_apb1clk b s =
     f7_clock_get_sysclk b s div f7_decode_apb_prescaler (drop_bit RCC_CFGR_PPRE1_BIT (RCC_CFGR s) AND 0x7)"

definition f7_clock_get_apb2clk :: "clock_board \<Rightarrow> 'm rcc_scheme \<Rightarrow> u32" where
  "f7_clock_get_apb2clk b s =
     f7_clock_get_sysclk b s div f7_decode_apb_prescaler (drop_bit RCC_CFGR_PPRE2_BIT (RCC_CFGR s) AND 0x7)"

definition f7_clock_get_bus_count :: u8 where
  "f7_clock_get_bus_count = 3"

definition f7_clock_get_bus_clock :: "clock_board \<Rightarrow> u8 \<Rightarrow> 'm rcc_scheme \<Rightarrow> u32" where
  "f7_clock_get_bus_clock b bus s =
     (if bus = 0 then f7_clock_get_ahbclk b s
      else if bus = 1 then f7_clock_get_apb1clk b s
      else if bus = 2 then f7_clock_get_apb2clk b s
      else 0)"

section \<open>Bringing a clock up\<close>

definition pll_output_hz :: "clock_board \<Rightarrow> hal_pll_config \<Rightarrow> u32" where
  "pll_output_hz b p =
     (if pll_m p = 0 \<or> pll_p p = 0 then 0
      else let inp = (if input_src p = HAL_CLOCK_SOURCE_HSE then BOARD_HSE_FREQ_HZ b else BOARD_HSI_FREQ_HZ b)
           in (inp div ucast (pll_m p)) * ucast (pll_n p) div ucast (pll_p p))"

definition f7_power_up :: "'m rcc_f7_scheme \<Rightarrow> 'm rcc_f7_scheme" where
  "f7_power_up s =
     (let s1 = s\<lparr>RCC_APB1ENR := RCC_APB1ENR s OR RCC_APB1ENR_PWREN\<rparr>
      in s1\<lparr>PWR_CR1 := (PWR_CR1 s1 AND NOT PWR_CR1_VOS_Msk) OR PWR_CR1_VOS_SCALE1\<rparr>)"

text \<open>Any PLL input but HSE starts HSI, while the PLL takes HSE for any input but HSI.\<close>

definition f7_pll_start ::
    "clock_board \<Rightarrow> ('m rcc_scheme \<Rightarrow> 'm rcc_scheme) \<Rightarrow> hal_pll_config \<Rightarrow> 'm rcc_scheme \<Rightarrow>
     hal_status \<times> 'm rcc_scheme" where
  "f7_pll_start b hw pll s =
     ok_or_return
       (if input_src pll = HAL_CLOCK_SOURCE_HSE then f7_toggle_hse_clock b hw True s
        else f7_toggle_hsi_clock hw True s)
       (\<lambda>s. ok_or_return (f7_toggle_pll_clock hw False s)
       (\<lambda>s. let s1 = s\<lparr>RCC_PLLCFGR := 0\<rparr>;
                s2 = s1\<lparr>RCC_PLLCFGR := (if input_src pll = HAL_CLOCK_SOURCE_HSI
                       then RCC_PLLCFGR s1 AND NOT RCC_PLLCFGR_SRC
                       else RCC_PLLCFGR s1 OR RCC_PLLCFGR_SRC)\<rparr>;
                s3 = s2\<lparr>RCC_PLLCFGR := RCC_PLLCFGR s2 OR (RCC_PLLCFGR_PLLM (pll_m pll) OR
                       RCC_PLLCFGR_PLLN (pll_n pll) OR RCC_PLLCFGR_PLLP (pll_p pll) OR
                       RCC_PLLCFGR_PLLQ (pll_q pll))\<rparr>
            in f7_toggle_pll_clock hw True s3))"

definition f7_clock_start ::
    "clock_board \<Rightarrow> ('m rcc_scheme \<Rightarrow> 'm rcc_scheme) \<Rightarrow> hal_clock_config \<Rightarrow> 'm rcc_scheme \<Rightarrow>
     hal_status \<times> 'm rcc_scheme" where
  "f7_clock_start b hw cfg s =
     (case clk_source cfg of
        HAL_CLOCK_SOURCE_HSE \<Rightarrow> f7_toggle_hse_clock b hw True s
      | HAL_CLOCK_SOURCE_HSI \<Rightarrow> f7_toggle_hsi_clock hw True s
      | HAL_CLOCK_SOURCE_PLL \<Rightarrow> f7_pll_start b hw (clk_pll cfg) s)"

definition f7_target_hclk :: "clock_board \<Rightarrow> hal_clock_config \<Rightarrow> u32" where
  "f7_target_hclk b cfg =
     (if clk_source cfg = HAL_CLOCK_SOURCE_PLL then pll_output_hz b (clk_pll cfg)
      else if clk_source cfg = HAL_CLOCK_SOURCE_HSE then BOARD_HSE_FREQ_HZ b else BOARD_HSI_FREQ_HZ b)"

definition f7_over_drive ::
    "('m rcc_f7_scheme \<Rightarrow> 'm rcc_f7_scheme) \<Rightarrow> hal_clock_config \<Rightarrow> u32 \<Rightarrow> 'm rcc_f7_scheme \<Rightarrow>
     hal_status \<times> 'm rcc_f7_scheme" where
  "f7_over_drive hw cfg hclk s =
     (if clk_source cfg = HAL_CLOCK_SOURCE_PLL \<and> hclk > 180000000 then
        ok_or_return
          (WAIT_OR_TIMEOUT hw (\<lambda>s. PWR_CSR1 s AND PWR_CSR1_ODRDY = 0)
             (s\<lparr>PWR_CR1 := PWR_CR1 s OR PWR_CR1_ODEN\<rparr>))
          (\<lambda>s. WAIT_OR_TIMEOUT hw (\<lambda>s. PWR_CSR1 s AND PWR_CSR1_ODSWRDY = 0)
             (s\<lparr>PWR_CR1 := PWR_CR1 s OR PWR_CR1_ODSWEN\<rparr>))
      else (HAL_OK, s))"

definition f7_set_acr :: "u32 \<Rightarrow> 'm rcc_scheme \<Rightarrow> 'm rcc_scheme" where
  "f7_set_acr hclk s =
     s\<lparr>clk_acr := (clk_acr s AND NOT FLASH_ACR_LATENCY_Msk) OR F7_ACR_PRFTEN OR F7_ACR_ARTEN OR
        f7_flash_ws_for hclk\<rparr>"

text \<open>The (PPRE1, PPRE2) fields, or a divider no field can hold.\<close>

definition f7_prescalers :: "u32 \<Rightarrow> hal_clock_config \<Rightarrow> (u32 \<times> u32) option" where
  "f7_prescalers hclk cfg =
     (let ppre1 = (if hclk \<le> 54000000 then 0 else if hclk \<le> 108000000 then 4 else 5);
          ppre2 = (if hclk \<le> 108000000 then 0 else 4)
      in case (if ppre1_div cfg \<noteq> 0 then
                 (case f7_ppre_encode (ppre1_div cfg) of None \<Rightarrow> None
                  | Some req \<Rightarrow> Some (if hclk div ucast (ppre1_div cfg) \<le> 54000000 then req else ppre1))
               else Some ppre1) of
           None \<Rightarrow> None
         | Some ppre1 \<Rightarrow>
             (case (if ppre2_div cfg \<noteq> 0 then
                      (case f7_ppre_encode (ppre2_div cfg) of None \<Rightarrow> None
                       | Some req \<Rightarrow> Some (if hclk div ucast (ppre2_div cfg) \<le> 108000000 then req else ppre2))
                    else Some ppre2) of
                None \<Rightarrow> None
              | Some ppre2 \<Rightarrow> Some (ppre1, ppre2)))"

definition f7_set_prescalers :: "u32 \<times> u32 \<Rightarrow> 'm rcc_scheme \<Rightarrow> 'm rcc_scheme" where
  "f7_set_prescalers p s = set_prescalers (0, fst p, snd p) s"

definition f7_clock_init ::
    "clock_board \<Rightarrow> ('m rcc_f7_scheme \<Rightarrow> 'm rcc_f7_scheme) \<Rightarrow> hal_clock_config \<Rightarrow> 'm rcc_f7_scheme \<Rightarrow>
     hal_status \<times> 'm rcc_f7_scheme" where
  "f7_clock_init b hw cfg s =
     (if clk_source cfg = HAL_CLOCK_SOURCE_PLL \<and>
         (pll_m (clk_pll cfg) = 0 \<or> pll_n (clk_pll cfg) = 0 \<or> pll_p (clk_pll cfg) = 0)
      then (HAL_ERR_INVALID_ARG, s)
      else ok_or_return (f7_clock_start b hw cfg (f7_power_up s))
        (\<lambda>s. let hclk = f7_target_hclk b cfg in
             ok_or_return (f7_over_drive hw cfg hclk s)
        (\<lambda>s. let s1 = (if clk_source cfg = HAL_CLOCK_SOURCE_PLL then f7_set_acr hclk s else s) in
             case f7_prescalers hclk cfg of
               None \<Rightarrow> (HAL_ERR_INVALID_ARG, s1)
             | Some p \<Rightarrow>
                 ok_or_return (f7_clock_switch hw (clk_source cfg) (f7_set_prescalers p s1))
                   (\<lambda>s. (HAL_OK, if clk_source cfg \<noteq> HAL_CLOCK_SOURCE_PLL then f7_set_acr hclk s else s)))))"

section \<open>The solver and the public layer\<close>

definition F7_PLL_VCO_MIN_HZ :: u32 where "F7_PLL_VCO_MIN_HZ = 100000000"
definition F7_PLL_SYSCLK_MAX_HZ :: u32 where "F7_PLL_SYSCLK_MAX_HZ = 216000000"

definition f7_solve_pll :: "clock_board \<Rightarrow> hal_clock_source \<Rightarrow> u32 \<Rightarrow> hal_pll_config option" where
  "f7_solve_pll = solve_pll_within F7_PLL_VCO_MIN_HZ F7_PLL_SYSCLK_MAX_HZ"

definition f7_hal_clock_init ::
    "clock_board \<Rightarrow> ('m rcc_f7_scheme \<Rightarrow> 'm rcc_f7_scheme) \<Rightarrow> hal_clock_config option \<Rightarrow> 'm rcc_f7_scheme \<Rightarrow>
     hal_status \<times> 'm rcc_f7_scheme" where
  "f7_hal_clock_init b hw cfg s =
     (case cfg of None \<Rightarrow> (HAL_ERR_INVALID_ARG, s) | Some cfg \<Rightarrow> f7_clock_init b hw cfg s)"

definition f7_hal_clock_init_hz ::
    "clock_board \<Rightarrow> ('m rcc_f7_scheme \<Rightarrow> 'm rcc_f7_scheme) \<Rightarrow> hal_clock_source \<Rightarrow> u32 \<Rightarrow> 'm rcc_f7_scheme \<Rightarrow>
     hal_status \<times> 'm rcc_f7_scheme" where
  "f7_hal_clock_init_hz b hw pll_input target_hz s =
     (case f7_solve_pll b pll_input target_hz of
        None \<Rightarrow> (HAL_ERR_INVALID_ARG, s)
      | Some pll \<Rightarrow> f7_hal_clock_init b hw (Some (clock_cfg_hz pll)) s)"

section \<open>What the power controller may do\<close>

definition pwr_flag :: "u32 \<Rightarrow> 'm rcc_f7_scheme \<Rightarrow> bool" where "pwr_flag k s \<longleftrightarrow> PWR_CSR1 s AND k \<noteq> 0"
definition pwr_ctl :: "u32 \<Rightarrow> 'm rcc_f7_scheme \<Rightarrow> bool" where "pwr_ctl k s \<longleftrightarrow> PWR_CR1 s AND k \<noteq> 0"

text \<open>A poll leaves the control register alone, and a ready flag stays while its enable bit is set.\<close>

definition f7_frame :: "('m rcc_f7_scheme \<Rightarrow> 'm rcc_f7_scheme) \<Rightarrow> bool" where
  "f7_frame hw \<longleftrightarrow> hw_frame hw \<and> (\<forall>s. PWR_CR1 (hw s) = PWR_CR1 s \<and>
     (pwr_ctl PWR_CR1_ODEN s \<and> pwr_flag PWR_CSR1_ODRDY s \<longrightarrow> pwr_flag PWR_CSR1_ODRDY (hw s)) \<and>
     (pwr_ctl PWR_CR1_ODSWEN s \<and> pwr_flag PWR_CSR1_ODSWRDY s \<longrightarrow> pwr_flag PWR_CSR1_ODSWRDY (hw s)))"

definition over_drive_on :: "'m rcc_f7_scheme \<Rightarrow> bool" where
  "over_drive_on s \<longleftrightarrow> pwr_ctl PWR_CR1_ODEN s \<and> pwr_flag PWR_CSR1_ODRDY s \<and>
     pwr_ctl PWR_CR1_ODSWEN s \<and> pwr_flag PWR_CSR1_ODSWRDY s"

definition vos_scale1 :: "'m rcc_f7_scheme \<Rightarrow> bool" where
  "vos_scale1 s \<longleftrightarrow> PWR_CR1 s AND PWR_CR1_VOS_Msk = PWR_CR1_VOS_SCALE1"

section \<open>Invariants through the bring-up\<close>

lemma ok_or_return_inv:
  "P (snd r) \<Longrightarrow> (\<And>s. P s \<Longrightarrow> P (snd (k s))) \<Longrightarrow> P (snd (ok_or_return r k))"
  by (cases r) (auto simp: ok_or_return_def)

lemma WAIT_snd:
  assumes "\<And>s. P s \<Longrightarrow> P (hw s)" "P s"
  shows "P (snd (WAIT_OR_TIMEOUT hw c s))"
  using WAIT_inv(1) [OF prod.collapse [symmetric], where P = P] assms by blast

lemma f7_pll_start_inv:
  assumes hw: "\<And>s. P s \<Longrightarrow> P (hw s)" and cr: "\<And>v s. P s \<Longrightarrow> P (RCC_CR_write v s)"
    and pll: "\<And>v s. P s \<Longrightarrow> P (s\<lparr>RCC_PLLCFGR := v\<rparr>)" and s: "P s"
  shows "P (snd (f7_pll_start b hw p s))"
proof -
  have w: "P (snd (WAIT_OR_TIMEOUT hw c s))" if "P s" for c s
    by (rule WAIT_snd [where P = P]) (use hw that in auto)
  have hsi: "P (snd (f7_toggle_hsi_clock hw st s))" if "P s" for s st
    unfolding f7_toggle_hsi_clock_def toggle_hsi_clock_def Let_def by (rule w [OF cr [OF that]])
  have plc: "P (snd (f7_toggle_pll_clock hw st s))" if "P s" for s st
    unfolding f7_toggle_pll_clock_def toggle_pll_clock_def Let_def by (rule w [OF cr [OF that]])
  have byp: "P (snd (ok_or_return (WAIT_OR_TIMEOUT hw c (RCC_CR_write v s)) (\<lambda>s. (HAL_OK, RCC_CR_write (f s) s))))"
    if "P s" for s v c f
    by (rule ok_or_return_inv) (use w cr that in auto)
  have hse: "P (snd (f7_toggle_hse_clock b hw True s))" if "P s" for s
    unfolding f7_toggle_hse_clock_def toggle_hse_clock_def Let_def if_True
    by (rule ok_or_return_inv) (use byp w cr that in auto)
  show ?thesis
    unfolding f7_pll_start_def Let_def
    by (rule ok_or_return_inv, use hse hsi s in simp, rule ok_or_return_inv, rule plc, assumption, rule plc)
      (use pll in auto)
qed

lemma f7_frame_simps:
  assumes "f7_frame hw"
  shows "hw_frame hw" "PWR_CR1 (hw s) = PWR_CR1 s" "pwr_ctl k (hw s) = pwr_ctl k s"
    "vos_scale1 (hw s) = vos_scale1 s"
    "pwr_ctl PWR_CR1_ODEN s \<Longrightarrow> pwr_flag PWR_CSR1_ODRDY s \<Longrightarrow> pwr_flag PWR_CSR1_ODRDY (hw s)"
    "over_drive_on s \<Longrightarrow> over_drive_on (hw s)"
  using assms by (auto simp: f7_frame_def pwr_ctl_def vos_scale1_def over_drive_on_def)

text \<open>Before the switch: SYSCLK stays on HSI at voltage scale 1, whatever fails.\<close>

definition f7_before :: "'m rcc_f7_scheme \<Rightarrow> bool" where
  "f7_before s \<longleftrightarrow> on_hsi s \<and> vos_scale1 s"

lemma f7_before_hw: "f7_frame hw \<Longrightarrow> f7_before s \<Longrightarrow> f7_before (hw s)"
  using hw_frame_step(3) [of hw s] by (simp add: f7_before_def f7_frame_simps)

lemma f7_before_write:
  "f7_before s \<Longrightarrow> f7_before (RCC_CR_write v s)" "f7_before s \<Longrightarrow> f7_before (s\<lparr>RCC_PLLCFGR := v\<rparr>)"
  "f7_before s \<Longrightarrow> f7_before (s\<lparr>clk_acr := v\<rparr>)"
  by (simp_all add: f7_before_def on_hsi_def cfgr_sw_def cfgr_sws_def vos_scale1_def RCC_CR_write_def Let_def)

lemma f7_before_ctl:
  assumes "f7_before s" "k = PWR_CR1_ODEN \<or> k = PWR_CR1_ODSWEN"
  shows "f7_before (s\<lparr>PWR_CR1 := PWR_CR1 s OR k\<rparr>)" "pwr_ctl k (s\<lparr>PWR_CR1 := PWR_CR1 s OR k\<rparr>)"
proof -
  have "k AND PWR_CR1_VOS_Msk = 0" "k \<noteq> 0" using assms(2) by (auto simp: pwr_defs)
  then have "(PWR_CR1 s OR k) AND PWR_CR1_VOS_Msk = PWR_CR1 s AND PWR_CR1_VOS_Msk" "(PWR_CR1 s OR k) AND k \<noteq> 0"
    unfolding bit.conj_disj_distrib2 by (simp_all add: or_eq_0_iff)
  then show "f7_before (s\<lparr>PWR_CR1 := PWR_CR1 s OR k\<rparr>)" "pwr_ctl k (s\<lparr>PWR_CR1 := PWR_CR1 s OR k\<rparr>)"
    using assms(1) by (simp_all add: f7_before_def on_hsi_def cfgr_sw_def cfgr_sws_def vos_scale1_def pwr_ctl_def)
qed

lemma f7_over_drive_outcome:
  assumes fr: "f7_frame hw" and s: "f7_before s" and r: "f7_over_drive hw cfg hclk s = (st, t)"
  shows "f7_before t" "st = HAL_OK \<Longrightarrow> clk_source cfg = HAL_CLOCK_SOURCE_PLL \<Longrightarrow> hclk > 180000000 \<Longrightarrow> over_drive_on t"
proof -
  let ?c1 = "\<lambda>s. PWR_CSR1 s AND PWR_CSR1_ODRDY = 0" and ?c2 = "\<lambda>s. PWR_CSR1 s AND PWR_CSR1_ODSWRDY = 0"
  let ?s1 = "s\<lparr>PWR_CR1 := PWR_CR1 s OR PWR_CR1_ODEN\<rparr>"
  have "f7_before t \<and> (st = HAL_OK \<and> clk_source cfg = HAL_CLOCK_SOURCE_PLL \<and> hclk > 180000000 \<longrightarrow> over_drive_on t)"
  proof (cases "clk_source cfg = HAL_CLOCK_SOURCE_PLL \<and> hclk > 180000000")
    case True
    obtain st1 t1 where w1: "WAIT_OR_TIMEOUT hw ?c1 ?s1 = (st1, t1)" by fastforce
    have k1: "f7_before t1" "pwr_ctl PWR_CR1_ODEN t1"
      using WAIT_inv(1) [OF w1, of "\<lambda>t. f7_before t \<and> pwr_ctl PWR_CR1_ODEN t"] f7_before_ctl [OF s]
        f7_before_hw [OF fr] f7_frame_simps(3) [OF fr] by blast+
    let ?s2 = "t1\<lparr>PWR_CR1 := PWR_CR1 t1 OR PWR_CR1_ODSWEN\<rparr>"
    show ?thesis
    proof (cases "st1 = HAL_OK")
      case ok: True
      have rdy: "pwr_flag PWR_CSR1_ODRDY ?s2" "pwr_ctl PWR_CR1_ODEN ?s2"
        using WAIT_inv(2) [OF w1, of "\<lambda>_. True"] ok k1(2)
        by (auto simp: pwr_flag_def pwr_ctl_def bit.conj_disj_distrib2 or_eq_0_iff)
      have w2: "WAIT_OR_TIMEOUT hw ?c2 ?s2 = (st, t)"
        using r True w1 ok by (simp add: f7_over_drive_def)
      let ?P = "\<lambda>t. f7_before t \<and> pwr_ctl PWR_CR1_ODEN t \<and> pwr_ctl PWR_CR1_ODSWEN t \<and> pwr_flag PWR_CSR1_ODRDY t"
      have "?P t"
        using WAIT_inv(1) [OF w2, of ?P] f7_before_ctl [OF k1(1)] rdy f7_before_hw [OF fr] f7_frame_simps(3,5) [OF fr]
        by blast
      then show ?thesis
        using WAIT_inv(2) [OF w2, of "\<lambda>_. True"] by (auto simp: over_drive_on_def pwr_flag_def)
    next
      case False
      then show ?thesis using r True w1 k1 by (simp add: f7_over_drive_def)
    qed
  next
    case False
    then show ?thesis using r s by (auto simp: f7_over_drive_def)
  qed
  then show "f7_before t" "st = HAL_OK \<Longrightarrow> clk_source cfg = HAL_CLOCK_SOURCE_PLL \<Longrightarrow> hclk > 180000000 \<Longrightarrow> over_drive_on t"
    by blast+
qed

section \<open>Dividers and latency\<close>

lemma f7_decoders [simp]: "f7_decode_prescaler v = decode_prescaler v" "f7_decode_apb_prescaler v = decode_apb_prescaler v"
  by (simp_all add: f7_decode_prescaler_def decode_prescaler_def f7_decode_apb_prescaler_def decode_apb_prescaler_def)

lemma f7_get_sysclk_eq [simp]: "f7_clock_get_sysclk b s = stm32_clock_get_sysclk b s"
  by (simp add: f7_clock_get_sysclk_def stm32_clock_get_sysclk_def Let_def)

lemma f7_bus_clock_eq: "f7_clock_get_bus_clock b i s = stm32_clock_get_bus_clock b i s"
  by (simp add: f7_clock_get_bus_clock_def stm32_clock_get_bus_clock_def f7_clock_get_ahbclk_def
      stm32_clock_get_ahbclk_def f7_clock_get_apb1clk_def stm32_clock_get_apb1clk_def
      f7_clock_get_apb2clk_def stm32_clock_get_apb2clk_def)

lemma flash_ws_le: "unat (flash_ws_for h) \<le> 7"
  by (simp add: flash_ws_for_def Let_def word_less_nat_alt)

lemma f7_set_acr_latency: "clk_acr (f7_set_acr h s) AND FLASH_ACR_LATENCY_Msk = flash_ws_for h"
proof -
  have "flash_ws_for h AND mask 4 = flash_ws_for h"
    using flash_ws_le [of h] by (intro and_mask_small) simp
  moreover have "(0xF :: u32) = mask 4" by (simp add: mask_eq_exp_minus_1)
  moreover have "F7_ACR_PRFTEN AND mask 4 = 0" "F7_ACR_ARTEN AND mask 4 = 0"
    by (simp_all add: F7_ACR_PRFTEN_def F7_ACR_ARTEN_def mask_eq_exp_minus_1)
  ultimately show ?thesis
    by (simp add: f7_set_acr_def FLASH_ACR_LATENCY_Msk_def f7_flash_ws_for_def bit.conj_disj_distrib2 and.assoc)
qed

lemma f7_set_acr_frame [simp]:
  "RCC_CR (f7_set_acr h s) = RCC_CR s" "RCC_CFGR (f7_set_acr h s) = RCC_CFGR s" "RCC_PLLCFGR (f7_set_acr h s) = RCC_PLLCFGR s"
  by (simp_all add: f7_set_acr_def)

lemma f7_auto_dividers:
  fixes h :: u32
  assumes "unat h \<le> 216000000"
  shows "unat (h div decode_apb_prescaler (if h \<le> 54000000 then 0 else if h \<le> 108000000 then 4 else 5)) \<le> 54000000"
    "unat (h div decode_apb_prescaler (if h \<le> 108000000 then 0 else 4)) \<le> 108000000"
  using assms by (auto simp: decode_apb_prescaler_def word_le_nat_alt unat_div)

text \<open>One bus: the divider asked for when it is legal, else the driver's own.\<close>

lemma f7_request_kept:
  assumes "(if d \<noteq> 0 then (case f7_ppre_encode d of None \<Rightarrow> None
      | Some req \<Rightarrow> Some (if h div ucast d \<le> lim then req else auto)) else Some auto) = Some p"
    and "unat (h div decode_apb_prescaler auto) \<le> unat lim" "auto < 8"
  shows "unat (h div decode_apb_prescaler p) \<le> unat lim" "p < 8"
  using assms encode_decode(2) [of d]
  by (auto simp: f7_ppre_encode_def word_le_nat_alt split: if_splits option.splits)

lemma f7_prescalers_ceilings:
  assumes "f7_prescalers h cfg = Some (p1, p2)" "unat h \<le> 216000000"
  shows "unat (h div decode_apb_prescaler p1) \<le> 54000000" "unat (h div decode_apb_prescaler p2) \<le> 108000000"
    "p1 < 8" "p2 < 8"
proof -
  let ?a1 = "if h \<le> 54000000 then 0 else if h \<le> 108000000 then 4 else (5 :: u32)"
  let ?a2 = "if h \<le> 108000000 then 0 else (4 :: u32)"
  let ?r = "\<lambda>d lim auto. if d \<noteq> 0 then (case f7_ppre_encode d of None \<Rightarrow> None
      | Some req \<Rightarrow> Some (if h div ucast d \<le> lim then req else auto)) else Some auto"
  have two: "x = Some p1 \<and> y = Some p2"
    if "(case x of None \<Rightarrow> None | Some a \<Rightarrow> (case y of None \<Rightarrow> None | Some b \<Rightarrow> Some (a, b))) = Some (p1, p2)"
    for x y :: "u32 option"
    using that by (auto split: option.splits)
  have r: "?r (ppre1_div cfg) 54000000 ?a1 = Some p1 \<and> ?r (ppre2_div cfg) 108000000 ?a2 = Some p2"
    by (rule two) (use assms(1) in \<open>simp only: f7_prescalers_def Let_def\<close>)
  note d = f7_auto_dividers [OF assms(2)]
  have "unat (54000000 :: u32) = 54000000" "unat (108000000 :: u32) = 108000000" "?a1 < 8" "?a2 < 8" by simp_all
  note n = this
  show "unat (h div decode_apb_prescaler p1) \<le> 54000000" "p1 < 8"
    using f7_request_kept [OF conjunct1 [OF r]] d(1) n by metis+
  show "unat (h div decode_apb_prescaler p2) \<le> 108000000" "p2 < 8"
    using f7_request_kept [OF conjunct2 [OF r]] d(2) n by metis+
qed

section \<open>A whole bring-up\<close>

text \<open>Hardware that answers: the F4's law, a locked PLL stays locked, and the power controller's
  ready flags follow their enables.\<close>

definition f7_answers :: "('m rcc_f7_scheme \<Rightarrow> 'm rcc_f7_scheme) \<Rightarrow> bool" where
  "f7_answers hw \<longleftrightarrow> hw_answers hw \<and> (\<forall>s.
     (cr_flag RCC_CR_PLLON s \<and> cr_flag RCC_CR_PLLRDY s \<longrightarrow> cr_flag RCC_CR_PLLRDY (hw s)) \<and>
     (pwr_ctl PWR_CR1_ODEN s \<longrightarrow> answers_within hw (pwr_flag PWR_CSR1_ODRDY) s) \<and>
     (pwr_ctl PWR_CR1_ODSWEN s \<longrightarrow> answers_within hw (pwr_flag PWR_CSR1_ODSWRDY) s))"

definition pll_locked :: "'m rcc_f7_scheme \<Rightarrow> 'm rcc_f7_scheme \<Rightarrow> bool" where
  "pll_locked s t \<longleftrightarrow> same_ctl s t \<and> cr_flag RCC_CR_PLLON t \<and> cr_flag RCC_CR_PLLRDY t"

lemma pll_locked_hw:
  assumes "f7_frame hw" "f7_answers hw" "pll_locked s t"
  shows "pll_locked s (hw t)"
proof -
  have "same_ctl t (hw t)" using assms(1) by (auto simp: f7_frame_def hw_frame_def)
  moreover from this have "cr_flag RCC_CR_PLLON (hw t) = cr_flag RCC_CR_PLLON t" by (rule same_ctl_fields(6))
  ultimately show ?thesis
    using assms(2,3) same_ctl_trans [of s t "hw t"] by (simp add: pll_locked_def f7_answers_def)
qed

lemma pwr_wait_ok:
  assumes "f7_frame hw" "f7_answers hw" "pll_locked s u" "answers_within hw (pwr_flag k) u"
  obtains t where "WAIT_OR_TIMEOUT hw (\<lambda>s. PWR_CSR1 s AND k = 0) u = (HAL_OK, t)" "pll_locked s t"
proof -
  obtain n where n: "0 < n" "n \<le> CLOCK_READY_TIMEOUT" "pwr_flag k ((hw ^^ n) u)"
    using assms(4) by (auto simp: answers_within_def)
  have ok: "fst (WAIT_OR_TIMEOUT hw (\<lambda>s. PWR_CSR1 s AND k = 0) u) = HAL_OK"
    by (rule WAIT_ok [OF n(1,2)]) (use n(3) in \<open>simp add: pwr_flag_def\<close>)
  have "pll_locked s (snd (WAIT_OR_TIMEOUT hw (\<lambda>s. PWR_CSR1 s AND k = 0) u))"
    by (rule WAIT_snd [where P = "pll_locked s"]) (use pll_locked_hw [OF assms(1,2)] assms(3) in auto)
  then show thesis using that ok by (metis prod.collapse)
qed

lemma pll_locked_pwr [simp]:
  "pll_locked s (u\<lparr>PWR_CR1 := v\<rparr>) = pll_locked s u" "pwr_ctl k (u\<lparr>PWR_CR1 := v OR k\<rparr>) \<longleftrightarrow> k \<noteq> 0"
proof -
  have "(v OR k) AND k = k" by (rule bit_word_eqI) (auto simp: bit_simps)
  then show "pwr_ctl k (u\<lparr>PWR_CR1 := v OR k\<rparr>) \<longleftrightarrow> k \<noteq> 0" by (simp add: pwr_ctl_def)
qed (simp add: pll_locked_def same_ctl_def cr_flag_def)

lemma f7_over_drive_ok:
  assumes fr: "f7_frame hw" "f7_answers hw" and s: "cr_flag RCC_CR_PLLON s" "cr_flag RCC_CR_PLLRDY s"
  obtains t where "f7_over_drive hw cfg h s = (HAL_OK, t)" "pll_locked s t"
proof (cases "clk_source cfg = HAL_CLOCK_SOURCE_PLL \<and> h > 180000000")
  case True
  have l: "pll_locked s (s\<lparr>PWR_CR1 := PWR_CR1 s OR PWR_CR1_ODEN\<rparr>)" using s by (simp add: pll_locked_def same_ctl_def cr_flag_def)
  have a: "answers_within hw (pwr_flag PWR_CSR1_ODRDY) u" if "pwr_ctl PWR_CR1_ODEN u" for u
    using fr(2) that by (simp add: f7_answers_def)
  have b: "answers_within hw (pwr_flag PWR_CSR1_ODSWRDY) u" if "pwr_ctl PWR_CR1_ODSWEN u" for u
    using fr(2) that by (simp add: f7_answers_def)
  have c: "pwr_ctl PWR_CR1_ODEN (u\<lparr>PWR_CR1 := v OR PWR_CR1_ODEN\<rparr>)"
    "pwr_ctl PWR_CR1_ODSWEN (u\<lparr>PWR_CR1 := v OR PWR_CR1_ODSWEN\<rparr>)" for u v
    by (simp_all only: pll_locked_pwr) (simp_all add: pwr_defs)
  obtain t1 where t1: "WAIT_OR_TIMEOUT hw (\<lambda>s. PWR_CSR1 s AND PWR_CSR1_ODRDY = 0)
      (s\<lparr>PWR_CR1 := PWR_CR1 s OR PWR_CR1_ODEN\<rparr>) = (HAL_OK, t1)" "pll_locked s t1"
    by (rule pwr_wait_ok [OF fr l a [OF c(1)]])
  have l2: "pll_locked s (t1\<lparr>PWR_CR1 := PWR_CR1 t1 OR PWR_CR1_ODSWEN\<rparr>)" using t1(2) by simp
  obtain t where t: "WAIT_OR_TIMEOUT hw (\<lambda>s. PWR_CSR1 s AND PWR_CSR1_ODSWRDY = 0)
      (t1\<lparr>PWR_CR1 := PWR_CR1 t1 OR PWR_CR1_ODSWEN\<rparr>) = (HAL_OK, t)" "pll_locked s t"
    by (rule pwr_wait_ok [OF fr l2 b [OF c(2)]])
  show thesis by (rule that [OF _ t(2)]) (use True t1(1) t(1) in \<open>simp add: f7_over_drive_def\<close>)
next
  case False
  show thesis
    by (rule that [of s]) (use False s in \<open>auto simp: f7_over_drive_def pll_locked_def\<close>)
qed

lemma f7_solve_pll_Some:
  assumes "f7_solve_pll b src t = Some pll"
  shows "input_src pll = src \<and> unat (source_hz b src) = 1000000 * unat (pll_m pll) \<and>
    2 \<le> unat (pll_m pll) \<and> unat (pll_m pll) \<le> 63 \<and> pll_p pll \<in> {2, 4, 6, 8} \<and>
    unat (pll_n pll) * 1000000 = unat t * unat (pll_p pll) \<and>
    100 \<le> unat (pll_n pll) \<and> unat (pll_n pll) \<le> 432 \<and> 0 < unat t \<and> unat t \<le> 216000000"
proof -
  have l: "input_src pll = src" "pll_legal F7_PLL_VCO_MIN_HZ b src t (unat (pll_m pll)) (unat (pll_n pll)) (unat (pll_p pll))"
    "0 < unat t" "unat t \<le> 216000000"
    using solve_pll_within_Some [OF assms [unfolded f7_solve_pll_def]] by (simp_all add: F7_PLL_SYSCLK_MAX_HZ_def)
  have "pll_p pll \<in> {2, 4, 6, 8}"
    using l(2) by (auto simp: pll_legal_def word_unat_eq_iff)
  then show ?thesis using l by (auto simp: pll_legal_def F7_PLL_VCO_MIN_HZ_def)
qed

lemma f7_power_up_frame [simp]:
  "RCC_CR (f7_power_up s) = RCC_CR s" "RCC_CFGR (f7_power_up s) = RCC_CFGR s"
  "cfgr_sw (f7_power_up s) = cfgr_sw s" "cfgr_sws (f7_power_up s) = cfgr_sws s"
  "on_hsi (f7_power_up s) = on_hsi s" "vos_scale1 (f7_power_up s)"
  by (simp_all add: f7_power_up_def Let_def cfgr_sw_def cfgr_sws_def on_hsi_def vos_scale1_def pwr_defs
      bit.conj_disj_distrib2 and.assoc)

lemma f7_pll_start_eq:
  "input_src pll \<noteq> HAL_CLOCK_SOURCE_PLL \<Longrightarrow> f7_pll_start b hw pll s = pll_start b hw pll s"
  by (cases "input_src pll")
    (simp_all add: f7_pll_start_def pll_start_def f7_toggle_hse_clock_def f7_toggle_hsi_clock_def f7_toggle_pll_clock_def)

lemma f7_hz_prescalers:
  "f7_prescalers t (clock_cfg_hz pll) = Some (if t \<le> 54000000 then 0 else if t \<le> 108000000 then 4 else 5,
     if t \<le> 108000000 then 0 else 4)"
  by (simp add: f7_prescalers_def clock_cfg_hz_def Let_def)

text \<open>SYSCLK is switched to the locked PLL: what is read back afterwards.\<close>

lemma f7_switched:
  assumes hw: "f7_frame hw" "f7_answers hw" and src: "src \<noteq> HAL_CLOCK_SOURCE_PLL"
    and sol: "f7_solve_pll b src t = Some pll" and pl: "cr_flag RCC_CR_PLLRDY s" "RCC_PLLCFGR s = pll_value pll"
    and p: "p1 < 8" "p2 < 8"
  obtains s' where "f7_clock_switch hw HAL_CLOCK_SOURCE_PLL (f7_set_prescalers (p1, p2) s) = (HAL_OK, s')"
    "f7_clock_get_bus_clock b 0 s' = t" "f7_clock_get_bus_clock b 1 s' = t div decode_apb_prescaler p1"
    "f7_clock_get_bus_clock b 2 s' = t div decode_apb_prescaler p2" "f7_clock_get_sysclk b s' = t"
    "clk_acr s' = clk_acr s" "cfgr_sws s' = 2"
proof -
  note q = f7_solve_pll_Some [OF sol]
  let ?s2 = "set_prescalers (0, p1, p2) s"
  have rdy: "cr_flag RCC_CR_PLLRDY ?s2" using pl(1) by (simp add: cr_flag_def)
  have hwa: "hw_frame hw" "hw_answers hw" using hw by (simp_all add: f7_frame_def f7_answers_def)
  obtain s' where s': "clock_switch hw HAL_CLOCK_SOURCE_PLL ?s2 = (HAL_OK, s')" "cfgr_sws s' = 2" "cfgr_sw s' = 2"
    "RCC_PLLCFGR s' = RCC_PLLCFGR ?s2" "clk_acr s' = clk_acr ?s2" "RCC_CFGR s' AND NOT 0xF = RCC_CFGR ?s2 AND NOT 0xF"
    by (rule clock_switch_pll_ok [OF hwa rdy])
  have val: "RCC_PLLCFGR s' = pll_value pll" using s'(4) pl(2) by simp
  have "pll_m pll \<le> 63" "pll_n pll \<le> 432" "0 < unat (pll_p pll)" using q by (auto simp: word_le_nat_alt)
  note f = pll_value_fields [OF this(1,2), folded val]
  have vco: "(if drop_bit RCC_PLLCFGR_SRC_BIT (RCC_PLLCFGR s') AND 0x1 \<noteq> 0 then BOARD_HSE_FREQ_HZ b
      else BOARD_HSI_FREQ_HZ b) = source_hz b src"
    using f(4) q src by (cases src) (simp_all add: source_hz_def)
  have freq: "(source_hz b src div ucast (pll_m pll)) * ucast (pll_n pll) div ucast (pll_p pll) = t"
    using q \<open>0 < unat (pll_p pll)\<close> by (intro pll_freq) auto
  have sysclk: "stm32_clock_get_sysclk b s' = t"
    using s'(2) q vco f(1-3) freq
    by (simp add: stm32_clock_get_sysclk_def Let_def cfgr_sws_def rcc_cfgr_defs)
  have field: "drop_bit n (RCC_CFGR s') AND m = drop_bit n (RCC_CFGR ?s2) AND m" if "4 \<le> n" for n m
    using cfgr_field_kept [OF s'(6) that] .
  have bits: "4 \<le> RCC_CFGR_HPRE_BIT" "4 \<le> RCC_CFGR_PPRE1_BIT" "4 \<le> RCC_CFGR_PPRE2_BIT"
    by (simp_all add: rcc_cfgr_defs)
  show thesis
    by (rule that [of s'])
      (use s' sysclk bits p in \<open>simp_all add: f7_clock_switch_def f7_set_prescalers_def f7_bus_clock_eq
        stm32_clock_get_bus_clock_def stm32_clock_get_ahbclk_def stm32_clock_get_apb1clk_def
        stm32_clock_get_apb2clk_def field set_prescalers_fields decode_prescaler_def\<close>)
qed

lemma f7_init_hz_delivers:
  assumes hw: "f7_frame hw" "f7_answers hw" and on: "on_hsi s"
    and src: "src \<noteq> HAL_CLOCK_SOURCE_PLL" and sol: "f7_solve_pll b src t = Some pll"
  obtains s' where "f7_hal_clock_init_hz b hw src t s = (HAL_OK, s')" "f7_clock_get_sysclk b s' = t"
    "f7_clock_get_bus_clock b 0 s' = t"
    "f7_clock_get_bus_clock b 1 s' = t div (if t \<le> 54000000 then 1 else if t \<le> 108000000 then 2 else 4)"
    "f7_clock_get_bus_clock b 2 s' = t div (if t \<le> 108000000 then 1 else 2)"
    "clk_acr s' AND FLASH_ACR_LATENCY_Msk = flash_ws_for t" "cfgr_sws s' = 2"
proof -
  note p = f7_solve_pll_Some [OF sol]
  let ?cfg = "clock_cfg_hz pll"
  let ?p1 = "if t \<le> 54000000 then 0 else if t \<le> 108000000 then 4 else (5 :: u32)"
  let ?p2 = "if t \<le> 108000000 then 0 else (4 :: u32)"
  have pz: "pll_m pll \<noteq> 0" "pll_n pll \<noteq> 0" "pll_p pll \<noteq> 0" "0 < unat (pll_p pll)"
    using p by (auto simp: unat_gt_0)
  have freq: "(source_hz b src div ucast (pll_m pll)) * ucast (pll_n pll) div ucast (pll_p pll) = t"
    using p pz by (intro pll_freq) auto
  have tgt: "f7_target_hclk b ?cfg = t"
    using pz freq p by (simp add: f7_target_hclk_def pll_output_hz_def clock_cfg_hz_def Let_def source_hz_def)
  have hwa: "hw_frame hw" "hw_answers hw" using hw by (simp_all add: f7_frame_def f7_answers_def)
  have on1: "on_hsi (f7_power_up s)" using on by simp
  obtain s1 where s1: "pll_start b hw pll (f7_power_up s) = (HAL_OK, s1)" "RCC_PLLCFGR s1 = pll_value pll"
    "cr_flag RCC_CR_PLLRDY s1" "cr_flag RCC_CR_PLLON s1"
    by (rule pll_start_ok [OF hwa on1])
  obtain s2 where s2: "f7_over_drive hw ?cfg t s1 = (HAL_OK, s2)" "pll_locked s1 s2"
    by (rule f7_over_drive_ok [OF hw s1(4,3)])
  have l: "cr_flag RCC_CR_PLLRDY (f7_set_acr t s2)" "RCC_PLLCFGR (f7_set_acr t s2) = pll_value pll"
    using s2(2) s1(2) by (simp_all add: pll_locked_def same_ctl_def cr_flag_def)
  have p8: "?p1 < 8" "?p2 < 8" by simp_all
  obtain s' where s': "f7_clock_switch hw HAL_CLOCK_SOURCE_PLL (f7_set_prescalers (?p1, ?p2) (f7_set_acr t s2)) = (HAL_OK, s')"
    "f7_clock_get_bus_clock b 0 s' = t" "f7_clock_get_bus_clock b 1 s' = t div decode_apb_prescaler ?p1"
    "f7_clock_get_bus_clock b 2 s' = t div decode_apb_prescaler ?p2" "f7_clock_get_sysclk b s' = t"
    "clk_acr s' = clk_acr (f7_set_acr t s2)" "cfgr_sws s' = 2"
    by (rule f7_switched [OF hw src sol l p8])
  have src': "clk_source ?cfg = HAL_CLOCK_SOURCE_PLL" "clk_pll ?cfg = pll" "input_src pll \<noteq> HAL_CLOCK_SOURCE_PLL"
    using p src by (simp_all add: clock_cfg_hz_def)
  have run: "f7_hal_clock_init_hz b hw src t s = (HAL_OK, s')"
    using sol pz s1(1) s2(1) tgt s'(1) src' f7_hz_prescalers [of t pll]
    by (simp add: f7_hal_clock_init_hz_def f7_hal_clock_init_def f7_clock_init_def f7_clock_start_def
        f7_pll_start_eq Let_def del: if_split)
  show thesis
    by (rule that [OF run s'(5,2) _ _ _ s'(7)])
      (use s'(3,4,6) f7_set_acr_latency [of t s2] in \<open>simp_all add: decode_apb_prescaler_def split: if_splits\<close>)
qed

section \<open>Every outcome of a bring-up\<close>

lemma f7_switch_keeps:
  assumes fr: "f7_frame hw" and r: "f7_clock_switch hw src s = (st, t)"
  shows "clk_acr t = clk_acr s" "over_drive_on s \<Longrightarrow> over_drive_on t" "vos_scale1 t = vos_scale1 s"
proof -
  let ?P = "\<lambda>t. clk_acr t = clk_acr s \<and> vos_scale1 t = vos_scale1 s \<and> (over_drive_on s \<longrightarrow> over_drive_on t)"
  have hw: "?P (hw t)" if "?P t" for t
    using that f7_frame_simps(4,6) [OF fr] hw_frame_step(2) [OF f7_frame_simps(1) [OF fr], of t] same_ctl_fields(3)
    by metis
  have st: "?P (s\<lparr>RCC_CFGR := v\<rparr>)" for v
    by (simp add: vos_scale1_def over_drive_on_def pwr_ctl_def pwr_flag_def)
  have "?P (snd (f7_clock_switch hw src s))"
    unfolding f7_clock_switch_def clock_switch_def Let_def
    by (rule WAIT_snd [where P = ?P], erule hw) (use st in auto)
  then show "clk_acr t = clk_acr s" "over_drive_on s \<Longrightarrow> over_drive_on t" "vos_scale1 t = vos_scale1 s"
    using r by simp_all
qed

lemma f7_set_acr_before: "f7_before (f7_set_acr h s) = f7_before s" "vos_scale1 (f7_set_acr h s) = vos_scale1 s"
  "over_drive_on (f7_set_acr h s) = over_drive_on s"
  by (simp_all add: f7_set_acr_def f7_before_def on_hsi_def cfgr_sw_def cfgr_sws_def vos_scale1_def
      over_drive_on_def pwr_ctl_def pwr_flag_def)

lemma f7_set_prescalers_pwr: "vos_scale1 (f7_set_prescalers p s) = vos_scale1 s"
  "over_drive_on (f7_set_prescalers p s) = over_drive_on s" "clk_acr (f7_set_prescalers p s) = clk_acr s"
  by (cases p; simp add: f7_set_prescalers_def set_prescalers_def Let_def vos_scale1_def
      over_drive_on_def pwr_ctl_def pwr_flag_def)+

lemma ok_or_return_id: "ok_or_return r (\<lambda>s. (HAL_OK, s)) = r"
  by (cases r) (simp add: ok_or_return_def)

lemma f7_init_outcome:
  assumes fr: "f7_frame hw" and s: "on_hsi s" and cfg: "clk_source cfg = HAL_CLOCK_SOURCE_PLL"
    and r: "f7_hal_clock_init b hw (Some cfg) s = (st, t)"
  shows "cfgr_sw t = 0 \<and> cfgr_sws t = 0 \<and> st \<noteq> HAL_OK \<or>
    (unat (pll_output_hz b (clk_pll cfg)) > 180000000 \<longrightarrow> over_drive_on t) \<and> vos_scale1 t \<and>
    clk_acr t AND FLASH_ACR_LATENCY_Msk = flash_ws_for (pll_output_hz b (clk_pll cfg))"
proof -
  let ?h = "pll_output_hz b (clk_pll cfg)"
  have h: "f7_target_hclk b cfg = ?h" using cfg by (simp add: f7_target_hclk_def)
  obtain st1 s1 where s1: "f7_pll_start b hw (clk_pll cfg) (f7_power_up s) = (st1, s1)" by fastforce
  have b1: "f7_before s1"
  proof -
    have "f7_before (f7_power_up s)" using s by (simp add: f7_before_def)
    then have "f7_before (snd (f7_pll_start b hw (clk_pll cfg) (f7_power_up s)))"
      by (intro f7_pll_start_inv [where P = f7_before] f7_before_hw [OF fr] f7_before_write(1,2))
    then show ?thesis using s1 by simp
  qed
  obtain st2 s2 where s2: "f7_over_drive hw cfg ?h s1 = (st2, s2)" by fastforce
  note od = f7_over_drive_outcome [OF fr b1 s2]
  have run: "f7_hal_clock_init b hw (Some cfg) s =
      (if pll_m (clk_pll cfg) = 0 \<or> pll_n (clk_pll cfg) = 0 \<or> pll_p (clk_pll cfg) = 0 then (HAL_ERR_INVALID_ARG, s)
       else if st1 \<noteq> HAL_OK then (st1, s1) else if st2 \<noteq> HAL_OK then (st2, s2)
       else case f7_prescalers ?h cfg of None \<Rightarrow> (HAL_ERR_INVALID_ARG, f7_set_acr ?h s2)
         | Some p \<Rightarrow> f7_clock_switch hw HAL_CLOCK_SOURCE_PLL (f7_set_prescalers p (f7_set_acr ?h s2)))"
    using s1 s2 cfg h
    by (simp add: f7_hal_clock_init_def f7_clock_init_def f7_clock_start_def ok_or_return_id Let_def
        ok_or_return_def [of "(st1, s1)"] ok_or_return_def [of "(st2, s2)"] split: option.split)
  have on: "on_hsi x \<Longrightarrow> cfgr_sw x = 0 \<and> cfgr_sws x = 0" for x :: "'a rcc_f7_scheme" by (simp add: on_hsi_def)
  have before: "on_hsi s1" "on_hsi s2" "on_hsi (f7_set_acr ?h s2)"
    using b1 od(1) f7_set_acr_before(1) [of ?h s2] by (simp_all add: f7_before_def)
  show ?thesis
  proof (cases "(pll_m (clk_pll cfg) = 0 \<or> pll_n (clk_pll cfg) = 0 \<or> pll_p (clk_pll cfg) = 0) \<or>
      st1 \<noteq> HAL_OK \<or> st2 \<noteq> HAL_OK \<or> f7_prescalers ?h cfg = None")
    case True
    then have "on_hsi t" "st \<noteq> HAL_OK" using r run before s by (auto split: if_splits option.splits)
    then show ?thesis using on by blast
  next
    case False
    then obtain p where p: "f7_prescalers ?h cfg = Some p" and ok: "st1 = HAL_OK" "st2 = HAL_OK" by auto
    have sw: "f7_clock_switch hw HAL_CLOCK_SOURCE_PLL (f7_set_prescalers p (f7_set_acr ?h s2)) = (st, t)"
      using r run False p ok by (simp split: if_splits)
    note k = f7_switch_keeps [OF fr sw]
    show ?thesis
      using k od ok cfg f7_set_acr_latency [of ?h s2]
      by (auto simp: f7_set_prescalers_pwr f7_set_acr_before f7_before_def word_less_nat_alt)
  qed
qed

section \<open>Properties\<close>

text \<open>C34. No speed without voltage. Whatever the hardware does, when an F7 bring-up for a PLL above
  180 MHz has asked SYSCLK to leave HSI, over-drive is on and ready, the regulator is at scale 1 and
  the flash has its wait states; in every earlier failure the board is still on HSI and the call
  reports it.\<close>

theorem f7_no_speed_without_over_drive:
  assumes fr: "f7_frame hw" and s: "cfgr_sw s = 0" "cfgr_sws s = 0"
    and cfg: "clk_source cfg = HAL_CLOCK_SOURCE_PLL"
    and r: "f7_hal_clock_init b hw (Some cfg) s = (st, t)"
  shows "cfgr_sw t = 0 \<and> cfgr_sws t = 0 \<and> st \<noteq> HAL_OK \<or>
    (unat (pll_output_hz b (clk_pll cfg)) > 180000000 \<longrightarrow> over_drive_on t) \<and> vos_scale1 t \<and>
    clk_acr t AND FLASH_ACR_LATENCY_Msk = flash_ws_for (pll_output_hz b (clk_pll cfg))"
  by (rule f7_init_outcome [OF fr _ cfg r]) (use s in \<open>simp add: on_hsi_def\<close>)

text \<open>From the reset clock, on hardware that answers, a target the F7 solver accepts (up to
  216 MHz) is delivered: it is the frequency read back, AHB runs at it, APB1 and APB2 run at the
  fastest division the driver allows, under 54 and 108 MHz, and the flash has its wait states.\<close>

theorem f7_clock_init_hz_delivers:
  assumes "f7_frame hw" "f7_answers hw" "cfgr_sw s = 0" "cfgr_sws s = 0"
    and "src \<noteq> HAL_CLOCK_SOURCE_PLL" "f7_solve_pll b src t = Some pll"
  shows "\<exists>s'. f7_hal_clock_init_hz b hw src t s = (HAL_OK, s') \<and> f7_clock_get_sysclk b s' = t \<and>
    f7_clock_get_bus_clock b 0 s' = t \<and>
    f7_clock_get_bus_clock b 1 s' = t div (if t \<le> 54000000 then 1 else if t \<le> 108000000 then 2 else 4) \<and>
    f7_clock_get_bus_clock b 2 s' = t div (if t \<le> 108000000 then 1 else 2) \<and>
    unat (f7_clock_get_bus_clock b 1 s') \<le> 54000000 \<and> unat (f7_clock_get_bus_clock b 2 s') \<le> 108000000 \<and>
    clk_acr s' AND FLASH_ACR_LATENCY_Msk = flash_ws_for t \<and> unat t \<le> 30000000 * (unat (flash_ws_for t) + 1)"
proof -
  have on: "on_hsi s" using assms(3,4) by (simp add: on_hsi_def)
  have t: "unat t \<le> 216000000" using f7_solve_pll_Some [OF assms(6)] by simp
  obtain s' where s': "f7_hal_clock_init_hz b hw src t s = (HAL_OK, s')" "f7_clock_get_sysclk b s' = t"
    "f7_clock_get_bus_clock b 0 s' = t"
    "f7_clock_get_bus_clock b 1 s' = t div (if t \<le> 54000000 then 1 else if t \<le> 108000000 then 2 else 4)"
    "f7_clock_get_bus_clock b 2 s' = t div (if t \<le> 108000000 then 1 else 2)"
    "clk_acr s' AND FLASH_ACR_LATENCY_Msk = flash_ws_for t"
    by (rule f7_init_hz_delivers [OF assms(1,2) on assms(5,6)])
  have "unat (t div (if t \<le> 54000000 then 1 else if t \<le> 108000000 then 2 else 4)) \<le> 54000000"
    "unat (t div (if t \<le> 108000000 then 1 else 2)) \<le> 108000000"
    using t by (auto simp: word_le_nat_alt unat_div)
  then show ?thesis using s' flash_ws_enough [of t] t by (intro exI [of _ s']) simp
qed

text \<open>Hardware that answers at once, for the F7.\<close>

definition hw_f7_prompt :: "rcc_f7 \<Rightarrow> rcc_f7" where
  "hw_f7_prompt s = (hw_prompt s)\<lparr>PWR_CSR1 := (if pwr_ctl PWR_CR1_ODEN s then PWR_CSR1_ODRDY else 0) OR
     (if pwr_ctl PWR_CR1_ODSWEN s then PWR_CSR1_ODSWRDY else 0)\<rparr>"

definition rcc_f7_reset :: rcc_f7 where
  "rcc_f7_reset = \<lparr>RCC_CR = 0x83, RCC_PLLCFGR = 0x24003010, RCC_CFGR = 0, clk_acr = 0,
     RCC_APB1ENR = 0, PWR_CR1 = 0xC000, PWR_CSR1 = 0\<rparr>"

lemma hw_f7_prompt_simps [simp]:
  "RCC_CR (hw_f7_prompt s) = RCC_CR (hw_prompt s)" "RCC_CFGR (hw_f7_prompt s) = RCC_CFGR (hw_prompt s)"
  "PWR_CR1 (hw_f7_prompt s) = PWR_CR1 s" "pwr_flag PWR_CSR1_ODRDY (hw_f7_prompt s) = pwr_ctl PWR_CR1_ODEN s"
  "pwr_flag PWR_CSR1_ODSWRDY (hw_f7_prompt s) = pwr_ctl PWR_CR1_ODSWEN s"
  by (simp_all add: hw_f7_prompt_def hw_prompt_def pwr_flag_def pwr_defs)

lemma hw_f7_prompt_views [simp]:
  "cr_flag k (hw_f7_prompt s) = cr_flag k (hw_prompt s)" "cfgr_sws (hw_f7_prompt s) = cfgr_sw s"
  "same_ctl s (hw_f7_prompt s)"
  using hw_prompt_same_ctl [of s] hw_prompt_flags(4) [of s]
  by (simp_all add: cr_flag_def cfgr_sws_def same_ctl_def) (simp_all add: hw_f7_prompt_def)

lemma hw_f7_prompt_ok: "f7_frame hw_f7_prompt" "f7_answers hw_f7_prompt"
proof -
  show "f7_frame hw_f7_prompt" by (simp add: f7_frame_def hw_frame_def)
  show "f7_answers hw_f7_prompt"
    by (simp add: f7_answers_def hw_answers_def answers_at_once hw_prompt_flags)
qed

lemma f7_solve_216mhz: "f7_solve_pll clock_board_8mhz HAL_CLOCK_SOURCE_HSE 216000000 =
    Some \<lparr>input_src = HAL_CLOCK_SOURCE_HSE, pll_m = 8, pll_n = 432, pll_p = 2, pll_q = 9\<rparr>"
  by (simp add: f7_solve_pll_def solve_pll_within_def Let_def source_hz_def clock_board_8mhz_def pll_consts
      F7_PLL_VCO_MIN_HZ_def F7_PLL_SYSCLK_MAX_HZ_def solve_pll_loop_unroll solve_pll_at_def pll_nearest_q_def)

theorem f7_clock_init_hz_delivers_witness:
  "\<exists>s'. f7_hal_clock_init_hz clock_board_8mhz hw_f7_prompt HAL_CLOCK_SOURCE_HSE 216000000 rcc_f7_reset = (HAL_OK, s') \<and>
     f7_clock_get_bus_clock clock_board_8mhz 1 s' = 54000000"
  using f7_clock_init_hz_delivers [OF hw_f7_prompt_ok _ _ _ f7_solve_216mhz, of rcc_f7_reset]
  by (auto simp: rcc_f7_reset_def cfgr_sw_def cfgr_sws_def)

theorem f7_no_speed_without_over_drive_witness:
  "\<exists>st t. f7_hal_clock_init clock_board_8mhz hw_f7_prompt (Some (clock_cfg_hz
       \<lparr>input_src = HAL_CLOCK_SOURCE_HSE, pll_m = 8, pll_n = 432, pll_p = 2, pll_q = 9\<rparr>)) rcc_f7_reset = (st, t) \<and>
     (cfgr_sw t = 0 \<and> cfgr_sws t = 0 \<and> st \<noteq> HAL_OK \<or> over_drive_on t)"
proof -
  let ?cfg = "clock_cfg_hz \<lparr>input_src = HAL_CLOCK_SOURCE_HSE, pll_m = 8, pll_n = 432, pll_p = 2, pll_q = 9\<rparr>"
  obtain st t where r: "f7_hal_clock_init clock_board_8mhz hw_f7_prompt (Some ?cfg) rcc_f7_reset = (st, t)" by fastforce
  have "pll_output_hz clock_board_8mhz (clk_pll ?cfg) = 216000000"
    by (simp add: clock_cfg_hz_def pll_output_hz_def clock_board_8mhz_def)
  then show ?thesis
    using f7_no_speed_without_over_drive [OF hw_f7_prompt_ok(1) _ _ _ r] r
    by (auto simp: rcc_f7_reset_def cfgr_sw_def cfgr_sws_def clock_cfg_hz_def)
qed

text \<open>No configuration can overclock an F7 bus: at any HCLK up to 216 MHz the dividers programmed
  keep APB1 at or under 54 MHz and APB2 at or under 108 MHz, a request that would not is replaced by
  the driver's own, and one that no field can hold is refused.\<close>

theorem f7_bus_ceilings:
  assumes "unat h \<le> 216000000"
  shows "case f7_prescalers h cfg of
     Some (p1, p2) \<Rightarrow> unat (h div decode_apb_prescaler p1) \<le> 54000000 \<and>
       unat (h div decode_apb_prescaler p2) \<le> 108000000 \<and>
       (ppre1_div cfg \<noteq> 0 \<and> h div ucast (ppre1_div cfg) \<le> 54000000 \<longrightarrow> decode_apb_prescaler p1 = ucast (ppre1_div cfg)) \<and>
       (ppre2_div cfg \<noteq> 0 \<and> h div ucast (ppre2_div cfg) \<le> 108000000 \<longrightarrow> decode_apb_prescaler p2 = ucast (ppre2_div cfg))
   | None \<Rightarrow> ppre1_div cfg \<notin> {0, 1, 2, 4, 8, 16} \<or> ppre2_div cfg \<notin> {0, 1, 2, 4, 8, 16}"
proof (cases "f7_prescalers h cfg")
  case None
  then show ?thesis
    by (auto simp: f7_prescalers_def Let_def f7_ppre_encode_def ppre_encode_def split: if_splits option.splits)
next
  case (Some p)
  obtain p1 p2 where p: "p = (p1, p2)" by (cases p)
  note c = f7_prescalers_ceilings [OF Some [unfolded p] assms]
  have "ppre1_div cfg \<noteq> 0 \<and> h div ucast (ppre1_div cfg) \<le> 54000000 \<longrightarrow> decode_apb_prescaler p1 = ucast (ppre1_div cfg)"
    "ppre2_div cfg \<noteq> 0 \<and> h div ucast (ppre2_div cfg) \<le> 108000000 \<longrightarrow> decode_apb_prescaler p2 = ucast (ppre2_div cfg)"
    using Some encode_decode(2) unfolding p f7_prescalers_def Let_def f7_ppre_encode_def
    by (auto split: option.splits if_splits)
  then show ?thesis using c by (simp add: Some p)
qed

theorem f7_bus_ceilings_witness:
  "f7_prescalers 216000000 \<lparr>clk_source = HAL_CLOCK_SOURCE_PLL, hpre_div = 0, ppre1_div = 1, ppre2_div = 8,
     clk_pll = undefined\<rparr> = Some (5, 6) \<and> (216000000 :: u32) div decode_apb_prescaler 5 = 54000000"
  using f7_bus_ceilings [of 216000000 "\<lparr>clk_source = HAL_CLOCK_SOURCE_PLL, hpre_div = 0, ppre1_div = 1, ppre2_div = 8,
     clk_pll = undefined\<rparr>"]
  by (simp add: f7_prescalers_def Let_def f7_ppre_encode_def ppre_encode_def decode_apb_prescaler_def)

end
