(* ===== verification/Interrupts.thy ===== *)
theory Interrupts
  imports Prelude
begin

text \<open>
  The ARMv7E-M interrupt controller driver, src/arch/armv7e-m/interrupt/interrupt.c, and the
  layer over it with the callback table, src/common/hal_interrupt.c.

  ISER and ICER read as the mask of enabled lines of a bank of 32; a 1 written to ISER enables,
  a 1 written to ICER disables, a 1 written to ICPR drops a pending line. An interrupt number is
  an \<open>int\<close>, negative for the system exceptions. A callback is a token, and \<open>run\<close> says what the
  code behind a token does to the state.
\<close>

section \<open>State\<close>

type_synonym callback = nat

record nvic =
  nvic_enabled :: "nat \<Rightarrow> u32"
  nvic_pending :: "nat \<Rightarrow> u32"
  NVIC_IPR :: "nat \<Rightarrow> u8"
  SCB_SHPR1 :: u32
  SCB_SHPR2 :: u32
  SCB_SHPR3 :: u32
  cpu_primask :: u32
  irq_cb :: "nat \<Rightarrow> callback option"

text \<open>The controller: set and clear registers, and PRIMASK, which keeps bit 0 only.\<close>

definition NVIC_ISER_write :: "nat \<Rightarrow> u32 \<Rightarrow> 'm nvic_scheme \<Rightarrow> 'm nvic_scheme" where
  "NVIC_ISER_write n v s = s\<lparr>nvic_enabled := (nvic_enabled s)(n := nvic_enabled s n OR v)\<rparr>"

definition NVIC_ICER_write :: "nat \<Rightarrow> u32 \<Rightarrow> 'm nvic_scheme \<Rightarrow> 'm nvic_scheme" where
  "NVIC_ICER_write n v s = s\<lparr>nvic_enabled := (nvic_enabled s)(n := nvic_enabled s n AND NOT v)\<rparr>"

definition NVIC_ICPR_write :: "nat \<Rightarrow> u32 \<Rightarrow> 'm nvic_scheme \<Rightarrow> 'm nvic_scheme" where
  "NVIC_ICPR_write n v s = s\<lparr>nvic_pending := (nvic_pending s)(n := nvic_pending s n AND NOT v)\<rparr>"

definition msr_primask :: "u32 \<Rightarrow> 'm nvic_scheme \<Rightarrow> 'm nvic_scheme" where
  "msr_primask v s = s\<lparr>cpu_primask := v AND 1\<rparr>"

definition HAL_IRQ_COUNT :: nat where "HAL_IRQ_COUNT = 82"
definition HAL_IRQ_PRIORITY_DEFAULT :: u8 where "HAL_IRQ_PRIORITY_DEFAULT = 8"
definition NVIC_PRIO_BITS :: nat where "NVIC_PRIO_BITS = 4"
definition PRIORITY_MASK :: u32 where "PRIORITY_MASK = push_bit NVIC_PRIO_BITS 1 - 1"

definition NonMaskableInt_IRQn :: int where "NonMaskableInt_IRQn = -14"
definition HardFault_IRQn :: int where "HardFault_IRQn = -13"
definition MemoryManagement_IRQn :: int where "MemoryManagement_IRQn = -12"
definition BusFault_IRQn :: int where "BusFault_IRQn = -11"
definition UsageFault_IRQn :: int where "UsageFault_IRQn = -10"
definition SVCall_IRQn :: int where "SVCall_IRQn = -5"
definition DebugMonitor_IRQn :: int where "DebugMonitor_IRQn = -4"
definition PendSV_IRQn :: int where "PendSV_IRQn = -2"
definition SysTick_IRQn :: int where "SysTick_IRQn = -1"

lemmas irqn_defs = NonMaskableInt_IRQn_def HardFault_IRQn_def MemoryManagement_IRQn_def BusFault_IRQn_def
  UsageFault_IRQn_def SVCall_IRQn_def DebugMonitor_IRQn_def PendSV_IRQn_def SysTick_IRQn_def

section \<open>The driver\<close>

definition shpr_set :: "nat \<Rightarrow> u32 \<Rightarrow> u32 \<Rightarrow> u32" where
  "shpr_set pos prio r = (r AND NOT (push_bit pos 0xFF)) OR push_bit pos prio"

definition shpr_get :: "nat \<Rightarrow> u32 \<Rightarrow> u8" where
  "shpr_get pos r = ucast (drop_bit 4 (drop_bit pos r AND 0xFF))"

definition armv7em_interrupt_set_priority ::
    "int \<Rightarrow> u8 \<Rightarrow> 'm nvic_scheme \<Rightarrow> hal_status \<times> 'm nvic_scheme" where
  "armv7em_interrupt_set_priority irq priority s =
     (if ucast priority > PRIORITY_MASK then (HAL_ERR_INVALID_ARG, s)
      else let prio = push_bit (8 - NVIC_PRIO_BITS) (ucast priority) :: u32 in
        if irq \<ge> 0 then
          (if nat irq \<ge> HAL_IRQ_COUNT then (HAL_ERR_INVALID_ARG, s)
           else (HAL_OK, s\<lparr>NVIC_IPR := (NVIC_IPR s)(nat irq := ucast prio)\<rparr>))
        else if irq = MemoryManagement_IRQn then (HAL_OK, s\<lparr>SCB_SHPR1 := shpr_set 0 prio (SCB_SHPR1 s)\<rparr>)
        else if irq = BusFault_IRQn then (HAL_OK, s\<lparr>SCB_SHPR1 := shpr_set 8 prio (SCB_SHPR1 s)\<rparr>)
        else if irq = UsageFault_IRQn then (HAL_OK, s\<lparr>SCB_SHPR1 := shpr_set 16 prio (SCB_SHPR1 s)\<rparr>)
        else if irq = SVCall_IRQn then (HAL_OK, s\<lparr>SCB_SHPR2 := shpr_set 24 prio (SCB_SHPR2 s)\<rparr>)
        else if irq = PendSV_IRQn then (HAL_OK, s\<lparr>SCB_SHPR3 := shpr_set 16 prio (SCB_SHPR3 s)\<rparr>)
        else if irq = SysTick_IRQn then (HAL_OK, s\<lparr>SCB_SHPR3 := shpr_set 24 prio (SCB_SHPR3 s)\<rparr>)
        else if irq = NonMaskableInt_IRQn \<or> irq = HardFault_IRQn \<or> irq = DebugMonitor_IRQn
        then (HAL_ERR_NOT_SUPPORTED, s)
        else (HAL_ERR_INVALID_ARG, s))"

definition armv7em_interrupt_get_priority :: "int \<Rightarrow> 'm nvic_scheme \<Rightarrow> u8" where
  "armv7em_interrupt_get_priority irq s =
     (if irq \<ge> 0 then drop_bit 4 (NVIC_IPR s (nat irq))
      else if irq = MemoryManagement_IRQn then shpr_get 0 (SCB_SHPR1 s)
      else if irq = BusFault_IRQn then shpr_get 8 (SCB_SHPR1 s)
      else if irq = UsageFault_IRQn then shpr_get 16 (SCB_SHPR1 s)
      else if irq = SVCall_IRQn then shpr_get 24 (SCB_SHPR2 s)
      else if irq = PendSV_IRQn then shpr_get 16 (SCB_SHPR3 s)
      else if irq = SysTick_IRQn then shpr_get 24 (SCB_SHPR3 s)
      else 0xFF)"

text \<open>The status of the priority write is ignored. The \<open>|=\<close> reads the register back.\<close>

definition enable_at :: "int \<Rightarrow> u8 \<Rightarrow> 'm nvic_scheme \<Rightarrow> hal_status \<times> 'm nvic_scheme" where
  "enable_at irq priority s =
     (if irq < 0 then (HAL_ERR_INVALID_ARG, s)
      else let s1 = snd (armv7em_interrupt_set_priority irq priority s); n = nat irq
           in (HAL_OK, NVIC_ISER_write (n div 32) (nvic_enabled s1 (n div 32) OR push_bit (n mod 32) 1) s1))"

definition armv7em_interrupt_enable :: "int \<Rightarrow> 'm nvic_scheme \<Rightarrow> hal_status \<times> 'm nvic_scheme" where
  "armv7em_interrupt_enable irq s = enable_at irq HAL_IRQ_PRIORITY_DEFAULT s"

definition armv7em_interrupt_disable :: "int \<Rightarrow> 'm nvic_scheme \<Rightarrow> hal_status \<times> 'm nvic_scheme" where
  "armv7em_interrupt_disable irq s =
     (if irq < 0 then (HAL_ERR_INVALID_ARG, s)
      else let n = nat irq
           in (HAL_OK, NVIC_ICER_write (n div 32) (nvic_enabled s (n div 32) OR push_bit (n mod 32) 1) s))"

definition armv7em_interrupt_clear_pending :: "int \<Rightarrow> 'm nvic_scheme \<Rightarrow> hal_status \<times> 'm nvic_scheme" where
  "armv7em_interrupt_clear_pending irq s =
     (if irq < 0 then (HAL_ERR_INVALID_ARG, s)
      else let n = nat irq in (HAL_OK, NVIC_ICPR_write (n div 32) (push_bit (n mod 32) 1) s))"

definition armv7em_interrupt_is_pending :: "int \<Rightarrow> 'm nvic_scheme \<Rightarrow> bool" where
  "armv7em_interrupt_is_pending irq s =
     (if irq < 0 then False else let n = nat irq in drop_bit (n mod 32) (nvic_pending s (n div 32)) AND 1 \<noteq> 0)"

definition armv7em_interrupt_clear_all_pending :: "'m nvic_scheme \<Rightarrow> 'm nvic_scheme" where
  "armv7em_interrupt_clear_all_pending s = fold (\<lambda>i. NVIC_ICPR_write i 0xFFFFFFFF) [0..<3] s"

definition armv7em_interrupt_disable_global :: "'m nvic_scheme \<Rightarrow> u32 \<times> 'm nvic_scheme" where
  "armv7em_interrupt_disable_global s = (cpu_primask s, msr_primask 1 s)"

definition armv7em_interrupt_enable_global :: "u32 \<Rightarrow> 'm nvic_scheme \<Rightarrow> 'm nvic_scheme" where
  "armv7em_interrupt_enable_global state s = msr_primask state s"

section \<open>The callback table\<close>

definition irq_indexes_table :: "int \<Rightarrow> bool" where
  "irq_indexes_table irq \<longleftrightarrow> irq \<ge> 0 \<and> nat irq < HAL_IRQ_COUNT"

definition navhal_irq_invoke ::
    "(callback \<Rightarrow> 'm nvic_scheme \<Rightarrow> 'm nvic_scheme) \<Rightarrow> int \<Rightarrow> 'm nvic_scheme \<Rightarrow> bool \<times> 'm nvic_scheme" where
  "navhal_irq_invoke run irq s =
     (if \<not> irq_indexes_table irq then (False, s)
      else case irq_cb s (nat irq) of None \<Rightarrow> (False, s) | Some cb \<Rightarrow> (True, run cb s))"

definition hal_interrupt_attach_callback ::
    "int \<Rightarrow> callback option \<Rightarrow> 'm nvic_scheme \<Rightarrow> hal_status \<times> 'm nvic_scheme" where
  "hal_interrupt_attach_callback irq cb s =
     (if cb = None \<or> \<not> irq_indexes_table irq then (HAL_ERR_INVALID_ARG, s)
      else (HAL_OK, s\<lparr>irq_cb := (irq_cb s)(nat irq := cb)\<rparr>))"

definition hal_interrupt_detach_callback :: "int \<Rightarrow> 'm nvic_scheme \<Rightarrow> hal_status \<times> 'm nvic_scheme" where
  "hal_interrupt_detach_callback irq s =
     (if \<not> irq_indexes_table irq then (HAL_ERR_INVALID_ARG, s)
      else (HAL_OK, s\<lparr>irq_cb := (irq_cb s)(nat irq := None)\<rparr>))"

definition armv7em_interrupt_dispatch ::
    "(callback \<Rightarrow> 'm nvic_scheme \<Rightarrow> 'm nvic_scheme) \<Rightarrow> int \<Rightarrow> 'm nvic_scheme \<Rightarrow> 'm nvic_scheme" where
  "armv7em_interrupt_dispatch run irq s = snd (navhal_irq_invoke run irq s)"

text \<open>The fallback vector, entered with IPSR; \<open>None\<close> is the endless trap.\<close>

definition hal_irq_default_dispatch ::
    "(callback \<Rightarrow> 'm nvic_scheme \<Rightarrow> 'm nvic_scheme) \<Rightarrow> u32 \<Rightarrow> 'm nvic_scheme \<Rightarrow> 'm nvic_scheme option" where
  "hal_irq_default_dispatch run ipsr s =
     (let exc = ipsr AND 0x1FF in
      if exc \<ge> 16 then
        (case navhal_irq_invoke run (uint (exc - 16)) s of (True, s1) \<Rightarrow> Some s1 | (False, s1) \<Rightarrow> None)
      else None)"

section \<open>The public layer\<close>

definition hal_interrupt_enable :: "int \<Rightarrow> 'm nvic_scheme \<Rightarrow> hal_status \<times> 'm nvic_scheme" where
  "hal_interrupt_enable irq s = armv7em_interrupt_enable irq s"

definition hal_interrupt_disable :: "int \<Rightarrow> 'm nvic_scheme \<Rightarrow> hal_status \<times> 'm nvic_scheme" where
  "hal_interrupt_disable irq s = armv7em_interrupt_disable irq s"

definition hal_interrupt_enable_with_priority ::
    "int \<Rightarrow> u8 \<Rightarrow> 'm nvic_scheme \<Rightarrow> hal_status \<times> 'm nvic_scheme" where
  "hal_interrupt_enable_with_priority irq priority s =
     (case armv7em_interrupt_set_priority irq priority s of (st, s1) \<Rightarrow>
        if st \<noteq> HAL_OK \<and> st \<noteq> HAL_ERR_NOT_SUPPORTED then (st, s1) else armv7em_interrupt_enable irq s1)"

definition hal_interrupt_dispatch ::
    "(callback \<Rightarrow> 'm nvic_scheme \<Rightarrow> 'm nvic_scheme) \<Rightarrow> int \<Rightarrow> 'm nvic_scheme \<Rightarrow> 'm nvic_scheme" where
  "hal_interrupt_dispatch run irq s = armv7em_interrupt_dispatch run irq s"

definition hal_interrupt_disable_global :: "'m nvic_scheme \<Rightarrow> u32 \<times> 'm nvic_scheme" where
  "hal_interrupt_disable_global s = armv7em_interrupt_disable_global s"

definition hal_interrupt_enable_global :: "u32 \<Rightarrow> 'm nvic_scheme \<Rightarrow> 'm nvic_scheme" where
  "hal_interrupt_enable_global state s = armv7em_interrupt_enable_global state s"

definition hal_interrupt_set_priority :: "int \<Rightarrow> u8 \<Rightarrow> 'm nvic_scheme \<Rightarrow> hal_status \<times> 'm nvic_scheme" where
  "hal_interrupt_set_priority irq priority s = armv7em_interrupt_set_priority irq priority s"

definition hal_interrupt_get_priority :: "int \<Rightarrow> 'm nvic_scheme \<Rightarrow> u8" where
  "hal_interrupt_get_priority irq s = armv7em_interrupt_get_priority irq s"

definition hal_interrupt_is_pending :: "int \<Rightarrow> 'm nvic_scheme \<Rightarrow> bool" where
  "hal_interrupt_is_pending irq s = armv7em_interrupt_is_pending irq s"

definition hal_interrupt_clear_pending :: "int \<Rightarrow> 'm nvic_scheme \<Rightarrow> hal_status \<times> 'm nvic_scheme" where
  "hal_interrupt_clear_pending irq s = armv7em_interrupt_clear_pending irq s"

definition hal_interrupt_clear_all_pending :: "'m nvic_scheme \<Rightarrow> 'm nvic_scheme" where
  "hal_interrupt_clear_all_pending s = armv7em_interrupt_clear_all_pending s"

lemmas hal_interrupt_layer = hal_interrupt_enable_def hal_interrupt_disable_def hal_interrupt_dispatch_def
  hal_interrupt_disable_global_def hal_interrupt_enable_global_def hal_interrupt_set_priority_def
  hal_interrupt_get_priority_def hal_interrupt_is_pending_def hal_interrupt_clear_pending_def
  hal_interrupt_clear_all_pending_def

section \<open>Lines\<close>

definition irq_enabled :: "nat \<Rightarrow> 'm nvic_scheme \<Rightarrow> bool" where
  "irq_enabled j s \<longleftrightarrow> bit (nvic_enabled s (j div 32)) (j mod 32)"

definition irq_pending :: "nat \<Rightarrow> 'm nvic_scheme \<Rightarrow> bool" where
  "irq_pending j s \<longleftrightarrow> bit (nvic_pending s (j div 32)) (j mod 32)"

lemma bit_line: "bit (push_bit (n mod 32) 1 :: u32) m \<longleftrightarrow> m = n mod 32"
  by (auto simp: bit_push_bit_iff bit_1_iff simp del: push_bit_of_1)

lemma same_line: "i div 32 = j div 32 \<Longrightarrow> i mod 32 = j mod 32 \<Longrightarrow> i = (j :: nat)"
  by (metis div_mult_mod_eq)

lemma set_priority_enabled [simp]:
  "nvic_enabled (snd (armv7em_interrupt_set_priority irq p s)) = nvic_enabled s"
  "nvic_pending (snd (armv7em_interrupt_set_priority irq p s)) = nvic_pending s"
  "irq_cb (snd (armv7em_interrupt_set_priority irq p s)) = irq_cb s"
  by (simp_all add: armv7em_interrupt_set_priority_def Let_def)

lemma irq_enabled_ISER:
  "irq_enabled j (NVIC_ISER_write (n div 32) (nvic_enabled s (n div 32) OR push_bit (n mod 32) 1) s) \<longleftrightarrow>
     j = n \<or> irq_enabled j s"
  using same_line [of j n]
  by (auto simp: irq_enabled_def NVIC_ISER_write_def bit_or_iff bit_line simp del: push_bit_of_1)

lemma irq_enabled_ICER:
  "irq_enabled j (NVIC_ICER_write (n div 32) (nvic_enabled s (n div 32) OR push_bit (n mod 32) 1) s) \<longleftrightarrow>
     j div 32 \<noteq> n div 32 \<and> irq_enabled j s"
  by (auto simp: irq_enabled_def NVIC_ICER_write_def bit_and_iff bit_or_iff bit_not_iff_eq bit_line simp del: push_bit_of_1)

lemma irq_pending_ICPR:
  "irq_pending j (NVIC_ICPR_write (n div 32) (push_bit (n mod 32) 1) s) \<longleftrightarrow> j \<noteq> n \<and> irq_pending j s"
  using same_line [of j n]
  by (auto simp: irq_pending_def NVIC_ICPR_write_def bit_and_iff bit_not_iff_eq bit_line simp del: push_bit_of_1)

lemma irq_enabled_calls:
  "irq_enabled j (snd (armv7em_interrupt_enable i s)) \<longleftrightarrow> 0 \<le> i \<and> j = nat i \<or> irq_enabled j s"
  "irq_enabled j (snd (armv7em_interrupt_disable i s)) \<longleftrightarrow> irq_enabled j s \<and> (0 \<le> i \<longrightarrow> j div 32 \<noteq> nat i div 32)"
proof -
  have "irq_enabled j (snd (armv7em_interrupt_set_priority i p s)) = irq_enabled j s" for p
    by (simp add: irq_enabled_def)
  then show "irq_enabled j (snd (armv7em_interrupt_enable i s)) \<longleftrightarrow> 0 \<le> i \<and> j = nat i \<or> irq_enabled j s"
    by (auto simp: armv7em_interrupt_enable_def enable_at_def Let_def irq_enabled_ISER simp del: push_bit_of_1 set_priority_enabled)
  show "irq_enabled j (snd (armv7em_interrupt_disable i s)) \<longleftrightarrow> irq_enabled j s \<and> (0 \<le> i \<longrightarrow> j div 32 \<noteq> nat i div 32)"
    by (auto simp: armv7em_interrupt_disable_def Let_def irq_enabled_ICER simp del: push_bit_of_1)
qed

section \<open>Priorities\<close>

lemma priority_ok: "ucast (p :: u8) > PRIORITY_MASK \<longleftrightarrow> p > 15"
  by (simp add: PRIORITY_MASK_def NVIC_PRIO_BITS_def word_less_nat_alt)

lemma shpr_lane:
  assumes "pos \<in> {0, 8, 16, 24}" "pos' \<in> {0, 8, 16, 24}"
  shows "drop_bit pos' (shpr_set pos (push_bit 4 (ucast (p :: u8) AND 0xF)) r) AND 0xFF =
    (if pos' = pos then push_bit 4 (ucast p AND 0xF) else drop_bit pos' r AND 0xFF)"
proof -
  have m: "(0xFF :: u32) = mask 8" "(0xF :: u32) = mask 4" by (simp_all add: mask_eq_exp_minus_1)
  show ?thesis
    unfolding m shpr_set_def using assms
    by (intro bit_word_eqI)
      (auto simp: bit_and_iff bit_or_iff bit_not_iff_eq bit_drop_bit_eq bit_push_bit_iff bit_mask_iff)
qed

lemma low_nibble:
  assumes "p \<le> (15 :: u8)"
  shows "(ucast p :: u32) AND 0xF = ucast p"
proof -
  have "(ucast p :: u32) AND mask 4 = ucast p"
    using assms by (intro and_mask_small) (simp add: word_le_nat_alt)
  then show ?thesis by (simp add: mask_eq_exp_minus_1)
qed

lemma lane_reads:
  assumes "p \<le> (15 :: u8)"
  shows "(ucast (drop_bit 4 (push_bit 4 (ucast p :: u32))) :: u8) = p" "drop_bit 4 (ucast (push_bit 4 (ucast p :: u32)) :: u8) = p"
proof -
  have b: "n < 4" if "bit p n" for n
  proof -
    have "p AND mask 4 = p" using assms by (intro and_mask_small) (simp add: word_le_nat_alt)
    then show ?thesis using that by (metis bit_and_iff bit_mask_iff)
  qed
  show "(ucast (drop_bit 4 (push_bit 4 (ucast p :: u32))) :: u8) = p" "drop_bit 4 (ucast (push_bit 4 (ucast p :: u32)) :: u8) = p"
    by (rule bit_word_eqI; auto simp: bit_simps dest: b bit_imp_le_length)+
qed

lemma shpr_get_set:
  assumes "pos \<in> {0, 8, 16, 24}" "pos' \<in> {0, 8, 16, 24}" "p \<le> (15 :: u8)"
  shows "shpr_get pos' (shpr_set pos (push_bit 4 (ucast p)) r) = (if pos' = pos then p else shpr_get pos' r)"
  unfolding shpr_get_def shpr_lane [OF assms(1,2), of p, unfolded low_nibble [OF assms(3)]]
  using lane_reads(1) [OF assms(3)] by simp

lemma set_get_priority:
  assumes r: "armv7em_interrupt_set_priority irq p s = (HAL_OK, s')"
  shows "armv7em_interrupt_get_priority irq s' = p"
    "j \<noteq> irq \<Longrightarrow> armv7em_interrupt_get_priority j s' = armv7em_interrupt_get_priority j s"
proof -
  have p: "p \<le> 15" using r by (auto simp: armv7em_interrupt_set_priority_def priority_ok not_less split: if_splits)
  have s': "\<not> ucast p > PRIORITY_MASK" using p by (simp add: priority_ok)
  have n: "nat j = nat irq \<longleftrightarrow> j = irq" if "j \<ge> 0" "irq \<ge> 0" for j using that by auto
  show "armv7em_interrupt_get_priority irq s' = p"
    using r s' lane_reads(2) [OF p] p
    by (auto simp: armv7em_interrupt_set_priority_def armv7em_interrupt_get_priority_def Let_def NVIC_PRIO_BITS_def
        shpr_get_set irqn_defs split: if_splits)
  show "armv7em_interrupt_get_priority j s' = armv7em_interrupt_get_priority j s" if "j \<noteq> irq"
    using r s' that n p
    by (auto simp: armv7em_interrupt_set_priority_def armv7em_interrupt_get_priority_def Let_def NVIC_PRIO_BITS_def
        shpr_get_set irqn_defs split: if_splits)
qed

section \<open>Runs of the driver\<close>

datatype irq_op =
    IrqEnable int
  | IrqEnableWith int u8
  | IrqDisable int
  | IrqSetPriority int u8
  | IrqAttach int "callback option"
  | IrqDetach int
  | IrqClearPending int
  | IrqClearAllPending
  | IrqMask
  | IrqRestore u32

primrec irq_step :: "irq_op \<Rightarrow> nvic \<Rightarrow> nvic" where
  "irq_step (IrqEnable i) s = snd (hal_interrupt_enable i s)"
| "irq_step (IrqEnableWith i p) s = snd (hal_interrupt_enable_with_priority i p s)"
| "irq_step (IrqDisable i) s = snd (hal_interrupt_disable i s)"
| "irq_step (IrqSetPriority i p) s = snd (hal_interrupt_set_priority i p s)"
| "irq_step (IrqAttach i cb) s = snd (hal_interrupt_attach_callback i cb s)"
| "irq_step (IrqDetach i) s = snd (hal_interrupt_detach_callback i s)"
| "irq_step (IrqClearPending i) s = snd (hal_interrupt_clear_pending i s)"
| "irq_step IrqClearAllPending s = hal_interrupt_clear_all_pending s"
| "irq_step IrqMask s = snd (hal_interrupt_disable_global s)"
| "irq_step (IrqRestore v) s = hal_interrupt_enable_global v s"

definition irq_run :: "irq_op list \<Rightarrow> nvic \<Rightarrow> nvic" where
  "irq_run ops s = fold irq_step ops s"

text \<open>Every enabled line is at level \<open>L\<close> or a less urgent one.\<close>

definition masked_by :: "u8 \<Rightarrow> 'm nvic_scheme \<Rightarrow> bool" where
  "masked_by L s \<longleftrightarrow> (\<forall>j < HAL_IRQ_COUNT. irq_enabled j s \<longrightarrow> L \<le> armv7em_interrupt_get_priority (int j) s)"

lemma nvic_writes_frame [simp]:
  "armv7em_interrupt_get_priority j (NVIC_ISER_write n v s) = armv7em_interrupt_get_priority j s"
  "armv7em_interrupt_get_priority j (NVIC_ICER_write n v s) = armv7em_interrupt_get_priority j s"
  "armv7em_interrupt_get_priority j (NVIC_ICPR_write n v s) = armv7em_interrupt_get_priority j s"
  "armv7em_interrupt_get_priority j (msr_primask w s) = armv7em_interrupt_get_priority j s"
  "armv7em_interrupt_get_priority j (s\<lparr>irq_cb := c\<rparr>) = armv7em_interrupt_get_priority j s"
  "irq_enabled i (NVIC_ICPR_write n v s) = irq_enabled i s" "irq_enabled i (msr_primask w s) = irq_enabled i s"
  "irq_enabled i (s\<lparr>irq_cb := c\<rparr>) = irq_enabled i s"
  "irq_cb (NVIC_ISER_write n v s) = irq_cb s" "irq_cb (NVIC_ICER_write n v s) = irq_cb s"
  "irq_cb (NVIC_ICPR_write n v s) = irq_cb s" "irq_cb (msr_primask w s) = irq_cb s"
  by (simp_all add: NVIC_ISER_write_def NVIC_ICER_write_def NVIC_ICPR_write_def msr_primask_def irq_enabled_def
      armv7em_interrupt_get_priority_def)

lemma if_pair_cases:
  "(if c then x else y) = z \<Longrightarrow> (c \<Longrightarrow> x = z \<Longrightarrow> P) \<Longrightarrow> (\<not> c \<Longrightarrow> y = z \<Longrightarrow> P) \<Longrightarrow> P"
  by (cases c) simp_all

lemma set_priority_cases:
  obtains "armv7em_interrupt_set_priority irq p s = (HAL_OK, snd (armv7em_interrupt_set_priority irq p s))"
  | st where "armv7em_interrupt_set_priority irq p s = (st, s)" "st \<noteq> HAL_OK"
proof (cases "fst (armv7em_interrupt_set_priority irq p s) = HAL_OK")
  case False
  obtain st t where r: "armv7em_interrupt_set_priority irq p s = (st, t)" by fastforce
  have "st = HAL_OK \<or> t = s"
    using r unfolding armv7em_interrupt_set_priority_def Let_def by (elim if_pair_cases; simp)
  then show thesis using that(2) False r by auto
qed (use that(1) prod.collapse in metis)

lemma set_priority_enabled_line [simp]:
  "irq_enabled j (snd (armv7em_interrupt_set_priority irq p s)) = irq_enabled j s"
  by (simp add: irq_enabled_def)

lemma set_priority_masked:
  assumes "masked_by L s" "L \<le> p"
  shows "masked_by L (snd (armv7em_interrupt_set_priority irq p s))"
proof (rule set_priority_cases [of irq p s])
  assume r: "armv7em_interrupt_set_priority irq p s = (HAL_OK, snd (armv7em_interrupt_set_priority irq p s))"
  have "L \<le> armv7em_interrupt_get_priority (int j) (snd (armv7em_interrupt_set_priority irq p s))"
    if "j < HAL_IRQ_COUNT" "irq_enabled j s" for j
    using assms that set_get_priority(1) [OF r] set_get_priority(2) [OF r, of "int j"] by (cases "int j = irq") (auto simp: masked_by_def)
  then show ?thesis by (simp add: masked_by_def)
qed (use assms(1) in simp)

lemma set_priority_wired:
  "j < HAL_IRQ_COUNT \<Longrightarrow> \<exists>t. armv7em_interrupt_set_priority (int j) HAL_IRQ_PRIORITY_DEFAULT s = (HAL_OK, t)"
  by (simp add: armv7em_interrupt_set_priority_def HAL_IRQ_PRIORITY_DEFAULT_def priority_ok [of 8, simplified] Let_def)

lemma enable_masked:
  assumes "masked_by L s" "L \<le> HAL_IRQ_PRIORITY_DEFAULT"
  shows "masked_by L (snd (armv7em_interrupt_enable irq s))"
proof (cases "irq < 0")
  case False
  let ?s1 = "snd (armv7em_interrupt_set_priority irq HAL_IRQ_PRIORITY_DEFAULT s)"
  have e: "irq_enabled j (snd (armv7em_interrupt_enable irq s)) \<longleftrightarrow> j = nat irq \<or> irq_enabled j ?s1" for j
    using False by (simp add: armv7em_interrupt_enable_def enable_at_def Let_def irq_enabled_ISER del: set_priority_enabled push_bit_of_1)
  have p: "armv7em_interrupt_get_priority j (snd (armv7em_interrupt_enable irq s)) = armv7em_interrupt_get_priority j ?s1" for j
    using False by (simp add: armv7em_interrupt_enable_def enable_at_def Let_def del: set_priority_enabled)
  have m: "masked_by L ?s1" by (rule set_priority_masked [OF assms])
  have "armv7em_interrupt_get_priority irq ?s1 = HAL_IRQ_PRIORITY_DEFAULT" if "nat irq < HAL_IRQ_COUNT"
    using set_priority_wired [OF that, of s] False set_get_priority(1) by (metis int_nat_eq not_le snd_conv)
  then show ?thesis
    using m assms(2) False by (auto simp: masked_by_def e p)
qed (use assms(1) in \<open>simp add: armv7em_interrupt_enable_def enable_at_def\<close>)

lemma clear_all_frame:
  "irq_enabled j (armv7em_interrupt_clear_all_pending s) = irq_enabled j s"
  "armv7em_interrupt_get_priority i (armv7em_interrupt_clear_all_pending s) = armv7em_interrupt_get_priority i s"
  "irq_cb (armv7em_interrupt_clear_all_pending s) = irq_cb s"
  by (simp_all add: armv7em_interrupt_clear_all_pending_def upt_rec)

text \<open>Calls that leave the mask at level \<open>L\<close>: \<open>set_priority\<close> at \<open>L\<close> or less urgent, anything else.\<close>

primrec keeps_level :: "u8 \<Rightarrow> irq_op \<Rightarrow> bool" where
  "keeps_level L (IrqEnable i) = True"
| "keeps_level L (IrqEnableWith i p) = True"
| "keeps_level L (IrqDisable i) = True"
| "keeps_level L (IrqSetPriority i p) = (L \<le> p)"
| "keeps_level L (IrqAttach i cb) = True"
| "keeps_level L (IrqDetach i) = True"
| "keeps_level L (IrqClearPending i) = True"
| "keeps_level L IrqClearAllPending = True"
| "keeps_level L IrqMask = True"
| "keeps_level L (IrqRestore v) = True"

text \<open>What \<open>hal_interrupt_enable_with_priority\<close> leaves behind does not depend on the level asked for.\<close>

lemma enable_with_priority_eq:
  assumes "0 \<le> irq" "nat irq < HAL_IRQ_COUNT" "p \<le> 15"
  shows "hal_interrupt_enable_with_priority irq p s = hal_interrupt_enable irq s"
proof -
  have "armv7em_interrupt_set_priority irq q s =
      (HAL_OK, s\<lparr>NVIC_IPR := (NVIC_IPR s)(nat irq := ucast (push_bit (8 - NVIC_PRIO_BITS) (ucast q :: u32)))\<rparr>)"
    if "q \<le> 15" for q and s :: "'a nvic_scheme"
    using assms that by (simp add: armv7em_interrupt_set_priority_def priority_ok not_less Let_def)
  from this [OF assms(3)] this [of HAL_IRQ_PRIORITY_DEFAULT] show ?thesis
    using assms(1)
    by (simp add: hal_interrupt_enable_with_priority_def hal_interrupt_enable_def armv7em_interrupt_enable_def
        enable_at_def HAL_IRQ_PRIORITY_DEFAULT_def NVIC_ISER_write_def Let_def)
qed

lemma set_priority_exception_masked:
  assumes "irq < 0" "masked_by L s"
  shows "masked_by L (snd (armv7em_interrupt_set_priority irq q s))"
proof (rule set_priority_cases [of irq q s])
  assume r: "armv7em_interrupt_set_priority irq q s = (HAL_OK, snd (armv7em_interrupt_set_priority irq q s))"
  show ?thesis using assms set_get_priority(2) [OF r] by (auto simp: masked_by_def)
qed (use assms(2) in simp)

lemma enable_with_masked:
  assumes "masked_by L s" "L \<le> HAL_IRQ_PRIORITY_DEFAULT"
  shows "masked_by L (snd (hal_interrupt_enable_with_priority irq p s))"
proof -
  consider "irq < 0" | "0 \<le> irq" "nat irq < HAL_IRQ_COUNT" "p \<le> 15" | "0 \<le> irq" "\<not> (nat irq < HAL_IRQ_COUNT \<and> p \<le> 15)"
    by linarith
  then show ?thesis
  proof cases
    case 1
    then have "snd (hal_interrupt_enable_with_priority irq p s) = snd (armv7em_interrupt_set_priority irq p s)"
      by (simp add: hal_interrupt_enable_with_priority_def armv7em_interrupt_enable_def enable_at_def split: prod.split)
    then show ?thesis using set_priority_exception_masked [OF 1 assms(1)] by simp
  next
    case 2
    then show ?thesis using enable_masked [OF assms] enable_with_priority_eq [of irq p s]
      by (simp add: hal_interrupt_enable_def)
  next
    case 3
    then have "armv7em_interrupt_set_priority irq p s = (HAL_ERR_INVALID_ARG, s)"
      by (auto simp: armv7em_interrupt_set_priority_def priority_ok not_less Let_def)
    then show ?thesis using assms(1) by (simp add: hal_interrupt_enable_with_priority_def)
  qed
qed

lemma irq_step_masked:
  assumes "masked_by L s" "L \<le> HAL_IRQ_PRIORITY_DEFAULT" "keeps_level L op"
  shows "masked_by L (irq_step op s)"
  using assms
proof (cases op)
  case (IrqDisable i)
  then show ?thesis using assms(1)
    by (simp add: hal_interrupt_layer armv7em_interrupt_disable_def masked_by_def Let_def irq_enabled_ICER del: push_bit_of_1)
next
  case (IrqAttach i cb)
  then show ?thesis using assms(1) by (simp add: hal_interrupt_attach_callback_def masked_by_def)
next
  case (IrqDetach i)
  then show ?thesis using assms(1) by (simp add: hal_interrupt_detach_callback_def masked_by_def)
next
  case (IrqClearPending i)
  then show ?thesis using assms(1)
    by (simp add: hal_interrupt_layer armv7em_interrupt_clear_pending_def masked_by_def Let_def)
next
  case IrqClearAllPending
  then show ?thesis using assms(1) by (simp add: hal_interrupt_layer masked_by_def clear_all_frame)
next
  case IrqMask
  then show ?thesis using assms(1) by (simp add: hal_interrupt_layer armv7em_interrupt_disable_global_def masked_by_def)
next
  case (IrqRestore v)
  then show ?thesis using assms(1) by (simp add: hal_interrupt_layer armv7em_interrupt_enable_global_def masked_by_def)
qed (simp_all add: hal_interrupt_layer enable_masked enable_with_masked set_priority_masked)

lemma irq_run_masked:
  assumes "masked_by L s" "L \<le> HAL_IRQ_PRIORITY_DEFAULT" "list_all (keeps_level L) ops"
  shows "masked_by L (irq_run ops s)"
  using assms unfolding irq_run_def
  by (induction ops arbitrary: s) (auto intro: irq_step_masked)

text \<open>The table as calls leave it: the last attach or detach of a line wins.\<close>

primrec irq_table_step :: "nat \<Rightarrow> irq_op \<Rightarrow> callback option \<Rightarrow> callback option" where
  "irq_table_step n (IrqAttach i cb) c = (if i = int n \<and> cb \<noteq> None then cb else c)"
| "irq_table_step n (IrqDetach i) c = (if i = int n then None else c)"
| "irq_table_step n (IrqEnable i) c = c"
| "irq_table_step n (IrqEnableWith i p) c = c"
| "irq_table_step n (IrqDisable i) c = c"
| "irq_table_step n (IrqSetPriority i p) c = c"
| "irq_table_step n (IrqClearPending i) c = c"
| "irq_table_step n IrqClearAllPending c = c"
| "irq_table_step n IrqMask c = c"
| "irq_table_step n (IrqRestore v) c = c"

definition irq_table :: "irq_op list \<Rightarrow> nat \<Rightarrow> callback option" where
  "irq_table ops n = fold (irq_table_step n) ops None"

lemma enable_cb [simp]: "irq_cb (snd (armv7em_interrupt_enable i s)) = irq_cb s"
  by (simp add: armv7em_interrupt_enable_def enable_at_def Let_def)

lemma enable_with_cb [simp]: "irq_cb (snd (hal_interrupt_enable_with_priority i p s)) = irq_cb s"
proof -
  obtain st t where r: "armv7em_interrupt_set_priority i p s = (st, t)" by fastforce
  then have "irq_cb t = irq_cb s" using set_priority_enabled(3) [of i p s] by simp
  then show ?thesis using r by (simp add: hal_interrupt_enable_with_priority_def)
qed

lemma irq_step_table:
  assumes "n < HAL_IRQ_COUNT"
  shows "irq_cb (irq_step op s) n = irq_table_step n op (irq_cb s n)"
proof -
  have i: "i = int n" if "nat i = n" "0 \<le> i" for i using that by auto
  show ?thesis
    using assms
    by (cases op)
      (auto simp: hal_interrupt_layer armv7em_interrupt_disable_def armv7em_interrupt_clear_pending_def
        armv7em_interrupt_disable_global_def armv7em_interrupt_enable_global_def hal_interrupt_attach_callback_def
        hal_interrupt_detach_callback_def irq_indexes_table_def clear_all_frame Let_def dest: i)
qed

lemma irq_run_table:
  assumes "n < HAL_IRQ_COUNT" "irq_cb s n = c"
  shows "irq_cb (irq_run ops s) n = fold (irq_table_step n) ops c"
  using assms(2) unfolding irq_run_def
  by (induction ops arbitrary: s c) (simp_all add: irq_step_table [OF assms(1)])

section \<open>Properties\<close>


definition nvic_fresh :: nvic where
  "nvic_fresh = \<lparr>nvic_enabled = (\<lambda>_. 0), nvic_pending = (\<lambda>_. 0), NVIC_IPR = (\<lambda>_. 0), SCB_SHPR1 = 0, SCB_SHPR2 = 0,
     SCB_SHPR3 = 0, cpu_primask = 0, irq_cb = (\<lambda>_. None)\<rparr>"


text \<open>The vector fallback is the callback table. Whatever calls were made before, an exception that
  lands in the fallback runs the callback attached last to its line, exactly once, and traps if the
  line has none, was detached, or is not one the table covers.\<close>

theorem fallback_runs_the_attached_callback:
  assumes "irq_cb s = (\<lambda>_. None)"
  shows "hal_irq_default_dispatch run ipsr (irq_run ops s) =
    (let e = unat (ipsr AND 0x1FF) in
     if 16 \<le> e \<and> e < 16 + HAL_IRQ_COUNT
     then map_option (\<lambda>cb. run cb (irq_run ops s)) (irq_table ops (e - 16)) else None)"
proof -
  let ?x = "ipsr AND 0x1FF" and ?S = "irq_run ops s"
  show ?thesis
  proof (cases "16 \<le> unat ?x")
    case True
    then have ge: "?x \<ge> 16" by (simp add: word_le_nat_alt)
    have "unat (?x - 16) = unat ?x - 16" using True by (simp add: unat_sub word_le_nat_alt)
    moreover define m where "m = unat ?x - 16"
    ultimately have "uint (?x - 16) = int m" by (simp only: uint_nat)
    then have d: "hal_irq_default_dispatch run ipsr ?S =
        (case navhal_irq_invoke run (int m) ?S of (True, s1) \<Rightarrow> Some s1 | (False, s1) \<Rightarrow> None)"
      using ge by (simp only: hal_irq_default_dispatch_def Let_def if_True)
    have "irq_cb ?S n = irq_table ops n" if "n < HAL_IRQ_COUNT" for n
      using irq_run_table [OF that, of s None ops] assms by (simp add: irq_table_def)
    then have "navhal_irq_invoke run (int n) ?S = (if n < HAL_IRQ_COUNT then
        (case irq_table ops n of None \<Rightarrow> (False, ?S) | Some cb \<Rightarrow> (True, run cb ?S)) else (False, ?S))" for n
      by (simp add: navhal_irq_invoke_def irq_indexes_table_def)
    moreover have "unat ?x = m + 16" using True by (simp add: m_def)
    ultimately show ?thesis unfolding d Let_def by (simp split: option.split)
  next
    case False
    then have "\<not> ?x \<ge> 16" by (simp add: word_le_nat_alt)
    then show ?thesis using False by (simp only: hal_irq_default_dispatch_def Let_def if_False simp_thms)
  qed
qed

theorem fallback_runs_the_attached_callback_witness:
  "hal_irq_default_dispatch (\<lambda>cb s. s\<lparr>cpu_primask := of_nat cb\<rparr>) 0x01000036
     (irq_run [IrqAttach 38 (Some 5), IrqAttach 38 (Some 7), IrqDetach 37] nvic_fresh) =
   Some ((irq_run [IrqAttach 38 (Some 5), IrqAttach 38 (Some 7), IrqDetach 37] nvic_fresh)\<lparr>cpu_primask := 7\<rparr>)"
  using fallback_runs_the_attached_callback [where s = nvic_fresh and run = "\<lambda>cb s. s\<lparr>cpu_primask := of_nat cb\<rparr>" and ipsr = "0x01000036"
      and ops = "[IrqAttach 38 (Some 5), IrqAttach 38 (Some 7), IrqDetach 37]"]
  by (simp add: nvic_fresh_def HAL_IRQ_COUNT_def irq_table_def)

text \<open>Priorities read back: a level the four priority bits hold, set on a wired line or a
  configurable system exception, is what is read back there, and every other priority is untouched;
  anything else is refused and changes nothing.\<close>

theorem priority_roundtrip:
  "case hal_interrupt_set_priority irq p s of (st, s') \<Rightarrow>
     if p \<le> 15 \<and> (0 \<le> irq \<and> irq < int HAL_IRQ_COUNT \<or> irq \<in> {-12, -11, -10, -5, -2, -1})
     then st = HAL_OK \<and> hal_interrupt_get_priority irq s' = p \<and>
       (\<forall>j. j \<noteq> irq \<longrightarrow> hal_interrupt_get_priority j s' = hal_interrupt_get_priority j s)
     else st \<noteq> HAL_OK \<and> s' = s"
proof -
  obtain st s' where r: "armv7em_interrupt_set_priority irq p s = (st, s')" by fastforce
  have st: "st = HAL_OK \<longleftrightarrow> p \<le> 15 \<and> (0 \<le> irq \<and> irq < int HAL_IRQ_COUNT \<or> irq \<in> {-12, -11, -10, -5, -2, -1})"
    "st \<noteq> HAL_OK \<Longrightarrow> s' = s"
    using r by (auto simp: armv7em_interrupt_set_priority_def priority_ok not_less Let_def irqn_defs split: if_splits)
  have ok: "armv7em_interrupt_get_priority irq s' = p \<and>
      (\<forall>j. j \<noteq> irq \<longrightarrow> armv7em_interrupt_get_priority j s' = armv7em_interrupt_get_priority j s)" if "st = HAL_OK"
    using set_get_priority [OF r [unfolded that]] by blast
  show ?thesis
    using r st ok by (simp add: hal_interrupt_layer)
qed

theorem priority_roundtrip_witness:
  "hal_interrupt_get_priority (-2) (snd (hal_interrupt_set_priority (-2) 15 nvic_fresh)) = 15"
  using priority_roundtrip [where irq = "-2" and p = 15 and s = nvic_fresh] by (auto split: prod.splits)

text \<open>Disabling one line disables its whole bank: the clear-enable register reads as the enabled
  lines, and the driver's \<open>|=\<close> writes all of them back as ones to clear.\<close>

theorem disable_masks_the_whole_bank:
  assumes "0 \<le> irq"
  shows "\<exists>s'. hal_interrupt_disable irq s = (HAL_OK, s') \<and>
    (\<forall>j. irq_enabled j s' \<longleftrightarrow> irq_enabled j s \<and> j div 32 \<noteq> nat irq div 32)"
  using assms
  by (auto simp: hal_interrupt_layer armv7em_interrupt_disable_def Let_def irq_enabled_ICER simp del: push_bit_of_1)

theorem disable_masks_the_whole_bank_witness:
  "\<not> irq_enabled 38 (snd (hal_interrupt_disable 37 (snd (hal_interrupt_enable 38 nvic_fresh))))"
  using disable_masks_the_whole_bank [of 37 "snd (hal_interrupt_enable 38 nvic_fresh)"] by auto

text \<open>A line past the table is enabled at the reset level 0: the refused priority is not looked at.\<close>

lemma unwired_line_enabled_at_reset_level:
  "fst (hal_interrupt_enable 90 nvic_fresh) = HAL_OK"
  "hal_interrupt_get_priority 90 (snd (hal_interrupt_enable 90 nvic_fresh)) = 0"
  by (simp_all add: hal_interrupt_layer armv7em_interrupt_enable_def enable_at_def Let_def armv7em_interrupt_set_priority_def
      HAL_IRQ_COUNT_def) (simp add: armv7em_interrupt_get_priority_def nvic_fresh_def)

text \<open>A critical section leaves the mask as it found it.\<close>

lemma critical_section_restores:
  assumes "hal_interrupt_disable_global s = (st, s1)" "cpu_primask s \<in> {0, 1}"
  shows "cpu_primask s1 = 1" "cpu_primask (hal_interrupt_enable_global st (s1\<lparr>cpu_primask := v\<rparr>)) = cpu_primask s"
  using assms
  by (auto simp: hal_interrupt_layer armv7em_interrupt_disable_global_def armv7em_interrupt_enable_global_def msr_primask_def)

end
