(* ===== verification/Mpu.thy ===== *)
theory Mpu
  imports Prelude
begin

text \<open>
  The memory protection unit driver, src/arch/armv7e-m/mpu/mpu.c: descriptor validation, the
  register encoders, per-region programming and the bulk fast path.

  The unit is a table of (RBAR, RASR) pairs behind RNR: a write to RASR goes to the region RNR
  names, a write to RBAR with VALID set first moves RNR to the region in its low bits. An
  operation is the list of register writes it makes, so that every state in between is visible.
  What a pair of register values protects is \<open>region_hit\<close>, after the architecture manual.
\<close>

section \<open>Registers\<close>

record mpu =
  MPU_TYPE :: u32
  MPU_CTRL :: u32
  MPU_RNR :: u32
  mpu_rbar :: "nat \<Rightarrow> u32"
  mpu_rasr :: "nat \<Rightarrow> u32"

definition MPU_RBAR_ADDR_MASK :: u32 where "MPU_RBAR_ADDR_MASK = 0xFFFFFFE0"
definition MPU_RBAR_VALID :: u32 where "MPU_RBAR_VALID = push_bit 4 1"
definition MPU_RBAR_REGION_MASK :: u32 where "MPU_RBAR_REGION_MASK = 0x0F"
definition MPU_RASR_ENABLE :: u32 where "MPU_RASR_ENABLE = push_bit 0 1"
definition MPU_RASR_SIZE_POS :: nat where "MPU_RASR_SIZE_POS = 1"
definition MPU_RASR_SRD_POS :: nat where "MPU_RASR_SRD_POS = 8"
definition MPU_RASR_B :: u32 where "MPU_RASR_B = push_bit 16 1"
definition MPU_RASR_C :: u32 where "MPU_RASR_C = push_bit 17 1"
definition MPU_RASR_S :: u32 where "MPU_RASR_S = push_bit 18 1"
definition MPU_RASR_TEX_POS :: nat where "MPU_RASR_TEX_POS = 19"
definition MPU_RASR_AP_POS :: nat where "MPU_RASR_AP_POS = 24"
definition MPU_RASR_XN :: u32 where "MPU_RASR_XN = push_bit 28 1"
definition MPU_CTRL_ENABLE :: u32 where "MPU_CTRL_ENABLE = push_bit 0 1"
definition MPU_CTRL_PRIVDEFENA :: u32 where "MPU_CTRL_PRIVDEFENA = push_bit 2 1"
definition MPU_TYPE_DREGION_POS :: nat where "MPU_TYPE_DREGION_POS = 8"
definition MPU_TYPE_DREGION_MASK :: u32 where "MPU_TYPE_DREGION_MASK = 0xFF"

lemmas rasr_defs = MPU_RASR_ENABLE_def MPU_RASR_SIZE_POS_def MPU_RASR_SRD_POS_def MPU_RASR_B_def MPU_RASR_C_def
  MPU_RASR_S_def MPU_RASR_TEX_POS_def MPU_RASR_AP_POS_def MPU_RASR_XN_def
lemmas rbar_defs = MPU_RBAR_ADDR_MASK_def MPU_RBAR_VALID_def MPU_RBAR_REGION_MASK_def

datatype mpu_write = Write_CTRL u32 | Write_RNR u32 | Write_RBAR u32 | Write_RASR u32

primrec mpu_store :: "mpu_write \<Rightarrow> mpu \<Rightarrow> mpu" where
  "mpu_store (Write_CTRL v) s = s\<lparr>MPU_CTRL := v\<rparr>"
| "mpu_store (Write_RNR v) s = s\<lparr>MPU_RNR := v\<rparr>"
| "mpu_store (Write_RBAR v) s =
     (let n = (if v AND MPU_RBAR_VALID \<noteq> 0 then v AND MPU_RBAR_REGION_MASK else MPU_RNR s)
      in s\<lparr>MPU_RNR := n, mpu_rbar := (mpu_rbar s)(unat n := v AND MPU_RBAR_ADDR_MASK)\<rparr>)"
| "mpu_store (Write_RASR v) s = s\<lparr>mpu_rasr := (mpu_rasr s)(unat (MPU_RNR s) := v)\<rparr>"

definition mpu_exec :: "mpu_write list \<Rightarrow> mpu \<Rightarrow> mpu" where
  "mpu_exec ws s = fold mpu_store ws s"

section \<open>Descriptors and encoders\<close>

datatype hal_mpu_ap = HAL_MPU_AP_NONE | HAL_MPU_AP_PRIV_RW | HAL_MPU_AP_PRIV_RW_UNPRIV_RO | HAL_MPU_AP_RW
  | HAL_MPU_AP_PRIV_RO | HAL_MPU_AP_RO

datatype hal_mpu_mem = HAL_MPU_MEM_STRONGLY_ORDERED | HAL_MPU_MEM_DEVICE | HAL_MPU_MEM_NORMAL_WT
  | HAL_MPU_MEM_NORMAL_WB | HAL_MPU_MEM_NORMAL_NONCACHE

definition HAL_MPU_SIZE_32B :: nat where "HAL_MPU_SIZE_32B = 4"
definition HAL_MPU_SIZE_256B :: nat where "HAL_MPU_SIZE_256B = 7"
definition HAL_MPU_SIZE_4GB :: nat where "HAL_MPU_SIZE_4GB = 31"

lemmas mpu_sizes = HAL_MPU_SIZE_32B_def HAL_MPU_SIZE_256B_def HAL_MPU_SIZE_4GB_def

record hal_mpu_region =
  rg_base :: u32
  rg_size :: nat
  rg_ap :: hal_mpu_ap
  rg_mem :: hal_mpu_mem
  rg_executable :: bool
  rg_shareable :: bool
  rg_srd_mask :: u8

record hal_mpu_encoded =
  enc_rbar :: u32
  enc_rasr :: u32

fun attr_bits :: "hal_mpu_mem \<Rightarrow> u32" where
  "attr_bits HAL_MPU_MEM_STRONGLY_ORDERED = 0"
| "attr_bits HAL_MPU_MEM_DEVICE = MPU_RASR_B"
| "attr_bits HAL_MPU_MEM_NORMAL_WT = MPU_RASR_C"
| "attr_bits HAL_MPU_MEM_NORMAL_WB = MPU_RASR_C OR MPU_RASR_B"
| "attr_bits HAL_MPU_MEM_NORMAL_NONCACHE = push_bit MPU_RASR_TEX_POS 1"

fun ap_field :: "hal_mpu_ap \<Rightarrow> u32" where
  "ap_field HAL_MPU_AP_NONE = 0"
| "ap_field HAL_MPU_AP_PRIV_RW = 1"
| "ap_field HAL_MPU_AP_PRIV_RW_UNPRIV_RO = 2"
| "ap_field HAL_MPU_AP_RW = 3"
| "ap_field HAL_MPU_AP_PRIV_RO = 5"
| "ap_field HAL_MPU_AP_RO = 6"

definition encode_rasr :: "hal_mpu_region \<Rightarrow> u32" where
  "encode_rasr r =
     MPU_RASR_ENABLE OR push_bit MPU_RASR_SIZE_POS (word_of_nat (rg_size r) AND 0x1F)
     OR push_bit MPU_RASR_SRD_POS (ucast (rg_srd_mask r)) OR attr_bits (rg_mem r)
     OR (if rg_shareable r then MPU_RASR_S else 0)
     OR push_bit MPU_RASR_AP_POS (ap_field (rg_ap r))
     OR (if \<not> rg_executable r then MPU_RASR_XN else 0)"

definition encode_rbar :: "u32 \<Rightarrow> hal_mpu_region \<Rightarrow> u32" where
  "encode_rbar idx r = (rg_base r AND MPU_RBAR_ADDR_MASK) OR MPU_RBAR_VALID OR (idx AND MPU_RBAR_REGION_MASK)"

section \<open>The driver\<close>

definition hal_mpu_num_regions :: "mpu \<Rightarrow> u32" where
  "hal_mpu_num_regions s = drop_bit MPU_TYPE_DREGION_POS (MPU_TYPE s) AND MPU_TYPE_DREGION_MASK"

definition hal_mpu_present :: "mpu \<Rightarrow> bool" where
  "hal_mpu_present s \<longleftrightarrow> drop_bit MPU_TYPE_DREGION_POS (MPU_TYPE s) AND MPU_TYPE_DREGION_MASK \<noteq> 0"

definition mpu_validate :: "u32 \<Rightarrow> hal_mpu_region option \<Rightarrow> mpu \<Rightarrow> hal_status" where
  "mpu_validate idx r s =
     (case r of None \<Rightarrow> HAL_ERR_INVALID_ARG
      | Some r \<Rightarrow>
          if idx \<ge> hal_mpu_num_regions s then HAL_ERR_INVALID_ARG
          else if rg_size r < HAL_MPU_SIZE_32B \<or> rg_size r > HAL_MPU_SIZE_4GB then HAL_ERR_INVALID_ARG
          else let bytes = push_bit (rg_size r + 1) 1 :: u64 in
            if (ucast (rg_base r) :: u64) AND (bytes - 1) \<noteq> 0 then HAL_ERR_INVALID_ARG
            else if rg_srd_mask r \<noteq> 0 \<and> rg_size r < HAL_MPU_SIZE_256B then HAL_ERR_INVALID_ARG
            else HAL_OK)"

text \<open>Each operation is its status and its register writes.\<close>

definition hal_mpu_enable :: "bool \<Rightarrow> mpu \<Rightarrow> hal_status \<times> mpu_write list" where
  "hal_mpu_enable bg_priv s =
     (if \<not> hal_mpu_present s then (HAL_ERR_NOT_SUPPORTED, [])
      else (HAL_OK, [Write_CTRL (MPU_CTRL_ENABLE OR (if bg_priv then MPU_CTRL_PRIVDEFENA else 0))]))"

definition hal_mpu_disable :: "mpu \<Rightarrow> hal_status \<times> mpu_write list" where
  "hal_mpu_disable s =
     (if \<not> hal_mpu_present s then (HAL_ERR_NOT_SUPPORTED, []) else (HAL_OK, [Write_CTRL 0]))"

definition hal_mpu_configure_region :: "u32 \<Rightarrow> hal_mpu_region option \<Rightarrow> mpu \<Rightarrow> hal_status \<times> mpu_write list" where
  "hal_mpu_configure_region idx r s =
     (if \<not> hal_mpu_present s then (HAL_ERR_NOT_SUPPORTED, [])
      else if mpu_validate idx r s \<noteq> HAL_OK then (mpu_validate idx r s, [])
      else (HAL_OK, [Write_RNR idx, Write_RASR 0, Write_RBAR (encode_rbar idx (the r)), Write_RASR (encode_rasr (the r))]))"

definition hal_mpu_disable_region :: "u32 \<Rightarrow> mpu \<Rightarrow> hal_status \<times> mpu_write list" where
  "hal_mpu_disable_region idx s =
     (if \<not> hal_mpu_present s then (HAL_ERR_NOT_SUPPORTED, [])
      else if idx \<ge> hal_mpu_num_regions s then (HAL_ERR_INVALID_ARG, [])
      else let s1 = mpu_store (Write_RNR idx) s
           in (HAL_OK, [Write_RNR idx, Write_RASR (mpu_rasr s1 (unat (MPU_RNR s1)) AND NOT MPU_RASR_ENABLE)]))"

definition hal_mpu_encode :: "u32 \<Rightarrow> hal_mpu_region option \<Rightarrow> bool \<Rightarrow> mpu \<Rightarrow> hal_status \<times> hal_mpu_encoded option" where
  "hal_mpu_encode idx r out_given s =
     (if \<not> hal_mpu_present s then (HAL_ERR_NOT_SUPPORTED, None)
      else if \<not> out_given then (HAL_ERR_INVALID_ARG, None)
      else if mpu_validate idx r s \<noteq> HAL_OK then (mpu_validate idx r s, None)
      else (HAL_OK, Some \<lparr>enc_rbar = encode_rbar idx (the r), enc_rasr = encode_rasr (the r)\<rparr>))"

definition hal_mpu_apply :: "hal_mpu_encoded list option \<Rightarrow> mpu \<Rightarrow> hal_status \<times> mpu_write list" where
  "hal_mpu_apply entries s =
     (if \<not> hal_mpu_present s then (HAL_ERR_NOT_SUPPORTED, [])
      else case entries of None \<Rightarrow> (HAL_ERR_INVALID_ARG, [])
      | Some es \<Rightarrow>
          if length es > unat (hal_mpu_num_regions s) then (HAL_ERR_INVALID_ARG, [])
          else (HAL_OK, concat (map (\<lambda>e. [Write_RBAR (enc_rbar e), Write_RASR (enc_rasr e)]) es)))"

section \<open>What a region register pair protects\<close>

definition rasr_size :: "u32 \<Rightarrow> nat" where
  "rasr_size v = unat (drop_bit 1 v AND 0x1F)"

text \<open>The comparator: enabled, address bits above the size equal, subregion not disabled.\<close>

definition region_hit :: "u32 \<Rightarrow> u32 \<Rightarrow> u32 \<Rightarrow> bool" where
  "region_hit rbar rasr addr \<longleftrightarrow> bit rasr 0 \<and>
     drop_bit (rasr_size rasr + 1) addr = drop_bit (rasr_size rasr + 1) rbar \<and>
     \<not> (7 \<le> rasr_size rasr \<and> bit rasr (8 + unat (drop_bit (rasr_size rasr - 2) addr AND 7)))"

definition region_covers :: "hal_mpu_region \<Rightarrow> nat \<Rightarrow> bool" where
  "region_covers r a \<longleftrightarrow> unat (rg_base r) \<le> a \<and> a < unat (rg_base r) + 2 ^ (rg_size r + 1) \<and>
     \<not> bit (rg_srd_mask r) ((a - unat (rg_base r)) div 2 ^ (rg_size r - 2))"

fun decode_ap :: "u32 \<Rightarrow> hal_mpu_ap option" where
  "decode_ap v =
     (if v = 0 then Some HAL_MPU_AP_NONE else if v = 1 then Some HAL_MPU_AP_PRIV_RW
      else if v = 2 then Some HAL_MPU_AP_PRIV_RW_UNPRIV_RO else if v = 3 then Some HAL_MPU_AP_RW
      else if v = 5 then Some HAL_MPU_AP_PRIV_RO else if v = 6 then Some HAL_MPU_AP_RO else None)"

text \<open>TEX, C and B of the architecture, for the attributes the driver offers.\<close>

fun decode_mem :: "u32 \<Rightarrow> bool \<Rightarrow> bool \<Rightarrow> hal_mpu_mem option" where
  "decode_mem tex c b =
     (if tex = 0 then Some (if c then (if b then HAL_MPU_MEM_NORMAL_WB else HAL_MPU_MEM_NORMAL_WT)
        else if b then HAL_MPU_MEM_DEVICE else HAL_MPU_MEM_STRONGLY_ORDERED)
      else if tex = 1 \<and> \<not> c \<and> \<not> b then Some HAL_MPU_MEM_NORMAL_NONCACHE else None)"

definition region_of :: "u32 \<Rightarrow> u32 \<Rightarrow> hal_mpu_region option" where
  "region_of rbar rasr =
     (case (decode_ap (drop_bit 24 rasr AND 7), decode_mem (drop_bit 19 rasr AND 7) (bit rasr 17) (bit rasr 16)) of
        (Some ap, Some mem) \<Rightarrow>
          if bit rasr 0 then Some \<lparr>rg_base = rbar AND MPU_RBAR_ADDR_MASK, rg_size = rasr_size rasr, rg_ap = ap,
            rg_mem = mem, rg_executable = (\<not> bit rasr 28), rg_shareable = bit rasr 18,
            rg_srd_mask = ucast (drop_bit 8 rasr AND 0xFF)\<rparr> else None
      | _ \<Rightarrow> None)"

section \<open>The encoders\<close>

lemma bit_1_at: "bit (push_bit k 1 :: u32) n \<longleftrightarrow> n = k \<and> k < 32"
  by (auto simp: bit_push_bit_iff bit_1_iff simp del: push_bit_of_1)

lemma attr_bits_bit: "bit (attr_bits m) n \<longleftrightarrow>
    n = 16 \<and> (m = HAL_MPU_MEM_DEVICE \<or> m = HAL_MPU_MEM_NORMAL_WB) \<or>
    n = 17 \<and> (m = HAL_MPU_MEM_NORMAL_WT \<or> m = HAL_MPU_MEM_NORMAL_WB) \<or>
    n = 19 \<and> m = HAL_MPU_MEM_NORMAL_NONCACHE"
  by (cases m) (auto simp: MPU_RASR_B_def MPU_RASR_C_def MPU_RASR_TEX_POS_def bit_1_at bit_or_iff simp del: push_bit_of_1)

lemma ap_field_bit: "bit (ap_field a) n \<Longrightarrow> n < 3"
proof -
  assume b: "bit (ap_field a) n"
  have "ap_field a AND mask 3 = ap_field a"
    by (rule and_mask_small) (cases a; simp)
  then show ?thesis using b by (metis bit_and_iff bit_mask_iff)
qed

lemma bit_shifted:
  fixes v :: u32
  assumes "\<And>n. bit v n \<Longrightarrow> k + n < 32"
  shows "bit (push_bit k v) n \<longleftrightarrow> k \<le> n \<and> bit v (n - k)"
  using assms [of "n - k"] by (auto simp: bit_push_bit_iff)

lemma encode_rasr_bit:
  assumes "rg_size r \<le> 31"
  shows "bit (encode_rasr r) n \<longleftrightarrow> n = 0 \<or> 1 \<le> n \<and> bit (word_of_nat (rg_size r) AND mask 5 :: u32) (n - 1) \<or>
     8 \<le> n \<and> bit (rg_srd_mask r) (n - 8) \<or> bit (attr_bits (rg_mem r)) n \<or> n = 18 \<and> rg_shareable r \<or>
     24 \<le> n \<and> bit (ap_field (rg_ap r)) (n - 24) \<or> n = 28 \<and> \<not> rg_executable r"
proof -
  have m: "(0x1F :: u32) = mask 5" by (simp add: mask_eq_exp_minus_1)
  have "bit (push_bit 1 (word_of_nat (rg_size r) AND mask 5 :: u32)) n \<longleftrightarrow>
      1 \<le> n \<and> bit (word_of_nat (rg_size r) AND mask 5 :: u32) (n - 1)"
    by (rule bit_shifted) (simp add: bit_and_iff bit_mask_iff)
  moreover have "bit (push_bit 8 (ucast (rg_srd_mask r) :: u32)) n \<longleftrightarrow> 8 \<le> n \<and> bit (ucast (rg_srd_mask r) :: u32) (n - 8)"
    by (rule bit_shifted) (auto simp: bit_ucast_iff dest: bit_imp_le_length)
  moreover have "bit (ucast (rg_srd_mask r) :: u32) (n - 8) = bit (rg_srd_mask r) (n - 8)"
    by (auto simp: bit_ucast_iff dest: bit_imp_le_length)
  moreover have "bit (push_bit 24 (ap_field (rg_ap r))) n \<longleftrightarrow> 24 \<le> n \<and> bit (ap_field (rg_ap r)) (n - 24)"
    by (rule bit_shifted) (auto dest: ap_field_bit)
  moreover have "bit (if rg_shareable r then push_bit 18 1 else (0 :: u32)) n \<longleftrightarrow> n = 18 \<and> rg_shareable r"
    "bit (if \<not> rg_executable r then push_bit 28 1 else (0 :: u32)) n \<longleftrightarrow> n = 28 \<and> \<not> rg_executable r"
    "bit (push_bit 0 1 :: u32) n \<longleftrightarrow> n = 0"
    using bit_1_at [of 18 n] bit_1_at [of 28 n] bit_1_at [of 0 n] by (simp_all del: push_bit_of_1 push_bit_0_id)
  ultimately show ?thesis unfolding encode_rasr_def m rasr_defs bit_or_iff by argo
qed

lemma encode_rasr_fields:
  assumes "rg_size r \<le> 31"
  shows "rasr_size (encode_rasr r) = rg_size r" "bit (encode_rasr r) 0"
    "n < 8 \<Longrightarrow> bit (encode_rasr r) (8 + n) = bit (rg_srd_mask r) n"
    "ucast (drop_bit 8 (encode_rasr r) AND 0xFF) = rg_srd_mask r"
    "drop_bit 24 (encode_rasr r) AND 7 = ap_field (rg_ap r)"
    "drop_bit 19 (encode_rasr r) AND 7 = (if rg_mem r = HAL_MPU_MEM_NORMAL_NONCACHE then 1 else 0)"
    "bit (encode_rasr r) 16 \<longleftrightarrow> rg_mem r = HAL_MPU_MEM_DEVICE \<or> rg_mem r = HAL_MPU_MEM_NORMAL_WB"
    "bit (encode_rasr r) 17 \<longleftrightarrow> rg_mem r = HAL_MPU_MEM_NORMAL_WT \<or> rg_mem r = HAL_MPU_MEM_NORMAL_WB"
    "bit (encode_rasr r) 18 = rg_shareable r" "bit (encode_rasr r) 28 \<longleftrightarrow> \<not> rg_executable r"
proof -
  note b = encode_rasr_bit [OF assms] and a = attr_bits_bit
  have m: "(0x1F :: u32) = mask 5" "(0xFF :: u32) = mask 8" "(7 :: u32) = mask 3" by (simp_all add: mask_eq_exp_minus_1)
  have s: "\<not> bit (word_of_nat (rg_size r) AND mask 5 :: u32) n" if "5 \<le> n" for n using that by (simp add: bit_and_iff bit_mask_iff)
  have d: "\<not> bit (rg_srd_mask r) n" if "8 \<le> n" for n using bit_imp_le_length [of "rg_srd_mask r" n] that by auto
  have p: "\<not> bit (ap_field (rg_ap r)) n" if "3 \<le> n" for n using ap_field_bit [of "rg_ap r" n] that by auto
  have u: "unat (word_of_nat (rg_size r) :: u32) = rg_size r" using assms by (simp add: unat_of_nat take_bit_nat_eq_self)
  have w: "(word_of_nat (rg_size r) :: u32) AND mask 5 = word_of_nat (rg_size r)"
    using assms u by (intro and_mask_small) simp
  have "drop_bit 1 (encode_rasr r) AND mask 5 = (word_of_nat (rg_size r) AND mask 5 :: u32)"
    by (rule bit_word_eqI) (auto simp: bit_and_iff bit_drop_bit_eq bit_mask_iff b a)
  then show "rasr_size (encode_rasr r) = rg_size r" unfolding rasr_size_def m w by (simp only: u)
  show "bit (encode_rasr r) 0" "n < 8 \<Longrightarrow> bit (encode_rasr r) (8 + n) = bit (rg_srd_mask r) n"
    "bit (encode_rasr r) 16 \<longleftrightarrow> rg_mem r = HAL_MPU_MEM_DEVICE \<or> rg_mem r = HAL_MPU_MEM_NORMAL_WB"
    "bit (encode_rasr r) 17 \<longleftrightarrow> rg_mem r = HAL_MPU_MEM_NORMAL_WT \<or> rg_mem r = HAL_MPU_MEM_NORMAL_WB"
    "bit (encode_rasr r) 18 = rg_shareable r" "bit (encode_rasr r) 28 \<longleftrightarrow> \<not> rg_executable r"
    by (auto simp: b a s d p)
  show "ucast (drop_bit 8 (encode_rasr r) AND 0xFF) = rg_srd_mask r" unfolding m
    by (rule bit_word_eqI) (auto simp: bit_ucast_iff bit_and_iff bit_drop_bit_eq bit_mask_iff b a s d p)
  show "drop_bit 24 (encode_rasr r) AND 7 = ap_field (rg_ap r)" unfolding m
    by (rule bit_word_eqI) (use p in \<open>auto simp: bit_and_iff bit_drop_bit_eq bit_mask_iff b a s d p dest: ap_field_bit\<close>)
  show "drop_bit 19 (encode_rasr r) AND 7 = (if rg_mem r = HAL_MPU_MEM_NORMAL_NONCACHE then 1 else 0)" unfolding m
    by (rule bit_word_eqI) (auto simp: bit_and_iff bit_drop_bit_eq bit_mask_iff b a s d p bit_1_iff)
qed

lemma encode_rbar_addr: "encode_rbar idx r AND MPU_RBAR_ADDR_MASK = rg_base r AND MPU_RBAR_ADDR_MASK"
  "encode_rbar idx r AND MPU_RBAR_VALID \<noteq> 0" "encode_rbar idx r AND MPU_RBAR_REGION_MASK = idx AND MPU_RBAR_REGION_MASK"
proof -
  have "(0xFFFFFFE0 :: u32) AND 0x10 = 0" "(0xFFFFFFE0 :: u32) AND 0xF = 0" "(0x10 :: u32) AND 0xF = 0" by simp_all
  then show "encode_rbar idx r AND MPU_RBAR_ADDR_MASK = rg_base r AND MPU_RBAR_ADDR_MASK"
    "encode_rbar idx r AND MPU_RBAR_REGION_MASK = idx AND MPU_RBAR_REGION_MASK"
    by (simp_all add: encode_rbar_def rbar_defs bit.conj_disj_distrib bit.conj_disj_distrib2 and.assoc ac_simps)
  have "bit (encode_rbar idx r AND MPU_RBAR_VALID) 4"
    using bit_1_at [of 4 4] by (simp add: encode_rbar_def MPU_RBAR_VALID_def bit_and_iff bit_or_iff del: push_bit_of_1)
  then show "encode_rbar idx r AND MPU_RBAR_VALID \<noteq> 0" by auto
qed

lemma decode_encoded: "decode_ap (ap_field a) = Some a"
  "decode_mem (if m = HAL_MPU_MEM_NORMAL_NONCACHE then 1 else 0) (m = HAL_MPU_MEM_NORMAL_WT \<or> m = HAL_MPU_MEM_NORMAL_WB)
     (m = HAL_MPU_MEM_DEVICE \<or> m = HAL_MPU_MEM_NORMAL_WB) = Some m"
  by (cases a; simp) (cases m; simp)

section \<open>Validation\<close>

lemma unat_and_mask: "unat (x AND mask k) = unat x mod 2 ^ k"
  by (simp only: take_bit_eq_mask [symmetric] unsigned_take_bit_eq) (simp add: take_bit_eq_mod)

lemma unat_drop: "unat (drop_bit k (x :: u32)) = unat x div 2 ^ k"
proof -
  have "unat (drop_bit k x) = drop_bit k (take_bit LENGTH(32) (unat x))" by (rule unsigned_drop_bit_eq)
  then show ?thesis using u32_bound [of x] by (simp add: drop_bit_eq_div take_bit_nat_eq_self)
qed

lemma validate_ok:
  "mpu_validate idx (Some r) s = HAL_OK \<longleftrightarrow> idx < hal_mpu_num_regions s \<and> 4 \<le> rg_size r \<and> rg_size r \<le> 31 \<and>
     2 ^ (rg_size r + 1) dvd unat (rg_base r) \<and> (rg_srd_mask r = 0 \<or> 7 \<le> rg_size r)"
proof -
  have "push_bit (rg_size r + 1) 1 - 1 = (mask (rg_size r + 1) :: u64)"
    by (simp add: mask_eq_exp_minus_1 push_bit_eq_mult)
  moreover have "(ucast (rg_base r) :: u64) AND mask (rg_size r + 1) = 0 \<longleftrightarrow> 2 ^ (rg_size r + 1) dvd unat (rg_base r)"
  proof -
    have "unat (ucast (rg_base r) :: u64) = unat (rg_base r)"
      using u32_bound [of "rg_base r"] by (simp add: unsigned_ucast_eq take_bit_nat_eq_self)
    then show ?thesis
      using unat_and_mask [of "ucast (rg_base r) :: u64" "rg_size r + 1"] unat_eq_0 dvd_eq_mod_eq_0 by metis
  qed
  ultimately show ?thesis
    by (auto simp: mpu_validate_def Let_def mpu_sizes not_le not_less split: if_splits)
qed

lemma validate_err: "mpu_validate idx r s \<noteq> HAL_OK \<Longrightarrow> mpu_validate idx r s = HAL_ERR_INVALID_ARG"
  by (auto simp: mpu_validate_def Let_def split: option.splits if_splits)

lemma addr_mask: "MPU_RBAR_ADDR_MASK = NOT (mask 5)"
  by (simp add: MPU_RBAR_ADDR_MASK_def mask_eq_exp_minus_1)

lemma aligned_base:
  assumes "2 ^ (k + 1) dvd unat b" "4 \<le> k"
  shows "b AND MPU_RBAR_ADDR_MASK = b"
proof -
  have "(2 :: nat) ^ 5 dvd 2 ^ (k + 1)" using assms(2) by (intro le_imp_power_dvd) simp
  from dvd_trans [OF this assms(1)] have "unat b mod 2 ^ 5 = 0" by (rule dvd_imp_mod_0)
  then have "b AND mask 5 = 0" using unat_and_mask [of b 5] unat_eq_0 by metis
  then have low: "n < 32 \<Longrightarrow> \<not> (bit b n \<and> n < 5)" for n
    using bit_and_iff [of b "mask 5" n] by (simp add: bit_mask_iff)
  show ?thesis unfolding addr_mask by (rule bit_word_eqI) (use low in \<open>auto simp: bit_and_iff bit_not_iff_eq bit_mask_iff\<close>)
qed

section \<open>The comparator covers the descriptor\<close>

lemma block_eq:
  fixes a b m :: nat
  assumes "m dvd b" "0 < m"
  shows "a div m = b div m \<longleftrightarrow> b \<le> a \<and> a < b + m"
proof -
  obtain q where b: "b = m * q" using assms(1) by blast
  have "a div m = q \<longleftrightarrow> m * q \<le> a \<and> a < m * q + m"
    using assms(2) by (metis add.commute div_nat_eqI less_eq_div_iff_mult_less_eq mult.commute mult_Suc order_refl
        div_less_iff_less_mult lessI less_Suc_eq_le mult_Suc_right dividend_less_times_div times_div_less_eq_dividend)
  then show ?thesis using assms(2) b by simp
qed

lemma subregion_index:
  fixes a b :: nat
  assumes "2 ^ (k + 3) dvd b" "b \<le> a" "a < b + 2 ^ (k + 3)"
  shows "a div 2 ^ k mod 8 = (a - b) div 2 ^ k" "(a - b) div 2 ^ k < 8"
proof -
  obtain q where b: "b = 2 ^ (k + 3) * q" using assms(1) by blast
  define d where "d = a - b"
  have a: "a = d + 2 ^ k * (8 * q)" using assms(2) b by (simp add: d_def power_add)
  have "d < 2 ^ k * 8" using assms(2,3) by (simp add: d_def power_add)
  then have d8: "d div 2 ^ k < 8" by (simp add: div_less_iff_less_mult mult.commute)
  then show "(a - b) div 2 ^ k < 8" by (simp add: d_def)
  have "a div 2 ^ k = d div 2 ^ k + 8 * q" unfolding a by (subst div_mult_self2) simp_all
  then show "a div 2 ^ k mod 8 = (a - b) div 2 ^ k" using d8 by (simp add: d_def)
qed

lemma region_hit_covers:
  assumes v: "mpu_validate idx (Some r) s = HAL_OK"
  shows "region_hit (encode_rbar idx r AND MPU_RBAR_ADDR_MASK) (encode_rasr r) addr \<longleftrightarrow> region_covers r (unat addr)"
proof -
  note g = v [unfolded validate_ok]
  let ?k = "rg_size r" and ?a = "unat addr" and ?b = "unat (rg_base r)"
  have le: "rg_size r \<le> 31" using g by simp
  note f = encode_rasr_fields [OF le]
  have base: "encode_rbar idx r AND MPU_RBAR_ADDR_MASK = rg_base r"
    using aligned_base [of ?k "rg_base r"] g by (simp add: encode_rbar_addr)
  have "drop_bit (?k + 1) addr = drop_bit (?k + 1) (rg_base r) \<longleftrightarrow> ?a div 2 ^ (?k + 1) = ?b div 2 ^ (?k + 1)"
    by (simp only: word_unat_eq_iff unat_drop)
  also have "\<dots> \<longleftrightarrow> ?b \<le> ?a \<and> ?a < ?b + 2 ^ (?k + 1)" using g by (intro block_eq) simp_all
  finally have hit: "drop_bit (?k + 1) addr = drop_bit (?k + 1) (rg_base r) \<longleftrightarrow> ?b \<le> ?a \<and> ?a < ?b + 2 ^ (?k + 1)" .
  have srd: "(7 \<le> ?k \<and> bit (encode_rasr r) (8 + unat (drop_bit (?k - 2) addr AND 7))) \<longleftrightarrow>
      bit (rg_srd_mask r) ((?a - ?b) div 2 ^ (?k - 2))" if "?b \<le> ?a \<and> ?a < ?b + 2 ^ (?k + 1)"
  proof (cases "7 \<le> ?k")
    case True
    then have k: "?k + 1 = (?k - 2) + 3" by simp
    have "(7 :: u32) = mask 3" by (simp add: mask_eq_exp_minus_1)
    then have "unat (drop_bit (?k - 2) addr AND 7) = ?a div 2 ^ (?k - 2) mod 8"
      using unat_and_mask [of "drop_bit (?k - 2) addr" 3] by (simp add: unat_drop)
    moreover have "2 ^ ((?k - 2) + 3) dvd ?b" "?b \<le> ?a" "?a < ?b + 2 ^ ((?k - 2) + 3)"
      using g that by (simp_all only: k [symmetric])
    note subregion_index [OF this]
    ultimately show ?thesis using f(3) True by simp
  qed (use g in simp)
  show ?thesis
    unfolding region_hit_def region_covers_def base f(1) hit using f(2) srd by blast
qed

lemma region_of_encoded:
  assumes v: "mpu_validate idx (Some r) s = HAL_OK"
  shows "region_of (encode_rbar idx r AND MPU_RBAR_ADDR_MASK) (encode_rasr r) = Some r"
proof -
  note g = v [unfolded validate_ok]
  have base: "rg_base r AND MPU_RBAR_ADDR_MASK = rg_base r"
    using aligned_base [of "rg_size r" "rg_base r"] g by simp
  have le: "rg_size r \<le> 31" using g by simp
  have enc: "encode_rbar idx r AND MPU_RBAR_ADDR_MASK = rg_base r" by (simp only: encode_rbar_addr base)
  show ?thesis
    unfolding region_of_def enc base encode_rasr_fields(1,4-10) [OF le] decode_encoded
    using encode_rasr_fields(2) [OF le] by simp
qed

section \<open>Programming the table\<close>

lemma region_number:
  assumes "idx < hal_mpu_num_regions s" "hal_mpu_num_regions s \<le> 16"
  shows "encode_rbar idx r AND MPU_RBAR_REGION_MASK = idx"
proof -
  have "unat idx < 2 ^ 4" using assms by (simp add: word_less_nat_alt word_le_nat_alt)
  then have "idx AND mask 4 = idx" by (rule and_mask_small)
  then show ?thesis by (simp add: encode_rbar_addr) (simp add: MPU_RBAR_REGION_MASK_def mask_eq_exp_minus_1)
qed

text \<open>The state after one descriptor has been written, by either path.\<close>

definition mpu_set_region :: "u32 \<Rightarrow> hal_mpu_region \<Rightarrow> mpu \<Rightarrow> mpu" where
  "mpu_set_region idx r s = s\<lparr>MPU_RNR := idx,
     mpu_rbar := (mpu_rbar s)(unat idx := encode_rbar idx r AND MPU_RBAR_ADDR_MASK),
     mpu_rasr := (mpu_rasr s)(unat idx := encode_rasr r)\<rparr>"

lemma configure_ok:
  "hal_mpu_configure_region idx (Some r) s = (HAL_OK, ws) \<longleftrightarrow> hal_mpu_present s \<and> mpu_validate idx (Some r) s = HAL_OK \<and>
     ws = [Write_RNR idx, Write_RASR 0, Write_RBAR (encode_rbar idx r), Write_RASR (encode_rasr r)]"
  by (auto simp: hal_mpu_configure_region_def split: if_splits)

lemma configure_exec:
  assumes "hal_mpu_configure_region idx (Some r) s = (HAL_OK, ws)" "hal_mpu_num_regions s \<le> 16"
  shows "mpu_exec ws s = mpu_set_region idx r s"
proof -
  have "idx < hal_mpu_num_regions s" "ws = [Write_RNR idx, Write_RASR 0, Write_RBAR (encode_rbar idx r), Write_RASR (encode_rasr r)]"
    using assms(1) by (simp_all add: configure_ok validate_ok)
  then show ?thesis
    using region_number [OF _ assms(2), of idx r]
    by (simp add: mpu_exec_def mpu_set_region_def encode_rbar_addr(2) Let_def)
qed

lemma apply_pair_exec:
  assumes "idx < hal_mpu_num_regions s" "hal_mpu_num_regions s \<le> 16"
  shows "mpu_exec [Write_RBAR (encode_rbar idx r), Write_RASR (encode_rasr r)] s = mpu_set_region idx r s"
  using region_number [OF assms, of r] by (simp add: mpu_exec_def mpu_set_region_def encode_rbar_addr(2) Let_def)

lemma mpu_exec_append: "mpu_exec (xs @ ys) s = mpu_exec ys (mpu_exec xs s)"
  by (simp add: mpu_exec_def)

lemma mpu_type_kept [simp]: "MPU_TYPE (mpu_set_region idx r s) = MPU_TYPE s"
  "hal_mpu_num_regions (mpu_set_region idx r s) = hal_mpu_num_regions s"
  "hal_mpu_present (mpu_set_region idx r s) = hal_mpu_present s"
  "mpu_validate i d (mpu_set_region idx r s) = mpu_validate i d s"
  by (simp_all add: mpu_set_region_def hal_mpu_num_regions_def hal_mpu_present_def mpu_validate_def split: option.split)

text \<open>A list of descriptors, configured one call at a time.\<close>

fun configure_all :: "(u32 \<times> hal_mpu_region) list \<Rightarrow> mpu \<Rightarrow> mpu" where
  "configure_all [] s = s"
| "configure_all ((idx, r) # ds) s = configure_all ds (mpu_exec (snd (hal_mpu_configure_region idx (Some r) s)) s)"

lemma configure_all_eq:
  assumes "hal_mpu_present s" "hal_mpu_num_regions s \<le> 16" "\<forall>(idx, r) \<in> set ds. mpu_validate idx (Some r) s = HAL_OK"
  shows "configure_all ds s = fold (\<lambda>(idx, r). mpu_set_region idx r) ds s"
  using assms
proof (induction ds arbitrary: s)
  case (Cons d ds)
  obtain idx r where d: "d = (idx, r)" by (cases d)
  have "hal_mpu_configure_region idx (Some r) s = (HAL_OK, snd (hal_mpu_configure_region idx (Some r) s))"
    using Cons.prems d by (simp add: hal_mpu_configure_region_def)
  from configure_exec [OF this Cons.prems(2)] show ?case using Cons d by simp
qed simp

lemma apply_writes_eq:
  assumes "hal_mpu_num_regions s \<le> 16" "\<forall>(idx, r) \<in> set ds. mpu_validate idx (Some r) s = HAL_OK"
  shows "mpu_exec (concat (map (\<lambda>e. [Write_RBAR (enc_rbar e), Write_RASR (enc_rasr e)])
      (map (\<lambda>(idx, r). \<lparr>enc_rbar = encode_rbar idx r, enc_rasr = encode_rasr r\<rparr>) ds))) s =
    fold (\<lambda>(idx, r). mpu_set_region idx r) ds s"
  using assms
proof (induction ds arbitrary: s)
  case (Cons d ds)
  obtain idx r where d: "d = (idx, r)" by (cases d)
  have "idx < hal_mpu_num_regions s" using Cons.prems(2) d by (simp add: validate_ok)
  from apply_pair_exec [OF this Cons.prems(1)] show ?case
    using Cons d mpu_exec_append [of "[Write_RBAR (encode_rbar idx r), Write_RASR (encode_rasr r)]"] by simp
qed (simp add: mpu_exec_def)

section \<open>Properties\<close>

text \<open>C36. A configured region protects what its descriptor says. When the call succeeds, the hardware
  comparator of that region then hits exactly the addresses from the base up to base plus size, less
  the disabled eighths, the region reads back as the very descriptor, and no other region, nor the
  control register, has changed.\<close>

theorem mpu_region_is_its_descriptor:
  assumes "hal_mpu_configure_region idx (Some r) s = (HAL_OK, ws)" "hal_mpu_num_regions s \<le> 16"
  shows "let t = mpu_exec ws s; i = unat idx in
     (\<forall>addr. region_hit (mpu_rbar t i) (mpu_rasr t i) addr \<longleftrightarrow> region_covers r (unat addr)) \<and>
     region_of (mpu_rbar t i) (mpu_rasr t i) = Some r \<and>
     (\<forall>j. j \<noteq> i \<longrightarrow> mpu_rbar t j = mpu_rbar s j \<and> mpu_rasr t j = mpu_rasr s j) \<and> MPU_CTRL t = MPU_CTRL s"
  using region_hit_covers [of idx r s] region_of_encoded [of idx r s] assms(1)
  unfolding configure_exec [OF assms] Let_def by (simp add: mpu_set_region_def configure_ok)

definition mpu_8 :: mpu where
  "mpu_8 = \<lparr>MPU_TYPE = 0x800, MPU_CTRL = 5, MPU_RNR = 0, mpu_rbar = (\<lambda>_. 0), mpu_rasr = (\<lambda>_. 0)\<rparr>"

definition ram_region :: hal_mpu_region where
  "ram_region = \<lparr>rg_base = 0x20008000, rg_size = 14, rg_ap = HAL_MPU_AP_PRIV_RW, rg_mem = HAL_MPU_MEM_NORMAL_WB,
     rg_executable = False, rg_shareable = True, rg_srd_mask = 0x81\<rparr>"

lemma mpu_8_facts: "hal_mpu_num_regions mpu_8 = 8" "hal_mpu_present mpu_8"
  "mpu_validate 3 (Some ram_region) mpu_8 = HAL_OK" "mpu_validate 2 (Some ram_region) mpu_8 = HAL_OK"
proof -
  show n: "hal_mpu_num_regions mpu_8 = 8"
    by (simp add: hal_mpu_num_regions_def mpu_8_def MPU_TYPE_DREGION_POS_def MPU_TYPE_DREGION_MASK_def)
  show "hal_mpu_present mpu_8"
    by (simp add: hal_mpu_present_def mpu_8_def MPU_TYPE_DREGION_POS_def MPU_TYPE_DREGION_MASK_def)
  show "mpu_validate 3 (Some ram_region) mpu_8 = HAL_OK" "mpu_validate 2 (Some ram_region) mpu_8 = HAL_OK"
    by (simp_all add: validate_ok n) (simp_all add: ram_region_def)
qed

theorem mpu_region_is_its_descriptor_witness:
  "region_hit (mpu_rbar (mpu_exec (snd (hal_mpu_configure_region 3 (Some ram_region) mpu_8)) mpu_8) 3)
     (mpu_rasr (mpu_exec (snd (hal_mpu_configure_region 3 (Some ram_region) mpu_8)) mpu_8) 3) 0x20009000 \<and>
   \<not> region_covers ram_region (unat (0x20008000 :: u32))"
proof -
  have c: "hal_mpu_configure_region 3 (Some ram_region) mpu_8 = (HAL_OK, snd (hal_mpu_configure_region 3 (Some ram_region) mpu_8))"
    using mpu_8_facts by (simp add: hal_mpu_configure_region_def)
  have "region_covers ram_region (unat (0x20009000 :: u32))" "\<not> region_covers ram_region (unat (0x20008000 :: u32))"
    by (simp_all add: region_covers_def ram_region_def)
  then show ?thesis using mpu_region_is_its_descriptor [OF c] mpu_8_facts(1) by (simp add: Let_def)
qed

text \<open>No half-written region is ever live: after every register write of a configuration, the region
  is as it was, disabled, or as it is meant to be.\<close>

theorem mpu_never_half_written:
  assumes "hal_mpu_configure_region idx (Some r) s = (HAL_OK, ws)" "hal_mpu_num_regions s \<le> 16"
  shows "let t = mpu_exec (take n ws) s; i = unat idx in
     mpu_rbar t i = mpu_rbar s i \<and> mpu_rasr t i = mpu_rasr s i \<or> \<not> bit (mpu_rasr t i) 0 \<or>
     mpu_rbar t i = mpu_rbar (mpu_exec ws s) i \<and> mpu_rasr t i = mpu_rasr (mpu_exec ws s) i"
proof -
  have ws: "ws = [Write_RNR idx, Write_RASR 0, Write_RBAR (encode_rbar idx r), Write_RASR (encode_rasr r)]"
    using assms(1) by (simp add: configure_ok)
  have rn: "encode_rbar idx r AND MPU_RBAR_REGION_MASK = idx"
    using region_number [OF _ assms(2)] assms(1) by (simp add: configure_ok validate_ok)
  consider "n = 0" | "n = 1" | "n = 2" | "n = 3" | "n \<ge> 4" by linarith
  then show ?thesis
    by cases (simp_all add: ws mpu_exec_def Let_def encode_rbar_addr(2) rn eval_nat_numeral)
qed

theorem mpu_never_half_written_witness:
  "\<not> bit (mpu_rasr (mpu_exec (take 3 (snd (hal_mpu_configure_region 3 (Some ram_region) mpu_8))) mpu_8) 3) 0 \<or>
   mpu_rasr (mpu_exec (take 3 (snd (hal_mpu_configure_region 3 (Some ram_region) mpu_8))) mpu_8) 3 \<in> {0, encode_rasr ram_region}"
proof -
  have c: "hal_mpu_configure_region 3 (Some ram_region) mpu_8 = (HAL_OK, snd (hal_mpu_configure_region 3 (Some ram_region) mpu_8))"
    using mpu_8_facts by (simp add: hal_mpu_configure_region_def)
  have n: "hal_mpu_num_regions mpu_8 \<le> 16" by (simp add: mpu_8_facts)
  have "mpu_rasr mpu_8 3 = 0" "mpu_rasr (mpu_exec (snd (hal_mpu_configure_region 3 (Some ram_region) mpu_8)) mpu_8) 3 = encode_rasr ram_region"
    unfolding configure_exec [OF c n] by (simp_all add: mpu_8_def mpu_set_region_def)
  then show ?thesis using mpu_never_half_written [OF c n, of 3] by (auto simp: Let_def)
qed

text \<open>The fast path programs the same table. Descriptors encoded by \<open>hal_mpu_encode\<close> and written by one
  \<open>hal_mpu_apply\<close> leave the unit exactly as configuring them one after the other does.\<close>

theorem mpu_apply_is_configure:
  assumes "hal_mpu_present s" "hal_mpu_num_regions s \<le> 16" "length ds \<le> unat (hal_mpu_num_regions s)"
    and "\<forall>(idx, r) \<in> set ds. fst (hal_mpu_encode idx (Some r) True s) = HAL_OK"
  shows "\<exists>ws. hal_mpu_apply (Some (map (\<lambda>(idx, r). the (snd (hal_mpu_encode idx (Some r) True s))) ds)) s = (HAL_OK, ws) \<and>
    mpu_exec ws s = configure_all ds s"
proof -
  have v: "\<forall>(idx, r) \<in> set ds. mpu_validate idx (Some r) s = HAL_OK"
    using assms(1,4) by (auto simp: hal_mpu_encode_def split: if_splits)
  have e: "map (\<lambda>(idx, r). the (snd (hal_mpu_encode idx (Some r) True s))) ds =
      map (\<lambda>(idx, r). \<lparr>enc_rbar = encode_rbar idx r, enc_rasr = encode_rasr r\<rparr>) ds"
    using v assms(1) by (auto simp: hal_mpu_encode_def)
  show ?thesis
    unfolding e configure_all_eq [OF assms(1,2) v] apply_writes_eq [OF assms(2) v, symmetric]
    using assms(1,3) by (simp add: hal_mpu_apply_def)
qed

theorem mpu_apply_is_configure_witness:
  "\<exists>ws. hal_mpu_apply (Some (map (\<lambda>(idx, r). the (snd (hal_mpu_encode idx (Some r) True mpu_8)))
       [(2, ram_region), (3, ram_region)])) mpu_8 = (HAL_OK, ws) \<and>
     mpu_exec ws mpu_8 = configure_all [(2, ram_region), (3, ram_region)] mpu_8"
  by (rule mpu_apply_is_configure) (simp_all add: mpu_8_facts hal_mpu_encode_def)

text \<open>What is refused, and that a refusal writes nothing.\<close>

lemma mpu_accepts_exactly:
  "fst (hal_mpu_configure_region idx d s) =
     (if \<not> hal_mpu_present s then HAL_ERR_NOT_SUPPORTED
      else if \<exists>r. d = Some r \<and> idx < hal_mpu_num_regions s \<and> 4 \<le> rg_size r \<and> rg_size r \<le> 31 \<and>
        2 ^ (rg_size r + 1) dvd unat (rg_base r) \<and> (rg_srd_mask r = 0 \<or> 7 \<le> rg_size r)
      then HAL_OK else HAL_ERR_INVALID_ARG)"
  "fst (hal_mpu_configure_region idx d s) \<noteq> HAL_OK \<Longrightarrow> snd (hal_mpu_configure_region idx d s) = []"
proof -
  have "mpu_validate idx d s = HAL_OK \<longleftrightarrow> (\<exists>r. d = Some r \<and> idx < hal_mpu_num_regions s \<and> 4 \<le> rg_size r \<and> rg_size r \<le> 31 \<and>
      2 ^ (rg_size r + 1) dvd unat (rg_base r) \<and> (rg_srd_mask r = 0 \<or> 7 \<le> rg_size r))"
    by (cases d) (simp_all add: mpu_validate_def [of idx None] validate_ok)
  then show "fst (hal_mpu_configure_region idx d s) =
     (if \<not> hal_mpu_present s then HAL_ERR_NOT_SUPPORTED
      else if \<exists>r. d = Some r \<and> idx < hal_mpu_num_regions s \<and> 4 \<le> rg_size r \<and> rg_size r \<le> 31 \<and>
        2 ^ (rg_size r + 1) dvd unat (rg_base r) \<and> (rg_srd_mask r = 0 \<or> 7 \<le> rg_size r)
      then HAL_OK else HAL_ERR_INVALID_ARG)"
    using validate_err [of idx d s] by (auto simp: hal_mpu_configure_region_def)
  show "fst (hal_mpu_configure_region idx d s) \<noteq> HAL_OK \<Longrightarrow> snd (hal_mpu_configure_region idx d s) = []"
    by (auto simp: hal_mpu_configure_region_def split: if_splits)
qed

text \<open>The fast path writes the new base while the old attributes are live: after its first write a
  region can be enabled with the base of one descriptor and the permissions of another.\<close>

lemma apply_is_briefly_mixed:
  defines "s0 \<equiv> mpu_set_region 3 (ram_region\<lparr>rg_ap := HAL_MPU_AP_RW\<rparr>) mpu_8"
    and "r \<equiv> ram_region\<lparr>rg_base := 0x20010000\<rparr>"
  shows "region_of (mpu_rbar (mpu_store (Write_RBAR (encode_rbar 3 r)) s0) 3) (mpu_rasr (mpu_store (Write_RBAR (encode_rbar 3 r)) s0) 3) =
    Some (r\<lparr>rg_ap := HAL_MPU_AP_RW\<rparr>)"
proof -
  let ?q = "r\<lparr>rg_ap := HAL_MPU_AP_RW\<rparr>"
  have n: "hal_mpu_num_regions mpu_8 = 8" by (rule mpu_8_facts)
  have v: "mpu_validate 3 (Some ?q) mpu_8 = HAL_OK" by (simp add: validate_ok n r_def ram_region_def)
  have "encode_rbar 3 r AND MPU_RBAR_REGION_MASK = 3" using region_number [of 3 mpu_8 r] by (simp add: n)
  moreover have "encode_rbar 3 r = encode_rbar 3 ?q" by (simp add: encode_rbar_def)
  moreover have "mpu_rasr s0 3 = encode_rasr ?q" by (simp add: s0_def mpu_set_region_def r_def encode_rasr_def)
  ultimately show ?thesis
    using region_of_encoded [OF v] by (simp add: encode_rbar_addr(2) Let_def)
qed

end
