(* ===== verification/Timebase.thy ===== *)
theory Timebase
  imports Clock
begin

text \<open>
  The SysTick time base, src/arch/armv7e-m/timebase/timebase.c, and the layer over it,
  src/common/hal_timebase.c: the tick period, the counters derived from it, and the busy waits.

  Interrupts arrive between polls of a wait: a wait is run against the list of how many ticks
  come in before each of its polls, and is still waiting when the list runs out. A callback is a
  token that \<open>run\<close> gives a meaning.
\<close>

section \<open>State\<close>

record timebase = rcc +
  systick_ticks :: u32
  tick_duration_us :: u32
  tick_reload_value :: u32
  timebase_callback :: "nat option"
  SYST_RVR :: u32
  SYST_CVR :: u32
  SYST_CSR :: u32

text \<open>The file's initial values, over any clock state.\<close>

definition timebase_boot :: "'m timebase_scheme \<Rightarrow> 'm timebase_scheme" where
  "timebase_boot s = s\<lparr>systick_ticks := 0, tick_duration_us := 1, tick_reload_value := 0, timebase_callback := None\<rparr>"

definition SYST_CSR_EN_BIT :: nat where "SYST_CSR_EN_BIT = 0"
definition SYST_CSR_TICKINT_BIT :: nat where "SYST_CSR_TICKINT_BIT = 1"
definition SYST_CSR_CLKSOURCE_BIT :: nat where "SYST_CSR_CLKSOURCE_BIT = 2"

definition hal_clock_get_ahbclk :: "clock_board \<Rightarrow> 'm rcc_scheme \<Rightarrow> u32" where
  "hal_clock_get_ahbclk b s = hal_clock_get_bus_clock b 0 s"

section \<open>The driver\<close>

definition armv7em_timebase_init :: "clock_board \<Rightarrow> u32 \<Rightarrow> 'm timebase_scheme \<Rightarrow> hal_status \<times> 'm timebase_scheme" where
  "armv7em_timebase_init b tick_us s =
     (if tick_us = 0 then (HAL_ERR_INVALID_ARG, s)
      else let s1 = s\<lparr>systick_ticks := 0, tick_duration_us := tick_us\<rparr>;
               ahbclk = hal_clock_get_ahbclk b s1;
               reload_value = (ucast ahbclk * ucast tick_us :: u64) div 1000000 - 1;
               reload_value = reload_value AND 0xffffff;
               reload = ucast reload_value :: u32
           in (HAL_OK, s1\<lparr>tick_reload_value := reload, SYST_RVR := reload, SYST_CVR := 0,
                 SYST_CSR := push_bit SYST_CSR_EN_BIT 1 OR push_bit SYST_CSR_TICKINT_BIT 1 OR
                   push_bit SYST_CSR_CLKSOURCE_BIT 1\<rparr>))"

definition armv7em_timebase_set_callback :: "nat option \<Rightarrow> 'm timebase_scheme \<Rightarrow> hal_status \<times> 'm timebase_scheme" where
  "armv7em_timebase_set_callback cb s = (HAL_OK, s\<lparr>timebase_callback := cb\<rparr>)"

definition armv7em_timebase_get_tick :: "'m timebase_scheme \<Rightarrow> u32" where
  "armv7em_timebase_get_tick s = systick_ticks s"

definition armv7em_timebase_get_tick_duration_us :: "'m timebase_scheme \<Rightarrow> u32" where
  "armv7em_timebase_get_tick_duration_us s = tick_duration_us s"

definition armv7em_timebase_get_reload_value :: "'m timebase_scheme \<Rightarrow> u32" where
  "armv7em_timebase_get_reload_value s = tick_reload_value s"

definition armv7em_timebase_get_micros :: "'m timebase_scheme \<Rightarrow> u32" where
  "armv7em_timebase_get_micros s = armv7em_timebase_get_tick s * armv7em_timebase_get_tick_duration_us s"

definition armv7em_timebase_get_millis :: "'m timebase_scheme \<Rightarrow> u32" where
  "armv7em_timebase_get_millis s = armv7em_timebase_get_micros s div 1000"

definition hal_timebase_tick ::
    "(nat \<Rightarrow> 'm timebase_scheme \<Rightarrow> 'm timebase_scheme) \<Rightarrow> 'm timebase_scheme \<Rightarrow> 'm timebase_scheme" where
  "hal_timebase_tick run s =
     (let s1 = s\<lparr>systick_ticks := systick_ticks s + 1\<rparr>
      in case timebase_callback s1 of None \<Rightarrow> s1 | Some cb \<Rightarrow> run cb s1)"

definition SysTick_Handler ::
    "(nat \<Rightarrow> 'm timebase_scheme \<Rightarrow> 'm timebase_scheme) \<Rightarrow> 'm timebase_scheme \<Rightarrow> 'm timebase_scheme" where
  "SysTick_Handler run s = hal_timebase_tick run s"

definition delay_ticks :: "u32 \<Rightarrow> 'm timebase_scheme \<Rightarrow> u32" where
  "delay_ticks us s =
     (let ticks_needed = us div armv7em_timebase_get_tick_duration_us s
      in if ticks_needed = 0 then 1 else ticks_needed)"

fun delay_loop ::
    "(nat \<Rightarrow> 'm timebase_scheme \<Rightarrow> 'm timebase_scheme) \<Rightarrow> u32 \<Rightarrow> u32 \<Rightarrow> nat list \<Rightarrow> 'm timebase_scheme \<Rightarrow>
     'm timebase_scheme option" where
  "delay_loop run start ticks_needed [] s = None"
| "delay_loop run start ticks_needed (k # ks) s =
     (let s1 = (SysTick_Handler run ^^ k) s
      in if armv7em_timebase_get_tick s1 - start < ticks_needed then delay_loop run start ticks_needed ks s1
         else Some s1)"

definition armv7em_timebase_delay_us ::
    "(nat \<Rightarrow> 'm timebase_scheme \<Rightarrow> 'm timebase_scheme) \<Rightarrow> u32 \<Rightarrow> nat list \<Rightarrow> 'm timebase_scheme \<Rightarrow> 'm timebase_scheme option" where
  "armv7em_timebase_delay_us run us ks s = delay_loop run (armv7em_timebase_get_tick s) (delay_ticks us s) ks s"

definition armv7em_timebase_delay_ms ::
    "(nat \<Rightarrow> 'm timebase_scheme \<Rightarrow> 'm timebase_scheme) \<Rightarrow> u32 \<Rightarrow> nat list \<Rightarrow> 'm timebase_scheme \<Rightarrow> 'm timebase_scheme option" where
  "armv7em_timebase_delay_ms run ms ks s = armv7em_timebase_delay_us run (ms * 1000) ks s"

section \<open>The public layer\<close>

definition hal_timebase_init :: "clock_board \<Rightarrow> u32 \<Rightarrow> 'm timebase_scheme \<Rightarrow> hal_status \<times> 'm timebase_scheme" where
  "hal_timebase_init b tick_us s =
     (if tick_us = 0 then (HAL_ERR_INVALID_ARG, s) else armv7em_timebase_init b tick_us s)"

definition hal_timebase_get_tick :: "'m timebase_scheme \<Rightarrow> u32" where
  "hal_timebase_get_tick s = armv7em_timebase_get_tick s"

definition hal_timebase_get_tick_duration_us :: "'m timebase_scheme \<Rightarrow> u32" where
  "hal_timebase_get_tick_duration_us s = armv7em_timebase_get_tick_duration_us s"

definition hal_timebase_get_reload_value :: "'m timebase_scheme \<Rightarrow> u32" where
  "hal_timebase_get_reload_value s = armv7em_timebase_get_reload_value s"

definition hal_timebase_get_micros :: "'m timebase_scheme \<Rightarrow> u32" where
  "hal_timebase_get_micros s = armv7em_timebase_get_micros s"

definition hal_timebase_get_millis :: "'m timebase_scheme \<Rightarrow> u32" where
  "hal_timebase_get_millis s = armv7em_timebase_get_millis s"

definition hal_delay_us ::
    "(nat \<Rightarrow> 'm timebase_scheme \<Rightarrow> 'm timebase_scheme) \<Rightarrow> u32 \<Rightarrow> nat list \<Rightarrow> 'm timebase_scheme \<Rightarrow> 'm timebase_scheme option" where
  "hal_delay_us run us ks s = armv7em_timebase_delay_us run us ks s"

definition hal_delay_ms ::
    "(nat \<Rightarrow> 'm timebase_scheme \<Rightarrow> 'm timebase_scheme) \<Rightarrow> u32 \<Rightarrow> nat list \<Rightarrow> 'm timebase_scheme \<Rightarrow> 'm timebase_scheme option" where
  "hal_delay_ms run ms ks s = armv7em_timebase_delay_ms run ms ks s"

definition hal_timebase_attach_callback :: "nat option \<Rightarrow> 'm timebase_scheme \<Rightarrow> hal_status \<times> 'm timebase_scheme" where
  "hal_timebase_attach_callback cb s =
     (if cb = None then (HAL_ERR_INVALID_ARG, s) else armv7em_timebase_set_callback cb s)"

definition hal_timebase_detach_callback :: "'m timebase_scheme \<Rightarrow> hal_status \<times> 'm timebase_scheme" where
  "hal_timebase_detach_callback s = armv7em_timebase_set_callback None s"

lemmas timebase_getters = hal_timebase_get_tick_def armv7em_timebase_get_tick_def hal_timebase_get_tick_duration_us_def
  armv7em_timebase_get_tick_duration_us_def hal_timebase_get_micros_def armv7em_timebase_get_micros_def
  hal_timebase_get_millis_def armv7em_timebase_get_millis_def hal_timebase_get_reload_value_def
  armv7em_timebase_get_reload_value_def

lemma ahb_timebase [simp]:
  "hal_clock_get_ahbclk b (s\<lparr>systick_ticks := x, tick_duration_us := d\<rparr>) = hal_clock_get_ahbclk b s"
  by (simp add: hal_clock_get_ahbclk_def hal_clock_get_bus_clock_def stm32_clock_get_bus_clock_def
      stm32_clock_get_ahbclk_def stm32_clock_get_sysclk_def Let_def)

section \<open>Counting ticks\<close>

text \<open>A callback that leaves the time base alone.\<close>

definition tick_polite :: "(nat \<Rightarrow> 'm timebase_scheme \<Rightarrow> 'm timebase_scheme) \<Rightarrow> bool" where
  "tick_polite run \<longleftrightarrow> (\<forall>cb s. systick_ticks (run cb s) = systick_ticks s \<and> tick_duration_us (run cb s) = tick_duration_us s)"

lemma tick_counts:
  assumes "tick_polite run"
  shows "systick_ticks (hal_timebase_tick run s) = systick_ticks s + 1"
    "tick_duration_us (hal_timebase_tick run s) = tick_duration_us s"
  using assms by (simp_all add: hal_timebase_tick_def Let_def tick_polite_def split: option.split)

lemma ticks_count:
  assumes "tick_polite run"
  shows "systick_ticks ((SysTick_Handler run ^^ k) s) = systick_ticks s + of_nat k"
    "tick_duration_us ((SysTick_Handler run ^^ k) s) = tick_duration_us s"
  by (induction k) (simp_all add: SysTick_Handler_def tick_counts [OF assms])

lemma delay_loop_spec:
  assumes run: "tick_polite run" and "m + sum_list ks < 2 ^ 32" "m < unat n" "systick_ticks s = start + of_nat m"
  shows "case delay_loop run start n ks s of
     Some t \<Rightarrow> \<exists>i < length ks. m + sum_list (take i ks) < unat n \<and> unat n \<le> m + sum_list (take (i + 1) ks) \<and>
       systick_ticks t = start + of_nat (m + sum_list (take (i + 1) ks))
   | None \<Rightarrow> m + sum_list ks < unat n"
  using assms(2-)
proof (induction ks arbitrary: m s)
  case (Cons k ks)
  let ?s1 = "(SysTick_Handler run ^^ k) s"
  have t: "systick_ticks ?s1 = start + of_nat (m + k)" using Cons.prems(3) ticks_count(1) [OF run] by simp
  have "unat (of_nat (m + k) :: u32) = m + k"
    using Cons.prems(1) by (simp add: unat_of_nat take_bit_nat_eq_self del: of_nat_add)
  then have u: "unat (armv7em_timebase_get_tick ?s1 - start) = m + k"
    unfolding armv7em_timebase_get_tick_def t by (simp del: of_nat_add)
  show ?case
  proof (cases "m + k < unat n")
    case True
    then have "delay_loop run start n (k # ks) s = delay_loop run start n ks ?s1"
      using u by (simp add: Let_def word_less_nat_alt)
    moreover have "case delay_loop run start n ks ?s1 of
       Some t \<Rightarrow> \<exists>i < length ks. m + k + sum_list (take i ks) < unat n \<and> unat n \<le> m + k + sum_list (take (i + 1) ks) \<and>
         systick_ticks t = start + of_nat (m + k + sum_list (take (i + 1) ks))
     | None \<Rightarrow> m + k + sum_list ks < unat n"
      by (rule Cons.IH) (use Cons.prems True t in \<open>simp_all add: add.assoc\<close>)
    ultimately show ?thesis
      by (auto split: option.splits simp: add.assoc intro: exI [of _ "Suc i" for i])
  next
    case False
    then have "delay_loop run start n (k # ks) s = Some ?s1" using u by (simp add: Let_def word_less_nat_alt)
    then show ?thesis using False Cons.prems(2) t by (auto intro!: exI [of _ 0])
  qed
qed simp

section \<open>Properties\<close>

text \<open>The tick is as long as asked for. When the period is between one and 2^24 AHB cycles, SysTick
  reloads so that a tick is exactly that many cycles (the AHB clock times the period, whole cycles),
  the counters start at zero with the duration recorded, and the timer and its interrupt are on.\<close>

theorem timebase_period_exact:
  assumes "0 < unat d" "1 \<le> unat (hal_clock_get_ahbclk b s) * unat d div 1000000"
    and "unat (hal_clock_get_ahbclk b s) * unat d div 1000000 \<le> 2 ^ 24"
  shows "\<exists>s'. hal_timebase_init b d s = (HAL_OK, s') \<and>
    unat (SYST_RVR s') + 1 = unat (hal_clock_get_ahbclk b s) * unat d div 1000000 \<and>
    hal_timebase_get_reload_value s' = SYST_RVR s' \<and> SYST_CVR s' = 0 \<and> SYST_CSR s' = 7 \<and>
    hal_timebase_get_tick s' = 0 \<and> hal_timebase_get_tick_duration_us s' = d \<and>
    timebase_callback s' = timebase_callback s"
proof -
  let ?a = "hal_clock_get_ahbclk b s"
  let ?c = "(ucast ?a * ucast d :: u64) div 1000000"
  have c: "unat ?c = unat ?a * unat d div 1000000" by (simp add: unat_div vco_nat)
  then have "?c \<noteq> 0" using assms(2) by auto
  then have c1: "unat (?c - 1) = unat ?a * unat d div 1000000 - 1" using c by (simp add: unat_minus_one)
  have "(?c - 1) AND mask 24 = ?c - 1"
    using c1 assms(2,3) by (intro and_mask_small) simp
  then have m: "(?c - 1) AND 0xffffff = ?c - 1" by (simp add: mask_eq_exp_minus_1)
  have "unat (ucast (?c - 1) :: u32) = unat (?c - 1)"
    using c1 assms(3) by (simp add: unsigned_ucast_eq take_bit_nat_eq_self)
  then have r: "unat (ucast ((?c - 1) AND 0xffffff) :: u32) + 1 = unat ?a * unat d div 1000000"
    using c1 assms(2) unfolding m by simp
  show ?thesis
    using r assms(1)
    by (auto simp: hal_timebase_init_def armv7em_timebase_init_def Let_def timebase_getters
        SYST_CSR_EN_BIT_def SYST_CSR_TICKINT_BIT_def SYST_CSR_CLKSOURCE_BIT_def)
qed

definition tb_84mhz :: timebase where
  "tb_84mhz = \<lparr>RCC_CR = 0x03070083, RCC_PLLCFGR = 0x07415408, RCC_CFGR = 0x0000900A, clk_acr = 0x702,
     systick_ticks = 0, tick_duration_us = 1, tick_reload_value = 0, timebase_callback = None,
     SYST_RVR = 0, SYST_CVR = 0, SYST_CSR = 0\<rparr>"

lemma tb_84mhz_ahb: "hal_clock_get_ahbclk clock_board_8mhz tb_84mhz = 84000000"
  by (simp add: hal_clock_get_ahbclk_def hal_clock_get_bus_clock_def stm32_clock_get_bus_count_def
      stm32_clock_get_bus_clock_def stm32_clock_get_ahbclk_def stm32_clock_get_sysclk_def Let_def tb_84mhz_def
      clock_board_8mhz_def rcc_cfgr_defs rcc_pllcfgr_defs decode_prescaler_def word_le_nat_alt)

theorem timebase_period_exact_witness:
  "\<exists>s'. hal_timebase_init clock_board_8mhz 1000 tb_84mhz = (HAL_OK, s') \<and> unat (SYST_RVR s') + 1 = 84000"
  using timebase_period_exact [where d = 1000 and b = clock_board_8mhz and s = tb_84mhz]
  by (auto simp: tb_84mhz_ahb)

text \<open>C37. A delay ends, when it should. Whatever number of ticks come in between polls, and across a wrap
  of the counter, the wait is still running while fewer ticks have come than the delay is worth (its
  microseconds in whole ticks, at least one), and ends at the first poll that sees them all.\<close>

theorem delay_ends_at_its_ticks:
  assumes "tick_polite run" "sum_list ks < 2 ^ 32"
  shows "let n = max 1 (unat us div unat (tick_duration_us s)) in
     case hal_delay_us run us ks s of
       Some t \<Rightarrow> \<exists>i < length ks. sum_list (take i ks) < n \<and> n \<le> sum_list (take (i + 1) ks) \<and>
         hal_timebase_get_tick t = hal_timebase_get_tick s + of_nat (sum_list (take (i + 1) ks))
     | None \<Rightarrow> sum_list ks < n"
proof -
  let ?n = "delay_ticks us s"
  have n: "unat ?n = max 1 (unat us div unat (tick_duration_us s))"
  proof -
    have "unat (us div tick_duration_us s) = unat us div unat (tick_duration_us s)" by (simp add: unat_div)
    moreover have "us div tick_duration_us s = 0 \<longleftrightarrow> unat (us div tick_duration_us s) = 0" by (simp add: unat_eq_0)
    ultimately show ?thesis by (simp add: delay_ticks_def Let_def timebase_getters)
  qed
  then have "0 < unat ?n" by simp
  then have spec: "case delay_loop run (systick_ticks s) ?n ks s of
     Some t \<Rightarrow> \<exists>i < length ks. 0 + sum_list (take i ks) < unat ?n \<and> unat ?n \<le> 0 + sum_list (take (i + 1) ks) \<and>
       systick_ticks t = systick_ticks s + of_nat (0 + sum_list (take (i + 1) ks))
   | None \<Rightarrow> 0 + sum_list ks < unat ?n"
    using assms(2) by (intro delay_loop_spec [OF assms(1)]) simp_all
  have d: "hal_delay_us run us ks s = delay_loop run (systick_ticks s) ?n ks s"
    by (simp add: hal_delay_us_def armv7em_timebase_delay_us_def timebase_getters)
  show ?thesis
    using spec unfolding d n Let_def add_0 hal_timebase_get_tick_def armv7em_timebase_get_tick_def .
qed

theorem delay_ends_at_its_ticks_witness:
  "case hal_delay_us (\<lambda>_ s. s) 2500 [0, 1, 0, 3] (tb_84mhz\<lparr>tick_duration_us := 1000, systick_ticks := 0xFFFFFFFF\<rparr>) of
     Some t \<Rightarrow> hal_timebase_get_tick t = 3 | None \<Rightarrow> False"
proof -
  let ?s = "tb_84mhz\<lparr>tick_duration_us := 1000, systick_ticks := 0xFFFFFFFF\<rparr>"
  have "hal_timebase_get_tick ?s + of_nat (sum_list (take (i + 1) [0, 1, 0, 3])) = 3"
    if "i < 4" "2 \<le> sum_list (take (i + 1) [0, 1, 0, 3 :: nat])" for i :: nat
  proof -
    have "i = 0 \<or> i = 1 \<or> i = 2 \<or> i = 3" using that(1) by auto
    then show ?thesis using that(2) by (elim disjE; simp add: timebase_getters)
  qed
  note last = this
  have polite: "tick_polite (\<lambda>_ s. s)" by (simp add: tick_polite_def)
  have s: "sum_list [0, 1, 0, 3 :: nat] < 2 ^ 32" by simp
  note ends = delay_ends_at_its_ticks [OF polite s, of 2500 ?s, unfolded Let_def]
  have n: "max 1 (unat (2500 :: u32) div unat (tick_duration_us ?s)) = 2" by simp
  have l: "length [0, 1, 0, 3 :: nat] = 4" by simp
  show ?thesis
  proof (cases "hal_delay_us (\<lambda>_ s. s) 2500 [0, 1, 0, 3] ?s")
    case None
    then show ?thesis using ends unfolding n by simp
  next
    case (Some t)
    then obtain i where "i < 4" "2 \<le> sum_list (take (i + 1) [0, 1, 0, 3 :: nat])"
      "hal_timebase_get_tick t = hal_timebase_get_tick ?s + of_nat (sum_list (take (i + 1) [0, 1, 0, 3 :: nat]))"
      using ends unfolding n l by (simp only: option.case) blast
    then have "hal_timebase_get_tick t = 3" using last by (simp only:)
    then show ?thesis using Some by simp
  qed
qed

text \<open>Elapsed time is a difference. Over any run of ticks worth less than 2^32 microseconds, and across
  a wrap, the microsecond counter advances by exactly the ticks times their duration.\<close>

theorem micros_difference_exact:
  assumes "tick_polite run" "k * unat (tick_duration_us s) < 2 ^ 32"
  shows "unat (hal_timebase_get_micros ((SysTick_Handler run ^^ k) s) - hal_timebase_get_micros s) =
    k * unat (tick_duration_us s)"
proof -
  have "hal_timebase_get_micros ((SysTick_Handler run ^^ k) s) - hal_timebase_get_micros s = of_nat k * tick_duration_us s"
    by (simp add: timebase_getters ticks_count [OF assms(1)] distrib_right)
  also have "\<dots> = of_nat (k * unat (tick_duration_us s))" by simp
  finally show ?thesis using assms(2) by (simp add: unat_of_nat take_bit_nat_eq_self del: of_nat_mult)
qed

theorem micros_difference_exact_witness:
  "unat (hal_timebase_get_micros ((SysTick_Handler (\<lambda>_ s. s) ^^ 5) (tb_84mhz\<lparr>tick_duration_us := 1000, systick_ticks := 4294967\<rparr>)) -
     hal_timebase_get_micros (tb_84mhz\<lparr>tick_duration_us := 1000, systick_ticks := 4294967\<rparr>)) = 5000"
  using micros_difference_exact [of "\<lambda>_ s. s" 5 "tb_84mhz\<lparr>tick_duration_us := 1000, systick_ticks := 4294967\<rparr>"]
  by (simp add: tick_polite_def)

text \<open>Milliseconds are the wrapped microseconds over 1000, so they wrap at 4294967 and not at 2^32: one
  millisecond later their difference reads as some 49 days, and every \<open>now - start\<close> timeout in the
  boot stages and the SD driver expires at once.\<close>

lemma millis_difference_breaks:
  "let s = tb_84mhz\<lparr>tick_duration_us := 1000, systick_ticks := 4294967\<rparr>; t = SysTick_Handler (\<lambda>_ s. s) s in
     hal_timebase_get_millis s = 4294967 \<and> hal_timebase_get_millis t = 0 \<and>
     hal_timebase_get_millis t - hal_timebase_get_millis s > 2000"
  by (simp add: Let_def timebase_getters SysTick_Handler_def hal_timebase_tick_def tb_84mhz_def)

text \<open>A delay of 71 minutes and 35 seconds in milliseconds lasts one tick.\<close>

lemma delay_ms_wraps: "delay_ticks (4294968 * 1000) (tb_84mhz\<lparr>tick_duration_us := 1000\<rparr>) = 1"
  by (simp add: delay_ticks_def timebase_getters)

text \<open>A period of more than 2^24 cycles is reduced modulo 2^24, not clipped: 200 ms at 84 MHz ticks every 271 us.\<close>

lemma long_tick_wraps:
  "SYST_RVR (snd (hal_timebase_init clock_board_8mhz 200000 tb_84mhz)) = 22783"
  by (simp add: hal_timebase_init_def armv7em_timebase_init_def Let_def tb_84mhz_ahb)

end
