(* ===== verification/Limbs.thy ===== *)
theory Limbs
  imports Prelude
begin

text \<open>
  Little-endian byte strings as numbers, and the carry loops both arithmetic files of the compact
  Ed25519 backend (src/utils/crypto/compact25519/c25519/f25519.c and fprime.c) are written with.
  Arrays are lists; where a function writes over one of its arguments it does so at the index it has
  just read, so the loops are maps and folds over the values the arguments come with.
\<close>

section \<open>The number a string of limbs stands for\<close>

fun limbs :: "'a::len word list \<Rightarrow> nat" where
  "limbs [] = 0"
| "limbs (t # ts) = unat t + 256 * limbs ts"

lemma limbs_append: "limbs (xs @ ys) = limbs xs + 256 ^ length xs * limbs ys"
  by (induction xs) (simp_all add: algebra_simps)

lemma limbs_replicate_0 [simp]: "limbs (replicate n 0) = 0"
  by (induction n) simp_all

lemma limbs_less: "limbs (xs :: u8 list) < 256 ^ length xs"
proof (induction xs)
  case (Cons x xs)
  then have "256 * limbs xs + 256 \<le> 256 * 256 ^ length xs" by simp
  then show ?case using u8_bound [of x] by simp
qed simp

lemma limb_split: "a < 256 \<Longrightarrow> b < 256 \<Longrightarrow> a + 256 * m = b + 256 * n \<Longrightarrow> a = b \<and> m = (n::nat)"
proof -
  assume a: "a < 256" and b: "b < 256" and e: "a + 256 * m = b + 256 * n"
  have "a = (a + 256 * m) mod 256" using a by simp
  also have "\<dots> = b" using b unfolding e by simp
  finally show ?thesis using e by simp
qed

lemma limbs_inj: "length xs = length ys \<Longrightarrow> limbs xs = limbs ys \<Longrightarrow> xs = (ys :: u8 list)"
proof (induction xs ys rule: list_induct2)
  case (Cons x xs y ys)
  have "unat x = unat y \<and> limbs xs = limbs ys"
    by (rule limb_split) (use u8_bound Cons.prems in auto)
  then show ?case using Cons.IH by (simp add: word_unat_eq_iff)
qed simp

lemma limbs_sum: "limbs xs = (\<Sum>i<length xs. unat (xs ! i) * 256 ^ i)"
  by (induction xs) (simp_all add: sum.lessThan_Suc_shift sum_distrib_left algebra_simps del: sum.lessThan_Suc)

lemma unat_ucast_byte: "8 \<le> LENGTH('a) \<Longrightarrow> unat (ucast x :: 'a::len word) = unat (x :: u8)"
proof -
  assume "8 \<le> LENGTH('a)"
  then have "2 ^ 8 \<le> (2 :: nat) ^ LENGTH('a)" by (intro power_increasing) auto
  then have "unat x < 2 ^ LENGTH('a)" using u8_bound [of x] by simp
  then show ?thesis by (simp add: unsigned_ucast_eq take_bit_nat_eq_self)
qed

lemma limbs_ucast: "8 \<le> LENGTH('a) \<Longrightarrow> limbs (map ucast xs :: 'a::len word list) = limbs (xs :: u8 list)"
  by (induction xs) (simp_all add: unat_ucast_byte)

lemma limbs_butlast_last:
  "xs \<noteq> [] \<Longrightarrow> limbs xs = limbs (butlast xs) + 256 ^ (length xs - 1) * unat (last xs)"
  by (induction xs) (auto simp: algebra_simps simp flip: power_Suc)

section \<open>Carry loops\<close>

text \<open>\<open>c += t; r[i] = c; c >>= 8\<close> for each addend \<open>t\<close>: the bytes stored and the carry left.\<close>

fun carry_chain :: "'a::len word \<Rightarrow> 'a word list \<Rightarrow> u8 list \<times> 'a word" where
  "carry_chain c [] = ([], c)"
| "carry_chain c (t # ts) =
     (let c' = c + t; (rs, d) = carry_chain (drop_bit 8 c') ts in (ucast c' # rs, d))"

text \<open>\<open>c >>= 8; c += t; r[i] = c\<close>: the carry left is not shifted after the last byte.\<close>

fun carry_chain_pre :: "'a::len word \<Rightarrow> 'a word list \<Rightarrow> u8 list \<times> 'a word" where
  "carry_chain_pre c [] = ([], c)"
| "carry_chain_pre c (t # ts) =
     (let c' = drop_bit 8 c + t; (rs, d) = carry_chain_pre c' ts in (ucast c' # rs, d))"

lemma carry_chain_length [simp]: "length (fst (carry_chain c ts)) = length ts"
  by (induction ts arbitrary: c) (simp_all add: Let_def split_beta)

lemma carry_chain_pre_length [simp]: "length (fst (carry_chain_pre c ts)) = length ts"
  by (induction ts arbitrary: c) (simp_all add: Let_def split_beta)

lemma unat_low_byte: "unat (ucast c :: u8) = unat c mod 256" for c :: "'a::len word"
  by (simp add: unsigned_ucast_eq take_bit_eq_mod)

lemma unat_drop_8: "unat (drop_bit 8 c) = unat c div 256" for c :: "'a::len word"
  by (subst unat_drop_bit_eq) (simp add: drop_bit_eq_div)

text \<open>While no step overflows, the bytes and the carry are the start plus the addends.\<close>

lemma carry_chain_value:
  fixes c :: "'a::len word"
  assumes "\<forall>t\<in>set ts. unat t \<le> B" "unat c \<le> C" "C + B < 2 ^ LENGTH('a)" "(C + B) div 256 \<le> C"
  shows "limbs (fst (carry_chain c ts)) + 256 ^ length ts * unat (snd (carry_chain c ts)) = unat c + limbs ts"
  using assms(1,2)
proof (induction ts arbitrary: c)
  case (Cons t ts)
  have le: "unat c + unat t \<le> C + B" using Cons.prems by (simp add: add_mono)
  then have s: "unat (c + t) = unat c + unat t"
    using assms(3) by (intro unat_add_lem [THEN iffD1]) simp
  have "unat (drop_bit 8 (c + t)) \<le> C"
    using order_trans [OF div_le_mono [OF le] assms(4)] by (simp add: unat_drop_8 s)
  then have IH: "limbs (fst (carry_chain (drop_bit 8 (c + t)) ts)) +
      256 ^ length ts * unat (snd (carry_chain (drop_bit 8 (c + t)) ts)) = (unat c + unat t) div 256 + limbs ts"
    using Cons.IH [of "drop_bit 8 (c + t)"] Cons.prems by (simp add: unat_drop_8 s)
  have "limbs (fst (carry_chain c (t # ts))) + 256 ^ length (t # ts) * unat (snd (carry_chain c (t # ts))) =
      (unat c + unat t) mod 256 + 256 * ((unat c + unat t) div 256 + limbs ts)"
    unfolding IH [symmetric] by (simp add: Let_def split_beta unat_low_byte s algebra_simps)
  then show ?case by (simp add: algebra_simps)
qed simp

text \<open>A chain that cannot reach its top leaves no carry, so the bytes alone are the sum.\<close>

lemma carry_chain_exact:
  fixes c :: "'a::len word"
  assumes "\<forall>t\<in>set ts. unat t \<le> B" "unat c \<le> C" "C + B < 2 ^ LENGTH('a)" "(C + B) div 256 \<le> C"
    and "unat c + limbs ts < 256 ^ length ts"
  shows "limbs (fst (carry_chain c ts)) = unat c + limbs ts"
proof -
  have v: "limbs (fst (carry_chain c ts)) + 256 ^ length ts * unat (snd (carry_chain c ts)) = unat c + limbs ts"
    by (rule carry_chain_value) (use assms in auto)
  then have "256 ^ length ts * unat (snd (carry_chain c ts)) < 256 ^ length ts" using assms(5) by linarith
  then show ?thesis using v by simp
qed

lemma carry_chain_pre_eq:
  "ts \<noteq> [] \<Longrightarrow> carry_chain (drop_bit 8 c) ts =
     (fst (carry_chain_pre c ts), drop_bit 8 (snd (carry_chain_pre c ts)))"
proof (induction ts arbitrary: c)
  case (Cons t ts)
  then show ?case by (cases ts) (simp_all add: Let_def split_beta)
qed simp

lemma carry_chain_pre_last:
  "ts \<noteq> [] \<Longrightarrow> last (fst (carry_chain_pre c ts)) = ucast (snd (carry_chain_pre c ts))"
proof (induction ts arbitrary: c)
  case (Cons t ts)
  show ?case
  proof (cases "ts = []")
    case False
    then have "fst (carry_chain_pre (drop_bit 8 c + t) ts) \<noteq> []"
      using carry_chain_pre_length [of "drop_bit 8 c + t" ts] by (metis length_0_conv)
    then show ?thesis using Cons.IH [OF False] by (simp add: Let_def split_beta)
  qed (simp add: Let_def)
qed simp

text \<open>The same for the loops that shift first: the last carry still holds the last byte.\<close>

lemma carry_chain_pre_bound:
  fixes c :: "'a::len word"
  assumes "\<forall>t\<in>set ts. unat t \<le> B" "unat c \<le> C + B" "C + B < 2 ^ LENGTH('a)" "(C + B) div 256 \<le> C"
  shows "unat (snd (carry_chain_pre c ts)) \<le> C + B"
  using assms(1,2)
proof (induction ts arbitrary: c)
  case (Cons t ts)
  have "unat (drop_bit 8 c) \<le> C"
    using order_trans [OF div_le_mono [OF Cons.prems(2)] assms(4)] by (simp add: unat_drop_8)
  then have le: "unat (drop_bit 8 c) + unat t \<le> C + B" using Cons.prems(1) by (simp add: add_mono)
  then have "unat (drop_bit 8 c + t) = unat (drop_bit 8 c) + unat t"
    using assms(3) by (intro unat_add_lem [THEN iffD1]) simp
  then show ?case using Cons.IH [of "drop_bit 8 c + t"] Cons.prems(1) le by (simp add: Let_def split_beta)
qed simp

lemma carry_chain_pre_value:
  fixes ts :: "'a::len word list"
  assumes ne: "ts \<noteq> []" and "\<forall>t\<in>set ts. unat t \<le> B" "C + B < 2 ^ LENGTH('a)" "(C + B) div 256 \<le> C"
  shows "limbs (butlast (fst (carry_chain_pre 0 ts))) + 256 ^ (length ts - 1) * unat (snd (carry_chain_pre 0 ts)) =
    limbs ts"
proof -
  let ?r = "fst (carry_chain_pre 0 ts)" and ?d = "snd (carry_chain_pre 0 ts)"
  have c: "carry_chain 0 ts = (?r, drop_bit 8 ?d)" using carry_chain_pre_eq [OF ne, of 0] by simp
  have v: "limbs ?r + 256 ^ length ts * (unat ?d div 256) = limbs ts"
    using carry_chain_value [OF assms(2), of 0 C] assms(3,4) unfolding c by (simp add: unat_drop_8)
  have "?r \<noteq> []" using ne carry_chain_pre_length [of 0 ts] by (metis length_0_conv)
  then have r: "limbs ?r = limbs (butlast ?r) + 256 ^ (length ts - 1) * (unat ?d mod 256)"
    using limbs_butlast_last [of ?r] carry_chain_pre_last [OF ne, of 0] by (simp add: unat_low_byte)
  have "256 ^ length ts = 256 ^ (length ts - 1) * (256 :: nat)"
    using ne by (cases ts) simp_all
  moreover have "unat ?d = unat ?d mod 256 + 256 * (unat ?d div 256)" by simp
  ultimately have "256 ^ (length ts - 1) * unat ?d =
      256 ^ (length ts - 1) * (unat ?d mod 256) + 256 ^ length ts * (unat ?d div 256)"
    by (metis (no_types, lifting) distrib_left mult.assoc)
  then show ?thesis using v r by simp
qed

end
