(* ===== verification/F25519.thy ===== *)
theory F25519
  imports Limbs
begin

text \<open>
  Arithmetic modulo \<open>2^255 - 19\<close>, src/utils/crypto/compact25519/c25519/f25519.c. A field element is a
  string of 32 bytes, not normalised; \<open>fe\<close> is the residue it stands for and \<open>fe_ok\<close> the range the
  header file f25519.h promises (below twice the prime). Every operation is shown to denote the
  operation on residues and to keep the range.
\<close>

section \<open>The operations\<close>

definition f25519_one :: "u8 list" where
  "f25519_one = 1 # replicate 31 0"

definition f25519_zero :: "u8 list" where
  "f25519_zero = replicate 32 0"

definition f25519_load :: "u32 \<Rightarrow> u8 list" where
  "f25519_load c = map (\<lambda>i. ucast (drop_bit (8 * i) c)) [0..<4] @ replicate 28 0"

definition f25519_copy :: "u8 list \<Rightarrow> u8 list" where
  "f25519_copy a = take 32 a"

text \<open>The last two steps of most operations: clear the top bit and everything above it, add it back
  19 times (\<open>2^255 = 19 mod p\<close>) along a carry chain.\<close>

definition f25519_reduce :: "u8 list \<Rightarrow> 'a::len word \<Rightarrow> u8 list" where
  "f25519_reduce r c = fst (carry_chain (drop_bit 7 c * 19) (map ucast (r[31 := r ! 31 AND 127])))"

definition f25519_select :: "u8 list \<Rightarrow> u8 list \<Rightarrow> u8 \<Rightarrow> u8 list" where
  "f25519_select zero one condition =
     (let mask = - condition in map2 (\<lambda>z n. z XOR (mask AND (n XOR z))) zero one)"

definition f25519_normalize :: "u8 list \<Rightarrow> u8 list" where
  "f25519_normalize x =
     (let x = f25519_reduce x (ucast (x ! 31) :: u16);
          (minusp, c) = carry_chain (19 :: u16) (map ucast (take 31 x));
          c = c + (ucast (x ! 31) - 128)
      in f25519_select (minusp @ [ucast c]) x (ucast (drop_bit 15 c AND 1)))"

definition f25519_eq :: "u8 list \<Rightarrow> u8 list \<Rightarrow> u8" where
  "f25519_eq x y =
     (let s = foldl (\<lambda>s (a, b). s OR (a XOR b)) 0 (zip x y);
          s = s OR drop_bit 4 s;
          s = s OR drop_bit 2 s;
          s = s OR drop_bit 1 s
      in (s XOR 1) AND 1)"

definition f25519_add :: "u8 list \<Rightarrow> u8 list \<Rightarrow> u8 list" where
  "f25519_add a b =
     (let (r, c) = carry_chain_pre (0 :: u16) (map2 (\<lambda>x y. ucast x + ucast y) a b)
      in f25519_reduce r c)"

definition f25519_sub :: "u8 list \<Rightarrow> u8 list \<Rightarrow> u8 list" where
  "f25519_sub a b =
     (let (r, c) = carry_chain (218 :: u32) (map2 (\<lambda>x y. 65280 + ucast x - ucast y) (take 31 a) (take 31 b));
          c = c + (ucast (a ! 31) - ucast (b ! 31));
          r = r @ [ucast (c AND 127)];
          c = drop_bit 7 c * 19
      in fst (carry_chain c (map ucast r)))"

definition f25519_neg :: "u8 list \<Rightarrow> u8 list" where
  "f25519_neg a =
     (let (r, c) = carry_chain (218 :: u32) (map (\<lambda>x. 65280 - ucast x) (take 31 a));
          c = c - ucast (a ! 31);
          r = r @ [ucast (c AND 127)];
          c = drop_bit 7 c * 19
      in fst (carry_chain c (map ucast r)))"

text \<open>Schoolbook multiplication a column at a time; what passes \<open>2^256\<close> comes back 38 times.\<close>

definition mul_column :: "u8 list \<Rightarrow> u8 list \<Rightarrow> nat \<Rightarrow> u32 \<Rightarrow> u32" where
  "mul_column a b i c =
     foldl (\<lambda>c j. c + ucast (a ! j) * ucast (b ! (i + 32 - j)) * 38)
       (foldl (\<lambda>c j. c + ucast (a ! j) * ucast (b ! (i - j))) c [0..<i + 1]) [i + 1..<32]"

fun mul_columns :: "u8 list \<Rightarrow> u8 list \<Rightarrow> u32 \<Rightarrow> nat list \<Rightarrow> u8 list \<times> u32" where
  "mul_columns a b c [] = ([], c)"
| "mul_columns a b c (i # is) =
     (let c = mul_column a b i (drop_bit 8 c); (r, d) = mul_columns a b c is in (ucast c # r, d))"

definition f25519_mul__distinct :: "u8 list \<Rightarrow> u8 list \<Rightarrow> u8 list" where
  "f25519_mul__distinct a b = (let (r, c) = mul_columns a b 0 [0..<32] in f25519_reduce r c)"

definition f25519_mul :: "u8 list \<Rightarrow> u8 list \<Rightarrow> u8 list" where
  "f25519_mul a b = (let tmp = f25519_mul__distinct a b in f25519_copy tmp)"

definition f25519_mul_c :: "u8 list \<Rightarrow> u32 \<Rightarrow> u8 list" where
  "f25519_mul_c a b =
     (let (r, c) = carry_chain_pre (0 :: u32) (map (\<lambda>x. b * ucast x) a) in f25519_reduce r c)"

text \<open>One bit of the exponent: square, and square and multiply.\<close>

definition square_mul :: "u8 list \<Rightarrow> u8 list \<Rightarrow> u8 list" where
  "square_mul x r = (let s = f25519_mul__distinct r r in f25519_mul__distinct s x)"

definition f25519_inv__distinct :: "u8 list \<Rightarrow> u8 list" where
  "f25519_inv__distinct x =
     (let s = f25519_mul__distinct x x;
          r = f25519_mul__distinct s x;
          r = (square_mul x ^^ 248) r;
          s = f25519_mul__distinct r r;
          r = f25519_mul__distinct s s;
          s = f25519_mul__distinct r x;
          r = f25519_mul__distinct s s;
          s = f25519_mul__distinct r r;
          r = f25519_mul__distinct s x;
          s = f25519_mul__distinct r r
      in f25519_mul__distinct s x)"

definition f25519_inv :: "u8 list \<Rightarrow> u8 list" where
  "f25519_inv x = (let tmp = f25519_inv__distinct x in f25519_copy tmp)"

definition exp2523 :: "u8 list \<Rightarrow> u8 list" where
  "exp2523 x =
     (let r = f25519_mul__distinct x x;
          s = f25519_mul__distinct r x;
          s = (square_mul x ^^ 248) s;
          r = f25519_mul__distinct s s;
          s = f25519_mul__distinct r r
      in f25519_mul__distinct s x)"

definition f25519_sqrt :: "u8 list \<Rightarrow> u8 list" where
  "f25519_sqrt a =
     (let x = f25519_mul_c a 2;
          v = exp2523 x;
          y = f25519_mul__distinct v v;
          i = f25519_mul__distinct x y;
          y = f25519_load 1;
          i = f25519_sub i y;
          x = f25519_mul__distinct v a
      in f25519_mul__distinct x i)"

section \<open>Residues\<close>

definition p25519 :: nat where
  "p25519 = 2 ^ 255 - 19"

lemma p25519_val: "p25519 = 57896044618658097711785492504343953926634992332820282019728792003956564819949"
  by (simp add: p25519_def)

definition fe :: "u8 list \<Rightarrow> int" where
  "fe x = int (limbs x) mod int p25519"

definition fe_ok :: "u8 list \<Rightarrow> bool" where
  "fe_ok x \<longleftrightarrow> length x = 32 \<and> limbs x < 2 * p25519"

lemma fe_ok_length [simp, dest]: "fe_ok x \<Longrightarrow> length x = 32"
  by (simp add: fe_ok_def)

lemma fe_mod [simp]: "fe x mod int p25519 = fe x"
  by (simp add: fe_def)

lemma fe_eqI: "int (limbs x) = v + k * int p25519 \<Longrightarrow> fe x = v mod int p25519"
  by (simp add: fe_def)

text \<open>\<open>fe\<close> inside sums and products is the number itself.\<close>

lemma fe_ring:
  "(fe x + fe y) mod int p25519 = (int (limbs x) + int (limbs y)) mod int p25519"
  "(fe x - fe y) mod int p25519 = (int (limbs x) - int (limbs y)) mod int p25519"
  "(fe x * fe y) mod int p25519 = (int (limbs x) * int (limbs y)) mod int p25519"
  by (simp_all add: fe_def mod_simps)

lemma last_32: "length r = 32 \<Longrightarrow> last r = r ! 31"
  by (cases r rule: rev_cases) (simp_all add: nth_append)

lemma unat_drop_7: "unat (drop_bit 7 c) = unat c div 128" for c :: "'a::len word"
  by (subst unat_drop_bit_eq) (simp add: drop_bit_eq_div)

lemma limbs_split_last: "length r = 32 \<Longrightarrow> limbs r = limbs (take 31 r) + 256 ^ 31 * unat (r ! 31)"
  using limbs_butlast_last [of r] last_32 [of r] by (cases "r = []") (simp_all add: butlast_conv_take)

lemma top_cleared:
  assumes "length (r :: u8 list) = 32"
  shows "limbs (r[31 := b]) = limbs (take 31 r) + 256 ^ 31 * unat b"
  using limbs_split_last [of "r[31 := b]"] assms by simp

text \<open>The reduction step: what the bytes and the top carry stand for, modulo \<open>p\<close>, in range.\<close>

lemma reduce_value:
  fixes c :: "'a::len word"
  assumes len: "length r = 32" and top: "r ! 31 = ucast c"
    and C: "19 * (unat c div 128) \<le> C" "1 \<le> C" "C + 255 < 2 ^ LENGTH('a)" "C < 2 ^ 254" and w: "8 \<le> LENGTH('a)"
  shows "limbs (f25519_reduce r c) + p25519 * (unat c div 128) = limbs (take 31 r) + 256 ^ 31 * unat c"
    "limbs (f25519_reduce r c) < 2 ^ 255 + 2 ^ 254" "length (f25519_reduce r c) = 32"
proof -
  let ?ts = "map ucast (r[31 := r ! 31 AND 127]) :: 'a word list"
  have t31: "limbs (take 31 r) < 256 ^ 31" using limbs_less [of "take 31 r"] len by simp
  have "unat (r ! 31 AND 127) = unat c mod 128"
    using top by (simp add: and_127 unat_low_byte) (simp add: mod_mod_cancel)
  then have ts: "limbs ?ts = limbs (take 31 r) + 256 ^ 31 * (unat c mod 128)"
    using w by (simp add: limbs_ucast top_cleared [OF len])
  have "unat c mod 128 \<le> 127" by (simp add: less_Suc_eq_le [symmetric])
  then have "256 ^ 31 * (unat c mod 128) \<le> 256 ^ 31 * (127 :: nat)" by (intro mult_le_mono2)
  then have small: "limbs ?ts < 2 ^ 255" using ts t31 by simp
  have "19 * (unat c div 128) < 2 ^ LENGTH('a)" using C(1,3) by simp
  moreover have "drop_bit 7 c * 19 = of_nat (19 * (unat c div 128))"
    by (simp add: unat_drop_7 [symmetric] mult.commute)
  ultimately have c19: "unat (drop_bit 7 c * 19) = 19 * (unat c div 128)"
    by (simp only: unat_of_nat mod_less)
  show "length (f25519_reduce r c) = 32" using len by (simp add: f25519_reduce_def)
  have v: "limbs (f25519_reduce r c) = 19 * (unat c div 128) + limbs ?ts"
    unfolding f25519_reduce_def c19 [symmetric]
  proof (rule carry_chain_exact [where B = 255 and C = C])
    show "\<forall>t\<in>set ?ts. unat t \<le> 255"
      using w u8_bound by (auto simp: unat_ucast_byte less_Suc_eq_le [symmetric])
    show "(C + 255) div 256 \<le> C" using C(2) by simp
    show "unat (drop_bit 7 c * 19) + limbs ?ts < 256 ^ length ?ts"
      using small C(1,4) len by (simp add: c19)
  qed (use C c19 in auto)
  show "limbs (f25519_reduce r c) < 2 ^ 255 + 2 ^ 254" using v small C(1,4) by simp
  have "256 ^ 31 * unat c = 256 ^ 31 * (128 * (unat c div 128)) + 256 ^ 31 * (unat c mod 128)"
    by (simp only: distrib_left [symmetric] mult_div_mod_eq)
  then show "limbs (f25519_reduce r c) + p25519 * (unat c div 128) = limbs (take 31 r) + 256 ^ 31 * unat c"
    unfolding v ts by (simp add: p25519_val)
qed

section \<open>Addition and small multiples\<close>

text \<open>A chain of 32 addends followed by the reduction.\<close>

lemma chain_reduce:
  fixes ts :: "'a::len word list"
  assumes ts: "length ts = 32" "\<forall>t\<in>set ts. unat t \<le> B"
    and C: "C + B < 2 ^ LENGTH('a)" "(C + B) div 256 \<le> C"
    and R: "19 * ((C + B) div 128) \<le> R" "1 \<le> R" "R + 255 < 2 ^ LENGTH('a)" "R < 2 ^ 254" "8 \<le> LENGTH('a)"
    and r: "carry_chain_pre 0 ts = (r, c)"
  shows "fe (f25519_reduce r c) = int (limbs ts) mod int p25519" "fe_ok (f25519_reduce r c)"
proof -
  have ne: "ts \<noteq> []" using ts(1) by auto
  have len: "length r = 32" using carry_chain_pre_length [of 0 ts] ts(1) r by simp
  have "last r = ucast c" using carry_chain_pre_last [OF ne, of 0] r by simp
  then have top: "r ! 31 = ucast c" using last_32 [OF len] by simp
  have "unat c \<le> C + B" using carry_chain_pre_bound [OF ts(2) _ C, of 0] r by simp
  then have "19 * (unat c div 128) \<le> R" using R(1) div_le_mono [of "unat c" "C + B" 128] by linarith
  note red = reduce_value [OF len top this R(2-5)]
  have "limbs (take 31 r) + 256 ^ 31 * unat c = limbs ts"
    using carry_chain_pre_value [OF ne ts(2) C] r ts(1) len by (simp add: butlast_conv_take)
  then have "int (limbs (f25519_reduce r c)) = int (limbs ts) + - int (unat c div 128) * int p25519"
    using red(1) by (simp add: algebra_simps flip: of_nat_mult of_nat_add)
  then show "fe (f25519_reduce r c) = int (limbs ts) mod int p25519" by (rule fe_eqI)
  show "fe_ok (f25519_reduce r c)" using red(2,3) by (simp add: fe_ok_def p25519_val)
qed

lemma limbs_map2_add:
  "length a = length b \<Longrightarrow> limbs (map2 (\<lambda>x y. ucast x + ucast y) a b :: u16 list) = limbs (a :: u8 list) + limbs (b :: u8 list)"
proof (induction a b rule: list_induct2)
  case (Cons x a y b)
  have "unat (ucast x + ucast y :: u16) = unat x + unat y"
    using u8_bound [of x] u8_bound [of y] by (simp add: unat_word_ariths(1) unat_ucast_byte)
  then show ?case using Cons.IH by simp
qed simp

lemma f25519_add_fe:
  assumes "length a = 32" "length b = 32"
  shows "fe (f25519_add a b) = (fe a + fe b) mod int p25519" "fe_ok (f25519_add a b)"
proof -
  let ?ts = "map2 (\<lambda>x y. ucast x + ucast y) a b :: u16 list"
  obtain r c where r: "carry_chain_pre 0 ?ts = (r, c)" by fastforce
  have b: "unat (ucast x + ucast y :: u16) \<le> 510" for x y :: u8
    using u8_bound [of x] u8_bound [of y] by (simp add: unat_word_ariths(1) unat_ucast_byte)
  have "\<forall>t\<in>set ?ts. unat t \<le> 510" using b by (auto simp: set_zip)
  moreover have "length ?ts = 32" using assms by simp
  ultimately have red: "fe (f25519_reduce r c) = int (limbs ?ts) mod int p25519" "fe_ok (f25519_reduce r c)"
    using r by (intro chain_reduce [where B = 510 and C = 255 and R = 255 and ts = ?ts]; simp)+
  have "limbs ?ts = limbs a + limbs b" using assms by (intro limbs_map2_add) simp
  then show "fe (f25519_add a b) = (fe a + fe b) mod int p25519" "fe_ok (f25519_add a b)"
    using red r by (simp_all add: f25519_add_def fe_ring)
qed

lemma limbs_map_mul:
  "unat b < 2 ^ 24 \<Longrightarrow> limbs (map (\<lambda>x. b * ucast x) a :: u32 list) = unat b * limbs (a :: u8 list)"
proof (induction a)
  case (Cons x a)
  have "unat b * unat x < 2 ^ 24 * 256"
    by (rule mult_strict_mono) (use Cons.prems u8_bound in auto)
  then have "unat (b * ucast x :: u32) = unat b * unat x" by (simp add: unat_word_ariths(2) unat_ucast_byte)
  then show ?case using Cons by (simp add: algebra_simps)
qed simp

lemma f25519_mul_c_fe:
  assumes "length a = 32" "unat b < 2 ^ 24"
  shows "fe (f25519_mul_c a b) = (int (unat b) * fe a) mod int p25519" "fe_ok (f25519_mul_c a b)"
proof -
  let ?ts = "map (\<lambda>x. b * ucast x) a :: u32 list"
  obtain r c where r: "carry_chain_pre 0 ?ts = (r, c)" by fastforce
  have b: "unat (b * ucast x :: u32) \<le> 4278189825" for x :: u8
  proof -
    have "unat b * unat x \<le> 16777215 * 255"
      by (rule mult_le_mono) (use assms(2) u8_bound [of x] in auto)
    then show ?thesis by (simp add: unat_word_ariths(2) unat_ucast_byte)
  qed
  have "\<forall>t\<in>set ?ts. unat t \<le> 4278189825" using b by auto
  moreover have "length ?ts = 32" using assms by simp
  ultimately have red: "fe (f25519_reduce r c) = int (limbs ?ts) mod int p25519" "fe_ok (f25519_reduce r c)"
    using r by (intro chain_reduce [where B = 4278189825 and C = 16777216 and R = 1073741824 and ts = ?ts]; simp)+
  have "limbs ?ts = unat b * limbs a" using assms by (intro limbs_map_mul) simp
  then show "fe (f25519_mul_c a b) = (int (unat b) * fe a) mod int p25519" "fe_ok (f25519_mul_c a b)"
    using red r by (simp_all add: f25519_mul_c_def fe_def mod_simps)
qed

section \<open>Subtraction\<close>

text \<open>Twice the prime is added first, a byte at a time, so that no step goes below zero.\<close>

lemma limbs_map2_sub:
  "length a = length b \<Longrightarrow>
     limbs (map2 (\<lambda>x y. 65280 + ucast x - ucast y) a b :: u32 list) + limbs (b :: u8 list) + 256 =
     256 ^ (length a + 1) + limbs (a :: u8 list)"
proof (induction a b rule: list_induct2)
  case (Cons x a y b)
  have "unat (65280 + ucast x :: u32) = 65280 + unat x"
    using u8_bound [of x] by (simp add: unat_word_ariths(1) unat_ucast_byte)
  then have "unat (65280 + ucast x - ucast y :: u32) + unat y = 65280 + unat x"
    using u8_bound [of y] by (simp add: unat_sub_if' unat_ucast_byte)
  then show ?case using Cons.IH by (simp add: algebra_simps)
qed simp

lemma sub_addend_bound: "unat (65280 + ucast (x :: u8) - ucast (y :: u8) :: u32) \<le> 65535"
proof -
  have "unat (65280 + ucast x :: u32) = 65280 + unat x"
    using u8_bound [of x] by (simp add: unat_word_ariths(1) unat_ucast_byte)
  then show ?thesis using u8_bound [of x] u8_bound [of y] by (simp add: unat_sub_if' unat_ucast_byte)
qed

lemma f25519_sub_fe:
  assumes a: "fe_ok a" and b: "fe_ok b"
  shows "fe (f25519_sub a b) = (fe a - fe b) mod int p25519" "fe_ok (f25519_sub a b)"
proof -
  let ?ts = "map2 (\<lambda>x y. 65280 + ucast x - ucast y) (take 31 a) (take 31 b) :: u32 list"
  obtain r c where r: "carry_chain 218 ?ts = (r, c)" by fastforce
  let ?c = "c + (ucast (a ! 31) - ucast (b ! 31))"
  let ?r = "r @ [ucast (?c AND 127)]"
  have len: "length r = 31" using carry_chain_length [of 218 ?ts] r a b by simp
  have ts: "\<forall>t\<in>set ?ts. unat t \<le> 65535" using sub_addend_bound by (auto simp: set_zip)
  have v: "limbs r + 256 ^ 31 * unat c = 218 + limbs ?ts"
    using carry_chain_value [OF ts, of 218 65535] r a b by simp
  have c65: "unat c \<le> 256"
  proof -
    have "limbs ?ts + limbs (take 31 b) + 256 = 256 ^ 32 + limbs (take 31 a)"
      using limbs_map2_sub [of "take 31 a" "take 31 b"] a b by simp
    then have "256 ^ 31 * unat c < 256 ^ 31 * 257"
      using v limbs_less [of "take 31 a"] a by simp
    then show ?thesis by simp
  qed
  have s: "limbs ?ts + limbs (take 31 b) + 256 = 256 ^ 32 + limbs (take 31 a)"
    using limbs_map2_sub [of "take 31 a" "take 31 b"] a b by simp
  have la: "limbs a = limbs (take 31 a) + 256 ^ 31 * unat (a ! 31)"
    and lb: "limbs b = limbs (take 31 b) + 256 ^ 31 * unat (b ! 31)"
    using limbs_split_last a b by auto
  have tot: "limbs r + 256 ^ 31 * (unat c + unat (a ! 31)) + limbs b =
      2 * p25519 + limbs a + 256 ^ 31 * unat (b ! 31)"
    using v s la lb by (simp add: p25519_val algebra_simps)
  have "limbs r < 256 ^ 31" using limbs_less [of r] len by simp
  moreover have "limbs b < 2 * p25519" using b by (simp add: fe_ok_def)
  ultimately have "256 ^ 31 * unat (b ! 31) < 256 ^ 31 * (unat c + unat (a ! 31) + 1)"
    using tot by (simp add: distrib_left)
  then have no_borrow: "unat (b ! 31) \<le> unat c + unat (a ! 31)" by simp
  have cv: "unat ?c + unat (b ! 31) = unat c + unat (a ! 31)"
  proof -
    have s: "unat (c + ucast (a ! 31)) = unat c + unat (a ! 31)"
      using c65 u8_bound [of "a ! 31"] by (simp add: unat_word_ariths(1) unat_ucast_byte)
    then have "(ucast (b ! 31) :: u32) \<le> c + ucast (a ! 31)"
      using no_borrow by (simp add: word_le_nat_alt unat_ucast_byte)
    from unat_sub [OF this] show ?thesis using s no_borrow by (simp add: add_diff_eq unat_ucast_byte)
  qed
  have top: "ucast (?c AND 127) = ((ucast ?c :: u8) AND 127)"
    by (rule bit_word_eqI) (simp add: bit_simps)
  have red: "fst (carry_chain (drop_bit 7 ?c * 19) (map ucast ?r)) = f25519_reduce (r @ [ucast ?c]) ?c"
    using len by (simp add: f25519_reduce_def nth_append list_update_append top)
  have "unat ?c \<le> 511" using cv c65 u8_bound [of "a ! 31"] by linarith
  then have R: "19 * (unat ?c div 128) \<le> 255" using div_le_mono [of "unat ?c" 511 128] by simp
  have "length (r @ [ucast ?c]) = 32" using len by simp
  note rv = reduce_value [OF this _ R]
  have "limbs (f25519_reduce (r @ [ucast ?c]) ?c) + p25519 * (unat ?c div 128) = limbs r + 256 ^ 31 * unat ?c"
    using rv(1) len by (simp add: nth_append)
  moreover have "limbs r + 256 ^ 31 * unat ?c + limbs b = 2 * p25519 + limbs a"
    using tot arg_cong [OF cv, of "\<lambda>n. 256 ^ 31 * n"] unfolding distrib_left by linarith
  ultimately have n: "limbs (f25519_reduce (r @ [ucast ?c]) ?c) + p25519 * (unat ?c div 128) + limbs b =
      2 * p25519 + limbs a" by linarith
  have "int (limbs (f25519_reduce (r @ [ucast ?c]) ?c)) =
      (int (limbs a) - int (limbs b)) + (2 - int (unat ?c div 128)) * int p25519"
    using arg_cong [OF n, of int] unfolding of_nat_add of_nat_mult of_nat_numeral left_diff_distrib mult.commute [of "int p25519"]
    by linarith
  from fe_eqI [OF this] show "fe (f25519_sub a b) = (fe a - fe b) mod int p25519"
    using red r by (simp add: f25519_sub_def Let_def fe_ring)
  show "fe_ok (f25519_sub a b)" using rv(2,3) red r len
    by (simp add: f25519_sub_def Let_def fe_ok_def p25519_val nth_append)
qed

lemma f25519_neg_sub:
  assumes "length a = 32"
  shows "f25519_neg a = f25519_sub f25519_zero a"
proof -
  have "map2 (\<lambda>x y. 65280 + ucast x - ucast y) (replicate n (0 :: u8)) ys = map (\<lambda>x. 65280 - ucast x) ys"
    if "length ys = n" for n and ys :: "u8 list"
    using that by (induction n arbitrary: ys) (auto simp: length_Suc_conv)
  from this [of "take 31 a" 31]
  have "map2 (\<lambda>x y. 65280 + ucast x - ucast y) (take 31 f25519_zero) (take 31 a) =
      (map (\<lambda>x. 65280 - ucast x) (take 31 a) :: u32 list)"
    using assms by (simp add: f25519_zero_def)
  moreover have "f25519_zero ! 31 = 0" by (simp add: f25519_zero_def)
  ultimately show ?thesis by (simp add: f25519_neg_def f25519_sub_def)
qed

lemma fe_zero [simp]: "fe f25519_zero = 0" "fe_ok f25519_zero"
  by (simp_all add: fe_def f25519_zero_def fe_ok_def p25519_val)

lemma f25519_neg_fe:
  assumes "fe_ok a"
  shows "fe (f25519_neg a) = (- fe a) mod int p25519" "fe_ok (f25519_neg a)"
  using f25519_sub_fe [OF fe_zero(2) assms] f25519_neg_sub [of a] assms by simp_all

section \<open>Selection, comparison and the canonical form\<close>

lemma f25519_select_if:
  assumes "length x = length y" "c = 0 \<or> c = 1"
  shows "f25519_select x y c = (if c = 1 then y else x)"
proof -
  have "map2 (\<lambda>z n. z XOR (0 AND (n XOR z))) x y = x" "map2 (\<lambda>z n. z XOR (- 1 AND (n XOR z))) x y = y"
    using assms(1) by (induction x y rule: list_induct2) (simp_all add: xor.left_commute xor.commute)
  then show ?thesis using assms(2) by (auto simp: f25519_select_def)
qed

lemma or_fold: "foldl (\<lambda>s (a, b). s OR (a XOR b)) s (zip x y) = 0 \<longleftrightarrow> s = 0 \<and> (\<forall>(a, b)\<in>set (zip x y). a = b)"
  for s :: u8
proof (induction x y arbitrary: s rule: list_induct2')
  case (4 a x b y)
  have "s OR (a XOR b) = 0 \<longleftrightarrow> s = 0 \<and> a = b"
    by (auto simp: bit_eq_iff bit_simps)
  then show ?case using 4 by auto
qed simp_all

lemma fold_to_one_bit:
  fixes s :: u8
  defines "s1 \<equiv> s OR drop_bit 4 s"
  defines "s2 \<equiv> s1 OR drop_bit 2 s1"
  defines "s3 \<equiv> s2 OR drop_bit 1 s2"
  shows "(s3 XOR 1) AND 1 = (if s = 0 then 1 else 0)"
proof -
  have b0: "bit s3 0 \<longleftrightarrow> (\<exists>i < 8. bit s i)"
    by (auto simp: s3_def s2_def s1_def bit_simps numeral_eq_Suc less_Suc_eq)
  have "s = 0 \<longleftrightarrow> \<not> (\<exists>i < 8. bit s i)"
    by (auto simp: bit_eq_iff)
  then show ?thesis using b0
    by (auto intro!: bit_word_eqI simp: bit_simps)
qed

lemma f25519_eq_iff:
  assumes "length x = length y"
  shows "f25519_eq x y = (if x = y then 1 else 0)"
proof -
  have "(\<forall>(a, b)\<in>set (zip x y). a = b) \<longleftrightarrow> x = y"
    using assms by (induction x y rule: list_induct2) auto
  then show ?thesis
    using fold_to_one_bit [of "foldl (\<lambda>s (a, b). s OR (a XOR b)) 0 (zip x y)"] or_fold [of 0 x y]
    by (simp add: f25519_eq_def Let_def)
qed

text \<open>\<open>f25519_normalize\<close> returns the least residue, whatever string it is given.\<close>

lemma f25519_normalize_value:
  assumes len: "length x = 32"
  shows "limbs (f25519_normalize x) = limbs x mod p25519" "length (f25519_normalize x) = 32"
proof -
  let ?y = "f25519_reduce x (ucast (x ! 31) :: u16)"
  have xb: "unat (x ! 31) < 256" by (rule u8_bound)
  have top: "x ! 31 = ucast (ucast (x ! 31) :: u16)" by (simp add: word_unat_eq_iff unat_low_byte unat_ucast_byte mod_less [OF u8_bound])
  have q: "unat (ucast (x ! 31) :: u16) = unat (x ! 31)" by (simp add: unat_ucast_byte)
  have "unat (x ! 31) div 128 \<le> 1" using xb by simp
  then have R: "19 * (unat (ucast (x ! 31) :: u16) div 128) \<le> 19" using q by simp
  note rv = reduce_value [OF len top R]
  have ylen: "length ?y = 32" using rv(3) by simp
  have yv: "limbs ?y + p25519 * (unat (x ! 31) div 128) = limbs x"
    using rv(1) limbs_split_last [OF len] by (simp add: q)
  have "limbs x < 2 ^ 256" using limbs_less [of x] len by simp
  have y2p: "limbs ?y < 2 ^ 255 + 19"
  proof -
    have "limbs x < 2 ^ 255 + 2 ^ 255 * (unat (x ! 31) div 128)"
    proof -
      have "unat (x ! 31) \<le> 127 + 128 * (unat (x ! 31) div 128)" by simp
      then have "256 ^ 31 * unat (x ! 31) \<le> 256 ^ 31 * (127 + 128 * (unat (x ! 31) div 128))" by (intro mult_le_mono2)
      moreover have "limbs (take 31 x) < 256 ^ 31" using limbs_less [of "take 31 x"] len by simp
      ultimately show ?thesis using limbs_split_last [OF len] by simp
    qed
    then show ?thesis using yv \<open>unat (x ! 31) div 128 \<le> 1\<close> by (simp add: p25519_val)
  qed
  obtain m c where mc: "carry_chain (19 :: u16) (map ucast (take 31 ?y)) = (m, c)" by fastforce
  let ?c = "c + (ucast (?y ! 31) - 128)"
  have mlen: "length m = 31" using carry_chain_length [of "19 :: u16" "map ucast (take 31 ?y)"] mc ylen by simp
  have "\<forall>t\<in>set (map ucast (take 31 ?y) :: u16 list). unat t \<le> 255"
    using u8_bound by (auto simp: unat_ucast_byte less_Suc_eq_le [symmetric])
  then have mv: "limbs m + 256 ^ 31 * unat c = 19 + limbs (take 31 ?y)"
    using carry_chain_value [of "map ucast (take 31 ?y) :: u16 list" 255 19 255] mc ylen by (simp add: limbs_ucast)
  have mb: "limbs m < 256 ^ 31" using limbs_less [of m] mlen by simp
  have "256 ^ 31 * unat c < 256 ^ 31 * 2"
    using mv limbs_less [of "take 31 ?y"] ylen by simp
  then have c1: "unat c \<le> 1" by simp
  let ?s = "unat c + unat (?y ! 31)"
  have tot: "limbs m + 256 ^ 31 * ?s = 19 + limbs ?y"
    using mv limbs_split_last [OF ylen] by (simp add: distrib_left)
  define w where "w = c + ucast (?y ! 31)"
  have s256: "?s \<le> 256" using c1 u8_bound [of "?y ! 31"] by linarith
  have ws: "unat w = ?s" and cs: "?c = w - 128"
    using s256 by (simp_all add: w_def unat_word_ariths(1) unat_ucast_byte)
  have sel: "limbs (f25519_normalize x) = limbs (if ucast (drop_bit 15 ?c AND 1 :: u16) = (1 :: u8) then ?y else m @ [ucast ?c])"
    "length (f25519_normalize x) = 32"
  proof -
    have "(ucast (drop_bit 15 ?c AND 1 :: u16) :: u8) = 0 \<or> (ucast (drop_bit 15 ?c AND 1 :: u16) :: u8) = 1"
      by (auto simp: and_one_eq mod_2_eq_odd)
    from f25519_select_if [OF _ this, of "m @ [ucast ?c]" ?y] mc mlen ylen
    show "limbs (f25519_normalize x) = limbs (if ucast (drop_bit 15 ?c AND 1 :: u16) = (1 :: u8) then ?y else m @ [ucast ?c])"
      "length (f25519_normalize x) = 32" by (simp_all add: f25519_normalize_def Let_def)
  qed
  show "length (f25519_normalize x) = 32" by (rule sel(2))
  have "limbs (f25519_normalize x) = (if limbs ?y < p25519 then limbs ?y else limbs ?y - p25519)"
  proof (cases "?s < 128")
    case True
    have cb: "unat ?c = 65536 - 128 + ?s"
      unfolding cs using True by (simp add: unat_sub_if' ws)
    then have "unat (drop_bit 15 ?c) = 1" using True by (subst unat_drop_bit_eq) (simp add: drop_bit_eq_div)
    then have "drop_bit 15 ?c = 1" by (simp add: word_unat_eq_iff)
    moreover have "limbs ?y < p25519"
    proof -
      have "256 ^ 31 * ?s \<le> 256 ^ 31 * 127" using True by (intro mult_le_mono2) simp
      then show ?thesis using tot mb by (simp add: p25519_val)
    qed
    ultimately show ?thesis using sel(1) by simp
  next
    case False
    have cb: "unat ?c = ?s - 128"
      unfolding cs using False by (simp add: unat_sub_if' ws)
    then have "unat (drop_bit 15 ?c) = 0" using s256 by (subst unat_drop_bit_eq) (simp add: drop_bit_eq_div)
    then have d: "drop_bit 15 ?c = 0" by (simp add: unat_eq_0)
    have lc: "unat (ucast ?c :: u8) = ?s - 128" 
    proof -
      have "?s - 128 < 256" using s256 by simp
      then show ?thesis by (simp add: unat_low_byte cb)
    qed
    have ge: "p25519 \<le> limbs ?y"
    proof -
      have "256 ^ 31 * 128 \<le> 256 ^ 31 * ?s" using False by (intro mult_le_mono2) simp
      then show ?thesis using tot by (simp add: p25519_val)
    qed
    have "limbs (m @ [ucast ?c]) = limbs m + 256 ^ 31 * (?s - 128)" using lc mlen by (simp add: limbs_append)
    also have "\<dots> = limbs ?y - p25519"
      using tot False by (simp add: p25519_val diff_mult_distrib2)
    finally show ?thesis using sel(1) d ge by simp
  qed
  also have "\<dots> = limbs ?y mod p25519"
    using y2p by (simp add: p25519_val mod_if)
  also have "\<dots> = limbs x mod p25519"
    unfolding yv [symmetric] by simp
  finally show "limbs (f25519_normalize x) = limbs x mod p25519" .
qed

section \<open>Multiplication\<close>

definition column_sum :: "u8 list \<Rightarrow> u8 list \<Rightarrow> nat \<Rightarrow> nat" where
  "column_sum a b i =
     (\<Sum>j<i + 1. unat (a ! j) * unat (b ! (i - j))) + 38 * (\<Sum>j=i + 1..<32. unat (a ! j) * unat (b ! (i + 32 - j)))"

lemma foldl_plus: "foldl (\<lambda>c j. c + f j) c js = c + (\<Sum>j\<leftarrow>js. f j)" for c :: "'a::comm_monoid_add"
  by (induction js arbitrary: c) (simp_all add: add.assoc)

lemma mul_column_eq: "mul_column a b i c = c + of_nat (column_sum a b i)"
proof -
  have u: "ucast x * ucast y = (of_nat (unat x * unat y) :: u32)" for x y :: u8
    by (rule word_unat_eq_iff [THEN iffD2])
      (simp add: unat_word_ariths(2) unat_ucast_byte unat_of_nat del: of_nat_mult)
  have l: "(\<Sum>j\<leftarrow>[0..<i + 1]. of_nat (unat (a ! j) * unat (b ! (i - j)))) =
      (of_nat (\<Sum>j<i + 1. unat (a ! j) * unat (b ! (i - j))) :: u32)"
    by (simp add: interv_sum_list_conv_sum_set_nat atLeast0LessThan del: upt_Suc)
  have h: "(\<Sum>j\<leftarrow>[i + 1..<32]. of_nat (unat (a ! j) * unat (b ! (i + 32 - j))) * 38) =
      (of_nat (38 * (\<Sum>j=i + 1..<32. unat (a ! j) * unat (b ! (i + 32 - j)))) :: u32)"
    by (simp add: interv_sum_list_conv_sum_set_nat sum_distrib_left mult.commute del: upt_Suc)
  show ?thesis
    unfolding mul_column_def u foldl_plus l h column_sum_def by (simp add: add.assoc)
qed

lemma mul_columns_eq:
  "mul_columns a b c is = carry_chain_pre c (map (\<lambda>i. of_nat (column_sum a b i)) is)"
  by (induction "is" arbitrary: c) (simp_all add: mul_column_eq Let_def)

lemma column_sum_bound: "i < 32 \<Longrightarrow> column_sum a b i \<le> 79070400"
proof -
  assume i: "i < 32"
  have p: "unat (x :: u8) * unat (y :: u8) \<le> 65025" for x y
    using mult_le_mono [of "unat x" 255 "unat y" 255] u8_bound [of x] u8_bound [of y] by simp
  have "(\<Sum>j<i + 1. unat (a ! j) * unat (b ! (i - j))) \<le> (i + 1) * 65025"
    using sum_bounded_above [of "{..<i + 1}" "\<lambda>j. unat (a ! j) * unat (b ! (i - j))" 65025] p by simp
  moreover have "(\<Sum>j=i + 1..<32. unat (a ! j) * unat (b ! (i + 32 - j))) \<le> (31 - i) * 65025"
    using sum_bounded_above [of "{i + 1..<32}" "\<lambda>j. unat (a ! j) * unat (b ! (i + 32 - j))" 65025] p by simp
  ultimately show ?thesis using i by (simp add: column_sum_def)
qed

text \<open>The columns add up to the product, what lies past \<open>2^256\<close> counted 38 times.\<close>

lemma column_row:
  assumes "j < 32"
  shows "(\<Sum>k<32. unat (b ! k) * 256 ^ (j + k)) =
    (\<Sum>i=j..<32. unat (b ! (i - j)) * 256 ^ i) + 256 ^ 32 * (\<Sum>i<j. unat (b ! (i + 32 - j)) * 256 ^ i)"
proof -
  let ?f = "\<lambda>k. unat (b ! k) * (256 :: nat) ^ (j + k)"
  have e: "256 ^ 32 * 256 ^ (j + k - 32) = (256 :: nat) ^ (j + k)" if "32 - j \<le> k" for k
  proof -
    have "32 + (j + k - 32) = j + k" using that by simp
    then show ?thesis by (metis power_add)
  qed
  have "(\<Sum>k<32. ?f k) = (\<Sum>k<32 - j. ?f k) + (\<Sum>k=32 - j..<32. ?f k)"
    using sum.atLeastLessThan_concat [of 0 "32 - j" 32 ?f] by (simp add: lessThan_atLeast0)
  moreover have "(\<Sum>k<32 - j. ?f k) = (\<Sum>i=j..<32. unat (b ! (i - j)) * 256 ^ i)"
    by (rule sum.reindex_bij_witness [of _ "\<lambda>i. i - j" "\<lambda>k. k + j"]) (use assms in \<open>auto simp: add.commute\<close>)
  moreover have "(\<Sum>k=32 - j..<32. ?f k) = (\<Sum>i<j. 256 ^ 32 * (unat (b ! (i + 32 - j)) * 256 ^ i))"
    by (rule sum.reindex_bij_witness [of _ "\<lambda>i. i + 32 - j" "\<lambda>k. k + j - 32"])
      (use assms e in \<open>auto simp: algebra_simps simp del: power_numeral\<close>)
  ultimately show ?thesis by (simp only: sum_distrib_left)
qed

lemma swap_le: "(\<Sum>j<32::nat. \<Sum>i=j..<32. f i j) = (\<Sum>i<32. \<Sum>j<i + 1. (f i j :: nat))"
proof -
  have "(\<Sum>j<32. \<Sum>i=j..<32. f i j) = (\<Sum>j\<in>{..<32}. \<Sum>i | i \<in> {..<32} \<and> j \<le> i. f i j)"
    by (intro sum.cong refl) auto
  also have "\<dots> = (\<Sum>i\<in>{..<32}. \<Sum>j | j \<in> {..<32} \<and> j \<le> i. f i j)"
    by (rule sum.swap_restrict) simp_all
  also have "\<dots> = (\<Sum>i<32. \<Sum>j<i + 1. f i j)" by (intro sum.cong refl) auto
  finally show ?thesis .
qed

lemma swap_gt: "(\<Sum>j<32::nat. \<Sum>i<j. f i j) = (\<Sum>i<32. \<Sum>j=i + 1..<32. (f i j :: nat))"
proof -
  have "(\<Sum>j<32. \<Sum>i<j. f i j) = (\<Sum>j\<in>{..<32}. \<Sum>i | i \<in> {..<32} \<and> i < j. f i j)"
    by (intro sum.cong refl) auto
  also have "\<dots> = (\<Sum>i\<in>{..<32}. \<Sum>j | j \<in> {..<32} \<and> i < j. f i j)"
    by (rule sum.swap_restrict) simp_all
  also have "\<dots> = (\<Sum>i<32. \<Sum>j=i + 1..<32. f i j)" by (intro sum.cong refl) auto
  finally show ?thesis .
qed

lemma product_columns:
  assumes "length a = 32" "length b = 32"
  shows "\<exists>k. limbs a * limbs b = (\<Sum>i<32. column_sum a b i * 256 ^ i) + k * p25519"
proof -
  let ?A = "\<lambda>j. unat (a ! j)" and ?B = "\<lambda>k. unat (b ! k)"
  let ?lo = "\<Sum>j<32. ?A j * (\<Sum>i=j..<32. ?B (i - j) * 256 ^ i)"
  let ?hi = "\<Sum>j<32. ?A j * (\<Sum>i<j. ?B (i + 32 - j) * 256 ^ i)"
  have "limbs a * limbs b = (\<Sum>j<32. ?A j * 256 ^ j) * (\<Sum>k<32. ?B k * 256 ^ k)"
    using assms by (simp add: limbs_sum)
  also have "\<dots> = (\<Sum>j<32. ?A j * (\<Sum>k<32. ?B k * 256 ^ (j + k)))"
    by (simp only: sum_product, intro sum.cong refl) (simp add: sum_distrib_left power_add algebra_simps)
  also have "\<dots> = (\<Sum>j<32. ?A j * (\<Sum>i=j..<32. ?B (i - j) * 256 ^ i) +
      256 ^ 32 * (?A j * (\<Sum>i<j. ?B (i + 32 - j) * 256 ^ i)))"
    by (intro sum.cong refl) (simp only: lessThan_iff column_row distrib_left mult.left_commute)
  also have "\<dots> = ?lo + 256 ^ 32 * ?hi" by (simp only: sum.distrib sum_distrib_left)
  finally have prod: "limbs a * limbs b = ?lo + 256 ^ 32 * ?hi" .
  have "?lo = (\<Sum>j<32. \<Sum>i=j..<32. ?A j * ?B (i - j) * 256 ^ i)" by (simp add: sum_distrib_left mult.assoc)
  also have "\<dots> = (\<Sum>i<32. \<Sum>j<i + 1. ?A j * ?B (i - j) * 256 ^ i)"
    by (rule swap_le)
  finally have lo: "?lo = (\<Sum>i<32. \<Sum>j<i + 1. ?A j * ?B (i - j) * 256 ^ i)" .
  have "?hi = (\<Sum>j<32. \<Sum>i<j. ?A j * ?B (i + 32 - j) * 256 ^ i)" by (simp add: sum_distrib_left mult.assoc)
  also have "\<dots> = (\<Sum>i<32. \<Sum>j=i + 1..<32. ?A j * ?B (i + 32 - j) * 256 ^ i)"
    by (rule swap_gt)
  finally have hi: "?hi = (\<Sum>i<32. \<Sum>j=i + 1..<32. ?A j * ?B (i + 32 - j) * 256 ^ i)" .
  have "(\<Sum>i<32. column_sum a b i * 256 ^ i) = ?lo + 38 * ?hi"
    unfolding lo hi column_sum_def
    by (simp only: distrib_right sum.distrib sum_distrib_right sum_distrib_left mult.assoc)
  moreover have "(256 :: nat) ^ 32 = 38 + 2 * p25519" by (simp add: p25519_val)
  ultimately have "limbs a * limbs b = (\<Sum>i<32. column_sum a b i * 256 ^ i) + (2 * ?hi) * p25519"
    unfolding prod by (simp add: distrib_right)
  then show ?thesis by blast
qed

lemma f25519_mul_fe:
  assumes "length a = 32" "length b = 32"
  shows "fe (f25519_mul__distinct a b) = (fe a * fe b) mod int p25519" "fe_ok (f25519_mul__distinct a b)"
proof -
  let ?ts = "map (\<lambda>i. of_nat (column_sum a b i)) [0..<32] :: u32 list"
  have u: "unat (of_nat (column_sum a b i) :: u32) = column_sum a b i" if "i < 32" for i
    using column_sum_bound [OF that, of a b] by (simp add: unat_of_nat)
  obtain r c where r: "carry_chain_pre 0 ?ts = (r, c)" by fastforce
  have "\<forall>t\<in>set ?ts. unat t \<le> 79070400" using u column_sum_bound by auto
  moreover have "length ?ts = 32" by simp
  ultimately have red: "fe (f25519_reduce r c) = int (limbs ?ts) mod int p25519" "fe_ok (f25519_reduce r c)"
    using r by (intro chain_reduce [where B = 79070400 and C = 1048576 and R = 16777216 and ts = ?ts]; simp)+
  have "limbs ?ts = (\<Sum>i<32. column_sum a b i * 256 ^ i)" using u by (simp add: limbs_sum)
  moreover obtain k where "limbs a * limbs b = (\<Sum>i<32. column_sum a b i * 256 ^ i) + k * p25519"
    using product_columns [OF assms] by blast
  ultimately have "limbs a * limbs b = limbs ?ts + k * p25519" by simp
  from arg_cong [OF this, of int]
  have "(fe a * fe b) mod int p25519 = int (limbs ?ts) mod int p25519" by (simp add: fe_ring)
  then show "fe (f25519_mul__distinct a b) = (fe a * fe b) mod int p25519" "fe_ok (f25519_mul__distinct a b)"
    using red r by (simp_all add: f25519_mul__distinct_def mul_columns_eq)
qed

section \<open>Powers\<close>

text \<open>\<open>pow x e r\<close>: the string \<open>r\<close> stands for \<open>x ^ e\<close>.\<close>

definition pow25519 :: "u8 list \<Rightarrow> nat \<Rightarrow> u8 list \<Rightarrow> bool" where
  "pow25519 x e r \<longleftrightarrow> fe r = fe x ^ e mod int p25519 \<and> fe_ok r"

lemma pow_base: "fe_ok x \<Longrightarrow> pow25519 x 1 x"
  by (simp add: pow25519_def)

lemma pow_mul: "pow25519 x d r \<Longrightarrow> pow25519 x e s \<Longrightarrow> pow25519 x (d + e) (f25519_mul__distinct r s)"
  by (simp add: pow25519_def f25519_mul_fe power_add mod_simps)

lemma pow_square_mul: "fe_ok x \<Longrightarrow> pow25519 x e r \<Longrightarrow> pow25519 x (2 * e + 1) (square_mul x r)"
  using pow_mul [OF pow_mul pow_base, of x e r e r] by (simp add: square_mul_def mult_2)

lemma pow_ones:
  assumes "fe_ok x" "pow25519 x (2 ^ m - 1) r"
  shows "pow25519 x (2 ^ (n + m) - 1) ((square_mul x ^^ n) r)"
proof (induction n)
  case (Suc n)
  have "2 * (2 ^ (n + m) - 1) + 1 = (2 :: nat) ^ (Suc n + m) - 1"
  proof -
    have "1 \<le> (2 :: nat) ^ (n + m)" by simp
    then show ?thesis unfolding power_Suc add_Suc by arith
  qed
  then show ?case using pow_square_mul [OF assms(1) Suc] by (simp del: power_Suc)
qed (use assms in simp)

lemma pow_inv:
  assumes "fe_ok x"
  shows "pow25519 x (p25519 - 2) (f25519_inv__distinct x)"
proof -
  let ?m = f25519_mul__distinct
  note x = pow_base [OF assms]
  define r0 where "r0 = ?m (?m x x) x"
  define r1 where "r1 = (square_mul x ^^ 248) r0"
  have "pow25519 x (2 ^ 2 - 1) r0" using pow_mul [OF pow_mul [OF x x] x] by (simp add: r0_def numeral_3_eq_3)
  from pow_ones [OF assms this, of 248] have r1: "pow25519 x (2 ^ 250 - 1) r1" by (simp add: r1_def)
  note s1 = pow_mul [OF r1 r1]
  note r2 = pow_mul [OF s1 s1]
  note s2 = pow_mul [OF r2 x]
  note r3 = pow_mul [OF s2 s2]
  note s3 = pow_mul [OF r3 r3]
  note r4 = pow_mul [OF s3 x]
  note r5 = pow_mul [OF pow_mul [OF r4 r4] x]
  have "f25519_inv__distinct x =
      ?m (?m (?m (?m (?m (?m (?m (?m r1 r1) (?m r1 r1)) x) (?m (?m (?m r1 r1) (?m r1 r1)) x))
        (?m (?m (?m (?m r1 r1) (?m r1 r1)) x) (?m (?m (?m r1 r1) (?m r1 r1)) x))) x)
        (?m (?m (?m (?m (?m (?m r1 r1) (?m r1 r1)) x) (?m (?m (?m r1 r1) (?m r1 r1)) x))
        (?m (?m (?m (?m r1 r1) (?m r1 r1)) x) (?m (?m (?m r1 r1) (?m r1 r1)) x))) x)) x"
    unfolding f25519_inv__distinct_def Let_def r1_def r0_def ..
  with r5 show ?thesis by (simp add: p25519_val)
qed

lemma pow_2523:
  assumes "fe_ok x"
  shows "pow25519 x (2 ^ 252 - 3) (exp2523 x)"
proof -
  let ?m = f25519_mul__distinct
  note x = pow_base [OF assms]
  define s0 where "s0 = ?m (?m x x) x"
  define s1 where "s1 = (square_mul x ^^ 248) s0"
  have "pow25519 x (2 ^ 2 - 1) s0" using pow_mul [OF pow_mul [OF x x] x] by (simp add: s0_def numeral_3_eq_3)
  from pow_ones [OF assms this, of 248] have s1: "pow25519 x (2 ^ 250 - 1) s1" by (simp add: s1_def)
  note r1 = pow_mul [OF s1 s1]
  note r2 = pow_mul [OF pow_mul [OF r1 r1] x]
  have "exp2523 x = ?m (?m (?m s1 s1) (?m s1 s1)) x"
    unfolding exp2523_def Let_def s1_def s0_def ..
  with r2 show ?thesis by simp
qed

section \<open>Square roots\<close>

lemma f25519_load_1 [simp]: "f25519_load 1 = f25519_one"
  by (simp add: f25519_load_def f25519_one_def upt_rec numeral_3_eq_3 [symmetric] replicate_eqI
      flip: replicate_Suc replicate_add)

lemma fe_one [simp]: "fe f25519_one = 1" "fe_ok f25519_one"
  by (simp_all add: fe_def f25519_one_def fe_ok_def p25519_val)

lemma f25519_sqrt_fe:
  assumes "fe_ok a"
  defines "v \<equiv> (2 * fe a) ^ (2 ^ 252 - 3)"
  shows "fe (f25519_sqrt a) = v * fe a * (2 * fe a * (v * v) - 1) mod int p25519" "fe_ok (f25519_sqrt a)"
proof -
  have two: "fe (f25519_mul_c a 2) = 2 * fe a mod int p25519" "fe_ok (f25519_mul_c a 2)"
    using f25519_mul_c_fe [of a 2] assms(1) by simp_all
  have v: "fe (exp2523 (f25519_mul_c a 2)) = v mod int p25519" "fe_ok (exp2523 (f25519_mul_c a 2))"
    using pow_2523 [OF two(2)] by (simp_all only: pow25519_def two v_def power_mod)
  note ops = f25519_mul_fe f25519_sub_fe two v assms(1)
  show "fe (f25519_sqrt a) = v * fe a * (2 * fe a * (v * v) - 1) mod int p25519"
    by (simp add: f25519_sqrt_def Let_def ops mod_simps)
  show "fe_ok (f25519_sqrt a)"
    by (simp add: f25519_sqrt_def Let_def ops)
qed

text \<open>Where the residue has a root, the result is one: \<open>2a\<close> raised to \<open>(p - 1) / 2\<close> is then -1, because
  2 is not a square modulo \<open>p\<close>.\<close>

lemma f25519_sqrt_squares:
  assumes a: "fe_ok a" and euler: "((2 * fe a) ^ ((p25519 - 1) div 2) + 1) mod int p25519 = 0"
  shows "fe (f25519_sqrt a) * fe (f25519_sqrt a) mod int p25519 = fe a"
proof -
  define v where "v = (2 * fe a) ^ (2 ^ 252 - 3)"
  define i where "i = 2 * fe a * (v * v)"
  have fourth: "(c * (c ^ e * c ^ e)) * (c * (c ^ e * c ^ e)) = c ^ (2 + 4 * e)" for c :: int and e :: nat
    by (simp add: power_add power_mult power2_eq_square power4_eq_xxxx algebra_simps)
  have "i * i = (2 * fe a) ^ (2 + 4 * (2 ^ 252 - 3))"
    unfolding i_def v_def by (rule fourth)
  also have "2 + 4 * (2 ^ 252 - 3) = (p25519 - 1) div 2" by (simp add: p25519_val)
  finally have "(i * i + 1) mod int p25519 = 0" using euler by simp
  then have "((i * i + 1) * (v * v * fe a * fe a - fe a)) mod int p25519 = 0"
    by (metis mod_mult_left_eq mult_zero_left mod_0)
  moreover have "(i * i + 1) * (v * v * fe a * fe a - fe a) =
      (v * fe a * (i - 1)) * (v * fe a * (i - 1)) - fe a"
    by (simp add: i_def algebra_simps)
  ultimately have "((v * fe a * (i - 1)) * (v * fe a * (i - 1)) - fe a) mod int p25519 = 0" by simp
  then have "(v * fe a * (i - 1)) * (v * fe a * (i - 1)) mod int p25519 = fe a mod int p25519"
    by (simp only: mod_eq_dvd_iff mod_eq_0_iff_dvd)
  moreover have "fe (f25519_sqrt a) = v * fe a * (i - 1) mod int p25519"
    unfolding v_def i_def by (rule f25519_sqrt_fe(1) [OF a])
  ultimately show ?thesis by (simp only: mod_mult_eq fe_mod)
qed

section \<open>Properties\<close>

text \<open>C12. Field arithmetic is arithmetic modulo \<open>2^255 - 19\<close>. On strings in the range the header promises
  (below twice the prime, not normalised), addition, subtraction, negation, multiplication by a small
  constant and by a string, and inversion by the addition chain (the power \<open>p - 2\<close>) return the byte
  string of the residue, back in the range; no carry is ever lost and no borrow goes below zero.\<close>

theorem f25519_is_arithmetic_mod_p:
  assumes "fe_ok a" "fe_ok b" "unat k < 2 ^ 24"
  shows "fe (f25519_add a b) = (fe a + fe b) mod int p25519 \<and> fe_ok (f25519_add a b) \<and>
    fe (f25519_sub a b) = (fe a - fe b) mod int p25519 \<and> fe_ok (f25519_sub a b) \<and>
    fe (f25519_neg a) = (- fe a) mod int p25519 \<and> fe_ok (f25519_neg a) \<and>
    fe (f25519_mul__distinct a b) = (fe a * fe b) mod int p25519 \<and> fe_ok (f25519_mul__distinct a b) \<and>
    fe (f25519_mul_c a k) = (int (unat k) * fe a) mod int p25519 \<and> fe_ok (f25519_mul_c a k) \<and>
    fe (f25519_inv__distinct a) = fe a ^ (p25519 - 2) mod int p25519 \<and> fe_ok (f25519_inv__distinct a)"
proof -
  have l: "length a = 32" "length b = 32" using assms by auto
  from pow_inv [OF assms(1)] have i: "fe (f25519_inv__distinct a) = fe a ^ (p25519 - 2) mod int p25519 \<and>
      fe_ok (f25519_inv__distinct a)" unfolding pow25519_def .
  show ?thesis
    by (simp only: f25519_add_fe [OF l] f25519_sub_fe [OF assms(1,2)] f25519_neg_fe [OF assms(1)]
        f25519_mul_fe [OF l] f25519_mul_c_fe [OF l(1) assms(3)] i simp_thms)
qed

theorem f25519_is_arithmetic_mod_p_witness:
  "fe (f25519_mul__distinct (f25519_load 3) (f25519_load 5)) = 15"
proof -
  have l: "limbs (f25519_load 3) = 3" "limbs (f25519_load 5) = 5"
    by (simp_all add: f25519_load_def upt_rec)
  have "fe_ok (f25519_load 3)" "fe_ok (f25519_load 5)" using l by (simp_all add: fe_ok_def p25519_val f25519_load_def)
  moreover have "unat (0 :: u32) < 2 ^ 24" by simp
  ultimately have "fe (f25519_mul__distinct (f25519_load 3) (f25519_load 5)) =
      (fe (f25519_load 3) * fe (f25519_load 5)) mod int p25519"
    using f25519_is_arithmetic_mod_p by blast
  then show ?thesis by (simp add: fe_def l p25519_val)
qed

lemma f25519_normal_decides:
  assumes "length x = 32" "length y = 32"
  shows "int (limbs (f25519_normalize x)) = fe x"
    "f25519_eq (f25519_normalize x) (f25519_normalize y) = (if fe x = fe y then 1 else 0)"
proof -
  note nx = f25519_normalize_value [OF assms(1)] and ny = f25519_normalize_value [OF assms(2)]
  show v: "int (limbs (f25519_normalize x)) = fe x" using nx(1) by (simp add: fe_def zmod_int)
  have "int (limbs (f25519_normalize y)) = fe y" using ny(1) by (simp add: fe_def zmod_int)
  then have "f25519_normalize x = f25519_normalize y \<longleftrightarrow> fe x = fe y"
    using v limbs_inj [of "f25519_normalize x" "f25519_normalize y"] nx(2) ny(2) by fastforce
  then show "f25519_eq (f25519_normalize x) (f25519_normalize y) = (if fe x = fe y then 1 else 0)"
    using f25519_eq_iff [of "f25519_normalize x" "f25519_normalize y"] nx(2) ny(2) by simp
qed

text \<open>Normal forms decide equality. Whatever two 32-byte strings hold, normalising gives the least
  residue, and comparing the normal forms returns 1 exactly when both stand for the same field element.\<close>

theorem f25519_normal_forms_decide:
  assumes "length x = 32" "length y = 32"
  shows "int (limbs (f25519_normalize x)) = fe x \<and>
    f25519_eq (f25519_normalize x) (f25519_normalize y) = (if fe x = fe y then 1 else 0)"
  using f25519_normal_decides [OF assms] by blast

theorem f25519_normal_forms_decide_witness:
  "f25519_eq (f25519_normalize (0xee # replicate 30 0xff @ [0x7f])) (f25519_normalize f25519_one) = 1"
proof -
  let ?x = "0xee # replicate 30 0xff @ [0x7f] :: u8 list"
  have ff: "limbs (replicate n (0xff :: u8)) + 1 = 256 ^ n" for n by (induction n) simp_all
  have "limbs ?x = p25519 + 1" using ff [of 30] by (simp add: limbs_append p25519_val)
  then have "fe ?x = fe f25519_one" by (simp only: fe_def) (simp add: f25519_one_def p25519_val)
  then show ?thesis using f25519_normal_forms_decide [of ?x f25519_one] by (simp add: f25519_one_def)
qed

end
