(* ===== verification/Fprime.thy ===== *)
theory Fprime
  imports F25519
begin

text \<open>
  Arithmetic modulo a prime given as a byte string,
  src/utils/crypto/compact25519/c25519/fprime.c: what the signature scheme computes scalars with.
  The header asks for a modulus \<open>m\<close> such that \<open>2m - 1\<close> fits 32 bytes; \<open>prime_msb\<close> of a zero
  modulus reads before the array, so every statement is for \<open>2 \<le> m\<close>.
\<close>

section \<open>Raw operations\<close>

definition fprime_zero :: "u8 list" where
  "fprime_zero = replicate 32 0"

definition fprime_one :: "u8 list" where
  "fprime_one = 1 # replicate 31 0"

definition raw_add :: "u8 list \<Rightarrow> u8 list \<Rightarrow> u8 list" where
  "raw_add x p = fst (carry_chain (0 :: u16) (map2 (\<lambda>x p. ucast x + ucast p) x p))"

definition fprime_select :: "u8 list \<Rightarrow> u8 list \<Rightarrow> u8 \<Rightarrow> u8 list" where
  "fprime_select zero one condition =
     (let mask = - condition in map2 (\<lambda>z n. z XOR (mask AND (n XOR z))) zero one)"

fun borrow_chain :: "u16 \<Rightarrow> (u8 \<times> u8) list \<Rightarrow> u8 list \<times> u16" where
  "borrow_chain c [] = ([], c)"
| "borrow_chain c ((x, p) # xs) =
     (let c' = ucast x - ucast p - c; (m, d) = borrow_chain (drop_bit 8 c' AND 1) xs in (ucast c' # m, d))"

definition raw_try_sub :: "u8 list \<Rightarrow> u8 list \<Rightarrow> u8 list" where
  "raw_try_sub x p = (let (minusp, c) = borrow_chain 0 (zip x p) in fprime_select minusp x (ucast c))"

fun msb_limb :: "u8 list \<Rightarrow> nat \<Rightarrow> int" where
  "msb_limb p 0 = (if p ! 0 \<noteq> 0 then 0 else - 1)"
| "msb_limb p (Suc i) = (if p ! Suc i \<noteq> 0 then int (Suc i) else msb_limb p i)"

function count_bits :: "u8 \<Rightarrow> int \<Rightarrow> int" where
  "count_bits x i = (if x \<noteq> 0 then count_bits (drop_bit 1 x) (i + 1) else i)"
  by pat_completeness auto
termination
proof (relation "measure (\<lambda>(x, i). unat x)")
  fix x :: u8 and i :: int
  assume "x \<noteq> 0"
  then have "0 < unat x" by (simp add: unat_gt_0)
  moreover have "unat (drop_bit 1 x) = unat x div 2" by (subst unat_drop_bit_eq) (simp add: drop_bit_eq_div)
  ultimately show "((drop_bit 1 x, i + 1), (x, i)) \<in> measure (\<lambda>(x, i). unat x)" by simp
qed simp

declare count_bits.simps [simp del]

definition prime_msb :: "u8 list \<Rightarrow> int" where
  "prime_msb p = (let i = msb_limb p 31; x = p ! nat i in count_bits x (i * 8) - 1)"

fun shift_chain :: "nat \<Rightarrow> u16 \<Rightarrow> u8 list \<Rightarrow> u8 list" where
  "shift_chain n c [] = []"
| "shift_chain n c (x # xs) =
     (let c' = c OR push_bit n (ucast x) in ucast c' # shift_chain n (drop_bit 8 c') xs)"

definition shift_n_bits :: "u8 list \<Rightarrow> nat \<Rightarrow> u8 list" where
  "shift_n_bits x n = shift_chain n 0 x"

section \<open>The operations\<close>

definition fprime_load :: "u32 \<Rightarrow> u8 list" where
  "fprime_load c = map (\<lambda>i. ucast (drop_bit (8 * i) c)) [0..<4] @ replicate 28 0"

definition fprime_copy :: "u8 list \<Rightarrow> u8 list" where
  "fprime_copy a = take 32 a"

definition min_int :: "int \<Rightarrow> int \<Rightarrow> int" where
  "min_int a b = (if a < b then a else b)"

text \<open>The top bits that are surely below the modulus are copied, the rest shifted in one at a time.\<close>

definition from_bytes_step :: "u8 list \<Rightarrow> u8 list \<Rightarrow> u8 list \<Rightarrow> nat \<Rightarrow> u8 list" where
  "from_bytes_step x modulus n i =
     (let b = drop_bit (i mod 8) (x ! (i div 8)) AND 1;
          n = shift_n_bits n 1;
          n = n[0 := n ! 0 OR b]
      in raw_try_sub n modulus)"

definition fprime_from_bytes :: "u8 list \<Rightarrow> nat \<Rightarrow> u8 list \<Rightarrow> u8 list" where
  "fprime_from_bytes x len modulus =
     (let preload_total = nat (min_int (prime_msb modulus - 1) (int len * 8));
          preload_bytes = preload_total div 8;
          preload_bits = preload_total mod 8;
          rbits = len * 8 - preload_total;
          n = map (\<lambda>i. x ! (len - preload_bytes + i)) [0..<preload_bytes] @ replicate (32 - preload_bytes) 0;
          n = (if preload_bits \<noteq> 0 then
                 let n = shift_n_bits n preload_bits
                 in n[0 := n ! 0 OR drop_bit (8 - preload_bits) (x ! (len - preload_bytes - 1))]
               else n)
      in foldl (from_bytes_step x modulus) n (rev [0..<rbits]))"

definition fprime_normalize :: "u8 list \<Rightarrow> u8 list \<Rightarrow> u8 list" where
  "fprime_normalize x modulus = (let n = fprime_from_bytes x 32 modulus in fprime_copy n)"

definition fprime_eq :: "u8 list \<Rightarrow> u8 list \<Rightarrow> u8" where
  "fprime_eq x y =
     (let s = foldl (\<lambda>s (a, b). s OR (a XOR b)) 0 (zip x y);
          s = s OR drop_bit 4 s;
          s = s OR drop_bit 2 s;
          s = s OR drop_bit 1 s
      in (s XOR 1) AND 1)"

definition fprime_add :: "u8 list \<Rightarrow> u8 list \<Rightarrow> u8 list \<Rightarrow> u8 list" where
  "fprime_add r a modulus = raw_try_sub (raw_add r a) modulus"

definition fprime_sub :: "u8 list \<Rightarrow> u8 list \<Rightarrow> u8 list \<Rightarrow> u8 list" where
  "fprime_sub r a modulus = raw_try_sub (raw_try_sub (raw_add r modulus) a) modulus"

definition mul_step :: "u8 list \<Rightarrow> u8 list \<Rightarrow> u8 list \<Rightarrow> u8 list \<Rightarrow> nat \<Rightarrow> u8 list" where
  "mul_step a b modulus r i =
     (let bit = drop_bit (i mod 8) (b ! (i div 8)) AND 1;
          r = shift_n_bits r 1;
          r = raw_try_sub r modulus;
          plusa = fprime_copy r;
          plusa = fprime_add plusa a modulus
      in fprime_select r plusa bit)"

definition fprime_mul :: "u8 list \<Rightarrow> u8 list \<Rightarrow> u8 list \<Rightarrow> u8 list" where
  "fprime_mul a b modulus = foldl (mul_step a b modulus) (replicate 32 0) (rev [0..<nat (prime_msb modulus + 1)])"

text \<open>\<open>p - 2\<close>, with a borrow that is shifted out of a 16-bit word.\<close>

fun minus_chain :: "u16 \<Rightarrow> u8 list \<Rightarrow> u8 list" where
  "minus_chain c [] = []"
| "minus_chain c (x # xs) = (let c' = ucast x - c in ucast c' # minus_chain (drop_bit 8 c') xs)"

definition inv_step :: "u8 list \<Rightarrow> u8 list \<Rightarrow> u8 list \<Rightarrow> u8 list \<Rightarrow> nat \<Rightarrow> u8 list" where
  "inv_step a modulus pm2 r i =
     (let r2 = fprime_mul r r modulus
      in if drop_bit (i mod 8) (pm2 ! (i div 8)) AND 1 \<noteq> 0 then fprime_mul r2 a modulus else fprime_copy r2)"

definition fprime_inv :: "u8 list \<Rightarrow> u8 list \<Rightarrow> u8 list" where
  "fprime_inv a modulus =
     (let pm2 = minus_chain 2 modulus
      in foldl (inv_step a modulus pm2) (fprime_load 1) (rev [0..<nat (prime_msb modulus + 1)]))"

section \<open>What the raw operations compute\<close>

lemma fprime_select_if:
  "length x = length y \<Longrightarrow> c = 0 \<or> c = 1 \<Longrightarrow> fprime_select x y c = (if c = 1 then y else x)"
  using f25519_select_if [of x y c] by (simp add: fprime_select_def f25519_select_def)

lemma raw_add_value:
  assumes "length x = length p" "limbs x + limbs p < 256 ^ length x"
  shows "limbs (raw_add x p) = limbs x + limbs p" "length (raw_add x p) = length x"
proof -
  let ?ts = "map2 (\<lambda>x p. ucast x + ucast p) x p :: u16 list"
  have "unat (ucast x + ucast y :: u16) \<le> 510" for x y :: u8
    using u8_bound [of x] u8_bound [of y] by (simp add: unat_word_ariths(1) unat_ucast_byte)
  then have "\<forall>t\<in>set ?ts. unat t \<le> 510" by (auto simp: set_zip)
  moreover have "limbs ?ts = limbs x + limbs p" by (rule limbs_map2_add [OF assms(1)])
  ultimately show "limbs (raw_add x p) = limbs x + limbs p"
    using carry_chain_exact [of ?ts 510 0 255] assms by (simp add: raw_add_def)
  show "length (raw_add x p) = length x" using assms(1) by (simp add: raw_add_def)
qed

lemma borrow_step:
  fixes x p :: u8 and c :: u16
  assumes "unat c \<le> 1"
  defines "c' \<equiv> ucast x - ucast p - c"
  shows "unat (ucast c' :: u8) + unat p + unat c = unat x + 256 * unat (drop_bit 8 c' AND 1)"
    "unat (drop_bit 8 c' AND 1) \<le> 1"
proof -
  have l: "unat (w AND 1) = unat w mod 2" for w :: u16 by (simp add: and_one_eq unat_mod)
  show "unat (drop_bit 8 c' AND 1) \<le> 1" by (simp add: l)
  have xp: "unat (ucast x :: u16) = unat x" "unat (ucast p :: u16) = unat p" by (simp_all add: unat_ucast_byte)
  show "unat (ucast c' :: u8) + unat p + unat c = unat x + 256 * unat (drop_bit 8 c' AND 1)"
  proof (cases "unat p + unat c \<le> unat x")
    case True
    then have "(ucast p :: u16) \<le> ucast x" "c \<le> ucast x - ucast p"
      using xp by (simp_all add: word_le_nat_alt unat_sub)
    then have c': "unat c' = unat x - unat p - unat c"
      by (simp add: c'_def unat_sub xp)
    then show ?thesis using True u8_bound [of x] by (simp add: l unat_low_byte unat_drop_8)
  next
    case False
    have "unat (ucast p + c :: u16) = unat p + unat c"
      using assms(1) u8_bound [of p] by (simp add: unat_word_ariths(1) xp)
    moreover have "c' = ucast x - (ucast p + c)" by (simp add: c'_def)
    ultimately have c': "unat c' = 65536 + unat x - (unat p + unat c)"
      using False xp by (simp add: unat_sub_if')
    define d where "d = unat p + unat c - unat x"
    have "1 \<le> d" "d \<le> 256" "unat c' = 65536 - d" "unat p + unat c = unat x + d"
      using False c' assms(1) u8_bound [of p] by (auto simp: d_def)
    moreover have "d = 256 \<or> (65536 - d) mod 256 = 256 - d \<and> (65536 - d) div 256 = 255"
    proof (cases "d = 256")
      case False
      then have "256 - d < 256" "65536 - d = (256 - d) + 255 * 256" using \<open>1 \<le> d\<close> \<open>d \<le> 256\<close> by simp_all
      then show ?thesis by (simp only: mod_mult_self1 div_mult_self1 mod_less div_less) simp
    qed simp
    ultimately show ?thesis by (auto simp: l unat_low_byte unat_drop_8)
  qed
qed

lemma borrow_chain_value:
  assumes "length x = length p" "unat c \<le> 1"
  shows "limbs (fst (borrow_chain c (zip x p))) + limbs p + unat c =
      limbs x + 256 ^ length x * unat (snd (borrow_chain c (zip x p))) \<and>
    unat (snd (borrow_chain c (zip x p))) \<le> 1 \<and> length (fst (borrow_chain c (zip x p))) = length x"
  using assms
proof (induction x p arbitrary: c rule: list_induct2)
  case (Cons x xs p ps)
  note st = borrow_step [OF Cons.prems, of x p]
  show ?case using Cons.IH [OF st(2)] st(1) by (simp add: Let_def split_beta algebra_simps)
qed simp

lemma raw_try_sub_value:
  assumes "length x = length p"
  shows "limbs (raw_try_sub x p) = (if limbs x < limbs p then limbs x else limbs x - limbs p)"
    "length (raw_try_sub x p) = length x"
proof -
  obtain m c where mc: "borrow_chain 0 (zip x p) = (m, c)" by fastforce
  have v: "limbs m + limbs p = limbs x + 256 ^ length x * unat c" "unat c \<le> 1" "length m = length x"
    using borrow_chain_value [OF assms, of 0] mc by simp_all
  have c01: "c = 0 \<or> c = 1" using v(2) by (auto simp: word_unat_eq_iff)
  then have s: "raw_try_sub x p = (if c = 1 then x else m)"
    using fprime_select_if [of m x "ucast c"] v(3) mc by (auto simp: raw_try_sub_def)
  have "limbs m < 256 ^ length x" using limbs_less [of m] v(3) by simp
  then show "limbs (raw_try_sub x p) = (if limbs x < limbs p then limbs x else limbs x - limbs p)"
    using s v(1) c01 by auto
  show "length (raw_try_sub x p) = length x" using s v(3) by simp
qed

section \<open>Bits of a string\<close>

lemma limbs_nth: "k < length x \<Longrightarrow> unat (x ! k) = limbs x div 256 ^ k mod 256" for x :: "u8 list"
proof (induction x arbitrary: k)
  case (Cons a x)
  then show ?case using u8_bound [of a] by (cases k) (simp_all add: div_mult2_eq)
qed simp

lemma limbs_bit:
  fixes x :: "u8 list"
  assumes "i < 8 * length x"
  shows "unat (drop_bit (i mod 8) (x ! (i div 8)) AND 1) = of_bool (bit (limbs x) i)"
proof -
  have k: "i div 8 < length x" using assms by simp
  have "unat (drop_bit (i mod 8) (x ! (i div 8)) AND 1) = of_bool (bit (x ! (i div 8)) (i mod 8))"
    by (simp add: and_one_eq mod_2_eq_odd bit_iff_odd_drop_bit)
  also have "bit (x ! (i div 8)) (i mod 8) = bit (unat (x ! (i div 8))) (i mod 8)"
    by (simp add: bit_unsigned_iff bit_imp_le_length)
  also have "\<dots> = bit (take_bit 8 (drop_bit (8 * (i div 8)) (limbs x))) (i mod 8)"
    using limbs_nth [OF k] by (simp add: take_bit_eq_mod drop_bit_eq_div power_mult)
  also have "\<dots> = bit (limbs x) (8 * (i div 8) + i mod 8)"
    by (simp only: bit_take_bit_iff bit_drop_bit_eq o_def) simp
  finally show ?thesis by simp
qed

lemma div_pow_bit: "v div 2 ^ i = 2 * (v div 2 ^ (i + 1)) + of_bool (bit v i)" for v :: nat
proof -
  have "v div 2 ^ (i + 1) = v div 2 ^ i div 2" by (simp only: power_add power_one_right div_mult2_eq)
  then show ?thesis by (simp add: bit_iff_odd)
qed

lemma or_disjoint:
  fixes a b :: nat
  assumes "a mod 2 ^ k = 0" "b < 2 ^ k"
  shows "a OR b = a + b"
proof -
  have "a = push_bit k (a div 2 ^ k)" using assms(1) by (metis push_bit_eq_mult div_mult_mod_eq add_0_right)
  moreover have "b = take_bit k b" using assms(2) by (simp add: take_bit_nat_eq_self)
  moreover have "push_bit k q AND take_bit k r = 0" for q r :: nat
    by (rule bit_eqI) (simp add: bit_simps)
  ultimately have "a AND b = 0" by metis
  then show ?thesis by (simp add: disjunctive_add_eq_or)
qed

lemma or_low:
  fixes n :: "u8 list"
  assumes "n \<noteq> []" "limbs n mod 2 ^ k = 0" "unat y < 2 ^ k" "k \<le> 8"
  shows "limbs (n[0 := n ! 0 OR y]) = limbs n + unat y"
proof (cases n)
  case (Cons a ns)
  have "(2 :: nat) ^ k dvd 256" using le_imp_power_dvd [OF assms(4), of "2 :: nat"] by simp
  then have "unat a mod 2 ^ k = 0"
    using assms(2) Cons by (simp add: mod_eq_0_iff_dvd) (metis dvd_add_left_iff dvd_mult2)
  from or_disjoint [OF this assms(3)] have "unat (a OR y) = unat a + unat y" by (simp add: unsigned_or_eq)
  then show ?thesis using Cons by simp
qed (use assms in simp)

lemma shift_chain_value:
  assumes "unat c < 2 ^ n" "n \<le> 8"
  shows "limbs (shift_chain n c x) = (limbs x * 2 ^ n + unat c) mod 256 ^ length x \<and>
    length (shift_chain n c x) = length x"
  using assms(1)
proof (induction x arbitrary: c)
  case (Cons x xs)
  define w where "w = c OR push_bit n (ucast x)"
  have xn: "unat x * 2 ^ n \<le> 255 * 2 ^ n" using u8_bound [of x] by (intro mult_le_mono1) simp
  have n256: "(2 :: nat) ^ n \<le> 2 ^ 8" using assms(2) by (intro power_increasing) auto
  have "unat (push_bit n (ucast x) :: u16) = unat x * 2 ^ n"
    using order_trans [OF xn mult_le_mono2 [OF n256, of 255]]
    by (subst unsigned_push_bit_eq) (simp add: unat_ucast_byte push_bit_eq_mult take_bit_nat_eq_self)
  then have c: "unat w = unat c + unat x * 2 ^ n"
    using or_disjoint [of "unat x * 2 ^ n" n "unat c"] Cons.prems by (simp add: w_def unsigned_or_eq or.commute)
  have "unat c + unat x * 2 ^ n < 256 * 2 ^ n" using Cons.prems xn by linarith
  then have "unat (drop_bit 8 w) < 2 ^ n" unfolding unat_drop_8 c by (simp add: less_mult_imp_div_less mult.commute)
  note IH = Cons.IH [OF this]
  have e: "limbs (x # xs) * 2 ^ n + unat c = unat w + limbs xs * 2 ^ n * 256" by (simp add: c algebra_simps)
  have "(limbs (x # xs) * 2 ^ n + unat c) div 256 = limbs xs * 2 ^ n + unat w div 256" unfolding e by simp
  moreover have "(limbs (x # xs) * 2 ^ n + unat c) mod 256 = unat w mod 256" unfolding e by simp
  ultimately have "(limbs (x # xs) * 2 ^ n + unat c) mod 256 ^ length (x # xs) =
      256 * ((limbs xs * 2 ^ n + unat w div 256) mod 256 ^ length xs) + unat w mod 256"
    by (simp add: mod_mult2_eq del: limbs.simps)
  moreover have sc: "shift_chain n c (x # xs) = ucast w # shift_chain n (drop_bit 8 w) xs"
    by (simp only: shift_chain.simps Let_def w_def)
  ultimately show ?case using IH unfolding sc by (simp add: unat_low_byte unat_drop_8)
qed simp

lemma shift_n_bits_value:
  "n \<le> 8 \<Longrightarrow> limbs (shift_n_bits x n) = limbs x * 2 ^ n mod 256 ^ length x"
  "n \<le> 8 \<Longrightarrow> length (shift_n_bits x n) = length x"
  using shift_chain_value [of 0 n x] by (simp_all add: shift_n_bits_def)

section \<open>The top bit of the modulus\<close>

lemma msb_limb_spec:
  "i < length p \<Longrightarrow> \<exists>j \<le> i. p ! j \<noteq> 0 \<Longrightarrow>
     \<exists>k. msb_limb p i = int k \<and> k \<le> i \<and> p ! k \<noteq> 0 \<and> (\<forall>j. k < j \<and> j \<le> i \<longrightarrow> p ! j = 0)"
proof (induction i)
  case (Suc i)
  show ?case
  proof (cases "p ! Suc i = 0")
    case True
    then have "\<exists>j \<le> i. p ! j \<noteq> 0" using Suc.prems(2) by (metis le_Suc_eq)
    then obtain k where "msb_limb p i = int k" "k \<le> i" "p ! k \<noteq> 0" "\<forall>j. k < j \<and> j \<le> i \<longrightarrow> p ! j = 0"
      using Suc by auto
    then show ?thesis using True by (intro exI [of _ k]) (auto simp: le_Suc_eq)
  qed (auto intro: exI [of _ "Suc i"])
qed auto

lemma count_bits_spec:
  "\<exists>n. count_bits x i = i + int n \<and> unat x < 2 ^ n \<and> (x \<noteq> 0 \<longrightarrow> 2 ^ n \<le> 2 * unat x) \<and> (x = 0 \<longrightarrow> n = 0)"
proof (induction x i rule: count_bits.induct)
  case (1 x i)
  show ?case
  proof (cases "x = 0")
    case False
    have h: "unat (drop_bit 1 x) = unat x div 2" by (subst unat_drop_bit_eq) (simp add: drop_bit_eq_div)
    obtain n where n: "count_bits (drop_bit 1 x) (i + 1) = i + 1 + int n" "unat x div 2 < 2 ^ n"
      "drop_bit 1 x \<noteq> 0 \<longrightarrow> 2 ^ n \<le> 2 * (unat x div 2)" "drop_bit 1 x = 0 \<longrightarrow> n = 0"
      using 1 [OF False] h by auto
    have "0 < unat x" using False by (simp add: unat_gt_0)
    then have "2 ^ Suc n \<le> 2 * unat x"
      using n(3,4) by (cases "drop_bit 1 x = 0") auto
    then show ?thesis using n(1,2) False by (intro exI [of _ "Suc n"]) (simp add: count_bits.simps [of x i])
  next
    case True
    have "count_bits 0 i = i" by (subst count_bits.simps) simp
    then show ?thesis using True by simp
  qed
qed

lemma prime_msb_spec:
  assumes len: "length p = 32" and pos: "0 < limbs p"
  shows "0 \<le> prime_msb p" "2 ^ nat (prime_msb p) \<le> limbs p" "limbs p < 2 ^ nat (prime_msb p + 1)"
proof -
  have "\<exists>j \<le> 31. p ! j \<noteq> 0"
  proof (rule ccontr)
    assume "\<not> ?thesis"
    then have "p = replicate 32 0" using len by (intro nth_equalityI) (auto simp: less_Suc_eq_le)
    then show False using pos limbs_replicate_0 by (metis less_numeral_extra(3))
  qed
  then obtain k where k: "msb_limb p 31 = int k" "k \<le> 31" "p ! k \<noteq> 0" "\<forall>j. k < j \<and> j \<le> 31 \<longrightarrow> p ! j = 0"
    using msb_limb_spec [of 31 p] len by auto
  have "drop (Suc k) p = replicate (31 - k) 0"
    by (rule nth_equalityI) (use len k in auto)
  moreover have "limbs (take k p @ p ! k # drop (Suc k) p) = limbs p"
    using k(2) len by (simp flip: id_take_nth_drop)
  ultimately have lp: "limbs p = limbs (take k p) + 256 ^ k * unat (p ! k)"
    using k(2) len by (simp add: limbs_append)
  obtain n where n: "count_bits (p ! k) (int k * 8) = int k * 8 + int n" "unat (p ! k) < 2 ^ n" "2 ^ n \<le> 2 * unat (p ! k)"
    using count_bits_spec [of "p ! k" "int k * 8"] k(3) by auto
  have "n \<noteq> 0" using n(2) k(3) by (cases n) (auto simp: unat_eq_0)
  then obtain m where m: "n = Suc m" by (cases n) auto
  have msb: "prime_msb p = int (8 * k + m)" using n(1) m k(1) by (simp add: prime_msb_def Let_def)
  have "limbs (take k p) < 256 ^ k" using limbs_less [of "take k p"] k(2) len by simp
  moreover have "256 ^ k * unat (p ! k) + 256 ^ k \<le> 256 ^ k * 2 ^ n"
    using mult_le_mono2 [of "unat (p ! k) + 1" "2 ^ n" "256 ^ k"] n(2) by simp
  ultimately have "limbs p < 256 ^ k * 2 ^ n" using lp by linarith
  moreover have e: "nat (prime_msb p) = 8 * k + m" "nat (prime_msb p + 1) = 8 * k + Suc m" unfolding msb by simp_all
  ultimately show "limbs p < 2 ^ nat (prime_msb p + 1)" unfolding e m by (simp add: power_add power_mult)
  have "256 ^ k * 2 ^ m \<le> 256 ^ k * unat (p ! k)" using n(3) m by simp
  moreover have "(2 :: nat) ^ (8 * k + m) = 256 ^ k * 2 ^ m" by (simp add: power_add power_mult)
  ultimately show "2 ^ nat (prime_msb p) \<le> limbs p" unfolding e using lp by linarith
  show "0 \<le> prime_msb p" unfolding msb by simp
qed

section \<open>Reduction, addition and multiplication\<close>

text \<open>What the header file asks of a modulus.\<close>

definition modulus_ok :: "u8 list \<Rightarrow> bool" where
  "modulus_ok m \<longleftrightarrow> length m = 32 \<and> 2 \<le> limbs m \<and> 2 * limbs m \<le> 2 ^ 256"

lemma try_sub_mod:
  assumes "modulus_ok m" "length x = 32" "limbs x < 2 * limbs m"
  shows "limbs (raw_try_sub x m) = limbs x mod limbs m" "length (raw_try_sub x m) = 32"
  using raw_try_sub_value [of x m] assms by (auto simp: modulus_ok_def mod_if)

lemma shift_in:
  assumes m: "modulus_ok m" and n: "length n = 32" "limbs n < limbs m" and b: "unat b \<le> 1"
  defines "n1 \<equiv> shift_n_bits n 1"
  shows "limbs (raw_try_sub (n1[0 := n1 ! 0 OR b]) m) = (2 * limbs n + unat b) mod limbs m"
    "length (raw_try_sub (n1[0 := n1 ! 0 OR b]) m) = 32"
proof -
  have l: "length n1 = 32" using shift_n_bits_value(2) [of 1 n] n(1) by (simp add: n1_def)
  have v: "limbs n1 = 2 * limbs n"
    using shift_n_bits_value(1) [of 1 n] n m by (simp add: n1_def modulus_ok_def)
  then have "limbs (n1[0 := n1 ! 0 OR b]) = 2 * limbs n + unat b"
    using or_low [of n1 1 b] l b by (cases "n1 = []") auto
  moreover have "2 * limbs n + unat b < 2 * limbs m" using n(2) b by simp
  ultimately show "limbs (raw_try_sub (n1[0 := n1 ! 0 OR b]) m) = (2 * limbs n + unat b) mod limbs m"
    "length (raw_try_sub (n1[0 := n1 ! 0 OR b]) m) = 32"
    using try_sub_mod [OF m, of "n1[0 := n1 ! 0 OR b]"] l by simp_all
qed

lemma from_bytes_loop:
  assumes m: "modulus_ok m" and x: "r \<le> 8 * length x"
    and n: "length n = 32" "limbs n = limbs x div 2 ^ r mod limbs m"
  shows "limbs (foldl (from_bytes_step x m) n (rev [0..<r])) = limbs x mod limbs m \<and>
    length (foldl (from_bytes_step x m) n (rev [0..<r])) = 32"
  using x n
proof (induction r arbitrary: n)
  case (Suc r)
  let ?b = "drop_bit (r mod 8) (x ! (r div 8)) AND 1"
  have b: "unat ?b = of_bool (bit (limbs x) r)" using Suc.prems(1) by (intro limbs_bit) simp
  have nm: "limbs n < limbs m" using Suc.prems(3) m by (simp add: modulus_ok_def)
  note st = shift_in [OF m Suc.prems(2) nm, of ?b]
  have "limbs (from_bytes_step x m n r) = (2 * (limbs x div 2 ^ (r + 1) mod limbs m) + of_bool (bit (limbs x) r)) mod limbs m"
    using st(1) b Suc.prems(3) by (simp add: from_bytes_step_def Let_def)
  also have "\<dots> = limbs x div 2 ^ r mod limbs m"
    unfolding div_pow_bit [of "limbs x" r] by (metis mod_add_left_eq mod_mult_right_eq)
  finally have "limbs (from_bytes_step x m n r) = limbs x div 2 ^ r mod limbs m" .
  moreover have "length (from_bytes_step x m n r) = 32"
    using st(2) b by (simp add: from_bytes_step_def Let_def)
  ultimately show ?case using Suc.IH Suc.prems(1) by simp
qed simp

lemma limbs_drop: "limbs (drop k x) = limbs x div 256 ^ k" for x :: "u8 list"
proof (cases "k \<le> length x")
  case True
  have "limbs x = limbs (take k x) + 256 ^ k * limbs (drop k x)"
    using limbs_append [of "take k x" "drop k x"] True by simp
  moreover have "limbs (take k x) < 256 ^ k" using limbs_less [of "take k x"] True by simp
  ultimately show ?thesis by simp
next
  case False
  then have "limbs x < 256 ^ k"
    by (intro order_less_le_trans [OF limbs_less] power_increasing) auto
  then show ?thesis using False by simp
qed

text \<open>\<open>fprime_from_bytes\<close> reduces a string of any length.\<close>

lemma preload_bounds:
  fixes len :: nat
  assumes m: "modulus_ok m"
  defines "t \<equiv> nat (min_int (prime_msb m - 1) (int len * 8))"
  shows "t \<le> 8 * len" "t \<le> 254" "2 ^ t < limbs m"
proof -
  have ml: "length m = 32" and mm: "2 \<le> limbs m" "2 * limbs m \<le> 2 ^ 256" using m by (auto simp: modulus_ok_def)
  then have pos: "0 < limbs m" by simp
  note msb = prime_msb_spec [OF ml pos]
  have msb1: "prime_msb m \<le> 255"
  proof (rule ccontr)
    assume "\<not> ?thesis"
    then have "(2 :: nat) ^ 256 \<le> 2 ^ nat (prime_msb m)" by (intro power_increasing) auto
    then show False using msb(2) mm by simp
  qed
  have msb2: "1 \<le> prime_msb m" using msb(1,3) mm(1) by (cases "prime_msb m = 0") auto
  show "t \<le> 8 * len" "t \<le> 254" using msb1 msb2 by (auto simp: t_def min_int_def)
  have "t + 1 \<le> nat (prime_msb m)" using msb2 by (auto simp: t_def min_int_def)
  then have "(2 :: nat) ^ (t + 1) \<le> 2 ^ nat (prime_msb m)" by (intro power_increasing) auto
  then have "2 * (2 :: nat) ^ t \<le> limbs m" using msb(2) by simp
  moreover have "0 < (2 :: nat) ^ t" by simp
  ultimately show "2 ^ t < limbs m" by linarith
qed

text \<open>The bytes and bits copied are the top \<open>t\<close> bits of the string.\<close>

definition preload :: "u8 list \<Rightarrow> nat \<Rightarrow> nat \<Rightarrow> u8 list" where
  "preload x len t =
     (let n = map (\<lambda>i. x ! (len - t div 8 + i)) [0..<t div 8] @ replicate (32 - t div 8) 0
      in if t mod 8 \<noteq> 0 then
           let n = shift_n_bits n (t mod 8)
           in n[0 := n ! 0 OR drop_bit (8 - t mod 8) (x ! (len - t div 8 - 1))]
         else n)"

lemma preload_bytes:
  fixes x :: "u8 list"
  assumes x: "length x = len" and t: "t \<le> 8 * len" "t \<le> 254"
  defines "n \<equiv> map (\<lambda>i. x ! (len - t div 8 + i)) [0..<t div 8] @ replicate (32 - t div 8) 0"
  shows "length n = 32" "limbs n = limbs x div 256 ^ (len - t div 8)"
proof -
  have pb: "t div 8 \<le> len" "t div 8 \<le> 32" using t by linarith+
  then show "length n = 32" by (simp add: n_def)
  have "map (\<lambda>i. x ! (len - t div 8 + i)) [0..<t div 8] = drop (len - t div 8) x"
    by (rule nth_equalityI) (use pb x in auto)
  then show "limbs n = limbs x div 256 ^ (len - t div 8)" by (simp add: n_def limbs_append limbs_drop)
qed

lemma split_byte: "b \<le> 8 \<Longrightarrow> y div 2 ^ (8 - b) = y div 256 * 2 ^ b + y mod 256 div 2 ^ (8 - b)" for y :: nat
proof -
  assume "b \<le> 8"
  then have e8: "(256 :: nat) = 2 ^ b * 2 ^ (8 - b)" by (simp flip: power_add)
  have "y = y mod 256 + (y div 256 * 2 ^ b) * 2 ^ (8 - b)" using e8 by (metis mod_div_mult_eq mult.assoc)
  then show ?thesis by (metis add.commute div_mult_self1 power_not_zero zero_neq_numeral)
qed

lemma top_bits_small:
  fixes x :: "u8 list"
  assumes "length x = len" "t \<le> 8 * len"
  shows "limbs x div 2 ^ (len * 8 - t) < 2 ^ t"
proof -
  have "limbs x < 2 ^ (8 * len)" using limbs_less [of x] assms(1) by (simp add: power_mult)
  also have "\<dots> = 2 ^ t * 2 ^ (len * 8 - t)" using assms(2) by (simp add: mult.commute flip: power_add)
  finally show ?thesis by (simp add: less_mult_imp_div_less)
qed

lemma preload_value:
  assumes x: "length x = len" and t: "t \<le> 8 * len" "t \<le> 254"
  shows "limbs (preload x len t) = limbs x div 2 ^ (len * 8 - t) \<and> length (preload x len t) = 32"
proof -
  define n0 where "n0 = map (\<lambda>i. x ! (len - t div 8 + i)) [0..<t div 8] @ replicate (32 - t div 8) 0"
  note n0 = preload_bytes [OF x t, folded n0_def]
  have t8: "t = 8 * (t div 8) + t mod 8" by simp
  show ?thesis
  proof (cases "t mod 8 = 0")
    case True
    then have "len * 8 - t = 8 * (len - t div 8)" using t8 by (simp add: diff_mult_distrib2)
    then show ?thesis using True n0 by (simp add: preload_def Let_def n0_def power_mult)
  next
    case False
    let ?b = "t mod 8"
    have "0 < len - t div 8" using False t8 t(1) by linarith
    then obtain k where k: "len - t div 8 = k + 1" by (metis Suc_eq_plus1 gr0_implies_Suc)
    then have kx: "k < length x" using x by linarith
    let ?y = "drop_bit (8 - ?b) (x ! k)"
    have y: "unat ?y = limbs x div 256 ^ k mod 256 div 2 ^ (8 - ?b)"
      using limbs_nth [OF kx] by (subst unat_drop_bit_eq) (simp add: drop_bit_eq_div)
    have "limbs x div 256 ^ k mod 256 < 2 ^ ?b * 2 ^ (8 - ?b)" by (simp flip: power_add)
    then have yb: "unat ?y < 2 ^ ?b" unfolding y by (simp add: less_mult_imp_div_less)
    have l8: "len * 8 - t = 8 * k + (8 - ?b)" using k t8 t(1) mod_less_divisor [of 8 t] by linarith
    have "(2 :: nat) ^ (len * 8 - t) = 256 ^ k * 2 ^ (8 - ?b)" unfolding l8 by (simp only: power_add power_mult) simp
    then have rb: "limbs x div 2 ^ (len * 8 - t) = limbs x div 256 ^ k div 2 ^ (8 - ?b)"
      by (simp only: div_mult2_eq)
    have "limbs n0 = limbs x div 256 ^ k div 256" unfolding n0(2) k by (simp only: power_add power_one_right div_mult2_eq)
    then have s: "limbs n0 * 2 ^ ?b + unat ?y = limbs x div 2 ^ (len * 8 - t)"
      unfolding rb y by (simp add: split_byte [of ?b "limbs x div 256 ^ k"])
    have "limbs n0 * 2 ^ ?b < 2 ^ t" using s top_bits_small [OF x t(1)] by linarith
    also have "(2 :: nat) ^ t \<le> 2 ^ 256" using t(2) by (intro power_increasing) auto
    finally have sv: "limbs (shift_n_bits n0 ?b) = limbs n0 * 2 ^ ?b"
      using shift_n_bits_value(1) [of ?b n0] n0(1) by simp
    have sl: "length (shift_n_bits n0 ?b) = 32" using shift_n_bits_value(2) [of ?b n0] n0(1) by simp
    then have "shift_n_bits n0 ?b \<noteq> []" by auto
    moreover have "preload x len t = (shift_n_bits n0 ?b)[0 := shift_n_bits n0 ?b ! 0 OR ?y]"
      unfolding preload_def Let_def n0_def [symmetric] using False k by simp
    ultimately show ?thesis
      using or_low [of "shift_n_bits n0 ?b" ?b ?y] s sl sv yb by simp
  qed
qed

lemma fprime_from_bytes_value:
  assumes m: "modulus_ok m" and x: "length x = len"
  shows "limbs (fprime_from_bytes x len m) = limbs x mod limbs m" "length (fprime_from_bytes x len m) = 32"
proof -
  define t where "t = nat (min_int (prime_msb m - 1) (int len * 8))"
  note t = preload_bounds [OF m, of len, folded t_def]
  note n = preload_value [OF x t(1,2)]
  have "limbs x div 2 ^ (len * 8 - t) mod limbs m = limbs x div 2 ^ (len * 8 - t)"
    using top_bits_small [OF x t(1)] t(3) by simp
  then have "limbs (foldl (from_bytes_step x m) (preload x len t) (rev [0..<len * 8 - t])) = limbs x mod limbs m \<and>
      length (foldl (from_bytes_step x m) (preload x len t) (rev [0..<len * 8 - t])) = 32"
    using n x by (intro from_bytes_loop [OF m]) simp_all
  moreover have "fprime_from_bytes x len m = foldl (from_bytes_step x m) (preload x len t) (rev [0..<len * 8 - t])"
    by (simp add: fprime_from_bytes_def Let_def preload_def t_def)
  ultimately show "limbs (fprime_from_bytes x len m) = limbs x mod limbs m" "length (fprime_from_bytes x len m) = 32"
    by simp_all
qed

lemma fprime_copy_id [simp]: "length a = 32 \<Longrightarrow> fprime_copy a = a"
  by (simp add: fprime_copy_def)

lemma fprime_add_value:
  assumes m: "modulus_ok m" and r: "length r = 32" "limbs r < limbs m" and a: "length a = 32" "limbs a < limbs m"
  shows "limbs (fprime_add r a m) = (limbs r + limbs a) mod limbs m" "length (fprime_add r a m) = 32"
proof -
  have "limbs r + limbs a < 256 ^ length r" using m r a by (simp add: modulus_ok_def)
  then have "limbs (raw_add r a) = limbs r + limbs a" "length (raw_add r a) = 32"
    using raw_add_value [of r a] r a by simp_all
  then show "limbs (fprime_add r a m) = (limbs r + limbs a) mod limbs m" "length (fprime_add r a m) = 32"
    using try_sub_mod [OF m, of "raw_add r a"] r a by (simp_all add: fprime_add_def)
qed

lemma fprime_sub_value:
  assumes m: "modulus_ok m" and r: "length r = 32" "limbs r < limbs m" and a: "length a = 32" "limbs a < limbs m"
  shows "int (limbs (fprime_sub r a m)) = (int (limbs r) - int (limbs a)) mod int (limbs m)"
    "length (fprime_sub r a m) = 32"
proof -
  have ml: "length m = 32" using m by (simp add: modulus_ok_def)
  have "limbs r + limbs m < 256 ^ length r" using m r by (simp add: modulus_ok_def)
  then have s: "limbs (raw_add r m) = limbs r + limbs m" "length (raw_add r m) = 32"
    using raw_add_value [of r m] r ml by simp_all
  have t: "limbs (raw_try_sub (raw_add r m) a) = limbs r + limbs m - limbs a"
    "length (raw_try_sub (raw_add r m) a) = 32"
    using raw_try_sub_value [of "raw_add r m" a] s a by auto
  have "limbs (fprime_sub r a m) = (limbs r + limbs m - limbs a) mod limbs m" "length (fprime_sub r a m) = 32"
    using try_sub_mod [OF m t(2)] t(1) r by (simp_all add: fprime_sub_def)
  moreover have "int (limbs r + limbs m - limbs a) = int (limbs r) - int (limbs a) + int (limbs m)"
    using a(2) by simp
  ultimately show "int (limbs (fprime_sub r a m)) = (int (limbs r) - int (limbs a)) mod int (limbs m)"
    "length (fprime_sub r a m) = 32" by (simp_all add: zmod_int)
qed

lemma mul_step_value:
  assumes m: "modulus_ok m" and r: "length r = 32" "limbs r < limbs m" and a: "length a = 32" "limbs a < limbs m"
    and b: "length b = 32" "i < 256"
  shows "limbs (mul_step a b m r i) = (2 * limbs r + of_bool (bit (limbs b) i) * limbs a) mod limbs m"
    "length (mul_step a b m r i) = 32"
proof -
  let ?d = "raw_try_sub (shift_n_bits r 1) m"
  let ?b = "drop_bit (i mod 8) (b ! (i div 8)) AND 1"
  have "limbs (shift_n_bits r 1) = 2 * limbs r" "length (shift_n_bits r 1) = 32"
    using shift_n_bits_value [of 1 r] m r by (simp_all add: modulus_ok_def)
  then have d: "limbs ?d = 2 * limbs r mod limbs m" "length ?d = 32"
    using try_sub_mod [OF m, of "shift_n_bits r 1"] r by simp_all
  have "limbs ?d < limbs m" using d(1) r(2) by simp
  note p = fprime_add_value [OF m d(2) this a]
  have bb: "unat ?b = of_bool (bit (limbs b) i)" using b by (intro limbs_bit) simp
  then have b01: "?b = 0 \<or> ?b = 1" by (auto simp: word_unat_eq_iff)
  have "?b = 1 \<longleftrightarrow> bit (limbs b) i" using bb by (auto simp: word_unat_eq_iff)
  then have s: "mul_step a b m r i = (if bit (limbs b) i then fprime_add ?d a m else ?d)"
    using fprime_select_if [OF _ b01, of ?d "fprime_add ?d a m"] d(2) p(2) by (simp add: mul_step_def Let_def)
  show "limbs (mul_step a b m r i) = (2 * limbs r + of_bool (bit (limbs b) i) * limbs a) mod limbs m"
    using s p(1) d(1) by (simp add: mod_simps)
  show "length (mul_step a b m r i) = 32" using s p(2) d(2) by simp
qed

lemma mul_loop:
  assumes m: "modulus_ok m" and a: "length a = 32" "limbs a < limbs m" and b: "length b = 32" "k \<le> 256"
    and r: "length r = 32" "limbs r = limbs b div 2 ^ k * limbs a mod limbs m"
  shows "limbs (foldl (mul_step a b m) r (rev [0..<k])) = limbs b * limbs a mod limbs m \<and>
    length (foldl (mul_step a b m) r (rev [0..<k])) = 32"
  using b(2) r
proof (induction k arbitrary: r)
  case (Suc k)
  have rm: "limbs r < limbs m" using Suc.prems(3) a(2) by simp
  have k: "k < 256" using Suc.prems(1) by simp
  note st = mul_step_value [OF m Suc.prems(2) rm a b(1) k]
  have "limbs (mul_step a b m r k) =
      (2 * (limbs b div 2 ^ (k + 1) * limbs a mod limbs m) + of_bool (bit (limbs b) k) * limbs a) mod limbs m"
    using st(1) Suc.prems(3) by simp
  also have "\<dots> = (2 * (limbs b div 2 ^ (k + 1)) + of_bool (bit (limbs b) k)) * limbs a mod limbs m"
    by (metis (no_types, lifting) distrib_right mod_add_left_eq mod_mult_right_eq mult.assoc)
  also have "\<dots> = limbs b div 2 ^ k * limbs a mod limbs m" unfolding div_pow_bit [of "limbs b" k] ..
  finally show ?case using Suc.IH [OF _ st(2)] k by simp
qed simp

lemma msb_256:
  assumes "modulus_ok m"
  shows "nat (prime_msb m + 1) \<le> 256" "limbs m < 2 ^ nat (prime_msb m + 1)"
proof -
  have "length m = 32" "0 < limbs m" "2 * limbs m \<le> 2 ^ 256" using assms by (auto simp: modulus_ok_def)
  note s = prime_msb_spec [OF this(1,2)] this
  have "(2 :: nat) ^ nat (prime_msb m) < 2 ^ 256" using s(2,5,6) by simp
  then show "nat (prime_msb m + 1) \<le> 256"
    using s(1) power_less_imp_less_exp [of "2 :: nat" "nat (prime_msb m)" 256] by simp
  show "limbs m < 2 ^ nat (prime_msb m + 1)" by (rule s(3))
qed

lemma fprime_mul_value:
  assumes m: "modulus_ok m" and a: "length a = 32" "limbs a < limbs m" and b: "length b = 32" "limbs b < limbs m"
  shows "limbs (fprime_mul a b m) = limbs a * limbs b mod limbs m" "length (fprime_mul a b m) = 32"
proof -
  have "limbs b div 2 ^ nat (prime_msb m + 1) = 0" using b(2) msb_256(2) [OF m] by simp
  then have "limbs (fprime_mul a b m) = limbs b * limbs a mod limbs m \<and> length (fprime_mul a b m) = 32"
    unfolding fprime_mul_def by (intro mul_loop [OF m a b(1) msb_256(1) [OF m]]) simp_all
  then show "limbs (fprime_mul a b m) = limbs a * limbs b mod limbs m" "length (fprime_mul a b m) = 32"
    by (simp_all add: mult.commute)
qed

section \<open>Inversion\<close>

lemma minus_chain_0: "minus_chain 0 x = x"
proof (induction x)
  case (Cons a x)
  have "unat (drop_bit 8 (ucast a :: u16)) = 0" using u8_bound [of a] by (simp add: unat_drop_8 unat_ucast_byte)
  then have "drop_bit 8 (ucast a :: u16) = 0" by (simp add: unat_eq_0)
  moreover have "ucast (ucast a :: u16) = a" by (simp add: word_unat_eq_iff unat_low_byte unat_ucast_byte mod_less [OF u8_bound])
  ultimately show ?case using Cons by simp
qed simp

text \<open>With a low byte of at least 2 nothing is borrowed and the exponent is \<open>m - 2\<close>.\<close>

lemma minus_two:
  assumes "m \<noteq> []" "2 \<le> unat (m ! 0)"
  shows "limbs (minus_chain 2 m) + 2 = limbs m" "length (minus_chain 2 m) = length m"
proof -
  obtain a x where m: "m = a # x" using assms(1) by (cases m) auto
  have "unat (ucast a :: u16) = unat a" by (simp add: unat_ucast_byte)
  then have d: "unat (ucast a - 2 :: u16) = unat a - 2" using assms(2) m by (simp add: unat_sub_if')
  then have "unat (drop_bit 8 (ucast a - 2 :: u16)) = 0" using u8_bound [of a] by (simp add: unat_drop_8)
  then have "drop_bit 8 (ucast a - 2 :: u16) = 0" by (simp add: unat_eq_0)
  then have mc: "minus_chain 2 m = ucast (ucast a - 2 :: u16) # x" using m by (simp add: minus_chain_0 Let_def)
  have "unat (ucast (ucast a - 2 :: u16) :: u8) = unat a - 2" using u8_bound [of a] by (simp add: unat_low_byte d)
  then show "limbs (minus_chain 2 m) + 2 = limbs m" unfolding mc using m assms(2) by simp
  show "length (minus_chain 2 m) = length m" using mc m by simp
qed

lemma inv_loop:
  assumes m: "modulus_ok m" and a: "length a = 32" "limbs a < limbs m" and e: "length e = 32" "k \<le> 256"
    and r: "length r = 32" "limbs r = limbs a ^ (limbs e div 2 ^ k) mod limbs m"
  shows "limbs (foldl (inv_step a m e) r (rev [0..<k])) = limbs a ^ limbs e mod limbs m \<and>
    length (foldl (inv_step a m e) r (rev [0..<k])) = 32"
  using e(2) r
proof (induction k arbitrary: r)
  case (Suc k)
  let ?q = "limbs e div 2 ^ (k + 1)"
  have m0: "0 < limbs m" using m by (simp add: modulus_ok_def)
  then have rm: "limbs r < limbs m" using Suc.prems(3) by simp
  note sq = fprime_mul_value [OF m Suc.prems(2) rm Suc.prems(2) rm]
  have sqm: "limbs (fprime_mul r r m) < limbs m" using sq(1) m0 by simp
  note mu = fprime_mul_value [OF m sq(2) sqm a]
  have b: "unat (drop_bit (k mod 8) (e ! (k div 8)) AND 1) = of_bool (bit (limbs e) k)"
    using e(1) Suc.prems(1) by (intro limbs_bit) simp
  then have st: "inv_step a m e r k = (if bit (limbs e) k then fprime_mul (fprime_mul r r m) a m else fprime_mul r r m)"
    using sq(2) by (auto simp: inv_step_def Let_def word_unat_eq_iff)
  have s2: "limbs (fprime_mul r r m) = limbs a ^ (2 * ?q) mod limbs m"
    using sq(1) Suc.prems(3) by (simp add: mod_simps mult_2 power_add)
  have "limbs (inv_step a m e r k) = limbs a ^ (2 * ?q + of_bool (bit (limbs e) k)) mod limbs m"
    using st mu(1) s2 by (simp add: mod_simps mult.commute)
  then have "limbs (inv_step a m e r k) = limbs a ^ (limbs e div 2 ^ k) mod limbs m"
    unfolding div_pow_bit [of "limbs e" k] .
  moreover have "length (inv_step a m e r k) = 32" using st sq(2) mu(2) by simp
  ultimately show ?case using Suc.IH Suc.prems(1) by simp
qed simp

lemma fprime_load_1: "limbs (fprime_load 1) = 1" "length (fprime_load 1) = 32"
  by (simp_all add: fprime_load_def upt_rec)

lemma fprime_inv_value:
  assumes m: "modulus_ok m" "2 \<le> unat (m ! 0)" and a: "length a = 32" "limbs a < limbs m"
  shows "limbs (fprime_inv a m) = limbs a ^ (limbs m - 2) mod limbs m" "length (fprime_inv a m) = 32"
proof -
  let ?e = "minus_chain 2 m"
  have ml: "length m = 32" "2 \<le> limbs m" using m(1) by (auto simp: modulus_ok_def)
  then have "m \<noteq> []" by auto
  note e = minus_two [OF this m(2)]
  have "limbs ?e div 2 ^ nat (prime_msb m + 1) = 0" using e(1) msb_256(2) [OF m(1)] by simp
  then have "limbs (fprime_load 1) = limbs a ^ (limbs ?e div 2 ^ nat (prime_msb m + 1)) mod limbs m"
    using fprime_load_1(1) ml(2) by simp
  then have "limbs (fprime_inv a m) = limbs a ^ limbs ?e mod limbs m \<and> length (fprime_inv a m) = 32"
    unfolding fprime_inv_def Let_def
    by (intro inv_loop [OF m(1) a _ msb_256(1) [OF m(1)] fprime_load_1(2)]) (use e(2) ml in auto)
  moreover have "limbs ?e = limbs m - 2" using e(1) by simp
  ultimately show "limbs (fprime_inv a m) = limbs a ^ (limbs m - 2) mod limbs m" "length (fprime_inv a m) = 32"
    by simp_all
qed

text \<open>The borrow of \<open>p - 2\<close> is shifted out of a 16-bit word as 255 and not as 1, so a prime with a low
  byte of 1 is inverted with another exponent: for 257 it is 767 and not 255.\<close>

lemma fprime_inv_wrong_exponent: "limbs (minus_chain 2 [1, 1]) = 767 \<and> limbs ([1, 1] :: u8 list) - 2 = 255"
  by code_simp

section \<open>Properties\<close>

text \<open>Scalar arithmetic is arithmetic modulo the given number. For any modulus the header file
  allows, \<open>fprime_from_bytes\<close> reduces a string of any length to its least residue, and addition,
  subtraction and multiplication of residues return the least residue of the sum, the difference and
  the product.\<close>

theorem fprime_is_arithmetic_mod_m:
  assumes "modulus_ok m" "length a = 32" "limbs a < limbs m" "length b = 32" "limbs b < limbs m"
  shows "limbs (fprime_from_bytes x (length x) m) = limbs x mod limbs m \<and>
    limbs (fprime_add a b m) = (limbs a + limbs b) mod limbs m \<and>
    int (limbs (fprime_sub a b m)) = (int (limbs a) - int (limbs b)) mod int (limbs m) \<and>
    limbs (fprime_mul a b m) = limbs a * limbs b mod limbs m"
  using fprime_from_bytes_value [OF assms(1) refl, of x] fprime_add_value [OF assms] fprime_sub_value [OF assms]
    fprime_mul_value [OF assms] by blast

theorem fprime_is_arithmetic_mod_m_witness:
  "limbs (fprime_mul (fprime_load 200) (fprime_load 7) (fprime_load 251)) = 145"
proof -
  have l: "limbs (fprime_load 200) = 200" "limbs (fprime_load 7) = 7" "limbs (fprime_load 251) = 251"
    "length (fprime_load 200) = 32" "length (fprime_load 7) = 32" "length (fprime_load 251) = 32"
    by (simp_all add: fprime_load_def upt_rec)
  have "modulus_ok (fprime_load 251)" by (simp add: modulus_ok_def l)
  from fprime_is_arithmetic_mod_m [OF this, of "fprime_load 200" "fprime_load 7" "[]"]
  show ?thesis by (simp add: l)
qed

end
