(* ===== verification/Ed25519.thy ===== *)
theory Ed25519
  imports F25519 Fprime
begin

text \<open>
  Points of the twisted Edwards curve \<open>- x^2 + y^2 = 1 + d x^2 y^2\<close> over the integers modulo
  \<open>2^255 - 19\<close>: src/utils/crypto/compact25519/c25519/ed25519.c and ed25519.h. The residues are made a
  ring of their own (\<open>gf\<close>), so that the formulae of the code are checked as polynomial identities:
  the complete addition law, doubling as the sum of a point with itself, the curve equation kept.
\<close>

section \<open>Points and constants\<close>

text \<open>\<open>struct ed25519_pt\<close>: extended projective coordinates.\<close>

record ed25519_pt =
  pt_x :: "u8 list"
  pt_y :: "u8 list"
  pt_t :: "u8 list"
  pt_z :: "u8 list"

definition ed25519_base :: ed25519_pt where
  "ed25519_base = \<lparr>
     pt_x = [0x1a, 0xd5, 0x25, 0x8f, 0x60, 0x2d, 0x56, 0xc9,
             0xb2, 0xa7, 0x25, 0x95, 0x60, 0xc7, 0x2c, 0x69,
             0x5c, 0xdc, 0xd6, 0xfd, 0x31, 0xe2, 0xa4, 0xc0,
             0xfe, 0x53, 0x6e, 0xcd, 0xd3, 0x36, 0x69, 0x21],
     pt_y = [0x58, 0x66, 0x66, 0x66, 0x66, 0x66, 0x66, 0x66,
             0x66, 0x66, 0x66, 0x66, 0x66, 0x66, 0x66, 0x66,
             0x66, 0x66, 0x66, 0x66, 0x66, 0x66, 0x66, 0x66,
             0x66, 0x66, 0x66, 0x66, 0x66, 0x66, 0x66, 0x66],
     pt_t = [0xa3, 0xdd, 0xb7, 0xa5, 0xb3, 0x8a, 0xde, 0x6d,
             0xf5, 0x52, 0x51, 0x77, 0x80, 0x9f, 0xf0, 0x20,
             0x7d, 0xe3, 0xab, 0x64, 0x8e, 0x4e, 0xea, 0x66,
             0x65, 0x76, 0x8b, 0xd7, 0x0f, 0x5f, 0x87, 0x67],
     pt_z = 1 # replicate 31 0\<rparr>"

definition ed25519_neutral :: ed25519_pt where
  "ed25519_neutral = \<lparr>pt_x = replicate 32 0, pt_y = 1 # replicate 31 0, pt_t = replicate 32 0,
     pt_z = 1 # replicate 31 0\<rparr>"

definition ed25519_d :: "u8 list" where
  "ed25519_d =
     [0xa3, 0x78, 0x59, 0x13, 0xca, 0x4d, 0xeb, 0x75,
      0xab, 0xd8, 0x41, 0x41, 0x4d, 0x0a, 0x70, 0x00,
      0x98, 0xe8, 0x79, 0x77, 0x79, 0x40, 0xc7, 0x8c,
      0x73, 0xfe, 0x6f, 0x2b, 0xee, 0x6c, 0x03, 0x52]"

definition ed25519_k :: "u8 list" where
  "ed25519_k =
     [0x59, 0xf1, 0xb2, 0x26, 0x94, 0x9b, 0xd6, 0xeb,
      0x56, 0xb1, 0x83, 0x82, 0x9a, 0x14, 0xe0, 0x00,
      0x30, 0xd1, 0xf3, 0xee, 0xf2, 0x80, 0x8e, 0x19,
      0xe7, 0xfc, 0xdf, 0x56, 0xdc, 0xd9, 0x06, 0x24]"

section \<open>Operations\<close>

definition ed25519_prepare :: "u8 list \<Rightarrow> u8 list" where
  "ed25519_prepare e =
     (let e = e[0 := e ! 0 AND 0xf8];
          e = e[31 := e ! 31 AND 0x7f]
      in e[31 := e ! 31 OR 0x40])"

definition ed25519_copy :: "ed25519_pt \<Rightarrow> ed25519_pt" where
  "ed25519_copy src = src"

definition ed25519_project :: "u8 list \<Rightarrow> u8 list \<Rightarrow> ed25519_pt" where
  "ed25519_project x y = \<lparr>pt_x = f25519_copy x, pt_y = f25519_copy y, pt_t = f25519_mul__distinct x y,
     pt_z = f25519_load 1\<rparr>"

definition ed25519_unproject :: "ed25519_pt \<Rightarrow> u8 list \<times> u8 list" where
  "ed25519_unproject p =
     (let z1 = f25519_inv__distinct (pt_z p);
          x = f25519_mul__distinct (pt_x p) z1;
          y = f25519_mul__distinct (pt_y p) z1
      in (f25519_normalize x, f25519_normalize y))"

definition ed25519_pack :: "u8 list \<Rightarrow> u8 list \<Rightarrow> u8 list" where
  "ed25519_pack x y =
     (let tmp = f25519_normalize (f25519_copy x);
          parity = push_bit 7 (tmp ! 0 AND 1);
          c = f25519_normalize (f25519_copy y)
      in c[31 := c ! 31 OR parity])"

text \<open>The result is the verdict and the coordinates.\<close>

definition ed25519_try_unpack :: "u8 list \<Rightarrow> u8 \<times> u8 list \<times> u8 list" where
  "ed25519_try_unpack packed =
     (let parity = drop_bit 7 (packed ! 31);
          y = f25519_copy packed;
          y = y[31 := y ! 31 AND 127];
          c = f25519_mul__distinct y y;
          b = f25519_mul__distinct c ed25519_d;
          a = f25519_add b f25519_one;
          b = f25519_inv__distinct a;
          a = f25519_sub c f25519_one;
          c = f25519_mul__distinct a b;
          a = f25519_sqrt c;
          b = f25519_neg a;
          x = f25519_select a b ((a ! 0 XOR parity) AND 1);
          a = f25519_mul__distinct x x;
          a = f25519_normalize a;
          c = f25519_normalize c
      in (f25519_eq a c, x, y))"

definition ed25519_add :: "ed25519_pt \<Rightarrow> ed25519_pt \<Rightarrow> ed25519_pt" where
  "ed25519_add p1 p2 =
     (let c = f25519_sub (pt_y p1) (pt_x p1);
          d = f25519_sub (pt_y p2) (pt_x p2);
          a = f25519_mul__distinct c d;
          c = f25519_add (pt_y p1) (pt_x p1);
          d = f25519_add (pt_y p2) (pt_x p2);
          b = f25519_mul__distinct c d;
          d = f25519_mul__distinct (pt_t p1) (pt_t p2);
          c = f25519_mul__distinct d ed25519_k;
          d = f25519_mul__distinct (pt_z p1) (pt_z p2);
          d = f25519_add d d;
          e = f25519_sub b a;
          f = f25519_sub d c;
          g = f25519_add d c;
          h = f25519_add b a
      in \<lparr>pt_x = f25519_mul__distinct e f, pt_y = f25519_mul__distinct g h,
          pt_t = f25519_mul__distinct e h, pt_z = f25519_mul__distinct f g\<rparr>)"

definition ed25519_double :: "ed25519_pt \<Rightarrow> ed25519_pt" where
  "ed25519_double p =
     (let a = f25519_mul__distinct (pt_x p) (pt_x p);
          b = f25519_mul__distinct (pt_y p) (pt_y p);
          c = f25519_mul__distinct (pt_z p) (pt_z p);
          c = f25519_add c c;
          f = f25519_add (pt_x p) (pt_y p);
          e = f25519_mul__distinct f f;
          e = f25519_sub e a;
          e = f25519_sub e b;
          g = f25519_sub b a;
          f = f25519_sub g c;
          h = f25519_neg b;
          h = f25519_sub h a
      in \<lparr>pt_x = f25519_mul__distinct e f, pt_y = f25519_mul__distinct g h,
          pt_t = f25519_mul__distinct e h, pt_z = f25519_mul__distinct f g\<rparr>)"

text \<open>One bit of the scalar, from the top; the choice is made without a branch.\<close>

definition smult_step :: "ed25519_pt \<Rightarrow> u8 list \<Rightarrow> ed25519_pt \<Rightarrow> nat \<Rightarrow> ed25519_pt" where
  "smult_step p e r i =
     (let bit = drop_bit (i mod 8) (e ! (i div 8)) AND 1;
          r = ed25519_double r;
          s = ed25519_add r p
      in \<lparr>pt_x = f25519_select (pt_x r) (pt_x s) bit, pt_y = f25519_select (pt_y r) (pt_y s) bit,
          pt_t = f25519_select (pt_t r) (pt_t s) bit, pt_z = f25519_select (pt_z r) (pt_z s) bit\<rparr>)"

definition ed25519_smult :: "ed25519_pt \<Rightarrow> u8 list \<Rightarrow> ed25519_pt" where
  "ed25519_smult p e = ed25519_copy (foldl (smult_step p e) (ed25519_copy ed25519_neutral) (rev [0..<256]))"

section \<open>The ring of residues\<close>

lemma p25519_pos: "0 < int p25519"
  by (simp add: p25519_val)

typedef gf = "{0..<int p25519}"
  by (rule exI [of _ 0]) (simp add: p25519_val)

setup_lifting type_definition_gf

instantiation gf :: comm_ring_1
begin

lift_definition zero_gf :: gf is 0
  by (simp add: p25519_val)

lift_definition one_gf :: gf is 1
  by (simp add: p25519_val)

lift_definition plus_gf :: "gf \<Rightarrow> gf \<Rightarrow> gf" is "\<lambda>a b. (a + b) mod int p25519"
  using p25519_pos by simp

lift_definition minus_gf :: "gf \<Rightarrow> gf \<Rightarrow> gf" is "\<lambda>a b. (a - b) mod int p25519"
  using p25519_pos by simp

lift_definition uminus_gf :: "gf \<Rightarrow> gf" is "\<lambda>a. (- a) mod int p25519"
  using p25519_pos by simp

lift_definition times_gf :: "gf \<Rightarrow> gf \<Rightarrow> gf" is "\<lambda>a b. (a * b) mod int p25519"
  using p25519_pos by simp

instance
proof
  fix a b c :: gf
  show "a * b * c = a * (b * c)" by transfer (simp add: mod_simps mult.assoc)
  show "a * b = b * a" by transfer (simp add: mult.commute)
  show "1 * a = a" by transfer simp
  show "a + b + c = a + (b + c)" by transfer (simp add: mod_simps add.assoc)
  show "a + b = b + a" by transfer (simp add: add.commute)
  show "0 + a = a" by transfer simp
  show "- a + a = 0" by transfer (simp add: mod_simps)
  show "a - b = a + - b" by transfer (simp add: mod_simps)
  show "(a + b) * c = a * c + b * c" by transfer (simp add: mod_simps distrib_right)
  show "(0 :: gf) \<noteq> 1" by transfer simp
qed

end

text \<open>The residue a byte string stands for.\<close>

lift_definition el :: "u8 list \<Rightarrow> gf" is fe
  using p25519_pos by (simp add: fe_def)

lemma el_eq_iff: "el x = el y \<longleftrightarrow> fe x = fe y"
  by transfer simp

lemma el_cong: "fe x = fe y \<Longrightarrow> el x = el y"
  by (simp add: el_eq_iff)

lemma el_add: "length a = 32 \<Longrightarrow> length b = 32 \<Longrightarrow> el (f25519_add a b) = el a + el b"
  by transfer (rule f25519_add_fe)

lemma el_sub: "fe_ok a \<Longrightarrow> fe_ok b \<Longrightarrow> el (f25519_sub a b) = el a - el b"
  by transfer (rule f25519_sub_fe)

lemma el_neg: "fe_ok a \<Longrightarrow> el (f25519_neg a) = - el a"
  by transfer (rule f25519_neg_fe)

lemma el_mul: "length a = 32 \<Longrightarrow> length b = 32 \<Longrightarrow> el (f25519_mul__distinct a b) = el a * el b"
  by transfer (rule f25519_mul_fe)

lemma gf_power: "Rep_gf (x ^ n) = Rep_gf x ^ n mod int p25519"
proof (induction n)
  case 0
  show ?case by (simp add: one_gf.rep_eq p25519_val)
next
  case (Suc n)
  then show ?case by (simp add: times_gf.rep_eq mod_simps)
qed

lemma el_inv: "fe_ok a \<Longrightarrow> el (f25519_inv__distinct a) = el a ^ (p25519 - 2)"
proof -
  assume "fe_ok a"
  then have "fe (f25519_inv__distinct a) = fe a ^ (p25519 - 2) mod int p25519"
    using pow_inv [of a] unfolding pow25519_def by blast
  then have "Rep_gf (el (f25519_inv__distinct a)) = Rep_gf (el a ^ (p25519 - 2))"
    by (simp only: el.rep_eq gf_power)
  then show ?thesis by (simp only: Rep_gf_inject)
qed

lemma gf_of_nat: "Rep_gf (of_nat n) = int n mod int p25519"
  by (induction n) (simp_all add: zero_gf.rep_eq plus_gf.rep_eq one_gf.rep_eq mod_simps add.commute)

lemma gf_of_nat_eq: "(of_nat a :: gf) = of_nat b \<longleftrightarrow> a mod p25519 = b mod p25519"
  by (simp add: gf_of_nat flip: Rep_gf_inject zmod_int)

lemma el_limbs: "el x = of_nat (limbs x)"
  by (simp add: gf_of_nat el.rep_eq fe_def flip: Rep_gf_inject)

lemma el_one [simp]: "el f25519_one = 1"
  by transfer simp

lemma el_zero [simp]: "el f25519_zero = 0"
  by transfer simp

lemma copy_id [simp]: "length a = 32 \<Longrightarrow> f25519_copy a = a"
  by (simp add: f25519_copy_def)

lemma el_normalize [simp]: "length x = 32 \<Longrightarrow> el (f25519_normalize x) = el x"
  by (intro el_cong) (simp add: fe_def f25519_normalize_value zmod_int)

lemma normalize_ok: "length x = 32 \<Longrightarrow> fe_ok (f25519_normalize x)"
  using f25519_normalize_value [of x] mod_less_divisor [of p25519 "limbs x"] by (simp add: fe_ok_def p25519_val)

lemmas fe_ok_ops = f25519_add_fe(2) f25519_sub_fe(2) f25519_neg_fe(2) f25519_mul_fe(2)

lemmas el_ops = el_add el_sub el_neg el_mul

section \<open>The formulae\<close>

abbreviation gd :: gf where
  "gd \<equiv> el ed25519_d"

text \<open>The curve equation in extended coordinates, \<open>x = X/Z\<close>, \<open>y = Y/Z\<close>, \<open>x y = T/Z\<close>.\<close>

definition on_curve :: "gf \<Rightarrow> gf \<Rightarrow> gf \<Rightarrow> gf \<Rightarrow> bool" where
  "on_curve X Y T Z \<longleftrightarrow> X * Y = T * Z \<and> Y * Y - X * X = Z * Z + gd * (T * T)"

text \<open>The coordinates are in the range of the field operations and satisfy the equation.\<close>

definition pt_range :: "ed25519_pt \<Rightarrow> bool" where
  "pt_range p \<longleftrightarrow> fe_ok (pt_x p) \<and> fe_ok (pt_y p) \<and> fe_ok (pt_t p) \<and> fe_ok (pt_z p)"

definition pt_on_curve :: "ed25519_pt \<Rightarrow> bool" where
  "pt_on_curve p \<longleftrightarrow> on_curve (el (pt_x p)) (el (pt_y p)) (el (pt_t p)) (el (pt_z p))"

definition pt_ok :: "ed25519_pt \<Rightarrow> bool" where
  "pt_ok p \<longleftrightarrow> pt_range p \<and> pt_on_curve p"

lemma el_k: "el ed25519_k = 2 * gd"
proof -
  have "fe ed25519_k = (fe ed25519_d + fe ed25519_d) mod int p25519"
    by (simp add: fe_def ed25519_k_def ed25519_d_def p25519_val)
  then have "el ed25519_k = gd + gd" by transfer
  then show ?thesis by simp
qed

lemma len_dk [simp]: "length ed25519_d = 32" "length ed25519_k = 32"
  by (simp_all add: ed25519_d_def ed25519_k_def)

lemma neutral_ok: "pt_ok ed25519_neutral"
proof -
  have n: "ed25519_neutral = \<lparr>pt_x = f25519_zero, pt_y = f25519_one, pt_t = f25519_zero, pt_z = f25519_one\<rparr>"
    by (simp add: ed25519_neutral_def f25519_zero_def f25519_one_def)
  show ?thesis by (simp add: pt_ok_def pt_range_def pt_on_curve_def on_curve_def n)
qed

lemma base_limbs:
  "limbs (pt_x ed25519_base) = 15112221349535400772501151409588531511454012693041857206046113283949847762202"
  "limbs (pt_y ed25519_base) = 46316835694926478169428394003475163141307993866256225615783033603165251855960"
  "limbs (pt_t ed25519_base) = 46827403850823179245072216630277197565144205554125654976674165829533817101731"
  "limbs (pt_z ed25519_base) = 1"
  "limbs ed25519_d = 37095705934669439343138083508754565189542113879843219016388785533085940283555"
  by (simp_all add: ed25519_base_def ed25519_d_def)

lemma base_range: "pt_range ed25519_base"
  by (simp add: pt_range_def fe_ok_def ed25519_base_def p25519_val)

text \<open>A quotient by \<open>p\<close> is checked by multiplication.\<close>

lemma gf_of_nat_quotient: "a + 19 * q = b + q * 2 ^ 255 \<Longrightarrow> (of_nat a :: gf) = of_nat b"
proof -
  assume "a + 19 * q = b + q * 2 ^ 255"
  then have "a = b + q * p25519" by (simp add: p25519_val)
  then show ?thesis by (simp only: gf_of_nat_eq mod_mult_self1)
qed

lemma curve_of_nat:
  fixes x y t z d u a b :: nat
  assumes "y = a + x" "b = y + x" "(of_nat (d * t) :: gf) = of_nat u" "(of_nat (a * b) :: gf) = of_nat (z * z + u * t)"
  shows "(of_nat y * of_nat y - of_nat x * of_nat x :: gf) = of_nat z * of_nat z + of_nat d * (of_nat t * of_nat t)"
proof -
  have "(of_nat y * of_nat y - of_nat x * of_nat x :: gf) = of_nat (a * b)"
    unfolding assms(1,2) by (simp add: algebra_simps)
  also have "\<dots> = of_nat z * of_nat z + of_nat (d * t) * of_nat t"
    unfolding assms(4) by (simp add: assms(3) [symmetric])
  finally show ?thesis by (simp add: mult.assoc)
qed

lemma base_on_curve: "pt_on_curve ed25519_base"
proof -
  let ?x = "limbs (pt_x ed25519_base)" and ?y = "limbs (pt_y ed25519_base)" and ?t = "limbs (pt_t ed25519_base)"
    and ?z = "limbs (pt_z ed25519_base)" and ?d = "limbs ed25519_d"
    and ?u = "25118807164114332256265917848056083839023238678420704602006751320993253119284 :: nat"
    and ?a = "31204614345391077396927242593886631629853981173214368409736920319215404093758 :: nat"
    and ?b = "61429057044461878941929545413063694652762006559298082821829146887115099618162 :: nat"
  have "(of_nat (?x * ?y) :: gf) = of_nat (?t * ?z)"
    by (rule gf_of_nat_quotient [of _ "12089777079628320618000921127670825209163210154433485764836890627159878209761"])
      (simp add: base_limbs)
  then have xy: "el (pt_x ed25519_base) * el (pt_y ed25519_base) = el (pt_t ed25519_base) * el (pt_z ed25519_base)"
    by (simp only: el_limbs of_nat_mult)
  have u: "(of_nat (?d * ?t) :: gf) = of_nat ?u"
    by (rule gf_of_nat_quotient [of _ "30003700846505358424289486359486289811375540775334649234022936541361668109129"])
      (simp add: base_limbs)
  have e: "(of_nat (?a * ?b) :: gf) = of_nat (?z * ?z + ?u * ?t)"
    by (rule gf_of_nat_quotient [of _ "12792264345980041323645621918455654963646965613193308165563326289630249384859"])
      (simp add: base_limbs)
  have "?y = ?a + ?x" "?b = ?y + ?x" by (simp_all add: base_limbs)
  from curve_of_nat [OF this u e] show ?thesis using xy by (simp only: pt_on_curve_def on_curve_def el_limbs simp_thms)
qed

lemma base_ok: "pt_ok ed25519_base"
  using base_range base_on_curve by (simp add: pt_ok_def)

section \<open>The group operations on residues\<close>

text \<open>A point as a quadruple of residues, and the formulae as the literature states them.\<close>

type_synonym gpt = "gf \<times> gf \<times> gf \<times> gf"

definition gpt_of :: "ed25519_pt \<Rightarrow> gpt" where
  "gpt_of p = (el (pt_x p), el (pt_y p), el (pt_t p), el (pt_z p))"

definition gadd :: "gpt \<Rightarrow> gpt \<Rightarrow> gpt" where
  "gadd P Q =
     (let (X1, Y1, T1, Z1) = P; (X2, Y2, T2, Z2) = Q;
          E = 2 * (X1 * Y2 + X2 * Y1);
          F = 2 * (Z1 * Z2 - gd * (T1 * T2));
          G = 2 * (Z1 * Z2 + gd * (T1 * T2));
          H = 2 * (Y1 * Y2 + X1 * X2)
      in (E * F, G * H, E * H, F * G))"

definition gdouble :: "gpt \<Rightarrow> gpt" where
  "gdouble P =
     (let (X, Y, T, Z) = P;
          E = 2 * (X * Y);
          G = Y * Y - X * X;
          F = G - 2 * (Z * Z);
          H = - (X * X + Y * Y)
      in (E * F, G * H, E * H, F * G))"

definition gneutral :: gpt where
  "gneutral = (0, 1, 0, 1)"

lemma add_ok: "pt_range p \<Longrightarrow> pt_range q \<Longrightarrow> pt_range (ed25519_add p q)"
  unfolding pt_range_def ed25519_add_def Let_def by (simp add: fe_ok_ops)

lemma double_ok: "pt_range p \<Longrightarrow> pt_range (ed25519_double p)"
  unfolding pt_range_def ed25519_double_def Let_def by (simp add: fe_ok_ops)

lemma add_gadd:
  assumes "pt_range p" "pt_range q"
  shows "gpt_of (ed25519_add p q) = gadd (gpt_of p) (gpt_of q)"
proof -
  have ok: "fe_ok (pt_x p)" "fe_ok (pt_y p)" "fe_ok (pt_t p)" "fe_ok (pt_z p)"
    "fe_ok (pt_x q)" "fe_ok (pt_y q)" "fe_ok (pt_t q)" "fe_ok (pt_z q)"
    using assms by (auto simp: pt_range_def)
  let ?A = "(el (pt_y p) - el (pt_x p)) * (el (pt_y q) - el (pt_x q))"
  let ?B = "(el (pt_y p) + el (pt_x p)) * (el (pt_y q) + el (pt_x q))"
  let ?C = "el (pt_t p) * el (pt_t q) * (2 * gd)"
  let ?D = "el (pt_z p) * el (pt_z q) + el (pt_z p) * el (pt_z q)"
  have e: "?B - ?A = 2 * (el (pt_x p) * el (pt_y q) + el (pt_x q) * el (pt_y p))"
    "?B + ?A = 2 * (el (pt_y p) * el (pt_y q) + el (pt_x p) * el (pt_x q))"
    "?D - ?C = 2 * (el (pt_z p) * el (pt_z q) - gd * (el (pt_t p) * el (pt_t q)))"
    "?D + ?C = 2 * (el (pt_z p) * el (pt_z q) + gd * (el (pt_t p) * el (pt_t q)))"
    by (simp_all add: algebra_simps)
  show ?thesis
    unfolding ed25519_add_def Let_def gpt_of_def gadd_def prod.case ed25519_pt.simps
    using ok by (simp only: el_ops fe_ok_ops fe_ok_length len_dk el_k e)
qed

lemma double_gdouble:
  assumes "pt_range p"
  shows "gpt_of (ed25519_double p) = gdouble (gpt_of p)"
proof -
  have ok: "fe_ok (pt_x p)" "fe_ok (pt_y p)" "fe_ok (pt_z p)"
    using assms by (auto simp: pt_range_def)
  let ?X = "el (pt_x p)" and ?Y = "el (pt_y p)" and ?Z = "el (pt_z p)"
  have e: "(?X + ?Y) * (?X + ?Y) - ?X * ?X - ?Y * ?Y = 2 * (?X * ?Y)"
    "- (?Y * ?Y) - ?X * ?X = - (?X * ?X + ?Y * ?Y)" "?Z * ?Z + ?Z * ?Z = 2 * (?Z * ?Z)"
    by (simp_all add: algebra_simps)
  show ?thesis
    unfolding ed25519_double_def Let_def gpt_of_def gdouble_def prod.case ed25519_pt.simps
    using ok by (simp only: el_ops fe_ok_ops fe_ok_length e)
qed

text \<open>The sum of two points of the curve is on the curve. With \<open>u\<^sub>i = d T\<^sub>i\<^sup>2\<close> the equation of the
  sum is the one between \<open>z1 z2 + u1 u2\<close> and the squares of the two given points.\<close>

lemma closure_identity:
  fixes z1 z2 u1 u2 :: "'a :: comm_ring_1"
  shows "(z1 * z2 + u1 * u2) * ((z1 + u1) * (z2 + u2)) =
     (z1 * z2 - u1 * u2) * (z1 * z2 - u1 * u2) + u1 * z1 * ((z2 + u2) * (z2 + u2)) + u2 * z2 * ((z1 + u1) * (z1 + u1))"
  by (simp add: algebra_simps)

text \<open>The pieces: for \<open>n1 = X1 Y2 + X2 Y1\<close> and \<open>n2 = Y1 Y2 + X1 X2\<close>.\<close>

lemma edwards_pieces:
  fixes X1 Y1 X2 Y2 :: "'a :: comm_ring_1"
  defines "n1 \<equiv> X1 * Y2 + X2 * Y1" and "n2 \<equiv> Y1 * Y2 + X1 * X2"
  shows "n2 * n2 - n1 * n1 = (Y1 * Y1 - X1 * X1) * (Y2 * Y2 - X2 * X2)"
    "n2 * n2 + n1 * n1 = (X1 * X1 + Y1 * Y1) * (X2 * X2 + Y2 * Y2) + 4 * (X1 * Y1 * (X2 * Y2))"
    "n1 * n2 = X1 * Y1 * (X2 * X2 + Y2 * Y2) + X2 * Y2 * (X1 * X1 + Y1 * Y1)"
  unfolding n1_def n2_def by (simp_all add: algebra_simps)

lemma square_sum: "(x * x + y * y) * (x * x + y * y) = (y * y - x * x) * (y * y - x * x) + 4 * (x * y * (x * y))"
  for x :: "'a :: comm_ring_1"
  by (simp add: algebra_simps)

lemma pm_squares:
  fixes w e :: "'a :: comm_ring_1"
  shows "(w + e) * (w + e) * (n2 * n2) - (w - e) * (w - e) * (n1 * n1) =
    (w * w + e * e) * (n2 * n2 - n1 * n1) + 2 * (w * e) * (n2 * n2 + n1 * n1)"
  by (simp add: algebra_simps)

lemma regroup: "x + y = k * P \<Longrightarrow> A + B + C + k * (S + P) = A + (B + x + (C + y) + k * S)" for A :: "'a :: comm_ring_1"
  by (simp add: algebra_simps)

lemma sum_equation:
  fixes X1 Y1 T1 Z1 :: "'a :: comm_ring_1"
  assumes p1: "X1 * Y1 = T1 * Z1" and c1: "Y1 * Y1 - X1 * X1 = Z1 * Z1 + D * (T1 * T1)"
    and p2: "X2 * Y2 = T2 * Z2" and c2: "Y2 * Y2 - X2 * X2 = Z2 * Z2 + D * (T2 * T2)"
  defines "n1 \<equiv> X1 * Y2 + X2 * Y1" and "n2 \<equiv> Y1 * Y2 + X1 * X2"
    and "w \<equiv> Z1 * Z2" and "e \<equiv> D * (T1 * T2)"
  shows "(w + e) * (w + e) * (n2 * n2) - (w - e) * (w - e) * (n1 * n1) =
    (w * w - e * e) * (w * w - e * e) + D * (n1 * n2 * (n1 * n2))"
proof -
  let ?s1 = "X1 * X1 + Y1 * Y1" and ?s2 = "X2 * X2 + Y2 * Y2"
  let ?e1 = "Z1 * Z1 + D * (T1 * T1)" and ?e2 = "Z2 * Z2 + D * (T2 * T2)"
  let ?p1 = "T1 * Z1" and ?p2 = "T2 * Z2"
  have n: "n2 * n2 - n1 * n1 = ?e1 * ?e2" "n2 * n2 + n1 * n1 = ?s1 * ?s2 + 4 * (?p1 * ?p2)"
    "n1 * n2 = ?p1 * ?s2 + ?p2 * ?s1"
    unfolding n1_def n2_def edwards_pieces c1 c2 p1 p2 by (rule refl)+
  have s: "?s1 * ?s1 = ?e1 * ?e1 + 4 * (?p1 * ?p1)" "?s2 * ?s2 = ?e2 * ?e2 + 4 * (?p2 * ?p2)"
    unfolding square_sum c1 c2 p1 p2 by (rule refl)+
  have q: "D * ((?p1 * ?s2 + ?p2 * ?s1) * (?p1 * ?s2 + ?p2 * ?s1)) =
      D * (?p1 * ?p1) * (?s2 * ?s2) + D * (?p2 * ?p2) * (?s1 * ?s1) + 2 * (w * e) * (?s1 * ?s2)"
    unfolding w_def e_def by (simp add: algebra_simps)
  have z: "(w * w + e * e) * (?e1 * ?e2) = (w * w - e * e) * (w * w - e * e) + D * (?p1 * ?p1) * (?e2 * ?e2) +
      D * (?p2 * ?p2) * (?e1 * ?e1)"
    using closure_identity [of "Z1 * Z1" "Z2 * Z2" "D * (T1 * T1)" "D * (T2 * T2)"]
    unfolding w_def e_def by (simp only: ac_simps)
  have m: "D * (?p1 * ?p1) * (4 * (?p2 * ?p2)) + D * (?p2 * ?p2) * (4 * (?p1 * ?p1)) =
      2 * (w * e) * (4 * (?p1 * ?p2))"
    unfolding w_def e_def by (simp add: algebra_simps)
  have l: "(w + e) * (w + e) * (n2 * n2) - (w - e) * (w - e) * (n1 * n1) =
      (w * w + e * e) * (?e1 * ?e2) + 2 * (w * e) * (?s1 * ?s2 + 4 * (?p1 * ?p2))"
    by (simp only: pm_squares n(1,2))
  have sp: "D * (?p1 * ?p1) * (?s2 * ?s2) = D * (?p1 * ?p1) * (?e2 * ?e2) + D * (?p1 * ?p1) * (4 * (?p2 * ?p2))"
    "D * (?p2 * ?p2) * (?s1 * ?s1) = D * (?p2 * ?p2) * (?e1 * ?e1) + D * (?p2 * ?p2) * (4 * (?p1 * ?p1))"
    unfolding s by (rule distrib_left)+
  have r: "D * (n1 * n2 * (n1 * n2)) = D * (?p1 * ?p1) * (?e2 * ?e2) + D * (?p1 * ?p1) * (4 * (?p2 * ?p2)) +
      (D * (?p2 * ?p2) * (?e1 * ?e1) + D * (?p2 * ?p2) * (4 * (?p1 * ?p1))) + 2 * (w * e) * (?s1 * ?s2)"
    by (simp only: n(3) q sp)
  show ?thesis unfolding l r z by (rule regroup [OF m])
qed

lemma gadd_on_curve:
  assumes "on_curve X1 Y1 T1 Z1" "on_curve X2 Y2 T2 Z2" "gadd (X1, Y1, T1, Z1) (X2, Y2, T2, Z2) = (X, Y, T, Z)"
  shows "on_curve X Y T Z"
proof -
  define n1 n2 w e where v: "n1 = X1 * Y2 + X2 * Y1" "n2 = Y1 * Y2 + X1 * X2" "w = Z1 * Z2" "e = gd * (T1 * T2)"
  have g: "X = 2 * n1 * (2 * (w - e))" "Y = 2 * (w + e) * (2 * n2)" "T = 2 * n1 * (2 * n2)" "Z = 2 * (w - e) * (2 * (w + e))"
    using assms(3) unfolding gadd_def Let_def v by auto
  have "(w + e) * (w + e) * (n2 * n2) - (w - e) * (w - e) * (n1 * n1) =
      (w * w - e * e) * (w * w - e * e) + gd * (n1 * n2 * (n1 * n2))"
    unfolding v using assms(1,2) by (intro sum_equation) (simp_all add: on_curve_def)
  then have "16 * ((w + e) * (w + e) * (n2 * n2) - (w - e) * (w - e) * (n1 * n1)) =
      16 * ((w * w - e * e) * (w * w - e * e) + gd * (n1 * n2 * (n1 * n2)))" by simp
  moreover have "Y * Y - X * X = 16 * ((w + e) * (w + e) * (n2 * n2) - (w - e) * (w - e) * (n1 * n1))"
    unfolding g by (simp add: algebra_simps)
  moreover have "Z * Z + gd * (T * T) = 16 * ((w * w - e * e) * (w * w - e * e) + gd * (n1 * n2 * (n1 * n2)))"
    unfolding g by (simp add: algebra_simps)
  moreover have "X * Y = T * Z" unfolding g by (simp only: ac_simps)
  ultimately show ?thesis by (simp only: on_curve_def)
qed

text \<open>Doubling is adding a point to itself, up to the common factor \<open>- 4\<close> of the coordinates.\<close>

definition gscale :: "gf \<Rightarrow> gpt \<Rightarrow> gpt" where
  "gscale c P = (let (X, Y, T, Z) = P in (c * X, c * Y, c * T, c * Z))"

lemma gadd_self:
  assumes "on_curve X Y T Z"
  shows "gadd (X, Y, T, Z) (X, Y, T, Z) = gscale (- 4) (gdouble (X, Y, T, Z))"
proof -
  define a b z e where v: "a = X * X" "b = Y * Y" "z = Z * Z" "e = gd * (T * T)"
  have c: "b = a + z + e" using assms by (simp add: on_curve_def v algebra_simps)
  have t: "X * Y = Y * X" by (rule mult.commute)
  have g: "gadd (X, Y, T, Z) (X, Y, T, Z) = (let E = 2 * (X * Y + X * Y); F = 2 * (z - e); G = 2 * (z + e); H = 2 * (b + a)
      in (E * F, G * H, E * H, F * G))"
    by (simp add: gadd_def v Let_def)
  have d: "gdouble (X, Y, T, Z) = (let E = 2 * (X * Y); G = b - a; F = G - 2 * z; H = - (a + b)
      in (E * F, G * H, E * H, F * G))"
    by (simp add: gdouble_def v Let_def)
  show ?thesis unfolding g d gscale_def Let_def prod.case prod.inject c
    by (simp add: algebra_simps)
qed

lemma gdouble_on_curve:
  assumes o: "on_curve X Y T Z" and g: "gdouble (X, Y, T, Z) = (X', Y', T', Z')"
  shows "on_curve X' Y' T' Z'"
proof -
  define p e F where v: "p = T * Z" "e = Z * Z + gd * (T * T)" "F = e - 2 * (Z * Z)"
  have e: "Y * Y - X * X = e" and p: "X * Y = p" using o by (simp_all add: on_curve_def v)
  define s where s: "s = X * X + Y * Y"
  have ss: "s * s = e * e + 4 * (p * p)" unfolding s square_sum e p by (rule refl)
  have q: "X' = 2 * p * F" "Y' = e * - s" "T' = 2 * p * - s" "Z' = F * e"
    using g unfolding gdouble_def Let_def e p prod.case prod.inject v(3) s by simp_all
  have f: "e * e = F * F + 4 * (gd * (p * p))" unfolding v by (simp add: algebra_simps)
  have "Y' * Y' - X' * X' = e * e * (s * s) - 4 * (p * p) * (F * F)"
    unfolding q by (simp add: algebra_simps)
  also have "\<dots> = (F * F + 4 * (gd * (p * p))) * (s * s) - 4 * (p * p) * (F * F)"
    by (subst (1) f) (rule refl)
  also have "\<dots> = F * F * (s * s - 4 * (p * p)) + 4 * (gd * (p * p)) * (s * s)"
    by (simp add: algebra_simps)
  also have "\<dots> = F * F * (e * e) + 4 * (gd * (p * p)) * (s * s)" by (simp add: ss)
  also have "\<dots> = Z' * Z' + gd * (T' * T')" unfolding q by (simp add: algebra_simps)
  finally have "Y' * Y' - X' * X' = Z' * Z' + gd * (T' * T')" .
  moreover have "X' * Y' = T' * Z'" unfolding q by (simp add: algebra_simps)
  ultimately show ?thesis by (simp only: on_curve_def)
qed

section \<open>Scalar multiplication\<close>

text \<open>Double and add over the low \<open>n\<close> bits of a number.\<close>

fun gmult :: "nat \<Rightarrow> nat \<Rightarrow> gpt \<Rightarrow> gpt" where
  "gmult 0 k P = gneutral"
| "gmult (Suc n) k P = (let Q = gdouble (gmult n (k div 2) P) in if odd k then gadd Q P else Q)"

lemma gpt_on_curve: "pt_on_curve p \<longleftrightarrow> (case gpt_of p of (X, Y, T, Z) \<Rightarrow> on_curve X Y T Z)"
  by (simp add: pt_on_curve_def gpt_of_def)

lemma add_pt_ok: "pt_ok p \<Longrightarrow> pt_ok q \<Longrightarrow> pt_ok (ed25519_add p q)"
proof -
  assume p: "pt_ok p" and q: "pt_ok q"
  obtain X1 Y1 T1 Z1 where P: "gpt_of p = (X1, Y1, T1, Z1)" by (cases "gpt_of p")
  obtain X2 Y2 T2 Z2 where Q: "gpt_of q = (X2, Y2, T2, Z2)" by (cases "gpt_of q")
  obtain X Y T Z where S: "gadd (X1, Y1, T1, Z1) (X2, Y2, T2, Z2) = (X, Y, T, Z)"
    by (cases "gadd (X1, Y1, T1, Z1) (X2, Y2, T2, Z2)")
  have "on_curve X1 Y1 T1 Z1" "on_curve X2 Y2 T2 Z2"
    using p q by (simp_all add: pt_ok_def gpt_on_curve P Q)
  from gadd_on_curve [OF this S] have "on_curve X Y T Z" .
  moreover have "gpt_of (ed25519_add p q) = (X, Y, T, Z)"
    using p q S by (simp add: pt_ok_def add_gadd P Q)
  ultimately show ?thesis using p q by (simp add: pt_ok_def gpt_on_curve add_ok)
qed

lemma double_pt_ok: "pt_ok p \<Longrightarrow> pt_ok (ed25519_double p)"
proof -
  assume p: "pt_ok p"
  obtain X Y T Z where P: "gpt_of p = (X, Y, T, Z)" by (cases "gpt_of p")
  obtain X' Y' T' Z' where S: "gdouble (X, Y, T, Z) = (X', Y', T', Z')" by (cases "gdouble (X, Y, T, Z)")
  have "on_curve X Y T Z" using p by (simp add: pt_ok_def gpt_on_curve P)
  from gdouble_on_curve [OF this S] have "on_curve X' Y' T' Z'" .
  moreover have "gpt_of (ed25519_double p) = (X', Y', T', Z')"
    using p S by (simp add: pt_ok_def double_gdouble P)
  ultimately show ?thesis using p by (simp add: pt_ok_def gpt_on_curve double_ok)
qed

lemma smult_step_if:
  assumes "pt_range p" "pt_range r" "length e = 32" "i < 256"
  shows "smult_step p e r i =
    (if bit (limbs e) i then ed25519_add (ed25519_double r) p else ed25519_double r)"
proof -
  let ?d = "ed25519_double r" and ?c = "drop_bit (i mod 8) (e ! (i div 8)) AND 1"
  have u: "unat ?c = of_bool (bit (limbs e) i)" using assms(3,4) by (intro limbs_bit) simp
  then have c: "?c = (if bit (limbs e) i then 1 else 0)" by (auto simp: word_unat_eq_iff)
  have "pt_range ?d" "pt_range (ed25519_add ?d p)" using assms(1,2) double_ok add_ok by blast+
  then show ?thesis unfolding smult_step_def Let_def c
    by (auto simp: f25519_select_if pt_range_def)
qed

lemma smult_loop:
  assumes p: "pt_range p" and e: "length e = 32" "k \<le> 256"
    and r: "pt_range r" "gpt_of r = gmult n (limbs e div 2 ^ k) (gpt_of p)"
  shows "pt_range (foldl (smult_step p e) r (rev [0..<k])) \<and>
    gpt_of (foldl (smult_step p e) r (rev [0..<k])) = gmult (n + k) (limbs e) (gpt_of p)"
  using e(2) r
proof (induction k arbitrary: r n)
  case (Suc k)
  let ?s = "smult_step p e r k" and ?v = "limbs e div 2 ^ k"
  have st: "?s = (if bit (limbs e) k then ed25519_add (ed25519_double r) p else ed25519_double r)"
    using p Suc.prems e(1) by (intro smult_step_if) auto
  have o: "odd ?v \<longleftrightarrow> bit (limbs e) k" by (simp add: bit_iff_odd)
  have v: "?v div 2 = limbs e div 2 ^ Suc k" by (simp only: power_Suc2 div_mult2_eq)
  have d: "pt_range (ed25519_double r)" using Suc.prems(2) by (rule double_ok)
  then have "pt_range ?s" using st p add_ok by simp
  moreover have "gpt_of ?s = gmult (Suc n) ?v (gpt_of p)"
    using st p d Suc.prems(2,3) o v by (simp add: add_gadd double_gdouble Let_def)
  ultimately show ?case using Suc.IH [of ?s "Suc n"] Suc.prems(1) by simp
qed simp

lemma neutral_gneutral: "gpt_of ed25519_neutral = gneutral"
proof -
  have n: "ed25519_neutral = \<lparr>pt_x = f25519_zero, pt_y = f25519_one, pt_t = f25519_zero, pt_z = f25519_one\<rparr>"
    by (simp add: ed25519_neutral_def f25519_zero_def f25519_one_def)
  show ?thesis by (simp add: gpt_of_def gneutral_def n)
qed

lemma smult_gmult:
  assumes "pt_range p" "length e = 32"
  shows "pt_range (ed25519_smult p e)" "gpt_of (ed25519_smult p e) = gmult 256 (limbs e) (gpt_of p)"
proof -
  have "(2 :: nat) ^ 256 = 256 ^ 32" by simp
  then have z: "limbs e div 2 ^ 256 = 0" using limbs_less [of e] assms(2) by (simp only: div_less)
  then have "gpt_of ed25519_neutral = gmult 0 (limbs e div 2 ^ 256) (gpt_of p)" by (simp add: neutral_gneutral)
  then have "pt_range (ed25519_smult p e) \<and> gpt_of (ed25519_smult p e) = gmult (0 + 256) (limbs e) (gpt_of p)"
    unfolding ed25519_smult_def ed25519_copy_def using neutral_ok
    by (intro smult_loop [OF assms order_refl]) (simp_all add: pt_ok_def)
  then show "pt_range (ed25519_smult p e)" "gpt_of (ed25519_smult p e) = gmult 256 (limbs e) (gpt_of p)"
    by simp_all
qed

lemma smult_pt_ok:
  assumes "pt_ok p" "length e = 32"
  shows "pt_ok (ed25519_smult p e)"
proof -
  have "pt_ok (foldl (smult_step p e) r (rev [0..<k]))" if "pt_ok r" "k \<le> 256" for r k
    using that
  proof (induction k arbitrary: r)
    case (Suc k)
    have "smult_step p e r k = (if bit (limbs e) k then ed25519_add (ed25519_double r) p else ed25519_double r)"
      using assms Suc.prems by (intro smult_step_if) (auto simp: pt_ok_def)
    then have "pt_ok (smult_step p e r k)" using assms(1) Suc.prems(1) add_pt_ok double_pt_ok by simp
    then show ?case using Suc by simp
  qed simp
  then show ?thesis unfolding ed25519_smult_def ed25519_copy_def using neutral_ok by simp
qed

section \<open>Packing\<close>

text \<open>The encoding of RFC 8032: \<open>y\<close> in 255 bits, the parity of \<open>x\<close> above it.\<close>

definition gencode :: "gpt \<Rightarrow> nat" where
  "gencode P =
     (let (X, Y, T, Z) = P; i = Z ^ (p25519 - 2)
      in nat (Rep_gf (Y * i)) + 2 ^ 255 * (nat (Rep_gf (X * i)) mod 2))"

lemma and_1: "unat (w AND 1) = unat w mod 2" for w :: "'a::len word"
proof -
  have "w AND 1 = take_bit 1 w" by (simp add: take_bit_eq_mask mask_eq_exp_minus_1)
  then have "unat (w AND 1) = take_bit 1 (unat w)" by (simp only: unsigned_take_bit_eq)
  then show ?thesis by (simp add: take_bit_eq_mod)
qed

lemma or_parity:
  fixes a t :: u8
  assumes "unat a < 128"
  shows "unat (a OR push_bit 7 (t AND 1)) = unat a + 128 * (unat t mod 2)"
proof -
  define b where "b = t AND 1"
  have "unat t mod 2 = 0 \<or> unat t mod 2 = 1" by linarith
  moreover have "b = (if unat t mod 2 = 1 then 1 else 0)" by (auto simp: word_unat_eq_iff and_1 b_def)
  ultimately have p: "unat (push_bit 7 b) = 128 * (unat t mod 2)" by auto
  have "unat (a OR push_bit 7 (t AND 1)) = 128 * (unat t mod 2) OR unat a"
    unfolding b_def [symmetric] unsigned_or_eq p by (rule or.commute)
  also have "\<dots> = 128 * (unat t mod 2) + unat a" using assms by (intro or_disjoint [of _ 7]) auto
  finally show ?thesis by simp
qed

lemma head_parity: "x \<noteq> [] \<Longrightarrow> unat (x ! 0) mod 2 = limbs x mod 2" for x :: "u8 list"
proof (cases x)
  case (Cons a y)
  have "(unat a + 256 * limbs y) mod 2 = unat a mod 2" by presburger
  then show ?thesis using Cons by simp
qed simp

lemma pack_value:
  assumes x: "length x = 32" and y: "length y = 32"
  shows "limbs (ed25519_pack x y) = nat (fe y) + 2 ^ 255 * (nat (fe x) mod 2)" "length (ed25519_pack x y) = 32"
proof -
  let ?t = "f25519_normalize x" and ?c = "f25519_normalize y"
  note nx = f25519_normalize_value [OF x] and ny = f25519_normalize_value [OF y]
  have v: "limbs ?t = nat (fe x)" "limbs ?c = nat (fe y)" using nx(1) ny(1) by (simp_all add: fe_def nat_mod_distrib)
  have cl: "limbs ?c = limbs (take 31 ?c) + 256 ^ 31 * unat (?c ! 31)" by (rule limbs_split_last [OF ny(2)])
  have "limbs ?c < p25519" using ny(1) by (simp add: p25519_val)
  then have "256 ^ 31 * unat (?c ! 31) < 256 ^ 31 * 128" using cl by (simp add: p25519_val)
  then have c31: "unat (?c ! 31) < 128" by simp
  let ?q = "?c ! 31 OR push_bit 7 (?t ! 0 AND 1)"
  have q: "unat ?q = unat (?c ! 31) + 128 * (nat (fe x) mod 2)"
    unfolding or_parity [OF c31] using head_parity [of ?t] nx(2) v(1) by fastforce
  have p: "ed25519_pack x y = ?c[31 := ?q]" using x y by (simp add: ed25519_pack_def Let_def)
  have "limbs (?c[31 := ?q]) = limbs (take 31 ?c) + 256 ^ 31 * unat ?q"
    using limbs_split_last [of "?c[31 := ?q]"] ny(2) by simp
  then show "limbs (ed25519_pack x y) = nat (fe y) + 2 ^ 255 * (nat (fe x) mod 2)"
    unfolding p q using cl v(2) by (simp add: distrib_left)
  show "length (ed25519_pack x y) = 32" using p ny(2) by simp
qed

lemma pack_unproject:
  assumes "pt_range p" "ed25519_unproject p = (x, y)"
  shows "limbs (ed25519_pack x y) = gencode (gpt_of p)" "length (ed25519_pack x y) = 32"
proof -
  have ok: "fe_ok (pt_x p)" "fe_ok (pt_y p)" "fe_ok (pt_z p)" using assms(1) by (auto simp: pt_range_def)
  let ?i = "f25519_inv__distinct (pt_z p)"
  have i: "fe_ok ?i" "el ?i = el (pt_z p) ^ (p25519 - 2)"
    using pow_inv [OF ok(3)] el_inv [OF ok(3)] unfolding pow25519_def by blast+
  have l: "length (f25519_mul__distinct (pt_x p) ?i) = 32" "length (f25519_mul__distinct (pt_y p) ?i) = 32"
    using ok i(1) by (simp_all add: f25519_mul_fe(2))
  have xy: "x = f25519_normalize (f25519_mul__distinct (pt_x p) ?i)" "y = f25519_normalize (f25519_mul__distinct (pt_y p) ?i)"
    using assms(2) by (simp_all add: ed25519_unproject_def Let_def)
  have "length x = 32" "length y = 32" using xy l f25519_normalize_value(2) by simp_all
  note pv = pack_value [OF this]
  have "el x = el (pt_x p) * el ?i" "el y = el (pt_y p) * el ?i" using xy l ok i(1) by (simp_all add: el_mul)
  then have "fe x = Rep_gf (el (pt_x p) * el (pt_z p) ^ (p25519 - 2))"
    "fe y = Rep_gf (el (pt_y p) * el (pt_z p) ^ (p25519 - 2))"
    by (simp_all only: i(2) flip: el.rep_eq)
  then show "limbs (ed25519_pack x y) = gencode (gpt_of p)"
    unfolding pv(1) gencode_def gpt_of_def Let_def prod.case by (simp only:)
  show "length (ed25519_pack x y) = 32" by (rule pv(2))
qed

section \<open>Unpacking\<close>

text \<open>The ordinate of an encoding, \<open>1 + d y^2\<close> and the square the abscissa must have.\<close>

definition unpack_y :: "u8 list \<Rightarrow> gf" where
  "unpack_y packed = of_nat (limbs packed mod 2 ^ 255)"

definition unpack_den :: "u8 list \<Rightarrow> gf" where
  "unpack_den packed = unpack_y packed * unpack_y packed * gd + 1"

definition unpack_x2 :: "u8 list \<Rightarrow> gf" where
  "unpack_x2 packed = (unpack_y packed * unpack_y packed - 1) * unpack_den packed ^ (p25519 - 2)"

text \<open>The square root the code takes of it.\<close>

definition unpack_root :: "u8 list \<Rightarrow> u8 list" where
  "unpack_root packed =
     (let y = packed[31 := packed ! 31 AND 127]; c = f25519_mul__distinct y y
      in f25519_sqrt (f25519_mul__distinct (f25519_sub c f25519_one)
           (f25519_inv__distinct (f25519_add (f25519_mul__distinct c ed25519_d) f25519_one))))"

lemma split_top:
  fixes B :: nat
  assumes "x = l + B * (128 * q + r)" "y = l + B * r" "l < B" "r \<le> 127"
  shows "x = y + B * 128 * q" "y < B * 128"
proof -
  show "x = y + B * 128 * q" using assms(1,2) by (simp add: algebra_simps)
  have "B * r \<le> B * 127" using assms(4) by (rule mult_left_mono) simp
  then show "y < B * 128" using assms(2,3) by linarith
qed

lemma top_bit_cleared:
  assumes "length x = 32"
  shows "limbs (x[31 := x ! 31 AND 127]) = limbs x mod 2 ^ 255" "fe_ok (x[31 := x ! 31 AND 127])"
proof -
  let ?y = "x[31 := x ! 31 AND 127]" and ?l = "limbs (take 31 x)"
  define q r where qr: "q = unat (x ! 31) div 128" "r = unat (x ! 31) mod 128"
  have "unat (x ! 31) = 128 * q + r" by (simp only: qr mult_div_mod_eq)
  then have "limbs x = ?l + 256 ^ 31 * (128 * q + r)" using limbs_split_last [OF assms] by (simp only:)
  moreover have "limbs ?y = ?l + 256 ^ 31 * r"
    using limbs_split_last [of ?y] assms by (simp add: and_127 qr)
  ultimately have e: "limbs x = ?l + 256 ^ 31 * (128 * q + r)" "limbs ?y = ?l + 256 ^ 31 * r" by blast+
  have r: "r \<le> 127" by (simp add: qr)
  have "?l < 256 ^ 31" using limbs_less [of "take 31 x"] assms by simp
  note st = split_top [OF e this r]
  have p: "(256 :: nat) ^ 31 * 128 = 2 ^ 255" by simp
  note v = st [unfolded p]
  show "limbs ?y = limbs x mod 2 ^ 255" unfolding v(1) using v(2) by (simp only: mod_mult_self2 mod_less)
  have "2 ^ 255 \<le> 2 * p25519" by (simp add: p25519_val)
  then show "fe_ok ?y" using v(2) assms by (simp add: fe_ok_def)
qed

lemma gf_odd: "fe_ok a \<Longrightarrow> fe a \<noteq> 0 \<Longrightarrow> odd (nat (fe (f25519_neg a))) \<noteq> odd (nat (fe a))"
proof -
  assume a: "fe_ok a" "fe a \<noteq> 0"
  have r: "0 \<le> fe a" "fe a < int p25519" using p25519_pos by (simp_all add: fe_def)
  then have "fe (f25519_neg a) = int p25519 - fe a"
    using f25519_neg_fe(1) [OF a(1)] a(2) by (simp add: zmod_zminus1_eq_if)
  then have "nat (fe (f25519_neg a)) + nat (fe a) = p25519" using r by simp
  moreover have "odd p25519" by (simp add: p25519_val)
  ultimately have "odd (nat (fe (f25519_neg a)) + nat (fe a))" by simp
  then show ?thesis by auto
qed

lemma unpack_values:
  assumes len: "length packed = 32" and u: "ed25519_try_unpack packed = (ok, x, y)"
  shows "fe_ok x" "fe_ok y" "el y = unpack_y packed"
    "x = (if (unpack_root packed ! 0 XOR drop_bit 7 (packed ! 31)) AND 1 = 1
          then f25519_neg (unpack_root packed) else unpack_root packed)"
    "ok = (if el x * el x = unpack_x2 packed then 1 else 0)" "fe_ok (unpack_root packed)"
proof -
  let ?y = "packed[31 := packed ! 31 AND 127]"
  let ?c = "f25519_mul__distinct ?y ?y"
  let ?w = "f25519_add (f25519_mul__distinct ?c ed25519_d) f25519_one"
  let ?q = "f25519_mul__distinct (f25519_sub ?c f25519_one) (f25519_inv__distinct ?w)"
  let ?r = "unpack_root packed"
  let ?s = "(?r ! 0 XOR drop_bit 7 (packed ! 31)) AND 1"
  note y = top_bit_cleared [OF len]
  have c: "fe_ok ?c" "el ?c = el ?y * el ?y" using y(2) len by (simp_all add: f25519_mul_fe(2) el_mul)
  have w: "fe_ok ?w" "el ?w = el ?c * gd + 1" using c(1) by (simp_all add: fe_ok_ops el_add el_mul)
  have i: "fe_ok (f25519_inv__distinct ?w)" "el (f25519_inv__distinct ?w) = el ?w ^ (p25519 - 2)"
    using pow_inv [OF w(1)] el_inv [OF w(1)] unfolding pow25519_def by blast+
  have yv: "el ?y = unpack_y packed" by (simp only: el_limbs y(1) unpack_y_def)
  have s1: "fe_ok (f25519_sub ?c f25519_one)" "el (f25519_sub ?c f25519_one) = el ?c - 1"
    using c(1) by (simp_all add: f25519_sub_fe(2) el_sub)
  have q: "fe_ok ?q" using s1(1) i(1) by (simp add: f25519_mul_fe(2))
  have qv: "el ?q = unpack_x2 packed"
    using s1 i by (simp only: el_mul fe_ok_length w(2) c(2) yv unpack_x2_def unpack_den_def)
  have r: "fe_ok ?r" using f25519_sqrt_fe(2) [OF q] by (simp add: unpack_root_def Let_def)
  then show "fe_ok ?r" .
  have sel: "f25519_select ?r (f25519_neg ?r) ?s = (if ?s = 1 then f25519_neg ?r else ?r)"
  proof (rule f25519_select_if)
    show "length ?r = length (f25519_neg ?r)" using r f25519_neg_fe(2) [OF r] by simp
    show "?s = 0 \<or> ?s = 1" using and_1 [of "?r ! 0 XOR drop_bit 7 (packed ! 31)"] by (auto simp: word_unat_eq_iff)
  qed
  have cp: "f25519_copy packed = packed" using len by simp
  have u': "ok = f25519_eq (f25519_normalize (f25519_mul__distinct x x)) (f25519_normalize ?q) \<and>
      x = (if ?s = 1 then f25519_neg ?r else ?r) \<and> y = ?y"
    using u unfolding ed25519_try_unpack_def Let_def cp prod.inject sel [unfolded unpack_root_def Let_def]
      unpack_root_def by (elim conjE; hypsubst) (intro conjI refl)
  then show x: "x = (if ?s = 1 then f25519_neg ?r else ?r)" by blast
  show "fe_ok y" "el y = unpack_y packed" using u' y(2) yv by simp_all
  show xo: "fe_ok x" using x r f25519_neg_fe(2) [OF r] by simp
  have "ok = (if fe (f25519_mul__distinct x x) = fe ?q then 1 else 0)"
    using u' f25519_normal_decides [of "f25519_mul__distinct x x" ?q] xo q by (simp add: f25519_mul_fe(2))
  moreover have "fe (f25519_mul__distinct x x) = fe ?q \<longleftrightarrow> el x * el x = unpack_x2 packed"
    using xo qv by (simp add: el_mul flip: el_eq_iff)
  ultimately show "ok = (if el x * el x = unpack_x2 packed then 1 else 0)" by simp
qed

text \<open>
  The sign of the abscissa is chosen by the lowest bit of the root as it stands in memory. That is the
  parity of the root only when it is normalised: a root that comes out as \<open>r + p\<close> makes the
  function return the other point, still with the verdict 1.
\<close>

lemma xor_parity: "((a XOR b) AND 1 = 1) \<longleftrightarrow> odd (unat a) \<noteq> odd (unat b)" for a b :: u8
proof -
  have "(a XOR b) AND 1 = 1 \<longleftrightarrow> unat ((a XOR b) AND 1) = 1" by (auto simp: word_unat_eq_iff)
  also have "\<dots> \<longleftrightarrow> odd (unat a XOR unat b)" by (simp add: and_1 unsigned_xor_eq mod_2_eq_odd)
  finally show ?thesis by (auto simp: even_xor_iff)
qed

lemma unpack_sign:
  assumes len: "length packed = 32" and u: "ed25519_try_unpack packed = (ok, x, y)" and nz: "fe x \<noteq> 0"
  shows "odd (nat (fe x)) = odd (unat (drop_bit 7 (packed ! 31))) \<longleftrightarrow> limbs (unpack_root packed) < p25519"
proof -
  let ?r = "unpack_root packed" and ?s = "drop_bit 7 (packed ! 31)"
  note v = unpack_values [OF len u]
  have r: "length ?r = 32" "limbs ?r < 2 * p25519" using v(6) by (simp_all add: fe_ok_def)
  have fr: "fe ?r = (if limbs ?r < p25519 then int (limbs ?r) else int (limbs ?r) - int p25519)"
  proof (cases "limbs ?r < p25519")
    case False
    then have "limbs ?r mod p25519 = limbs ?r - p25519" using r(2) by (simp add: mod_if)
    then show ?thesis using False by (simp add: fe_def flip: zmod_int)
  qed (simp add: fe_def)
  have "?r \<noteq> []" using r(1) by auto
  from head_parity [OF this] have h: "odd (unat (?r ! 0)) = odd (limbs ?r)" by (auto simp: mod_2_eq_odd)
  have op: "odd p25519" by (simp add: p25519_val)
  have fo: "odd (nat (fe ?r)) = (odd (limbs ?r) = (limbs ?r < p25519))"
    using fr op by (auto simp: nat_diff_distrib)
  have xv: "x = (if odd (unat (?r ! 0)) \<noteq> odd (unat ?s) then f25519_neg ?r else ?r)" using v(4) by (simp only: xor_parity)
  show ?thesis
  proof (cases "odd (unat (?r ! 0)) = odd (unat ?s)")
    case True
    then show ?thesis using xv h fo by auto
  next
    case False
    then have x: "x = f25519_neg ?r" using xv by simp
    have "fe ?r \<noteq> 0" using nz f25519_neg_fe(1) [OF v(6)] unfolding x by auto
    then have "odd (nat (fe x)) \<noteq> odd (nat (fe ?r))" using gf_odd [OF v(6)] unfolding x by blast
    then show ?thesis using False h fo by auto
  qed
qed

lemma project_ok:
  assumes "fe_ok x" "fe_ok y"
  shows "pt_range (ed25519_project x y)" "gpt_of (ed25519_project x y) = (el x, el y, el x * el y, 1)"
  using assms by (simp_all add: ed25519_project_def pt_range_def gpt_of_def f25519_mul_fe(2) el_mul)

lemma curve_from_square:
  assumes inv: "w * i = (1 :: gf)" and w: "w = y * y * gd + 1"
  shows "x * x = (y * y - 1) * i \<longleftrightarrow> on_curve x y (x * y) 1"
proof -
  have "x * x = (y * y - 1) * i \<longleftrightarrow> x * x * w = y * y - 1"
  proof
    assume "x * x = (y * y - 1) * i"
    then have "x * x * w = (y * y - 1) * (w * i)" by (simp only: ac_simps)
    then show "x * x * w = y * y - 1" by (simp only: inv mult_1_right)
  next
    assume "x * x * w = y * y - 1"
    then have "(y * y - 1) * i = x * x * w * i" by (rule arg_cong [of _ _ "\<lambda>t. t * i", symmetric])
    also have "\<dots> = x * x * (w * i)" by (simp only: mult.assoc)
    finally show "x * x = (y * y - 1) * i" by (simp only: inv mult_1_right)
  qed
  also have "\<dots> \<longleftrightarrow> y * y - x * x = 1 * 1 + gd * (x * y * (x * y))"
    unfolding w by (auto simp: algebra_simps)
  finally show ?thesis by (simp add: on_curve_def)
qed

lemma unpack_curve:
  assumes "length packed = 32" "ed25519_try_unpack packed = (ok, x, y)"
    and "unpack_den packed * unpack_den packed ^ (p25519 - 2) = 1"
  shows "ok = (if pt_ok (ed25519_project x y) then 1 else 0)"
proof -
  note v = unpack_values [OF assms(1,2)]
  have "el x * el x = unpack_x2 packed \<longleftrightarrow> on_curve (el x) (el y) (el x * el y) 1"
    using curve_from_square [OF assms(3) unpack_den_def, of "el x"] by (simp only: unpack_x2_def v(3))
  then have "el x * el x = unpack_x2 packed \<longleftrightarrow> pt_ok (ed25519_project x y)"
    using project_ok [OF v(1,2)] by (simp only: pt_ok_def gpt_on_curve prod.case simp_thms)
  then show ?thesis using v(5) by simp
qed

section \<open>Properties\<close>

text \<open>Adding points is the complete addition law of the curve. For points of the curve, in the range
  of the field code, the sum is in the range and on the curve again (\<open>XY = TZ\<close> and the curve
  equation); its coordinates satisfy the Edwards law \<open>x3 = (x1 y2 + x2 y1) / (1 + d x1 x2 y1 y2)\<close>,
  \<open>y3 = (y1 y2 + x1 x2) / (1 - d x1 x2 y1 y2)\<close> multiplied out; and the separate doubling
  formula gives the sum of a point with itself, up to the common factor \<open>- 4\<close>.\<close>

theorem ed25519_addition_law:
  assumes "pt_ok p" "pt_ok q"
  shows "pt_ok (ed25519_add p q) \<and> pt_ok (ed25519_double p) \<and>
    el (pt_x (ed25519_add p q)) * (el (pt_z p) * el (pt_z q) + gd * (el (pt_t p) * el (pt_t q))) =
      el (pt_z (ed25519_add p q)) * (el (pt_x p) * el (pt_y q) + el (pt_x q) * el (pt_y p)) \<and>
    el (pt_y (ed25519_add p q)) * (el (pt_z p) * el (pt_z q) - gd * (el (pt_t p) * el (pt_t q))) =
      el (pt_z (ed25519_add p q)) * (el (pt_y p) * el (pt_y q) + el (pt_x p) * el (pt_x q)) \<and>
    gpt_of (ed25519_add p p) = gscale (- 4) (gpt_of (ed25519_double p))"
proof (intro conjI)
  have r: "pt_range p" "pt_range q" using assms by (simp_all add: pt_ok_def)
  have g: "(el (pt_x (ed25519_add p q)), el (pt_y (ed25519_add p q)), el (pt_t (ed25519_add p q)),
      el (pt_z (ed25519_add p q))) = gadd (gpt_of p) (gpt_of q)"
    using add_gadd [OF r] by (simp only: gpt_of_def)
  then show "el (pt_x (ed25519_add p q)) * (el (pt_z p) * el (pt_z q) + gd * (el (pt_t p) * el (pt_t q))) =
      el (pt_z (ed25519_add p q)) * (el (pt_x p) * el (pt_y q) + el (pt_x q) * el (pt_y p))"
    unfolding gpt_of_def gadd_def Let_def prod.case prod.inject by (elim conjE) (simp only: ac_simps)
  from g show "el (pt_y (ed25519_add p q)) * (el (pt_z p) * el (pt_z q) - gd * (el (pt_t p) * el (pt_t q))) =
      el (pt_z (ed25519_add p q)) * (el (pt_y p) * el (pt_y q) + el (pt_x p) * el (pt_x q))"
    unfolding gpt_of_def gadd_def Let_def prod.case prod.inject by (elim conjE) (simp only: ac_simps)
  have "on_curve (el (pt_x p)) (el (pt_y p)) (el (pt_t p)) (el (pt_z p))" using assms(1) by (simp add: pt_ok_def pt_on_curve_def)
  from gadd_self [OF this] have "gadd (gpt_of p) (gpt_of p) = gscale (- 4) (gdouble (gpt_of p))"
    by (simp only: gpt_of_def)
  then show "gpt_of (ed25519_add p p) = gscale (- 4) (gpt_of (ed25519_double p))"
    by (simp only: add_gadd [OF r(1) r(1)] double_gdouble [OF r(1)])
qed (use assms add_pt_ok double_pt_ok in blast)+

theorem ed25519_addition_law_witness:
  "pt_ok (ed25519_add ed25519_base ed25519_neutral) \<and>
   gpt_of (ed25519_add ed25519_base ed25519_base) = gscale (- 4) (gpt_of (ed25519_double ed25519_base))"
  using ed25519_addition_law [OF base_ok neutral_ok] by blast

text \<open>Scalar multiplication is double-and-add over all 256 bits of the scalar. Whatever the 32 bytes of
  the scalar, the result is the textbook recursion on its value, and it stays on the curve; the
  selection without branches picks the sum exactly when the bit is set.\<close>

theorem ed25519_smult_is_double_and_add:
  assumes "pt_ok p" "length e = 32"
  shows "gpt_of (ed25519_smult p e) = gmult 256 (limbs e) (gpt_of p) \<and> pt_ok (ed25519_smult p e)"
  using smult_gmult [of p e] smult_pt_ok [of p e] assms by (simp add: pt_ok_def)

theorem ed25519_smult_is_double_and_add_witness:
  "gpt_of (ed25519_smult ed25519_base (5 # replicate 31 0)) = gmult 256 5 (gpt_of ed25519_base) \<and>
   pt_ok (ed25519_smult ed25519_base (5 # replicate 31 0))"
  using ed25519_smult_is_double_and_add [OF base_ok, of "5 # replicate 31 0"] by simp

text \<open>Decompression accepts exactly the points of the curve. When \<open>1 + d y^2\<close> is inverted by its
  power \<open>p - 2\<close> (it always is for a prime \<open>p\<close>), the verdict is 1 if the point returned is on the curve
  and 0 otherwise, and the ordinate is the low 255 bits of the encoding, taken modulo \<open>p\<close>.\<close>

theorem unpack_accepts_curve_points:
  assumes "length packed = 32" "ed25519_try_unpack packed = (ok, x, y)"
    and "unpack_den packed * unpack_den packed ^ (p25519 - 2) = 1"
  shows "ok = (if pt_ok (ed25519_project x y) then 1 else 0) \<and> el y = of_nat (limbs packed mod 2 ^ 255)"
  using unpack_curve [OF assms] unpack_values(3) [OF assms(1,2)] by (simp only: unpack_y_def simp_thms)

theorem unpack_accepts_curve_points_witness:
  "\<exists>ok x y. ed25519_try_unpack (replicate 32 0) = (ok, x, y) \<and>
     ok = (if pt_ok (ed25519_project x y) then 1 else 0) \<and> el y = 0"
proof -
  obtain ok x y where u: "ed25519_try_unpack (replicate 32 0) = (ok, x, y)"
    by (cases "ed25519_try_unpack (replicate 32 0)") auto
  have "unpack_den (replicate 32 0) = 1" unfolding unpack_den_def unpack_y_def limbs_replicate_0 by simp
  then have d: "unpack_den (replicate 32 0) * unpack_den (replicate 32 0) ^ (p25519 - 2) = 1"
    by (simp only: power_one mult_1_right)
  have "ok = (if pt_ok (ed25519_project x y) then 1 else 0) \<and> el y = of_nat (limbs (replicate 32 (0 :: u8)) mod 2 ^ 255)"
    by (rule unpack_accepts_curve_points [OF _ u d]) (rule length_replicate)
  then have "ok = (if pt_ok (ed25519_project x y) then 1 else 0) \<and> el y = 0"
    unfolding limbs_replicate_0 mod_0 by simp
  then show ?thesis using u by blast
qed

end
