(* ===== verification/Sha512.thy ===== *)
theory Sha512
  imports Fips_Roots
begin

text \<open>
  SHA-512 as the signature scheme uses it: src/utils/crypto/compact25519/c25519/sha512.c and sha512.h,
  with the FIPS 180-4 definition (message schedule, rounds, padding, chaining) they are shown to compute.
  The code keeps the schedule in a ring of 16 words; the definition has all 80. \<open>size_t\<close> has the 32 bits
  of the Cortex-M parts.
\<close>

section \<open>Tables and words\<close>

definition sha512_initial_state :: "u64 list" where
  "sha512_initial_state =
     [0x6a09e667f3bcc908, 0xbb67ae8584caa73b,
      0x3c6ef372fe94f82b, 0xa54ff53a5f1d36f1,
      0x510e527fade682d1, 0x9b05688c2b3e6c1f,
      0x1f83d9abfb41bd6b, 0x5be0cd19137e2179]"

text \<open>The round constants, eight at a time.\<close>

definition round_k_row0 :: "u64 list" where
  "round_k_row0 =
     [0x428a2f98d728ae22, 0x7137449123ef65cd, 0xb5c0fbcfec4d3b2f, 0xe9b5dba58189dbbc,
      0x3956c25bf348b538, 0x59f111f1b605d019, 0x923f82a4af194f9b, 0xab1c5ed5da6d8118]"

definition round_k_row1 :: "u64 list" where
  "round_k_row1 =
     [0xd807aa98a3030242, 0x12835b0145706fbe, 0x243185be4ee4b28c, 0x550c7dc3d5ffb4e2,
      0x72be5d74f27b896f, 0x80deb1fe3b1696b1, 0x9bdc06a725c71235, 0xc19bf174cf692694]"

definition round_k_row2 :: "u64 list" where
  "round_k_row2 =
     [0xe49b69c19ef14ad2, 0xefbe4786384f25e3, 0x0fc19dc68b8cd5b5, 0x240ca1cc77ac9c65,
      0x2de92c6f592b0275, 0x4a7484aa6ea6e483, 0x5cb0a9dcbd41fbd4, 0x76f988da831153b5]"

definition round_k_row3 :: "u64 list" where
  "round_k_row3 =
     [0x983e5152ee66dfab, 0xa831c66d2db43210, 0xb00327c898fb213f, 0xbf597fc7beef0ee4,
      0xc6e00bf33da88fc2, 0xd5a79147930aa725, 0x06ca6351e003826f, 0x142929670a0e6e70]"

definition round_k_row4 :: "u64 list" where
  "round_k_row4 =
     [0x27b70a8546d22ffc, 0x2e1b21385c26c926, 0x4d2c6dfc5ac42aed, 0x53380d139d95b3df,
      0x650a73548baf63de, 0x766a0abb3c77b2a8, 0x81c2c92e47edaee6, 0x92722c851482353b]"

definition round_k_row5 :: "u64 list" where
  "round_k_row5 =
     [0xa2bfe8a14cf10364, 0xa81a664bbc423001, 0xc24b8b70d0f89791, 0xc76c51a30654be30,
      0xd192e819d6ef5218, 0xd69906245565a910, 0xf40e35855771202a, 0x106aa07032bbd1b8]"

definition round_k_row6 :: "u64 list" where
  "round_k_row6 =
     [0x19a4c116b8d2d0c8, 0x1e376c085141ab53, 0x2748774cdf8eeb99, 0x34b0bcb5e19b48a8,
      0x391c0cb3c5c95a63, 0x4ed8aa4ae3418acb, 0x5b9cca4f7763e373, 0x682e6ff3d6b2b8a3]"

definition round_k_row7 :: "u64 list" where
  "round_k_row7 =
     [0x748f82ee5defb2fc, 0x78a5636f43172f60, 0x84c87814a1f0ab72, 0x8cc702081a6439ec,
      0x90befffa23631e28, 0xa4506cebde82bde9, 0xbef9a3f7b2c67915, 0xc67178f2e372532b]"

definition round_k_row8 :: "u64 list" where
  "round_k_row8 =
     [0xca273eceea26619c, 0xd186b8c721c0c207, 0xeada7dd6cde0eb1e, 0xf57d4f7fee6ed178,
      0x06f067aa72176fba, 0x0a637dc5a2c898a6, 0x113f9804bef90dae, 0x1b710b35131c471b]"

definition round_k_row9 :: "u64 list" where
  "round_k_row9 =
     [0x28db77f523047d84, 0x32caab7b40c72493, 0x3c9ebe0a15c9bebc, 0x431d67c49c100d4c,
      0x4cc5d4becb3e42b6, 0x597f299cfc657e2a, 0x5fcb6fab3ad6faec, 0x6c44198c4a475817]"

definition round_k :: "u64 list" where
  "round_k =
     round_k_row0 @ round_k_row1 @ round_k_row2 @ round_k_row3 @ round_k_row4 @
     round_k_row5 @ round_k_row6 @ round_k_row7 @ round_k_row8 @ round_k_row9"

definition load64 :: "u8 list \<Rightarrow> u64" where
  "load64 x = foldl (\<lambda>r b. push_bit 8 r OR ucast b) (ucast (x ! 0)) (map (nth x) [1..<8])"

text \<open>The low byte first, from the last position down.\<close>

primrec store64_down :: "nat \<Rightarrow> u64 \<Rightarrow> u8 list" where
  "store64_down 0 v = []"
| "store64_down (Suc n) v = store64_down n (drop_bit 8 v) @ [ucast v]"

definition store64 :: "u64 \<Rightarrow> u8 list" where
  "store64 v = store64_down 8 v"

definition rot64 :: "u64 \<Rightarrow> nat \<Rightarrow> u64" where
  "rot64 x bits = drop_bit bits x OR push_bit (64 - bits) x"

section \<open>One block\<close>

record sha512_regs =
  ra :: u64
  rb :: u64
  rc :: u64
  rd :: u64
  re :: u64
  rf :: u64
  rg :: u64
  rh :: u64

definition regs_load :: "u64 list \<Rightarrow> sha512_regs" where
  "regs_load h = \<lparr>ra = h ! 0, rb = h ! 1, rc = h ! 2, rd = h ! 3, re = h ! 4, rf = h ! 5, rg = h ! 6,
     rh = h ! 7\<rparr>"

definition regs_store :: "u64 list \<Rightarrow> sha512_regs \<Rightarrow> u64 list" where
  "regs_store h r = [h ! 0 + ra r, h ! 1 + rb r, h ! 2 + rc r, h ! 3 + rd r, h ! 4 + re r, h ! 5 + rf r,
     h ! 6 + rg r, h ! 7 + rh r]"

text \<open>The body of the loop: \<open>wi\<close> is the schedule's word \<open>i\<close>, its slot gets word \<open>i + 16\<close>.\<close>

definition sha512_round :: "nat \<Rightarrow> u64 \<Rightarrow> sha512_regs \<Rightarrow> sha512_regs" where
  "sha512_round i wi r =
     (let S0 = rot64 (ra r) 28 XOR rot64 (ra r) 34 XOR rot64 (ra r) 39;
          S1 = rot64 (re r) 14 XOR rot64 (re r) 18 XOR rot64 (re r) 41;
          ch = (re r AND rf r) XOR (NOT (re r) AND rg r);
          temp1 = rh r + S1 + ch + round_k ! i + wi;
          maj = (ra r AND rb r) XOR (ra r AND rc r) XOR (rb r AND rc r);
          temp2 = S0 + maj
      in \<lparr>ra = temp1 + temp2, rb = ra r, rc = rb r, rd = rc r, re = rd r + temp1, rf = re r, rg = rf r,
          rh = rg r\<rparr>)"

definition sha512_step :: "u64 list \<times> sha512_regs \<Rightarrow> nat \<Rightarrow> u64 list \<times> sha512_regs" where
  "sha512_step st i =
     (let (w, r) = st;
          wi = w ! (i mod 16);
          wi15 = w ! ((i + 1) mod 16);
          wi2 = w ! ((i + 14) mod 16);
          wi7 = w ! ((i + 9) mod 16);
          s0 = rot64 wi15 1 XOR rot64 wi15 8 XOR drop_bit 7 wi15;
          s1 = rot64 wi2 19 XOR rot64 wi2 61 XOR drop_bit 6 wi2
      in (w[i mod 16 := wi + s0 + wi7 + s1], sha512_round i wi r))"

definition sha512_block :: "u64 list \<Rightarrow> u8 list \<Rightarrow> u64 list" where
  "sha512_block h blk =
     (let w = map (\<lambda>i. load64 (drop (8 * i) blk)) [0..<16];
          (w, r) = foldl sha512_step (w, regs_load h) [0..<80]
      in regs_store h r)"

section \<open>The end of the message and the result\<close>

definition sha512_init :: "u64 list" where
  "sha512_init = sha512_initial_state"

definition sha512_final :: "u64 list \<Rightarrow> u8 list \<Rightarrow> u32 \<Rightarrow> u64 list" where
  "sha512_final h blk total_size =
     (let last_size = unat (total_size AND (128 - 1));
          temp = (if last_size \<noteq> 0 then take last_size blk @ replicate (128 - last_size) 0
                  else replicate 128 0);
          temp = temp[last_size := 0x80];
          (h, temp) = (if 111 < last_size then (sha512_block h temp, replicate 128 0) else (h, temp));
          temp = take 120 temp @ store64 (ucast (push_bit 3 total_size))
      in sha512_block h temp)"

text \<open>
  The whole-word loop of \<open>sha512_get\<close> and the bytes after it, from word \<open>i\<close> on. \<open>None\<close> is a read
  past the eight words of the state.
\<close>

fun sha512_get_words :: "u64 list \<Rightarrow> nat \<Rightarrow> nat \<Rightarrow> u8 list option" where
  "sha512_get_words h i len =
     (if len = 0 then Some []
      else if length h \<le> i then None
      else if 8 \<le> len then map_option ((@) (store64 (h ! i))) (sha512_get_words h (i + 1) (len - 8))
      else Some (take len (store64 (h ! i))))"

declare sha512_get_words.simps [simp del]

definition sha512_get :: "u64 list \<Rightarrow> nat \<Rightarrow> nat \<Rightarrow> u8 list option" where
  "sha512_get h offset len =
     (if 128 < offset then Some []
      else
        let len = (if 128 - offset < len then 128 - offset else len);
            i = offset div 8;
            offset = offset mod 8
        in if offset \<noteq> 0
           then let c = (if len < 8 - offset then len else 8 - offset)
                in if length h \<le> i then None
                   else map_option ((@) (take c (drop offset (store64 (h ! i)))))
                          (sha512_get_words h (i + 1) (len - c))
           else sha512_get_words h i len)"

section \<open>SHA-512 as FIPS 180-4 defines it\<close>

definition fips512_word :: "u8 list \<Rightarrow> u64" where
  "fips512_word bs = word_of_nat (be_number bs)"

definition Sigma0_512 :: "u64 \<Rightarrow> u64" where
  "Sigma0_512 x = word_rotr 28 x XOR word_rotr 34 x XOR word_rotr 39 x"

definition Sigma1_512 :: "u64 \<Rightarrow> u64" where
  "Sigma1_512 x = word_rotr 14 x XOR word_rotr 18 x XOR word_rotr 41 x"

definition sigma0_512 :: "u64 \<Rightarrow> u64" where
  "sigma0_512 x = word_rotr 1 x XOR word_rotr 8 x XOR drop_bit 7 x"

definition sigma1_512 :: "u64 \<Rightarrow> u64" where
  "sigma1_512 x = word_rotr 19 x XOR word_rotr 61 x XOR drop_bit 6 x"

text \<open>Cube roots of the first 80 primes, square roots of the first 8 (theory Fips_Roots).\<close>

definition fips512_K :: "nat \<Rightarrow> u64" where
  "fips512_K t = root_bits 3 (first_primes ! t)"

definition fips512_IV :: "u64 list" where
  "fips512_IV = map (root_bits 2) (take 8 first_primes)"

fun fips512_W :: "u8 list \<Rightarrow> nat \<Rightarrow> u64" where
  "fips512_W M t =
     (if t < 16 then fips512_word (take 8 (drop (8 * t) M))
      else sigma1_512 (fips512_W M (t - 2)) + fips512_W M (t - 7) + sigma0_512 (fips512_W M (t - 15)) +
        fips512_W M (t - 16))"

declare fips512_W.simps [simp del]

definition fips512_round :: "u8 list \<Rightarrow> sha512_regs \<Rightarrow> nat \<Rightarrow> sha512_regs" where
  "fips512_round M r t =
     (let T1 = rh r + Sigma1_512 (re r) + ((re r AND rf r) XOR (NOT (re r) AND rg r)) + fips512_K t +
            fips512_W M t;
          T2 = Sigma0_512 (ra r) + ((ra r AND rb r) XOR (ra r AND rc r) XOR (rb r AND rc r))
      in \<lparr>ra = T1 + T2, rb = ra r, rc = rb r, rd = rc r, re = rd r + T1, rf = re r, rg = rf r, rh = rg r\<rparr>)"

definition fips512_compress :: "u64 list \<Rightarrow> u8 list \<Rightarrow> u64 list" where
  "fips512_compress H M = regs_store H (foldl (fips512_round M) (regs_load H) [0..<80])"

function fips512_blocks :: "u64 list \<Rightarrow> u8 list \<Rightarrow> u64 list" where
  "fips512_blocks H bs =
     (if length bs < 128 then H else fips512_blocks (fips512_compress H (take 128 bs)) (drop 128 bs))"
  by pat_completeness auto
termination
  by (relation "measure (\<lambda>(H, bs). length bs)") auto

declare fips512_blocks.simps [simp del]

text \<open>A one bit, the fewest zeros that leave 16 bytes of a block, the length in bits in 128 bits.\<close>

definition fips512_pad :: "u8 list \<Rightarrow> nat \<Rightarrow> u8 list" where
  "fips512_pad msg n = msg @ 0x80 # replicate ((239 - length msg mod 128) mod 128) 0 @
     be_digits 16 (8 * n)"

definition fips_sha512 :: "u8 list \<Rightarrow> u8 list" where
  "fips_sha512 msg =
     concat (map (\<lambda>w. be_digits 8 (unat w))
       (fips512_blocks fips512_IV (fips512_pad msg (length msg))))"

section \<open>The code's tables are those of the standard\<close>

lemma initial_state_fips: "sha512_initial_state = fips512_IV"
  unfolding fips512_IV_def
  by (rule root_table_sound [of _ "[1, 1, 2, 2, 3, 3, 4, 4]", symmetric])
     (simp_all add: first_primes_eq sha512_initial_state_def)

lemma round_k_rows:
  "map (root_bits 3) [2, 3, 5, 7, 11, 13, 17, 19] = round_k_row0"
  "map (root_bits 3) [23, 29, 31, 37, 41, 43, 47, 53] = round_k_row1"
  "map (root_bits 3) [59, 61, 67, 71, 73, 79, 83, 89] = round_k_row2"
  "map (root_bits 3) [97, 101, 103, 107, 109, 113, 127, 131] = round_k_row3"
  "map (root_bits 3) [137, 139, 149, 151, 157, 163, 167, 173] = round_k_row4"
  "map (root_bits 3) [179, 181, 191, 193, 197, 199, 211, 223] = round_k_row5"
  "map (root_bits 3) [227, 229, 233, 239, 241, 251, 257, 263] = round_k_row6"
  "map (root_bits 3) [269, 271, 277, 281, 283, 293, 307, 311] = round_k_row7"
  "map (root_bits 3) [313, 317, 331, 337, 347, 349, 353, 359] = round_k_row8"
  "map (root_bits 3) [367, 373, 379, 383, 389, 397, 401, 409] = round_k_row9"
  subgoal by (rule root_table_sound [of _ "[1, 1, 1, 1, 2, 2, 2, 2]"]) (simp_all add: round_k_row0_def)
  subgoal by (rule root_table_sound [of _ "[2, 3, 3, 3, 3, 3, 3, 3]"]) (simp_all add: round_k_row1_def)
  subgoal by (rule root_table_sound [of _ "[3, 3, 4, 4, 4, 4, 4, 4]"]) (simp_all add: round_k_row2_def)
  subgoal by (rule root_table_sound [of _ "[4, 4, 4, 4, 4, 4, 5, 5]"]) (simp_all add: round_k_row3_def)
  subgoal by (rule root_table_sound [of _ "[5, 5, 5, 5, 5, 5, 5, 5]"]) (simp_all add: round_k_row4_def)
  subgoal by (rule root_table_sound [of _ "[5, 5, 5, 5, 5, 5, 5, 6]"]) (simp_all add: round_k_row5_def)
  subgoal by (rule root_table_sound [of _ "[6, 6, 6, 6, 6, 6, 6, 6]"]) (simp_all add: round_k_row6_def)
  subgoal by (rule root_table_sound [of _ "[6, 6, 6, 6, 6, 6, 6, 6]"]) (simp_all add: round_k_row7_def)
  subgoal by (rule root_table_sound [of _ "[6, 6, 6, 6, 7, 7, 7, 7]"]) (simp_all add: round_k_row8_def)
  subgoal by (rule root_table_sound [of _ "[7, 7, 7, 7, 7, 7, 7, 7]"]) (simp_all add: round_k_row9_def)
  done

lemma round_k_table: "map (root_bits 3) first_primes = round_k"
  by (simp only: round_k_def round_k_rows [symmetric] map_append [symmetric] append.simps first_primes_eq)

lemma round_k_fips: "t < 80 \<Longrightarrow> round_k ! t = fips512_K t"
  by (simp add: fips512_K_def flip: round_k_table)

lemmas fips_sha512_start = fips_sha512_def [folded initial_state_fips]

section \<open>Words\<close>

lemma rot64_rotr: "0 < n \<Longrightarrow> n < 64 \<Longrightarrow> rot64 x n = word_rotr n x"
proof (rule bit_word_eqI)
  fix k assume n: "0 < n" "n < 64" and k: "k < LENGTH(64)"
  show "bit (rot64 x n) k = bit (word_rotr n x) k"
  proof (cases "k + n < 64")
    case True
    then show ?thesis using n k by (auto simp: rot64_def bit_simps add.commute [of n k])
  next
    case False
    then have "(k + n) mod 64 = k - (64 - n)" using n k by (simp add: mod_if)
    then show ?thesis using n k False bit_imp_le_length [of x "n + k"] by (auto simp: rot64_def bit_simps add.commute)
  qed
qed

lemma shift_or_plus: "push_bit 8 r OR ucast b = 256 * r + ucast (b :: u8)" for r :: u64
proof -
  have "push_bit 8 r AND (ucast b :: u64) = 0"
    by (rule bit_word_eqI) (auto simp: bit_simps dest: bit_imp_le_length)
  then have "push_bit 8 r OR ucast b = push_bit 8 r + ucast b" by (simp add: disjunctive_add_eq_or)
  then show ?thesis by (simp add: push_bit_eq_mult mult.commute)
qed

lemma load_fold:
  "foldl (\<lambda>r b. push_bit 8 r OR ucast b) (word_of_nat n :: u64) bs =
     word_of_nat (foldl (\<lambda>n b. 256 * n + unat (b :: u8)) n bs)"
proof (induction bs arbitrary: n)
  case (Cons b bs)
  have "push_bit 8 (word_of_nat n) OR ucast b = (word_of_nat (256 * n + unat b) :: u64)"
    by (simp add: shift_or_plus)
  then show ?case by (simp only: foldl_Cons Cons.IH)
qed simp

lemma load64_fips: "8 \<le> length x \<Longrightarrow> load64 x = fips512_word (take 8 x)"
proof -
  assume "8 \<le> length x"
  then have "take 8 x = x ! 0 # map (nth x) [1..<8]" by (intro nth_equalityI) (auto simp: nth_Cons split: nat.split)
  moreover have "ucast (x ! 0) = (word_of_nat (unat (x ! 0)) :: u64)" by simp
  ultimately show ?thesis by (simp add: load64_def fips512_word_def be_number_def load_fold del: of_nat_unat)
qed

lemma store_down: "store64_down n v = map (\<lambda>i. word_of_nat (unat v div 256 ^ (n - 1 - i))) [0..<n]"
proof (induction n arbitrary: v)
  case (Suc n)
  have "unat (drop_bit 8 v) = unat v div 256" by (subst unat_drop_bit_eq) (simp add: drop_bit_eq_div)
  then have "store64_down n (drop_bit 8 v) = map (\<lambda>i. word_of_nat (unat v div 256 ^ (n - i))) [0..<n]"
    unfolding Suc.IH by (auto simp: div_mult2_eq [symmetric] Suc_diff_Suc simp flip: power_Suc)
  then show ?case by simp
qed simp

lemma store64_fips: "store64 v = be_digits 8 (unat v)"
  by (simp only: store64_def store_down be_digits_def)

section \<open>The ring and the schedule\<close>

text \<open>\<open>w\<close> holds words \<open>i\<close> to \<open>i + 15\<close> of the schedule, word \<open>t\<close> in slot \<open>t mod 16\<close>.\<close>

definition ring_at :: "u8 list \<Rightarrow> nat \<Rightarrow> u64 list \<Rightarrow> bool" where
  "ring_at M i w \<longleftrightarrow> length w = 16 \<and> (\<forall>t. i \<le> t \<longrightarrow> t < i + 16 \<longrightarrow> w ! (t mod 16) = fips512_W M t)"

lemma ring_slot: "ring_at M i w \<Longrightarrow> k < 16 \<Longrightarrow> w ! ((i + k) mod 16) = fips512_W M (i + k)"
  by (simp add: ring_at_def)

lemma ring_init:
  assumes "128 \<le> length M"
  shows "ring_at M 0 (map (\<lambda>i. load64 (drop (8 * i) M)) [0..<16])"
  using assms by (auto simp: ring_at_def load64_fips fips512_W.simps)

lemma W_next: "fips512_W M (i + 16) =
    fips512_W M i + sigma0_512 (fips512_W M (i + 1)) + fips512_W M (i + 9) + sigma1_512 (fips512_W M (i + 14))"
proof -
  have "i + 16 - 2 = i + 14" "i + 16 - 7 = i + 9" "i + 16 - 15 = i + 1" "i + 16 - 16 = i" by simp_all
  then show ?thesis by (subst fips512_W.simps) (simp add: algebra_simps)
qed

lemma mod_16_eq: "i \<le> t \<Longrightarrow> t < i + 16 \<Longrightarrow> t mod 16 = i mod 16 \<Longrightarrow> t = (i :: nat)"
  using mod_eq_dvd_iff_nat [of i t 16] by (auto dest: dvd_imp_le)

lemma step_fips:
  assumes r: "ring_at M i w" and i: "i < 80"
  shows "\<exists>w'. sha512_step (w, r) i = (w', fips512_round M r i) \<and> ring_at M (i + 1) w'"
proof -
  have wi: "w ! (i mod 16) = fips512_W M i" using ring_slot [OF r, of 0] by simp
  have ws: "w ! ((i + 1) mod 16) = fips512_W M (i + 1)" "w ! ((i + 14) mod 16) = fips512_W M (i + 14)"
    "w ! ((i + 9) mod 16) = fips512_W M (i + 9)"
    by (rule ring_slot [OF r], simp)+
  let ?w = "w[i mod 16 := fips512_W M (i + 16)]"
  have "ring_at M (i + 1) ?w"
    unfolding ring_at_def
  proof (intro conjI allI impI)
    fix t assume t: "i + 1 \<le> t" "t < i + 1 + 16"
    show "?w ! (t mod 16) = fips512_W M t"
    proof (cases "t = i + 16")
      case True
      then show ?thesis using r by (simp add: ring_at_def)
    next
      case False
      then have "t mod 16 \<noteq> i mod 16" using t mod_16_eq [of i t] by auto
      then show ?thesis using r t False by (simp add: ring_at_def)
    qed
  qed (use r in \<open>simp add: ring_at_def\<close>)
  moreover have "sha512_round i (fips512_W M i) r = fips512_round M r i"
    using i by (simp add: sha512_round_def fips512_round_def rot64_rotr Sigma0_512_def Sigma1_512_def round_k_fips)
  ultimately show ?thesis
    by (simp add: sha512_step_def Let_def wi ws [simplified] W_next rot64_rotr sigma0_512_def sigma1_512_def)
qed

lemma steps_fips:
  assumes "ring_at M 0 w" and "n \<le> 80"
  shows "\<exists>w'. foldl sha512_step (w, r) [0..<n] = (w', foldl (fips512_round M) r [0..<n]) \<and> ring_at M n w'"
  using assms(2)
proof (induction n)
  case 0
  show ?case using assms by simp
next
  case (Suc n)
  then obtain w' where "foldl sha512_step (w, r) [0..<n] = (w', foldl (fips512_round M) r [0..<n])"
    "ring_at M n w'" by (auto dest: Suc_leD)
  then show ?case using step_fips [of M n w'] Suc.prems by simp
qed

lemma sha512_block_fips: "128 \<le> length M \<Longrightarrow> sha512_block h M = fips512_compress h M"
  using steps_fips [OF ring_init, of M 80 "regs_load h"]
  by (auto simp: sha512_block_def fips512_compress_def Let_def)

lemma fips512_W_take:
  assumes "128 \<le> length bs"
  shows "fips512_W (take 128 bs) t = fips512_W bs t"
proof (induction t rule: less_induct)
  case (less t)
  then show ?case using assms by (subst (1 2) fips512_W.simps) (simp add: drop_take min_def)
qed

lemma fips512_compress_take: "128 \<le> length bs \<Longrightarrow> fips512_compress H (take 128 bs) = fips512_compress H bs"
proof -
  assume "128 \<le> length bs"
  then have "fips512_round (take 128 bs) = fips512_round bs"
    by (intro ext) (simp add: fips512_round_def fips512_W_take)
  then show ?thesis by (simp add: fips512_compress_def)
qed

section \<open>Blocks and padding\<close>

lemma fips512_blocks_append:
  "length a mod 128 = 0 \<Longrightarrow> fips512_blocks H (a @ b) = fips512_blocks (fips512_blocks H a) b"
proof (induction "length a" arbitrary: H a rule: less_induct)
  case less
  show ?case
  proof (cases "length a < 128")
    case True
    then have "a = []" using less.prems by simp
    then show ?thesis by (simp add: fips512_blocks.simps [of _ "[]"])
  next
    case False
    then have "fips512_blocks (fips512_compress H (take 128 a)) (drop 128 a @ b) =
        fips512_blocks (fips512_blocks (fips512_compress H (take 128 a)) (drop 128 a)) b"
      using less.prems by (intro less.hyps) (auto simp: le_mod_geq)
    then show ?thesis
      using False by (simp add: fips512_blocks.simps [of H "a @ b"] fips512_blocks.simps [of H a])
  qed
qed

lemma fips512_blocks_one: "length b = 128 \<Longrightarrow> fips512_blocks H b = fips512_compress H b"
  by (simp add: fips512_blocks.simps)

lemma fips512_blocks_two:
  "length a = 128 \<Longrightarrow> length b = 128 \<Longrightarrow> fips512_blocks H (a @ b) = fips512_compress (fips512_compress H a) b"
  by (simp add: fips512_blocks_append fips512_blocks_one)

text \<open>The length of the message, below 512 MB, fits the eight bytes the code writes.\<close>

lemma length_field:
  assumes "n < 2 ^ 29"
  shows "be_digits 16 (8 * n) = replicate 8 0 @ store64 (ucast (push_bit 3 (word_of_nat n :: u32)))"
proof -
  have u: "unat (ucast (push_bit 3 (word_of_nat n :: u32)) :: u64) = 8 * n"
    using assms by (simp add: push_bit_eq_mult unat_word_ariths unsigned_ucast_eq unsigned_of_nat
        take_bit_nat_eq_self mult.commute)
  have sp: "[0..<16] = [0..<8] @ [8..<16]" using upt_add_eq_append [of 0 8 8] by simp
  have "be_digits 16 (8 * n) = map (\<lambda>i. word_of_nat (8 * n div 256 ^ (15 - i))) ([0..<8] @ [8..<16])"
    unfolding be_digits_def sp by (intro map_cong) auto
  moreover have "map (\<lambda>i. word_of_nat (8 * n div 256 ^ (15 - i))) [0..<8] = replicate 8 (0 :: u8)"
  proof (rule replicate_eqI)
    fix y :: u8 assume "y \<in> set (map (\<lambda>i. word_of_nat (8 * n div 256 ^ (15 - i))) [0..<8])"
    then obtain i where i: "i < 8" "y = word_of_nat (8 * n div 256 ^ (15 - i))" by auto
    have "(256 :: nat) ^ 8 \<le> 256 ^ (15 - i)" using i by (intro power_increasing) auto
    then have "8 * n div 256 ^ (15 - i) = 0" using assms by (intro div_less) simp
    then show "y = 0" using i by simp
  qed simp
  moreover have "map (\<lambda>i. word_of_nat (8 * n div 256 ^ (15 - i))) [8..<16] = be_digits 8 (8 * n)"
    by (simp add: be_digits_def upt_rec)
  ultimately show ?thesis by (simp add: store64_fips u)
qed

lemma pad_short: "length t < 112 \<Longrightarrow> fips512_pad t n = t @ 0x80 # replicate (111 - length t) 0 @ be_digits 16 (8 * n)"
  by (simp add: fips512_pad_def mod_if)

lemma pad_long:
  "112 \<le> length t \<Longrightarrow> length t < 128 \<Longrightarrow>
   fips512_pad t n = (t @ 0x80 # replicate (127 - length t) 0) @ replicate 112 0 @ be_digits 16 (8 * n)"
proof -
  assume t: "112 \<le> length t" "length t < 128"
  then have "replicate (239 - length t) (0 :: u8) = replicate (127 - length t) 0 @ replicate 112 0"
    by (simp flip: replicate_add)
  then show ?thesis using t by (simp add: fips512_pad_def)
qed

lemma sha512_final_fips:
  assumes n: "n < 2 ^ 29" and b: "n mod 128 \<le> length blk"
  shows "sha512_final h blk (word_of_nat n) = fips512_blocks h (fips512_pad (take (n mod 128) blk) n)"
proof -
  let ?t = "take (n mod 128) blk" and ?l = "n mod 128"
  have l: "unat (word_of_nat n AND (128 - 1) :: u32) = ?l"
    using n by (simp add: and_127 unsigned_of_nat take_bit_nat_eq_self)
  have lt: "?l < 128" "length ?t = ?l" using b by simp_all
  have rs: "replicate (128 - ?l) (0 :: u8) = 0 # replicate (127 - ?l) 0"
    using lt by (simp add: Suc_diff_Suc flip: replicate_Suc)
  have temp: "(if ?l \<noteq> 0 then ?t @ replicate (128 - ?l) 0 else replicate 128 0)[?l := 0x80] =
      ?t @ 0x80 # replicate (127 - ?l) 0"
    using lt rs by (cases "?l = 0") (simp_all add: list_update_append)
  let ?f = "store64 (ucast (push_bit 3 (word_of_nat n :: u32)))"
  note len = length_field [OF n]
  have lf: "length ?f = 8" by (simp add: store64_fips)
  show ?thesis
  proof (cases "111 < ?l")
    case True
    have z: "replicate 120 0 @ ?f = replicate 112 0 @ be_digits 16 (8 * n)"
      by (simp add: len flip: replicate_add append_assoc)
    have "fips512_blocks h (fips512_pad ?t n) =
        fips512_compress (fips512_compress h (?t @ 0x80 # replicate (127 - ?l) 0)) (replicate 112 0 @ be_digits 16 (8 * n))"
      using True lt by (subst pad_long) (simp_all add: fips512_blocks_two del: append.simps append_assoc)
    then show ?thesis using True lt lf unfolding sha512_final_def Let_def l temp
      by (simp add: z sha512_block_fips)
  next
    case False
    have "take 120 (?t @ 0x80 # replicate (127 - ?l) 0) @ ?f = ?t @ 0x80 # replicate (111 - ?l) 0 @ be_digits 16 (8 * n)"
      using False lt by (simp add: len take_Cons' flip: replicate_add append_assoc)
    then show ?thesis using False lt lf unfolding sha512_final_def Let_def l temp
      by (simp add: pad_short sha512_block_fips fips512_blocks_one)
  qed
qed

section \<open>The digest\<close>

definition digest_bytes :: "u64 list \<Rightarrow> u8 list" where
  "digest_bytes h = concat (map (\<lambda>w. be_digits 8 (unat w)) h)"

lemma digest_length: "length (digest_bytes h) = 8 * length h"
  by (induction h) (simp_all add: digest_bytes_def)

lemma regs_store_length [simp]: "length (regs_store h r) = 8"
  by (simp add: regs_store_def)

lemma fips512_blocks_length: "length h = 8 \<Longrightarrow> length (fips512_blocks h bs) = 8"
proof (induction h bs rule: fips512_blocks.induct)
  case (1 h bs)
  then show ?case by (subst fips512_blocks.simps) (simp add: fips512_compress_def)
qed

lemma fips_sha512_length [simp]: "length (fips_sha512 msg) = 64"
  using digest_length [of "fips512_blocks sha512_initial_state (fips512_pad msg (length msg))"]
    fips512_blocks_length [of sha512_initial_state]
  by (simp add: fips_sha512_start digest_bytes_def sha512_initial_state_def)

lemma digest_drop: "i < length h \<Longrightarrow> digest_bytes (drop i h) = store64 (h ! i) @ digest_bytes (drop (i + 1) h)"
  by (simp add: digest_bytes_def store64_fips flip: Cons_nth_drop_Suc)

lemma get_words_digest:
  "length h = 8 \<Longrightarrow>
   sha512_get_words h i len = (if len \<le> 64 - 8 * i then Some (take len (digest_bytes (drop i h))) else None)"
proof (induction h i len rule: sha512_get_words.induct)
  case (1 h i len)
  show ?case
  proof (cases "i < 8")
    case True
    then have d: "digest_bytes (drop i h) = store64 (h ! i) @ digest_bytes (drop (i + 1) h)"
      using 1(2) by (intro digest_drop) simp
    then show ?thesis
      using 1 True by (subst sha512_get_words.simps) (auto simp: store64_fips)
  next
    case False
    then show ?thesis using 1(2) by (subst sha512_get_words.simps) simp
  qed
qed

lemma get_from_split:
  assumes h: "length h = 8" and r: "r < 8" "8 * i + r \<le> 64"
  shows "sha512_get h (8 * i + r) len =
    (if 8 * i + r + len \<le> 64 then Some (take len (drop r (digest_bytes (drop i h)))) else None)"
proof -
  have dm: "(8 * i + r) div 8 = i" "(8 * i + r) mod 8 = r" using r(1) by simp_all
  show ?thesis
  proof (cases "r = 0")
    case True
    let ?l = "if 128 - 8 * i < len then 128 - 8 * i else len"
    have "?l \<le> 64 - 8 * i \<longleftrightarrow> 8 * i + len \<le> 64" "?l \<le> 64 - 8 * i \<Longrightarrow> ?l = len" using True r by auto
    then show ?thesis using True r get_words_digest [OF h, of i ?l] unfolding sha512_get_def dm Let_def by auto
  next
    case False
    then have i: "i < 8" using r by linarith
    then have d: "digest_bytes (drop i h) = store64 (h ! i) @ digest_bytes (drop (i + 1) h)"
      using h by (intro digest_drop) simp
    have s: "length (store64 (h ! i)) = 8" by (simp add: store64_fips)
    show ?thesis unfolding sha512_get_def dm Let_def d
      using False r i h s by (auto simp: get_words_digest [OF h])
  qed
qed

lemma sha512_get_slice:
  assumes h: "length h = 8" and o: "offset \<le> 64"
  shows "sha512_get h offset len =
    (if offset + len \<le> 64 then Some (take len (drop offset (digest_bytes h))) else None)"
proof -
  define i r where ir: "i = offset div 8" "r = offset mod 8"
  then have off: "offset = 8 * i + r" and r: "r < 8" by simp_all
  then have l: "length (digest_bytes (take i h)) = 8 * i" using h o by (simp add: digest_length)
  have "digest_bytes h = digest_bytes (take i h) @ digest_bytes (drop i h)"
    unfolding digest_bytes_def by (simp flip: concat_append map_append)
  then have "drop (8 * i) (digest_bytes h) = digest_bytes (drop i h)" using l by simp
  then have "drop (8 * i + r) (digest_bytes h) = drop r (digest_bytes (drop i h))"
    by (metis drop_drop add.commute)
  then show ?thesis using get_from_split [OF h r] o off by simp
qed

section \<open>A message fed a block at a time\<close>

definition msg_blocks :: "u8 list \<Rightarrow> u8 list list" where
  "msg_blocks msg = map (\<lambda>i. drop (128 * i) msg) [0..<length msg div 128]"

lemma blocks_fed:
  "k \<le> length msg div 128 \<Longrightarrow>
   foldl sha512_block h (map (\<lambda>i. drop (128 * i) msg) [0..<k]) = fips512_blocks h (take (128 * k) msg)"
proof (induction k)
  case 0
  show ?case by (simp add: fips512_blocks.simps)
next
  case (Suc k)
  then have l: "128 * k + 128 \<le> length msg" by linarith
  have t: "take (128 * Suc k) msg = take (128 * k) msg @ take 128 (drop (128 * k) msg)"
    using take_add [of "128 * k" 128 msg] by (simp only: mult_Suc_right add.commute)
  have "fips512_blocks h (take (128 * Suc k) msg) =
      fips512_compress (fips512_blocks h (take (128 * k) msg)) (drop (128 * k) msg)"
    using l unfolding t by (simp add: fips512_blocks_append fips512_blocks_one fips512_compress_take)
  then show ?case using Suc l by (simp add: sha512_block_fips)
qed

lemma sha512_finish:
  assumes n: "length msg < 2 ^ 29" and k: "k mod 128 = 0" "k \<le> length msg" "length msg < k + 128"
  shows "sha512_final (fips512_blocks h (take k msg)) (drop k msg) (word_of_nat (length msg)) =
    fips512_blocks h (fips512_pad msg (length msg))"
proof -
  let ?a = "take k msg" and ?b = "drop k msg"
  have la: "length ?a mod 128 = 0" using k by simp
  have m: "length msg mod 128 = length ?b"
  proof -
    obtain q where "k = 128 * q" using k(1) by auto
    then have "length msg = 128 * q + length ?b" "length ?b < 128" using k by auto
    then show ?thesis by (metis mod_mult_self4 mod_less)
  qed
  have p: "fips512_pad msg (length msg) = ?a @ fips512_pad ?b (length msg)"
    using m k(3) by (simp add: fips512_pad_def flip: append_assoc)
  have "sha512_final (fips512_blocks h ?a) ?b (word_of_nat (length msg)) =
      fips512_blocks (fips512_blocks h ?a) (fips512_pad ?b (length msg))"
    using sha512_final_fips [OF n, of ?b] m by simp
  then show ?thesis unfolding p fips512_blocks_append [OF la] .
qed

lemma sha512_stream:
  assumes n: "length msg < 2 ^ 29"
  shows "sha512_final (foldl sha512_block sha512_init (msg_blocks msg))
      (drop (128 * (length msg div 128)) msg) (word_of_nat (length msg)) =
    fips512_blocks sha512_initial_state (fips512_pad msg (length msg))"
proof -
  let ?k = "128 * (length msg div 128)"
  have k: "?k mod 128 = 0" "?k \<le> length msg" "length msg < ?k + 128" by simp_all
  show ?thesis using sha512_finish [OF n k] blocks_fed [OF order_refl, of sha512_init msg]
    by (simp add: msg_blocks_def sha512_init_def)
qed

section \<open>Properties\<close>

text \<open>C13. The SHA-512 of the signature scheme is FIPS 180-4's. A message below 512 MB fed as full
  blocks and a remainder, through a schedule kept in a ring of 16 words, gives the digest FIPS 180-4
  defines with 80 schedule words, padding and a 128-bit length.\<close>

theorem sha512_matches_fips:
  assumes "length msg < 2 ^ 29"
  shows "sha512_get (sha512_final (foldl sha512_block sha512_init (msg_blocks msg))
      (drop (128 * (length msg div 128)) msg) (word_of_nat (length msg))) 0 64 = Some (fips_sha512 msg)"
proof -
  let ?h = "fips512_blocks sha512_initial_state (fips512_pad msg (length msg))"
  have h: "length ?h = 8" by (simp add: fips512_blocks_length sha512_initial_state_def)
  have "fips_sha512 msg = digest_bytes ?h" by (simp add: fips_sha512_start digest_bytes_def)
  moreover have "length (digest_bytes ?h) = 64" by (simp only: digest_length h)
  ultimately show ?thesis using sha512_get_slice [OF h, of 0 64]
    unfolding sha512_stream [OF assms] by simp
qed

theorem sha512_matches_fips_witness:
  "sha512_get (sha512_final (foldl sha512_block sha512_init (msg_blocks [0x61, 0x62, 0x63]))
      (drop (128 * (length [0x61, 0x62, 0x63 :: u8] div 128)) [0x61, 0x62, 0x63])
      (word_of_nat (length [0x61, 0x62, 0x63 :: u8]))) 0 64 = Some (fips_sha512 [0x61, 0x62, 0x63])"
  by (rule sha512_matches_fips) simp

text \<open>Slices of a digest. From an offset inside the digest \<open>sha512_get\<close> returns exactly the bytes
  asked for; asked for more than the digest has, it reads past the eight words of the state, because
  its limits are those of the block (128) and not those of the hash (64).\<close>

theorem sha512_get_returns_slice:
  assumes "length h = 8" "offset \<le> 64"
  shows "sha512_get h offset len =
    (if offset + len \<le> 64 then Some (take len (drop offset (digest_bytes h))) else None)"
  using assms by (rule sha512_get_slice)

theorem sha512_get_returns_slice_witness:
  "sha512_get [1, 2, 3, 4, 5, 6, 7, 8] 6 4 = Some [0, 1, 0, 0] \<and> sha512_get [1, 2, 3, 4, 5, 6, 7, 8] 60 5 = None"
proof -
  have "take 4 (drop 6 (digest_bytes [1, 2, 3, 4, 5, 6, 7, 8])) = [0, 1, 0, 0]"
    by (simp add: digest_bytes_def be_digits_def upt_rec)
  then show ?thesis
    using sha512_get_returns_slice [of "[1, 2, 3, 4, 5, 6, 7, 8]" 6 4]
      sha512_get_returns_slice [of "[1, 2, 3, 4, 5, 6, 7, 8]" 60 5] by simp
qed

end
