(* ===== verification/Edsign.thy ===== *)
theory Edsign
  imports Ed25519 Sha512
begin

text \<open>
  The signature scheme and its entry points: src/utils/crypto/compact25519/c25519/edsign.c,
  compact_ed25519.c, compact_wipe.c and src/utils/crypto/backend_compact25519.c. Verification and signing
  are shown to be the equations of RFC 8032 over the points of \<open>Ed25519\<close>, the digests of \<open>Sha512\<close> and
  scalars modulo the group order. A pointer into an array is the list from there on, cut to the size the
  callee declares; what a stack buffer holds before it is written is an argument (\<open>stack\<close>).
\<close>

section \<open>Keys and points\<close>

definition ed25519_order :: "u8 list" where
  "ed25519_order =
     [0xed, 0xd3, 0xf5, 0x5c, 0x1a, 0x63, 0x12, 0x58,
      0xd6, 0x9c, 0xf7, 0xa2, 0xde, 0xf9, 0xde, 0x14,
      0x00, 0x00, 0x00, 0x00, 0x00, 0x00, 0x00, 0x00,
      0x00, 0x00, 0x00, 0x00, 0x00, 0x00, 0x00, 0x10]"

definition expand_key :: "u8 list \<Rightarrow> u8 list" where
  "expand_key secret =
     (let s = sha512_init;
          s = sha512_final s secret 32;
          expanded = buf_bytes (sha512_get s 0 64)
      in ed25519_prepare expanded)"

definition upp :: "u8 list \<Rightarrow> u8 \<times> ed25519_pt" where
  "upp packed = (let (ok, x, y) = ed25519_try_unpack packed in (ok, ed25519_project x y))"

definition pp :: "ed25519_pt \<Rightarrow> u8 list" where
  "pp p = (let (x, y) = ed25519_unproject p in ed25519_pack x y)"

definition sm_pack :: "u8 list \<Rightarrow> u8 list" where
  "sm_pack k = (let p = ed25519_smult ed25519_base k in pp p)"

definition edsign_sec_to_pub :: "u8 list \<Rightarrow> u8 list" where
  "edsign_sec_to_pub secret = (let expanded = expand_key secret in sm_pack (take 32 expanded))"

section \<open>Hashing with a prefix\<close>

text \<open>\<open>memcpy(block + off, bs, ...)\<close>.\<close>

definition put_at :: "u8 list \<Rightarrow> nat \<Rightarrow> u8 list \<Rightarrow> u8 list" where
  "put_at block off bs = take off block @ bs @ drop (off + length bs) block"

function hash_loop :: "u64 list \<Rightarrow> u8 list \<Rightarrow> nat \<Rightarrow> nat \<Rightarrow> u64 list \<times> nat" where
  "hash_loop s message len i =
     (if i + 128 \<le> len then hash_loop (sha512_block s (drop i message)) message len (i + 128) else (s, i))"
  by pat_completeness auto
termination
  by (relation "measure (\<lambda>(s, message, len, i). len - i)") auto

declare hash_loop.simps [simp del]

definition hash_with_prefix :: "u8 list \<Rightarrow> nat \<Rightarrow> u8 list \<Rightarrow> nat \<Rightarrow> u8 list" where
  "hash_with_prefix init_block prefix_size message len =
     (let s = sha512_init;
          s = (if len < 128 \<and> len + prefix_size < 128 then
                 let init_block = put_at init_block prefix_size (take len message)
                 in sha512_final s init_block (word_of_nat (len + prefix_size))
               else
                 let init_block = put_at init_block prefix_size (take (128 - prefix_size) message);
                     s = sha512_block s init_block;
                     (s, i) = hash_loop s message len (128 - prefix_size)
                 in sha512_final s (drop i message) (word_of_nat (len + prefix_size)));
          init_block = buf_bytes (sha512_get s 0 64)
      in fprime_from_bytes init_block 64 ed25519_order)"

definition generate_k :: "u8 list \<Rightarrow> u8 list \<Rightarrow> u8 list \<Rightarrow> nat \<Rightarrow> u8 list" where
  "generate_k stack kgen_key message len =
     (let block = put_at stack 0 (take 32 kgen_key) in hash_with_prefix block 32 message len)"

definition hash_message :: "u8 list \<Rightarrow> u8 list \<Rightarrow> u8 list \<Rightarrow> u8 list \<Rightarrow> nat \<Rightarrow> u8 list" where
  "hash_message stack r a m len =
     (let block = put_at stack 0 (take 32 r);
          block = put_at block 32 (take 32 a)
      in hash_with_prefix block 64 m len)"

section \<open>Signing and verifying\<close>

definition edsign_sign :: "u8 list \<Rightarrow> u8 list \<Rightarrow> u8 list \<Rightarrow> u8 list \<Rightarrow> u8 list \<Rightarrow> nat \<Rightarrow> u8 list" where
  "edsign_sign stack1 stack2 pub secret message len =
     (let expanded = expand_key secret;
          k = generate_k stack1 (drop 32 expanded) message len;
          signature = sm_pack k;
          z = hash_message stack2 signature pub message len;
          e = fprime_from_bytes (take 32 expanded) 32 ed25519_order;
          s = fprime_mul z e ed25519_order;
          s = fprime_add s k ed25519_order
      in signature @ s)"

definition edsign_verify :: "u8 list \<Rightarrow> u8 list \<Rightarrow> u8 list \<Rightarrow> u8 list \<Rightarrow> nat \<Rightarrow> u8" where
  "edsign_verify stack signature pub message len =
     (let ok = 1;
          z = hash_message stack signature pub message len;
          lhs = sm_pack (take 32 (drop 32 signature));
          (v, p) = upp pub;
          ok = ok AND v;
          p = ed25519_smult p z;
          (v, q) = upp (take 32 signature);
          ok = ok AND v;
          p = ed25519_add p q;
          rhs = pp p
      in ok AND f25519_eq lhs rhs)"

section \<open>compact_ed25519.c, compact_wipe.c and the backend\<close>

text \<open>\<open>while (length--) *p++ = 0;\<close> from position \<open>i\<close>.\<close>

primrec wipe_loop :: "nat \<Rightarrow> nat \<Rightarrow> u8 list \<Rightarrow> u8 list" where
  "wipe_loop 0 i d = d"
| "wipe_loop (Suc n) i d = wipe_loop n (i + 1) (d[i := 0])"

definition compact_wipe :: "u8 list \<Rightarrow> nat \<Rightarrow> u8 list" where
  "compact_wipe d n = wipe_loop n 0 d"

text \<open>The private key, the public key and what is left of the seed.\<close>

definition compact_ed25519_keygen :: "u8 list \<Rightarrow> u8 list \<times> u8 list \<times> u8 list" where
  "compact_ed25519_keygen random_seed =
     (let public_key = edsign_sec_to_pub random_seed;
          private_key = take 32 random_seed @ take 32 public_key
      in (private_key, public_key, compact_wipe random_seed 32))"

definition compact_ed25519_calc_public_key :: "u8 list \<Rightarrow> u8 list" where
  "compact_ed25519_calc_public_key private_key = take 32 (drop 32 private_key)"

definition compact_ed25519_sign :: "u8 list \<Rightarrow> u8 list \<Rightarrow> u8 list \<Rightarrow> u8 list \<Rightarrow> nat \<Rightarrow> u8 list" where
  "compact_ed25519_sign stack1 stack2 private_key message msg_length =
     edsign_sign stack1 stack2 (drop 32 private_key) (take 32 private_key) message msg_length"

definition compact_ed25519_verify :: "u8 list \<Rightarrow> u8 list \<Rightarrow> u8 list \<Rightarrow> u8 list \<Rightarrow> nat \<Rightarrow> bool" where
  "compact_ed25519_verify stack signature public_key message msg_length \<longleftrightarrow>
     edsign_verify stack signature public_key message msg_length \<noteq> 0"

text \<open>\<open>hal_boot_ed25519_verify\<close> of this backend; \<open>None\<close> is a NULL pointer.\<close>

definition compact_boot_ed25519_verify ::
    "u8 list \<Rightarrow> u8 list option \<Rightarrow> u8 list option \<Rightarrow> u8 list option \<Rightarrow> nat \<Rightarrow> hal_status" where
  "compact_boot_ed25519_verify stack sig pk msg len =
     (if sig = None \<or> pk = None \<or> (msg = None \<and> len \<noteq> 0) then HAL_ERR_INVALID_ARG
      else if compact_ed25519_verify stack (buf_bytes sig) (buf_bytes pk) (take len (buf_bytes msg)) len
      then HAL_OK else HAL_ERR)"

section \<open>Digests modulo the group order\<close>

definition group_order :: nat where
  "group_order = 2 ^ 252 + 27742317777372353535851937790883648493"

definition sha512_scalar :: "u8 list \<Rightarrow> nat" where
  "sha512_scalar msg = limbs (fips_sha512 msg) mod group_order"

lemma order_value: "limbs ed25519_order = group_order" "length ed25519_order = 32"
  by (simp_all add: ed25519_order_def group_order_def)

lemma order_ok: "modulus_ok ed25519_order"
  by (simp add: modulus_ok_def order_value group_order_def)

lemma get_digest:
  assumes "s = fips512_blocks sha512_initial_state (fips512_pad msg (length msg))"
  shows "sha512_get s 0 64 = Some (fips_sha512 msg)"
proof -
  have s: "length s = 8" unfolding assms by (simp add: fips512_blocks_length sha512_initial_state_def)
  have "fips_sha512 msg = digest_bytes s" by (simp add: fips_sha512_start digest_bytes_def assms)
  moreover have "length (digest_bytes s) = 64" by (simp only: digest_length s)
  ultimately show ?thesis using sha512_get_slice [OF s, of 0 64] by simp
qed

lemma hash_loop_blocks:
  assumes "i + pre = k" "k mod 128 = 0" "k \<le> length m" "\<And>j. i \<le> j \<Longrightarrow> drop j message = drop (j + pre) m"
    "len + pre = length m" "s = fips512_blocks h (take k m)"
  shows "\<exists>s' i'. hash_loop s message len i = (s', i') \<and> i \<le> i' \<and> (i' + pre) mod 128 = 0 \<and> i' + pre \<le> length m \<and>
    length m < i' + pre + 128 \<and> s' = fips512_blocks h (take (i' + pre) m)"
  using assms
proof (induction s message len i arbitrary: k rule: hash_loop.induct)
  case (1 s message len i)
  show ?case
  proof (cases "i + 128 \<le> len")
    case True
    have l: "k + 128 \<le> length m" using True 1(2,6) by linarith
    have t: "take (k + 128) m = take k m @ take 128 (drop k m)" by (rule take_add)
    have "length (take k m) mod 128 = 0" using 1(3,4) by simp
    then have "fips512_blocks h (take (k + 128) m) = fips512_compress s (drop k m)"
      using l unfolding t 1(7) by (simp add: fips512_blocks_append fips512_blocks_one fips512_compress_take)
    moreover have "sha512_block s (drop i message) = fips512_compress s (drop k m)"
      using 1(2,5) l by (simp add: sha512_block_fips)
    ultimately have "\<exists>s' i'. hash_loop (sha512_block s (drop i message)) message len (i + 128) = (s', i') \<and>
        i + 128 \<le> i' \<and> (i' + pre) mod 128 = 0 \<and> i' + pre \<le> length m \<and> length m < i' + pre + 128 \<and>
        s' = fips512_blocks h (take (i' + pre) m)"
      using 1(2-7) l True by (intro 1(1) [where k = "k + 128"]) auto
    then show ?thesis using True by (subst hash_loop.simps) auto
  next
    case False
    then show ?thesis using 1(2-7) by (subst hash_loop.simps) auto
  qed
qed

lemma hash_with_prefix_value:
  assumes b: "length block = 128" "pre \<le> 64" and n: "length msg + pre < 2 ^ 29"
  shows "limbs (hash_with_prefix block pre msg (length msg)) = sha512_scalar (take pre block @ msg)"
    "length (hash_with_prefix block pre msg (length msg)) = 32"
proof -
  let ?m = "take pre block @ msg"
  have lm: "length ?m = length msg + pre" using b by simp
  let ?s = "fips512_blocks sha512_initial_state (fips512_pad ?m (length ?m))"
  have h: "hash_with_prefix block pre msg (length msg) = fprime_from_bytes (buf_bytes (sha512_get ?s 0 64)) 64 ed25519_order"
  proof (cases "length msg + pre < 128")
    case True
    let ?b = "put_at block pre msg"
    have t: "take (length msg + pre) ?b = ?m" using b True by (simp add: put_at_def)
    have f: "sha512_final sha512_initial_state ?b (word_of_nat (length msg + pre)) = ?s"
      using sha512_final_fips [of "length msg + pre" ?b] n b True t lm by (simp add: put_at_def add.commute)
    show ?thesis using True b f by (simp add: hash_with_prefix_def sha512_init_def)
  next
    case False
    let ?b = "put_at block pre (take (128 - pre) msg)"
    have bm: "?b = take 128 ?m" using b False by (simp add: put_at_def)
    have l: "128 \<le> length ?m" using False lm by simp
    have s1: "sha512_block sha512_initial_state ?b = fips512_blocks sha512_initial_state (take 128 ?m)"
      using l unfolding bm by (simp add: sha512_block_fips fips512_blocks_one del: take_append)
    obtain s' i' where lp: "hash_loop (sha512_block sha512_initial_state ?b) msg (length msg) (128 - pre) = (s', i')"
      "128 - pre \<le> i'" "(i' + pre) mod 128 = 0" "i' + pre \<le> length ?m" "length ?m < i' + pre + 128"
      "s' = fips512_blocks sha512_initial_state (take (i' + pre) ?m)"
      using hash_loop_blocks [of "128 - pre" pre 128 ?m msg "length msg" "sha512_block sha512_initial_state ?b"
          sha512_initial_state] b l lm s1 by auto
    have "drop i' msg = drop (i' + pre) ?m" using b by simp
    then have "sha512_final s' (drop i' msg) (word_of_nat (length msg + pre)) = ?s"
      using sha512_finish [OF _ lp(3-5), of sha512_initial_state] n lm lp(6) by (simp add: add.commute)
    then show ?thesis using False lp(1) by (simp add: hash_with_prefix_def sha512_init_def)
  qed
  show "limbs (hash_with_prefix block pre msg (length msg)) = sha512_scalar ?m"
    "length (hash_with_prefix block pre msg (length msg)) = 32"
    using fprime_from_bytes_value [OF order_ok refl, of "fips_sha512 ?m"]
    unfolding h get_digest [OF refl] by (simp_all add: sha512_scalar_def order_value)
qed

lemma generate_k_value:
  assumes "length stack = 128" "32 \<le> length key" "length msg < 2 ^ 28"
  shows "limbs (generate_k stack key msg (length msg)) = sha512_scalar (take 32 key @ msg)"
    "length (generate_k stack key msg (length msg)) = 32"
proof -
  let ?b = "put_at stack 0 (take 32 key)"
  have b: "length ?b = 128" "take 32 ?b = take 32 key" using assms by (simp_all add: put_at_def)
  have n: "length msg + 32 < 2 ^ 29" using assms(3) by simp
  show "limbs (generate_k stack key msg (length msg)) = sha512_scalar (take 32 key @ msg)"
    "length (generate_k stack key msg (length msg)) = 32"
    using hash_with_prefix_value [OF b(1) _ n] by (simp_all add: generate_k_def b(2))
qed

lemma hash_message_value:
  assumes "length stack = 128" "32 \<le> length r" "32 \<le> length a" "length msg < 2 ^ 28"
  shows "limbs (hash_message stack r a msg (length msg)) = sha512_scalar (take 32 r @ take 32 a @ msg)"
    "length (hash_message stack r a msg (length msg)) = 32"
proof -
  let ?b = "put_at (put_at stack 0 (take 32 r)) 32 (take 32 a)"
  have b: "length ?b = 128" "take 64 ?b = take 32 r @ take 32 a" using assms by (simp_all add: put_at_def)
  have n: "length msg + 64 < 2 ^ 29" using assms(4) by simp
  show "limbs (hash_message stack r a msg (length msg)) = sha512_scalar (take 32 r @ take 32 a @ msg)"
    "length (hash_message stack r a msg (length msg)) = 32"
    using hash_with_prefix_value [OF b(1) order_refl n] by (simp_all add: hash_message_def b(2))
qed

section \<open>Points in the protocol\<close>

lemma pp_value:
  assumes "pt_range p"
  shows "limbs (pp p) = gencode (gpt_of p)" "length (pp p) = 32"
  using pack_unproject [OF assms] by (simp_all add: pp_def split: prod.split)

lemma sm_pack_value:
  assumes "length k = 32"
  shows "limbs (sm_pack k) = gencode (gmult 256 (limbs k) (gpt_of ed25519_base))" "length (sm_pack k) = 32"
  using pp_value smult_gmult [OF base_range assms] by (simp_all add: sm_pack_def)

lemma upp_value:
  assumes "length packed = 32" "upp packed = (ok, p)"
  shows "pt_range p" "ok = 0 \<or> ok = 1"
    "unpack_den packed * unpack_den packed ^ (p25519 - 2) = 1 \<Longrightarrow> ok = (if pt_ok p then 1 else 0)"
proof -
  obtain x y where u: "ed25519_try_unpack packed = (ok, x, y)" and p: "p = ed25519_project x y"
    using assms(2) by (auto simp: upp_def split: prod.splits)
  note v = unpack_values [OF assms(1) u]
  show "pt_range p" unfolding p by (rule project_ok(1) [OF v(1,2)])
  show "ok = 0 \<or> ok = 1" using v(5) by simp
  show "unpack_den packed * unpack_den packed ^ (p25519 - 2) = 1 \<Longrightarrow> ok = (if pt_ok p then 1 else 0)"
    unfolding p by (rule unpack_curve [OF assms(1) u])
qed

lemma and_flags: "a = 0 \<or> a = 1 \<Longrightarrow> b = 0 \<or> b = 1 \<Longrightarrow> c = 0 \<or> c = 1 \<Longrightarrow>
    1 AND a AND b AND c = (if a = 1 \<and> b = 1 \<and> c = 1 then 1 else (0 :: u8))"
  by auto

text \<open>The equation of RFC 8032: \<open>[S]B = [h]A + R\<close>, compared as encodings.\<close>

definition signature_equation :: "u8 list \<Rightarrow> u8 list \<Rightarrow> u8 list \<Rightarrow> bool" where
  "signature_equation signature pub msg \<longleftrightarrow>
     gencode (gmult 256 (limbs (drop 32 signature)) (gpt_of ed25519_base)) =
     gencode (gadd (gmult 256 (sha512_scalar (take 32 signature @ pub @ msg)) (gpt_of (snd (upp pub))))
       (gpt_of (snd (upp (take 32 signature)))))"

lemma edsign_verify_value:
  assumes st: "length stack = 128" and sg: "length signature = 64" and pk: "length pub = 32"
    and n: "length msg < 2 ^ 28"
  shows "edsign_verify stack signature pub msg (length msg) =
    (if fst (upp pub) = 1 \<and> fst (upp (take 32 signature)) = 1 \<and> signature_equation signature pub msg then 1 else 0)"
proof -
  obtain va a where a: "upp pub = (va, a)" by (cases "upp pub")
  obtain vr r where r: "upp (take 32 signature) = (vr, r)" by (cases "upp (take 32 signature)")
  have l32: "length (take 32 signature) = 32" "length (drop 32 signature) = 32" using sg by simp_all
  note ua = upp_value [OF pk a] and ur = upp_value [OF l32(1) r]
  let ?z = "hash_message stack signature pub msg (length msg)"
  have z: "limbs ?z = sha512_scalar (take 32 signature @ pub @ msg)" "length ?z = 32"
    using hash_message_value [OF st _ _ n, of signature pub] sg pk by simp_all
  let ?l = "sm_pack (take 32 (drop 32 signature))" and ?p = "ed25519_add (ed25519_smult a ?z) r"
  have s32: "take 32 (drop 32 signature) = drop 32 signature" using l32(2) by simp
  note lhs = sm_pack_value [OF l32(2)]
  note sm = smult_gmult [OF ua(1) z(2)]
  have pr: "pt_range ?p" by (rule add_ok [OF sm(1) ur(1)])
  have g: "gpt_of ?p = gadd (gmult 256 (sha512_scalar (take 32 signature @ pub @ msg)) (gpt_of a)) (gpt_of r)"
    using add_gadd [OF sm(1) ur(1)] sm(2) z(1) by simp
  have e: "f25519_eq ?l (pp ?p) = (if signature_equation signature pub msg then 1 else 0)"
  proof -
    have "?l = pp ?p \<longleftrightarrow> limbs ?l = limbs (pp ?p)"
      using limbs_inj [of ?l "pp ?p"] lhs(2) pp_value(2) [OF pr] s32 by auto
    also have "\<dots> \<longleftrightarrow> signature_equation signature pub msg"
      unfolding s32 lhs(1) pp_value(1) [OF pr] g signature_equation_def a r snd_conv by (rule refl)
    finally show ?thesis using f25519_eq_iff [of ?l "pp ?p"] lhs(2) pp_value(2) [OF pr] s32 by simp
  qed
  have "edsign_verify stack signature pub msg (length msg) = 1 AND va AND vr AND f25519_eq ?l (pp ?p)"
    by (simp add: edsign_verify_def Let_def a r and.assoc)
  then show ?thesis
    using and_flags [OF ua(2) ur(2), of "f25519_eq ?l (pp ?p)"] e by (simp add: a r)
qed

lemma edsign_sign_value:
  fixes secret msg :: "u8 list"
  assumes st: "length stack1 = 128" "length stack2 = 128" and sk: "length secret = 32" "length pub = 32"
    and n: "length msg < 2 ^ 28"
  defines "a \<equiv> expand_key secret" and "sig \<equiv> edsign_sign stack1 stack2 pub secret msg (length msg)"
  defines "k \<equiv> sha512_scalar (drop 32 a @ msg)"
  assumes la: "length a = 64"
  shows "limbs (take 32 sig) = gencode (gmult 256 k (gpt_of ed25519_base))" "length sig = 64"
    "limbs (drop 32 sig) = (sha512_scalar (take 32 sig @ pub @ msg) * limbs (take 32 a) + k) mod group_order"
proof -
  let ?k = "generate_k stack1 (drop 32 a) msg (length msg)"
  have k: "limbs ?k = k" "length ?k = 32"
    using generate_k_value [OF st(1) _ n, of "drop 32 a"] la by (simp_all add: k_def)
  note R = sm_pack_value [OF k(2)]
  let ?z = "hash_message stack2 (sm_pack ?k) pub msg (length msg)"
  have z: "limbs ?z = sha512_scalar (sm_pack ?k @ pub @ msg)" "length ?z = 32"
    using hash_message_value [OF st(2) _ _ n, of "sm_pack ?k" pub] R(2) sk(2) by simp_all
  let ?e = "fprime_from_bytes (take 32 a) 32 ed25519_order"
  have e: "limbs ?e = limbs (take 32 a) mod group_order" "length ?e = 32"
    using fprime_from_bytes_value [OF order_ok refl, of "take 32 a"] la by (simp_all add: order_value)
  have o: "0 < group_order" by (simp add: group_order_def)
  have lt: "limbs ?z < limbs ed25519_order" "limbs ?e < limbs ed25519_order" "limbs ?k < limbs ed25519_order"
    using o by (simp_all add: z(1) e(1) k(1) k_def sha512_scalar_def order_value)
  let ?m = "fprime_mul ?z ?e ed25519_order"
  note m = fprime_mul_value [OF order_ok z(2) lt(1) e(2) lt(2)]
  have lm: "limbs ?m < limbs ed25519_order" using o by (simp add: m(1) order_value)
  note s = fprime_add_value [OF order_ok m(2) lm k(2) lt(3)]
  have sig: "sig = sm_pack ?k @ fprime_add ?m ?k ed25519_order"
    by (simp add: sig_def edsign_sign_def Let_def flip: a_def)
  then have sp: "take 32 sig = sm_pack ?k" "drop 32 sig = fprime_add ?m ?k ed25519_order" using R(2) by simp_all
  show "limbs (take 32 sig) = gencode (gmult 256 k (gpt_of ed25519_base))" unfolding sp R(1) k(1) by (rule refl)
  show "length sig = 64" unfolding sig using R(2) s(2) by simp
  show "limbs (drop 32 sig) = (sha512_scalar (take 32 sig @ pub @ msg) * limbs (take 32 a) + k) mod group_order"
    unfolding sp s(1) m(1) e(1) z(1) k(1) order_value by (simp add: mod_simps)
qed

text \<open>Keys: the digest of the secret with five bits of its first half fixed.\<close>

lemma expand_key_digest: "length secret = 32 \<Longrightarrow> expand_key secret = ed25519_prepare (fips_sha512 secret)"
proof -
  assume l: "length secret = 32"
  have "sha512_final sha512_initial_state secret (word_of_nat 32) = fips512_blocks sha512_initial_state (fips512_pad secret 32)"
    using sha512_final_fips [of 32 secret sha512_initial_state] l by simp
  then have "sha512_final sha512_initial_state secret 32 = fips512_blocks sha512_initial_state (fips512_pad secret (length secret))"
    using l by simp
  from get_digest [OF this] show ?thesis by (simp add: expand_key_def sha512_init_def Let_def)
qed

lemma prepare_length [simp]: "length (ed25519_prepare e) = length e"
  by (simp add: ed25519_prepare_def Let_def)

lemma wipe_loop_value:
  "i + n \<le> length d \<Longrightarrow> wipe_loop n i d = take i d @ replicate n 0 @ drop (i + n) d"
proof (induction n arbitrary: i d)
  case (Suc n)
  have "wipe_loop (Suc n) i d = take (i + 1) (d[i := 0]) @ replicate n 0 @ drop (i + 1 + n) (d[i := 0])"
    using Suc by simp
  moreover have "take (i + 1) (d[i := 0]) = take i d @ [0]" using Suc.prems by (simp add: take_Suc_conv_app_nth)
  ultimately show ?case by simp
qed simp

text \<open>A clamped scalar is a multiple of 8 between \<open>2^254\<close> and \<open>2^255\<close>.\<close>

lemma and_248: "unat (x AND 0xf8) mod 8 = 0" for x :: u8
proof -
  have "take_bit 3 (x AND 0xf8) = x AND (0xf8 AND mask 3)" by (simp only: take_bit_eq_mask and.assoc)
  also have "\<dots> = 0" by (simp add: mask_eq_exp_minus_1)
  finally have "unat (take_bit 3 (x AND 0xf8)) = 0" by (simp only: unsigned_0)
  then have "take_bit 3 (unat (x AND 0xf8)) = 0" by (simp only: unsigned_take_bit_eq)
  then show ?thesis by (simp add: take_bit_eq_mod)
qed

lemma or_64:
  fixes x :: u8
  shows "64 \<le> unat ((x AND 0x7f) OR 0x40)" "unat ((x AND 0x7f) OR 0x40) < 128"
proof -
  have "(x AND 0x7f) OR 0x40 = 0x40 OR take_bit 6 x"
    by (simp add: take_bit_eq_mask mask_eq_exp_minus_1 or.commute [of 64] bit.disj_conj_distrib2)
  then have "unat ((x AND 0x7f) OR 0x40) = 64 OR unat (take_bit 6 x)" by (simp add: unsigned_or_eq)
  also have "\<dots> = 64 + unat (take_bit 6 x)"
    by (rule or_disjoint [of _ 6]) (simp_all add: unsigned_take_bit_eq take_bit_nat_less_exp [of 6, simplified])
  finally have v: "unat ((x AND 0x7f) OR 0x40) = 64 + unat (take_bit 6 x)" .
  have "unat (take_bit 6 x) < 64" using take_bit_nat_less_exp [of 6 "unat x"] by (simp add: unsigned_take_bit_eq)
  then show "64 \<le> unat ((x AND 0x7f) OR 0x40)" "unat ((x AND 0x7f) OR 0x40) < 128" by (simp_all only: v)
qed

lemma clamped:
  assumes "32 \<le> length e"
  defines "a \<equiv> limbs (take 32 (ed25519_prepare e))"
  shows "a mod 8 = 0" "2 ^ 254 \<le> a" "a < 2 ^ 255"
proof -
  let ?y = "take 32 (ed25519_prepare e)"
  have l: "length ?y = 32" using assms(1) by simp
  have "e \<noteq> []" using assms(1) by auto
  then have y: "?y ! 0 = e ! 0 AND 0xf8" "?y ! 31 = (e ! 31 AND 0x7f) OR 0x40"
    using assms(1) by (simp_all add: ed25519_prepare_def Let_def)
  obtain t ts where c: "?y = t # ts" using l by (cases ?y) auto
  have "a = unat t + 8 * (32 * limbs ts)" by (simp add: a_def c)
  moreover have "unat t mod 8 = 0" using y(1) c and_248 by simp
  ultimately show "a mod 8 = 0" by (simp only: mod_mult_self2)
  define b where "b = unat (?y ! 31)"
  have b: "64 \<le> b" "b \<le> 127" unfolding b_def y(2) using or_64 [of "e ! 31"] by simp_all
  have s: "a = limbs (take 31 ?y) + 256 ^ 31 * b" unfolding a_def b_def by (rule limbs_split_last [OF l])
  have lo: "limbs (take 31 ?y) < 256 ^ 31" using limbs_less [of "take 31 ?y"] l by simp
  have p: "(2 :: nat) ^ 254 = 256 ^ 31 * 64" "(2 :: nat) ^ 255 = 256 ^ 31 * 128" by simp_all
  have "256 ^ 31 * 64 \<le> 256 ^ 31 * b" using b(1) by (rule mult_left_mono) simp
  then show "2 ^ 254 \<le> a" unfolding p s by linarith
  have "256 ^ 31 * b \<le> 256 ^ 31 * 127" using b(2) by (rule mult_left_mono) simp
  then show "a < 2 ^ 255" using lo unfolding p s by linarith
qed

section \<open>Properties\<close>



text \<open>C11. Key generation and signing are RFC 8032's. The public key encodes \<open>[a]B\<close> for the clamped first
  half \<open>a\<close> of the SHA-512 of the seed, and is found again in the private key; the seed is wiped. A
  signature is the encoding of \<open>[k]B\<close>, with \<open>k\<close> the digest of the second half and the message, and
  \<open>h a + k\<close> modulo the group order, with the \<open>h\<close> of the verifier.\<close>

theorem compact_sign_is_rfc8032:
  assumes "compact_ed25519_keygen seed = (sk, pk, left)" "length seed = 32"
    and "length stack1 = 128" "length stack2 = 128" "length msg < 2 ^ 28"
    and "d = ed25519_prepare (fips_sha512 seed)" "a = limbs (take 32 d)"
    and "k = limbs (fips_sha512 (drop 32 d @ msg)) mod group_order"
    and "sig = compact_ed25519_sign stack1 stack2 sk msg (length msg)"
  shows "left = replicate 32 0 \<and> compact_ed25519_calc_public_key sk = pk \<and>
    limbs pk = gencode (gmult 256 a (gpt_of ed25519_base)) \<and> a mod 8 = 0 \<and> 2 ^ 254 \<le> a \<and> a < 2 ^ 255 \<and>
    limbs (take 32 sig) = gencode (gmult 256 k (gpt_of ed25519_base)) \<and>
    limbs (drop 32 sig) = (limbs (fips_sha512 (take 32 sig @ pk @ msg)) mod group_order * a + k) mod group_order"
proof -
  have d: "d = expand_key seed" "length d = 64"
    using assms(6) expand_key_digest [OF assms(2)] by simp_all
  have pk: "pk = sm_pack (take 32 d)" "sk = seed @ take 32 pk" "left = compact_wipe seed 32"
    using assms(1,2) by (auto simp: compact_ed25519_keygen_def edsign_sec_to_pub_def Let_def d(1))
  have l: "length (take 32 d) = 32" using d(2) by simp
  note P = sm_pack_value [OF l, folded pk(1)]
  have sk: "take 32 sk = seed" "drop 32 sk = pk" using pk(2) assms(2) P(2) by simp_all
  have sig: "sig = edsign_sign stack1 stack2 pk seed msg (length msg)"
    using assms(9) by (simp add: compact_ed25519_sign_def sk)
  note S = edsign_sign_value [OF assms(3,4,2) P(2) assms(5), folded d(1) sig, OF d(2)]
  have "left = replicate 32 0" unfolding pk(3) compact_wipe_def using wipe_loop_value [of 0 32 seed] assms(2) by simp
  moreover have "compact_ed25519_calc_public_key sk = pk" using P(2) by (simp add: compact_ed25519_calc_public_key_def sk)
  moreover have "limbs pk = gencode (gmult 256 a (gpt_of ed25519_base))" unfolding P(1) assms(7) by (rule refl)
  moreover have "a mod 8 = 0" "2 ^ 254 \<le> a" "a < 2 ^ 255"
    using clamped [of "fips_sha512 seed"] unfolding assms(6,7) by simp_all
  moreover have "limbs (take 32 sig) = gencode (gmult 256 k (gpt_of ed25519_base))"
    unfolding S(1) assms(8) sha512_scalar_def by (rule refl)
  moreover have "limbs (drop 32 sig) = (limbs (fips_sha512 (take 32 sig @ pk @ msg)) mod group_order * a + k) mod group_order"
    unfolding S(3) assms(7,8) sha512_scalar_def by (rule refl)
  ultimately show ?thesis by blast
qed

theorem compact_sign_is_rfc8032_witness:
  "\<exists>sk pk. compact_ed25519_keygen (replicate 32 9) = (sk, pk, replicate 32 0) \<and> compact_ed25519_calc_public_key sk = pk"
proof -
  obtain sk pk left where k: "compact_ed25519_keygen (replicate 32 9) = (sk, pk, left)"
    by (cases "compact_ed25519_keygen (replicate 32 9)") auto
  have l: "length (replicate 32 (9 :: u8)) = 32" "length (replicate 128 (0 :: u8)) = 128" "length ([] :: u8 list) < 2 ^ 28"
    by simp_all
  from compact_sign_is_rfc8032 [OF k l(1) l(2) l(2) l(3) refl refl refl refl] show ?thesis using k by blast
qed

end
