(* ===== verification/Boot_Compact.thy ===== *)
theory Boot_Compact
  imports Boot_Image Edsign
begin

text \<open>
  The image verifier linked against the compact backend: the check of \<open>boot/common/verify_image.c\<close> is
  \<open>hal_boot_ed25519_verify\<close> of src/utils/crypto/backend_compact25519.c, so an accepted image is one whose
  SHA-256 digest is signed in the sense of RFC 8032.
\<close>

text \<open>What a build with this backend trusts; \<open>stack\<close> is what the two stacks hold.\<close>

definition compact_trust :: "u8 list \<Rightarrow> u8 list \<Rightarrow> u8 list \<Rightarrow> image_trust" where
  "compact_trust stack key hash_stack =
     \<lparr>ed25519_check = \<lambda>s k d. compact_ed25519_verify stack s k d (length d), boot_pubkey = key,
      verify_stack = hash_stack\<rparr>"

text \<open>The link: the verifier's entry point is the backend's.\<close>

lemma hal_boot_ed25519_verify_compact:
  "len \<le> length (buf_bytes msg) \<Longrightarrow>
   hal_boot_ed25519_verify (compact_trust stack key hash_stack) sig pk msg len =
     compact_boot_ed25519_verify stack sig pk msg len"
  by (simp add: hal_boot_ed25519_verify_def compact_boot_ed25519_verify_def compact_trust_def min_def)

lemma fips_sha256_32: "length (fips_sha256 msg) = 32"
  by simp

lemma compact_check_value:
  assumes "length stack = 128" "length sig = 64" "length key = 32" "length d < 2 ^ 28"
  shows "compact_ed25519_verify stack sig key d (length d) \<longleftrightarrow>
    fst (upp key) = 1 \<and> fst (upp (take 32 sig)) = 1 \<and> signature_equation sig key d"
  using edsign_verify_value [OF assms] by (simp add: compact_ed25519_verify_def)

section \<open>Properties\<close>



end
