(* ===== verification/Freestanding.thy ===== *)
theory Freestanding
  imports Prelude
begin

text \<open>
  Memory and string routines: src/utils/freestanding.c (what the compiler calls), src/utils/util.c (what
  NavHAL calls) and the integer parser of src/utils/conversion.c. Memory is a map from addresses to
  bytes and an object does not wrap round the address space, so an address is a natural number; a
  loop that only ends at a byte it finds is a partial function. The float parser is not modelled.
\<close>

type_synonym memory = "nat \<Rightarrow> u8"

section \<open>freestanding.c\<close>

text \<open>\<open>while (n--) *d++ = *s++;\<close> and \<open>while (n--) *--d = *--s;\<close>\<close>

primrec copy_up :: "nat \<Rightarrow> nat \<Rightarrow> nat \<Rightarrow> memory \<Rightarrow> memory" where
  "copy_up 0 d s m = m"
| "copy_up (Suc n) d s m = copy_up n (d + 1) (s + 1) (m(d := m s))"

primrec copy_down :: "nat \<Rightarrow> nat \<Rightarrow> nat \<Rightarrow> memory \<Rightarrow> memory" where
  "copy_down 0 d s m = m"
| "copy_down (Suc n) d s m = copy_down n (d - 1) (s - 1) (m(d - 1 := m (s - 1)))"

definition memcpy :: "nat \<Rightarrow> nat \<Rightarrow> nat \<Rightarrow> memory \<Rightarrow> memory" where
  "memcpy dest src n m = copy_up n dest src m"

definition memmove :: "nat \<Rightarrow> nat \<Rightarrow> nat \<Rightarrow> memory \<Rightarrow> memory" where
  "memmove dest src n m =
     (if dest = src \<or> n = 0 then m
      else if dest < src then copy_up n dest src m
      else copy_down n (dest + n) (src + n) m)"

primrec fill_up :: "nat \<Rightarrow> nat \<Rightarrow> u8 \<Rightarrow> memory \<Rightarrow> memory" where
  "fill_up 0 d c m = m"
| "fill_up (Suc n) d c m = fill_up n (d + 1) c (m(d := c))"

definition memset :: "nat \<Rightarrow> 32 word \<Rightarrow> nat \<Rightarrow> memory \<Rightarrow> memory" where
  "memset dest c n m = fill_up n dest (ucast c) m"

primrec cmp_up :: "nat \<Rightarrow> nat \<Rightarrow> nat \<Rightarrow> memory \<Rightarrow> int" where
  "cmp_up 0 a b m = 0"
| "cmp_up (Suc n) a b m = (if m a \<noteq> m b then uint (m a) - uint (m b) else cmp_up n (a + 1) (b + 1) m)"

definition memcmp :: "nat \<Rightarrow> nat \<Rightarrow> nat \<Rightarrow> memory \<Rightarrow> int" where
  "memcmp s1 s2 n m = cmp_up n s1 s2 m"

section \<open>util.c\<close>

definition hal_memcpy :: "nat \<Rightarrow> nat \<Rightarrow> u32 \<Rightarrow> memory \<Rightarrow> memory" where
  "hal_memcpy dest src len m = copy_up (unat len) dest src m"

definition hal_memset :: "nat \<Rightarrow> 32 word \<Rightarrow> u32 \<Rightarrow> memory \<Rightarrow> memory" where
  "hal_memset dest val len m = fill_up (unat len) dest (ucast val) m"

definition hal_memcmp :: "nat \<Rightarrow> nat \<Rightarrow> u32 \<Rightarrow> memory \<Rightarrow> int" where
  "hal_memcmp s1 s2 len m = cmp_up (unat len) s1 s2 m"

partial_function (option) strlen_loop :: "memory \<Rightarrow> nat \<Rightarrow> u32 \<Rightarrow> u32 option" where
  "strlen_loop m s len = (if m s \<noteq> 0 then strlen_loop m (s + 1) (len + 1) else Some len)"

definition hal_strlen :: "nat \<Rightarrow> memory \<Rightarrow> u32 option" where
  "hal_strlen s m = strlen_loop m s 0"

text \<open>The result is the pointer, \<open>None\<close> for NULL.\<close>

partial_function (option) strchr_loop :: "memory \<Rightarrow> nat \<Rightarrow> u8 \<Rightarrow> nat option option" where
  "strchr_loop m s c = (if m s \<noteq> c then if m s = 0 then Some None else strchr_loop m (s + 1) c else Some (Some s))"

definition hal_strchr :: "nat \<Rightarrow> 32 word \<Rightarrow> memory \<Rightarrow> nat option option" where
  "hal_strchr s c m = strchr_loop m s (ucast c)"

section \<open>conversion.c\<close>

text \<open>
  A string is the list of its characters up to the terminator. The value is an \<open>int32_t\<close>; an
  addition or multiplication that leaves its range is undefined in C, which is \<open>None\<close> here.
\<close>

primrec skip_blanks :: "u8 list \<Rightarrow> u8 list" where
  "skip_blanks [] = []"
| "skip_blanks (c # s) = (if c = 32 \<or> c = 9 then skip_blanks s else c # s)"

definition int32_ok :: "int \<Rightarrow> bool" where
  "int32_ok v \<longleftrightarrow> - 2147483648 \<le> v \<and> v \<le> 2147483647"

primrec digits_loop :: "u8 list \<Rightarrow> int \<Rightarrow> int option" where
  "digits_loop [] result = Some result"
| "digits_loop (c # s) result =
     (if 48 \<le> c \<and> c \<le> 57 then
        let result' = result * 10 + (uint c - 48)
        in if int32_ok (result * 10) \<and> int32_ok result' then digits_loop s result' else None
      else Some result)"

definition str_to_int :: "u8 list \<Rightarrow> int option" where
  "str_to_int s =
     (let s = skip_blanks s;
          (sign, s) = (case s of [] \<Rightarrow> (1, s)
             | c # t \<Rightarrow> if c = 45 then (- 1, t) else if c = 43 then (1, t) else (1, s))
      in map_option (\<lambda>result. sign * result) (digits_loop s 0))"

section \<open>Copies and fills\<close>

lemma copy_up_apply:
  assumes "d \<le> s \<or> s + n \<le> d"
  shows "copy_up n d s m a = (if d \<le> a \<and> a < d + n then m (s + (a - d)) else m a)"
  using assms
proof (induction n arbitrary: d s m)
  case (Suc n)
  have "copy_up (Suc n) d s m a = (if d + 1 \<le> a \<and> a < d + 1 + n then (m(d := m s)) (s + 1 + (a - (d + 1)))
      else (m(d := m s)) a)"
    using Suc by auto
  moreover have "s + 1 + (a - (d + 1)) = s + (a - d)" if "d + 1 \<le> a" using that by simp
  ultimately show ?case using Suc.prems by (cases "a = d") auto
qed auto

lemma copy_down_apply:
  assumes "s < d"
  shows "copy_down n (d + n) (s + n) m a = (if d \<le> a \<and> a < d + n then m (s + (a - d)) else m a)"
proof (induction n arbitrary: m)
  case (Suc n)
  have "copy_down (Suc n) (d + Suc n) (s + Suc n) m a = copy_down n (d + n) (s + n) (m(d + n := m (s + n))) a"
    by simp
  also have "\<dots> = (if d \<le> a \<and> a < d + n then (m(d + n := m (s + n))) (s + (a - d)) else (m(d + n := m (s + n))) a)"
    by (rule Suc.IH)
  finally show ?case using assms by (auto simp: not_less)
qed auto

lemma fill_up_apply: "fill_up n d c m a = (if d \<le> a \<and> a < d + n then c else m a)"
  by (induction n arbitrary: d m) auto

lemma cmp_up_zero: "cmp_up n a b m = 0 \<longleftrightarrow> (\<forall>i<n. m (a + i) = m (b + i))"
proof (induction n arbitrary: a b)
  case (Suc n)
  have "(\<forall>i<Suc n. m (a + i) = m (b + i)) \<longleftrightarrow> m a = m b \<and> (\<forall>i<n. m (a + 1 + i) = m (b + 1 + i))"
    by (auto simp: less_Suc_eq_0_disj)
  then show ?case using Suc.IH [of "a + 1" "b + 1"] by (auto simp: word_uint_eq_iff)
qed simp

lemma cmp_up_first:
  "k < n \<Longrightarrow> \<forall>i<k. m (a + i) = m (b + i) \<Longrightarrow> m (a + k) \<noteq> m (b + k) \<Longrightarrow>
   cmp_up n a b m = uint (m (a + k)) - uint (m (b + k))"
proof (induction n arbitrary: a b k)
  case (Suc n)
  show ?case
  proof (cases k)
    case 0
    then show ?thesis using Suc.prems by simp
  next
    case (Suc j)
    have "m a = m b" using Suc.prems(2) Suc by (metis add.right_neutral zero_less_Suc)
    moreover have "\<forall>i<j. m (a + 1 + i) = m (b + 1 + i)" using Suc.prems(2) Suc by auto
    ultimately show ?thesis using Suc.IH [of j "a + 1" "b + 1"] Suc.prems Suc by simp
  qed
qed simp

section \<open>Searches\<close>

lemma strlen_loop_finds: "\<forall>i<k. m (s + i) \<noteq> 0 \<Longrightarrow> m (s + k) = 0 \<Longrightarrow> strlen_loop m s len = Some (len + word_of_nat k)"
proof (induction k arbitrary: s len)
  case 0
  then show ?case by (subst strlen_loop.simps) simp
next
  case (Suc k)
  have "m s \<noteq> 0" using Suc.prems(1) by (metis add.right_neutral zero_less_Suc)
  moreover have "\<forall>i<k. m (s + 1 + i) \<noteq> 0" using Suc.prems(1) by auto
  ultimately show ?case using Suc.IH [of "s + 1" "len + 1"] Suc.prems(2)
    by (subst strlen_loop.simps) (simp add: algebra_simps)
qed

lemma strchr_loop_finds:
  "\<forall>i<k. m (s + i) \<noteq> 0 \<and> m (s + i) \<noteq> c \<Longrightarrow> m (s + k) = c \<or> m (s + k) = 0 \<Longrightarrow>
   strchr_loop m s c = Some (if m (s + k) = c then Some (s + k) else None)"
proof (induction k arbitrary: s)
  case 0
  then show ?case by (subst strchr_loop.simps) auto
next
  case (Suc k)
  have "m s \<noteq> 0 \<and> m s \<noteq> c" using Suc.prems(1) by (metis add.right_neutral zero_less_Suc)
  moreover have "\<forall>i<k. m (s + 1 + i) \<noteq> 0 \<and> m (s + 1 + i) \<noteq> c" using Suc.prems(1) by auto
  ultimately show ?case using Suc.IH [of "s + 1"] Suc.prems(2)
    by (subst strchr_loop.simps) simp
qed

section \<open>Properties\<close>

text \<open>\<open>memmove\<close> copies through any overlap. Whatever the two regions, every byte of the destination
  gets the byte the source held before the call and no other byte changes; \<open>memcpy\<close> and
  \<open>hal_memcpy\<close> do the same unless the destination begins inside the source, and \<open>memset\<close> fills
  exactly its region.\<close>

theorem copies_are_exact:
  "memmove dest src n m = (\<lambda>a. if dest \<le> a \<and> a < dest + n then m (src + (a - dest)) else m a) \<and>
   (dest \<le> src \<or> src + n \<le> dest \<longrightarrow> memcpy dest src n m = memmove dest src n m) \<and>
   (dest \<le> src \<or> src + unat len \<le> dest \<longrightarrow> hal_memcpy dest src len m = memmove dest src (unat len) m) \<and>
   memset dest c n m = (\<lambda>a. if dest \<le> a \<and> a < dest + n then ucast c else m a) \<and>
   hal_memset dest c len m = memset dest c (unat len) m"
proof -
  have mv: "memmove dest src k m = (\<lambda>a. if dest \<le> a \<and> a < dest + k then m (src + (a - dest)) else m a)" for k
    by (rule ext) (auto simp: memmove_def copy_up_apply copy_down_apply not_less)
  have up: "copy_up k dest src m = (\<lambda>a. if dest \<le> a \<and> a < dest + k then m (src + (a - dest)) else m a)"
    if "dest \<le> src \<or> src + k \<le> dest" for k
    using copy_up_apply [OF that] by auto
  show ?thesis unfolding mv memcpy_def hal_memcpy_def memset_def hal_memset_def
    by (intro conjI impI up ext) (simp_all add: fill_up_apply)
qed

theorem copies_are_exact_witness:
  "map (memmove 1 0 3 (\<lambda>a. word_of_nat a)) [0..<5] = [0, 0, 1, 2, 4] \<and>
   memcpy 0 2 2 (\<lambda>a. word_of_nat a) = memmove 0 2 2 (\<lambda>a. word_of_nat a)"
  using copies_are_exact [of 1 0 3 "\<lambda>a. word_of_nat a" 0 0] copies_are_exact [of 0 2 2 "\<lambda>a. word_of_nat a" 0 0]
  by (simp add: upt_rec)

text \<open>\<open>memcmp\<close> is the lexicographic comparison of the two regions as unsigned bytes: zero exactly
  when they are equal, otherwise the difference of the first two bytes that differ; \<open>hal_strlen\<close>
  returns the distance to the first terminator and \<open>hal_strchr\<close> the first occurrence, NULL when the
  terminator comes first, the terminator itself when that is what is asked for.\<close>

theorem searches_find_the_first:
  assumes "k < n" "\<forall>i<k. m (a + i) = m (b + i)" "m (a + k) \<noteq> m (b + k)"
    and "\<forall>i<l. m (s + i) \<noteq> 0" "m (s + l) = 0"
  shows "memcmp a b n m = uint (m (a + k)) - uint (m (b + k)) \<and> memcmp a b k m = 0 \<and>
    hal_strlen s m = Some (word_of_nat l) \<and>
    hal_strchr s c m = Some (if \<exists>j\<le>l. m (s + j) = ucast c then Some (s + (LEAST j. m (s + j) = ucast c)) else None)"
proof (intro conjI)
  show "memcmp a b n m = uint (m (a + k)) - uint (m (b + k))" "memcmp a b k m = 0"
    using cmp_up_first [OF assms(1-3)] assms(2) by (simp_all add: memcmp_def cmp_up_zero)
  show "hal_strlen s m = Some (word_of_nat l)"
    using strlen_loop_finds [of l m s 0] assms(4,5) by (simp add: hal_strlen_def)
  let ?P = "\<lambda>j. m (s + j) = (ucast c :: u8)"
  show "hal_strchr s c m = Some (if \<exists>j\<le>l. ?P j then Some (s + (LEAST j. ?P j)) else None)"
  proof (cases "\<exists>j\<le>l. ?P j")
    case True
    then obtain i where i: "i \<le> l" "?P i" by blast
    define j where j: "j = (LEAST j. ?P j)"
    have "?P j" "j \<le> i" using i(2) by (auto simp: j intro: LeastI Least_le)
    moreover have "\<forall>x<j. m (s + x) \<noteq> 0 \<and> \<not> ?P x"
      using assms(4) i(1) calculation(2) not_less_Least [of _ ?P] unfolding j by force
    ultimately show ?thesis using True strchr_loop_finds [of j m s "ucast c"] by (simp add: hal_strchr_def j)
  next
    case False
    then have "\<forall>x<l. m (s + x) \<noteq> 0 \<and> \<not> ?P x" "\<not> ?P l" using assms(4) by auto
    then show ?thesis using False strchr_loop_finds [of l m s "ucast c"] assms(5) by (simp add: hal_strchr_def)
  qed
qed

theorem searches_find_the_first_witness:
  "hal_strlen 0 ((\<lambda>_. 0)(0 := 65, 1 := 66)) = Some 2 \<and> hal_strchr 0 66 ((\<lambda>_. 0)(0 := 65, 1 := 66)) \<noteq> Some None"
proof -
  let ?m = "(\<lambda>_. 0)(0 := 65, 1 := 66) :: memory"
  have m: "\<forall>i<2. ?m (0 + i) \<noteq> 0" "?m (0 + 2) = 0" by (auto simp: less_2_cases_iff)
  have "\<exists>j\<le>2. ?m (0 + j) = ucast (66 :: 32 word)" by (rule exI [of _ 1]) simp
  then show ?thesis
    using searches_find_the_first [of 0 1 ?m 0 1 2 0 66, OF _ _ _ m] by auto
qed

end
