(* ===== verification/Console.thy ===== *)
theory Console
  imports Freestanding
begin

text \<open>
  The console layer, src/common/hal_console.c: route selection at build time and the number printers,
  with the round trip through the parser of src/utils/conversion.c. What reaches a transport is the
  call the layer makes to it.
\<close>

text \<open>The build: a board without a console UART, the CDC route, or the UART route.\<close>

datatype console_build = CONSOLE_NO_TRANSPORT | CONSOLE_CDC | CONSOLE_UART

datatype console_call =
    Cdc_init
  | Uart_init u32
  | Cdc_write "u8 list" u16
  | Uart_write_string "u8 list"

datatype hal_console_route = HAL_CONSOLE_ROUTE_UART | HAL_CONSOLE_ROUTE_CDC

definition CONSOLE_DEC_MAX :: nat where
  "CONSOLE_DEC_MAX = 11"

text \<open>A character of a string, the terminator after its last one.\<close>

definition cstr :: "u8 list \<Rightarrow> nat \<Rightarrow> u8" where
  "cstr s i = (if i < length s then s ! i else 0)"

text \<open>\<open>uint16_t n = 0; while (s[n] != 0) n++;\<close>\<close>

partial_function (option) strlen16_loop :: "u8 list \<Rightarrow> u16 \<Rightarrow> u16 option" where
  "strlen16_loop s n = (if cstr s (unat n) \<noteq> 0 then strlen16_loop s (n + 1) else Some n)"

text \<open>The call made, if one is made; the outer \<open>None\<close> is a loop that does not end.\<close>

definition console_put :: "console_build \<Rightarrow> u8 list \<Rightarrow> console_call option option" where
  "console_put b s =
     (case b of CONSOLE_NO_TRANSPORT \<Rightarrow> Some None
      | CONSOLE_CDC \<Rightarrow> (case strlen16_loop s 0 of None \<Rightarrow> None | Some n \<Rightarrow> Some (Some (Cdc_write s n)))
      | CONSOLE_UART \<Rightarrow> Some (Some (Uart_write_string s)))"

text \<open>The status, or the call whose status is returned.\<close>

definition hal_console_init :: "console_build \<Rightarrow> u32 \<Rightarrow> hal_status + console_call" where
  "hal_console_init b baudrate =
     (case b of CONSOLE_NO_TRANSPORT \<Rightarrow> Inl HAL_ERR_NOT_SUPPORTED
      | CONSOLE_CDC \<Rightarrow> Inr Cdc_init
      | CONSOLE_UART \<Rightarrow> Inr (Uart_init baudrate))"

text \<open>\<open>cdc\<close> is what the CDC driver answers.\<close>

definition hal_console_connected :: "console_build \<Rightarrow> bool \<Rightarrow> bool" where
  "hal_console_connected b cdc =
     (case b of CONSOLE_NO_TRANSPORT \<Rightarrow> False | CONSOLE_CDC \<Rightarrow> cdc | CONSOLE_UART \<Rightarrow> True)"

definition hal_console_get_route :: "console_build \<Rightarrow> hal_console_route" where
  "hal_console_get_route b =
     (case b of CONSOLE_CDC \<Rightarrow> HAL_CONSOLE_ROUTE_CDC | _ \<Rightarrow> HAL_CONSOLE_ROUTE_UART)"

definition hal_console_write :: "console_build \<Rightarrow> u8 list option \<Rightarrow> console_call option option" where
  "hal_console_write b s = (case s of None \<Rightarrow> Some None | Some s \<Rightarrow> console_put b s)"

section \<open>Numbers\<close>

text \<open>The string that begins at \<open>buf + i\<close>.\<close>

definition string_at :: "u8 list \<Rightarrow> nat \<Rightarrow> u8 list" where
  "string_at buf i = takeWhile (\<lambda>c. c \<noteq> 0) (drop i buf)"

function uint_loop :: "u8 list \<Rightarrow> u32 \<Rightarrow> nat \<Rightarrow> u8 list \<times> nat" where
  "uint_loop buf v i =
     (if v \<noteq> 0 \<and> 0 < i then uint_loop (buf[i - 1 := ucast (48 + v mod 10)]) (v div 10) (i - 1) else (buf, i))"
  by pat_completeness auto
termination
  by (relation "measure (\<lambda>(buf, v, i). i)") auto

declare uint_loop.simps [simp del]

definition uint_string :: "u8 list \<Rightarrow> u32 \<Rightarrow> u8 list" where
  "uint_string buf v =
     (let i = CONSOLE_DEC_MAX;
          buf = buf[i := 0];
          (buf, i) = (if v = 0 then (buf[i - 1 := 48], i - 1) else (buf, i));
          (buf, i) = uint_loop buf v i
      in string_at buf i)"

definition hal_console_write_uint :: "console_build \<Rightarrow> u8 list \<Rightarrow> u32 \<Rightarrow> console_call option option" where
  "hal_console_write_uint b stack v = console_put b (uint_string stack v)"

definition hex_digits :: "u8 list" where
  "hex_digits = [48, 49, 50, 51, 52, 53, 54, 55, 56, 57, 65, 66, 67, 68, 69, 70]"

definition hex32_string :: "u8 list \<Rightarrow> u32 \<Rightarrow> u8 list" where
  "hex32_string buf v =
     (let buf = buf[0 := 48];
          buf = buf[1 := 120];
          buf = foldl (\<lambda>buf i. buf[2 + i := hex_digits ! unat (drop_bit (28 - 4 * i) v AND 0xF)]) buf [0..<8];
          buf = buf[10 := 0]
      in string_at buf 0)"

definition hal_console_write_hex32 :: "console_build \<Rightarrow> u8 list \<Rightarrow> u32 \<Rightarrow> console_call option option" where
  "hal_console_write_hex32 b stack v = console_put b (hex32_string stack v)"

section \<open>Decimal numerals\<close>

fun decimal :: "nat \<Rightarrow> u8 list" where
  "decimal n = (if n = 0 then [] else decimal (n div 10) @ [word_of_nat (48 + n mod 10)])"

declare decimal.simps [simp del]

definition numeral_of :: "nat \<Rightarrow> u8 list" where
  "numeral_of n = (if n = 0 then [48] else decimal n)"

lemma unat_of_nat_u8: "k < 256 \<Longrightarrow> unat (word_of_nat k :: u8) = k"
  by (simp add: unsigned_of_nat take_bit_nat_eq_self)

lemma digit_char: "ucast (48 + v mod 10 :: u32) = (word_of_nat (48 + unat v mod 10) :: u8)"
proof -
  have "unat v mod 10 < 10" by simp
  then have "unat (48 + v mod 10) = 48 + unat v mod 10"
    by (simp add: unat_word_ariths unat_mod)
  moreover have "(ucast (48 + v mod 10) :: u8) = word_of_nat (unat (48 + v mod 10))" by (rule of_nat_unat [symmetric])
  ultimately show ?thesis by (simp only:)
qed

lemma uint_loop_decimal:
  "i \<le> length buf \<Longrightarrow> unat v < 10 ^ i \<Longrightarrow>
   (case uint_loop buf v i of (buf', i') \<Rightarrow> drop i' buf' = decimal (unat v) @ drop i buf)"
proof (induction buf v i rule: uint_loop.induct)
  case (1 buf v i)
  show ?case
  proof (cases "v \<noteq> 0 \<and> 0 < i")
    case True
    let ?b = "buf[i - 1 := ucast (48 + v mod 10)]"
    have d: "unat (v div 10) = unat v div 10" by (simp add: unat_div)
    have "unat v < 10 * 10 ^ (i - 1)" using 1(3) True by (cases i) auto
    then have "unat (v div 10) < 10 ^ (i - 1)" unfolding d by (simp add: less_mult_imp_div_less mult.commute)
    then have "case uint_loop ?b (v div 10) (i - 1) of (buf', i') \<Rightarrow>
        drop i' buf' = decimal (unat v div 10) @ drop (i - 1) ?b"
      using 1(1) [OF True] 1(2) True d by simp
    moreover have "drop (i - 1) ?b = word_of_nat (48 + unat v mod 10) # drop i buf"
      using True 1(2) by (cases i) (simp_all add: digit_char drop_update_swap Cons_nth_drop_Suc [symmetric])
    moreover have "decimal (unat v) = decimal (unat v div 10) @ [word_of_nat (48 + unat v mod 10)]"
      using True by (subst decimal.simps) (simp add: unat_eq_0)
    moreover have "uint_loop buf v i = uint_loop ?b (v div 10) (i - 1)" using True by (subst uint_loop.simps) simp
    ultimately show ?thesis by (simp split: prod.splits)
  next
    case False
    then have "v = 0" using 1(3) by (auto simp: unat_eq_0)
    then show ?thesis using False by (subst uint_loop.simps) (simp add: decimal.simps)
  qed
qed

lemma decimal_chars: "c \<in> set (decimal n) \<Longrightarrow> 48 \<le> c \<and> c \<le> 57"
proof (induction n rule: decimal.induct)
  case (1 n)
  have m: "n mod 10 < 10" by simp
  then have "unat (word_of_nat (48 + n mod 10) :: u8) = 48 + n mod 10" by (intro unat_of_nat_u8) linarith
  then have "48 \<le> (word_of_nat (48 + n mod 10) :: u8) \<and> (word_of_nat (48 + n mod 10) :: u8) \<le> 57"
    using m by (simp only: word_le_nat_alt) simp
  then show ?case using 1 by (subst (asm) decimal.simps) (auto split: if_splits)
qed

lemma uint_string_numeral:
  assumes "length stack = 12"
  shows "uint_string stack v = numeral_of (unat v)"
proof (cases "v = 0")
  case True
  have "drop 10 (stack[11 := 0, 10 := 48]) = [48, 0]"
    using assms by (simp add: list_eq_iff_nth_eq nth_list_update less_Suc_eq_0_disj numeral_2_eq_2)
  then show ?thesis using True
    by (simp add: uint_string_def CONSOLE_DEC_MAX_def Let_def uint_loop.simps [of _ 0] numeral_of_def string_at_def)
next
  case False
  have "unat v < 10 ^ 11" using u32_bound [of v] by simp
  moreover obtain buf i where u: "uint_loop (stack[11 := 0]) v 11 = (buf, i)" by (cases "uint_loop (stack[11 := 0]) v 11")
  ultimately have "drop i buf = decimal (unat v) @ drop 11 (stack[11 := 0])"
    using uint_loop_decimal [of 11 "stack[11 := 0]" v] assms by simp
  also have "drop 11 (stack[11 := 0]) = [0]"
    using assms by (simp add: list_eq_iff_nth_eq)
  finally have b: "drop i buf = decimal (unat v) @ [0]" .
  have "c \<noteq> 0" if "c \<in> set (decimal (unat v))" for c using decimal_chars [OF that] by auto
  then have "string_at buf i = decimal (unat v)" unfolding string_at_def b by (simp add: takeWhile_append2)
  then show ?thesis using False u
    by (simp add: uint_string_def CONSOLE_DEC_MAX_def Let_def numeral_of_def unat_eq_0)
qed

section \<open>The parser on decimal numerals\<close>

lemma digits_loop_decimal:
  "digits_loop (decimal n @ t) 0 = (if n \<le> 2147483647 then digits_loop t (int n) else None)"
proof (induction n arbitrary: t rule: decimal.induct)
  case (1 n)
  show ?case
  proof (cases "n = 0")
    case True
    then show ?thesis by (simp add: decimal.simps)
  next
    case False
    let ?q = "n div 10" and ?c = "word_of_nat (48 + n mod 10) :: u8"
    have m: "n mod 10 < 10" by simp
    then have c: "unat ?c = 48 + n mod 10" by (intro unat_of_nat_u8) linarith
    have "uint ?c = int (unat ?c)" by simp
    then have u: "uint ?c = 48 + int (n mod 10)" unfolding c by simp
    have dc: "48 \<le> ?c \<and> ?c \<le> 57" using m c by (simp only: word_le_nat_alt) simp
    have "int (?q * 10 + n mod 10) = int n" by (simp only: div_mult_mod_eq)
    then have "int ?q * 10 + int (n mod 10) = int n" by (simp only: of_nat_add of_nat_mult of_nat_numeral)
    then have v: "int ?q * 10 + (uint ?c - 48) = int n" by (simp only: u add_diff_cancel_left')
    have "digits_loop (decimal n @ t) 0 = digits_loop (decimal ?q @ (?c # t)) 0"
      using False by (subst decimal.simps) simp
    also have "\<dots> = (if ?q \<le> 2147483647 then digits_loop (?c # t) (int ?q) else None)"
      by (rule 1 [OF False])
    also have "digits_loop (?c # t) (int ?q) = (if int32_ok (int ?q * 10) \<and> int32_ok (int n) then digits_loop t (int n) else None)"
      using dc v by (simp add: Let_def)
    also have "int32_ok (int ?q * 10) \<and> int32_ok (int n) \<longleftrightarrow> n \<le> 2147483647"
    proof -
      have "?q * 10 \<le> n" by simp
      then show ?thesis by (auto simp: int32_ok_def)
    qed
    finally show ?thesis by auto
  qed
qed

lemma decimal_head: "0 < n \<Longrightarrow> \<exists>c s. decimal n = c # s \<and> c \<noteq> 48"
proof (induction n rule: decimal.induct)
  case (1 n)
  show ?case
  proof (cases "n div 10 = 0")
    case True
    then have "n mod 10 = n" "n < 10" by simp_all
    then have u: "unat (word_of_nat (48 + n mod 10) :: u8) = 48 + n" by (simp only:) (rule unat_of_nat_u8, simp)
    then have "(word_of_nat (48 + n mod 10) :: u8) \<noteq> 48" using 1(2) by (auto simp: word_unat_eq_iff simp del: of_nat_add)
    then show ?thesis using True 1(2) by (subst decimal.simps) (simp add: decimal.simps [of 0])
  next
    case False
    then show ?thesis using 1 by (subst decimal.simps) auto
  qed
qed

lemma numeral_parses: "str_to_int (numeral_of n) = (if n \<le> 2147483647 then Some (int n) else None)"
proof (cases "n = 0")
  case True
  then show ?thesis by (simp add: numeral_of_def str_to_int_def int32_ok_def)
next
  case False
  then obtain c s where d: "decimal n = c # s" using decimal_head by blast
  then have "48 \<le> c \<and> c \<le> 57" using decimal_chars [of c n] by simp
  then have "c \<noteq> 32" "c \<noteq> 9" "c \<noteq> 45" "c \<noteq> 43" by auto
  then have "str_to_int (decimal n) = digits_loop (decimal n @ []) 0"
    by (cases "digits_loop (c # s) 0") (simp_all add: d str_to_int_def del: digits_loop.simps)
  then show ?thesis using False by (simp only: digits_loop_decimal numeral_of_def) simp
qed

text \<open>The least \<open>int32_t\<close> has no numeral the parser accepts: its magnitude overflows before the sign is applied.\<close>

lemma least_int_overflows: "str_to_int (45 # numeral_of 2147483648) = None"
proof -
  have "digits_loop (numeral_of 2147483648) 0 = None"
    using digits_loop_decimal [of 2147483648 "[]"] by (simp add: numeral_of_def)
  then show ?thesis by (simp add: str_to_int_def)
qed

section \<open>The 16-bit length\<close>

lemma unat_of_nat_u16: "k < 65536 \<Longrightarrow> unat (word_of_nat k :: u16) = k"
  by (simp add: unsigned_of_nat take_bit_nat_eq_self)

lemma strlen16_finds:
  "0 \<notin> set s \<Longrightarrow> length s < 65536 \<Longrightarrow> k \<le> length s \<Longrightarrow> n = word_of_nat (length s - k) \<Longrightarrow>
   strlen16_loop s n = Some (word_of_nat (length s))"
proof (induction k arbitrary: n)
  case 0
  then have "unat n = length s" by (simp add: unat_of_nat_u16)
  then show ?case using 0 by (subst strlen16_loop.simps) (simp add: cstr_def)
next
  case (Suc k)
  have u: "unat n = length s - Suc k" unfolding Suc.prems(4) using Suc.prems(2) by (intro unat_of_nat_u16) simp
  have "length s - Suc k < length s" using Suc.prems(3) by simp
  then have "s ! (length s - Suc k) \<noteq> 0" using Suc.prems(1) nth_mem by metis
  then have "cstr s (unat n) \<noteq> 0" using \<open>length s - Suc k < length s\<close> by (simp add: cstr_def u)
  moreover have "n + 1 = word_of_nat (length s - k)"
  proof -
    have "length s - k = Suc (length s - Suc k)" using Suc.prems(3) by simp
    then have "(word_of_nat (length s - k) :: u16) = word_of_nat (Suc (length s - Suc k))" by (simp only:)
    then show ?thesis by (simp only: Suc.prems(4) of_nat_Suc add.commute)
  qed
  ultimately show ?case using Suc.IH [of "n + 1"] Suc.prems by (subst strlen16_loop.simps) simp
qed

text \<open>A string of \<open>2^16\<close> characters or more has no terminator a 16-bit index can reach.\<close>

lemma strlen16_hangs:
  assumes "0 \<notin> set s" "65536 \<le> length s"
  shows "strlen16_loop s n = None"
proof -
  have nz: "cstr s (unat i) \<noteq> 0" for i :: u16
    using assms u16_bound [of i] by (auto simp: cstr_def) (metis less_le_trans nth_mem)
  have "t \<noteq> s" if that: "strlen16_loop t n = Some r" for t n r
    by (rule strlen16_loop.raw_induct [OF _ that]) (use nz in \<open>auto split: if_splits\<close>)
  then show ?thesis by (cases "strlen16_loop s n") auto
qed

section \<open>Hexadecimal\<close>

text \<open>The value of an upper-case hexadecimal digit.\<close>

definition hex_value :: "u8 \<Rightarrow> nat" where
  "hex_value c = (if c \<le> 57 then unat c - 48 else unat c - 55)"

lemma hex_digit: "k < 16 \<Longrightarrow> hex_digits ! k \<noteq> 0 \<and> hex_value (hex_digits ! k) = k"
proof -
  have "list_all (\<lambda>k. hex_digits ! k \<noteq> 0 \<and> hex_value (hex_digits ! k) = k) [0..<16]"
    by (simp add: upt_rec hex_digits_def hex_value_def)
  then show "k < 16 \<Longrightarrow> hex_digits ! k \<noteq> 0 \<and> hex_value (hex_digits ! k) = k" by (simp add: list_all_iff)
qed

lemma nibbles: "foldl (\<lambda>a d. 16 * a + d) 0 (map (\<lambda>i. n div 16 ^ (k - 1 - i) mod 16) [0..<k]) = n mod 16 ^ k"
  for n :: nat
proof (induction k arbitrary: n)
  case (Suc k)
  have m: "map (\<lambda>i. n div 16 ^ (Suc k - 1 - i) mod 16) [0..<k] = map (\<lambda>i. n div 16 div 16 ^ (k - 1 - i) mod 16) [0..<k]"
    by (auto simp: div_mult2_eq [symmetric] Suc_diff_Suc simp flip: power_Suc)
  have "map (\<lambda>i. n div 16 ^ (Suc k - 1 - i) mod 16) [0..<Suc k] =
      map (\<lambda>i. n div 16 div 16 ^ (k - 1 - i) mod 16) [0..<k] @ [n mod 16]"
    using m by simp
  then have "foldl (\<lambda>a d. 16 * a + d) 0 (map (\<lambda>i. n div 16 ^ (Suc k - 1 - i) mod 16) [0..<Suc k]) =
      16 * (n div 16 mod 16 ^ k) + n mod 16" by (simp only: foldl_append Suc.IH foldl.simps)
  also have "\<dots> = n mod 16 ^ Suc k" using mod_mult2_eq [of n 16 "16 ^ k"] by simp
  finally show ?case .
qed simp

lemma nibble_at: "i < 8 \<Longrightarrow> unat (drop_bit (28 - 4 * i) v AND 0xF) = unat v div 16 ^ (7 - i) mod 16" for v :: u32
proof -
  assume i: "i < 8"
  have m: "drop_bit (28 - 4 * i) v AND 0xF = take_bit 4 (drop_bit (28 - 4 * i) v)"
    by (simp add: take_bit_eq_mask mask_eq_exp_minus_1)
  have "unat (take_bit 4 (drop_bit (28 - 4 * i) v)) = unat v div 2 ^ (28 - 4 * i) mod 16"
    by (subst unsigned_take_bit_eq, subst unat_drop_bit_eq) (simp add: take_bit_eq_mod drop_bit_eq_div)
  moreover have "(2 :: nat) ^ (28 - 4 * i) = 16 ^ (7 - i)"
  proof -
    have "28 - 4 * i = 4 * (7 - i)" using i by simp
    then have "(2 :: nat) ^ (28 - 4 * i) = (2 ^ 4) ^ (7 - i)" by (simp only: power_mult)
    then show ?thesis by simp
  qed
  ultimately show ?thesis by (simp only: m)
qed

lemma hex32_string_value:
  assumes "length stack = 11"
  shows "hex32_string stack v = [48, 120] @ map (\<lambda>i. hex_digits ! (unat v div 16 ^ (7 - i) mod 16)) [0..<8]"
proof -
  obtain b0 b1 b2 b3 b4 b5 b6 b7 b8 b9 b10 where s: "stack = [b0, b1, b2, b3, b4, b5, b6, b7, b8, b9, b10]"
    using assms by (auto simp: length_Suc_conv numeral_eq_Suc)
  define d where "d i = hex_digits ! unat (drop_bit (28 - 4 * i) v AND 0xF)" for i
  have dv: "d i = hex_digits ! (unat v div 16 ^ (7 - i) mod 16)" if "i < 8" for i
    using nibble_at [OF that] by (simp only: d_def)
  then have nz: "d i \<noteq> 0" if "i < 8" for i using hex_digit that by simp
  have "foldl (\<lambda>buf i. buf[2 + i := d i]) (stack[0 := 48, 1 := 120]) [0..<8] =
      [48, 120, d 0, d 1, d 2, d 3, d 4, d 5, d 6, d 7, b10]"
    by (simp add: s upt_rec numeral_eq_Suc)
  then have "hex32_string stack v = [48, 120, d 0, d 1, d 2, d 3, d 4, d 5, d 6, d 7]"
    using nz by (simp add: hex32_string_def string_at_def Let_def flip: d_def)
  also have "\<dots> = [48, 120] @ map d [0..<8]" by (simp add: upt_rec numeral_eq_Suc)
  also have "map d [0..<8] = map (\<lambda>i. hex_digits ! (unat v div 16 ^ (7 - i) mod 16)) [0..<8]"
    using dv by (intro map_cong) auto
  finally show ?thesis .
qed

section \<open>Properties\<close>

text \<open>Numbers printed on the console read back. For every 32-bit value, whatever the stack buffers held,
  the decimal printer sends a numeral without leading zeros that \<open>str_to_int\<close> parses to the value when it
  is below \<open>2^31\<close> and cannot parse without signed overflow otherwise, and the hexadecimal printer sends
  \<open>0x\<close> and eight digits whose value is the number.\<close>

theorem console_numbers_read_back:
  assumes "length stack = 12" "length stack' = 11"
  shows "hal_console_write_uint CONSOLE_UART stack v = Some (Some (Uart_write_string (numeral_of (unat v)))) \<and>
    str_to_int (numeral_of (unat v)) = (if unat v < 2 ^ 31 then Some (int (unat v)) else None) \<and>
    (v \<noteq> 0 \<longrightarrow> numeral_of (unat v) ! 0 \<noteq> 48) \<and>
    (\<exists>ds. hal_console_write_hex32 CONSOLE_UART stack' v = Some (Some (Uart_write_string ([48, 120] @ ds))) \<and>
      length ds = 8 \<and> foldl (\<lambda>n c. 16 * n + hex_value c) 0 ds = unat v)"
proof (intro conjI)
  show "hal_console_write_uint CONSOLE_UART stack v = Some (Some (Uart_write_string (numeral_of (unat v))))"
    by (simp add: hal_console_write_uint_def console_put_def uint_string_numeral [OF assms(1)])
  show "str_to_int (numeral_of (unat v)) = (if unat v < 2 ^ 31 then Some (int (unat v)) else None)"
    by (simp add: numeral_parses less_Suc_eq_le flip: less_Suc_eq_le)
  show "v \<noteq> 0 \<longrightarrow> numeral_of (unat v) ! 0 \<noteq> 48"
    using decimal_head [of "unat v"] by (auto simp: numeral_of_def unat_eq_0 unat_gt_0)
  let ?ds = "map (\<lambda>i. hex_digits ! (unat v div 16 ^ (7 - i) mod 16)) [0..<8]"
  have "map hex_value ?ds = map (\<lambda>i. unat v div 16 ^ (8 - 1 - i) mod 16) [0..<8]"
    by (simp add: hex_digit del: upt_Suc)
  moreover have "foldl (\<lambda>n c. 16 * n + hex_value c) 0 ?ds = foldl (\<lambda>n d. 16 * n + d) 0 (map hex_value ?ds)"
    by (simp only: foldl_map)
  moreover have "unat v mod 16 ^ 8 = unat v" using u32_bound [of v] by simp
  ultimately have "foldl (\<lambda>n c. 16 * n + hex_value c) 0 ?ds = unat v" by (simp only: nibbles)
  then show "\<exists>ds. hal_console_write_hex32 CONSOLE_UART stack' v = Some (Some (Uart_write_string ([48, 120] @ ds))) \<and>
      length ds = 8 \<and> foldl (\<lambda>n c. 16 * n + hex_value c) 0 ds = unat v"
    by (intro exI [of _ ?ds]) (simp add: hal_console_write_hex32_def console_put_def hex32_string_value [OF assms(2)])
qed

theorem console_numbers_read_back_witness:
  "str_to_int (numeral_of 2147483648) = None \<and>
   hal_console_write_uint CONSOLE_UART (replicate 12 7) 42 = Some (Some (Uart_write_string [52, 50]))"
proof -
  have "numeral_of 42 = [52, 50]" by (simp add: numeral_of_def decimal.simps)
  then show ?thesis
    using console_numbers_read_back [of "replicate 12 7" "replicate 11 7" 2147483648]
      console_numbers_read_back [of "replicate 12 7" "replicate 11 7" 42] by simp
qed

text \<open>The routes. Without a transport the console reports it and drops what it is given; over USB a
  string below \<open>2^16\<close> characters is handed over with its length, and a longer one never returns,
  because the 16-bit index never reaches the terminator; NULL is ignored on every route.\<close>

theorem console_routes:
  assumes "0 \<notin> set s"
  shows "hal_console_write CONSOLE_NO_TRANSPORT (Some s) = Some None \<and>
    hal_console_init CONSOLE_NO_TRANSPORT baud = Inl HAL_ERR_NOT_SUPPORTED \<and>
    \<not> hal_console_connected CONSOLE_NO_TRANSPORT cdc \<and>
    hal_console_write CONSOLE_UART (Some s) = Some (Some (Uart_write_string s)) \<and>
    hal_console_write CONSOLE_CDC (Some s) =
      (if length s < 65536 then Some (Some (Cdc_write s (word_of_nat (length s)))) else None) \<and>
    hal_console_write b None = Some None"
  using strlen16_finds [OF assms, of "length s" 0] strlen16_hangs [OF assms, of 0]
  by (auto simp: hal_console_write_def console_put_def hal_console_init_def hal_console_connected_def)

theorem console_routes_witness:
  "hal_console_write CONSOLE_CDC (Some [72, 105]) = Some (Some (Cdc_write [72, 105] 2))"
  using console_routes [of "[72, 105]"] by simp

end
