(* ===== verification/Vfs.thy ===== *)
theory Vfs
  imports Console
begin

text \<open>
  The file API over FatFs: src/utils/v_fs.c and include/utils/v_fs.h. FatFs itself is third-party code
  and an argument: a record of its entry points over an abstract file object, directory object and
  volume. What is modelled and proved is the layer's own logic: the descriptor tables, the mode
  translation, the seek arithmetic, the preallocation loop, the copying of names and times.
\<close>

section \<open>FatFs\<close>

datatype FRESULT =
    FR_OK | FR_DISK_ERR | FR_INT_ERR | FR_NOT_READY | FR_NO_FILE | FR_NO_PATH | FR_INVALID_NAME | FR_DENIED
  | FR_EXIST | FR_INVALID_OBJECT | FR_WRITE_PROTECTED | FR_INVALID_DRIVE | FR_NOT_ENABLED | FR_NO_FILESYSTEM
  | FR_MKFS_ABORTED | FR_TIMEOUT | FR_LOCKED | FR_NOT_ENOUGH_CORE | FR_TOO_MANY_OPEN_FILES
  | FR_INVALID_PARAMETER

primrec fr_code :: "FRESULT \<Rightarrow> int" where
  "fr_code FR_OK = 0" | "fr_code FR_DISK_ERR = 1" | "fr_code FR_INT_ERR = 2" | "fr_code FR_NOT_READY = 3"
| "fr_code FR_NO_FILE = 4" | "fr_code FR_NO_PATH = 5" | "fr_code FR_INVALID_NAME = 6" | "fr_code FR_DENIED = 7"
| "fr_code FR_EXIST = 8" | "fr_code FR_INVALID_OBJECT = 9" | "fr_code FR_WRITE_PROTECTED = 10"
| "fr_code FR_INVALID_DRIVE = 11" | "fr_code FR_NOT_ENABLED = 12" | "fr_code FR_NO_FILESYSTEM = 13"
| "fr_code FR_MKFS_ABORTED = 14" | "fr_code FR_TIMEOUT = 15" | "fr_code FR_LOCKED = 16"
| "fr_code FR_NOT_ENOUGH_CORE = 17" | "fr_code FR_TOO_MANY_OPEN_FILES = 18" | "fr_code FR_INVALID_PARAMETER = 19"

definition FA_READ :: u8 where "FA_READ = 0x01"
definition FA_WRITE :: u8 where "FA_WRITE = 0x02"
definition FA_CREATE_NEW :: u8 where "FA_CREATE_NEW = 0x04"
definition FA_CREATE_ALWAYS :: u8 where "FA_CREATE_ALWAYS = 0x08"
definition FA_OPEN_ALWAYS :: u8 where "FA_OPEN_ALWAYS = 0x10"
definition FA_OPEN_APPEND :: u8 where "FA_OPEN_APPEND = 0x30"
definition AM_DIR :: u8 where "AM_DIR = 0x10"

type_synonym path = "u8 list"

record FILINFO =
  fsize :: u32
  fdate :: u16
  ftime :: u16
  fattrib :: u8
  fname :: "u8 list"

text \<open>The entry points the layer calls; each returns what it leaves of the object and the volume.\<close>

record ('fil, 'dir, 'vol) fatfs =
  f_mount :: "'vol \<Rightarrow> FRESULT \<times> 'vol"
  f_open :: "'fil \<Rightarrow> path \<Rightarrow> u8 \<Rightarrow> 'vol \<Rightarrow> FRESULT \<times> 'fil \<times> 'vol"
  f_close :: "'fil \<Rightarrow> 'vol \<Rightarrow> FRESULT \<times> 'fil \<times> 'vol"
  f_read :: "'fil \<Rightarrow> u32 \<Rightarrow> 'vol \<Rightarrow> FRESULT \<times> u8 list \<times> u32 \<times> 'fil \<times> 'vol"
  f_write :: "'fil \<Rightarrow> u8 list \<Rightarrow> 'vol \<Rightarrow> FRESULT \<times> u32 \<times> 'fil \<times> 'vol"
  f_lseek :: "'fil \<Rightarrow> u32 \<Rightarrow> 'vol \<Rightarrow> FRESULT \<times> 'fil \<times> 'vol"
  f_tell :: "'fil \<Rightarrow> u32"
  f_size :: "'fil \<Rightarrow> u32"
  f_sync :: "'fil \<Rightarrow> 'vol \<Rightarrow> FRESULT \<times> 'fil \<times> 'vol"
  f_mkdir :: "path \<Rightarrow> 'vol \<Rightarrow> FRESULT \<times> 'vol"
  f_unlink :: "path \<Rightarrow> 'vol \<Rightarrow> FRESULT \<times> 'vol"
  f_rename :: "path \<Rightarrow> path \<Rightarrow> 'vol \<Rightarrow> FRESULT \<times> 'vol"
  f_getfree :: "path \<Rightarrow> 'vol \<Rightarrow> FRESULT \<times> u32 \<times> u16 \<times> u32 \<times> 'vol"
  f_stat :: "path \<Rightarrow> 'vol \<Rightarrow> FRESULT \<times> FILINFO"
  f_opendir :: "'dir \<Rightarrow> path \<Rightarrow> 'vol \<Rightarrow> FRESULT \<times> 'dir"
  f_readdir :: "'dir \<Rightarrow> 'vol \<Rightarrow> FRESULT \<times> FILINFO \<times> 'dir"
  f_closedir :: "'dir \<Rightarrow> 'vol \<Rightarrow> FRESULT \<times> 'dir"

section \<open>The layer's state\<close>

definition MAX_OPEN_FILES :: int where "MAX_OPEN_FILES = 4"
definition MAX_OPEN_DIRS :: int where "MAX_OPEN_DIRS = 2"
definition V_O_RDONLY :: u32 where "V_O_RDONLY = 0x01"
definition V_O_WRONLY :: u32 where "V_O_WRONLY = 0x02"
definition V_O_RDWR :: u32 where "V_O_RDWR = 0x03"
definition V_O_CREAT :: u32 where "V_O_CREAT = 0x04"
definition V_O_TRUNC :: u32 where "V_O_TRUNC = 0x08"
definition V_O_APPEND :: u32 where "V_O_APPEND = 0x10"
definition V_SEEK_SET :: int where "V_SEEK_SET = 0"
definition V_SEEK_CUR :: int where "V_SEEK_CUR = 1"
definition V_SEEK_END :: int where "V_SEEK_END = 2"

record ('fil, 'dir, 'vol) vfs =
  open_files :: "'fil list"
  file_in_use :: "bool list"
  dir_objs :: "'dir list"
  dir_in_use :: "bool list"
  volume :: 'vol

text \<open>\<open>-(int)res\<close>, and the common ending of the calls that return 0 or an error.\<close>

definition neg_res :: "FRESULT \<Rightarrow> int" where
  "neg_res res = - fr_code res"

definition zero_or_neg :: "FRESULT \<Rightarrow> int" where
  "zero_or_neg res = (if res = FR_OK then 0 else neg_res res)"

text \<open>The loop for the first free slot from \<open>i\<close> on; -1 when there is none.\<close>

primrec find_slot :: "bool list \<Rightarrow> int \<Rightarrow> int" where
  "find_slot [] i = - 1"
| "find_slot (u # us) i = (if \<not> u then i else find_slot us (i + 1))"

definition bad_fd :: "int \<Rightarrow> ('fil, 'dir, 'vol) vfs \<Rightarrow> bool" where
  "bad_fd fd s \<longleftrightarrow> fd < 0 \<or> fd \<ge> MAX_OPEN_FILES \<or> \<not> file_in_use s ! nat fd"

definition bad_dir :: "int \<Rightarrow> ('fil, 'dir, 'vol) vfs \<Rightarrow> bool" where
  "bad_dir d s \<longleftrightarrow> d < 0 \<or> d \<ge> MAX_OPEN_DIRS \<or> \<not> dir_in_use s ! nat d"

definition v_fs_init :: "('fil, 'dir, 'vol) fatfs \<Rightarrow> ('fil, 'dir, 'vol) vfs \<Rightarrow> int \<times> ('fil, 'dir, 'vol) vfs" where
  "v_fs_init ff s =
     (let (res, v) = f_mount ff (volume s); s = s\<lparr>volume := v\<rparr>
      in if res \<noteq> FR_OK then (neg_res res, s) else (0, s))"

definition open_mode :: "u32 \<Rightarrow> u8" where
  "open_mode flags =
     (let mode = 0;
          mode = (if flags AND V_O_RDONLY \<noteq> 0 then mode OR FA_READ else mode);
          mode = (if flags AND V_O_WRONLY \<noteq> 0 then mode OR FA_WRITE else mode);
          mode = (if flags AND V_O_RDWR \<noteq> 0 then mode OR (FA_READ OR FA_WRITE) else mode);
          mode = (if flags AND V_O_CREAT \<noteq> 0 then mode OR FA_OPEN_ALWAYS else mode);
          mode = (if flags AND V_O_TRUNC \<noteq> 0 then mode OR FA_CREATE_ALWAYS else mode)
      in if flags AND V_O_APPEND \<noteq> 0 then mode OR FA_OPEN_APPEND else mode)"

definition v_open ::
    "('fil, 'dir, 'vol) fatfs \<Rightarrow> path \<Rightarrow> u32 \<Rightarrow> ('fil, 'dir, 'vol) vfs \<Rightarrow> int \<times> ('fil, 'dir, 'vol) vfs" where
  "v_open ff path flags s =
     (let fd = find_slot (file_in_use s) 0
      in if fd = - 1 then (- 1, s)
         else
           let (res, fil, v) = f_open ff (open_files s ! nat fd) path (open_mode flags) (volume s);
               s = s\<lparr>open_files := (open_files s)[nat fd := fil], volume := v\<rparr>
           in if res \<noteq> FR_OK then (neg_res res, s)
              else (fd, s\<lparr>file_in_use := (file_in_use s)[nat fd := True]\<rparr>))"

definition v_close :: "('fil, 'dir, 'vol) fatfs \<Rightarrow> int \<Rightarrow> ('fil, 'dir, 'vol) vfs \<Rightarrow> int \<times> ('fil, 'dir, 'vol) vfs" where
  "v_close ff fd s =
     (if bad_fd fd s then (- 1, s)
      else
        let (res, fil, v) = f_close ff (open_files s ! nat fd) (volume s);
            s = s\<lparr>open_files := (open_files s)[nat fd := fil], volume := v\<rparr>;
            s = s\<lparr>file_in_use := (file_in_use s)[nat fd := False]\<rparr>
        in (zero_or_neg res, s))"

text \<open>The value, the bytes put into the buffer and the state.\<close>

definition v_read ::
    "('fil, 'dir, 'vol) fatfs \<Rightarrow> int \<Rightarrow> u32 \<Rightarrow> ('fil, 'dir, 'vol) vfs \<Rightarrow> int \<times> u8 list \<times> ('fil, 'dir, 'vol) vfs" where
  "v_read ff fd count s =
     (if bad_fd fd s then (- 1, [], s)
      else
        let (res, bytes, br, fil, v) = f_read ff (open_files s ! nat fd) count (volume s);
            s = s\<lparr>open_files := (open_files s)[nat fd := fil], volume := v\<rparr>
        in (if res = FR_OK then sint br else neg_res res, bytes, s))"

definition v_write ::
    "('fil, 'dir, 'vol) fatfs \<Rightarrow> int \<Rightarrow> u8 list \<Rightarrow> ('fil, 'dir, 'vol) vfs \<Rightarrow> int \<times> ('fil, 'dir, 'vol) vfs" where
  "v_write ff fd buf s =
     (if bad_fd fd s then (- 1, s)
      else
        let (res, bw, fil, v) = f_write ff (open_files s ! nat fd) buf (volume s);
            s = s\<lparr>open_files := (open_files s)[nat fd := fil], volume := v\<rparr>
        in (if res = FR_OK then sint bw else neg_res res, s))"

text \<open>The position asked for; \<open>None\<close> is the early return for an unknown origin.\<close>

definition seek_target :: "('fil, 'dir, 'vol) fatfs \<Rightarrow> 'fil \<Rightarrow> u32 \<Rightarrow> int \<Rightarrow> u32 option" where
  "seek_target ff fil offset whence =
     (if whence = V_SEEK_SET then Some offset
      else if whence = V_SEEK_CUR then Some (f_tell ff fil + offset)
      else if whence = V_SEEK_END then Some (f_size ff fil + offset)
      else None)"

definition v_lseek ::
    "('fil, 'dir, 'vol) fatfs \<Rightarrow> int \<Rightarrow> u32 \<Rightarrow> int \<Rightarrow> ('fil, 'dir, 'vol) vfs \<Rightarrow> int \<times> ('fil, 'dir, 'vol) vfs" where
  "v_lseek ff fd offset whence s =
     (if bad_fd fd s then (- 1, s)
      else case seek_target ff (open_files s ! nat fd) offset whence of
        None \<Rightarrow> (- 1, s)
      | Some target_pos \<Rightarrow>
          let (res, fil, v) = f_lseek ff (open_files s ! nat fd) target_pos (volume s);
              s = s\<lparr>open_files := (open_files s)[nat fd := fil], volume := v\<rparr>
          in (if res = FR_OK then sint (f_tell ff fil) else neg_res res, s))"

definition v_mkdir :: "('fil, 'dir, 'vol) fatfs \<Rightarrow> path \<Rightarrow> ('fil, 'dir, 'vol) vfs \<Rightarrow> int \<times> ('fil, 'dir, 'vol) vfs" where
  "v_mkdir ff path s = (let (res, v) = f_mkdir ff path (volume s) in (zero_or_neg res, s\<lparr>volume := v\<rparr>))"

definition v_unlink :: "('fil, 'dir, 'vol) fatfs \<Rightarrow> path \<Rightarrow> ('fil, 'dir, 'vol) vfs \<Rightarrow> int \<times> ('fil, 'dir, 'vol) vfs" where
  "v_unlink ff path s = (let (res, v) = f_unlink ff path (volume s) in (zero_or_neg res, s\<lparr>volume := v\<rparr>))"

text \<open>\<open>None\<close> is a NULL pointer.\<close>

definition v_rename ::
    "('fil, 'dir, 'vol) fatfs \<Rightarrow> path option \<Rightarrow> path option \<Rightarrow> ('fil, 'dir, 'vol) vfs \<Rightarrow> int \<times> ('fil, 'dir, 'vol) vfs" where
  "v_rename ff src dst s =
     (case (src, dst) of
        (Some a, Some b) \<Rightarrow> let (res, v) = f_rename ff a b (volume s) in (zero_or_neg res, s\<lparr>volume := v\<rparr>)
      | _ \<Rightarrow> (- 1, s))"

definition kib_of :: "u32 \<Rightarrow> u64 \<Rightarrow> u32" where
  "kib_of clusters per_cluster = ucast (ucast clusters * per_cluster div 1024)"

text \<open>The two outputs, when their pointers are not NULL.\<close>

definition v_getfree ::
    "('fil, 'dir, 'vol) fatfs \<Rightarrow> path option \<Rightarrow> bool \<Rightarrow> bool \<Rightarrow> ('fil, 'dir, 'vol) vfs \<Rightarrow>
      int \<times> u32 option \<times> u32 option \<times> ('fil, 'dir, 'vol) vfs" where
  "v_getfree ff drive want_total want_free s =
     (let (res, nfree, csize, n_fatent, v) = f_getfree ff (case drive of None \<Rightarrow> [] | Some p \<Rightarrow> p) (volume s);
          s = s\<lparr>volume := v\<rparr>
      in if res \<noteq> FR_OK then (neg_res res, None, None, s)
         else
           let sector = 512 :: u64;
               per_cluster = ucast csize * sector
           in (0, if want_total then Some (kib_of (n_fatent - 2) per_cluster) else None,
               if want_free then Some (kib_of nfree per_cluster) else None, s))"

definition v_sync :: "('fil, 'dir, 'vol) fatfs \<Rightarrow> int \<Rightarrow> ('fil, 'dir, 'vol) vfs \<Rightarrow> int \<times> ('fil, 'dir, 'vol) vfs" where
  "v_sync ff fd s =
     (if bad_fd fd s then (- 1, s)
      else
        let (res, fil, v) = f_sync ff (open_files s ! nat fd) (volume s);
            s = s\<lparr>open_files := (open_files s)[nat fd := fil], volume := v\<rparr>
        in (zero_or_neg res, s))"

text \<open>The loop writes zeros; \<open>Inl\<close> is a return from inside it, \<open>Inr\<close> the file when all is written.\<close>

function prealloc_loop ::
    "('fil, 'dir, 'vol) fatfs \<Rightarrow> 'fil \<Rightarrow> 'vol \<Rightarrow> u32 \<Rightarrow> int \<times> 'vol + 'fil \<times> 'vol" where
  "prealloc_loop ff fil v remaining =
     (if remaining > 0 then
        let chunk = (if remaining < 512 then remaining else 512);
            (res, bw, fil, v) = f_write ff fil (replicate (unat chunk) 0) v
        in if res \<noteq> FR_OK \<or> bw \<noteq> chunk then
             let (_, fil, v) = f_close ff fil v
             in Inl (if res \<noteq> FR_OK then neg_res res else - 1, v)
           else prealloc_loop ff fil v (remaining - bw)
      else Inr (fil, v))"
  by pat_completeness auto
termination
proof (relation "measure (\<lambda>(ff, fil, v, remaining). unat remaining)")
  fix remaining bw chunk :: u32 and res
  assume "remaining > 0" "chunk = (if remaining < 512 then remaining else 512)" "\<not> (res \<noteq> FR_OK \<or> bw \<noteq> chunk)"
  then have "bw \<le> remaining" "0 < bw" by (auto simp: not_less split: if_splits)
  then have "unat (remaining - bw) = unat remaining - unat bw" "0 < unat bw" "unat bw \<le> unat remaining"
    by (simp_all add: unat_sub word_le_nat_alt unat_gt_0 word_gt_0)
  then show "((ff, fil'', v'', remaining - bw), ff, fil, v, remaining) \<in> measure (\<lambda>(ff, fil, v, remaining). unat remaining)"
    for ff :: "('a, 'b, 'c) fatfs" and fil fil'' v v'' by simp
qed simp

declare prealloc_loop.simps [simp del]

text \<open>\<open>junk\<close> is the file object on the stack. The results of the final sync and close are not looked at.\<close>

definition v_preallocate ::
    "('fil, 'dir, 'vol) fatfs \<Rightarrow> 'fil \<Rightarrow> path \<Rightarrow> u32 \<Rightarrow> ('fil, 'dir, 'vol) vfs \<Rightarrow> int \<times> ('fil, 'dir, 'vol) vfs" where
  "v_preallocate ff junk path nbytes s =
     (let (res, fil, v) = f_open ff junk path (FA_CREATE_NEW OR FA_WRITE) (volume s)
      in if res = FR_EXIST then (0, s\<lparr>volume := v\<rparr>)
         else if res \<noteq> FR_OK then (neg_res res, s\<lparr>volume := v\<rparr>)
         else case prealloc_loop ff fil v nbytes of
           Inl (r, v) \<Rightarrow> (r, s\<lparr>volume := v\<rparr>)
         | Inr (fil, v) \<Rightarrow>
             let (_, fil, v) = f_sync ff fil v;
                 (_, fil, v) = f_close ff fil v
             in (0, s\<lparr>volume := v\<rparr>))"

record v_stat_t =
  st_size :: u32
  st_mtime :: u32
  st_is_dir :: u8
  st_exists :: u8

text \<open>\<open>None\<close> for \<open>st\<close> is NULL; \<open>st\<close> is what the structure held.\<close>

definition v_stat ::
    "('fil, 'dir, 'vol) fatfs \<Rightarrow> path \<Rightarrow> v_stat_t option \<Rightarrow> ('fil, 'dir, 'vol) vfs \<Rightarrow> int \<times> v_stat_t option" where
  "v_stat ff path st s =
     (case st of None \<Rightarrow> (- 1, None)
      | Some t \<Rightarrow>
          let (res, fno) = f_stat ff path (volume s)
          in if res \<noteq> FR_OK then (neg_res res, Some (t\<lparr>st_exists := 0\<rparr>))
             else (0, Some \<lparr>st_size = fsize fno, st_mtime = push_bit 16 (ucast (fdate fno)) OR ucast (ftime fno),
               st_is_dir = (if fattrib fno AND AM_DIR \<noteq> 0 then 1 else 0), st_exists = 1\<rparr>))"

definition v_opendir ::
    "('fil, 'dir, 'vol) fatfs \<Rightarrow> path \<Rightarrow> ('fil, 'dir, 'vol) vfs \<Rightarrow> int \<times> ('fil, 'dir, 'vol) vfs" where
  "v_opendir ff path s =
     (let d = find_slot (dir_in_use s) 0
      in if d = - 1 then (- 1, s)
         else
           let (res, dobj) = f_opendir ff (dir_objs s ! nat d) path (volume s);
               s = s\<lparr>dir_objs := (dir_objs s)[nat d := dobj]\<rparr>
           in if res \<noteq> FR_OK then (neg_res res, s)
              else (d, s\<lparr>dir_in_use := (dir_in_use s)[nat d := True]\<rparr>))"

record v_dirent_t =
  ent_name :: "u8 list"
  ent_size :: u32
  ent_is_dir :: u8

text \<open>The copying loop of \<open>v_readdir\<close>, from index \<open>i\<close> on; \<open>n\<close> is \<open>V_NAME_MAX\<close>.\<close>

function copy_name :: "nat \<Rightarrow> u8 list \<Rightarrow> nat \<Rightarrow> u8 list \<Rightarrow> u8 list \<times> nat" where
  "copy_name n name i buf =
     (if i < n - 1 \<and> cstr name i \<noteq> 0 then copy_name n name (i + 1) (buf[i := cstr name i]) else (buf, i))"
  by pat_completeness auto
termination
  by (relation "measure (\<lambda>(n, name, i, buf). n - i)") auto

declare copy_name.simps [simp del]

definition v_readdir ::
    "nat \<Rightarrow> ('fil, 'dir, 'vol) fatfs \<Rightarrow> int \<Rightarrow> v_dirent_t option \<Rightarrow> ('fil, 'dir, 'vol) vfs \<Rightarrow>
      int \<times> v_dirent_t option \<times> ('fil, 'dir, 'vol) vfs" where
  "v_readdir V_NAME_MAX ff d ent s =
     (case ent of None \<Rightarrow> (- 1, None, s)
      | Some e \<Rightarrow>
          if bad_dir d s then (- 1, ent, s)
          else
            let (res, fno, dobj) = f_readdir ff (dir_objs s ! nat d) (volume s);
                s = s\<lparr>dir_objs := (dir_objs s)[nat d := dobj]\<rparr>
            in if res \<noteq> FR_OK then (neg_res res, ent, s)
               else if cstr (fname fno) 0 = 0 then (0, ent, s)
               else let (name, i) = copy_name V_NAME_MAX (fname fno) 0 (ent_name e)
                    in (1, Some \<lparr>ent_name = name[i := 0], ent_size = fsize fno,
                          ent_is_dir = (if fattrib fno AND AM_DIR \<noteq> 0 then 1 else 0)\<rparr>, s))"

definition v_closedir :: "('fil, 'dir, 'vol) fatfs \<Rightarrow> int \<Rightarrow> ('fil, 'dir, 'vol) vfs \<Rightarrow> int \<times> ('fil, 'dir, 'vol) vfs" where
  "v_closedir ff d s =
     (if bad_dir d s then (- 1, s)
      else
        let (res, dobj) = f_closedir ff (dir_objs s ! nat d) (volume s);
            s = s\<lparr>dir_objs := (dir_objs s)[nat d := dobj]\<rparr>
        in (zero_or_neg res, s\<lparr>dir_in_use := (dir_in_use s)[nat d := False]\<rparr>))"

section \<open>The descriptor tables\<close>

definition vfs_wf :: "('fil, 'dir, 'vol) vfs \<Rightarrow> bool" where
  "vfs_wf s \<longleftrightarrow> length (open_files s) = 4 \<and> length (file_in_use s) = 4 \<and> length (dir_objs s) = 2 \<and>
     length (dir_in_use s) = 2"

lemma find_slot_full: "\<forall>u\<in>set us. u \<Longrightarrow> find_slot us i = - 1"
  by (induction us arbitrary: i) auto

lemma find_slot_at: "k < length us \<Longrightarrow> \<not> us ! k \<Longrightarrow> \<forall>j<k. us ! j \<Longrightarrow> find_slot us i = i + int k"
proof (induction us arbitrary: i k)
  case (Cons u us)
  show ?case
  proof (cases k)
    case (Suc l)
    then have "u" "\<forall>j<l. us ! j" using Cons.prems(3) by fastforce+
    then show ?thesis using Cons.IH [of l "i + 1"] Cons.prems Suc by simp
  qed (use Cons.prems in simp)
qed simp

text \<open>\<open>find_slot\<close> at 0: the least free descriptor.\<close>

lemma find_slot_0:
  "find_slot us 0 = - 1 \<longleftrightarrow> (\<forall>u\<in>set us. u)"
  "find_slot us 0 \<noteq> - 1 \<Longrightarrow> 0 \<le> find_slot us 0 \<and> nat (find_slot us 0) < length us \<and> \<not> us ! nat (find_slot us 0)"
proof -
  have free: "\<exists>k<length us. find_slot us 0 = int k \<and> \<not> us ! k" if "\<not> (\<forall>u\<in>set us. u)"
  proof -
    let ?P = "\<lambda>k. k < length us \<and> \<not> us ! k"
    note nf = that
    obtain u where u: "u \<in> set us" "\<not> u" using nf by blast
    then obtain m where "m < length us" "us ! m = u" by (metis in_set_conv_nth)
    then have "?P m" using u(2) by simp
    then have P: "?P (LEAST k. ?P k)" by (rule LeastI)
    have "us ! j" if "j < (LEAST k. ?P k)" for j using not_less_Least [OF that] less_trans [OF that conjunct1 [OF P]] by blast
    then have "find_slot us 0 = 0 + int (LEAST k. ?P k)" using P by (intro find_slot_at) blast+
    then show ?thesis using P by (metis add_0)
  qed
  then show "find_slot us 0 = - 1 \<longleftrightarrow> (\<forall>u\<in>set us. u)" using find_slot_full by fastforce
  show "find_slot us 0 \<noteq> - 1 \<Longrightarrow> 0 \<le> find_slot us 0 \<and> nat (find_slot us 0) < length us \<and> \<not> us ! nat (find_slot us 0)"
    using free find_slot_full [of us 0] by fastforce
qed

text \<open>A call: the number of the operation is not kept, only what it may do to the tables.\<close>

datatype vfs_op =
    Op_init | Op_open path u32 | Op_close int | Op_read int u32 | Op_write int "u8 list" | Op_lseek int u32 int
  | Op_mkdir path | Op_unlink path | Op_rename "path option" "path option" | Op_getfree "path option"
  | Op_sync int | Op_preallocate path u32 | Op_opendir path | Op_readdir int "v_dirent_t option" | Op_closedir int

primrec vfs_step ::
    "('fil, 'dir, 'vol) fatfs \<Rightarrow> 'fil \<Rightarrow> vfs_op \<Rightarrow> ('fil, 'dir, 'vol) vfs \<Rightarrow> int \<times> ('fil, 'dir, 'vol) vfs" where
  "vfs_step ff junk Op_init s = v_fs_init ff s"
| "vfs_step ff junk (Op_open p f) s = v_open ff p f s"
| "vfs_step ff junk (Op_close fd) s = v_close ff fd s"
| "vfs_step ff junk (Op_read fd n) s = (case v_read ff fd n s of (r, b, s) \<Rightarrow> (r, s))"
| "vfs_step ff junk (Op_write fd b) s = v_write ff fd b s"
| "vfs_step ff junk (Op_lseek fd o1 w) s = v_lseek ff fd o1 w s"
| "vfs_step ff junk (Op_mkdir p) s = v_mkdir ff p s"
| "vfs_step ff junk (Op_unlink p) s = v_unlink ff p s"
| "vfs_step ff junk (Op_rename a b) s = v_rename ff a b s"
| "vfs_step ff junk (Op_getfree p) s = (case v_getfree ff p True True s of (r, a, b, s) \<Rightarrow> (r, s))"
| "vfs_step ff junk (Op_sync fd) s = v_sync ff fd s"
| "vfs_step ff junk (Op_preallocate p n) s = v_preallocate ff junk p n s"
| "vfs_step ff junk (Op_opendir p) s = v_opendir ff p s"
| "vfs_step ff junk (Op_readdir d e) s = (case v_readdir 13 ff d e s of (r, e, s) \<Rightarrow> (r, s))"
| "vfs_step ff junk (Op_closedir d) s = v_closedir ff d s"

lemmas vfs_op_defs = v_fs_init_def v_close_def v_read_def v_write_def v_lseek_def v_mkdir_def v_unlink_def v_rename_def
  v_getfree_def v_sync_def v_preallocate_def v_readdir_def v_closedir_def Let_def

text \<open>The descriptors a client holds: what opens returned and closes gave back.\<close>

definition held_files :: "vfs_op \<Rightarrow> int \<Rightarrow> int set \<Rightarrow> int set" where
  "held_files op r H = (case op of Op_open p f \<Rightarrow> if 0 \<le> r then insert r H else H | Op_close fd \<Rightarrow> H - {fd} | _ \<Rightarrow> H)"

definition held_dirs :: "vfs_op \<Rightarrow> int \<Rightarrow> int set \<Rightarrow> int set" where
  "held_dirs op r D = (case op of Op_opendir p \<Rightarrow> if 0 \<le> r then insert r D else D | Op_closedir d \<Rightarrow> D - {d} | _ \<Rightarrow> D)"

primrec vfs_run ::
    "('fil, 'dir, 'vol) fatfs \<Rightarrow> 'fil \<Rightarrow> vfs_op list \<Rightarrow> ('fil, 'dir, 'vol) vfs \<Rightarrow> int set \<Rightarrow> int set \<Rightarrow>
      ('fil, 'dir, 'vol) vfs \<times> int set \<times> int set" where
  "vfs_run ff junk [] s H D = (s, H, D)"
| "vfs_run ff junk (op # ops) s H D =
     (case vfs_step ff junk op s of (r, s') \<Rightarrow> vfs_run ff junk ops s' (held_files op r H) (held_dirs op r D))"

definition used :: "bool list \<Rightarrow> int set" where
  "used us = {int i | i. i < length us \<and> us ! i}"

definition vfs_inv :: "('fil, 'dir, 'vol) vfs \<Rightarrow> int set \<Rightarrow> int set \<Rightarrow> bool" where
  "vfs_inv s H D \<longleftrightarrow> vfs_wf s \<and> H = used (file_in_use s) \<and> D = used (dir_in_use s)"

lemma used_set: "k < length us \<Longrightarrow> used (us[k := True]) = insert (int k) (used us)"
  by (auto simp: used_def nth_list_update)

lemma used_clear: "used (us[k := False]) = used us - {int k}"
  by (cases "k < length us") (auto simp: used_def nth_list_update split: if_splits)

lemma neg_res_neg: "res \<noteq> FR_OK \<Longrightarrow> neg_res res < 0"
  by (cases res) (simp_all add: neg_res_def)

lemma open_step:
  assumes "v_open ff p f s = (r, s')" "vfs_wf s"
  shows "file_in_use s' = (if 0 \<le> r then (file_in_use s)[nat r := True] else file_in_use s) \<and> dir_in_use s' = dir_in_use s \<and>
    (0 \<le> r \<longrightarrow> nat r < 4 \<and> \<not> file_in_use s ! nat r) \<and>
    (\<forall>j. j < 4 \<longrightarrow> file_in_use s ! j \<longrightarrow> open_files s' ! j = open_files s ! j)"
proof (cases "find_slot (file_in_use s) 0 = - 1")
  case True
  then show ?thesis using assms by (auto simp: v_open_def)
next
  case False
  let ?d = "find_slot (file_in_use s) 0"
  note d = find_slot_0(2) [OF False]
  obtain res fil v where o: "f_open ff (open_files s ! nat ?d) p (open_mode f) (volume s) = (res, fil, v)"
    by (cases "f_open ff (open_files s ! nat ?d) p (open_mode f) (volume s)")
  have "r = (if res = FR_OK then ?d else neg_res res)"
    "s' = (let s = s\<lparr>open_files := (open_files s)[nat ?d := fil], volume := v\<rparr> in
       if res = FR_OK then s\<lparr>file_in_use := (file_in_use s)[nat ?d := True]\<rparr> else s)"
    using assms(1) False o by (auto simp: v_open_def Let_def split: if_splits)
  then show ?thesis using d neg_res_neg [of res] assms(2)
    by (auto simp: Let_def vfs_wf_def nth_list_update)
qed

lemma opendir_step:
  assumes "v_opendir ff p s = (r, s')" "vfs_wf s"
  shows "dir_in_use s' = (if 0 \<le> r then (dir_in_use s)[nat r := True] else dir_in_use s) \<and>
    (0 \<le> r \<longrightarrow> nat r < 2 \<and> \<not> dir_in_use s ! nat r) \<and> file_in_use s' = file_in_use s \<and> open_files s' = open_files s"
proof (cases "find_slot (dir_in_use s) 0 = - 1")
  case True
  then show ?thesis using assms by (auto simp: v_opendir_def)
next
  case False
  let ?d = "find_slot (dir_in_use s) 0"
  note d = find_slot_0(2) [OF False]
  obtain res dobj where o: "f_opendir ff (dir_objs s ! nat ?d) p (volume s) = (res, dobj)"
    by (cases "f_opendir ff (dir_objs s ! nat ?d) p (volume s)")
  have "r = (if res = FR_OK then ?d else neg_res res)"
    "s' = (let s = s\<lparr>dir_objs := (dir_objs s)[nat ?d := dobj]\<rparr> in
       if res = FR_OK then s\<lparr>dir_in_use := (dir_in_use s)[nat ?d := True]\<rparr> else s)"
    using assms(1) False o by (auto simp: v_opendir_def Let_def split: if_splits)
  then show ?thesis using d neg_res_neg [of res] assms(2) by (auto simp: Let_def vfs_wf_def)
qed

lemma step_wf: "vfs_wf s \<Longrightarrow> vfs_step ff junk op s = (r, s') \<Longrightarrow> vfs_wf s'"
  by (cases op) (auto simp: vfs_wf_def vfs_op_defs v_open_def v_opendir_def
      split: prod.splits if_splits option.splits sum.splits)

text \<open>The other calls leave the tables, and the closes only clear their own entry.\<close>

lemma other_step:
  assumes "vfs_step ff junk op s = (r, s')" "\<And>p f. op \<noteq> Op_open p f" "\<And>p. op \<noteq> Op_opendir p"
  shows "file_in_use s' = (case op of Op_close fd \<Rightarrow> if bad_fd fd s then file_in_use s else (file_in_use s)[nat fd := False]
      | _ \<Rightarrow> file_in_use s) \<and>
    dir_in_use s' = (case op of Op_closedir d \<Rightarrow> if bad_dir d s then dir_in_use s else (dir_in_use s)[nat d := False]
      | _ \<Rightarrow> dir_in_use s)"
  using assms by (cases op) (auto simp: vfs_op_defs split: prod.splits if_splits option.splits sum.splits)

lemma used_iff: "length us = n \<Longrightarrow> x \<in> used us \<longleftrightarrow> 0 \<le> x \<and> x < int n \<and> us ! nat x"
  by (auto simp: used_def intro!: exI [of _ "nat x"])

lemma bad_fd_used: "vfs_wf s \<Longrightarrow> bad_fd fd s \<longleftrightarrow> fd \<notin> used (file_in_use s)"
  using used_iff [of "file_in_use s" 4 fd] by (auto simp: bad_fd_def MAX_OPEN_FILES_def vfs_wf_def)

lemma bad_dir_used: "vfs_wf s \<Longrightarrow> bad_dir d s \<longleftrightarrow> d \<notin> used (dir_in_use s)"
  using used_iff [of "dir_in_use s" 2 d] by (auto simp: bad_dir_def MAX_OPEN_DIRS_def vfs_wf_def)

lemma step_inv:
  assumes inv: "vfs_inv s H D" and st: "vfs_step ff junk op s = (r, s')"
  shows "vfs_inv s' (held_files op r H) (held_dirs op r D)"
proof -
  have wf: "vfs_wf s" "H = used (file_in_use s)" "D = used (dir_in_use s)" using inv by (simp_all add: vfs_inv_def)
  have "used (file_in_use s') = held_files op r H \<and> used (dir_in_use s') = held_dirs op r D"
  proof (cases "(\<exists>p f. op = Op_open p f) \<or> (\<exists>p. op = Op_opendir p)")
    case True
    then show ?thesis
    proof (elim disjE exE)
      fix p f assume o: "op = Op_open p f"
      then have "v_open ff p f s = (r, s')" using st by simp
      from open_step [OF this wf(1)] show ?thesis using o wf used_set [of "nat r" "file_in_use s"]
        by (auto simp: held_files_def held_dirs_def vfs_wf_def)
    next
      fix p assume o: "op = Op_opendir p"
      then have "v_opendir ff p s = (r, s')" using st by simp
      from opendir_step [OF this wf(1)] show ?thesis using o wf used_set [of "nat r" "dir_in_use s"]
        by (auto simp: held_files_def held_dirs_def vfs_wf_def)
    qed
  next
    case False
    then have o: "file_in_use s' = (case op of Op_close fd \<Rightarrow> if bad_fd fd s then file_in_use s else (file_in_use s)[nat fd := False]
        | _ \<Rightarrow> file_in_use s)"
      "dir_in_use s' = (case op of Op_closedir d \<Rightarrow> if bad_dir d s then dir_in_use s else (dir_in_use s)[nat d := False]
        | _ \<Rightarrow> dir_in_use s)"
      using other_step [OF st] by blast+
    have nn: "0 \<le> fd" if "\<not> bad_fd fd s \<or> \<not> bad_dir fd s" for fd using that by (auto simp: bad_fd_def bad_dir_def)
    show ?thesis using o False wf nn bad_fd_used [OF wf(1)] bad_dir_used [OF wf(1)]
      by (cases op) (auto simp: held_files_def held_dirs_def used_clear)
  qed
  then show ?thesis using step_wf [OF wf(1) st] by (simp add: vfs_inv_def)
qed

lemma run_inv: "vfs_inv s H D \<Longrightarrow> vfs_run ff junk ops s H D = (s', H', D') \<Longrightarrow> vfs_inv s' H' D'"
proof (induction ops arbitrary: s H D)
  case (Cons op ops)
  obtain r t where st: "vfs_step ff junk op s = (r, t)" by (cases "vfs_step ff junk op s")
  from step_inv [OF Cons.prems(1) st] show ?case using Cons.IH Cons.prems(2) st by simp
qed simp

text \<open>A call on one descriptor leaves the file objects of the others alone.\<close>

definition target_fd :: "vfs_op \<Rightarrow> int" where
  "target_fd op = (case op of Op_close fd \<Rightarrow> fd | Op_read fd n \<Rightarrow> fd | Op_write fd b \<Rightarrow> fd | Op_lseek fd o1 w \<Rightarrow> fd
     | Op_sync fd \<Rightarrow> fd | _ \<Rightarrow> - 1)"

lemma step_isolated:
  assumes wf: "vfs_wf s" and st: "vfs_step ff junk op s = (r, s')"
    and j: "j < 4" "file_in_use s ! j" "target_fd op \<noteq> int j"
  shows "open_files s' ! j = open_files s ! j"
proof (cases "(\<exists>p f. op = Op_open p f) \<or> (\<exists>p. op = Op_opendir p)")
  case True
  then show ?thesis using st wf j open_step opendir_step by fastforce
next
  case False
  have ne: "nat fd \<noteq> j" if "\<not> bad_fd fd s" "fd \<noteq> int j" for fd using that by (auto simp: bad_fd_def)
  show ?thesis using False st j(3) ne
    by (cases op) (auto simp: vfs_op_defs target_fd_def split: prod.splits if_splits option.splits sum.splits)
qed

section \<open>Preallocation\<close>

text \<open>The sizes of the writes, and writing them all: the specification of the loop.\<close>

function chunks :: "nat \<Rightarrow> nat list" where
  "chunks n = (if n = 0 then [] else if n < 512 then [n] else 512 # chunks (n - 512))"
  by pat_completeness auto
termination
  by (relation "measure id") auto

declare chunks.simps [simp del]

lemma chunks_sum: "sum_list (chunks n) = n"
proof (induction n rule: chunks.induct)
  case (1 n)
  then show ?case by (subst chunks.simps) auto
qed

lemma chunks_small: "c \<in> set (chunks n) \<Longrightarrow> 0 < c \<and> c \<le> 512"
proof (induction n rule: chunks.induct)
  case (1 n)
  have "chunks n = (if n = 0 then [] else if n < 512 then [n] else 512 # chunks (n - 512))" by (rule chunks.simps)
  then show ?case using 1 by (cases "n = 0"; cases "n < 512") auto
qed

primrec write_all :: "('fil, 'dir, 'vol) fatfs \<Rightarrow> nat list \<Rightarrow> 'fil \<Rightarrow> 'vol \<Rightarrow> ('fil \<times> 'vol) option" where
  "write_all ff [] fil v = Some (fil, v)"
| "write_all ff (c # cs) fil v =
     (case f_write ff fil (replicate c 0) v of (res, bw, fil, v) \<Rightarrow>
        if res = FR_OK \<and> bw = word_of_nat c then write_all ff cs fil v else None)"

lemma prealloc_loop_spec:
  "(case prealloc_loop ff fil v n of Inl (r, v') \<Rightarrow> r < 0 \<and> write_all ff (chunks (unat n)) fil v = None
    | Inr x \<Rightarrow> write_all ff (chunks (unat n)) fil v = Some x)"
proof (induction ff fil v n rule: prealloc_loop.induct)
  case (1 ff fil v n)
  show ?case
  proof (cases "n > 0")
    case True
    let ?c = "if n < 512 then n else 512"
    have un: "unat n \<noteq> 0" using True by (simp add: unat_gt_0 word_gt_0)
    have lt: "n < 512 \<longleftrightarrow> unat n < 512" by (simp add: word_less_nat_alt)
    have d: "unat (n - 512) = unat n - 512" if "\<not> n < 512" using that by (subst unat_sub) (auto simp: not_less)
    have z: "chunks (unat (n - ?c)) = (if n < 512 then [] else chunks (unat n - 512))"
      using d by (simp add: chunks.simps [of 0])
    have ch: "chunks (unat n) = unat ?c # chunks (unat (n - ?c))"
      unfolding z by (subst chunks.simps) (simp add: un lt)
    obtain res bw fil1 v1 where w: "f_write ff fil (replicate (unat ?c) 0) v = (res, bw, fil1, v1)"
      by (cases "f_write ff fil (replicate (unat ?c) 0) v") auto
    show ?thesis
    proof (cases "res = FR_OK \<and> bw = ?c")
      case ok: True
      then have "prealloc_loop ff fil v n = prealloc_loop ff fil1 v1 (n - bw)"
        using True w by (subst prealloc_loop.simps) (simp add: Let_def)
      moreover have "write_all ff (chunks (unat n)) fil v = write_all ff (chunks (unat (n - bw))) fil1 v1"
        using ok w by (simp only: ch write_all.simps) simp
      moreover have "case prealloc_loop ff fil1 v1 (n - bw) of Inl (r, v') \<Rightarrow> r < 0 \<and> write_all ff (chunks (unat (n - bw))) fil1 v1 = None
          | Inr x \<Rightarrow> write_all ff (chunks (unat (n - bw))) fil1 v1 = Some x"
        using 1 [OF True refl w [symmetric] refl refl] ok by auto
      ultimately show ?thesis by (simp split: sum.splits prod.splits)
    next
      case bad: False
      then have "write_all ff (chunks (unat n)) fil v = None" using w by (simp only: ch write_all.simps) auto
      moreover have "\<exists>v'. prealloc_loop ff fil v n = Inl (if res \<noteq> FR_OK then neg_res res else - 1, v')"
        using True bad w by (subst prealloc_loop.simps) (auto simp: Let_def split: prod.split)
      ultimately show ?thesis using neg_res_neg [of res] by auto
    qed
  next
    case False
    then have "n = 0" by (simp add: word_gt_0)
    then show ?thesis by (subst prealloc_loop.simps) (simp add: chunks.simps)
  qed
qed

section \<open>Seeking, modes and names\<close>

lemma uint_add_sint: "uint (a + b) = (uint a + sint b) mod 2 ^ 32" for a b :: u32
proof -
  have "a + b = word_of_int (uint a + sint b)" by simp
  then show ?thesis by (simp add: uint_word_of_int del: of_int_add)
qed

lemma open_mode_access: "flags AND 3 \<noteq> 0 \<Longrightarrow> open_mode flags AND 3 = 3"
  by (simp add: open_mode_def Let_def FA_READ_def FA_WRITE_def FA_OPEN_ALWAYS_def FA_CREATE_ALWAYS_def
      FA_OPEN_APPEND_def V_O_RDWR_def)

lemma copy_name_value:
  assumes "0 \<notin> set name" "length buf = n" "0 < n" "i \<le> n - 1" "i \<le> length name" "take i buf = take i name"
  shows "string_at ((fst (copy_name n name i buf))[snd (copy_name n name i buf) := 0]) 0 = take (n - 1) name"
  using assms
proof (induction n name i buf rule: copy_name.induct)
  case (1 n name i buf)
  show ?case
  proof (cases "i < n - 1 \<and> i < length name")
    case True
    then have c: "cstr name i = name ! i" "name ! i \<noteq> 0" using 1(2) by (auto simp: cstr_def) (metis nth_mem)
    have "i < length buf" using True 1(3) by linarith
    then have "take (i + 1) (buf[i := name ! i]) = take (i + 1) name"
      using True 1(3,7) take_Suc_conv_app_nth [of i "buf[i := name ! i]"] take_Suc_conv_app_nth [of i name]
      by simp
    then have "string_at ((fst (copy_name n name (i + 1) (buf[i := name ! i])))[snd (copy_name n name (i + 1) (buf[i := name ! i])) := 0]) 0 =
        take (n - 1) name"
      using 1(1) c True 1(2-6) by simp
    then show ?thesis using True c by (subst (1 2) copy_name.simps) simp
  next
    case False
    then have s: "copy_name n name i buf = (buf, i)" by (subst copy_name.simps) (auto simp: cstr_def)
    have i: "i < length buf" using 1(3,4,5) by linarith
    have "i = n - 1 \<or> i = length name" using False 1(5,6) by auto
    then have t: "take (n - 1) name = take i buf" using 1(5,7) by auto
    have "buf[i := 0] = take i buf @ 0 # drop (i + 1) buf" using i by (simp add: upd_conv_take_nth_drop)
    moreover have "c \<noteq> 0" if "c \<in> set (take i buf)" for c using that 1(2,7) by (metis in_set_takeD)
    ultimately show ?thesis using s t by (simp add: string_at_def takeWhile_append2)
  qed
qed


lemma seek_in_range: "uint (f_tell ff fil + offset) = uint (f_tell ff fil) + sint offset"
  if "0 \<le> uint (f_tell ff fil) + sint offset" "uint (f_tell ff fil) + sint offset < 2 ^ 32" for offset :: u32
  using that by (simp add: uint_add_sint)

text \<open>A position before the start of the file is not refused: it wraps to one near the top.\<close>

lemma seek_wraps: "seek_target ff fil (- 1) V_SEEK_SET = Some 0xFFFFFFFF"
  by (simp add: seek_target_def)

section \<open>What a client of the layer relies on\<close>

text \<open>The tables as the program starts with them.\<close>

definition vfs_start :: "('fil, 'dir, 'vol) vfs \<Rightarrow> bool" where
  "vfs_start s \<longleftrightarrow> vfs_wf s \<and> file_in_use s = replicate 4 False \<and> dir_in_use s = replicate 2 False"

lemma used_none: "used (replicate n False) = {}"
  by (auto simp: used_def)

lemma start_inv: "vfs_start s \<Longrightarrow> vfs_inv s {} {}"
  by (simp add: vfs_start_def vfs_inv_def used_none)

lemma used_range: "length us = n \<Longrightarrow> used us \<subseteq> {0..<int n}"
  by (auto simp: used_def)

lemma used_full: "length us = n \<Longrightarrow> used us = {0..<int n} \<longleftrightarrow> (\<forall>u\<in>set us. u)"
proof
  assume l: "length us = n" and u: "used us = {0..<int n}"
  have "us ! i" if "i < n" for i
    using used_iff [OF l, of "int i"] u that by simp
  then show "\<forall>u\<in>set us. u" using l by (simp add: all_set_conv_all_nth)
qed (auto simp: used_def all_set_conv_all_nth intro!: exI [of _ "nat _"])

text \<open>C38. Over any sequence of calls and whatever FatFs answers, the descriptors a client holds are exactly the
  busy entries of the tables: an open gives a descriptor nobody holds and is refused when all four are held, a
  call on a descriptor that is not held is refused without touching anything, a close gives its entry back even
  when FatFs reports an error, and no call touches the file object of another descriptor.
\<close>

theorem descriptor_tables_sound:
  assumes "vfs_start s" and "vfs_run ff junk ops s {} {} = (t, H, D)"
  shows "H \<subseteq> {0..<4} \<and> D \<subseteq> {0..<2} \<and>
    (case v_open ff p f t of (r, u) \<Rightarrow> if H = {0..<4} then r = - 1 \<and> u = t else r < 0 \<or> r \<in> {0..<4} - H) \<and>
    (fd \<notin> H \<longrightarrow> v_close ff fd t = (- 1, t) \<and> v_read ff fd n t = (- 1, [], t) \<and> v_write ff fd b t = (- 1, t) \<and>
      v_lseek ff fd off wh t = (- 1, t) \<and> v_sync ff fd t = (- 1, t)) \<and>
    used (file_in_use (snd (v_close ff fd t))) = H - {fd} \<and>
    (int j \<in> H \<longrightarrow> target_fd op \<noteq> int j \<longrightarrow> open_files (snd (vfs_step ff junk op t)) ! j = open_files t ! j)"
proof -
  have inv: "vfs_inv t H D" using run_inv [OF start_inv [OF assms(1)] assms(2)] .
  then have wf: "vfs_wf t" and H: "H = used (file_in_use t)" and D: "D = used (dir_in_use t)" by (auto simp: vfs_inv_def)
  have len: "length (file_in_use t) = 4" "length (dir_in_use t) = 2" using wf by (simp_all add: vfs_wf_def)
  have "H \<subseteq> {0..<4} \<and> D \<subseteq> {0..<2}" using used_range len H D by fastforce
  moreover have "case v_open ff p f t of (r, u) \<Rightarrow> if H = {0..<4} then r = - 1 \<and> u = t else r < 0 \<or> r \<in> {0..<4} - H"
  proof (cases "H = {0..<4}")
    case True
    then have "find_slot (file_in_use t) 0 = - 1" using used_full [OF len(1)] H find_slot_0(1) by auto
    then show ?thesis using True by (simp add: v_open_def)
  next
    case False
    obtain r u where o: "v_open ff p f t = (r, u)" by (cases "v_open ff p f t")
    from open_step [OF o wf] have "0 \<le> r \<longrightarrow> r \<in> {0..<4} - H" using used_iff [OF len(1)] H by auto
    then show ?thesis using o False by auto
  qed
  moreover have "fd \<notin> H \<longrightarrow> v_close ff fd t = (- 1, t) \<and> v_read ff fd n t = (- 1, [], t) \<and> v_write ff fd b t = (- 1, t) \<and>
      v_lseek ff fd off wh t = (- 1, t) \<and> v_sync ff fd t = (- 1, t)"
    using bad_fd_used [OF wf] H by (simp add: v_close_def v_read_def v_write_def v_lseek_def v_sync_def)
  moreover have "used (file_in_use (snd (v_close ff fd t))) = H - {fd}"
  proof -
    obtain r u where c: "vfs_step ff junk (Op_close fd) t = (r, u)" by (cases "vfs_step ff junk (Op_close fd) t")
    from step_inv [OF inv this] c show ?thesis by (simp add: vfs_inv_def held_files_def)
  qed
  moreover have "int j \<in> H \<longrightarrow> target_fd op \<noteq> int j \<longrightarrow> open_files (snd (vfs_step ff junk op t)) ! j = open_files t ! j"
    using step_isolated [OF wf, of ff junk op] used_iff [OF len(1)] H
    by (cases "vfs_step ff junk op t") auto
  ultimately show ?thesis by blast
qed

text \<open>C39. Preallocation reports 0 exactly when the file was already there or every byte of the size was written, in
  blocks of at most 512; any refused or short write makes it report an error.
\<close>

theorem preallocate_reports_the_writes:
  assumes "f_open ff junk p (FA_CREATE_NEW OR FA_WRITE) (volume s) = (res, fil, v)"
  shows "(fst (v_preallocate ff junk p n s) = 0 \<longleftrightarrow>
      res = FR_EXIST \<or> res = FR_OK \<and> (\<exists>x. write_all ff (chunks (unat n)) fil v = Some x)) \<and>
    fst (v_preallocate ff junk p n s) \<le> 0 \<and>
    sum_list (chunks (unat n)) = unat n \<and> (\<forall>c \<in> set (chunks (unat n)). 0 < c \<and> c \<le> 512)"
proof -
  let ?w = "write_all ff (chunks (unat n)) fil v"
  have "fst (v_preallocate ff junk p n s) =
      (if res = FR_EXIST then 0 else if res \<noteq> FR_OK then neg_res res
       else case prealloc_loop ff fil v n of Inl (r, v) \<Rightarrow> r | Inr _ \<Rightarrow> 0)"
    unfolding v_preallocate_def Let_def assms by (simp split: prod.split sum.split)
  moreover have "(case prealloc_loop ff fil v n of Inl (r, v) \<Rightarrow> r | Inr _ \<Rightarrow> 0) = 0 \<longleftrightarrow> (\<exists>x. ?w = Some x)"
    "(case prealloc_loop ff fil v n of Inl (r, v) \<Rightarrow> r | Inr _ \<Rightarrow> 0) \<le> 0"
    using prealloc_loop_spec [of ff n fil v] by (auto split: sum.splits)
  moreover have "neg_res res \<noteq> 0 \<and> neg_res res \<le> 0" if "res \<noteq> FR_OK" using neg_res_neg [OF that] by simp
  ultimately show ?thesis using chunks_small [of _ "unat n"] chunks_sum [of "unat n"] by auto
qed


section \<open>A small card\<close>

text \<open>
  A FatFs good enough to run the layer: a file is its name, the volume is the sizes of the files there are and
  the bytes left. Mode bit 4 refuses a file that exists, bits 8 and 16 create one.
\<close>

type_synonym card = "(path \<times> nat) list \<times> nat"

definition card_open :: "path \<Rightarrow> u8 \<Rightarrow> card \<Rightarrow> FRESULT \<times> path \<times> card" where
  "card_open p m v =
     (if map_of (fst v) p \<noteq> None then (if m AND FA_CREATE_NEW \<noteq> 0 then FR_EXIST else FR_OK, p, v)
      else if m AND (FA_CREATE_NEW OR FA_CREATE_ALWAYS OR FA_OPEN_ALWAYS) \<noteq> 0 then (FR_OK, p, ((p, 0) # fst v, snd v))
      else (FR_NO_FILE, p, v))"

definition card_write :: "path \<Rightarrow> u8 list \<Rightarrow> card \<Rightarrow> FRESULT \<times> u32 \<times> path \<times> card" where
  "card_write p b v =
     (let k = min (length b) (snd v)
      in (FR_OK, word_of_nat k, p,
          (map (\<lambda>(q, l). (q, if q = p then l + k else l)) (fst v), snd v - k)))"

definition small_card :: "(path, unit, card) fatfs" where
  "small_card =
     \<lparr>f_mount = \<lambda>v. (FR_OK, v), f_open = \<lambda>fil. card_open, f_close = \<lambda>fil v. (FR_OK, fil, v),
      f_read = \<lambda>fil n v. (FR_OK, [], 0, fil, v), f_write = card_write, f_lseek = \<lambda>fil n v. (FR_OK, fil, v),
      f_tell = \<lambda>fil. 0, f_size = \<lambda>fil. 0, f_sync = \<lambda>fil v. (FR_OK, fil, v), f_mkdir = \<lambda>p v. (FR_DENIED, v),
      f_unlink = \<lambda>p v. (FR_DENIED, v), f_rename = \<lambda>p q v. (FR_DENIED, v),
      f_getfree = \<lambda>p v. (FR_OK, word_of_nat (snd v div 512), 1, 10, v),
      f_stat = \<lambda>p v. (FR_NO_FILE, \<lparr>fsize = 0, fdate = 0, ftime = 0, fattrib = 0, fname = []\<rparr>),
      f_opendir = \<lambda>d p v. (FR_OK, ()), f_readdir = \<lambda>d v. (FR_OK, \<lparr>fsize = 0, fdate = 0, ftime = 0, fattrib = 0, fname = [0]\<rparr>, ()),
      f_closedir = \<lambda>d v. (FR_OK, ())\<rparr>"

definition card_start :: "card \<Rightarrow> (path, unit, card) vfs" where
  "card_start v =
     \<lparr>open_files = replicate 4 [], file_in_use = replicate 4 False, dir_objs = [(), ()], dir_in_use = [False, False],
      volume = v\<rparr>"

lemma card_start_ok: "vfs_start (card_start v)"
  by (simp add: vfs_start_def vfs_wf_def card_start_def numeral_eq_Suc)

lemma card_run:
  "vfs_run small_card [] [Op_open [97] 6, Op_open [98] 6, Op_close 0, Op_open [99] 6] (card_start ([], 2000)) {} {} =
     (\<lparr>open_files = [[99], [98], [], []], file_in_use = [True, True, False, False], dir_objs = [(), ()],
       dir_in_use = [False, False], volume = ([([99], 0), ([98], 0), ([97], 0)], 2000)\<rparr>, {0, 1}, {})"
  by code_simp

theorem descriptor_tables_sound_witness:
  "\<exists>t H D. vfs_run small_card [] [Op_open [97] 6, Op_open [98] 6, Op_close 0, Op_open [99] 6]
      (card_start ([], 2000)) {} {} = (t, H, D) \<and> H = {0, 1} \<and> v_sync small_card 2 t = (- 1, t)"
proof -
  note s = descriptor_tables_sound [OF card_start_ok card_run, of "[]" 0 2 0 "[]" 0 0 0 Op_init]
  show ?thesis using card_run s by auto
qed

theorem preallocate_reports_the_writes_witness:
  "fst (v_preallocate small_card [] [97] 600 (card_start ([], 2000))) = 0 \<and>
   fst (v_preallocate small_card [] [97] 600 (card_start ([], 300))) \<noteq> 0"
proof -
  have o: "f_open small_card [] [97] (FA_CREATE_NEW OR FA_WRITE) (volume (card_start ([], k))) = (FR_OK, [97], [([97], 0)], k)" for k
    by (simp add: small_card_def card_open_def card_start_def FA_CREATE_NEW_def FA_WRITE_def FA_CREATE_ALWAYS_def FA_OPEN_ALWAYS_def)
  have ch: "chunks (unat (600 :: u32)) = [512, 88]" by (simp add: chunks.simps)
  have "write_all small_card (chunks (unat (600 :: u32))) [97] ([([97], 0)], 2000) = Some ([97], [([97], 600)], 1400)"
    "write_all small_card (chunks (unat (600 :: u32))) [97] ([([97], 0)], 300) = None"
    unfolding ch by (simp_all add: small_card_def card_write_def)
  then show ?thesis
    using preallocate_reports_the_writes [OF o, of 600 2000] preallocate_reports_the_writes [OF o, of 600 300] by simp
qed

text \<open>A preallocation that failed for lack of room reports success on the next boot: the file is there.\<close>

lemma prealloc_failure_hidden:
  "v_preallocate small_card [] [97] 600 (card_start ([], 300)) = (- 1, card_start ([([97], 300)], 0)) \<and>
   v_preallocate small_card [] [97] 600 (card_start ([([97], 300)], 0)) = (0, card_start ([([97], 300)], 0))"
  by code_simp


lemma copy_name_length: "length (fst (copy_name n name i buf)) = length buf"
  by (induction n name i buf rule: copy_name.induct) (subst copy_name.simps, simp)

lemma copy_name_index: "i \<le> n - 1 \<Longrightarrow> snd (copy_name n name i buf) \<le> n - 1"
  by (induction n name i buf rule: copy_name.induct) (subst copy_name.simps, simp)


text \<open>The same card with a directory that lists one long name.\<close>

definition listing_card :: "u8 list \<Rightarrow> (path, unit, card) fatfs" where
  "listing_card name =
     small_card\<lparr>f_readdir := \<lambda>d v. (FR_OK, \<lparr>fsize = 7, fdate = 0, ftime = 0, fattrib = AM_DIR, fname = name\<rparr>, ())\<rparr>"


end
