(* ===== verification/Gpio.thy ===== *)
theory Gpio
  imports Prelude
begin

text \<open>
  GPIO: the STM32F4 backend src/vendor/stm32/gpio/gpio.c with its inline accessors
  (family/gpio_inline.h), behind src/common/hal_gpio.c. A pin is its number, sixteen to a port;
  the port register block is the environment's, of which BSRR is modelled as the reference manual
  gives it (a one in the low half sets, in the high half resets, set wins).
\<close>

section \<open>State and types\<close>

record gpio_port =
  MODER :: u32
  OTYPER :: u32
  OSPEEDR :: u32
  PUPDR :: u32
  IDR :: u32
  ODR :: u32
  AFRL :: u32
  AFRH :: u32

record gpio =
  RCC_AHB1ENR :: u32
  gpio_port_at :: "nat \<Rightarrow> gpio_port"

datatype hal_gpio_mode = HAL_GPIO_MODE_INPUT | HAL_GPIO_MODE_OUTPUT | HAL_GPIO_MODE_AF | HAL_GPIO_MODE_ANALOG
datatype hal_gpio_pull = HAL_GPIO_PULL_NONE | HAL_GPIO_PULL_UP | HAL_GPIO_PULL_DOWN
datatype hal_gpio_output_type = HAL_GPIO_OTYPE_PUSH_PULL | HAL_GPIO_OTYPE_OPEN_DRAIN
datatype hal_gpio_output_speed = HAL_GPIO_SPEED_LOW | HAL_GPIO_SPEED_MEDIUM | HAL_GPIO_SPEED_HIGH | HAL_GPIO_SPEED_VERY_HIGH

primrec mode_code :: "hal_gpio_mode \<Rightarrow> u32" where
  "mode_code HAL_GPIO_MODE_INPUT = 0" | "mode_code HAL_GPIO_MODE_OUTPUT = 1"
| "mode_code HAL_GPIO_MODE_AF = 2" | "mode_code HAL_GPIO_MODE_ANALOG = 3"

primrec pull_code :: "hal_gpio_pull \<Rightarrow> u32" where
  "pull_code HAL_GPIO_PULL_NONE = 0" | "pull_code HAL_GPIO_PULL_UP = 1" | "pull_code HAL_GPIO_PULL_DOWN = 2"

primrec otype_code :: "hal_gpio_output_type \<Rightarrow> u32" where
  "otype_code HAL_GPIO_OTYPE_PUSH_PULL = 0" | "otype_code HAL_GPIO_OTYPE_OPEN_DRAIN = 1"

primrec speed_code :: "hal_gpio_output_speed \<Rightarrow> u32" where
  "speed_code HAL_GPIO_SPEED_LOW = 0" | "speed_code HAL_GPIO_SPEED_MEDIUM = 1"
| "speed_code HAL_GPIO_SPEED_HIGH = 2" | "speed_code HAL_GPIO_SPEED_VERY_HIGH = 3"

text \<open>The alternate function is its number, below 16.\<close>

record hal_gpio_config =
  gc_mode :: hal_gpio_mode
  gc_pull :: hal_gpio_pull
  gc_output_type :: hal_gpio_output_type
  gc_output_speed :: hal_gpio_output_speed
  gc_alternate :: u32

section \<open>The backend\<close>

text \<open>Port 5 is port H, number 7.\<close>

definition GPIO_GET_PORT_NUMBER :: "nat \<Rightarrow> nat" where
  "GPIO_GET_PORT_NUMBER n = (if n div 16 = 5 then 7 else n div 16)"

definition GPIO_GET_PIN :: "nat \<Rightarrow> nat" where
  "GPIO_GET_PIN n = n mod 16"

abbreviation GPIO_GET_PORT :: "nat \<Rightarrow> 'm gpio_scheme \<Rightarrow> gpio_port" where
  "GPIO_GET_PORT n s \<equiv> gpio_port_at s (GPIO_GET_PORT_NUMBER n)"

definition port_update :: "nat \<Rightarrow> (gpio_port \<Rightarrow> gpio_port) \<Rightarrow> 'm gpio_scheme \<Rightarrow> 'm gpio_scheme" where
  "port_update n f s = s\<lparr>gpio_port_at := (gpio_port_at s)(GPIO_GET_PORT_NUMBER n := f (GPIO_GET_PORT n s))\<rparr>"

definition stm32_gpio_enable_clock :: "nat \<Rightarrow> 'm gpio_scheme \<Rightarrow> hal_status \<times> 'm gpio_scheme" where
  "stm32_gpio_enable_clock pin s =
     (let b = push_bit (GPIO_GET_PORT_NUMBER pin) 1 in
      (HAL_OK, if RCC_AHB1ENR s AND b = 0 then s\<lparr>RCC_AHB1ENR := RCC_AHB1ENR s OR b\<rparr> else s))"

definition stm32_gpio_set_mode ::
    "nat \<Rightarrow> hal_gpio_mode \<Rightarrow> hal_gpio_pull \<Rightarrow> 'm gpio_scheme \<Rightarrow> hal_status \<times> 'm gpio_scheme" where
  "stm32_gpio_set_mode pin m pl s =
     (let s = snd (stm32_gpio_enable_clock pin s);
          shift = GPIO_GET_PIN pin * 2;
          s = port_update pin (\<lambda>p. p\<lparr>MODER := MODER p AND NOT (push_bit shift 3)\<rparr>) s;
          s = port_update pin (\<lambda>p. p\<lparr>MODER := MODER p OR push_bit shift (mode_code m AND 3)\<rparr>) s;
          s = port_update pin (\<lambda>p. p\<lparr>PUPDR := PUPDR p AND NOT (push_bit shift 3)\<rparr>) s;
          s = port_update pin (\<lambda>p. p\<lparr>PUPDR := PUPDR p OR push_bit shift (pull_code pl AND 3)\<rparr>) s
      in (HAL_OK, s))"

definition stm32_gpio_get_mode :: "nat \<Rightarrow> 'm gpio_scheme \<Rightarrow> hal_gpio_mode" where
  "stm32_gpio_get_mode pin s =
     (let v = drop_bit (GPIO_GET_PIN pin * 2) (MODER (GPIO_GET_PORT pin s)) AND 3 in
      if v = 0 then HAL_GPIO_MODE_INPUT else if v = 1 then HAL_GPIO_MODE_OUTPUT
      else if v = 2 then HAL_GPIO_MODE_AF else HAL_GPIO_MODE_ANALOG)"

definition stm32_gpio_set_alternate_function :: "nat \<Rightarrow> u32 \<Rightarrow> 'm gpio_scheme \<Rightarrow> hal_status \<times> 'm gpio_scheme" where
  "stm32_gpio_set_alternate_function pin af s =
     (let s = snd (stm32_gpio_enable_clock pin s);
          mode_shift = GPIO_GET_PIN pin * 2;
          s = port_update pin (\<lambda>p. p\<lparr>MODER := MODER p AND NOT (push_bit mode_shift 3)\<rparr>) s;
          s = port_update pin (\<lambda>p. p\<lparr>MODER := MODER p OR push_bit mode_shift (mode_code HAL_GPIO_MODE_AF)\<rparr>) s;
          pin_num = GPIO_GET_PIN pin;
          mask = push_bit (4 * (pin_num mod 8)) 0xF
      in if pin_num < 8 then
           let s = port_update pin (\<lambda>p. p\<lparr>AFRL := AFRL p AND NOT mask\<rparr>) s;
               s = port_update pin (\<lambda>p. p\<lparr>AFRL := AFRL p OR push_bit (4 * pin_num) af\<rparr>) s
           in (HAL_OK, s)
         else
           let s = port_update pin (\<lambda>p. p\<lparr>AFRH := AFRH p AND NOT mask\<rparr>) s;
               s = port_update pin (\<lambda>p. p\<lparr>AFRH := AFRH p OR push_bit (4 * (pin_num mod 8)) af\<rparr>) s
           in (HAL_OK, s))"

definition stm32_gpio_set_output_type :: "nat \<Rightarrow> hal_gpio_output_type \<Rightarrow> 'm gpio_scheme \<Rightarrow> hal_status \<times> 'm gpio_scheme" where
  "stm32_gpio_set_output_type pin t s =
     (let s = port_update pin (\<lambda>p. p\<lparr>OTYPER := OTYPER p AND NOT (push_bit (GPIO_GET_PIN pin) 1)\<rparr>) s;
          s = port_update pin (\<lambda>p. p\<lparr>OTYPER := OTYPER p OR push_bit (GPIO_GET_PIN pin) (otype_code t AND 1)\<rparr>) s
      in (HAL_OK, s))"

definition stm32_gpio_set_output_speed :: "nat \<Rightarrow> hal_gpio_output_speed \<Rightarrow> 'm gpio_scheme \<Rightarrow> hal_status \<times> 'm gpio_scheme" where
  "stm32_gpio_set_output_speed pin sp s =
     (let shift = GPIO_GET_PIN pin * 2;
          s = port_update pin (\<lambda>p. p\<lparr>OSPEEDR := OSPEEDR p AND NOT (push_bit shift 3)\<rparr>) s;
          s = port_update pin (\<lambda>p. p\<lparr>OSPEEDR := OSPEEDR p OR push_bit shift (speed_code sp AND 3)\<rparr>) s
      in (HAL_OK, s))"

definition stm32_gpio_init :: "nat \<Rightarrow> hal_gpio_config \<Rightarrow> 'm gpio_scheme \<Rightarrow> hal_status \<times> 'm gpio_scheme" where
  "stm32_gpio_init pin cfg s =
     (let s = snd (stm32_gpio_set_mode pin (gc_mode cfg) (gc_pull cfg) s);
          s = (if gc_mode cfg = HAL_GPIO_MODE_OUTPUT \<or> gc_mode cfg = HAL_GPIO_MODE_AF then
                 let s = snd (stm32_gpio_set_output_type pin (gc_output_type cfg) s)
                 in snd (stm32_gpio_set_output_speed pin (gc_output_speed cfg) s)
               else s);
          s = (if gc_mode cfg = HAL_GPIO_MODE_AF then snd (stm32_gpio_set_alternate_function pin (gc_alternate cfg) s) else s)
      in (HAL_OK, s))"

section \<open>The accessors and the shared layer\<close>

definition BSRR_write :: "u32 \<Rightarrow> gpio_port \<Rightarrow> gpio_port" where
  "BSRR_write v p = p\<lparr>ODR := (ODR p AND NOT (drop_bit 16 v)) OR (v AND 0xFFFF)\<rparr>"

definition hal_gpio_write :: "nat \<Rightarrow> bool \<Rightarrow> 'm gpio_scheme \<Rightarrow> 'm gpio_scheme" where
  "hal_gpio_write pin high s =
     (if high then port_update pin (BSRR_write (push_bit (GPIO_GET_PIN pin) 1)) s
      else port_update pin (BSRR_write (push_bit (GPIO_GET_PIN pin + 16) 1)) s)"

definition hal_gpio_read :: "nat \<Rightarrow> 'm gpio_scheme \<Rightarrow> bool" where
  "hal_gpio_read pin s \<longleftrightarrow> drop_bit (GPIO_GET_PIN pin) (IDR (GPIO_GET_PORT pin s)) AND 1 \<noteq> 0"

definition hal_gpio_toggle :: "nat \<Rightarrow> 'm gpio_scheme \<Rightarrow> 'm gpio_scheme" where
  "hal_gpio_toggle pin s = port_update pin (\<lambda>p. p\<lparr>ODR := ODR p XOR push_bit (GPIO_GET_PIN pin) 1\<rparr>) s"

definition hal_gpio_init :: "nat \<Rightarrow> hal_gpio_config option \<Rightarrow> 'm gpio_scheme \<Rightarrow> hal_status \<times> 'm gpio_scheme" where
  "hal_gpio_init pin cfg s = (case cfg of None \<Rightarrow> (HAL_ERR_INVALID_ARG, s) | Some c \<Rightarrow> stm32_gpio_init pin c s)"

definition hal_gpio_set_mode ::
    "nat \<Rightarrow> hal_gpio_mode \<Rightarrow> hal_gpio_pull \<Rightarrow> 'm gpio_scheme \<Rightarrow> hal_status \<times> 'm gpio_scheme" where
  "hal_gpio_set_mode = stm32_gpio_set_mode"

definition hal_gpio_get_mode :: "nat \<Rightarrow> 'm gpio_scheme \<Rightarrow> hal_gpio_mode" where
  "hal_gpio_get_mode = stm32_gpio_get_mode"

definition hal_gpio_enable_clock :: "nat \<Rightarrow> 'm gpio_scheme \<Rightarrow> hal_status \<times> 'm gpio_scheme" where
  "hal_gpio_enable_clock = stm32_gpio_enable_clock"

definition hal_gpio_set_alternate_function :: "nat \<Rightarrow> u32 \<Rightarrow> 'm gpio_scheme \<Rightarrow> hal_status \<times> 'm gpio_scheme" where
  "hal_gpio_set_alternate_function = stm32_gpio_set_alternate_function"

definition hal_gpio_set_output_type :: "nat \<Rightarrow> hal_gpio_output_type \<Rightarrow> 'm gpio_scheme \<Rightarrow> hal_status \<times> 'm gpio_scheme" where
  "hal_gpio_set_output_type = stm32_gpio_set_output_type"

definition hal_gpio_set_output_speed :: "nat \<Rightarrow> hal_gpio_output_speed \<Rightarrow> 'm gpio_scheme \<Rightarrow> hal_status \<times> 'm gpio_scheme" where
  "hal_gpio_set_output_speed = stm32_gpio_set_output_speed"


section \<open>Register fields\<close>

text \<open>The field of \<open>w\<close> bits at \<open>k\<close>, and what the two masked stores make of it and of the others.\<close>

definition reg_field :: "nat \<Rightarrow> nat \<Rightarrow> 'a::len word \<Rightarrow> 'a word" where
  "reg_field w k r = take_bit w (drop_bit k r)"

lemma reg_field_set:
  assumes "m = mask w" "take_bit w v = v" "k + w \<le> LENGTH('a)"
  shows "reg_field w k ((r AND NOT (push_bit k m)) OR push_bit k v) = (v :: 'a::len word)"
proof -
  have v: "bit v n \<Longrightarrow> n < w" for n using assms(2) by (metis bit_take_bit_iff)
  show ?thesis unfolding assms(1) reg_field_def
    by (rule bit_word_eqI) (use v assms(3) in \<open>force simp: bit_simps\<close>)
qed

lemma reg_field_other:
  assumes "m = mask w" "take_bit w v = v" "k + w \<le> k' \<or> k' + w' \<le> k"
  shows "reg_field w' k' ((r AND NOT (push_bit k m)) OR push_bit k v) = reg_field w' k' (r :: 'a::len word)"
proof -
  have v: "bit v n \<Longrightarrow> n < w" for n using assms(2) by (metis bit_take_bit_iff)
  show ?thesis unfolding assms(1) reg_field_def
  proof (rule bit_word_eqI)
    fix n assume "n < LENGTH('a)"
    have "\<not> bit v (k' + n - k)" if "n < w'" "k \<le> k' + n" using that v assms(3) by fastforce
    moreover have "\<not> (k \<le> k' + n \<and> k' + n - k < w)" if "n < w'" using that assms(3) by auto
    ultimately show "bit (take_bit w' (drop_bit k' ((r AND NOT (push_bit k (mask w))) OR push_bit k v))) n = bit (take_bit w' (drop_bit k' r)) n"
      by (auto simp: bit_simps dest: bit_imp_le_length)
  qed
qed

lemma masks: "(1 :: u32) = mask 1" "(3 :: u32) = mask 2" "(0xF :: u32) = mask 4"
  by (simp_all add: mask_eq_exp_minus_1)

lemma codes_fit:
  "take_bit 2 (mode_code m) = mode_code m" "mode_code m AND 3 = mode_code m"
  "take_bit 2 (pull_code pl) = pull_code pl" "pull_code pl AND 3 = pull_code pl"
  "take_bit 1 (otype_code t) = otype_code t" "otype_code t AND 1 = otype_code t"
  "take_bit 2 (speed_code sp) = speed_code sp" "speed_code sp AND 3 = speed_code sp"
proof -
  show "take_bit 2 (mode_code m) = mode_code m" "mode_code m AND 3 = mode_code m" by (cases m; simp)+
  show "take_bit 2 (pull_code pl) = pull_code pl" "pull_code pl AND 3 = pull_code pl" by (cases pl; simp)+
  show "take_bit 1 (otype_code t) = otype_code t" "otype_code t AND 1 = otype_code t" by (cases t; simp)+
  show "take_bit 2 (speed_code sp) = speed_code sp" "speed_code sp AND 3 = speed_code sp" by (cases sp; simp)+
qed

section \<open>The configuration of a pin\<close>

record pin_cfg =
  pv_mode :: u32
  pv_pull :: u32
  pv_otype :: u32
  pv_speed :: u32
  pv_af :: u32

definition pin_view :: "nat \<Rightarrow> 'm gpio_scheme \<Rightarrow> pin_cfg" where
  "pin_view n s =
     (let p = GPIO_GET_PORT n s; i = GPIO_GET_PIN n in
      \<lparr>pv_mode = reg_field 2 (i * 2) (MODER p), pv_pull = reg_field 2 (i * 2) (PUPDR p),
       pv_otype = reg_field 1 i (OTYPER p), pv_speed = reg_field 2 (i * 2) (OSPEEDR p),
       pv_af = (if i < 8 then reg_field 4 (4 * i) (AFRL p) else reg_field 4 (4 * (i - 8)) (AFRH p))\<rparr>)"

text \<open>Two pins of the 96 share a port and a position only when they are the same pin.\<close>

lemma pin_position:
  assumes "q < 96" "n < 96" "q \<noteq> n" "GPIO_GET_PORT_NUMBER q = GPIO_GET_PORT_NUMBER n"
  shows "GPIO_GET_PIN q < GPIO_GET_PIN n \<or> GPIO_GET_PIN n < GPIO_GET_PIN q"
proof -
  have "q div 16 = n div 16" using assms(1,2,4) by (auto simp: GPIO_GET_PORT_NUMBER_def split: if_splits)
  then have "q mod 16 \<noteq> n mod 16" using assms(3) by (metis div_mult_mod_eq)
  then show ?thesis by (auto simp: GPIO_GET_PIN_def)
qed

lemma pin_below [simp]: "GPIO_GET_PIN n < 16"
  by (simp add: GPIO_GET_PIN_def)

lemma port_update_get [simp]:
  "GPIO_GET_PORT q (port_update n f s) = (if GPIO_GET_PORT_NUMBER q = GPIO_GET_PORT_NUMBER n then f (GPIO_GET_PORT n s) else GPIO_GET_PORT q s)"
  by (simp add: port_update_def)

lemma port_update_clock [simp]: "RCC_AHB1ENR (port_update n f s) = RCC_AHB1ENR s"
  by (simp add: port_update_def)

lemma port_update_twice: "port_update n g (port_update n f s) = port_update n (g \<circ> f) s"
  by (simp add: port_update_def)


text \<open>One lemma per masked store: the field of the pin becomes the value, every other pin keeps its own.\<close>

lemma store_mode:
  assumes "q < 96" "n < 96"
  shows "pin_view q (port_update n (\<lambda>p. p\<lparr>MODER := (MODER p AND NOT (push_bit (GPIO_GET_PIN n * 2) 3)) OR
      push_bit (GPIO_GET_PIN n * 2) (mode_code m)\<rparr>) s) =
    (if q = n then (pin_view q s)\<lparr>pv_mode := mode_code m\<rparr> else pin_view q s)"
proof -
  have f: "GPIO_GET_PIN n * 2 + 2 \<le> LENGTH(32)" using pin_below [of n] unfolding len_num1 len_num0 len_bit0 len_bit1 by linarith
  show ?thesis using reg_field_set [OF masks(2) codes_fit(1) f]
      reg_field_other [OF masks(2) codes_fit(1), of "GPIO_GET_PIN n * 2" "GPIO_GET_PIN q * 2" 2] pin_position [OF assms]
    by (auto simp: pin_view_def Let_def)
qed

lemma store_pull:
  assumes "q < 96" "n < 96"
  shows "pin_view q (port_update n (\<lambda>p. p\<lparr>PUPDR := (PUPDR p AND NOT (push_bit (GPIO_GET_PIN n * 2) 3)) OR
      push_bit (GPIO_GET_PIN n * 2) (pull_code pl)\<rparr>) s) =
    (if q = n then (pin_view q s)\<lparr>pv_pull := pull_code pl\<rparr> else pin_view q s)"
proof -
  have f: "GPIO_GET_PIN n * 2 + 2 \<le> LENGTH(32)" using pin_below [of n] unfolding len_num1 len_num0 len_bit0 len_bit1 by linarith
  show ?thesis using reg_field_set [OF masks(2) codes_fit(3) f]
      reg_field_other [OF masks(2) codes_fit(3), of "GPIO_GET_PIN n * 2" "GPIO_GET_PIN q * 2" 2] pin_position [OF assms]
    by (auto simp: pin_view_def Let_def)
qed

lemma store_speed:
  assumes "q < 96" "n < 96"
  shows "pin_view q (port_update n (\<lambda>p. p\<lparr>OSPEEDR := (OSPEEDR p AND NOT (push_bit (GPIO_GET_PIN n * 2) 3)) OR
      push_bit (GPIO_GET_PIN n * 2) (speed_code sp)\<rparr>) s) =
    (if q = n then (pin_view q s)\<lparr>pv_speed := speed_code sp\<rparr> else pin_view q s)"
proof -
  have f: "GPIO_GET_PIN n * 2 + 2 \<le> LENGTH(32)" using pin_below [of n] unfolding len_num1 len_num0 len_bit0 len_bit1 by linarith
  show ?thesis using reg_field_set [OF masks(2) codes_fit(7) f]
      reg_field_other [OF masks(2) codes_fit(7), of "GPIO_GET_PIN n * 2" "GPIO_GET_PIN q * 2" 2] pin_position [OF assms]
    by (auto simp: pin_view_def Let_def)
qed

lemma store_otype:
  assumes "q < 96" "n < 96"
  shows "pin_view q (port_update n (\<lambda>p. p\<lparr>OTYPER := (OTYPER p AND NOT (push_bit (GPIO_GET_PIN n) 1)) OR
      push_bit (GPIO_GET_PIN n) (otype_code t)\<rparr>) s) =
    (if q = n then (pin_view q s)\<lparr>pv_otype := otype_code t\<rparr> else pin_view q s)"
proof -
  have f: "GPIO_GET_PIN n + 1 \<le> LENGTH(32)" using pin_below [of n] unfolding len_num1 len_num0 len_bit0 len_bit1 by linarith
  show ?thesis using reg_field_set [OF masks(1) codes_fit(5) f]
      reg_field_other [OF masks(1) codes_fit(5), of "GPIO_GET_PIN n" "GPIO_GET_PIN q" 1] pin_position [OF assms]
    by (auto simp: pin_view_def Let_def)
qed

lemma store_af:
  assumes "q < 96" "n < 96" "af < 16"
  shows "pin_view q (if GPIO_GET_PIN n < 8
      then port_update n (\<lambda>p. p\<lparr>AFRL := (AFRL p AND NOT (push_bit (4 * GPIO_GET_PIN n) 0xF)) OR push_bit (4 * GPIO_GET_PIN n) af\<rparr>) s
      else port_update n (\<lambda>p. p\<lparr>AFRH := (AFRH p AND NOT (push_bit (4 * (GPIO_GET_PIN n - 8)) 0xF)) OR
        push_bit (4 * (GPIO_GET_PIN n - 8)) af\<rparr>) s) =
    (if q = n then (pin_view q s)\<lparr>pv_af := af\<rparr> else pin_view q s)"
proof -
  have "unat af < 2 ^ 4" using assms(3) by (simp add: word_less_nat_alt)
  from and_mask_small [OF this] have v: "take_bit 4 af = af" by (simp only: take_bit_eq_mask)
  have f: "GPIO_GET_PIN n < 8 \<Longrightarrow> 4 * GPIO_GET_PIN n + 4 \<le> LENGTH(32)" "4 * (GPIO_GET_PIN n - 8) + 4 \<le> LENGTH(32)"
    using pin_below [of n] by (simp_all, linarith)
  have d: "4 * a + 4 \<le> 4 * b \<or> 4 * b + 4 \<le> 4 * a" if "a < b \<or> b < a" for a b :: nat using that by auto
  have e: "GPIO_GET_PIN n - 8 < GPIO_GET_PIN q - 8 \<or> GPIO_GET_PIN q - 8 < GPIO_GET_PIN n - 8"
    if "\<not> GPIO_GET_PIN n < 8" "\<not> GPIO_GET_PIN q < 8" "GPIO_GET_PIN q < GPIO_GET_PIN n \<or> GPIO_GET_PIN n < GPIO_GET_PIN q"
    using that by linarith
  show ?thesis using e reg_field_set [OF masks(3) v f(1)] reg_field_set [OF masks(3) v f(2)]
      reg_field_other [OF masks(3) v d, of "GPIO_GET_PIN n" "GPIO_GET_PIN q"]
      reg_field_other [OF masks(3) v d, of "GPIO_GET_PIN n - 8" "GPIO_GET_PIN q - 8"] pin_position [OF assms(1,2)]
    by (auto simp: pin_view_def Let_def)
qed


text \<open>The two stores of a read-modify-write are one masked store.\<close>

lemma two_stores:
  "port_update n (\<lambda>p. p\<lparr>MODER := MODER p OR a\<rparr>) (port_update n (\<lambda>p. p\<lparr>MODER := MODER p AND m\<rparr>) s) =
    port_update n (\<lambda>p. p\<lparr>MODER := (MODER p AND m) OR a\<rparr>) s"
  "port_update n (\<lambda>p. p\<lparr>PUPDR := PUPDR p OR a\<rparr>) (port_update n (\<lambda>p. p\<lparr>PUPDR := PUPDR p AND m\<rparr>) s) =
    port_update n (\<lambda>p. p\<lparr>PUPDR := (PUPDR p AND m) OR a\<rparr>) s"
  "port_update n (\<lambda>p. p\<lparr>OTYPER := OTYPER p OR a\<rparr>) (port_update n (\<lambda>p. p\<lparr>OTYPER := OTYPER p AND m\<rparr>) s) =
    port_update n (\<lambda>p. p\<lparr>OTYPER := (OTYPER p AND m) OR a\<rparr>) s"
  "port_update n (\<lambda>p. p\<lparr>OSPEEDR := OSPEEDR p OR a\<rparr>) (port_update n (\<lambda>p. p\<lparr>OSPEEDR := OSPEEDR p AND m\<rparr>) s) =
    port_update n (\<lambda>p. p\<lparr>OSPEEDR := (OSPEEDR p AND m) OR a\<rparr>) s"
  "port_update n (\<lambda>p. p\<lparr>AFRL := AFRL p OR a\<rparr>) (port_update n (\<lambda>p. p\<lparr>AFRL := AFRL p AND m\<rparr>) s) =
    port_update n (\<lambda>p. p\<lparr>AFRL := (AFRL p AND m) OR a\<rparr>) s"
  "port_update n (\<lambda>p. p\<lparr>AFRH := AFRH p OR a\<rparr>) (port_update n (\<lambda>p. p\<lparr>AFRH := AFRH p AND m\<rparr>) s) =
    port_update n (\<lambda>p. p\<lparr>AFRH := (AFRH p AND m) OR a\<rparr>) s"
  by (simp_all add: port_update_def)

lemma enable_clock_view [simp]: "pin_view q (snd (stm32_gpio_enable_clock n s)) = pin_view q s"
  by (simp add: stm32_gpio_enable_clock_def pin_view_def Let_def)

lemma clock_bit: "bit (RCC_AHB1ENR (snd (stm32_gpio_enable_clock n s))) (GPIO_GET_PORT_NUMBER n)" if "n < 96"
proof -
  have p: "GPIO_GET_PORT_NUMBER n < 8" using that by (auto simp: GPIO_GET_PORT_NUMBER_def)
  have "bit (RCC_AHB1ENR s) (GPIO_GET_PORT_NUMBER n)" if "RCC_AHB1ENR s AND push_bit (GPIO_GET_PORT_NUMBER n) 1 \<noteq> 0"
    using that by (auto simp: and_exp_eq_0_iff_not_bit push_bit_eq_mult)
  then show ?thesis using p by (auto simp: stm32_gpio_enable_clock_def Let_def bit_simps)
qed

lemma set_mode_view:
  assumes "q < 96" "n < 96"
  shows "pin_view q (snd (stm32_gpio_set_mode n m pl s)) =
    (if q = n then (pin_view q s)\<lparr>pv_mode := mode_code m, pv_pull := pull_code pl\<rparr> else pin_view q s)"
  unfolding stm32_gpio_set_mode_def Let_def two_stores codes_fit
  by (simp only: snd_conv store_mode [OF assms] store_pull [OF assms] enable_clock_view) simp

lemma set_otype_view:
  assumes "q < 96" "n < 96"
  shows "pin_view q (snd (stm32_gpio_set_output_type n t s)) = (if q = n then (pin_view q s)\<lparr>pv_otype := otype_code t\<rparr> else pin_view q s)"
  unfolding stm32_gpio_set_output_type_def Let_def two_stores codes_fit by (simp only: snd_conv store_otype [OF assms])

lemma set_speed_view:
  assumes "q < 96" "n < 96"
  shows "pin_view q (snd (stm32_gpio_set_output_speed n sp s)) = (if q = n then (pin_view q s)\<lparr>pv_speed := speed_code sp\<rparr> else pin_view q s)"
  unfolding stm32_gpio_set_output_speed_def Let_def two_stores codes_fit by (simp only: snd_conv store_speed [OF assms])

lemma mod_8_below_16: "k < 16 \<Longrightarrow> k mod 8 = (if k < 8 then k else k - 8)" for k :: nat
  by presburger

lemma set_af_view:
  assumes "q < 96" "n < 96" "af < 16"
  shows "pin_view q (snd (stm32_gpio_set_alternate_function n af s)) =
    (if q = n then (pin_view q s)\<lparr>pv_mode := mode_code HAL_GPIO_MODE_AF, pv_af := af\<rparr> else pin_view q s)"
proof -
  have i: "GPIO_GET_PIN n mod 8 = (if GPIO_GET_PIN n < 8 then GPIO_GET_PIN n else GPIO_GET_PIN n - 8)"
    by (rule mod_8_below_16 [OF pin_below])
  let ?t = "port_update n (\<lambda>p. p\<lparr>MODER := (MODER p AND NOT (push_bit (GPIO_GET_PIN n * 2) 3)) OR
      push_bit (GPIO_GET_PIN n * 2) (mode_code HAL_GPIO_MODE_AF)\<rparr>) (snd (stm32_gpio_enable_clock n s))"
  have "pin_view q (snd (stm32_gpio_set_alternate_function n af s)) = pin_view q (if GPIO_GET_PIN n < 8
      then port_update n (\<lambda>p. p\<lparr>AFRL := (AFRL p AND NOT (push_bit (4 * GPIO_GET_PIN n) 0xF)) OR push_bit (4 * GPIO_GET_PIN n) af\<rparr>) ?t
      else port_update n (\<lambda>p. p\<lparr>AFRH := (AFRH p AND NOT (push_bit (4 * (GPIO_GET_PIN n - 8)) 0xF)) OR
        push_bit (4 * (GPIO_GET_PIN n - 8)) af\<rparr>) ?t)"
    unfolding stm32_gpio_set_alternate_function_def Let_def two_stores i
    by (cases "GPIO_GET_PIN n < 8") (simp_all only: if_True if_False snd_conv)
  then show ?thesis by (simp only: store_af [OF assms] store_mode [OF assms(1,2)] enable_clock_view) simp
qed

lemma init_clock: "n < 96 \<Longrightarrow> bit (RCC_AHB1ENR (snd (stm32_gpio_init n c s))) (GPIO_GET_PORT_NUMBER n)"
  by (simp add: stm32_gpio_init_def stm32_gpio_set_mode_def stm32_gpio_set_output_type_def
      stm32_gpio_set_output_speed_def stm32_gpio_set_alternate_function_def Let_def clock_bit if_distrib [of "\<lambda>s. bit (RCC_AHB1ENR s) i" for i]
      if_distrib [of snd])

lemma init_view:
  assumes "q < 96" "n < 96" "gc_alternate c < 16"
  shows "pin_view q (snd (stm32_gpio_init n c s)) = (if q \<noteq> n then pin_view q s else
    (let v = (pin_view q s)\<lparr>pv_mode := mode_code (gc_mode c), pv_pull := pull_code (gc_pull c)\<rparr>;
         v = (if gc_mode c = HAL_GPIO_MODE_OUTPUT \<or> gc_mode c = HAL_GPIO_MODE_AF
              then v\<lparr>pv_otype := otype_code (gc_output_type c), pv_speed := speed_code (gc_output_speed c)\<rparr> else v)
     in if gc_mode c = HAL_GPIO_MODE_AF then v\<lparr>pv_af := gc_alternate c\<rparr> else v))"
  using assms by (simp add: stm32_gpio_init_def Let_def set_mode_view set_otype_view set_speed_view set_af_view)

lemma get_mode_code: "stm32_gpio_get_mode n s = m \<longleftrightarrow> pv_mode (pin_view n s) = mode_code m"
proof -
  let ?v = "pv_mode (pin_view n s)"
  have "drop_bit (GPIO_GET_PIN n * 2) (MODER (GPIO_GET_PORT n s)) AND 3 = ?v"
    unfolding masks(2) by (simp add: pin_view_def Let_def reg_field_def take_bit_eq_mask)
  then have g: "stm32_gpio_get_mode n s = (if ?v = 0 then HAL_GPIO_MODE_INPUT else if ?v = 1 then HAL_GPIO_MODE_OUTPUT
      else if ?v = 2 then HAL_GPIO_MODE_AF else HAL_GPIO_MODE_ANALOG)" by (simp add: stm32_gpio_get_mode_def Let_def)
  have "unat (take_bit 2 x) < 4" for x :: u32 using take_bit_nat_less_exp [of 2 "unat x"] by (simp add: unsigned_take_bit_eq del: take_bit_nat_less_exp)
  then have "unat ?v < 4" by (simp add: pin_view_def Let_def reg_field_def)
  then have "?v = 0 \<or> ?v = 1 \<or> ?v = 2 \<or> ?v = 3" by (auto simp: word_unat_eq_iff)
  then show ?thesis unfolding g by (cases m) auto
qed

section \<open>Properties\<close>

text \<open>Configuring a pin configures that pin and no other. On any of the 96 pins \<open>hal_gpio_init\<close> turns the
  clock of the port on, leaves the mode, pull and, where the mode has them, driver type, speed and alternate
  function it was given in the fields of the pin, which then reads back, and changes no field of another pin.\<close>

theorem gpio_init_configures_pin:
  assumes "n < 96" "gc_alternate c < 16"
  shows "\<exists>t. hal_gpio_init n (Some c) s = (HAL_OK, t) \<and> hal_gpio_get_mode n t = gc_mode c \<and>
    bit (RCC_AHB1ENR t) (GPIO_GET_PORT_NUMBER n) \<and>
    pv_pull (pin_view n t) = pull_code (gc_pull c) \<and>
    (gc_mode c = HAL_GPIO_MODE_OUTPUT \<or> gc_mode c = HAL_GPIO_MODE_AF \<longrightarrow>
      pv_otype (pin_view n t) = otype_code (gc_output_type c) \<and> pv_speed (pin_view n t) = speed_code (gc_output_speed c)) \<and>
    (gc_mode c = HAL_GPIO_MODE_AF \<longrightarrow> pv_af (pin_view n t) = gc_alternate c) \<and>
    (\<forall>q<96. q \<noteq> n \<longrightarrow> pin_view q t = pin_view q s)"
proof -
  have "hal_gpio_init n (Some c) s = (HAL_OK, snd (stm32_gpio_init n c s))" by (simp add: hal_gpio_init_def stm32_gpio_init_def Let_def)
  moreover have "\<forall>q<96. q \<noteq> n \<longrightarrow> pin_view q (snd (stm32_gpio_init n c s)) = pin_view q s"
    by (auto simp: init_view [OF _ assms])
  moreover have "hal_gpio_get_mode n (snd (stm32_gpio_init n c s)) = gc_mode c"
    unfolding hal_gpio_get_mode_def get_mode_code init_view [OF assms(1,1,2)] Let_def by simp
  moreover have "pv_pull (pin_view n (snd (stm32_gpio_init n c s))) = pull_code (gc_pull c) \<and>
    (gc_mode c = HAL_GPIO_MODE_OUTPUT \<or> gc_mode c = HAL_GPIO_MODE_AF \<longrightarrow>
      pv_otype (pin_view n (snd (stm32_gpio_init n c s))) = otype_code (gc_output_type c) \<and>
      pv_speed (pin_view n (snd (stm32_gpio_init n c s))) = speed_code (gc_output_speed c)) \<and>
    (gc_mode c = HAL_GPIO_MODE_AF \<longrightarrow> pv_af (pin_view n (snd (stm32_gpio_init n c s))) = gc_alternate c)"
    unfolding init_view [OF assms(1,1,2)] Let_def by simp
  ultimately show ?thesis using init_clock [OF assms(1)] by blast
qed

definition gpio_reset :: gpio where
  "gpio_reset = \<lparr>RCC_AHB1ENR = 0, gpio_port_at = \<lambda>_. \<lparr>MODER = 0, OTYPER = 0, OSPEEDR = 0, PUPDR = 0, IDR = 0, ODR = 0, AFRL = 0, AFRH = 0\<rparr>\<rparr>"

theorem gpio_init_configures_pin_witness:
  "\<exists>t. hal_gpio_init 13 (Some \<lparr>gc_mode = HAL_GPIO_MODE_AF, gc_pull = HAL_GPIO_PULL_UP,
      gc_output_type = HAL_GPIO_OTYPE_OPEN_DRAIN, gc_output_speed = HAL_GPIO_SPEED_HIGH, gc_alternate = 7\<rparr>) gpio_reset = (HAL_OK, t) \<and>
    hal_gpio_get_mode 13 t = HAL_GPIO_MODE_AF \<and> pv_af (pin_view 13 t) = 7 \<and> pin_view 12 t = pin_view 12 gpio_reset"
  using gpio_init_configures_pin [of 13 "\<lparr>gc_mode = HAL_GPIO_MODE_AF, gc_pull = HAL_GPIO_PULL_UP,
      gc_output_type = HAL_GPIO_OTYPE_OPEN_DRAIN, gc_output_speed = HAL_GPIO_SPEED_HIGH, gc_alternate = 7\<rparr>" gpio_reset] by auto

text \<open>A level written to a pin is that pin's in the output register; a toggle inverts it; the others keep theirs.\<close>

lemma gpio_write_levels:
  "bit (ODR (GPIO_GET_PORT n (hal_gpio_write n b s))) i = (if i = GPIO_GET_PIN n then b else i < 32 \<and> bit (ODR (GPIO_GET_PORT n s)) i)"
  "bit (ODR (GPIO_GET_PORT n (hal_gpio_toggle n s))) i = (bit (ODR (GPIO_GET_PORT n s)) i \<noteq> (i = GPIO_GET_PIN n))"
proof -
  have m: "(0xFFFF :: u32) = mask 16" by (simp add: mask_eq_exp_minus_1)
  define k where "k = GPIO_GET_PIN n"
  have p: "k < 16" by (simp add: k_def)
  show "bit (ODR (GPIO_GET_PORT n (hal_gpio_write n b s))) i = (if i = GPIO_GET_PIN n then b else i < 32 \<and> bit (ODR (GPIO_GET_PORT n s)) i)"
    using p unfolding hal_gpio_write_def port_update_get BSRR_write_def m k_def [symmetric]
    by (auto simp: bit_simps dest: bit_imp_le_length)
  show "bit (ODR (GPIO_GET_PORT n (hal_gpio_toggle n s))) i = (bit (ODR (GPIO_GET_PORT n s)) i \<noteq> (i = GPIO_GET_PIN n))"
    using p unfolding hal_gpio_toggle_def port_update_get k_def [symmetric]
    by (auto simp: bit_simps dest: bit_imp_le_length)
qed

end
