(* ===== verification/Uart.thy ===== *)
theory Uart
  imports Console Interrupts Gpio Clock
begin

text \<open>
  The UART: the portable layer src/common/hal_uart.c over an operations table, and the STM32F4
  backend src/vendor/stm32/uart/uart.c that fills the table. The layer is polymorphic in the state of
  the device; the locale \<open>char_device\<close> is what it needs of a backend to send text, and the STM32
  backend is shown to provide it.

  The hardware of an instance is what its next reads of SR and DR return, as lists; a write to DR is
  appended to what was sent. A wait that uses the list up has not returned (\<open>None\<close>). The float
  formatter is not modelled.
\<close>

section \<open>The portable layer\<close>

text \<open>\<open>hal_uart_ops_t\<close>; the blocking primitives may not return.\<close>

record 'd hal_uart_ops =
  op_init :: "nat \<Rightarrow> u32 \<Rightarrow> 'd \<Rightarrow> (hal_status \<times> 'd) option"
  op_enable_interrupt :: "nat \<Rightarrow> u8 \<Rightarrow> u8 \<Rightarrow> 'd \<Rightarrow> hal_status \<times> 'd"
  op_write_char :: "nat \<Rightarrow> u8 \<Rightarrow> 'd \<Rightarrow> (hal_status \<times> 'd) option"
  op_read_char :: "nat \<Rightarrow> 'd \<Rightarrow> (u8 \<times> 'd) option"
  op_available :: "nat \<Rightarrow> 'd \<Rightarrow> (bool \<times> 'd) option"

text \<open>\<open>HAL_OK_OR_RETURN\<close> of a call that may not return.\<close>

definition ok_or_ret :: "(hal_status \<times> 'd) option \<Rightarrow> ('d \<Rightarrow> (hal_status \<times> 'd) option) \<Rightarrow> (hal_status \<times> 'd) option" where
  "ok_or_ret r k = (case r of None \<Rightarrow> None | Some (st, d) \<Rightarrow> if st \<noteq> HAL_OK then Some (st, d) else k d)"

definition hal_uart_init :: "'d hal_uart_ops \<Rightarrow> nat \<Rightarrow> u32 option \<Rightarrow> 'd \<Rightarrow> (hal_status \<times> 'd) option" where
  "hal_uart_init ops uart cfg d =
     (case cfg of None \<Rightarrow> Some (HAL_ERR_INVALID_ARG, d) | Some baudrate \<Rightarrow> op_init ops uart baudrate d)"

definition hal_uart_enable_interrupt :: "'d hal_uart_ops \<Rightarrow> nat \<Rightarrow> u8 \<Rightarrow> u8 \<Rightarrow> 'd \<Rightarrow> hal_status \<times> 'd" where
  "hal_uart_enable_interrupt ops = op_enable_interrupt ops"

definition hal_uart_write_char :: "'d hal_uart_ops \<Rightarrow> nat \<Rightarrow> u8 \<Rightarrow> 'd \<Rightarrow> (hal_status \<times> 'd) option" where
  "hal_uart_write_char ops = op_write_char ops"

definition hal_uart_read_char :: "'d hal_uart_ops \<Rightarrow> nat \<Rightarrow> 'd \<Rightarrow> (u8 \<times> 'd) option" where
  "hal_uart_read_char ops = op_read_char ops"

definition hal_uart_available :: "'d hal_uart_ops \<Rightarrow> nat \<Rightarrow> 'd \<Rightarrow> (bool \<times> 'd) option" where
  "hal_uart_available ops = op_available ops"

text \<open>The loops over the characters of a buffer: stop at the first that fails.\<close>

primrec write_chars :: "'d hal_uart_ops \<Rightarrow> nat \<Rightarrow> u8 list \<Rightarrow> 'd \<Rightarrow> (hal_status \<times> 'd) option" where
  "write_chars ops uart [] d = Some (HAL_OK, d)"
| "write_chars ops uart (c # cs) d = ok_or_ret (op_write_char ops uart c d) (write_chars ops uart cs)"

text \<open>The buffer has at least \<open>length\<close> bytes.\<close>

definition hal_uart_write :: "'d hal_uart_ops \<Rightarrow> nat \<Rightarrow> u8 list option \<Rightarrow> u16 \<Rightarrow> 'd \<Rightarrow> (hal_status \<times> 'd) option" where
  "hal_uart_write ops uart data len d =
     (case data of None \<Rightarrow> Some (HAL_ERR_INVALID_ARG, d) | Some bs \<Rightarrow> write_chars ops uart (take (unat len) bs) d)"

text \<open>A string is its characters before the terminator.\<close>

definition hal_uart_write_string :: "'d hal_uart_ops \<Rightarrow> nat \<Rightarrow> u8 list option \<Rightarrow> 'd \<Rightarrow> (hal_status \<times> 'd) option" where
  "hal_uart_write_string ops uart s d =
     (case s of None \<Rightarrow> Some (HAL_ERR_INVALID_ARG, d) | Some cs \<Rightarrow> write_chars ops uart cs d)"

text \<open>\<open>do { buf[n++] = '0' + num % 10; num /= 10; } while (num != 0);\<close>\<close>

function digits_up :: "u8 list \<Rightarrow> nat \<Rightarrow> u32 \<Rightarrow> u8 list \<times> nat" where
  "digits_up buf n num =
     (let buf = buf[n := ucast (48 + num mod 10)]; num' = num div 10
      in if num' \<noteq> 0 then digits_up buf (n + 1) num' else (buf, n + 1))"
  by pat_completeness auto
termination
proof (relation "measure (\<lambda>(buf, n, num). unat num)")
  fix num x :: u32 assume "x = num div 10" "x \<noteq> 0"
  then have "unat num div 10 \<noteq> 0" "unat x = unat num div 10" by (auto simp: unat_div word_unat_eq_iff)
  then show "((buf', n + 1, x), buf, n, num) \<in> measure (\<lambda>(buf, n, num). unat num)" for buf buf' :: "u8 list" and n :: nat
    by simp
qed simp

declare digits_up.simps [simp del]

text \<open>\<open>while (n != 0) write_char(buf[--n]);\<close>\<close>

primrec write_down :: "'d hal_uart_ops \<Rightarrow> nat \<Rightarrow> u8 list \<Rightarrow> nat \<Rightarrow> 'd \<Rightarrow> (hal_status \<times> 'd) option" where
  "write_down ops uart buf 0 d = Some (HAL_OK, d)"
| "write_down ops uart buf (Suc n) d = ok_or_ret (op_write_char ops uart (buf ! n) d) (write_down ops uart buf n)"

text \<open>\<open>stack\<close> is what the buffer of ten characters held.\<close>

definition hal_uart_write_uint :: "'d hal_uart_ops \<Rightarrow> u8 list \<Rightarrow> nat \<Rightarrow> u32 \<Rightarrow> 'd \<Rightarrow> (hal_status \<times> 'd) option" where
  "hal_uart_write_uint ops stack uart num d = (let (buf, n) = digits_up stack 0 num in write_down ops uart buf n d)"

definition hal_uart_write_int :: "'d hal_uart_ops \<Rightarrow> u8 list \<Rightarrow> nat \<Rightarrow> u32 \<Rightarrow> 'd \<Rightarrow> (hal_status \<times> 'd) option" where
  "hal_uart_write_int ops stack uart num d =
     (if sint num < 0 then
        ok_or_ret (op_write_char ops uart 45 d) (\<lambda>d. let mag = 0 - num in hal_uart_write_uint ops stack uart mag d)
      else let mag = num in hal_uart_write_uint ops stack uart mag d)"

text \<open>The reading loop, with \<open>k\<close> places left before the last.\<close>

primrec read_loop :: "'d hal_uart_ops \<Rightarrow> nat \<Rightarrow> u8 \<Rightarrow> nat \<Rightarrow> nat \<Rightarrow> u8 list \<Rightarrow> 'd \<Rightarrow> (nat \<times> u8 list \<times> 'd) option" where
  "read_loop ops uart delimiter 0 n buf d = Some (n, buf, d)"
| "read_loop ops uart delimiter (Suc k) n buf d =
     (case op_read_char ops uart d of None \<Rightarrow> None
      | Some (c, d) \<Rightarrow> if c = delimiter then Some (n, buf, d) else read_loop ops uart delimiter k (n + 1) (buf[n := c]) d)"

definition hal_uart_read_until ::
    "'d hal_uart_ops \<Rightarrow> nat \<Rightarrow> u8 list option \<Rightarrow> u32 \<Rightarrow> u8 \<Rightarrow> 'd \<Rightarrow> (u32 \<times> u8 list option \<times> 'd) option" where
  "hal_uart_read_until ops uart buffer maxlen delimiter d =
     (if buffer = None \<or> maxlen = 0 then Some (0, buffer, d)
      else case read_loop ops uart delimiter (unat (maxlen - 1)) 0 (the buffer) d of None \<Rightarrow> None
      | Some (n, buf, d) \<Rightarrow> Some (word_of_nat n, Some (buf[n := 0]), d))"

section \<open>The STM32F4 backend\<close>

record usart =
  US_BRR :: u32
  US_CR1 :: u32
  US_CR3 :: u32
  us_sr_reads :: "u32 list"
  us_dr_reads :: "u32 list"
  us_sent :: "u8 list"
  us_idle_cb :: "callback option"

record uart_dev = nvic +
  uart_board :: clock_board
  uart_pinmap :: "(nat \<times> nat \<times> nat \<times> u32) list"
  uart_gpio :: gpio
  uart_rcc :: rcc
  RCC_APB1ENR :: u32
  RCC_APB2ENR :: u32
  usart_at :: "nat \<Rightarrow> usart"

definition HAL_UART_1 :: nat where "HAL_UART_1 = 1"
definition HAL_UART_2 :: nat where "HAL_UART_2 = 2"
definition HAL_UART_6 :: nat where "HAL_UART_6 = 6"
definition USART_SR_TXE :: u32 where "USART_SR_TXE = push_bit 7 1"
definition USART_SR_RXNE :: u32 where "USART_SR_RXNE = push_bit 5 1"
definition USART_SR_IDLE :: u32 where "USART_SR_IDLE = push_bit 4 1"
definition USART_SR_ORE :: u32 where "USART_SR_ORE = push_bit 3 1"
definition USART_SR_NE :: u32 where "USART_SR_NE = push_bit 2 1"
definition USART_SR_FE :: u32 where "USART_SR_FE = push_bit 1 1"
definition USART_SR_PE :: u32 where "USART_SR_PE = push_bit 0 1"
definition USART_CR1_UE :: u32 where "USART_CR1_UE = push_bit 13 1"
definition USART_CR1_TE :: u32 where "USART_CR1_TE = push_bit 3 1"
definition USART_CR1_RE :: u32 where "USART_CR1_RE = push_bit 2 1"
definition UART_CR1_RXNEIE :: u32 where "UART_CR1_RXNEIE = push_bit 5 1"
definition USART_CR1_IDLEIE :: u32 where "USART_CR1_IDLEIE = push_bit 4 1"
definition USART1_IRQn :: int where "USART1_IRQn = 37"
definition USART2_IRQn :: int where "USART2_IRQn = 38"
definition USART6_IRQn :: int where "USART6_IRQn = 71"

definition usart_update :: "nat \<Rightarrow> (usart \<Rightarrow> usart) \<Rightarrow> 'm uart_dev_scheme \<Rightarrow> 'm uart_dev_scheme" where
  "usart_update uart f d = d\<lparr>usart_at := (usart_at d)(uart := f (usart_at d uart))\<rparr>"

text \<open>\<open>_get_usart(uart) != NULL\<close>\<close>

definition get_usart :: "nat \<Rightarrow> bool" where
  "get_usart uart \<longleftrightarrow> uart = HAL_UART_1 \<or> uart = HAL_UART_2 \<or> uart = HAL_UART_6"

definition read_SR :: "nat \<Rightarrow> 'm uart_dev_scheme \<Rightarrow> (u32 \<times> 'm uart_dev_scheme) option" where
  "read_SR uart d =
     (case us_sr_reads (usart_at d uart) of [] \<Rightarrow> None | v # vs \<Rightarrow> Some (v, usart_update uart (\<lambda>u. u\<lparr>us_sr_reads := vs\<rparr>) d))"

definition read_DR :: "nat \<Rightarrow> 'm uart_dev_scheme \<Rightarrow> (u32 \<times> 'm uart_dev_scheme) option" where
  "read_DR uart d =
     (case us_dr_reads (usart_at d uart) of [] \<Rightarrow> None | v # vs \<Rightarrow> Some (v, usart_update uart (\<lambda>u. u\<lparr>us_dr_reads := vs\<rparr>) d))"

text \<open>\<open>while (!(usart->SR & flag));\<close> over the values SR goes through.\<close>

fun wait_flag :: "u32 \<Rightarrow> u32 list \<Rightarrow> u32 list option" where
  "wait_flag flag [] = None"
| "wait_flag flag (v # vs) = (if v AND flag \<noteq> 0 then Some vs else wait_flag flag vs)"

definition wait_SR :: "u32 \<Rightarrow> nat \<Rightarrow> 'm uart_dev_scheme \<Rightarrow> 'm uart_dev_scheme option" where
  "wait_SR flag uart d =
     map_option (\<lambda>vs. usart_update uart (\<lambda>u. u\<lparr>us_sr_reads := vs\<rparr>) d) (wait_flag flag (us_sr_reads (usart_at d uart)))"

definition enable_uart_clock :: "nat \<Rightarrow> 'm uart_dev_scheme \<Rightarrow> 'm uart_dev_scheme" where
  "enable_uart_clock uart d =
     (if uart = HAL_UART_1 then d\<lparr>RCC_APB2ENR := RCC_APB2ENR d OR push_bit 4 1\<rparr>
      else if uart = HAL_UART_2 then d\<lparr>RCC_APB1ENR := RCC_APB1ENR d OR push_bit 17 1\<rparr>
      else if uart = HAL_UART_6 then d\<lparr>RCC_APB2ENR := RCC_APB2ENR d OR push_bit 5 1\<rparr>
      else d)"

primrec configure_uart_gpio :: "(nat \<times> nat \<times> nat \<times> u32) list \<Rightarrow> nat \<Rightarrow> gpio \<Rightarrow> gpio" where
  "configure_uart_gpio [] uart g = g"
| "configure_uart_gpio (m # ms) uart g =
     (case m of (u, tx, rx, af) \<Rightarrow>
        if u = uart then
          let g = snd (hal_gpio_set_alternate_function tx af g)
          in snd (hal_gpio_set_alternate_function rx af g)
        else configure_uart_gpio ms uart g)"

text \<open>A division by zero is 0, as the core's UDIV gives it.\<close>

definition uart_hw_init :: "nat \<Rightarrow> u32 \<Rightarrow> 'm uart_dev_scheme \<Rightarrow> 'm uart_dev_scheme option" where
  "uart_hw_init uart baudrate d =
     (if \<not> get_usart uart then Some d
      else
        let d = enable_uart_clock uart d;
            d = d\<lparr>uart_gpio := configure_uart_gpio (uart_pinmap d) uart (uart_gpio d)\<rparr>;
            clk = (if uart = HAL_UART_2 then hal_clock_get_bus_clock (uart_board d) 1 (uart_rcc d)
                   else hal_clock_get_bus_clock (uart_board d) 2 (uart_rcc d));
            d = usart_update uart (\<lambda>u. u\<lparr>US_BRR := (clk + baudrate div 2) div baudrate\<rparr>) d
        in case read_SR uart d of None \<Rightarrow> None
        | Some (_, d) \<Rightarrow> (case read_DR uart d of None \<Rightarrow> None
          | Some (_, d) \<Rightarrow> Some (usart_update uart (\<lambda>u. u\<lparr>US_CR1 := USART_CR1_TE OR USART_CR1_RE OR USART_CR1_UE\<rparr>) d)))"

definition stm32_uart_init :: "nat \<Rightarrow> u32 \<Rightarrow> 'm uart_dev_scheme \<Rightarrow> (hal_status \<times> 'm uart_dev_scheme) option" where
  "stm32_uart_init uart baudrate d =
     (if \<not> get_usart uart then Some (HAL_ERR_INVALID_ARG, d) else map_option (Pair HAL_OK) (uart_hw_init uart baudrate d))"

definition uart_irq :: "nat \<Rightarrow> int" where
  "uart_irq uart = (if uart = HAL_UART_1 then USART1_IRQn else if uart = HAL_UART_6 then USART6_IRQn else USART2_IRQn)"

definition stm32_uart_enable_interrupt ::
    "nat \<Rightarrow> u8 \<Rightarrow> u8 \<Rightarrow> 'm uart_dev_scheme \<Rightarrow> hal_status \<times> 'm uart_dev_scheme" where
  "stm32_uart_enable_interrupt uart rx_en tx_en d =
     (if \<not> get_usart uart then (HAL_ERR_INVALID_ARG, d)
      else
        let d = usart_update uart (\<lambda>u. u\<lparr>US_CR1 := (if rx_en \<noteq> 0 then US_CR1 u OR UART_CR1_RXNEIE else US_CR1 u AND NOT UART_CR1_RXNEIE)\<rparr>) d;
            d = usart_update uart (\<lambda>u. u\<lparr>US_CR1 := (if tx_en \<noteq> 0 then US_CR1 u OR push_bit 7 1 else US_CR1 u AND NOT (push_bit 7 1))\<rparr>) d
        in (HAL_OK, snd (hal_interrupt_enable (uart_irq uart) d)))"

definition stm32_uart_write_char :: "nat \<Rightarrow> u8 \<Rightarrow> 'm uart_dev_scheme \<Rightarrow> (hal_status \<times> 'm uart_dev_scheme) option" where
  "stm32_uart_write_char uart c d =
     (if \<not> get_usart uart then Some (HAL_ERR_INVALID_ARG, d)
      else case wait_SR USART_SR_TXE uart d of None \<Rightarrow> None
      | Some d \<Rightarrow> Some (HAL_OK, usart_update uart (\<lambda>u. u\<lparr>us_sent := us_sent u @ [c]\<rparr>) d))"

definition stm32_uart_read_char :: "nat \<Rightarrow> 'm uart_dev_scheme \<Rightarrow> (u8 \<times> 'm uart_dev_scheme) option" where
  "stm32_uart_read_char uart d =
     (if \<not> get_usart uart then Some (0, d)
      else case read_SR uart d of None \<Rightarrow> None
      | Some (status, d) \<Rightarrow>
          if status AND (USART_SR_ORE OR USART_SR_NE OR USART_SR_FE OR USART_SR_PE) \<noteq> 0
          then map_option (\<lambda>(_, d). (0, d)) (read_DR uart d)
          else case wait_SR USART_SR_RXNE uart d of None \<Rightarrow> None
            | Some d \<Rightarrow> map_option (\<lambda>(v, d). (ucast v, d)) (read_DR uart d))"

definition stm32_uart_available :: "nat \<Rightarrow> 'm uart_dev_scheme \<Rightarrow> (bool \<times> 'm uart_dev_scheme) option" where
  "stm32_uart_available uart d =
     (if \<not> get_usart uart then Some (False, d)
      else map_option (\<lambda>(v, d). (v AND USART_SR_RXNE \<noteq> 0, d)) (read_SR uart d))"

definition stm32_uart_ops :: "'m uart_dev_scheme hal_uart_ops" where
  "stm32_uart_ops =
     \<lparr>op_init = stm32_uart_init, op_enable_interrupt = stm32_uart_enable_interrupt,
      op_write_char = stm32_uart_write_char, op_read_char = stm32_uart_read_char, op_available = stm32_uart_available\<rparr>"

text \<open>
  The idle-line callback. The trampoline of a line is the token \<open>idle_token uart\<close>; \<open>run\<close> is what the
  code behind a token does.
\<close>

definition uart_idle_handle ::
    "(callback \<Rightarrow> 'm uart_dev_scheme \<Rightarrow> 'm uart_dev_scheme) \<Rightarrow> nat \<Rightarrow> 'm uart_dev_scheme \<Rightarrow> 'm uart_dev_scheme option" where
  "uart_idle_handle run uart d =
     (if \<not> get_usart uart then Some d
      else case read_SR uart d of None \<Rightarrow> None
      | Some (sr, d) \<Rightarrow>
          if sr AND USART_SR_IDLE \<noteq> 0 then
            (case read_DR uart d of None \<Rightarrow> None
             | Some (_, d) \<Rightarrow> Some (case us_idle_cb (usart_at d uart) of None \<Rightarrow> d | Some cb \<Rightarrow> run cb d))
          else Some d)"

definition hal_uart_attach_idle_callback ::
    "(nat \<Rightarrow> callback) \<Rightarrow> nat \<Rightarrow> callback option \<Rightarrow> 'm uart_dev_scheme \<Rightarrow> (hal_status \<times> 'm uart_dev_scheme) option" where
  "hal_uart_attach_idle_callback idle_token uart cb d =
     (if \<not> get_usart uart \<or> cb = None then Some (HAL_ERR_INVALID_ARG, d)
      else
        let d = usart_update uart (\<lambda>u. u\<lparr>us_idle_cb := cb\<rparr>) d;
            d = snd (hal_interrupt_attach_callback (uart_irq uart) (Some (idle_token uart)) d)
        in case read_SR uart d of None \<Rightarrow> None
        | Some (_, d) \<Rightarrow> (case read_DR uart d of None \<Rightarrow> None
          | Some (_, d) \<Rightarrow>
              let d = usart_update uart (\<lambda>u. u\<lparr>US_CR1 := US_CR1 u OR USART_CR1_IDLEIE\<rparr>) d
              in Some (HAL_OK, snd (hal_interrupt_enable_with_priority (uart_irq uart) HAL_IRQ_PRIORITY_DEFAULT d))))"

definition hal_uart_detach_idle_callback :: "nat \<Rightarrow> 'm uart_dev_scheme \<Rightarrow> hal_status \<times> 'm uart_dev_scheme" where
  "hal_uart_detach_idle_callback uart d =
     (if \<not> get_usart uart then (HAL_ERR_INVALID_ARG, d)
      else
        let d = usart_update uart (\<lambda>u. u\<lparr>US_CR1 := US_CR1 u AND NOT USART_CR1_IDLEIE\<rparr>) d
        in (HAL_OK, usart_update uart (\<lambda>u. u\<lparr>us_idle_cb := None\<rparr>) d))"


section \<open>What the formatters send\<close>

lemma numeral_step: "numeral_of n = (if n div 10 = 0 then [] else numeral_of (n div 10)) @ [word_of_nat (48 + n mod 10)]"
  by (cases "n = 0") (simp_all add: numeral_of_def decimal.simps [of n] decimal.simps [of 0])

lemma numeral_length: "n < 10 ^ k \<Longrightarrow> 0 < k \<Longrightarrow> length (numeral_of n) \<le> k"
proof (induction k arbitrary: n)
  case (Suc k)
  have q: "n div 10 < 10 ^ k" using Suc.prems(1) by (simp add: less_mult_imp_div_less mult.commute)
  show ?case
  proof (cases "n div 10 = 0")
    case False
    then have "0 < k" using q by (cases k) auto
    from Suc.IH [OF q this] show ?thesis using False by (subst numeral_step) simp
  qed (subst numeral_step, simp)
qed simp

lemma numeral_u32: "length (numeral_of (unat (v :: u32))) \<le> 10"
  using u32_bound [of v] by (intro numeral_length) simp_all

lemma digits_up_numeral:
  "n + length (numeral_of (unat num)) \<le> length buf \<Longrightarrow>
   length (fst (digits_up buf n num)) = length buf \<and> snd (digits_up buf n num) \<le> length buf \<and>
   rev (take (snd (digits_up buf n num)) (fst (digits_up buf n num))) = numeral_of (unat num) @ rev (take n buf)"
proof (induction buf n num rule: digits_up.induct)
  case (1 buf n num)
  let ?c = "ucast (48 + num mod 10) :: u8" and ?q = "num div 10"
  have c: "?c = word_of_nat (48 + unat num mod 10)" by (rule digit_char)
  have q: "unat ?q = unat num div 10" by (simp add: unat_div)
  have n: "n < length buf" using 1(2) by (subst (asm) numeral_step) (auto split: if_splits)
  have t: "take (n + 1) (buf[n := ?c]) = take n buf @ [?c]"
    using n take_Suc_conv_app_nth [of n "buf[n := ?c]"] by simp
  show ?case
  proof (cases "?q = 0")
    case True
    then have "numeral_of (unat num) = [word_of_nat (48 + unat num mod 10)]"
      using q by (subst numeral_step) (simp add: word_unat_eq_iff)
    moreover have "digits_up buf n num = (buf[n := ?c], n + 1)" using True by (subst digits_up.simps) (simp add: Let_def)
    ultimately show ?thesis using n t c by simp
  next
    case False
    then have e: "numeral_of (unat num) = numeral_of (unat ?q) @ [word_of_nat (48 + unat num mod 10)]"
      using q by (subst numeral_step) (simp add: word_unat_eq_iff)
    have "n + 1 + length (numeral_of (unat ?q)) \<le> length (buf[n := ?c])" using 1(2) e by simp
    moreover have "digits_up buf n num = digits_up (buf[n := ?c]) (n + 1) ?q" using False by (subst digits_up.simps) (simp add: Let_def)
    ultimately show ?thesis using 1(1) [OF refl refl False] t c e by simp
  qed
qed

lemma write_down_chars: "n \<le> length buf \<Longrightarrow> write_down ops uart buf n d = write_chars ops uart (rev (take n buf)) d"
proof (induction n arbitrary: d)
  case (Suc n)
  have "write_down ops uart buf n = write_chars ops uart (rev (take n buf))" using Suc by (intro ext) simp
  then show ?case using Suc.prems by (simp add: take_Suc_conv_app_nth)
qed simp

lemma write_uint_chars:
  assumes "length stack = 10"
  shows "hal_uart_write_uint ops stack uart num d = write_chars ops uart (numeral_of (unat num)) d"
proof -
  have "0 + length (numeral_of (unat num)) \<le> length stack" using numeral_u32 [of num] assms by simp
  from digits_up_numeral [OF this] show ?thesis
    by (cases "digits_up stack 0 num") (simp add: hal_uart_write_uint_def write_down_chars)
qed

text \<open>The numeral of a signed value.\<close>

definition signed_numeral :: "int \<Rightarrow> u8 list" where
  "signed_numeral v = (if v < 0 then 45 # numeral_of (nat (- v)) else numeral_of (nat v))"

lemma uint_u32: "0 \<le> uint num \<and> uint num < 4294967296" for num :: u32
  using uint_lt2p [of num] by simp

lemma sint_u32: "sint num = (if uint num < 2147483648 then uint num else uint num - 4294967296)" for num :: u32
proof -
  note u = uint_u32 [of num]
  have "sint num = (uint num + 2147483648) mod 4294967296 - 2147483648"
    by (simp add: sint_uint signed_take_bit_eq_take_bit_shift take_bit_eq_mod)
  also have "(uint num + 2147483648) mod 4294967296 =
      (if uint num < 2147483648 then uint num + 2147483648 else uint num - 2147483648)"
  proof (cases "uint num < 2147483648")
    case False
    have "(uint num + 2147483648) mod 4294967296 = (uint num - 2147483648 + 4294967296) mod 4294967296"
      by (rule arg_cong [where f = "\<lambda>x. x mod 4294967296"]) simp
    also have "\<dots> = uint num - 2147483648" unfolding mod_add_self2 using u False by (intro mod_pos_pos_trivial) auto
    finally show ?thesis using False by simp
  qed (use u in simp)
  finally show ?thesis by simp
qed

lemma magnitude: "unat (0 - num) = nat (- sint num)" if "sint num < 0" for num :: u32
proof -
  have s: "sint num = uint num - 4294967296" using that sint_u32 [of num] uint_u32 [of num] by (auto split: if_splits)
  then have "num \<noteq> 0" using that by auto
  then have "uint (- num) = 4294967296 - uint num" using uint_u32 [of num]
    by (simp add: uint_word_ariths zmod_zminus1_eq_if unsigned_eq_0_iff)
  then show ?thesis using s by (simp only: unat_eq_nat_uint) simp
qed

lemma write_int_chars:
  assumes "length stack = 10"
  shows "hal_uart_write_int ops stack uart num d = write_chars ops uart (signed_numeral (sint num)) d"
proof (cases "sint num < 0")
  case True
  then show ?thesis by (simp add: hal_uart_write_int_def write_uint_chars [OF assms] signed_numeral_def magnitude Let_def del: diff_0)
next
  case False
  then have "sint num = uint num" using sint_u32 [of num] uint_u32 [of num] by (auto split: if_splits)
  then have "unat num = nat (sint num)" by simp
  then show ?thesis using False by (simp add: hal_uart_write_int_def write_uint_chars [OF assms] signed_numeral_def Let_def)
qed

lemma signed_parses: "str_to_int (signed_numeral v) = (if \<bar>v\<bar> \<le> 2147483647 then Some v else None)"
proof (cases "v < 0")
  case True
  then have "str_to_int (signed_numeral v) = map_option uminus (digits_loop (decimal (nat (- v)) @ []) 0)"
    by (cases "digits_loop (decimal (nat (- v))) 0") (simp_all add: signed_numeral_def str_to_int_def numeral_of_def)
  then show ?thesis using True by (simp only: digits_loop_decimal) (auto simp: nat_le_iff)
next
  case False
  then show ?thesis by (auto simp: signed_numeral_def numeral_parses nat_le_iff)
qed


section \<open>What the layer needs of a backend\<close>

text \<open>
  \<open>room uart k d\<close>: the instance is there and its transmitter will take \<open>k\<close> more characters; \<open>sent\<close> is what
  went out on it. A character sent in such a state goes out after the others.
\<close>

locale char_device =
  fixes ops :: "'d hal_uart_ops"
    and room :: "nat \<Rightarrow> nat \<Rightarrow> 'd \<Rightarrow> bool"
    and sent :: "nat \<Rightarrow> 'd \<Rightarrow> u8 list"
  assumes send_char: "room uart (Suc k) d \<Longrightarrow>
    \<exists>e. op_write_char ops uart c d = Some (HAL_OK, e) \<and> room uart k e \<and> sent uart e = sent uart d @ [c]"
begin

lemma send_chars:
  "room uart (length cs + k) d \<Longrightarrow>
   \<exists>e. write_chars ops uart cs d = Some (HAL_OK, e) \<and> room uart k e \<and> sent uart e = sent uart d @ cs"
proof (induction cs arbitrary: d)
  case (Cons c cs)
  then obtain e where e: "op_write_char ops uart c d = Some (HAL_OK, e)" "room uart (length cs + k) e"
    "sent uart e = sent uart d @ [c]" using send_char [of uart "length cs + k" d c] by auto
  from Cons.IH [OF e(2)] show ?case using e by (auto simp: ok_or_ret_def)
qed (simp add: ok_or_ret_def)

lemma send_string:
  "room uart (length cs) d \<Longrightarrow> \<exists>e. hal_uart_write_string ops uart (Some cs) d = Some (HAL_OK, e) \<and> sent uart e = sent uart d @ cs"
  using send_chars [of uart cs 0 d] by (auto simp: hal_uart_write_string_def)

lemma send_buffer:
  "room uart (unat len) d \<Longrightarrow> unat len \<le> length bs \<Longrightarrow>
   \<exists>e. hal_uart_write ops uart (Some bs) len d = Some (HAL_OK, e) \<and> sent uart e = sent uart d @ take (unat len) bs"
  using send_chars [of uart "take (unat len) bs" 0 d] by (auto simp: hal_uart_write_def min_absorb2)

lemma send_uint:
  "room uart (length (numeral_of (unat num))) d \<Longrightarrow> length stack = 10 \<Longrightarrow>
   \<exists>e. hal_uart_write_uint ops stack uart num d = Some (HAL_OK, e) \<and> sent uart e = sent uart d @ numeral_of (unat num)"
  using send_chars [of uart "numeral_of (unat num)" 0 d] by (auto simp: write_uint_chars)

lemma send_int:
  "room uart (length (signed_numeral (sint num))) d \<Longrightarrow> length stack = 10 \<Longrightarrow>
   \<exists>e. hal_uart_write_int ops stack uart num d = Some (HAL_OK, e) \<and> sent uart e = sent uart d @ signed_numeral (sint num)"
  using send_chars [of uart "signed_numeral (sint num)" 0 d] by (auto simp: write_int_chars)

end

text \<open>The STM32 backend is such a device: every reading of SR with TXE set takes one character.\<close>

definition stm32_room :: "nat \<Rightarrow> nat \<Rightarrow> 'm uart_dev_scheme \<Rightarrow> bool" where
  "stm32_room uart k d \<longleftrightarrow> get_usart uart \<and> k \<le> length (filter (\<lambda>v. v AND USART_SR_TXE \<noteq> 0) (us_sr_reads (usart_at d uart)))"

definition stm32_sent :: "nat \<Rightarrow> 'm uart_dev_scheme \<Rightarrow> u8 list" where
  "stm32_sent uart d = us_sent (usart_at d uart)"

lemma wait_flag_takes:
  "Suc k \<le> length (filter (\<lambda>v. v AND flag \<noteq> 0) vs) \<Longrightarrow>
   \<exists>ws. wait_flag flag vs = Some ws \<and> k \<le> length (filter (\<lambda>v. v AND flag \<noteq> 0) ws)"
  by (induction vs) auto

interpretation stm32_uart: char_device stm32_uart_ops stm32_room stm32_sent
proof
  fix uart k and d :: "'m uart_dev_scheme" and c
  assume "stm32_room uart (Suc k) d"
  then have u: "get_usart uart" and r: "Suc k \<le> length (filter (\<lambda>v. v AND USART_SR_TXE \<noteq> 0) (us_sr_reads (usart_at d uart)))"
    by (simp_all add: stm32_room_def)
  from wait_flag_takes [OF r] obtain ws where w: "wait_flag USART_SR_TXE (us_sr_reads (usart_at d uart)) = Some ws"
    "k \<le> length (filter (\<lambda>v. v AND USART_SR_TXE \<noteq> 0) ws)" by blast
  then show "\<exists>e. op_write_char stm32_uart_ops uart c d = Some (HAL_OK, e) \<and> stm32_room uart k e \<and>
      stm32_sent uart e = stm32_sent uart d @ [c]"
    using u by (simp add: stm32_uart_ops_def stm32_uart_write_char_def wait_SR_def usart_update_def stm32_room_def stm32_sent_def)
qed

section \<open>Properties\<close>

text \<open>C24. What is written on the UART arrives as text. On an instance of the chip whose transmitter keeps
  emptying, a string goes out as it is, an unsigned number as its decimal numeral and a signed one with its
  sign, and \<open>str_to_int\<close> reads the number back, except for the least \<open>int32_t\<close>, whose numeral it cannot read.\<close>

theorem uart_text_roundtrip:
  assumes "stm32_room uart (length (signed_numeral (sint num))) d" "length stack = 10"
  shows "\<exists>e. hal_uart_write_int stm32_uart_ops stack uart num d = Some (HAL_OK, e) \<and>
    stm32_sent uart e = stm32_sent uart d @ signed_numeral (sint num) \<and>
    str_to_int (signed_numeral (sint num)) = (if sint num = - 2147483648 then None else Some (sint num))"
proof -
  have "\<bar>sint num\<bar> \<le> 2147483647 \<longleftrightarrow> sint num \<noteq> - 2147483648"
    using sint_greater_eq [of num] sint_less [of num] by auto
  then show ?thesis using stm32_uart.send_int [OF assms] by (auto simp: signed_parses)
qed


definition usart_idle :: usart where
  "usart_idle = \<lparr>US_BRR = 0, US_CR1 = 0, US_CR3 = 0, us_sr_reads = [], us_dr_reads = [], us_sent = [], us_idle_cb = None\<rparr>"

text \<open>A board with one route whose status register reads as the list says.\<close>

definition uart_reset :: "u32 list \<Rightarrow> u32 list \<Rightarrow> uart_dev" where
  "uart_reset sr dr =
     \<lparr>nvic_enabled = \<lambda>_. 0, nvic_pending = \<lambda>_. 0, NVIC_IPR = \<lambda>_. 0, SCB_SHPR1 = 0, SCB_SHPR2 = 0, SCB_SHPR3 = 0,
      cpu_primask = 0, irq_cb = \<lambda>_. None,
      uart_board = \<lparr>BOARD_HSI_FREQ_HZ = 16000000, BOARD_HSE_FREQ_HZ = 8000000, BOARD_HSE_BYPASS = False\<rparr>,
      uart_pinmap = [(1, 9, 10, 7), (2, 2, 3, 7)], uart_gpio = gpio_reset,
      uart_rcc = \<lparr>RCC_CR = 0x83, RCC_PLLCFGR = 0x24003010, RCC_CFGR = 0, clk_acr = 0\<rparr>, RCC_APB1ENR = 0, RCC_APB2ENR = 0,
      usart_at = \<lambda>_. usart_idle\<lparr>us_sr_reads := sr, us_dr_reads := dr\<rparr>\<rparr>"

theorem uart_text_roundtrip_witness:
  "\<exists>e. hal_uart_write_int stm32_uart_ops (replicate 10 0) 2 (- 42) (uart_reset [0, 0x80, 0, 0xC0, 0x80] []) = Some (HAL_OK, e) \<and>
    stm32_sent 2 e = [45, 52, 50] \<and> str_to_int [45, 52, 50] = Some (- 42)"
proof -
  have n: "signed_numeral (sint (- 42 :: u32)) = [45, 52, 50]"
    by (simp add: signed_numeral_def numeral_of_def decimal.simps)
  have "stm32_room 2 (length (signed_numeral (sint (- 42 :: u32)))) (uart_reset [0, 0x80, 0, 0xC0, 0x80] [])"
    unfolding n by (simp add: stm32_room_def get_usart_def HAL_UART_2_def uart_reset_def USART_SR_TXE_def)
  from uart_text_roundtrip [OF this, of "replicate 10 0"] show ?thesis
    unfolding n by (simp add: stm32_sent_def uart_reset_def usart_idle_def)
qed

text \<open>An instance the chip does not have takes nothing and says so; it receives zeros.\<close>

lemma no_such_uart:
  assumes "\<not> get_usart uart"
  shows "hal_uart_write_string stm32_uart_ops uart (Some cs) d = Some (if cs = [] then HAL_OK else HAL_ERR_INVALID_ARG, d)"
    "hal_uart_write stm32_uart_ops uart (Some bs) len d = Some (if take (unat len) bs = [] then HAL_OK else HAL_ERR_INVALID_ARG, d)"
    "hal_uart_read_char stm32_uart_ops uart d = Some (0, d)"
proof -
  have w: "write_chars stm32_uart_ops uart xs d = Some (if xs = [] then HAL_OK else HAL_ERR_INVALID_ARG, d)" for xs
    using assms by (cases xs) (simp_all add: ok_or_ret_def stm32_uart_ops_def stm32_uart_write_char_def)
  then show "hal_uart_write_string stm32_uart_ops uart (Some cs) d = Some (if cs = [] then HAL_OK else HAL_ERR_INVALID_ARG, d)"
    "hal_uart_write stm32_uart_ops uart (Some bs) len d = Some (if take (unat len) bs = [] then HAL_OK else HAL_ERR_INVALID_ARG, d)"
    by (simp_all add: hal_uart_write_string_def hal_uart_write_def)
  show "hal_uart_read_char stm32_uart_ops uart d = Some (0, d)"
    using assms by (simp add: hal_uart_read_char_def stm32_uart_ops_def stm32_uart_read_char_def)
qed

text \<open>The baud rate register: the divider is the nearest one.\<close>

lemma nearest_divider:
  fixes b c :: nat
  assumes "0 < b"
  shows "2 * ((c + b div 2) div b * b) \<le> 2 * c + b \<and> 2 * c \<le> 2 * ((c + b div 2) div b * b) + b"
proof -
  have "(c + b div 2) div b * b + (c + b div 2) mod b = c + b div 2" "(c + b div 2) mod b < b" using assms by simp_all
  moreover have "2 * (b div 2) \<le> b" "b \<le> 2 * (b div 2) + 1" by simp_all
  ultimately show ?thesis by linarith
qed

lemma uart_divider_nearest:
  fixes clk baud :: u32
  assumes "baud \<noteq> 0" "unat clk + unat baud div 2 < 2 ^ 32"
  shows "2 * (unat ((clk + baud div 2) div baud) * unat baud) \<le> 2 * unat clk + unat baud \<and>
    2 * unat clk \<le> 2 * (unat ((clk + baud div 2) div baud) * unat baud) + unat baud"
proof -
  have "unat (clk + baud div 2) = unat clk + unat baud div 2" using assms(2) by (simp add: unat_word_ariths unat_div)
  then have "unat ((clk + baud div 2) div baud) = (unat clk + unat baud div 2) div unat baud" by (simp only: unat_div)
  moreover have "0 < unat baud" using assms(1) by (simp add: unat_gt_0 word_gt_0)
  ultimately show ?thesis using nearest_divider [of "unat baud" "unat clk"] by simp
qed


section \<open>Receiving\<close>

text \<open>SR lets \<open>n\<close> characters be read: no error at the first look, then RXNE in time.\<close>

definition rx_errors :: u32 where
  "rx_errors = USART_SR_ORE OR USART_SR_NE OR USART_SR_FE OR USART_SR_PE"

fun rx_script :: "nat \<Rightarrow> u32 list \<Rightarrow> bool" where
  "rx_script 0 sr = True"
| "rx_script (Suc n) [] = False"
| "rx_script (Suc n) (v # sr) = (v AND rx_errors = 0 \<and> (case wait_flag USART_SR_RXNE sr of None \<Rightarrow> False | Some r \<Rightarrow> rx_script n r))"

text \<open>The characters \<open>bs\<close> arrive at the instance.\<close>

definition delivers :: "nat \<Rightarrow> u8 list \<Rightarrow> 'm uart_dev_scheme \<Rightarrow> bool" where
  "delivers uart bs d \<longleftrightarrow> get_usart uart \<and> rx_script (length bs) (us_sr_reads (usart_at d uart)) \<and>
     (\<exists>vs. us_dr_reads (usart_at d uart) = map ucast bs @ vs)"

lemma read_char_delivers:
  assumes "delivers uart (b # bs) d"
  shows "\<exists>e. stm32_uart_read_char uart d = Some (b, e) \<and> delivers uart bs e"
proof -
  obtain v sr r vs where sr: "us_sr_reads (usart_at d uart) = v # sr" "v AND rx_errors = 0"
    "wait_flag USART_SR_RXNE sr = Some r" "rx_script (length bs) r"
    and dr: "us_dr_reads (usart_at d uart) = ucast b # map ucast bs @ vs" and g: "get_usart uart"
    using assms by (cases "us_sr_reads (usart_at d uart)") (auto simp: delivers_def split: option.splits)
  have "(ucast (ucast b :: u32) :: u8) = b" by (rule bit_word_eqI) (simp add: bit_simps)
  then show ?thesis using sr dr g
    by (simp add: stm32_uart_read_char_def read_SR_def read_DR_def wait_SR_def usart_update_def rx_errors_def delivers_def)
qed

lemma read_loop_delivers:
  "delivers uart (cs @ delimiter # rest) d \<Longrightarrow> delimiter \<notin> set cs \<Longrightarrow> length cs \<le> k \<Longrightarrow> n + k < length buf \<Longrightarrow>
   \<exists>buf' e. read_loop stm32_uart_ops uart delimiter k n buf d = Some (n + length cs, buf', e) \<and>
     length buf' = length buf \<and> take (n + length cs) buf' = take n buf @ cs"
proof (induction cs arbitrary: k n buf d)
  case Nil
  then obtain e where "stm32_uart_read_char uart d = Some (delimiter, e)" using read_char_delivers by fastforce
  then show ?case by (cases k) (simp_all add: stm32_uart_ops_def)
next
  case (Cons c cs)
  then obtain l where k: "k = Suc l" by (cases k) auto
  from Cons.prems(1) obtain e where e: "stm32_uart_read_char uart d = Some (c, e)" "delivers uart (cs @ delimiter # rest) e"
    using read_char_delivers by fastforce
  have "take (n + 1) (buf[n := c]) = take n buf @ [c]" using Cons.prems(4) take_Suc_conv_app_nth [of n "buf[n := c]"] by simp
  then show ?case using Cons.IH [OF e(2), of l "n + 1" "buf[n := c]"] Cons.prems(2-4) e(1) k by (auto simp: stm32_uart_ops_def)
qed

text \<open>C25. A line is received as it was sent. When characters and then the delimiter arrive and fit the buffer,
  \<open>hal_uart_read_until\<close> returns their number and leaves them, terminated, at the start of the buffer; what the
  string functions read there is the line.\<close>

theorem read_until_returns_line:
  assumes "delivers uart (cs @ delimiter # rest) d" "delimiter \<notin> set cs" "0 \<notin> set cs"
    and "length cs < unat maxlen" "length buf = unat maxlen"
  shows "\<exists>buf' e. hal_uart_read_until stm32_uart_ops uart (Some buf) maxlen delimiter d = Some (word_of_nat (length cs), Some buf', e) \<and>
    length buf' = length buf \<and> string_at buf' 0 = cs"
proof -
  have m: "maxlen \<noteq> 0" using assms(4) by auto
  then have u: "unat (maxlen - 1) = unat maxlen - 1" by (simp add: unat_minus_one)
  obtain b e where r: "read_loop stm32_uart_ops uart delimiter (unat (maxlen - 1)) 0 buf d = Some (length cs, b, e)"
    "length b = length buf" "take (length cs) b = cs"
  proof -
    have "length cs \<le> unat (maxlen - 1)" "0 + unat (maxlen - 1) < length buf" using u assms(4,5) by linarith+
    from read_loop_delivers [OF assms(1,2) this] that show ?thesis by auto
  qed
  have "b[length cs := 0] = cs @ 0 # drop (length cs + 1) b" using r assms(4,5) by (simp add: upd_conv_take_nth_drop)
  moreover have "\<forall>c\<in>set cs. c \<noteq> 0" using assms(3) by auto
  ultimately have "string_at (b[length cs := 0]) 0 = cs" by (simp add: string_at_def takeWhile_append2)
  then show ?thesis using r m by (simp add: hal_uart_read_until_def)
qed

theorem read_until_returns_line_witness:
  "\<exists>buf' e. hal_uart_read_until stm32_uart_ops 6 (Some (replicate 8 0xAA)) 8 10
      (uart_reset [0, 0, 0x20, 0x20, 0x20, 0, 0x20] [72, 105, 10]) = Some (word_of_nat 2, Some buf', e) \<and>
    string_at buf' 0 = [72, 105]"
proof -
  have "delivers 6 ([72, 105] @ 10 # []) (uart_reset [0, 0, 0x20, 0x20, 0x20, 0, 0x20] [72, 105, 10])"
    by (simp add: delivers_def get_usart_def HAL_UART_6_def uart_reset_def numeral_3_eq_3 rx_errors_def USART_SR_RXNE_def
        USART_SR_ORE_def USART_SR_NE_def USART_SR_FE_def USART_SR_PE_def)
  moreover have "10 \<notin> set [72, 105 :: u8]" "0 \<notin> set [72, 105 :: u8]" "length [72, 105 :: u8] < unat (8 :: u32)"
    "length (replicate 8 (0xAA :: u8)) = unat (8 :: u32)" by simp_all
  ultimately have "\<exists>buf' e. hal_uart_read_until stm32_uart_ops 6 (Some (replicate 8 0xAA)) 8 10
      (uart_reset [0, 0, 0x20, 0x20, 0x20, 0, 0x20] [72, 105, 10]) = Some (word_of_nat (length [72, 105 :: u8]), Some buf', e) \<and>
      length buf' = length (replicate 8 (0xAA :: u8)) \<and> string_at buf' 0 = [72, 105]"
    by (rule read_until_returns_line)
  moreover have "length [72, 105 :: u8] = 2" by simp
  ultimately show ?thesis by (simp only:) blast
qed

text \<open>A received error reads as a zero character and is stored like one.\<close>

lemma rx_error_is_zero:
  "get_usart uart \<Longrightarrow> us_sr_reads (usart_at d uart) = v # sr \<Longrightarrow> v AND rx_errors \<noteq> 0 \<Longrightarrow>
   us_dr_reads (usart_at d uart) = w # ws \<Longrightarrow> \<exists>e. hal_uart_read_char stm32_uart_ops uart d = Some (0, e)"
  by (simp add: hal_uart_read_char_def stm32_uart_ops_def stm32_uart_read_char_def read_SR_def read_DR_def usart_update_def rx_errors_def)

end
