(* ===== verification/Cache.thy ===== *)
theory Cache
  imports Prelude
begin

text \<open>
  The L1 caches of the Cortex-M7, src/arch/armv7e-m/cache/cache.c, with the address classifier and
  the DMA helpers of include/port/cortex-m7/navhal_port_dma.h.

  The data cache is a set of 32-byte lines over memory, each perhaps valid and perhaps dirty; the
  processor reads through it, a DMA controller reads and writes memory. The maintenance registers
  do what the architecture manual says: DCCMVAC writes a dirty line back, DCIMVAC drops it,
  DCCIMVAC does both. The set/way registers are a log of what was written to them. A loop that
  need not end is a partial function.
\<close>

section \<open>State\<close>

record dcache =
  mem :: "u32 \<Rightarrow> u8"
  line_valid :: "u32 \<Rightarrow> bool"
  line_dirty :: "u32 \<Rightarrow> bool"
  line_data :: "u32 \<Rightarrow> u8"
  SCB_CCR :: u32
  SCB_CCSIDR :: u32
  SCB_CSSELR :: u32
  icache_invalidations :: nat
  dcisw_log :: "u32 list"
  dccisw_log :: "u32 list"

definition NAVHAL_CACHE_LINE :: u32 where "NAVHAL_CACHE_LINE = 32"
definition SCB_CCR_IC :: u32 where "SCB_CCR_IC = push_bit 17 1"
definition SCB_CCR_DC :: u32 where "SCB_CCR_DC = push_bit 16 1"

text \<open>The line of an address, and what the processor reads there.\<close>

definition line_of :: "u32 \<Rightarrow> u32" where
  "line_of a = a AND NOT 31"

definition cpu_view :: "'m dcache_scheme \<Rightarrow> u32 \<Rightarrow> u8" where
  "cpu_view s a = (if line_valid s (line_of a) then line_data s a else mem s a)"

definition DCCMVAC_write :: "u32 \<Rightarrow> 'm dcache_scheme \<Rightarrow> 'm dcache_scheme" where
  "DCCMVAC_write p s =
     (let l = line_of p in
      if line_valid s l \<and> line_dirty s l
      then s\<lparr>mem := \<lambda>a. if line_of a = l then line_data s a else mem s a, line_dirty := (line_dirty s)(l := False)\<rparr>
      else s)"

definition DCIMVAC_write :: "u32 \<Rightarrow> 'm dcache_scheme \<Rightarrow> 'm dcache_scheme" where
  "DCIMVAC_write p s =
     s\<lparr>line_valid := (line_valid s)(line_of p := False), line_dirty := (line_dirty s)(line_of p := False)\<rparr>"

definition DCCIMVAC_write :: "u32 \<Rightarrow> 'm dcache_scheme \<Rightarrow> 'm dcache_scheme" where
  "DCCIMVAC_write p s = DCIMVAC_write p (DCCMVAC_write p s)"

section \<open>The driver\<close>

definition hal_icache_enable :: "'m dcache_scheme \<Rightarrow> hal_status \<times> 'm dcache_scheme" where
  "hal_icache_enable s =
     (let s = s\<lparr>icache_invalidations := icache_invalidations s + 1\<rparr>
      in (HAL_OK, s\<lparr>SCB_CCR := SCB_CCR s OR SCB_CCR_IC\<rparr>))"

definition hal_icache_disable :: "'m dcache_scheme \<Rightarrow> hal_status \<times> 'm dcache_scheme" where
  "hal_icache_disable s =
     (let s = s\<lparr>SCB_CCR := SCB_CCR s AND NOT SCB_CCR_IC\<rparr>
      in (HAL_OK, s\<lparr>icache_invalidations := icache_invalidations s + 1\<rparr>))"

definition hal_icache_is_enabled :: "'m dcache_scheme \<Rightarrow> bool" where
  "hal_icache_is_enabled s \<longleftrightarrow> SCB_CCR s AND SCB_CCR_IC \<noteq> 0"

text \<open>\<open>__builtin_clz\<close>, undefined at 0.\<close>

definition clz32 :: "u32 \<Rightarrow> nat" where
  "clz32 v = length (takeWhile (\<lambda>i. \<not> bit v i) (rev [0..<32]))"

text \<open>The inner loop counts the way down to 0, the outer the set.\<close>

primrec ways_down :: "nat \<Rightarrow> nat \<Rightarrow> u32 \<Rightarrow> u32 list" where
  "ways_down 0 way_shift v = [v OR push_bit way_shift 0]"
| "ways_down (Suc w) way_shift v = (v OR push_bit way_shift (word_of_nat (Suc w))) # ways_down w way_shift v"

primrec sets_down :: "nat \<Rightarrow> nat \<Rightarrow> nat \<Rightarrow> nat \<Rightarrow> u32 list" where
  "sets_down 0 ways set_shift way_shift = ways_down ways way_shift (push_bit set_shift 0)"
| "sets_down (Suc k) ways set_shift way_shift =
     ways_down ways way_shift (push_bit set_shift (word_of_nat (Suc k))) @ sets_down k ways set_shift way_shift"

definition dcache_walk_sets_ways :: "u32 \<Rightarrow> u32 list" where
  "dcache_walk_sets_ways ccsidr =
     (let set_shift = unat (ccsidr AND 7) + 4;
          ways = drop_bit 3 ccsidr AND 0x3FF;
          way_shift = clz32 ways;
          sets = drop_bit 13 ccsidr AND 0x7FFF
      in sets_down (unat sets) (unat ways) set_shift way_shift)"

text \<open>\<open>while (p < end) { *mva_reg = p; p += line; }\<close> with \<open>op\<close> the register.\<close>

partial_function (option) walk_lines ::
    "(u32 \<Rightarrow> 'm dcache_scheme \<Rightarrow> 'm dcache_scheme) \<Rightarrow> u32 \<Rightarrow> u32 \<Rightarrow> 'm dcache_scheme \<Rightarrow> 'm dcache_scheme option" where
  "walk_lines op p end s = (if p < end then walk_lines op (p + NAVHAL_CACHE_LINE) end (op p s) else Some s)"

definition dcache_walk_range ::
    "(u32 \<Rightarrow> 'm dcache_scheme \<Rightarrow> 'm dcache_scheme) \<Rightarrow> u32 \<Rightarrow> u32 \<Rightarrow> 'm dcache_scheme \<Rightarrow> 'm dcache_scheme option" where
  "dcache_walk_range op addr n s =
     (if n = 0 then Some s
      else walk_lines op (addr AND NOT (NAVHAL_CACHE_LINE - 1)) (addr + n) s)"

definition hal_dcache_is_enabled :: "'m dcache_scheme \<Rightarrow> bool" where
  "hal_dcache_is_enabled s \<longleftrightarrow> SCB_CCR s AND SCB_CCR_DC \<noteq> 0"

definition hal_dcache_enable :: "'m dcache_scheme \<Rightarrow> hal_status \<times> 'm dcache_scheme" where
  "hal_dcache_enable s =
     (if SCB_CCR s AND SCB_CCR_DC \<noteq> 0 then (HAL_OK, s)
      else
        let s = s\<lparr>SCB_CSSELR := 0\<rparr>;
            s = s\<lparr>dcisw_log := dcisw_log s @ dcache_walk_sets_ways (SCB_CCSIDR s)\<rparr>
        in (HAL_OK, s\<lparr>SCB_CCR := SCB_CCR s OR SCB_CCR_DC\<rparr>))"

definition hal_dcache_disable :: "'m dcache_scheme \<Rightarrow> hal_status \<times> 'm dcache_scheme" where
  "hal_dcache_disable s =
     (let s = s\<lparr>SCB_CCR := SCB_CCR s AND NOT SCB_CCR_DC\<rparr>;
          s = s\<lparr>SCB_CSSELR := 0\<rparr>
      in (HAL_OK, s\<lparr>dccisw_log := dccisw_log s @ dcache_walk_sets_ways (SCB_CCSIDR s)\<rparr>))"

definition hal_dcache_clean :: "u32 \<Rightarrow> u32 \<Rightarrow> 'm dcache_scheme \<Rightarrow> (hal_status \<times> 'm dcache_scheme) option" where
  "hal_dcache_clean addr n s = map_option (Pair HAL_OK) (dcache_walk_range DCCMVAC_write addr n s)"

definition hal_dcache_invalidate :: "u32 \<Rightarrow> u32 \<Rightarrow> 'm dcache_scheme \<Rightarrow> (hal_status \<times> 'm dcache_scheme) option" where
  "hal_dcache_invalidate addr n s = map_option (Pair HAL_OK) (dcache_walk_range DCIMVAC_write addr n s)"

definition hal_dcache_clean_invalidate :: "u32 \<Rightarrow> u32 \<Rightarrow> 'm dcache_scheme \<Rightarrow> (hal_status \<times> 'm dcache_scheme) option" where
  "hal_dcache_clean_invalidate addr n s = map_option (Pair HAL_OK) (dcache_walk_range DCCIMVAC_write addr n s)"

section \<open>The DMA helpers\<close>

datatype navhal_dma_mem = NAVHAL_DMA_MEM_ITCM | NAVHAL_DMA_MEM_DTCM | NAVHAL_DMA_MEM_CACHED

definition NAVHAL_ITCM_BASE :: u32 where "NAVHAL_ITCM_BASE = 0x00000000"
definition NAVHAL_DTCM_BASE :: u32 where "NAVHAL_DTCM_BASE = 0x20000000"

text \<open>The sizes of the two memories come from the board.\<close>

record tcm =
  ITCM_SIZE :: u32
  DTCM_SIZE :: u32

definition navhal_dma_mem_class :: "tcm \<Rightarrow> u32 \<Rightarrow> navhal_dma_mem" where
  "navhal_dma_mem_class t a =
     (if a - NAVHAL_ITCM_BASE < ITCM_SIZE t then NAVHAL_DMA_MEM_ITCM
      else if a - NAVHAL_DTCM_BASE < DTCM_SIZE t then NAVHAL_DMA_MEM_DTCM
      else NAVHAL_DMA_MEM_CACHED)"

definition navhal_dma_tx_prepare :: "tcm \<Rightarrow> u32 \<Rightarrow> u32 \<Rightarrow> 'm dcache_scheme \<Rightarrow> (hal_status \<times> 'm dcache_scheme) option" where
  "navhal_dma_tx_prepare t buf n s =
     (case navhal_dma_mem_class t buf of
        NAVHAL_DMA_MEM_ITCM \<Rightarrow> Some (HAL_ERR_INVALID_ARG, s)
      | NAVHAL_DMA_MEM_DTCM \<Rightarrow> Some (HAL_OK, s)
      | NAVHAL_DMA_MEM_CACHED \<Rightarrow> hal_dcache_clean buf n s)"

definition navhal_dma_rx_guard :: "tcm \<Rightarrow> u32 \<Rightarrow> hal_status" where
  "navhal_dma_rx_guard t buf = (if navhal_dma_mem_class t buf = NAVHAL_DMA_MEM_ITCM then HAL_ERR_INVALID_ARG else HAL_OK)"

definition navhal_dma_rx_finish :: "tcm \<Rightarrow> u32 \<Rightarrow> u32 \<Rightarrow> 'm dcache_scheme \<Rightarrow> 'm dcache_scheme option" where
  "navhal_dma_rx_finish t buf n s =
     (if navhal_dma_mem_class t buf = NAVHAL_DMA_MEM_CACHED then map_option snd (hal_dcache_invalidate buf n s) else Some s)"


section \<open>Lines\<close>

lemma unat_line_of: "unat (line_of a) = unat a div 32 * 32"
proof -
  have m: "(31 :: u32) = mask 5" by (simp add: mask_eq_exp_minus_1)
  have "line_of a = push_bit 5 (drop_bit 5 a)"
    unfolding line_of_def by (rule bit_word_eqI) (auto simp: m bit_simps)
  then have "line_of a = a div 32 * 32" by (simp add: push_bit_eq_mult drop_bit_eq_div)
  moreover have "unat a div 32 * 32 < 4294967296" using u32_bound [of a] div_mult_mod_eq [of "unat a" 32] by linarith
  ultimately show ?thesis by (simp add: unat_word_ariths unat_div)
qed

lemma line_of_eq_iff: "line_of a = line_of b \<longleftrightarrow> unat a div 32 = unat b div 32"
  by (simp add: word_unat_eq_iff unat_line_of)

lemma line_of_line [simp]: "line_of (line_of a) = line_of a"
  by (simp add: line_of_eq_iff unat_line_of)

text \<open>The lines of \<open>k\<close> steps from \<open>p\<close>.\<close>

definition lines_from :: "u32 \<Rightarrow> nat \<Rightarrow> u32 list" where
  "lines_from p k = map (\<lambda>i. p + word_of_nat (32 * i)) [0..<k]"

lemma lines_from_Suc: "lines_from p (Suc k) = p # lines_from (p + 32) k"
proof -
  have "[0..<Suc k] = 0 # map Suc [0..<k]" by (simp only: map_Suc_upt upt_conv_Cons zero_less_Suc)
  then show ?thesis by (simp add: lines_from_def algebra_simps del: upt_Suc)
qed

lemma unat_step:
  fixes p :: u32
  assumes "unat p + m < 4294967296"
  shows "unat (p + word_of_nat m) = unat p + m"
proof -
  have "unat (word_of_nat m :: u32) = m" using assms by (simp add: unsigned_of_nat take_bit_nat_eq_self)
  then show ?thesis using assms by (simp add: unat_word_ariths)
qed

lemma walk_lines_fold:
  "unat end \<le> unat p + 32 * k \<Longrightarrow> (\<And>i. i < k \<Longrightarrow> unat p + 32 * i < unat end) \<Longrightarrow> unat p + 32 * k < 4294967296 \<Longrightarrow>
   walk_lines op p end s = Some (fold op (lines_from p k) s)"
proof (induction k arbitrary: p s)
  case 0
  then show ?case by (subst walk_lines.simps) (simp add: word_less_nat_alt lines_from_def)
next
  case (Suc k)
  have lt: "p < end" using Suc.prems(2) [of 0] by (simp add: word_less_nat_alt)
  have u: "unat (p + 32) = unat p + 32" using unat_step [of p 32] Suc.prems(3) by simp
  have "unat p + 32 + 32 * i < unat end" if "i < k" for i using Suc.prems(2) [of "Suc i"] that by simp
  then have "walk_lines op (p + 32) end (op p s) = Some (fold op (lines_from (p + 32) k) (op p s))"
    using Suc.IH [of "p + 32" "op p s"] Suc.prems(1,3) u by simp
  then show ?case using lt by (subst walk_lines.simps) (simp add: lines_from_Suc NAVHAL_CACHE_LINE_def)
qed

lemma div_ends: "0 < m \<Longrightarrow> (m - 1) div 32 * 32 < m \<and> m \<le> (m - 1) div 32 * 32 + 32" for m :: nat
  using div_mult_mod_eq [of "m - 1" 32] mod_less_divisor [of 32 "m - 1"] by linarith

lemma div_next: "m < (m div 32 + 1) * 32" for m :: nat
  using div_mult_mod_eq [of m 32] mod_less_divisor [of 32 m] unfolding add_mult_distrib by linarith

text \<open>The number of lines of a range, and that they are exactly the lines of its addresses.\<close>

definition line_count :: "u32 \<Rightarrow> u32 \<Rightarrow> nat" where
  "line_count addr n = (unat addr + unat n - 1) div 32 - unat addr div 32 + 1"

lemma walk_range_fold:
  assumes "n \<noteq> 0" "unat addr + unat n \<le> 4294967264"
  shows "dcache_walk_range op addr n s = Some (fold op (lines_from (line_of addr) (line_count addr n)) s)"
proof -
  have n: "0 < unat n" using assms(1) by (simp add: unat_gt_0 word_gt_0)
  have e: "unat (addr + n) = unat addr + unat n" using unat_step [of addr "unat n"] assms(2) by simp
  let ?q = "unat addr div 32" and ?r = "(unat addr + unat n - 1) div 32"
  have qr: "?q \<le> ?r" using n by (intro div_le_mono) linarith
  have ends: "?r * 32 < unat addr + unat n" "unat addr + unat n \<le> ?r * 32 + 32"
    using div_ends [of "unat addr + unat n"] n by simp_all
  have "walk_lines op (line_of addr) (addr + n) s = Some (fold op (lines_from (line_of addr) (line_count addr n)) s)"
  proof (rule walk_lines_fold)
    have "unat (line_of addr) + 32 * line_count addr n = ?r * 32 + 32"
      using qr unfolding line_count_def unat_line_of by (simp add: algebra_simps)
    then show "unat (addr + n) \<le> unat (line_of addr) + 32 * line_count addr n"
      "unat (line_of addr) + 32 * line_count addr n < 4294967296"
      using ends e assms(2) by linarith+
    show "unat (line_of addr) + 32 * i < unat (addr + n)" if "i < line_count addr n" for i
    proof -
      have "i \<le> ?r - ?q" using that by (simp add: line_count_def)
      then have "?q + i \<le> ?r" using qr by linarith
      then have "(?q + i) * 32 \<le> ?r * 32" by (rule mult_right_mono) simp
      then show ?thesis using ends(1) unfolding e unat_line_of by (simp add: algebra_simps)
    qed
  qed
  then show ?thesis using assms(1) by (simp add: dcache_walk_range_def line_of_def NAVHAL_CACHE_LINE_def)
qed

lemma lines_cover:
  assumes "n \<noteq> 0" "unat addr + unat n \<le> 4294967264"
  shows "line_of ` set (lines_from (line_of addr) (line_count addr n)) = {line_of a | a. unat addr \<le> unat a \<and> unat a < unat addr + unat n}"
    (is "?L = ?R")
proof -
  have n: "0 < unat n" using assms(1) by (simp add: unat_gt_0 word_gt_0)
  let ?q = "unat addr div 32" and ?r = "(unat addr + unat n - 1) div 32"
  have qr: "?q \<le> ?r" using n by (intro div_le_mono) linarith
  have r: "?r * 32 < unat addr + unat n" using div_ends [of "unat addr + unat n"] n by simp
  have at: "unat (line_of addr + word_of_nat (32 * i)) = (?q + i) * 32" if "i < line_count addr n" for i
  proof -
    have "i \<le> ?r - ?q" using that by (simp add: line_count_def)
    then have "?q + i \<le> ?r" using qr by linarith
    then have "(?q + i) * 32 \<le> ?r * 32" by (rule mult_right_mono) simp
    then have "unat (line_of addr) + 32 * i < 4294967296" using r assms(2) unfolding unat_line_of by (simp add: algebra_simps)
    from unat_step [OF this] show ?thesis unfolding unat_line_of by (simp add: algebra_simps)
  qed
  show ?thesis
  proof (intro set_eqI iffI)
    fix l assume "l \<in> ?L"
    then obtain i where i: "i < line_count addr n" "l = line_of (line_of addr + word_of_nat (32 * i))"
      by (auto simp: lines_from_def)
    have le: "i \<le> ?r - ?q" using i(1) by (simp add: line_count_def)
    show "l \<in> ?R"
    proof (cases "i = 0")
      case True
      then have "l = line_of addr" using i(2) by simp
      then show ?thesis using n by auto
    next
      case False
      let ?a = "line_of addr + word_of_nat (32 * i)"
      have "?q + 1 \<le> ?q + i" "?q + i \<le> ?r" using False le qr by linarith+
      then have "(?q + 1) * 32 \<le> (?q + i) * 32" "(?q + i) * 32 \<le> ?r * 32" by (intro mult_right_mono; simp)+
      moreover have "unat addr < (?q + 1) * 32" by (rule div_next)
      ultimately have "unat addr \<le> unat ?a" "unat ?a < unat addr + unat n" using r at [OF i(1)] by linarith+
      then show ?thesis using i(2) by blast
    qed
  next
    fix l assume "l \<in> ?R"
    then obtain a where a: "l = line_of a" "unat addr \<le> unat a" "unat a < unat addr + unat n" by blast
    let ?i = "unat a div 32 - ?q"
    have "?q \<le> unat a div 32" "unat a div 32 \<le> ?r" using a by (auto intro!: div_le_mono)
    then have i: "?i < line_count addr n" "?q + ?i = unat a div 32" unfolding line_count_def by linarith+
    have "line_of (line_of addr + word_of_nat (32 * ?i)) = line_of a" using at [OF i(1)] i(2) by (simp add: line_of_eq_iff)
    then show "l \<in> ?L" using a(1) i(1) by (auto simp: lines_from_def image_image intro!: image_eqI [where x = ?i])
  qed
qed

text \<open>A range that ends in the last line of the address space is walked for ever.\<close>

lemma last_line: "m \<le> 4294967264" if "m div 32 * 32 = m" "m < 4294967296" for m :: nat
proof -
  have "m div 32 < 134217728" using that(2) by (intro less_mult_imp_div_less) simp
  then show ?thesis using that(1) by linarith
qed

lemma next_line: "line_of (p + 32) = p + 32" if "line_of p = p"
proof -
  have p: "unat p div 32 * 32 = unat p" using that unat_line_of [of p] by simp
  show ?thesis
  proof (cases "unat p + 32 < 4294967296")
    case True
    then have u: "unat (p + 32) = unat p + 32" using unat_step [of p 32] by simp
    have "(unat p + 32) div 32 = unat p div 32 + 1" by simp
    then have "(unat p + 32) div 32 * 32 = unat p + 32" using p unfolding add_mult_distrib by simp
    then show ?thesis using unat_line_of [of "p + 32"] u by (simp add: word_unat_eq_iff)
  next
    case False
    then have "unat p = 4294967264" using p last_line [OF p u32_bound] by linarith
    then have "p = 4294967264" by (simp add: word_unat_eq_iff)
    then show ?thesis by (simp add: line_of_def)
  qed
qed

lemma walk_lines_hangs:
  assumes "4294967264 < unat end" "line_of p = p"
  shows "walk_lines op p end s = None"
proof -
  have below: "p < end" if "line_of p = p" "4294967264 < unat end" for p "end"
  proof -
    have "unat p div 32 * 32 = unat p" using that(1) unat_line_of [of p] by simp
    then have "unat p \<le> 4294967264" using u32_bound [of p] by (rule last_line)
    then show ?thesis using that(2) by (simp add: word_less_nat_alt)
  qed
  have "\<not> (line_of q = q \<and> 4294967264 < unat e)" if "walk_lines op q e v = Some t" for q e v t
    by (rule walk_lines.raw_induct [OF _ that]) (use below next_line in \<open>auto simp: NAVHAL_CACHE_LINE_def split: if_splits\<close>)
  then show ?thesis using assms by (cases "walk_lines op p end s") auto
qed


section \<open>Every set and way\<close>

text \<open>The maintenance by set and way writes one word for every pair, the last pair first.\<close>

lemma ways_down_eq: "ways_down w ws v = map (\<lambda>i. v OR push_bit ws (word_of_nat i)) (rev [0..<Suc w])"
  by (induction w) simp_all

lemma sets_down_eq:
  "sets_down k w ss ws =
     concat (map (\<lambda>j. map (\<lambda>i. push_bit ss (word_of_nat j) OR push_bit ws (word_of_nat i)) (rev [0..<Suc w])) (rev [0..<Suc k]))"
proof (induction k)
  case 0
  have "rev [0..<Suc 0] = [0 :: nat]" by simp
  then show ?case by (simp only: sets_down.simps ways_down_eq) simp
next
  case (Suc k)
  have "rev [0..<Suc (Suc k)] = Suc k # rev [0..<Suc k]" by simp
  then show ?case unfolding sets_down.simps ways_down_eq Suc by simp
qed

section \<open>Coherence\<close>

text \<open>A valid line that is not dirty agrees with memory.\<close>

definition cache_ok :: "'m dcache_scheme \<Rightarrow> bool" where
  "cache_ok s \<longleftrightarrow> (\<forall>a. line_valid s (line_of a) \<longrightarrow> \<not> line_dirty s (line_of a) \<longrightarrow> line_data s a = mem s a)"

lemma clean_fold:
  "fold DCCMVAC_write ps s =
     s\<lparr>mem := \<lambda>a. if line_of a \<in> line_of ` set ps \<and> line_valid s (line_of a) \<and> line_dirty s (line_of a) then line_data s a else mem s a,
       line_dirty := \<lambda>l. line_dirty s l \<and> \<not> (l \<in> line_of ` set ps \<and> line_valid s l)\<rparr>"
proof (induction ps arbitrary: s)
  case Nil
  then show ?case by simp
next
  case (Cons p ps)
  show ?case unfolding fold.simps o_apply Cons.IH
    by (rule dcache.equality) (auto simp: DCCMVAC_write_def Let_def fun_eq_iff)
qed

lemma invalidate_fold:
  "fold DCIMVAC_write ps s =
     s\<lparr>line_valid := \<lambda>l. line_valid s l \<and> l \<notin> line_of ` set ps, line_dirty := \<lambda>l. line_dirty s l \<and> l \<notin> line_of ` set ps\<rparr>"
proof (induction ps arbitrary: s)
  case Nil
  then show ?case by simp
next
  case (Cons p ps)
  show ?case unfolding fold.simps o_apply Cons.IH
    by (rule dcache.equality) (auto simp: DCIMVAC_write_def fun_eq_iff)
qed

text \<open>The addresses of a range.\<close>

definition in_range :: "u32 \<Rightarrow> u32 \<Rightarrow> u32 \<Rightarrow> bool" where
  "in_range addr n a \<longleftrightarrow> unat addr \<le> unat a \<and> unat a < unat addr + unat n"

lemma clean_range:
  assumes "unat addr + unat n \<le> 4294967264" "cache_ok s"
  obtains s' where "hal_dcache_clean addr n s = Some (HAL_OK, s')" "cache_ok s'" "cpu_view s' = cpu_view s"
    "\<And>a. in_range addr n a \<Longrightarrow> mem s' a = cpu_view s a" "\<And>a. mem s' a = mem s a \<or> mem s' a = cpu_view s a"
proof (cases "n = 0")
  case True
  then show ?thesis using assms by (intro that [of s]) (auto simp: hal_dcache_clean_def dcache_walk_range_def in_range_def)
next
  case False
  let ?ps = "lines_from (line_of addr) (line_count addr n)" and ?s = "fold DCCMVAC_write (lines_from (line_of addr) (line_count addr n)) s"
  have eq: "hal_dcache_clean addr n s = Some (HAL_OK, ?s)"
    unfolding hal_dcache_clean_def walk_range_fold [OF False assms(1)] by simp
  have cov: "line_of a \<in> line_of ` set ?ps" if "in_range addr n a" for a
    using that unfolding lines_cover [OF False assms(1)] in_range_def by blast
  show ?thesis
  proof (rule that [OF eq])
    show "cache_ok ?s" using assms(2) unfolding clean_fold by (auto simp: cache_ok_def)
    show "cpu_view ?s = cpu_view s" unfolding clean_fold by (auto simp: cpu_view_def fun_eq_iff)
    show "mem ?s a = cpu_view s a" if "in_range addr n a" for a
      using cov [OF that] assms(2) unfolding clean_fold by (auto simp: cpu_view_def cache_ok_def)
    show "mem ?s a = mem s a \<or> mem ?s a = cpu_view s a" for a unfolding clean_fold by (simp add: cpu_view_def)
  qed
qed

lemma invalidate_range:
  assumes "unat addr + unat n \<le> 4294967264"
  obtains s' where "hal_dcache_invalidate addr n s = Some (HAL_OK, s')" "mem s' = mem s"
    "\<And>a b. in_range addr n b \<Longrightarrow> line_of b = line_of a \<Longrightarrow> cpu_view s' a = mem s a"
    "\<And>a. (\<And>b. in_range addr n b \<Longrightarrow> line_of b \<noteq> line_of a) \<Longrightarrow> cpu_view s' a = cpu_view s a"
    "(\<And>a. \<not> in_range addr n a \<Longrightarrow> line_valid s (line_of a) \<Longrightarrow> \<not> line_dirty s (line_of a) \<Longrightarrow> line_data s a = mem s a) \<Longrightarrow> cache_ok s'"
proof (cases "n = 0")
  case True
  then show ?thesis
    by (intro that [of s]) (auto simp: hal_dcache_invalidate_def dcache_walk_range_def in_range_def cache_ok_def)
next
  case False
  let ?ps = "lines_from (line_of addr) (line_count addr n)" and ?s = "fold DCIMVAC_write (lines_from (line_of addr) (line_count addr n)) s"
  have eq: "hal_dcache_invalidate addr n s = Some (HAL_OK, ?s)"
    unfolding hal_dcache_invalidate_def walk_range_fold [OF False assms(1)] by simp
  have cov: "line_of a \<in> line_of ` set ?ps \<longleftrightarrow> (\<exists>b. in_range addr n b \<and> line_of b = line_of a)" for a
    unfolding lines_cover [OF False assms(1)] in_range_def by (auto intro: sym)
  show ?thesis
  proof (rule that [OF eq])
    show "mem ?s = mem s" unfolding invalidate_fold by simp
    show "cpu_view ?s a = mem s a" if "in_range addr n b" "line_of b = line_of a" for a b
    proof -
      have "line_of a \<in> line_of ` set ?ps" using that cov by blast
      then show ?thesis unfolding invalidate_fold by (simp add: cpu_view_def)
    qed
    show "cpu_view ?s a = cpu_view s a" if other: "\<And>b. in_range addr n b \<Longrightarrow> line_of b \<noteq> line_of a" for a
    proof -
      have "line_of a \<notin> line_of ` set ?ps" using other cov by blast
      then show ?thesis unfolding invalidate_fold by (simp add: cpu_view_def)
    qed
    show "cache_ok ?s"
      if clean: "\<And>a. \<not> in_range addr n a \<Longrightarrow> line_valid s (line_of a) \<Longrightarrow> \<not> line_dirty s (line_of a) \<Longrightarrow> line_data s a = mem s a"
    proof -
      have "line_of a \<notin> line_of ` set ?ps \<Longrightarrow> \<not> in_range addr n a" for a using cov by blast
      then show ?thesis using clean unfolding invalidate_fold by (auto simp: cache_ok_def)
    qed
  qed
qed

text \<open>Invalidating a range drops what the processor had written next to it in the same line.\<close>

lemma invalidate_drops_neighbour:
  assumes "unat addr + unat n \<le> 4294967264" "in_range addr n b" "line_of b = line_of a" "cpu_view s a \<noteq> mem s a"
  shows "\<exists>s'. hal_dcache_invalidate addr n s = Some (HAL_OK, s') \<and> cpu_view s' a \<noteq> cpu_view s a"
proof -
  obtain s' where "hal_dcache_invalidate addr n s = Some (HAL_OK, s')" "\<And>a b. in_range addr n b \<Longrightarrow> line_of b = line_of a \<Longrightarrow> cpu_view s' a = mem s a"
    by (rule invalidate_range [OF assms(1), of s]) blast
  then show ?thesis using assms(2-4) by fastforce
qed

text \<open>The class of a buffer is the class of its first byte: one that starts in the data TCM and runs past
  its end is sent without cleaning.\<close>

lemma straddling_buffer_not_cleaned:
  assumes "ITCM_SIZE t \<le> buf" "buf - NAVHAL_DTCM_BASE < DTCM_SIZE t"
  shows "navhal_dma_tx_prepare t buf n s = Some (HAL_OK, s)"
  using assms by (simp add: navhal_dma_tx_prepare_def navhal_dma_mem_class_def NAVHAL_ITCM_BASE_def)

section \<open>Properties\<close>

text \<open>A device puts \<open>data\<close> in the buffer, behind the cache.\<close>

definition device_writes :: "u32 \<Rightarrow> u32 \<Rightarrow> (u32 \<Rightarrow> u8) \<Rightarrow> 'm dcache_scheme \<Rightarrow> 'm dcache_scheme" where
  "device_writes addr n data s = s\<lparr>mem := \<lambda>a. if in_range addr n a then data a else mem s a\<rparr>"

text \<open>C23. Coherence of DMA with the data cache. Let a buffer in cached memory end below the last line, and let
  every clean line agree with memory. Preparing a transmission ends with HAL_OK, puts in memory every byte the
  processor sees in the buffer and changes no byte the processor sees anywhere. After a device has written the
  buffer, finishing the reception makes the processor see there what the device wrote, changes what it
  sees only in the lines the buffer touches, and clean lines agree with memory again.\<close>

theorem dma_helpers_coherent:
  assumes "navhal_dma_mem_class t buf = NAVHAL_DMA_MEM_CACHED" "unat buf + unat n \<le> 4294967264" "cache_ok s"
  shows "(\<exists>s'. navhal_dma_tx_prepare t buf n s = Some (HAL_OK, s') \<and> cache_ok s' \<and> cpu_view s' = cpu_view s \<and>
            (\<forall>a. in_range buf n a \<longrightarrow> mem s' a = cpu_view s a)) \<and>
         (\<exists>s'. navhal_dma_rx_finish t buf n (device_writes buf n data s) = Some s' \<and> cache_ok s' \<and>
            (\<forall>a. in_range buf n a \<longrightarrow> cpu_view s' a = data a) \<and>
            (\<forall>a. (\<forall>b. in_range buf n b \<longrightarrow> line_of b \<noteq> line_of a) \<longrightarrow> cpu_view s' a = cpu_view s a))"
proof
  obtain s1 where "hal_dcache_clean buf n s = Some (HAL_OK, s1)" "cache_ok s1" "cpu_view s1 = cpu_view s"
    "\<And>a. in_range buf n a \<Longrightarrow> mem s1 a = cpu_view s a" using clean_range [OF assms(2,3)] by metis
  then show "\<exists>s'. navhal_dma_tx_prepare t buf n s = Some (HAL_OK, s') \<and> cache_ok s' \<and> cpu_view s' = cpu_view s \<and>
      (\<forall>a. in_range buf n a \<longrightarrow> mem s' a = cpu_view s a)"
    by (intro exI [of _ s1]) (simp add: navhal_dma_tx_prepare_def assms(1))
next
  let ?d = "device_writes buf n data s"
  obtain s2 where s2: "hal_dcache_invalidate buf n ?d = Some (HAL_OK, s2)"
    "\<And>a b. in_range buf n b \<Longrightarrow> line_of b = line_of a \<Longrightarrow> cpu_view s2 a = mem ?d a"
    "\<And>a. (\<And>b. in_range buf n b \<Longrightarrow> line_of b \<noteq> line_of a) \<Longrightarrow> cpu_view s2 a = cpu_view ?d a"
    "(\<And>a. \<not> in_range buf n a \<Longrightarrow> line_valid ?d (line_of a) \<Longrightarrow> \<not> line_dirty ?d (line_of a) \<Longrightarrow> line_data ?d a = mem ?d a) \<Longrightarrow> cache_ok s2"
    by (rule invalidate_range [OF assms(2)]) blast
  have "cache_ok s2" by (rule s2(4)) (use assms(3) in \<open>simp add: device_writes_def cache_ok_def\<close>)
  moreover have "cpu_view s2 a = data a" if "in_range buf n a" for a
    using s2(2) [OF that refl] that by (simp add: device_writes_def)
  moreover have "cpu_view s2 a = cpu_view s a" if "\<forall>b. in_range buf n b \<longrightarrow> line_of b \<noteq> line_of a" for a
  proof -
    have "\<not> in_range buf n a" using that by blast
    then show ?thesis using s2(3) [of a] that by (simp add: device_writes_def cpu_view_def)
  qed
  ultimately show "\<exists>s'. navhal_dma_rx_finish t buf n ?d = Some s' \<and> cache_ok s' \<and>
      (\<forall>a. in_range buf n a \<longrightarrow> cpu_view s' a = data a) \<and>
      (\<forall>a. (\<forall>b. in_range buf n b \<longrightarrow> line_of b \<noteq> line_of a) \<longrightarrow> cpu_view s' a = cpu_view s a)"
    by (intro exI [of _ s2]) (simp add: navhal_dma_rx_finish_def assms(1) s2(1))
qed

text \<open>A 64-byte buffer off the line grid in the SRAM of the STM32F767, one line of it dirty.\<close>

definition f767_tcm :: tcm where
  "f767_tcm = \<lparr>ITCM_SIZE = 0x4000, DTCM_SIZE = 0x20000\<rparr>"

definition dirty_cache :: dcache where
  "dirty_cache = \<lparr>mem = \<lambda>_. 0, line_valid = \<lambda>l. l = 0x20020020, line_dirty = \<lambda>l. l = 0x20020020,
     line_data = \<lambda>a. ucast a, SCB_CCR = SCB_CCR_DC, SCB_CCSIDR = 0, SCB_CSSELR = 0, icache_invalidations = 0,
     dcisw_log = [], dccisw_log = []\<rparr>"

theorem dma_helpers_coherent_witness:
  "\<exists>s'. navhal_dma_tx_prepare f767_tcm 0x20020010 64 dirty_cache = Some (HAL_OK, s') \<and> mem s' 0x20020025 = 0x25"
proof -
  have ok: "cache_ok dirty_cache" by (simp add: cache_ok_def dirty_cache_def)
  have c: "navhal_dma_mem_class f767_tcm 0x20020010 = NAVHAL_DMA_MEM_CACHED"
    by (simp add: navhal_dma_mem_class_def f767_tcm_def NAVHAL_ITCM_BASE_def NAVHAL_DTCM_BASE_def)
  have r: "unat (0x20020010 :: u32) + unat (64 :: u32) \<le> 4294967264" by simp
  obtain s' where s': "navhal_dma_tx_prepare f767_tcm 0x20020010 64 dirty_cache = Some (HAL_OK, s')"
    "\<And>a. in_range 0x20020010 64 a \<Longrightarrow> mem s' a = cpu_view dirty_cache a"
    using dma_helpers_coherent [OF c r ok, of "\<lambda>_. 0"] by auto
  have "line_of (0x20020025 :: u32) = 0x20020020" by (simp add: line_of_def)
  then have "cpu_view dirty_cache 0x20020025 = 0x25" by (simp add: cpu_view_def dirty_cache_def)
  moreover have "in_range 0x20020010 64 0x20020025" by (simp add: in_range_def)
  ultimately show ?thesis using s' by auto
qed

end
