(* ===== verification/Dma.thy ===== *)
theory Dma
  imports Uart Cache
begin

text \<open>
  The DMA controllers: src/vendor/stm32/dma/dma.c.

  The state is the UART's, whose instances the streams serve, with a data cache, the streams of the
  two controllers and their interrupt flags. The hardware is a step that moves one byte of one stream
  when the USART that raises the request of its channel has it enabled; only byte transfers between
  memory and one register move, which is all the UART layer programs. A loop that waits for a stream
  to stop lets the hardware take one step between two readings, and is a partial function: \<open>None\<close> is a
  wait that never ends. A board has its wiring: which request reaches which channel, and which addresses
  are the data registers.
\<close>

section \<open>State and types\<close>

datatype dma_inst = DMA1 | DMA2

text \<open>\<open>dma_reload\<close> is the count the controller latched when the stream was enabled.\<close>

record dma_stream_regs =
  DMA_CR :: u32
  DMA_NDTR :: u32
  DMA_PAR :: u32
  DMA_M0AR :: u32
  DMA_FCR :: u32
  dma_reload :: u32

text \<open>\<open>dma_isr d False\<close> is LISR and \<open>dma_isr d True\<close> HISR.\<close>

record dma_dev = uart_dev +
  dma_cache :: dcache
  dma_stream :: "dma_inst \<Rightarrow> nat \<Rightarrow> dma_stream_regs"
  dma_isr :: "dma_inst \<Rightarrow> bool \<Rightarrow> u32"
  stream_cb :: "nat \<Rightarrow> nat \<Rightarrow> callback option"

definition HAL_DMA_CONTROLLER_1 :: nat where "HAL_DMA_CONTROLLER_1 = 1"
definition HAL_DMA_CONTROLLER_2 :: nat where "HAL_DMA_CONTROLLER_2 = 2"

datatype hal_dma_data_width = HAL_DMA_DATA_WIDTH_8 | HAL_DMA_DATA_WIDTH_16 | HAL_DMA_DATA_WIDTH_32
datatype hal_dma_direction = HAL_DMA_DIR_P2M | HAL_DMA_DIR_M2P | HAL_DMA_DIR_M2M
datatype hal_dma_fifo_threshold =
  HAL_DMA_FIFO_THRESHOLD_1_4 | HAL_DMA_FIFO_THRESHOLD_1_2 | HAL_DMA_FIFO_THRESHOLD_3_4 | HAL_DMA_FIFO_THRESHOLD_FULL
datatype hal_dma_priority = HAL_DMA_PRIORITY_LOW | HAL_DMA_PRIORITY_MEDIUM | HAL_DMA_PRIORITY_HIGH | HAL_DMA_PRIORITY_VERY_HIGH
datatype hal_dma_burst = HAL_DMA_BURST_SINGLE | HAL_DMA_BURST_INCR4 | HAL_DMA_BURST_INCR8 | HAL_DMA_BURST_INCR16

primrec width_code :: "hal_dma_data_width \<Rightarrow> u32" where
  "width_code HAL_DMA_DATA_WIDTH_8 = 0" | "width_code HAL_DMA_DATA_WIDTH_16 = 1" | "width_code HAL_DMA_DATA_WIDTH_32 = 2"

primrec dma_dir_code :: "hal_dma_direction \<Rightarrow> u32" where
  "dma_dir_code HAL_DMA_DIR_P2M = 0" | "dma_dir_code HAL_DMA_DIR_M2P = push_bit 6 1" | "dma_dir_code HAL_DMA_DIR_M2M = push_bit 6 2"

primrec threshold_code :: "hal_dma_fifo_threshold \<Rightarrow> u32" where
  "threshold_code HAL_DMA_FIFO_THRESHOLD_1_4 = 0" | "threshold_code HAL_DMA_FIFO_THRESHOLD_1_2 = 1"
| "threshold_code HAL_DMA_FIFO_THRESHOLD_3_4 = 2" | "threshold_code HAL_DMA_FIFO_THRESHOLD_FULL = 3"

primrec priority_code :: "hal_dma_priority \<Rightarrow> u32" where
  "priority_code HAL_DMA_PRIORITY_LOW = 0" | "priority_code HAL_DMA_PRIORITY_MEDIUM = 1"
| "priority_code HAL_DMA_PRIORITY_HIGH = 2" | "priority_code HAL_DMA_PRIORITY_VERY_HIGH = 3"

primrec burst_code :: "hal_dma_burst \<Rightarrow> u32" where
  "burst_code HAL_DMA_BURST_SINGLE = 0" | "burst_code HAL_DMA_BURST_INCR4 = 1"
| "burst_code HAL_DMA_BURST_INCR8 = 2" | "burst_code HAL_DMA_BURST_INCR16 = 3"

record hal_dma_config =
  dc_controller :: nat
  dc_stream :: u8
  dc_channel :: u8
  dc_direction :: hal_dma_direction
  dc_src_addr :: u32
  dc_dst_addr :: u32
  dc_data_count :: u16
  dc_src_inc :: u8
  dc_dst_inc :: u8
  dc_data_width :: hal_dma_data_width
  dc_priority :: hal_dma_priority
  dc_circular :: u8
  dc_pfctrl :: u8
  dc_fifo_mode :: u8
  dc_fifo_threshold :: hal_dma_fifo_threshold
  dc_mburst :: hal_dma_burst
  dc_pburst :: hal_dma_burst

definition DMA_SxCR_EN :: u32 where "DMA_SxCR_EN = push_bit 0 1"
definition DMA_SxCR_HTIE :: u32 where "DMA_SxCR_HTIE = push_bit 3 1"
definition DMA_SxCR_TCIE :: u32 where "DMA_SxCR_TCIE = push_bit 4 1"
definition DMA_SxCR_PFCTRL :: u32 where "DMA_SxCR_PFCTRL = push_bit 5 1"
definition DMA_SxCR_CIRC :: u32 where "DMA_SxCR_CIRC = push_bit 8 1"
definition DMA_SxCR_PINC :: u32 where "DMA_SxCR_PINC = push_bit 9 1"
definition DMA_SxCR_MINC :: u32 where "DMA_SxCR_MINC = push_bit 10 1"
definition DMA_SxFCR_DMDIS :: u32 where "DMA_SxFCR_DMDIS = push_bit 2 1"
definition RCC_AHB1ENR_DMA1EN :: u32 where "RCC_AHB1ENR_DMA1EN = push_bit 21 1"
definition RCC_AHB1ENR_DMA2EN :: u32 where "RCC_AHB1ENR_DMA2EN = push_bit 22 1"
definition USART_CR3_DMAT :: u32 where "USART_CR3_DMAT = push_bit 7 1"
definition USART_CR3_DMAR :: u32 where "USART_CR3_DMAR = push_bit 6 1"

definition dma_isr_shift :: "nat \<Rightarrow> nat" where
  "dma_isr_shift n = [0, 6, 16, 22] ! (n mod 4)"

definition DMA_ISR_TCIF :: "nat \<Rightarrow> u32" where "DMA_ISR_TCIF n = push_bit (dma_isr_shift n + 5) 1"
definition DMA_ISR_HTIF :: "nat \<Rightarrow> u32" where "DMA_ISR_HTIF n = push_bit (dma_isr_shift n + 4) 1"
definition DMA_ISR_TEIF :: "nat \<Rightarrow> u32" where "DMA_ISR_TEIF n = push_bit (dma_isr_shift n + 3) 1"
definition DMA_ISR_DMEIF :: "nat \<Rightarrow> u32" where "DMA_ISR_DMEIF n = push_bit (dma_isr_shift n + 2) 1"
definition DMA_ISR_FEIF :: "nat \<Rightarrow> u32" where "DMA_ISR_FEIF n = push_bit (dma_isr_shift n + 0) 1"

section \<open>The controller\<close>

definition stream_update ::
    "dma_inst \<Rightarrow> nat \<Rightarrow> (dma_stream_regs \<Rightarrow> dma_stream_regs) \<Rightarrow> 'm dma_dev_scheme \<Rightarrow> 'm dma_dev_scheme" where
  "stream_update d n f s = s\<lparr>dma_stream := (dma_stream s)(d := (dma_stream s d)(n := f (dma_stream s d n)))\<rparr>"

text \<open>Enabling a stream latches its count.\<close>

definition CR_write :: "u32 \<Rightarrow> dma_stream_regs \<Rightarrow> dma_stream_regs" where
  "CR_write v t =
     t\<lparr>DMA_CR := v,
       dma_reload := if DMA_CR t AND DMA_SxCR_EN = 0 \<and> v AND DMA_SxCR_EN \<noteq> 0 then DMA_NDTR t else dma_reload t\<rparr>"

definition isr_set :: "dma_inst \<Rightarrow> nat \<Rightarrow> u32 \<Rightarrow> 'm dma_dev_scheme \<Rightarrow> 'm dma_dev_scheme" where
  "isr_set d n v s = s\<lparr>dma_isr := (dma_isr s)(d := (dma_isr s d)(4 \<le> n := dma_isr s d (4 \<le> n) OR v))\<rparr>"

definition IFCR_write :: "dma_inst \<Rightarrow> nat \<Rightarrow> u32 \<Rightarrow> 'm dma_dev_scheme \<Rightarrow> 'm dma_dev_scheme" where
  "IFCR_write d n v s = s\<lparr>dma_isr := (dma_isr s)(d := (dma_isr s d)(4 \<le> n := dma_isr s d (4 \<le> n) AND NOT v))\<rparr>"

text \<open>The wiring: the instance and direction whose request is on a channel, and the data registers.\<close>

record dma_wires =
  wire_request :: "dma_inst \<Rightarrow> nat \<Rightarrow> nat \<Rightarrow> (nat \<times> bool) option"
  wire_tx :: "u32 \<Rightarrow> nat option"
  wire_rx :: "u32 \<Rightarrow> nat option"

definition periph_write :: "dma_wires \<Rightarrow> u32 \<Rightarrow> u8 \<Rightarrow> 'm dma_dev_scheme \<Rightarrow> 'm dma_dev_scheme" where
  "periph_write w a v s =
     (case wire_tx w a of None \<Rightarrow> s | Some u \<Rightarrow> usart_update u (\<lambda>x. x\<lparr>us_sent := us_sent x @ [v]\<rparr>) s)"

text \<open>The next byte an instance has received, if there is one.\<close>

definition periph_read :: "dma_wires \<Rightarrow> u32 \<Rightarrow> 'm dma_dev_scheme \<Rightarrow> (u8 \<times> 'm dma_dev_scheme) option" where
  "periph_read w a s =
     (case wire_rx w a of None \<Rightarrow> None | Some u \<Rightarrow> map_option (\<lambda>(v, s). (ucast v, s)) (read_DR u s))"

text \<open>One item is done: count down, and at the end reload or stop.\<close>

definition item_done :: "dma_inst \<Rightarrow> nat \<Rightarrow> 'm dma_dev_scheme \<Rightarrow> 'm dma_dev_scheme" where
  "item_done d n s =
     (let t = dma_stream s d n; left = DMA_NDTR t - 1;
          s = (if left = dma_reload t div 2 then isr_set d n (DMA_ISR_HTIF n) s else s)
      in if left = 0 then
           isr_set d n (DMA_ISR_TCIF n)
             (stream_update d n (\<lambda>t. if DMA_CR t AND DMA_SxCR_CIRC \<noteq> 0 then t\<lparr>DMA_NDTR := dma_reload t\<rparr>
                                     else t\<lparr>DMA_NDTR := 0, DMA_CR := DMA_CR t AND NOT DMA_SxCR_EN\<rparr>) s)
         else stream_update d n (\<lambda>t. t\<lparr>DMA_NDTR := left\<rparr>) s)"

text \<open>A byte stream between memory and a register: byte items, memory incremented, register not.\<close>

definition byte_mode :: "u32 \<Rightarrow> bool" where
  "byte_mode cr \<longleftrightarrow> cr AND push_bit 11 0xF = 0 \<and> cr AND DMA_SxCR_MINC \<noteq> 0 \<and> cr AND DMA_SxCR_PINC = 0"

definition channel_of :: "u32 \<Rightarrow> nat" where
  "channel_of cr = unat (drop_bit 25 cr AND 7)"

definition mem_write :: "u32 \<Rightarrow> u8 \<Rightarrow> 'm dma_dev_scheme \<Rightarrow> 'm dma_dev_scheme" where
  "mem_write a v s = s\<lparr>dma_cache := (dma_cache s)\<lparr>mem := (mem (dma_cache s))(a := v)\<rparr>\<rparr>"

definition dma_item :: "dma_wires \<Rightarrow> dma_inst \<Rightarrow> nat \<Rightarrow> 'm dma_dev_scheme \<Rightarrow> 'm dma_dev_scheme" where
  "dma_item w d n s =
     (let t = dma_stream s d n; cr = DMA_CR t; a = DMA_M0AR t + (dma_reload t - DMA_NDTR t) in
      if cr AND DMA_SxCR_EN = 0 \<or> DMA_NDTR t = 0 \<or> \<not> byte_mode cr then s
      else case wire_request w d n (channel_of cr) of None \<Rightarrow> s
      | Some (u, tx) \<Rightarrow>
          if tx then
            (if US_CR3 (usart_at s u) AND USART_CR3_DMAT \<noteq> 0 \<and> cr AND push_bit 6 3 = dma_dir_code HAL_DMA_DIR_M2P
             then item_done d n (periph_write w (DMA_PAR t) (mem (dma_cache s) a) s) else s)
          else
            (if US_CR3 (usart_at s u) AND USART_CR3_DMAR \<noteq> 0 \<and> cr AND push_bit 6 3 = dma_dir_code HAL_DMA_DIR_P2M
             then case periph_read w (DMA_PAR t) s of None \<Rightarrow> s | Some (v, s) \<Rightarrow> item_done d n (mem_write a v s)
             else s))"

text \<open>\<open>while (s->CR & DMA_SxCR_EN);\<close>\<close>

partial_function (option) wait_stopped ::
    "dma_wires \<Rightarrow> dma_inst \<Rightarrow> nat \<Rightarrow> 'm dma_dev_scheme \<Rightarrow> 'm dma_dev_scheme option" where
  "wait_stopped w d n s =
     (if DMA_CR (dma_stream s d n) AND DMA_SxCR_EN \<noteq> 0 then wait_stopped w d n (dma_item w d n s) else Some s)"

section \<open>The driver\<close>

definition get_dma :: "hal_dma_config \<Rightarrow> dma_inst" where
  "get_dma cfg = (if dc_controller cfg = HAL_DMA_CONTROLLER_2 then DMA2 else DMA1)"

definition get_stream :: "hal_dma_config \<Rightarrow> nat" where
  "get_stream cfg = unat (dc_stream cfg AND 7)"

definition clear_flags :: "dma_inst \<Rightarrow> nat \<Rightarrow> 'm dma_dev_scheme \<Rightarrow> 'm dma_dev_scheme" where
  "clear_flags d stream s =
     (let mask = DMA_ISR_TCIF stream OR DMA_ISR_HTIF stream OR DMA_ISR_TEIF stream OR DMA_ISR_DMEIF stream OR DMA_ISR_FEIF stream
      in IFCR_write d stream mask s)"

definition dma_cr :: "hal_dma_config \<Rightarrow> u32" where
  "dma_cr cfg =
     (let cr = 0;
          cr = cr OR push_bit 25 (ucast (dc_channel cfg) AND 7);
          cr = cr OR dma_dir_code (dc_direction cfg);
          cr = cr OR push_bit 16 (priority_code (dc_priority cfg)) AND push_bit 16 3;
          cr = cr OR push_bit 13 (width_code (dc_data_width cfg)) AND push_bit 13 3;
          cr = cr OR push_bit 11 (width_code (dc_data_width cfg)) AND push_bit 11 3;
          cr = (if dc_direction cfg = HAL_DMA_DIR_M2P then
                  let cr = (if dc_src_inc cfg \<noteq> 0 then cr OR DMA_SxCR_MINC else cr)
                  in if dc_dst_inc cfg \<noteq> 0 then cr OR DMA_SxCR_PINC else cr
                else
                  let cr = (if dc_dst_inc cfg \<noteq> 0 then cr OR DMA_SxCR_MINC else cr)
                  in if dc_src_inc cfg \<noteq> 0 then cr OR DMA_SxCR_PINC else cr);
          cr = (if dc_circular cfg \<noteq> 0 then cr OR DMA_SxCR_CIRC else cr);
          cr = (if dc_pfctrl cfg \<noteq> 0 then cr OR DMA_SxCR_PFCTRL else cr);
          cr = cr OR push_bit 23 (burst_code (dc_mburst cfg)) AND push_bit 23 3;
          cr = cr OR push_bit 21 (burst_code (dc_pburst cfg)) AND push_bit 21 3;
          cr = cr OR DMA_SxCR_TCIE
      in if dc_circular cfg \<noteq> 0 then cr OR DMA_SxCR_HTIE else cr)"

definition dma_fcr :: "hal_dma_config \<Rightarrow> u32" where
  "dma_fcr cfg =
     (if dc_fifo_mode cfg \<noteq> 0 then
        (0 OR DMA_SxFCR_DMDIS) OR push_bit 0 (threshold_code (dc_fifo_threshold cfg)) AND push_bit 0 3
      else 0)"

definition enable_dma_clock :: "hal_dma_config \<Rightarrow> 'm dma_dev_scheme \<Rightarrow> 'm dma_dev_scheme" where
  "enable_dma_clock cfg s =
     s\<lparr>uart_gpio := (uart_gpio s)\<lparr>RCC_AHB1ENR := RCC_AHB1ENR (uart_gpio s) OR
        (if dc_controller cfg = HAL_DMA_CONTROLLER_1 then RCC_AHB1ENR_DMA1EN else RCC_AHB1ENR_DMA2EN)\<rparr>\<rparr>"

definition hal_dma_init ::
    "dma_wires \<Rightarrow> hal_dma_config option \<Rightarrow> 'm dma_dev_scheme \<Rightarrow> (hal_status \<times> 'm dma_dev_scheme) option" where
  "hal_dma_init w c s =
     (case c of None \<Rightarrow> Some (HAL_ERR_INVALID_ARG, s) | Some cfg \<Rightarrow>
        let s = enable_dma_clock cfg s;
            n = get_stream cfg;
            d = get_dma cfg;
            s = stream_update d n (\<lambda>t. CR_write (DMA_CR t AND NOT DMA_SxCR_EN) t) s
        in case wait_stopped w d n s of None \<Rightarrow> None
        | Some s \<Rightarrow>
            let s = clear_flags d (unat (dc_stream cfg)) s;
                s = (if dc_direction cfg = HAL_DMA_DIR_M2P
                     then stream_update d n (\<lambda>t. t\<lparr>DMA_PAR := dc_dst_addr cfg, DMA_M0AR := dc_src_addr cfg\<rparr>) s
                     else stream_update d n (\<lambda>t. t\<lparr>DMA_PAR := dc_src_addr cfg, DMA_M0AR := dc_dst_addr cfg\<rparr>) s);
                s = stream_update d n (\<lambda>t. t\<lparr>DMA_NDTR := ucast (dc_data_count cfg)\<rparr>) s;
                s = stream_update d n (CR_write (dma_cr cfg)) s;
                s = stream_update d n (\<lambda>t. t\<lparr>DMA_FCR := dma_fcr cfg\<rparr>) s
            in Some (HAL_OK, s))"

definition hal_dma_start :: "hal_dma_config option \<Rightarrow> 'm dma_dev_scheme \<Rightarrow> hal_status \<times> 'm dma_dev_scheme" where
  "hal_dma_start c s =
     (case c of None \<Rightarrow> (HAL_ERR_INVALID_ARG, s) | Some cfg \<Rightarrow>
        let d = get_dma cfg; n = get_stream cfg;
            s = clear_flags d (unat (dc_stream cfg)) s
        in (HAL_OK, stream_update d n (\<lambda>t. CR_write (DMA_CR t OR DMA_SxCR_EN) t) s))"

definition hal_dma_stop ::
    "dma_wires \<Rightarrow> hal_dma_config option \<Rightarrow> 'm dma_dev_scheme \<Rightarrow> (hal_status \<times> 'm dma_dev_scheme) option" where
  "hal_dma_stop w c s =
     (case c of None \<Rightarrow> Some (HAL_ERR_INVALID_ARG, s) | Some cfg \<Rightarrow>
        let n = get_stream cfg;
            s = stream_update (get_dma cfg) n (\<lambda>t. CR_write (DMA_CR t AND NOT DMA_SxCR_EN) t) s
        in map_option (Pair HAL_OK) (wait_stopped w (get_dma cfg) n s))"

definition hal_dma_transfer_complete :: "hal_dma_config option \<Rightarrow> 'm dma_dev_scheme \<Rightarrow> bool" where
  "hal_dma_transfer_complete c s =
     (case c of None \<Rightarrow> False | Some cfg \<Rightarrow>
        let d = get_dma cfg; n = unat (dc_stream cfg)
        in dma_isr s d (4 \<le> n) AND DMA_ISR_TCIF n \<noteq> 0)"

definition hal_dma_clear_flags :: "hal_dma_config option \<Rightarrow> 'm dma_dev_scheme \<Rightarrow> hal_status \<times> 'm dma_dev_scheme" where
  "hal_dma_clear_flags c s =
     (case c of None \<Rightarrow> (HAL_ERR_INVALID_ARG, s)
      | Some cfg \<Rightarrow> (HAL_OK, clear_flags (get_dma cfg) (unat (dc_stream cfg)) s))"

definition hal_dma_set_memory ::
    "dma_wires \<Rightarrow> hal_dma_config option \<Rightarrow> u32 \<Rightarrow> u16 \<Rightarrow> 'm dma_dev_scheme \<Rightarrow> (hal_status \<times> 'm dma_dev_scheme) option" where
  "hal_dma_set_memory w c addr count s =
     (case c of None \<Rightarrow> Some (HAL_ERR_INVALID_ARG, s) | Some cfg \<Rightarrow>
        if count = 0 then Some (HAL_ERR_INVALID_ARG, s)
        else if dc_stream cfg > 7 then Some (HAL_ERR_INVALID_ARG, s)
        else
          let d = get_dma cfg; n = unat (dc_stream cfg)
          in case wait_stopped w d n s of None \<Rightarrow> None
          | Some s \<Rightarrow> Some (HAL_OK, stream_update d n (\<lambda>t. t\<lparr>DMA_M0AR := addr, DMA_NDTR := ucast count\<rparr>) s))"

text \<open>The out-parameter is the result, when there is one.\<close>

definition hal_dma_remaining :: "hal_dma_config option \<Rightarrow> 'm dma_dev_scheme \<Rightarrow> hal_status + u16" where
  "hal_dma_remaining c s =
     (case c of None \<Rightarrow> Inl HAL_ERR_INVALID_ARG | Some cfg \<Rightarrow>
        if dc_stream cfg > 7 then Inl HAL_ERR_INVALID_ARG
        else Inr (ucast (DMA_NDTR (dma_stream s (get_dma cfg) (unat (dc_stream cfg))) AND 0xFFFF)))"

text \<open>The owner of a stream's interrupt.\<close>

definition cb_slot :: "nat \<Rightarrow> u8 \<Rightarrow> nat option" where
  "cb_slot c stream =
     (if c \<noteq> HAL_DMA_CONTROLLER_1 \<and> c \<noteq> HAL_DMA_CONTROLLER_2 then None
      else if stream \<ge> 8 then None
      else Some (c - HAL_DMA_CONTROLLER_1))"

definition hal_dma_attach_callback ::
    "nat \<Rightarrow> u8 \<Rightarrow> callback option \<Rightarrow> 'm dma_dev_scheme \<Rightarrow> hal_status \<times> 'm dma_dev_scheme" where
  "hal_dma_attach_callback controller stream cb s =
     (case cb_slot controller stream of
        Some ci \<Rightarrow>
          if cb = None then (HAL_ERR_INVALID_ARG, s)
          else if stream_cb s ci (unat stream) \<noteq> None \<and> stream_cb s ci (unat stream) \<noteq> cb then (HAL_ERR_BUSY, s)
          else (HAL_OK, s\<lparr>stream_cb := (stream_cb s)(ci := (stream_cb s ci)(unat stream := cb))\<rparr>)
      | None \<Rightarrow> (HAL_ERR_INVALID_ARG, s))"

definition hal_dma_detach_callback :: "nat \<Rightarrow> u8 \<Rightarrow> 'm dma_dev_scheme \<Rightarrow> hal_status \<times> 'm dma_dev_scheme" where
  "hal_dma_detach_callback controller stream s =
     (case cb_slot controller stream of None \<Rightarrow> (HAL_ERR_INVALID_ARG, s)
      | Some ci \<Rightarrow> (HAL_OK, s\<lparr>stream_cb := (stream_cb s)(ci := (stream_cb s ci)(unat stream := None))\<rparr>))"

text \<open>The sixteen handlers, of one controller and stream each, with the interrupt number of the vector.\<close>

definition dma_irqn :: "dma_inst \<Rightarrow> nat \<Rightarrow> int" where
  "dma_irqn d n =
     (case d of DMA1 \<Rightarrow> [11, 12, 13, 14, 15, 16, 17, 47] ! n | DMA2 \<Rightarrow> [56, 57, 58, 59, 60, 68, 69, 70] ! n)"

definition dma_stream_irq_handler ::
    "(callback \<Rightarrow> 'm dma_dev_scheme \<Rightarrow> 'm dma_dev_scheme) \<Rightarrow> dma_inst \<Rightarrow> nat \<Rightarrow> 'm dma_dev_scheme \<Rightarrow> 'm dma_dev_scheme" where
  "dma_stream_irq_handler run d n s =
     (let s = (case stream_cb s (case d of DMA1 \<Rightarrow> 0 | DMA2 \<Rightarrow> 1) n of
                 Some cb \<Rightarrow> run cb s
               | None \<Rightarrow> hal_interrupt_dispatch run (dma_irqn d n) s)
      in clear_flags d n s)"


section \<open>What each write leaves alone\<close>

lemma stream_update_simps [simp, frame_simps]:
  "dma_stream (stream_update d n f s) d n = f (dma_stream s d n)"
  "(d', n') \<noteq> (d, n) \<Longrightarrow> dma_stream (stream_update d n f s) d' n' = dma_stream s d' n'"
  "usart_at (stream_update d n f s) = usart_at s" "dma_cache (stream_update d n f s) = dma_cache s"
  by (auto simp: stream_update_def)

lemma usart_update_frame [simp]:
  "dma_stream (usart_update u f s) = dma_stream s" "dma_cache (usart_update u f s) = dma_cache s"
  "usart_at (usart_update u f s) v = (if v = u then f (usart_at s u) else usart_at s v)"
  by (simp_all add: usart_update_def)

lemma isr_frame [simp]:
  "dma_stream (isr_set d n v s) = dma_stream s" "dma_cache (isr_set d n v s) = dma_cache s" "usart_at (isr_set d n v s) = usart_at s"
  "dma_stream (clear_flags d n s) = dma_stream s" "dma_cache (clear_flags d n s) = dma_cache s" "usart_at (clear_flags d n s) = usart_at s"
  by (simp_all add: isr_set_def clear_flags_def IFCR_write_def Let_def)

lemma enable_clock_frame [simp]:
  "dma_stream (enable_dma_clock c s) = dma_stream s" "dma_cache (enable_dma_clock c s) = dma_cache s" "usart_at (enable_dma_clock c s) = usart_at s"
  by (simp_all add: enable_dma_clock_def)

lemma mem_write_frame [simp]:
  "dma_stream (mem_write a v s) = dma_stream s" "usart_at (mem_write a v s) = usart_at s"
  "dma_cache (mem_write a v s) = (dma_cache s)\<lparr>mem := (mem (dma_cache s))(a := v)\<rparr>"
  by (simp_all add: mem_write_def)

lemma interrupt_enable_frame [simp]:
  "dma_stream (snd (hal_interrupt_enable i s)) = dma_stream s" "dma_cache (snd (hal_interrupt_enable i s)) = dma_cache s"
  "usart_at (snd (hal_interrupt_enable i s)) = usart_at s"
  by (simp_all add: hal_interrupt_enable_def armv7em_interrupt_enable_def enable_at_def armv7em_interrupt_set_priority_def
      NVIC_ISER_write_def Let_def)

text \<open>A finished item counts down; the last one stops the stream, or reloads it.\<close>

definition count_down :: "dma_stream_regs \<Rightarrow> dma_stream_regs" where
  "count_down t =
     (if DMA_NDTR t - 1 = 0 then
        (if DMA_CR t AND DMA_SxCR_CIRC \<noteq> 0 then t\<lparr>DMA_NDTR := dma_reload t\<rparr>
         else t\<lparr>DMA_NDTR := 0, DMA_CR := DMA_CR t AND NOT DMA_SxCR_EN\<rparr>)
      else t\<lparr>DMA_NDTR := DMA_NDTR t - 1\<rparr>)"

lemma item_done_simps [simp]:
  "dma_stream (item_done d n s) d n = count_down (dma_stream s d n)"
  "dma_cache (item_done d n s) = dma_cache s" "usart_at (item_done d n s) = usart_at s"
  by (simp_all add: item_done_def count_down_def Let_def)

lemma item_done_other: "(d', n') \<noteq> (d, n) \<Longrightarrow> dma_stream (item_done d n s) d' n' = dma_stream s d' n'"
  by (simp add: item_done_def Let_def)

lemma periph_streams:
  "dma_stream (periph_write w a v s) = dma_stream s" "periph_read w a s = Some (v, s') \<Longrightarrow> dma_stream s' = dma_stream s"
   apply (simp add: periph_write_def split: option.splits)
  apply (auto simp: periph_read_def read_DR_def split: option.splits list.splits)
  done

lemma item_other_stream:
  assumes "(d', n') \<noteq> (d, n)"
  shows "dma_stream (dma_item w d n s) d' n' = dma_stream s d' n'"
proof (cases "DMA_CR (dma_stream s d n) AND DMA_SxCR_EN = 0 \<or> DMA_NDTR (dma_stream s d n) = 0 \<or> \<not> byte_mode (DMA_CR (dma_stream s d n))")
  case True
  then show ?thesis unfolding dma_item_def Let_def by (simp only: if_True)
next
  case False
  note item_done_other [OF assms, simp] and periph_streams(1) [simp]
  show ?thesis
  proof (cases "wire_request w d n (channel_of (DMA_CR (dma_stream s d n)))")
    case None
    then show ?thesis unfolding dma_item_def Let_def by simp
  next
    case (Some p)
    show ?thesis
    proof (cases "periph_read w (DMA_PAR (dma_stream s d n)) s")
      case None
      then show ?thesis using Some False unfolding dma_item_def Let_def by (cases p) simp
    next
      case (Some q)
      then have "dma_stream (snd q) = dma_stream s" using periph_streams(2) by (cases q) simp
      then show ?thesis using Some \<open>wire_request w d n _ = Some p\<close> False unfolding dma_item_def Let_def by (cases p; cases q) simp
    qed
  qed
qed

lemma item_stopped: "DMA_CR (dma_stream s d n) AND DMA_SxCR_EN = 0 \<Longrightarrow> dma_item w d n s = s"
  by (simp add: dma_item_def Let_def)

lemma items_stopped: "DMA_CR (dma_stream s d n) AND DMA_SxCR_EN = 0 \<Longrightarrow> (dma_item w d n ^^ k) s = s"
  by (induction k) (simp_all add: item_stopped)

lemma wait_stopped_items:
  "(\<And>i. i < k \<Longrightarrow> DMA_CR (dma_stream ((dma_item w d n ^^ i) s) d n) AND DMA_SxCR_EN \<noteq> 0) \<Longrightarrow>
   DMA_CR (dma_stream ((dma_item w d n ^^ k) s) d n) AND DMA_SxCR_EN = 0 \<Longrightarrow>
   wait_stopped w d n s = Some ((dma_item w d n ^^ k) s)"
proof (induction k arbitrary: s)
  case 0
  then show ?case by (subst wait_stopped.simps) simp
next
  case (Suc k)
  have "DMA_CR (dma_stream s d n) AND DMA_SxCR_EN \<noteq> 0" using Suc.prems(1) [of 0] by simp
  moreover have "wait_stopped w d n (dma_item w d n s) = Some ((dma_item w d n ^^ k) (dma_item w d n s))"
    using Suc.prems(1) [of "Suc i" for i] Suc.prems(2) by (intro Suc.IH) (simp_all add: funpow_swap1)
  ultimately show ?case by (subst wait_stopped.simps) (simp add: funpow_swap1)
qed

lemma funpow_frame: "(\<And>s. f (g s) = f s) \<Longrightarrow> f ((g ^^ k) s) = f s"
  by (induction k) simp_all

lemma items_other_stream: "(d', n') \<noteq> (d, n) \<Longrightarrow> dma_stream ((dma_item w d n ^^ k) s) d' n' = dma_stream s d' n'"
  by (rule funpow_frame [where f = "\<lambda>s. dma_stream s d' n'"]) (rule item_other_stream)

text \<open>One owner for the interrupt of a stream: a second callback is refused until the first is gone, and the
  handler runs the owner, not the callback of the interrupt line, and clears the flags of the stream.\<close>

lemma callback_owner:
  assumes "cb_slot c n = Some ci" "hal_dma_attach_callback c n (Some cb) s = (HAL_OK, t)"
  shows "hal_dma_attach_callback c n (Some cb) t = (HAL_OK, t)"
    "cb' \<noteq> cb \<Longrightarrow> hal_dma_attach_callback c n (Some cb') t = (HAL_ERR_BUSY, t)"
    "fst (hal_dma_attach_callback c n (Some cb') (snd (hal_dma_detach_callback c n t))) = HAL_OK"
  using assms by (auto simp: hal_dma_attach_callback_def hal_dma_detach_callback_def split: if_splits)

lemma handler_runs_owner:
  "stream_cb s (case d of DMA1 \<Rightarrow> 0 | DMA2 \<Rightarrow> 1) n = Some cb \<Longrightarrow>
   dma_stream_irq_handler run d n s = clear_flags d n (run cb s)"
  "stream_cb s (case d of DMA1 \<Rightarrow> 0 | DMA2 \<Rightarrow> 1) n = None \<Longrightarrow>
   dma_stream_irq_handler run d n s = clear_flags d n (hal_interrupt_dispatch run (dma_irqn d n) s)"
  by (simp_all add: dma_stream_irq_handler_def Let_def)

text \<open>The flags of a stream are its own: clearing them leaves those of the others.\<close>

lemma shift_cases: "n < 8 \<Longrightarrow> n = 0 \<or> n = 1 \<or> n = 2 \<or> n = 3 \<or> n = 4 \<or> n = 5 \<or> n = 6 \<or> n = 7" for n :: nat
  by arith

lemma tcif_bit: "x AND DMA_ISR_TCIF n \<noteq> 0 \<longleftrightarrow> bit x (dma_isr_shift n + 5)"
proof -
  have "dma_isr_shift n + 5 < 32"
  proof -
    have "n mod 4 = 0 \<or> n mod 4 = 1 \<or> n mod 4 = 2 \<or> n mod 4 = 3" by arith
    then show ?thesis by (auto simp: dma_isr_shift_def)
  qed
  then show ?thesis by (auto simp: DMA_ISR_TCIF_def bit_simps and_exp_eq_0_iff_not_bit push_bit_eq_mult)
qed

lemma clear_own_flags:
  assumes "n < 8" "m < 8"
  shows "dma_isr (clear_flags d n s) d (4 \<le> m) AND DMA_ISR_TCIF m \<noteq> 0 \<longleftrightarrow>
    m \<noteq> n \<and> dma_isr s d (4 \<le> m) AND DMA_ISR_TCIF m \<noteq> 0"
  unfolding tcif_bit
  using shift_cases [OF assms(1)] shift_cases [OF assms(2)]
  by (elim disjE) (simp_all add: clear_flags_def IFCR_write_def Let_def dma_isr_shift_def bit_simps
      DMA_ISR_TCIF_def DMA_ISR_HTIF_def DMA_ISR_TEIF_def DMA_ISR_DMEIF_def DMA_ISR_FEIF_def)

end
