(* ===== verification/Uart_Dma.thy ===== *)
theory Uart_Dma
  imports Dma
begin

text \<open>
  The UART over DMA: the portable layer src/common/hal_uart_dma.c over its operations table
  (include/internal/hal_uart_dma_ops.h), and the tables of the two STM32 families, at the end of
  src/vendor/stm32/uart/uart.c and uart_f7.c.

  A buffer is its address, 0 for NULL. The port is \<open>Some\<close> the memory sizes of a board with the cache driver,
  whose helpers are those of the Cortex-M7 port, or \<open>None\<close> without it, where they do nothing. The locale
  \<open>uart_dma_wiring\<close> is what the layer needs of a table and of the wires of the chip: that the binding of an
  instance names the stream and the channel its requests arrive on, and its data register.
\<close>

section \<open>State\<close>

record hal_dma_binding =
  db_controller :: nat
  db_stream :: u8
  db_channel :: u8
  db_periph_addr :: u32
  db_irq :: int

record uart_dma = dma_dev +
  s_tx_armed :: "nat \<Rightarrow> bool"
  s_rx_len :: "nat \<Rightarrow> u16"
  s_rx_buf :: "nat \<Rightarrow> u32"
  s_override :: "nat \<Rightarrow> bool \<Rightarrow> hal_dma_binding"
  s_has_override :: "nat \<Rightarrow> bool \<Rightarrow> bool"

record 'd hal_uart_dma_ops =
  dop_binding :: "nat \<Rightarrow> bool \<Rightarrow> hal_status + hal_dma_binding"
  dop_set_request :: "nat \<Rightarrow> bool \<Rightarrow> bool \<Rightarrow> 'd \<Rightarrow> hal_status \<times> 'd"

definition UART_SLOTS :: nat where "UART_SLOTS = 8"

text \<open>The helpers of the port.\<close>

definition on_cache :: "(dcache \<Rightarrow> (hal_status \<times> dcache) option) \<Rightarrow> 'm dma_dev_scheme \<Rightarrow> (hal_status \<times> 'm dma_dev_scheme) option" where
  "on_cache f s = map_option (\<lambda>(st, c). (st, s\<lparr>dma_cache := c\<rparr>)) (f (dma_cache s))"

definition port_tx_prepare :: "tcm option \<Rightarrow> u32 \<Rightarrow> u32 \<Rightarrow> 'm dma_dev_scheme \<Rightarrow> (hal_status \<times> 'm dma_dev_scheme) option" where
  "port_tx_prepare port buf n s =
     (case port of None \<Rightarrow> Some (HAL_OK, s) | Some t \<Rightarrow> on_cache (navhal_dma_tx_prepare t buf n) s)"

definition port_rx_guard :: "tcm option \<Rightarrow> u32 \<Rightarrow> hal_status" where
  "port_rx_guard port buf = (case port of None \<Rightarrow> HAL_OK | Some t \<Rightarrow> navhal_dma_rx_guard t buf)"

section \<open>The portable layer\<close>

definition hal_uart_dma_get_binding ::
    "'d hal_uart_dma_ops \<Rightarrow> nat \<Rightarrow> bool \<Rightarrow> 'm uart_dma_scheme \<Rightarrow> hal_status + hal_dma_binding" where
  "hal_uart_dma_get_binding ops uart tx s =
     (if uart \<ge> UART_SLOTS then Inl HAL_ERR_INVALID_ARG
      else if s_has_override s uart tx then Inr (s_override s uart tx)
      else dop_binding ops uart tx)"

definition hal_uart_dma_set_binding ::
    "'d hal_uart_dma_ops \<Rightarrow> nat \<Rightarrow> bool \<Rightarrow> hal_dma_binding option \<Rightarrow> 'm uart_dma_scheme \<Rightarrow> hal_status \<times> 'm uart_dma_scheme" where
  "hal_uart_dma_set_binding ops uart tx binding s =
     (if uart \<ge> UART_SLOTS then (HAL_ERR_INVALID_ARG, s)
      else case binding of
        None \<Rightarrow> (HAL_OK, s\<lparr>s_has_override := (s_has_override s)(uart := (s_has_override s uart)(tx := False))\<rparr>)
      | Some b \<Rightarrow>
          (case dop_binding ops uart tx of Inl st \<Rightarrow> (st, s)
           | Inr probe \<Rightarrow>
               (HAL_OK, s\<lparr>s_override := (s_override s)(uart := (s_override s uart)(tx := b)),
                          s_has_override := (s_has_override s)(uart := (s_has_override s uart)(tx := True))\<rparr>)))"

text \<open>The fields the initialiser does not name are zero.\<close>

definition binding_config :: "hal_dma_binding \<Rightarrow> bool \<Rightarrow> u32 \<Rightarrow> u16 \<Rightarrow> hal_dma_config" where
  "binding_config b tx m count =
     \<lparr>dc_controller = db_controller b, dc_stream = db_stream b, dc_channel = db_channel b,
      dc_direction = (if tx then HAL_DMA_DIR_M2P else HAL_DMA_DIR_P2M),
      dc_src_addr = (if tx then m else db_periph_addr b), dc_dst_addr = (if tx then db_periph_addr b else m),
      dc_data_count = count, dc_src_inc = (if tx then 1 else 0), dc_dst_inc = (if tx then 0 else 1),
      dc_data_width = HAL_DMA_DATA_WIDTH_8, dc_priority = (if tx then HAL_DMA_PRIORITY_HIGH else HAL_DMA_PRIORITY_MEDIUM),
      dc_circular = (if tx then 0 else 1), dc_pfctrl = 0, dc_fifo_mode = 0, dc_fifo_threshold = HAL_DMA_FIFO_THRESHOLD_1_4,
      dc_mburst = HAL_DMA_BURST_SINGLE, dc_pburst = HAL_DMA_BURST_SINGLE\<rparr>"

definition descriptor ::
    "'d hal_uart_dma_ops \<Rightarrow> nat \<Rightarrow> bool \<Rightarrow> u32 \<Rightarrow> u16 \<Rightarrow> 'm uart_dma_scheme \<Rightarrow> hal_status + hal_dma_config" where
  "descriptor ops uart tx m count s =
     (case hal_uart_dma_get_binding ops uart tx s of Inl st \<Rightarrow> Inl st | Inr b \<Rightarrow> Inr (binding_config b tx m count))"

definition hal_uart_write_dma ::
    "dma_wires \<Rightarrow> tcm option \<Rightarrow> 'm uart_dma_scheme hal_uart_dma_ops \<Rightarrow> nat \<Rightarrow> u32 \<Rightarrow> u16 \<Rightarrow> 'm uart_dma_scheme \<Rightarrow>
     (hal_status \<times> 'm uart_dma_scheme) option" where
  "hal_uart_write_dma w port ops uart data len s =
     (if data = 0 \<or> len = 0 \<or> uart \<ge> UART_SLOTS then Some (HAL_ERR_INVALID_ARG, s)
      else ok_or_ret (port_tx_prepare port data (ucast len) s) (\<lambda>s.
        case descriptor ops uart True data len s of Inl st \<Rightarrow> Some (st, s) | Inr cfg \<Rightarrow>
          ok_or_ret (Some (dop_set_request ops uart True True s)) (\<lambda>s.
            ok_or_ret
              (if \<not> s_tx_armed s uart then
                 ok_or_ret (hal_dma_init w (Some cfg) s) (\<lambda>s. Some (HAL_OK, s\<lparr>s_tx_armed := (s_tx_armed s)(uart := True)\<rparr>))
               else hal_dma_set_memory w (Some cfg) data len s) (\<lambda>s.
              let s = (case hal_uart_dma_get_binding ops uart True s of Inl st \<Rightarrow> s
                       | Inr b \<Rightarrow> snd (hal_interrupt_enable (db_irq b) s));
                  s = snd (hal_dma_clear_flags (Some cfg) s)
              in Some (hal_dma_start (Some cfg) s)))))"

definition hal_uart_init_dma_rx ::
    "dma_wires \<Rightarrow> tcm option \<Rightarrow> 'm uart_dma_scheme hal_uart_dma_ops \<Rightarrow> nat \<Rightarrow> u32 \<Rightarrow> u16 \<Rightarrow> 'm uart_dma_scheme \<Rightarrow>
     (hal_status \<times> 'm uart_dma_scheme) option" where
  "hal_uart_init_dma_rx w port ops uart buffer len s =
     (if buffer = 0 \<or> len = 0 \<or> uart \<ge> UART_SLOTS then Some (HAL_ERR_INVALID_ARG, s)
      else if port_rx_guard port buffer \<noteq> HAL_OK then Some (port_rx_guard port buffer, s)
      else if port \<noteq> None \<and> hal_dcache_is_enabled (dma_cache s) \<and>
        (buffer AND (NAVHAL_CACHE_LINE - 1) \<noteq> 0 \<or> ucast len mod NAVHAL_CACHE_LINE \<noteq> 0) then Some (HAL_ERR_INVALID_ARG, s)
      else case descriptor ops uart False buffer len s of Inl st \<Rightarrow> Some (st, s) | Inr cfg \<Rightarrow>
        ok_or_ret (Some (dop_set_request ops uart False True s)) (\<lambda>s.
          ok_or_ret (hal_dma_init w (Some cfg) s) (\<lambda>s.
            let s = s\<lparr>s_rx_len := (s_rx_len s)(uart := len)\<rparr>;
                s = s\<lparr>s_rx_buf := (s_rx_buf s)(uart := buffer)\<rparr>
            in Some (hal_dma_start (Some cfg) s))))"

definition hal_uart_dma_rx_attach_callback ::
    "'d hal_uart_dma_ops \<Rightarrow> nat \<Rightarrow> callback option \<Rightarrow> 'm uart_dma_scheme \<Rightarrow> hal_status \<times> 'm uart_dma_scheme" where
  "hal_uart_dma_rx_attach_callback ops uart cb s =
     (if uart \<ge> UART_SLOTS then (HAL_ERR_INVALID_ARG, s)
      else case hal_uart_dma_get_binding ops uart False s of Inl st \<Rightarrow> (st, s)
      | Inr b \<Rightarrow>
          if cb = None then
            let s = snd (hal_interrupt_disable (db_irq b) s) in hal_interrupt_detach_callback (db_irq b) s
          else ok_or_return (hal_interrupt_attach_callback (db_irq b) cb s)
            (hal_interrupt_enable_with_priority (db_irq b) HAL_IRQ_PRIORITY_DEFAULT))"

definition hal_uart_dma_rx_sync ::
    "tcm option \<Rightarrow> nat \<Rightarrow> u16 \<Rightarrow> u16 \<Rightarrow> 'm uart_dma_scheme \<Rightarrow> (hal_status \<times> 'm uart_dma_scheme) option" where
  "hal_uart_dma_rx_sync port uart from len s =
     (if uart \<ge> UART_SLOTS \<or> s_rx_buf s uart = 0 then Some (HAL_ERR_INVALID_ARG, s)
      else let ring = s_rx_len s uart in
        if len = 0 \<or> len > ring \<or> from \<ge> ring then Some (HAL_ERR_INVALID_ARG, s)
        else if port = None then Some (HAL_OK, s)
        else
          let first = (if unat from + unat len > unat ring then ring - from else len)
          in case on_cache (hal_dcache_invalidate (s_rx_buf s uart + ucast from) (ucast first)) s of None \<Rightarrow> None
          | Some (_, s) \<Rightarrow>
              if first < len
              then map_option (\<lambda>(_, s). (HAL_OK, s)) (on_cache (hal_dcache_invalidate (s_rx_buf s uart) (ucast (len - first))) s)
              else Some (HAL_OK, s))"

definition hal_uart_dma_rx_index :: "'d hal_uart_dma_ops \<Rightarrow> nat \<Rightarrow> 'm uart_dma_scheme \<Rightarrow> hal_status + u16" where
  "hal_uart_dma_rx_index ops uart s =
     (if uart \<ge> UART_SLOTS then Inl HAL_ERR_INVALID_ARG
      else let len = s_rx_len s uart in
        if len = 0 then Inl HAL_ERR_INVALID_ARG
        else case descriptor ops uart False 0 len s of Inl st \<Rightarrow> Inl st | Inr cfg \<Rightarrow>
          (case hal_dma_remaining (Some cfg) s of Inl st \<Rightarrow> Inl st | Inr remaining \<Rightarrow> Inr (len - remaining)))"

text \<open>\<open>while (s[len] != '\0') len++\<close>, in sixteen bits.\<close>

partial_function (option) strlen16 :: "(u32 \<Rightarrow> u8) \<Rightarrow> u32 \<Rightarrow> u16 \<Rightarrow> u16 option" where
  "strlen16 v a len = (if v (a + ucast len) \<noteq> 0 then strlen16 v a (len + 1) else Some len)"

definition hal_uart_write_string_dma ::
    "dma_wires \<Rightarrow> tcm option \<Rightarrow> 'm uart_dma_scheme hal_uart_dma_ops \<Rightarrow> nat \<Rightarrow> u32 \<Rightarrow> 'm uart_dma_scheme \<Rightarrow>
     (hal_status \<times> 'm uart_dma_scheme) option" where
  "hal_uart_write_string_dma w port ops uart a s =
     (if a = 0 then Some (HAL_ERR_INVALID_ARG, s)
      else case strlen16 (cpu_view (dma_cache s)) a 0 of None \<Rightarrow> None
      | Some len \<Rightarrow> hal_uart_write_dma w port ops uart a len s)"

section \<open>The tables of the STM32 families\<close>

definition USART1_BASE :: u32 where "USART1_BASE = 0x40011000"
definition USART2_BASE :: u32 where "USART2_BASE = 0x40004400"
definition USART3_BASE :: u32 where "USART3_BASE = 0x40004800"
definition USART6_BASE :: u32 where "USART6_BASE = 0x40011400"
definition HAL_UART_3 :: nat where "HAL_UART_3 = 3"

definition uart_dma_binding :: "dma_inst \<Rightarrow> u8 \<Rightarrow> u8 \<Rightarrow> u32 \<Rightarrow> hal_dma_binding" where
  "uart_dma_binding d n ch a =
     \<lparr>db_controller = (if d = DMA1 then HAL_DMA_CONTROLLER_1 else HAL_DMA_CONTROLLER_2), db_stream = n, db_channel = ch,
      db_periph_addr = a, db_irq = dma_irqn d (unat n)\<rparr>"

definition stm32_uart_dma_binding :: "nat \<Rightarrow> bool \<Rightarrow> hal_status + hal_dma_binding" where
  "stm32_uart_dma_binding uart tx =
     (if uart = HAL_UART_1 then Inr (uart_dma_binding DMA2 (if tx then 7 else 2) 4 (USART1_BASE + 4))
      else if uart = HAL_UART_2 then Inr (uart_dma_binding DMA1 (if tx then 6 else 5) 4 (USART2_BASE + 4))
      else if uart = HAL_UART_6 then Inr (uart_dma_binding DMA2 (if tx then 7 else 1) 5 (USART6_BASE + 4))
      else Inl HAL_ERR_INVALID_ARG)"

definition stm32f7_uart_dma_binding :: "nat \<Rightarrow> bool \<Rightarrow> hal_status + hal_dma_binding" where
  "stm32f7_uart_dma_binding uart tx =
     (let r = (if tx then 0x28 else 0x24) in
      if uart = HAL_UART_1 then Inr (uart_dma_binding DMA2 (if tx then 7 else 2) 4 (USART1_BASE + r))
      else if uart = HAL_UART_2 then Inr (uart_dma_binding DMA1 (if tx then 6 else 5) 4 (USART2_BASE + r))
      else if uart = HAL_UART_3 then Inr (uart_dma_binding DMA1 (if tx then 3 else 1) 4 (USART3_BASE + r))
      else if uart = HAL_UART_6 then Inr (uart_dma_binding DMA2 (if tx then 6 else 1) 5 (USART6_BASE + r))
      else Inl HAL_ERR_INVALID_ARG)"

definition uart_set_request :: "bool \<Rightarrow> nat \<Rightarrow> bool \<Rightarrow> bool \<Rightarrow> 'm uart_dev_scheme \<Rightarrow> hal_status \<times> 'm uart_dev_scheme" where
  "uart_set_request present uart tx on s =
     (if \<not> present then (HAL_ERR_INVALID_ARG, s)
      else let b = (if tx then USART_CR3_DMAT else USART_CR3_DMAR)
        in (HAL_OK, usart_update uart (\<lambda>u. u\<lparr>US_CR3 := (if on then US_CR3 u OR b else US_CR3 u AND NOT b)\<rparr>) s))"

definition stm32_uart_dma_set_request :: "nat \<Rightarrow> bool \<Rightarrow> bool \<Rightarrow> 'm uart_dev_scheme \<Rightarrow> hal_status \<times> 'm uart_dev_scheme" where
  "stm32_uart_dma_set_request uart = uart_set_request (get_usart uart) uart"

definition stm32f7_uart_dma_set_request :: "nat \<Rightarrow> bool \<Rightarrow> bool \<Rightarrow> 'm uart_dev_scheme \<Rightarrow> hal_status \<times> 'm uart_dev_scheme" where
  "stm32f7_uart_dma_set_request uart = uart_set_request (get_usart uart \<or> uart = HAL_UART_3) uart"

definition f4_uart_dma_ops :: "'m uart_dev_scheme hal_uart_dma_ops" where
  "f4_uart_dma_ops = \<lparr>dop_binding = stm32_uart_dma_binding, dop_set_request = stm32_uart_dma_set_request\<rparr>"

definition f7_uart_dma_ops :: "'m uart_dev_scheme hal_uart_dma_ops" where
  "f7_uart_dma_ops = \<lparr>dop_binding = stm32f7_uart_dma_binding, dop_set_request = stm32f7_uart_dma_set_request\<rparr>"

section \<open>Configurations\<close>

definition binding_inst :: "hal_dma_binding \<Rightarrow> dma_inst" where
  "binding_inst b = (if db_controller b = HAL_DMA_CONTROLLER_2 then DMA2 else DMA1)"

definition binding_stream :: "hal_dma_binding \<Rightarrow> nat" where
  "binding_stream b = unat (db_stream b)"

text \<open>The control word does not depend on the address or the count.\<close>

definition binding_cr :: "hal_dma_binding \<Rightarrow> bool \<Rightarrow> u32" where
  "binding_cr b tx = dma_cr (binding_config b tx 0 0)"

lemma config_cr: "dma_cr (binding_config b tx m c) = binding_cr b tx"
  by (simp add: binding_cr_def dma_cr_def binding_config_def)

lemma config_fields [simp]:
  "get_dma (binding_config b tx m c) = binding_inst b" "dc_stream (binding_config b tx m c) = db_stream b"
  "dc_controller (binding_config b tx m c) = db_controller b" "dc_data_count (binding_config b tx m c) = c"
  "dc_direction (binding_config b tx m c) = (if tx then HAL_DMA_DIR_M2P else HAL_DMA_DIR_P2M)"
  "dc_src_addr (binding_config b tx m c) = (if tx then m else db_periph_addr b)"
  "dc_dst_addr (binding_config b tx m c) = (if tx then db_periph_addr b else m)"
  by (simp_all add: get_dma_def binding_inst_def binding_config_def)

lemma small_word: "x < 8 \<Longrightarrow> x = 0 \<or> x = 1 \<or> x = 2 \<or> x = 3 \<or> x = 4 \<or> x = 5 \<or> x = 6 \<or> x = 7" for x :: u8
  using shift_cases [of "unat x"] by (auto simp: word_less_nat_alt word_unat_eq_iff)

lemma config_stream [simp]: "db_stream b < 8 \<Longrightarrow> get_stream (binding_config b tx m c) = binding_stream b"
  using small_word [of "db_stream b"] by (auto simp: get_stream_def binding_stream_def)

lemma cleared_bit [simp]: "(x AND NOT e) AND e = 0" "(x AND NOT e) AND NOT e = x AND NOT e" "(x OR e) AND NOT e = x AND NOT e"
  for x e :: u32
  by (rule bit_word_eqI, auto simp: bit_simps)+

lemma enable_bit: "c AND NOT DMA_SxCR_EN = v \<Longrightarrow> c = v \<or> c = v OR DMA_SxCR_EN" for c :: u32
proof -
  assume v: "c AND NOT DMA_SxCR_EN = v"
  have e: "bit DMA_SxCR_EN i \<longleftrightarrow> i = 0" for i by (simp add: DMA_SxCR_EN_def bit_simps)
  show ?thesis
  proof (cases "bit c 0")
    case True
    then have "c = v OR DMA_SxCR_EN" unfolding v [symmetric] by (intro bit_word_eqI) (auto simp: bit_simps e)
    then show ?thesis ..
  next
    case False
    then have "c = v" unfolding v [symmetric] by (intro bit_word_eqI) (auto simp: bit_simps e intro: gr0I)
    then show ?thesis ..
  qed
qed

lemma binding_cr_eq:
  assumes "db_channel b < 8"
  shows "binding_cr b tx = (if tx then 0x20450 else 0x10518) OR push_bit 25 (ucast (db_channel b))"
  using small_word [OF assms] by (elim disjE) (simp_all add: binding_cr_def dma_cr_def binding_config_def
    DMA_SxCR_MINC_def DMA_SxCR_CIRC_def DMA_SxCR_TCIE_def DMA_SxCR_HTIE_def)

lemma binding_cr_idle:
  assumes "db_channel b < 8"
  shows "binding_cr b tx AND DMA_SxCR_EN = 0"
    "binding_cr b tx AND NOT DMA_SxCR_EN = binding_cr b tx"
  unfolding binding_cr_eq [OF assms] using small_word [OF assms] by (elim disjE; simp add: DMA_SxCR_EN_def)+

text \<open>What the hardware reads in the control word of a stream, enabled or not.\<close>

lemma binding_cr_facts:
  assumes "db_channel b < 8" "c AND NOT DMA_SxCR_EN = binding_cr b tx"
  shows "byte_mode c" "channel_of c = unat (db_channel b)"
    "c AND push_bit 6 3 = dma_dir_code (if tx then HAL_DMA_DIR_M2P else HAL_DMA_DIR_P2M)" "c AND DMA_SxCR_CIRC \<noteq> 0 \<longleftrightarrow> \<not> tx"
proof -
  define e :: u32 where "e = (if c = binding_cr b tx then 0 else 1)"
  have c: "c = ((if tx then 0x20450 else 0x10518) OR push_bit 25 (ucast (db_channel b))) OR e" and e: "e = 0 \<or> e = 1"
    using enable_bit [OF assms(2)] unfolding binding_cr_eq [OF assms(1)] e_def by (auto simp: DMA_SxCR_EN_def)
  show "byte_mode c" "channel_of c = unat (db_channel b)"
    "c AND push_bit 6 3 = dma_dir_code (if tx then HAL_DMA_DIR_M2P else HAL_DMA_DIR_P2M)" "c AND DMA_SxCR_CIRC \<noteq> 0 \<longleftrightarrow> \<not> tx"
    using e small_word [OF assms(1)] unfolding c by (elim disjE; simp add: byte_mode_def DMA_SxCR_MINC_def
      DMA_SxCR_PINC_def channel_of_def DMA_SxCR_CIRC_def)+
qed


section \<open>What the hardware and the drivers leave alone\<close>

definition uart_statics ::
    "'m uart_dma_scheme \<Rightarrow> (nat \<Rightarrow> bool) \<times> (nat \<Rightarrow> u16) \<times> (nat \<Rightarrow> u32) \<times> (nat \<Rightarrow> bool \<Rightarrow> hal_dma_binding) \<times> (nat \<Rightarrow> bool \<Rightarrow> bool)" where
  "uart_statics s = (s_tx_armed s, s_rx_len s, s_rx_buf s, s_override s, s_has_override s)"

lemma statics_writes [simp]:
  "uart_statics (stream_update d n f s) = uart_statics s" "uart_statics (clear_flags d n s) = uart_statics s"
  "uart_statics (isr_set d n v s) = uart_statics s" "uart_statics (usart_update u g s) = uart_statics s"
  "uart_statics (mem_write a x s) = uart_statics s" "uart_statics (enable_dma_clock c s) = uart_statics s"
  "uart_statics (s\<lparr>dma_cache := k\<rparr>) = uart_statics s"
  by (simp_all add: uart_statics_def stream_update_def clear_flags_def IFCR_write_def isr_set_def usart_update_def mem_write_def
      enable_dma_clock_def Let_def)

lemma statics_interrupt_enable [simp]: "uart_statics (snd (hal_interrupt_enable i s)) = uart_statics s"
  by (simp add: uart_statics_def hal_interrupt_enable_def armv7em_interrupt_enable_def enable_at_def
      armv7em_interrupt_set_priority_def NVIC_ISER_write_def Let_def)

lemma statics_item [simp]: "uart_statics (dma_item w d n s) = uart_statics s"
  by (auto simp: dma_item_def item_done_def periph_write_def periph_read_def read_DR_def Let_def split: option.splits list.splits)

lemma statics_items [simp]: "uart_statics ((dma_item w d n ^^ k) s) = uart_statics s"
  by (rule funpow_frame) simp

lemma same_statics:
  assumes "uart_statics s' = uart_statics s"
  shows "s_tx_armed s' = s_tx_armed s" "s_rx_len s' = s_rx_len s" "s_rx_buf s' = s_rx_buf s" "s_has_override s' = s_has_override s"
    "hal_uart_dma_get_binding ops u tx s' = hal_uart_dma_get_binding ops u tx s"
    "descriptor ops u tx m c s' = descriptor ops u tx m c s"
  using assms by (simp_all add: uart_statics_def hal_uart_dma_get_binding_def descriptor_def)

section \<open>Transmission\<close>

definition running :: "hal_dma_binding \<Rightarrow> 'm dma_dev_scheme \<Rightarrow> bool" where
  "running b s \<longleftrightarrow> DMA_CR (dma_stream s (binding_inst b) (binding_stream b)) AND DMA_SxCR_EN \<noteq> 0"

text \<open>The stream of \<open>b\<close> is set up to send on instance \<open>u\<close>, and what is under way is on that instance.\<close>

definition tx_owned :: "nat \<Rightarrow> hal_dma_binding \<Rightarrow> 'm dma_dev_scheme \<Rightarrow> bool" where
  "tx_owned u b s \<longleftrightarrow>
     (let t = dma_stream s (binding_inst b) (binding_stream b) in
      DMA_CR t AND NOT DMA_SxCR_EN = binding_cr b True \<and> DMA_PAR t = db_periph_addr b \<and>
      (DMA_CR t AND DMA_SxCR_EN \<noteq> 0 \<longrightarrow> DMA_NDTR t \<noteq> 0 \<and> US_CR3 (usart_at s u) AND USART_CR3_DMAT \<noteq> 0))"

text \<open>Where the next byte is, and the bytes still to go.\<close>

definition next_addr :: "dma_stream_regs \<Rightarrow> u32" where
  "next_addr t = DMA_M0AR t + (dma_reload t - DMA_NDTR t)"

definition bytes_at :: "(u32 \<Rightarrow> u8) \<Rightarrow> u32 \<Rightarrow> nat \<Rightarrow> u8 list" where
  "bytes_at v a n = map (\<lambda>i. v (a + word_of_nat i)) [0..<n]"

definition tx_pending :: "hal_dma_binding \<Rightarrow> 'm dma_dev_scheme \<Rightarrow> u8 list" where
  "tx_pending b s =
     (let t = dma_stream s (binding_inst b) (binding_stream b) in
      if running b s then bytes_at (mem (dma_cache s)) (next_addr t) (unat (DMA_NDTR t)) else [])"

text \<open>What has gone out on an instance and what its stream still holds.\<close>

definition tx_output :: "nat \<Rightarrow> hal_dma_binding \<Rightarrow> 'm dma_dev_scheme \<Rightarrow> u8 list" where
  "tx_output u b s = us_sent (usart_at s u) @ tx_pending b s"

lemma bytes_at_Suc: "bytes_at v a (Suc n) = v a # bytes_at v (a + 1) n"
proof -
  have "[0..<Suc n] = 0 # map Suc [0..<n]" by (simp only: map_Suc_upt upt_conv_Cons zero_less_Suc)
  then show ?thesis by (simp add: bytes_at_def ac_simps del: upt_Suc)
qed

lemma bytes_at_cong: "(\<And>i. i < n \<Longrightarrow> v (a + word_of_nat i) = v' (a + word_of_nat i)) \<Longrightarrow> bytes_at v a n = bytes_at v' a n"
  by (simp add: bytes_at_def)

text \<open>
  Reception is circular: after \<open>k\<close> bytes the stream of \<open>b\<close> writes next at \<open>k mod ring\<close>.
\<close>

definition rx_owned :: "nat \<Rightarrow> hal_dma_binding \<Rightarrow> u32 \<Rightarrow> u16 \<Rightarrow> nat \<Rightarrow> 'm dma_dev_scheme \<Rightarrow> bool" where
  "rx_owned u b buf ring k s \<longleftrightarrow>
     (let t = dma_stream s (binding_inst b) (binding_stream b) in
      running b s \<and> DMA_CR t AND NOT DMA_SxCR_EN = binding_cr b False \<and> DMA_PAR t = db_periph_addr b \<and> DMA_M0AR t = buf \<and>
      dma_reload t = ucast ring \<and> DMA_NDTR t = word_of_nat (unat ring - k mod unat ring) \<and>
      US_CR3 (usart_at s u) AND USART_CR3_DMAR \<noteq> 0)"

text \<open>What the bytes make of the memory, the first of them at \<open>k mod ring\<close>.\<close>

primrec ring_fill :: "u32 \<Rightarrow> nat \<Rightarrow> nat \<Rightarrow> u8 list \<Rightarrow> (u32 \<Rightarrow> u8) \<Rightarrow> u32 \<Rightarrow> u8" where
  "ring_fill buf ring k [] m = m"
| "ring_fill buf ring k (v # vs) m = ring_fill buf ring (Suc k) vs (m(buf + word_of_nat (k mod ring) := v))"

lemma ring_fill_snoc:
  "ring_fill buf ring k (vs @ [v]) m = (ring_fill buf ring k vs m)(buf + word_of_nat ((k + length vs) mod ring) := v)"
  by (induction vs arbitrary: k m) simp_all

lemma ucast_of_nat: "(ucast x :: u32) = word_of_nat (unat x)" for x :: u16
  by (simp add: unsigned_ucast_eq flip: word_unat_eq_iff)

lemma ucast_down: "(ucast x :: u16) = word_of_nat (unat x)" for x :: u32
  by (simp add: word_unat_eq_iff unsigned_ucast_eq unsigned_of_nat)

lemma slot_word: "k < 65536 \<Longrightarrow> unat (word_of_nat k :: u32) = k"
  by (simp add: unsigned_of_nat take_bit_nat_eq_self)

lemma low16: "k < 65536 \<Longrightarrow> k AND 65535 = k" for k :: nat
proof -
  assume "k < 65536"
  moreover have "(65535 :: nat) = mask 16" by (simp add: mask_eq_exp_minus_1)
  ultimately show ?thesis by (simp only: take_bit_eq_mask [symmetric]) (simp add: take_bit_nat_eq_self)
qed

lemma ring_slot_inj:
  fixes buf :: u32
  assumes "i < 65536" "j < 65536" "buf + word_of_nat i = buf + word_of_nat j"
  shows "i = j"
proof -
  have "word_of_nat i = (word_of_nat j :: u32)" by (rule add_left_imp_eq [OF assms(3)])
  then have "unat (word_of_nat i :: u32) = unat (word_of_nat j :: u32)" by (rule arg_cong)
  then show ?thesis unfolding slot_word [OF assms(1)] slot_word [OF assms(2)] .
qed

text \<open>The last \<open>ring\<close> bytes are there.\<close>

lemma ring_fill_at:
  assumes "0 < ring" "ring < 65536"
  shows "j < length vs \<Longrightarrow> length vs \<le> j + ring \<Longrightarrow> ring_fill buf ring k vs m (buf + word_of_nat ((k + j) mod ring)) = vs ! j"
proof (induction vs rule: rev_induct)
  case (snoc v vs)
  show ?case
  proof (cases "j = length vs")
    case False
    then have j: "j < length vs" using snoc.prems by simp
    have "(k + j) mod ring \<noteq> (k + length vs) mod ring"
    proof
      assume "(k + j) mod ring = (k + length vs) mod ring"
      then have "(k + length vs) mod ring = (k + j) mod ring" by (rule sym)
      then have "ring dvd length vs - j" using j by (simp add: mod_eq_dvd_iff_nat)
      then show False using j snoc.prems(2) by (auto dest: dvd_imp_le)
    qed
    moreover have "(k + j) mod ring < 65536" "(k + length vs) mod ring < 65536"
      using assms mod_less_divisor [of ring "k + j"] mod_less_divisor [of ring "k + length vs"] by linarith+
    ultimately have "buf + word_of_nat ((k + j) mod ring) \<noteq> buf + word_of_nat ((k + length vs) mod ring)"
      using ring_slot_inj by blast
    then show ?thesis using snoc.IH j snoc.prems(2) by (simp add: ring_fill_snoc nth_append)
  qed (simp add: ring_fill_snoc)
qed simp

text \<open>Elsewhere memory is as it was.\<close>

lemma ring_fill_outside:
  assumes "0 < ring" "\<And>i. i < ring \<Longrightarrow> a \<noteq> buf + word_of_nat i"
  shows "ring_fill buf ring k vs m a = m a"
  using assms by (induction vs arbitrary: k m) simp_all

text \<open>The processor's buffer and the memory behind it: without a cache they are the same.\<close>

definition buffer_ready :: "tcm option \<Rightarrow> u32 \<Rightarrow> u16 \<Rightarrow> 'm dma_dev_scheme \<Rightarrow> bool" where
  "buffer_ready port buf n s \<longleftrightarrow>
     (case port of None \<Rightarrow> (\<forall>l. \<not> line_valid (dma_cache s) l)
      | Some t \<Rightarrow> navhal_dma_mem_class t buf = NAVHAL_DMA_MEM_CACHED \<and> unat buf + unat n \<le> 4294967264 \<and> cache_ok (dma_cache s))"

lemma tx_prepare_buffer:
  assumes "buffer_ready port buf n s"
  obtains c where "port_tx_prepare port buf (ucast n) s = Some (HAL_OK, s\<lparr>dma_cache := c\<rparr>)" "cpu_view c = cpu_view (dma_cache s)"
    "\<And>i. i < unat n \<Longrightarrow> mem c (buf + word_of_nat i) = cpu_view (dma_cache s) (buf + word_of_nat i)"
    "\<And>a. mem c a = mem (dma_cache s) a \<or> mem c a = cpu_view (dma_cache s) a"
proof (cases port)
  case None
  then have "\<forall>l. \<not> line_valid (dma_cache s) l" using assms by (simp add: buffer_ready_def)
  then show ?thesis using None assms by (intro that [of "dma_cache s"]) (auto simp: port_tx_prepare_def cpu_view_def buffer_ready_def)
next
  case (Some t)
  then have b: "navhal_dma_mem_class t buf = NAVHAL_DMA_MEM_CACHED" "unat buf + unat (ucast n :: u32) \<le> 4294967264" "cache_ok (dma_cache s)"
    using assms by (simp_all add: buffer_ready_def unsigned_ucast_eq)
  obtain c where c: "hal_dcache_clean buf (ucast n) (dma_cache s) = Some (HAL_OK, c)" "cache_ok c" "cpu_view c = cpu_view (dma_cache s)"
    "\<And>a. in_range buf (ucast n) a \<Longrightarrow> mem c a = cpu_view (dma_cache s) a"
    "\<And>a. mem c a = mem (dma_cache s) a \<or> mem c a = cpu_view (dma_cache s) a"
    using clean_range [OF b(2,3)] by metis
  have "in_range buf (ucast n) (buf + word_of_nat i)" if "i < unat n" for i
    using unat_step [of buf i] that b(2) by (simp add: in_range_def unsigned_ucast_eq)
  with c(4) have "mem c (buf + word_of_nat i) = cpu_view (dma_cache s) (buf + word_of_nat i)" if "i < unat n" for i using that by blast
  then show ?thesis
    by (intro that [of c]) (use c(1,3,5) b(1) Some in \<open>auto simp: port_tx_prepare_def on_cache_def navhal_dma_tx_prepare_def\<close>)
qed

text \<open>The bytes under way are not changed by the processor: memory and its view agree on them.\<close>

definition tx_stable :: "hal_dma_binding \<Rightarrow> 'm dma_dev_scheme \<Rightarrow> bool" where
  "tx_stable b s \<longleftrightarrow>
     (let t = dma_stream s (binding_inst b) (binding_stream b) in
      running b s \<longrightarrow> (\<forall>i < unat (DMA_NDTR t). mem (dma_cache s) (next_addr t + word_of_nat i) = cpu_view (dma_cache s) (next_addr t + word_of_nat i)))"

text \<open>An instance may be given the next buffer: its stream is its own once it has been set up, and idle before.\<close>

definition tx_ready :: "nat \<Rightarrow> hal_dma_binding \<Rightarrow> 'm uart_dma_scheme \<Rightarrow> bool" where
  "tx_ready u b s \<longleftrightarrow> \<not> s_has_override s u True \<and> tx_stable b s \<and> (if s_tx_armed s u then tx_owned u b s else \<not> running b s)"

text \<open>A stream set up for \<open>n\<close> bytes at \<open>m\<close>.\<close>

definition loaded :: "hal_dma_binding \<Rightarrow> bool \<Rightarrow> u32 \<Rightarrow> u16 \<Rightarrow> 'm dma_dev_scheme \<Rightarrow> bool" where
  "loaded b tx m n s \<longleftrightarrow>
     (let t = dma_stream s (binding_inst b) (binding_stream b) in
      DMA_CR t = binding_cr b tx \<and> DMA_PAR t = db_periph_addr b \<and> DMA_M0AR t = m \<and> DMA_NDTR t = ucast n)"

lemma init_loads:
  assumes "db_stream b < 8" "db_channel b < 8"
  shows "\<exists>s'. hal_dma_init w (Some (binding_config b tx m n)) s = Some (HAL_OK, s') \<and> loaded b tx m n s' \<and>
    uart_statics s' = uart_statics s \<and> usart_at s' = usart_at s \<and> dma_cache s' = dma_cache s \<and>
    (\<forall>d k. (d, k) \<noteq> (binding_inst b, binding_stream b) \<longrightarrow> dma_stream s' d k = dma_stream s d k)"
proof -
  let ?d = "binding_inst b" and ?n = "binding_stream b" and ?c = "binding_config b tx m n"
  let ?s = "stream_update ?d ?n (\<lambda>t. CR_write (DMA_CR t AND NOT DMA_SxCR_EN) t) (enable_dma_clock ?c s)"
  have "wait_stopped w ?d ?n ?s = Some ?s" by (subst wait_stopped.simps) (simp add: CR_write_def)
  then show ?thesis using assms by (simp add: hal_dma_init_def config_cr Let_def loaded_def CR_write_def)
qed

lemma enabled_bit: "(x OR DMA_SxCR_EN) AND DMA_SxCR_EN \<noteq> 0"
proof -
  have "bit ((x OR DMA_SxCR_EN) AND DMA_SxCR_EN) 0" by (simp add: bit_simps DMA_SxCR_EN_def)
  then show ?thesis by auto
qed

lemma start_rx:
  assumes "db_stream b < 8" "db_channel b < 8" "loaded b False buf ring s" "ring \<noteq> 0" "US_CR3 (usart_at s u) AND USART_CR3_DMAR \<noteq> 0"
  defines "s' \<equiv> snd (hal_dma_start (Some (binding_config b False buf ring)) s)"
  shows "rx_owned u b buf ring 0 s'" "dma_cache s' = dma_cache s" "usart_at s' = usart_at s" "uart_statics s' = uart_statics s"
proof -
  let ?t = "dma_stream s (binding_inst b) (binding_stream b)"
  have l: "DMA_CR ?t = binding_cr b False" "DMA_PAR ?t = db_periph_addr b" "DMA_M0AR ?t = buf" "DMA_NDTR ?t = ucast ring"
    using assms(3) by (simp_all add: loaded_def Let_def)
  note idle = binding_cr_idle [OF assms(2), of False]
  have d: "dma_stream s' (binding_inst b) (binding_stream b) = ?t\<lparr>DMA_CR := binding_cr b False OR DMA_SxCR_EN, dma_reload := ucast ring\<rparr>"
    using l idle enabled_bit assms(1) by (simp add: s'_def hal_dma_start_def Let_def CR_write_def)
  show "dma_cache s' = dma_cache s" and us: "usart_at s' = usart_at s" and "uart_statics s' = uart_statics s"
    by (simp_all add: s'_def hal_dma_start_def Let_def)
  have "(ucast ring :: u32) = word_of_nat (unat ring)" by (simp add: unsigned_ucast_eq flip: word_unat_eq_iff)
  then show "rx_owned u b buf ring 0 s'" using l idle enabled_bit assms(5) by (simp add: rx_owned_def running_def d us)
qed

lemma start_loaded:
  assumes "db_stream b < 8" "db_channel b < 8" "loaded b True m n s" "n \<noteq> 0" "US_CR3 (usart_at s u) AND USART_CR3_DMAT \<noteq> 0"
  defines "s' \<equiv> snd (hal_dma_start (Some (binding_config b True m n)) (snd (hal_dma_clear_flags (Some (binding_config b True m n)) s)))"
  shows "tx_owned u b s'" "running b s'" "tx_pending b s' = bytes_at (mem (dma_cache s)) m (unat n)"
    "dma_cache s' = dma_cache s" "usart_at s' = usart_at s" "uart_statics s' = uart_statics s"
    "DMA_NDTR (dma_stream s' (binding_inst b) (binding_stream b)) = ucast n"
    "next_addr (dma_stream s' (binding_inst b) (binding_stream b)) = m"
    "(d, k) \<noteq> (binding_inst b, binding_stream b) \<Longrightarrow> dma_stream s' d k = dma_stream s d k"
proof -
  let ?t = "dma_stream s (binding_inst b) (binding_stream b)"
  have l: "DMA_CR ?t = binding_cr b True" "DMA_PAR ?t = db_periph_addr b" "DMA_M0AR ?t = m" "DMA_NDTR ?t = ucast n"
    using assms(3) by (simp_all add: loaded_def Let_def)
  note idle = binding_cr_idle [OF assms(2), of True]
  note en = enabled_bit [of "binding_cr b True"]
  have n0: "(ucast n :: u32) \<noteq> 0"
  proof
    assume "(ucast n :: u32) = 0"
    then have "unat (ucast n :: u32) = 0" by simp
    then show False using assms(4) by (simp add: unsigned_ucast_eq unat_eq_0)
  qed
  have d: "dma_stream s' (binding_inst b) (binding_stream b) = ?t\<lparr>DMA_CR := binding_cr b True OR DMA_SxCR_EN, dma_reload := ucast n\<rparr>"
    using l idle en assms(1) by (simp add: s'_def hal_dma_start_def hal_dma_clear_flags_def Let_def CR_write_def)
  show c: "dma_cache s' = dma_cache s" and us: "usart_at s' = usart_at s" and "uart_statics s' = uart_statics s"
    by (simp_all add: s'_def hal_dma_start_def hal_dma_clear_flags_def Let_def)
  show "(d, k) \<noteq> (binding_inst b, binding_stream b) \<Longrightarrow> dma_stream s' d k = dma_stream s d k"
    using assms(1) by (simp add: s'_def hal_dma_start_def hal_dma_clear_flags_def Let_def)
  show run: "running b s'" using en by (simp add: running_def d)
  show nd: "DMA_NDTR (dma_stream s' (binding_inst b) (binding_stream b)) = ucast n" using l by (simp add: d)
  show na: "next_addr (dma_stream s' (binding_inst b) (binding_stream b)) = m" using l by (simp add: d next_addr_def)
  show "tx_owned u b s'" using l idle n0 assms(5) by (simp add: tx_owned_def d us)
  show "tx_pending b s' = bytes_at (mem (dma_cache s)) m (unat n)"
    using run c nd na by (simp add: tx_pending_def unsigned_ucast_eq)
qed

text \<open>Synchronising a span of the ring: the processor sees memory there, wrapped or not.\<close>

lemma invalidate_fresh:
  assumes "unat a + unat n \<le> 4294967264"
  obtains c' where "hal_dcache_invalidate a n c = Some (HAL_OK, c')" "mem c' = mem c"
    "\<And>x. in_range a n x \<Longrightarrow> cpu_view c' x = mem c x" "\<And>x. cpu_view c x = mem c x \<Longrightarrow> cpu_view c' x = mem c x"
proof -
  obtain c' where c': "hal_dcache_invalidate a n c = Some (HAL_OK, c')" "mem c' = mem c"
    "\<And>x y. in_range a n y \<Longrightarrow> line_of y = line_of x \<Longrightarrow> cpu_view c' x = mem c x"
    "\<And>x. (\<And>y. in_range a n y \<Longrightarrow> line_of y \<noteq> line_of x) \<Longrightarrow> cpu_view c' x = cpu_view c x"
    by (rule invalidate_range [OF assms, of c]) blast
  show ?thesis by (rule that [OF c'(1,2)]) (use c'(3,4) in metis)+
qed

lemma sync_fresh:
  assumes u: "u < UART_SLOTS" and buf: "s_rx_buf s u \<noteq> 0" and n: "n \<noteq> 0" "n \<le> s_rx_len s u" "from < s_rx_len s u"
    and mem: "port = None \<Longrightarrow> \<forall>l. \<not> line_valid (dma_cache s) l"
      "port \<noteq> None \<Longrightarrow> unat (s_rx_buf s u) + unat (s_rx_len s u) \<le> 4294967264"
  shows "\<exists>s'. hal_uart_dma_rx_sync port u from n s = Some (HAL_OK, s') \<and>
    (\<forall>i < unat n. cpu_view (dma_cache s') (s_rx_buf s u + word_of_nat ((unat from + i) mod unat (s_rx_len s u))) =
       mem (dma_cache s) (s_rx_buf s u + word_of_nat ((unat from + i) mod unat (s_rx_len s u))))"
proof (cases port)
  case None
  then show ?thesis using assms by (simp add: hal_uart_dma_rx_sync_def cpu_view_def not_le not_less Let_def)
next
  case (Some p)
  let ?buf = "s_rx_buf s u" and ?ring = "s_rx_len s u" and ?c = "dma_cache s"
  define first where "first = (if unat from + unat n > unat ?ring then ?ring - from else n)"
  have bound: "unat ?buf + unat ?ring \<le> 4294967264" using mem(2) Some by simp
  have lt: "unat from < unat ?ring" "unat n \<le> unat ?ring" using n by (simp_all add: word_less_nat_alt word_le_nat_alt)
  have uf: "unat first = min (unat n) (unat ?ring - unat from)"
    using lt n(3) by (auto simp: first_def unat_sub_if_size word_le_nat_alt min_def)
  have uw: "unat (ucast x :: u32) = unat x" for x :: u16 by (simp add: unsigned_ucast_eq)
  have a1: "unat (?buf + ucast from) = unat ?buf + unat from"
    unfolding ucast_of_nat using bound lt by (intro unat_step) linarith
  have slot: "unat (?buf + word_of_nat i) = unat ?buf + i" if "i < unat ?ring" for i
    using unat_step [of ?buf i] bound that by simp
  obtain c1 where c1: "hal_dcache_invalidate (?buf + ucast from) (ucast first) ?c = Some (HAL_OK, c1)" "mem c1 = mem ?c"
    "\<And>x. in_range (?buf + ucast from) (ucast first) x \<Longrightarrow> cpu_view c1 x = mem ?c x"
  proof -
    have "unat (?buf + ucast from) + unat (ucast first :: u32) \<le> 4294967264" using a1 uw uf lt bound by simp
    from invalidate_fresh [OF this, of ?c] that show ?thesis by metis
  qed
  have fst_part: "cpu_view c1 (?buf + word_of_nat ((unat from + i) mod unat ?ring)) = mem ?c (?buf + word_of_nat ((unat from + i) mod unat ?ring))"
    if "i < unat first" for i
  proof -
    have "unat from + i < unat ?ring" using that unfolding uf by linarith
    then have "unat (?buf + word_of_nat ((unat from + i) mod unat ?ring)) = unat ?buf + unat from + i"
      unfolding mod_less [OF \<open>unat from + i < unat ?ring\<close>] by (subst slot) simp_all
    then show ?thesis using that by (intro c1(3)) (simp only: in_range_def a1 uw, simp)
  qed
  have run: "hal_uart_dma_rx_sync port u from n s =
      (case on_cache (hal_dcache_invalidate (?buf + ucast from) (ucast first)) s of None \<Rightarrow> None
       | Some (_, s1) \<Rightarrow>
           if first < n then map_option (\<lambda>(_, s). (HAL_OK, s)) (on_cache (hal_dcache_invalidate (s_rx_buf s1 u) (ucast (n - first))) s1)
           else Some (HAL_OK, s1))"
  proof -
    have "\<not> u \<ge> UART_SLOTS" "\<not> n > ?ring" "\<not> from \<ge> ?ring" using u n by simp_all
    then show ?thesis unfolding hal_uart_dma_rx_sync_def Let_def first_def [symmetric] using n(1) buf Some by simp
  qed
  show ?thesis
  proof (cases "first < n")
    case False
    then have "unat first = unat n" using uf by (simp add: word_less_nat_alt)
    then show ?thesis using fst_part c1(1) False by (simp add: run on_cache_def)
  next
    case True
    then have f: "unat first = unat ?ring - unat from" using uf lt by (simp add: word_less_nat_alt min_def split: if_splits)
    have un: "unat (n - first) = unat n - unat first" using True by (simp add: unat_sub_if_size word_less_nat_alt)
    have "unat ?buf + unat (ucast (n - first) :: u32) \<le> 4294967264" using un uw lt bound by simp
    from invalidate_fresh [OF this, of c1] obtain c2 where c2: "hal_dcache_invalidate ?buf (ucast (n - first)) c1 = Some (HAL_OK, c2)"
      "\<And>x. in_range ?buf (ucast (n - first)) x \<Longrightarrow> cpu_view c2 x = mem c1 x" "\<And>x. cpu_view c1 x = mem c1 x \<Longrightarrow> cpu_view c2 x = mem c1 x" by metis
    have all: "cpu_view c2 (?buf + word_of_nat ((unat from + i) mod unat ?ring)) = mem ?c (?buf + word_of_nat ((unat from + i) mod unat ?ring))"
      if i: "i < unat n" for i
    proof (cases "i < unat first")
      case True
      then show ?thesis using fst_part c1(2) c2(3) by simp
    next
      case False
      then have m: "(unat from + i) mod unat ?ring = i - unat first" "i - unat first < unat n - unat first"
        using i f lt by (simp_all add: le_mod_geq)
      have "i - unat first < unat ?ring" using m(2) lt by linarith
      then have "in_range ?buf (ucast (n - first)) (?buf + word_of_nat (i - unat first))"
        using m(2) slot un uw by (simp add: in_range_def)
      then show ?thesis using c2(2) c1(2) m(1) by simp
    qed
    then show ?thesis using c1(1) c2(1) True by (simp add: run on_cache_def)
  qed
qed

lemma request_on: "(x OR USART_CR3_DMAT) AND USART_CR3_DMAT \<noteq> 0" "(x OR USART_CR3_DMAR) AND USART_CR3_DMAR \<noteq> 0"
proof -
  have "bit ((x OR USART_CR3_DMAT) AND USART_CR3_DMAT) 7" "bit ((x OR USART_CR3_DMAR) AND USART_CR3_DMAR) 6"
    by (simp_all add: bit_simps USART_CR3_DMAT_def USART_CR3_DMAR_def)
  then show "(x OR USART_CR3_DMAT) AND USART_CR3_DMAT \<noteq> 0" "(x OR USART_CR3_DMAR) AND USART_CR3_DMAR \<noteq> 0" by auto
qed

text \<open>What a transmission changes outside its instance and its stream: nothing the processor sees.\<close>

definition tx_frame :: "nat \<Rightarrow> hal_dma_binding \<Rightarrow> 'm uart_dma_scheme \<Rightarrow> 'm uart_dma_scheme \<Rightarrow> bool" where
  "tx_frame u b s s' \<longleftrightarrow>
     (\<forall>d k. (d, k) \<noteq> (binding_inst b, binding_stream b) \<longrightarrow> dma_stream s' d k = dma_stream s d k) \<and>
     (\<forall>v. v \<noteq> u \<longrightarrow> usart_at s' v = usart_at s v \<and> s_tx_armed s' v = s_tx_armed s v) \<and>
     s_has_override s' = s_has_override s \<and> cpu_view (dma_cache s') = cpu_view (dma_cache s) \<and>
     (\<forall>a. mem (dma_cache s') a = mem (dma_cache s) a \<or> mem (dma_cache s') a = cpu_view (dma_cache s) a)"

locale uart_dma_wiring =
  fixes w :: dma_wires
    and ops :: "'m uart_dma_scheme hal_uart_dma_ops"
  assumes wired: "dop_binding ops u tx = Inr b \<Longrightarrow>
      u < UART_SLOTS \<and> db_stream b < 8 \<and> db_channel b < 8 \<and>
      wire_request w (binding_inst b) (binding_stream b) (unat (db_channel b)) = Some (u, tx) \<and>
      (if tx then wire_tx w else wire_rx w) (db_periph_addr b) = Some u"
    and request: "dop_binding ops u tx = Inr b \<Longrightarrow>
      dop_set_request ops u tx True s =
        (HAL_OK, usart_update u (\<lambda>x. x\<lparr>US_CR3 := US_CR3 x OR (if tx then USART_CR3_DMAT else USART_CR3_DMAR)\<rparr>) s)"
begin

lemma tx_item:
  assumes b: "dop_binding ops u True = Inr b" and o: "tx_owned u b s" and r: "running b s"
  defines "t \<equiv> dma_stream s (binding_inst b) (binding_stream b)"
  shows "dma_item w (binding_inst b) (binding_stream b) s =
    item_done (binding_inst b) (binding_stream b)
      (usart_update u (\<lambda>x. x\<lparr>us_sent := us_sent x @ [mem (dma_cache s) (next_addr t)]\<rparr>) s)"
proof -
  note W = wired [OF b]
  have c: "DMA_CR t AND NOT DMA_SxCR_EN = binding_cr b True" and p: "DMA_PAR t = db_periph_addr b"
    and e: "DMA_CR t AND DMA_SxCR_EN \<noteq> 0" "DMA_NDTR t \<noteq> 0" "US_CR3 (usart_at s u) AND USART_CR3_DMAT \<noteq> 0"
    using o r by (simp_all add: tx_owned_def running_def t_def Let_def)
  note F = binding_cr_facts [OF _ c]
  show ?thesis using W e F p
    by (simp add: dma_item_def periph_write_def Let_def next_addr_def flip: t_def)
qed


lemma tx_step:
  assumes b: "dop_binding ops u True = Inr b" and o: "tx_owned u b s" and r: "running b s"
  defines "t \<equiv> dma_stream s (binding_inst b) (binding_stream b)"
  defines "s' \<equiv> dma_item w (binding_inst b) (binding_stream b) s"
  shows "tx_owned u b s'" "tx_output u b s' = tx_output u b s" "dma_cache s' = dma_cache s"
    "running b s' \<longleftrightarrow> DMA_NDTR t \<noteq> 1" "dma_stream s' (binding_inst b) (binding_stream b) = count_down t"
    "usart_at s' = (usart_at s)(u := usart_at s u\<lparr>us_sent := us_sent (usart_at s u) @ [mem (dma_cache s) (next_addr t)]\<rparr>)"
proof -
  note W = wired [OF b]
  have c: "DMA_CR t AND NOT DMA_SxCR_EN = binding_cr b True" and p: "DMA_PAR t = db_periph_addr b"
    and e: "DMA_CR t AND DMA_SxCR_EN \<noteq> 0" "DMA_NDTR t \<noteq> 0" "US_CR3 (usart_at s u) AND USART_CR3_DMAT \<noteq> 0"
    using o r by (simp_all add: tx_owned_def running_def t_def Let_def)
  have nc: "DMA_CR t AND DMA_SxCR_CIRC = 0" using binding_cr_facts(4) [OF _ c] W by simp
  have s': "s' = item_done (binding_inst b) (binding_stream b)
      (usart_update u (\<lambda>x. x\<lparr>us_sent := us_sent x @ [mem (dma_cache s) (next_addr t)]\<rparr>) s)"
    unfolding s'_def t_def by (rule tx_item [OF b o r])
  show d: "dma_stream s' (binding_inst b) (binding_stream b) = count_down t" by (simp add: s' t_def)
  show m: "dma_cache s' = dma_cache s" by (simp add: s')
  show us: "usart_at s' = (usart_at s)(u := usart_at s u\<lparr>us_sent := us_sent (usart_at s u) @ [mem (dma_cache s) (next_addr t)]\<rparr>)"
    by (simp add: s' fun_eq_iff)
  show run: "running b s' \<longleftrightarrow> DMA_NDTR t \<noteq> 1"
    using e nc unfolding running_def d by (auto simp: count_down_def)
  show "tx_owned u b s'"
    using o e nc W unfolding tx_owned_def d us Let_def by (auto simp: count_down_def t_def binding_cr_idle)
  obtain k where k: "unat (DMA_NDTR t) = Suc k" using e(2) by (cases "unat (DMA_NDTR t)") (auto simp: unat_eq_0)
  have pend: "tx_pending b s = mem (dma_cache s) (next_addr t) # bytes_at (mem (dma_cache s)) (next_addr t + 1) k"
    using r k by (simp add: tx_pending_def bytes_at_Suc Let_def flip: t_def)
  show "tx_output u b s' = tx_output u b s"
  proof (cases "DMA_NDTR t = 1")
    case True
    then have "k = 0" using k by simp
    then show ?thesis using run True pend by (simp add: tx_output_def us tx_pending_def [of b s'] bytes_at_def)
  next
    case False
    then have ne: "DMA_NDTR t - 1 \<noteq> 0" by simp
    have "unat (DMA_NDTR t - 1) = k" using k e(2) by (simp add: unat_minus_one)
    moreover have "next_addr (count_down t) = next_addr t + 1" using ne by (simp add: count_down_def next_addr_def)
    ultimately have "tx_pending b s' = bytes_at (mem (dma_cache s)) (next_addr t + 1) k"
      using run False ne by (simp add: tx_pending_def d m Let_def count_down_def)
    then show ?thesis using pend by (simp add: tx_output_def us)
  qed
qed

text \<open>Running the stream dry: everything goes out, in order, and the wait for it returns.\<close>

lemma tx_drain:
  assumes "dop_binding ops u True = Inr b" "tx_owned u b s"
  shows "\<exists>k s'. wait_stopped w (binding_inst b) (binding_stream b) s = Some s' \<and>
    s' = (dma_item w (binding_inst b) (binding_stream b) ^^ k) s \<and> tx_owned u b s' \<and> \<not> running b s' \<and>
    us_sent (usart_at s' u) = tx_output u b s \<and> dma_cache s' = dma_cache s \<and>
    (\<forall>v. v \<noteq> u \<longrightarrow> usart_at s' v = usart_at s v) \<and> US_CR3 (usart_at s' u) = US_CR3 (usart_at s u)"
  using assms(2)
proof (induction "unat (DMA_NDTR (dma_stream s (binding_inst b) (binding_stream b)))" arbitrary: s rule: less_induct)
  case less
  let ?d = "binding_inst b" and ?n = "binding_stream b" and ?t = "dma_stream s (binding_inst b) (binding_stream b)"
  show ?case
  proof (cases "running b s")
    case False
    then have "wait_stopped w ?d ?n s = Some s" by (subst wait_stopped.simps) (simp add: running_def)
    then show ?thesis using False less.prems
      by (intro exI [of _ 0] exI [of _ s]) (simp add: tx_output_def tx_pending_def)
  next
    case True
    note S = tx_step [OF assms(1) less.prems True]
    let ?s = "dma_item w ?d ?n s"
    have wait: "wait_stopped w ?d ?n s = wait_stopped w ?d ?n ?s" using True by (subst wait_stopped.simps) (simp add: running_def)
    have n0: "DMA_NDTR ?t \<noteq> 0" using less.prems True by (simp add: tx_owned_def running_def Let_def)
    then have "unat (DMA_NDTR ?t - 1) < unat (DMA_NDTR ?t)" by (simp add: unat_minus_one unat_gt_0 word_gt_0)
    moreover have "DMA_CR ?t AND DMA_SxCR_CIRC = 0"
      using binding_cr_facts(4) [of b "DMA_CR ?t" True] wired [OF assms(1)] less.prems by (simp add: tx_owned_def Let_def)
    ultimately have "unat (DMA_NDTR (dma_stream ?s ?d ?n)) < unat (DMA_NDTR ?t)" unfolding S(5) by (auto simp: count_down_def)
    from less.hyps [OF this S(1)] obtain k s' where k: "wait_stopped w ?d ?n ?s = Some s'" "s' = (dma_item w ?d ?n ^^ k) ?s"
      "tx_owned u b s'" "\<not> running b s'" "us_sent (usart_at s' u) = tx_output u b ?s" "dma_cache s' = dma_cache ?s"
      "\<forall>v. v \<noteq> u \<longrightarrow> usart_at s' v = usart_at ?s v" "US_CR3 (usart_at s' u) = US_CR3 (usart_at ?s u)" by blast
    then show ?thesis using wait S(2,3,6) by (intro exI [of _ "Suc k"] exI [of _ s']) (simp add: funpow_swap1)
  qed
qed

lemma set_memory_loads:
  assumes "dop_binding ops u True = Inr b" "tx_owned u b s" "n \<noteq> 0"
  shows "\<exists>s'. hal_dma_set_memory w (Some (binding_config b True m n)) m n s = Some (HAL_OK, s') \<and> loaded b True m n s' \<and>
    uart_statics s' = uart_statics s \<and> us_sent (usart_at s' u) = tx_output u b s \<and> dma_cache s' = dma_cache s \<and>
    (\<forall>v. v \<noteq> u \<longrightarrow> usart_at s' v = usart_at s v) \<and> US_CR3 (usart_at s' u) = US_CR3 (usart_at s u) \<and>
    (\<forall>d k. (d, k) \<noteq> (binding_inst b, binding_stream b) \<longrightarrow> dma_stream s' d k = dma_stream s d k)"
proof -
  note W = wired [OF assms(1)]
  from tx_drain [OF assms(1,2)] obtain k s1 where s1: "wait_stopped w (binding_inst b) (binding_stream b) s = Some s1"
    "s1 = (dma_item w (binding_inst b) (binding_stream b) ^^ k) s" "tx_owned u b s1" "\<not> running b s1"
    "us_sent (usart_at s1 u) = tx_output u b s" "dma_cache s1 = dma_cache s" "\<forall>v. v \<noteq> u \<longrightarrow> usart_at s1 v = usart_at s v"
    "US_CR3 (usart_at s1 u) = US_CR3 (usart_at s u)" by blast
  let ?t = "dma_stream s1 (binding_inst b) (binding_stream b)"
  have "DMA_CR ?t = binding_cr b True"
    using enable_bit [of "DMA_CR ?t" "binding_cr b True"] s1(3,4)
    by (auto simp: tx_owned_def running_def Let_def)
  moreover have "\<not> db_stream b > 7" using W by (simp add: word_less_nat_alt not_less word_le_nat_alt)
  moreover have "uart_statics s1 = uart_statics s" by (simp add: s1(2))
  moreover have "DMA_PAR ?t = db_periph_addr b" using s1(3) by (simp add: tx_owned_def Let_def)
  moreover have "\<forall>d k. (d, k) \<noteq> (binding_inst b, binding_stream b) \<longrightarrow> dma_stream s1 d k = dma_stream s d k"
    using items_other_stream s1(2) by metis
  ultimately show ?thesis using assms(3) s1(1,3-8)
    by (simp add: hal_dma_set_memory_def loaded_def flip: binding_stream_def)
qed

text \<open>Setting the stream up, the first time or again.\<close>

lemma arm_stream:
  assumes b: "dop_binding ops u True = Inr b" and n: "n \<noteq> 0"
    and r: "s_tx_armed s u \<Longrightarrow> tx_owned u b s" "\<not> s_tx_armed s u \<Longrightarrow> \<not> running b s"
  shows "\<exists>s'. (if \<not> s_tx_armed s u then
        ok_or_ret (hal_dma_init w (Some (binding_config b True buf n)) s) (\<lambda>s. Some (HAL_OK, s\<lparr>s_tx_armed := (s_tx_armed s)(u := True)\<rparr>))
      else hal_dma_set_memory w (Some (binding_config b True buf n)) buf n s) = Some (HAL_OK, s') \<and>
    loaded b True buf n s' \<and> dma_cache s' = dma_cache s \<and> us_sent (usart_at s' u) = tx_output u b s \<and>
    US_CR3 (usart_at s' u) = US_CR3 (usart_at s u) \<and> s_tx_armed s' = (s_tx_armed s)(u := True) \<and>
    s_has_override s' = s_has_override s \<and> (\<forall>v. v \<noteq> u \<longrightarrow> usart_at s' v = usart_at s v) \<and>
    (\<forall>d k. (d, k) \<noteq> (binding_inst b, binding_stream b) \<longrightarrow> dma_stream s' d k = dma_stream s d k)"
proof (cases "s_tx_armed s u")
  case True
  from set_memory_loads [OF b r(1) [OF True] n] obtain s3 where s3:
    "hal_dma_set_memory w (Some (binding_config b True buf n)) buf n s = Some (HAL_OK, s3)" "loaded b True buf n s3"
    "uart_statics s3 = uart_statics s" "us_sent (usart_at s3 u) = tx_output u b s" "dma_cache s3 = dma_cache s"
    "\<forall>v. v \<noteq> u \<longrightarrow> usart_at s3 v = usart_at s v" "US_CR3 (usart_at s3 u) = US_CR3 (usart_at s u)"
    "\<forall>d k. (d, k) \<noteq> (binding_inst b, binding_stream b) \<longrightarrow> dma_stream s3 d k = dma_stream s d k" by blast
  have "s_tx_armed s3 = (s_tx_armed s)(u := True)" using same_statics(1) [OF s3(3)] True by (auto simp: fun_eq_iff)
  then show ?thesis using s3 True same_statics(4) [OF s3(3)] by (intro exI [of _ s3]) simp
next
  case False
  have o: "us_sent (usart_at s u) = tx_output u b s" using r(2) [OF False] by (simp add: tx_output_def tx_pending_def)
  from init_loads [of b w True buf n s] wired [OF b] obtain s3 where s3: "hal_dma_init w (Some (binding_config b True buf n)) s = Some (HAL_OK, s3)"
    "loaded b True buf n s3" "uart_statics s3 = uart_statics s" "usart_at s3 = usart_at s" "dma_cache s3 = dma_cache s"
    "\<forall>d k. (d, k) \<noteq> (binding_inst b, binding_stream b) \<longrightarrow> dma_stream s3 d k = dma_stream s d k" by blast
  show ?thesis
    by (rule exI [of _ "s3\<lparr>s_tx_armed := (s_tx_armed s3)(u := True)\<rparr>"])
      (use s3(1,2,4-6) o False same_statics(1,4) [OF s3(3)] in \<open>simp add: ok_or_ret_def loaded_def\<close>)
qed

text \<open>Writing a buffer: it goes out after what was under way, as the processor saw it.\<close>

lemma write_dma_in_order:
  assumes b: "dop_binding ops u True = Inr b" and r: "tx_ready u b s"
    and buf: "buffer_ready port buf n s" "buf \<noteq> 0" "n \<noteq> 0"
  shows "\<exists>s'. hal_uart_write_dma w port ops u buf n s = Some (HAL_OK, s') \<and> tx_ready u b s' \<and>
    tx_output u b s' = tx_output u b s @ bytes_at (cpu_view (dma_cache s)) buf (unat n) \<and> tx_frame u b s s'"
proof -
  note W = wired [OF b]
  let ?cfg = "binding_config b True buf n"
  obtain c where prep: "port_tx_prepare port buf (ucast n) s = Some (HAL_OK, s\<lparr>dma_cache := c\<rparr>)" and cv: "cpu_view c = cpu_view (dma_cache s)"
    and cin: "\<And>i. i < unat n \<Longrightarrow> mem c (buf + word_of_nat i) = cpu_view (dma_cache s) (buf + word_of_nat i)"
    and cor: "\<And>a. mem c a = mem (dma_cache s) a \<or> mem c a = cpu_view (dma_cache s) a" using tx_prepare_buffer [OF buf(1)] by blast
  define s1 where "s1 = s\<lparr>dma_cache := c\<rparr>"
  define s2 where "s2 = usart_update u (\<lambda>x. x\<lparr>US_CR3 := US_CR3 x OR USART_CR3_DMAT\<rparr>) s1"
  have s1: "uart_statics s1 = uart_statics s" by (simp add: s1_def)
  have st2: "uart_statics s2 = uart_statics s" by (simp add: s2_def s1)
  have s2: "dma_stream s2 = dma_stream s" "dma_cache s2 = c" "\<forall>v. v \<noteq> u \<longrightarrow> usart_at s2 v = usart_at s v"
    "US_CR3 (usart_at s2 u) AND USART_CR3_DMAT \<noteq> 0" using request_on by (simp_all add: s2_def s1_def)
  have req: "dop_set_request ops u True True s1 = (HAL_OK, s2)" using request [OF b] by (simp add: s2_def)
  have get: "hal_uart_dma_get_binding ops u True s = Inr b"
    using W b r by (simp add: hal_uart_dma_get_binding_def tx_ready_def not_le)
  have desc: "descriptor ops u True buf n s1 = Inr ?cfg" unfolding same_statics(6) [OF s1] using get by (simp add: descriptor_def)
  have out2: "tx_output u b s2 = tx_output u b s"
  proof -
    have "bytes_at (mem c) (next_addr t) k = bytes_at (mem (dma_cache s)) (next_addr t) k"
      if "t = dma_stream s (binding_inst b) (binding_stream b)" "k = unat (DMA_NDTR t)" "running b s" for t k
      using r that cor by (intro bytes_at_cong) (metis (no_types, lifting) tx_ready_def tx_stable_def)
    then show ?thesis by (simp add: tx_output_def tx_pending_def s2_def s1_def running_def Let_def)
  qed
  have "s_tx_armed s2 u \<Longrightarrow> tx_owned u b s2" "\<not> s_tx_armed s2 u \<Longrightarrow> \<not> running b s2"
    using r s2(1,4) same_statics(1) [OF st2] by (simp_all add: tx_ready_def tx_owned_def running_def Let_def)
  from arm_stream [OF b buf(3) this, of buf] obtain s3 where load: "(if \<not> s_tx_armed s2 u then
        ok_or_ret (hal_dma_init w (Some ?cfg) s2) (\<lambda>s. Some (HAL_OK, s\<lparr>s_tx_armed := (s_tx_armed s)(u := True)\<rparr>))
      else hal_dma_set_memory w (Some ?cfg) buf n s2) = Some (HAL_OK, s3)"
    and l3: "loaded b True buf n s3" "dma_cache s3 = c" "us_sent (usart_at s3 u) = tx_output u b s"
      "US_CR3 (usart_at s3 u) = US_CR3 (usart_at s2 u)" "s_tx_armed s3 = (s_tx_armed s)(u := True)" "s_has_override s3 = s_has_override s"
      "\<forall>v. v \<noteq> u \<longrightarrow> usart_at s3 v = usart_at s v"
      "\<forall>d k. (d, k) \<noteq> (binding_inst b, binding_stream b) \<longrightarrow> dma_stream s3 d k = dma_stream s d k"
    using out2 s2(1-3) same_statics(1,4) [OF st2] by auto
  have get3: "hal_uart_dma_get_binding ops u True s3 = Inr b"
    using W b r l3(6) by (simp add: hal_uart_dma_get_binding_def tx_ready_def not_le)
  define s4 where "s4 = snd (hal_interrupt_enable (db_irq b) s3)"
  define s5 where "s5 = snd (hal_dma_start (Some ?cfg) (snd (hal_dma_clear_flags (Some ?cfg) s4)))"
  have s4: "loaded b True buf n s4" "dma_cache s4 = c" "usart_at s4 = usart_at s3" "uart_statics s4 = uart_statics s3" "dma_stream s4 = dma_stream s3"
    using l3(1,2) by (simp_all add: s4_def loaded_def)
  have req4: "US_CR3 (usart_at s4 u) AND USART_CR3_DMAT \<noteq> 0" using s2(4) l3(4) s4(3) by simp
  note S = start_loaded [OF _ _ s4(1) buf(3) req4, folded s5_def]
  have S: "tx_owned u b s5" "tx_pending b s5 = bytes_at (mem c) buf (unat n)" "dma_cache s5 = c" "usart_at s5 = usart_at s3"
    "uart_statics s5 = uart_statics s3" "DMA_NDTR (dma_stream s5 (binding_inst b) (binding_stream b)) = ucast n"
    "next_addr (dma_stream s5 (binding_inst b) (binding_stream b)) = buf"
    "\<forall>d k. (d, k) \<noteq> (binding_inst b, binding_stream b) \<longrightarrow> dma_stream s5 d k = dma_stream s4 d k"
    using S W s4 by simp_all
  have bytes: "bytes_at (mem c) buf (unat n) = bytes_at (cpu_view (dma_cache s)) buf (unat n)" by (intro bytes_at_cong cin)
  have "hal_uart_write_dma w port ops u buf n s = Some (HAL_OK, s5)"
    using W buf prep req desc load get3
    by (simp add: hal_uart_write_dma_def ok_or_ret_def Let_def s5_def s4_def hal_dma_start_def flip: s1_def)
  moreover have "tx_output u b s5 = tx_output u b s @ bytes_at (cpu_view (dma_cache s)) buf (unat n)"
    using S(2,4) l3(3) bytes by (simp add: tx_output_def)
  moreover have "tx_stable b s5" using S(3,6,7) cin cv by (simp add: tx_stable_def unsigned_ucast_eq)
  moreover have "tx_frame u b s s5"
    using S(3,4,8) s4(5) same_statics(1,4) [OF S(5)] l3(5-8) cor cv by (simp add: tx_frame_def)
  ultimately show ?thesis using S(1) same_statics(1,4) [OF S(5)] l3(5,6) r by (auto simp: tx_ready_def)
qed

text \<open>Another instance on a stream of its own does not notice.\<close>

lemma no_crosstalk:
  assumes f: "tx_frame u b s s'" and v: "v \<noteq> u" "(binding_inst b', binding_stream b') \<noteq> (binding_inst b, binding_stream b)"
    and r: "tx_ready v b' s"
  shows "tx_ready v b' s' \<and> tx_output v b' s' = tx_output v b' s"
proof -
  let ?t = "dma_stream s (binding_inst b') (binding_stream b')"
  have same: "dma_stream s' (binding_inst b') (binding_stream b') = ?t" "usart_at s' v = usart_at s v" "s_tx_armed s' v = s_tx_armed s v"
    "s_has_override s' = s_has_override s" "cpu_view (dma_cache s') = cpu_view (dma_cache s)"
    and m: "\<And>a. mem (dma_cache s') a = mem (dma_cache s) a \<or> mem (dma_cache s') a = cpu_view (dma_cache s) a"
    using f v by (auto simp: tx_frame_def)
  have run: "running b' s' \<longleftrightarrow> running b' s" by (simp add: running_def same)
  have keep: "mem (dma_cache s') (next_addr ?t + word_of_nat i) = mem (dma_cache s) (next_addr ?t + word_of_nat i)"
    if "running b' s" "i < unat (DMA_NDTR ?t)" for i
    using r that m [of "next_addr ?t + word_of_nat i"] by (auto simp: tx_ready_def tx_stable_def Let_def)
  have "tx_pending b' s' = tx_pending b' s"
    using keep by (auto simp: tx_pending_def run same Let_def intro!: bytes_at_cong)
  moreover have "tx_stable b' s'" using r keep by (auto simp: tx_ready_def tx_stable_def run same Let_def)
  moreover have "tx_owned v b' s' \<longleftrightarrow> tx_owned v b' s" by (simp add: tx_owned_def same)
  ultimately show ?thesis using r by (simp add: tx_ready_def tx_output_def run same)
qed

text \<open>A received byte goes to the next place of the ring.\<close>

lemma rx_step:
  assumes b: "dop_binding ops u False = Inr b" and o: "rx_owned u b buf ring k s" and ring: "ring \<noteq> 0"
    and v: "us_dr_reads (usart_at s u) = ucast v # vs"
  defines "s' \<equiv> dma_item w (binding_inst b) (binding_stream b) s"
  shows "rx_owned u b buf ring (Suc k) s'" "us_dr_reads (usart_at s' u) = vs"
    "dma_cache s' = (dma_cache s)\<lparr>mem := (mem (dma_cache s))(buf + word_of_nat (k mod unat ring) := v)\<rparr>"
proof -
  note W = wired [OF b]
  let ?d = "binding_inst b" and ?n = "binding_stream b" and ?r = "unat ring"
  define t where "t = dma_stream s ?d ?n"
  have c: "DMA_CR t AND NOT DMA_SxCR_EN = binding_cr b False" and f: "DMA_PAR t = db_periph_addr b" "DMA_M0AR t = buf" "dma_reload t = ucast ring"
    "DMA_NDTR t = word_of_nat (?r - k mod ?r)" and e: "DMA_CR t AND DMA_SxCR_EN \<noteq> 0" "US_CR3 (usart_at s u) AND USART_CR3_DMAR \<noteq> 0"
    using o by (simp_all add: rx_owned_def running_def t_def Let_def)
  note F = binding_cr_facts [OF _ c]
  have r0: "0 < ?r" using ring by (simp add: unat_gt_0 word_gt_0)
  have rb: "?r < 65536" by (rule u16_bound)
  have km: "k mod ?r < ?r" using r0 by simp
  have left: "unat (DMA_NDTR t) = ?r - k mod ?r" unfolding f using rb by (intro slot_word) linarith
  have left0: "DMA_NDTR t \<noteq> 0" using left km by auto
  have rl: "dma_reload t = word_of_nat ?r" using f(3) by (simp add: unsigned_ucast_eq flip: word_unat_eq_iff)
  have addr: "next_addr t = buf + word_of_nat (k mod ?r)"
    using km by (simp add: next_addr_def f(2,4) rl of_nat_diff)
  have s': "s' = item_done ?d ?n (mem_write (next_addr t) v (usart_update u (\<lambda>x. x\<lparr>us_dr_reads := vs\<rparr>) s))"
  proof -
    have "(ucast (ucast v :: u32) :: u8) = v" by (rule bit_word_eqI) (simp add: bit_simps)
    then show ?thesis using W e F f(1) left0 v
      by (simp add: s'_def dma_item_def periph_read_def read_DR_def Let_def next_addr_def flip: t_def)
  qed
  show "us_dr_reads (usart_at s' u) = vs" by (simp add: s')
  show "dma_cache s' = (dma_cache s)\<lparr>mem := (mem (dma_cache s))(buf + word_of_nat (k mod ?r) := v)\<rparr>" by (simp add: s' addr)
  have d: "dma_stream s' ?d ?n = count_down t" by (simp add: s' t_def)
  have circ: "DMA_CR t AND DMA_SxCR_CIRC \<noteq> 0" using F W by simp
  have nd: "DMA_NDTR (count_down t) = word_of_nat (?r - Suc k mod ?r)"
  proof (cases "Suc (k mod ?r) = ?r")
    case True
    then have "?r - k mod ?r = 1" by linarith
    then have "DMA_NDTR t = 1" using f(4) by simp
    moreover have "Suc k mod ?r = 0" using True mod_Suc [of k ?r] by simp
    ultimately show ?thesis using circ rl by (simp add: count_down_def)
  next
    case False
    then have m: "Suc k mod ?r = Suc (k mod ?r)" using mod_Suc [of k ?r] by simp
    have "?r - k mod ?r \<noteq> 1" using False km by linarith
    then have "DMA_NDTR t \<noteq> 1" using left by auto
    then have "DMA_NDTR t - 1 \<noteq> 0" by simp
    moreover have "DMA_NDTR t - 1 = word_of_nat (?r - Suc (k mod ?r))"
      using km by (simp add: f(4) of_nat_diff)
    ultimately show ?thesis by (simp add: count_down_def m)
  qed
  have "DMA_CR (count_down t) = DMA_CR t" "DMA_PAR (count_down t) = DMA_PAR t" "DMA_M0AR (count_down t) = DMA_M0AR t"
    "dma_reload (count_down t) = dma_reload t" "US_CR3 (usart_at s' u) = US_CR3 (usart_at s u)"
    using circ by (simp_all add: count_down_def s')
  then show "rx_owned u b buf ring (Suc k) s'" using c f e nd by (simp add: rx_owned_def running_def d Let_def flip: t_def)
qed

lemma rx_steps:
  assumes b: "dop_binding ops u False = Inr b" and ring: "ring \<noteq> 0"
  shows "rx_owned u b buf ring k s \<Longrightarrow> us_dr_reads (usart_at s u) = map ucast bs @ rest \<Longrightarrow>
    \<exists>s'. (dma_item w (binding_inst b) (binding_stream b) ^^ length bs) s = s' \<and> rx_owned u b buf ring (k + length bs) s' \<and>
      dma_cache s' = (dma_cache s)\<lparr>mem := ring_fill buf (unat ring) k bs (mem (dma_cache s))\<rparr>"
proof (induction bs arbitrary: k s)
  case (Cons v bs)
  have v: "us_dr_reads (usart_at s u) = ucast v # (map ucast bs @ rest)" using Cons.prems(2) by simp
  note S = rx_step [OF b Cons.prems(1) ring v]
  from Cons.IH [OF S(1,2)] S(3) show ?case by (auto simp: funpow_swap1 fun_upd_def)
qed simp

lemma rx_init:
  assumes b: "dop_binding ops u False = Inr b" and o: "\<not> s_has_override s u False"
    and i: "hal_uart_init_dma_rx w port ops u buf ring s = Some (HAL_OK, s')"
  shows "rx_owned u b buf ring 0 s'" "s_rx_len s' u = ring" "s_rx_buf s' u = buf" "ring \<noteq> 0" "buf \<noteq> 0"
    "dma_cache s' = dma_cache s" "\<not> s_has_override s' u False" "us_dr_reads (usart_at s' u) = us_dr_reads (usart_at s u)"
proof -
  note W = wired [OF b]
  let ?cfg = "binding_config b False buf ring"
  let ?s1 = "usart_update u (\<lambda>x. x\<lparr>US_CR3 := US_CR3 x OR USART_CR3_DMAR\<rparr>) s"
  have desc: "descriptor ops u False buf ring s = Inr ?cfg"
    using W b o by (simp add: descriptor_def hal_uart_dma_get_binding_def not_le)
  from init_loads [of b w False buf ring ?s1] W obtain s2 where s2: "hal_dma_init w (Some ?cfg) ?s1 = Some (HAL_OK, s2)"
    "loaded b False buf ring s2" "uart_statics s2 = uart_statics ?s1" "usart_at s2 = usart_at ?s1" "dma_cache s2 = dma_cache ?s1" by blast
  define s3 where "s3 = s2\<lparr>s_rx_len := (s_rx_len s2)(u := ring), s_rx_buf := (s_rx_buf s2)(u := buf)\<rparr>"
  show r: "ring \<noteq> 0" and "buf \<noteq> 0" using i by (auto simp: hal_uart_init_dma_rx_def)
  have s': "s' = snd (hal_dma_start (Some ?cfg) s3)"
    using i desc request [OF b] s2(1)
    by (auto simp: hal_uart_init_dma_rx_def ok_or_ret_def Let_def s3_def split: if_splits)
  have l: "loaded b False buf ring s3" "US_CR3 (usart_at s3 u) AND USART_CR3_DMAR \<noteq> 0" "usart_at s3 = usart_at s2" "dma_cache s3 = dma_cache s2"
    using s2(2,4) request_on by (simp_all add: s3_def loaded_def)
  note S = start_rx [OF _ _ l(1) r l(2), folded s']
  show "rx_owned u b buf ring 0 s'" "dma_cache s' = dma_cache s" using S(1,2) W l(4) s2(5) by simp_all
  have "uart_statics s' = uart_statics s3" using S(4) W by simp
  from same_statics(2-4) [OF this] same_statics(4) [OF s2(3)] o
  show "s_rx_len s' u = ring" "s_rx_buf s' u = buf" "\<not> s_has_override s' u False"
    by (simp_all add: s3_def) (simp add: usart_update_def)
  show "us_dr_reads (usart_at s' u) = us_dr_reads (usart_at s u)" using S(3) W l(3) s2(4) by simp
qed

lemma rx_init_ok:
  assumes b: "dop_binding ops u False = Inr b" and o: "\<not> s_has_override s u False"
    and args: "buf \<noteq> 0" "ring \<noteq> 0" "port_rx_guard port buf = HAL_OK"
    and al: "port \<noteq> None \<Longrightarrow> hal_dcache_is_enabled (dma_cache s) \<Longrightarrow> buf AND (NAVHAL_CACHE_LINE - 1) = 0 \<and> ucast ring mod NAVHAL_CACHE_LINE = 0"
  shows "\<exists>s'. hal_uart_init_dma_rx w port ops u buf ring s = Some (HAL_OK, s')"
proof -
  note W = wired [OF b]
  let ?s1 = "usart_update u (\<lambda>x. x\<lparr>US_CR3 := US_CR3 x OR USART_CR3_DMAR\<rparr>) s"
  have desc: "descriptor ops u False buf ring s = Inr (binding_config b False buf ring)"
    using W b o by (simp add: descriptor_def hal_uart_dma_get_binding_def not_le)
  from init_loads [of b w False buf ring ?s1] W obtain s2 where
    s2: "hal_dma_init w (Some (binding_config b False buf ring)) ?s1 = Some (HAL_OK, s2)" by blast
  have "\<not> (port \<noteq> None \<and> hal_dcache_is_enabled (dma_cache s) \<and>
      (buf AND (NAVHAL_CACHE_LINE - 1) \<noteq> 0 \<or> ucast ring mod NAVHAL_CACHE_LINE \<noteq> 0))" using al by auto
  then show ?thesis using W args desc request [OF b] s2
    by (simp only: hal_uart_init_dma_rx_def) (simp add: ok_or_ret_def hal_dma_start_def Let_def not_le)
qed

text \<open>Where the controller writes next.\<close>

lemma rx_index_owned:
  assumes b: "dop_binding ops u False = Inr b" and o: "\<not> s_has_override s u False" and r: "rx_owned u b buf ring k s"
    and ring: "s_rx_len s u = ring" "ring \<noteq> 0"
  shows "hal_uart_dma_rx_index ops u s = Inr (word_of_nat (k mod unat ring))"
proof -
  note W = wired [OF b]
  have desc: "descriptor ops u False 0 ring s = Inr (binding_config b False 0 ring)"
    using W b o by (simp add: descriptor_def hal_uart_dma_get_binding_def not_le)
  have nd: "DMA_NDTR (dma_stream s (binding_inst b) (binding_stream b)) = word_of_nat (unat ring - k mod unat ring)"
    using r by (simp add: rx_owned_def Let_def)
  have km: "k mod unat ring < unat ring" using ring(2) by (simp add: unat_gt_0 word_gt_0)
  let ?m = "unat ring - k mod unat ring"
  have "unat ((word_of_nat ?m :: u32) AND 0xFFFF) = ?m"
  proof -
    have "?m < 65536" using u16_bound [of ring] by linarith
    then show ?thesis by (simp add: unsigned_and_eq slot_word low16)
  qed
  then have "(ucast ((word_of_nat ?m :: u32) AND 0xFFFF) :: u16) = word_of_nat ?m"
    unfolding ucast_down by (rule arg_cong)
  then have "ring - ucast ((word_of_nat ?m :: u32) AND 0xFFFF) = word_of_nat (k mod unat ring)"
    using km by (simp add: of_nat_diff)
  moreover have "\<not> db_stream b > 7" using W by (simp add: word_less_nat_alt not_less word_le_nat_alt)
  ultimately show ?thesis using W ring desc nd
    by (simp add: hal_uart_dma_rx_index_def hal_dma_remaining_def not_le flip: binding_stream_def)
qed

text \<open>What arrived last is in the ring, and the span the reader synchronises shows it.\<close>

lemma ring_reception:
  assumes b: "dop_binding ops u False = Inr b" and o: "\<not> s_has_override s u False"
    and i: "hal_uart_init_dma_rx w port ops u buf ring s = Some (HAL_OK, s1)"
    and bs: "us_dr_reads (usart_at s u) = map ucast bs @ rest"
    and n: "n \<noteq> 0" "n \<le> ring" "unat n \<le> length bs"
    and m: "port = None \<Longrightarrow> \<forall>l. \<not> line_valid (dma_cache s) l" "port \<noteq> None \<Longrightarrow> unat buf + unat ring \<le> 4294967264"
  defines "s2 \<equiv> (dma_item w (binding_inst b) (binding_stream b) ^^ length bs) s1"
  shows "hal_uart_dma_rx_index ops u s2 = Inr (word_of_nat (length bs mod unat ring)) \<and>
    (\<exists>s3. hal_uart_dma_rx_sync port u (word_of_nat ((length bs - unat n) mod unat ring)) n s2 = Some (HAL_OK, s3) \<and>
      (\<forall>j. length bs - unat n \<le> j \<and> j < length bs \<longrightarrow> cpu_view (dma_cache s3) (buf + word_of_nat (j mod unat ring)) = bs ! j))"
proof -
  note R = rx_init [OF b o i]
  have d1: "us_dr_reads (usart_at s1 u) = map ucast bs @ rest" using R(8) bs by simp
  from rx_steps [OF b R(4) R(1) d1] have own: "rx_owned u b buf ring (length bs) s2"
    and cache: "dma_cache s2 = (dma_cache s1)\<lparr>mem := ring_fill buf (unat ring) 0 bs (mem (dma_cache s1))\<rparr>" by (simp_all add: s2_def)
  have st: "uart_statics s2 = uart_statics s1" by (simp add: s2_def)
  have len: "s_rx_len s2 u = ring" "s_rx_buf s2 u = buf" "\<not> s_has_override s2 u False"
    using same_statics(2,3,4) [OF st] R(2,3,7) by simp_all
  have idx: "hal_uart_dma_rx_index ops u s2 = Inr (word_of_nat (length bs mod unat ring))"
    by (rule rx_index_owned [OF b len(3) own len(1) R(4)])
  let ?from = "(length bs - unat n) mod unat ring" and ?r = "unat ring"
  have r: "0 < ?r" "?r < 65536" using R(4) u16_bound [of ring] by (simp_all add: unat_gt_0 word_gt_0)
  have fr: "?from < ?r" using r(1) by simp
  have uf: "unat (word_of_nat ?from :: u16) = ?from" using fr r(2) by (simp add: unsigned_of_nat take_bit_nat_eq_self)
  have "\<exists>s3. hal_uart_dma_rx_sync port u (word_of_nat ?from) n s2 = Some (HAL_OK, s3) \<and>
    (\<forall>i < unat n. cpu_view (dma_cache s3) (s_rx_buf s2 u + word_of_nat ((unat (word_of_nat ?from :: u16) + i) mod unat (s_rx_len s2 u))) =
       mem (dma_cache s2) (s_rx_buf s2 u + word_of_nat ((unat (word_of_nat ?from :: u16) + i) mod unat (s_rx_len s2 u))))"
  proof (rule sync_fresh)
    show "u < UART_SLOTS" using wired [OF b] by blast
    show "s_rx_buf s2 u \<noteq> 0" "n \<noteq> 0" "n \<le> s_rx_len s2 u" using len R(5) n by simp_all
    show "word_of_nat ?from < s_rx_len s2 u" using fr unfolding len word_less_nat_alt uf .
    show "\<forall>l. \<not> line_valid (dma_cache s2) l" if "port = None" using m(1) [OF that] by (simp add: cache R(6))
    show "unat (s_rx_buf s2 u) + unat (s_rx_len s2 u) \<le> 4294967264" if "port \<noteq> None" using m(2) [OF that] len by simp
  qed
  then obtain s3 where s3: "hal_uart_dma_rx_sync port u (word_of_nat ?from) n s2 = Some (HAL_OK, s3)"
    "\<forall>i < unat n. cpu_view (dma_cache s3) (buf + word_of_nat ((?from + i) mod ?r)) = mem (dma_cache s2) (buf + word_of_nat ((?from + i) mod ?r))"
    unfolding len uf by blast
  have "cpu_view (dma_cache s3) (buf + word_of_nat (j mod ?r)) = bs ! j" if j: "length bs - unat n \<le> j" "j < length bs" for j
  proof -
    have e: "(?from + (j - (length bs - unat n))) mod ?r = j mod ?r" unfolding mod_add_left_eq using j(1) by simp
    have "j - (length bs - unat n) < unat n" using j n(3) by linarith
    then have "cpu_view (dma_cache s3) (buf + word_of_nat (j mod ?r)) = mem (dma_cache s2) (buf + word_of_nat (j mod ?r))"
      using s3(2) e by metis
    also have "\<dots> = ring_fill buf ?r 0 bs (mem (dma_cache s1)) (buf + word_of_nat ((0 + j) mod ?r))" by (simp add: cache)
    also have "\<dots> = bs ! j"
    proof (rule ring_fill_at [OF r j(2)])
      have "unat n \<le> ?r" using n(2) by (simp add: word_le_nat_alt)
      then show "length bs \<le> j + ?r" using j(1) n(3) by linarith
    qed
    finally show ?thesis .
  qed
  then show ?thesis using idx s3(1) by blast
qed

end

section \<open>The wiring of the STM32 families\<close>

text \<open>The requests of the USARTs, the same in both families: the tables of the reference manuals.\<close>

definition usart_request :: "dma_inst \<Rightarrow> nat \<Rightarrow> nat \<Rightarrow> (nat \<times> bool) option" where
  "usart_request d n ch =
     (case d of
        DMA1 \<Rightarrow>
          (if (n, ch) = (5, 4) then Some (2, False) else if (n, ch) = (6, 4) then Some (2, True)
           else if (n, ch) = (1, 4) then Some (3, False) else if (n, ch) \<in> {(3, 4), (4, 7)} then Some (3, True) else None)
      | DMA2 \<Rightarrow>
          (if (n, ch) \<in> {(1, 5), (2, 5)} then Some (6, False) else if (n, ch) \<in> {(6, 5), (7, 5)} then Some (6, True)
           else if (n, ch) \<in> {(2, 4), (5, 4)} then Some (1, False) else if (n, ch) = (7, 4) then Some (1, True) else None))"

definition usart_register :: "u32 \<Rightarrow> u32 \<Rightarrow> nat option" where
  "usart_register off a =
     (if a = USART1_BASE + off then Some 1 else if a = USART2_BASE + off then Some 2
      else if a = USART3_BASE + off then Some 3 else if a = USART6_BASE + off then Some 6 else None)"

definition f4_wires :: dma_wires where
  "f4_wires = \<lparr>wire_request = usart_request, wire_tx = usart_register 4, wire_rx = usart_register 4\<rparr>"

definition f7_wires :: dma_wires where
  "f7_wires = \<lparr>wire_request = usart_request, wire_tx = usart_register 0x28, wire_rx = usart_register 0x24\<rparr>"

lemmas usart_addresses = USART1_BASE_def USART2_BASE_def USART3_BASE_def USART6_BASE_def HAL_UART_1_def HAL_UART_2_def
  HAL_UART_3_def HAL_UART_6_def

lemma binding_fields [simp]:
  "db_stream (uart_dma_binding d n ch a) = n" "db_channel (uart_dma_binding d n ch a) = ch"
  "db_periph_addr (uart_dma_binding d n ch a) = a" "binding_inst (uart_dma_binding d n ch a) = d"
  "binding_stream (uart_dma_binding d n ch a) = unat n" "db_irq (uart_dma_binding d n ch a) = dma_irqn d (unat n)"
  by (cases d; simp add: uart_dma_binding_def binding_inst_def binding_stream_def HAL_DMA_CONTROLLER_1_def HAL_DMA_CONTROLLER_2_def)+

definition endpoint_wired :: "dma_wires \<Rightarrow> nat \<Rightarrow> bool \<Rightarrow> hal_dma_binding \<Rightarrow> bool" where
  "endpoint_wired w u tx b \<longleftrightarrow>
     u < UART_SLOTS \<and> db_stream b < 8 \<and> db_channel b < 8 \<and>
     wire_request w (binding_inst b) (binding_stream b) (unat (db_channel b)) = Some (u, tx) \<and>
     (if tx then wire_tx w else wire_rx w) (db_periph_addr b) = Some u"

lemma f4_wired: "stm32_uart_dma_binding u tx = Inr b \<Longrightarrow> endpoint_wired f4_wires u tx b"
proof -
  assume b: "stm32_uart_dma_binding u tx = Inr b"
  then consider "u = 1" | "u = 2" | "u = 6"
    by (auto simp: stm32_uart_dma_binding_def HAL_UART_1_def HAL_UART_2_def HAL_UART_6_def split: if_split_asm)
  then have "endpoint_wired f4_wires u tx (projr (stm32_uart_dma_binding u tx))"
    by cases (cases tx; simp add: stm32_uart_dma_binding_def endpoint_wired_def f4_wires_def usart_request_def usart_register_def
      UART_SLOTS_def usart_addresses)+
  then show ?thesis using b by simp
qed

lemma f7_wired: "stm32f7_uart_dma_binding u tx = Inr b \<Longrightarrow> endpoint_wired f7_wires u tx b"
proof -
  assume b: "stm32f7_uart_dma_binding u tx = Inr b"
  then consider "u = 1" | "u = 2" | "u = 3" | "u = 6"
    by (auto simp: stm32f7_uart_dma_binding_def Let_def HAL_UART_1_def HAL_UART_2_def HAL_UART_3_def HAL_UART_6_def split: if_split_asm)
  then have "endpoint_wired f7_wires u tx (projr (stm32f7_uart_dma_binding u tx))"
    by cases (cases tx; simp add: stm32f7_uart_dma_binding_def endpoint_wired_def f7_wires_def usart_request_def usart_register_def
      UART_SLOTS_def usart_addresses)+
  then show ?thesis using b by simp
qed

interpretation f4_uart_dma: uart_dma_wiring f4_wires f4_uart_dma_ops
proof
  fix u tx b and s :: "'m uart_dma_scheme"
  assume "dop_binding (f4_uart_dma_ops :: 'm uart_dma_scheme hal_uart_dma_ops) u tx = Inr b"
  then have b: "stm32_uart_dma_binding u tx = Inr b" by (simp add: f4_uart_dma_ops_def)
  from f4_wired [OF this] show "u < UART_SLOTS \<and> db_stream b < 8 \<and> db_channel b < 8 \<and>
      wire_request f4_wires (binding_inst b) (binding_stream b) (unat (db_channel b)) = Some (u, tx) \<and>
      (if tx then wire_tx f4_wires else wire_rx f4_wires) (db_periph_addr b) = Some u" unfolding endpoint_wired_def .
  have "get_usart u" using b by (auto simp: stm32_uart_dma_binding_def get_usart_def split: if_split_asm)
  then show "dop_set_request f4_uart_dma_ops u tx True s =
      (HAL_OK, usart_update u (\<lambda>x. x\<lparr>US_CR3 := US_CR3 x OR (if tx then USART_CR3_DMAT else USART_CR3_DMAR)\<rparr>) s)"
    by (simp add: f4_uart_dma_ops_def stm32_uart_dma_set_request_def uart_set_request_def Let_def)
qed

interpretation f7_uart_dma: uart_dma_wiring f7_wires f7_uart_dma_ops
proof
  fix u tx b and s :: "'m uart_dma_scheme"
  assume "dop_binding (f7_uart_dma_ops :: 'm uart_dma_scheme hal_uart_dma_ops) u tx = Inr b"
  then have b: "stm32f7_uart_dma_binding u tx = Inr b" by (simp add: f7_uart_dma_ops_def)
  from f7_wired [OF this] show "u < UART_SLOTS \<and> db_stream b < 8 \<and> db_channel b < 8 \<and>
      wire_request f7_wires (binding_inst b) (binding_stream b) (unat (db_channel b)) = Some (u, tx) \<and>
      (if tx then wire_tx f7_wires else wire_rx f7_wires) (db_periph_addr b) = Some u" unfolding endpoint_wired_def .
  have "get_usart u \<or> u = HAL_UART_3"
    using b by (auto simp: stm32f7_uart_dma_binding_def get_usart_def Let_def split: if_split_asm)
  then show "dop_set_request f7_uart_dma_ops u tx True s =
      (HAL_OK, usart_update u (\<lambda>x. x\<lparr>US_CR3 := US_CR3 x OR (if tx then USART_CR3_DMAT else USART_CR3_DMAR)\<rparr>) s)"
    by (simp add: f7_uart_dma_ops_def stm32f7_uart_dma_set_request_def uart_set_request_def Let_def)
qed

text \<open>On the F7 no two endpoints share a stream; on the F4 two transmitters do.\<close>

lemma f7_stream:
  assumes "stm32f7_uart_dma_binding u tx = Inr b"
  shows "(u = 1 \<or> u = 2 \<or> u = 3 \<or> u = 6) \<and> (binding_inst b, binding_stream b) =
    (if u = 1 then (DMA2, if tx then 7 else 2) else if u = 2 then (DMA1, if tx then 6 else 5)
     else if u = 3 then (DMA1, if tx then 3 else 1) else (DMA2, if tx then 6 else 1))"
  using assms by (auto simp: stm32f7_uart_dma_binding_def usart_addresses Let_def split: if_split_asm)

lemma f7_streams_distinct:
  "stm32f7_uart_dma_binding u tx = Inr b \<Longrightarrow> stm32f7_uart_dma_binding v tx' = Inr b' \<Longrightarrow> (u, tx) \<noteq> (v, tx') \<Longrightarrow>
   (binding_inst b', binding_stream b') \<noteq> (binding_inst b, binding_stream b)"
  by (drule f7_stream)+ (auto split: if_split_asm)

lemma f4_transmitters_share:
  "\<exists>b b'. stm32_uart_dma_binding HAL_UART_1 True = Inr b \<and> stm32_uart_dma_binding HAL_UART_6 True = Inr b' \<and>
     binding_inst b = binding_inst b' \<and> binding_stream b = binding_stream b' \<and> db_irq b = db_irq b'"
  by (simp add: stm32_uart_dma_binding_def usart_addresses)

text \<open>So on the F4, once both have been armed, what is written to the one that did not write last goes out on the other.\<close>

lemma f4_shared_stream_misroutes:
  fixes s :: uart_dma
  assumes b: "stm32_uart_dma_binding 1 True = Inr b" "stm32_uart_dma_binding 6 True = Inr b'"
    and armed: "s_tx_armed s 1" "\<not> s_has_override s 1 True"
    and set6: "loaded b' True m k s" "US_CR3 (usart_at s 6) AND USART_CR3_DMAT \<noteq> 0"
    and buf: "buf \<noteq> 0" "n \<noteq> 0"
  shows "\<exists>s'. hal_uart_write_dma f4_wires None f4_uart_dma_ops 1 buf n s = Some (HAL_OK, s') \<and>
    tx_output 6 b' s' = us_sent (usart_at s 6) @ bytes_at (mem (dma_cache s)) buf (unat n) \<and>
    us_sent (usart_at s' 1) = us_sent (usart_at s 1)"
proof -
  have bs: "b = uart_dma_binding DMA2 7 4 (USART1_BASE + 4)" "b' = uart_dma_binding DMA2 7 5 (USART6_BASE + 4)"
    using b by (simp_all add: stm32_uart_dma_binding_def HAL_UART_1_def HAL_UART_2_def HAL_UART_6_def)
  let ?cfg = "binding_config b True buf n" and ?cfg' = "binding_config b' True buf n"
  define s1 where "s1 = usart_update 1 (\<lambda>x. x\<lparr>US_CR3 := US_CR3 x OR USART_CR3_DMAT\<rparr>) s"
  define s2 where "s2 = stream_update DMA2 7 (\<lambda>t. t\<lparr>DMA_M0AR := buf, DMA_NDTR := ucast n\<rparr>) s1"
  define s3 where "s3 = snd (hal_interrupt_enable (db_irq b) s2)"
  define s4 where "s4 = snd (hal_dma_start (Some ?cfg) (snd (hal_dma_clear_flags (Some ?cfg) s3)))"
  have get: "hal_uart_dma_get_binding (f4_uart_dma_ops :: uart_dma hal_uart_dma_ops) 1 True s' = Inr b" if "uart_statics s' = uart_statics s" for s'
    using b(1) armed(2) same_statics(4) [OF that]
    by (simp add: hal_uart_dma_get_binding_def f4_uart_dma_ops_def UART_SLOTS_def)
  have st: "uart_statics s1 = uart_statics s" "uart_statics s2 = uart_statics s" by (simp_all add: s1_def s2_def)
  have "wait_stopped f4_wires DMA2 7 s1 = Some s1"
    using set6(1) binding_cr_idle [of b' True] bs(2)
    by (subst wait_stopped.simps) (simp add: s1_def loaded_def Let_def)
  then have set_mem: "hal_dma_set_memory f4_wires (Some ?cfg) buf n s1 = Some (HAL_OK, s2)"
    using buf(2) by (simp add: hal_dma_set_memory_def bs(1) s2_def binding_stream_def)
  have desc: "descriptor (f4_uart_dma_ops :: uart_dma hal_uart_dma_ops) 1 True buf n s = Inr ?cfg" using get [OF refl] by (simp add: descriptor_def)
  have req: "dop_set_request f4_uart_dma_ops 1 True True s = (HAL_OK, s1)"
    by (simp add: f4_uart_dma_ops_def stm32_uart_dma_set_request_def uart_set_request_def get_usart_def HAL_UART_1_def Let_def s1_def)
  have run: "hal_uart_write_dma f4_wires None f4_uart_dma_ops 1 buf n s = Some (HAL_OK, s4)"
    using buf armed(1) desc req set_mem get [OF st(2)] same_statics(1) [OF st(1)]
    by (simp add: hal_uart_write_dma_def port_tx_prepare_def ok_or_ret_def Let_def s3_def s4_def UART_SLOTS_def hal_dma_start_def)
  have "s4 = snd (hal_dma_start (Some ?cfg') (snd (hal_dma_clear_flags (Some ?cfg') s3)))"
    by (simp add: s4_def hal_dma_start_def hal_dma_clear_flags_def bs)
  moreover have "loaded b' True buf n s3" "US_CR3 (usart_at s3 6) AND USART_CR3_DMAT \<noteq> 0"
    using set6 bs(2) by (simp_all add: s3_def s2_def s1_def loaded_def Let_def)
  ultimately have S: "tx_pending b' s4 = bytes_at (mem (dma_cache s3)) buf (unat n)" "usart_at s4 = usart_at s3"
    using start_loaded(3,5) [of b' buf n s3 6] buf(2) bs(2) by simp_all
  have "tx_output 6 b' s4 = us_sent (usart_at s 6) @ bytes_at (mem (dma_cache s)) buf (unat n)"
    "us_sent (usart_at s4 1) = us_sent (usart_at s 1)"
    using S by (simp_all add: tx_output_def s3_def s2_def s1_def)
  then show ?thesis using run by blast
qed

text \<open>An override given to an armed transmitter is not initialised: its stream is enabled with nothing set but the
  address and the count.\<close>

lemma override_not_initialised:
  fixes s :: uart_dma
  assumes b: "stm32_uart_dma_binding u True = Inr b0" "u < UART_SLOTS" "db_stream b < 8"
    and armed: "s_tx_armed s u" and cr: "DMA_CR (dma_stream s (binding_inst b) (binding_stream b)) = 0"
    and buf: "buf \<noteq> 0" "n \<noteq> 0"
  shows "\<exists>s1 s2. hal_uart_dma_set_binding (f4_uart_dma_ops :: uart_dma hal_uart_dma_ops) u True (Some b) s = (HAL_OK, s1) \<and>
    hal_uart_write_dma f4_wires None f4_uart_dma_ops u buf n s1 = Some (HAL_OK, s2) \<and>
    DMA_CR (dma_stream s2 (binding_inst b) (binding_stream b)) = DMA_SxCR_EN"
proof -
  let ?cfg = "binding_config b True buf n"
  define s1 where "s1 = s\<lparr>s_override := (s_override s)(u := (s_override s u)(True := b)), s_has_override := (s_has_override s)(u := (s_has_override s u)(True := True))\<rparr>"
  define s2 where "s2 = usart_update u (\<lambda>x. x\<lparr>US_CR3 := US_CR3 x OR USART_CR3_DMAT\<rparr>) s1"
  define s3 where "s3 = stream_update (binding_inst b) (binding_stream b) (\<lambda>t. t\<lparr>DMA_M0AR := buf, DMA_NDTR := ucast n\<rparr>) s2"
  define s4 where "s4 = snd (hal_dma_start (Some ?cfg) (snd (hal_dma_clear_flags (Some ?cfg) (snd (hal_interrupt_enable (db_irq b) s3)))))"
  have set1: "hal_uart_dma_set_binding (f4_uart_dma_ops :: uart_dma hal_uart_dma_ops) u True (Some b) s = (HAL_OK, s1)"
    using b(1,2) by (simp add: hal_uart_dma_set_binding_def f4_uart_dma_ops_def s1_def)
  have get: "hal_uart_dma_get_binding (f4_uart_dma_ops :: uart_dma hal_uart_dma_ops) u True s' = Inr b"
    if "uart_statics s' = uart_statics s1" for s'
    using that b(2) by (simp add: hal_uart_dma_get_binding_def uart_statics_def s1_def)
  have st: "uart_statics s2 = uart_statics s1" "uart_statics s3 = uart_statics s1" by (simp_all add: s2_def s3_def)
  have cr2: "DMA_CR (dma_stream s2 (binding_inst b) (binding_stream b)) = 0" using cr by (simp add: s2_def s1_def)
  then have "wait_stopped f4_wires (binding_inst b) (binding_stream b) s2 = Some s2" by (subst wait_stopped.simps) simp
  moreover have "\<not> db_stream b > 7" using b(3) by (simp add: word_less_nat_alt not_less word_le_nat_alt)
  ultimately have set_mem: "hal_dma_set_memory f4_wires (Some ?cfg) buf n s2 = Some (HAL_OK, s3)"
    using buf(2) by (simp add: hal_dma_set_memory_def s3_def flip: binding_stream_def)
  have desc: "descriptor (f4_uart_dma_ops :: uart_dma hal_uart_dma_ops) u True buf n s1 = Inr ?cfg" using get [OF refl] by (simp add: descriptor_def)
  have req: "dop_set_request f4_uart_dma_ops u True True s1 = (HAL_OK, s2)"
    using f4_uart_dma.request [of u True b0 s1] b(1) by (simp add: f4_uart_dma_ops_def s2_def)
  have arm: "s_tx_armed s2 u" using armed by (simp add: s2_def s1_def usart_update_def)
  have "hal_uart_write_dma f4_wires None f4_uart_dma_ops u buf n s1 = Some (HAL_OK, s4)"
    using buf b(2) arm desc req set_mem get [OF st(2)]
    by (simp add: hal_uart_write_dma_def port_tx_prepare_def ok_or_ret_def Let_def s4_def hal_dma_start_def not_le)
  moreover have "DMA_CR (dma_stream s4 (binding_inst b) (binding_stream b)) = DMA_SxCR_EN"
    using cr2 b(3) by (simp add: s4_def s3_def hal_dma_start_def hal_dma_clear_flags_def Let_def CR_write_def)
  ultimately show ?thesis using set1 by blast
qed

text \<open>The length of a string is counted in sixteen bits: a longer one is measured for ever.\<close>

lemma dma_strlen16_hangs:
  assumes "\<And>i. i < 65536 \<Longrightarrow> v (a + word_of_nat i) \<noteq> 0"
  shows "strlen16 v a 0 = None"
proof -
  have "v (a + ucast r) = 0" if "strlen16 v a n = Some r" for n r
    by (rule strlen16.raw_induct [OF _ that]) (auto split: if_splits)
  moreover have "v (a + ucast r) \<noteq> 0" for r :: u16 unfolding ucast_of_nat by (rule assms [OF u16_bound])
  ultimately show ?thesis by (cases "strlen16 v a 0") auto
qed

lemma dma_strlen16_returns:
  assumes "\<And>i. i < n \<Longrightarrow> v (a + word_of_nat i) \<noteq> 0" "v (a + word_of_nat n) = 0" "n < 65536"
  shows "k \<le> n \<Longrightarrow> strlen16 v a (word_of_nat k) = Some (word_of_nat n)"
proof (induction "n - k" arbitrary: k)
  case 0
  have "unat (word_of_nat n :: u16) = n" using assms(3) by (simp add: unsigned_of_nat take_bit_nat_eq_self)
  then show ?case using 0 assms(2) by (subst strlen16.simps) (simp add: ucast_of_nat)
next
  case (Suc d)
  have "unat (word_of_nat k :: u16) = k" using assms(3) Suc.hyps(2) by (simp add: unsigned_of_nat take_bit_nat_eq_self)
  then have "v (a + ucast (word_of_nat k :: u16)) \<noteq> 0" unfolding ucast_of_nat using assms(1) [of k] Suc.hyps(2) by simp
  moreover have "strlen16 v a (word_of_nat (Suc k)) = Some (word_of_nat n)" using Suc.hyps by (intro Suc.hyps(1)) auto
  ultimately show ?case by (subst strlen16.simps) (simp add: ac_simps)
qed

text \<open>The alignment of a ring is looked at when the cache is on at that moment: set up before it is switched on, any ring
  is taken, also one that shares its last line with its neighbour.\<close>

lemma unaligned_ring_taken_while_off:
  assumes "stm32f7_uart_dma_binding u False = Inr b" "\<not> s_has_override s u False" "buf \<noteq> 0" "ring \<noteq> 0"
    and "navhal_dma_mem_class t buf = NAVHAL_DMA_MEM_CACHED" "\<not> hal_dcache_is_enabled (dma_cache s)"
  shows "\<exists>s'. hal_uart_init_dma_rx f7_wires (Some t) f7_uart_dma_ops u buf ring s = Some (HAL_OK, s')"
  by (rule f7_uart_dma.rx_init_ok [of u b]) (use assms in \<open>simp_all add: f7_uart_dma_ops_def port_rx_guard_def navhal_dma_rx_guard_def\<close>)

section \<open>Properties\<close>

text \<open>C21. Transmission by DMA. On the F7, giving a ready instance a buffer ends with HAL_OK and leaves it ready for the
  next; what then goes out on the instance is what was under way, all of it, and then the buffer as the processor
  saw it at the call, cache or no cache; and no other ready instance sends anything else than it would have.\<close>

theorem uart_write_dma_in_order:
  fixes s :: uart_dma
  assumes b: "stm32f7_uart_dma_binding u True = Inr b" and r: "tx_ready u b s"
    and buf: "buffer_ready port buf n s" "buf \<noteq> 0" "n \<noteq> 0"
  shows "\<exists>s'. hal_uart_write_dma f7_wires port f7_uart_dma_ops u buf n s = Some (HAL_OK, s') \<and> tx_ready u b s' \<and>
    (\<exists>k. us_sent (usart_at ((dma_item f7_wires (binding_inst b) (binding_stream b) ^^ k) s') u) =
       us_sent (usart_at s u) @ tx_pending b s @ bytes_at (cpu_view (dma_cache s)) buf (unat n)) \<and>
    (\<forall>v b'. v \<noteq> u \<and> stm32f7_uart_dma_binding v True = Inr b' \<and> tx_ready v b' s \<longrightarrow>
       tx_ready v b' s' \<and> tx_output v b' s' = tx_output v b' s)"
proof -
  have b': "dop_binding (f7_uart_dma_ops :: uart_dma hal_uart_dma_ops) u True = Inr b" using b by (simp add: f7_uart_dma_ops_def)
  from f7_uart_dma.write_dma_in_order [OF b' r buf] obtain s' where
    w: "hal_uart_write_dma f7_wires port f7_uart_dma_ops u buf n s = Some (HAL_OK, s')" "tx_ready u b s'"
    "tx_output u b s' = tx_output u b s @ bytes_at (cpu_view (dma_cache s)) buf (unat n)" "tx_frame u b s s'" by blast
  have "tx_owned u b s' \<or> \<not> running b s'" using w(2) by (auto simp: tx_ready_def split: if_splits)
  then have "\<exists>k. us_sent (usart_at ((dma_item f7_wires (binding_inst b) (binding_stream b) ^^ k) s') u) = tx_output u b s'"
  proof
    assume "tx_owned u b s'"
    from f7_uart_dma.tx_drain [OF b' this] show ?thesis by blast
  next
    assume "\<not> running b s'"
    then have "us_sent (usart_at ((dma_item f7_wires (binding_inst b) (binding_stream b) ^^ 0) s') u) = tx_output u b s'"
      by (simp add: tx_output_def tx_pending_def)
    then show ?thesis ..
  qed
  moreover have "tx_ready v b2 s' \<and> tx_output v b2 s' = tx_output v b2 s"
    if "v \<noteq> u" "stm32f7_uart_dma_binding v True = Inr b2" "tx_ready v b2 s" for v b2
    using f7_uart_dma.no_crosstalk [OF w(4) that(1) _ that(3)] f7_streams_distinct [OF b that(2)] that(1) by blast
  ultimately show ?thesis using w(1-3) unfolding tx_output_def [of u b s] append_assoc by metis
qed

text \<open>A board with the processor's cache \<open>c\<close>, after reset, with \<open>dr\<close> arriving.\<close>

definition uart_dma_reset :: "dcache \<Rightarrow> u32 list \<Rightarrow> uart_dma" where
  "uart_dma_reset c dr =
     \<lparr>nvic_enabled = \<lambda>_. 0, nvic_pending = \<lambda>_. 0, NVIC_IPR = \<lambda>_. 0, SCB_SHPR1 = 0, SCB_SHPR2 = 0, SCB_SHPR3 = 0,
      cpu_primask = 0, irq_cb = \<lambda>_. None,
      uart_board = \<lparr>BOARD_HSI_FREQ_HZ = 16000000, BOARD_HSE_FREQ_HZ = 8000000, BOARD_HSE_BYPASS = False\<rparr>,
      uart_pinmap = [], uart_gpio = gpio_reset, uart_rcc = \<lparr>RCC_CR = 0x83, RCC_PLLCFGR = 0x24003010, RCC_CFGR = 0, clk_acr = 0\<rparr>,
      RCC_APB1ENR = 0, RCC_APB2ENR = 0, usart_at = \<lambda>_. usart_idle\<lparr>us_dr_reads := dr\<rparr>,
      dma_cache = c, dma_stream = \<lambda>_ _. \<lparr>DMA_CR = 0, DMA_NDTR = 0, DMA_PAR = 0, DMA_M0AR = 0, DMA_FCR = 0x21, dma_reload = 0\<rparr>,
      dma_isr = \<lambda>_ _. 0, stream_cb = \<lambda>_ _. None,
      s_tx_armed = \<lambda>_. False, s_rx_len = \<lambda>_. 0, s_rx_buf = \<lambda>_. 0,
      s_override = \<lambda>_ _. uart_dma_binding DMA1 0 0 0, s_has_override = \<lambda>_ _. False\<rparr>"

lemma reset_idle: "\<not> running b (uart_dma_reset c dr)"
  by (simp add: running_def uart_dma_reset_def)

text \<open>Two bytes of the dirty line of \<open>dirty_cache\<close>, on the console of the Nucleo-F767ZI.\<close>

theorem uart_write_dma_in_order_witness:
  "\<exists>s' k. hal_uart_write_dma f7_wires (Some f767_tcm) f7_uart_dma_ops 3 0x20020025 2 (uart_dma_reset dirty_cache []) = Some (HAL_OK, s') \<and>
     us_sent (usart_at ((dma_item f7_wires DMA1 3 ^^ k) s') 3) = [0x25, 0x26]"
proof -
  let ?s = "uart_dma_reset dirty_cache []" and ?b = "uart_dma_binding DMA1 3 4 (USART3_BASE + 0x28)"
  have b: "stm32f7_uart_dma_binding 3 True = Inr ?b" by (simp add: stm32f7_uart_dma_binding_def usart_addresses)
  have ready: "tx_ready 3 ?b ?s"
    using reset_idle [of ?b dirty_cache "[]"] by (simp add: tx_ready_def tx_stable_def Let_def) (simp add: uart_dma_reset_def)
  have "cache_ok dirty_cache" by (simp add: cache_ok_def dirty_cache_def)
  then have buf: "buffer_ready (Some f767_tcm) 0x20020025 2 ?s"
    by (simp add: buffer_ready_def uart_dma_reset_def navhal_dma_mem_class_def f767_tcm_def NAVHAL_ITCM_BASE_def NAVHAL_DTCM_BASE_def)
  have nz: "(0x20020025 :: u32) \<noteq> 0" "(2 :: u16) \<noteq> 0" by simp_all
  have pend: "us_sent (usart_at ?s 3) = []" "tx_pending ?b ?s = []" "dma_cache ?s = dirty_cache"
    using reset_idle by (simp_all add: tx_pending_def Let_def) (simp_all add: uart_dma_reset_def usart_idle_def)
  have bytes: "bytes_at (cpu_view dirty_cache) 0x20020025 (unat (2 :: u16)) = [0x25, 0x26]"
  proof -
    have two: "unat (2 :: u16) = Suc (Suc 0)" by simp
    show ?thesis unfolding two bytes_at_Suc by (simp add: bytes_at_def cpu_view_def line_of_def) (simp add: dirty_cache_def)
  qed
  from uart_write_dma_in_order [OF b ready buf nz] show ?thesis unfolding pend bytes by auto
qed

text \<open>C22. Reception by DMA. Once a ring has been set up on the F7 and bytes have arrived, any number of them, the index
  reported is where the next will be written; and after the last \<open>n\<close> places before it have been synchronised, which may wrap,
  the processor reads there the last \<open>n\<close> bytes that arrived, in order, cache or no cache.\<close>

theorem uart_ring_reception:
  fixes s :: uart_dma
  assumes b: "stm32f7_uart_dma_binding u False = Inr b" and o: "\<not> s_has_override s u False"
    and i: "hal_uart_init_dma_rx f7_wires port f7_uart_dma_ops u buf ring s = Some (HAL_OK, s1)"
    and bs: "us_dr_reads (usart_at s u) = map ucast bs @ rest"
    and n: "n \<noteq> 0" "n \<le> ring" "unat n \<le> length bs"
    and m: "port = None \<Longrightarrow> \<forall>l. \<not> line_valid (dma_cache s) l" "port \<noteq> None \<Longrightarrow> unat buf + unat ring \<le> 4294967264"
  defines "s2 \<equiv> (dma_item f7_wires (binding_inst b) (binding_stream b) ^^ length bs) s1"
  shows "hal_uart_dma_rx_index (f7_uart_dma_ops :: uart_dma hal_uart_dma_ops) u s2 = Inr (word_of_nat (length bs mod unat ring)) \<and>
    (\<exists>s3. hal_uart_dma_rx_sync port u (word_of_nat ((length bs - unat n) mod unat ring)) n s2 = Some (HAL_OK, s3) \<and>
      (\<forall>j. length bs - unat n \<le> j \<and> j < length bs \<longrightarrow> cpu_view (dma_cache s3) (buf + word_of_nat (j mod unat ring)) = bs ! j))"
proof -
  have "dop_binding (f7_uart_dma_ops :: uart_dma hal_uart_dma_ops) u False = Inr b" using b by (simp add: f7_uart_dma_ops_def)
  from f7_uart_dma.ring_reception [OF this o i bs n m] show ?thesis unfolding s2_def .
qed

text \<open>33 bytes into a ring of one line: the last two are read across the wrap.\<close>

definition arriving :: "u8 list" where
  "arriving = map word_of_nat [1..<34]"

theorem uart_ring_reception_witness:
  "\<exists>s1 s3. hal_uart_init_dma_rx f7_wires (Some f767_tcm) f7_uart_dma_ops 3 0x20030000 32 (uart_dma_reset dirty_cache (map ucast arriving)) = Some (HAL_OK, s1) \<and>
     hal_uart_dma_rx_sync (Some f767_tcm) 3 31 2 ((dma_item f7_wires DMA1 1 ^^ 33) s1) = Some (HAL_OK, s3) \<and>
     cpu_view (dma_cache s3) 0x2003001F = 32 \<and> cpu_view (dma_cache s3) 0x20030000 = 33"
proof -
  let ?s = "uart_dma_reset dirty_cache (map ucast arriving)" and ?b = "uart_dma_binding DMA1 1 4 (USART3_BASE + 0x24)"
  have b: "stm32f7_uart_dma_binding 3 False = Inr ?b" by (simp add: stm32f7_uart_dma_binding_def usart_addresses)
  then have b': "dop_binding (f7_uart_dma_ops :: uart_dma hal_uart_dma_ops) 3 False = Inr ?b" by (simp add: f7_uart_dma_ops_def)
  have o: "\<not> s_has_override ?s 3 False" by (simp add: uart_dma_reset_def)
  have g: "port_rx_guard (Some f767_tcm) 0x20030000 = HAL_OK"
    by (simp add: port_rx_guard_def navhal_dma_rx_guard_def navhal_dma_mem_class_def f767_tcm_def NAVHAL_ITCM_BASE_def NAVHAL_DTCM_BASE_def)
  have "\<exists>s1. hal_uart_init_dma_rx f7_wires (Some f767_tcm) f7_uart_dma_ops 3 0x20030000 32 ?s = Some (HAL_OK, s1)"
    by (rule f7_uart_dma.rx_init_ok [OF b' o _ _ g]) (simp_all add: NAVHAL_CACHE_LINE_def)
  then obtain s1 where i: "hal_uart_init_dma_rx f7_wires (Some f767_tcm) f7_uart_dma_ops 3 0x20030000 32 ?s = Some (HAL_OK, s1)" ..
  have bs: "us_dr_reads (usart_at ?s 3) = map ucast arriving @ []" by (simp add: uart_dma_reset_def)
  have len: "length arriving = 33" "arriving ! 31 = 32" "arriving ! 32 = 33" by (simp_all add: arriving_def)
  have n: "(2 :: u16) \<noteq> 0" "(2 :: u16) \<le> 32" "unat (2 :: u16) \<le> length arriving" using len by simp_all
  have "\<exists>s3. hal_uart_dma_rx_sync (Some f767_tcm) 3 (word_of_nat ((33 - unat (2 :: u16)) mod unat (32 :: u16))) 2 ((dma_item f7_wires DMA1 1 ^^ 33) s1) = Some (HAL_OK, s3) \<and>
      (\<forall>j. 33 - unat (2 :: u16) \<le> j \<and> j < 33 \<longrightarrow> cpu_view (dma_cache s3) (0x20030000 + word_of_nat (j mod unat (32 :: u16))) = arriving ! j)"
    using uart_ring_reception [OF b o i bs n] unfolding len by simp
  then obtain s3 where s3: "hal_uart_dma_rx_sync (Some f767_tcm) 3 31 2 ((dma_item f7_wires DMA1 1 ^^ 33) s1) = Some (HAL_OK, s3)"
    "\<And>j. 31 \<le> j \<Longrightarrow> j < 33 \<Longrightarrow> cpu_view (dma_cache s3) (0x20030000 + word_of_nat (j mod 32)) = arriving ! j" by auto
  have "cpu_view (dma_cache s3) 0x2003001F = 32" "cpu_view (dma_cache s3) 0x20030000 = 33"
    using s3(2) [of 31] s3(2) [of 32] len by simp_all
  then show ?thesis using i s3(1) by blast
qed

end
