(* ===== verification/Rtc.thy ===== *)
theory Rtc
  imports Interrupts Clock
begin

text \<open>
  The real-time clock of the STM32F4: src/vendor/stm32/rtc/rtc.c, the whole of include/common/hal_rtc.h.

  The backup domain is modelled as the reference manual gives it: the domain lock of the power controller,
  the key register, registers that take a write only in initialization mode or while their own flag
  says so, shadow copies of the calendar, a date that reading the time freezes, the alarm comparators, and
  the EXTI line between an alarm and the NVIC. What happens besides, a list of events for each reading
  of a flag in a wait and for the gap between the two reads of a timestamp, is a field of the state;
  how the calendar advances by a second is another. \<open>system_reset\<close> is a reset of the chip that leaves
  the domain powered.
\<close>

section \<open>Registers\<close>

definition RTC_TR_SECOND_SHIFT :: nat where "RTC_TR_SECOND_SHIFT = 0"
definition RTC_TR_MINUTE_SHIFT :: nat where "RTC_TR_MINUTE_SHIFT = 8"
definition RTC_TR_HOUR_SHIFT :: nat where "RTC_TR_HOUR_SHIFT = 16"
definition RTC_DR_DAY_SHIFT :: nat where "RTC_DR_DAY_SHIFT = 0"
definition RTC_DR_MONTH_SHIFT :: nat where "RTC_DR_MONTH_SHIFT = 8"
definition RTC_DR_WEEKDAY_SHIFT :: nat where "RTC_DR_WEEKDAY_SHIFT = 13"
definition RTC_DR_YEAR_SHIFT :: nat where "RTC_DR_YEAR_SHIFT = 16"

lemmas rtc_shift_defs = RTC_TR_SECOND_SHIFT_def RTC_TR_MINUTE_SHIFT_def RTC_TR_HOUR_SHIFT_def RTC_DR_DAY_SHIFT_def
  RTC_DR_MONTH_SHIFT_def RTC_DR_WEEKDAY_SHIFT_def RTC_DR_YEAR_SHIFT_def

definition RTC_CR_WUCKSEL_MASK :: u32 where "RTC_CR_WUCKSEL_MASK = 0x7"
definition RTC_CR_WUCKSEL_DIV16 :: u32 where "RTC_CR_WUCKSEL_DIV16 = 0x0"
definition RTC_CR_WUCKSEL_SPRE :: u32 where "RTC_CR_WUCKSEL_SPRE = 0x4"
definition RTC_CR_BYPSHAD :: u32 where "RTC_CR_BYPSHAD = push_bit 5 1"
definition RTC_CR_FMT :: u32 where "RTC_CR_FMT = push_bit 6 1"
definition RTC_CR_ALRAE :: u32 where "RTC_CR_ALRAE = push_bit 8 1"
definition RTC_CR_ALRBE :: u32 where "RTC_CR_ALRBE = push_bit 9 1"
definition RTC_CR_WUTE :: u32 where "RTC_CR_WUTE = push_bit 10 1"
definition RTC_CR_ALRAIE :: u32 where "RTC_CR_ALRAIE = push_bit 12 1"
definition RTC_CR_ALRBIE :: u32 where "RTC_CR_ALRBIE = push_bit 13 1"
definition RTC_CR_WUTIE :: u32 where "RTC_CR_WUTIE = push_bit 14 1"

lemmas rtc_cr_defs = RTC_CR_WUCKSEL_MASK_def RTC_CR_WUCKSEL_DIV16_def RTC_CR_WUCKSEL_SPRE_def RTC_CR_BYPSHAD_def
  RTC_CR_FMT_def RTC_CR_ALRAE_def RTC_CR_ALRBE_def RTC_CR_WUTE_def RTC_CR_ALRAIE_def RTC_CR_ALRBIE_def RTC_CR_WUTIE_def

definition RTC_ISR_ALRAWF :: u32 where "RTC_ISR_ALRAWF = push_bit 0 1"
definition RTC_ISR_ALRBWF :: u32 where "RTC_ISR_ALRBWF = push_bit 1 1"
definition RTC_ISR_WUTWF :: u32 where "RTC_ISR_WUTWF = push_bit 2 1"
definition RTC_ISR_INITS :: u32 where "RTC_ISR_INITS = push_bit 4 1"
definition RTC_ISR_RSF :: u32 where "RTC_ISR_RSF = push_bit 5 1"
definition RTC_ISR_INITF :: u32 where "RTC_ISR_INITF = push_bit 6 1"
definition RTC_ISR_INIT :: u32 where "RTC_ISR_INIT = push_bit 7 1"
definition RTC_ISR_ALRAF :: u32 where "RTC_ISR_ALRAF = push_bit 8 1"
definition RTC_ISR_ALRBF :: u32 where "RTC_ISR_ALRBF = push_bit 9 1"
definition RTC_ISR_WUTF :: u32 where "RTC_ISR_WUTF = push_bit 10 1"

lemmas rtc_isr_defs = RTC_ISR_ALRAWF_def RTC_ISR_ALRBWF_def RTC_ISR_WUTWF_def RTC_ISR_INITS_def RTC_ISR_RSF_def
  RTC_ISR_INITF_def RTC_ISR_INIT_def RTC_ISR_ALRAF_def RTC_ISR_ALRBF_def RTC_ISR_WUTF_def

definition RTC_ALRM_SECOND_SHIFT :: nat where "RTC_ALRM_SECOND_SHIFT = 0"
definition RTC_ALRM_MINUTE_SHIFT :: nat where "RTC_ALRM_MINUTE_SHIFT = 8"
definition RTC_ALRM_HOUR_SHIFT :: nat where "RTC_ALRM_HOUR_SHIFT = 16"
definition RTC_ALRM_DAY_SHIFT :: nat where "RTC_ALRM_DAY_SHIFT = 24"
definition RTC_ALRM_MSK_SECOND :: u32 where "RTC_ALRM_MSK_SECOND = push_bit 7 1"
definition RTC_ALRM_MSK_MINUTE :: u32 where "RTC_ALRM_MSK_MINUTE = push_bit 15 1"
definition RTC_ALRM_MSK_HOUR :: u32 where "RTC_ALRM_MSK_HOUR = push_bit 23 1"
definition RTC_ALRM_MSK_DAY :: u32 where "RTC_ALRM_MSK_DAY = push_bit 31 1"
definition RTC_ALRM_WDSEL :: u32 where "RTC_ALRM_WDSEL = push_bit 30 1"

lemmas rtc_alrm_defs = RTC_ALRM_SECOND_SHIFT_def RTC_ALRM_MINUTE_SHIFT_def RTC_ALRM_HOUR_SHIFT_def RTC_ALRM_DAY_SHIFT_def
  RTC_ALRM_MSK_SECOND_def RTC_ALRM_MSK_MINUTE_def RTC_ALRM_MSK_HOUR_def RTC_ALRM_MSK_DAY_def RTC_ALRM_WDSEL_def

definition RTC_PRER_SYNC :: "u32 \<Rightarrow> u32" where "RTC_PRER_SYNC x = x AND 0x7FFF"
definition RTC_PRER_ASYNC :: "u32 \<Rightarrow> u32" where "RTC_PRER_ASYNC x = push_bit 16 (x AND 0x7F)"

definition RTC_WPR_KEY1 :: u32 where "RTC_WPR_KEY1 = 0xCA"
definition RTC_WPR_KEY2 :: u32 where "RTC_WPR_KEY2 = 0x53"
definition RTC_WPR_LOCK :: u32 where "RTC_WPR_LOCK = 0xFF"

definition RCC_BDCR_LSEON :: u32 where "RCC_BDCR_LSEON = push_bit 0 1"
definition RCC_BDCR_LSERDY :: u32 where "RCC_BDCR_LSERDY = push_bit 1 1"
definition RCC_BDCR_RTCSEL_MASK :: u32 where "RCC_BDCR_RTCSEL_MASK = push_bit 8 0x3"
definition RCC_BDCR_RTCSEL_LSE :: u32 where "RCC_BDCR_RTCSEL_LSE = push_bit 8 0x1"
definition RCC_BDCR_RTCSEL_LSI :: u32 where "RCC_BDCR_RTCSEL_LSI = push_bit 8 0x2"
definition RCC_BDCR_RTCEN :: u32 where "RCC_BDCR_RTCEN = push_bit 15 1"
definition RCC_BDCR_BDRST :: u32 where "RCC_BDCR_BDRST = push_bit 16 1"

lemmas rcc_bdcr_defs = RCC_BDCR_LSEON_def RCC_BDCR_LSERDY_def RCC_BDCR_RTCSEL_MASK_def RCC_BDCR_RTCSEL_LSE_def
  RCC_BDCR_RTCSEL_LSI_def RCC_BDCR_RTCEN_def RCC_BDCR_BDRST_def

definition RCC_CSR_LSION :: u32 where "RCC_CSR_LSION = push_bit 0 1"
definition RCC_CSR_LSIRDY :: u32 where "RCC_CSR_LSIRDY = push_bit 1 1"
definition PWR_CR_DBP :: u32 where "PWR_CR_DBP = push_bit 8 1"
definition RCC_APB1ENR_PWREN :: u32 where "RCC_APB1ENR_PWREN = push_bit 28 1"

lemmas rtc_power_defs = RCC_CSR_LSION_def RCC_CSR_LSIRDY_def PWR_CR_DBP_def RCC_APB1ENR_PWREN_def

definition EXTI_LINE_RTC_ALARM :: u32 where "EXTI_LINE_RTC_ALARM = push_bit 17 1"
definition EXTI_LINE_RTC_WAKEUP :: u32 where "EXTI_LINE_RTC_WAKEUP = push_bit 22 1"
definition RTC_WKUP_IRQn :: int where "RTC_WKUP_IRQn = 3"
definition RTC_Alarm_IRQn :: int where "RTC_Alarm_IRQn = 41"

section \<open>Types and state\<close>

definition HAL_RTC_BACKUP_COUNT :: u8 where "HAL_RTC_BACKUP_COUNT = 20"

datatype hal_rtc_clock = HAL_RTC_CLOCK_AUTO | HAL_RTC_CLOCK_LSE | HAL_RTC_CLOCK_LSI | HAL_RTC_CLOCK_NONE

record hal_rtc_config =
  rc_clock :: hal_rtc_clock
  rc_lse_timeout_ms :: u16

record hal_rtc_datetime =
  dt_year :: u16
  dt_month :: u8
  dt_day :: u8
  dt_weekday :: u8
  dt_hour :: u8
  dt_minute :: u8
  dt_second :: u8

definition HAL_RTC_ALARM_A :: nat where "HAL_RTC_ALARM_A = 0"
definition HAL_RTC_ALARM_B :: nat where "HAL_RTC_ALARM_B = 1"

definition HAL_RTC_MATCH_SECOND :: u8 where "HAL_RTC_MATCH_SECOND = push_bit 0 1"
definition HAL_RTC_MATCH_MINUTE :: u8 where "HAL_RTC_MATCH_MINUTE = push_bit 1 1"
definition HAL_RTC_MATCH_HOUR :: u8 where "HAL_RTC_MATCH_HOUR = push_bit 2 1"
definition HAL_RTC_MATCH_DAY :: u8 where "HAL_RTC_MATCH_DAY = push_bit 3 1"

record hal_rtc_alarm_config =
  ac_day :: u8
  ac_hour :: u8
  ac_minute :: u8
  ac_second :: u8
  ac_match :: u8
  ac_day_is_weekday :: bool

text \<open>What the hardware may do between two instructions that look at it.\<close>

datatype rtc_event =
    LseStarts
  | LsiStarts
  | InitModeEntered
  | ShadowsCopied
  | SecondPassed
  | AlarmMayBeWritten nat
  | WakeupMayBeWritten
  | WakeupExpires

text \<open>
  \<open>rtc_wpr\<close> counts the keys written in order, 2 when the registers are open. INITS is no stored bit: it
  reads as whether the year is other than 0.
\<close>

record rtc_dev = nvic +
  rtc_board :: clock_board
  rtc_rcc :: rcc
  rtc_next :: "u32 \<times> u32 \<Rightarrow> u32 \<times> u32"
  rtc_events :: "rtc_event list list"
  RTC_APB1ENR :: u32
  PWR_CR :: u32
  RCC_BDCR :: u32
  RCC_CSR :: u32
  rtc_calendar :: "u32 \<times> u32"
  rtc_shadow :: "u32 \<times> u32"
  rtc_dr_frozen :: bool
  RTC_CR :: u32
  rtc_isr :: u32
  RTC_PRER :: u32
  RTC_WUTR :: u32
  RTC_ALRMAR :: u32
  RTC_ALRMBR :: u32
  rtc_wpr :: nat
  RTC_BKPR :: "nat \<Rightarrow> u32"
  EXTI_IMR :: u32
  EXTI_RTSR :: u32
  EXTI_PR :: u32
  rtc_ready :: bool
  alarm_cb :: "nat \<Rightarrow> callback option"
  wakeup_cb :: "callback option"

section \<open>The hardware\<close>

definition backup_open :: "rtc_dev \<Rightarrow> bool" where
  "backup_open s \<longleftrightarrow> PWR_CR s AND PWR_CR_DBP \<noteq> 0"

definition rtc_open :: "rtc_dev \<Rightarrow> bool" where
  "rtc_open s \<longleftrightarrow> backup_open s \<and> rtc_wpr s = 2"

definition PWR_CR_write :: "u32 \<Rightarrow> rtc_dev \<Rightarrow> rtc_dev" where
  "PWR_CR_write v s = (if RTC_APB1ENR s AND RCC_APB1ENR_PWREN \<noteq> 0 then s\<lparr>PWR_CR := v\<rparr> else s)"

text \<open>The reset of the backup domain, and BDCR, whose selection takes a value once.\<close>

definition rtc_domain_reset :: "rtc_dev \<Rightarrow> rtc_dev" where
  "rtc_domain_reset s =
     s\<lparr>RCC_BDCR := RCC_BDCR_BDRST, rtc_calendar := (0, 0x2101), rtc_shadow := (0, 0x2101), rtc_dr_frozen := False,
       RTC_CR := 0, rtc_isr := 0x7, RTC_PRER := 0x7F00FF, RTC_WUTR := 0xFFFF, RTC_ALRMAR := 0, RTC_ALRMBR := 0,
       rtc_wpr := 0, RTC_BKPR := (\<lambda>_. 0)\<rparr>"

definition bdcr_written :: "u32 \<Rightarrow> u32 \<Rightarrow> u32" where
  "bdcr_written old v =
     (v AND (RCC_BDCR_LSEON OR RCC_BDCR_RTCEN)) OR
     ((if old AND RCC_BDCR_RTCSEL_MASK = 0 then v else old) AND RCC_BDCR_RTCSEL_MASK) OR
     (if v AND RCC_BDCR_LSEON \<noteq> 0 then old AND RCC_BDCR_LSERDY else 0)"

definition RCC_BDCR_write :: "u32 \<Rightarrow> rtc_dev \<Rightarrow> rtc_dev" where
  "RCC_BDCR_write v s =
     (if \<not> backup_open s then s
      else if v AND RCC_BDCR_BDRST \<noteq> 0 then rtc_domain_reset s
      else s\<lparr>RCC_BDCR := bdcr_written (RCC_BDCR s) v\<rparr>)"

definition RCC_CSR_write :: "u32 \<Rightarrow> rtc_dev \<Rightarrow> rtc_dev" where
  "RCC_CSR_write v s =
     s\<lparr>RCC_CSR := (v AND RCC_CSR_LSION) OR (if v AND RCC_CSR_LSION \<noteq> 0 then RCC_CSR s AND RCC_CSR_LSIRDY else 0)\<rparr>"

definition RTC_WPR_write :: "u32 \<Rightarrow> rtc_dev \<Rightarrow> rtc_dev" where
  "RTC_WPR_write k s =
     (if \<not> backup_open s then s
      else s\<lparr>rtc_wpr := (if k = RTC_WPR_KEY1 then 1 else if k = RTC_WPR_KEY2 \<and> rtc_wpr s = 1 then 2 else 0)\<rparr>)"

definition year_field :: "u32 \<Rightarrow> u32" where
  "year_field dr = drop_bit 16 dr AND 0xFF"

definition RTC_ISR_read :: "rtc_dev \<Rightarrow> u32" where
  "RTC_ISR_read s =
     (rtc_isr s AND NOT RTC_ISR_INITS) OR (if year_field (snd (rtc_calendar s)) \<noteq> 0 then RTC_ISR_INITS else 0)"

definition isr_flag :: "u32 \<Rightarrow> rtc_dev \<Rightarrow> bool" where
  "isr_flag k s \<longleftrightarrow> RTC_ISR_read s AND k \<noteq> 0"

text \<open>The event flags are outside the key's protection and fall on a written 0; RSF and INIT are inside,
  and leaving initialization mode drops its flag.\<close>

definition isr_written :: "bool \<Rightarrow> u32 \<Rightarrow> u32 \<Rightarrow> u32" where
  "isr_written key old v =
     (let flags = RTC_ISR_ALRAF OR RTC_ISR_ALRBF OR RTC_ISR_WUTF; r = old AND (NOT flags OR v) in
      if key then (r AND (NOT RTC_ISR_RSF OR v) AND NOT RTC_ISR_INIT AND (if v AND RTC_ISR_INIT = 0 then NOT RTC_ISR_INITF else NOT 0))
                  OR (v AND RTC_ISR_INIT)
      else r)"

definition RTC_ISR_write :: "u32 \<Rightarrow> rtc_dev \<Rightarrow> rtc_dev" where
  "RTC_ISR_write v s = (if backup_open s then s\<lparr>rtc_isr := isr_written (rtc_wpr s = 2) (rtc_isr s) v\<rparr> else s)"

definition RTC_TR_write :: "u32 \<Rightarrow> rtc_dev \<Rightarrow> rtc_dev" where
  "RTC_TR_write v s =
     (if rtc_open s \<and> isr_flag RTC_ISR_INITF s then s\<lparr>rtc_calendar := (v, snd (rtc_calendar s))\<rparr> else s)"

definition RTC_DR_write :: "u32 \<Rightarrow> rtc_dev \<Rightarrow> rtc_dev" where
  "RTC_DR_write v s =
     (if rtc_open s \<and> isr_flag RTC_ISR_INITF s then s\<lparr>rtc_calendar := (fst (rtc_calendar s), v)\<rparr> else s)"

definition RTC_PRER_write :: "u32 \<Rightarrow> rtc_dev \<Rightarrow> rtc_dev" where
  "RTC_PRER_write v s = (if rtc_open s \<and> isr_flag RTC_ISR_INITF s then s\<lparr>RTC_PRER := v\<rparr> else s)"

text \<open>An armed alarm or wakeup timer closes its own registers; FMT takes a write in initialization mode.\<close>

definition RTC_CR_write :: "u32 \<Rightarrow> rtc_dev \<Rightarrow> rtc_dev" where
  "RTC_CR_write v s =
     (if \<not> rtc_open s then s
      else let keep = (if isr_flag RTC_ISR_INITF s then 0 else RTC_CR_FMT) OR
                      (if isr_flag RTC_ISR_WUTWF s then 0 else RTC_CR_WUCKSEL_MASK);
               shut = (if v AND RTC_CR_ALRAE \<noteq> 0 then RTC_ISR_ALRAWF else 0) OR
                      (if v AND RTC_CR_ALRBE \<noteq> 0 then RTC_ISR_ALRBWF else 0) OR
                      (if v AND RTC_CR_WUTE \<noteq> 0 then RTC_ISR_WUTWF else 0)
           in s\<lparr>RTC_CR := (v AND NOT keep) OR (RTC_CR s AND keep), rtc_isr := rtc_isr s AND NOT shut\<rparr>)"

definition RTC_ALRMAR_write :: "u32 \<Rightarrow> rtc_dev \<Rightarrow> rtc_dev" where
  "RTC_ALRMAR_write v s = (if rtc_open s \<and> isr_flag RTC_ISR_ALRAWF s then s\<lparr>RTC_ALRMAR := v\<rparr> else s)"

definition RTC_ALRMBR_write :: "u32 \<Rightarrow> rtc_dev \<Rightarrow> rtc_dev" where
  "RTC_ALRMBR_write v s = (if rtc_open s \<and> isr_flag RTC_ISR_ALRBWF s then s\<lparr>RTC_ALRMBR := v\<rparr> else s)"

definition RTC_WUTR_write :: "u32 \<Rightarrow> rtc_dev \<Rightarrow> rtc_dev" where
  "RTC_WUTR_write v s = (if rtc_open s \<and> isr_flag RTC_ISR_WUTWF s then s\<lparr>RTC_WUTR := v\<rparr> else s)"

definition RTC_BKPR_write :: "nat \<Rightarrow> u32 \<Rightarrow> rtc_dev \<Rightarrow> rtc_dev" where
  "RTC_BKPR_write i v s = (if backup_open s then s\<lparr>RTC_BKPR := (RTC_BKPR s)(i := v)\<rparr> else s)"

text \<open>Reading the time freezes the copy of the date until that is read.\<close>

definition RTC_TR_read :: "rtc_dev \<Rightarrow> u32 \<times> rtc_dev" where
  "RTC_TR_read s =
     (if RTC_CR s AND RTC_CR_BYPSHAD \<noteq> 0 then (fst (rtc_calendar s), s)
      else (fst (rtc_shadow s), s\<lparr>rtc_dr_frozen := True\<rparr>))"

definition RTC_DR_read :: "rtc_dev \<Rightarrow> u32 \<times> rtc_dev" where
  "RTC_DR_read s =
     (if RTC_CR s AND RTC_CR_BYPSHAD \<noteq> 0 then (snd (rtc_calendar s), s)
      else (snd (rtc_shadow s), s\<lparr>rtc_dr_frozen := False\<rparr>))"

definition EXTI_PR_write :: "u32 \<Rightarrow> rtc_dev \<Rightarrow> rtc_dev" where
  "EXTI_PR_write v s = s\<lparr>EXTI_PR := EXTI_PR s AND NOT v\<rparr>"

text \<open>A pulse on an EXTI line that is listened to: it pends, and reaches the NVIC, if it was not pending.\<close>

definition exti_pulse :: "u32 \<Rightarrow> int \<Rightarrow> rtc_dev \<Rightarrow> rtc_dev" where
  "exti_pulse line irq s =
     (if EXTI_RTSR s AND line \<noteq> 0 \<and> EXTI_IMR s AND line \<noteq> 0 \<and> EXTI_PR s AND line = 0
      then s\<lparr>EXTI_PR := EXTI_PR s OR line,
             nvic_pending := (nvic_pending s)(nat irq div 32 := nvic_pending s (nat irq div 32) OR push_bit (nat irq mod 32) 1)\<rparr>
      else s)"

text \<open>The comparator of an alarm register.\<close>

definition alarm_hits :: "u32 \<Rightarrow> u32 \<times> u32 \<Rightarrow> bool" where
  "alarm_hits r c \<longleftrightarrow>
     (r AND RTC_ALRM_MSK_SECOND \<noteq> 0 \<or> r AND 0x7F = fst c AND 0x7F) \<and>
     (r AND RTC_ALRM_MSK_MINUTE \<noteq> 0 \<or> drop_bit 8 r AND 0x7F = drop_bit 8 (fst c) AND 0x7F) \<and>
     (r AND RTC_ALRM_MSK_HOUR \<noteq> 0 \<or> drop_bit 16 r AND 0x7F = drop_bit 16 (fst c) AND 0x7F) \<and>
     (r AND RTC_ALRM_MSK_DAY \<noteq> 0 \<or>
      (if r AND RTC_ALRM_WDSEL \<noteq> 0 then drop_bit 24 r AND 0xF = drop_bit 13 (snd c) AND 0x7
       else drop_bit 24 r AND 0x3F = snd c AND 0x3F))"

text \<open>The bits of an alarm, chosen in the code by the same comparison.\<close>

definition alarm_enable :: "nat \<Rightarrow> u32" where
  "alarm_enable a = (if a = HAL_RTC_ALARM_A then RTC_CR_ALRAE else RTC_CR_ALRBE)"
definition alarm_irq_en :: "nat \<Rightarrow> u32" where
  "alarm_irq_en a = (if a = HAL_RTC_ALARM_A then RTC_CR_ALRAIE else RTC_CR_ALRBIE)"
definition alarm_writable :: "nat \<Rightarrow> u32" where
  "alarm_writable a = (if a = HAL_RTC_ALARM_A then RTC_ISR_ALRAWF else RTC_ISR_ALRBWF)"
definition alarm_flag :: "nat \<Rightarrow> u32" where
  "alarm_flag a = (if a = HAL_RTC_ALARM_A then RTC_ISR_ALRAF else RTC_ISR_ALRBF)"

lemmas alarm_bit_defs = alarm_enable_def alarm_irq_en_def alarm_writable_def alarm_flag_def

definition alarm_reg :: "nat \<Rightarrow> rtc_dev \<Rightarrow> u32" where
  "alarm_reg a s = (if a = HAL_RTC_ALARM_A then RTC_ALRMAR s else RTC_ALRMBR s)"

definition alarm_compare :: "nat \<Rightarrow> rtc_dev \<Rightarrow> rtc_dev" where
  "alarm_compare a s =
     (if RTC_CR s AND alarm_enable a \<noteq> 0 \<and> alarm_hits (alarm_reg a s) (rtc_calendar s)
      then let s1 = s\<lparr>rtc_isr := rtc_isr s OR alarm_flag a\<rparr> in
        if RTC_CR s AND alarm_irq_en a \<noteq> 0 then exti_pulse EXTI_LINE_RTC_ALARM RTC_Alarm_IRQn s1 else s1
      else s)"

definition calendar_runs :: "rtc_dev \<Rightarrow> bool" where
  "calendar_runs s \<longleftrightarrow> RCC_BDCR s AND RCC_BDCR_RTCEN \<noteq> 0 \<and> \<not> isr_flag RTC_ISR_INITF s"

primrec rtc_happens :: "rtc_event \<Rightarrow> rtc_dev \<Rightarrow> rtc_dev" where
  "rtc_happens LseStarts s =
     (if RCC_BDCR s AND RCC_BDCR_LSEON \<noteq> 0 then s\<lparr>RCC_BDCR := RCC_BDCR s OR RCC_BDCR_LSERDY\<rparr> else s)"
| "rtc_happens LsiStarts s =
     (if RCC_CSR s AND RCC_CSR_LSION \<noteq> 0 then s\<lparr>RCC_CSR := RCC_CSR s OR RCC_CSR_LSIRDY\<rparr> else s)"
| "rtc_happens InitModeEntered s =
     (if isr_flag RTC_ISR_INIT s then s\<lparr>rtc_isr := (rtc_isr s OR RTC_ISR_INITF) AND NOT RTC_ISR_RSF\<rparr> else s)"
| "rtc_happens ShadowsCopied s =
     (if calendar_runs s
      then s\<lparr>rtc_shadow := (fst (rtc_calendar s), if rtc_dr_frozen s then snd (rtc_shadow s) else snd (rtc_calendar s)),
             rtc_isr := rtc_isr s OR RTC_ISR_RSF\<rparr>
      else s)"
| "rtc_happens SecondPassed s =
     (if calendar_runs s
      then alarm_compare HAL_RTC_ALARM_B (alarm_compare HAL_RTC_ALARM_A (s\<lparr>rtc_calendar := rtc_next s (rtc_calendar s)\<rparr>))
      else s)"
| "rtc_happens (AlarmMayBeWritten a) s =
     (if RTC_CR s AND alarm_enable a = 0 then s\<lparr>rtc_isr := rtc_isr s OR alarm_writable a\<rparr> else s)"
| "rtc_happens WakeupMayBeWritten s =
     (if RTC_CR s AND RTC_CR_WUTE = 0 then s\<lparr>rtc_isr := rtc_isr s OR RTC_ISR_WUTWF\<rparr> else s)"
| "rtc_happens WakeupExpires s =
     (if RTC_CR s AND RTC_CR_WUTE \<noteq> 0
      then let s1 = s\<lparr>rtc_isr := rtc_isr s OR RTC_ISR_WUTF\<rparr> in
        if RTC_CR s AND RTC_CR_WUTIE \<noteq> 0 then exti_pulse EXTI_LINE_RTC_WAKEUP RTC_WKUP_IRQn s1 else s1
      else s)"

definition rtc_hw :: "rtc_dev \<Rightarrow> rtc_dev" where
  "rtc_hw s = (case rtc_events s of [] \<Rightarrow> s | es # rest \<Rightarrow> fold rtc_happens es (s\<lparr>rtc_events := rest\<rparr>))"

text \<open>A reset of the chip with the domain powered.\<close>

definition system_reset :: "rtc_dev \<Rightarrow> rtc_dev" where
  "system_reset s =
     s\<lparr>nvic_enabled := (\<lambda>_. 0), nvic_pending := (\<lambda>_. 0), irq_cb := (\<lambda>_. None), rtc_rcc := rcc_reset,
       RTC_APB1ENR := 0, PWR_CR := 0, RCC_CSR := 0, rtc_shadow := (0, 0x2101), rtc_dr_frozen := False,
       rtc_isr := rtc_isr s AND NOT (RTC_ISR_INIT OR RTC_ISR_INITF OR RTC_ISR_RSF),
       EXTI_IMR := 0, EXTI_RTSR := 0, EXTI_PR := 0, rtc_ready := False, alarm_cb := (\<lambda>_. None), wakeup_cb := None\<rparr>"

section \<open>The driver\<close>

definition LSE_DEFAULT_TIMEOUT_MS :: u32 where "LSE_DEFAULT_TIMEOUT_MS = 5000"
definition CYCLES_PER_POLL :: u32 where "CYCLES_PER_POLL = 10"
definition LSI_TIMEOUT_SPINS :: u32 where "LSI_TIMEOUT_SPINS = 100000"
definition RTC_TIMEOUT_SPINS :: u32 where "RTC_TIMEOUT_SPINS = 2000000"
definition PRESCALER_ASYNC :: u32 where "PRESCALER_ASYNC = 127"
definition PRESCALER_SYNC_LSE :: u32 where "PRESCALER_SYNC_LSE = 255"
definition PRESCALER_SYNC_LSI :: u32 where "PRESCALER_SYNC_LSI = 249"

text \<open>\<open>WAIT_OR_TIMEOUT(cond, spins)\<close>: the counter is decremented before it is compared, so 0 is a full turn.\<close>

definition rtc_wait :: "(rtc_dev \<Rightarrow> bool) \<Rightarrow> u32 \<Rightarrow> rtc_dev \<Rightarrow> hal_status \<times> rtc_dev" where
  "rtc_wait waiting spins s = wait_or_timeout rtc_hw waiting (if spins = 0 then 2 ^ 32 else unat spins) s"

definition to_bcd :: "u8 \<Rightarrow> u8" where
  "to_bcd v = push_bit 4 (v div 10) OR v mod 10"

definition from_bcd :: "u8 \<Rightarrow> u8" where
  "from_bcd v = drop_bit 4 v * 10 + (v AND 0x0F)"

definition write_unlock :: "rtc_dev \<Rightarrow> rtc_dev" where
  "write_unlock s = RTC_WPR_write RTC_WPR_KEY2 (RTC_WPR_write RTC_WPR_KEY1 s)"

definition write_lock :: "rtc_dev \<Rightarrow> rtc_dev" where
  "write_lock s = RTC_WPR_write RTC_WPR_LOCK s"

definition init_enter :: "rtc_dev \<Rightarrow> hal_status \<times> rtc_dev" where
  "init_enter s =
     rtc_wait (\<lambda>t. \<not> isr_flag RTC_ISR_INITF t) RTC_TIMEOUT_SPINS (RTC_ISR_write (RTC_ISR_read s OR RTC_ISR_INIT) s)"

definition init_exit :: "rtc_dev \<Rightarrow> rtc_dev" where
  "init_exit s = RTC_ISR_write (RTC_ISR_read s AND NOT RTC_ISR_INIT) s"

definition clear_flag :: "u32 \<Rightarrow> rtc_dev \<Rightarrow> rtc_dev" where
  "clear_flag flag s = RTC_ISR_write (NOT (flag OR RTC_ISR_INIT)) s"

definition wait_sync :: "rtc_dev \<Rightarrow> hal_status \<times> rtc_dev" where
  "wait_sync s =
     rtc_wait (\<lambda>t. \<not> isr_flag RTC_ISR_RSF t) RTC_TIMEOUT_SPINS (RTC_ISR_write (RTC_ISR_read s AND NOT RTC_ISR_RSF) s)"

definition lse_spins :: "u16 \<Rightarrow> u32 \<Rightarrow> u32" where
  "lse_spins timeout_ms sysclk =
     (let ms = (if timeout_ms \<noteq> 0 then ucast timeout_ms else LSE_DEFAULT_TIMEOUT_MS);
          sysclk = (if sysclk = 0 then 16000000 else sysclk)
      in sysclk div 1000 * ms div CYCLES_PER_POLL)"

definition start_lse :: "u16 \<Rightarrow> rtc_dev \<Rightarrow> hal_status \<times> rtc_dev" where
  "start_lse timeout_ms s =
     rtc_wait (\<lambda>t. RCC_BDCR t AND RCC_BDCR_LSERDY = 0) (lse_spins timeout_ms (hal_clock_get_sysclk (rtc_board s) (rtc_rcc s)))
       (RCC_BDCR_write (RCC_BDCR s OR RCC_BDCR_LSEON) s)"

definition start_lsi :: "rtc_dev \<Rightarrow> hal_status \<times> rtc_dev" where
  "start_lsi s =
     rtc_wait (\<lambda>t. RCC_CSR t AND RCC_CSR_LSIRDY = 0) LSI_TIMEOUT_SPINS (RCC_CSR_write (RCC_CSR s OR RCC_CSR_LSION) s)"

text \<open>\<open>hal_rtc_init\<close>: the domain reset and configuration, the choice of an oscillator, and the adoption of a
  running calendar.\<close>

definition rtc_program :: "u32 \<Rightarrow> rtc_dev \<Rightarrow> hal_status \<times> rtc_dev" where
  "rtc_program sync s0 =
     (let s = write_unlock s0 in
      case init_enter s of (st, s) \<Rightarrow>
        if st \<noteq> HAL_OK then (st, write_lock s)
        else let s = RTC_PRER_write (RTC_PRER_ASYNC PRESCALER_ASYNC OR RTC_PRER_SYNC sync) s;
                 s = RTC_CR_write (RTC_CR s AND NOT (RTC_CR_FMT OR RTC_CR_BYPSHAD)) s;
                 s = init_exit s
             in case wait_sync s of (st, s) \<Rightarrow>
               let s = write_lock s in if st \<noteq> HAL_OK then (st, s) else (HAL_OK, s\<lparr>rtc_ready := True\<rparr>))"

definition rtc_configure :: "u32 \<Rightarrow> u32 \<Rightarrow> u16 \<Rightarrow> rtc_dev \<Rightarrow> hal_status \<times> rtc_dev" where
  "rtc_configure source sync timeout_ms s =
     (let s = RCC_BDCR_write (RCC_BDCR s OR RCC_BDCR_BDRST) s;
          s = RCC_BDCR_write (RCC_BDCR s AND NOT RCC_BDCR_BDRST) s
      in ok_or_return (if source = RCC_BDCR_RTCSEL_LSE then start_lse timeout_ms s else (HAL_OK, s)) (\<lambda>s.
        let s = RCC_BDCR_write ((RCC_BDCR s AND NOT RCC_BDCR_RTCSEL_MASK) OR source) s;
            s = RCC_BDCR_write (RCC_BDCR s OR RCC_BDCR_RTCEN) s
        in rtc_program sync s))"

definition rtc_cold_start :: "hal_rtc_clock \<Rightarrow> u16 \<Rightarrow> rtc_dev \<Rightarrow> hal_status \<times> rtc_dev" where
  "rtc_cold_start want timeout_ms s =
     (let lsi = (\<lambda>s. ok_or_return (start_lsi s) (rtc_configure RCC_BDCR_RTCSEL_LSI PRESCALER_SYNC_LSI timeout_ms)) in
      if want = HAL_RTC_CLOCK_LSE \<or> want = HAL_RTC_CLOCK_AUTO then
        (case start_lse timeout_ms s of (st, s) \<Rightarrow>
           if st = HAL_OK then rtc_configure RCC_BDCR_RTCSEL_LSE PRESCALER_SYNC_LSE timeout_ms s
           else if want = HAL_RTC_CLOCK_LSE then (st, s)
           else lsi (RCC_BDCR_write (RCC_BDCR s AND NOT RCC_BDCR_LSEON) s))
      else lsi s)"

definition rtc_adopt :: "u32 \<Rightarrow> u16 \<Rightarrow> rtc_dev \<Rightarrow> hal_status \<times> rtc_dev" where
  "rtc_adopt running timeout_ms s =
     ok_or_return
       (if running = RCC_BDCR_RTCSEL_LSI then start_lsi s
        else if RCC_BDCR s AND RCC_BDCR_LSERDY = 0 then start_lse timeout_ms s
        else (HAL_OK, s))
       (\<lambda>s. wait_sync (s\<lparr>rtc_ready := True\<rparr>))"

definition rtc_mismatch :: "hal_rtc_clock \<Rightarrow> u32 \<Rightarrow> bool" where
  "rtc_mismatch want running \<longleftrightarrow>
     want = HAL_RTC_CLOCK_LSE \<and> running \<noteq> RCC_BDCR_RTCSEL_LSE \<or> want = HAL_RTC_CLOCK_LSI \<and> running \<noteq> RCC_BDCR_RTCSEL_LSI"

definition rtc_power :: "rtc_dev \<Rightarrow> rtc_dev" where
  "rtc_power s =
     (let s = s\<lparr>RTC_APB1ENR := RTC_APB1ENR s OR RCC_APB1ENR_PWREN\<rparr> in PWR_CR_write (PWR_CR s OR PWR_CR_DBP) s)"

definition hal_rtc_init :: "hal_rtc_config option \<Rightarrow> rtc_dev \<Rightarrow> hal_status \<times> rtc_dev" where
  "hal_rtc_init cfg s0 =
     (let want = (case cfg of None \<Rightarrow> HAL_RTC_CLOCK_AUTO | Some c \<Rightarrow> rc_clock c);
          timeout_ms = (case cfg of None \<Rightarrow> 0 | Some c \<Rightarrow> rc_lse_timeout_ms c);
          s = rtc_power s0;
          running = RCC_BDCR s AND RCC_BDCR_RTCSEL_MASK
      in if RCC_BDCR s AND RCC_BDCR_RTCEN \<noteq> 0 \<and> isr_flag RTC_ISR_INITS s \<and> \<not> rtc_mismatch want running
         then rtc_adopt running timeout_ms s
         else rtc_cold_start want timeout_ms s)"

text \<open>The calendar.\<close>

definition datetime_valid :: "hal_rtc_datetime \<Rightarrow> bool" where
  "datetime_valid dt \<longleftrightarrow>
     \<not> (dt_year dt < 2000 \<or> dt_year dt > 2099 \<or> dt_month dt < 1 \<or> dt_month dt > 12 \<or> dt_day dt < 1 \<or> dt_day dt > 31 \<or>
        dt_weekday dt < 1 \<or> dt_weekday dt > 7 \<or> dt_hour dt > 23 \<or> dt_minute dt > 59 \<or> dt_second dt > 59)"

definition encode_tr :: "hal_rtc_datetime \<Rightarrow> u32" where
  "encode_tr dt =
     push_bit RTC_TR_HOUR_SHIFT (ucast (to_bcd (dt_hour dt))) OR push_bit RTC_TR_MINUTE_SHIFT (ucast (to_bcd (dt_minute dt))) OR
     push_bit RTC_TR_SECOND_SHIFT (ucast (to_bcd (dt_second dt)))"

definition encode_dr :: "hal_rtc_datetime \<Rightarrow> u32" where
  "encode_dr dt =
     push_bit RTC_DR_YEAR_SHIFT (ucast (to_bcd (ucast (dt_year dt - 2000)))) OR push_bit RTC_DR_WEEKDAY_SHIFT (ucast (dt_weekday dt)) OR
     push_bit RTC_DR_MONTH_SHIFT (ucast (to_bcd (dt_month dt))) OR push_bit RTC_DR_DAY_SHIFT (ucast (to_bcd (dt_day dt)))"

definition hal_rtc_set_datetime :: "hal_rtc_datetime option \<Rightarrow> rtc_dev \<Rightarrow> hal_status \<times> rtc_dev" where
  "hal_rtc_set_datetime arg s =
     (if \<not> rtc_ready s then (HAL_ERR_NOT_INITIALIZED, s)
      else case arg of
        None \<Rightarrow> (HAL_ERR_INVALID_ARG, s)
      | Some dt \<Rightarrow>
          if \<not> datetime_valid dt then (HAL_ERR_INVALID_ARG, s)
          else case init_enter (write_unlock s) of (st, s) \<Rightarrow>
            if st \<noteq> HAL_OK then (st, write_lock s)
            else let s = RTC_DR_write (encode_dr dt) (RTC_TR_write (encode_tr dt) s);
                     s = init_exit s
                 in case wait_sync s of (st, s) \<Rightarrow> (st, write_lock s))"

definition decode_datetime :: "u32 \<Rightarrow> u32 \<Rightarrow> hal_rtc_datetime" where
  "decode_datetime tr dr =
     \<lparr>dt_year = ucast (2000 + (ucast (from_bcd (ucast (drop_bit RTC_DR_YEAR_SHIFT dr AND 0xFF))) :: u32)),
      dt_month = from_bcd (ucast (drop_bit RTC_DR_MONTH_SHIFT dr AND 0x1F)),
      dt_day = from_bcd (ucast (drop_bit RTC_DR_DAY_SHIFT dr AND 0x3F)),
      dt_weekday = ucast (drop_bit RTC_DR_WEEKDAY_SHIFT dr AND 0x07),
      dt_hour = from_bcd (ucast (drop_bit RTC_TR_HOUR_SHIFT tr AND 0x3F)),
      dt_minute = from_bcd (ucast (drop_bit RTC_TR_MINUTE_SHIFT tr AND 0x7F)),
      dt_second = from_bcd (ucast (drop_bit RTC_TR_SECOND_SHIFT tr AND 0x7F))\<rparr>"

text \<open>The destination may be NULL. The hardware may act between the two reads.\<close>

definition hal_rtc_get_datetime :: "bool \<Rightarrow> rtc_dev \<Rightarrow> (hal_status + hal_rtc_datetime) \<times> rtc_dev" where
  "hal_rtc_get_datetime dst s =
     (if \<not> rtc_ready s then (Inl HAL_ERR_NOT_INITIALIZED, s)
      else if \<not> dst then (Inl HAL_ERR_INVALID_ARG, s)
      else case RTC_TR_read s of (tr, s) \<Rightarrow>
        case RTC_DR_read (rtc_hw s) of (dr, s) \<Rightarrow> (Inr (decode_datetime tr dr), s))"

definition hal_rtc_is_set :: "rtc_dev \<Rightarrow> bool" where
  "hal_rtc_is_set s \<longleftrightarrow> RCC_BDCR s AND RCC_BDCR_RTCEN \<noteq> 0 \<and> isr_flag RTC_ISR_INITS s"

definition hal_rtc_get_clock :: "rtc_dev \<Rightarrow> hal_rtc_clock" where
  "hal_rtc_get_clock s =
     (if RCC_BDCR s AND RCC_BDCR_RTCEN = 0 then HAL_RTC_CLOCK_NONE
      else let sel = RCC_BDCR s AND RCC_BDCR_RTCSEL_MASK in
        if sel = RCC_BDCR_RTCSEL_LSE then HAL_RTC_CLOCK_LSE
        else if sel = RCC_BDCR_RTCSEL_LSI then HAL_RTC_CLOCK_LSI
        else HAL_RTC_CLOCK_NONE)"

text \<open>Alarms and the wakeup timer. A handler is the token it is attached under.\<close>

definition RTC_ALARM_ISR :: callback where "RTC_ALARM_ISR = 41"
definition RTC_WAKEUP_ISR :: callback where "RTC_WAKEUP_ISR = 3"

definition run_if :: "(callback \<Rightarrow> rtc_dev \<Rightarrow> rtc_dev) \<Rightarrow> callback option \<Rightarrow> rtc_dev \<Rightarrow> rtc_dev" where
  "run_if run cb s = (case cb of None \<Rightarrow> s | Some c \<Rightarrow> run c s)"

definition rtc_alarm_isr :: "(callback \<Rightarrow> rtc_dev \<Rightarrow> rtc_dev) \<Rightarrow> rtc_dev \<Rightarrow> rtc_dev" where
  "rtc_alarm_isr run s =
     (let isr = RTC_ISR_read s;
          s = (if isr AND RTC_ISR_ALRAF \<noteq> 0
               then let s = clear_flag RTC_ISR_ALRAF s in run_if run (alarm_cb s HAL_RTC_ALARM_A) s else s);
          s = (if isr AND RTC_ISR_ALRBF \<noteq> 0
               then let s = clear_flag RTC_ISR_ALRBF s in run_if run (alarm_cb s HAL_RTC_ALARM_B) s else s)
      in EXTI_PR_write EXTI_LINE_RTC_ALARM s)"

definition rtc_wakeup_isr :: "(callback \<Rightarrow> rtc_dev \<Rightarrow> rtc_dev) \<Rightarrow> rtc_dev \<Rightarrow> rtc_dev" where
  "rtc_wakeup_isr run s =
     (let s = EXTI_PR_write EXTI_LINE_RTC_WAKEUP (clear_flag RTC_ISR_WUTF s) in run_if run (wakeup_cb s) s)"

definition exti_line_enable :: "u32 \<Rightarrow> bool \<Rightarrow> rtc_dev \<Rightarrow> rtc_dev" where
  "exti_line_enable line on s =
     EXTI_PR_write line
       (if on then s\<lparr>EXTI_RTSR := EXTI_RTSR s OR line, EXTI_IMR := EXTI_IMR s OR line\<rparr>
        else s\<lparr>EXTI_IMR := EXTI_IMR s AND NOT line\<rparr>)"

definition attach_line :: "u32 \<Rightarrow> int \<Rightarrow> callback \<Rightarrow> callback option \<Rightarrow> rtc_dev \<Rightarrow> rtc_dev" where
  "attach_line line irq isr cb s =
     (let s = exti_line_enable line (cb \<noteq> None) s in
      if cb \<noteq> None then snd (hal_interrupt_enable irq (snd (hal_interrupt_attach_callback irq (Some isr) s))) else s)"

definition alarm_valid :: "hal_rtc_alarm_config \<Rightarrow> bool" where
  "alarm_valid c \<longleftrightarrow>
     \<not> (ac_second c > 59 \<or> ac_minute c > 59 \<or> ac_hour c > 23) \<and>
     \<not> (ac_match c AND HAL_RTC_MATCH_DAY \<noteq> 0 \<and> (ac_day c < 1 \<or> ac_day c > (if ac_day_is_weekday c then 7 else 31)))"

definition alarm_encode :: "hal_rtc_alarm_config \<Rightarrow> u32" where
  "alarm_encode c =
     (let reg = push_bit RTC_ALRM_SECOND_SHIFT (ucast (to_bcd (ac_second c))) OR
                push_bit RTC_ALRM_MINUTE_SHIFT (ucast (to_bcd (ac_minute c))) OR
                push_bit RTC_ALRM_HOUR_SHIFT (ucast (to_bcd (ac_hour c))) OR
                push_bit RTC_ALRM_DAY_SHIFT (ucast (to_bcd (ac_day c)));
          reg = (if ac_match c AND HAL_RTC_MATCH_SECOND = 0 then reg OR RTC_ALRM_MSK_SECOND else reg);
          reg = (if ac_match c AND HAL_RTC_MATCH_MINUTE = 0 then reg OR RTC_ALRM_MSK_MINUTE else reg);
          reg = (if ac_match c AND HAL_RTC_MATCH_HOUR = 0 then reg OR RTC_ALRM_MSK_HOUR else reg);
          reg = (if ac_match c AND HAL_RTC_MATCH_DAY = 0 then reg OR RTC_ALRM_MSK_DAY else reg)
      in if ac_day_is_weekday c then reg OR RTC_ALRM_WDSEL else reg)"

definition hal_rtc_set_alarm ::
    "nat \<Rightarrow> hal_rtc_alarm_config option \<Rightarrow> callback option \<Rightarrow> rtc_dev \<Rightarrow> hal_status \<times> rtc_dev" where
  "hal_rtc_set_alarm alarm cfg cb s0 =
     (if \<not> rtc_ready s0 then (HAL_ERR_NOT_INITIALIZED, s0)
      else case cfg of
        None \<Rightarrow> (HAL_ERR_INVALID_ARG, s0)
      | Some c \<Rightarrow>
          if alarm \<noteq> HAL_RTC_ALARM_A \<and> alarm \<noteq> HAL_RTC_ALARM_B then (HAL_ERR_INVALID_ARG, s0)
          else if \<not> alarm_valid c then (HAL_ERR_INVALID_ARG, s0)
          else let s = write_unlock (s0\<lparr>alarm_cb := (alarm_cb s0)(alarm := cb)\<rparr>);
                   s = RTC_CR_write (RTC_CR s AND NOT (alarm_enable alarm OR alarm_irq_en alarm)) s
            in case rtc_wait (\<lambda>t. \<not> isr_flag (alarm_writable alarm) t) RTC_TIMEOUT_SPINS s of (st, s) \<Rightarrow>
              if st \<noteq> HAL_OK then (HAL_ERR_TIMEOUT, write_lock s)
              else let s = (if alarm = HAL_RTC_ALARM_A then RTC_ALRMAR_write (alarm_encode c) s
                            else RTC_ALRMBR_write (alarm_encode c) s);
                       s = clear_flag (alarm_flag alarm) s;
                       s = RTC_CR_write (RTC_CR s OR (alarm_enable alarm OR (if cb \<noteq> None then alarm_irq_en alarm else 0))) s;
                       s = write_lock s
                   in (HAL_OK, attach_line EXTI_LINE_RTC_ALARM RTC_Alarm_IRQn RTC_ALARM_ISR cb s))"

definition hal_rtc_cancel_alarm :: "nat \<Rightarrow> rtc_dev \<Rightarrow> hal_status \<times> rtc_dev" where
  "hal_rtc_cancel_alarm alarm s =
     (if \<not> rtc_ready s then (HAL_ERR_NOT_INITIALIZED, s)
      else if alarm \<noteq> HAL_RTC_ALARM_A \<and> alarm \<noteq> HAL_RTC_ALARM_B then (HAL_ERR_INVALID_ARG, s)
      else let s = write_unlock s;
               s = RTC_CR_write (RTC_CR s AND NOT (alarm_enable alarm OR alarm_irq_en alarm)) s;
               s = write_lock (clear_flag (alarm_flag alarm) s);
               s = s\<lparr>alarm_cb := (alarm_cb s)(alarm := None)\<rparr>
           in (HAL_OK, if alarm_cb s HAL_RTC_ALARM_A = None \<and> alarm_cb s HAL_RTC_ALARM_B = None
                       then exti_line_enable EXTI_LINE_RTC_ALARM False s else s))"

definition hal_rtc_alarm_fired :: "nat \<Rightarrow> rtc_dev \<Rightarrow> bool \<times> rtc_dev" where
  "hal_rtc_alarm_fired alarm s =
     (if \<not> rtc_ready s \<or> alarm \<noteq> HAL_RTC_ALARM_A \<and> alarm \<noteq> HAL_RTC_ALARM_B then (False, s)
      else if \<not> isr_flag (alarm_flag alarm) s then (False, s)
      else (True, clear_flag (alarm_flag alarm) s))"

definition wakeup_plan :: "u32 \<Rightarrow> u32 \<Rightarrow> u32 \<times> u32" where
  "wakeup_plan tick_hz period_ms =
     (if period_ms \<le> (65536 * 1000) div tick_hz
      then (RTC_CR_WUCKSEL_DIV16, let reload = period_ms * tick_hz div 1000 in if reload = 0 then 1 else reload)
      else (RTC_CR_WUCKSEL_SPRE, period_ms div 1000))"

definition hal_rtc_set_wakeup :: "u32 \<Rightarrow> callback option \<Rightarrow> rtc_dev \<Rightarrow> hal_status \<times> rtc_dev" where
  "hal_rtc_set_wakeup period_ms cb s0 =
     (if \<not> rtc_ready s0 then (HAL_ERR_NOT_INITIALIZED, s0)
      else if period_ms = 0 \<or> period_ms > 65536000 then (HAL_ERR_INVALID_ARG, s0)
      else let tick_hz = (if hal_rtc_get_clock s0 = HAL_RTC_CLOCK_LSE then 32768 div 16 else 32000 div 16)
        in case wakeup_plan tick_hz period_ms of (select, reload) \<Rightarrow>
          if reload > 65536 then (HAL_ERR_INVALID_ARG, s0)
          else let s = write_unlock (s0\<lparr>wakeup_cb := cb\<rparr>);
                   s = RTC_CR_write (RTC_CR s AND NOT (RTC_CR_WUTE OR RTC_CR_WUTIE)) s
            in case rtc_wait (\<lambda>t. \<not> isr_flag RTC_ISR_WUTWF t) RTC_TIMEOUT_SPINS s of (st, s) \<Rightarrow>
              if st \<noteq> HAL_OK then (HAL_ERR_TIMEOUT, write_lock s)
              else let s = RTC_WUTR_write (reload - 1) s;
                       s = RTC_CR_write ((RTC_CR s AND NOT RTC_CR_WUCKSEL_MASK) OR select) s;
                       s = clear_flag RTC_ISR_WUTF s;
                       s = RTC_CR_write (RTC_CR s OR (RTC_CR_WUTE OR (if cb \<noteq> None then RTC_CR_WUTIE else 0))) s;
                       s = write_lock s
                   in (HAL_OK, attach_line EXTI_LINE_RTC_WAKEUP RTC_WKUP_IRQn RTC_WAKEUP_ISR cb s))"

definition hal_rtc_cancel_wakeup :: "rtc_dev \<Rightarrow> hal_status \<times> rtc_dev" where
  "hal_rtc_cancel_wakeup s =
     (if \<not> rtc_ready s then (HAL_ERR_NOT_INITIALIZED, s)
      else let s = write_unlock s;
               s = RTC_CR_write (RTC_CR s AND NOT (RTC_CR_WUTE OR RTC_CR_WUTIE)) s;
               s = write_lock (clear_flag RTC_ISR_WUTF s)
           in (HAL_OK, exti_line_enable EXTI_LINE_RTC_WAKEUP False (s\<lparr>wakeup_cb := None\<rparr>)))"

definition hal_rtc_wakeup_fired :: "rtc_dev \<Rightarrow> bool \<times> rtc_dev" where
  "hal_rtc_wakeup_fired s =
     (if \<not> rtc_ready s \<or> \<not> isr_flag RTC_ISR_WUTF s then (False, s) else (True, clear_flag RTC_ISR_WUTF s))"

definition hal_rtc_backup_write :: "u8 \<Rightarrow> u32 \<Rightarrow> rtc_dev \<Rightarrow> hal_status \<times> rtc_dev" where
  "hal_rtc_backup_write index v s =
     (if \<not> rtc_ready s then (HAL_ERR_NOT_INITIALIZED, s)
      else if index \<ge> HAL_RTC_BACKUP_COUNT then (HAL_ERR_INVALID_ARG, s)
      else (HAL_OK, RTC_BKPR_write (unat index) v s))"

definition hal_rtc_backup_read :: "u8 \<Rightarrow> bool \<Rightarrow> rtc_dev \<Rightarrow> hal_status + u32" where
  "hal_rtc_backup_read index dst s =
     (if \<not> rtc_ready s then Inl HAL_ERR_NOT_INITIALIZED
      else if index \<ge> HAL_RTC_BACKUP_COUNT \<or> \<not> dst then Inl HAL_ERR_INVALID_ARG
      else Inr (RTC_BKPR s (unat index)))"

section \<open>Bits and flags\<close>

lemma and_bit_neq_0: "x AND push_bit k 1 \<noteq> 0 \<longleftrightarrow> bit x k" "x AND push_bit k 1 = 0 \<longleftrightarrow> \<not> bit x k" for x :: u32
  by (simp_all add: bit_iff_and_push_bit_not_eq_0)

lemma bit_one_at: "bit (push_bit k 1 :: u32) n \<longleftrightarrow> n = k \<and> k < 32"
  by (auto simp: bit_push_bit_iff bit_1_iff simp del: push_bit_of_1)

lemmas rtc_bit_defs = rtc_cr_defs rtc_isr_defs rcc_bdcr_defs rtc_power_defs EXTI_LINE_RTC_ALARM_def EXTI_LINE_RTC_WAKEUP_def

lemma isr_read_bit: "bit (RTC_ISR_read s) n \<longleftrightarrow> (if n = 4 then year_field (snd (rtc_calendar s)) \<noteq> 0 else bit (rtc_isr s) n)"
  by (cases "n < 32") (auto simp: RTC_ISR_read_def RTC_ISR_INITS_def bit_or_iff bit_and_iff bit_not_iff_eq bit_one_at
      simp del: push_bit_of_1 dest: bit_imp_le_length)

lemma isr_flags:
  "isr_flag RTC_ISR_INITF s \<longleftrightarrow> bit (rtc_isr s) 6" "isr_flag RTC_ISR_INIT s \<longleftrightarrow> bit (rtc_isr s) 7"
  "isr_flag RTC_ISR_RSF s \<longleftrightarrow> bit (rtc_isr s) 5" "isr_flag RTC_ISR_WUTWF s \<longleftrightarrow> bit (rtc_isr s) 2"
  "isr_flag RTC_ISR_ALRAWF s \<longleftrightarrow> bit (rtc_isr s) 0" "isr_flag RTC_ISR_ALRBWF s \<longleftrightarrow> bit (rtc_isr s) 1"
  "isr_flag RTC_ISR_ALRAF s \<longleftrightarrow> bit (rtc_isr s) 8" "isr_flag RTC_ISR_ALRBF s \<longleftrightarrow> bit (rtc_isr s) 9"
  "isr_flag RTC_ISR_WUTF s \<longleftrightarrow> bit (rtc_isr s) 10"
  "isr_flag RTC_ISR_INITS s \<longleftrightarrow> year_field (snd (rtc_calendar s)) \<noteq> 0"
  unfolding isr_flag_def rtc_isr_defs and_bit_neq_0 isr_read_bit by simp_all

lemma isr_written_bit:
  "bit (isr_written key old v) n \<longleftrightarrow>
     (if n \<in> {8, 9, 10} then bit old n \<and> bit v n
      else if n = 5 then bit old 5 \<and> (key \<longrightarrow> bit v 5)
      else if n = 6 then bit old 6 \<and> (key \<longrightarrow> bit v 7)
      else if n = 7 then (if key then bit v 7 else bit old 7)
      else bit old n)"
proof (cases "n < 32")
  case True
  have v: "v AND RTC_ISR_INIT = 0 \<longleftrightarrow> \<not> bit v 7" unfolding RTC_ISR_INIT_def by (rule and_bit_neq_0)
  show ?thesis
    unfolding isr_written_def Let_def v using True
    by (auto simp: rtc_isr_defs bit_or_iff bit_and_iff bit_not_iff_eq bit_one_at simp del: push_bit_of_1)
qed (auto dest: bit_imp_le_length)

section \<open>What every step keeps\<close>

text \<open>The domain's memory and clock selection stay, and the calendar has advanced by whole seconds.\<close>

definition kept :: "rtc_dev \<Rightarrow> rtc_dev \<Rightarrow> bool" where
  "kept s t \<longleftrightarrow> RTC_BKPR t = RTC_BKPR s \<and> rtc_next t = rtc_next s \<and> (\<exists>n. rtc_calendar t = (rtc_next s ^^ n) (rtc_calendar s)) \<and>
     RCC_BDCR t AND (RCC_BDCR_RTCEN OR RCC_BDCR_RTCSEL_MASK) = RCC_BDCR s AND (RCC_BDCR_RTCEN OR RCC_BDCR_RTCSEL_MASK)"

lemma kept_refl [simp]: "kept s s"
  by (auto simp: kept_def intro: exI [of _ 0])

lemma kept_trans: "kept s t \<Longrightarrow> kept t u \<Longrightarrow> kept s u"
  unfolding kept_def by (metis (no_types, lifting) comp_apply funpow_add)

text \<open>What no event changes: the locks, the control register and the code's own variables.\<close>

definition driver_view :: "rtc_dev \<Rightarrow> rtc_dev" where
  "driver_view s = s\<lparr>rtc_events := [], RCC_BDCR := 0, RCC_CSR := 0, rtc_calendar := (0, 0), rtc_shadow := (0, 0), rtc_isr := 0,
     EXTI_PR := 0, nvic_pending := (\<lambda>_. 0)\<rparr>"

lemma driver_view_fields:
  assumes "driver_view s = driver_view t"
  shows "rtc_wpr s = rtc_wpr t" "PWR_CR s = PWR_CR t" "RTC_CR s = RTC_CR t" "rtc_dr_frozen s = rtc_dr_frozen t"
    "rtc_ready s = rtc_ready t" "alarm_cb s = alarm_cb t" "wakeup_cb s = wakeup_cb t" "RTC_BKPR s = RTC_BKPR t"
    "rtc_next s = rtc_next t" "RTC_ALRMAR s = RTC_ALRMAR t" "RTC_ALRMBR s = RTC_ALRMBR t" "RTC_WUTR s = RTC_WUTR t"
    "EXTI_IMR s = EXTI_IMR t" "EXTI_RTSR s = EXTI_RTSR t" "RTC_APB1ENR s = RTC_APB1ENR t" "RTC_PRER s = RTC_PRER t"
    "backup_open s = backup_open t" "rtc_open s = rtc_open t"
proof -
  have f: "f s = f t" if "\<And>x. f (driver_view x) = f x" for f :: "rtc_dev \<Rightarrow> 'a" using assms that by metis
  show "rtc_wpr s = rtc_wpr t" "PWR_CR s = PWR_CR t" "RTC_CR s = RTC_CR t" "rtc_dr_frozen s = rtc_dr_frozen t"
    "rtc_ready s = rtc_ready t" "alarm_cb s = alarm_cb t" "wakeup_cb s = wakeup_cb t" "RTC_BKPR s = RTC_BKPR t"
    "rtc_next s = rtc_next t" "RTC_ALRMAR s = RTC_ALRMAR t" "RTC_ALRMBR s = RTC_ALRMBR t" "RTC_WUTR s = RTC_WUTR t"
    "EXTI_IMR s = EXTI_IMR t" "EXTI_RTSR s = EXTI_RTSR t" "RTC_APB1ENR s = RTC_APB1ENR t" "RTC_PRER s = RTC_PRER t"
    by (rule f, simp add: driver_view_def)+
  then show "backup_open s = backup_open t" "rtc_open s = rtc_open t" by (simp_all add: backup_open_def rtc_open_def)
qed

lemma alarm_compare_keeps [simp]:
  "driver_view (alarm_compare a s) = driver_view s" "rtc_calendar (alarm_compare a s) = rtc_calendar s"
  "rtc_shadow (alarm_compare a s) = rtc_shadow s" "RCC_BDCR (alarm_compare a s) = RCC_BDCR s"
  "bit (rtc_isr (alarm_compare a s)) n = (bit (rtc_isr s) n \<or> RTC_CR s AND alarm_enable a \<noteq> 0 \<and>
      alarm_hits (alarm_reg a s) (rtc_calendar s) \<and> bit (alarm_flag a) n)"
  by (auto simp: alarm_compare_def Let_def exti_pulse_def driver_view_def bit_or_iff)

lemma bdcr_lserdy [simp]:
  "(x OR RCC_BDCR_LSERDY) AND (RCC_BDCR_RTCEN OR RCC_BDCR_RTCSEL_MASK) = x AND (RCC_BDCR_RTCEN OR RCC_BDCR_RTCSEL_MASK)"
  by (simp add: bit.conj_disj_distrib2) (simp add: rcc_bdcr_defs)

lemma happens_driver_view [simp]: "driver_view (rtc_happens e s) = driver_view s"
  by (cases e) (simp_all add: Let_def exti_pulse_def, simp_all add: driver_view_def)

lemma happens_next [simp]: "rtc_next (rtc_happens e s) = rtc_next s"
  by (rule driver_view_fields) simp

lemma calendar_step: "rtc_calendar (rtc_happens e s) = rtc_calendar s \<or>
    rtc_calendar (rtc_happens e s) = rtc_next s (rtc_calendar s) \<and> calendar_runs s"
  by (cases e) (auto simp: Let_def exti_pulse_def)

lemma kept_happens: "kept s (rtc_happens e s)"
proof -
  have "RTC_BKPR (rtc_happens e s) = RTC_BKPR s" by (rule driver_view_fields) simp
  moreover have "\<exists>n. rtc_calendar (rtc_happens e s) = (rtc_next s ^^ n) (rtc_calendar s)"
    using calendar_step [of e s] by (auto intro: exI [of _ 0] exI [of _ 1])
  moreover have "RCC_BDCR (rtc_happens e s) AND (RCC_BDCR_RTCEN OR RCC_BDCR_RTCSEL_MASK) =
      RCC_BDCR s AND (RCC_BDCR_RTCEN OR RCC_BDCR_RTCSEL_MASK)"
    by (cases e) (simp_all add: Let_def exti_pulse_def)
  ultimately show ?thesis by (simp add: kept_def)
qed

text \<open>What events keep, the hardware keeps.\<close>

lemma hw_inv:
  assumes step: "\<And>e s. P s \<Longrightarrow> P (rtc_happens e s)" and ev: "\<And>s es. P s \<Longrightarrow> P (s\<lparr>rtc_events := es\<rparr>)" and P: "P s"
  shows "P (rtc_hw s)"
proof (cases "rtc_events s")
  case (Cons es rest)
  have "P t \<Longrightarrow> P (fold rtc_happens es t)" for t
    by (induction es arbitrary: t) (simp_all add: step)
  then show ?thesis using Cons ev P by (simp add: rtc_hw_def)
qed (simp add: rtc_hw_def P)

lemma rtc_wait_inv:
  assumes "rtc_wait waiting n s = (st, t)" "\<And>e s. P s \<Longrightarrow> P (rtc_happens e s)" "\<And>s es. P s \<Longrightarrow> P (s\<lparr>rtc_events := es\<rparr>)" "P s"
  shows "P t" "st = HAL_OK \<and> \<not> waiting t \<or> st = HAL_ERR_TIMEOUT \<and> waiting t"
proof -
  have "P (rtc_hw u)" if "P u" for u by (rule hw_inv [of P]) (use assms(2,3) that in blast)+
  from wait_or_timeout_inv [OF assms(1) [unfolded rtc_wait_def], of P, OF this assms(4)]
  show "P t" "st = HAL_OK \<and> \<not> waiting t \<or> st = HAL_ERR_TIMEOUT \<and> waiting t" by blast+
qed

lemma events_driver_view [simp]: "driver_view (t\<lparr>rtc_events := es\<rparr>) = driver_view t"
  by (simp add: driver_view_def)

lemma hw_driver_view [simp]: "driver_view (rtc_hw s) = driver_view s"
  by (rule hw_inv [of "\<lambda>t. driver_view t = driver_view s"]) simp_all

lemma events_kept [simp]: "kept s (t\<lparr>rtc_events := es\<rparr>) = kept s t"
  by (simp add: kept_def)

lemma hw_kept: "kept s (rtc_hw s)"
  by (rule hw_inv [of "kept s"]) (auto intro: kept_trans kept_happens)

lemma rtc_wait_kept:
  assumes "rtc_wait waiting n s = (st, t)"
  shows "kept s t" "driver_view t = driver_view s"
  by (rule rtc_wait_inv [OF assms, of "kept s"]; auto intro: kept_trans kept_happens)
    (rule rtc_wait_inv [OF assms, of "\<lambda>t. driver_view t = driver_view s"]; simp)

section \<open>Register writes\<close>

lemma writes_kept:
  "kept s (PWR_CR_write v s)" "kept s (RTC_WPR_write v s)" "kept s (RTC_ISR_write v s)" "kept s (RTC_CR_write v s)"
  "kept s (RTC_PRER_write v s)" "kept s (RTC_ALRMAR_write v s)" "kept s (RTC_ALRMBR_write v s)" "kept s (RTC_WUTR_write v s)"
  "kept s (EXTI_PR_write v s)" "kept s (RCC_CSR_write v s)" "kept s (write_unlock s)" "kept s (write_lock s)"
  "kept s (init_exit s)" "kept s (clear_flag v s)" "kept s (rtc_power s)"
  by (auto simp: kept_def PWR_CR_write_def RTC_WPR_write_def RTC_ISR_write_def RTC_CR_write_def RTC_PRER_write_def
      RTC_ALRMAR_write_def RTC_ALRMBR_write_def RTC_WUTR_write_def EXTI_PR_write_def RCC_CSR_write_def write_unlock_def
      write_lock_def init_exit_def clear_flag_def rtc_power_def Let_def intro: exI [of _ 0])

lemma updates_kept [simp]:
  "kept s (t\<lparr>rtc_ready := r\<rparr>) = kept s t" "kept s (t\<lparr>RTC_APB1ENR := v\<rparr>) = kept s t"
  "kept s (t\<lparr>alarm_cb := f\<rparr>) = kept s t" "kept s (t\<lparr>wakeup_cb := cb\<rparr>) = kept s t"
  by (simp_all add: kept_def)

lemma bdcr_written_on:
  "bdcr_written old (old OR RCC_BDCR_LSEON) AND (RCC_BDCR_RTCEN OR RCC_BDCR_RTCSEL_MASK) =
     old AND (RCC_BDCR_RTCEN OR RCC_BDCR_RTCSEL_MASK)"
proof -
  have m: "bit RCC_BDCR_RTCSEL_MASK n \<longleftrightarrow> n = 8 \<or> n = 9" for n
  proof -
    have mask: "RCC_BDCR_RTCSEL_MASK = push_bit 8 (mask 2)" by (simp add: RCC_BDCR_RTCSEL_MASK_def mask_eq_exp_minus_1)
    show ?thesis unfolding mask by (auto simp: bit_push_bit_iff bit_mask_iff)
  qed
  have on: "(old OR RCC_BDCR_LSEON) AND RCC_BDCR_LSEON \<noteq> 0"
    unfolding RCC_BDCR_LSEON_def and_bit_neq_0 by (simp add: bit_or_iff bit_one_at del: push_bit_of_1)
  show ?thesis
    unfolding bdcr_written_def if_P [OF on]
    by (rule bit_word_eqI)
      (auto simp: bit_and_iff bit_or_iff m rcc_bdcr_defs(1,2,6) bit_one_at simp del: push_bit_of_1)
qed

lemma start_kept:
  "start_lsi s = (st, t) \<Longrightarrow> kept s t"
  "start_lse ms s = (st, t) \<Longrightarrow> RCC_BDCR s AND RCC_BDCR_BDRST = 0 \<Longrightarrow> kept s t"
proof -
  show "kept s t" if "start_lsi s = (st, t)"
    using that rtc_wait_kept(1) writes_kept(10) kept_trans unfolding start_lsi_def by blast
  assume r: "start_lse ms s = (st, t)" and b: "RCC_BDCR s AND RCC_BDCR_BDRST = 0"
  have "(RCC_BDCR s OR RCC_BDCR_LSEON) AND RCC_BDCR_BDRST = 0"
    using b by (simp add: bit.conj_disj_distrib2) (simp add: rcc_bdcr_defs)
  then have "kept s (RCC_BDCR_write (RCC_BDCR s OR RCC_BDCR_LSEON) s)"
    by (auto simp: RCC_BDCR_write_def kept_def bdcr_written_on intro: exI [of _ 0])
  then show "kept s t" using rtc_wait_kept(1) r kept_trans unfolding start_lse_def by blast
qed

lemma wait_sync_kept: "wait_sync s = (st, t) \<Longrightarrow> kept s t"
  using rtc_wait_kept(1) writes_kept(3) kept_trans unfolding wait_sync_def by blast

section \<open>The two halves of a timestamp\<close>

text \<open>The calendar is \<open>c\<close> and some seconds, and so is what the shadows hold once they count as synchronized.\<close>

definition copies :: "(u32 \<times> u32 \<Rightarrow> u32 \<times> u32) \<Rightarrow> u32 \<times> u32 \<Rightarrow> rtc_dev \<Rightarrow> bool" where
  "copies next c t \<longleftrightarrow> rtc_next t = next \<and> (\<exists>n. rtc_calendar t = (next ^^ n) c) \<and>
     (isr_flag RTC_ISR_RSF t \<longrightarrow> (\<exists>m. rtc_shadow t = (next ^^ m) c)) \<and> \<not> rtc_dr_frozen t"

lemma copies_events [simp]: "copies next c (t\<lparr>rtc_events := es\<rparr>) = copies next c t"
  by (simp add: copies_def isr_flags)

lemma happens_frozen [simp]: "rtc_dr_frozen (rtc_happens e s) = rtc_dr_frozen s"
  by (rule driver_view_fields) simp

lemma happens_shadow:
  "rtc_shadow (rtc_happens e s) = rtc_shadow s \<and> (isr_flag RTC_ISR_RSF (rtc_happens e s) \<longrightarrow> isr_flag RTC_ISR_RSF s) \<or>
   e = ShadowsCopied \<and> calendar_runs s"
  unfolding isr_flags
  by (cases e) (auto simp: Let_def exti_pulse_def bit_or_iff bit_and_iff rtc_isr_defs bit_one_at alarm_writable_def
      alarm_flag_def simp del: push_bit_of_1)

lemma copies_happens:
  assumes "copies next c t"
  shows "copies next c (rtc_happens e t)"
proof -
  have "\<exists>n. rtc_calendar (rtc_happens e t) = (next ^^ n) c"
    using assms calendar_step [of e t] unfolding copies_def by (metis funpow.simps(2) comp_apply)
  then show ?thesis
    using assms happens_shadow [of e t] by (auto simp: copies_def)
qed


lemma wait_sync_copies:
  assumes "wait_sync s = (st, t)" "copies next c (RTC_ISR_write (RTC_ISR_read s AND NOT RTC_ISR_RSF) s)"
  shows "copies next c t" "st = HAL_OK \<Longrightarrow> isr_flag RTC_ISR_RSF t" "st = HAL_OK \<or> st = HAL_ERR_TIMEOUT"
  using rtc_wait_inv [OF assms(1) [unfolded wait_sync_def], of "copies next c", OF copies_happens copies_events [THEN iffD2] assms(2)]
  by blast+

text \<open>A timestamp is one instant of the calendar, whatever happens between the two reads.\<close>

lemma get_is_snapshot:
  assumes "rtc_ready s" "RTC_CR s AND RTC_CR_BYPSHAD = 0"
  shows "hal_rtc_get_datetime True s =
    (Inr (decode_datetime (fst (rtc_shadow s)) (snd (rtc_shadow s))), (rtc_hw (s\<lparr>rtc_dr_frozen := True\<rparr>))\<lparr>rtc_dr_frozen := False\<rparr>)"
proof -
  let ?s = "s\<lparr>rtc_dr_frozen := True\<rparr>"
  have "rtc_dr_frozen (rtc_hw ?s) \<and> snd (rtc_shadow (rtc_hw ?s)) = snd (rtc_shadow s)"
  proof (rule hw_inv [of "\<lambda>t. rtc_dr_frozen t \<and> snd (rtc_shadow t) = snd (rtc_shadow s)"])
    fix e and t :: rtc_dev assume t: "rtc_dr_frozen t \<and> snd (rtc_shadow t) = snd (rtc_shadow s)"
    then show "rtc_dr_frozen (rtc_happens e t) \<and> snd (rtc_shadow (rtc_happens e t)) = snd (rtc_shadow s)"
      using happens_shadow [of e t] by auto
  qed simp_all
  moreover have "RTC_CR (rtc_hw ?s) = RTC_CR ?s" by (rule driver_view_fields) simp
  ultimately show ?thesis using assms by (simp add: hal_rtc_get_datetime_def RTC_TR_read_def RTC_DR_read_def)
qed

lemma get_copy:
  assumes "rtc_ready s" "RTC_CR s AND RTC_CR_BYPSHAD = 0" "copies next c s" "isr_flag RTC_ISR_RSF s"
  shows "\<exists>n. fst (hal_rtc_get_datetime True s) =
    Inr (decode_datetime (fst ((next ^^ n) c)) (snd ((next ^^ n) c)))"
  using assms by (auto simp: get_is_snapshot copies_def)

section \<open>BCD\<close>

lemma bcd_table:
  "list_all (\<lambda>n. from_bcd (to_bcd (word_of_nat n)) = word_of_nat n \<and> unat (to_bcd (word_of_nat n)) = n div 10 * 16 + n mod 10) [0..<100]"
  by code_simp

lemma bcd:
  assumes "v < (100 :: u8)"
  shows "from_bcd (to_bcd v) = v" "unat (to_bcd v) = unat v div 10 * 16 + unat v mod 10"
proof -
  have "unat v < 100" using assms by (simp add: word_less_nat_alt)
  then have "unat v \<in> set [0..<100]" by simp
  then have "from_bcd (to_bcd (word_of_nat (unat v))) = word_of_nat (unat v) \<and>
      unat (to_bcd (word_of_nat (unat v))) = unat v div 10 * 16 + unat v mod 10"
    using bcd_table unfolding list_all_iff by blast
  then show "from_bcd (to_bcd v) = v" "unat (to_bcd v) = unat v div 10 * 16 + unat v mod 10" by simp_all
qed

lemma bcd_inj: "a < (100 :: u8) \<Longrightarrow> b < 100 \<Longrightarrow> to_bcd a = to_bcd b \<longleftrightarrow> a = b"
  by (metis bcd(1))

text \<open>A field fits when its bits are below its width.\<close>

definition fits :: "nat \<Rightarrow> u8 \<Rightarrow> bool" where
  "fits k v \<longleftrightarrow> unat v < 2 ^ k"

lemma fits_bit: "fits k v \<Longrightarrow> bit v n \<Longrightarrow> n < k"
proof -
  assume f: "fits k v" and b: "bit v n"
  have "v AND mask k = v" by (rule and_mask_small) (use f in \<open>simp add: fits_def\<close>)
  then show "n < k" using b by (metis bit_and_iff bit_mask_iff)
qed

lemma fits_bcd:
  "v \<le> 59 \<Longrightarrow> fits 7 (to_bcd v)" "v \<le> 23 \<Longrightarrow> fits 6 (to_bcd v)" "v \<le> 31 \<Longrightarrow> fits 6 (to_bcd v)"
  "v \<le> 12 \<Longrightarrow> fits 5 (to_bcd v)" "v \<le> 7 \<Longrightarrow> fits 3 v" "v \<le> 7 \<Longrightarrow> fits 4 (to_bcd v)"
  using bcd(2) [of v] by (auto simp: fits_def word_le_nat_alt word_less_nat_alt)


lemma u8_32_8 [simp]: "(ucast (ucast (x :: u8) :: u32) :: u8) = x"
  by (rule bit_word_eqI) (auto simp: bit_simps dest: bit_imp_le_length)

lemma low_masks:
  "(0x3F :: u32) = mask 6" "(0x7F :: u32) = mask 7" "(0x1F :: u32) = mask 5" "(0x07 :: u32) = mask 3"
  "(0xFF :: u32) = mask 8" "(0xF :: u32) = mask 4"
  by (simp_all add: mask_eq_exp_minus_1)

lemma time_fields:
  fixes h m s :: u8
  defines "r \<equiv> push_bit 16 (ucast h) OR push_bit 8 (ucast m) OR push_bit 0 (ucast s) :: u32"
  assumes f: "fits 6 h" "fits 7 m" "fits 7 s"
  shows "drop_bit 16 r AND 0x3F = ucast h" "drop_bit 16 r AND 0x7F = ucast h" "drop_bit 8 r AND 0x7F = ucast m"
    "drop_bit 0 r AND 0x7F = ucast s"
  unfolding r_def low_masks
  by (rule bit_word_eqI; auto simp: bit_simps dest: f [THEN fits_bit] bit_imp_le_length)+

lemma date_fields:
  fixes y w m d :: u8
  defines "r \<equiv> push_bit 16 (ucast y) OR push_bit 13 (ucast w) OR push_bit 8 (ucast m) OR push_bit 0 (ucast d) :: u32"
  assumes f: "fits 3 w" "fits 5 m" "fits 6 d"
  shows "drop_bit 16 r AND 0xFF = ucast y" "drop_bit 13 r AND 0x7 = ucast w" "drop_bit 8 r AND 0x1F = ucast m"
    "drop_bit 0 r AND 0x3F = ucast d"
  unfolding r_def low_masks
  by (rule bit_word_eqI; auto simp: bit_simps dest: f [THEN fits_bit] bit_imp_le_length)+

lemma year_wraps:
  assumes "2000 \<le> y" "y \<le> (2099 :: u16)"
  shows "(ucast (y - 2000) :: u8) < 100" "(ucast (2000 + (ucast (ucast (y - 2000) :: u8) :: u32)) :: u16) = y"
proof -
  have y: "unat (y - 2000) = unat y - 2000" "unat y \<le> 2099" "2000 \<le> unat y"
    using assms by (auto simp: unat_sub word_le_nat_alt)
  then have u: "unat (ucast (y - 2000) :: u8) = unat y - 2000"
    by (simp add: unsigned_ucast_eq take_bit_nat_eq_self)
  then show "(ucast (y - 2000) :: u8) < 100" using y by (simp add: word_less_nat_alt)
  have "unat (2000 + (ucast (ucast (y - 2000) :: u8) :: u32)) = unat y"
    using u y by (simp add: unat_word_ariths)
  then have "unat (ucast (2000 + (ucast (ucast (y - 2000) :: u8) :: u32)) :: u16) = unat y"
    using y(2) by (simp add: unsigned_ucast_eq take_bit_nat_eq_self)
  then show "(ucast (2000 + (ucast (ucast (y - 2000) :: u8) :: u32)) :: u16) = y"
    by (simp add: word_unat_eq_iff)
qed

lemma decode_encode:
  assumes "datetime_valid dt"
  shows "decode_datetime (encode_tr dt) (encode_dr dt) = dt"
proof -
  have v: "2000 \<le> dt_year dt" "dt_year dt \<le> 2099" "dt_month dt \<le> 12" "dt_day dt \<le> 31" "dt_weekday dt \<le> 7"
      "dt_hour dt \<le> 23" "dt_minute dt \<le> 59" "dt_second dt \<le> 59"
    using assms by (simp_all add: datetime_valid_def not_less)
  have l: "dt_month dt < 100" "dt_day dt < 100" "dt_hour dt < 100" "dt_minute dt < 100" "dt_second dt < 100"
    using v(3-8) by (simp_all add: word_less_nat_alt word_le_nat_alt)
  note t = time_fields [OF fits_bcd(2) [OF v(6)] fits_bcd(1) [OF v(7)] fits_bcd(1) [OF v(8)]]
  note d = date_fields [OF fits_bcd(5) [OF v(5)] fits_bcd(4) [OF v(3)] fits_bcd(3) [OF v(4)]]
  show ?thesis
    unfolding decode_datetime_def encode_tr_def encode_dr_def rtc_shift_defs t d u8_32_8
    by (simp add: bcd(1) l year_wraps [OF v(1,2)])
qed

text \<open>The year counts as set when it is not 2000.\<close>

lemma year_field_encode:
  assumes "datetime_valid dt"
  shows "year_field (encode_dr dt) \<noteq> 0 \<longleftrightarrow> dt_year dt \<noteq> 2000"
proof -
  have v: "2000 \<le> dt_year dt" "dt_year dt \<le> 2099" "dt_month dt \<le> 12" "dt_day dt \<le> 31" "dt_weekday dt \<le> 7"
    using assms by (simp_all add: datetime_valid_def not_less)
  note d = date_fields(1) [OF fits_bcd(5) [OF v(5)] fits_bcd(4) [OF v(3)] fits_bcd(3) [OF v(4)]]
  have "year_field (encode_dr dt) = ucast (to_bcd (ucast (dt_year dt - 2000)))"
    unfolding year_field_def encode_dr_def rtc_shift_defs d ..
  moreover have "to_bcd (ucast (dt_year dt - 2000)) = 0 \<longleftrightarrow> (ucast (dt_year dt - 2000) :: u8) = 0"
    using bcd_inj [OF year_wraps(1) [OF v(1,2)], of 0] by (simp add: to_bcd_def)
  moreover have "(ucast (dt_year dt - 2000) :: u8) = 0 \<longleftrightarrow> dt_year dt = 2000"
    using year_wraps(2) [OF v(1,2)] by auto
  moreover have "(ucast x :: u32) = 0 \<longleftrightarrow> x = 0" for x :: u8 by (metis u8_32_8 ucast_0)
  ultimately show ?thesis by simp
qed

section \<open>Setting the calendar\<close>

text \<open>What holds between calls: once ready the domain is unlocked, the key register is shut, and the calendar
  is read through its shadows.\<close>

definition rtc_ok :: "rtc_dev \<Rightarrow> bool" where
  "rtc_ok s \<longleftrightarrow> (rtc_ready s \<longrightarrow> backup_open s) \<and> rtc_wpr s = 0 \<and> \<not> rtc_dr_frozen s \<and> RTC_CR s AND RTC_CR_BYPSHAD = 0"

lemma unlock_open: "backup_open s \<Longrightarrow> write_unlock s = s\<lparr>rtc_wpr := 2\<rparr>"
  by (simp add: write_unlock_def RTC_WPR_write_def backup_open_def RTC_WPR_KEY1_def RTC_WPR_KEY2_def)

lemma lock_open: "backup_open s \<Longrightarrow> write_lock s = s\<lparr>rtc_wpr := 0\<rparr>"
  by (simp add: write_lock_def RTC_WPR_write_def RTC_WPR_LOCK_def RTC_WPR_KEY1_def RTC_WPR_KEY2_def)

lemma copies_wpr [simp]: "copies next c (t\<lparr>rtc_wpr := w\<rparr>) = copies next c t"
  by (simp add: copies_def isr_flags)

lemma open_isr_write: "rtc_open s \<Longrightarrow> RTC_ISR_write v s = s\<lparr>rtc_isr := isr_written True (rtc_isr s) v\<rparr>"
  by (simp add: RTC_ISR_write_def rtc_open_def)

lemma sync_starts:
  assumes "rtc_open s" "rtc_next s = next" "rtc_calendar s = (next ^^ n) c" "\<not> rtc_dr_frozen s"
  shows "copies next c (RTC_ISR_write (RTC_ISR_read s AND NOT RTC_ISR_RSF) s)"
proof -
  have "\<not> bit (RTC_ISR_read s AND NOT RTC_ISR_RSF) 5"
    by (simp add: bit_and_iff bit_not_iff_eq RTC_ISR_RSF_def bit_one_at del: push_bit_of_1)
  then show ?thesis
    using assms by (auto simp: copies_def isr_flags open_isr_write isr_written_bit)
qed

lemma driver_view_updates [simp]:
  "driver_view (s\<lparr>rtc_isr := v\<rparr>) = driver_view s" "driver_view (s\<lparr>rtc_calendar := c\<rparr>) = driver_view s"
  by (simp_all add: driver_view_def)

lemma init_enter_opens:
  assumes "init_enter s = (st, t)" "rtc_open s"
  shows "driver_view t = driver_view s" "st = HAL_OK \<Longrightarrow> isr_flag RTC_ISR_INITF t" "st = HAL_OK \<or> st = HAL_ERR_TIMEOUT"
proof -
  note r = assms(1) [unfolded init_enter_def]
  show "driver_view t = driver_view s"
    using rtc_wait_kept(2) [OF r] assms(2) by (simp add: open_isr_write)
  have "st = HAL_OK \<and> \<not> \<not> isr_flag RTC_ISR_INITF t \<or> st = HAL_ERR_TIMEOUT \<and> \<not> isr_flag RTC_ISR_INITF t"
    using rtc_wait_inv(2) [OF r, of "\<lambda>_. True"] by simp
  then show "st = HAL_OK \<Longrightarrow> isr_flag RTC_ISR_INITF t" "st = HAL_OK \<or> st = HAL_ERR_TIMEOUT" by auto
qed

lemma wait_sync_view:
  assumes "wait_sync s = (st, t)"
  shows "driver_view t = driver_view s"
  using rtc_wait_kept(2) [OF assms [unfolded wait_sync_def]] by (simp add: RTC_ISR_write_def split: if_splits)

lemma set_datetime_copies:
  assumes ok: "rtc_ok s" and r: "hal_rtc_set_datetime (Some dt) s = (HAL_OK, t)"
  shows "datetime_valid dt" "copies (rtc_next s) (encode_tr dt, encode_dr dt) t" "isr_flag RTC_ISR_RSF t" "rtc_ok t" "rtc_ready t"
    "RTC_BKPR t = RTC_BKPR s"
proof -
  let ?u = "s\<lparr>rtc_wpr := 2\<rparr>"
  have rdy: "rtc_ready s" and v: "datetime_valid dt"
    using r by (auto simp: hal_rtc_set_datetime_def split: if_splits)
  have b: "backup_open s" using ok rdy by (simp add: rtc_ok_def)
  then have o: "rtc_open ?u" by (simp add: rtc_open_def backup_open_def)
  obtain st1 s1 where i: "init_enter ?u = (st1, s1)" by fastforce
  have st1: "st1 = HAL_OK"
    using r rdy v by (auto simp: hal_rtc_set_datetime_def unlock_open [OF b] i split: if_splits)
  note e = init_enter_opens [OF i o]
  have o1: "rtc_open s1" using driver_view_fields(18) [OF e(1)] o by simp
  define s2 where "s2 = init_exit (s1\<lparr>rtc_calendar := (encode_tr dt, encode_dr dt)\<rparr>)"
  have w: "RTC_DR_write (encode_dr dt) (RTC_TR_write (encode_tr dt) s1) = s1\<lparr>rtc_calendar := (encode_tr dt, encode_dr dt)\<rparr>"
    using o1 e(2) [OF st1] by (simp add: RTC_TR_write_def RTC_DR_write_def rtc_open_def backup_open_def isr_flags)
  obtain st3 s3 where y: "wait_sync s2 = (st3, s3)" by fastforce
  have r3: "st3 = HAL_OK" "t = write_lock s3"
    using r rdy v by (auto simp: hal_rtc_set_datetime_def unlock_open [OF b] i st1 w s2_def [symmetric] y)
  have o1': "rtc_open (s1\<lparr>rtc_calendar := c\<rparr>)" for c using o1 by (simp add: rtc_open_def backup_open_def)
  have s2: "driver_view s2 = driver_view ?u" "rtc_calendar s2 = (encode_tr dt, encode_dr dt)"
    using e(1) by (simp_all add: s2_def init_exit_def open_isr_write [OF o1'])
  have o2: "rtc_open s2" using driver_view_fields(18) [OF s2(1)] o by simp
  have "copies (rtc_next s) (encode_tr dt, encode_dr dt) (RTC_ISR_write (RTC_ISR_read s2 AND NOT RTC_ISR_RSF) s2)"
    by (rule sync_starts [where n = 0])
      (use o2 s2 driver_view_fields(4,9) [OF s2(1)] ok in \<open>simp_all add: rtc_ok_def\<close>)
  note c = wait_sync_copies [OF y this]
  have d3: "driver_view s3 = driver_view ?u" using wait_sync_view [OF y] s2(1) by simp
  have b3: "backup_open s3" using driver_view_fields(17) [OF d3] b by (simp add: backup_open_def)
  have t: "t = s3\<lparr>rtc_wpr := 0\<rparr>" using r3(2) lock_open [OF b3] by simp
  show "datetime_valid dt" by (rule v)
  show "copies (rtc_next s) (encode_tr dt, encode_dr dt) t" using c(1) t by simp
  show "isr_flag RTC_ISR_RSF t" using c(2) [OF r3(1)] t by (simp add: isr_flags)
  show "rtc_ok t" using ok b3 driver_view_fields(3,4) [OF d3] unfolding t by (simp add: rtc_ok_def backup_open_def)
  show "rtc_ready t" using rdy driver_view_fields(5) [OF d3] unfolding t by simp
  show "RTC_BKPR t = RTC_BKPR s" using driver_view_fields(8) [OF d3] unfolding t by simp
qed


section \<open>Adopting a running calendar\<close>

lemma copies_isr_write: "copies next c s \<Longrightarrow> copies next c (RTC_ISR_write v s)"
  by (simp add: copies_def RTC_ISR_write_def isr_flags isr_written_bit)

lemma copies_updates [simp]:
  "copies next c (s\<lparr>rtc_ready := b\<rparr>) = copies next c s" "copies next c (s\<lparr>RCC_BDCR := v\<rparr>) = copies next c s"
  "copies next c (s\<lparr>RCC_CSR := v\<rparr>) = copies next c s"
  by (simp_all add: copies_def isr_flags)

lemma rtc_wait_copies: "rtc_wait waiting n s = (st, t) \<Longrightarrow> copies next c s \<Longrightarrow> copies next c t"
  by (rule rtc_wait_inv [of waiting n s st t "copies next c"]) (auto intro: copies_happens)

lemma start_copies:
  "start_lsi s = (st, t) \<Longrightarrow> copies next c s \<Longrightarrow> copies next c t"
  "start_lse ms s = (st, t) \<Longrightarrow> RCC_BDCR s AND RCC_BDCR_BDRST = 0 \<Longrightarrow> copies next c s \<Longrightarrow> copies next c t"
proof -
  show "copies next c t" if "start_lsi s = (st, t)" "copies next c s"
    using that(2) by (intro rtc_wait_copies [OF that(1) [unfolded start_lsi_def]]) (simp add: RCC_CSR_write_def)
  assume r: "start_lse ms s = (st, t)" and b: "RCC_BDCR s AND RCC_BDCR_BDRST = 0" and c: "copies next c s"
  have "(RCC_BDCR s OR RCC_BDCR_LSEON) AND RCC_BDCR_BDRST = 0"
    using b by (simp add: bit.conj_disj_distrib2) (simp add: rcc_bdcr_defs)
  then show "copies next c t"
    using c by (intro rtc_wait_copies [OF r [unfolded start_lse_def]]) (simp add: RCC_BDCR_write_def)
qed

lemma kept_clock:
  assumes "kept s t"
  shows "hal_rtc_get_clock t = hal_rtc_get_clock s"
proof -
  let ?m = "RCC_BDCR_RTCEN OR RCC_BDCR_RTCSEL_MASK"
  have "RCC_BDCR t AND ?m = RCC_BDCR s AND ?m" using assms by (simp add: kept_def)
  then have e: "(RCC_BDCR t AND ?m) AND x = (RCC_BDCR s AND ?m) AND x" for x by simp
  have m: "?m AND RCC_BDCR_RTCEN = RCC_BDCR_RTCEN" "?m AND RCC_BDCR_RTCSEL_MASK = RCC_BDCR_RTCSEL_MASK"
    by (simp_all add: rcc_bdcr_defs)
  have "RCC_BDCR t AND RCC_BDCR_RTCEN = RCC_BDCR s AND RCC_BDCR_RTCEN"
    "RCC_BDCR t AND RCC_BDCR_RTCSEL_MASK = RCC_BDCR s AND RCC_BDCR_RTCSEL_MASK"
    using e [of RCC_BDCR_RTCEN] e [of RCC_BDCR_RTCSEL_MASK] unfolding and.assoc m by blast+
  then show ?thesis by (simp add: hal_rtc_get_clock_def)
qed

lemma adopt_copies:
  assumes a: "rtc_adopt sel ms s = (st, t)" and b: "RCC_BDCR s AND RCC_BDCR_BDRST = 0" and c: "copies next c s"
  shows "kept s t" "copies next c t" "st = HAL_OK \<Longrightarrow> isr_flag RTC_ISR_RSF t \<and> rtc_ready t"
proof -
  define r0 where "r0 = (if sel = RCC_BDCR_RTCSEL_LSI then start_lsi s
      else if RCC_BDCR s AND RCC_BDCR_LSERDY = 0 then start_lse ms s else (HAL_OK, s))"
  obtain st1 s1 where o1: "r0 = (st1, s1)" by fastforce
  have k: "kept s s1 \<and> copies next c s1"
  proof (cases "sel = RCC_BDCR_RTCSEL_LSI")
    case True
    then have "start_lsi s = (st1, s1)" using o1 by (simp add: r0_def)
    then show ?thesis using start_kept(1) start_copies(1) c by blast
  next
    case False
    then show ?thesis
      using o1 start_kept(2) [of ms s st1 s1] start_copies(2) [of ms s st1 s1 "next" c] b c
      by (cases "RCC_BDCR s AND RCC_BDCR_LSERDY = 0") (auto simp: r0_def)
  qed
  have a': "ok_or_return (st1, s1) (\<lambda>s. wait_sync (s\<lparr>rtc_ready := True\<rparr>)) = (st, t)"
    using a unfolding rtc_adopt_def r0_def [symmetric] o1 .
  have g: "kept s t \<and> copies next c t \<and> (st = HAL_OK \<longrightarrow> isr_flag RTC_ISR_RSF t \<and> rtc_ready t)"
  proof (cases "st1 = HAL_OK")
    case True
    then have w: "wait_sync (s1\<lparr>rtc_ready := True\<rparr>) = (st, t)" using a' by simp
    have "kept (s1\<lparr>rtc_ready := True\<rparr>) t" by (rule wait_sync_kept [OF w])
    then have "kept s1 t" by (simp add: kept_def)
    moreover have "rtc_ready t = rtc_ready (s1\<lparr>rtc_ready := True\<rparr>)" by (rule driver_view_fields [OF wait_sync_view [OF w]])
    moreover have "copies next c t" "st = HAL_OK \<longrightarrow> isr_flag RTC_ISR_RSF t"
      using wait_sync_copies [OF w, of "next" c] copies_isr_write k by (metis copies_updates(1))+
    ultimately show ?thesis using k kept_trans by auto
  qed (use a' k in auto)
  then show "kept s t" "copies next c t" "st = HAL_OK \<Longrightarrow> isr_flag RTC_ISR_RSF t \<and> rtc_ready t" by auto
qed

lemma init_adopts:
  assumes "hal_rtc_is_set s" "RCC_BDCR s AND RCC_BDCR_BDRST = 0"
    and "\<And>c. cfg = Some c \<Longrightarrow> rc_clock c \<in> {HAL_RTC_CLOCK_AUTO, hal_rtc_get_clock s}"
  shows "hal_rtc_init cfg (system_reset s) =
    rtc_adopt (RCC_BDCR s AND RCC_BDCR_RTCSEL_MASK) (case cfg of None \<Rightarrow> 0 | Some c \<Rightarrow> rc_lse_timeout_ms c)
      (rtc_power (system_reset s))"
proof -
  have p: "RCC_BDCR (rtc_power (system_reset s)) = RCC_BDCR s"
      "rtc_calendar (rtc_power (system_reset s)) = rtc_calendar s"
    by (simp_all add: rtc_power_def system_reset_def PWR_CR_write_def Let_def)
  have e: "RCC_BDCR s AND RCC_BDCR_RTCEN \<noteq> 0" "year_field (snd (rtc_calendar s)) \<noteq> 0"
    using assms(1) by (simp_all add: hal_rtc_is_set_def isr_flags)
  have "\<not> rtc_mismatch (case cfg of None \<Rightarrow> HAL_RTC_CLOCK_AUTO | Some c \<Rightarrow> rc_clock c) (RCC_BDCR s AND RCC_BDCR_RTCSEL_MASK)"
    using assms(3) e(1) by (auto simp: rtc_mismatch_def hal_rtc_get_clock_def Let_def split: option.splits if_splits)
  then show ?thesis
    unfolding hal_rtc_init_def Let_def p isr_flags using e by simp
qed

section \<open>Alarms\<close>

text \<open>The fields an alarm names have to be those of the instant.\<close>

definition alarm_wants :: "hal_rtc_alarm_config \<Rightarrow> hal_rtc_datetime \<Rightarrow> bool" where
  "alarm_wants c dt \<longleftrightarrow>
     (ac_match c AND HAL_RTC_MATCH_SECOND \<noteq> 0 \<longrightarrow> ac_second c = dt_second dt) \<and>
     (ac_match c AND HAL_RTC_MATCH_MINUTE \<noteq> 0 \<longrightarrow> ac_minute c = dt_minute dt) \<and>
     (ac_match c AND HAL_RTC_MATCH_HOUR \<noteq> 0 \<longrightarrow> ac_hour c = dt_hour dt) \<and>
     (ac_match c AND HAL_RTC_MATCH_DAY \<noteq> 0 \<longrightarrow> ac_day c = (if ac_day_is_weekday c then dt_weekday dt else dt_day dt))"

lemma if_or: "(if b then r OR x else r) = r OR (if b then x else (0 :: u32))" by simp

lemma bit_if_0: "bit (if b then x else (0 :: u32)) n \<longleftrightarrow> b \<and> bit x n" by simp

lemma alarm_encode_bit:
  "bit (alarm_encode c) n \<longleftrightarrow> n < 32 \<and>
    (bit (to_bcd (ac_second c)) n \<or> 8 \<le> n \<and> bit (to_bcd (ac_minute c)) (n - 8) \<or> 16 \<le> n \<and> bit (to_bcd (ac_hour c)) (n - 16) \<or>
     24 \<le> n \<and> bit (to_bcd (ac_day c)) (n - 24) \<or>
     n = 7 \<and> ac_match c AND HAL_RTC_MATCH_SECOND = 0 \<or> n = 15 \<and> ac_match c AND HAL_RTC_MATCH_MINUTE = 0 \<or>
     n = 23 \<and> ac_match c AND HAL_RTC_MATCH_HOUR = 0 \<or> n = 31 \<and> ac_match c AND HAL_RTC_MATCH_DAY = 0 \<or>
     n = 30 \<and> ac_day_is_weekday c)"
proof (cases "n < 32")
  case True
  then have k: "n - k < 32" for k by simp
  show ?thesis
    unfolding alarm_encode_def Let_def if_or bit_or_iff bit_if_0 rtc_alrm_defs bit_one_at
    unfolding bit_push_bit_iff bit_ucast_iff
    using True by (simp add: k disj_assoc conj_commute)
qed (auto dest: bit_imp_le_length)

lemma bit_u8: "bit (v :: u8) n \<Longrightarrow> n < 8"
  by (auto dest: bit_imp_le_length)

lemma no_bit_u8: "8 \<le> n \<Longrightarrow> \<not> bit (v :: u8) n"
  using bit_imp_le_length [of v n] by auto

lemma fits_no_bit: "fits k v \<Longrightarrow> k \<le> n \<Longrightarrow> \<not> bit v n"
  using fits_bit by fastforce

lemma alarm_encode_fields:
  assumes "alarm_valid c"
  shows "alarm_encode c AND 0x7F = ucast (to_bcd (ac_second c))"
    "drop_bit 8 (alarm_encode c) AND 0x7F = ucast (to_bcd (ac_minute c))"
    "drop_bit 16 (alarm_encode c) AND 0x7F = ucast (to_bcd (ac_hour c))"
    "alarm_encode c AND RTC_ALRM_MSK_SECOND \<noteq> 0 \<longleftrightarrow> ac_match c AND HAL_RTC_MATCH_SECOND = 0"
    "alarm_encode c AND RTC_ALRM_MSK_MINUTE \<noteq> 0 \<longleftrightarrow> ac_match c AND HAL_RTC_MATCH_MINUTE = 0"
    "alarm_encode c AND RTC_ALRM_MSK_HOUR \<noteq> 0 \<longleftrightarrow> ac_match c AND HAL_RTC_MATCH_HOUR = 0"
proof -
  have v: "ac_second c \<le> 59" "ac_minute c \<le> 59" "ac_hour c \<le> 23" using assms by (simp_all add: alarm_valid_def not_less)
  note fit = fits_bcd(1) [OF v(1)] fits_bcd(1) [OF v(2)] fits_bcd(2) [OF v(3)]
  note f = fit [THEN fits_no_bit] and g = fit [THEN fits_bit] bit_u8
  note b = no_bit_u8 alarm_encode_bit bit_and_iff bit_drop_bit_eq bit_mask_iff bit_ucast_iff
  show "alarm_encode c AND 0x7F = ucast (to_bcd (ac_second c))"
    "drop_bit 8 (alarm_encode c) AND 0x7F = ucast (to_bcd (ac_minute c))"
    "drop_bit 16 (alarm_encode c) AND 0x7F = ucast (to_bcd (ac_hour c))"
    unfolding low_masks by (rule bit_word_eqI; auto simp: b simp: f no_bit_u8 dest: g)+
  show "alarm_encode c AND RTC_ALRM_MSK_SECOND \<noteq> 0 \<longleftrightarrow> ac_match c AND HAL_RTC_MATCH_SECOND = 0"
    "alarm_encode c AND RTC_ALRM_MSK_MINUTE \<noteq> 0 \<longleftrightarrow> ac_match c AND HAL_RTC_MATCH_MINUTE = 0"
    "alarm_encode c AND RTC_ALRM_MSK_HOUR \<noteq> 0 \<longleftrightarrow> ac_match c AND HAL_RTC_MATCH_HOUR = 0"
    unfolding rtc_alrm_defs and_bit_neq_0 by (auto simp: alarm_encode_bit simp: f no_bit_u8 dest: g)
qed

lemma alarm_encode_day:
  assumes v: "alarm_valid c" and m: "ac_match c AND HAL_RTC_MATCH_DAY \<noteq> 0"
  shows "drop_bit 24 (alarm_encode c) AND 0x3F = ucast (to_bcd (ac_day c))"
    "ac_day_is_weekday c \<Longrightarrow> drop_bit 24 (alarm_encode c) AND 0xF = ucast (ac_day c)"
    "alarm_encode c AND RTC_ALRM_WDSEL \<noteq> 0 \<longleftrightarrow> ac_day_is_weekday c"
    "alarm_encode c AND RTC_ALRM_MSK_DAY = 0"
proof -
  have d: "ac_day c \<le> 31" and h: "ac_hour c \<le> 23" and w: "ac_day_is_weekday c \<Longrightarrow> ac_day c \<le> 7"
    using assms by (auto simp: alarm_valid_def not_less word_le_nat_alt split: if_splits)
  note fit = fits_bcd(3) [OF d] fits_bcd(2) [OF h]
  note f = fit [THEN fits_no_bit] and g = fit [THEN fits_bit] bit_u8
  note b = no_bit_u8 alarm_encode_bit bit_and_iff bit_drop_bit_eq bit_mask_iff bit_ucast_iff
  show "drop_bit 24 (alarm_encode c) AND 0x3F = ucast (to_bcd (ac_day c))"
    unfolding low_masks by (rule bit_word_eqI) (auto simp: b m simp: f no_bit_u8 dest: g)
  show "drop_bit 24 (alarm_encode c) AND 0xF = ucast (ac_day c)" if "ac_day_is_weekday c"
  proof -
    have "to_bcd (ac_day c) = ac_day c"
      using bcd(2) [of "ac_day c"] w [OF that] by (simp add: word_unat_eq_iff word_le_nat_alt word_less_nat_alt)
    moreover have "drop_bit 24 (alarm_encode c) AND 0xF = ucast (to_bcd (ac_day c))"
      unfolding low_masks
      by (rule bit_word_eqI)
        (auto simp: b m f fits_no_bit [OF fits_bcd(6) [OF w [OF that]]] dest: g fits_bit [OF fits_bcd(6) [OF w [OF that]]])
    ultimately show ?thesis by simp
  qed
  show "alarm_encode c AND RTC_ALRM_WDSEL \<noteq> 0 \<longleftrightarrow> ac_day_is_weekday c"
    "alarm_encode c AND RTC_ALRM_MSK_DAY = 0"
    unfolding rtc_alrm_defs and_bit_neq_0 by (auto simp: alarm_encode_bit m simp: f no_bit_u8 dest: g)
qed

lemma ucast_u8_inj: "(ucast a :: u32) = ucast b \<longleftrightarrow> a = (b :: u8)"
  by (metis u8_32_8)

lemma alarm_hits_encode:
  assumes c: "alarm_valid c" and dt: "datetime_valid dt"
  shows "alarm_hits (alarm_encode c) (encode_tr dt, encode_dr dt) \<longleftrightarrow> alarm_wants c dt"
proof -
  have v: "dt_month dt \<le> 12" "dt_day dt \<le> 31" "dt_weekday dt \<le> 7" "dt_hour dt \<le> 23" "dt_minute dt \<le> 59" "dt_second dt \<le> 59"
    using dt by (simp_all add: datetime_valid_def not_less)
  have l: "x \<le> 59 \<Longrightarrow> x < 100" "x \<le> 23 \<Longrightarrow> x < 100" "x \<le> 31 \<Longrightarrow> x < 100" "x \<le> 7 \<Longrightarrow> x < 100" for x :: u8
    by (simp_all add: word_less_nat_alt word_le_nat_alt)
  have w: "ac_second c \<le> 59" "ac_minute c \<le> 59" "ac_hour c \<le> 23" using c by (simp_all add: alarm_valid_def not_less)
  have d: "ac_match c AND HAL_RTC_MATCH_DAY \<noteq> 0 \<Longrightarrow> ac_day c \<le> 31"
    using c by (auto simp: alarm_valid_def not_less word_le_nat_alt split: if_splits)
  note t = time_fields [OF fits_bcd(2) [OF v(4)] fits_bcd(1) [OF v(5)] fits_bcd(1) [OF v(6)]]
  note e = date_fields [OF fits_bcd(5) [OF v(3)] fits_bcd(4) [OF v(1)] fits_bcd(3) [OF v(2)]]
  have tr: "drop_bit 16 (encode_tr dt) AND 0x7F = ucast (to_bcd (dt_hour dt))"
    "drop_bit 8 (encode_tr dt) AND 0x7F = ucast (to_bcd (dt_minute dt))" "encode_tr dt AND 0x7F = ucast (to_bcd (dt_second dt))"
    unfolding encode_tr_def rtc_shift_defs using t by (simp_all only: drop_bit_0 id_apply)
  have dr: "drop_bit 13 (encode_dr dt) AND 0x7 = ucast (dt_weekday dt)" "encode_dr dt AND 0x3F = ucast (to_bcd (dt_day dt))"
    unfolding encode_dr_def rtc_shift_defs using e by (simp_all only: drop_bit_0 id_apply)
  have day: "(alarm_encode c AND RTC_ALRM_MSK_DAY \<noteq> 0 \<or>
      (if alarm_encode c AND RTC_ALRM_WDSEL \<noteq> 0 then drop_bit 24 (alarm_encode c) AND 0xF = drop_bit 13 (encode_dr dt) AND 0x7
       else drop_bit 24 (alarm_encode c) AND 0x3F = encode_dr dt AND 0x3F)) \<longleftrightarrow>
    (ac_match c AND HAL_RTC_MATCH_DAY \<noteq> 0 \<longrightarrow> ac_day c = (if ac_day_is_weekday c then dt_weekday dt else dt_day dt))"
  proof (cases "ac_match c AND HAL_RTC_MATCH_DAY = 0")
    case True
    then have "alarm_encode c AND RTC_ALRM_MSK_DAY \<noteq> 0"
      unfolding rtc_alrm_defs and_bit_neq_0 by (simp add: alarm_encode_bit)
    then show ?thesis using True by simp
  next
    case False
    show ?thesis
      using False alarm_encode_day [OF c False] bcd_inj [OF l(3) [OF d [OF False]] l(3) [OF v(2)]]
      by (simp add: dr ucast_u8_inj)
  qed
  show ?thesis
    unfolding alarm_hits_def fst_conv snd_conv day alarm_wants_def alarm_encode_fields [OF c] tr ucast_u8_inj
      bcd_inj [OF l(1) [OF w(1)] l(1) [OF v(6)]] bcd_inj [OF l(1) [OF w(2)] l(1) [OF v(5)]] bcd_inj [OF l(2) [OF w(3)] l(2) [OF v(4)]]
    by blast
qed


lemma cr_write_fields [simp]:
  "rtc_calendar (RTC_CR_write v s) = rtc_calendar s" "RCC_BDCR (RTC_CR_write v s) = RCC_BDCR s"
  "PWR_CR (RTC_CR_write v s) = PWR_CR s" "rtc_wpr (RTC_CR_write v s) = rtc_wpr s" "rtc_next (RTC_CR_write v s) = rtc_next s"
  "rtc_ready (RTC_CR_write v s) = rtc_ready s" "alarm_cb (RTC_CR_write v s) = alarm_cb s" "RTC_ALRMAR (RTC_CR_write v s) = RTC_ALRMAR s"
  "RTC_ALRMBR (RTC_CR_write v s) = RTC_ALRMBR s" "rtc_dr_frozen (RTC_CR_write v s) = rtc_dr_frozen s"
  "EXTI_PR (RTC_CR_write v s) = EXTI_PR s" "EXTI_IMR (RTC_CR_write v s) = EXTI_IMR s" "RTC_WUTR (RTC_CR_write v s) = RTC_WUTR s"
  "rtc_open (RTC_CR_write v s) = rtc_open s" "backup_open (RTC_CR_write v s) = backup_open s"
  by (simp_all add: RTC_CR_write_def Let_def rtc_open_def backup_open_def)

lemma cr_write_bit:
  assumes "rtc_open s" "n \<notin> {0, 1, 2, 6}"
  shows "bit (RTC_CR (RTC_CR_write v s)) n = bit v n"
proof -
  have m: "RTC_CR_WUCKSEL_MASK = mask 3" by (simp add: RTC_CR_WUCKSEL_MASK_def mask_eq_exp_minus_1)
  show ?thesis
    using assms
    by (auto simp: RTC_CR_write_def Let_def bit_or_iff bit_and_iff bit_not_iff_eq bit_if_0 m bit_mask_iff RTC_CR_FMT_def bit_one_at
        simp del: push_bit_of_1 dest: bit_imp_le_length)
qed

lemma cr_write_isr:
  assumes "rtc_open s"
  shows "bit (rtc_isr (RTC_CR_write v s)) n \<longleftrightarrow>
    bit (rtc_isr s) n \<and> (n = 0 \<longrightarrow> \<not> bit v 8) \<and> (n = 1 \<longrightarrow> \<not> bit v 9) \<and> (n = 2 \<longrightarrow> \<not> bit v 10)"
proof -
  have w: "bit RTC_ISR_ALRAWF n \<longleftrightarrow> n = 0" "bit RTC_ISR_ALRBWF n \<longleftrightarrow> n = 1" "bit RTC_ISR_WUTWF n \<longleftrightarrow> n = 2"
    unfolding rtc_isr_defs bit_one_at by auto
  have c: "v AND RTC_CR_ALRAE \<noteq> 0 \<longleftrightarrow> bit v 8" "v AND RTC_CR_ALRBE \<noteq> 0 \<longleftrightarrow> bit v 9" "v AND RTC_CR_WUTE \<noteq> 0 \<longleftrightarrow> bit v 10"
    unfolding rtc_cr_defs and_bit_neq_0 by auto
  have "rtc_isr (RTC_CR_write v s) = rtc_isr s AND NOT ((if bit v 8 then RTC_ISR_ALRAWF else 0) OR
      (if bit v 9 then RTC_ISR_ALRBWF else 0) OR (if bit v 10 then RTC_ISR_WUTWF else 0))"
    using assms by (simp add: RTC_CR_write_def Let_def c)
  then show ?thesis
    by (cases "n < 32") (auto simp: bit_and_iff bit_or_iff bit_not_iff_eq bit_if_0 w dest: bit_imp_le_length)
qed

text \<open>The bits of an alarm by number.\<close>

definition alarm_no :: "nat \<Rightarrow> nat" where
  "alarm_no a = (if a = HAL_RTC_ALARM_A then 0 else 1)"

lemma alarm_bits:
  "alarm_enable a = push_bit (8 + alarm_no a) 1" "alarm_irq_en a = push_bit (12 + alarm_no a) 1"
  "alarm_writable a = push_bit (alarm_no a) 1" "alarm_flag a = push_bit (8 + alarm_no a) 1" "alarm_no a < 2"
  by (simp_all add: alarm_no_def alarm_bit_defs rtc_isr_defs rtc_cr_defs del: push_bit_of_1)

lemma alarm_isr_flags:
  "isr_flag (alarm_flag a) s \<longleftrightarrow> bit (rtc_isr s) (8 + alarm_no a)" "isr_flag (alarm_writable a) s \<longleftrightarrow> bit (rtc_isr s) (alarm_no a)"
  using alarm_bits(5) [of a] unfolding isr_flag_def alarm_bits and_bit_neq_0 isr_read_bit by auto


lemma clear_flag_open:
  assumes "rtc_open s" "f \<in> {8, 9, 10}"
  shows "clear_flag (push_bit f 1) s = s\<lparr>rtc_isr := rtc_isr (clear_flag (push_bit f 1) s)\<rparr>"
    "bit (rtc_isr (clear_flag (push_bit f 1) s)) n \<longleftrightarrow> bit (rtc_isr s) n \<and> n \<noteq> f \<and> n \<noteq> 6 \<and> n \<noteq> 7"
proof -
  define v where "v = NOT (push_bit f 1 OR RTC_ISR_INIT)"
  have b: "bit v m \<longleftrightarrow> m < 32 \<and> m \<noteq> f \<and> m \<noteq> 7" for m
    using assms(2)
    by (auto simp: v_def bit_not_iff_eq bit_and_iff bit_or_iff RTC_ISR_INIT_def bit_one_at simp del: push_bit_of_1 dest: bit_imp_le_length)
  have c: "clear_flag (push_bit f 1) s = s\<lparr>rtc_isr := isr_written True (rtc_isr s) v\<rparr>"
    unfolding clear_flag_def open_isr_write [OF assms(1)] v_def ..
  show "clear_flag (push_bit f 1) s = s\<lparr>rtc_isr := rtc_isr (clear_flag (push_bit f 1) s)\<rparr>"
    unfolding c by simp
  show "bit (rtc_isr (clear_flag (push_bit f 1) s)) n \<longleftrightarrow> bit (rtc_isr s) n \<and> n \<noteq> f \<and> n \<noteq> 6 \<and> n \<noteq> 7"
    using assms(2) by (auto simp: c isr_written_bit b simp del: push_bit_of_1 dest: bit_imp_le_length)
qed


section \<open>Arming an alarm\<close>

text \<open>The line of the alarms is listened to and reaches an enabled handler.\<close>

definition alarm_line_on :: "rtc_dev \<Rightarrow> bool" where
  "alarm_line_on s \<longleftrightarrow> EXTI_IMR s AND EXTI_LINE_RTC_ALARM \<noteq> 0 \<and> EXTI_RTSR s AND EXTI_LINE_RTC_ALARM \<noteq> 0 \<and>
     EXTI_PR s AND EXTI_LINE_RTC_ALARM = 0 \<and> irq_enabled 41 s \<and> irq_cb s 41 = Some RTC_ALARM_ISR"

lemma attach_line_some:
  assumes "0 \<le> irq" "nat irq < HAL_IRQ_COUNT"
  shows "attach_line line irq isr (Some cb) s =
    s\<lparr>EXTI_RTSR := EXTI_RTSR s OR line, EXTI_IMR := EXTI_IMR s OR line, EXTI_PR := EXTI_PR s AND NOT line,
      irq_cb := (irq_cb s)(nat irq := Some isr), NVIC_IPR := (NVIC_IPR s)(nat irq := 0x80),
      nvic_enabled := (nvic_enabled s)(nat irq div 32 := nvic_enabled s (nat irq div 32) OR push_bit (nat irq mod 32) 1)\<rparr>"
proof -
  have p: "\<not> ucast (8 :: u8) > PRIORITY_MASK" unfolding priority_ok by simp
  have q: "(ucast (push_bit (8 - NVIC_PRIO_BITS) (ucast (8 :: u8)) :: u32) :: u8) = 0x80" by (simp add: NVIC_PRIO_BITS_def)
  show ?thesis
    using assms p [simplified] q
    by (simp add: attach_line_def exti_line_enable_def EXTI_PR_write_def Let_def hal_interrupt_attach_callback_def irq_indexes_table_def
        hal_interrupt_layer armv7em_interrupt_enable_def enable_at_def armv7em_interrupt_set_priority_def HAL_IRQ_PRIORITY_DEFAULT_def
        NVIC_ISER_write_def del: push_bit_of_1)
qed

lemma attach_line_none:
  "attach_line line irq isr None s = s\<lparr>EXTI_IMR := EXTI_IMR s AND NOT line, EXTI_PR := EXTI_PR s AND NOT line\<rparr>"
  by (simp add: attach_line_def exti_line_enable_def EXTI_PR_write_def)

lemma irq_41: "nat RTC_Alarm_IRQn = 41" "0 \<le> RTC_Alarm_IRQn" "nat RTC_Alarm_IRQn < HAL_IRQ_COUNT"
  by (simp_all add: RTC_Alarm_IRQn_def HAL_IRQ_COUNT_def)

lemmas attach_alarm_some = attach_line_some [OF irq_41(2,3), unfolded irq_41(1)]

lemma alarm_line [simp]: "EXTI_LINE_RTC_ALARM \<noteq> 0" "(v AND NOT EXTI_LINE_RTC_ALARM) AND EXTI_LINE_RTC_ALARM = 0"
  by (simp_all add: EXTI_LINE_RTC_ALARM_def and.assoc)

lemma attach_alarm_line:
  "cb \<noteq> None \<Longrightarrow> alarm_line_on (attach_line EXTI_LINE_RTC_ALARM RTC_Alarm_IRQn RTC_ALARM_ISR cb s)"
  "EXTI_IMR (attach_line EXTI_LINE_RTC_ALARM RTC_Alarm_IRQn RTC_ALARM_ISR None s) AND EXTI_LINE_RTC_ALARM = 0"
proof -
  have "bit (x OR push_bit 9 1 :: u32) 9" for x by (simp add: bit_or_iff bit_one_at del: push_bit_of_1)
  then show "alarm_line_on (attach_line EXTI_LINE_RTC_ALARM RTC_Alarm_IRQn RTC_ALARM_ISR cb s)" if "cb \<noteq> None"
    using that by (auto simp: attach_alarm_some alarm_line_on_def  irq_enabled_def simp del: push_bit_of_1)
  show "EXTI_IMR (attach_line EXTI_LINE_RTC_ALARM RTC_Alarm_IRQn RTC_ALARM_ISR None s) AND EXTI_LINE_RTC_ALARM = 0"
    by (simp add: attach_line_none)
qed

lemma attach_line_frame:
  "rtc_isr (attach_line l RTC_Alarm_IRQn i cb s) = rtc_isr s" "RTC_CR (attach_line l RTC_Alarm_IRQn i cb s) = RTC_CR s"
  "rtc_calendar (attach_line l RTC_Alarm_IRQn i cb s) = rtc_calendar s"
  "alarm_reg a (attach_line l RTC_Alarm_IRQn i cb s) = alarm_reg a s"
  "alarm_cb (attach_line l RTC_Alarm_IRQn i cb s) = alarm_cb s" "rtc_ok (attach_line l RTC_Alarm_IRQn i cb s) = rtc_ok s"
  "RTC_BKPR (attach_line l RTC_Alarm_IRQn i cb s) = RTC_BKPR s" "rtc_next (attach_line l RTC_Alarm_IRQn i cb s) = rtc_next s"
  "rtc_ready (attach_line l RTC_Alarm_IRQn i cb s) = rtc_ready s" "RCC_BDCR (attach_line l RTC_Alarm_IRQn i cb s) = RCC_BDCR s"
  by (cases cb; simp add: attach_alarm_some attach_line_none alarm_reg_def rtc_ok_def backup_open_def)+

lemma clear_flag_fields [simp]:
  "rtc_calendar (clear_flag f s) = rtc_calendar s" "RTC_CR (clear_flag f s) = RTC_CR s" "rtc_open (clear_flag f s) = rtc_open s"
  "backup_open (clear_flag f s) = backup_open s" "rtc_wpr (clear_flag f s) = rtc_wpr s" "alarm_cb (clear_flag f s) = alarm_cb s"
  "rtc_next (clear_flag f s) = rtc_next s" "rtc_dr_frozen (clear_flag f s) = rtc_dr_frozen s" "rtc_ready (clear_flag f s) = rtc_ready s"
  "alarm_reg a (clear_flag f s) = alarm_reg a s" "RTC_WUTR (clear_flag f s) = RTC_WUTR s" "RTC_BKPR (clear_flag f s) = RTC_BKPR s"
  "EXTI_PR (clear_flag f s) = EXTI_PR s" "RCC_BDCR (clear_flag f s) = RCC_BDCR s" "EXTI_IMR (clear_flag f s) = EXTI_IMR s"
  by (simp_all add: clear_flag_def RTC_ISR_write_def rtc_open_def backup_open_def alarm_reg_def)

definition alrm_write :: "nat \<Rightarrow> u32 \<Rightarrow> rtc_dev \<Rightarrow> rtc_dev" where
  "alrm_write a v s = (if a = HAL_RTC_ALARM_A then RTC_ALRMAR_write v s else RTC_ALRMBR_write v s)"

lemma alrm_write_open:
  assumes "rtc_open s" "isr_flag (alarm_writable a) s"
  shows "alarm_reg a (alrm_write a v s) = v" "rtc_isr (alrm_write a v s) = rtc_isr s" "RTC_CR (alrm_write a v s) = RTC_CR s"
    "rtc_open (alrm_write a v s) = rtc_open s" "backup_open (alrm_write a v s) = backup_open s"
    "alarm_cb (alrm_write a v s) = alarm_cb s" "rtc_dr_frozen (alrm_write a v s) = rtc_dr_frozen s"
    "rtc_ready (alrm_write a v s) = rtc_ready s"
  using assms
  by (cases "a = HAL_RTC_ALARM_A"; simp add: alrm_write_def alarm_reg_def RTC_ALRMAR_write_def RTC_ALRMBR_write_def alarm_writable_def
      rtc_open_def backup_open_def)+

lemma lock_fields [simp]:
  "rtc_isr (write_lock s) = rtc_isr s" "RTC_CR (write_lock s) = RTC_CR s" "alarm_reg a (write_lock s) = alarm_reg a s"
  "backup_open (write_lock s) = backup_open s" "alarm_cb (write_lock s) = alarm_cb s" "rtc_dr_frozen (write_lock s) = rtc_dr_frozen s"
  "rtc_ready (write_lock s) = rtc_ready s" "rtc_calendar (write_lock s) = rtc_calendar s" "rtc_next (write_lock s) = rtc_next s"
  "RTC_WUTR (write_lock s) = RTC_WUTR s" "RTC_BKPR (write_lock s) = RTC_BKPR s" "EXTI_PR (write_lock s) = EXTI_PR s"
  "RCC_BDCR (write_lock s) = RCC_BDCR s" "EXTI_IMR (write_lock s) = EXTI_IMR s"
  by (simp_all add: write_lock_def RTC_WPR_write_def alarm_reg_def backup_open_def)

lemma alarm_reg_cr_write [simp]: "alarm_reg a (RTC_CR_write v s) = alarm_reg a s"
  by (simp add: alarm_reg_def)

text \<open>The writes that follow the wait for an alarm's registers.\<close>

definition alarm_arm :: "nat \<Rightarrow> u32 \<Rightarrow> callback option \<Rightarrow> rtc_dev \<Rightarrow> rtc_dev" where
  "alarm_arm a v cb s =
     (let s = clear_flag (alarm_flag a) (alrm_write a v s)
      in write_lock (RTC_CR_write (RTC_CR s OR (alarm_enable a OR (if cb \<noteq> None then alarm_irq_en a else 0))) s))"

lemma alarm_arm_effect:
  assumes o: "rtc_open s" and w: "isr_flag (alarm_writable a) s"
    and off: "RTC_CR s AND alarm_irq_en a = 0" and byp: "RTC_CR s AND RTC_CR_BYPSHAD = 0"
  shows "alarm_reg a (alarm_arm a v cb s) = v" "RTC_CR (alarm_arm a v cb s) AND alarm_enable a \<noteq> 0"
    "RTC_CR (alarm_arm a v cb s) AND alarm_irq_en a \<noteq> 0 \<longleftrightarrow> cb \<noteq> None" "\<not> isr_flag (alarm_flag a) (alarm_arm a v cb s)"
    "alarm_cb (alarm_arm a v cb s) = alarm_cb s" "rtc_ready (alarm_arm a v cb s) = rtc_ready s"
    "\<not> rtc_dr_frozen s \<Longrightarrow> rtc_ok (alarm_arm a v cb s)" "\<not> isr_flag RTC_ISR_INITF (alarm_arm a v cb s)"
proof -
  define u where "u = clear_flag (alarm_flag a) (alrm_write a v s)"
  define x where "x = RTC_CR s OR (alarm_enable a OR (if cb \<noteq> None then alarm_irq_en a else 0))"
  have u: "rtc_open u" "RTC_CR u = RTC_CR s" "alarm_reg a u = v" "alarm_cb u = alarm_cb s" "rtc_ready u = rtc_ready s"
      "rtc_dr_frozen u = rtc_dr_frozen s"
    using alrm_write_open [OF o w, of v] o by (simp_all add: u_def)
  have arm: "alarm_arm a v cb s = write_lock (RTC_CR_write x u)"
    by (simp add: alarm_arm_def Let_def u_def [symmetric] u(2) x_def)
  have b: "backup_open u" using u(1) by (simp add: rtc_open_def)
  have n: "alarm_no a < 2" by (rule alarm_bits)
  have x: "bit x (8 + alarm_no a)" "bit x (12 + alarm_no a) \<longleftrightarrow> cb \<noteq> None" "\<not> bit x 5"
    using n off byp unfolding x_def alarm_bits bit_or_iff bit_if_0 bit_one_at and_bit_neq_0 RTC_CR_BYPSHAD_def by auto
  have cr: "bit (RTC_CR (alarm_arm a v cb s)) k = bit x k" if "k \<notin> {0, 1, 2, 6}" for k
    using cr_write_bit [OF u(1) that] by (simp add: arm)
  show "alarm_reg a (alarm_arm a v cb s) = v" using u(3) by (simp add: arm)
  show "RTC_CR (alarm_arm a v cb s) AND alarm_enable a \<noteq> 0" "RTC_CR (alarm_arm a v cb s) AND alarm_irq_en a \<noteq> 0 \<longleftrightarrow> cb \<noteq> None"
    unfolding alarm_bits and_bit_neq_0 using cr x n by auto
  have "8 + alarm_no a \<in> {8, 9, 10}" using n by auto
  moreover have "rtc_open (alrm_write a v s)" using alrm_write_open(4) [OF o w] o by simp
  ultimately have "\<not> bit (rtc_isr u) (8 + alarm_no a)" "\<not> bit (rtc_isr u) 6"
    using clear_flag_open(2) unfolding u_def alarm_bits by blast+
  then show "\<not> isr_flag (alarm_flag a) (alarm_arm a v cb s)" "\<not> isr_flag RTC_ISR_INITF (alarm_arm a v cb s)"
    by (simp_all add: alarm_isr_flags isr_flags arm cr_write_isr [OF u(1)])
  show "alarm_cb (alarm_arm a v cb s) = alarm_cb s" "rtc_ready (alarm_arm a v cb s) = rtc_ready s" using u by (simp_all add: arm)
  have "RTC_CR (alarm_arm a v cb s) AND RTC_CR_BYPSHAD = 0" unfolding RTC_CR_BYPSHAD_def and_bit_neq_0 using cr x by simp
  then show "rtc_ok (alarm_arm a v cb s)" if "\<not> rtc_dr_frozen s"
    using that u b by (simp add: rtc_ok_def arm) (simp add: write_lock_def RTC_WPR_write_def RTC_WPR_LOCK_def RTC_WPR_KEY1_def RTC_WPR_KEY2_def)
qed

lemma alarm_arm_kept: "kept s (alarm_arm a v cb s)"
proof -
  have "kept s (alrm_write a v s)" by (simp add: alrm_write_def writes_kept)
  from kept_trans [OF kept_trans [OF kept_trans [OF this writes_kept(14)] writes_kept(4)] writes_kept(12)]
  show ?thesis unfolding alarm_arm_def Let_def .
qed

lemma set_alarm_effect:
  assumes ok: "rtc_ok s" and r: "hal_rtc_set_alarm a (Some c) cb s = (HAL_OK, t)"
  shows "alarm_valid c" "a = HAL_RTC_ALARM_A \<or> a = HAL_RTC_ALARM_B" "alarm_reg a t = alarm_encode c" "RTC_CR t AND alarm_enable a \<noteq> 0"
    "RTC_CR t AND alarm_irq_en a \<noteq> 0 \<longleftrightarrow> cb \<noteq> None" "\<not> isr_flag (alarm_flag a) t" "alarm_cb t = (alarm_cb s)(a := cb)"
    "rtc_ok t" "rtc_ready t" "cb \<noteq> None \<Longrightarrow> alarm_line_on t" "cb = None \<Longrightarrow> EXTI_IMR t AND EXTI_LINE_RTC_ALARM = 0"
    "kept s t" "\<not> isr_flag RTC_ISR_INITF t"
proof -
  have rdy: "rtc_ready s" and a: "a = HAL_RTC_ALARM_A \<or> a = HAL_RTC_ALARM_B" and v: "alarm_valid c"
    using r by (auto simp: hal_rtc_set_alarm_def split: if_splits)
  have b: "backup_open s" using ok rdy by (simp add: rtc_ok_def)
  define s1 where "s1 = write_unlock (s\<lparr>alarm_cb := (alarm_cb s)(a := cb)\<rparr>)"
  have s1: "rtc_open s1" "RTC_CR s1 = RTC_CR s" "alarm_cb s1 = (alarm_cb s)(a := cb)" "rtc_ready s1 = rtc_ready s"
      "rtc_dr_frozen s1 = rtc_dr_frozen s"
    using b unfolding s1_def by (subst unlock_open; simp add: rtc_open_def backup_open_def)+
  define x where "x = RTC_CR s1 AND NOT (alarm_enable a OR alarm_irq_en a)"
  define s2 where "s2 = RTC_CR_write x s1"
  have s2: "rtc_open s2" using s1(1) by (simp add: s2_def)
  have n: "alarm_no a < 2" by (rule alarm_bits)
  have "\<not> bit x (12 + alarm_no a)" "\<not> bit x 5"
    using ok n unfolding x_def alarm_bits s1(2) rtc_ok_def RTC_CR_BYPSHAD_def and_bit_neq_0
    by (auto simp: bit_and_iff bit_not_iff_eq bit_or_iff bit_one_at simp del: push_bit_of_1)
  then have cr2: "RTC_CR s2 AND alarm_irq_en a = 0" "RTC_CR s2 AND RTC_CR_BYPSHAD = 0"
    unfolding alarm_bits RTC_CR_BYPSHAD_def and_bit_neq_0 s2_def using cr_write_bit [OF s1(1)] n by auto
  obtain st s3 where w: "rtc_wait (\<lambda>t. \<not> isr_flag (alarm_writable a) t) RTC_TIMEOUT_SPINS s2 = (st, s3)" by fastforce
  have run: "hal_rtc_set_alarm a (Some c) cb s = (if st \<noteq> HAL_OK then (HAL_ERR_TIMEOUT, write_lock s3)
      else (HAL_OK, attach_line EXTI_LINE_RTC_ALARM RTC_Alarm_IRQn RTC_ALARM_ISR cb (alarm_arm a (alarm_encode c) cb s3)))"
    using rdy a v
    unfolding hal_rtc_set_alarm_def Let_def s1_def [symmetric] x_def [symmetric] s2_def [symmetric] w alarm_arm_def alrm_write_def
    by auto
  then have t: "st = HAL_OK" "t = attach_line EXTI_LINE_RTC_ALARM RTC_Alarm_IRQn RTC_ALARM_ISR cb (alarm_arm a (alarm_encode c) cb s3)"
    using r by (auto split: if_splits)
  have "isr_flag (alarm_writable a) s3" using rtc_wait_inv(2) [OF w, of "\<lambda>_. True"] t(1) by simp
  moreover note view = driver_view_fields [OF rtc_wait_kept(2) [OF w]]
  ultimately have arm: "rtc_open s3" "isr_flag (alarm_writable a) s3" "RTC_CR s3 AND alarm_irq_en a = 0" "RTC_CR s3 AND RTC_CR_BYPSHAD = 0"
    using s2 cr2 by simp_all
  note e = alarm_arm_effect [OF arm, of "alarm_encode c" cb]
  show "alarm_valid c" "a = HAL_RTC_ALARM_A \<or> a = HAL_RTC_ALARM_B" by (rule v, rule a)
  show "alarm_reg a t = alarm_encode c" "RTC_CR t AND alarm_enable a \<noteq> 0" "RTC_CR t AND alarm_irq_en a \<noteq> 0 \<longleftrightarrow> cb \<noteq> None"
    "\<not> isr_flag (alarm_flag a) t" "alarm_cb t = (alarm_cb s)(a := cb)" "rtc_ready t"
    using e view(5,6) rdy s1(3,4) by (simp_all add: t(2) attach_line_frame alarm_isr_flags s2_def)
  have "\<not> rtc_dr_frozen s" using ok by (simp add: rtc_ok_def)
  then show "rtc_ok t" using e(7) view(4) s1(5) by (simp add: t(2) attach_line_frame s2_def)
  show "cb \<noteq> None \<Longrightarrow> alarm_line_on t" "cb = None \<Longrightarrow> EXTI_IMR t AND EXTI_LINE_RTC_ALARM = 0"
    using attach_alarm_line by (auto simp: t(2))
  have "kept (s\<lparr>alarm_cb := (alarm_cb s)(a := cb)\<rparr>) s1" by (simp add: s1_def writes_kept)
  then have k1: "kept s s1" by (simp add: kept_def)
  have k2: "kept s1 s2" by (simp add: s2_def writes_kept)
  have "kept s (alarm_arm a (alarm_encode c) cb s3)"
    by (rule kept_trans [OF kept_trans [OF kept_trans [OF k1 k2] rtc_wait_kept(1) [OF w]] alarm_arm_kept])
  then show "kept s t" by (simp add: t(2) kept_def attach_line_frame)
  show "\<not> isr_flag RTC_ISR_INITF t" using e(8) by (simp add: t(2) attach_line_frame isr_flags)
qed


text \<open>A second passes.\<close>

lemma second_flag:
  assumes "calendar_runs s" "a = HAL_RTC_ALARM_A \<or> a = HAL_RTC_ALARM_B"
  shows "isr_flag (alarm_flag a) (rtc_happens SecondPassed s) \<longleftrightarrow>
    isr_flag (alarm_flag a) s \<or> RTC_CR s AND alarm_enable a \<noteq> 0 \<and> alarm_hits (alarm_reg a s) (rtc_next s (rtc_calendar s))"
proof -
  define u where "u = s\<lparr>rtc_calendar := rtc_next s (rtc_calendar s)\<rparr>"
  define v where "v = alarm_compare HAL_RTC_ALARM_A u"
  have f: "bit (alarm_flag x) (8 + alarm_no y) \<longleftrightarrow> alarm_no x = alarm_no y" for x y
    using alarm_bits(5) [of x] unfolding alarm_bits bit_one_at by auto
  have no: "alarm_no HAL_RTC_ALARM_A = 0" "alarm_no HAL_RTC_ALARM_B = 1" by (simp_all add: alarm_no_def HAL_RTC_ALARM_A_def HAL_RTC_ALARM_B_def)
  have v: "RTC_CR v = RTC_CR s" "alarm_reg x v = alarm_reg x s" for x
    using driver_view_fields(3,10,11) [of v s] by (simp_all add: v_def u_def alarm_reg_def)
  have u: "RTC_CR u = RTC_CR s" "alarm_reg x u = alarm_reg x s" "rtc_isr u = rtc_isr s" "rtc_calendar u = rtc_next s (rtc_calendar s)" for x
    by (simp_all add: u_def alarm_reg_def)
  let ?c = "rtc_next s (rtc_calendar s)"
  let ?hit = "\<lambda>x. RTC_CR s AND alarm_enable x \<noteq> 0 \<and> alarm_hits (alarm_reg x s) ?c"
  have "rtc_calendar v = ?c" by (simp add: v_def u)
  moreover have "rtc_happens SecondPassed s = alarm_compare HAL_RTC_ALARM_B v" using assms(1) by (simp add: u_def v_def)
  ultimately have b: "bit (rtc_isr (rtc_happens SecondPassed s)) n = (bit (rtc_isr v) n \<or> ?hit HAL_RTC_ALARM_B \<and> bit (alarm_flag HAL_RTC_ALARM_B) n)" for n
    by (simp only: alarm_compare_keeps(5) v conj_assoc)
  have "bit (rtc_isr v) n = (bit (rtc_isr s) n \<or> ?hit HAL_RTC_ALARM_A \<and> bit (alarm_flag HAL_RTC_ALARM_A) n)" for n
    by (simp only: v_def alarm_compare_keeps(5) u conj_assoc)
  then have "isr_flag (alarm_flag a) (rtc_happens SecondPassed s) \<longleftrightarrow> (isr_flag (alarm_flag a) s \<or>
      ?hit HAL_RTC_ALARM_A \<and> alarm_no HAL_RTC_ALARM_A = alarm_no a) \<or> ?hit HAL_RTC_ALARM_B \<and> alarm_no HAL_RTC_ALARM_B = alarm_no a"
    by (simp only: alarm_isr_flags b f)
  then show ?thesis using assms(2) no by (elim disjE) (simp_all del: rtc_happens.simps)
qed

definition alarm_pends :: "rtc_dev \<Rightarrow> bool" where
  "alarm_pends s \<longleftrightarrow> irq_pending 41 s"

lemma pulse_pends:
  assumes "alarm_line_on s \<or> alarm_pends s"
  shows "alarm_pends (exti_pulse EXTI_LINE_RTC_ALARM RTC_Alarm_IRQn s)"
proof -
  have "bit (x OR push_bit 9 1 :: u32) 9" for x by (simp add: bit_or_iff bit_one_at del: push_bit_of_1)
  then show ?thesis
    using assms
    by (auto simp: alarm_pends_def alarm_line_on_def exti_pulse_def irq_pending_def irq_41(1) bit_or_iff simp del: push_bit_of_1)
qed

lemma alarm_compare_pends:
  "alarm_pends s \<Longrightarrow> alarm_pends (alarm_compare a s)"
  "alarm_line_on s \<Longrightarrow> alarm_line_on (alarm_compare a s) \<or> alarm_pends (alarm_compare a s)"
  "alarm_line_on s \<Longrightarrow> RTC_CR s AND alarm_enable a \<noteq> 0 \<Longrightarrow> RTC_CR s AND alarm_irq_en a \<noteq> 0 \<Longrightarrow>
     alarm_hits (alarm_reg a s) (rtc_calendar s) \<Longrightarrow> alarm_pends (alarm_compare a s)"
proof -
  have i: "alarm_line_on (s\<lparr>rtc_isr := v\<rparr>) = alarm_line_on s" "alarm_pends (s\<lparr>rtc_isr := v\<rparr>) = alarm_pends s" for v
    by (simp_all add: alarm_line_on_def alarm_pends_def irq_enabled_def irq_pending_def)
  show "alarm_pends s \<Longrightarrow> alarm_pends (alarm_compare a s)"
    "alarm_line_on s \<Longrightarrow> alarm_line_on (alarm_compare a s) \<or> alarm_pends (alarm_compare a s)"
    "alarm_line_on s \<Longrightarrow> RTC_CR s AND alarm_enable a \<noteq> 0 \<Longrightarrow> RTC_CR s AND alarm_irq_en a \<noteq> 0 \<Longrightarrow>
     alarm_hits (alarm_reg a s) (rtc_calendar s) \<Longrightarrow> alarm_pends (alarm_compare a s)"
    by (simp_all add: alarm_compare_def Let_def i pulse_pends)
qed

lemma second_pends:
  assumes "calendar_runs s" "a = HAL_RTC_ALARM_A \<or> a = HAL_RTC_ALARM_B" "alarm_line_on s"
    "RTC_CR s AND alarm_enable a \<noteq> 0" "RTC_CR s AND alarm_irq_en a \<noteq> 0" "alarm_hits (alarm_reg a s) (rtc_next s (rtc_calendar s))"
  shows "alarm_pends (rtc_happens SecondPassed s)"
proof -
  define u where "u = s\<lparr>rtc_calendar := rtc_next s (rtc_calendar s)\<rparr>"
  define v where "v = alarm_compare HAL_RTC_ALARM_A u"
  have u: "alarm_line_on u" "RTC_CR u = RTC_CR s" "alarm_reg x u = alarm_reg x s" "rtc_calendar u = rtc_next s (rtc_calendar s)" for x
    using assms(3) by (simp_all add: u_def alarm_line_on_def irq_enabled_def alarm_reg_def)
  have v: "RTC_CR v = RTC_CR s" "alarm_reg x v = alarm_reg x s" "rtc_calendar v = rtc_calendar u" for x
    using driver_view_fields(3,10,11) [of v s] by (simp_all add: v_def u_def alarm_reg_def)
  have "rtc_happens SecondPassed s = alarm_compare HAL_RTC_ALARM_B v" using assms(1) by (simp add: u_def v_def)
  moreover have "alarm_pends v \<or> alarm_line_on v \<and> a = HAL_RTC_ALARM_B"
    using assms(2,4-6) alarm_compare_pends [of u HAL_RTC_ALARM_A] u by (auto simp: v_def)
  ultimately show ?thesis
    using assms(4-6) alarm_compare_pends [of v HAL_RTC_ALARM_B] v u by auto
qed

section \<open>The wakeup timer\<close>

lemma wakeup_plan_bounds:
  assumes hz: "hz = 2048 \<or> hz = 2000" and p: "0 < p" "p \<le> 65536000" and r: "wakeup_plan hz p = (sel, reload)"
  shows "0 < unat reload" "unat reload \<le> 65536"
    "sel = RTC_CR_WUCKSEL_DIV16 \<and> unat reload * 1000 \<le> unat p * unat hz \<and> unat p * unat hz < (unat reload + 1) * 1000 \<or>
     sel = RTC_CR_WUCKSEL_SPRE \<and> unat reload * 1000 \<le> unat p \<and> unat p < (unat reload + 1) * 1000"
proof -
  have n: "0 < unat p" "unat p \<le> 65536000" using p by (simp_all add: word_less_nat_alt word_le_nat_alt)
  have g: "0 < unat reload \<and> unat reload \<le> 65536 \<and>
    (sel = RTC_CR_WUCKSEL_DIV16 \<and> unat reload * 1000 \<le> unat p * unat hz \<and> unat p * unat hz < (unat reload + 1) * 1000 \<or>
     sel = RTC_CR_WUCKSEL_SPRE \<and> unat reload * 1000 \<le> unat p \<and> unat p < (unat reload + 1) * 1000)"
  proof (cases "p \<le> (65536 * 1000) div hz")
    case True
    then have le: "unat p * unat hz \<le> 65536000" using hz by (auto simp: word_le_nat_alt unat_div)
    moreover have hz': "2000 \<le> unat hz" using hz by auto
    ultimately have m: "unat (p * hz) = unat p * unat hz" by (simp add: unat_mult_lem [THEN iffD1])
    have "1 * 2000 \<le> unat p * unat hz" using n(1) hz' by (intro mult_mono) simp_all
    then have q: "2 \<le> unat p * unat hz div 1000" by linarith
    then have "p * hz div 1000 \<noteq> 0" using m by (auto simp: word_unat_eq_iff unat_div)
    then have rl: "sel = RTC_CR_WUCKSEL_DIV16" "unat reload = unat p * unat hz div 1000"
      using r True m by (auto simp: wakeup_plan_def Let_def unat_div)
    show ?thesis using rl q le by auto
  next
    case False
    then have "sel = RTC_CR_WUCKSEL_SPRE" "unat reload = unat p div 1000" using r by (auto simp: wakeup_plan_def unat_div)
    moreover have "32000 < unat p" using False hz by (auto simp: word_le_nat_alt unat_div)
    ultimately show ?thesis using n(2) by auto
  qed
  then show "0 < unat reload" "unat reload \<le> 65536"
    "sel = RTC_CR_WUCKSEL_DIV16 \<and> unat reload * 1000 \<le> unat p * unat hz \<and> unat p * unat hz < (unat reload + 1) * 1000 \<or>
     sel = RTC_CR_WUCKSEL_SPRE \<and> unat reload * 1000 \<le> unat p \<and> unat p < (unat reload + 1) * 1000" by blast+
qed

lemma cr_write_wucksel:
  assumes "rtc_open s" "isr_flag RTC_ISR_WUTWF s"
  shows "RTC_CR (RTC_CR_write v s) AND RTC_CR_WUCKSEL_MASK = v AND RTC_CR_WUCKSEL_MASK"
proof (rule bit_word_eqI)
  fix n assume "n < LENGTH(32)"
  then show "bit (RTC_CR (RTC_CR_write v s) AND RTC_CR_WUCKSEL_MASK) n = bit (v AND RTC_CR_WUCKSEL_MASK) n"
  proof -
    have m: "RTC_CR_WUCKSEL_MASK = mask 3" by (simp add: RTC_CR_WUCKSEL_MASK_def mask_eq_exp_minus_1)
    show ?thesis
      using assms
      by (auto simp: RTC_CR_write_def Let_def bit_or_iff bit_and_iff bit_not_iff_eq bit_if_0 m bit_mask_iff RTC_CR_FMT_def bit_one_at
          simp del: push_bit_of_1)
  qed
qed

text \<open>The writes that follow the wait.\<close>

definition wakeup_arm :: "u32 \<Rightarrow> u32 \<Rightarrow> callback option \<Rightarrow> rtc_dev \<Rightarrow> rtc_dev" where
  "wakeup_arm select reload cb s =
     (let s = RTC_WUTR_write (reload - 1) s;
          s = RTC_CR_write ((RTC_CR s AND NOT RTC_CR_WUCKSEL_MASK) OR select) s;
          s = clear_flag RTC_ISR_WUTF s;
          s = RTC_CR_write (RTC_CR s OR (RTC_CR_WUTE OR (if cb \<noteq> None then RTC_CR_WUTIE else 0))) s
      in write_lock s)"

lemma wakeup_arm_effect:
  assumes o: "rtc_open s" and w: "isr_flag RTC_ISR_WUTWF s" and off: "RTC_CR s AND RTC_CR_WUTE = 0"
    and sel: "select = RTC_CR_WUCKSEL_DIV16 \<or> select = RTC_CR_WUCKSEL_SPRE"
  shows "RTC_WUTR (wakeup_arm select reload cb s) = reload - 1" "RTC_CR (wakeup_arm select reload cb s) AND RTC_CR_WUCKSEL_MASK = select"
    "RTC_CR (wakeup_arm select reload cb s) AND RTC_CR_WUTE \<noteq> 0"
proof -
  define s1 where "s1 = RTC_WUTR_write (reload - 1) s"
  define v where "v = (RTC_CR s1 AND NOT RTC_CR_WUCKSEL_MASK) OR select"
  define s2 where "s2 = RTC_CR_write v s1"
  define s3 where "s3 = clear_flag RTC_ISR_WUTF s2"
  define x where "x = RTC_CR s3 OR (RTC_CR_WUTE OR (if cb \<noteq> None then RTC_CR_WUTIE else 0))"
  have arm: "wakeup_arm select reload cb s = write_lock (RTC_CR_write x s3)"
    by (simp add: wakeup_arm_def Let_def s1_def v_def s2_def s3_def x_def)
  have s1: "RTC_WUTR s1 = reload - 1" "rtc_open s1" "isr_flag RTC_ISR_WUTWF s1" "RTC_CR s1 = RTC_CR s"
    using o w by (simp_all add: s1_def RTC_WUTR_write_def rtc_open_def backup_open_def isr_flags)
  have m3: "RTC_CR_WUCKSEL_MASK = mask 3" by (simp add: RTC_CR_WUCKSEL_MASK_def mask_eq_exp_minus_1)
  have sb: "\<not> bit select n" if "3 \<le> n" for n
  proof -
    have "select AND mask 3 = select" using sel by (auto simp: rtc_cr_defs mask_eq_exp_minus_1)
    then show ?thesis using that by (metis bit_and_iff bit_mask_iff not_less)
  qed
  have v: "v AND RTC_CR_WUCKSEL_MASK = select" "\<not> bit v 10"
  proof -
    have "select AND RTC_CR_WUCKSEL_MASK = select" using sel by (auto simp: rtc_cr_defs)
    then show "v AND RTC_CR_WUCKSEL_MASK = select" by (simp add: v_def bit.conj_disj_distrib2 and.assoc)
    show "\<not> bit v 10" using off sb [of 10] unfolding v_def s1(4) RTC_CR_WUTE_def and_bit_neq_0 by (simp add: bit_or_iff bit_and_iff)
  qed
  have s3: "rtc_open s3" "RTC_CR s3 = RTC_CR s2" "RTC_WUTR s3 = reload - 1" using s1(1,2) by (simp_all add: s3_def s2_def)
  have "bit (rtc_isr s2) 2" using s1(3) v(2) cr_write_isr [OF s1(2), of v 2] by (simp add: s2_def isr_flags)
  then have w3: "isr_flag RTC_ISR_WUTWF s3"
    using clear_flag_open(2) [of s2 10 2] s1(2) unfolding s3_def RTC_ISR_WUTF_def isr_flags by (simp add: s2_def)
  have t: "(RTC_CR_WUTE OR (if cb \<noteq> None then RTC_CR_WUTIE else 0)) AND RTC_CR_WUCKSEL_MASK = 0" by (simp add: rtc_cr_defs)
  show "RTC_WUTR (wakeup_arm select reload cb s) = reload - 1" using s3(3) by (simp add: arm)
  have "x AND RTC_CR_WUCKSEL_MASK = (RTC_CR s3 AND RTC_CR_WUCKSEL_MASK) OR
      ((RTC_CR_WUTE OR (if cb \<noteq> None then RTC_CR_WUTIE else 0)) AND RTC_CR_WUCKSEL_MASK)"
    unfolding x_def by (rule bit.conj_disj_distrib2)
  then have "x AND RTC_CR_WUCKSEL_MASK = select"
    unfolding t s3(2) s2_def cr_write_wucksel [OF s1(2,3)] v by simp
  then show "RTC_CR (wakeup_arm select reload cb s) AND RTC_CR_WUCKSEL_MASK = select"
    by (simp add: arm cr_write_wucksel [OF s3(1) w3])
  have "bit x 10" unfolding x_def RTC_CR_WUTE_def bit_or_iff bit_one_at by simp
  then show "RTC_CR (wakeup_arm select reload cb s) AND RTC_CR_WUTE \<noteq> 0"
    unfolding RTC_CR_WUTE_def and_bit_neq_0 using cr_write_bit [OF s3(1), of 10 x] by (simp add: arm)
qed


text \<open>The period that runs is the one asked for, rounded down to whole ticks of the rate chosen.\<close>

definition wakeup_ticks :: "rtc_dev \<Rightarrow> nat" where
  "wakeup_ticks s = unat (RTC_WUTR s) + 1"

definition rtc_div16_hz :: "rtc_dev \<Rightarrow> nat" where
  "rtc_div16_hz s = (if hal_rtc_get_clock s = HAL_RTC_CLOCK_LSE then 2048 else 2000)"

lemma attach_wakeup_frame:
  "RTC_CR (attach_line l RTC_WKUP_IRQn i cb s) = RTC_CR s" "RTC_WUTR (attach_line l RTC_WKUP_IRQn i cb s) = RTC_WUTR s"
proof -
  have i: "0 \<le> RTC_WKUP_IRQn" "nat RTC_WKUP_IRQn < HAL_IRQ_COUNT" by (simp_all add: RTC_WKUP_IRQn_def HAL_IRQ_COUNT_def)
  show "RTC_CR (attach_line l RTC_WKUP_IRQn i' cb s) = RTC_CR s" "RTC_WUTR (attach_line l RTC_WKUP_IRQn i' cb s) = RTC_WUTR s" for i'
    by (cases cb; simp add: attach_line_some [OF i] attach_line_none)+
qed

lemma set_wakeup_period:
  assumes ok: "rtc_ok s" and r: "hal_rtc_set_wakeup p cb s = (HAL_OK, t)"
  shows "RTC_CR t AND RTC_CR_WUTE \<noteq> 0" "wakeup_ticks t \<le> 65536"
    "RTC_CR t AND RTC_CR_WUCKSEL_MASK = RTC_CR_WUCKSEL_DIV16 \<and>
       wakeup_ticks t * 1000 \<le> unat p * rtc_div16_hz s \<and> unat p * rtc_div16_hz s < (wakeup_ticks t + 1) * 1000 \<or>
     RTC_CR t AND RTC_CR_WUCKSEL_MASK = RTC_CR_WUCKSEL_SPRE \<and>
       wakeup_ticks t * 1000 \<le> unat p \<and> unat p < (wakeup_ticks t + 1) * 1000"
proof -
  define hz :: u32 where "hz = (if hal_rtc_get_clock s = HAL_RTC_CLOCK_LSE then 32768 div 16 else 32000 div 16)"
  obtain sel reload where pl: "wakeup_plan hz p = (sel, reload)" by fastforce
  have rdy: "rtc_ready s" and p: "0 < p" "p \<le> 65536000"
    using r by (auto simp: hal_rtc_set_wakeup_def not_less word_gt_0 split: if_splits)
  have hz: "hz = 2048 \<or> hz = 2000" "unat hz = rtc_div16_hz s" by (simp_all add: hz_def rtc_div16_hz_def)
  note b = wakeup_plan_bounds [OF hz(1) p pl]
  have nb: "\<not> reload > 65536" using b(2) by (simp add: word_less_nat_alt)
  have bo: "backup_open s" using ok rdy by (simp add: rtc_ok_def)
  define s1 where "s1 = write_unlock (s\<lparr>wakeup_cb := cb\<rparr>)"
  have s1: "rtc_open s1"
    using bo unfolding s1_def by (subst unlock_open; simp add: rtc_open_def backup_open_def)
  define v where "v = RTC_CR s1 AND NOT (RTC_CR_WUTE OR RTC_CR_WUTIE)"
  define s2 where "s2 = RTC_CR_write v s1"
  have "\<not> bit v 10" unfolding v_def RTC_CR_WUTE_def RTC_CR_WUTIE_def bit_and_iff bit_not_iff_eq bit_or_iff bit_one_at by simp
  then have off2: "RTC_CR s2 AND RTC_CR_WUTE = 0"
    unfolding RTC_CR_WUTE_def and_bit_neq_0 s2_def using cr_write_bit [OF s1, of 10 v] by simp
  obtain st s3 where w: "rtc_wait (\<lambda>t. \<not> isr_flag RTC_ISR_WUTWF t) RTC_TIMEOUT_SPINS s2 = (st, s3)" by fastforce
  have run: "hal_rtc_set_wakeup p cb s = (if st \<noteq> HAL_OK then (HAL_ERR_TIMEOUT, write_lock s3)
      else (HAL_OK, attach_line EXTI_LINE_RTC_WAKEUP RTC_WKUP_IRQn RTC_WAKEUP_ISR cb (wakeup_arm sel reload cb s3)))"
  proof -
    have np: "\<not> (p = 0 \<or> p > 65536000)" using p by (simp add: word_gt_0 not_less)
    show ?thesis
      unfolding hal_rtc_set_wakeup_def Let_def hz_def [symmetric] pl prod.case if_not_P [OF np] if_not_P [OF nb]
        s1_def [symmetric] v_def [symmetric] s2_def [symmetric] w wakeup_arm_def
      using rdy by simp
  qed
  have t: "st = HAL_OK" "t = attach_line EXTI_LINE_RTC_WAKEUP RTC_WKUP_IRQn RTC_WAKEUP_ISR cb (wakeup_arm sel reload cb s3)"
    using r unfolding run by (auto split: if_splits)
  have f: "isr_flag RTC_ISR_WUTWF s3" using rtc_wait_inv(2) [OF w, of "\<lambda>_. True"] t(1) by simp
  note view = driver_view_fields [OF rtc_wait_kept(2) [OF w]]
  have o3: "rtc_open s3" "RTC_CR s3 AND RTC_CR_WUTE = 0" using view(3,18) s1 off2 by (simp_all add: s2_def)
  have sel: "sel = RTC_CR_WUCKSEL_DIV16 \<or> sel = RTC_CR_WUCKSEL_SPRE" using b(3) by blast
  note e = wakeup_arm_effect [OF o3(1) f o3(2) sel, of reload cb]
  have n: "wakeup_ticks t = unat reload"
    using e(1) b(1) by (simp add: wakeup_ticks_def t(2) attach_wakeup_frame unat_sub word_le_nat_alt)
  show "RTC_CR t AND RTC_CR_WUTE \<noteq> 0" using e(3) by (simp add: t(2) attach_wakeup_frame)
  show "wakeup_ticks t \<le> 65536" using b(2) n by simp
  have "RTC_CR t AND RTC_CR_WUCKSEL_MASK = sel" using e(2) by (simp add: t(2) attach_wakeup_frame)
  then show "RTC_CR t AND RTC_CR_WUCKSEL_MASK = RTC_CR_WUCKSEL_DIV16 \<and>
       wakeup_ticks t * 1000 \<le> unat p * rtc_div16_hz s \<and> unat p * rtc_div16_hz s < (wakeup_ticks t + 1) * 1000 \<or>
     RTC_CR t AND RTC_CR_WUCKSEL_MASK = RTC_CR_WUCKSEL_SPRE \<and>
       wakeup_ticks t * 1000 \<le> unat p \<and> unat p < (wakeup_ticks t + 1) * 1000"
    using b(3) n hz(2) by simp
qed

section \<open>Where the driver falls short\<close>

text \<open>Polling an alarm masks the line another alarm interrupts on.\<close>

lemma polled_alarm_mutes_the_other:
  assumes "rtc_ok s" "hal_rtc_set_alarm a (Some c) None s = (HAL_OK, t)" "b \<noteq> a"
  shows "alarm_cb t b = alarm_cb s b" "EXTI_IMR t AND EXTI_LINE_RTC_ALARM = 0"
  using set_alarm_effect(7,11) [OF assms(1,2)] assms(3) by simp_all

text \<open>The handler of one alarm clears the flag of another that is polled.\<close>

lemma handler_clears_polled_flag:
  assumes "backup_open s" "alarm_cb s HAL_RTC_ALARM_B = None" "\<And>c t. backup_open t \<Longrightarrow> backup_open (run c t)"
    "\<And>c t. alarm_cb t HAL_RTC_ALARM_B = None \<Longrightarrow> alarm_cb (run c t) HAL_RTC_ALARM_B = None" "isr_flag RTC_ISR_ALRBF s"
  shows "\<not> isr_flag RTC_ISR_ALRBF (rtc_alarm_isr run s)"
proof -
  define s1 where "s1 = (if RTC_ISR_read s AND RTC_ISR_ALRAF \<noteq> 0
      then let s = clear_flag RTC_ISR_ALRAF s in run_if run (alarm_cb s HAL_RTC_ALARM_A) s else s)"
  have s1: "backup_open s1" "alarm_cb s1 HAL_RTC_ALARM_B = None"
    using assms(1-4) by (auto simp: s1_def Let_def run_if_def split: option.splits)
  have b: "RTC_ISR_read s AND RTC_ISR_ALRBF \<noteq> 0" using assms(5) by (simp add: isr_flag_def)
  have "rtc_alarm_isr run s = EXTI_PR_write EXTI_LINE_RTC_ALARM (clear_flag RTC_ISR_ALRBF s1)"
    unfolding rtc_alarm_isr_def Let_def s1_def [unfolded Let_def, symmetric] if_P [OF b] by (simp add: s1(2) run_if_def)
  moreover have "\<not> bit (NOT (RTC_ISR_ALRBF OR RTC_ISR_INIT)) 9"
    unfolding RTC_ISR_ALRBF_def bit_not_iff_eq bit_or_iff bit_one_at by simp
  ultimately show ?thesis
    using s1(1) by (simp add: isr_flags EXTI_PR_write_def clear_flag_def RTC_ISR_write_def isr_written_bit del: bit.de_Morgan_disj)
qed

text \<open>A request for initialization mode that times out is left standing: the hardware may still grant it, and the
  calendar then stands still.\<close>

lemma happens_init: "isr_flag RTC_ISR_INIT s \<Longrightarrow> isr_flag RTC_ISR_INIT (rtc_happens e s)"
  unfolding isr_flags
  by (cases e) (auto simp: Let_def exti_pulse_def bit_or_iff bit_and_iff bit_not_iff_eq RTC_ISR_RSF_def bit_one_at simp del: push_bit_of_1)

lemma timeout_leaves_init:
  assumes "rtc_open s" "init_enter s = (HAL_ERR_TIMEOUT, t)"
  shows "\<not> calendar_runs (rtc_happens InitModeEntered (write_lock t))"
proof -
  have "bit (RTC_ISR_read s OR RTC_ISR_INIT) 7" unfolding RTC_ISR_INIT_def bit_or_iff bit_one_at by simp
  then have "isr_flag RTC_ISR_INIT (RTC_ISR_write (RTC_ISR_read s OR RTC_ISR_INIT) s)"
    by (simp add: isr_flags open_isr_write [OF assms(1)] isr_written_bit)
  then have "isr_flag RTC_ISR_INIT t"
    using rtc_wait_inv(1) [OF assms(2) [unfolded init_enter_def], of "isr_flag RTC_ISR_INIT"] happens_init by (simp add: isr_flags)
  then have "isr_flag RTC_ISR_INIT (write_lock t)" by (simp add: isr_flags)
  moreover have "bit ((x OR RTC_ISR_INITF) AND NOT RTC_ISR_RSF) 6" for x
    unfolding bit_and_iff bit_not_iff_eq bit_or_iff RTC_ISR_INITF_def RTC_ISR_RSF_def bit_one_at by simp
  ultimately show ?thesis by (simp add: calendar_runs_def isr_flags)
qed

text \<open>The product of clock and timeout wraps: at 84 MHz a timeout of 51131 ms polls 3670 times, of 5000 ms 42 million.\<close>

lemma lse_timeout_wraps: "lse_spins 51131 84000000 = 3670" "lse_spins 5000 84000000 = 42000000"
  by (simp_all add: lse_spins_def LSE_DEFAULT_TIMEOUT_MS_def CYCLES_PER_POLL_def)

text \<open>A calendar in the year 2000, as after the first configuration, counts as cold: the next \<open>hal_rtc_init\<close> that
  returns \<open>HAL_OK\<close> has cleared the backup registers.\<close>

lemma kept_backup: "kept s t \<Longrightarrow> RTC_BKPR t = RTC_BKPR s"
  by (simp add: kept_def)

lemma wait_backup: "rtc_wait waiting n s = (st, t) \<Longrightarrow> RTC_BKPR t = RTC_BKPR s"
  by (rule kept_backup [OF rtc_wait_kept(1)])

lemma program_backup:
  assumes "rtc_program sync s = (st, t)"
  shows "RTC_BKPR t = RTC_BKPR s"
proof -
  obtain st1 s1 where i: "init_enter (write_unlock s) = (st1, s1)" by fastforce
  have b1: "RTC_BKPR s1 = RTC_BKPR s"
    using wait_backup [OF i [unfolded init_enter_def]] writes_kept(3,11) [THEN kept_backup] by metis
  show ?thesis
  proof (cases "st1 = HAL_OK")
    case True
    define s2 where "s2 = RTC_PRER_write (RTC_PRER_ASYNC PRESCALER_ASYNC OR RTC_PRER_SYNC sync) s1"
    define s3 where "s3 = init_exit (RTC_CR_write (RTC_CR s2 AND NOT (RTC_CR_FMT OR RTC_CR_BYPSHAD)) s2)"
    obtain st2 s4 where w: "wait_sync s3 = (st2, s4)" by fastforce
    have b: "RTC_BKPR s4 = RTC_BKPR s3" "RTC_BKPR s3 = RTC_BKPR s2" "RTC_BKPR s2 = RTC_BKPR s1"
      using kept_backup [OF wait_sync_kept [OF w]] writes_kept(4,5,13) [THEN kept_backup] unfolding s3_def s2_def by metis+
    have "t = write_lock s4 \<or> t = (write_lock s4)\<lparr>rtc_ready := True\<rparr>"
      using assms unfolding rtc_program_def Let_def i prod.case s2_def [symmetric] s3_def [symmetric] w
      using True by (auto split: if_splits)
    then show ?thesis using b b1 by auto
  next
    case False
    then show ?thesis using assms b1 by (auto simp: rtc_program_def Let_def i)
  qed
qed

definition backup_clear :: "rtc_dev \<Rightarrow> bool" where
  "backup_clear s \<longleftrightarrow> RTC_BKPR s = (\<lambda>_. 0)"

lemma clear_stays:
  "backup_clear s \<Longrightarrow> backup_clear (RCC_BDCR_write v s)"
  "start_lse ms s = (st, t) \<Longrightarrow> backup_clear s \<Longrightarrow> backup_clear t"
  "rtc_program sync s = (st, t) \<Longrightarrow> backup_clear s \<Longrightarrow> backup_clear t"
proof -
  show w: "backup_clear s \<Longrightarrow> backup_clear (RCC_BDCR_write v s)" for s v
    by (simp add: backup_clear_def RCC_BDCR_write_def rtc_domain_reset_def)
  show "start_lse ms s = (st, t) \<Longrightarrow> backup_clear s \<Longrightarrow> backup_clear t"
    using wait_backup w unfolding start_lse_def by (metis backup_clear_def)
  show "rtc_program sync s = (st, t) \<Longrightarrow> backup_clear s \<Longrightarrow> backup_clear t"
    using program_backup by (metis backup_clear_def)
qed

lemma domain_reset_clears:
  assumes "backup_open s"
  shows "backup_clear (RCC_BDCR_write (RCC_BDCR s OR RCC_BDCR_BDRST) s)"
proof -
  have "(RCC_BDCR s OR RCC_BDCR_BDRST) AND RCC_BDCR_BDRST \<noteq> 0"
    unfolding RCC_BDCR_BDRST_def and_bit_neq_0 bit_or_iff bit_one_at by simp
  then show ?thesis using assms by (simp add: RCC_BDCR_write_def rtc_domain_reset_def backup_clear_def)
qed

lemma configure_clears:
  assumes "backup_open s" "rtc_configure source sync ms s = (st, t)"
  shows "backup_clear t"
proof -
  define u where "u = (let s = RCC_BDCR_write (RCC_BDCR s OR RCC_BDCR_BDRST) s in RCC_BDCR_write (RCC_BDCR s AND NOT RCC_BDCR_BDRST) s)"
  have u: "backup_clear u" unfolding u_def Let_def by (intro clear_stays(1) domain_reset_clears assms)
  obtain st1 u1 where l: "(if source = RCC_BDCR_RTCSEL_LSE then start_lse ms u else (HAL_OK, u)) = (st1, u1)" by fastforce
  have u1: "backup_clear u1" using l u clear_stays(2) [of ms u st1 u1] by (auto split: if_splits)
  define v where "v = (let s = RCC_BDCR_write ((RCC_BDCR u1 AND NOT RCC_BDCR_RTCSEL_MASK) OR source) u1
      in RCC_BDCR_write (RCC_BDCR s OR RCC_BDCR_RTCEN) s)"
  have v: "backup_clear v" unfolding v_def Let_def by (intro clear_stays(1) u1)
  have "(if st1 \<noteq> HAL_OK then (st1, u1) else rtc_program sync v) = (st, t)"
    using assms(2) unfolding rtc_configure_def Let_def u_def [unfolded Let_def, symmetric] l v_def [unfolded Let_def] ok_or_return_def prod.case .
  then show ?thesis using u1 v clear_stays(3) by (auto split: if_splits)
qed

lemma start_open:
  "start_lse ms s = (st, t) \<Longrightarrow> backup_open t = backup_open s" "start_lsi s = (st, t) \<Longrightarrow> backup_open t = backup_open s"
proof -
  have w: "backup_open t = backup_open s" if "rtc_wait w n s = (st, t)" for w n s st t
    by (rule driver_view_fields [OF rtc_wait_kept(2) [OF that]])
  have b: "backup_open (RCC_BDCR_write v s) = backup_open s" "backup_open (RCC_CSR_write v s) = backup_open s" for v s
    by (simp_all add: RCC_BDCR_write_def RCC_CSR_write_def rtc_domain_reset_def backup_open_def)
  show "start_lse ms s = (st, t) \<Longrightarrow> backup_open t = backup_open s" "start_lsi s = (st, t) \<Longrightarrow> backup_open t = backup_open s"
    using w b by (metis start_lse_def, metis start_lsi_def)
qed

lemma cold_start_clears:
  assumes o: "backup_open s" and r: "rtc_cold_start want ms s = (HAL_OK, t)"
  shows "backup_clear t"
proof -
  have lsi: "backup_clear t"
    if "ok_or_return (start_lsi u) (rtc_configure RCC_BDCR_RTCSEL_LSI PRESCALER_SYNC_LSI ms) = (HAL_OK, t)" "backup_open u" for u
  proof -
    obtain w where "start_lsi u = (HAL_OK, w)" "rtc_configure RCC_BDCR_RTCSEL_LSI PRESCALER_SYNC_LSI ms w = (HAL_OK, t)"
      using \<open>ok_or_return _ _ = _\<close> unfolding ok_or_return_eq_ok by blast
    then show ?thesis using start_open(2) configure_clears that(2) by metis
  qed
  obtain st1 s1 where l: "start_lse ms s = (st1, s1)" by fastforce
  have o1: "backup_open s1" using start_open(1) [OF l] o by simp
  then have o2: "backup_open (RCC_BDCR_write v s1)" for v by (simp add: RCC_BDCR_write_def rtc_domain_reset_def backup_open_def)
  show ?thesis
    using r lsi [OF _ o] lsi [OF _ o2] configure_clears [OF o1]
    unfolding rtc_cold_start_def Let_def l prod.case by (auto split: if_splits)
qed

lemma year_2000_is_cold:
  assumes "year_field (snd (rtc_calendar s)) = 0" "hal_rtc_init cfg (system_reset s) = (HAL_OK, t)"
  shows "RTC_BKPR t = (\<lambda>_. 0)"
proof -
  let ?s = "rtc_power (system_reset s)"
  have p: "rtc_calendar ?s = rtc_calendar s" by (simp add: rtc_power_def system_reset_def PWR_CR_write_def Let_def)
  have "backup_open ?s"
    by (simp add: rtc_power_def system_reset_def PWR_CR_write_def Let_def backup_open_def RCC_APB1ENR_PWREN_def PWR_CR_DBP_def)
  moreover have "rtc_cold_start (case cfg of None \<Rightarrow> HAL_RTC_CLOCK_AUTO | Some c \<Rightarrow> rc_clock c)
      (case cfg of None \<Rightarrow> 0 | Some c \<Rightarrow> rc_lse_timeout_ms c) ?s = (HAL_OK, t)"
    using assms(2) unfolding hal_rtc_init_def Let_def isr_flags p using assms(1) by simp
  ultimately have "backup_clear t" by (rule cold_start_clears)
  then show ?thesis by (simp add: backup_clear_def)
qed


text \<open>An alarm that matches while the handler of the other runs is lost: its flag stays set, nothing pends.\<close>

lemma pulse_swallowed: "EXTI_PR s AND line \<noteq> 0 \<Longrightarrow> exti_pulse line irq s = s"
  by (simp add: exti_pulse_def)

lemma compare_swallowed:
  assumes "EXTI_PR s AND EXTI_LINE_RTC_ALARM \<noteq> 0"
  shows "EXTI_PR (alarm_compare a s) = EXTI_PR s" "nvic_pending (alarm_compare a s) = nvic_pending s"
  using assms by (simp_all add: alarm_compare_def Let_def pulse_swallowed)

lemma clear_flag_pending: "nvic_pending (clear_flag f s) = nvic_pending s" "RTC_ALRMBR (clear_flag f s) = RTC_ALRMBR s"
  unfolding clear_flag_def RTC_ISR_write_def by simp_all

lemma alarm_in_handler_is_lost:
  assumes ok: "rtc_ok s" "backup_open s" and pr: "EXTI_PR s AND EXTI_LINE_RTC_ALARM \<noteq> 0"
    and a: "isr_flag RTC_ISR_ALRAF s" "alarm_cb s HAL_RTC_ALARM_A = Some f" "run f = rtc_happens SecondPassed"
    and b: "\<not> isr_flag RTC_ISR_ALRBF s" "calendar_runs s" "RTC_CR s AND RTC_CR_ALRBE \<noteq> 0"
      "alarm_hits (RTC_ALRMBR s) (rtc_next s (rtc_calendar s))"
  shows "isr_flag RTC_ISR_ALRBF (rtc_alarm_isr run s)" "nvic_pending (rtc_alarm_isr run s) = nvic_pending s"
    "EXTI_PR (rtc_alarm_isr run s) AND EXTI_LINE_RTC_ALARM = 0"
proof -
  define s1 where "s1 = clear_flag RTC_ISR_ALRAF s"
  have t: "rtc_alarm_isr run s = EXTI_PR_write EXTI_LINE_RTC_ALARM (rtc_happens SecondPassed s1)"
    using a b(1) by (simp add: rtc_alarm_isr_def Let_def s1_def isr_flag_def run_if_def)
  have "bit (rtc_isr s1) 6 = bit (rtc_isr s) 6"
    using ok by (simp add: s1_def clear_flag_def RTC_ISR_write_def isr_written_bit rtc_ok_def)
  then have s1: "calendar_runs s1" "RTC_CR s1 = RTC_CR s" "alarm_reg HAL_RTC_ALARM_B s1 = RTC_ALRMBR s" "EXTI_PR s1 = EXTI_PR s"
      "rtc_next s1 (rtc_calendar s1) = rtc_next s (rtc_calendar s)" "nvic_pending s1 = nvic_pending s"
    using b(2) by (simp_all add: calendar_runs_def isr_flags s1_def alarm_reg_def HAL_RTC_ALARM_A_def HAL_RTC_ALARM_B_def clear_flag_pending)
  have f: "alarm_flag HAL_RTC_ALARM_B = RTC_ISR_ALRBF" "alarm_enable HAL_RTC_ALARM_B = RTC_CR_ALRBE"
    by (simp_all add: alarm_bit_defs HAL_RTC_ALARM_A_def HAL_RTC_ALARM_B_def)
  have "isr_flag RTC_ISR_ALRBF (rtc_happens SecondPassed s1)"
    using second_flag [OF s1(1), of HAL_RTC_ALARM_B] b(3,4) s1 unfolding f by simp
  then show "isr_flag RTC_ISR_ALRBF (rtc_alarm_isr run s)" unfolding t isr_flags by (simp add: EXTI_PR_write_def)
  have "EXTI_PR (rtc_happens SecondPassed s1) = EXTI_PR s \<and> nvic_pending (rtc_happens SecondPassed s1) = nvic_pending s"
    using s1 pr by (simp add: compare_swallowed)
  then show "nvic_pending (rtc_alarm_isr run s) = nvic_pending s" "EXTI_PR (rtc_alarm_isr run s) AND EXTI_LINE_RTC_ALARM = 0"
    unfolding t EXTI_PR_write_def by (simp_all del: rtc_happens.simps)
qed


section \<open>Hardware that answers\<close>

text \<open>The date and time a pair of calendar registers stands for, some seconds on.\<close>

definition datetime_after :: "nat \<Rightarrow> rtc_dev \<Rightarrow> u32 \<times> u32 \<Rightarrow> hal_rtc_datetime" where
  "datetime_after n s c = (let r = (rtc_next s ^^ n) c in decode_datetime (fst r) (snd r))"

text \<open>A board after a cold start, with the events to come; its calendar counts within a minute.\<close>

definition rtc_example :: "rtc_event list list \<Rightarrow> rtc_dev" where
  "rtc_example es =
     \<lparr>nvic_enabled = (\<lambda>_. 0), nvic_pending = (\<lambda>_. 0), NVIC_IPR = (\<lambda>_. 0), SCB_SHPR1 = 0, SCB_SHPR2 = 0, SCB_SHPR3 = 0,
      cpu_primask = 0, irq_cb = (\<lambda>_. None), rtc_board = clock_board_8mhz, rtc_rcc = rcc_reset,
      rtc_next = (\<lambda>(tr, dr). (tr + 1, dr)), rtc_events = es, RTC_APB1ENR = 0x10000000, PWR_CR = 0x100,
      RCC_BDCR = 0x8103, RCC_CSR = 0, rtc_calendar = (0, 0x2101), rtc_shadow = (0, 0x2101), rtc_dr_frozen = False,
      RTC_CR = 0, rtc_isr = 0x27, RTC_PRER = 0x7F00F9, RTC_WUTR = 0xFFFF, RTC_ALRMAR = 0, RTC_ALRMBR = 0,
      rtc_wpr = 0, RTC_BKPR = (\<lambda>_. 0), EXTI_IMR = 0, EXTI_RTSR = 0, EXTI_PR = 0, rtc_ready = True,
      alarm_cb = (\<lambda>_. None), wakeup_cb = None\<rparr>"

definition dt_example :: hal_rtc_datetime where
  "dt_example = \<lparr>dt_year = 2026, dt_month = 8, dt_day = 14, dt_weekday = 5, dt_hour = 17, dt_minute = 5, dt_second = 0\<rparr>"

lemma wait_at_once: "\<not> waiting (rtc_hw s) \<Longrightarrow> rtc_wait waiting n s = (HAL_OK, rtc_hw s)"
  by (simp add: rtc_wait_def wait_or_timeout.simps [of _ _ "if n = 0 then 2 ^ 32 else unat n"] Let_def)

lemma example_ok: "rtc_ok (rtc_example es)"
  by (simp add: rtc_ok_def rtc_example_def backup_open_def PWR_CR_DBP_def RTC_CR_BYPSHAD_def)

lemma hw_one: "rtc_events s = [e] # rest \<Longrightarrow> rtc_hw s = rtc_happens e (s\<lparr>rtc_events := rest\<rparr>)"
  by (simp add: rtc_hw_def)

lemma isr_write_fields [simp]:
  "rtc_events (RTC_ISR_write v s) = rtc_events s" "RCC_BDCR (RTC_ISR_write v s) = RCC_BDCR s" "rtc_open (RTC_ISR_write v s) = rtc_open s"
  "RTC_CR (RTC_ISR_write v s) = RTC_CR s"
  by (simp_all add: RTC_ISR_write_def rtc_open_def backup_open_def)

lemma isr_bits_written:
  assumes "rtc_open s"
  shows "bit (rtc_isr (RTC_ISR_write (RTC_ISR_read s OR RTC_ISR_INIT) s)) 7" "\<not> bit (rtc_isr (init_exit s)) 6"
    "bit (rtc_isr (RTC_ISR_write (RTC_ISR_read s AND NOT RTC_ISR_RSF) s)) 6 \<Longrightarrow> bit (rtc_isr s) 6"
proof -
  have "bit (RTC_ISR_read s OR RTC_ISR_INIT) 7" "\<not> bit (RTC_ISR_read s AND NOT RTC_ISR_INIT) 7"
    unfolding RTC_ISR_INIT_def bit_or_iff bit_and_iff bit_not_iff_eq bit_one_at by simp_all
  then show "bit (rtc_isr (RTC_ISR_write (RTC_ISR_read s OR RTC_ISR_INIT) s)) 7" "\<not> bit (rtc_isr (init_exit s)) 6"
    "bit (rtc_isr (RTC_ISR_write (RTC_ISR_read s AND NOT RTC_ISR_RSF) s)) 6 \<Longrightarrow> bit (rtc_isr s) 6"
    by (simp_all add: init_exit_def open_isr_write [OF assms] isr_written_bit)
qed

lemma init_enter_answers:
  assumes "rtc_open s" "rtc_events s = [InitModeEntered] # rest"
  shows "\<exists>t. init_enter s = (HAL_OK, t) \<and> rtc_events t = rest \<and> RCC_BDCR t = RCC_BDCR s"
proof -
  define u where "u = RTC_ISR_write (RTC_ISR_read s OR RTC_ISR_INIT) s"
  have e: "rtc_events u = [InitModeEntered] # rest" using assms(2) by (simp add: u_def)
  have i: "isr_flag RTC_ISR_INIT (u\<lparr>rtc_events := rest\<rparr>)" using isr_bits_written(1) [OF assms(1)] by (simp add: isr_flags u_def)
  have h: "rtc_hw u = u\<lparr>rtc_events := rest, rtc_isr := (rtc_isr u OR RTC_ISR_INITF) AND NOT RTC_ISR_RSF\<rparr>"
    using i by (simp add: hw_one [OF e])
  have "bit ((x OR RTC_ISR_INITF) AND NOT RTC_ISR_RSF) 6" for x
    unfolding bit_and_iff bit_not_iff_eq bit_or_iff RTC_ISR_INITF_def RTC_ISR_RSF_def bit_one_at by simp
  then have "isr_flag RTC_ISR_INITF (rtc_hw u)" by (simp add: h isr_flags)
  then show ?thesis
    using wait_at_once [of "\<lambda>t. \<not> isr_flag RTC_ISR_INITF t" u RTC_TIMEOUT_SPINS]
    by (simp add: init_enter_def u_def [symmetric] h) (simp add: u_def)
qed

lemma wait_sync_answers:
  assumes "calendar_runs s" "rtc_open s \<or> rtc_wpr s = 0" "rtc_events s = [ShadowsCopied] # rest"
  shows "fst (wait_sync s) = HAL_OK"
proof -
  define u where "u = RTC_ISR_write (RTC_ISR_read s AND NOT RTC_ISR_RSF) s"
  have e: "rtc_events u = [ShadowsCopied] # rest" using assms(3) by (simp add: u_def)
  have "calendar_runs u" using assms(1)
    by (auto simp: u_def calendar_runs_def isr_flags RTC_ISR_write_def isr_written_bit)
  then have "calendar_runs (u\<lparr>rtc_events := rest\<rparr>)" by (simp add: calendar_runs_def isr_flags)
  then have "isr_flag RTC_ISR_RSF (rtc_hw u)"
    by (simp add: hw_one [OF e] isr_flags bit_or_iff) (simp add: RTC_ISR_RSF_def bit_one_at del: push_bit_of_1)
  then show ?thesis
    using wait_at_once [of "\<lambda>t. \<not> isr_flag RTC_ISR_RSF t" u RTC_TIMEOUT_SPINS] by (simp add: wait_sync_def u_def [symmetric])
qed

lemma set_datetime_answers:
  assumes ok: "rtc_ok s" "rtc_ready s" "RCC_BDCR s AND RCC_BDCR_RTCEN \<noteq> 0" and dt: "datetime_valid dt"
    and e: "rtc_events s = [InitModeEntered] # [ShadowsCopied] # rest"
  shows "fst (hal_rtc_set_datetime (Some dt) s) = HAL_OK"
proof -
  let ?u = "s\<lparr>rtc_wpr := 2\<rparr>"
  have b: "backup_open s" using ok by (simp add: rtc_ok_def)
  then have o: "rtc_open ?u" by (simp add: rtc_open_def backup_open_def)
  have ev: "rtc_events ?u = [InitModeEntered] # [ShadowsCopied] # rest" using e by simp
  obtain s1 where i: "init_enter ?u = (HAL_OK, s1)" "rtc_events s1 = [ShadowsCopied] # rest" "RCC_BDCR s1 = RCC_BDCR s"
    using init_enter_answers [OF o ev] by auto
  have o1: "rtc_open s1" using driver_view_fields(18) [OF init_enter_opens(1) [OF i(1) o]] o by simp
  define w where "w = RTC_DR_write (encode_dr dt) (RTC_TR_write (encode_tr dt) s1)"
  have w: "rtc_open w" "rtc_events w = rtc_events s1" "RCC_BDCR w = RCC_BDCR s1"
    using o1 by (simp_all add: w_def RTC_DR_write_def RTC_TR_write_def rtc_open_def backup_open_def)
  have "calendar_runs (init_exit w)"
    using isr_bits_written(2) [OF w(1)] ok(3) i(3) w(3) by (simp add: calendar_runs_def isr_flags) (simp add: init_exit_def)
  moreover have "rtc_open (init_exit w)" "rtc_events (init_exit w) = [ShadowsCopied] # rest" using w i(2) by (simp_all add: init_exit_def)
  ultimately have "fst (wait_sync (init_exit w)) = HAL_OK" using wait_sync_answers by blast
  then show ?thesis
    using ok(2) dt i(1) by (simp add: hal_rtc_set_datetime_def unlock_open [OF b] Let_def w_def [symmetric] prod.case_eq_if)
qed


lemma alarm_answers:
  assumes ok: "rtc_ok s" "rtc_ready s" and a: "a = HAL_RTC_ALARM_A \<or> a = HAL_RTC_ALARM_B" and c: "alarm_valid c"
    and e: "rtc_events s = [AlarmMayBeWritten a] # rest"
  shows "fst (hal_rtc_set_alarm a (Some c) cb s) = HAL_OK"
proof -
  define u where "u = write_unlock (s\<lparr>alarm_cb := (alarm_cb s)(a := cb)\<rparr>)"
  define x where "x = RTC_CR u AND NOT (alarm_enable a OR alarm_irq_en a)"
  define w where "w = RTC_CR_write x u"
  have b: "backup_open (s\<lparr>alarm_cb := (alarm_cb s)(a := cb)\<rparr>)" using ok by (simp add: rtc_ok_def backup_open_def)
  have o: "rtc_open u" using b by (simp add: u_def unlock_open rtc_open_def backup_open_def)
  have ew: "rtc_events w = [AlarmMayBeWritten a] # rest"
    using e b by (simp add: w_def u_def unlock_open RTC_CR_write_def Let_def)
  have "\<not> bit x (8 + alarm_no a)"
    using alarm_bits(5) [of a] unfolding x_def alarm_bits bit_and_iff bit_not_iff_eq bit_or_iff bit_one_at by simp
  then have "RTC_CR w AND alarm_enable a = 0"
    unfolding alarm_bits and_bit_neq_0 w_def using cr_write_bit [OF o, of "8 + alarm_no a" x] alarm_bits(5) [of a] by auto
  then have "rtc_hw w = w\<lparr>rtc_events := rest, rtc_isr := rtc_isr w OR alarm_writable a\<rparr>"
    by (simp add: hw_one [OF ew])
  moreover have "bit (alarm_writable a) (alarm_no a)" using alarm_bits(5) [of a] unfolding alarm_bits bit_one_at by simp
  ultimately have "isr_flag (alarm_writable a) (rtc_hw w)" by (simp add: alarm_isr_flags bit_or_iff)
  then have "rtc_wait (\<lambda>t. \<not> isr_flag (alarm_writable a) t) RTC_TIMEOUT_SPINS w = (HAL_OK, rtc_hw w)" by (intro wait_at_once) simp
  then show ?thesis
    using ok(2) a c unfolding hal_rtc_set_alarm_def Let_def u_def [symmetric] x_def [symmetric] w_def [symmetric] by auto
qed

lemma wakeup_answers:
  assumes ok: "rtc_ok s" "rtc_ready s" and p: "0 < p" "p \<le> 65536000" and e: "rtc_events s = [WakeupMayBeWritten] # rest"
  shows "fst (hal_rtc_set_wakeup p cb s) = HAL_OK"
proof -
  define hz :: u32 where "hz = (if hal_rtc_get_clock s = HAL_RTC_CLOCK_LSE then 32768 div 16 else 32000 div 16)"
  obtain sel reload where pl: "wakeup_plan hz p = (sel, reload)" by fastforce
  have hz: "hz = 2048 \<or> hz = 2000" by (simp add: hz_def)
  have nb: "\<not> reload > 65536" using wakeup_plan_bounds(2) [OF hz p pl] by (simp add: word_less_nat_alt)
  define u where "u = write_unlock (s\<lparr>wakeup_cb := cb\<rparr>)"
  define x where "x = RTC_CR u AND NOT (RTC_CR_WUTE OR RTC_CR_WUTIE)"
  define w where "w = RTC_CR_write x u"
  have b: "backup_open (s\<lparr>wakeup_cb := cb\<rparr>)" using ok by (simp add: rtc_ok_def backup_open_def)
  have o: "rtc_open u" using b by (simp add: u_def unlock_open rtc_open_def backup_open_def)
  have ew: "rtc_events w = [WakeupMayBeWritten] # rest"
    using e b by (simp add: w_def u_def unlock_open RTC_CR_write_def Let_def)
  have "\<not> bit x 10" unfolding x_def RTC_CR_WUTE_def RTC_CR_WUTIE_def bit_and_iff bit_not_iff_eq bit_or_iff bit_one_at by simp
  then have "RTC_CR w AND RTC_CR_WUTE = 0" unfolding RTC_CR_WUTE_def and_bit_neq_0 w_def using cr_write_bit [OF o, of 10 x] by simp
  then have "rtc_hw w = w\<lparr>rtc_events := rest, rtc_isr := rtc_isr w OR RTC_ISR_WUTWF\<rparr>" by (simp add: hw_one [OF ew])
  moreover have "bit RTC_ISR_WUTWF 2" unfolding RTC_ISR_WUTWF_def bit_one_at by simp
  ultimately have "isr_flag RTC_ISR_WUTWF (rtc_hw w)" by (simp add: isr_flags bit_or_iff)
  then have wt: "rtc_wait (\<lambda>t. \<not> isr_flag RTC_ISR_WUTWF t) RTC_TIMEOUT_SPINS w = (HAL_OK, rtc_hw w)" by (intro wait_at_once) simp
  have np: "\<not> (p = 0 \<or> p > 65536000)" using p by (simp add: word_gt_0 not_less)
  show ?thesis
    unfolding hal_rtc_set_wakeup_def Let_def hz_def [symmetric] pl prod.case if_not_P [OF np] if_not_P [OF nb]
      u_def [symmetric] x_def [symmetric] w_def [symmetric] wt
    using ok(2) by simp
qed

lemma adopt_answers:
  assumes "hal_rtc_is_set s" "RCC_BDCR s AND RCC_BDCR_BDRST = 0" "rtc_wpr s = 0" "hal_rtc_get_clock s = HAL_RTC_CLOCK_LSE"
    and "RCC_BDCR s AND RCC_BDCR_LSERDY \<noteq> 0" "rtc_events s = [ShadowsCopied] # rest"
  shows "fst (hal_rtc_init None (system_reset s)) = HAL_OK"
proof -
  let ?s = "(rtc_power (system_reset s))\<lparr>rtc_ready := True\<rparr>"
  have p: "RCC_BDCR ?s = RCC_BDCR s" "rtc_wpr ?s = 0" "rtc_events ?s = [ShadowsCopied] # rest" "\<not> bit (rtc_isr ?s) 6"
    using assms(3,6)
    by (simp_all add: rtc_power_def system_reset_def PWR_CR_write_def Let_def)
      (simp add: bit_and_iff bit_not_iff_eq RTC_ISR_INITF_def bit_one_at del: push_bit_of_1)
  have "calendar_runs ?s"
    using assms(1) p by (simp add: calendar_runs_def isr_flags hal_rtc_is_set_def)
  then have "fst (wait_sync ?s) = HAL_OK" using wait_sync_answers p by blast
  moreover have "RCC_BDCR s AND RCC_BDCR_RTCSEL_MASK \<noteq> RCC_BDCR_RTCSEL_LSI"
    using assms(4) by (auto simp: hal_rtc_get_clock_def Let_def rcc_bdcr_defs split: if_splits)
  ultimately show ?thesis
    using assms(5) p(1) init_adopts [OF assms(1,2), of None] by (simp add: rtc_adopt_def)
qed


lemma adopt_cr:
  assumes "rtc_adopt sel ms s = (st, t)" "RCC_BDCR s AND RCC_BDCR_BDRST = 0"
  shows "RTC_CR t = RTC_CR s"
proof -
  have w: "RTC_CR t = RTC_CR s" if "rtc_wait w n s = (st, t)" for w n s st t
    by (rule driver_view_fields [OF rtc_wait_kept(2) [OF that]])
  have y: "RTC_CR t = RTC_CR s" if "wait_sync s = (st, t)" for s st t
    by (rule driver_view_fields [OF wait_sync_view [OF that]])
  have "(RCC_BDCR s OR RCC_BDCR_LSEON) AND RCC_BDCR_BDRST = 0"
    using assms(2) by (simp add: bit.conj_disj_distrib2) (simp add: rcc_bdcr_defs)
  then have "RTC_CR (RCC_BDCR_write (RCC_BDCR s OR RCC_BDCR_LSEON) s) = RTC_CR s" by (simp add: RCC_BDCR_write_def)
  then have e1: "RTC_CR u = RTC_CR s" if "start_lse ms s = (a, u)" for a u using w [OF that [unfolded start_lse_def]] by simp
  have "RTC_CR (RCC_CSR_write v s) = RTC_CR s" for v by (simp add: RCC_CSR_write_def)
  then have e2: "RTC_CR u = RTC_CR s" if "start_lsi s = (a, u)" for a u using w [OF that [unfolded start_lsi_def]] by simp
  obtain st1 s1 where l: "(if sel = RCC_BDCR_RTCSEL_LSI then start_lsi s
      else if RCC_BDCR s AND RCC_BDCR_LSERDY = 0 then start_lse ms s else (HAL_OK, s)) = (st1, s1)" by fastforce
  then have "RTC_CR s1 = RTC_CR s" using e1 e2 by (auto split: if_splits)
  moreover have "t = s1 \<or> wait_sync (s1\<lparr>rtc_ready := True\<rparr>) = (st, t)"
    using assms(1) unfolding rtc_adopt_def l ok_or_return_def prod.case by (auto split: if_splits)
  ultimately show ?thesis using y [of "s1\<lparr>rtc_ready := True\<rparr>" st t] by auto
qed

section \<open>Properties\<close>

text \<open>C26. Setting the calendar and reading it back. When \<open>hal_rtc_set_datetime\<close> returns \<open>HAL_OK\<close>, a read gives the
  date and time that were set, some whole seconds on: one instant of the calendar, whatever the hardware
  does between the read of the time and the read of the date. No seconds on, it is the date and time set, field
  for field, so the conversion to BCD and back loses nothing; and the driver's invariant still holds.\<close>

theorem rtc_set_then_get:
  assumes "rtc_ok s" "hal_rtc_set_datetime (Some dt) s = (HAL_OK, t)"
  shows "(\<exists>n. fst (hal_rtc_get_datetime True t) = Inr (datetime_after n s (encode_tr dt, encode_dr dt))) \<and>
    datetime_after 0 s (encode_tr dt, encode_dr dt) = dt \<and> rtc_ok t"
proof -
  note e = set_datetime_copies [OF assms]
  have "RTC_CR t AND RTC_CR_BYPSHAD = 0" using e(4) by (simp add: rtc_ok_def)
  then show ?thesis
    using get_copy [OF e(5) _ e(2,3)] decode_encode [OF e(1)] e(4) by (simp add: datetime_after_def Let_def)
qed

theorem rtc_set_then_get_witness:
  "(\<exists>n. fst (hal_rtc_get_datetime True
       (snd (hal_rtc_set_datetime (Some dt_example) (rtc_example [[InitModeEntered], [ShadowsCopied], [SecondPassed, ShadowsCopied]])))) =
     Inr (datetime_after n (rtc_example [[InitModeEntered], [ShadowsCopied], [SecondPassed, ShadowsCopied]])
       (encode_tr dt_example, encode_dr dt_example)))"
proof -
  let ?s = "rtc_example [[InitModeEntered], [ShadowsCopied], [SecondPassed, ShadowsCopied]]"
  have "fst (hal_rtc_set_datetime (Some dt_example) ?s) = HAL_OK"
    by (rule set_datetime_answers [OF example_ok, where rest = "[[SecondPassed, ShadowsCopied]]"])
      (simp_all add: rtc_example_def rcc_bdcr_defs dt_example_def datetime_valid_def)
  then have r: "hal_rtc_set_datetime (Some dt_example) ?s = (HAL_OK, snd (hal_rtc_set_datetime (Some dt_example) ?s))"
    by (metis prod.collapse)
  show ?thesis using rtc_set_then_get [OF example_ok r] by blast
qed

text \<open>C27. A running calendar survives a reset. A calendar somebody set is adopted by \<open>hal_rtc_init\<close> after a reset of
  the chip, called for any oscillator or for the one that runs: however the call ends, the backup registers,
  the oscillator and the calendar, some whole seconds on, are those from before the reset; and when
  it returns \<open>HAL_OK\<close> the driver is ready and a read gives the calendar, not the cleared copies.\<close>

theorem rtc_survives_reset:
  assumes "rtc_ok s" "hal_rtc_is_set s" "RCC_BDCR s AND RCC_BDCR_BDRST = 0"
    and "\<And>c. cfg = Some c \<Longrightarrow> rc_clock c \<in> {HAL_RTC_CLOCK_AUTO, hal_rtc_get_clock s}"
    and r: "hal_rtc_init cfg (system_reset s) = (st, t)"
  shows "RTC_BKPR t = RTC_BKPR s \<and> hal_rtc_get_clock t = hal_rtc_get_clock s \<and>
    (\<exists>n. rtc_calendar t = (rtc_next s ^^ n) (rtc_calendar s)) \<and>
    (st = HAL_OK \<longrightarrow> rtc_ready t \<and> (\<exists>n. fst (hal_rtc_get_datetime True t) = Inr (datetime_after n s (rtc_calendar s))))"
proof -
  let ?p = "rtc_power (system_reset s)"
  have p: "RCC_BDCR ?p = RCC_BDCR s" "RTC_CR ?p = RTC_CR s" "RTC_BKPR ?p = RTC_BKPR s" "rtc_next ?p = rtc_next s"
      "rtc_calendar ?p = rtc_calendar s" "\<not> rtc_dr_frozen ?p"
    by (simp_all add: rtc_power_def system_reset_def PWR_CR_write_def Let_def)
  have "\<not> bit (rtc_isr s AND NOT (RTC_ISR_INIT OR RTC_ISR_INITF OR RTC_ISR_RSF)) 5"
    unfolding bit_and_iff bit_not_iff_eq bit_or_iff RTC_ISR_RSF_def bit_one_at by simp
  then have "\<not> isr_flag RTC_ISR_RSF ?p" by (simp add: isr_flags rtc_power_def system_reset_def PWR_CR_write_def Let_def del: bit.de_Morgan_disj)
  then have c: "copies (rtc_next s) (rtc_calendar s) ?p" using p by (auto simp: copies_def intro: exI [of _ 0])
  have b: "RCC_BDCR ?p AND RCC_BDCR_BDRST = 0" using assms(3) p(1) by simp
  have i: "hal_rtc_init cfg (system_reset s) = rtc_adopt (RCC_BDCR s AND RCC_BDCR_RTCSEL_MASK)
      (case cfg of None \<Rightarrow> 0 | Some c \<Rightarrow> rc_lse_timeout_ms c) ?p"
    by (rule init_adopts [OF assms(2,3)]) (rule assms(4))
  note a = adopt_copies [OF r [unfolded i] b c]
  have k: "kept ?p t" "copies (rtc_next s) (rtc_calendar s) t" "st = HAL_OK \<Longrightarrow> isr_flag RTC_ISR_RSF t \<and> rtc_ready t"
    using a assms(3) p(1) by simp_all
  have cr: "RTC_CR t AND RTC_CR_BYPSHAD = 0"
    using adopt_cr [OF r [unfolded i] b] p(2) assms(1) by (simp add: rtc_ok_def)
  have "hal_rtc_get_clock ?p = hal_rtc_get_clock s" by (simp add: hal_rtc_get_clock_def p(1))
  then show ?thesis
    using k kept_clock [OF k(1)] get_copy [OF _ cr k(2)] p by (auto simp: kept_def datetime_after_def Let_def)
qed


theorem rtc_survives_reset_witness:
  "RTC_BKPR (snd (hal_rtc_init None (system_reset ((rtc_example [[ShadowsCopied]])
       \<lparr>rtc_calendar := (encode_tr dt_example, encode_dr dt_example), RTC_BKPR := (\<lambda>_. 7)\<rparr>)))) 0 = 7"
proof -
  let ?s = "(rtc_example [[ShadowsCopied]])\<lparr>rtc_calendar := (encode_tr dt_example, encode_dr dt_example), RTC_BKPR := (\<lambda>_. 7)\<rparr>"
  have v: "datetime_valid dt_example" by (simp add: dt_example_def datetime_valid_def)
  have y: "dt_year dt_example \<noteq> 2000" by (simp add: dt_example_def)
  have set: "hal_rtc_is_set ?s"
    using year_field_encode [OF v] y by (simp add: hal_rtc_is_set_def isr_flags) (simp add: rtc_example_def rcc_bdcr_defs)
  have b: "RCC_BDCR ?s AND RCC_BDCR_BDRST = 0" by (simp add: rtc_example_def rcc_bdcr_defs)
  have ok: "rtc_ok ?s" using example_ok [of "[[ShadowsCopied]]"] by (simp add: rtc_ok_def backup_open_def)
  show ?thesis
    using rtc_survives_reset [OF ok set b, of None "fst (hal_rtc_init None (system_reset ?s))" "snd (hal_rtc_init None (system_reset ?s))"]
    by simp
qed

text \<open>C28. An alarm fires at the seconds it names and no other. After \<open>hal_rtc_set_alarm\<close> returns \<open>HAL_OK\<close>, the
  second that brings the calendar to a date and time raises the alarm's flag exactly if every field the caller asked to
  match is equal there, day of the month or weekday as asked; a field not named is ignored, whatever it
  holds. With a callback the interrupt then pends, its line is enabled, and the handler on it has the callback to run.\<close>

theorem rtc_alarm_fires_when_asked:
  assumes ok: "rtc_ok s" and run: "RCC_BDCR s AND RCC_BDCR_RTCEN \<noteq> 0"
    and r: "hal_rtc_set_alarm a (Some c) cb s = (HAL_OK, t)"
    and dt: "datetime_valid dt" "rtc_next s (rtc_calendar t) = (encode_tr dt, encode_dr dt)"
  shows "(isr_flag (alarm_flag a) (rtc_happens SecondPassed t) \<longleftrightarrow> alarm_wants c dt) \<and>
    (alarm_wants c dt \<and> cb \<noteq> None \<longrightarrow> irq_pending 41 (rtc_happens SecondPassed t)) \<and>
    (cb \<noteq> None \<longrightarrow> irq_enabled 41 t \<and> irq_cb t 41 = Some RTC_ALARM_ISR \<and> alarm_cb t a = cb)"
proof -
  note e = set_alarm_effect [OF ok r]
  have m: "(RCC_BDCR_RTCEN OR RCC_BDCR_RTCSEL_MASK) AND RCC_BDCR_RTCEN = RCC_BDCR_RTCEN" by (simp add: rcc_bdcr_defs)
  have "(RCC_BDCR t AND (RCC_BDCR_RTCEN OR RCC_BDCR_RTCSEL_MASK)) AND RCC_BDCR_RTCEN =
      (RCC_BDCR s AND (RCC_BDCR_RTCEN OR RCC_BDCR_RTCSEL_MASK)) AND RCC_BDCR_RTCEN"
    using e(12) by (simp only: kept_def)
  then have runs: "calendar_runs t" using run e(13) unfolding and.assoc m by (simp add: calendar_runs_def)
  have "rtc_next t = rtc_next s" using e(12) by (simp add: kept_def)
  then have h: "alarm_hits (alarm_reg a t) (rtc_next t (rtc_calendar t)) \<longleftrightarrow> alarm_wants c dt"
    using alarm_hits_encode [OF e(1) dt(1)] dt(2) e(3) by simp
  have f: "isr_flag (alarm_flag a) (rtc_happens SecondPassed t) \<longleftrightarrow> alarm_wants c dt"
    using second_flag [OF runs e(2)] e(4,6) h by blast
  have i: "irq_pending 41 (rtc_happens SecondPassed t)" if "alarm_wants c dt" "cb \<noteq> None"
    using second_pends [OF runs e(2) e(10) [OF that(2)] e(4)] e(5) h that unfolding alarm_pends_def by blast
  have l: "cb \<noteq> None \<Longrightarrow> irq_enabled 41 t \<and> irq_cb t 41 = Some RTC_ALARM_ISR" using e(10) by (simp add: alarm_line_on_def)
  show ?thesis using f i l e(7) by (simp del: rtc_happens.simps)
qed

definition alarm_example :: hal_rtc_alarm_config where
  "alarm_example = \<lparr>ac_day = 5, ac_hour = 17, ac_minute = 5, ac_second = 0, ac_match = 0xF, ac_day_is_weekday = True\<rparr>"

theorem rtc_alarm_fires_when_asked_witness:
  "irq_pending 41 (rtc_happens SecondPassed (snd (hal_rtc_set_alarm HAL_RTC_ALARM_A (Some alarm_example) (Some 9)
     ((rtc_example [[AlarmMayBeWritten HAL_RTC_ALARM_A]])\<lparr>rtc_next := (\<lambda>_. (encode_tr dt_example, encode_dr dt_example))\<rparr>))))"
proof -
  let ?s = "(rtc_example [[AlarmMayBeWritten HAL_RTC_ALARM_A]])\<lparr>rtc_next := (\<lambda>_. (encode_tr dt_example, encode_dr dt_example))\<rparr>"
  let ?r = "hal_rtc_set_alarm HAL_RTC_ALARM_A (Some alarm_example) (Some 9) ?s"
  have v: "datetime_valid dt_example" by (simp add: dt_example_def datetime_valid_def)
  have ok: "rtc_ok ?s" using example_ok [of "[[AlarmMayBeWritten HAL_RTC_ALARM_A]]"] by (simp add: rtc_ok_def backup_open_def)
  have "fst ?r = HAL_OK"
    by (rule alarm_answers [OF ok, where rest = "[]"]) (simp_all add: rtc_example_def alarm_example_def alarm_valid_def)
  then have r: "?r = (HAL_OK, snd ?r)" by (metis prod.collapse)
  have w: "alarm_wants alarm_example dt_example" by (simp add: alarm_wants_def alarm_example_def dt_example_def)
  have run: "RCC_BDCR ?s AND RCC_BDCR_RTCEN \<noteq> 0" by (simp add: rtc_example_def rcc_bdcr_defs)
  show ?thesis using rtc_alarm_fires_when_asked [OF ok run r v] w by simp
qed

end
