(* ===== verification/Spec2Isabelle.thy ===== *)
theory Spec2Isabelle
  imports Crc Watchdog Flash Flash_KV Boot_Block Sha256 Boot_Image Updater Updater_Session Boot_Link Boot_Stages Clock Clock_F7 Interrupts Mpu Timebase Boot_Compact Vfs Gpio Uart Cache Dma Uart_Dma Rtc
begin

text \<open>
  NavHAL is a hardware abstraction layer for microcontrollers (STM32F4/F7 first) with a two-stage
  secure boot chain on top. This development is a shallow embedding of its own logic: the boot
  chain from the console byte that asks for the loader to the hand-over to a verified image, the
  cryptography the verifier runs, the drivers those need, and the portable layers over the drivers.
  This theory imports all of it.

  How the parts interact. Stage-1 (boot/stage1) verifies stage-2 and stage-2 (boot/stage2) verifies
  the application, both with boot/common/verify_image.c, which uses the SHA-256 and Ed25519 of
  src/utils/crypto. What one boot leaves for the next is the boot block of src/common/hal_boot.c;
  the rollback floor is a key of the flash key/value store. A loader serves the frame protocol of
  boot/common/updater.c over USB or UART, checks frames with the CRC driver, writes through the raw
  partition API of the flash driver, and feeds the watchdog from every wait. The clock, interrupt,
  MPU and time-base drivers are what bring-up and the application use; the virtual file system and
  the console are services over FatFs and over the UART and USB drivers. The UART driver sits on GPIO,
  clock and interrupts; over DMA it also sits on the DMA controller and, on the F7, on the data cache.

  Conventions (theory Prelude). A device register or file-scope variable is a field of a state
  record; a component that calls another extends its record, so that the callee's operations apply
  to the caller's state. A function that may fail returns \<open>hal_status\<close> beside its state, as the C
  does; a pointer that may be NULL is an option; a loop that need not end is a partial function or
  runs over a list of what the outside does, and \<open>None\<close> is a call that has not returned. A machine
  integer is a word of its width; \<open>int\<close> is used for C's \<open>int\<close> only where its range cannot matter or
  is written out.

  Theories, in the order of the boot chain.
  \<^item> Boot_Block: hal_boot.c, the console matcher and the sealed block. Properties: the board resets
    exactly when the eight-byte sequence occurs in the stream; a power cut inside a seal is safe.
  \<^item> Sha256; F25519, Fprime, Sha512, Ed25519, Edsign (over the shared Limbs): the image digest, and the
    compact25519 backend from its field multiplication up to signing and verifying, with FIPS 180-4
    digests, arithmetic modulo \<open>2^255 - 19\<close> and modulo the group order, and the Edwards curve in the
    ring of field elements (\<open>gf\<close>) as the specifications the code is shown equal to. The
    primality of \<open>2^255 - 19\<close> and the group laws of the curve are not needed and not claimed: a
    signature is shown to be accepted exactly when the RFC 8032 equation holds for these operations.
  \<^item> Boot_Image: the flash map, the header and the verifier, for any signature backend; Boot_Compact
    puts the compact backend in.
  \<^item> Crc: bit-serial reference, table-driven and hardware backends behind the locale \<open>crc_backend\<close>.
  \<^item> Flash: the controller as its driver sees it and the raw partitions; Flash_KV: the key/value log,
    refined to a map (locale \<open>kv_store\<close>), with compaction through the second sector.
  \<^item> Updater: frame parser and commands; Updater_Session: a whole session against the locale
    \<open>partition_target\<close>, interpreted by both loaders; Boot_Link: the receive ring (locale \<open>byte_queue\<close>)
    and the bounded reads.
  \<^item> Boot_Stages: both mains, composed of all of the above. Properties: the two boot decisions, the
    three-strikes bound, no rollback over any history of boots, repair by a session, confinement.
  \<^item> Watchdog, Clock, Clock_F7, Interrupts, Mpu, Timebase: the drivers.
  \<^item> Freestanding, Console, Vfs: memory and string routines, the number printers, the file layer.
  \<^item> Gpio, Uart: src/vendor/stm32/gpio and uart behind src/common/hal_gpio.c and hal_uart.c; the locale
    \<open>char_device\<close> is what the text layer needs of a backend. Properties: numbers written read back, a line
    is received as it was sent.
  \<^item> Cache, Dma, Uart_Dma: src/arch/armv7e-m/cache/cache.c with the buffer helpers of the Cortex-M7 port,
    src/vendor/stm32/dma/dma.c, and src/common/hal_uart_dma.c with the tables of both families. The cache is valid
    and dirty lines over memory, a DMA stream moves one byte per step of the hardware, and the locale
    \<open>uart_dma_wiring\<close> is what the layer needs of a table and of the chip's request lines. Properties:
    coherence of the helpers, transmission in order and as the processor saw it, the receive ring. On
    the F4 two transmitters share a stream, and a lemma shows what that does.
  \<^item> Rtc: src/vendor/stm32/rtc/rtc.c, the whole of hal_rtc.h. The backup domain is modelled with its locks, shadow
    registers, comparators and the EXTI lines; what the hardware does at each poll is a list of events in the
    state. Properties: a date set reads back as one instant, a set calendar survives a reset, an alarm fires at
    the seconds it names; lemmas on the wakeup period, and on where alarms, timeouts and the year 2000 go wrong.

  Bounds and fuel. Waits on hardware run against what the hardware does: flash status reads
  against \<open>fl_dur\<close>, clock flags against the function \<open>hw\<close> and the code's own poll limits, SysTick
  waits against the list of ticks, transports against the list of what they deliver, UART status reads against
  the list of values the register goes through, RTC flags against the list of events, a wait for a DMA stream against the steps of the stream. Where a
  theorem says that a call returns, that is part of its conclusion. Message lengths for the
  digests are bounded by the width of the length field the code writes.

  What the models assume of hardware is in the opening text of each theory: the register
  behaviour the reference manual and the register headers document (keys, write-one-to-clear,
  ready flags), nothing about timing beyond it. The cache does not write a dirty line back on its own.

  Not modelled. FatFs is a parameter of Vfs (a record of its entry points): it is a vendored file
  system. The monocypher and tweetnacl backends are vendored alternatives to the compact one and
  enter as the signature check of Boot_Image. The I2C, SPI, USB, Ethernet, SDIO and timer
  drivers are sequences of register writes without a contract that can be stated apart from
  the peripheral. The polled half of the F7 UART backend repeats the F4's on other registers, as the AVR, PC and
  skeleton ports repeat the shared layers.
  \<open>str_to_float\<close> and \<open>hal_uart_write_float\<close> are floating point. Samples, tests, the kernel
  configuration and the build scripts carry no logic of their own. The assembly
  of start-up and of the jump to an image appears as the effect the C around it relies on.
\<close>

end
